(* ===== verification/Art_Prelude.thy ===== *)
theory Art_Prelude
  imports Main "HOL-Library.Multiset" "HOL-Library.List_Lexorder" "HOL-Library.AList"
begin

text \<open>
  Shared vocabulary of the development: Python exceptions as values, the error monad,
  insertion-ordered dictionaries, first-seen grouping, and the list lemmas the component
  theories use.

  A call that can raise returns a value of type \<open>'a result\<close>, that is \<open>error + 'a\<close>:
  \<open>Inl\<close> carries the exception, \<open>Inr\<close> the returned value.  The string of an
  exception is the constant part of its message.
\<close>

named_theorems py_defs \<open>definitions of the Python-level combinators\<close>

section \<open>Exceptions as values\<close>

datatype error =
    ValueError string
  | RuntimeError string
  | AssertionError string
  | TypeError string
  | KeyError
  | IndexError
  | ZeroDivisionError

type_synonym 'a result = "error + 'a"

definition bindE :: "'a result \<Rightarrow> ('a \<Rightarrow> 'b result) \<Rightarrow> 'b result" where
  "bindE r f = (case r of Inl e \<Rightarrow> Inl e | Inr v \<Rightarrow> f v)"

definition ensure :: "bool \<Rightarrow> error \<Rightarrow> 'a result \<Rightarrow> 'a result" where
  "ensure b e r = (if b then r else Inl e)"

fun is_ok :: "'a result \<Rightarrow> bool" where
  "is_ok (Inl e) = False"
| "is_ok (Inr v) = True"

text \<open>A comprehension whose body may raise: the first exception wins.\<close>

fun mapE :: "('a \<Rightarrow> 'b result) \<Rightarrow> 'a list \<Rightarrow> 'b list result" where
  "mapE f [] = Inr []"
| "mapE f (x # xs) = bindE (f x) (\<lambda>y. bindE (mapE f xs) (\<lambda>ys. Inr (y # ys)))"

text \<open>A loop over a state whose body may raise.\<close>

fun foldE :: "('a \<Rightarrow> 's \<Rightarrow> 's result) \<Rightarrow> 'a list \<Rightarrow> 's \<Rightarrow> 's result" where
  "foldE f [] s = Inr s"
| "foldE f (x # xs) s = bindE (f x s) (foldE f xs)"

lemma bindE_simps [simp]: "bindE (Inl e) f = Inl e" "bindE (Inr v) f = f v"
  by (simp_all add: bindE_def)

lemma bindE_Inr_iff: "bindE r f = Inr w \<longleftrightarrow> (\<exists>v. r = Inr v \<and> f v = Inr w)"
  by (cases r) auto

lemma bindE_Inl_iff:
  "bindE r f = Inl e \<longleftrightarrow> r = Inl e \<or> (\<exists>v. r = Inr v \<and> f v = Inl e)"
  by (cases r) auto

lemma ensure_simps [simp]: "ensure True e r = r" "ensure False e r = Inl e"
  by (simp_all add: ensure_def)

lemma ensure_Inr_iff: "ensure b e r = Inr v \<longleftrightarrow> b \<and> r = Inr v"
  by (simp add: ensure_def)

lemma ensure_Inl_iff: "ensure b e r = Inl e' \<longleftrightarrow> (if b then r = Inl e' else e = e')"
  by (simp add: ensure_def)

lemma is_ok_iff: "is_ok r \<longleftrightarrow> (\<exists>v. r = Inr v)"
  by (cases r) auto

lemmas result_iffs = bindE_Inr_iff bindE_Inl_iff ensure_Inr_iff ensure_Inl_iff is_ok_iff

lemma mapE_Inr_iff: "mapE f xs = Inr ys \<longleftrightarrow> list_all2 (\<lambda>x y. f x = Inr y) xs ys"
  by (induction xs arbitrary: ys) (auto simp: bindE_Inr_iff list_all2_Cons1)

lemma mapE_Inr_map: "(\<And>x. x \<in> set xs \<Longrightarrow> f x = Inr (g x)) \<Longrightarrow> mapE f xs = Inr (map g xs)"
  by (induction xs) auto

lemma mapE_length: "mapE f xs = Inr ys \<Longrightarrow> length ys = length xs"
  by (simp add: mapE_Inr_iff list_all2_lengthD)

lemma foldE_append [simp]: "foldE f (xs @ ys) s = bindE (foldE f xs s) (foldE f ys)"
proof (induction xs arbitrary: s)
  case Nil
  then show ?case by simp
next
  case (Cons x xs)
  then show ?case by (cases "f x s") auto
qed

text \<open>The loop rule of \<open>foldE\<close>: an invariant that every successful step keeps.\<close>

lemma foldE_invariant:
  assumes "foldE f xs s = Inr t" and "P s"
    and "\<And>x s s'. x \<in> set xs \<Longrightarrow> P s \<Longrightarrow> f x s = Inr s' \<Longrightarrow> P s'"
  shows "P t"
  using assms by (induction xs arbitrary: s) (auto simp: bindE_Inr_iff)

text \<open>Totality: an invariant under which every step succeeds.\<close>

lemma foldE_total:
  assumes "P s" and "\<And>x s. x \<in> set xs \<Longrightarrow> P s \<Longrightarrow> \<exists>s'. f x s = Inr s' \<and> P s'"
  shows "\<exists>t. foldE f xs s = Inr t \<and> P t"
  using assms
proof (induction xs arbitrary: s)
  case (Cons x xs)
  then obtain s' where "f x s = Inr s'" "P s'" by fastforce
  with Cons show ?case by simp
qed simp

lemma mapE_total: "\<forall>x \<in> set xs. \<exists>y. f x = Inr y \<Longrightarrow> \<exists>ys. mapE f xs = Inr ys"
  by (induction xs) auto

section \<open>Insertion-ordered dictionaries and first-seen grouping\<close>

text \<open>
  A Python \<open>dict\<close> whose iteration order matters is an association list in insertion
  order with distinct keys.  \<open>dict_append\<close> is \<open>d.setdefault(k, []).append(v)\<close>.
\<close>

fun dict_append :: "'k \<Rightarrow> 'v \<Rightarrow> ('k \<times> 'v list) list \<Rightarrow> ('k \<times> 'v list) list" where
  "dict_append k v [] = [(k, [v])]"
| "dict_append k v ((k', vs) # d) =
     (if k' = k then (k', vs @ [v]) # d else (k', vs) # dict_append k v d)"

definition group_first_seen :: "('a \<Rightarrow> 'k) \<Rightarrow> 'a list \<Rightarrow> ('k \<times> 'a list) list" where
  "group_first_seen key xs = foldl (\<lambda>d x. dict_append (key x) x d) [] xs"

lemma dict_append_keys:
  "map fst (dict_append k v d) = (if k \<in> set (map fst d) then map fst d else map fst d @ [k])"
  by (induction k v d rule: dict_append.induct) auto

lemma dict_append_map_of:
  "map_of (dict_append k v d) =
     (map_of d)(k \<mapsto> (case map_of d k of None \<Rightarrow> [v] | Some vs \<Rightarrow> vs @ [v]))"
  by (induction k v d rule: dict_append.induct) auto

lemma group_first_seen_snoc:
  "group_first_seen key (xs @ [x]) = dict_append (key x) x (group_first_seen key xs)"
  by (simp add: group_first_seen_def)

lemma group_first_seen_Nil [simp]: "group_first_seen key [] = []"
  by (simp add: group_first_seen_def)

lemma group_first_seen_keys:
  "distinct (map fst (group_first_seen key xs)) \<and>
   set (map fst (group_first_seen key xs)) = key ` set xs"
  by (induction xs rule: rev_induct) (auto simp: group_first_seen_snoc dict_append_keys)

lemma group_first_seen_map_of:
  "map_of (group_first_seen key xs) k =
     (if k \<in> key ` set xs then Some (filter (\<lambda>x. key x = k) xs) else None)"
proof (induction xs rule: rev_induct)
  case Nil
  then show ?case by simp
next
  case (snoc x xs)
  then show ?case
    by (auto simp: group_first_seen_snoc dict_append_map_of filter_empty_conv split: if_splits) (metis imageI)
qed

lemma group_first_seen_mem:
  "(k, g) \<in> set (group_first_seen key xs) \<longleftrightarrow> k \<in> key ` set xs \<and> g = filter (\<lambda>x. key x = k) xs"
  using group_first_seen_keys [of key xs] group_first_seen_map_of [of key xs k]
  by (metis map_of_eq_Some_iff option.distinct(1) option.inject)

lemma dict_append_mset:
  "mset (concat (map snd (dict_append k v d))) = add_mset v (mset (concat (map snd d)))"
  by (induction k v d rule: dict_append.induct) auto

lemma group_first_seen_mset: "mset (concat (map snd (group_first_seen key xs))) = mset xs"
  by (induction xs rule: rev_induct) (auto simp: group_first_seen_snoc dict_append_mset)

lemma group_first_seen_nonempty: "(k, g) \<in> set (group_first_seen key xs) \<Longrightarrow> g \<noteq> []"
  by (auto simp: group_first_seen_mem filter_empty_conv)

section \<open>Lexicographic order of Python sequences\<close>

text \<open>
  Python compares tuples lexicographically; \<open>List_Lexorder\<close> gives that order on lists.
  A row between two rows that agree on their first \<open>e\<close> tokens agrees with both there.
\<close>

lemma lex_between_take:
  fixes lo r hi :: "'a::linorder list"
  assumes "lo \<le> r" and "r \<le> hi" and "take e lo = take e hi"
    and "e \<le> length lo" and "e \<le> length r" and "e \<le> length hi"
  shows "take e r = take e lo"
  using assms
proof (induction e arbitrary: lo r hi)
  case 0
  then show ?case by simp
next
  case (Suc e)
  obtain x lo' y r' z hi' where [simp]: "lo = x # lo'" "r = y # r'" "hi = z # hi'"
    using Suc.prems by (metis Suc_le_length_iff)
  from Suc.prems have "z = x" and "take e lo' = take e hi'" by auto
  moreover from Suc.prems \<open>z = x\<close> have "y = x" and "lo' \<le> r'" and "r' \<le> hi'" by auto
  ultimately show ?case using Suc.IH [of lo' r' hi'] Suc.prems by auto
qed

section \<open>Lists\<close>

lemma take_eq_extend:
  assumes "take s xs = take s ys" and "e \<le> length xs" and "e \<le> length ys"
    and "\<And>j. s \<le> j \<Longrightarrow> j < e \<Longrightarrow> xs ! j = ys ! j"
  shows "take e xs = take e ys"
proof (rule nth_equalityI)
  show "length (take e xs) = length (take e ys)" using assms by simp
  fix j assume "j < length (take e xs)"
  then have j: "j < e" using assms by simp
  show "take e xs ! j = take e ys ! j"
  proof (cases "j < s")
    case True
    then have "xs ! j = take s xs ! j" and "ys ! j = take s ys ! j" by simp_all
    with assms(1) j show ?thesis by simp
  next
    case False
    with assms(4) j show ?thesis by simp
  qed
qed

lemma take_eq_le: "take n xs = take n ys \<Longrightarrow> m \<le> n \<Longrightarrow> take m xs = take m ys"
proof -
  assume "take n xs = take n ys" "m \<le> n"
  then have "take m (take n xs) = take m (take n ys)" by simp
  with \<open>m \<le> n\<close> show ?thesis by (simp add: min_absorb1)
qed

lemma mset_concat_sum: "mset (concat (map f xs)) = (\<Sum>x\<leftarrow>xs. mset (f x))"
  by (induction xs) auto

definition slice :: "'a list \<Rightarrow> nat \<Rightarrow> nat \<Rightarrow> 'a list" where
  "slice xs a b = take (b - a) (drop a xs)"

lemma slice_self [simp]: "slice xs a a = []"
  by (simp add: slice_def)

lemma slice_length [simp]: "length (slice xs a b) = min (b - a) (length xs - a)"
  by (simp add: slice_def min.commute)

lemma slice_append: "a \<le> b \<Longrightarrow> b \<le> c \<Longrightarrow> slice xs a b @ slice xs b c = slice xs a c"
proof -
  assume "a \<le> b" "b \<le> c"
  then obtain d e where "b = a + d" "c = a + d + e" by (metis le_iff_add)
  then show ?thesis by (simp add: slice_def take_add add.commute)
qed

lemma slice_full [simp]: "slice xs 0 (length xs) = xs"
  by (simp add: slice_def)

lemma slice_eq_of_take: "take b xs = take b ys \<Longrightarrow> slice xs a b = slice ys a b"
  unfolding slice_def by (cases "a \<le> b") (simp_all add: take_drop)

end
