(* ===== verification/Segment_Plan.thy ===== *)
theory Segment_Plan
  imports Art_Prelude
begin

text \<open>
  The plan a packer hands to the model: an ordered list of segments, each a token range
  of one or more sequences stored once, with the group identifiers that describe the
  prefix tree.  \<open>well_packed\<close> is the contract every packer of the code base promises
  (the radix walk, the restricted plan of one bin, the planner's layouts), and the
  locale \<open>prefix_packer\<close> collects what every client may conclude from it.
\<close>

section \<open>Segments\<close>

text \<open>\<^verbatim>\<open>_PrefixSegment\<close>, and \<^verbatim>\<open>PrefixTreePackSegment\<close> which adds the packed position.\<close>

record prefix_segment =
  sequence_indices :: "nat list"
  seg_start :: nat
  seg_end :: nat
  group_id :: int
  parent_id :: int

record pack_segment = prefix_segment +
  packed_start :: nat

definition seg_length :: "'a prefix_segment_scheme \<Rightarrow> nat" where
  "seg_length s = seg_end s - seg_start s"

section \<open>The contract\<close>

text \<open>
  \<open>seg_chain a b p ss\<close>: the segments \<open>ss\<close> of one sequence tile \<open>[a, b)\<close> without
  gaps, and each points at the one before it (the first at \<open>p\<close>, or at itself).
\<close>

fun seg_chain :: "nat \<Rightarrow> nat \<Rightarrow> int option \<Rightarrow> 'a prefix_segment_scheme list \<Rightarrow> bool" where
  "seg_chain a b p [] \<longleftrightarrow> a = b"
| "seg_chain a b p (s # ss) \<longleftrightarrow>
     seg_start s = a \<and> a < seg_end s \<and>
     parent_id s = (case p of None \<Rightarrow> group_id s | Some g \<Rightarrow> g) \<and>
     seg_chain (seg_end s) b (Some (group_id s)) ss"

definition path :: "nat \<Rightarrow> 'a prefix_segment_scheme list \<Rightarrow> 'a prefix_segment_scheme list" where
  "path i segs = filter (\<lambda>s. i \<in> set (sequence_indices s)) segs"

lemma path_append [simp]: "path i (xs @ ys) = path i xs @ path i ys"
  by (simp add: path_def)

lemma path_Nil [simp]: "path i [] = []"
  by (simp add: path_def)

lemma path_Cons: "path i (s # ss) = (if i \<in> set (sequence_indices s) then s # path i ss else path i ss)"
  by (simp add: path_def)


fun packed_from :: "nat \<Rightarrow> pack_segment list \<Rightarrow> bool" where
  "packed_from c [] \<longleftrightarrow> True"
| "packed_from c (s # ss) \<longleftrightarrow> packed_start s = c \<and> packed_from (c + seg_length s) ss"

definition rows_agree :: "int list list \<Rightarrow> nat set \<Rightarrow> nat \<Rightarrow> bool" where
  "rows_agree rs A n \<longleftrightarrow>
     (\<forall>i \<in> A. i < length rs \<and> n \<le> length (rs ! i)) \<and>
     (\<forall>i \<in> A. \<forall>j \<in> A. take n (rs ! i) = take n (rs ! j))"

definition seg_valid :: "int list list \<Rightarrow> 'a prefix_segment_scheme \<Rightarrow> bool" where
  "seg_valid rs s \<longleftrightarrow>
     sequence_indices s \<noteq> [] \<and> distinct (sequence_indices s) \<and> group_id s > 0 \<and>
     rows_agree rs (set (sequence_indices s)) (seg_end s)"

definition well_packed :: "int list list \<Rightarrow> pack_segment list \<Rightarrow> bool" where
  "well_packed rs segs \<longleftrightarrow>
     (\<forall>i < length rs. seg_chain 0 (length (rs ! i)) None (path i segs)) \<and>
     (\<forall>s \<in> set segs. seg_valid rs s) \<and>
     distinct (map group_id segs) \<and> packed_from 0 segs"

definition plan_length :: "'a prefix_segment_scheme list \<Rightarrow> nat" where
  "plan_length segs = sum_list (map seg_length segs)"

lemma rows_agree_len: "rows_agree rs A n \<Longrightarrow> i \<in> A \<Longrightarrow> n \<le> length (rs ! i)"
  unfolding rows_agree_def by blast

lemma rows_agree_bound: "rows_agree rs A n \<Longrightarrow> i \<in> A \<Longrightarrow> i < length rs"
  unfolding rows_agree_def by blast

lemma rows_agree_take:
  "rows_agree rs A n \<Longrightarrow> i \<in> A \<Longrightarrow> j \<in> A \<Longrightarrow> take n (rs ! i) = take n (rs ! j)"
  unfolding rows_agree_def by blast

lemma rows_agree_slice:
  assumes "rows_agree rs A n" and "i \<in> A" and "j \<in> A"
  shows "slice (rs ! i) a n = slice (rs ! j) a n"
  by (rule slice_eq_of_take [OF rows_agree_take [OF assms]])

lemma well_packedD:
  assumes "well_packed rs segs"
  shows "i < length rs \<Longrightarrow> seg_chain 0 (length (rs ! i)) None (path i segs)"
    and "s \<in> set segs \<Longrightarrow> seg_valid rs s"
    and "distinct (map group_id segs)"
    and "packed_from 0 segs"
  using assms unfolding well_packed_def by blast+

lemma path_mem: "s \<in> set (path i segs) \<longleftrightarrow> s \<in> set segs \<and> i \<in> set (sequence_indices s)"
  by (simp add: path_def)

section \<open>Chains\<close>

lemma seg_chain_le: "seg_chain a b p ss \<Longrightarrow> a \<le> b"
  by (induction a b p ss rule: seg_chain.induct) auto

lemma seg_chain_range:
  "seg_chain a b p ss \<Longrightarrow> s \<in> set ss \<Longrightarrow> a \<le> seg_start s \<and> seg_start s < seg_end s \<and> seg_end s \<le> b"
proof (induction a b p ss rule: seg_chain.induct)
  case (1 a b p)
  then show ?case by simp
next
  case (2 a b p t ss)
  then show ?case using seg_chain_le [of "seg_end t" b "Some (group_id t)" ss] by auto
qed

text \<open>Tiling: the token ranges of a chain, concatenated, are the range it spans.\<close>

lemma seg_chain_slices:
  "seg_chain a b p ss \<Longrightarrow> concat (map (\<lambda>s. slice xs (seg_start s) (seg_end s)) ss) = slice xs a b"
proof (induction a b p ss rule: seg_chain.induct)
  case (1 a b p)
  then show ?case by simp
next
  case (2 a b p s ss)
  then show ?case
    using seg_chain_le [of "seg_end s" b "Some (group_id s)" ss] by (simp add: slice_append)
qed

lemma seg_chain_length: "seg_chain a b p ss \<Longrightarrow> plan_length ss = b - a"
proof (induction a b p ss rule: seg_chain.induct)
  case (1 a b p)
  then show ?case by (simp add: plan_length_def)
next
  case (2 a b p s ss)
  then show ?case
    using seg_chain_le [of "seg_end s" b "Some (group_id s)" ss]
    by (simp add: plan_length_def seg_length_def)
qed

section \<open>Materialised tensors\<close>

text \<open>
  A packed tensor concatenates one chunk per segment, in plan order; the positions of a
  sequence concatenate the packed ranges of its segments.
\<close>

definition materialize :: "('s prefix_segment_scheme \<Rightarrow> 'a list) \<Rightarrow> 's prefix_segment_scheme list \<Rightarrow> 'a list" where
  "materialize f segs = concat (map f segs)"

definition packed_range :: "pack_segment \<Rightarrow> nat list" where
  "packed_range s = [packed_start s..<packed_start s + seg_length s]"

definition positions_of :: "nat \<Rightarrow> pack_segment list \<Rightarrow> nat list" where
  "positions_of i segs = concat (map packed_range (path i segs))"

definition token_chunk :: "int list list \<Rightarrow> pack_segment \<Rightarrow> int list" where
  "token_chunk rs s = slice (rs ! hd (sequence_indices s)) (seg_start s) (seg_end s)"

lemma materialize_nth:
  assumes "packed_from c segs" and "s \<in> set segs" and "k < seg_length s"
    and "\<And>t. t \<in> set segs \<Longrightarrow> length (f t) = seg_length t"
  shows "c \<le> packed_start s \<and> materialize f segs ! (packed_start s - c + k) = f s ! k"
  using assms
proof (induction c segs rule: packed_from.induct)
  case (1 c)
  then show ?case by simp
next
  case (2 c t ts)
  show ?case
  proof (cases "s \<in> set ts")
    case True
    with 2 have IH: "c + seg_length t \<le> packed_start s"
      "materialize f ts ! (packed_start s - (c + seg_length t) + k) = f s ! k" by auto
    from IH(1) obtain d where d: "packed_start s = c + seg_length t + d" by (metis le_iff_add)
    with IH(2) "2.prems"(4) [of t] show ?thesis
      by (simp add: materialize_def nth_append)
  next
    case False
    with 2 show ?thesis by (auto simp: materialize_def nth_append)
  qed
qed

lemma materialize_range:
  assumes "packed_from 0 segs" and "s \<in> set segs"
    and "\<And>t. t \<in> set segs \<Longrightarrow> length (f t) = seg_length t"
  shows "map ((!) (materialize f segs)) (packed_range s) = f s"
proof (rule nth_equalityI)
  show "length (map ((!) (materialize f segs)) (packed_range s)) = length (f s)"
    using assms by (simp add: packed_range_def)
  fix k assume "k < length (map ((!) (materialize f segs)) (packed_range s))"
  then have k: "k < seg_length s" by (simp add: packed_range_def)
  with materialize_nth [OF assms(1,2) k assms(3)]
  show "map ((!) (materialize f segs)) (packed_range s) ! k = f s ! k"
    by (simp add: packed_range_def)
qed

lemma materialize_positions:
  assumes "packed_from 0 segs" and "\<And>t. t \<in> set segs \<Longrightarrow> length (f t) = seg_length t"
  shows "map ((!) (materialize f segs)) (positions_of i segs) = concat (map f (path i segs))"
proof -
  have "map (\<lambda>s. map ((!) (materialize f segs)) (packed_range s)) (path i segs) = map f (path i segs)"
    using materialize_range [OF assms(1) _ assms(2)] by (auto simp: path_mem)
  then show ?thesis
    by (simp add: positions_of_def map_concat comp_def del: map_eq_conv)
qed

section \<open>The interface\<close>

locale prefix_packer =
  fixes pack :: "'c \<Rightarrow> int list list \<Rightarrow> pack_segment list"
    and accepts :: "'c \<Rightarrow> int list list \<Rightarrow> bool"
  assumes packs: "accepts c rs \<Longrightarrow> well_packed rs (pack c rs)"
begin

lemma valid: "accepts c rs \<Longrightarrow> s \<in> set (pack c rs) \<Longrightarrow> seg_valid rs s"
  by (rule well_packedD(2) [OF packs])

lemma nonempty_segment:
  assumes "accepts c rs" and "s \<in> set (pack c rs)"
  shows "seg_start s < seg_end s"
proof -
  have v: "seg_valid rs s" by (rule valid [OF assms])
  then obtain i where i: "i \<in> set (sequence_indices s)"
    unfolding seg_valid_def by (metis list.set_intros(1) neq_Nil_conv)
  with v have "i < length rs" by (auto simp: seg_valid_def intro: rows_agree_bound)
  with well_packedD(1) [OF packs [OF assms(1)]] i assms(2) show ?thesis
    using seg_chain_range [of 0 "length (rs ! i)" None "path i (pack c rs)" s]
    by (auto simp: path_mem)
qed

lemma token_chunk_member:
  assumes "accepts c rs" and "s \<in> set (pack c rs)" and "i \<in> set (sequence_indices s)"
  shows "token_chunk rs s = slice (rs ! i) (seg_start s) (seg_end s)"
  unfolding token_chunk_def
  using valid [OF assms(1,2)] assms(3)
  by (intro rows_agree_slice) (auto simp: seg_valid_def)

lemma token_chunk_length:
  assumes "accepts c rs" and "s \<in> set (pack c rs)"
  shows "length (token_chunk rs s) = seg_length s"
proof -
  have v: "seg_valid rs s" by (rule valid [OF assms])
  then have "seg_end s \<le> length (rs ! hd (sequence_indices s))"
    by (intro rows_agree_len [of rs "set (sequence_indices s)"]) (auto simp: seg_valid_def)
  then show ?thesis by (simp add: token_chunk_def seg_length_def)
qed

text \<open>Unpacking: the packed tokens read at the positions of a sequence are that sequence.\<close>

lemma unpack_tokens:
  assumes "accepts c rs" and "i < length rs"
  shows "map ((!) (materialize (token_chunk rs) (pack c rs))) (positions_of i (pack c rs)) = rs ! i"
proof -
  have "map ((!) (materialize (token_chunk rs) (pack c rs))) (positions_of i (pack c rs))
      = concat (map (token_chunk rs) (path i (pack c rs)))"
    by (rule materialize_positions [OF well_packedD(4) [OF packs [OF assms(1)]]])
      (rule token_chunk_length [OF assms(1)])
  also have "map (token_chunk rs) (path i (pack c rs))
      = map (\<lambda>s. slice (rs ! i) (seg_start s) (seg_end s)) (path i (pack c rs))"
    by (auto simp: path_mem token_chunk_member [OF assms(1)])
  also have "concat \<dots> = slice (rs ! i) 0 (length (rs ! i))"
    by (rule seg_chain_slices [OF well_packedD(1) [OF packs [OF assms(1)] assms(2)]])
  finally show ?thesis by simp
qed

lemma unpack_positions:
  assumes "accepts c rs" and "i < length rs"
  shows "map ((!) (materialize (\<lambda>s. [seg_start s..<seg_end s]) (pack c rs))) (positions_of i (pack c rs))
    = [0..<length (rs ! i)]"
proof -
  let ?xs = "[0..<length (rs ! i)]"
  have chain: "seg_chain 0 (length (rs ! i)) None (path i (pack c rs))"
    by (rule well_packedD(1) [OF packs [OF assms(1)] assms(2)])
  have "[seg_start s..<seg_end s] = slice ?xs (seg_start s) (seg_end s)"
    if "s \<in> set (path i (pack c rs))" for s
    using seg_chain_range [OF chain that] by (auto simp: slice_def)
  then have "concat (map (\<lambda>s. [seg_start s..<seg_end s]) (path i (pack c rs)))
      = concat (map (\<lambda>s. slice ?xs (seg_start s) (seg_end s)) (path i (pack c rs)))"
    by (metis (no_types, lifting) map_eq_conv)
  also have "\<dots> = slice ?xs 0 (length (rs ! i))" by (rule seg_chain_slices [OF chain])
  finally show ?thesis
    by (subst materialize_positions [OF well_packedD(4) [OF packs [OF assms(1)]]])
      (auto simp: seg_length_def slice_def)
qed

end

section \<open>The tree a plan describes\<close>

lemma seg_chain_pred:
  "seg_chain a b p (xs @ s # ys) \<Longrightarrow>
   (if xs = [] then seg_start s = a \<and> parent_id s = (case p of None \<Rightarrow> group_id s | Some g \<Rightarrow> g)
    else seg_start s = seg_end (last xs) \<and> parent_id s = group_id (last xs))"
proof (induction xs arbitrary: a p)
  case Nil
  then show ?case by simp
next
  case (Cons x xs)
  then have "seg_chain (seg_end x) b (Some (group_id x)) (xs @ s # ys)" by simp
  from Cons.IH [OF this] show ?case by (auto split: if_splits)
qed

lemma well_packed_pred:
  assumes wp: "well_packed rs (us @ s # vs)" and i: "i \<in> set (sequence_indices s)"
  shows "if path i us = [] then seg_start s = 0 \<and> parent_id s = group_id s
    else seg_start s = seg_end (last (path i us)) \<and> parent_id s = group_id (last (path i us))"
proof -
  have "i < length rs"
    using well_packedD(2) [OF wp, of s] i by (auto simp: seg_valid_def intro: rows_agree_bound)
  from well_packedD(1) [OF wp this] i
  have "seg_chain 0 (length (rs ! i)) None (path i us @ s # path i vs)" by (simp add: path_Cons)
  from seg_chain_pred [OF this] show ?thesis by simp
qed

lemma path_last_mem: "path i us \<noteq> [] \<Longrightarrow> last (path i us) \<in> set us \<and> i \<in> set (sequence_indices (last (path i us)))"
  using last_in_set [of "path i us"] by (auto simp: path_mem)

lemma group_id_unique:
  assumes "distinct (map group_id segs)" and "s \<in> set segs" and "t \<in> set segs"
    and "group_id s = group_id t"
  shows "s = t"
  using assms by (metis distinct_map inj_onD)

text \<open>A root starts at offset zero and no earlier segment holds its sequences.\<close>

lemma well_packed_root:
  assumes wp: "well_packed rs (us @ s # vs)" and root: "parent_id s = group_id s"
    and i: "i \<in> set (sequence_indices s)"
  shows "seg_start s = 0 \<and> path i us = []"
proof (rule ccontr)
  assume *: "\<not> ?thesis"
  then have ne: "path i us \<noteq> []" using well_packed_pred [OF wp i] by auto
  then have "group_id (last (path i us)) = group_id s"
    using well_packed_pred [OF wp i] root by simp
  moreover have "last (path i us) \<in> set us" using path_last_mem [OF ne] by blast
  ultimately show False using well_packedD(3) [OF wp] by (auto simp: image_iff)
qed

text \<open>Any other segment continues one earlier segment, which holds all of its sequences.\<close>

lemma well_packed_parent:
  assumes wp: "well_packed rs (us @ s # vs)" and child: "parent_id s \<noteq> group_id s"
  obtains t where "t \<in> set us" and "group_id t = parent_id s" and "seg_end t = seg_start s"
    and "set (sequence_indices s) \<subseteq> set (sequence_indices t)"
    and "\<And>i. i \<in> set (sequence_indices s) \<Longrightarrow> path i us \<noteq> [] \<and> last (path i us) = t"
proof -
  have pred: "path i us \<noteq> [] \<and> last (path i us) \<in> set us \<and>
      i \<in> set (sequence_indices (last (path i us))) \<and>
      seg_start s = seg_end (last (path i us)) \<and> parent_id s = group_id (last (path i us))"
    if "i \<in> set (sequence_indices s)" for i
    using well_packed_pred [OF wp that] child path_last_mem [of i us] by (auto split: if_splits)
  have "sequence_indices s \<noteq> []" using well_packedD(2) [OF wp, of s] by (simp add: seg_valid_def)
  then obtain k where k: "k \<in> set (sequence_indices s)" by (cases "sequence_indices s") auto
  let ?t = "last (path k us)"
  have same: "last (path i us) = ?t" if "i \<in> set (sequence_indices s)" for i
  proof (rule group_id_unique)
    show "distinct (map group_id us)" using well_packedD(3) [OF wp] by simp
    show "last (path i us) \<in> set us" "?t \<in> set us" using pred [OF that] pred [OF k] by blast+
    show "group_id (last (path i us)) = group_id ?t" using pred [OF that] pred [OF k] by simp
  qed
  show thesis
  proof (rule that [of ?t])
    show "?t \<in> set us" "group_id ?t = parent_id s" "seg_end ?t = seg_start s"
      using pred [OF k] by auto
    show "set (sequence_indices s) \<subseteq> set (sequence_indices ?t)"
      using pred same by (metis subsetI)
    show "path i us \<noteq> [] \<and> last (path i us) = ?t" if "i \<in> set (sequence_indices s)" for i
      using pred [OF that] same [OF that] by blast
  qed
qed

section \<open>Counting tokens\<close>

lemma plan_length_simps [simp]:
  "plan_length [] = 0" "plan_length (s # ss) = seg_length s + plan_length ss"
  "plan_length (xs @ ys) = plan_length xs + plan_length ys"
  by (simp_all add: plan_length_def)

lemma path_length_sum:
  assumes "\<And>s. s \<in> set segs \<Longrightarrow> distinct (sequence_indices s) \<and> (\<forall>i \<in> set (sequence_indices s). i < n)"
  shows "(\<Sum>i<n. plan_length (path i segs)) = (\<Sum>s\<leftarrow>segs. seg_length s * length (sequence_indices s))"
  using assms
proof (induction segs)
  case Nil
  then show ?case by simp
next
  case (Cons s segs)
  let ?A = "set (sequence_indices s)"
  have A: "?A \<subseteq> {..<n}" "card ?A = length (sequence_indices s)"
    using Cons.prems [of s] by (auto simp: distinct_card)
  have "(\<Sum>i<n. plan_length (path i (s # segs)))
      = (\<Sum>i<n. (if i \<in> ?A then seg_length s else 0) + plan_length (path i segs))"
    by (intro sum.cong) (auto simp: path_Cons)
  also have "\<dots> = (\<Sum>i<n. (if i \<in> ?A then seg_length s else 0)) + (\<Sum>i<n. plan_length (path i segs))"
    by (rule sum.distrib)
  also have "(\<Sum>i<n. (if i \<in> ?A then seg_length s else 0)) = (\<Sum>i \<in> ?A. seg_length s)"
    using A(1) by (simp add: sum.If_cases Int_absorb1)
  also have "\<dots> = seg_length s * length (sequence_indices s)" using A(2) by simp
  also have "(\<Sum>i<n. plan_length (path i segs)) = (\<Sum>s\<leftarrow>segs. seg_length s * length (sequence_indices s))"
    by (rule Cons.IH) (use Cons.prems in auto)
  finally show ?case by simp
qed

context prefix_packer
begin

lemma members:
  assumes "accepts c rs" and "s \<in> set (pack c rs)"
  shows "distinct (sequence_indices s) \<and> (\<forall>i \<in> set (sequence_indices s). i < length rs)"
  using valid [OF assms] by (auto simp: seg_valid_def intro: rows_agree_bound)

text \<open>Double counting: a plan stores each token of each sequence once per segment holding it.\<close>

lemma token_accounting:
  assumes "accepts c rs"
  shows "(\<Sum>s\<leftarrow>pack c rs. seg_length s * length (sequence_indices s)) = (\<Sum>i<length rs. length (rs ! i))"
proof -
  have "(\<Sum>i<length rs. length (rs ! i)) = (\<Sum>i<length rs. plan_length (path i (pack c rs)))"
    by (intro sum.cong refl)
      (simp add: seg_chain_length [OF well_packedD(1) [OF packs [OF assms]]])
  also have "\<dots> = (\<Sum>s\<leftarrow>pack c rs. seg_length s * length (sequence_indices s))"
    by (rule path_length_sum) (rule members [OF assms])
  finally show ?thesis by simp
qed

lemma never_grows:
  assumes "accepts c rs"
  shows "plan_length (pack c rs) \<le> (\<Sum>i<length rs. length (rs ! i))"
proof -
  have "seg_length s \<le> seg_length s * length (sequence_indices s)" if "s \<in> set (pack c rs)" for s
    using valid [OF assms that] by (cases "sequence_indices s") (auto simp: seg_valid_def)
  then have "plan_length (pack c rs) \<le> (\<Sum>s\<leftarrow>pack c rs. seg_length s * length (sequence_indices s))"
    unfolding plan_length_def by (intro sum_list_mono)
  with token_accounting [OF assms] show ?thesis by simp
qed

end

section \<open>Lemmas the clients share\<close>

lemma materialize_append [simp]: "materialize f (xs @ ys) = materialize f xs @ materialize f ys"
  by (simp add: materialize_def)

lemma materialize_simps [simp]:
  "materialize f [] = []" "materialize f (x # xs) = f x @ materialize f xs"
  by (simp_all add: materialize_def)

lemma materialize_length:
  "(\<And>s. s \<in> set segs \<Longrightarrow> length (f s) = seg_length s) \<Longrightarrow> length (materialize f segs) = plan_length segs"
  by (induction segs) auto

lemma packed_from_append:
  "packed_from c (xs @ ys) \<longleftrightarrow> packed_from c xs \<and> packed_from (c + plan_length xs) ys"
  by (induction c xs rule: packed_from.induct) (auto simp: add.assoc)

lemma well_packed_members:
  assumes "well_packed rs segs" and "s \<in> set segs"
  shows "sequence_indices s \<noteq> [] \<and> hd (sequence_indices s) \<in> set (sequence_indices s) \<and> 0 < group_id s"
  using well_packedD(2) [OF assms] by (simp add: seg_valid_def)

lemma well_packed_seg_length:
  assumes wp: "well_packed rs segs" and s: "s \<in> set segs"
  shows "0 < seg_length s"
proof -
  let ?i = "hd (sequence_indices s)"
  have i: "?i \<in> set (sequence_indices s)" using well_packed_members [OF assms] by simp
  then have "?i < length rs"
    using well_packedD(2) [OF assms] by (auto simp: seg_valid_def intro: rows_agree_bound)
  from seg_chain_range [OF well_packedD(1) [OF wp this], of s] i s
  show ?thesis by (simp add: path_mem seg_length_def)
qed

lemma path_snoc: "path i (us @ [s]) = (if i \<in> set (sequence_indices s) then path i us @ [s] else path i us)"
  by (simp add: path_Cons)

lemma seg_chain_snoc:
  "seg_chain a b p ss \<Longrightarrow> seg_start s = b \<Longrightarrow> b < seg_end s \<Longrightarrow>
   (if ss = [] then parent_id s = (case p of None \<Rightarrow> group_id s | Some g \<Rightarrow> g)
    else parent_id s = group_id (last ss)) \<Longrightarrow>
   seg_chain a (seg_end s) p (ss @ [s])"
proof (induction ss arbitrary: a p)
  case Nil
  then show ?case by simp
next
  case (Cons t ss)
  then have "seg_chain (seg_end t) (seg_end s) (Some (group_id t)) (ss @ [s])"
    by (intro Cons.IH) (auto split: if_splits)
  with Cons.prems(1) show ?case by simp
qed

lemma seg_chain_last: "seg_chain a b p (ss @ [s]) \<Longrightarrow> seg_end s = b"
  by (induction ss arbitrary: a p) auto

lemma positions_of_length:
  assumes "well_packed rs segs" and "i < length rs"
  shows "length (positions_of i segs) = length (rs ! i)"
proof -
  have "length (positions_of i segs) = plan_length (path i segs)"
    by (simp add: positions_of_def packed_range_def length_concat comp_def plan_length_def)
  with seg_chain_length [OF well_packedD(1) [OF assms]] show ?thesis by simp
qed

lemma positions_bound:
  assumes wp: "well_packed rs segs" and p: "p \<in> set (positions_of i segs)"
  shows "p < plan_length segs"
proof -
  have "packed_from c ss \<Longrightarrow> s \<in> set ss \<Longrightarrow> packed_start s + seg_length s \<le> c + plan_length ss" for c s ss
  proof (induction c ss rule: packed_from.induct)
    case (2 c t ts)
    then show ?case by (cases "s = t") auto
  qed simp
  from this [OF well_packedD(4) [OF wp]] p show ?thesis
    by (fastforce simp: positions_of_def packed_range_def path_mem)
qed

end
