(* ===== verification/Prefix_Pack.thy ===== *)
theory Prefix_Pack
  imports Segment_Plan
begin

text \<open>
  \<^verbatim>\<open>src/art/megatron/prefix_tree_packing.py\<close>: the radix-tree walk that stores
  shared prompt prefixes once.

  Token rows are lists of integers, sequence indices and token offsets are natural
  numbers, group identifiers are integers (as in the packed metadata tensors, where
  \<open>-1\<close> marks padding).  The closures of \<^verbatim>\<open>_prefix_segments\<close> share the read-only
  variables of \<open>walk_env\<close> and the two variables of \<open>walk_state\<close> that they mutate.
\<close>

section \<open>The walk\<close>

record walk_env =
  rows :: "int list list"
  max_depth :: int
  shareable_lengths :: "nat list"
  min_shared_segment_length :: int

record walk_state =
  next_group_id :: int
  segments :: "prefix_segment list"

definition row_length :: "walk_env \<Rightarrow> nat \<Rightarrow> nat" where
  "row_length env i = length (rows env ! i)"

definition emit ::
  "nat list \<Rightarrow> nat \<Rightarrow> nat \<Rightarrow> int option \<Rightarrow> walk_state \<Rightarrow> int \<times> walk_state" where
  "emit indices start stop parent_group_id st =
     (let gid = next_group_id st
      in (gid, st\<lparr>next_group_id := gid + 1,
                 segments := segments st @
                   [\<lparr>sequence_indices = indices, seg_start = start, seg_end = stop,
                     group_id = gid,
                     parent_id = (case parent_group_id of None \<Rightarrow> gid | Some p \<Rightarrow> p)\<rparr>]\<rparr>))"

text \<open>
  \<^verbatim>\<open>shared_end\<close>: the lexicographically least and greatest of the rows, then one scan
  that compares only those two.
\<close>

fun low_high :: "int list \<Rightarrow> int list \<Rightarrow> int list list \<Rightarrow> int list \<times> int list" where
  "low_high low high [] = (low, high)"
| "low_high low high (row # rs) =
     (if row < low then low_high row high rs
      else if row > high then low_high low row rs
      else low_high low high rs)"

function scan_equal :: "int list \<Rightarrow> int list \<Rightarrow> nat \<Rightarrow> nat \<Rightarrow> nat" where
  "scan_equal low high start stop =
     (if start < stop
      then if low ! start \<noteq> high ! start then start
           else scan_equal low high (Suc start) stop
      else start)"
  by pat_completeness auto
termination
  by (relation "measure (\<lambda>(low, high, start, stop). stop - start)") auto

declare scan_equal.simps [simp del]

definition share_limit :: "walk_env \<Rightarrow> nat list \<Rightarrow> nat" where
  "share_limit env indices =
     Min (set (map (\<lambda>i. min (row_length env i) (shareable_lengths env ! i)) indices))"

definition shared_end :: "walk_env \<Rightarrow> nat list \<Rightarrow> nat \<Rightarrow> nat" where
  "shared_end env indices start =
     (let stop = share_limit env indices;
          first = rows env ! hd indices;
          (low, high) = low_high first first (map (\<lambda>i. rows env ! i) (tl indices))
      in scan_equal low high start stop)"

definition branch_groups :: "walk_env \<Rightarrow> nat list \<Rightarrow> nat \<Rightarrow> nat list list" where
  "branch_groups env indices start =
     map snd (group_first_seen (\<lambda>i. rows env ! i ! start) indices)"

text \<open>The loop \<^verbatim>\<open>for index in ...: emit((index,), start, lengths[index], parent_group_id)\<close>.\<close>

fun emit_tails ::
  "walk_env \<Rightarrow> nat list \<Rightarrow> nat \<Rightarrow> int option \<Rightarrow> walk_state \<Rightarrow> walk_state" where
  "emit_tails env [] start p st = st"
| "emit_tails env (i # is) start p st =
     emit_tails env is start p (snd (emit [i] start (row_length env i) p st))"

text \<open>
  \<^verbatim>\<open>emit_unshared_or_rebranch\<close>, up to its last loop: it emits the sequences that end
  (or stop being shareable) at the branch point and returns the groups the walk
  continues with.
\<close>

definition branchable :: "walk_env \<Rightarrow> nat \<Rightarrow> nat \<Rightarrow> bool" where
  "branchable env branch_start i \<longleftrightarrow>
     row_length env i > branch_start \<and> shareable_lengths env ! i > branch_start"

definition emit_unshared_or_rebranch ::
  "walk_env \<Rightarrow> nat list \<Rightarrow> nat \<Rightarrow> nat \<Rightarrow> int option \<Rightarrow> walk_state \<Rightarrow> walk_state \<times> nat list list"
  where
  "emit_unshared_or_rebranch env indices start branch_start p st =
     (emit_tails env (filter (\<lambda>i. \<not> branchable env branch_start i) indices) start p st,
      branch_groups env (filter (branchable env branch_start) indices) branch_start)"

definition active_of :: "walk_env \<Rightarrow> nat list \<Rightarrow> nat \<Rightarrow> nat list" where
  "active_of env indices start = filter (\<lambda>i. row_length env i > start) indices"

definition shareable_of :: "walk_env \<Rightarrow> nat list \<Rightarrow> nat \<Rightarrow> nat list" where
  "shareable_of env indices start =
     filter (\<lambda>i. shareable_lengths env ! i > start) (active_of env indices start)"

definition unshareable_of :: "walk_env \<Rightarrow> nat list \<Rightarrow> nat \<Rightarrow> nat list" where
  "unshareable_of env indices start =
     filter (\<lambda>i. i \<notin> set (shareable_of env indices start)) (active_of env indices start)"

subsection \<open>Facts that make the walk terminate\<close>

lemma low_high_mem:
  "fst (low_high low high rs) \<in> insert low (set rs) \<and>
   snd (low_high low high rs) \<in> insert high (set rs)"
  by (induction low high rs rule: low_high.induct) auto

lemma scan_equal_ge: "start \<le> scan_equal low high start stop"
proof (induction low high start stop rule: scan_equal.induct)
  case (1 low high start stop)
  then show ?case
    by (subst scan_equal.simps) (auto dest: Suc_leD)
qed

lemma scan_equal_le: "start \<le> stop \<Longrightarrow> scan_equal low high start stop \<le> stop"
proof (induction low high start stop rule: scan_equal.induct)
  case (1 low high start stop)
  then show ?case
    by (subst scan_equal.simps) auto
qed

lemma scan_equal_stop:
  "scan_equal low high start stop < stop \<Longrightarrow>
   low ! scan_equal low high start stop \<noteq> high ! scan_equal low high start stop"
proof (induction low high start stop rule: scan_equal.induct)
  case (1 low high start stop)
  then show ?case
    by (cases "start < stop \<and> low ! start = high ! start")
      (auto simp: scan_equal.simps [of low high start stop])
qed

lemma scan_equal_below:
  "start \<le> j \<Longrightarrow> j < scan_equal low high start stop \<Longrightarrow> low ! j = high ! j"
proof (induction low high start stop rule: scan_equal.induct)
  case (1 low high start stop)
  show ?case
  proof (cases "start < stop \<and> low ! start = high ! start")
    case True
    then have "scan_equal low high start stop = scan_equal low high (Suc start) stop"
      by (simp add: scan_equal.simps [of low high start stop])
    with 1 True show ?thesis by (cases "j = start") auto
  next
    case False
    with "1.prems" show ?thesis
      by (auto simp: scan_equal.simps [of low high start stop] split: if_splits)
  qed
qed

lemma shareable_of_subset: "set (shareable_of env indices start) \<subseteq> set indices"
  by (auto simp: shareable_of_def active_of_def)

lemma shareable_of_length: "length (shareable_of env indices start) \<le> length indices"
  unfolding shareable_of_def active_of_def
  by (metis length_filter_le order_trans)

lemma shareable_of_mem:
  "i \<in> set (shareable_of env indices start) \<longleftrightarrow>
   i \<in> set indices \<and> row_length env i > start \<and> shareable_lengths env ! i > start"
  by (auto simp: shareable_of_def active_of_def)

lemma share_limit_le:
  "i \<in> set indices \<Longrightarrow> share_limit env indices \<le> min (row_length env i) (shareable_lengths env ! i)"
  unfolding share_limit_def by (intro Min_le) auto

lemma share_limit_gt:
  assumes "indices \<noteq> []"
    and "\<And>i. i \<in> set indices \<Longrightarrow> row_length env i > start \<and> shareable_lengths env ! i > start"
  shows "start < share_limit env indices"
  unfolding share_limit_def using assms by (subst Min_gr_iff) auto

lemma share_limit_attained:
  assumes "indices \<noteq> []"
  shows "\<exists>i \<in> set indices. share_limit env indices = min (row_length env i) (shareable_lengths env ! i)"
proof -
  have "share_limit env indices
      \<in> set (map (\<lambda>i. min (row_length env i) (shareable_lengths env ! i)) indices)"
    unfolding share_limit_def using assms by (intro Min_in) auto
  then show ?thesis by auto
qed

definition shared_low_high :: "walk_env \<Rightarrow> nat list \<Rightarrow> int list \<times> int list" where
  "shared_low_high env indices =
     low_high (rows env ! hd indices) (rows env ! hd indices) (map (\<lambda>i. rows env ! i) (tl indices))"

lemma shared_end_alt:
  "shared_end env indices start =
     scan_equal (fst (shared_low_high env indices)) (snd (shared_low_high env indices))
       start (share_limit env indices)"
  by (simp add: shared_end_def shared_low_high_def Let_def split: prod.splits)

lemma shared_low_high_mem:
  assumes "indices \<noteq> []"
  shows "\<exists>i \<in> set indices. fst (shared_low_high env indices) = rows env ! i"
    and "\<exists>i \<in> set indices. snd (shared_low_high env indices) = rows env ! i"
  using low_high_mem [of "rows env ! hd indices" "rows env ! hd indices"
      "map (\<lambda>i. rows env ! i) (tl indices)"] assms
  unfolding shared_low_high_def by (cases indices; fastforce)+

lemma shared_end_ge: "start \<le> shared_end env indices start"
  by (simp add: shared_end_alt scan_equal_ge)

lemma shared_end_le:
  "start \<le> share_limit env indices \<Longrightarrow> shared_end env indices start \<le> share_limit env indices"
  by (simp add: shared_end_alt scan_equal_le)

text \<open>Where the shared prefix stops, one sequence leaves the branch or two of them differ.\<close>

lemma shared_end_splits:
  assumes ne: "indices \<noteq> []" and lim: "start \<le> share_limit env indices"
  shows "(\<exists>i \<in> set indices. \<not> branchable env (shared_end env indices start) i) \<or>
    (\<exists>i \<in> set indices. \<exists>j \<in> set indices.
       rows env ! i ! shared_end env indices start \<noteq> rows env ! j ! shared_end env indices start)"
proof (cases "shared_end env indices start < share_limit env indices")
  case True
  then have "fst (shared_low_high env indices) ! shared_end env indices start
      \<noteq> snd (shared_low_high env indices) ! shared_end env indices start"
    unfolding shared_end_alt by (rule scan_equal_stop)
  with shared_low_high_mem [OF ne, of env] show ?thesis by metis
next
  case False
  with shared_end_le [OF lim] have "shared_end env indices start = share_limit env indices"
    by simp
  moreover obtain i where "i \<in> set indices"
    and "share_limit env indices = min (row_length env i) (shareable_lengths env ! i)"
    using share_limit_attained [OF ne, of env] by blast
  ultimately have "\<not> branchable env (shared_end env indices start) i"
    by (auto simp: branchable_def)
  with \<open>i \<in> set indices\<close> show ?thesis by blast
qed

lemma branch_groups_mem:
  "g \<in> set (branch_groups env indices start) \<Longrightarrow>
   \<exists>i \<in> set indices. g = filter (\<lambda>j. rows env ! j ! start = rows env ! i ! start) indices"
  unfolding branch_groups_def by (auto simp: group_first_seen_mem)

lemma branch_group_shorter:
  assumes "g \<in> set (branch_groups env indices start)"
    and "i \<in> set indices" and "j \<in> set indices"
    and "rows env ! i ! start \<noteq> rows env ! j ! start"
  shows "length g < length indices"
proof -
  obtain k where g: "g = filter (\<lambda>j. rows env ! j ! start = rows env ! k ! start) indices"
    using branch_groups_mem [OF assms(1)] by blast
  obtain x where "x \<in> set indices" and "rows env ! x ! start \<noteq> rows env ! k ! start"
    using assms by metis
  then show ?thesis
    unfolding g by (auto intro: length_filter_less)
qed

lemma branch_group_subset:
  "g \<in> set (branch_groups env indices start) \<Longrightarrow> set g \<subseteq> set indices"
  using branch_groups_mem [of g env indices start] by auto

lemma branch_group_length:
  "g \<in> set (branch_groups env indices start) \<Longrightarrow> length g \<le> length indices"
  using branch_groups_mem [of g env indices start] by auto

lemma rebranch_group_shorter:
  assumes ne: "indices \<noteq> []" and lim: "start \<le> share_limit env indices"
    and g: "g \<in> set (branch_groups env (filter (branchable env b) indices) b)"
    and b: "b = shared_end env indices start"
  shows "length g < length indices"
proof (cases "\<forall>i \<in> set indices. branchable env b i")
  case True
  then have all: "filter (branchable env b) indices = indices" by simp
  with shared_end_splits [OF ne lim] True b obtain i j where
    "i \<in> set indices" "j \<in> set indices" "rows env ! i ! b \<noteq> rows env ! j ! b" by blast
  with g all show ?thesis by (metis branch_group_shorter)
next
  case False
  then have "length (filter (branchable env b) indices) < length indices"
    by (auto intro: length_filter_less)
  with branch_group_length [OF g] show ?thesis by simp
qed

subsection \<open>The recursion\<close>

definition walk_span :: "walk_env \<Rightarrow> nat list \<Rightarrow> nat" where
  "walk_span env indices = Max (insert 0 (row_length env ` set indices))"

lemma walk_span_mono: "set xs \<subseteq> set ys \<Longrightarrow> walk_span env xs \<le> walk_span env ys"
  unfolding walk_span_def by (intro Max_mono) auto

lemma row_length_le_span: "i \<in> set xs \<Longrightarrow> row_length env i \<le> walk_span env xs"
  unfolding walk_span_def by (intro Max_ge) auto

text \<open>
  \<^verbatim>\<open>walk\<close>.  Termination: the recursive call after a shared segment advances \<open>start\<close>
  within the longest row; the calls per branch group work on strictly fewer sequences.
\<close>

function walk ::
  "walk_env \<Rightarrow> nat list \<Rightarrow> nat \<Rightarrow> int option \<Rightarrow> int \<Rightarrow> walk_state \<Rightarrow> walk_state" where
  "walk env indices start parent_group_id depth st =
     (let active = active_of env indices start;
          shareable = shareable_of env indices start
      in if active = [] then st
         else let st1 = emit_tails env (unshareable_of env indices start) start parent_group_id st
         in if shareable = [] then st1
         else if max_depth env = 0 \<or> length shareable = 1 \<or>
                 (parent_group_id \<noteq> None \<and> depth \<ge> max_depth env)
         then emit_tails env shareable start parent_group_id st1
         else let stop = shared_end env shareable start
         in if stop > start
            then if int (stop - start) \<ge> min_shared_segment_length env
                 then let (gid, st2) = emit shareable start stop parent_group_id st1
                      in walk env shareable stop (Some gid) (depth + 1) st2
                 else let (st2, groups) =
                            emit_unshared_or_rebranch env shareable start stop parent_group_id st1
                      in fold (\<lambda>g s. walk env g start parent_group_id depth s) groups st2
            else fold (\<lambda>g s. walk env g start parent_group_id depth s)
                   (branch_groups env shareable start) st1)"
  by pat_completeness auto

lemma shareable_start_lt_limit:
  "shareable_of env indices start \<noteq> [] \<Longrightarrow>
   start < share_limit env (shareable_of env indices start)"
  by (rule share_limit_gt) (auto simp: shareable_of_mem)

lemma shared_call_measure:
  assumes "shareable_of env indices start \<noteq> []"
    and "start < shared_end env (shareable_of env indices start) start"
  shows "length (shareable_of env indices start)
      + (walk_span env (shareable_of env indices start)
         - shared_end env (shareable_of env indices start) start)
    < length indices + (walk_span env indices - start)"
proof -
  let ?s = "shareable_of env indices start"
  obtain i where i: "i \<in> set ?s" using assms(1) by (cases ?s) auto
  have "shared_end env ?s start \<le> share_limit env ?s"
    using shareable_start_lt_limit [OF assms(1)] by (intro shared_end_le) simp
  also have "\<dots> \<le> row_length env i" using share_limit_le [OF i, of env] by simp
  also have "\<dots> \<le> walk_span env ?s" by (rule row_length_le_span [OF i])
  finally have "shared_end env ?s start \<le> walk_span env ?s" .
  moreover have "walk_span env ?s \<le> walk_span env indices"
    by (rule walk_span_mono [OF shareable_of_subset])
  ultimately show ?thesis
    using assms(2) shareable_of_length [of env indices start] by linarith
qed

lemma group_call_measure:
  assumes "set g \<subseteq> set (shareable_of env indices start)"
    and "length g < length (shareable_of env indices start)"
  shows "length g + (walk_span env g - start) < length indices + (walk_span env indices - start)"
proof -
  have "walk_span env g \<le> walk_span env indices"
    using assms(1) shareable_of_subset [of env indices start] by (intro walk_span_mono) auto
  then show ?thesis using assms(2) shareable_of_length [of env indices start] by linarith
qed

lemma rebranch_call_measure:
  assumes "shareable_of env indices start \<noteq> []"
    and "g \<in> set (branch_groups env
        (filter (branchable env (shared_end env (shareable_of env indices start) start))
          (shareable_of env indices start))
        (shared_end env (shareable_of env indices start) start))"
  shows "length g + (walk_span env g - start) < length indices + (walk_span env indices - start)"
proof (rule group_call_measure)
  show "set g \<subseteq> set (shareable_of env indices start)"
    using branch_group_subset [OF assms(2)] by auto
  show "length g < length (shareable_of env indices start)"
    by (rule rebranch_group_shorter [OF assms(1) _ assms(2) refl])
      (simp add: less_imp_le shareable_start_lt_limit [OF assms(1)])
qed

lemma branch_call_measure:
  assumes "shareable_of env indices start \<noteq> []"
    and "\<not> start < shared_end env (shareable_of env indices start) start"
    and "g \<in> set (branch_groups env (shareable_of env indices start) start)"
  shows "length g + (walk_span env g - start) < length indices + (walk_span env indices - start)"
proof (rule rebranch_call_measure [OF assms(1)])
  have "shared_end env (shareable_of env indices start) start = start"
    using assms(2) shared_end_ge [of start env "shareable_of env indices start"] by simp
  moreover have "filter (branchable env start) (shareable_of env indices start)
      = shareable_of env indices start"
    by (auto simp: filter_id_conv branchable_def shareable_of_mem)
  ultimately show "g \<in> set (branch_groups env
      (filter (branchable env (shared_end env (shareable_of env indices start) start))
        (shareable_of env indices start))
      (shared_end env (shareable_of env indices start) start))"
    using assms(3) by simp
qed

termination walk
  by (relation "measure (\<lambda>(env, indices, start, p, d, st).
        length indices + (walk_span env indices - start))")
    (auto simp: emit_unshared_or_rebranch_def emit_def Let_def
      intro: shared_call_measure rebranch_call_measure branch_call_measure)

declare walk.simps [simp del]

section \<open>The shared end\<close>

lemma low_high_bounds:
  assumes "low \<le> high"
  shows "fst (low_high low high rs) \<le> low \<and> high \<le> snd (low_high low high rs) \<and>
    (\<forall>r \<in> set rs. fst (low_high low high rs) \<le> r \<and> r \<le> snd (low_high low high rs))"
  using assms
proof (induction low high rs rule: low_high.induct)
  case (1 low high)
  then show ?case by simp
next
  case (2 low high row rs)
  consider "row < low" | "\<not> row < low" "row > high" | "\<not> row < low" "\<not> row > high" by blast
  then show ?case
  proof cases
    case 1
    with 2 have "row \<le> high" by (meson less_imp_le order_trans)
    with 1 "2.IH"(1) show ?thesis by auto
  next
    case 2
    then have "low \<le> row" by (simp add: not_less)
    with 2 "2.IH"(2) "2.prems" show ?thesis by (auto intro: order_trans less_imp_le)
  next
    case 3
    with "2.IH"(3) "2.prems" show ?thesis by (auto simp: not_less intro: order_trans)
  qed
qed

lemma shared_low_high_bounds:
  assumes "i \<in> set indices"
  shows "fst (shared_low_high env indices) \<le> rows env ! i"
    and "rows env ! i \<le> snd (shared_low_high env indices)"
proof -
  obtain k ks where [simp]: "indices = k # ks" using assms by (cases indices) auto
  have "fst (shared_low_high env indices) \<le> rows env ! i \<and>
      rows env ! i \<le> snd (shared_low_high env indices)"
    using low_high_bounds [of "rows env ! k" "rows env ! k" "map (\<lambda>i. rows env ! i) ks"] assms
    by (auto simp: shared_low_high_def)
  then show "fst (shared_low_high env indices) \<le> rows env ! i"
    and "rows env ! i \<le> snd (shared_low_high env indices)" by simp_all
qed

definition agree_upto :: "walk_env \<Rightarrow> nat set \<Rightarrow> nat \<Rightarrow> bool" where
  "agree_upto env A n \<longleftrightarrow>
     (\<forall>i \<in> A. n \<le> row_length env i) \<and>
     (\<forall>i \<in> A. \<forall>j \<in> A. take n (rows env ! i) = take n (rows env ! j))"

lemma agree_upto_len: "agree_upto env A n \<Longrightarrow> i \<in> A \<Longrightarrow> n \<le> row_length env i"
  unfolding agree_upto_def by blast

lemma agree_upto_take:
  "agree_upto env A n \<Longrightarrow> i \<in> A \<Longrightarrow> j \<in> A \<Longrightarrow> take n (rows env ! i) = take n (rows env ! j)"
  unfolding agree_upto_def by blast

lemma agree_uptoI:
  "(\<And>i. i \<in> A \<Longrightarrow> n \<le> row_length env i) \<Longrightarrow>
   (\<And>i j. i \<in> A \<Longrightarrow> j \<in> A \<Longrightarrow> take n (rows env ! i) = take n (rows env ! j)) \<Longrightarrow> agree_upto env A n"
  unfolding agree_upto_def by blast

lemma agree_upto_subset: "agree_upto env A n \<Longrightarrow> B \<subseteq> A \<Longrightarrow> agree_upto env B n"
  unfolding agree_upto_def by blast

lemma agree_upto_mono:
  assumes "agree_upto env A n" and "m \<le> n"
  shows "agree_upto env A m"
proof (rule agree_uptoI)
  fix i assume "i \<in> A"
  from agree_upto_len [OF assms(1) this] assms(2) show "m \<le> row_length env i" by simp
next
  fix i j assume "i \<in> A" "j \<in> A"
  from agree_upto_take [OF assms(1) this] assms(2)
  show "take m (rows env ! i) = take m (rows env ! j)" by (rule take_eq_le)
qed

lemma agree_upto_singleton [simp]: "agree_upto env {i} n \<longleftrightarrow> n \<le> row_length env i"
  unfolding agree_upto_def by blast

lemma shared_end_agree:
  assumes ne: "indices \<noteq> []" and lim: "start \<le> share_limit env indices"
    and agree: "agree_upto env (set indices) start"
  shows "agree_upto env (set indices) (shared_end env indices start)"
proof -
  let ?e = "shared_end env indices start"
  let ?lo = "fst (shared_low_high env indices)" and ?hi = "snd (shared_low_high env indices)"
  have e_len: "?e \<le> row_length env i" if "i \<in> set indices" for i
    using shared_end_le [OF lim] share_limit_le [OF that, of env] by simp
  obtain l h where lh: "l \<in> set indices" "?lo = rows env ! l" "h \<in> set indices" "?hi = rows env ! h"
    using shared_low_high_mem [OF ne, of env] by blast
  have ends: "take ?e ?lo = take ?e ?hi"
  proof (rule take_eq_extend)
    show "take start ?lo = take start ?hi"
      using agree_upto_take [OF agree lh(1) lh(3)] lh(2,4) by (simp only:)
    show "?e \<le> length ?lo" using e_len [OF lh(1)] lh(2) by (simp only: row_length_def)
    show "?e \<le> length ?hi" using e_len [OF lh(3)] lh(4) by (simp only: row_length_def)
    show "?lo ! j = ?hi ! j" if "start \<le> j" "j < ?e" for j
      using that unfolding shared_end_alt by (rule scan_equal_below)
  qed
  have all: "take ?e (rows env ! i) = take ?e ?lo" if "i \<in> set indices" for i
  proof (rule lex_between_take [OF shared_low_high_bounds [OF that] ends])
    show "?e \<le> length ?lo" using e_len [OF lh(1)] lh(2) by (simp only: row_length_def)
    show "?e \<le> length ?hi" using e_len [OF lh(3)] lh(4) by (simp only: row_length_def)
    show "?e \<le> length (rows env ! i)" using e_len [OF that] by (simp only: row_length_def)
  qed
  show ?thesis
  proof (rule agree_uptoI)
    show "?e \<le> row_length env i" if "i \<in> set indices" for i by (rule e_len [OF that])
    show "take ?e (rows env ! i) = take ?e (rows env ! j)"
      if "i \<in> set indices" "j \<in> set indices" for i j
      using all [OF that(1)] all [OF that(2), symmetric] by (rule trans)
  qed
qed

section \<open>What the walk emits\<close>

definition seg_ok :: "walk_env \<Rightarrow> 'a prefix_segment_scheme \<Rightarrow> bool" where
  "seg_ok env s \<longleftrightarrow>
     sequence_indices s \<noteq> [] \<and> distinct (sequence_indices s) \<and>
     agree_upto env (set (sequence_indices s)) (seg_end s) \<and>
     (length (sequence_indices s) > 1 \<longrightarrow>
        (\<forall>i \<in> set (sequence_indices s). seg_end s \<le> shareable_lengths env ! i) \<and>
        int (seg_end s - seg_start s) \<ge> min_shared_segment_length env)"

definition covers ::
  "walk_env \<Rightarrow> nat set \<Rightarrow> nat \<Rightarrow> int option \<Rightarrow> prefix_segment list \<Rightarrow> bool" where
  "covers env A start p new \<longleftrightarrow>
     (\<forall>i \<in> A. seg_chain start (row_length env i) p (path i new)) \<and>
     (\<forall>i. i \<notin> A \<longrightarrow> path i new = []) \<and>
     (\<forall>s \<in> set new. seg_ok env s)"

text \<open>One part of the walk: it appends segments that cover \<open>A\<close> and numbers them in order.\<close>

definition steps ::
  "walk_env \<Rightarrow> nat set \<Rightarrow> nat \<Rightarrow> int option \<Rightarrow> walk_state \<Rightarrow> walk_state \<Rightarrow> bool" where
  "steps env A start p st st' \<longleftrightarrow>
     (\<exists>new. segments st' = segments st @ new \<and>
        next_group_id st' = next_group_id st + int (length new) \<and>
        map group_id new = map (\<lambda>k. next_group_id st + int k) [0..<length new] \<and>
        covers env A start p new)"

lemma numbered_append:
  assumes "map group_id xs = map (\<lambda>k. n + int k) [0..<length xs]"
    and "map group_id ys = map (\<lambda>k. n + int (length xs) + int k) [0..<length ys]"
  shows "map group_id (xs @ ys) = map (\<lambda>k. n + int k) [0..<length (xs @ ys)]"
proof -
  have "map (\<lambda>k. n + int k) [length xs..<length xs + length ys]
      = map (\<lambda>k. n + int (length xs) + int k) [0..<length ys]"
    by (rule nth_equalityI) simp_all
  with assms show ?thesis
    by (simp add: upt_add_eq_append [of 0 "length xs" "length ys", simplified])
qed

lemma steps_refl [simp]: "steps env {} start p st st"
  unfolding steps_def covers_def by (rule exI [of _ "[]"]) simp

lemma steps_done:
  assumes "\<And>i. i \<in> A \<Longrightarrow> row_length env i = start"
  shows "steps env A start p st st"
  unfolding steps_def covers_def using assms by (intro exI [of _ "[]"]) simp

lemma covers_append:
  assumes "covers env A start p xs" and "covers env B start p ys" and "A \<inter> B = {}"
  shows "covers env (A \<union> B) start p (xs @ ys)"
  using assms unfolding covers_def by (auto simp: disjoint_iff)

lemma steps_trans:
  assumes "steps env A start p st st1" and "steps env B start p st1 st2" and "A \<inter> B = {}"
  shows "steps env (A \<union> B) start p st st2"
proof -
  obtain xs where xs: "segments st1 = segments st @ xs"
    "next_group_id st1 = next_group_id st + int (length xs)"
    "map group_id xs = map (\<lambda>k. next_group_id st + int k) [0..<length xs]"
    "covers env A start p xs"
    using assms(1) unfolding steps_def by blast
  obtain ys where ys: "segments st2 = segments st1 @ ys"
    "next_group_id st2 = next_group_id st1 + int (length ys)"
    "map group_id ys = map (\<lambda>k. next_group_id st1 + int k) [0..<length ys]"
    "covers env B start p ys"
    using assms(2) unfolding steps_def by blast
  show ?thesis
    unfolding steps_def
  proof (intro exI conjI)
    show "segments st2 = segments st @ (xs @ ys)" using xs ys by simp
    show "next_group_id st2 = next_group_id st + int (length (xs @ ys))" using xs ys by simp
    show "map group_id (xs @ ys) = map (\<lambda>k. next_group_id st + int k) [0..<length (xs @ ys)]"
      by (rule numbered_append) (use xs ys in auto)
    show "covers env (A \<union> B) start p (xs @ ys)"
      by (rule covers_append) (use xs ys assms(3) in auto)
  qed
qed

lemma steps_emit_tail:
  assumes "start < row_length env i"
  shows "steps env {i} start p st (snd (emit [i] start (row_length env i) p st))"
  unfolding steps_def emit_def Let_def snd_conv using assms
  by (cases p; intro exI; auto simp: covers_def path_Cons seg_ok_def)

lemma steps_emit_tails:
  assumes "distinct is" and "\<And>i. i \<in> set is \<Longrightarrow> start < row_length env i"
  shows "steps env (set is) start p st (emit_tails env is start p st)"
  using assms
proof (induction env "is" start p st rule: emit_tails.induct)
  case (1 env start p st)
  then show ?case by simp
next
  case (2 env i "is" start p st)
  then have "steps env ({i} \<union> set is) start p st
      (emit_tails env is start p (snd (emit [i] start (row_length env i) p st)))"
    by (intro steps_trans [OF steps_emit_tail]) auto
  then show ?case by simp
qed

lemma steps_fold:
  assumes "distinct (concat gs)"
    and "\<And>g st. g \<in> set gs \<Longrightarrow> steps env (set g) start p st (f g st)"
  shows "steps env (set (concat gs)) start p st (fold f gs st)"
  using assms
proof (induction gs arbitrary: st)
  case Nil
  then show ?case by simp
next
  case (Cons g gs)
  then have "steps env (set g \<union> set (concat gs)) start p st (fold f gs (f g st))"
    by (intro steps_trans) auto
  then show ?case by simp
qed

lemma steps_shared:
  assumes shared: "emit is start stop p st = (gid, st1)" and "start < stop"
    and ok: "is \<noteq> []" "distinct is" "agree_upto env (set is) stop"
      "length is > 1 \<Longrightarrow> (\<forall>i \<in> set is. stop \<le> shareable_lengths env ! i) \<and>
         int (stop - start) \<ge> min_shared_segment_length env"
    and rest: "steps env (set is) stop (Some gid) st1 st2"
  shows "steps env (set is) start p st st2"
proof -
  let ?s = "\<lparr>sequence_indices = is, seg_start = start, seg_end = stop, group_id = gid,
    parent_id = (case p of None \<Rightarrow> gid | Some q \<Rightarrow> q)\<rparr>"
  have st1: "gid = next_group_id st" "next_group_id st1 = gid + 1"
    "segments st1 = segments st @ [?s]"
    using shared by (auto simp: emit_def Let_def)
  obtain ys where ys: "segments st2 = segments st1 @ ys"
    "next_group_id st2 = next_group_id st1 + int (length ys)"
    "map group_id ys = map (\<lambda>k. next_group_id st1 + int k) [0..<length ys]"
    "covers env (set is) stop (Some gid) ys"
    using rest unfolding steps_def by blast
  show ?thesis
    unfolding steps_def
  proof (intro exI conjI)
    show "segments st2 = segments st @ (?s # ys)" using st1 ys by simp
    show "next_group_id st2 = next_group_id st + int (length (?s # ys))" using st1 ys by simp
    show "map group_id (?s # ys) = map (\<lambda>k. next_group_id st + int k) [0..<length (?s # ys)]"
      using numbered_append [of "[?s]" "next_group_id st" ys] st1 ys by simp
    show "covers env (set is) start p (?s # ys)"
      using ys(4) ok \<open>start < stop\<close> by (cases p) (auto simp: covers_def path_Cons seg_ok_def)
  qed
qed

lemma branch_groups_partition:
  assumes "distinct indices"
  shows "distinct (concat (branch_groups env indices b))"
    and "set (concat (branch_groups env indices b)) = set indices"
proof -
  have m: "mset (concat (branch_groups env indices b)) = mset indices"
    unfolding branch_groups_def by (rule group_first_seen_mset)
  show "distinct (concat (branch_groups env indices b))"
    using m assms by (metis mset_eq_imp_distinct_iff)
  show "set (concat (branch_groups env indices b)) = set indices"
    using m by (metis set_mset_mset)
qed

lemma branch_group_distinct:
  "distinct indices \<Longrightarrow> g \<in> set (branch_groups env indices b) \<Longrightarrow> distinct g"
  using branch_groups_mem [of g env indices b] by auto

lemma shareable_of_distinct: "distinct indices \<Longrightarrow> distinct (shareable_of env indices start)"
  by (simp add: shareable_of_def active_of_def)

lemma unshareable_of_distinct: "distinct indices \<Longrightarrow> distinct (unshareable_of env indices start)"
  by (simp add: unshareable_of_def active_of_def)

lemma unshareable_of_mem:
  "i \<in> set (unshareable_of env indices start) \<longleftrightarrow>
   i \<in> set indices \<and> row_length env i > start \<and> i \<notin> set (shareable_of env indices start)"
  by (auto simp: unshareable_of_def active_of_def)

text \<open>Sequences that end where the walk stands need no segment.\<close>

lemma steps_skip_ended:
  assumes "steps env (set (filter (\<lambda>i. row_length env i > start) indices)) start p st st'"
    and "\<And>i. i \<in> set indices \<Longrightarrow> start \<le> row_length env i"
  shows "steps env (set indices) start p st st'"
proof -
  let ?done = "set (filter (\<lambda>i. \<not> row_length env i > start) indices)"
  have "steps env ?done start p st st"
    using assms(2) by (intro steps_done) force
  then have "steps env (?done \<union> set (filter (\<lambda>i. row_length env i > start) indices)) start p st st'"
    using assms(1) by (rule steps_trans) auto
  moreover have "?done \<union> set (filter (\<lambda>i. row_length env i > start) indices) = set indices"
    by auto
  ultimately show ?thesis by simp
qed

lemma steps_emit_shareable:
  assumes "distinct indices"
    and "steps env (set (shareable_of env indices start)) start p
      (emit_tails env (unshareable_of env indices start) start p st) st'"
    and "\<And>i. i \<in> set indices \<Longrightarrow> start \<le> row_length env i"
  shows "steps env (set indices) start p st st'"
proof (rule steps_skip_ended [OF _ assms(3)])
  have "steps env (set (unshareable_of env indices start)) start p st
      (emit_tails env (unshareable_of env indices start) start p st)"
    by (rule steps_emit_tails) (auto simp: unshareable_of_distinct assms(1) unshareable_of_mem)
  then have "steps env (set (unshareable_of env indices start) \<union> set (shareable_of env indices start))
      start p st st'"
    using assms(2) by (rule steps_trans) (auto simp: unshareable_of_mem)
  moreover have "set (unshareable_of env indices start) \<union> set (shareable_of env indices start)
      = set (filter (\<lambda>i. row_length env i > start) indices)"
    by (auto simp: unshareable_of_mem shareable_of_mem)
  ultimately show "steps env (set (filter (\<lambda>i. row_length env i > start) indices)) start p st st'"
    by simp
qed

lemma steps_rebranch:
  assumes d: "distinct is" and "\<And>i. i \<in> set is \<Longrightarrow> start < row_length env i"
    and eq: "emit_unshared_or_rebranch env is start b p st1 = (st2, groups)"
    and IH: "\<And>g st. g \<in> set groups \<Longrightarrow> steps env (set g) start p st (f g st)"
  shows "steps env (set is) start p st1 (fold f groups st2)"
proof -
  let ?in = "filter (branchable env b) is" and ?out = "filter (\<lambda>i. \<not> branchable env b i) is"
  have st2: "st2 = emit_tails env ?out start p st1" and groups: "groups = branch_groups env ?in b"
    using eq by (auto simp: emit_unshared_or_rebranch_def)
  have "steps env (set ?out) start p st1 st2"
    unfolding st2 using assms(1,2) by (intro steps_emit_tails) auto
  moreover have "steps env (set ?in) start p st2 (fold f groups st2)"
    using steps_fold [of groups env start p f st2] IH branch_groups_partition [of ?in env b] d
    by (simp add: groups)
  ultimately have "steps env (set ?out \<union> set ?in) start p st1 (fold f groups st2)"
    by (rule steps_trans) auto
  moreover have "set ?out \<union> set ?in = set is" by auto
  ultimately show ?thesis by simp
qed

subsection \<open>The cases of the walk\<close>

definition branching :: "walk_env \<Rightarrow> nat list \<Rightarrow> nat \<Rightarrow> int option \<Rightarrow> int \<Rightarrow> bool" where
  "branching env indices start p depth \<longleftrightarrow>
     active_of env indices start \<noteq> [] \<and> shareable_of env indices start \<noteq> [] \<and>
     \<not> (max_depth env = 0 \<or> length (shareable_of env indices start) = 1 \<or>
        (p \<noteq> None \<and> depth \<ge> max_depth env))"

lemma walk_idle:
  "active_of env indices start = [] \<Longrightarrow> walk env indices start p depth st = st"
  by (subst walk.simps) simp

lemma walk_flat:
  assumes "active_of env indices start \<noteq> []" and "\<not> branching env indices start p depth"
  shows "walk env indices start p depth st =
    emit_tails env (shareable_of env indices start) start p
      (emit_tails env (unshareable_of env indices start) start p st)"
  using assms unfolding branching_def by (subst walk.simps) (auto simp: Let_def)

lemma walk_shared:
  assumes "branching env indices start p depth"
    and "sh = shareable_of env indices start"
    and "st1 = emit_tails env (unshareable_of env indices start) start p st"
    and "e = shared_end env sh start" and "e > start" and "int (e - start) \<ge> min_shared_segment_length env"
    and "emit sh start e p st1 = (gid, st2)"
  shows "walk env indices start p depth st = walk env sh e (Some gid) (depth + 1) st2"
  using assms(1,5-7) unfolding assms(2-4) branching_def
  by (subst walk.simps) (simp only: Let_def if_False if_True split_conv simp_thms)

lemma walk_rebranch:
  assumes "branching env indices start p depth"
    and "sh = shareable_of env indices start"
    and "st1 = emit_tails env (unshareable_of env indices start) start p st"
    and "e = shared_end env sh start" and "e > start" and "\<not> int (e - start) \<ge> min_shared_segment_length env"
    and "emit_unshared_or_rebranch env sh start e p st1 = (st2, gs)"
  shows "walk env indices start p depth st = fold (\<lambda>g s. walk env g start p depth s) gs st2"
  using assms(1,5-7) unfolding assms(2-4) branching_def
  by (subst walk.simps) (simp only: Let_def if_False if_True split_conv simp_thms)

lemma walk_branch:
  assumes "branching env indices start p depth"
    and "sh = shareable_of env indices start"
    and "st1 = emit_tails env (unshareable_of env indices start) start p st"
    and "\<not> shared_end env sh start > start"
  shows "walk env indices start p depth st =
    fold (\<lambda>g s. walk env g start p depth s) (branch_groups env sh start) st1"
  using assms(1,4) unfolding assms(2,3) branching_def
  by (subst walk.simps) (simp only: Let_def if_False if_True split_conv simp_thms)

text \<open>The induction rule of the walk over these cases.\<close>

lemma walk_induct [case_names node]:
  assumes "\<And>indices start p depth st.
    (\<And>sh e gid st2.
       branching env indices start p depth \<Longrightarrow> sh = shareable_of env indices start \<Longrightarrow>
       e = shared_end env sh start \<Longrightarrow> e > start \<Longrightarrow>
       P sh e (Some gid) (depth + 1) st2) \<Longrightarrow>
    (\<And>sh e g s.
       branching env indices start p depth \<Longrightarrow> sh = shareable_of env indices start \<Longrightarrow>
       e = shared_end env sh start \<Longrightarrow>
       g \<in> set (branch_groups env (filter (branchable env e) sh) e) \<Longrightarrow>
       P g start p depth s) \<Longrightarrow>
    P indices start p depth st"
  shows "P indices start p depth st"
proof (induction "length indices + (walk_span env indices - start)"
    arbitrary: indices start p depth st rule: less_induct)
  case less
  show ?case
  proof (rule assms)
    fix sh e gid st2
    assume "branching env indices start p depth" "sh = shareable_of env indices start"
      "e = shared_end env sh start" "e > start"
    then show "P sh e (Some gid) (depth + 1) st2"
      using shared_call_measure [of env indices start] by (intro less) (auto simp: branching_def)
  next
    fix sh e g s
    assume "branching env indices start p depth" "sh = shareable_of env indices start"
      "e = shared_end env sh start" "g \<in> set (branch_groups env (filter (branchable env e) sh) e)"
    then show "P g start p depth s"
      using rebranch_call_measure [of env indices start g] by (intro less) (auto simp: branching_def)
  qed
qed

lemma branch_groups_at_start:
  assumes "sh = shareable_of env indices start" and "\<not> shared_end env sh start > start"
  shows "branch_groups env (filter (branchable env (shared_end env sh start)) sh) (shared_end env sh start)
    = branch_groups env sh start"
proof -
  have "shared_end env sh start = start"
    using assms(2) shared_end_ge [of start env sh] by simp
  moreover have "filter (branchable env start) sh = sh"
    unfolding assms(1) by (auto simp: filter_id_conv branchable_def shareable_of_mem)
  ultimately show ?thesis by simp
qed

text \<open>The shareable sequences at a node agree up to their shared end.\<close>

lemma shareable_agree:
  assumes "agree_upto env (set indices) start" and "shareable_of env indices start \<noteq> []"
  shows "agree_upto env (set (shareable_of env indices start))
    (shared_end env (shareable_of env indices start) start)"
proof (rule shared_end_agree [OF assms(2)])
  show "start \<le> share_limit env (shareable_of env indices start)"
    using shareable_start_lt_limit [OF assms(2)] by simp
  show "agree_upto env (set (shareable_of env indices start)) start"
    using assms(1) shareable_of_subset by (rule agree_upto_subset)
qed

lemma shared_end_shareable:
  assumes "shareable_of env indices start \<noteq> []" and "i \<in> set (shareable_of env indices start)"
  shows "shared_end env (shareable_of env indices start) start \<le> shareable_lengths env ! i"
proof -
  have "start \<le> share_limit env (shareable_of env indices start)"
    using shareable_start_lt_limit [OF assms(1)] by simp
  from shared_end_le [OF this] share_limit_le [OF assms(2), of env] show ?thesis by simp
qed

theorem walk_steps:
  assumes "distinct indices" and "agree_upto env (set indices) start"
  shows "steps env (set indices) start p st (walk env indices start p depth st)"
  using assms
proof (induction indices start p depth st rule: walk_induct [where env = env])
  case (node indices start p depth st)
  define sh where "sh = shareable_of env indices start"
  define st1 where "st1 = emit_tails env (unshareable_of env indices start) start p st"
  define e where "e = shared_end env sh start"
  have len: "start \<le> row_length env i" if "i \<in> set indices" for i
    using node.prems(2) that by (rule agree_upto_len)
  have dsh: "distinct sh" unfolding sh_def by (rule shareable_of_distinct [OF node.prems(1)])
  have ssh: "set sh \<subseteq> set indices" unfolding sh_def by (rule shareable_of_subset)
  have lsh: "start < row_length env i" if "i \<in> set sh" for i
    using that by (simp add: sh_def shareable_of_mem)
  have finish: "steps env (set indices) start p st st'" if "steps env (set sh) start p st1 st'" for st'
    using steps_emit_shareable [OF node.prems(1) _ len] that unfolding sh_def st1_def by blast
  have group: "steps env (set g) start p s (walk env g start p depth s)"
    if "branching env indices start p depth"
      "g \<in> set (branch_groups env (filter (branchable env e) sh) e)" for g s
  proof (rule node.IH(2) [OF that(1) sh_def e_def that(2)])
    have "set g \<subseteq> set sh" using branch_group_subset [OF that(2)] by auto
    then show "agree_upto env (set g) start"
      using ssh by (intro agree_upto_subset [OF node.prems(2)]) auto
    show "distinct g" using branch_group_distinct [OF _ that(2)] dsh by simp
  qed
  consider (idle) "active_of env indices start = []"
    | (flat) "active_of env indices start \<noteq> []" "\<not> branching env indices start p depth"
    | (shared) "branching env indices start p depth" "e > start" "int (e - start) \<ge> min_shared_segment_length env"
    | (rebranch) "branching env indices start p depth" "e > start" "\<not> int (e - start) \<ge> min_shared_segment_length env"
    | (branch) "branching env indices start p depth" "\<not> e > start"
    by blast
  then show ?case
  proof cases
    case idle
    then have "row_length env i = start" if "i \<in> set indices" for i
      using len [OF that] that by (auto simp: active_of_def filter_empty_conv)
    then have "steps env (set indices) start p st st" by (rule steps_done)
    with idle show ?thesis by (simp add: walk_idle)
  next
    case flat
    then have "walk env indices start p depth st = emit_tails env sh start p st1"
      unfolding sh_def st1_def by (rule walk_flat)
    then show ?thesis using steps_emit_tails [OF dsh lsh] by (simp add: finish)
  next
    case shared
    obtain gid st2 where em: "emit sh start e p st1 = (gid, st2)" by (cases "emit sh start e p st1")
    have ne: "sh \<noteq> []" using shared(1) by (simp add: branching_def sh_def)
    have agree: "agree_upto env (set sh) e"
      unfolding e_def using ne unfolding sh_def by (rule shareable_agree [OF node.prems(2)])
    have lim: "e \<le> shareable_lengths env ! i" if "i \<in> set sh" for i
      unfolding e_def using ne that unfolding sh_def by (rule shared_end_shareable)
    have rest: "steps env (set sh) e (Some gid) st2 (walk env sh e (Some gid) (depth + 1) st2)"
      by (rule node.IH(1) [OF shared(1) sh_def e_def shared(2) dsh agree])
    have "steps env (set sh) start p st1 (walk env sh e (Some gid) (depth + 1) st2)"
      by (rule steps_shared [OF em shared(2) ne dsh agree _ rest]) (use lim shared(3) in auto)
    moreover have "walk env indices start p depth st = walk env sh e (Some gid) (depth + 1) st2"
      by (rule walk_shared [OF shared(1) sh_def st1_def e_def shared(2,3) em])
    ultimately show ?thesis by (simp add: finish)
  next
    case rebranch
    obtain st2 gs where em: "emit_unshared_or_rebranch env sh start e p st1 = (st2, gs)"
      by (cases "emit_unshared_or_rebranch env sh start e p st1")
    then have gs: "gs = branch_groups env (filter (branchable env e) sh) e"
      by (simp add: emit_unshared_or_rebranch_def)
    have "steps env (set sh) start p st1 (fold (\<lambda>g s. walk env g start p depth s) gs st2)"
      using dsh lsh em by (rule steps_rebranch) (use group rebranch gs in auto)
    moreover have "walk env indices start p depth st = fold (\<lambda>g s. walk env g start p depth s) gs st2"
      by (rule walk_rebranch [OF rebranch(1) sh_def st1_def e_def rebranch(2,3) em])
    ultimately show ?thesis by (simp add: finish)
  next
    case branch
    have eq: "branch_groups env (filter (branchable env e) sh) e = branch_groups env sh start"
      using branch(2) unfolding e_def by (rule branch_groups_at_start [OF sh_def])
    have "steps env (set (concat (branch_groups env sh start))) start p st1
        (fold (\<lambda>g s. walk env g start p depth s) (branch_groups env sh start) st1)"
      using branch_groups_partition(1) [OF dsh]
      by (rule steps_fold) (use group branch eq in auto)
    then have "steps env (set sh) start p st1
        (fold (\<lambda>g s. walk env g start p depth s) (branch_groups env sh start) st1)"
      by (simp only: branch_groups_partition(2) [OF dsh])
    moreover have "walk env indices start p depth st
        = fold (\<lambda>g s. walk env g start p depth s) (branch_groups env sh start) st1"
      by (rule walk_branch [OF branch(1) sh_def st1_def]) (use branch(2) e_def in simp)
    ultimately show ?thesis by (simp add: finish)
  qed
qed

section \<open>The packing functions\<close>

text \<open>\<^verbatim>\<open>_shareable_lengths\<close> and \<^verbatim>\<open>_shareable_row_lengths\<close> (the same check on tensors and rows).\<close>

definition shareable_row_lengths :: "int list list \<Rightarrow> int list option \<Rightarrow> nat list result" where
  "shareable_row_lengths rs lengths =
     (case lengths of
        None \<Rightarrow> Inr (map length rs)
      | Some values \<Rightarrow>
          if length values \<noteq> length rs
          then Inl (ValueError ''shareable_lengths must have one entry per sequence'')
          else Inr (map2 (\<lambda>value row. nat (max 0 (min value (int (length row))))) values rs))"

text \<open>\<^verbatim>\<open>_prefix_segments\<close>: the walk over all rows from the empty prefix.\<close>

definition prefix_segments :: "walk_env \<Rightarrow> prefix_segment list" where
  "prefix_segments env =
     segments (walk env [0..<length (rows env)] 0 None 0 \<lparr>next_group_id = 1, segments = []\<rparr>)"

fun place_segments :: "nat \<Rightarrow> prefix_segment list \<Rightarrow> pack_segment list" where
  "place_segments cursor [] = []"
| "place_segments cursor (s # ss) =
     prefix_segment.extend s \<lparr>packed_start = cursor\<rparr> # place_segments (cursor + seg_length s) ss"

definition prefix_tree_pack_segments ::
  "int list list \<Rightarrow> int \<Rightarrow> int list option \<Rightarrow> int \<Rightarrow> pack_segment list result" where
  "prefix_tree_pack_segments rs depth lengths min_shared =
     ensure (depth \<ge> 0) (ValueError ''max_depth must be >= 0'')
    (ensure (min_shared \<ge> 0) (ValueError ''min_shared_segment_length must be >= 0'')
    (if rs = [] then Inr []
     else bindE (shareable_row_lengths rs lengths) (\<lambda>share_limits.
       Inr (place_segments 0 (prefix_segments
         \<lparr>rows = rs, max_depth = depth, shareable_lengths = share_limits,
          min_shared_segment_length = min_shared\<rparr>)))))"

record prefix_tree_pack =
  tokens :: "int list"
  group_ids :: "int list"
  parent_ids :: "int list"
  position_ids :: "nat list"
  positions_by_sequence :: "nat list list"
  pack_segments :: "pack_segment list"

definition empty_pack :: "nat \<Rightarrow> prefix_tree_pack" where
  "empty_pack sequence_count =
     \<lparr>tokens = [], group_ids = [], parent_ids = [], position_ids = [],
      positions_by_sequence = replicate sequence_count [], pack_segments = []\<rparr>"

record pack_chunks =
  token_chunks :: "int list list"
  group_chunks :: "int list list"
  parent_chunks :: "int list list"
  position_chunks :: "nat list list"
  sequence_chunks :: "nat list list list"
  pack_cursor :: nat

text \<open>One round of the loop of \<^verbatim>\<open>prefix_tree_pack\<close>.\<close>

definition append_at :: "'a \<Rightarrow> nat \<Rightarrow> 'a list list \<Rightarrow> 'a list list" where
  "append_at x i xss = xss[i := xss ! i @ [x]]"

definition pack_chunk :: "int list list \<Rightarrow> pack_segment \<Rightarrow> pack_chunks \<Rightarrow> pack_chunks" where
  "pack_chunk tensors planned acc =
     (let segment = slice (tensors ! hd (sequence_indices planned)) (seg_start planned) (seg_end planned);
          packed_positions = [pack_cursor acc..<pack_cursor acc + length segment]
      in \<lparr>token_chunks = token_chunks acc @ [segment],
          group_chunks = group_chunks acc @ [replicate (length segment) (group_id planned)],
          parent_chunks = parent_chunks acc @ [replicate (length segment) (parent_id planned)],
          position_chunks = position_chunks acc @ [[seg_start planned..<seg_end planned]],
          sequence_chunks =
            fold (append_at packed_positions) (sequence_indices planned) (sequence_chunks acc),
          pack_cursor = pack_cursor acc + length segment\<rparr>)"

definition concat_chunks :: "pack_segment list \<Rightarrow> pack_chunks \<Rightarrow> prefix_tree_pack" where
  "concat_chunks segs acc =
     \<lparr>tokens = concat (token_chunks acc), group_ids = concat (group_chunks acc),
      parent_ids = concat (parent_chunks acc), position_ids = concat (position_chunks acc),
      positions_by_sequence = map concat (sequence_chunks acc), pack_segments = segs\<rparr>"

definition pack_tensors :: "int list list \<Rightarrow> pack_segment list \<Rightarrow> prefix_tree_pack" where
  "pack_tensors tensors segs =
     concat_chunks segs (fold (pack_chunk tensors) segs
       \<lparr>token_chunks = [], group_chunks = [], parent_chunks = [], position_chunks = [],
        sequence_chunks = map (\<lambda>_. []) tensors, pack_cursor = 0\<rparr>)"

definition prefix_tree_pack ::
  "int list list \<Rightarrow> int \<Rightarrow> int list option \<Rightarrow> int \<Rightarrow> prefix_tree_pack result" where
  "prefix_tree_pack tensors depth lengths min_shared =
     ensure (depth \<ge> 0) (ValueError ''max_depth must be >= 0'')
    (ensure (min_shared \<ge> 0) (ValueError ''min_shared_segment_length must be >= 0'')
    (if tensors = [] then Inr (empty_pack 0)
     else bindE (shareable_row_lengths tensors lengths) (\<lambda>share_limits.
          bindE (prefix_tree_pack_segments tensors depth (Some (map int share_limits)) min_shared) (\<lambda>segs.
          if segs = [] then Inr (empty_pack (length tensors))
          else Inr (pack_tensors tensors segs)))))"

datatype device = Cpu | Cuda

text \<open>
  \<^verbatim>\<open>estimate_prefix_tree_packed_tokens\<close>: \<open>None\<close> as soon as a sequence is not on the
  CPU, otherwise the exact packed length.
\<close>

definition estimate_prefix_tree_packed_tokens ::
  "(device \<times> int list) list \<Rightarrow> int \<Rightarrow> int list option \<Rightarrow> int \<Rightarrow> nat option result" where
  "estimate_prefix_tree_packed_tokens seqs depth lengths min_shared =
     ensure (depth \<ge> 0) (ValueError ''max_depth must be >= 0'')
    (ensure (min_shared \<ge> 0) (ValueError ''min_shared_segment_length must be >= 0'')
    (if \<exists>s \<in> set seqs. fst s \<noteq> Cpu then Inr None
     else let rs = map snd seqs
          in bindE (shareable_row_lengths rs lengths) (\<lambda>share_limits.
             bindE (prefix_tree_pack_segments rs depth (Some (map int share_limits)) min_shared) (\<lambda>segs.
             Inr (Some (sum_list (map seg_length segs)))))))"

section \<open>The radix walk honours the contract\<close>

lemma place_segments_map:
  "map prefix_segment.truncate (place_segments c ss) = ss"
  by (induction c ss rule: place_segments.induct)
    (simp_all add: prefix_segment.defs)

lemma place_segments_fields:
  "map sequence_indices (place_segments c ss) = map sequence_indices ss"
  "map seg_start (place_segments c ss) = map seg_start ss"
  "map seg_end (place_segments c ss) = map seg_end ss"
  "map group_id (place_segments c ss) = map group_id ss"
  "map parent_id (place_segments c ss) = map parent_id ss"
  by (induction c ss rule: place_segments.induct; simp add: prefix_segment.defs)+

lemma place_segments_packed: "packed_from c (place_segments c ss)"
  by (induction c ss rule: place_segments.induct)
    (auto simp: prefix_segment.defs seg_length_def)

lemma place_segments_chain:
  "seg_chain a b p (path i (place_segments c ss)) = seg_chain a b p (path i ss)"
proof (induction c ss arbitrary: a p rule: place_segments.induct)
  case (1 cursor)
  then show ?case by simp
next
  case (2 cursor s ss)
  then show ?case by (cases p) (simp_all add: path_Cons prefix_segment.defs)
qed

lemma place_segments_mem:
  "t \<in> set (place_segments c ss) \<Longrightarrow> \<exists>s \<in> set ss. \<exists>k. t = prefix_segment.extend s \<lparr>packed_start = k\<rparr>"
  by (induction c ss rule: place_segments.induct) auto

text \<open>Every segment of the walk, with the facts \<open>steps\<close> carries for it.\<close>

lemma prefix_segments_covers:
  "covers env {0..<length (rows env)} 0 None (prefix_segments env) \<and>
   map group_id (prefix_segments env) = map (\<lambda>k. 1 + int k) [0..<length (prefix_segments env)]"
proof -
  let ?st = "\<lparr>next_group_id = 1, segments = []\<rparr>"
  have "agree_upto env (set [0..<length (rows env)]) 0"
    by (rule agree_uptoI) simp_all
  from walk_steps [OF distinct_upt this, of None ?st 0] show ?thesis
    unfolding steps_def prefix_segments_def by auto
qed

lemma prefix_segments_in_rows:
  assumes "s \<in> set (prefix_segments env)" and "i \<in> set (sequence_indices s)"
  shows "i < length (rows env)"
proof (rule ccontr)
  assume "\<not> i < length (rows env)"
  then have "path i (prefix_segments env) = []"
    using prefix_segments_covers [of env] unfolding covers_def by simp
  with assms show False by (auto simp: path_def filter_empty_conv)
qed

lemma seg_ok_valid:
  assumes "s \<in> set (prefix_segments env)"
  shows "seg_valid (rows env) s"
proof -
  have ok: "seg_ok env s" using prefix_segments_covers [of env] assms unfolding covers_def by blast
  have "group_id s \<in> set (map group_id (prefix_segments env))" using assms by simp
  then have "group_id s > 0" using prefix_segments_covers [of env] by auto
  moreover have "rows_agree (rows env) (set (sequence_indices s)) (seg_end s)"
    using ok prefix_segments_in_rows [OF assms]
    unfolding seg_ok_def rows_agree_def agree_upto_def row_length_def by blast
  ultimately show ?thesis using ok by (simp add: seg_ok_def seg_valid_def)
qed

lemma seg_valid_extend [simp]:
  "seg_valid rs (prefix_segment.extend s m) = seg_valid rs s"
  by (simp add: seg_valid_def prefix_segment.defs)

lemma placed_well_packed: "well_packed (rows env) (place_segments 0 (prefix_segments env))"
  unfolding well_packed_def
proof (intro conjI allI impI ballI)
  fix i assume "i < length (rows env)"
  then show "seg_chain 0 (length (rows env ! i)) None (path i (place_segments 0 (prefix_segments env)))"
    using prefix_segments_covers [of env]
    by (simp add: covers_def place_segments_chain row_length_def)
next
  fix t assume "t \<in> set (place_segments 0 (prefix_segments env))"
  then show "seg_valid (rows env) t"
    by (auto dest!: place_segments_mem intro: seg_ok_valid)
next
  show "distinct (map group_id (place_segments 0 (prefix_segments env)))"
    using prefix_segments_covers [of env]
    by (simp add: place_segments_fields distinct_map inj_on_def)
  show "packed_from 0 (place_segments 0 (prefix_segments env))"
    by (rule place_segments_packed)
qed

type_synonym pack_config = "int \<times> int list option \<times> int"

definition radix_plan :: "pack_config \<Rightarrow> int list list \<Rightarrow> pack_segment list" where
  "radix_plan c rs =
     (case c of (depth, lengths, min_shared) \<Rightarrow>
        case prefix_tree_pack_segments rs depth lengths min_shared of Inl e \<Rightarrow> [] | Inr segs \<Rightarrow> segs)"

definition radix_accepts :: "pack_config \<Rightarrow> int list list \<Rightarrow> bool" where
  "radix_accepts c rs =
     (case c of (depth, lengths, min_shared) \<Rightarrow> is_ok (prefix_tree_pack_segments rs depth lengths min_shared))"

lemma prefix_tree_pack_segments_Inr:
  assumes "prefix_tree_pack_segments rs depth lengths min_shared = Inr segs"
  shows "well_packed rs segs"
proof (cases "rs = []")
  case True
  with assms show ?thesis
    by (auto simp: prefix_tree_pack_segments_def well_packed_def ensure_Inr_iff)
next
  case False
  with assms obtain sl where "segs = place_segments 0 (prefix_segments
      \<lparr>rows = rs, max_depth = depth, shareable_lengths = sl, min_shared_segment_length = min_shared\<rparr>)"
    by (auto simp: prefix_tree_pack_segments_def result_iffs)
  with placed_well_packed show ?thesis by (metis walk_env.select_convs(1))
qed

interpretation radix: prefix_packer radix_plan radix_accepts
  by unfold_locales
    (auto simp: radix_plan_def radix_accepts_def is_ok_iff intro: prefix_tree_pack_segments_Inr)

section \<open>The packed tensors\<close>

lemma fold_append_at:
  assumes "distinct is" and "\<And>j. j \<in> set is \<Longrightarrow> j < length xss"
  shows "length (fold (append_at x) is xss) = length xss"
    and "i < length xss \<Longrightarrow>
      fold (append_at x) is xss ! i = (if i \<in> set is then xss ! i @ [x] else xss ! i)"
  using assms
  by (induction "is" arbitrary: xss) (auto simp: append_at_def nth_list_update_eq nth_list_update_neq,
    metis nth_list_update_neq)

definition chunks_ok :: "int list list \<Rightarrow> pack_segment list \<Rightarrow> bool" where
  "chunks_ok tensors segs \<longleftrightarrow>
     (\<forall>s \<in> set segs. length (token_chunk tensors s) = seg_length s \<and>
        distinct (sequence_indices s) \<and> (\<forall>i \<in> set (sequence_indices s). i < length tensors))"

lemma fold_pack_chunk:
  assumes "chunks_ok tensors segs" and "packed_from (pack_cursor acc) segs"
    and "length (sequence_chunks acc) = length tensors"
  shows "fold (pack_chunk tensors) segs acc =
    \<lparr>token_chunks = token_chunks acc @ map (token_chunk tensors) segs,
     group_chunks = group_chunks acc @ map (\<lambda>s. replicate (seg_length s) (group_id s)) segs,
     parent_chunks = parent_chunks acc @ map (\<lambda>s. replicate (seg_length s) (parent_id s)) segs,
     position_chunks = position_chunks acc @ map (\<lambda>s. [seg_start s..<seg_end s]) segs,
     sequence_chunks = map (\<lambda>i. sequence_chunks acc ! i @ map packed_range (path i segs)) [0..<length tensors],
     pack_cursor = pack_cursor acc + plan_length segs\<rparr>"
  using assms
proof (induction segs arbitrary: acc)
  case Nil
  have "map ((!) (sequence_chunks acc)) [0..<length tensors] = sequence_chunks acc"
    using Nil by (metis map_nth)
  then show ?case by (simp add: plan_length_def)
next
  case (Cons s segs)
  let ?acc = "pack_chunk tensors s acc"
  have ok: "length (token_chunk tensors s) = seg_length s" "distinct (sequence_indices s)"
    "\<And>i. i \<in> set (sequence_indices s) \<Longrightarrow> i < length (sequence_chunks acc)"
    using Cons.prems by (auto simp: chunks_ok_def)
  have pos: "packed_start s = pack_cursor acc" using Cons.prems by simp
  have acc: "?acc = \<lparr>token_chunks = token_chunks acc @ [token_chunk tensors s],
      group_chunks = group_chunks acc @ [replicate (seg_length s) (group_id s)],
      parent_chunks = parent_chunks acc @ [replicate (seg_length s) (parent_id s)],
      position_chunks = position_chunks acc @ [[seg_start s..<seg_end s]],
      sequence_chunks = fold (append_at (packed_range s)) (sequence_indices s) (sequence_chunks acc),
      pack_cursor = pack_cursor acc + seg_length s\<rparr>"
    unfolding pack_chunk_def Let_def token_chunk_def [symmetric] ok(1)
    by (simp add: packed_range_def pos)
  have IH: "fold (pack_chunk tensors) segs ?acc =
    \<lparr>token_chunks = token_chunks ?acc @ map (token_chunk tensors) segs,
     group_chunks = group_chunks ?acc @ map (\<lambda>s. replicate (seg_length s) (group_id s)) segs,
     parent_chunks = parent_chunks ?acc @ map (\<lambda>s. replicate (seg_length s) (parent_id s)) segs,
     position_chunks = position_chunks ?acc @ map (\<lambda>s. [seg_start s..<seg_end s]) segs,
     sequence_chunks = map (\<lambda>i. sequence_chunks ?acc ! i @ map packed_range (path i segs)) [0..<length tensors],
     pack_cursor = pack_cursor ?acc + plan_length segs\<rparr>"
    by (rule Cons.IH)
      (use Cons.prems ok fold_append_at(1) [OF ok(2,3), of "packed_range s"] in
        \<open>auto simp: acc chunks_ok_def\<close>)
  have "map (\<lambda>i. sequence_chunks ?acc ! i @ map packed_range (path i segs)) [0..<length tensors]
      = map (\<lambda>i. sequence_chunks acc ! i @ map packed_range (path i (s # segs))) [0..<length tensors]"
    using fold_append_at(2) [OF ok(2,3)] Cons.prems(3) by (auto simp: acc path_Cons)
  with IH show ?case by (simp add: acc plan_length_def)
qed

lemma well_packed_chunks_ok:
  assumes "well_packed tensors segs"
  shows "chunks_ok tensors segs"
  unfolding chunks_ok_def
proof (intro ballI conjI)
  fix s assume s: "s \<in> set segs"
  have v: "seg_valid tensors s" by (rule well_packedD(2) [OF assms s])
  then have "seg_end s \<le> length (tensors ! hd (sequence_indices s))"
    by (intro rows_agree_len [of tensors "set (sequence_indices s)"]) (auto simp: seg_valid_def)
  then show "length (token_chunk tensors s) = seg_length s"
    by (simp add: token_chunk_def seg_length_def)
  show "distinct (sequence_indices s)" using v by (simp add: seg_valid_def)
  fix i assume "i \<in> set (sequence_indices s)"
  with v show "i < length tensors" by (auto simp: seg_valid_def intro: rows_agree_bound)
qed

lemma pack_tensors_fields:
  assumes "well_packed tensors segs"
  shows "tokens (pack_tensors tensors segs) = materialize (token_chunk tensors) segs"
    and "group_ids (pack_tensors tensors segs) = materialize (\<lambda>s. replicate (seg_length s) (group_id s)) segs"
    and "parent_ids (pack_tensors tensors segs) = materialize (\<lambda>s. replicate (seg_length s) (parent_id s)) segs"
    and "position_ids (pack_tensors tensors segs) = materialize (\<lambda>s. [seg_start s..<seg_end s]) segs"
    and "i < length tensors \<Longrightarrow> positions_by_sequence (pack_tensors tensors segs) ! i = positions_of i segs"
    and "pack_segments (pack_tensors tensors segs) = segs"
  unfolding pack_tensors_def
  by (subst fold_pack_chunk;
      simp add: well_packed_chunks_ok [OF assms] well_packedD(4) [OF assms] concat_chunks_def
        materialize_def positions_of_def)+

lemma prefix_tree_pack_Inr:
  assumes "prefix_tree_pack tensors depth lengths min_shared = Inr p" and "i < length tensors"
  obtains sl segs where "prefix_tree_pack_segments tensors depth (Some sl) min_shared = Inr segs"
    and "p = (if segs = [] then empty_pack (length tensors) else pack_tensors tensors segs)"
proof -
  have "tensors \<noteq> []" using assms(2) by auto
  with assms(1) have "\<exists>sl segs. prefix_tree_pack_segments tensors depth (Some (map int sl)) min_shared = Inr segs \<and>
    p = (if segs = [] then empty_pack (length tensors) else pack_tensors tensors segs)"
    unfolding prefix_tree_pack_def result_iffs by (simp add: result_iffs) (metis Inr_inject)
  then show thesis using that by blast
qed

text \<open>
  C1. Packing loses nothing: reading the packed tokens at the positions recorded for a
  sequence gives back that sequence, and the packed position ids at those places are the
  sequence's own offsets, whatever the depth limit, share limits and minimum segment
  length are.
\<close>

theorem prefix_tree_pack_roundtrip:
  assumes "prefix_tree_pack tensors depth lengths min_shared = Inr p" and "i < length tensors"
  shows "map ((!) (tokens p)) (positions_by_sequence p ! i) = tensors ! i \<and>
    map ((!) (position_ids p)) (positions_by_sequence p ! i) = [0..<length (tensors ! i)]"
proof -
  obtain sl segs where segs: "prefix_tree_pack_segments tensors depth (Some sl) min_shared = Inr segs"
    and p: "p = (if segs = [] then empty_pack (length tensors) else pack_tensors tensors segs)"
    by (rule prefix_tree_pack_Inr [OF assms])
  have wp: "well_packed tensors segs" by (rule prefix_tree_pack_segments_Inr [OF segs])
  have plan: "radix_plan (depth, Some sl, min_shared) tensors = segs"
    "radix_accepts (depth, Some sl, min_shared) tensors"
    using segs by (simp_all add: radix_plan_def radix_accepts_def)
  note unpack = radix.unpack_tokens [OF plan(2) assms(2)] radix.unpack_positions [OF plan(2) assms(2)]
  show ?thesis
  proof (cases "segs = []")
    case True
    then have "tensors ! i = []" using unpack(1) by (simp add: plan(1) positions_of_def)
    with True p assms(2) show ?thesis by (simp add: empty_pack_def)
  next
    case False
    with p unpack show ?thesis by (simp add: pack_tensors_fields [OF wp] assms(2) plan(1))
  qed
qed

lemma pack_example:
  "prefix_tree_pack [[1, 2, 3], [1, 2, 4]] 1 None 1 = Inr
     \<lparr>tokens = [1, 2, 3, 4], group_ids = [1, 1, 2, 3], parent_ids = [1, 1, 1, 1],
      position_ids = [0, 1, 2, 2], positions_by_sequence = [[0, 1, 2], [0, 1, 3]],
      pack_segments =
       [\<lparr>sequence_indices = [0, 1], seg_start = 0, seg_end = 2, group_id = 1, parent_id = 1, packed_start = 0\<rparr>,
        \<lparr>sequence_indices = [0], seg_start = 2, seg_end = 3, group_id = 2, parent_id = 1, packed_start = 2\<rparr>,
        \<lparr>sequence_indices = [1], seg_start = 2, seg_end = 3, group_id = 3, parent_id = 1, packed_start = 3\<rparr>]\<rparr>"
  by code_simp

theorem prefix_tree_pack_roundtrip_witness:
  "\<exists>p. prefix_tree_pack [[1, 2, 3], [1, 2, 4]] 1 None 1 = Inr p \<and>
     map ((!) (tokens p)) (positions_by_sequence p ! 1) = [1, 2, 4]"
  using prefix_tree_pack_roundtrip [OF pack_example, of 1] pack_example by auto

section \<open>Properties of the packer\<close>

lemma prefix_tree_pack_segments_walk:
  assumes "prefix_tree_pack_segments rs depth lengths min_shared = Inr segs" and "s \<in> set segs"
  obtains sl env t where "shareable_row_lengths rs lengths = Inr sl"
    and "env = \<lparr>rows = rs, max_depth = depth, shareable_lengths = sl, min_shared_segment_length = min_shared\<rparr>"
    and "seg_ok env t" and "prefix_segment.truncate s = t"
proof -
  have "rs \<noteq> []" using assms by (auto simp: prefix_tree_pack_segments_def result_iffs)
  with assms(1) obtain sl where sl: "shareable_row_lengths rs lengths = Inr sl"
    and segs: "segs = place_segments 0 (prefix_segments
      \<lparr>rows = rs, max_depth = depth, shareable_lengths = sl, min_shared_segment_length = min_shared\<rparr>)"
    by (auto simp: prefix_tree_pack_segments_def result_iffs)
  let ?env = "\<lparr>rows = rs, max_depth = depth, shareable_lengths = sl, min_shared_segment_length = min_shared\<rparr>"
  obtain t k where t: "t \<in> set (prefix_segments ?env)" "s = prefix_segment.extend t \<lparr>packed_start = k\<rparr>"
    using place_segments_mem assms(2) segs by blast
  have "seg_ok ?env t" using prefix_segments_covers [of ?env] t(1) unfolding covers_def by blast
  moreover have "prefix_segment.truncate s = t" using t(2) by (simp add: prefix_segment.defs)
  ultimately show thesis using that sl by blast
qed

lemma shareable_row_lengths_nth:
  assumes "shareable_row_lengths rs (Some values) = Inr sl" and "i < length rs"
  shows "length values = length rs \<and> sl ! i = nat (max 0 (min (values ! i) (int (length (rs ! i)))))"
  using assms by (auto simp: shareable_row_lengths_def split: if_splits)

lemma shared_segment_facts:
  assumes "prefix_tree_pack_segments rs depth (Some values) min_shared = Inr segs"
    and "s \<in> set segs" and "i \<in> set (sequence_indices s)" and "j \<in> set (sequence_indices s)"
    and "i \<noteq> j"
  shows "take (seg_end s) (rs ! i) = take (seg_end s) (rs ! j) \<and>
    int (seg_end s) \<le> values ! i \<and> seg_end s \<le> length (rs ! i) \<and> min_shared \<le> int (seg_length s)"
proof -
  obtain sl env t where env: "shareable_row_lengths rs (Some values) = Inr sl"
    "env = \<lparr>rows = rs, max_depth = depth, shareable_lengths = sl, min_shared_segment_length = min_shared\<rparr>"
    "seg_ok env t" "prefix_segment.truncate s = t"
    using prefix_tree_pack_segments_walk [OF assms(1,2)] by metis
  have t: "sequence_indices t = sequence_indices s" "seg_end t = seg_end s" "seg_start t = seg_start s"
    using env(4) by (auto simp: prefix_segment.defs)
  have v: "seg_valid rs s"
    by (rule well_packedD(2) [OF prefix_tree_pack_segments_Inr [OF assms(1)] assms(2)])
  then have agree: "rows_agree rs (set (sequence_indices s)) (seg_end s)" by (simp add: seg_valid_def)
  have i: "i < length rs" by (rule rows_agree_bound [OF agree assms(3)])
  have two: "length (sequence_indices t) > 1"
    using assms(3-5) t(1) by (cases "sequence_indices s"; cases "tl (sequence_indices s)") auto
  have "seg_end s \<le> sl ! i" and "int (seg_end s - seg_start s) \<ge> min_shared"
    using env(2,3) two t assms(3) by (auto simp: seg_ok_def)
  moreover have "0 < seg_end s"
  proof -
    have c: "seg_chain 0 (length (rs ! i)) None (path i segs)"
      by (rule well_packedD(1) [OF prefix_tree_pack_segments_Inr [OF assms(1)] i])
    show ?thesis using seg_chain_range [OF c, of s] assms(2,3) by (simp add: path_mem)
  qed
  ultimately show ?thesis
    using shareable_row_lengths_nth [OF env(1) i] rows_agree_take [OF agree assms(3,4)]
      rows_agree_len [OF agree assms(3)]
    by (auto simp: seg_length_def)
qed

text \<open>
  C2. Sharing is safe: two sequences are only ever stored in one segment when their
  tokens agree from the start of the sequence to the end of that segment, when that end
  lies within the shareable length the caller declared for each of them, and when the
  segment is at least as long as the minimum shared length.
\<close>

theorem sharing_is_safe:
  assumes "prefix_tree_pack_segments rs depth (Some values) min_shared = Inr segs"
    and "s \<in> set segs" and "i \<in> set (sequence_indices s)" and "j \<in> set (sequence_indices s)"
    and "i \<noteq> j"
  shows "take (seg_end s) (rs ! i) = take (seg_end s) (rs ! j) \<and>
    int (seg_end s) \<le> values ! i \<and> seg_end s \<le> length (rs ! i) \<and> min_shared \<le> int (seg_length s)"
  by (rule shared_segment_facts [OF assms])

definition example_segments :: "pack_segment list" where
  "example_segments =
       [\<lparr>sequence_indices = [0, 1], seg_start = 0, seg_end = 2, group_id = 1, parent_id = 1, packed_start = 0\<rparr>,
        \<lparr>sequence_indices = [0], seg_start = 2, seg_end = 3, group_id = 2, parent_id = 1, packed_start = 2\<rparr>,
        \<lparr>sequence_indices = [1], seg_start = 2, seg_end = 3, group_id = 3, parent_id = 1, packed_start = 3\<rparr>]"

lemma pack_segments_example:
  "prefix_tree_pack_segments [[1, 2, 3], [1, 2, 4]] 1 (Some [2, 3]) 1 = Inr example_segments"
  by code_simp

theorem sharing_is_safe_witness:
  "\<exists>segs. prefix_tree_pack_segments [[1, 2, 3], [1, 2, 4]] 1 (Some [2, 3]) 1 = Inr segs \<and>
     take (seg_end (hd segs)) [1, 2, 3] = take (seg_end (hd segs)) [1, 2, 4 :: int] \<and>
     seg_end (hd segs) = 2"
  using sharing_is_safe [OF pack_segments_example, of
      "\<lparr>sequence_indices = [0, 1], seg_start = 0, seg_end = 2, group_id = 1, parent_id = 1, packed_start = 0\<rparr>" 0 1]
    pack_segments_example by (simp add: example_segments_def)

text \<open>
  C3. The shortcut of \<^verbatim>\<open>shared_end\<close> is exact: comparing only the lexicographically
  least and greatest row finds the longest prefix all the sequences of a node have in
  common, cut at the shortest length or share limit.
\<close>

theorem shared_end_exact:
  assumes "indices \<noteq> []" and "start \<le> share_limit env indices"
    and "agree_upto env (set indices) start"
  shows "shared_end env indices start =
    Max {e. e \<le> share_limit env indices \<and> agree_upto env (set indices) e}"
proof (rule sym, rule Max_eqI)
  show "finite {e. e \<le> share_limit env indices \<and> agree_upto env (set indices) e}" by simp
  show "shared_end env indices start \<in> {e. e \<le> share_limit env indices \<and> agree_upto env (set indices) e}"
    using shared_end_agree [OF assms] shared_end_le [OF assms(2)] by simp
  fix e assume "e \<in> {e. e \<le> share_limit env indices \<and> agree_upto env (set indices) e}"
  then have e: "e \<le> share_limit env indices" "agree_upto env (set indices) e" by simp_all
  show "e \<le> shared_end env indices start"
  proof (rule ccontr)
    let ?n = "shared_end env indices start"
    assume "\<not> e \<le> ?n"
    then have lt: "?n < e" by simp
    have same: "rows env ! i ! ?n = rows env ! j ! ?n" if "i \<in> set indices" "j \<in> set indices" for i j
    proof -
      have "take e (rows env ! i) ! ?n = take e (rows env ! j) ! ?n"
        by (rule arg_cong [OF agree_upto_take [OF e(2) that], where f = "\<lambda>xs. xs ! ?n"])
      with lt show ?thesis by simp
    qed
    have "branchable env ?n i" if "i \<in> set indices" for i
      using share_limit_le [OF that, of env] e(1) lt by (simp add: branchable_def)
    with shared_end_splits [OF assms(1,2)] same show False by blast
  qed
qed

theorem shared_end_exact_witness:
  "(let env = \<lparr>rows = [[1, 2, 3, 9], [1, 2, 4], [1, 2, 3]], max_depth = 1,
      shareable_lengths = [4, 3, 3], min_shared_segment_length = 1\<rparr>
    in shared_end env [0, 1, 2] 0 =
       Max {e. e \<le> share_limit env [0, 1, 2] \<and> agree_upto env (set [0, 1, 2]) e} \<and>
       shared_end env [0, 1, 2] 0 = 2)"
proof -
  let ?env = "\<lparr>rows = [[1, 2, 3, 9], [1, 2, 4], [1, 2, 3]], max_depth = 1,
      shareable_lengths = [4, 3, 3], min_shared_segment_length = 1\<rparr>"
  have "agree_upto ?env (set [0, 1, 2]) 0" by (rule agree_uptoI) simp_all
  then have "shared_end ?env [0, 1, 2] 0 =
      Max {e. e \<le> share_limit ?env [0, 1, 2] \<and> agree_upto ?env (set [0, 1, 2]) e}"
    by (intro shared_end_exact) simp_all
  moreover have "shared_end ?env [0, 1, 2] 0 = 2" by code_simp
  ultimately show ?thesis by (simp only: Let_def simp_thms)
qed

lemma packed_size:
  assumes "prefix_tree_pack_segments rs depth lengths min_shared = Inr segs"
  shows "length (materialize (token_chunk rs) segs) = plan_length segs"
proof -
  have "radix_plan (depth, lengths, min_shared) rs = segs"
    "radix_accepts (depth, lengths, min_shared) rs"
    using assms by (simp_all add: radix_plan_def radix_accepts_def)
  with radix.token_chunk_length [of "(depth, lengths, min_shared)" rs] show ?thesis
    by (simp add: materialize_def plan_length_def length_concat comp_def cong: map_cong)
qed

text \<open>
  Packing never costs tokens and its cost is exact: the number of packed tokens is
  the sum of the segment lengths, never exceeds the total length of the sequences, and
  counting every segment once per sequence it serves gives exactly that total.
\<close>

theorem packed_size_exact:
  assumes "prefix_tree_pack_segments rs depth lengths min_shared = Inr segs"
  shows "length (materialize (token_chunk rs) segs) = plan_length segs \<and>
    plan_length segs \<le> (\<Sum>i<length rs. length (rs ! i)) \<and>
    (\<Sum>s\<leftarrow>segs. seg_length s * length (sequence_indices s)) = (\<Sum>i<length rs. length (rs ! i))"
proof -
  have plan: "radix_plan (depth, lengths, min_shared) rs = segs"
    "radix_accepts (depth, lengths, min_shared) rs"
    using assms by (simp_all add: radix_plan_def radix_accepts_def)
  from packed_size [OF assms] radix.never_grows [OF plan(2)] radix.token_accounting [OF plan(2)] plan(1)
  show ?thesis by simp
qed

theorem packed_size_exact_witness:
  "\<exists>segs. prefix_tree_pack_segments [[1, 2, 3], [1, 2, 4]] 1 (Some [2, 3]) 1 = Inr segs \<and>
     plan_length segs = 4 \<and> (\<Sum>s\<leftarrow>segs. seg_length s * length (sequence_indices s)) = 6"
proof (intro exI conjI)
  show "prefix_tree_pack_segments [[1, 2, 3], [1, 2, 4]] 1 (Some [2, 3]) 1 = Inr (example_segments)"
    by (rule pack_segments_example)
  show "(\<Sum>s\<leftarrow>example_segments. seg_length s * length (sequence_indices s)) = 6"
    using packed_size_exact [OF pack_segments_example] by (simp add: numeral_eq_Suc)
  show "plan_length example_segments = 4"
    by code_simp
qed

lemma estimate_of_nothing:
  assumes "depth \<ge> 0" "min_shared \<ge> 0"
  shows "prefix_tree_pack [] depth lengths min_shared = Inr (empty_pack 0)"
    and "estimate_prefix_tree_packed_tokens [] depth lengths min_shared =
      (if lengths = None \<or> lengths = Some [] then Inr (Some 0)
       else Inl (ValueError ''shareable_lengths must have one entry per sequence''))"
  using assms
  by (auto simp: prefix_tree_pack_def estimate_prefix_tree_packed_tokens_def shareable_row_lengths_def
      prefix_tree_pack_segments_def split: option.splits)

text \<open>
  C4. The estimator agrees with the packer: for sequences on the CPU it returns the
  length of the token tensor that packing them would produce and raises what packing
  raises, for any arguments but one kind: no sequences with a nonempty list of shareable
  lengths, which packing accepts, returning the empty pack, and the estimator refuses.
\<close>

theorem estimate_agrees_with_pack:
  assumes "\<forall>s \<in> set seqs. fst s = Cpu"
  shows "estimate_prefix_tree_packed_tokens seqs depth lengths min_shared =
    (case prefix_tree_pack (map snd seqs) depth lengths min_shared of
       Inl e \<Rightarrow> Inl e
     | Inr p \<Rightarrow> if seqs = [] \<and> lengths \<noteq> None \<and> lengths \<noteq> Some []
         then Inl (ValueError ''shareable_lengths must have one entry per sequence'')
         else Inr (Some (length (tokens p))))"
proof (cases "depth \<ge> 0 \<and> min_shared \<ge> 0")
  case False
  then show ?thesis
    by (auto simp: estimate_prefix_tree_packed_tokens_def prefix_tree_pack_def ensure_def)
next
  case True
  let ?rs = "map snd seqs"
  show ?thesis
  proof (cases "seqs = []")
    case True
    with \<open>depth \<ge> 0 \<and> min_shared \<ge> 0\<close> show ?thesis by (simp add: estimate_of_nothing empty_pack_def)
  next
    case False
    note nonempty = this
    show ?thesis
    proof (cases "shareable_row_lengths ?rs lengths")
      case (Inl e)
      with True nonempty assms show ?thesis
        by (auto simp: estimate_prefix_tree_packed_tokens_def prefix_tree_pack_def)
    next
      case (Inr sl)
      let ?segs = "prefix_tree_pack_segments ?rs depth (Some (map int sl)) min_shared"
      have size: "length (tokens (pack_tensors ?rs segs)) = plan_length segs" if "?segs = Inr segs" for segs
        using packed_size [OF that] pack_tensors_fields(1) [OF prefix_tree_pack_segments_Inr [OF that]]
        by simp
      show ?thesis
        using True nonempty assms Inr size
        by (cases ?segs)
          (auto simp: estimate_prefix_tree_packed_tokens_def prefix_tree_pack_def plan_length_def
            empty_pack_def)
    qed
  qed
qed

theorem estimate_agrees_with_pack_witness:
  "estimate_prefix_tree_packed_tokens [(Cpu, [1, 2, 3]), (Cpu, [1, 2, 4])] 1 None 1 = Inr (Some 4)"
  using estimate_agrees_with_pack [of "[(Cpu, [1, 2, 3]), (Cpu, [1, 2, 4])]" 1 None 1]
  by (simp add: pack_example)

end
