(* ===== verification/Prefix_Tree.thy ===== *)
theory Prefix_Tree
  imports Prefix_Pack
begin

text \<open>
  Reading the tree back: \<^verbatim>\<open>megatron/prefix_tree.py\<close> parses one packed row of group and
  parent identifiers into segments with their ancestors, and
  \<^verbatim>\<open>megatron/recurrent/prefix_tree.py\<close> lowers a batch of parsed rows to the table a
  recurrent layer executes.  A row tensor is the list of its entries; a rank-2 tensor is
  the list of its rows, so the rank checks of the source are the types.
\<close>

section \<open>Parsed trees\<close>

record tree_segment =
  ts_group :: int
  ts_parent :: int
  ts_start :: nat
  ts_end :: nat
  ts_family :: nat
  ts_ancestors :: "int list"

definition ts_depth :: "tree_segment \<Rightarrow> nat" where
  "ts_depth t = length (ts_ancestors t)"

record tree_row =
  tr_index :: nat
  tr_valid :: nat
  tr_segments :: "tree_segment list"

section \<open>Runs\<close>

type_synonym id_run = "nat \<times> nat \<times> int \<times> int"

definition change_points :: "int list \<Rightarrow> nat list" where
  "change_points g = filter (\<lambda>i. g ! i \<noteq> g ! (i - 1)) [1..<length g]"

definition inconsistent_parents :: "int list \<Rightarrow> int list \<Rightarrow> bool" where
  "inconsistent_parents g p \<longleftrightarrow>
     list_ex (\<lambda>i. g ! i = g ! (i - 1) \<and> p ! i \<noteq> p ! (i - 1)) [1..<length g]"

definition scan_runs :: "int list \<Rightarrow> int list \<Rightarrow> id_run list result" where
  "scan_runs g p =
     (if length g = 0 then Inr []
      else if inconsistent_parents g p
        then Inl (RuntimeError ''Found one group run with inconsistent parent ids'')
      else
        let run_starts = 0 # change_points g; run_ends = tl run_starts @ [length g]
        in Inr (map (\<lambda>(s, e). (s, e, g ! s, p ! s)) (zip run_starts run_ends)))"

definition infer_terminal_padding_length :: "int list \<Rightarrow> int list \<Rightarrow> nat result" where
  "infer_terminal_padding_length g p =
     (if length g = 0 then Inr 0
      else bindE (scan_runs g p) (\<lambda>runs.
        if length runs < 2 then Inr (length g)
        else case last runs of (last_start, last_end, last_group, last_parent) \<Rightarrow>
          if last_parent \<ge> 0 then Inr (length g)
          else if list_ex (\<lambda>(s, e, gr, pa). (gr, pa) = (last_group, last_parent)) (butlast runs)
            then Inr last_start
          else Inr (length g)))"

definition valid_length :: "int list \<Rightarrow> int list \<Rightarrow> int \<Rightarrow> nat result" where
  "valid_length g p pad =
     (let valid_count = length (filter (\<lambda>x. x \<noteq> pad) g)
      in if valid_count = 0 then Inr 0
         else if \<not> list_all (\<lambda>x. x \<noteq> pad) (take valid_count g)
           then Inl (RuntimeError ''Padding tokens must be a contiguous tail'')
         else infer_terminal_padding_length (take valid_count g) (take valid_count p))"

section \<open>The parser\<close>

text \<open>The dictionaries and lists of \<^verbatim>\<open>parse_prefix_tree_row\<close>, threaded through its loop.\<close>

record parse_state =
  first_segment_by_group :: "int \<Rightarrow> tree_segment option"
  family_by_group :: "int \<Rightarrow> nat option"
  ancestors_by_group :: "int \<Rightarrow> int list option"
  parsed :: "tree_segment list"
  next_family_index :: nat

definition parse_start :: parse_state where
  "parse_start = \<lparr>first_segment_by_group = Map.empty, family_by_group = Map.empty,
     ancestors_by_group = Map.empty, parsed = [], next_family_index = 0\<rparr>"

definition repeated_groups :: "int \<Rightarrow> id_run list \<Rightarrow> bool" where
  "repeated_groups pad runs \<longleftrightarrow>
     (let ids = filter (\<lambda>x. x \<noteq> pad) (map (\<lambda>(s, e, gr, pa). gr) runs) in \<not> distinct ids)"

definition is_root_run :: "int \<Rightarrow> id_run \<Rightarrow> bool" where
  "is_root_run pad r = (case r of (s, e, gr, pa) \<Rightarrow> gr = pa \<or> (s = 0 \<and> pa = pad))"

definition record_segment :: "tree_segment \<Rightarrow> parse_state \<Rightarrow> parse_state" where
  "record_segment t st =
     \<lparr>first_segment_by_group = (first_segment_by_group st)(ts_group t \<mapsto> t),
      family_by_group = (family_by_group st)(ts_group t \<mapsto> ts_family t),
      ancestors_by_group = (ancestors_by_group st)(ts_group t \<mapsto> ts_ancestors t),
      parsed = parsed st @ [t],
      next_family_index = next_family_index st\<rparr>"

definition parse_run :: "int \<Rightarrow> id_run \<Rightarrow> parse_state \<Rightarrow> parse_state result" where
  "parse_run pad r st =
     (case r of (s, e, gr, pa) \<Rightarrow>
        if is_root_run pad r then
          Inr (record_segment
            \<lparr>ts_group = gr, ts_parent = pa, ts_start = s, ts_end = e,
             ts_family = next_family_index st, ts_ancestors = []\<rparr>
            (st\<lparr>next_family_index := next_family_index st + 1\<rparr>))
        else case first_segment_by_group st pa of
          None \<Rightarrow> Inl (RuntimeError ''Prefix-tree run points to a missing parent run'')
        | Some parent \<Rightarrow>
            if ts_end parent > s
              then Inl (RuntimeError ''Prefix-tree parent run must end before its child starts'')
            else (case (family_by_group st pa, ancestors_by_group st pa) of
              (Some family, Some ancs) \<Rightarrow>
                Inr (record_segment
                  \<lparr>ts_group = gr, ts_parent = pa, ts_start = s, ts_end = e,
                   ts_family = family, ts_ancestors = ancs @ [pa]\<rparr> st)
            | _ \<Rightarrow> Inl KeyError))"

definition parse_prefix_tree_row :: "int list \<Rightarrow> int list \<Rightarrow> nat \<Rightarrow> int \<Rightarrow> tree_row result" where
  "parse_prefix_tree_row g p row_index pad =
     ensure (length g = length p) (RuntimeError ''group_ids and parent_ids must share shape'')
     (bindE (valid_length g p pad) (\<lambda>valid.
        if valid = 0 then Inr \<lparr>tr_index = row_index, tr_valid = 0, tr_segments = []\<rparr>
        else bindE (scan_runs (take valid g) (take valid p)) (\<lambda>runs.
          ensure (\<not> repeated_groups pad runs)
            (RuntimeError ''Prefix-tree metadata requires contiguous group runs per row'')
          (bindE (foldE (parse_run pad) runs parse_start) (\<lambda>st.
            Inr \<lparr>tr_index = row_index, tr_valid = valid, tr_segments = parsed st\<rparr>)))))"

definition parse_prefix_tree :: "int list list \<Rightarrow> int list list \<Rightarrow> int \<Rightarrow> tree_row list result" where
  "parse_prefix_tree gs ps pad =
     ensure (map length gs = map length ps) (RuntimeError ''group_ids and parent_ids must share shape'')
     (mapE (\<lambda>r. parse_prefix_tree_row (gs ! r) (ps ! r) r pad) [0..<length gs])"

section \<open>The recurrent execution table\<close>

record recurrent_segment =
  rs_index :: nat
  rs_parent :: int
  rs_row :: nat
  rs_group :: int
  rs_start :: nat
  rs_end :: nat
  rs_depth :: nat

record recurrent_tree =
  rt_batch_size :: nat
  rt_sequence_length :: nat
  rt_valid_lengths :: "nat list"
  rt_segments :: "recurrent_segment list"

definition rt_token_count :: "recurrent_tree \<Rightarrow> nat" where
  "rt_token_count t = sum_list (rt_valid_lengths t)"

definition physical_token_positions :: "recurrent_tree \<Rightarrow> nat list" where
  "physical_token_positions t = concat (map (\<lambda>(row, len).
     map (\<lambda>position. position * rt_batch_size t + row) [0..<len])
     (List.enumerate 0 (rt_valid_lengths t)))"

text \<open>The model validation of \<^verbatim>\<open>RecurrentSegment\<close>; the other bounds hold by type.\<close>

definition recurrent_segment :: "nat \<Rightarrow> int \<Rightarrow> nat \<Rightarrow> int \<Rightarrow> nat \<Rightarrow> nat \<Rightarrow> nat \<Rightarrow> recurrent_segment result" where
  "recurrent_segment index parent row gr s e depth =
     ensure (parent \<ge> -1 \<and> e > 0) (ValueError ''RecurrentSegment'')
     (Inr \<lparr>rs_index = index, rs_parent = parent, rs_row = row, rs_group = gr,
           rs_start = s, rs_end = e, rs_depth = depth\<rparr>)"

record lower_state =
  lowered :: "recurrent_segment list"
  segment_by_group :: "nat \<times> int \<Rightarrow> nat option"

definition row_offsets :: "nat list \<Rightarrow> nat list" where
  "row_offsets lens = map (\<lambda>r. sum_list (take r lens)) [0..<length lens]"

definition lower_segment :: "nat list \<Rightarrow> nat \<Rightarrow> tree_segment \<Rightarrow> lower_state \<Rightarrow> lower_state result" where
  "lower_segment offsets row t st =
     (let index = length (lowered st) in
      bindE (if ts_depth t = 0 then Inr (-1)
             else (case segment_by_group st (row, ts_parent t) of
               None \<Rightarrow> Inl KeyError | Some k \<Rightarrow> Inr (int k)))
        (\<lambda>parent_index. bindE (recurrent_segment index parent_index row (ts_group t)
            (offsets ! row + ts_start t) (offsets ! row + ts_end t) (ts_depth t))
          (\<lambda>s. Inr \<lparr>lowered = lowered st @ [s],
             segment_by_group = (segment_by_group st)((row, ts_group t) \<mapsto> index)\<rparr>)))"

definition lower_row :: "nat list \<Rightarrow> tree_row \<Rightarrow> lower_state \<Rightarrow> lower_state result" where
  "lower_row offsets r = foldE (lower_segment offsets (tr_index r)) (tr_segments r)"

definition parse_recurrent_prefix_tree :: "int list list \<Rightarrow> int list list \<Rightarrow> recurrent_tree result" where
  "parse_recurrent_prefix_tree gs ps =
     ensure (map length gs = map length ps) (ValueError ''group_ids and parent_ids must share shape'')
     (bindE (parse_prefix_tree gs ps (-1)) (\<lambda>parsed_rows.
        let lens = map tr_valid parsed_rows in
        bindE (foldE (lower_row (row_offsets lens)) parsed_rows \<lparr>lowered = [], segment_by_group = Map.empty\<rparr>) (\<lambda>st.
          ensure (length gs > 0 \<and> length (hd gs) > 0) (ValueError ''RecurrentPrefixTree'')
            (Inr \<lparr>rt_batch_size = length gs, rt_sequence_length = length (hd gs),
                  rt_valid_lengths = lens, rt_segments = lowered st\<rparr>))))"

lemma parse_row_example:
  "parse_prefix_tree_row [1,1,2,3,-1] [1,1,1,1,-1] 0 (-1) = Inr
    \<lparr>tr_index = 0, tr_valid = 4, tr_segments =
      [\<lparr>ts_group = 1, ts_parent = 1, ts_start = 0, ts_end = 2, ts_family = 0, ts_ancestors = []\<rparr>,
       \<lparr>ts_group = 2, ts_parent = 1, ts_start = 2, ts_end = 3, ts_family = 0, ts_ancestors = [1]\<rparr>,
       \<lparr>ts_group = 3, ts_parent = 1, ts_start = 3, ts_end = 4, ts_family = 0, ts_ancestors = [1]\<rparr>]\<rparr>"
  by code_simp

section \<open>The runs of a packed row\<close>

lemma change_points_append:
  assumes "x \<notin> set xs"
  shows "change_points (xs @ replicate (Suc n) x) =
    change_points xs @ (if xs = [] then [] else [length xs])"
proof -
  let ?ys = "xs @ replicate (Suc n) x"
  have same: "?ys ! i = x" if "length xs \<le> i" "i < length xs + Suc n" for i
  proof -
    have "i - length xs < Suc n" using that by arith
    then show ?thesis using that(1) by (simp only: nth_append not_le [symmetric] if_True if_False simp_thms nth_replicate)
  qed
  have tail: "filter (\<lambda>i. ?ys ! i \<noteq> ?ys ! (i - 1)) [Suc (length xs)..<length xs + Suc n] = []"
    unfolding filter_empty_conv
  proof
    fix i assume "i \<in> set [Suc (length xs)..<length xs + Suc n]"
    then have "length xs \<le> i" "i < length xs + Suc n" "length xs \<le> i - 1" "i - 1 < length xs + Suc n"
      unfolding set_upt atLeastLessThan_iff by arith+
    then show "\<not> ?ys ! i \<noteq> ?ys ! (i - 1)"
      by (simp only: same simp_thms)
  qed
  show ?thesis
  proof (cases "xs = []")
    case True
    then have "change_points ?ys = filter (\<lambda>i. ?ys ! i \<noteq> ?ys ! (i - 1)) [Suc (length xs)..<length xs + Suc n]"
      unfolding change_points_def by (simp only: True list.size append_Nil length_replicate One_nat_def add_0)
    with tail True show ?thesis by (simp add: change_points_def)
  next
    case False
    then have one: "1 \<le> length xs" by (cases xs) simp_all
    have "[1..<length xs + Suc n] = [1..<length xs] @ [length xs..<length xs + Suc n]"
      by (rule upt_add_eq_append [OF one])
    also have "[length xs..<length xs + Suc n] = length xs # [Suc (length xs)..<length xs + Suc n]"
      by (rule upt_conv_Cons) simp
    finally have split: "[1..<length xs + Suc n] = [1..<length xs] @ length xs # [Suc (length xs)..<length xs + Suc n]" .
    have "filter (\<lambda>i. ?ys ! i \<noteq> ?ys ! (i - 1)) [1..<length xs]
        = filter (\<lambda>i. xs ! i \<noteq> xs ! (i - 1)) [1..<length xs]"
      by (rule filter_cong) (simp_all only: set_upt atLeastLessThan_iff nth_append less_imp_diff_less if_True simp_thms)
    moreover have "xs ! (length xs - 1) \<noteq> x" using assms False by (metis last_conv_nth last_in_set)
    moreover have "?ys ! length xs = x" by (rule same) simp_all
    moreover have "?ys ! (length xs - 1) = xs ! (length xs - 1)"
      using nth_append [of xs _ "length xs - 1"] one by (simp only: diff_less zero_less_one less_le_trans if_True)
    ultimately show ?thesis using False tail
      unfolding change_points_def length_append length_replicate split filter_append
      by (simp del: replicate_Suc)
  qed
qed

lemma inconsistent_append:
  assumes "x \<notin> set xs" and "length xs = length ys" and "\<not> inconsistent_parents xs ys"
  shows "\<not> inconsistent_parents (xs @ replicate n x) (ys @ replicate n y)"
proof
  assume "inconsistent_parents (xs @ replicate n x) (ys @ replicate n y)"
  then obtain i where i: "1 \<le> i" "i < length xs + n"
    "(xs @ replicate n x) ! i = (xs @ replicate n x) ! (i - 1)"
    "(ys @ replicate n y) ! i \<noteq> (ys @ replicate n y) ! (i - 1)"
    by (auto simp: inconsistent_parents_def list_ex_iff)
  consider "i < length xs" | "i = length xs" | "length xs < i" by linarith
  then show False
  proof cases
    case 1
    then have "i - 1 < length xs" by simp
    with i 1 assms(2) have "xs ! i = xs ! (i - 1)" "ys ! i \<noteq> ys ! (i - 1)"
      by (simp_all only: nth_append if_True simp_thms)
    moreover have "i \<in> set [1..<length xs]" using i(1) 1 by simp
    ultimately show False using assms(3) unfolding inconsistent_parents_def list_ex_iff by blast
  next
    case 2
    then have "i - 1 < length xs" "i < length xs + n" using i by linarith+
    with i(3) 2 have "xs ! (i - 1) = x" by (simp add: nth_append)
    with \<open>i - 1 < length xs\<close> assms(1) show False using nth_mem by fastforce
  next
    case 3
    then have "\<not> i - 1 < length xs" by simp
    with 3 i(2,4) assms(2) show False by (simp add: nth_append)
  qed
qed

abbreviation "group_row \<equiv> materialize (\<lambda>s. replicate (seg_length s) (group_id s))"
abbreviation "parent_row \<equiv> materialize (\<lambda>s. replicate (seg_length s) (parent_id s))"

lemma rows_length [simp]: "length (group_row segs) = plan_length segs" "length (parent_row segs) = plan_length segs"
  by (simp_all add: materialize_length)

text \<open>Segments with positive lengths and distinct groups are exactly the runs of their row.\<close>

definition tiles :: "pack_segment list \<Rightarrow> bool" where
  "tiles segs \<longleftrightarrow> packed_from 0 segs \<and> distinct (map group_id segs) \<and> (\<forall>s \<in> set segs. 0 < seg_length s)"

lemma tiles_snoc: "tiles (segs @ [s]) \<longleftrightarrow>
  tiles segs \<and> packed_start s = plan_length segs \<and> 0 < seg_length s \<and> group_id s \<notin> group_id ` set segs"
  by (auto simp: tiles_def packed_from_append)

lemma group_row_set: "set (group_row segs) \<subseteq> group_id ` set segs"
  by (induction segs) auto

lemma tiles_runs:
  "tiles segs \<Longrightarrow> \<not> inconsistent_parents (group_row segs) (parent_row segs) \<and>
    (segs \<noteq> [] \<longrightarrow> 0 # change_points (group_row segs) = map packed_start segs)"
proof (induction segs rule: rev_induct)
  case Nil
  then show ?case by (simp add: inconsistent_parents_def)
next
  case (snoc s segs)
  then have IH: "\<not> inconsistent_parents (group_row segs) (parent_row segs)"
      "segs \<noteq> [] \<longrightarrow> 0 # change_points (group_row segs) = map packed_start segs"
    and s: "packed_start s = plan_length segs" "0 < seg_length s"
    by (simp_all add: tiles_snoc)
  have fresh: "group_id s \<notin> set (group_row segs)"
    using snoc.prems group_row_set [of segs] by (auto simp: tiles_snoc)
  from inconsistent_append [OF fresh _ IH(1)]
  have "\<not> inconsistent_parents (group_row (segs @ [s])) (parent_row (segs @ [s]))" by simp
  moreover have "0 # change_points (group_row (segs @ [s])) = map packed_start (segs @ [s])"
  proof (cases "segs = []")
    case True
    with s change_points_append [of "group_id s" "[]" "seg_length s - 1"] show ?thesis
      by (simp add: change_points_def)
  next
    case False
    then have "0 < plan_length segs"
      using snoc.prems by (cases segs) (auto simp: tiles_def)
    then have "group_row segs \<noteq> []" by (metis rows_length(1) length_greater_0_conv)
    moreover obtain n where "seg_length s = Suc n" using s(2) by (cases "seg_length s") auto
    ultimately show ?thesis
      using change_points_append [OF fresh, of n] IH(2) False s(1) by simp
  qed
  ultimately show ?case by simp
qed

lemma packed_from_ends:
  "packed_from c segs \<Longrightarrow> segs \<noteq> [] \<Longrightarrow>
    tl (map packed_start segs) @ [c + plan_length segs] = map (\<lambda>s. packed_start s + seg_length s) segs"
proof (induction c segs rule: packed_from.induct)
  case (2 c s ss)
  then show ?case
    by (cases ss) (auto simp: add.assoc)
qed simp

definition run_of :: "pack_segment \<Rightarrow> id_run" where
  "run_of s = (packed_start s, packed_start s + seg_length s, group_id s, parent_id s)"

lemma scan_runs_packed:
  assumes "tiles segs"
  shows "scan_runs (group_row segs) (parent_row segs) = Inr (map run_of segs)"
proof (cases "segs = []")
  case True
  then show ?thesis by (simp add: scan_runs_def)
next
  case False
  have pf: "packed_from 0 segs" using assms by (simp add: tiles_def)
  have "0 < plan_length segs" using assms False by (cases segs) (auto simp: tiles_def)
  moreover have starts: "0 # change_points (group_row segs) = map packed_start segs"
    and "\<not> inconsistent_parents (group_row segs) (parent_row segs)"
    using tiles_runs [OF assms] False by auto
  moreover have "group_row segs ! packed_start s = group_id s" "parent_row segs ! packed_start s = parent_id s"
    if "s \<in> set segs" for s
    using materialize_nth [OF pf that, of 0 "\<lambda>s. replicate (seg_length s) (group_id s)"]
      materialize_nth [OF pf that, of 0 "\<lambda>s. replicate (seg_length s) (parent_id s)"] that assms
    by (auto simp: tiles_def)
  ultimately show ?thesis
    using packed_from_ends [OF pf False]
    by (simp add: scan_runs_def Let_def starts zip_map_map map_replicate_const run_of_def
        zip_same_conv_map comp_def)
qed

lemma valid_length_packed:
  assumes "tiles segs" and "\<forall>s \<in> set segs. 0 < group_id s \<and> 0 \<le> parent_id s"
  shows "valid_length (group_row segs @ replicate k (-1)) (parent_row segs @ replicate k (-1)) (-1)
    = Inr (plan_length segs)"
proof -
  have pos: "x \<noteq> -1" if "x \<in> set (group_row segs)" for x
    using that assms(2) group_row_set [of segs] by force
  then have f: "filter (\<lambda>x. x \<noteq> -1) (group_row segs @ replicate k (-1)) = group_row segs"
    by (simp add: filter_id_conv)
  have last: "snd (snd (snd (last (map run_of segs)))) \<ge> 0" if "segs \<noteq> []"
    using that assms(2) by (simp add: last_map run_of_def)
  have "infer_terminal_padding_length (group_row segs) (parent_row segs) = Inr (plan_length segs)"
    using last by (cases "segs = []")
      (auto simp: infer_terminal_padding_length_def scan_runs_packed [OF assms(1)] split: prod.splits)
  with pos show ?thesis
    unfolding valid_length_def Let_def f by (auto simp: list_all_iff)
qed

section \<open>The tree of a plan\<close>

text \<open>
  The tree a plan stands for, written down without the parser: the ancestors of a segment
  are the earlier segments of its sequences, and its family is the number of roots before
  its own root.
\<close>

definition is_root :: "pack_segment \<Rightarrow> bool" where
  "is_root s \<longleftrightarrow> parent_id s = group_id s"

definition ancestors_in :: "pack_segment list \<Rightarrow> pack_segment \<Rightarrow> int list" where
  "ancestors_in us s = map group_id (path (hd (sequence_indices s)) us)"

definition root_id :: "pack_segment list \<Rightarrow> pack_segment \<Rightarrow> int" where
  "root_id us s = hd (ancestors_in us s @ [group_id s])"

definition family_of :: "pack_segment list \<Rightarrow> pack_segment \<Rightarrow> nat" where
  "family_of us s = length (filter is_root (takeWhile (\<lambda>t. group_id t \<noteq> root_id us s) us))"

definition tree_node :: "pack_segment list \<Rightarrow> pack_segment \<Rightarrow> tree_segment" where
  "tree_node us s = \<lparr>ts_group = group_id s, ts_parent = parent_id s, ts_start = packed_start s,
     ts_end = packed_start s + seg_length s, ts_family = family_of us s, ts_ancestors = ancestors_in us s\<rparr>"

fun tree_nodes :: "pack_segment list \<Rightarrow> pack_segment list \<Rightarrow> tree_segment list" where
  "tree_nodes us [] = []"
| "tree_nodes us (s # ss) = tree_node us s # tree_nodes (us @ [s]) ss"

lemma tree_nodes_snoc: "tree_nodes us (ss @ [s]) = tree_nodes us ss @ [tree_node (us @ ss) s]"
  by (induction us ss rule: tree_nodes.induct) simp_all

lemma well_packed_tiles: "well_packed rs segs \<Longrightarrow> tiles segs"
  using well_packed_seg_length well_packedD(3,4) by (auto simp: tiles_def)

text \<open>The parent of a segment and what lies between: a parent is the last earlier segment.\<close>

lemma well_packed_split_parent:
  assumes wp: "well_packed rs (us @ s # vs)" and child: "\<not> is_root s"
  obtains us1 t us2 where "us = us1 @ t # us2" and "group_id t = parent_id s"
    and "\<And>i. i \<in> set (sequence_indices s) \<Longrightarrow> path i us = path i us1 @ [t] \<and> i \<in> set (sequence_indices t)"
proof -
  obtain t where t: "t \<in> set us" "group_id t = parent_id s"
    "set (sequence_indices s) \<subseteq> set (sequence_indices t)"
    "\<And>i. i \<in> set (sequence_indices s) \<Longrightarrow> path i us \<noteq> [] \<and> last (path i us) = t"
    using well_packed_parent [OF wp] child unfolding is_root_def by metis
  obtain us1 us2 where us: "us = us1 @ t # us2" using t(1) by (meson split_list)
  have "t \<notin> set us2" using well_packedD(3) [OF wp] us by (auto simp: image_iff)
  have "path i us2 = []" if i: "i \<in> set (sequence_indices s)" for i
  proof (rule ccontr)
    assume ne: "path i us2 \<noteq> []"
    have "i \<in> set (sequence_indices t)" using t(3) i by blast
    then have "last (path i us) = last (path i us2)" using ne us by (simp add: path_Cons)
    with t(4) [OF i] path_last_mem [OF ne] \<open>t \<notin> set us2\<close> show False by simp
  qed
  then have "path i us = path i us1 @ [t] \<and> i \<in> set (sequence_indices t)" if "i \<in> set (sequence_indices s)" for i
    using t(3) that us by (auto simp: path_Cons)
  with us t(2) show thesis using that by blast
qed

lemma well_packed_same_path:
  "well_packed rs (us @ s # vs) \<Longrightarrow> i \<in> set (sequence_indices s) \<Longrightarrow> j \<in> set (sequence_indices s) \<Longrightarrow>
   path i us = path j us"
proof (induction "length us" arbitrary: us s vs i j rule: less_induct)
  case less
  show ?case
  proof (cases "is_root s")
    case True
    then show ?thesis
      using well_packed_root [OF less.prems(1)] less.prems(2,3) by (simp add: is_root_def)
  next
    case False
    from well_packed_split_parent [OF less.prems(1) this] obtain us1 t us2
      where us: "us = us1 @ t # us2"
        and p: "\<And>i. i \<in> set (sequence_indices s) \<Longrightarrow> path i us = path i us1 @ [t] \<and> i \<in> set (sequence_indices t)"
      by metis
    have "path i us1 = path j us1"
    proof (rule less.hyps)
      show "well_packed rs (us1 @ t # (us2 @ s # vs))" using less.prems(1) us by simp
    qed (use us p less.prems in auto)
    with p less.prems(2,3) show ?thesis by simp
  qed
qed

lemma ancestors_in_root: "well_packed rs (us @ s # vs) \<Longrightarrow> is_root s \<Longrightarrow> ancestors_in us s = []"
  using well_packed_root [of rs us s vs "hd (sequence_indices s)"] well_packed_members [of rs "us @ s # vs" s]
  by (simp add: ancestors_in_def is_root_def)

lemma family_of_root:
  assumes "well_packed rs (us @ s # vs)" and "is_root s"
  shows "family_of us s = length (filter is_root us)"
proof -
  have "takeWhile (\<lambda>t. group_id t \<noteq> group_id s) us = us"
    using well_packedD(3) [OF assms(1)] by (auto simp: takeWhile_eq_all_conv image_iff)
  then show ?thesis
    by (simp only: family_of_def root_id_def ancestors_in_root [OF assms] append_Nil list.sel)
qed

lemma ancestors_in_child:
  assumes wp: "well_packed rs (us1 @ t # us2 @ s # vs)"
    and i: "i \<in> set (sequence_indices s)" "i \<in> set (sequence_indices t)"
    and p: "path i (us1 @ t # us2) = path i us1 @ [t]" and par: "group_id t = parent_id s"
  shows "ancestors_in (us1 @ t # us2) s = ancestors_in us1 t @ [parent_id s]"
    and "family_of (us1 @ t # us2) s = family_of us1 t"
proof -
  let ?us = "us1 @ t # us2"
  have wp': "well_packed rs (?us @ s # vs)" using wp by simp
  have hs: "hd (sequence_indices s) \<in> set (sequence_indices s)"
    and ht: "hd (sequence_indices t) \<in> set (sequence_indices t)"
    using well_packed_members [OF wp, of s] well_packed_members [OF wp, of t] by simp_all
  have "path (hd (sequence_indices s)) ?us = path i us1 @ [t]"
    by (rule trans [OF well_packed_same_path [OF wp' hs i(1)] p])
  moreover have "path (hd (sequence_indices t)) us1 = path i us1"
    by (rule well_packed_same_path [OF wp ht i(2)])
  ultimately show anc: "ancestors_in ?us s = ancestors_in us1 t @ [parent_id s]"
    by (simp only: ancestors_in_def par map_append list.map)
  have root: "root_id ?us s = root_id us1 t"
    using par by (simp add: root_id_def anc hd_append)
  have "takeWhile (\<lambda>u. group_id u \<noteq> root_id us1 t) ?us = takeWhile (\<lambda>u. group_id u \<noteq> root_id us1 t) us1"
  proof (cases "ancestors_in us1 t = []")
    case True
    then have r: "root_id us1 t = group_id t" by (simp add: root_id_def)
    have "\<forall>u \<in> set us1. group_id u \<noteq> group_id t" using well_packedD(3) [OF wp] by (auto simp: image_iff)
    then have "takeWhile (\<lambda>u. group_id u \<noteq> group_id t) us1 = us1" by (simp add: takeWhile_eq_all_conv)
    moreover have "takeWhile (\<lambda>u. group_id u \<noteq> group_id t) ?us = us1"
      using takeWhile_append2 [of us1 "\<lambda>u. group_id u \<noteq> group_id t" "t # us2"]
        \<open>\<forall>u \<in> set us1. group_id u \<noteq> group_id t\<close> by simp
    ultimately show ?thesis by (simp only: r)
  next
    case False
    then have "root_id us1 t = hd (ancestors_in us1 t)" by (simp add: root_id_def)
    moreover have "hd (ancestors_in us1 t) \<in> set (ancestors_in us1 t)" using False by simp
    ultimately obtain u where u: "u \<in> set us1" "\<not> group_id u \<noteq> root_id us1 t"
      by (auto simp: ancestors_in_def path_mem)
    show ?thesis by (rule takeWhile_append1 [where P = "\<lambda>u. group_id u \<noteq> root_id us1 t", OF u])
  qed
  then show "family_of ?us s = family_of us1 t" by (simp add: family_of_def root)
qed

section \<open>The parser builds that tree\<close>

definition parse_inv :: "pack_segment list \<Rightarrow> parse_state \<Rightarrow> bool" where
  "parse_inv us st \<longleftrightarrow>
     parsed st = tree_nodes [] us \<and> next_family_index st = length (filter is_root us) \<and>
     (\<forall>us1 t us2. us = us1 @ t # us2 \<longrightarrow>
        first_segment_by_group st (group_id t) = Some (tree_node us1 t) \<and>
        family_by_group st (group_id t) = Some (family_of us1 t) \<and>
        ancestors_by_group st (group_id t) = Some (ancestors_in us1 t))"

lemma parse_invD:
  assumes "parse_inv (us1 @ t # us2) st"
  shows "first_segment_by_group st (group_id t) = Some (tree_node us1 t)"
    and "family_by_group st (group_id t) = Some (family_of us1 t)"
    and "ancestors_by_group st (group_id t) = Some (ancestors_in us1 t)"
  using assms unfolding parse_inv_def by blast+

lemma parse_inv_record:
  assumes inv: "parse_inv us st" and new: "group_id s \<notin> group_id ` set us"
    and n: "n = length (filter is_root (us @ [s]))"
  shows "parse_inv (us @ [s]) (record_segment (tree_node us s) (st\<lparr>next_family_index := n\<rparr>))"
  unfolding parse_inv_def
proof (intro conjI allI impI)
  show "parsed (record_segment (tree_node us s) (st\<lparr>next_family_index := n\<rparr>)) = tree_nodes [] (us @ [s])"
    using inv by (simp add: record_segment_def parse_inv_def tree_nodes_snoc)
  show "next_family_index (record_segment (tree_node us s) (st\<lparr>next_family_index := n\<rparr>))
      = length (filter is_root (us @ [s]))"
    by (simp add: record_segment_def n)
  fix us1 t us2 assume split: "us @ [s] = us1 @ t # us2"
  let ?st = "record_segment (tree_node us s) (st\<lparr>next_family_index := n\<rparr>)"
  have "first_segment_by_group ?st (group_id t) = Some (tree_node us1 t) \<and>
    family_by_group ?st (group_id t) = Some (family_of us1 t) \<and>
    ancestors_by_group ?st (group_id t) = Some (ancestors_in us1 t)"
  proof (cases us2 rule: rev_cases)
    case Nil
    with split show ?thesis by (simp add: record_segment_def tree_node_def)
  next
    case (snoc us3 x)
    with split have us: "us = us1 @ t # us3" by simp
    then have "group_id t \<noteq> group_id s" using new by auto
    with parse_invD [of us1 t us3 st] inv us show ?thesis
      by (simp add: record_segment_def tree_node_def)
  qed
  then show "first_segment_by_group ?st (group_id t) = Some (tree_node us1 t)"
    "family_by_group ?st (group_id t) = Some (family_of us1 t)"
    "ancestors_by_group ?st (group_id t) = Some (ancestors_in us1 t)" by blast+
qed

lemma packed_from_mono:
  "packed_from c (xs @ [s]) \<Longrightarrow> t \<in> set xs \<Longrightarrow> packed_start t + seg_length t \<le> packed_start s"
  by (induction c xs rule: packed_from.induct) (auto simp: packed_from_append)

lemma parse_run_packed:
  assumes wp: "well_packed rs (us @ s # vs)" and inv: "parse_inv us st"
  obtains st' where "parse_run (-1) (run_of s) st = Inr st'" and "parse_inv (us @ [s]) st'"
proof -
  have new: "group_id s \<notin> group_id ` set us" using well_packedD(3) [OF wp] by auto
  show thesis
  proof (cases "is_root s")
    case True
    let ?st = "st\<lparr>next_family_index := length (filter is_root (us @ [s]))\<rparr>"
    have "parse_run (-1) (run_of s) st = Inr (record_segment (tree_node us s) ?st)"
      using True inv family_of_root [OF wp True] ancestors_in_root [OF wp True]
      by (simp add: parse_run_def run_of_def is_root_run_def is_root_def tree_node_def parse_inv_def)
    then show thesis using parse_inv_record [OF inv new refl] by (rule that)
  next
    case False
    obtain us1 t us2 where us: "us = us1 @ t # us2" and par: "group_id t = parent_id s"
      and p: "\<And>i. i \<in> set (sequence_indices s) \<Longrightarrow> path i us = path i us1 @ [t] \<and> i \<in> set (sequence_indices t)"
      using well_packed_split_parent [OF wp False] by metis
    let ?i = "hd (sequence_indices s)"
    have i: "?i \<in> set (sequence_indices s)" using well_packed_members [OF wp, of s] by simp
    have wp': "well_packed rs (us1 @ t # us2 @ s # vs)" using wp us by simp
    note child = ancestors_in_child [OF wp' i _ _ par]
    have "0 < group_id t" using well_packed_members [OF wp', of t] by simp
    then have notroot: "\<not> is_root_run (-1) (run_of s)"
      using False par by (simp add: is_root_run_def run_of_def is_root_def)
    have "ts_end (tree_node us1 t) \<le> packed_start s"
      using packed_from_mono [of 0 us s t] well_packedD(4) [OF wp] us
      by (simp add: tree_node_def packed_from_append)
    then have "parse_run (-1) (run_of s) st = Inr (record_segment (tree_node us s) st)"
      using parse_invD [of us1 t us2 st] inv us par child p [OF i] notroot
      by (simp add: parse_run_def run_of_def tree_node_def)
    moreover have "st = st\<lparr>next_family_index := length (filter is_root (us @ [s]))\<rparr>"
      using inv False by (simp add: parse_inv_def)
    ultimately show thesis using parse_inv_record [OF inv new refl] that by metis
  qed
qed

lemma parse_runs_packed:
  "well_packed rs (us @ ss) \<Longrightarrow> parse_inv us st \<Longrightarrow>
   \<exists>st'. foldE (parse_run (-1)) (map run_of ss) st = Inr st' \<and> parse_inv (us @ ss) st'"
proof (induction ss arbitrary: us st)
  case Nil
  then show ?case by simp
next
  case (Cons s ss)
  obtain st' where st': "parse_run (-1) (run_of s) st = Inr st'" "parse_inv (us @ [s]) st'"
    by (rule parse_run_packed [OF Cons.prems])
  from Cons.IH [of "us @ [s]" st'] Cons.prems(1) st' show ?case by simp
qed

lemma parse_packed_row:
  assumes wp: "well_packed rs segs"
  shows "parse_prefix_tree_row (group_row segs @ replicate k (-1)) (parent_row segs @ replicate k (-1)) r (-1)
    = Inr \<lparr>tr_index = r, tr_valid = plan_length segs, tr_segments = tree_nodes [] segs\<rparr>"
proof -
  have tiles: "tiles segs" by (rule well_packed_tiles [OF wp])
  have pos: "0 < group_id s \<and> 0 \<le> parent_id s" if s: "s \<in> set segs" for s
  proof -
    obtain us vs where segs: "segs = us @ s # vs" using s by (meson split_list)
    show ?thesis
    proof (cases "is_root s")
      case True
      then show ?thesis using well_packed_members [OF wp s] by (simp add: is_root_def)
    next
      case False
      obtain us1 t us2 where "us = us1 @ t # us2" "group_id t = parent_id s"
        using well_packed_split_parent [OF wp [unfolded segs] False] by metis
      with well_packed_members [OF wp, of t] well_packed_members [OF wp s] segs show ?thesis by simp
    qed
  qed
  have valid: "valid_length (group_row segs @ replicate k (-1)) (parent_row segs @ replicate k (-1)) (-1)
      = Inr (plan_length segs)"
    by (rule valid_length_packed [OF tiles]) (use pos in blast)
  have "parse_inv [] parse_start" by (simp add: parse_inv_def parse_start_def)
  with parse_runs_packed [of rs "[]" segs parse_start] wp obtain st
    where st: "foldE (parse_run (-1)) (map run_of segs) parse_start = Inr st" "parsed st = tree_nodes [] segs"
    by (auto simp: parse_inv_def)
  have "map (\<lambda>(s, e, gr, pa). gr) (map run_of segs) = map group_id segs" by (simp add: run_of_def)
  then have norep: "\<not> repeated_groups (-1) (map run_of segs)"
    using well_packedD(3) [OF wp] unfolding repeated_groups_def Let_def by (simp only: distinct_filter not_not)
  show ?thesis
  proof (cases "segs = []")
    case True
    with valid show ?thesis by (simp add: parse_prefix_tree_row_def)
  next
    case False
    then have "0 < plan_length segs" using tiles by (cases segs) (auto simp: tiles_def)
    with valid norep st show ?thesis
      by (simp add: parse_prefix_tree_row_def scan_runs_packed [OF tiles])
  qed
qed

section \<open>What any accepted row means\<close>

fun runs_chain :: "nat \<Rightarrow> nat \<Rightarrow> id_run list \<Rightarrow> bool" where
  "runs_chain c n [] \<longleftrightarrow> c = n"
| "runs_chain c n ((s, e, gr, pa) # rs) \<longleftrightarrow> s = c \<and> s < e \<and> runs_chain e n rs"

lemma zip_runs_chain:
  "sorted_wrt (<) (c # cs) \<Longrightarrow> \<forall>x \<in> set (c # cs). x < n \<Longrightarrow>
   runs_chain c n (map (\<lambda>(s, e). (s, e, f s, h s)) (zip (c # cs) (cs @ [n])))"
proof (induction cs arbitrary: c)
  case Nil
  then show ?case by simp
next
  case (Cons d cs)
  then show ?case by auto
qed

lemma zip_runs_gap:
  fixes c n :: nat
  shows "sorted_wrt (<) (c # cs) \<Longrightarrow> \<forall>x \<in> set (c # cs). x < n \<Longrightarrow> (s, e) \<in> set (zip (c # cs) (cs @ [n])) \<Longrightarrow>
   e \<le> n \<and> (\<forall>k. s < k \<and> k < e \<longrightarrow> k \<notin> set (c # cs))"
proof (induction cs arbitrary: c)
  case Nil
  then have "s = c" "e = n" by simp_all
  then show ?case by auto
next
  case (Cons d cs)
  show ?case
  proof (cases "(s, e) = (c, d)")
    case True
    then show ?thesis using Cons.prems by (auto dest: less_trans)
  next
    case False
    with Cons.prems have in_tail: "(s, e) \<in> set (zip (d # cs) (cs @ [n]))" by auto
    have IH: "e \<le> n \<and> (\<forall>k. s < k \<and> k < e \<longrightarrow> k \<notin> set (d # cs))"
      by (rule Cons.IH [OF _ _ in_tail]) (use Cons.prems in auto)
    have "s \<in> set (d # cs)" using in_tail by (meson set_zip_leftD)
    then have "c < s" using Cons.prems(1) by auto
    with IH show ?thesis by auto
  qed
qed

lemma change_points_sorted: "sorted_wrt (<) (0 # change_points g)"
  unfolding change_points_def by (auto intro: sorted_wrt_filter)

lemma scan_runs_sound:
  assumes "scan_runs g p = Inr runs" and "length p = length g"
  shows "runs_chain 0 (length g) runs"
    and "(s, e, gr, pa) \<in> set runs \<Longrightarrow> s \<le> k \<Longrightarrow> k < e \<Longrightarrow> e \<le> length g \<and> g ! k = gr \<and> p ! k = pa"
proof -
  let ?cs = "change_points g"
  have "g = [] \<and> runs = [] \<or> g \<noteq> [] \<and> \<not> inconsistent_parents g p \<and>
      runs = map (\<lambda>(s, e). (s, e, g ! s, p ! s)) (zip (0 # ?cs) (?cs @ [length g]))"
    using assms(1) unfolding scan_runs_def Let_def list.sel by (simp split: if_splits del: zip_Cons_Cons)
  then consider (empty) "g = []" "runs = []"
    | (runs) "g \<noteq> []" "\<not> inconsistent_parents g p"
      "runs = map (\<lambda>(s, e). (s, e, g ! s, p ! s)) (zip (0 # ?cs) (?cs @ [length g]))"
    by blast
  note cs = this
  have bound: "\<forall>x \<in> set (0 # ?cs). x < length g" if "g \<noteq> []"
    using that by (auto simp: change_points_def)
  show "runs_chain 0 (length g) runs"
    using cs
  proof cases
    case runs
    show ?thesis unfolding runs(3) by (rule zip_runs_chain [OF change_points_sorted bound [OF runs(1)]])
  qed simp
  assume r: "(s, e, gr, pa) \<in> set runs" and k: "s \<le> k" "k < e"
  show "e \<le> length g \<and> g ! k = gr \<and> p ! k = pa"
    using cs
  proof cases
    case runs
    from r have z: "(s, e) \<in> set (zip (0 # ?cs) (?cs @ [length g]))" "gr = g ! s" "pa = p ! s"
      unfolding runs(3) by (auto simp del: zip_Cons_Cons)
    note gap = zip_runs_gap [OF change_points_sorted bound [OF runs(1)] z(1)]
    have "s \<le> j \<Longrightarrow> j < e \<Longrightarrow> g ! j = gr \<and> p ! j = pa" for j
    proof (induction j rule: dec_induct)
      case base
      then show ?case using z by simp
    next
      case (step j)
      then have j: "Suc j \<in> set [1..<length g]" "Suc j \<notin> set ?cs" using gap by auto
      then have "g ! Suc j = g ! j" by (auto simp: change_points_def)
      moreover have "p ! Suc j = p ! j"
        using runs(2) j calculation by (auto simp: inconsistent_parents_def list_ex_iff)
      ultimately show ?case using step by simp
    qed
    with k gap show ?thesis by blast
  qed (use r in simp)
qed

text \<open>
  A well-formed tree: the segments tile the row from \<open>0\<close>, no group occurs twice, and a
  segment with ancestors continues an earlier, already closed one.
\<close>

fun segments_chain :: "nat \<Rightarrow> nat \<Rightarrow> tree_segment list \<Rightarrow> bool" where
  "segments_chain c n [] \<longleftrightarrow> c = n"
| "segments_chain c n (t # ts) \<longleftrightarrow> ts_start t = c \<and> c < ts_end t \<and> segments_chain (ts_end t) n ts"

definition child_ok :: "tree_segment list \<Rightarrow> tree_segment \<Rightarrow> bool" where
  "child_ok earlier t \<longleftrightarrow> ts_ancestors t = [] \<or>
     (\<exists>q \<in> set earlier. ts_group q = ts_parent t \<and> ts_end q \<le> ts_start t \<and>
        ts_family q = ts_family t \<and> ts_ancestors t = ts_ancestors q @ [ts_parent t])"

fun children_ok :: "tree_segment list \<Rightarrow> tree_segment list \<Rightarrow> bool" where
  "children_ok earlier [] \<longleftrightarrow> True"
| "children_ok earlier (t # ts) \<longleftrightarrow> child_ok earlier t \<and> children_ok (earlier @ [t]) ts"

definition well_formed_tree :: "nat \<Rightarrow> tree_segment list \<Rightarrow> bool" where
  "well_formed_tree n ts \<longleftrightarrow>
     segments_chain 0 n ts \<and> distinct (map ts_group ts) \<and> children_ok [] ts"

lemma children_ok_snoc: "children_ok es (ts @ [t]) \<longleftrightarrow> children_ok es ts \<and> child_ok (es @ ts) t"
  by (induction es ts rule: children_ok.induct) auto

lemma segments_chain_snoc:
  "segments_chain c n (ts @ [t]) \<longleftrightarrow> segments_chain c (ts_start t) ts \<and> ts_start t < ts_end t \<and> ts_end t = n"
  by (induction c n ts rule: segments_chain.induct) auto

definition reads_as :: "tree_segment \<Rightarrow> id_run \<Rightarrow> bool" where
  "reads_as t r \<longleftrightarrow> r = (ts_start t, ts_end t, ts_group t, ts_parent t)"

text \<open>The loop invariant: the dictionaries agree with the segments parsed so far.\<close>

definition dicts_ok :: "parse_state \<Rightarrow> bool" where
  "dicts_ok st \<longleftrightarrow> (\<forall>gr q. first_segment_by_group st gr = Some q \<longrightarrow>
     q \<in> set (parsed st) \<and> ts_group q = gr \<and>
     family_by_group st gr = Some (ts_family q) \<and> ancestors_by_group st gr = Some (ts_ancestors q))"

lemma dicts_ok_record: "dicts_ok st \<Longrightarrow> dicts_ok (record_segment t (st\<lparr>next_family_index := n\<rparr>))"
  by (auto simp: dicts_ok_def record_segment_def)

lemma parse_run_sound:
  assumes "parse_run pad r st = Inr st'" and "dicts_ok st"
  obtains t where "parsed st' = parsed st @ [t]" and "dicts_ok st'" and "reads_as t r"
    and "child_ok (parsed st) t"
proof -
  obtain s e gr pa where r: "r = (s, e, gr, pa)" by (cases r)
  show thesis
  proof (cases "is_root_run pad r")
    case True
    let ?t = "\<lparr>ts_group = gr, ts_parent = pa, ts_start = s, ts_end = e,
      ts_family = next_family_index st, ts_ancestors = []\<rparr>"
    have st': "st' = record_segment ?t (st\<lparr>next_family_index := next_family_index st + 1\<rparr>)"
      using assms(1) True r by (simp add: parse_run_def)
    show thesis
    proof (rule that [of ?t])
      show "dicts_ok st'" unfolding st' by (rule dicts_ok_record [OF assms(2)])
    qed (simp_all add: st' record_segment_def reads_as_def r child_ok_def)
  next
    case False
    then obtain q where q: "first_segment_by_group st pa = Some q" "ts_end q \<le> s"
      using assms(1) r by (auto simp: parse_run_def split: option.splits if_splits)
    let ?t = "\<lparr>ts_group = gr, ts_parent = pa, ts_start = s, ts_end = e,
      ts_family = ts_family q, ts_ancestors = ts_ancestors q @ [pa]\<rparr>"
    have d: "q \<in> set (parsed st)" "ts_group q = pa" "family_by_group st pa = Some (ts_family q)"
      "ancestors_by_group st pa = Some (ts_ancestors q)"
      using assms(2) q(1) unfolding dicts_ok_def by blast+
    have st': "st' = record_segment ?t (st\<lparr>next_family_index := next_family_index st\<rparr>)"
      using assms(1) False r q d by (simp add: parse_run_def)
    show thesis
    proof (rule that [of ?t])
      show "dicts_ok st'" unfolding st' by (rule dicts_ok_record [OF assms(2)])
      show "child_ok (parsed st) ?t" using d q(2) by (auto simp: child_ok_def)
    qed (simp_all add: st' record_segment_def reads_as_def r)
  qed
qed

lemma parse_runs_sound:
  "foldE (parse_run pad) runs st = Inr st' \<Longrightarrow> dicts_ok st \<Longrightarrow>
   \<exists>ts. parsed st' = parsed st @ ts \<and> list_all2 reads_as ts runs \<and> children_ok (parsed st) ts"
proof (induction runs arbitrary: st)
  case Nil
  then show ?case by simp
next
  case (Cons r runs)
  then obtain st1 where st1: "parse_run pad r st = Inr st1" "foldE (parse_run pad) runs st1 = Inr st'"
    by (auto simp: bindE_Inr_iff)
  obtain t where t: "parsed st1 = parsed st @ [t]" "dicts_ok st1" "reads_as t r" "child_ok (parsed st) t"
    using parse_run_sound [OF st1(1) Cons.prems(2)] by metis
  obtain ts where "parsed st' = parsed st1 @ ts" "list_all2 reads_as ts runs" "children_ok (parsed st1) ts"
    using Cons.IH [OF st1(2) t(2)] by blast
  with t show ?case by (intro exI [of _ "t # ts"]) simp
qed

lemma reads_as_chain:
  "list_all2 reads_as ts runs \<Longrightarrow> runs_chain c n runs \<Longrightarrow> segments_chain c n ts"
  by (induction ts runs arbitrary: c rule: list_all2_induct) (auto simp: reads_as_def)

lemma reads_as_groups:
  "list_all2 reads_as ts runs \<Longrightarrow> map (\<lambda>(s, e, gr, pa). gr) runs = map ts_group ts"
  by (induction ts runs rule: list_all2_induct) (auto simp: reads_as_def)

lemma infer_terminal_le: "infer_terminal_padding_length g p = Inr n \<Longrightarrow> length p = length g \<Longrightarrow> n \<le> length g"
proof -
  assume a: "infer_terminal_padding_length g p = Inr n" "length p = length g"
  show ?thesis
  proof (cases "n = length g \<or> g = []")
    case True
    then show ?thesis using a by (auto simp: infer_terminal_padding_length_def)
  next
    case False
    with a obtain runs where runs: "scan_runs g p = Inr runs" "\<not> length runs < 2" "fst (last runs) = n"
      by (auto simp: infer_terminal_padding_length_def result_iffs split: if_splits prod.splits)
    then have runs3: "runs \<noteq> []" by auto
    obtain e gr pa where runs2: "last runs = (n, e, gr, pa)" using runs(3) by (cases "last runs") auto
    from runs2 runs3 have m: "(n, e, gr, pa) \<in> set runs" by (metis last_in_set)
    have "runs_chain c m rs \<Longrightarrow> (s, e, gr, pa) \<in> set rs \<Longrightarrow> s < e" for c m rs s
      by (induction c m rs rule: runs_chain.induct) auto
    with scan_runs_sound(1) [OF runs(1) a(2)] m have "n < e" by blast
    with scan_runs_sound(2) [OF runs(1) a(2) m, of n] show ?thesis by simp
  qed
qed

lemma valid_length_sound:
  assumes "valid_length g p pad = Inr n" and "length p = length g"
  shows "n \<le> length g \<and> (\<forall>x \<in> set (take n g). x \<noteq> pad)"
proof (cases "n = 0")
  case False
  let ?c = "length (filter (\<lambda>x. x \<noteq> pad) g)"
  have c: "?c \<le> length g" by simp
  from assms False have *: "list_all (\<lambda>x. x \<noteq> pad) (take ?c g)"
    "infer_terminal_padding_length (take ?c g) (take ?c p) = Inr n"
    by (auto simp: valid_length_def Let_def split: if_splits)
  have "n \<le> ?c" using infer_terminal_le [OF *(2)] assms(2) c by simp
  then have "set (take n g) \<subseteq> set (take ?c g)" by (rule set_take_subset_set_take)
  with *(1) \<open>n \<le> ?c\<close> c show ?thesis unfolding list_all_iff by (meson le_trans subsetD)
qed simp

lemma parse_row_sound:
  assumes "parse_prefix_tree_row g p r pad = Inr row"
  shows "tr_index row = r \<and> tr_valid row \<le> length g \<and> well_formed_tree (tr_valid row) (tr_segments row)"
    and "t \<in> set (tr_segments row) \<Longrightarrow> ts_start t \<le> k \<Longrightarrow> k < ts_end t \<Longrightarrow>
      g ! k = ts_group t \<and> p ! k = ts_parent t"
proof -
  have len: "length p = length g" using assms by (auto simp: parse_prefix_tree_row_def ensure_Inr_iff)
  obtain n where n: "valid_length g p pad = Inr n"
    using assms by (auto simp: parse_prefix_tree_row_def result_iffs)
  note valid = valid_length_sound [OF n len]
  have *: "tr_index row = r \<and> tr_valid row \<le> length g \<and> well_formed_tree (tr_valid row) (tr_segments row) \<and>
    (\<forall>t k. t \<in> set (tr_segments row) \<longrightarrow> ts_start t \<le> k \<longrightarrow> k < ts_end t \<longrightarrow>
      g ! k = ts_group t \<and> p ! k = ts_parent t)"
  proof (cases "n = 0")
    case True
    then show ?thesis using assms n by (auto simp: parse_prefix_tree_row_def result_iffs well_formed_tree_def)
  next
    case False
    with assms n obtain runs st where runs: "scan_runs (take n g) (take n p) = Inr runs"
      "\<not> repeated_groups pad runs" "foldE (parse_run pad) runs parse_start = Inr st"
      and row: "row = \<lparr>tr_index = r, tr_valid = n, tr_segments = parsed st\<rparr>"
      by (auto simp: parse_prefix_tree_row_def result_iffs)
    have lens: "length (take n p) = length (take n g)" using len by simp
    note sound = scan_runs_sound [OF runs(1) lens]
    have "dicts_ok parse_start" by (simp add: dicts_ok_def parse_start_def)
    from parse_runs_sound [OF runs(3) this]
    have ts: "list_all2 reads_as (parsed st) runs" "children_ok [] (parsed st)"
      by (simp_all add: parse_start_def)
    have reads: "g ! k = ts_group t \<and> p ! k = ts_parent t"
      if t: "t \<in> set (parsed st)" and k: "ts_start t \<le> k" "k < ts_end t" for t k
    proof -
      obtain run where run: "run \<in> set runs" "reads_as t run"
        using ts(1) t by (metis in_set_conv_nth list_all2_conv_all_nth)
      then have "(ts_start t, ts_end t, ts_group t, ts_parent t) \<in> set runs" by (simp add: reads_as_def)
      from sound(2) [OF this k] have *: "ts_end t \<le> length (take n g)" "take n g ! k = ts_group t"
        "take n p ! k = ts_parent t" by blast+
      then have "k < n" using k by simp
      with * show ?thesis by (simp only: nth_take)
    qed
    have nopad: "ts_group t \<noteq> pad" if t: "t \<in> set (parsed st)" for t
    proof -
      obtain run where run: "run \<in> set runs" "reads_as t run"
        using ts(1) t by (metis in_set_conv_nth list_all2_conv_all_nth)
      then have m: "(ts_start t, ts_end t, ts_group t, ts_parent t) \<in> set runs" by (simp add: reads_as_def)
      have "runs_chain c m rs \<Longrightarrow> (s, e, gr, pa) \<in> set rs \<Longrightarrow> s < e" for c m rs s e gr pa
        by (induction c m rs rule: runs_chain.induct) auto
      with sound(1) m have lt: "ts_start t < ts_end t" by blast
      with sound(2) [OF m, of "ts_start t"] have "ts_start t < length (take n g)"
        and "take n g ! ts_start t = ts_group t" by auto
      with valid show ?thesis by (metis nth_mem)
    qed
    have "distinct (map ts_group (parsed st))"
    proof -
      have "filter (\<lambda>x. x \<noteq> pad) (map ts_group (parsed st)) = map ts_group (parsed st)"
        using nopad by (auto simp: filter_id_conv)
      with runs(2) reads_as_groups [OF ts(1)] show ?thesis
        by (simp only: repeated_groups_def Let_def not_not)
    qed
    moreover have "segments_chain 0 n (parsed st)"
      using reads_as_chain [OF ts(1) sound(1)] valid by (simp add: min_def split: if_splits)
    ultimately show ?thesis using row valid ts(2) reads by (simp add: well_formed_tree_def)
  qed
  from * show "tr_index row = r \<and> tr_valid row \<le> length g \<and> well_formed_tree (tr_valid row) (tr_segments row)"
    by blast
  from * show "t \<in> set (tr_segments row) \<Longrightarrow> ts_start t \<le> k \<Longrightarrow> k < ts_end t \<Longrightarrow>
      g ! k = ts_group t \<and> p ! k = ts_parent t" by blast
qed

section \<open>Lowering to the recurrent table\<close>

definition parent_entry_ok :: "recurrent_segment list \<Rightarrow> recurrent_segment \<Rightarrow> bool" where
  "parent_entry_ok es s \<longleftrightarrow> (rs_depth s = 0 \<and> rs_parent s = -1) \<or>
     (\<exists>j < length es. rs_parent s = int j \<and> rs_row (es ! j) = rs_row s \<and>
        rs_end (es ! j) \<le> rs_start s \<and> rs_depth s = Suc (rs_depth (es ! j)))"

definition table_ok :: "recurrent_segment list \<Rightarrow> bool" where
  "table_ok ss \<longleftrightarrow> (\<forall>k < length ss. rs_index (ss ! k) = k \<and> parent_entry_ok (take k ss) (ss ! k))"

fun table_chain :: "nat \<Rightarrow> nat \<Rightarrow> recurrent_segment list \<Rightarrow> bool" where
  "table_chain c n [] \<longleftrightarrow> c = n"
| "table_chain c n (s # ss) \<longleftrightarrow> rs_start s = c \<and> c < rs_end s \<and> table_chain (rs_end s) n ss"

lemma table_ok_snoc: "table_ok (ss @ [s]) \<longleftrightarrow> table_ok ss \<and> rs_index s = length ss \<and> parent_entry_ok ss s"
  by (auto simp: table_ok_def nth_append less_Suc_eq)

lemma table_chain_append: "table_chain a b xs \<Longrightarrow> table_chain b c ys \<Longrightarrow> table_chain a c (xs @ ys)"
  by (induction a b xs rule: table_chain.induct) auto

definition lowered_as :: "nat \<Rightarrow> nat \<Rightarrow> tree_segment \<Rightarrow> recurrent_segment \<Rightarrow> bool" where
  "lowered_as off row t s \<longleftrightarrow> rs_row s = row \<and> rs_group s = ts_group t \<and>
     rs_start s = off + ts_start t \<and> rs_end s = off + ts_end t \<and> rs_depth s = ts_depth t"

definition lower_inv :: "nat \<Rightarrow> nat \<Rightarrow> tree_segment list \<Rightarrow> lower_state \<Rightarrow> bool" where
  "lower_inv off row earlier st \<longleftrightarrow> table_ok (lowered st) \<and>
     (\<forall>q \<in> set earlier. \<exists>j < length (lowered st).
        segment_by_group st (row, ts_group q) = Some j \<and> lowered_as off row q (lowered st ! j))"

lemma lower_segment_ok:
  assumes inv: "lower_inv (offs ! row) row earlier st" and child: "child_ok earlier t"
    and len: "ts_start t < ts_end t" and new: "ts_group t \<notin> ts_group ` set earlier"
  obtains s st' where "lower_segment offs row t st = Inr st'" and "lowered st' = lowered st @ [s]"
    and "lowered_as (offs ! row) row t s" and "lower_inv (offs ! row) row (earlier @ [t]) st'"
proof -
  have "\<exists>pidx. (if ts_depth t = 0 then Inr (-1)
      else (case segment_by_group st (row, ts_parent t) of None \<Rightarrow> Inl KeyError | Some k \<Rightarrow> Inr (int k))) = Inr pidx \<and>
    -1 \<le> pidx \<and> (\<forall>idx. parent_entry_ok (lowered st)
      \<lparr>rs_index = idx, rs_parent = pidx, rs_row = row, rs_group = ts_group t,
       rs_start = offs ! row + ts_start t, rs_end = offs ! row + ts_end t, rs_depth = ts_depth t\<rparr>)"
  proof (cases "ts_ancestors t = []")
    case True
    then show ?thesis by (simp add: ts_depth_def parent_entry_ok_def)
  next
    case False
    then obtain q where q: "q \<in> set earlier" "ts_group q = ts_parent t" "ts_end q \<le> ts_start t"
      "ts_ancestors t = ts_ancestors q @ [ts_parent t]"
      using child by (auto simp: child_ok_def)
    obtain j where "j < length (lowered st)" "segment_by_group st (row, ts_group q) = Some j"
      "lowered_as (offs ! row) row q (lowered st ! j)"
      using inv q(1) unfolding lower_inv_def by blast
    with q False show ?thesis
      by (auto simp: ts_depth_def parent_entry_ok_def lowered_as_def)
  qed
  then obtain pidx where p: "(if ts_depth t = 0 then Inr (-1)
      else (case segment_by_group st (row, ts_parent t) of None \<Rightarrow> Inl KeyError | Some k \<Rightarrow> Inr (int k))) = Inr pidx"
    "-1 \<le> pidx" "\<And>idx. parent_entry_ok (lowered st)
      \<lparr>rs_index = idx, rs_parent = pidx, rs_row = row, rs_group = ts_group t,
       rs_start = offs ! row + ts_start t, rs_end = offs ! row + ts_end t, rs_depth = ts_depth t\<rparr>"
    by blast
  let ?s = "\<lparr>rs_index = length (lowered st), rs_parent = pidx, rs_row = row, rs_group = ts_group t,
     rs_start = offs ! row + ts_start t, rs_end = offs ! row + ts_end t, rs_depth = ts_depth t\<rparr>"
  let ?st = "\<lparr>lowered = lowered st @ [?s],
     segment_by_group = (segment_by_group st)((row, ts_group t) \<mapsto> length (lowered st))\<rparr>"
  show thesis
  proof (rule that [of ?st ?s])
    show "lower_segment offs row t st = Inr ?st"
      using len by (simp add: lower_segment_def Let_def p(1,2) recurrent_segment_def)
    show as: "lowered_as (offs ! row) row t ?s" by (simp add: lowered_as_def)
    have "table_ok (lowered st @ [?s])"
      using inv p(3) by (simp add: table_ok_snoc lower_inv_def)
    moreover have "\<exists>j < length (lowered st @ [?s]). segment_by_group ?st (row, ts_group q) = Some j \<and>
        lowered_as (offs ! row) row q ((lowered st @ [?s]) ! j)" if q: "q \<in> set (earlier @ [t])" for q
    proof (cases "q \<in> set earlier")
      case True
      with inv obtain j where j: "j < length (lowered st)" "segment_by_group st (row, ts_group q) = Some j"
        "lowered_as (offs ! row) row q (lowered st ! j)" unfolding lower_inv_def by blast
      moreover have "ts_group q \<noteq> ts_group t" using new True by (metis image_eqI)
      ultimately show ?thesis by (intro exI [of _ j]) (simp add: nth_append)
    next
      case False
      with q as show ?thesis by (intro exI [of _ "length (lowered st)"]) simp
    qed
    ultimately show "lower_inv (offs ! row) row (earlier @ [t]) ?st"
      unfolding lower_inv_def by (simp only: lower_state.select_convs) blast
  qed simp
qed

lemma lower_segments_ok:
  "lower_inv (offs ! row) row earlier st \<Longrightarrow> children_ok earlier ts \<Longrightarrow>
   distinct (map ts_group (earlier @ ts)) \<Longrightarrow> segments_chain c n ts \<Longrightarrow>
   \<exists>st' L. foldE (lower_segment offs row) ts st = Inr st' \<and> lowered st' = lowered st @ L \<and>
     table_ok (lowered st') \<and> table_chain (offs ! row + c) (offs ! row + n) L"
proof (induction ts arbitrary: earlier st c)
  case Nil
  then show ?case by (simp add: lower_inv_def)
next
  case (Cons t ts)
  have child: "child_ok earlier t" and len: "ts_start t < ts_end t"
    and new: "ts_group t \<notin> ts_group ` set earlier"
    using Cons.prems by auto
  obtain s st1 where s: "lower_segment offs row t st = Inr st1" "lowered st1 = lowered st @ [s]"
    "lowered_as (offs ! row) row t s" "lower_inv (offs ! row) row (earlier @ [t]) st1"
    by (rule lower_segment_ok [OF Cons.prems(1) child len new])
  obtain st' L where "foldE (lower_segment offs row) ts st1 = Inr st'" "lowered st' = lowered st1 @ L"
    "table_ok (lowered st')" "table_chain (offs ! row + ts_end t) (offs ! row + n) L"
    using Cons.IH [OF s(4), of "ts_end t"] Cons.prems by auto
  with s Cons.prems(4) show ?case
    by (intro exI [of _ st'] exI [of _ "s # L"]) (simp add: lowered_as_def)
qed

lemma lower_rows_ok:
  "table_ok (lowered st) \<Longrightarrow> (\<And>r. r \<in> set rs \<Longrightarrow> well_formed_tree (tr_valid r) (tr_segments r)) \<Longrightarrow>
   (\<And>k. k < length rs \<Longrightarrow> offs ! tr_index (rs ! k) = c + sum_list (map tr_valid (take k rs))) \<Longrightarrow>
   \<exists>st' L. foldE (lower_row offs) rs st = Inr st' \<and> lowered st' = lowered st @ L \<and>
     table_ok (lowered st') \<and> table_chain c (c + sum_list (map tr_valid rs)) L"
proof (induction rs arbitrary: st c)
  case Nil
  then show ?case by simp
next
  case (Cons r rs)
  have off: "offs ! tr_index r = c" using Cons.prems(3) [of 0] by simp
  have wf: "well_formed_tree (tr_valid r) (tr_segments r)" by (rule Cons.prems(2)) simp
  have inv: "lower_inv (offs ! tr_index r) (tr_index r) [] st" using Cons.prems(1) by (simp add: lower_inv_def)
  obtain st1 L1 where st1: "lower_row offs r st = Inr st1" "lowered st1 = lowered st @ L1"
    "table_ok (lowered st1)" "table_chain c (c + tr_valid r) L1"
    using lower_segments_ok [OF inv, of "tr_segments r" 0 "tr_valid r"] wf
    by (auto simp: well_formed_tree_def lower_row_def off)
  have offs: "offs ! tr_index (rs ! k) = c + tr_valid r + sum_list (map tr_valid (take k rs))" if "k < length rs" for k
    using Cons.prems(3) [of "Suc k"] that by simp
  have wfs: "\<And>q. q \<in> set rs \<Longrightarrow> well_formed_tree (tr_valid q) (tr_segments q)"
    using Cons.prems(2) by simp
  obtain st' L where "foldE (lower_row offs) rs st1 = Inr st'" "lowered st' = lowered st1 @ L"
    "table_ok (lowered st')" "table_chain (c + tr_valid r) (c + tr_valid r + sum_list (map tr_valid rs)) L"
    using Cons.IH [OF st1(3) wfs offs] by blast
  with st1 show ?case
    by (intro exI [of _ st'] exI [of _ "L1 @ L"])
      (auto intro: table_chain_append simp: add.assoc)
qed

lemma parse_prefix_tree_rows:
  assumes "parse_prefix_tree gs ps pad = Inr parsed_rows"
  shows "length parsed_rows = length gs"
    and "r < length gs \<Longrightarrow> parse_prefix_tree_row (gs ! r) (ps ! r) r pad = Inr (parsed_rows ! r)"
proof -
  have m: "mapE (\<lambda>r. parse_prefix_tree_row (gs ! r) (ps ! r) r pad) [0..<length gs] = Inr parsed_rows"
    using assms by (auto simp: parse_prefix_tree_def ensure_Inr_iff)
  show "length parsed_rows = length gs" using mapE_length [OF m] by simp
  show "r < length gs \<Longrightarrow> parse_prefix_tree_row (gs ! r) (ps ! r) r pad = Inr (parsed_rows ! r)"
    using m by (auto simp: mapE_Inr_iff list_all2_conv_all_nth)
qed

lemma lower_parsed_rows:
  assumes "parse_prefix_tree gs ps pad = Inr parsed_rows"
  shows "\<exists>st. foldE (lower_row (row_offsets (map tr_valid parsed_rows))) parsed_rows
      \<lparr>lowered = [], segment_by_group = Map.empty\<rparr> = Inr st \<and> table_ok (lowered st) \<and>
      table_chain 0 (sum_list (map tr_valid parsed_rows)) (lowered st)"
proof -
  note parsed = parse_prefix_tree_rows [OF assms]
  have row: "tr_index (parsed_rows ! r) = r \<and>
      well_formed_tree (tr_valid (parsed_rows ! r)) (tr_segments (parsed_rows ! r))"
    if "r < length parsed_rows" for r
    using parse_row_sound(1) [OF parsed(2)] that parsed(1) by metis
  have wf: "\<And>r. r \<in> set parsed_rows \<Longrightarrow> well_formed_tree (tr_valid r) (tr_segments r)"
    using row by (metis in_set_conv_nth)
  have offs: "row_offsets (map tr_valid parsed_rows) ! tr_index (parsed_rows ! k)
      = 0 + sum_list (map tr_valid (take k parsed_rows))" if "k < length parsed_rows" for k
    using that row by (simp add: row_offsets_def take_map)
  have "table_ok (lowered \<lparr>lowered = [], segment_by_group = Map.empty\<rparr>)" by (simp add: table_ok_def)
  from lower_rows_ok [OF this wf offs] show ?thesis by auto
qed

section \<open>Properties of the parsers\<close>

text \<open>
  C5. Parsing inverts packing: from the packed group and parent ids alone, padded by any
  number of entries, the parser recovers every segment of the plan with its packed range,
  its parent, the chain of its ancestors and the family (the root) it belongs to.
\<close>

theorem parse_inverts_packing:
  assumes "prefix_tree_pack tensors depth lengths min_shared = Inr p" and "tensors \<noteq> []"
  shows "parse_prefix_tree_row (group_ids p @ replicate k (-1)) (parent_ids p @ replicate k (-1)) r (-1)
    = Inr \<lparr>tr_index = r, tr_valid = length (tokens p), tr_segments = tree_nodes [] (pack_segments p)\<rparr>"
proof -
  have "0 < length tensors" using assms(2) by simp
  then obtain sl segs where segs: "prefix_tree_pack_segments tensors depth (Some sl) min_shared = Inr segs"
    and p: "p = (if segs = [] then empty_pack (length tensors) else pack_tensors tensors segs)"
    by (rule prefix_tree_pack_Inr [OF assms(1)])
  have wp: "well_packed tensors segs" by (rule prefix_tree_pack_segments_Inr [OF segs])
  show ?thesis
    using parse_packed_row [OF wp, of k r] packed_size [OF segs] p
    by (cases "segs = []") (simp_all add: pack_tensors_fields [OF wp] empty_pack_def)
qed

theorem parse_inverts_packing_witness:
  "map ts_ancestors (case parse_prefix_tree_row [1, 1, 2, 3, -1] [1, 1, 1, 1, -1] 0 (-1) of
     Inr row \<Rightarrow> tr_segments row | Inl e \<Rightarrow> []) = [[], [1], [1]]"
  using parse_inverts_packing [OF pack_example, of 1 0]
  by (simp add: tree_node_def ancestors_in_def path_def)

text \<open>
  C6. An accepted row is a tree: the recovered segments tile the valid tokens in order,
  every position of a segment carries its group and parent id, no group occurs twice, and
  a segment with ancestors continues one earlier segment that is already closed, whose
  family it shares and whose ancestors it extends.
\<close>

theorem accepted_rows_are_trees:
  assumes "parse_prefix_tree_row g p r pad = Inr row"
  shows "tr_valid row \<le> length g \<and> segments_chain 0 (tr_valid row) (tr_segments row) \<and>
    distinct (map ts_group (tr_segments row)) \<and> children_ok [] (tr_segments row) \<and>
    (\<forall>t \<in> set (tr_segments row). \<forall>k \<in> {ts_start t..<ts_end t}. g ! k = ts_group t \<and> p ! k = ts_parent t)"
  using parse_row_sound [OF assms] by (auto simp: well_formed_tree_def)

theorem accepted_rows_are_trees_witness:
  "\<exists>row. parse_prefix_tree_row [1,1,2,3,-1] [1,1,1,1,-1] 0 (-1) = Inr row \<and>
     segments_chain 0 4 (tr_segments row) \<and> length (tr_segments row) = 3"
  using accepted_rows_are_trees [OF parse_row_example] parse_row_example by auto

text \<open>
  C7. Lowering an accepted nonempty batch of nonempty rows to the recurrent table never fails, and the table is
  executable in order: its segments tile the compact token order of the whole batch, each
  carries its own index, and each non-root segment points at an earlier entry of the same
  row that has ended before it starts and lies one level above it.
\<close>

theorem recurrent_table_executable:
  assumes "parse_prefix_tree gs ps (-1) = Inr parsed_rows" and "gs \<noteq> []" and "hd gs \<noteq> []"
  shows "\<exists>tree. parse_recurrent_prefix_tree gs ps = Inr tree \<and>
    rt_valid_lengths tree = map tr_valid parsed_rows \<and>
    table_chain 0 (rt_token_count tree) (rt_segments tree) \<and> table_ok (rt_segments tree)"
proof -
  have shape: "map length gs = map length ps"
    using assms(1) by (auto simp: parse_prefix_tree_def ensure_Inr_iff)
  from lower_parsed_rows [OF assms(1)] shape assms show ?thesis
    by (auto simp: parse_recurrent_prefix_tree_def Let_def rt_token_count_def)
qed

lemma parse_batch_example:
  "parse_prefix_tree [[1,1,2,3,-1], [5,5,5,6,-1]] [[1,1,1,1,-1], [5,5,5,5,-1]] (-1) = Inr
    [\<lparr>tr_index = 0, tr_valid = 4, tr_segments =
      [\<lparr>ts_group = 1, ts_parent = 1, ts_start = 0, ts_end = 2, ts_family = 0, ts_ancestors = []\<rparr>,
       \<lparr>ts_group = 2, ts_parent = 1, ts_start = 2, ts_end = 3, ts_family = 0, ts_ancestors = [1]\<rparr>,
       \<lparr>ts_group = 3, ts_parent = 1, ts_start = 3, ts_end = 4, ts_family = 0, ts_ancestors = [1]\<rparr>]\<rparr>,
     \<lparr>tr_index = 1, tr_valid = 4, tr_segments =
      [\<lparr>ts_group = 5, ts_parent = 5, ts_start = 0, ts_end = 3, ts_family = 0, ts_ancestors = []\<rparr>,
       \<lparr>ts_group = 6, ts_parent = 5, ts_start = 3, ts_end = 4, ts_family = 0, ts_ancestors = [5]\<rparr>]\<rparr>]"
  by code_simp

theorem recurrent_table_executable_witness:
  "\<exists>tree. parse_recurrent_prefix_tree [[1,1,2,3,-1], [5,5,5,6,-1]] [[1,1,1,1,-1], [5,5,5,5,-1]] = Inr tree \<and>
     table_chain 0 8 (rt_segments tree)"
  using recurrent_table_executable [OF parse_batch_example] by (auto simp: rt_token_count_def)

lemma concat_nth_block:
  "r < b \<Longrightarrow> k < n \<Longrightarrow> concat (map (\<lambda>s. map (f s) [0..<b]) [0..<n]) ! (k * b + r) = f k r"
proof (induction n)
  case 0
  then show ?case by simp
next
  case (Suc n)
  have len: "length (concat (map (\<lambda>s. map (f s) [0..<b]) [0..<n])) = n * b"
    by (simp add: length_concat comp_def sum_list_triv)
  show ?case
  proof (cases "k < n")
    case True
    then have "Suc k * b \<le> n * b" by (intro mult_le_mono1) simp
    with Suc True len show ?thesis by (simp add: nth_append)
  next
    case False
    with Suc.prems have "k = n" by simp
    with Suc.prems len show ?thesis by (simp add: nth_append)
  qed
qed

text \<open>
  The physical positions of a recurrent table gather compact token order: read from a
  tensor laid out sequence first, batch second, they list the valid tokens of row 0, then
  of row 1, and so on, each in order.
\<close>

theorem physical_positions_gather:
  assumes "length (rt_valid_lengths tree) = rt_batch_size tree"
    and "\<forall>n \<in> set (rt_valid_lengths tree). n \<le> rt_sequence_length tree"
  shows "map ((!) (concat (map (\<lambda>s. map (\<lambda>r. x r s) [0..<rt_batch_size tree]) [0..<rt_sequence_length tree])))
      (physical_token_positions tree)
    = concat (map (\<lambda>(row, n). map (x row) [0..<n]) (List.enumerate 0 (rt_valid_lengths tree)))"
proof -
  let ?flat = "concat (map (\<lambda>s. map (\<lambda>r. x r s) [0..<rt_batch_size tree]) [0..<rt_sequence_length tree])"
  have "map ((!) ?flat) (map (\<lambda>position. position * rt_batch_size tree + row) [0..<n]) = map (x row) [0..<n]"
    if "(row, n) \<in> set (List.enumerate 0 (rt_valid_lengths tree))" for row n
  proof -
    have "row < rt_batch_size tree" "n \<le> rt_sequence_length tree"
      using that assms by (auto simp: in_set_enumerate_eq)
    then show ?thesis by (auto simp: concat_nth_block)
  qed
  then have "map (map ((!) ?flat)) (map (\<lambda>(row, n). map (\<lambda>position. position * rt_batch_size tree + row) [0..<n])
        (List.enumerate 0 (rt_valid_lengths tree)))
      = map (\<lambda>(row, n). map (x row) [0..<n]) (List.enumerate 0 (rt_valid_lengths tree))"
    by (auto simp only: list.map_comp comp_def map_eq_conv split: prod.split)
  then show ?thesis by (simp only: physical_token_positions_def map_concat)
qed

theorem physical_positions_gather_witness:
  "map ((!) [10, 20, 11, 21, 12 :: int, 22]) (physical_token_positions
     \<lparr>rt_batch_size = 2, rt_sequence_length = 3, rt_valid_lengths = [3, 1], rt_segments = []\<rparr>) = [10, 11, 12, 20]"
  using physical_positions_gather [of
      "\<lparr>rt_batch_size = 2, rt_sequence_length = 3, rt_valid_lengths = [3, 1], rt_segments = []\<rparr>"
      "\<lambda>r s. int (10 * (r + 1) + s)"]
  by (simp add: numeral_eq_Suc)

end
