(* ===== verification/Attention.thy ===== *)
theory Attention
  imports Prefix_Tree
begin

text \<open>
  \<^verbatim>\<open>megatron/context_parallel/builder.py\<close> and the value types of \<^verbatim>\<open>types.py\<close> it
  uses: the attention slices of a packed batch and the dense reference mask.  A bool
  matrix is the list of its rows.
\<close>

section \<open>Value types\<close>

datatype attn_mask_kind = FULL | CAUSAL

record token_range =
  tk_start :: nat
  tk_end :: nat

definition tk_size :: "token_range \<Rightarrow> int" where
  "tk_size r = int (tk_end r) - int (tk_start r)"

definition tk_is_empty :: "token_range \<Rightarrow> bool" where
  "tk_is_empty r \<longleftrightarrow> tk_end r \<le> tk_start r"

definition in_range :: "nat \<Rightarrow> token_range \<Rightarrow> bool" where
  "in_range x r \<longleftrightarrow> tk_start r \<le> x \<and> x < tk_end r"

record attn_slice =
  q_range :: token_range
  k_range :: token_range
  mask_kind :: attn_mask_kind
  row_index :: nat
  family_index :: "nat option"

record row_attention_spec =
  spec_row :: nat
  spec_valid :: nat
  spec_slices :: "attn_slice list"

section \<open>Building the specification\<close>

text \<open>
  \<^verbatim>\<open>str(AttnMaskKind.CAUSAL)\<close> sorts before \<^verbatim>\<open>str(AttnMaskKind.FULL)\<close>; a missing family
  sorts as \<open>-1\<close>.
\<close>

definition mask_kind_rank :: "attn_mask_kind \<Rightarrow> int" where
  "mask_kind_rank m = (case m of CAUSAL \<Rightarrow> 0 | FULL \<Rightarrow> 1)"

definition slice_key :: "attn_slice \<Rightarrow> int list" where
  "slice_key s = [int (row_index s), int (tk_start (q_range s)), int (tk_end (q_range s)),
     int (tk_start (k_range s)), int (tk_end (k_range s)), mask_kind_rank (mask_kind s),
     (case family_index s of None \<Rightarrow> -1 | Some f \<Rightarrow> int f)]"

fun dedupe_slices :: "int list option \<Rightarrow> attn_slice list \<Rightarrow> attn_slice list" where
  "dedupe_slices last_key [] = []"
| "dedupe_slices last_key (s # ss) =
     (if last_key = Some (slice_key s) then dedupe_slices last_key ss
      else s # dedupe_slices (Some (slice_key s)) ss)"

definition sort_and_dedupe_slices :: "attn_slice list \<Rightarrow> attn_slice list" where
  "sort_and_dedupe_slices ss = dedupe_slices None (sort_key slice_key ss)"

definition range_of :: "tree_segment \<Rightarrow> token_range" where
  "range_of t = \<lparr>tk_start = ts_start t, tk_end = ts_end t\<rparr>"

text \<open>The dictionary \<^verbatim>\<open>segment_by_group_id\<close>: the last segment of a group wins.\<close>

definition segment_of_group :: "tree_segment list \<Rightarrow> int \<Rightarrow> tree_segment result" where
  "segment_of_group ts g =
     (case map_of (rev (map (\<lambda>t. (ts_group t, t)) ts)) g of None \<Rightarrow> Inl KeyError | Some t \<Rightarrow> Inr t)"

definition segment_slices :: "nat \<Rightarrow> tree_segment list \<Rightarrow> tree_segment \<Rightarrow> attn_slice list result" where
  "segment_slices row ts t =
     bindE (mapE (\<lambda>g. bindE (segment_of_group ts g) (\<lambda>a. Inr
         \<lparr>q_range = range_of t, k_range = range_of a, mask_kind = FULL,
          row_index = row, family_index = Some (ts_family t)\<rparr>)) (ts_ancestors t))
       (\<lambda>ss. Inr (ss @ [\<lparr>q_range = range_of t, k_range = range_of t, mask_kind = CAUSAL,
          row_index = row, family_index = Some (ts_family t)\<rparr>]))"

definition row_attention :: "tree_row \<Rightarrow> row_attention_spec result" where
  "row_attention row =
     (if tr_valid row = 0 then Inr \<lparr>spec_row = tr_index row, spec_valid = 0, spec_slices = []\<rparr>
      else bindE (mapE (segment_slices (tr_index row) (tr_segments row)) (tr_segments row)) (\<lambda>sss.
        Inr \<lparr>spec_row = tr_index row, spec_valid = tr_valid row,
             spec_slices = sort_and_dedupe_slices (concat sss)\<rparr>))"

definition build_prefix_tree_attention_spec ::
  "int list list \<Rightarrow> int list list \<Rightarrow> int \<Rightarrow> row_attention_spec list result" where
  "build_prefix_tree_attention_spec gs ps pad =
     ensure (map length gs = map length ps) (RuntimeError ''group_ids and parent_ids must share shape'')
     (bindE (parse_prefix_tree gs ps pad) (mapE row_attention))"

section \<open>The dense reference mask\<close>

definition set_span :: "nat \<Rightarrow> nat \<Rightarrow> bool list \<Rightarrow> bool list" where
  "set_span a b row = map (\<lambda>(i, x). x \<or> (a \<le> i \<and> i < b)) (List.enumerate 0 row)"

definition paint_full :: "token_range \<Rightarrow> token_range \<Rightarrow> bool list list \<Rightarrow> bool list list" where
  "paint_full q k dense = map (\<lambda>(i, row). if in_range i q then set_span (tk_start k) (tk_end k) row else row)
     (List.enumerate 0 dense)"

definition paint_causal_row :: "token_range \<Rightarrow> token_range \<Rightarrow> nat \<Rightarrow> bool list list \<Rightarrow> bool list list result" where
  "paint_causal_row q k q_idx dense =
     (let rel_q = q_idx - tk_start q; max_k = tk_start k + rel_q
      in if max_k < tk_start k then Inr dense
         else if q_idx \<ge> length dense then Inl IndexError
         else Inr (dense[q_idx := set_span (tk_start k) (min (tk_end k) (max_k + 1)) (dense ! q_idx)]))"

definition paint_slice :: "attn_slice \<Rightarrow> bool list list \<Rightarrow> bool list list result" where
  "paint_slice s dense =
     (let q = q_range s; k = k_range s
      in if mask_kind s = FULL then Inr (paint_full q k dense)
         else foldE (paint_causal_row q k) [tk_start q..<tk_end q] dense)"

definition build_dense_reference_mask :: "row_attention_spec \<Rightarrow> bool list list result" where
  "build_dense_reference_mask spec =
     foldE paint_slice (spec_slices spec) (replicate (spec_valid spec) (replicate (spec_valid spec) False))"

lemma dense_example:
  "bindE (build_prefix_tree_attention_spec [[1,1,2,3,-1]] [[1,1,1,1,-1]] (-1))
     (\<lambda>specs. build_dense_reference_mask (hd specs)) = Inr
   [[True, False, False, False], [True, True, False, False], [True, True, True, False], [True, True, False, True]]"
  by code_simp

section \<open>What a slice list allows\<close>

definition allows :: "attn_slice \<Rightarrow> nat \<Rightarrow> nat \<Rightarrow> bool" where
  "allows s a b \<longleftrightarrow> in_range a (q_range s) \<and> in_range b (k_range s) \<and>
     (mask_kind s = CAUSAL \<longrightarrow> b - tk_start (k_range s) \<le> a - tk_start (q_range s))"

definition square :: "nat \<Rightarrow> bool list list \<Rightarrow> bool" where
  "square n d \<longleftrightarrow> length d = n \<and> (\<forall>row \<in> set d. length row = n)"

definition represents :: "nat \<Rightarrow> bool list list \<Rightarrow> (nat \<Rightarrow> nat \<Rightarrow> bool) \<Rightarrow> bool" where
  "represents n d f \<longleftrightarrow> length d = n \<and> (\<forall>a < n. length (d ! a) = n \<and> (\<forall>b < n. d ! a ! b = f a b))"

lemma set_span_nth: "b < length row \<Longrightarrow> set_span x y row ! b \<longleftrightarrow> row ! b \<or> (x \<le> b \<and> b < y)"
  by (simp add: set_span_def nth_enumerate_eq)

lemma set_span_length [simp]: "length (set_span x y row) = length row"
  by (simp add: set_span_def)

lemma paint_full_represents:
  "represents n d f \<Longrightarrow> represents n (paint_full q k d) (\<lambda>a b. f a b \<or> (in_range a q \<and> in_range b k))"
  by (auto simp: represents_def paint_full_def nth_enumerate_eq set_span_nth in_range_def)

lemma paint_causal_rows:
  assumes "represents n d f" and "e \<le> n" and "s \<le> e"
  shows "\<exists>d'. foldE (paint_causal_row q k) [s..<e] d = Inr d' \<and>
    represents n d' (\<lambda>a b. f a b \<or> (s \<le> a \<and> a < e \<and> in_range b k \<and> b \<le> tk_start k + (a - tk_start q)))"
  using assms(3,2)
proof (induction e rule: dec_induct)
  case base
  then show ?case using assms(1) by (auto simp: represents_def)
next
  case (step e)
  then obtain d' where d': "foldE (paint_causal_row q k) [s..<e] d = Inr d'"
    "represents n d' (\<lambda>a b. f a b \<or> (s \<le> a \<and> a < e \<and> in_range b k \<and> b \<le> tk_start k + (a - tk_start q)))"
    by auto
  let ?d = "d'[e := set_span (tk_start k) (min (tk_end k) (tk_start k + (e - tk_start q) + 1)) (d' ! e)]"
  have e: "e < length d'" using d'(2) step.prems by (simp add: represents_def)
  have "foldE (paint_causal_row q k) [s..<Suc e] d = Inr ?d"
    using d'(1) e step.hyps by (simp add: paint_causal_row_def Let_def)
  moreover have "represents n ?d (\<lambda>a b. f a b \<or> (s \<le> a \<and> a < Suc e \<and> in_range b k \<and> b \<le> tk_start k + (a - tk_start q)))"
    unfolding represents_def
  proof (intro conjI allI impI)
    show "length ?d = n" using d'(2) by (simp add: represents_def)
    fix a assume a: "a < n"
    show "length (?d ! a) = n" using d'(2) a e by (cases "a = e") (auto simp: represents_def)
    fix b assume b: "b < n"
    show "?d ! a ! b = (f a b \<or> (s \<le> a \<and> a < Suc e \<and> in_range b k \<and> b \<le> tk_start k + (a - tk_start q)))"
    proof (cases "a = e")
      case True
      with d'(2) a b e step.hyps show ?thesis
        by (auto simp: represents_def set_span_nth in_range_def)
    next
      case False
      with d'(2) a b show ?thesis by (auto simp: represents_def)
    qed
  qed
  ultimately show ?case by blast
qed

lemma paint_slice_represents:
  assumes "represents n d f" and "tk_end (q_range s) \<le> n"
  shows "\<exists>d'. paint_slice s d = Inr d' \<and> represents n d' (\<lambda>a b. f a b \<or> allows s a b)"
proof (cases "mask_kind s")
  case FULL
  with paint_full_represents [OF assms(1)] show ?thesis
    by (simp add: paint_slice_def Let_def allows_def)
next
  case CAUSAL
  show ?thesis
  proof (cases "tk_start (q_range s) \<le> tk_end (q_range s)")
    case True
    obtain d' where d': "foldE (paint_causal_row (q_range s) (k_range s)) [tk_start (q_range s)..<tk_end (q_range s)] d = Inr d'"
      "represents n d' (\<lambda>a b. f a b \<or> (tk_start (q_range s) \<le> a \<and> a < tk_end (q_range s) \<and>
         in_range b (k_range s) \<and> b \<le> tk_start (k_range s) + (a - tk_start (q_range s))))"
      using paint_causal_rows [OF assms(1,2) True] by blast
    have "(\<lambda>a b. f a b \<or> (tk_start (q_range s) \<le> a \<and> a < tk_end (q_range s) \<and>
         in_range b (k_range s) \<and> b \<le> tk_start (k_range s) + (a - tk_start (q_range s))))
      = (\<lambda>a b. f a b \<or> allows s a b)"
      using CAUSAL by (intro ext) (auto simp: allows_def in_range_def)
    with d' CAUSAL show ?thesis by (simp add: paint_slice_def Let_def)
  next
    case False
    with CAUSAL assms(1) show ?thesis
      by (auto simp: paint_slice_def Let_def allows_def in_range_def represents_def)
  qed
qed

lemma paint_slices_represents:
  "represents n d f \<Longrightarrow> \<forall>s \<in> set ss. tk_end (q_range s) \<le> n \<Longrightarrow>
   \<exists>d'. foldE paint_slice ss d = Inr d' \<and> represents n d' (\<lambda>a b. f a b \<or> (\<exists>s \<in> set ss. allows s a b))"
proof (induction ss arbitrary: d f)
  case Nil
  then show ?case by simp
next
  case (Cons s ss)
  obtain d1 where d1: "paint_slice s d = Inr d1" "represents n d1 (\<lambda>a b. f a b \<or> allows s a b)"
    using paint_slice_represents [OF Cons.prems(1)] Cons.prems(2) by auto
  from Cons.IH [OF d1(2)] Cons.prems(2) d1(1) show ?case by (simp add: disj_assoc)
qed

lemma dense_mask_represents:
  assumes "\<forall>s \<in> set (spec_slices spec). tk_end (q_range s) \<le> spec_valid spec"
  obtains d where "build_dense_reference_mask spec = Inr d"
    and "represents (spec_valid spec) d (\<lambda>a b. \<exists>s \<in> set (spec_slices spec). allows s a b)"
proof -
  have "represents (spec_valid spec) (replicate (spec_valid spec) (replicate (spec_valid spec) False)) (\<lambda>a b. False)"
    by (simp add: represents_def)
  from paint_slices_represents [OF this assms] show thesis
    using that by (auto simp: build_dense_reference_mask_def)
qed

lemma slice_key_inj:
  "slice_key s = slice_key s' \<Longrightarrow> s = s'"
  by (cases s; cases s'; cases "q_range s"; cases "q_range s'"; cases "k_range s"; cases "k_range s'")
    (auto simp: slice_key_def mask_kind_rank_def split: attn_mask_kind.splits option.splits)

lemma dedupe_slices_set:
  "set (dedupe_slices l ss) \<union> {s. l = Some (slice_key s)} = set ss \<union> {s. l = Some (slice_key s)}"
proof (induction l ss rule: dedupe_slices.induct)
  case (2 l s ss)
  then show ?case using slice_key_inj by (auto split: if_splits)
qed simp

lemma sort_and_dedupe_set: "set (sort_and_dedupe_slices ss) = set ss"
  using dedupe_slices_set [of None "sort_key slice_key ss"] by (simp add: sort_and_dedupe_slices_def)

section \<open>The mask of a tree\<close>

definition within :: "nat \<Rightarrow> tree_segment \<Rightarrow> bool" where
  "within a t \<longleftrightarrow> ts_start t \<le> a \<and> a < ts_end t"

text \<open>
  The mask a tree stands for: a token sees the earlier tokens of its own segment and all
  tokens of the ancestors of its segment.
\<close>

definition tree_mask :: "tree_segment list \<Rightarrow> nat \<Rightarrow> nat \<Rightarrow> bool" where
  "tree_mask ts a b \<longleftrightarrow> (\<exists>t \<in> set ts. within a t \<and>
     ((within b t \<and> b \<le> a) \<or> (\<exists>q \<in> set ts. ts_group q \<in> set (ts_ancestors t) \<and> within b q)))"

lemma in_range_of [simp]: "in_range a (range_of t) \<longleftrightarrow> within a t"
  by (simp add: in_range_def range_of_def within_def)

lemma ancestors_closed:
  "children_ok es ts \<Longrightarrow> \<forall>t \<in> set es. set (ts_ancestors t) \<subseteq> ts_group ` set es \<Longrightarrow>
   \<forall>t \<in> set (es @ ts). set (ts_ancestors t) \<subseteq> ts_group ` set (es @ ts)"
proof (induction es ts rule: children_ok.induct)
  case (2 es t ts)
  then have child: "child_ok es t" by simp
  have "set (ts_ancestors t) \<subseteq> ts_group ` set (es @ [t])"
  proof (cases "ts_ancestors t = []")
    case False
    then obtain q where q: "q \<in> set es" "ts_group q = ts_parent t" "ts_ancestors t = ts_ancestors q @ [ts_parent t]"
      using child unfolding child_ok_def by blast
    then have "set (ts_ancestors q) \<subseteq> ts_group ` set es" using "2.prems"(2) by blast
    moreover have "ts_parent t \<in> ts_group ` set es" using q(1,2) by (metis image_eqI)
    ultimately show ?thesis using q(3) by auto
  qed simp
  with "2.prems" have "\<forall>u \<in> set (es @ [t]). set (ts_ancestors u) \<subseteq> ts_group ` set (es @ [t])" by auto
  from "2.IH" [OF _ this] "2.prems"(1) show ?case by simp
qed simp

lemma tree_ancestors_closed:
  assumes "well_formed_tree n ts" and "t \<in> set ts" and "g \<in> set (ts_ancestors t)"
  obtains q where "q \<in> set ts" and "ts_group q = g"
  using ancestors_closed [of "[]" ts] assms unfolding well_formed_tree_def by auto

lemma segment_of_group_Inr:
  assumes "distinct (map ts_group ts)" and "q \<in> set ts"
  shows "segment_of_group ts (ts_group q) = Inr q"
proof -
  have "map fst (rev (map (\<lambda>t. (ts_group t, t)) ts)) = rev (map ts_group ts)"
    by (simp add: rev_map comp_def)
  then have "distinct (map fst (rev (map (\<lambda>t. (ts_group t, t)) ts)))" using assms(1) by simp
  moreover have "(ts_group q, q) \<in> set (rev (map (\<lambda>t. (ts_group t, t)) ts))" using assms(2) by simp
  ultimately have "map_of (rev (map (\<lambda>t. (ts_group t, t)) ts)) (ts_group q) = Some q"
    by (rule map_of_is_SomeI)
  then show ?thesis by (simp add: segment_of_group_def)
qed

definition causal_slice :: "nat \<Rightarrow> tree_segment \<Rightarrow> attn_slice" where
  "causal_slice row t = \<lparr>q_range = range_of t, k_range = range_of t, mask_kind = CAUSAL,
     row_index = row, family_index = Some (ts_family t)\<rparr>"

definition full_slice :: "nat \<Rightarrow> tree_segment \<Rightarrow> tree_segment \<Rightarrow> attn_slice" where
  "full_slice row t q = \<lparr>q_range = range_of t, k_range = range_of q, mask_kind = FULL,
     row_index = row, family_index = Some (ts_family t)\<rparr>"

lemma allows_slices:
  "allows (causal_slice row t) a b \<longleftrightarrow> within a t \<and> within b t \<and> b \<le> a"
  "allows (full_slice row t q) a b \<longleftrightarrow> within a t \<and> within b q"
  by (auto simp: allows_def causal_slice_def full_slice_def in_range_def range_of_def within_def)

lemma segment_slices_Inr:
  assumes wf: "well_formed_tree n ts" and t: "t \<in> set ts"
  obtains ss where "segment_slices row ts t = Inr ss"
    and "set ss = insert (causal_slice row t)
      {full_slice row t q | q. q \<in> set ts \<and> ts_group q \<in> set (ts_ancestors t)}"
proof -
  have d: "distinct (map ts_group ts)" using wf by (simp add: well_formed_tree_def)
  define pick where "pick g = (THE q. q \<in> set ts \<and> ts_group q = g)" for g
  have pick: "pick (ts_group q) = q" if "q \<in> set ts" for q
    unfolding pick_def using that d by (intro the_equality) (auto simp: distinct_map inj_on_def)
  have "mapE (\<lambda>g. bindE (segment_of_group ts g) (\<lambda>a. Inr
         \<lparr>q_range = range_of t, k_range = range_of a, mask_kind = FULL,
          row_index = row, family_index = Some (ts_family t)\<rparr>)) (ts_ancestors t)
      = Inr (map (\<lambda>g. full_slice row t (pick g)) (ts_ancestors t))"
  proof (rule mapE_Inr_map)
    fix g assume "g \<in> set (ts_ancestors t)"
    then obtain q where "q \<in> set ts" "ts_group q = g" by (rule tree_ancestors_closed [OF wf t])
    with segment_of_group_Inr [OF d] pick
    show "bindE (segment_of_group ts g) (\<lambda>a. Inr
         \<lparr>q_range = range_of t, k_range = range_of a, mask_kind = FULL,
          row_index = row, family_index = Some (ts_family t)\<rparr>) = Inr (full_slice row t (pick g))"
      by (auto simp: full_slice_def)
  qed
  then have "segment_slices row ts t =
      Inr (map (\<lambda>g. full_slice row t (pick g)) (ts_ancestors t) @ [causal_slice row t])"
    by (simp add: segment_slices_def causal_slice_def)
  moreover have "(\<lambda>g. full_slice row t (pick g)) ` set (ts_ancestors t)
      = {full_slice row t q | q. q \<in> set ts \<and> ts_group q \<in> set (ts_ancestors t)}" (is "?L = ?R")
  proof
    show "?L \<subseteq> ?R"
    proof
      fix x assume "x \<in> ?L"
      then obtain g where g: "g \<in> set (ts_ancestors t)" "x = full_slice row t (pick g)" by blast
      obtain q where "q \<in> set ts" "ts_group q = g" using g(1) by (rule tree_ancestors_closed [OF wf t])
      with g pick show "x \<in> ?R" by auto
    qed
    show "?R \<subseteq> ?L" using pick by (auto intro!: rev_image_eqI)
  qed
  ultimately show thesis using that by auto
qed

lemma tree_segment_end_le: "segments_chain c n ts \<Longrightarrow> t \<in> set ts \<Longrightarrow> c \<le> ts_start t \<and> ts_start t < ts_end t \<and> ts_end t \<le> n"
proof (induction c n ts rule: segments_chain.induct)
  case (2 c n u ts)
  have mono: "segments_chain a b xs \<Longrightarrow> a \<le> b" for a b xs
    by (induction a b xs rule: segments_chain.induct) auto
  from 2 show ?case by (auto dest: mono)
qed simp

lemma row_attention_represents:
  assumes wf: "well_formed_tree (tr_valid row) (tr_segments row)"
  obtains spec d where "row_attention row = Inr spec" and "spec_row spec = tr_index row"
    and "spec_valid spec = tr_valid row" and "build_dense_reference_mask spec = Inr d"
    and "represents (tr_valid row) d (tree_mask (tr_segments row))"
proof (cases "tr_valid row = 0")
  case True
  then show thesis
    by (intro that [of "\<lparr>spec_row = tr_index row, spec_valid = 0, spec_slices = []\<rparr>" "[]"])
      (simp_all add: row_attention_def build_dense_reference_mask_def represents_def)
next
  case False
  let ?ts = "tr_segments row"
  let ?ok = "\<lambda>t ss. segment_slices (tr_index row) ?ts t = Inr ss \<and>
    set ss = insert (causal_slice (tr_index row) t)
      {full_slice (tr_index row) t q | q. q \<in> set ?ts \<and> ts_group q \<in> set (ts_ancestors t)}"
  have "\<forall>t \<in> set ?ts. \<exists>ss. ?ok t ss"
  proof
    fix t assume "t \<in> set ?ts"
    then show "\<exists>ss. ?ok t ss" by (rule segment_slices_Inr [OF wf, of t "tr_index row"]) blast
  qed
  from bchoice [OF this] obtain f where f: "\<forall>t \<in> set ?ts. ?ok t (f t)" by blast
  then have m: "mapE (segment_slices (tr_index row) ?ts) ?ts = Inr (map f ?ts)"
    by (intro mapE_Inr_map) blast
  let ?spec = "\<lparr>spec_row = tr_index row, spec_valid = tr_valid row,
    spec_slices = sort_and_dedupe_slices (concat (map f ?ts))\<rparr>"
  have "set (spec_slices ?spec) = (\<Union>t \<in> set ?ts. set (f t))"
    by (simp add: sort_and_dedupe_set)
  also have "\<dots> = (\<Union>t \<in> set ?ts. insert (causal_slice (tr_index row) t)
      {full_slice (tr_index row) t q | q. q \<in> set ?ts \<and> ts_group q \<in> set (ts_ancestors t)})"
    using f by (intro SUP_cong refl) blast
  finally have slices: "set (spec_slices ?spec) = \<dots>" .
  have "\<forall>s \<in> set (spec_slices ?spec). tk_end (q_range s) \<le> spec_valid ?spec"
  proof
    fix s assume "s \<in> set (spec_slices ?spec)"
    then obtain t where "t \<in> set ?ts" "q_range s = range_of t"
      unfolding slices by (elim UN_E insertE) (auto simp: causal_slice_def full_slice_def)
    moreover have "segments_chain 0 (tr_valid row) ?ts" using wf by (simp add: well_formed_tree_def)
    ultimately show "tk_end (q_range s) \<le> spec_valid ?spec"
      using tree_segment_end_le by (simp add: range_of_def)
  qed
  then obtain d where d: "build_dense_reference_mask ?spec = Inr d"
    "represents (spec_valid ?spec) d (\<lambda>a b. \<exists>s \<in> set (spec_slices ?spec). allows s a b)"
    by (rule dense_mask_represents)
  have "(\<exists>s \<in> set (spec_slices ?spec). allows s a b) \<longleftrightarrow> tree_mask ?ts a b" for a b
  proof
    assume "\<exists>s \<in> set (spec_slices ?spec). allows s a b"
    then show "tree_mask ?ts a b"
      unfolding slices tree_mask_def by (elim bexE UN_E insertE) (auto simp: allows_slices)
  next
    assume "tree_mask ?ts a b"
    then obtain t where t: "t \<in> set ?ts" "within a t"
      "(within b t \<and> b \<le> a) \<or> (\<exists>q \<in> set ?ts. ts_group q \<in> set (ts_ancestors t) \<and> within b q)"
      unfolding tree_mask_def by blast
    from t(3) show "\<exists>s \<in> set (spec_slices ?spec). allows s a b"
    proof
      assume "within b t \<and> b \<le> a"
      with t(1,2) show ?thesis unfolding slices
        by (intro bexI [of _ "causal_slice (tr_index row) t"]) (auto simp: allows_slices)
    next
      assume "\<exists>q \<in> set ?ts. ts_group q \<in> set (ts_ancestors t) \<and> within b q"
      then obtain q where "q \<in> set ?ts" "ts_group q \<in> set (ts_ancestors t)" "within b q" by blast
      with t(1,2) show ?thesis unfolding slices
        by (intro bexI [of _ "full_slice (tr_index row) t q"]) (auto simp: allows_slices)
    qed
  qed
  then have "(\<lambda>a b. \<exists>s \<in> set (spec_slices ?spec). allows s a b) = tree_mask ?ts"
    by (intro ext)
  with d False m show thesis
    by (intro that [of ?spec d]) (simp_all add: row_attention_def)
qed

section \<open>The mask of a packed row\<close>

lemma tree_nodes_mem:
  "t \<in> set (tree_nodes es ss) \<longleftrightarrow> (\<exists>us s vs. ss = us @ s # vs \<and> t = tree_node (es @ us) s)"
proof (induction es ss rule: tree_nodes.induct)
  case (1 es)
  then show ?case by simp
next
  case (2 es s ss)
  have "(\<exists>us u vs. s # ss = us @ u # vs \<and> t = tree_node (es @ us) u) \<longleftrightarrow>
      t = tree_node es s \<or> (\<exists>us u vs. ss = us @ u # vs \<and> t = tree_node ((es @ [s]) @ us) u)" (is "?L \<longleftrightarrow> ?R")
  proof
    assume ?L
    then obtain us u vs where *: "s # ss = us @ u # vs" "t = tree_node (es @ us) u" by blast
    then show ?R by (cases us) auto
  next
    assume ?R
    then show ?L
    proof
      assume "t = tree_node es s"
      then show ?L by (intro exI [of _ "[]"]) simp
    next
      assume "\<exists>us u vs. ss = us @ u # vs \<and> t = tree_node ((es @ [s]) @ us) u"
      then obtain us u vs where "ss = us @ u # vs" "t = tree_node ((es @ [s]) @ us) u" by blast
      then show ?L by (intro exI [of _ "s # us"]) simp
    qed
  qed
  with 2 show ?case by simp
qed

lemma tree_nodes_well_formed:
  "well_packed rs segs \<Longrightarrow> well_formed_tree (plan_length segs) (tree_nodes [] segs)"
  using parse_row_sound(1) [OF parse_packed_row [of rs segs 0 0]] by simp

lemma within_node [simp]: "within a (tree_node us s) \<longleftrightarrow> a \<in> set (packed_range s)"
  by (simp add: within_def tree_node_def packed_range_def)

lemma chain_within_unique:
  "segments_chain c n ts \<Longrightarrow> t \<in> set ts \<Longrightarrow> u \<in> set ts \<Longrightarrow> within a t \<Longrightarrow> within a u \<Longrightarrow> t = u"
proof (induction c n ts rule: segments_chain.induct)
  case (2 c n v ts)
  then have tail: "segments_chain (ts_end v) n ts" by simp
  have "ts_end v \<le> ts_start w" if "w \<in> set ts" for w
    using tree_segment_end_le [OF tail that] by simp
  with 2 show ?case unfolding within_def by (metis leD le_trans set_ConsD tail)
qed simp

lemma packed_tree_mask:
  assumes wp: "well_packed rs (us @ s # vs)" and i: "i \<in> set (sequence_indices s)"
    and a: "a \<in> set (packed_range s)"
  shows "tree_mask (tree_nodes [] (us @ s # vs)) a b \<longleftrightarrow>
    (b \<in> set (packed_range s) \<and> b \<le> a) \<or> b \<in> set (concat (map packed_range (path i us)))"
proof -
  let ?segs = "us @ s # vs"
  let ?ts = "tree_nodes [] ?segs"
  have wf: "well_formed_tree (plan_length ?segs) ?ts" by (rule tree_nodes_well_formed [OF wp])
  then have chain: "segments_chain 0 (plan_length ?segs) ?ts" by (simp add: well_formed_tree_def)
  have node: "tree_node us s \<in> set ?ts" unfolding tree_nodes_mem by (intro exI [of _ us]) auto
  have self: "t = tree_node us s" if "t \<in> set ?ts" "within a t" for t
    by (rule chain_within_unique [OF chain that(1) node that(2)]) (simp add: a)
  have anc: "ts_ancestors (tree_node us s) = map group_id (path i us)"
    using well_packed_same_path [OF wp _ i] well_packed_members [OF wp, of s]
    by (simp add: tree_node_def ancestors_in_def)
  have up: "(\<exists>q \<in> set ?ts. ts_group q \<in> set (ts_ancestors (tree_node us s)) \<and> within b q)
      \<longleftrightarrow> b \<in> set (concat (map packed_range (path i us)))" (is "?L \<longleftrightarrow> ?R")
  proof
    assume ?L
    then obtain q where q: "q \<in> set ?ts" "ts_group q \<in> set (ts_ancestors (tree_node us s))" "within b q" by blast
    then obtain us' u vs' where u: "?segs = us' @ u # vs'" "q = tree_node us' u"
      unfolding tree_nodes_mem by auto
    from q(2) anc u(2) obtain w where w: "w \<in> set (path i us)" "group_id w = group_id u"
      by (auto simp: tree_node_def)
    have "w = u"
    proof (rule group_id_unique [OF well_packedD(3) [OF wp]])
      show "w \<in> set ?segs" using w(1) by (simp add: path_mem)
      show "u \<in> set ?segs" using u(1) by simp
    qed (rule w(2))
    with w(1) q(3) u(2) show ?R by auto
  next
    assume ?R
    then obtain w where w: "w \<in> set (path i us)" "b \<in> set (packed_range w)" by auto
    then obtain us1 us2 where "us = us1 @ w # us2" by (meson path_mem split_list)
    then have "tree_node us1 w \<in> set ?ts" unfolding tree_nodes_mem by (intro exI [of _ us1]) auto
    moreover have "ts_group (tree_node us1 w) \<in> set (ts_ancestors (tree_node us s))"
      unfolding anc using w(1) by (simp add: tree_node_def)
    ultimately show ?L using w(2) by (intro bexI [of _ "tree_node us1 w"]) simp_all
  qed
  show ?thesis
  proof
    assume "tree_mask ?ts a b"
    then obtain t where t: "t \<in> set ?ts" "within a t"
      "(within b t \<and> b \<le> a) \<or> (\<exists>q \<in> set ?ts. ts_group q \<in> set (ts_ancestors t) \<and> within b q)"
      unfolding tree_mask_def by blast
    from self [OF t(1,2)] t(3) up
    show "(b \<in> set (packed_range s) \<and> b \<le> a) \<or> b \<in> set (concat (map packed_range (path i us)))"
      by (auto simp only: within_node)
  next
    assume "(b \<in> set (packed_range s) \<and> b \<le> a) \<or> b \<in> set (concat (map packed_range (path i us)))"
    then have "(within b (tree_node us s) \<and> b \<le> a) \<or>
        (\<exists>q \<in> set ?ts. ts_group q \<in> set (ts_ancestors (tree_node us s)) \<and> within b q)"
      by (simp only: within_node up)
    then show "tree_mask ?ts a b" unfolding tree_mask_def
      by (intro bexI [OF _ node] conjI) (simp only: within_node a)
  qed
qed

lemma concat_index:
  "x < length (concat xss) \<Longrightarrow> \<exists>yss ys zss k. xss = yss @ ys # zss \<and> k < length ys \<and> x = length (concat yss) + k"
proof (induction xss arbitrary: x)
  case Nil
  then show ?case by simp
next
  case (Cons xs xss)
  show ?case
  proof (cases "x < length xs")
    case True
    then show ?thesis by (intro exI [of _ "[]"] exI [of _ xs] exI [of _ xss] exI [of _ x]) simp
  next
    case False
    with Cons.prems have "x - length xs < length (concat xss)" by simp
    from Cons.IH [OF this] obtain yss ys zss k where
      "xss = yss @ ys # zss" "k < length ys" "x - length xs = length (concat yss) + k" by blast
    with False show ?thesis by (intro exI [of _ "xs # yss"] exI [of _ ys] exI [of _ zss] exI [of _ k]) simp
  qed
qed

lemma path_split:
  "path i segs = ps @ s # qs \<Longrightarrow> \<exists>us vs. segs = us @ s # vs \<and> path i us = ps \<and> i \<in> set (sequence_indices s)"
proof (induction segs arbitrary: ps)
  case (Cons t segs)
  show ?case
  proof (cases "i \<in> set (sequence_indices t)")
    case False
    with Cons obtain us vs where "segs = us @ s # vs" "path i us = ps" "i \<in> set (sequence_indices s)"
      by (auto simp: path_Cons)
    with False show ?thesis by (intro exI [of _ "t # us"] exI [of _ vs]) (simp add: path_Cons)
  next
    case True
    show ?thesis
    proof (cases ps)
      case Nil
      with Cons.prems True show ?thesis by (intro exI [of _ "[]"] exI [of _ segs]) (simp add: path_Cons)
    next
      case (Cons p ps')
      with Cons.prems True have "t = p" "path i segs = ps' @ s # qs" by (auto simp: path_Cons)
      with Cons.IH [of ps'] obtain us vs where "segs = us @ s # vs" "path i us = ps'" "i \<in> set (sequence_indices s)"
        by blast
      with True \<open>t = p\<close> Cons show ?thesis by (intro exI [of _ "t # us"] exI [of _ vs]) (simp add: path_Cons)
    qed
  qed
qed simp

lemma take_upt_set: "k < n \<Longrightarrow> set (take (Suc k) [p..<p + n]) = {p..p + k}"
  by (auto simp: take_upt)

lemma packed_mask_row:
  assumes wp: "well_packed rs segs" and x: "x < length (positions_of i segs)"
  shows "tree_mask (tree_nodes [] segs) (positions_of i segs ! x) b \<longleftrightarrow>
    b \<in> set (take (Suc x) (positions_of i segs))"
proof -
  have x': "x < length (concat (map packed_range (path i segs)))" using x by (simp add: positions_of_def)
  obtain yss ys zss k where yss: "map packed_range (path i segs) = yss @ ys # zss" "k < length ys"
    "x = length (concat yss) + k"
    using concat_index [OF x'] by blast
  obtain ps s qs where ps: "path i segs = ps @ s # qs" "map packed_range ps = yss" "packed_range s = ys"
    using yss(1) by (auto simp: map_eq_append_conv map_eq_Cons_conv)
  obtain us vs where us: "segs = us @ s # vs" "path i us = ps" "i \<in> set (sequence_indices s)"
    using path_split [OF ps(1)] by blast
  have pos: "positions_of i segs = concat yss @ ys @ concat zss"
    by (simp add: positions_of_def yss(1))
  have k: "k < seg_length s" using yss(2) ps(3) by (auto simp: packed_range_def)
  have at: "positions_of i segs ! x = packed_start s + k"
    using yss(2,3) k by (simp add: pos nth_append ps(3) [symmetric] packed_range_def)
  then have a: "positions_of i segs ! x \<in> set (packed_range s)" using k by (simp add: packed_range_def)
  have "set (take (Suc x) (positions_of i segs)) = set (concat yss) \<union> {packed_start s..packed_start s + k}"
    using yss(2,3) ps(3) take_upt_set [OF k, of "packed_start s"] by (auto simp: pos packed_range_def)
  moreover have "b \<in> {packed_start s..packed_start s + k} \<longleftrightarrow>
      b \<in> set (packed_range s) \<and> b \<le> positions_of i segs ! x"
    using k by (auto simp: at packed_range_def)
  ultimately show ?thesis
    using packed_tree_mask [OF wp [unfolded us(1)] us(3) a, of b] us(1,2) ps(2) by auto
qed

section \<open>Properties of the mask\<close>

text \<open>The mask of any packing plan, whoever planned it.\<close>

lemma plan_preserves_causal_attention:
  assumes wp: "well_packed tensors segs" and ne: "segs \<noteq> []"
    and "i < length tensors" and "x < length (tensors ! i)" and b: "b < plan_length segs"
  shows "\<exists>spec mask. build_prefix_tree_attention_spec [group_ids (pack_tensors tensors segs) @ replicate k (-1)]
      [parent_ids (pack_tensors tensors segs) @ replicate k (-1)] (-1) = Inr [spec] \<and>
    build_dense_reference_mask spec = Inr mask \<and>
    (mask ! (positions_of i segs ! x) ! b \<longleftrightarrow> b \<in> set (take (Suc x) (positions_of i segs)))"
proof -
  let ?p = "pack_tensors tensors segs"
  note fields = pack_tensors_fields [OF wp]
  have len: "length (positions_of i segs) = length (tensors ! i)"
    by (rule positions_of_length [OF wp assms(3)])
  let ?row = "\<lparr>tr_index = 0, tr_valid = plan_length segs, tr_segments = tree_nodes [] segs\<rparr>"
  have parsed: "parse_prefix_tree [group_ids ?p @ replicate k (-1)] [parent_ids ?p @ replicate k (-1)] (-1) = Inr [?row]"
    using parse_packed_row [OF wp, of k 0] ne by (simp add: parse_prefix_tree_def fields)
  obtain spec mask where spec: "row_attention ?row = Inr spec" "build_dense_reference_mask spec = Inr mask"
    "represents (plan_length segs) mask (tree_mask (tree_nodes [] segs))"
    by (rule row_attention_represents [of ?row]) (simp_all add: tree_nodes_well_formed [OF wp])
  let ?a = "positions_of i segs ! x"
  have x: "x < length (positions_of i segs)" using len assms(4) by simp
  have a: "?a < plan_length segs" using positions_bound [OF wp, of ?a i] x by simp
  have "mask ! ?a ! b \<longleftrightarrow> b \<in> set (take (Suc x) (positions_of i segs))"
    using spec(3) a b packed_mask_row [OF wp x, of b] by (simp add: represents_def)
  moreover have "build_prefix_tree_attention_spec [group_ids ?p @ replicate k (-1)]
      [parent_ids ?p @ replicate k (-1)] (-1) = Inr [spec]"
    using spec(1) parsed by (simp add: build_prefix_tree_attention_spec_def fields)
  ultimately show ?thesis using spec(2) by auto
qed

text \<open>
  C8. Packing preserves causal attention: in the mask built from the metadata of a packed
  batch, the row of the x-th token of a sequence allows exactly the first x tokens of that
  same sequence and itself, wherever the plan stored them: nothing of its own past is
  hidden, and nothing of its future or of another sequence is visible.
\<close>

theorem packing_preserves_causal_attention:
  assumes "prefix_tree_pack tensors depth lengths min_shared = Inr p"
    and "i < length tensors" and "x < length (tensors ! i)" and "b < length (tokens p)"
  shows "\<exists>spec mask. build_prefix_tree_attention_spec [group_ids p @ replicate k (-1)]
      [parent_ids p @ replicate k (-1)] (-1) = Inr [spec] \<and>
    build_dense_reference_mask spec = Inr mask \<and>
    (mask ! (positions_by_sequence p ! i ! x) ! b \<longleftrightarrow> b \<in> set (take (Suc x) (positions_by_sequence p ! i)))"
proof -
  obtain sl segs where segs: "prefix_tree_pack_segments tensors depth (Some sl) min_shared = Inr segs"
    and p: "p = (if segs = [] then empty_pack (length tensors) else pack_tensors tensors segs)"
    by (rule prefix_tree_pack_Inr [OF assms(1,2)])
  have wp: "well_packed tensors segs" by (rule prefix_tree_pack_segments_Inr [OF segs])
  have ne: "segs \<noteq> []" using p assms(4) by (auto simp: empty_pack_def)
  have "b < plan_length segs" using assms(4) packed_size [OF segs] p ne by (simp add: pack_tensors_fields [OF wp])
  from plan_preserves_causal_attention [OF wp ne assms(2,3) this, of k]
  show ?thesis using p ne by (simp add: pack_tensors_fields(5) [OF wp assms(2)])
qed

theorem packing_preserves_causal_attention_witness:
  "\<exists>spec mask. build_prefix_tree_attention_spec [[1, 1, 2, 3, -1]] [[1, 1, 1, 1, -1]] (-1) = Inr [spec] \<and>
     build_dense_reference_mask spec = Inr mask \<and> mask ! 3 ! 1 \<and> \<not> mask ! 3 ! 2"
proof -
  have a: "\<exists>spec mask. build_prefix_tree_attention_spec [[1, 1, 2, 3, -1]] [[1, 1, 1, 1, -1]] (-1) = Inr [spec] \<and>
      build_dense_reference_mask spec = Inr mask \<and> mask ! 3 ! 1"
    using packing_preserves_causal_attention [OF pack_example, of 1 2 1 1] by (simp add: numeral_eq_Suc)
  have b: "\<exists>spec mask. build_prefix_tree_attention_spec [[1, 1, 2, 3, -1]] [[1, 1, 1, 1, -1]] (-1) = Inr [spec] \<and>
      build_dense_reference_mask spec = Inr mask \<and> \<not> mask ! 3 ! 2"
    using packing_preserves_causal_attention [OF pack_example, of 1 2 2 1] by (simp add: numeral_eq_Suc)
  from a b show ?thesis by auto
qed

end
