(* ===== verification/Forest.thy ===== *)
theory Forest
  imports Main
begin

text \<open>
  Rooted forests given by ancestor sets: what the depth-first walks over prefix trees need
  to know.  A model provides its nodes, the strict ancestors of a node and a rank that
  grows from parent to child.
\<close>

locale rooted_forest =
  fixes ok :: "'t \<Rightarrow> bool"
    and nodes :: "'t \<Rightarrow> 'n set"
    and above :: "'t \<Rightarrow> 'n \<Rightarrow> 'n set"
    and rank :: "'t \<Rightarrow> 'n \<Rightarrow> nat"
  assumes step: "ok x \<Longrightarrow> g \<in> nodes x \<Longrightarrow> above x g \<noteq> {} \<Longrightarrow>
    \<exists>p \<in> nodes x. rank x p < rank x g \<and> above x g = insert p (above x p)"
begin

definition below :: "'t \<Rightarrow> 'n \<Rightarrow> 'n set" where
  "below x g = {h \<in> nodes x. h = g \<or> g \<in> above x h}"

lemma induct_up:
  assumes "ok x" and "g \<in> nodes x"
    and root: "\<And>g. g \<in> nodes x \<Longrightarrow> above x g = {} \<Longrightarrow> P g"
    and child: "\<And>g p. g \<in> nodes x \<Longrightarrow> p \<in> nodes x \<Longrightarrow> rank x p < rank x g \<Longrightarrow>
      above x g = insert p (above x p) \<Longrightarrow> P p \<Longrightarrow> P g"
  shows "P g"
  using assms(2)
proof (induction "rank x g" arbitrary: g rule: less_induct)
  case less
  show ?case
  proof (cases "above x g = {}")
    case True
    with root less.prems show ?thesis by blast
  next
    case False
    then obtain p where p: "p \<in> nodes x" "rank x p < rank x g" "above x g = insert p (above x p)"
      using step [OF assms(1) less.prems] by blast
    with less.hyps child less.prems show ?thesis by blast
  qed
qed

lemma above_closed: "ok x \<Longrightarrow> g \<in> nodes x \<Longrightarrow> a \<in> above x g \<Longrightarrow> a \<in> nodes x \<and> rank x a < rank x g"
proof -
  assume ok: "ok x" and g: "g \<in> nodes x" and a: "a \<in> above x g"
  have "\<forall>a \<in> above x g. a \<in> nodes x \<and> rank x a < rank x g"
    by (rule induct_up [OF ok g]) (auto dest: less_trans)
  with a show ?thesis by blast
qed

lemma above_trans: "ok x \<Longrightarrow> g \<in> nodes x \<Longrightarrow> a \<in> above x g \<Longrightarrow> above x a \<subseteq> above x g"
proof -
  assume ok: "ok x" and g: "g \<in> nodes x" and a: "a \<in> above x g"
  have "\<forall>a \<in> above x g. above x a \<subseteq> above x g"
    by (rule induct_up [OF ok g]) auto
  with a show ?thesis by blast
qed

lemma above_chain:
  assumes "ok x" and "g \<in> nodes x" and "a \<in> insert g (above x g)" and "b \<in> insert g (above x g)" and "a \<noteq> b"
  shows "a \<in> above x b \<or> b \<in> above x a"
proof -
  have "\<forall>a \<in> insert g (above x g). \<forall>b \<in> insert g (above x g). a \<noteq> b \<longrightarrow> a \<in> above x b \<or> b \<in> above x a"
    by (rule induct_up [OF assms(1,2)]) auto
  with assms show ?thesis by blast
qed

lemma below_trans: "ok x \<Longrightarrow> k \<in> below x g \<Longrightarrow> h \<in> below x k \<Longrightarrow> h \<in> below x g"
  unfolding below_def using above_trans [of x h k] by blast

lemma below_self: "g \<in> nodes x \<Longrightarrow> g \<in> below x g"
  by (simp add: below_def)

lemma below_disjoint:
  assumes "ok x" and "a \<noteq> b" and "a \<notin> above x b" and "b \<notin> above x a"
  shows "below x a \<inter> below x b = {}"
proof (rule ccontr)
  assume "below x a \<inter> below x b \<noteq> {}"
  then obtain h where "h \<in> nodes x" "a \<in> insert h (above x h)" "b \<in> insert h (above x h)"
    unfolding below_def by blast
  from above_chain [OF assms(1) this assms(2)] assms(3,4) show False by blast
qed

lemma below_apart:
  assumes "ok x" and "a \<noteq> b" and "a \<notin> above x b" and "b \<notin> above x a"
    and "h \<in> below x a" and "k \<in> below x b"
  shows "h \<noteq> k \<and> h \<notin> below x k \<and> k \<notin> below x h"
  using below_disjoint [OF assms(1-4)] below_trans [OF assms(1)] assms(5,6) by blast

lemma below_antisym:
  assumes "ok x" and "g \<in> nodes x" and "h \<in> below x g" and "h \<noteq> g"
  shows "g \<notin> below x h"
proof
  assume "g \<in> below x h"
  with assms have "g \<in> above x h" "h \<in> above x g" "h \<in> nodes x" unfolding below_def by auto
  with above_closed [OF assms(1,2)] above_closed [OF assms(1)] show False by (metis less_asym)
qed

text \<open>The subtree of a node is the node and the subtrees of its children.\<close>

definition kids :: "'t \<Rightarrow> 'n \<Rightarrow> 'n set" where
  "kids x g = {c \<in> nodes x. above x c = insert g (above x g) \<and> g \<notin> above x g}"

lemma below_kids:
  assumes ok: "ok x" and g: "g \<in> nodes x"
  shows "below x g = insert g (\<Union>c \<in> kids x g. below x c)"
proof
  have fresh: "g \<notin> above x g" using above_closed [OF ok g] by blast
  have "g \<in> above x h \<longrightarrow> h \<in> (\<Union>c \<in> kids x g. below x c)" if h: "h \<in> nodes x" for h
  proof (rule induct_up [OF ok h])
    fix h p assume *: "h \<in> nodes x" "p \<in> nodes x" "above x h = insert p (above x p)"
      "g \<in> above x p \<longrightarrow> p \<in> (\<Union>c \<in> kids x g. below x c)"
    show "g \<in> above x h \<longrightarrow> h \<in> (\<Union>c \<in> kids x g. below x c)"
    proof
      assume "g \<in> above x h"
      then consider "g = p" | "g \<in> above x p" using *(3) by blast
      then show "h \<in> (\<Union>c \<in> kids x g. below x c)"
      proof cases
        case 1
        with * fresh have "h \<in> kids x g" by (simp add: kids_def)
        with *(1) below_self show ?thesis by blast
      next
        case 2
        with *(4) obtain c where c: "c \<in> kids x g" "p \<in> below x c" by blast
        have "h \<in> below x p" using * by (simp add: below_def)
        with below_trans [OF ok c(2)] c(1) show ?thesis by blast
      qed
    qed
  qed simp
  then show "below x g \<subseteq> insert g (\<Union>c \<in> kids x g. below x c)" unfolding below_def by blast
  have "below x c \<subseteq> below x g" if "c \<in> kids x g" for c
  proof -
    have "c \<in> below x g" using that by (simp add: kids_def below_def)
    with below_trans [OF ok] show ?thesis by blast
  qed
  with below_self [OF g] show "insert g (\<Union>c \<in> kids x g. below x c) \<subseteq> below x g" by blast
qed

lemma kids_unrelated:
  assumes "ok x" and "c \<in> kids x g" and "d \<in> kids x g"
  shows "c \<notin> above x d"
proof
  assume "c \<in> above x d"
  then have "c \<in> above x c" using assms(2,3) by (simp add: kids_def)
  moreover have "c \<in> nodes x" using assms(2) by (simp add: kids_def)
  ultimately show False using above_closed [OF assms(1)] by blast
qed

lemma kid_rank: "ok x \<Longrightarrow> c \<in> kids x g \<Longrightarrow> rank x g < rank x c"
  using above_closed [of x c g] by (simp add: kids_def)

definition roots_of :: "'t \<Rightarrow> 'n set" where
  "roots_of x = {g \<in> nodes x. above x g = {}}"

lemma below_roots: "ok x \<Longrightarrow> (\<Union>g \<in> roots_of x. below x g) = nodes x"
proof
  show "(\<Union>g \<in> roots_of x. below x g) \<subseteq> nodes x" by (auto simp: below_def)
  assume ok: "ok x"
  show "nodes x \<subseteq> (\<Union>g \<in> roots_of x. below x g)"
  proof
    fix h assume h: "h \<in> nodes x"
    show "h \<in> (\<Union>g \<in> roots_of x. below x g)"
    proof (rule induct_up [OF ok h])
      fix g p assume *: "g \<in> nodes x" "p \<in> nodes x" "above x g = insert p (above x p)"
        "p \<in> (\<Union>g \<in> roots_of x. below x g)"
      then have "g \<in> below x p" by (simp add: below_def)
      with *(4) below_trans [OF ok] show "g \<in> (\<Union>g \<in> roots_of x. below x g)" by blast
    next
      fix g assume "g \<in> nodes x" "above x g = {}"
      then have "g \<in> roots_of x" "g \<in> below x g" by (simp_all add: roots_of_def below_def)
      then show "g \<in> (\<Union>g \<in> roots_of x. below x g)" by blast
    qed
  qed
qed

end

end
