(* ===== verification/Mask_Intervals.thy ===== *)
theory Mask_Intervals
  imports Attention Forest
begin

text \<open>
  The first half of \<^verbatim>\<open>megatron/context_parallel/block_mask.py\<close>: the mask of a packed
  row as enter/exit intervals of a depth-first walk over its groups, and the proof that
  comparing two labels is comparing two tokens in the dense mask.  Arrays are lists;
  \<open>int64\<close> entries are integers (the sentinels are written out).
\<close>

section \<open>Interval labels of the groups\<close>

record interval_state =
  enter_by_group :: "int \<Rightarrow> nat option"
  exit_by_group :: "int \<Rightarrow> nat option"
  next_enter :: nat

text \<open>
  \<^verbatim>\<open>segment_by_group[child].start\<close>: every group sorted here is the group of a segment, so
  the dictionary lookup cannot fail.
\<close>

definition start_of_group :: "tree_segment list \<Rightarrow> int \<Rightarrow> nat" where
  "start_of_group ts g = (case segment_of_group ts g of Inr t \<Rightarrow> ts_start t | Inl e \<Rightarrow> 0)"

definition children_by_group :: "tree_segment list \<Rightarrow> (int \<times> int list) list" where
  "children_by_group ts = foldl (\<lambda>d t. dict_append (ts_parent t) (ts_group t) d) []
     (filter (\<lambda>t. ts_ancestors t \<noteq> []) ts)"

definition tree_roots :: "tree_segment list \<Rightarrow> int list" where
  "tree_roots ts = map ts_group (filter (\<lambda>t. ts_ancestors t = []) ts)"

definition sorted_children :: "tree_segment list \<Rightarrow> int \<Rightarrow> int list" where
  "sorted_children ts g = sort_key (start_of_group ts)
     (case map_of (children_by_group ts) g of None \<Rightarrow> [] | Some cs \<Rightarrow> cs)"

text \<open>
  The recursive \<^verbatim>\<open>visit\<close>; running out of fuel stands for Python's recursion limit.
  \<open>visit_enough\<close> shows that one unit per segment is always enough.
\<close>

primrec visit :: "nat \<Rightarrow> tree_segment list \<Rightarrow> int \<Rightarrow> interval_state \<Rightarrow> interval_state result" where
  "visit 0 ts g st = Inl (RuntimeError ''maximum recursion depth exceeded'')"
| "visit (Suc fuel) ts g st =
     bindE (foldE (visit fuel ts) (sorted_children ts g)
         (st\<lparr>enter_by_group := (enter_by_group st)(g \<mapsto> next_enter st), next_enter := next_enter st + 1\<rparr>))
       (\<lambda>st'. Inr (st'\<lparr>exit_by_group := (exit_by_group st')(g \<mapsto> next_enter st')\<rparr>))"

definition set_range :: "nat \<Rightarrow> nat \<Rightarrow> 'a \<Rightarrow> 'a list \<Rightarrow> 'a list" where
  "set_range a b v xs = map (\<lambda>(i, x). if a \<le> i \<and> i < b then v else x) (List.enumerate 0 xs)"

definition paint_group :: "(int \<Rightarrow> nat option) \<Rightarrow> tree_segment \<Rightarrow> int list \<Rightarrow> int list result" where
  "paint_group label t xs =
     (case label (ts_group t) of None \<Rightarrow> Inl KeyError
      | Some v \<Rightarrow> Inr (set_range (ts_start t) (ts_end t) (int v) xs))"

definition build_group_interval_arrays :: "tree_row \<Rightarrow> nat \<Rightarrow> (int list \<times> int list) result" where
  "build_group_interval_arrays row len =
     (let ts = tr_segments row in
      bindE (foldE (visit (Suc (length ts)) ts) (sort_key (start_of_group ts) (tree_roots ts))
          \<lparr>enter_by_group = Map.empty, exit_by_group = Map.empty, next_enter = 0\<rparr>) (\<lambda>st.
      bindE (foldE (paint_group (enter_by_group st)) ts (replicate len (-1))) (\<lambda>enters.
      bindE (foldE (paint_group (exit_by_group st)) ts (replicate len (-1))) (\<lambda>exits.
        Inr (if tr_valid row < len
          then (set_range (tr_valid row) len (int (next_enter st)) enters,
                set_range (tr_valid row) len (int (next_enter st) + 1) exits)
          else (enters, exits))))))"

record mask_context =
  source_len :: nat
  group_enter :: "int list"
  group_exit :: "int list"
  ctx_input_pos :: "int list option"

definition prepare_block_mask_context :: "int list \<Rightarrow> int list \<Rightarrow> int list option \<Rightarrow> mask_context result" where
  "prepare_block_mask_context gs ps input_pos =
     ensure (length gs = length ps)
       (RuntimeError ''Shared-prefix sparse block masks require equal group_ids and parent_ids lengths.'')
    (ensure (case input_pos of None \<Rightarrow> True | Some xs \<Rightarrow> length xs = length gs)
       (RuntimeError ''Shared-prefix sparse block masks require input_pos to match group_ids length.'')
    (bindE (parse_prefix_tree_row gs ps 0 (-1)) (\<lambda>row.
     bindE (build_group_interval_arrays row (length gs)) (\<lambda>(enters, exits).
       Inr \<lparr>source_len = length gs, group_enter = enters, group_exit = exits, ctx_input_pos = input_pos\<rparr>))))"

lemma context_example:
  "prepare_block_mask_context [1,1,2,3,-1] [1,1,1,1,-1] None = Inr
    \<lparr>source_len = 5, group_enter = [0,0,1,2,3], group_exit = [3,3,2,3,4], ctx_input_pos = None\<rparr>"
  by code_simp

section \<open>The walk labels subtrees by intervals\<close>

definition group_ancestors :: "tree_segment list \<Rightarrow> int \<Rightarrow> int list" where
  "group_ancestors ts g = (case segment_of_group ts g of Inr t \<Rightarrow> ts_ancestors t | Inl e \<Rightarrow> [])"

definition enter_of :: "interval_state \<Rightarrow> int \<Rightarrow> nat" where
  "enter_of st g = the (enter_by_group st g)"

definition exit_of :: "interval_state \<Rightarrow> int \<Rightarrow> nat" where
  "exit_of st g = the (exit_by_group st g)"

text \<open>\<open>labels D A st st'\<close>: the groups of \<open>A\<close> got fresh intervals that nest as \<open>D\<close> says.\<close>

definition labels :: "(int \<Rightarrow> int set) \<Rightarrow> int set \<Rightarrow> interval_state \<Rightarrow> interval_state \<Rightarrow> bool" where
  "labels D A st st' \<longleftrightarrow>
     finite A \<and> next_enter st' = next_enter st + card A \<and>
     (\<forall>h. h \<notin> A \<longrightarrow> enter_by_group st' h = enter_by_group st h \<and> exit_by_group st' h = exit_by_group st h) \<and>
     (\<forall>h \<in> A. enter_by_group st' h \<noteq> None \<and> exit_by_group st' h \<noteq> None \<and>
        next_enter st \<le> enter_of st' h \<and> enter_of st' h < exit_of st' h \<and> exit_of st' h \<le> next_enter st') \<and>
     (\<forall>h \<in> A. \<forall>k \<in> A. enter_of st' k \<le> enter_of st' h \<and> enter_of st' h < exit_of st' k \<longleftrightarrow> h \<in> D k)"

lemma labelsD:
  assumes "labels D A st st'"
  shows "finite A" and "next_enter st' = next_enter st + card A"
    and "h \<notin> A \<Longrightarrow> enter_by_group st' h = enter_by_group st h"
    and "h \<notin> A \<Longrightarrow> exit_by_group st' h = exit_by_group st h"
    and "h \<in> A \<Longrightarrow> enter_by_group st' h \<noteq> None \<and> exit_by_group st' h \<noteq> None \<and>
        next_enter st \<le> enter_of st' h \<and> enter_of st' h < exit_of st' h \<and> exit_of st' h \<le> next_enter st'"
    and "h \<in> A \<Longrightarrow> k \<in> A \<Longrightarrow> enter_of st' k \<le> enter_of st' h \<and> enter_of st' h < exit_of st' k \<longleftrightarrow> h \<in> D k"
  using assms unfolding labels_def by blast+

lemma labels_empty: "labels D {} st st"
  by (simp add: labels_def)

lemma labels_union:
  assumes a: "labels D A st st1" and b: "labels D B st1 st2" and disj: "A \<inter> B = {}"
    and apart: "\<And>h k. h \<in> A \<Longrightarrow> k \<in> B \<Longrightarrow> h \<notin> D k \<and> k \<notin> D h"
  shows "labels D (A \<union> B) st st2"
proof -
  have n: "next_enter st2 = next_enter st + card (A \<union> B)"
    using labelsD(1,2) [OF a] labelsD(1,2) [OF b] disj by (simp add: card_Un_disjoint)
  have keep: "enter_by_group st2 h = enter_by_group st1 h" "exit_by_group st2 h = exit_by_group st1 h"
    "enter_of st2 h = enter_of st1 h" "exit_of st2 h = exit_of st1 h" if "h \<in> A" for h
  proof -
    have "h \<notin> B" using that disj by blast
    then show "enter_by_group st2 h = enter_by_group st1 h" "exit_by_group st2 h = exit_by_group st1 h"
      "enter_of st2 h = enter_of st1 h" "exit_of st2 h = exit_of st1 h"
      using labelsD(3,4) [OF b] by (simp_all add: enter_of_def exit_of_def)
  qed
  have le: "next_enter st \<le> next_enter st1" "next_enter st1 \<le> next_enter st2"
    using labelsD(2) [OF a] labelsD(2) [OF b] by simp_all
  have A: "enter_by_group st2 h \<noteq> None \<and> exit_by_group st2 h \<noteq> None \<and> next_enter st \<le> enter_of st2 h \<and>
      enter_of st2 h < exit_of st2 h \<and> exit_of st2 h \<le> next_enter st1" if "h \<in> A" for h
    using labelsD(5) [OF a that] keep [OF that] by simp
  have B: "enter_by_group st2 h \<noteq> None \<and> exit_by_group st2 h \<noteq> None \<and> next_enter st1 \<le> enter_of st2 h \<and>
      enter_of st2 h < exit_of st2 h \<and> exit_of st2 h \<le> next_enter st2" if "h \<in> B" for h
    using labelsD(5) [OF b that] by simp
  have nest: "enter_of st2 k \<le> enter_of st2 h \<and> enter_of st2 h < exit_of st2 k \<longleftrightarrow> h \<in> D k"
    if hk: "h \<in> A \<union> B" "k \<in> A \<union> B" for h k
  proof -
    consider "h \<in> A" "k \<in> A" | "h \<in> B" "k \<in> B" | "h \<in> A" "k \<in> B" | "h \<in> B" "k \<in> A"
      using hk by blast
    then show ?thesis
    proof cases
      case 1
      with labelsD(6) [OF a] keep show ?thesis by simp
    next
      case 2
      with labelsD(6) [OF b] show ?thesis by simp
    next
      case 3
      with A [of h] B [of k] apart show ?thesis by fastforce
    next
      case 4
      with A [of k] B [of h] apart show ?thesis by fastforce
    qed
  qed
  show ?thesis
    unfolding labels_def
  proof (intro conjI)
    show "finite (A \<union> B)" using labelsD(1) [OF a] labelsD(1) [OF b] by simp
    show "\<forall>h. h \<notin> A \<union> B \<longrightarrow> enter_by_group st2 h = enter_by_group st h \<and> exit_by_group st2 h = exit_by_group st h"
      using labelsD(3,4) [OF a] labelsD(3,4) [OF b] by simp
    show "\<forall>h \<in> A \<union> B. enter_by_group st2 h \<noteq> None \<and> exit_by_group st2 h \<noteq> None \<and>
        next_enter st \<le> enter_of st2 h \<and> enter_of st2 h < exit_of st2 h \<and> exit_of st2 h \<le> next_enter st2"
      using A B le by (meson UnE le_trans)
    show "\<forall>h \<in> A \<union> B. \<forall>k \<in> A \<union> B. enter_of st2 k \<le> enter_of st2 h \<and> enter_of st2 h < exit_of st2 k \<longleftrightarrow> h \<in> D k"
      using nest by blast
  qed (rule n)
qed

lemma labels_fold:
  assumes "\<And>c st. c \<in> set cs \<Longrightarrow> \<exists>st'. f c st = Inr st' \<and> labels D (D c) st st'"
    and "distinct cs"
    and "\<And>c d h k. c \<in> set cs \<Longrightarrow> d \<in> set cs \<Longrightarrow> c \<noteq> d \<Longrightarrow> h \<in> D c \<Longrightarrow> k \<in> D d \<Longrightarrow> h \<noteq> k \<and> h \<notin> D k \<and> k \<notin> D h"
  shows "\<exists>st'. foldE f cs st = Inr st' \<and> labels D (\<Union>c \<in> set cs. D c) st st'"
  using assms
proof (induction cs arbitrary: st)
  case Nil
  then show ?case by (simp add: labels_empty)
next
  case (Cons c cs)
  obtain st1 where st1: "f c st = Inr st1" "labels D (D c) st st1"
    using Cons.prems(1) [of c st] by auto
  have "\<exists>st'. foldE f cs st1 = Inr st' \<and> labels D (\<Union>c \<in> set cs. D c) st1 st'"
  proof (rule Cons.IH)
    show "\<exists>st'. f d st = Inr st' \<and> labels D (D d) st st'" if "d \<in> set cs" for d st
      by (rule Cons.prems(1)) (simp add: that)
    show "distinct cs" using Cons.prems(2) by simp
    show "h \<noteq> k \<and> h \<notin> D k \<and> k \<notin> D h"
      if "d \<in> set cs" "e \<in> set cs" "d \<noteq> e" "h \<in> D d" "k \<in> D e" for d e h k
      by (rule Cons.prems(3) [OF _ _ that(3-5)]) (simp_all add: that)
  qed
  then obtain st2 where st2: "foldE f cs st1 = Inr st2" "labels D (\<Union>c \<in> set cs. D c) st1 st2" by blast
  have "labels D (D c \<union> (\<Union>c \<in> set cs. D c)) st st2"
  proof (rule labels_union [OF st1(2) st2(2)])
    have ne: "c \<noteq> d" if "d \<in> set cs" for d using that Cons.prems(2) by auto
    have apart: "h \<noteq> k \<and> h \<notin> D k \<and> k \<notin> D h"
      if hk: "h \<in> D c" "k \<in> (\<Union>c \<in> set cs. D c)" for h k
    proof -
      obtain d where d: "d \<in> set cs" "k \<in> D d" using hk(2) by blast
      show ?thesis by (rule Cons.prems(3) [OF _ _ ne [OF d(1)] hk(1) d(2)]) (simp_all add: d(1))
    qed
    then show "D c \<inter> (\<Union>c \<in> set cs. D c) = {}" by blast
    show "h \<notin> D k \<and> k \<notin> D h" if "h \<in> D c" "k \<in> (\<Union>c \<in> set cs. D c)" for h k
      using apart [OF that] by blast
  qed
  with st1(1) st2(1) show ?case by simp
qed

lemma children_ok_parent:
  "children_ok es ts \<Longrightarrow> t \<in> set ts \<Longrightarrow> ts_ancestors t \<noteq> [] \<Longrightarrow>
   \<exists>q \<in> set (es @ ts). ts_group q = ts_parent t \<and> ts_end q \<le> ts_start t \<and>
     ts_ancestors t = ts_ancestors q @ [ts_parent t]"
proof (induction es ts rule: children_ok.induct)
  case (2 es u ts)
  show ?case
  proof (cases "t = u")
    case True
    with 2 show ?thesis by (auto simp: child_ok_def)
  next
    case False
    with 2 show ?thesis by auto
  qed
qed simp

lemma group_lookups:
  assumes "well_formed_tree n ts" and "t \<in> set ts"
  shows "start_of_group ts (ts_group t) = ts_start t"
    and "group_ancestors ts (ts_group t) = ts_ancestors t"
  using segment_of_group_Inr [of ts t] assms
  by (simp_all add: well_formed_tree_def start_of_group_def group_ancestors_def)

definition accepted_tree :: "tree_segment list \<Rightarrow> bool" where
  "accepted_tree ts \<longleftrightarrow> (\<exists>n. well_formed_tree n ts)"

interpretation groups: rooted_forest accepted_tree "\<lambda>ts. ts_group ` set ts"
  "\<lambda>ts g. set (group_ancestors ts g)" start_of_group
proof unfold_locales
  fix ts g
  assume "accepted_tree ts" and g: "g \<in> ts_group ` set ts" and anc: "set (group_ancestors ts g) \<noteq> {}"
  then obtain n where wf: "well_formed_tree n ts" by (auto simp: accepted_tree_def)
  from g obtain t where t: "t \<in> set ts" "g = ts_group t" by blast
  note look = group_lookups [OF wf]
  have chain: "segments_chain 0 n ts" and "children_ok [] ts" using wf by (simp_all add: well_formed_tree_def)
  with children_ok_parent [of "[]" ts t] anc t look(2) [OF t(1)]
  obtain q where q: "q \<in> set ts" "ts_group q = ts_parent t" "ts_end q \<le> ts_start t"
    "ts_ancestors t = ts_ancestors q @ [ts_parent t]" by auto
  have "ts_start q < ts_end q" using tree_segment_end_le [OF chain q(1)] by simp
  moreover have "ts_parent t \<in> ts_group ` set ts" using q(1,2) by (metis imageI)
  ultimately show "\<exists>p \<in> ts_group ` set ts. start_of_group ts p < start_of_group ts g \<and>
      set (group_ancestors ts g) = insert p (set (group_ancestors ts p))"
    using q t look(1) [OF q(1)] look(2) [OF q(1)] look(1) [OF t(1)] look(2) [OF t(1)]
    by (intro bexI [of _ "ts_parent t"]) simp_all
qed

lemma map_of_children:
  "map_of (children_by_group ts) g =
    (let cs = map ts_group (filter (\<lambda>t. ts_ancestors t \<noteq> [] \<and> ts_parent t = g) ts)
     in if cs = [] then None else Some cs)"
proof -
  have "map_of (foldl (\<lambda>d t. dict_append (ts_parent t) (ts_group t) d) [] us) g =
      (let cs = map ts_group (filter (\<lambda>t. ts_parent t = g) us) in if cs = [] then None else Some cs)" for us
    by (induction us rule: rev_induct) (auto simp: dict_append_map_of Let_def filter_empty_conv)
  from this [of "filter (\<lambda>t. ts_ancestors t \<noteq> []) ts"] show ?thesis
    by (simp add: children_by_group_def conj_commute)
qed

lemma sorted_children_set:
  "set (sorted_children ts g) = ts_group ` {t \<in> set ts. ts_ancestors t \<noteq> [] \<and> ts_parent t = g}"
  "distinct (map ts_group ts) \<Longrightarrow> distinct (sorted_children ts g)"
proof -
  let ?cs = "map ts_group (filter (\<lambda>t. ts_ancestors t \<noteq> [] \<and> ts_parent t = g) ts)"
  have eq: "sorted_children ts g = sort_key (start_of_group ts) ?cs"
    by (auto simp: sorted_children_def map_of_children Let_def)
  show "set (sorted_children ts g) = ts_group ` {t \<in> set ts. ts_ancestors t \<noteq> [] \<and> ts_parent t = g}"
    unfolding eq by auto
  show "distinct (map ts_group ts) \<Longrightarrow> distinct (sorted_children ts g)"
    unfolding eq by (simp add: distinct_map inj_on_def)
qed

lemma image_filter_eq:
  "(\<And>t. t \<in> A \<Longrightarrow> p t \<longleftrightarrow> q (f t)) \<Longrightarrow> f ` {t \<in> A. p t} = {c \<in> f ` A. q c}"
  by auto

lemma sorted_children_kids:
  assumes wf: "well_formed_tree n ts" and g: "g \<in> ts_group ` set ts"
  shows "set (sorted_children ts g) = groups.kids ts g"
proof -
  have ok: "accepted_tree ts" using wf by (auto simp: accepted_tree_def)
  have ch: "children_ok [] ts" using wf by (simp add: well_formed_tree_def)
  note look = group_lookups [OF wf]
  have fresh: "g \<notin> set (group_ancestors ts g)" using groups.above_closed [OF ok g] by blast
  have "ts_ancestors t \<noteq> [] \<and> ts_parent t = g \<longleftrightarrow>
      set (group_ancestors ts (ts_group t)) = insert g (set (group_ancestors ts g))" if t: "t \<in> set ts" for t
  proof
    assume a: "ts_ancestors t \<noteq> [] \<and> ts_parent t = g"
    with children_ok_parent [OF ch t] obtain q where q: "q \<in> set ts" "ts_group q = g"
      "ts_ancestors t = ts_ancestors q @ [g]" by auto
    have "group_ancestors ts g = ts_ancestors q" using look(2) [OF q(1)] q(2) by simp
    then show "set (group_ancestors ts (ts_group t)) = insert g (set (group_ancestors ts g))"
      unfolding look(2) [OF t] q(3) by simp
  next
    assume a: "set (group_ancestors ts (ts_group t)) = insert g (set (group_ancestors ts g))"
    then have ne: "ts_ancestors t \<noteq> []" using look(2) [OF t] by auto
    with children_ok_parent [OF ch t] obtain q where q: "q \<in> set ts" "ts_group q = ts_parent t"
      "ts_ancestors t = ts_ancestors q @ [ts_parent t]" by auto
    have "ts_parent t = g"
    proof (rule ccontr)
      assume "ts_parent t \<noteq> g"
      moreover have "insert (ts_parent t) (set (ts_ancestors q)) = insert g (set (group_ancestors ts g))"
        using a q(3) look(2) [OF t] by simp
      ultimately have "g \<in> set (ts_ancestors q)" "ts_parent t \<in> set (group_ancestors ts g)"
        by (metis insert_iff)+
      with q(2) look(2) [OF q(1)] have "g \<in> set (group_ancestors ts (ts_parent t))" "ts_parent t \<in> set (group_ancestors ts g)"
        by simp_all
      moreover have "ts_parent t \<in> ts_group ` set ts" using q(1,2) by (metis imageI)
      ultimately show False
        using groups.above_closed [OF ok g, of "ts_parent t"] groups.above_closed [OF ok, of "ts_parent t" g]
        by (meson less_asym)
    qed
    with ne show "ts_ancestors t \<noteq> [] \<and> ts_parent t = g" by blast
  qed
  then have "ts_group ` {t \<in> set ts. ts_ancestors t \<noteq> [] \<and> ts_parent t = g}
      = {c \<in> ts_group ` set ts. set (group_ancestors ts c) = insert g (set (group_ancestors ts g))}"
    by (intro image_filter_eq)
  then show ?thesis unfolding sorted_children_set(1) groups.kids_def using fresh by (simp only: simp_thms)
qed

lemma labels_node:
  assumes l: "labels D U (st\<lparr>enter_by_group := (enter_by_group st)(g \<mapsto> next_enter st), next_enter := next_enter st + 1\<rparr>) st2"
    and below: "D g = insert g U" and gU: "g \<notin> U" and up: "\<And>h. h \<in> U \<Longrightarrow> g \<notin> D h"
  shows "labels D (D g) st (st2\<lparr>exit_by_group := (exit_by_group st2)(g \<mapsto> next_enter st2)\<rparr>)"
proof -
  let ?st' = "st2\<lparr>exit_by_group := (exit_by_group st2)(g \<mapsto> next_enter st2)\<rparr>"
  have n2: "next_enter st2 = Suc (next_enter st) + card U" using labelsD(2) [OF l] by simp
  have n: "next_enter st < next_enter st2" using n2 by simp
  have eg: "enter_by_group st2 g = Some (next_enter st)" using labelsD(3) [OF l gU] by simp
  have g1: "enter_of ?st' g = next_enter st" "exit_of ?st' g = next_enter st2"
    using eg by (simp_all add: enter_of_def exit_of_def)
  have keep: "enter_of ?st' h = enter_of st2 h" "exit_of ?st' h = exit_of st2 h"
    "enter_by_group ?st' h = enter_by_group st2 h" "exit_by_group ?st' h = exit_by_group st2 h" if "h \<noteq> g" for h
    using that by (simp_all add: enter_of_def exit_of_def)
  have U: "enter_by_group ?st' h \<noteq> None \<and> exit_by_group ?st' h \<noteq> None \<and> next_enter st < enter_of ?st' h \<and>
      enter_of ?st' h < exit_of ?st' h \<and> exit_of ?st' h \<le> next_enter st2" if h: "h \<in> U" for h
  proof -
    have "h \<noteq> g" using gU h by blast
    with labelsD(5) [OF l h] show ?thesis by (simp add: keep [OF \<open>h \<noteq> g\<close>])
  qed
  show ?thesis
    unfolding labels_def below
  proof (intro conjI)
    show "finite (insert g U)" using labelsD(1) [OF l] by simp
    show "next_enter ?st' = next_enter st + card (insert g U)"
      using n2 labelsD(1) [OF l] gU by simp
    show "\<forall>h. h \<notin> insert g U \<longrightarrow> enter_by_group ?st' h = enter_by_group st h \<and> exit_by_group ?st' h = exit_by_group st h"
      using labelsD(3,4) [OF l] by simp
    show "\<forall>h \<in> insert g U. enter_by_group ?st' h \<noteq> None \<and> exit_by_group ?st' h \<noteq> None \<and>
        next_enter st \<le> enter_of ?st' h \<and> enter_of ?st' h < exit_of ?st' h \<and> exit_of ?st' h \<le> next_enter ?st'"
    proof
      fix h assume "h \<in> insert g U"
      then consider "h = g" | "h \<in> U" by blast
      then show "enter_by_group ?st' h \<noteq> None \<and> exit_by_group ?st' h \<noteq> None \<and>
        next_enter st \<le> enter_of ?st' h \<and> enter_of ?st' h < exit_of ?st' h \<and> exit_of ?st' h \<le> next_enter ?st'"
      proof cases
        case 1
        with g1 eg n show ?thesis by simp
      next
        case 2
        from U [OF 2] show ?thesis by simp
      qed
    qed
    show "\<forall>h \<in> insert g U. \<forall>k \<in> insert g U. enter_of ?st' k \<le> enter_of ?st' h \<and> enter_of ?st' h < exit_of ?st' k
        \<longleftrightarrow> h \<in> D k"
    proof (intro ballI)
      fix h k assume hk: "h \<in> insert g U" "k \<in> insert g U"
      consider "h = g" "k = g" | "h = g" "k \<in> U" | "h \<in> U" "k = g" | "h \<in> U" "k \<in> U" using hk by blast
      then show "enter_of ?st' k \<le> enter_of ?st' h \<and> enter_of ?st' h < exit_of ?st' k \<longleftrightarrow> h \<in> D k"
      proof cases
        case 1
        have "g \<in> D g" using below by blast
        with 1 g1 n show ?thesis by simp
      next
        case 2
        have "g \<notin> D k" by (rule up [OF 2(2)])
        with 2 U [OF 2(2)] g1 show ?thesis by simp
      next
        case 3
        have "h \<in> D g" using below 3 by blast
        with 3 U [OF 3(1)] g1 show ?thesis by simp
      next
        case 4
        then have "h \<noteq> g" "k \<noteq> g" using gU by blast+
        with labelsD(6) [OF l 4] show ?thesis by (simp add: keep)
      qed
    qed
  qed
qed

lemma kids_not_above:
  assumes ok: "accepted_tree ts" and g: "g \<in> ts_group ` set ts"
    and h: "h \<in> (\<Union>c \<in> groups.kids ts g. groups.below ts c)"
  shows "g \<notin> groups.below ts h"
proof -
  obtain c where c: "c \<in> groups.kids ts g" "h \<in> groups.below ts c" using h by blast
  have "h \<in> groups.below ts g" using groups.below_kids [OF ok g] c by blast
  moreover have "h \<noteq> g"
  proof
    assume "h = g"
    with c have "g = c \<or> c \<in> set (group_ancestors ts g)" by (simp add: groups.below_def)
    with groups.kid_rank [OF ok c(1)] groups.above_closed [OF ok g] show False
      by (metis less_asym less_irrefl)
  qed
  ultimately show ?thesis by (rule groups.below_antisym [OF ok g])
qed

lemma visit_labels:
  assumes wf: "well_formed_tree n ts"
  shows "g \<in> ts_group ` set ts \<Longrightarrow> card {t \<in> set ts. start_of_group ts g \<le> ts_start t} \<le> fuel \<Longrightarrow>
    \<exists>st'. visit fuel ts g st = Inr st' \<and> labels (groups.below ts) (groups.below ts g) st st'"
proof (induction fuel arbitrary: g st)
  case 0
  then obtain t where "t \<in> set ts" "g = ts_group t" by blast
  with 0 group_lookups(1) [OF wf] show ?case by (auto simp: card_eq_0_iff)
next
  case (Suc fuel)
  let ?D = "groups.below ts"
  have ok: "accepted_tree ts" using wf by (auto simp: accepted_tree_def)
  have d: "distinct (map ts_group ts)" using wf by (simp add: well_formed_tree_def)
  note g = Suc.prems(1)
  let ?cs = "sorted_children ts g"
  let ?st = "st\<lparr>enter_by_group := (enter_by_group st)(g \<mapsto> next_enter st), next_enter := next_enter st + 1\<rparr>"
  let ?U = "\<Union>c \<in> set ?cs. ?D c"
  have kids: "set ?cs = groups.kids ts g" by (rule sorted_children_kids [OF wf g])
  have "\<exists>st'. foldE (visit fuel ts) ?cs ?st = Inr st' \<and> labels ?D ?U ?st st'"
  proof (rule labels_fold)
    fix c st assume c: "c \<in> set ?cs"
    then have ck: "c \<in> groups.kids ts g" using kids by simp
    have "{t \<in> set ts. start_of_group ts c \<le> ts_start t} \<subset> {t \<in> set ts. start_of_group ts g \<le> ts_start t}"
    proof
      have lt: "start_of_group ts g < start_of_group ts c" by (rule groups.kid_rank [OF ok ck])
      then show "{t \<in> set ts. start_of_group ts c \<le> ts_start t} \<subseteq> {t \<in> set ts. start_of_group ts g \<le> ts_start t}"
        by auto
      obtain t where "t \<in> set ts" "g = ts_group t" using g by blast
      then have "t \<in> {t \<in> set ts. start_of_group ts g \<le> ts_start t}" "t \<notin> {t \<in> set ts. start_of_group ts c \<le> ts_start t}"
        using lt group_lookups(1) [OF wf] by auto
      then show "{t \<in> set ts. start_of_group ts c \<le> ts_start t} \<noteq> {t \<in> set ts. start_of_group ts g \<le> ts_start t}"
        by blast
    qed
    then have "card {t \<in> set ts. start_of_group ts c \<le> ts_start t} < card {t \<in> set ts. start_of_group ts g \<le> ts_start t}"
      by (intro psubset_card_mono) simp_all
    then have "card {t \<in> set ts. start_of_group ts c \<le> ts_start t} \<le> fuel" using Suc.prems(2) by simp
    moreover have "c \<in> ts_group ` set ts" using c by (auto simp: sorted_children_set)
    ultimately show "\<exists>st'. visit fuel ts c st = Inr st' \<and> labels ?D (?D c) st st'" using Suc.IH by blast
  next
    show "distinct ?cs" by (rule sorted_children_set(2) [OF d])
  next
    fix c e h k assume "c \<in> set ?cs" "e \<in> set ?cs" "c \<noteq> e" "h \<in> ?D c" "k \<in> ?D e"
    then show "h \<noteq> k \<and> h \<notin> ?D k \<and> k \<notin> ?D h"
      using groups.below_apart [OF ok, of c e h k] groups.kids_unrelated [OF ok] kids by blast
  qed
  then obtain st2 where st2: "foldE (visit fuel ts) ?cs ?st = Inr st2" "labels ?D ?U ?st st2" by blast
  let ?st' = "st2\<lparr>exit_by_group := (exit_by_group st2)(g \<mapsto> next_enter st2)\<rparr>"
  have below: "?D g = insert g ?U" using groups.below_kids [OF ok g] kids by simp
  have up: "g \<notin> ?D h" if "h \<in> ?U" for h
    using kids_not_above [OF ok g] that kids by simp
  have gU: "g \<notin> ?U" using up groups.below_self [OF g] by blast
  have "labels ?D (?D g) st ?st'"
    by (rule labels_node [OF st2(2) below gU]) (rule up)
  with st2(1) show ?case by simp
qed

lemma visit_roots:
  assumes wf: "well_formed_tree n ts"
  shows "\<exists>st. foldE (visit (Suc (length ts)) ts) (sort_key (start_of_group ts) (tree_roots ts)) st0 = Inr st \<and>
    labels (groups.below ts) (ts_group ` set ts) st0 st"
proof -
  have ok: "accepted_tree ts" using wf by (auto simp: accepted_tree_def)
  have d: "distinct (map ts_group ts)" using wf by (simp add: well_formed_tree_def)
  let ?rs = "sort_key (start_of_group ts) (tree_roots ts)"
  have rs: "set ?rs = groups.roots_of ts"
    using group_lookups(2) [OF wf] by (auto simp: tree_roots_def groups.roots_of_def)
  have "\<exists>st. foldE (visit (Suc (length ts)) ts) ?rs st0 = Inr st \<and>
    labels (groups.below ts) (\<Union>c \<in> set ?rs. groups.below ts c) st0 st"
  proof (rule labels_fold)
    fix c st assume "c \<in> set ?rs"
    then have c: "c \<in> ts_group ` set ts" by (auto simp: tree_roots_def)
    have "card {t \<in> set ts. start_of_group ts c \<le> ts_start t} \<le> card (set ts)" by (intro card_mono) auto
    also have "\<dots> \<le> Suc (length ts)" using card_length [of ts] by simp
    finally show "\<exists>st'. visit (Suc (length ts)) ts c st = Inr st' \<and> labels (groups.below ts) (groups.below ts c) st st'"
      by (rule visit_labels [OF wf c])
  next
    show "distinct ?rs" using d by (simp add: tree_roots_def distinct_map inj_on_def)
  next
    fix c e h k assume "c \<in> set ?rs" "e \<in> set ?rs" "c \<noteq> e" "h \<in> groups.below ts c" "k \<in> groups.below ts e"
    then show "h \<noteq> k \<and> h \<notin> groups.below ts k \<and> k \<notin> groups.below ts h"
      using groups.below_apart [OF ok, of c e h k] rs by (auto simp: groups.roots_of_def)
  qed
  moreover have "(\<Union>c \<in> set ?rs. groups.below ts c) = ts_group ` set ts"
    unfolding rs by (rule groups.below_roots [OF ok])
  ultimately show ?thesis by simp
qed

section \<open>The interval arrays describe the tree mask\<close>

lemma set_range_nth: "i < length xs \<Longrightarrow> set_range a b v xs ! i = (if a \<le> i \<and> i < b then v else xs ! i)"
  by (simp add: set_range_def nth_enumerate_eq)

lemma set_range_length [simp]: "length (set_range a b v xs) = length xs"
  by (simp add: set_range_def)

lemma paint_groups:
  "segments_chain c n ts \<Longrightarrow> \<forall>t \<in> set ts. label (ts_group t) \<noteq> None \<Longrightarrow>
   \<exists>ys. foldE (paint_group label) ts xs = Inr ys \<and> length ys = length xs \<and>
     (\<forall>i < length xs. (\<forall>t \<in> set ts. within i t \<longrightarrow> ys ! i = int (the (label (ts_group t)))) \<and>
        ((\<forall>t \<in> set ts. \<not> within i t) \<longrightarrow> ys ! i = xs ! i))"
proof (induction c n ts arbitrary: xs rule: segments_chain.induct)
  case (2 c n t ts)
  obtain v where v: "label (ts_group t) = Some v" using "2.prems"(2) by auto
  let ?xs = "set_range (ts_start t) (ts_end t) (int v) xs"
  have tail: "segments_chain (ts_end t) n ts" using "2.prems"(1) by simp
  have apart: "\<not> within i u" if "within i t" "u \<in> set ts" for i u
    using that tree_segment_end_le [OF tail that(2)] by (auto simp: within_def)
  from "2.IH" [OF tail, of ?xs] "2.prems"(2) obtain ys where ys:
    "foldE (paint_group label) ts ?xs = Inr ys" "length ys = length xs"
    "\<forall>i < length xs. (\<forall>t \<in> set ts. within i t \<longrightarrow> ys ! i = int (the (label (ts_group t)))) \<and>
        ((\<forall>t \<in> set ts. \<not> within i t) \<longrightarrow> ys ! i = ?xs ! i)" by auto
  have step: "paint_group label t xs = Inr ?xs" using v by (simp add: paint_group_def)
  have first: "?xs ! i = (if within i t then int v else xs ! i)" if "i < length xs" for i
    using that by (simp add: set_range_nth within_def)
  show ?case
  proof (intro exI [of _ ys] conjI allI impI)
    show "foldE (paint_group label) (t # ts) xs = Inr ys" using step ys(1) by simp
    show "length ys = length xs" by (rule ys(2))
    fix i assume i: "i < length xs"
    show "\<forall>u \<in> set (t # ts). within i u \<longrightarrow> ys ! i = int (the (label (ts_group u)))"
    proof (intro ballI impI)
      fix u assume u: "u \<in> set (t # ts)" "within i u"
      show "ys ! i = int (the (label (ts_group u)))"
      proof (cases "within i t")
        case True
        with apart have none: "\<forall>u \<in> set ts. \<not> within i u" by blast
        with u have "u = t" by auto
        with none ys(3) i first [OF i] True v show ?thesis by simp
      next
        case False
        with u have "u \<in> set ts" by auto
        with ys(3) i u(2) show ?thesis by blast
      qed
    qed
    assume "\<forall>u \<in> set (t # ts). \<not> within i u"
    with ys(3) i first [OF i] show "ys ! i = xs ! i" by simp
  qed
qed simp

lemma chain_covers: "segments_chain c n ts \<Longrightarrow> c \<le> i \<Longrightarrow> i < n \<Longrightarrow> \<exists>t \<in> set ts. within i t"
proof (induction c n ts rule: segments_chain.induct)
  case (2 c n t ts)
  show ?case
  proof (cases "i < ts_end t")
    case True
    with 2 show ?thesis by (auto simp: within_def)
  next
    case False
    with 2 show ?thesis by auto
  qed
qed simp

definition visible :: "tree_row \<Rightarrow> nat \<Rightarrow> nat \<Rightarrow> bool" where
  "visible row a b \<longleftrightarrow> (if a < tr_valid row \<and> b < tr_valid row then tree_mask (tr_segments row) a b
     else tr_valid row \<le> b \<and> b \<le> a)"

lemma tree_mask_segments:
  assumes wf: "well_formed_tree n ts" and t: "t \<in> set ts" "within a t" and u: "u \<in> set ts" "within b u"
  shows "tree_mask ts a b \<longleftrightarrow> b \<le> a \<and> ts_group t \<in> groups.below ts (ts_group u)"
proof -
  have chain: "segments_chain 0 n ts" and d: "distinct (map ts_group ts)"
    using wf by (simp_all add: well_formed_tree_def)
  have ok: "accepted_tree ts" using wf by (auto simp: accepted_tree_def)
  note look = group_lookups [OF wf]
  have same: "ts_group t = ts_group u \<longleftrightarrow> t = u" using d t(1) u(1) by (auto simp: distinct_map inj_on_def)
  have before: "b \<le> a" if "ts_group u \<in> set (ts_ancestors t)"
  proof -
    have "start_of_group ts (ts_group u) < start_of_group ts (ts_group t)"
      using groups.above_closed [OF ok, of "ts_group t" "ts_group u"] that look(2) [OF t(1)] t(1) by simp
    then have lt: "ts_start u < ts_start t" using look(1) t(1) u(1) by simp
    have "ts_end u \<le> ts_start t"
    proof -
      have "segments_chain c n xs \<Longrightarrow> t \<in> set xs \<Longrightarrow> u \<in> set xs \<Longrightarrow> ts_end u \<le> ts_start t" for c xs
      proof (induction c n xs rule: segments_chain.induct)
        case (2 c n v xs)
        then have tail: "segments_chain (ts_end v) n xs" by simp
        show ?case
        proof (cases "u = v")
          case True
          with 2 lt have "t \<in> set xs" by auto
          with tree_segment_end_le [OF tail] True show ?thesis by blast
        next
          case False
          with 2 have "u \<in> set xs" by simp
          moreover have "t \<noteq> v"
            using tree_segment_end_le [OF tail \<open>u \<in> set xs\<close>] "2.prems"(1) lt by auto
          ultimately show ?thesis using 2 tail by simp
        qed
      qed simp
      from this [OF chain t(1) u(1)] show ?thesis .
    qed
    with t(2) u(2) show "b \<le> a" by (simp add: within_def)
  qed
  have tu: "x = t" if "x \<in> set ts" "within a x" for x
    by (rule chain_within_unique [OF chain that(1) t(1) that(2) t(2)])
  have ub: "x = u" if "x \<in> set ts" "within b x" for x
    by (rule chain_within_unique [OF chain that(1) u(1) that(2) u(2)])
  have "tree_mask ts a b \<longleftrightarrow> (within b t \<and> b \<le> a) \<or> ts_group u \<in> set (ts_ancestors t)"
  proof
    assume "tree_mask ts a b"
    then show "(within b t \<and> b \<le> a) \<or> ts_group u \<in> set (ts_ancestors t)"
      unfolding tree_mask_def using tu ub by blast
  next
    assume "(within b t \<and> b \<le> a) \<or> ts_group u \<in> set (ts_ancestors t)"
    then show "tree_mask ts a b" unfolding tree_mask_def using t u by blast
  qed
  also have "within b t \<longleftrightarrow> t = u" using ub t(1) u(2) by blast
  also have "(t = u \<and> b \<le> a) \<or> ts_group u \<in> set (ts_ancestors t) \<longleftrightarrow>
      b \<le> a \<and> (t = u \<or> ts_group u \<in> set (ts_ancestors t))" using before by blast
  also have "t = u \<or> ts_group u \<in> set (ts_ancestors t) \<longleftrightarrow> ts_group t \<in> groups.below ts (ts_group u)"
    using t(1) same look(2) [OF t(1)] by (auto simp: groups.below_def)
  finally show ?thesis .
qed

lemma interval_arrays_ok:
  assumes wf: "well_formed_tree (tr_valid row) (tr_segments row)" and len: "tr_valid row \<le> len"
  obtains enters exits where "build_group_interval_arrays row len = Inr (enters, exits)"
    and "length enters = len" and "length exits = len"
    and "\<And>a. a < len \<Longrightarrow> 0 \<le> enters ! a \<and> enters ! a < exits ! a \<and> exits ! a \<le> int len + 1"
    and "\<And>a b. a < len \<Longrightarrow> b < len \<Longrightarrow>
      b \<le> a \<and> enters ! b \<le> enters ! a \<and> enters ! a < exits ! b \<longleftrightarrow> visible row a b"
proof -
  let ?ts = "tr_segments row" and ?n = "tr_valid row"
  have chain: "segments_chain 0 ?n ?ts" and d: "distinct (map ts_group ?ts)"
    using wf by (simp_all add: well_formed_tree_def)
  let ?st0 = "\<lparr>enter_by_group = Map.empty, exit_by_group = Map.empty, next_enter = 0\<rparr>"
  obtain st where st: "foldE (visit (Suc (length ?ts)) ?ts) (sort_key (start_of_group ?ts) (tree_roots ?ts)) ?st0 = Inr st"
    and l: "labels (groups.below ?ts) (ts_group ` set ?ts) ?st0 st"
    using visit_roots [OF wf] by blast
  note lab = labelsD [OF l]
  have some: "\<forall>t \<in> set ?ts. enter_by_group st (ts_group t) \<noteq> None" "\<forall>t \<in> set ?ts. exit_by_group st (ts_group t) \<noteq> None"
    using lab(5) by auto
  obtain ys where ys: "foldE (paint_group (enter_by_group st)) ?ts (replicate len (-1)) = Inr ys" "length ys = len"
    "\<And>i t. i < len \<Longrightarrow> t \<in> set ?ts \<Longrightarrow> within i t \<Longrightarrow> ys ! i = int (enter_of st (ts_group t))"
    using paint_groups [OF chain some(1), of "replicate len (-1)"] by (auto simp: enter_of_def)
  obtain zs where zs: "foldE (paint_group (exit_by_group st)) ?ts (replicate len (-1)) = Inr zs" "length zs = len"
    "\<And>i t. i < len \<Longrightarrow> t \<in> set ?ts \<Longrightarrow> within i t \<Longrightarrow> zs ! i = int (exit_of st (ts_group t))"
    using paint_groups [OF chain some(2), of "replicate len (-1)"] by (auto simp: exit_of_def)
  let ?e = "if ?n < len then set_range ?n len (int (next_enter st)) ys else ys"
  let ?x = "if ?n < len then set_range ?n len (int (next_enter st) + 1) zs else zs"
  have pad: "?e ! a = int (next_enter st) \<and> ?x ! a = int (next_enter st) + 1" if "a < len" "?n \<le> a" for a
    using that ys(2) zs(2) by (simp add: set_range_nth)
  have val: "?e ! a = int (enter_of st (ts_group t)) \<and> ?x ! a = int (exit_of st (ts_group t))"
    if "a < len" "a < ?n" "t \<in> set ?ts" "within a t" for a t
    using that ys zs by (simp add: set_range_nth)
  have seg: "\<exists>t \<in> set ?ts. within a t" if "a < ?n" for a using chain_covers [OF chain _ that] by simp
  have bnd: "enter_of st (ts_group t) < exit_of st (ts_group t) \<and> exit_of st (ts_group t) \<le> next_enter st"
    if "t \<in> set ?ts" for t
    using lab(5) [of "ts_group t"] that by simp
  have "length ?ts \<le> ?n"
  proof -
    have "segments_chain c n xs \<Longrightarrow> c + length xs \<le> n" for c n xs
      by (induction c n xs rule: segments_chain.induct) auto
    with chain show ?thesis by fastforce
  qed
  then have n: "next_enter st \<le> len"
    using lab(2) len card_length [of "map ts_group ?ts"] by simp
  show thesis
  proof (rule that [of ?e ?x])
    show "build_group_interval_arrays row len = Inr (?e, ?x)"
      using st ys(1) zs(1) by (simp add: build_group_interval_arrays_def Let_def)
    show "length ?e = len" "length ?x = len" using ys(2) zs(2) by simp_all
    show "0 \<le> ?e ! a \<and> ?e ! a < ?x ! a \<and> ?x ! a \<le> int len + 1" if a: "a < len" for a
    proof (cases "a < ?n")
      case True
      then obtain t where t: "t \<in> set ?ts" "within a t" using seg by blast
      from val [OF a True t] bnd [OF t(1)] n show ?thesis by simp
    next
      case False
      with pad [OF a] n show ?thesis by simp
    qed
    show "b \<le> a \<and> ?e ! b \<le> ?e ! a \<and> ?e ! a < ?x ! b \<longleftrightarrow> visible row a b" if ab: "a < len" "b < len" for a b
    proof -
      consider "a < ?n" "b < ?n" | "a < ?n" "?n \<le> b" | "?n \<le> a" "b < ?n" | "?n \<le> a" "?n \<le> b" by linarith
      then show ?thesis
      proof cases
        case 1
        obtain t u where t: "t \<in> set ?ts" "within a t" and u: "u \<in> set ?ts" "within b u"
          using seg 1 by blast
        have "enter_of st (ts_group u) \<le> enter_of st (ts_group t) \<and> enter_of st (ts_group t) < exit_of st (ts_group u)
            \<longleftrightarrow> ts_group t \<in> groups.below ?ts (ts_group u)"
          by (rule lab(6)) (simp_all add: t u)
        with val [OF ab(1) 1(1) t] val [OF ab(2) 1(2) u] tree_mask_segments [OF wf t u] 1
        show ?thesis by (simp add: visible_def)
      next
        case 2
        then show ?thesis by (simp add: visible_def)
      next
        case 3
        then obtain u where u: "u \<in> set ?ts" "within b u" using seg by blast
        from val [OF ab(2) 3(2) u] bnd [OF u(1)] pad [OF ab(1) 3(1)] 3 show ?thesis
          by (simp add: visible_def)
      next
        case 4
        with pad [OF ab(1)] pad [OF ab(2)] show ?thesis by (simp add: visible_def)
      qed
    qed
  qed
qed

lemma prepare_context:
  assumes "prepare_block_mask_context gs ps pos = Inr ctx" and "parse_prefix_tree_row gs ps 0 (-1) = Inr row"
  shows "source_len ctx = length gs \<and> length (group_enter ctx) = length gs \<and> length (group_exit ctx) = length gs \<and>
    (\<forall>a < length gs. 0 \<le> group_enter ctx ! a \<and> group_enter ctx ! a < group_exit ctx ! a \<and>
       group_exit ctx ! a \<le> int (length gs) + 1)"
    and "a < length gs \<Longrightarrow> b < length gs \<Longrightarrow>
      b \<le> a \<and> group_enter ctx ! b \<le> group_enter ctx ! a \<and> group_enter ctx ! a < group_exit ctx ! b \<longleftrightarrow> visible row a b"
proof -
  have row: "tr_valid row \<le> length gs" "well_formed_tree (tr_valid row) (tr_segments row)"
    using parse_row_sound(1) [OF assms(2)] by simp_all
  obtain enters exits where e: "build_group_interval_arrays row (length gs) = Inr (enters, exits)"
    "length enters = length gs" "length exits = length gs"
    "\<And>a. a < length gs \<Longrightarrow> 0 \<le> enters ! a \<and> enters ! a < exits ! a \<and> exits ! a \<le> int (length gs) + 1"
    "\<And>a b. a < length gs \<Longrightarrow> b < length gs \<Longrightarrow>
      b \<le> a \<and> enters ! b \<le> enters ! a \<and> enters ! a < exits ! b \<longleftrightarrow> visible row a b"
    using interval_arrays_ok [OF row(2,1)] by metis
  have ctx: "ctx = \<lparr>source_len = length gs, group_enter = enters, group_exit = exits, ctx_input_pos = pos\<rparr>"
    using assms e(1) by (auto simp: prepare_block_mask_context_def result_iffs)
  show "source_len ctx = length gs \<and> length (group_enter ctx) = length gs \<and> length (group_exit ctx) = length gs \<and>
    (\<forall>a < length gs. 0 \<le> group_enter ctx ! a \<and> group_enter ctx ! a < group_exit ctx ! a \<and>
       group_exit ctx ! a \<le> int (length gs) + 1)"
    using e(2-4) by (simp add: ctx)
  show "a < length gs \<Longrightarrow> b < length gs \<Longrightarrow>
      b \<le> a \<and> group_enter ctx ! b \<le> group_enter ctx ! a \<and> group_enter ctx ! a < group_exit ctx ! b \<longleftrightarrow> visible row a b"
    using e(5) by (simp add: ctx)
qed

section \<open>Properties\<close>

lemma prepare_context_exists:
  assumes parsed: "parse_prefix_tree_row gs ps 0 (-1) = Inr row"
  obtains ctx where "prepare_block_mask_context gs ps None = Inr ctx"
proof -
  have row: "tr_valid row \<le> length gs" "well_formed_tree (tr_valid row) (tr_segments row)"
    using parse_row_sound(1) [OF parsed] by simp_all
  have shape: "length gs = length ps" using parsed by (auto simp: parse_prefix_tree_row_def ensure_Inr_iff)
  obtain enters exits where "build_group_interval_arrays row (length gs) = Inr (enters, exits)"
    using interval_arrays_ok [OF row(2,1)] by metis
  with parsed shape that show thesis by (simp add: prepare_block_mask_context_def)
qed

text \<open>The labels of a packed row, whoever planned it.\<close>

lemma packed_labels:
  assumes wp: "well_packed rs segs" and segs: "segs \<noteq> []" and i: "i < length rs" and x: "x < length (rs ! i)"
    and b: "b < plan_length segs"
    and ctx: "prepare_block_mask_context (group_row segs @ replicate k (-1)) (parent_row segs @ replicate k (-1)) None = Inr ctx"
  defines "a \<equiv> positions_of i segs ! x"
  shows "b \<le> a \<and> group_enter ctx ! b \<le> group_enter ctx ! a \<and> group_enter ctx ! a < group_exit ctx ! b \<longleftrightarrow>
    b \<in> set (take (Suc x) (positions_of i segs))"
proof -
  have x': "x < length (positions_of i segs)" using positions_of_length [OF wp i] x by simp
  have a: "a < plan_length segs" unfolding a_def using positions_bound [OF wp] x' by (meson nth_mem)
  have len: "plan_length segs \<le> length (group_row segs @ replicate k (-1))"
    using parse_row_sound(1) [OF parse_packed_row [OF wp, of k 0]] by simp
  show ?thesis
    using prepare_context(2) [OF ctx parse_packed_row [OF wp, of k 0], of a b] a b len
      packed_mask_row [OF wp x', of b] by (simp add: visible_def a_def)
qed
text \<open>
  C9. The interval labels are the dense mask: for every row the parser accepts, preparing
  the mask context succeeds (the recursive walk ends within its fuel, one more than
  the number of segments, and no group is missing; the recursion limit of the interpreter is not modelled), and comparing two tokens' positions and enter/exit labels gives exactly the
  entry of the dense reference mask.
\<close>

theorem interval_labels_equal_dense_mask:
  assumes "parse_prefix_tree_row gs ps 0 (-1) = Inr row"
  shows "\<exists>ctx spec mask. prepare_block_mask_context gs ps None = Inr ctx \<and> row_attention row = Inr spec \<and>
    build_dense_reference_mask spec = Inr mask \<and>
    (\<forall>a < tr_valid row. \<forall>b < tr_valid row. mask ! a ! b \<longleftrightarrow>
       b \<le> a \<and> group_enter ctx ! b \<le> group_enter ctx ! a \<and> group_enter ctx ! a < group_exit ctx ! b)"
proof -
  have row: "tr_valid row \<le> length gs" "well_formed_tree (tr_valid row) (tr_segments row)"
    using parse_row_sound(1) [OF assms] by simp_all
  obtain ctx where ctx: "prepare_block_mask_context gs ps None = Inr ctx" by (rule prepare_context_exists [OF assms])
  obtain spec mask where spec: "row_attention row = Inr spec" "build_dense_reference_mask spec = Inr mask"
    "represents (tr_valid row) mask (tree_mask (tr_segments row))"
    using row_attention_represents [OF row(2)] by metis
  have "mask ! a ! b \<longleftrightarrow> b \<le> a \<and> group_enter ctx ! b \<le> group_enter ctx ! a \<and> group_enter ctx ! a < group_exit ctx ! b"
    if ab: "a < tr_valid row" "b < tr_valid row" for a b
  proof -
    have "mask ! a ! b \<longleftrightarrow> tree_mask (tr_segments row) a b" using spec(3) ab by (simp add: represents_def)
    also have "\<dots> \<longleftrightarrow> visible row a b" using ab by (simp add: visible_def)
    also have "\<dots> \<longleftrightarrow> b \<le> a \<and> group_enter ctx ! b \<le> group_enter ctx ! a \<and> group_enter ctx ! a < group_exit ctx ! b"
      using prepare_context(2) [OF ctx assms, of a b] ab row(1) by simp
    finally show ?thesis .
  qed
  with ctx spec(1,2) show ?thesis by blast
qed

theorem interval_labels_equal_dense_mask_witness:
  "\<exists>ctx spec mask. prepare_block_mask_context [1,1,2,3,-1] [1,1,1,1,-1] None = Inr ctx \<and>
     build_dense_reference_mask spec = Inr mask \<and> (mask ! 3 ! 1 \<longleftrightarrow>
       (1::nat) \<le> 3 \<and> group_enter ctx ! 1 \<le> group_enter ctx ! 3 \<and> group_enter ctx ! 3 < group_exit ctx ! 1)"
  using interval_labels_equal_dense_mask [OF parse_row_example] by fastforce

end
