(* ===== verification/Block_Mask.thy ===== *)
theory Block_Mask
  imports Mask_Intervals
begin

text \<open>
  The second half of \<^verbatim>\<open>megatron/context_parallel/block_mask.py\<close>: the token-level mask
  function, the classification of blocks by the slices of a stage, their refinement with
  the interval labels, and the block-sparse mask handed to the attention kernel.
\<close>

section \<open>The token-level mask function\<close>

datatype mask_dtype = Int32 | Int64

definition wrap_bits :: "nat \<Rightarrow> int \<Rightarrow> int" where
  "wrap_bits w x = (x + 2 ^ (w - 1)) mod 2 ^ w - 2 ^ (w - 1)"

definition cast_dtype :: "mask_dtype \<Rightarrow> int \<Rightarrow> int" where
  "cast_dtype d x = (case d of Int32 \<Rightarrow> wrap_bits 32 x | Int64 \<Rightarrow> wrap_bits 64 x)"

definition smallest_mask_metadata_dtype :: "int list list \<Rightarrow> mask_dtype" where
  "smallest_mask_metadata_dtype arrays =
     (if list_ex (\<lambda>xs. xs \<noteq> [] \<and> (Min (set xs) < -(2 ^ 31) \<or> Max (set xs) > 2 ^ 31 - 1)) arrays
      then Int64 else Int32)"

text \<open>The arrays of a stage: absolute token indices, interval labels and positions.\<close>

record mask_arrays =
  q_abs :: "int list"
  k_abs :: "int list"
  q_enter :: "int list"
  k_enter :: "int list"
  k_exit :: "int list"
  q_pos :: "int list"
  k_pos :: "int list"

definition arrays_dtype :: "mask_arrays \<Rightarrow> int option \<Rightarrow> mask_dtype" where
  "arrays_dtype a window = smallest_mask_metadata_dtype
     ([q_abs a, k_abs a, q_enter a, k_enter a, k_exit a] @ (if window = None then [] else [q_pos a, k_pos a]))"

text \<open>
  \<^verbatim>\<open>mask_mod\<close> of \<^verbatim>\<open>_build_interval_mask_mod\<close>, on the tensors cast to the chosen width;
  the window subtraction wraps at that width.
\<close>

definition mask_mod :: "mask_arrays \<Rightarrow> int option \<Rightarrow> nat \<Rightarrow> nat \<Rightarrow> bool" where
  "mask_mod a window q k =
     (let d = arrays_dtype a window;
          at = (\<lambda>xs i. cast_dtype d (xs ! i));
          in_key_subtree = (at (k_enter a) k \<le> at (q_enter a) q \<and> at (q_enter a) q < at (k_exit a) k);
          allowed = (at (q_abs a) q \<ge> at (k_abs a) k \<and> in_key_subtree)
      in case window of None \<Rightarrow> allowed
         | Some w \<Rightarrow> let delta = cast_dtype d (at (q_pos a) q - at (k_pos a) k)
                     in allowed \<and> delta \<ge> 0 \<and> delta < w)"

definition select_with_invalid :: "int list \<Rightarrow> int list \<Rightarrow> int \<Rightarrow> int list result" where
  "select_with_invalid values indices invalid_value =
     mapE (\<lambda>i. if i < 0 then Inr invalid_value
               else if nat i < length values then Inr (values ! nat i) else Inl IndexError) indices"

datatype sparse_block_size = Square nat | Rect nat nat

fun normalize_sparse_block_size :: "sparse_block_size \<Rightarrow> nat \<times> nat" where
  "normalize_sparse_block_size (Rect a b) = (a, b)"
| "normalize_sparse_block_size (Square a) = (a, a)"

record flex_mask_spec =
  fm_q_len :: nat
  fm_k_len :: nat
  fm_block_size :: sparse_block_size
  fm_slices :: "attn_slice list"
  fm_q_indices :: "int list"
  fm_k_indices :: "int list"

definition require_input_pos :: "mask_context \<Rightarrow> int list result" where
  "require_input_pos ctx = (case ctx_input_pos ctx of
     None \<Rightarrow> Inl (RuntimeError ''Sliding-window prefix-tree block masks require input_pos.'')
   | Some xs \<Rightarrow> Inr xs)"

definition window_positions :: "mask_context \<Rightarrow> int option \<Rightarrow> int list \<Rightarrow> int list result" where
  "window_positions ctx window indices =
     (if window = None then Inr [] else bindE (require_input_pos ctx) (\<lambda>pos.
        select_with_invalid pos indices (-(2 ^ 63))))"

definition stage_arrays :: "flex_mask_spec \<Rightarrow> mask_context \<Rightarrow> int option \<Rightarrow> mask_arrays result" where
  "stage_arrays spec ctx window =
     (let qa = fm_q_indices spec; ka = fm_k_indices spec in
      bindE (select_with_invalid (group_enter ctx) qa (-1)) (\<lambda>qe.
      bindE (select_with_invalid (group_enter ctx) ka (-1)) (\<lambda>ke.
      bindE (select_with_invalid (group_exit ctx) ka (-1)) (\<lambda>kx.
      bindE (window_positions ctx window qa) (\<lambda>qp.
      bindE (window_positions ctx window ka) (\<lambda>kp.
        Inr \<lparr>q_abs = qa, k_abs = ka, q_enter = qe, k_enter = ke, k_exit = kx, q_pos = qp, k_pos = kp\<rparr>))))))"

section \<open>Classifying the blocks a slice touches\<close>

definition ceil_div :: "nat \<Rightarrow> nat \<Rightarrow> nat" where
  "ceil_div a b = (a + b - 1) div b"

definition is_strictly_increasing :: "int list \<Rightarrow> bool" where
  "is_strictly_increasing xs \<longleftrightarrow> list_all (\<lambda>i. xs ! (i - 1) < xs ! i) [1..<length xs]"

definition block_min_max :: "int list \<Rightarrow> nat \<Rightarrow> nat \<Rightarrow> (int \<times> int) result" where
  "block_min_max values s e =
     (let b = slice values s e
      in if b = [] then Inl (ValueError ''zero-size array to reduction operation'')
         else Inr (Min (set b), Max (set b)))"

definition sorted_min_max :: "int list \<Rightarrow> nat \<Rightarrow> nat \<Rightarrow> (int \<times> int) result" where
  "sorted_min_max values s e =
     (if s < length values \<and> e - 1 < length values then Inr (values ! s, values ! (e - 1)) else Inl IndexError)"

text \<open>One axis of one slice over one block: overlap, coverage, extreme indices and positions.\<close>

record block_edge =
  edge_covered :: bool
  edge_abs :: "int \<times> int"
  edge_pos :: "int \<times> int"

definition block_edge :: "nat \<Rightarrow> nat \<Rightarrow> nat \<Rightarrow> nat \<Rightarrow> attn_mask_kind \<Rightarrow> int option \<Rightarrow> int list \<Rightarrow> int list \<Rightarrow> nat
    \<Rightarrow> block_edge result" where
  "block_edge block len s e kind window absolute positions index =
     (let block_start = index * block; block_end_raw = (index + 1) * block; block_end = min block_end_raw len;
          overlap_start = max block_start s; overlap_end = min block_end e;
          covered = (overlap_start = block_start \<and> overlap_end = block_end_raw)
      in bindE (if kind = FULL then Inr (0, 0)
                else if is_strictly_increasing (filter (\<lambda>x. x \<ge> 0) absolute)
                  then sorted_min_max absolute overlap_start overlap_end
                else block_min_max absolute overlap_start overlap_end) (\<lambda>extremes.
         bindE (if window = None then Inr (0, 0) else block_min_max positions overlap_start overlap_end) (\<lambda>pos.
           Inr \<lparr>edge_covered = covered, edge_abs = extremes, edge_pos = pos\<rparr>)))"

definition pair_has_any :: "attn_mask_kind \<Rightarrow> int option \<Rightarrow> block_edge \<Rightarrow> block_edge \<Rightarrow> bool" where
  "pair_has_any kind window q k \<longleftrightarrow>
     (kind = FULL \<or> snd (edge_abs q) \<ge> fst (edge_abs k)) \<and>
     (case window of None \<Rightarrow> True
      | Some w \<Rightarrow> snd (edge_pos q) \<ge> fst (edge_pos k) \<and>
          wrap_bits 64 (fst (edge_pos q) - snd (edge_pos k)) < w)"

definition pair_is_full :: "attn_mask_kind \<Rightarrow> int option \<Rightarrow> block_edge \<Rightarrow> block_edge \<Rightarrow> bool" where
  "pair_is_full kind window q k \<longleftrightarrow>
     edge_covered q \<and> edge_covered k \<and> (kind = FULL \<or> fst (edge_abs q) \<ge> snd (edge_abs k)) \<and>
     (case window of None \<Rightarrow> True
      | Some w \<Rightarrow> fst (edge_pos q) \<ge> snd (edge_pos k) \<and>
          wrap_bits 64 (snd (edge_pos q) - fst (edge_pos k)) < w)"

text \<open>The three matrices the loop over slices accumulates, as functions of block indices.\<close>

record block_state =
  touch_counts :: "nat \<Rightarrow> nat \<Rightarrow> int"
  partial_blocks :: "nat \<Rightarrow> nat \<Rightarrow> bool"
  full_blocks :: "nat \<Rightarrow> nat \<Rightarrow> bool"

definition classify_slice :: "flex_mask_spec \<Rightarrow> mask_arrays \<Rightarrow> int option \<Rightarrow> nat \<Rightarrow> nat \<Rightarrow> attn_slice \<Rightarrow> block_state
    \<Rightarrow> block_state result" where
  "classify_slice spec a window q_block k_block s st =
     (let q_start = tk_start (q_range s); q_end = min (fm_q_len spec) (tk_end (q_range s));
          k_start = tk_start (k_range s); k_end = min (fm_k_len spec) (tk_end (k_range s));
          q_lo = q_start div q_block; q_hi = ceil_div q_end q_block;
          k_lo = k_start div k_block; k_hi = ceil_div k_end k_block
      in if q_hi \<le> q_lo \<or> k_hi \<le> k_lo then Inr st
         else bindE (mapE (block_edge q_block (fm_q_len spec) q_start q_end (mask_kind s) window (q_abs a) (q_pos a))
                [q_lo..<q_hi]) (\<lambda>qs.
              bindE (mapE (block_edge k_block (fm_k_len spec) k_start k_end (mask_kind s) window (k_abs a) (k_pos a))
                [k_lo..<k_hi]) (\<lambda>ks.
              let inside = (\<lambda>i j. q_lo \<le> i \<and> i < q_hi \<and> k_lo \<le> j \<and> j < k_hi);
                  has_any = (\<lambda>i j. inside i j \<and> pair_has_any (mask_kind s) window (qs ! (i - q_lo)) (ks ! (j - k_lo)));
                  is_full = (\<lambda>i j. inside i j \<and> pair_is_full (mask_kind s) window (qs ! (i - q_lo)) (ks ! (j - k_lo)))
              in Inr \<lparr>touch_counts = (\<lambda>i j. if has_any i j then wrap_bits 16 (touch_counts st i j + 1) else touch_counts st i j),
                      partial_blocks = (\<lambda>i j. partial_blocks st i j \<or> has_any i j),
                      full_blocks = (\<lambda>i j. full_blocks st i j \<or> is_full i j)\<rparr>)))"

section \<open>Refining blocks with the interval labels\<close>

definition block_row :: "int list \<Rightarrow> nat \<Rightarrow> int \<Rightarrow> nat \<Rightarrow> int list" where
  "block_row values block fill index =
     map (\<lambda>i. if i < length values then values ! i else fill) [index * block..<(index + 1) * block]"

text \<open>A query block holds (index, enter) pairs, a key block (index, enter, exit) triples.\<close>

definition q_block_tokens :: "mask_arrays \<Rightarrow> nat \<Rightarrow> nat \<Rightarrow> (int \<times> int) list" where
  "q_block_tokens a block index =
     zip (block_row (q_abs a) block (-(2 ^ 63)) index) (block_row (q_enter a) block (-1) index)"

definition k_block_tokens :: "mask_arrays \<Rightarrow> nat \<Rightarrow> nat \<Rightarrow> (int \<times> int \<times> int) list" where
  "k_block_tokens a block index =
     zip (block_row (k_abs a) block (-(2 ^ 63)) index)
       (zip (block_row (k_enter a) block (-1) index) (block_row (k_exit a) block (-1) index))"

definition q_ok :: "int \<times> int \<Rightarrow> bool" where
  "q_ok t \<longleftrightarrow> fst t \<ge> 0 \<and> snd t \<ge> 0"

definition k_ok :: "int \<times> int \<times> int \<Rightarrow> bool" where
  "k_ok t \<longleftrightarrow> fst t \<ge> 0 \<and> fst (snd t) \<ge> 0 \<and> snd (snd t) > fst (snd t)"

definition least :: "int list \<Rightarrow> int" where
  "least xs = Min (set xs)"

definition greatest :: "int list \<Rightarrow> int" where
  "greatest xs = Max (set xs)"

definition safe_full :: "(int \<times> int) list \<Rightarrow> (int \<times> int \<times> int) list \<Rightarrow> bool" where
  "safe_full qs ks \<longleftrightarrow> list_all q_ok qs \<and> list_all k_ok ks \<and>
     least (map (\<lambda>t. if q_ok t then fst t else 2 ^ 63 - 1) qs)
       \<ge> greatest (map (\<lambda>t. if k_ok t then fst t else -(2 ^ 63)) ks) \<and>
     greatest (map (\<lambda>t. if k_ok t then fst (snd t) else -1) ks)
       \<le> least (map (\<lambda>t. if q_ok t then snd t else 2 ^ 63 - 1) qs) \<and>
     greatest (map (\<lambda>t. if q_ok t then snd t else -1) qs)
       < least (map (\<lambda>t. if k_ok t then snd (snd t) else 2 ^ 63 - 1) ks)"

text \<open>The first valid key (\<^verbatim>\<open>argmax\<close> gives offset 0 when no key is valid).\<close>

definition first_interval :: "(int \<times> int \<times> int) list \<Rightarrow> int \<times> int" where
  "first_interval ks = (case filter k_ok ks of [] \<Rightarrow> snd (hd ks) | t # ts \<Rightarrow> snd t)"

definition single_interval :: "(int \<times> int \<times> int) list \<Rightarrow> bool" where
  "single_interval ks \<longleftrightarrow> list_ex k_ok ks \<and> list_all (\<lambda>t. \<not> k_ok t \<or> snd t = first_interval ks) ks"

definition single_has_any :: "(int \<times> int) list \<Rightarrow> (int \<times> int \<times> int) list \<Rightarrow> bool" where
  "single_has_any qs ks =
     (let (enter, ex) = first_interval ks
      in greatest (map (\<lambda>t. if q_ok t \<and> snd t \<ge> enter \<and> snd t < ex then fst t else -(2 ^ 63)) qs)
         \<ge> least (map (\<lambda>t. if k_ok t then fst t else 2 ^ 63 - 1) ks))"

definition single_is_full :: "(int \<times> int) list \<Rightarrow> (int \<times> int \<times> int) list \<Rightarrow> bool" where
  "single_is_full qs ks =
     (let (enter, ex) = first_interval ks
      in single_has_any qs ks \<and> list_all q_ok qs \<and> list_all k_ok ks \<and>
         least (map (\<lambda>t. if q_ok t then fst t else 2 ^ 63 - 1) qs)
           \<ge> greatest (map (\<lambda>t. if k_ok t then fst t else -(2 ^ 63)) ks) \<and>
         enter \<le> least (map (\<lambda>t. if q_ok t then snd t else 2 ^ 63 - 1) qs) \<and>
         greatest (map (\<lambda>t. if q_ok t then snd t else -1) qs) < ex)"

fun note_min :: "int \<times> int \<Rightarrow> int \<Rightarrow> ((int \<times> int) \<times> int) list \<Rightarrow> ((int \<times> int) \<times> int) list" where
  "note_min key v [] = [(key, v)]"
| "note_min key v ((key', v') # d) = (if key' = key then (key, min v' v) # d else (key', v') # note_min key v d)"

definition k_intervals :: "(int \<times> int \<times> int) list \<Rightarrow> ((int \<times> int) \<times> int) list" where
  "k_intervals ks = foldl (\<lambda>d t. note_min (snd t) (fst t) d) [] (filter k_ok ks)"

definition multi_has_any :: "(int \<times> int) list \<Rightarrow> (int \<times> int \<times> int) list \<Rightarrow> bool" where
  "multi_has_any qs ks \<longleftrightarrow> list_ex q_ok qs \<and>
     list_ex (\<lambda>((enter, ex), min_abs).
       let inside = filter (\<lambda>t. q_ok t \<and> snd t \<ge> enter \<and> snd t < ex) qs
       in inside \<noteq> [] \<and> greatest (map fst inside) \<ge> min_abs) (k_intervals ks)"

definition multi_is_full :: "(int \<times> int) list \<Rightarrow> (int \<times> int \<times> int) list \<Rightarrow> bool" where
  "multi_is_full qs ks \<longleftrightarrow> multi_has_any qs ks \<and> safe_full qs ks"

definition refine_pair :: "(int \<times> int) list \<Rightarrow> (int \<times> int \<times> int) list \<Rightarrow> bool \<times> bool \<Rightarrow> bool \<times> bool" where
  "refine_pair qs ks pf =
     (let (partial, full) = pf in
      if \<not> (partial \<or> (full \<and> \<not> safe_full qs ks)) then (partial, full)
      else if single_interval ks
        then (single_has_any qs ks \<and> \<not> single_is_full qs ks, single_is_full qs ks)
      else (multi_has_any qs ks \<and> \<not> multi_is_full qs ks, multi_is_full qs ks))"

section \<open>The block mask\<close>

record block_mask =
  bm_partial :: "bool list list"
  bm_full :: "bool list list"
  bm_kv :: "nat list \<times> nat list list"
  bm_full_kv :: "nat list \<times> nat list list"
  bm_q :: "nat list \<times> nat list list"
  bm_full_q :: "nat list \<times> nat list list"

definition columns_of :: "bool list \<Rightarrow> nat list" where
  "columns_of row = map fst (filter snd (List.enumerate 0 row))"

definition dense_blocks_to_ordered :: "nat \<Rightarrow> bool list list \<Rightarrow> nat list \<times> nat list list" where
  "dense_blocks_to_ordered width blocks =
     (map (\<lambda>row. length (columns_of row)) blocks,
      map (\<lambda>row. columns_of row @ replicate (width - length (columns_of row)) 0) blocks)"

definition matrix_of :: "nat \<Rightarrow> nat \<Rightarrow> (nat \<Rightarrow> nat \<Rightarrow> bool) \<Rightarrow> bool list list" where
  "matrix_of n m f = map (\<lambda>i. map (f i) [0..<m]) [0..<n]"

definition refine_blocks :: "mask_arrays \<Rightarrow> int option \<Rightarrow> nat \<Rightarrow> nat \<Rightarrow> block_state \<Rightarrow> nat \<Rightarrow> nat \<Rightarrow> bool \<times> bool" where
  "refine_blocks a window q_block k_block st i j =
     (let full = full_blocks st i j; partial = (partial_blocks st i j \<and> \<not> full);
          needs_refine = (full \<or> (touch_counts st i j > 1 \<and> partial));
          refined = refine_pair (q_block_tokens a q_block i) (k_block_tokens a k_block j)
            (partial \<and> needs_refine, full \<and> needs_refine);
          partial1 = ((partial \<and> \<not> needs_refine) \<or> (needs_refine \<and> fst refined));
          full1 = ((full \<and> \<not> needs_refine) \<or> (needs_refine \<and> snd refined))
      in if window = None then (partial1, full1)
         else (partial1 \<or> (full1 \<and> \<not> full), full1 \<and> full))"

definition build_sparse_block_mask :: "flex_mask_spec \<Rightarrow> mask_context \<Rightarrow> int option \<Rightarrow> nat \<times> nat \<Rightarrow> block_mask result" where
  "build_sparse_block_mask spec ctx window block_size =
     (let (q_block, k_block) = block_size in
      ensure (q_block > 0 \<and> k_block > 0) ZeroDivisionError
     (bindE (stage_arrays spec ctx window) (\<lambda>a.
      ensure (fm_slices spec \<noteq> []) (RuntimeError ''Cannot build a CP attention block mask without stage slices'')
     (bindE (foldE (classify_slice spec a window q_block k_block) (fm_slices spec)
          \<lparr>touch_counts = (\<lambda>i j. 0), partial_blocks = (\<lambda>i j. False), full_blocks = (\<lambda>i j. False)\<rparr>) (\<lambda>st.
        let n = ceil_div (fm_q_len spec) q_block; m = ceil_div (fm_k_len spec) k_block;
            cell = refine_blocks a window q_block k_block st;
            partial = matrix_of n m (\<lambda>i j. fst (cell i j)); full = matrix_of n m (\<lambda>i j. snd (cell i j));
            partial_t = matrix_of m n (\<lambda>i j. fst (cell j i)); full_t = matrix_of m n (\<lambda>i j. snd (cell j i))
        in Inr \<lparr>bm_partial = partial, bm_full = full,
                bm_kv = dense_blocks_to_ordered m partial, bm_full_kv = dense_blocks_to_ordered m full,
                bm_q = dense_blocks_to_ordered n partial_t, bm_full_q = dense_blocks_to_ordered n full_t\<rparr>)))))"

section \<open>Validation\<close>

definition validate_exact_indices :: "int list \<Rightarrow> nat \<Rightarrow> nat result" where
  "validate_exact_indices indices source =
     (let kept = takeWhile (\<lambda>i. i \<ge> 0) indices in
      ensure (list_all (\<lambda>i. i < 0) (drop (length kept) indices))
        (RuntimeError ''exact token indices must use only contiguous tail padding.'')
     (if kept = [] then Inr 0
      else ensure (distinct kept) (RuntimeError ''exact token indices must not contain duplicates.'')
     (ensure (Max (set kept) < int source) (RuntimeError ''exact token index exceeds source metadata length'')
     (Inr (length kept)))))"

definition validate_slice :: "flex_mask_spec \<Rightarrow> nat \<Rightarrow> nat \<Rightarrow> attn_slice \<Rightarrow> unit result" where
  "validate_slice spec q_valid k_valid s =
     ensure (row_index s = 0) (RuntimeError ''Shared-prefix sparse block masks support exactly one packed row.'')
    (ensure (\<not> (tk_end (q_range s) > fm_q_len spec \<or> tk_end (k_range s) > fm_k_len spec \<or>
        tk_end (q_range s) < tk_start (q_range s) \<or> tk_end (k_range s) < tk_start (k_range s)))
       (RuntimeError ''Attention slice is outside mask bounds'')
    (ensure (\<not> (tk_end (q_range s) > q_valid \<or> tk_end (k_range s) > k_valid))
       (RuntimeError ''Attention slices may not cover exact-index tail padding'') (Inr ())))"

definition validate_supported_mask_spec :: "flex_mask_spec \<Rightarrow> nat \<Rightarrow> unit result" where
  "validate_supported_mask_spec spec source =
     bindE (validate_exact_indices (fm_q_indices spec) source) (\<lambda>q_valid.
     bindE (validate_exact_indices (fm_k_indices spec) source) (\<lambda>k_valid.
     foldE (\<lambda>s u. validate_slice spec q_valid k_valid s) (fm_slices spec) ()))"

definition build_block_mask_from_context :: "flex_mask_spec \<Rightarrow> mask_context \<Rightarrow> int option \<Rightarrow> bool \<Rightarrow> block_mask option result" where
  "build_block_mask_from_context spec ctx window validate =
     (if fm_q_len spec = 0 \<or> fm_k_len spec = 0 then Inr None
      else ensure (length (fm_q_indices spec) = fm_q_len spec) (RuntimeError ''Exact stage q-token metadata length mismatch'')
     (ensure (length (fm_k_indices spec) = fm_k_len spec) (RuntimeError ''Exact stage k-token metadata length mismatch'')
     (bindE (if validate then validate_supported_mask_spec spec (source_len ctx) else Inr ()) (\<lambda>u.
      bindE (build_sparse_block_mask spec ctx window (normalize_sparse_block_size (fm_block_size spec))) (\<lambda>bm.
        Inr (Some bm))))))"

lemma block_mask_example:
  "bindE (prepare_block_mask_context [1,1,2,3] [1,1,1,1] None) (\<lambda>ctx.
     build_block_mask_from_context \<lparr>fm_q_len = 4, fm_k_len = 4, fm_block_size = Square 2,
       fm_slices = [\<lparr>q_range = \<lparr>tk_start = 0, tk_end = 2\<rparr>, k_range = \<lparr>tk_start = 0, tk_end = 2\<rparr>, mask_kind = CAUSAL, row_index = 0, family_index = Some 0\<rparr>,
         \<lparr>q_range = \<lparr>tk_start = 2, tk_end = 3\<rparr>, k_range = \<lparr>tk_start = 0, tk_end = 2\<rparr>, mask_kind = FULL, row_index = 0, family_index = Some 0\<rparr>,
         \<lparr>q_range = \<lparr>tk_start = 2, tk_end = 3\<rparr>, k_range = \<lparr>tk_start = 2, tk_end = 3\<rparr>, mask_kind = CAUSAL, row_index = 0, family_index = Some 0\<rparr>,
         \<lparr>q_range = \<lparr>tk_start = 3, tk_end = 4\<rparr>, k_range = \<lparr>tk_start = 0, tk_end = 2\<rparr>, mask_kind = FULL, row_index = 0, family_index = Some 0\<rparr>,
         \<lparr>q_range = \<lparr>tk_start = 3, tk_end = 4\<rparr>, k_range = \<lparr>tk_start = 3, tk_end = 4\<rparr>, mask_kind = CAUSAL, row_index = 0, family_index = Some 0\<rparr>],
       fm_q_indices = [0,1,2,3], fm_k_indices = [0,1,2,3]\<rparr> ctx None True)
   = Inr (Some \<lparr>bm_partial = [[True, False], [False, True]], bm_full = [[False, False], [True, False]],
       bm_kv = ([1, 1], [[0, 0], [1, 0]]), bm_full_kv = ([0, 1], [[0, 0], [0, 0]]),
       bm_q = ([1, 1], [[0, 0], [1, 0]]), bm_full_q = ([1, 0], [[1, 0], [0, 0]])\<rparr>)"
  by code_simp

section \<open>The block mask keeps every allowed pair and no other\<close>

lemma wrap_bits_id: "-(2 ^ (w - 1)) \<le> x \<Longrightarrow> x < 2 ^ (w - 1) \<Longrightarrow> 0 < w \<Longrightarrow> wrap_bits w x = x"
proof -
  assume a: "-(2 ^ (w - 1)) \<le> x" "x < 2 ^ (w - 1)" "0 < w"
  have "(2::int) ^ w = 2 * 2 ^ (w - 1)" using a(3) by (cases w) simp_all
  with a have "(x + 2 ^ (w - 1)) mod 2 ^ w = x + 2 ^ (w - 1)" by (intro mod_pos_pos_trivial) auto
  then show ?thesis by (simp add: wrap_bits_def)
qed

definition int64 :: "int list \<Rightarrow> bool" where
  "int64 xs \<longleftrightarrow> (\<forall>x \<in> set xs. -(2 ^ 63) \<le> x \<and> x < 2 ^ 63)"

text \<open>Casting to the chosen width loses nothing.\<close>

lemma cast_lossless:
  assumes "xs \<in> set arrays" and "int64 xs" and "x \<in> set xs"
  shows "cast_dtype (smallest_mask_metadata_dtype arrays) x = x"
proof (cases "smallest_mask_metadata_dtype arrays")
  case Int32
  then have "\<not> (xs \<noteq> [] \<and> (Min (set xs) < -(2 ^ 31) \<or> Max (set xs) > 2 ^ 31 - 1))"
    using assms(1) by (auto simp: smallest_mask_metadata_dtype_def list_ex_iff split: if_splits)
  then have "-(2 ^ 31) \<le> Min (set xs)" "Max (set xs) \<le> 2 ^ 31 - 1" using assms(3) by auto
  moreover have "Min (set xs) \<le> x" "x \<le> Max (set xs)" using assms(3) by simp_all
  ultimately have "-(2 ^ 31) \<le> x" "x < 2 ^ 31" by linarith+
  with Int32 show ?thesis by (simp add: cast_dtype_def wrap_bits_id)
next
  case Int64
  have "-(2 ^ 63) \<le> x" "x < 2 ^ 63" using assms(2,3) by (auto simp: int64_def)
  with Int64 show ?thesis by (simp add: cast_dtype_def wrap_bits_id)
qed

lemma cast_nth:
  "xs \<in> set arrays \<Longrightarrow> int64 xs \<Longrightarrow> i < length xs \<Longrightarrow>
   cast_dtype (smallest_mask_metadata_dtype arrays) (xs ! i) = xs ! i"
  by (rule cast_lossless [OF _ _ nth_mem])

text \<open>The mask without the casts.\<close>

definition plain_allowed :: "mask_arrays \<Rightarrow> nat \<Rightarrow> nat \<Rightarrow> bool" where
  "plain_allowed a q k \<longleftrightarrow> k_abs a ! k \<le> q_abs a ! q \<and> k_enter a ! k \<le> q_enter a ! q \<and> q_enter a ! q < k_exit a ! k"

definition in_window :: "mask_arrays \<Rightarrow> int option \<Rightarrow> nat \<Rightarrow> nat \<Rightarrow> bool" where
  "in_window a window q k \<longleftrightarrow> (case window of None \<Rightarrow> True
     | Some w \<Rightarrow> k_pos a ! k \<le> q_pos a ! q \<and> q_pos a ! q - k_pos a ! k < w)"

text \<open>
  What the loader guarantees of the arrays of a stage with \<open>n\<close> queries and \<open>m\<close> keys:
  equal lengths, entries of 64 bits, and non-negative positions for real tokens.
\<close>

definition arrays_ok :: "mask_arrays \<Rightarrow> int option \<Rightarrow> nat \<Rightarrow> nat \<Rightarrow> bool" where
  "arrays_ok a window n m \<longleftrightarrow>
     length (q_abs a) = n \<and> length (q_enter a) = n \<and> length (k_abs a) = m \<and> length (k_enter a) = m \<and>
     length (k_exit a) = m \<and> int64 (q_abs a) \<and> int64 (k_abs a) \<and> int64 (q_enter a) \<and> int64 (k_enter a) \<and>
     int64 (k_exit a) \<and>
     (\<forall>q < n. (0 \<le> q_abs a ! q \<longleftrightarrow> 0 \<le> q_enter a ! q)) \<and>
     (\<forall>k < m. (0 \<le> k_abs a ! k \<and> 0 \<le> k_enter a ! k \<and> k_enter a ! k < k_exit a ! k) \<or>
        (k_abs a ! k < 0 \<and> k_enter a ! k = -1 \<and> k_exit a ! k = -1)) \<and>
     (window \<noteq> None \<longrightarrow> length (q_pos a) = n \<and> length (k_pos a) = m \<and> int64 (q_pos a) \<and> int64 (k_pos a) \<and>
        (\<forall>q < n. 0 \<le> q_abs a ! q \<longrightarrow> 0 \<le> q_pos a ! q) \<and> (\<forall>k < m. 0 \<le> k_abs a ! k \<longrightarrow> 0 \<le> k_pos a ! k))"

lemma wrap_nonneg_diff:
  assumes "0 \<le> x" and "x < 2 ^ (w - 1)" and "0 \<le> y" and "y < 2 ^ (w - 1)" and "0 < w"
  shows "wrap_bits w (x - y) = x - y"
  by (rule wrap_bits_id) (use assms in linarith)+

lemma plain_allowed_real:
  assumes "arrays_ok a window n m" and "q < n" and "k < m" and "plain_allowed a q k"
  shows "0 \<le> q_abs a ! q \<and> 0 \<le> q_enter a ! q \<and> 0 \<le> k_abs a ! k \<and> 0 \<le> k_enter a ! k \<and> k_enter a ! k < k_exit a ! k"
proof -
  have k: "(0 \<le> k_abs a ! k \<and> 0 \<le> k_enter a ! k \<and> k_enter a ! k < k_exit a ! k) \<or>
        (k_abs a ! k < 0 \<and> k_enter a ! k = -1 \<and> k_exit a ! k = -1)"
    using assms(1,3) unfolding arrays_ok_def by blast
  have q: "0 \<le> q_abs a ! q \<longleftrightarrow> 0 \<le> q_enter a ! q" using assms(1,2) unfolding arrays_ok_def by blast
  from k q assms(4) show ?thesis by (auto simp: plain_allowed_def)
qed

lemma mask_mod_plain:
  assumes ok: "arrays_ok a window n m" and q: "q < n" and k: "k < m"
  shows "mask_mod a window q k \<longleftrightarrow> plain_allowed a q k \<and> in_window a window q k"
proof -
  let ?d = "arrays_dtype a window"
  have len: "length (q_abs a) = n" "length (q_enter a) = n" "length (k_abs a) = m" "length (k_enter a) = m"
    "length (k_exit a) = m" "int64 (q_abs a)" "int64 (k_abs a)" "int64 (q_enter a)" "int64 (k_enter a)" "int64 (k_exit a)"
    using ok by (simp_all add: arrays_ok_def)
  have c: "cast_dtype ?d (q_abs a ! q) = q_abs a ! q" "cast_dtype ?d (k_abs a ! k) = k_abs a ! k"
    "cast_dtype ?d (q_enter a ! q) = q_enter a ! q" "cast_dtype ?d (k_enter a ! k) = k_enter a ! k"
    "cast_dtype ?d (k_exit a ! k) = k_exit a ! k"
    unfolding arrays_dtype_def by (rule cast_nth; simp add: len q k)+
  show ?thesis
  proof (cases window)
    case None
    with c show ?thesis by (simp add: mask_mod_def Let_def plain_allowed_def in_window_def)
  next
    case (Some w)
    have pos: "length (q_pos a) = n" "length (k_pos a) = m" "int64 (q_pos a)" "int64 (k_pos a)"
      "\<forall>q < n. 0 \<le> q_abs a ! q \<longrightarrow> 0 \<le> q_pos a ! q" "\<forall>k < m. 0 \<le> k_abs a ! k \<longrightarrow> 0 \<le> k_pos a ! k"
      using ok Some by (simp_all add: arrays_ok_def)
    have p: "cast_dtype ?d (q_pos a ! q) = q_pos a ! q" "cast_dtype ?d (k_pos a ! k) = k_pos a ! k"
      unfolding arrays_dtype_def by (rule cast_nth; simp add: pos q k Some)+
    have mm: "mask_mod a window q k \<longleftrightarrow> plain_allowed a q k \<and>
        0 \<le> cast_dtype ?d (q_pos a ! q - k_pos a ! k) \<and> cast_dtype ?d (q_pos a ! q - k_pos a ! k) < w"
      using Some c p by (auto simp: mask_mod_def Let_def plain_allowed_def)
    show ?thesis
    proof (cases "plain_allowed a q k")
      case True
      from plain_allowed_real [OF ok q k True] pos(5,6) q k
      have nn: "0 \<le> q_pos a ! q" "0 \<le> k_pos a ! k" by blast+
      have diff: "cast_dtype ?d (q_pos a ! q - k_pos a ! k) = q_pos a ! q - k_pos a ! k"
      proof (cases ?d)
        case Int32
        have "cast_dtype Int32 (q_pos a ! q) \<le> 2 ^ 31 - 1" "cast_dtype Int32 (k_pos a ! k) \<le> 2 ^ 31 - 1"
          by (simp_all add: cast_dtype_def wrap_bits_def)
        with p Int32 have "q_pos a ! q \<le> 2 ^ 31 - 1" "k_pos a ! k \<le> 2 ^ 31 - 1" by simp_all
        with nn Int32 show ?thesis by (simp add: cast_dtype_def wrap_nonneg_diff)
      next
        case Int64
        have "q_pos a ! q < 2 ^ 63" "k_pos a ! k < 2 ^ 63"
          using pos(1-4) q k by (auto simp: int64_def)
        with nn Int64 show ?thesis by (simp add: cast_dtype_def wrap_nonneg_diff)
      qed
      with mm Some True show ?thesis by (auto simp: in_window_def)
    next
      case False
      with mm show ?thesis by simp
    qed
  qed
qed

section \<open>Refinement is exact\<close>

lemma least_le: "x \<in> set xs \<Longrightarrow> least xs \<le> x"
  by (simp add: least_def)

lemma greatest_ge: "x \<in> set xs \<Longrightarrow> x \<le> greatest xs"
  by (simp add: greatest_def)

text \<open>The pair test of \<open>plain_allowed\<close> on the tokens of two blocks.\<close>

definition token_allowed :: "int \<times> int \<Rightarrow> int \<times> int \<times> int \<Rightarrow> bool" where
  "token_allowed q k \<longleftrightarrow> q_ok q \<and> k_ok k \<and> fst k \<le> fst q \<and> fst (snd k) \<le> snd q \<and> snd q < snd (snd k)"

lemma map_if_mem: "x \<in> set xs \<Longrightarrow> p x \<Longrightarrow> y = f x \<Longrightarrow> y \<in> set (map (\<lambda>t. if p t then f t else d) xs)"
  by (auto intro: rev_image_eqI)

lemma safe_full_sound:
  assumes "safe_full qs ks" and "q \<in> set qs" and "k \<in> set ks"
  shows "token_allowed q k"
proof -
  have ok: "q_ok q" "k_ok k" using assms by (auto simp: safe_full_def list_all_iff)
  let ?qa = "map (\<lambda>t. if q_ok t then fst t else 2 ^ 63 - 1) qs"
  let ?ka = "map (\<lambda>t. if k_ok t then fst t else -(2 ^ 63)) ks"
  let ?ke = "map (\<lambda>t. if k_ok t then fst (snd t) else -1) ks"
  let ?qe = "map (\<lambda>t. if q_ok t then snd t else 2 ^ 63 - 1) qs"
  let ?qm = "map (\<lambda>t. if q_ok t then snd t else -1) qs"
  let ?kx = "map (\<lambda>t. if k_ok t then snd (snd t) else 2 ^ 63 - 1) ks"
  have "fst q \<in> set ?qa" "snd q \<in> set ?qe" "snd q \<in> set ?qm" "fst k \<in> set ?ka" "fst (snd k) \<in> set ?ke"
    "snd (snd k) \<in> set ?kx"
    by (rule map_if_mem; simp add: assms(2,3) ok)+
  then have "least ?qa \<le> fst q" "least ?qe \<le> snd q" "snd q \<le> greatest ?qm" "fst k \<le> greatest ?ka"
    "fst (snd k) \<le> greatest ?ke" "least ?kx \<le> snd (snd k)"
    by (simp_all only: least_le greatest_ge)
  moreover have "greatest ?ka \<le> least ?qa" "greatest ?ke \<le> least ?qe" "greatest ?qm < least ?kx"
    using assms(1) by (simp_all add: safe_full_def)
  ultimately show ?thesis using ok by (simp add: token_allowed_def)
qed

lemma first_interval_of:
  assumes "single_interval ks" and "k \<in> set ks" and "k_ok k"
  shows "snd k = first_interval ks"
  using assms by (auto simp: single_interval_def list_all_iff)

lemma single_full_sound:
  assumes "single_interval ks" and "single_is_full qs ks" and "q \<in> set qs" and "k \<in> set ks"
  shows "token_allowed q k"
proof -
  obtain enter ex where i: "first_interval ks = (enter, ex)" by fastforce
  have ok: "q_ok q" "k_ok k" using assms by (auto simp: single_is_full_def i list_all_iff)
  have k: "snd k = (enter, ex)" using first_interval_of [OF assms(1,4) ok(2)] i by simp
  let ?qa = "map (\<lambda>t. if q_ok t then fst t else 2 ^ 63 - 1) qs"
  let ?ka = "map (\<lambda>t. if k_ok t then fst t else -(2 ^ 63)) ks"
  let ?qe = "map (\<lambda>t. if q_ok t then snd t else 2 ^ 63 - 1) qs"
  let ?qm = "map (\<lambda>t. if q_ok t then snd t else -1) qs"
  have "fst q \<in> set ?qa" "snd q \<in> set ?qe" "snd q \<in> set ?qm" "fst k \<in> set ?ka"
    by (rule map_if_mem; simp add: assms(3,4) ok)+
  then have "least ?qa \<le> fst q" "least ?qe \<le> snd q" "snd q \<le> greatest ?qm" "fst k \<le> greatest ?ka"
    by (simp_all only: least_le greatest_ge)
  moreover have "greatest ?ka \<le> least ?qa" "enter \<le> least ?qe" "greatest ?qm < ex"
    using assms(2) by (simp_all add: single_is_full_def i)
  ultimately show ?thesis using ok k by (simp add: token_allowed_def)
qed

lemma single_any_complete:
  assumes "single_interval ks" and "q \<in> set qs" and "k \<in> set ks" and "token_allowed q k"
  shows "single_has_any qs ks"
proof -
  obtain enter ex where i: "first_interval ks = (enter, ex)" by fastforce
  have t: "q_ok q" "k_ok k" "fst k \<le> fst q" "fst (snd k) \<le> snd q" "snd q < snd (snd k)"
    using assms(4) by (simp_all add: token_allowed_def)
  have k: "snd k = (enter, ex)" using first_interval_of [OF assms(1,3) t(2)] i by simp
  let ?qa = "map (\<lambda>t. if q_ok t \<and> snd t \<ge> enter \<and> snd t < ex then fst t else -(2 ^ 63)) qs"
  let ?ka = "map (\<lambda>t. if k_ok t then fst t else 2 ^ 63 - 1) ks"
  have "fst q \<in> set ?qa" "fst k \<in> set ?ka"
    using t k by (intro map_if_mem; simp add: assms(2,3))+
  then have "fst q \<le> greatest ?qa" "least ?ka \<le> fst k" by (simp_all only: least_le greatest_ge)
  with t(3) show ?thesis by (simp add: single_has_any_def i)
qed

lemma note_min_new: "\<exists>u \<le> v. (key, u) \<in> set (note_min key v d)"
proof (induction key v d rule: note_min.induct)
  case (2 key v key' v' d)
  show ?case
  proof (cases "key' = key")
    case True
    then show ?thesis by (intro exI [of _ "min v' v"]) simp
  next
    case False
    with 2 obtain u where "u \<le> v" "(key, u) \<in> set (note_min key v d)" by blast
    with False show ?thesis by auto
  qed
qed auto

lemma note_min_old: "(k, w) \<in> set d \<Longrightarrow> \<exists>u \<le> w. (k, u) \<in> set (note_min key v d)"
proof (induction key v d rule: note_min.induct)
  case (2 key v key' v' d)
  show ?case
  proof (cases "(k, w) \<in> set d")
    case True
    show ?thesis
    proof (cases "key' = key")
      case True
      with \<open>(k, w) \<in> set d\<close> show ?thesis by auto
    next
      case False
      with 2 True obtain u where "u \<le> w" "(k, u) \<in> set (note_min key v d)" by blast
      with False show ?thesis by auto
    qed
  next
    case False
    with "2.prems" have "k = key'" "w = v'" by auto
    then show ?thesis by (cases "key' = key") (auto intro: exI [of _ "min v' v"])
  qed
qed simp

lemma k_intervals_complete:
  "k \<in> set ks \<Longrightarrow> k_ok k \<Longrightarrow> \<exists>u \<le> fst k. (snd k, u) \<in> set (k_intervals ks)"
proof -
  have "k \<in> set xs \<Longrightarrow> \<exists>u \<le> fst k. (snd k, u) \<in> set (foldl (\<lambda>d t. note_min (snd t) (fst t) d) [] xs)" for xs :: "(int \<times> int \<times> int) list"
  proof (induction xs rule: rev_induct)
    case (snoc t xs)
    show ?case
    proof (cases "k \<in> set xs")
      case True
      with snoc obtain u where "u \<le> fst k" "(snd k, u) \<in> set (foldl (\<lambda>d t. note_min (snd t) (fst t) d) [] xs)" by blast
      then show ?thesis
        using note_min_old [of "snd k" u "foldl (\<lambda>d t. note_min (snd t) (fst t) d) [] xs" "snd t" "fst t"]
        by (auto intro: order_trans)
    next
      case False
      with snoc.prems have "k = t" by simp
      then show ?thesis using note_min_new [of "fst k" "snd k"] by simp
    qed
  qed simp
  then show "k \<in> set ks \<Longrightarrow> k_ok k \<Longrightarrow> ?thesis" by (simp add: k_intervals_def)
qed

lemma multi_any_complete:
  assumes "q \<in> set qs" and "k \<in> set ks" and "token_allowed q k"
  shows "multi_has_any qs ks"
proof -
  have t: "q_ok q" "k_ok k" "fst k \<le> fst q" "fst (snd k) \<le> snd q" "snd q < snd (snd k)"
    using assms(3) by (simp_all add: token_allowed_def)
  obtain u where u: "u \<le> fst k" "(snd k, u) \<in> set (k_intervals ks)"
    using k_intervals_complete [OF assms(2) t(2)] by blast
  obtain enter ex where i: "snd k = (enter, ex)" by fastforce
  let ?inside = "filter (\<lambda>t. q_ok t \<and> snd t \<ge> enter \<and> snd t < ex) qs"
  have mem: "q \<in> set ?inside" using assms(1) t i by simp
  then have "fst q \<le> greatest (map fst ?inside)" by (intro greatest_ge) auto
  with mem u t(3) have *: "?inside \<noteq> [] \<and> greatest (map fst ?inside) \<ge> u" by (auto simp del: set_filter)
  have "list_ex (\<lambda>((enter, ex), min_abs).
       let inside = filter (\<lambda>t. q_ok t \<and> snd t \<ge> enter \<and> snd t < ex) qs
       in inside \<noteq> [] \<and> greatest (map fst inside) \<ge> min_abs) (k_intervals ks)"
    unfolding list_ex_iff using u(2) * i by (intro bexI [of _ "((enter, ex), u)"]) (simp_all add: Let_def)
  moreover have "list_ex q_ok qs" using assms(1) t(1) by (auto simp: list_ex_iff)
  ultimately show ?thesis by (simp add: multi_has_any_def)
qed

lemma refine_pair_sound:
  assumes "refine_pair qs ks (partial, full) = (partial', full')" and "\<not> (partial \<and> full)"
  shows "full' \<Longrightarrow> q \<in> set qs \<Longrightarrow> k \<in> set ks \<Longrightarrow> token_allowed q k"
    and "partial \<or> full \<Longrightarrow> q \<in> set qs \<Longrightarrow> k \<in> set ks \<Longrightarrow> token_allowed q k \<Longrightarrow> partial' \<or> full'"
    and "\<not> (partial' \<and> full')"
proof -
  have cases: "(\<not> (partial \<or> (full \<and> \<not> safe_full qs ks)) \<and> partial' = partial \<and> full' = full) \<or>
      (single_interval ks \<and> partial' = (single_has_any qs ks \<and> \<not> single_is_full qs ks) \<and> full' = single_is_full qs ks) \<or>
      (partial' = (multi_has_any qs ks \<and> \<not> multi_is_full qs ks) \<and> full' = multi_is_full qs ks)"
    using assms(1) by (auto simp: refine_pair_def split: if_splits)
  show "full' \<Longrightarrow> q \<in> set qs \<Longrightarrow> k \<in> set ks \<Longrightarrow> token_allowed q k"
    using cases safe_full_sound [of qs ks q k] single_full_sound [of ks qs q k] assms(2)
    by (auto simp: multi_is_full_def)
  show "partial \<or> full \<Longrightarrow> q \<in> set qs \<Longrightarrow> k \<in> set ks \<Longrightarrow> token_allowed q k \<Longrightarrow> partial' \<or> full'"
    using cases single_any_complete [of ks q qs k] multi_any_complete [of q qs k ks] by auto
  show "\<not> (partial' \<and> full')" using cases assms(2) by auto
qed

section \<open>Classification covers every allowed pair\<close>

lemma strictly_increasing_mono:
  assumes "is_strictly_increasing xs" and "i \<le> j" and "j < length xs"
  shows "xs ! i \<le> xs ! j"
  using assms(2,3)
proof (induction j rule: dec_induct)
  case (step j)
  then have "Suc j \<in> set [1..<length xs]" by simp
  with assms(1) have "xs ! (Suc j - 1) < xs ! Suc j" unfolding is_strictly_increasing_def list_all_iff by blast
  with step show ?case by simp
qed simp

lemma filter_nonneg_prefix:
  assumes "\<forall>i < v. 0 \<le> xs ! i" and "\<forall>i < length xs. v \<le> i \<longrightarrow> xs ! i < (0 :: int)" and "v \<le> length xs"
  shows "filter (\<lambda>x. 0 \<le> x) xs = take v xs"
proof -
  have "filter (\<lambda>x. 0 \<le> x) (take v xs) = take v xs"
    using assms(1,3) by (auto simp: filter_id_conv in_set_conv_nth)
  moreover have "filter (\<lambda>x. 0 \<le> x) (drop v xs) = []"
    unfolding filter_empty_conv
  proof
    fix y assume "y \<in> set (drop v xs)"
    then obtain i where "i < length (drop v xs)" "y = drop v xs ! i" by (metis in_set_conv_nth)
    then have "v + i < length xs" "y = xs ! (v + i)" by simp_all
    with assms(2) have "y < 0" by (metis le_add1)
    then show "\<not> 0 \<le> y" by simp
  qed
  ultimately have "filter (\<lambda>x. 0 \<le> x) (take v xs @ drop v xs) = take v xs" unfolding filter_append by simp
  then show ?thesis by simp
qed

text \<open>One axis of a validated stage: \<open>v\<close> real tokens, then padding.\<close>

definition axis_ok :: "int option \<Rightarrow> int list \<Rightarrow> int list \<Rightarrow> nat \<Rightarrow> nat \<Rightarrow> bool" where
  "axis_ok window xs pos v n \<longleftrightarrow> length xs = n \<and> v \<le> n \<and> (\<forall>i < v. 0 \<le> xs ! i) \<and>
     (\<forall>i < n. v \<le> i \<longrightarrow> xs ! i < 0) \<and>
     (window \<noteq> None \<longrightarrow> length pos = n \<and> int64 pos \<and> (\<forall>i < v. 0 \<le> pos ! i))"

lemma slice_mem: "s \<le> x \<Longrightarrow> x < e \<Longrightarrow> x < length xs \<Longrightarrow> xs ! x \<in> set (slice xs s e)"
proof -
  assume a: "s \<le> x" "x < e" "x < length xs"
  then have "slice xs s e ! (x - s) = xs ! x" "x - s < length (slice xs s e)"
    by (simp_all add: slice_def diff_less_mono)
  then show ?thesis by (metis nth_mem)
qed

lemma slice_memD: "y \<in> set (slice xs s e) \<Longrightarrow> \<exists>x. s \<le> x \<and> x < e \<and> x < length xs \<and> y = xs ! x"
proof -
  assume "y \<in> set (slice xs s e)"
  then obtain i where i: "i < length (slice xs s e)" "y = slice xs s e ! i" by (auto simp: in_set_conv_nth)
  then have "s + i < e" "s + i < length xs" "y = xs ! (s + i)" by (auto simp: slice_def)
  then show ?thesis by (intro exI [of _ "s + i"]) simp
qed

lemma block_edge_facts:
  assumes edge: "block_edge block len s e kind window xs pos i = Inr E"
    and ok: "axis_ok window xs pos v len" and e: "e \<le> v"
  defines "os \<equiv> max (i * block) s" and "oe \<equiv> min (min ((i + 1) * block) len) e"
  shows "kind = CAUSAL \<Longrightarrow> os \<le> x \<Longrightarrow> x < oe \<Longrightarrow> fst (edge_abs E) \<le> xs ! x \<and> xs ! x \<le> snd (edge_abs E)"
    and "window \<noteq> None \<Longrightarrow> os \<le> x \<Longrightarrow> x < oe \<Longrightarrow> fst (edge_pos E) \<le> pos ! x \<and> pos ! x \<le> snd (edge_pos E)"
    and "window \<noteq> None \<Longrightarrow> 0 \<le> fst (edge_pos E) \<and> fst (edge_pos E) < 2 ^ 63 \<and> 0 \<le> snd (edge_pos E) \<and> snd (edge_pos E) < 2 ^ 63"
    and "edge_covered E \<longleftrightarrow> os = i * block \<and> oe = (i + 1) * block"
proof -
  note defs = os_def [symmetric] oe_def [symmetric]
  have E: "edge_covered E \<longleftrightarrow> os = i * block \<and> oe = (i + 1) * block"
    "kind \<noteq> FULL \<Longrightarrow> (if is_strictly_increasing (filter (\<lambda>x. x \<ge> 0) xs) then sorted_min_max xs os oe
        else block_min_max xs os oe) = Inr (edge_abs E)"
    "window \<noteq> None \<Longrightarrow> block_min_max pos os oe = Inr (edge_pos E)"
    using edge unfolding block_edge_def Let_def defs
    by (auto simp: result_iffs split: if_splits)
  show "edge_covered E \<longleftrightarrow> os = i * block \<and> oe = (i + 1) * block" by (rule E(1))
  have oe: "oe \<le> v" "v \<le> len" "length xs = len" using e ok by (auto simp: oe_def axis_ok_def)
  have minmax: "fst p \<le> ys ! x \<and> ys ! x \<le> snd p"
    if "block_min_max ys os oe = Inr p" "os \<le> x" "x < oe" "oe \<le> length ys" for ys p x
    using that slice_mem [of os x oe ys] by (auto simp: block_min_max_def Let_def split: if_splits)
  show "kind = CAUSAL \<Longrightarrow> os \<le> x \<Longrightarrow> x < oe \<Longrightarrow> fst (edge_abs E) \<le> xs ! x \<and> xs ! x \<le> snd (edge_abs E)"
  proof -
    assume kind: "kind = CAUSAL" and x: "os \<le> x" "x < oe"
    show ?thesis
    proof (cases "is_strictly_increasing (filter (\<lambda>x. x \<ge> 0) xs)")
      case True
      have f: "filter (\<lambda>x. x \<ge> 0) xs = take v xs"
        using ok by (intro filter_nonneg_prefix) (auto simp: axis_ok_def)
      have E2: "edge_abs E = (xs ! os, xs ! (oe - 1))"
        using E(2) kind True by (auto simp: sorted_min_max_def split: if_splits)
      have "take v xs ! os \<le> take v xs ! x" "take v xs ! x \<le> take v xs ! (oe - 1)"
        by (rule strictly_increasing_mono [OF True [unfolded f]]; use oe x in simp)+
      with E2 oe x show ?thesis by simp
    next
      case False
      with E(2) kind minmax [OF _ x] oe show ?thesis by simp
    qed
  qed
  show "window \<noteq> None \<Longrightarrow> os \<le> x \<Longrightarrow> x < oe \<Longrightarrow> fst (edge_pos E) \<le> pos ! x \<and> pos ! x \<le> snd (edge_pos E)"
    using minmax [OF E(3)] ok oe by (simp add: axis_ok_def)
  show "window \<noteq> None \<Longrightarrow> 0 \<le> fst (edge_pos E) \<and> fst (edge_pos E) < 2 ^ 63 \<and> 0 \<le> snd (edge_pos E) \<and> snd (edge_pos E) < 2 ^ 63"
  proof -
    assume w: "window \<noteq> None"
    let ?b = "slice pos os oe"
    have b: "?b \<noteq> []" "edge_pos E = (Min (set ?b), Max (set ?b))"
      using E(3) [OF w] by (auto simp: block_min_max_def Let_def split: if_splits)
    have pos: "length pos = len" "int64 pos" "\<forall>i < v. 0 \<le> pos ! i" using ok w by (auto simp: axis_ok_def)
    have range: "0 \<le> y \<and> y < 2 ^ 63" if "y \<in> set ?b" for y
    proof -
      obtain x where x: "os \<le> x" "x < oe" "x < length pos" "y = pos ! x" using slice_memD [OF \<open>y \<in> set ?b\<close>] by blast
      with oe pos(3) have "0 \<le> y" by auto
      moreover have "y < 2 ^ 63" using x pos(2) unfolding int64_def by (metis nth_mem)
      ultimately show ?thesis by simp
    qed
    have "Min (set ?b) \<in> set ?b" "Max (set ?b) \<in> set ?b" using b(1) by simp_all
    with range b(2) show ?thesis by (metis fst_conv snd_conv)
  qed
qed

lemma div_block: "0 < b \<Longrightarrow> x div b * b \<le> x \<and> x < (x div b + 1) * (b :: nat)"
  by (metis dividend_less_div_times div_times_less_eq_dividend add.commute mult_Suc plus_1_eq_Suc)

lemma ceil_div_less: "0 < b \<Longrightarrow> x < e \<Longrightarrow> x div b < ceil_div e b"
proof -
  assume "0 < b" "x < e"
  then have "x + b \<le> e + b - 1" by simp
  then have "(x + b) div b \<le> (e + b - 1) div b" by (rule div_le_mono)
  moreover have "(x + b) div b = x div b + 1" using div_add_self2 [of b x] \<open>0 < b\<close> by simp
  ultimately show ?thesis unfolding ceil_div_def by linarith
qed

definition slice_in :: "flex_mask_spec \<Rightarrow> nat \<Rightarrow> nat \<Rightarrow> attn_slice \<Rightarrow> bool" where
  "slice_in spec qv kv s \<longleftrightarrow> tk_end (q_range s) \<le> fm_q_len spec \<and> tk_end (k_range s) \<le> fm_k_len spec \<and>
     tk_end (q_range s) \<le> qv \<and> tk_end (k_range s) \<le> kv"

definition covers_pair :: "attn_slice \<Rightarrow> nat \<Rightarrow> nat \<Rightarrow> bool" where
  "covers_pair s q k \<longleftrightarrow> in_range q (q_range s) \<and> in_range k (k_range s)"

definition block_inv :: "flex_mask_spec \<Rightarrow> mask_arrays \<Rightarrow> int option \<Rightarrow> nat \<Rightarrow> nat \<Rightarrow> attn_slice set \<Rightarrow> block_state \<Rightarrow> bool" where
  "block_inv spec a window qb kb S st \<longleftrightarrow>
     (\<forall>q < fm_q_len spec. \<forall>k < fm_k_len spec. (\<exists>s \<in> S. covers_pair s q k) \<and> plain_allowed a q k \<and> in_window a window q k
        \<longrightarrow> partial_blocks st (q div qb) (k div kb)) \<and>
     (\<forall>q < fm_q_len spec. \<forall>k < fm_k_len spec. full_blocks st (q div qb) (k div kb) \<longrightarrow> in_window a window q k)"

lemma classify_slice_inv:
  assumes step: "classify_slice spec a window qb kb s st = Inr st'"
    and inv: "block_inv spec a window qb kb S st" and pos: "0 < qb" "0 < kb"
    and qok: "axis_ok window (q_abs a) (q_pos a) qv (fm_q_len spec)"
    and kok: "axis_ok window (k_abs a) (k_pos a) kv (fm_k_len spec)"
    and s: "slice_in spec qv kv s"
  shows "block_inv spec a window qb kb (insert s S) st'"
proof -
  let ?qs = "tk_start (q_range s)" and ?qe = "tk_end (q_range s)"
  let ?ks = "tk_start (k_range s)" and ?ke = "tk_end (k_range s)"
  have ends: "min (fm_q_len spec) ?qe = ?qe" "min (fm_k_len spec) ?ke = ?ke" "?qe \<le> qv" "?ke \<le> kv"
    using s by (auto simp: slice_in_def)
  let ?ql = "?qs div qb" and ?qh = "ceil_div ?qe qb" and ?kl = "?ks div kb" and ?kh = "ceil_div ?ke kb"
  have inside: "?ql \<le> q div qb \<and> q div qb < ?qh \<and> ?kl \<le> k div kb \<and> k div kb < ?kh" if "covers_pair s q k" for q k
    using that pos ceil_div_less by (auto simp: covers_pair_def in_range_def div_le_mono)
  show ?thesis
  proof (cases "?qh \<le> ?ql \<or> ?kh \<le> ?kl")
    case True
    then have "st' = st" using step by (simp add: classify_slice_def Let_def ends(1,2))
    moreover have "\<not> covers_pair s q k" for q k using inside [of q k] True by auto
    ultimately show ?thesis using inv by (simp add: block_inv_def)
  next
    case False
    then obtain qs ks where
      qs: "mapE (block_edge qb (fm_q_len spec) ?qs ?qe (mask_kind s) window (q_abs a) (q_pos a)) [?ql..<?qh] = Inr qs"
      and ks: "mapE (block_edge kb (fm_k_len spec) ?ks ?ke (mask_kind s) window (k_abs a) (k_pos a)) [?kl..<?kh] = Inr ks"
      and st': "partial_blocks st' = (\<lambda>i j. partial_blocks st i j \<or> (?ql \<le> i \<and> i < ?qh \<and> ?kl \<le> j \<and> j < ?kh) \<and>
          pair_has_any (mask_kind s) window (qs ! (i - ?ql)) (ks ! (j - ?kl)))"
      "full_blocks st' = (\<lambda>i j. full_blocks st i j \<or> (?ql \<le> i \<and> i < ?qh \<and> ?kl \<le> j \<and> j < ?kh) \<and>
          pair_is_full (mask_kind s) window (qs ! (i - ?ql)) (ks ! (j - ?kl)))"
      using step by (auto simp: classify_slice_def Let_def ends(1,2) result_iffs)
    have qedge: "block_edge qb (fm_q_len spec) ?qs ?qe (mask_kind s) window (q_abs a) (q_pos a) i = Inr (qs ! (i - ?ql))"
      if "?ql \<le> i" "i < ?qh" for i
      using qs that by (auto simp: mapE_Inr_iff list_all2_conv_all_nth dest: spec [of _ "i - ?ql"])
    have kedge: "block_edge kb (fm_k_len spec) ?ks ?ke (mask_kind s) window (k_abs a) (k_pos a) j = Inr (ks ! (j - ?kl))"
      if "?kl \<le> j" "j < ?kh" for j
      using ks that by (auto simp: mapE_Inr_iff list_all2_conv_all_nth dest: spec [of _ "j - ?kl"])
    show ?thesis
      unfolding block_inv_def
    proof (intro conjI allI impI)
      fix q k assume q: "q < fm_q_len spec" and k: "k < fm_k_len spec"
        and c: "(\<exists>t \<in> insert s S. covers_pair t q k) \<and> plain_allowed a q k \<and> in_window a window q k"
      show "partial_blocks st' (q div qb) (k div kb)"
      proof (cases "covers_pair s q k")
        case False
        with c inv q k show ?thesis by (auto simp: block_inv_def st'(1))
      next
        case True
        note ins = inside [OF True]
        let ?Q = "qs ! (q div qb - ?ql)" and ?K = "ks ! (k div kb - ?kl)"
        have oq: "max (q div qb * qb) ?qs \<le> q" "q < min (min ((q div qb + 1) * qb) (fm_q_len spec)) ?qe"
          using True q div_block [OF pos(1), of q] by (auto simp: covers_pair_def in_range_def)
        have okk: "max (k div kb * kb) ?ks \<le> k" "k < min (min ((k div kb + 1) * kb) (fm_k_len spec)) ?ke"
          using True k div_block [OF pos(2), of k] by (auto simp: covers_pair_def in_range_def)
        have ins4: "?ql \<le> q div qb" "q div qb < ?qh" "?kl \<le> k div kb" "k div kb < ?kh" using ins by blast+
        note Q = block_edge_facts [OF qedge [OF ins4(1,2)] qok ends(3)]
        note K = block_edge_facts [OF kedge [OF ins4(3,4)] kok ends(4)]
        have "mask_kind s = FULL \<or> fst (edge_abs ?K) \<le> snd (edge_abs ?Q)"
        proof (cases "mask_kind s")
          case CAUSAL
          have "k_abs a ! k \<le> q_abs a ! q" using c by (simp add: plain_allowed_def)
          with Q(1) [OF CAUSAL oq] K(1) [OF CAUSAL okk] show ?thesis by force
        qed simp
        moreover have "snd (edge_pos ?Q) \<ge> fst (edge_pos ?K) \<and> wrap_bits 64 (fst (edge_pos ?Q) - snd (edge_pos ?K)) < w"
          if w: "window = Some w" for w
        proof -
          have wn: "window \<noteq> None" using w by simp
          have "wrap_bits 64 (fst (edge_pos ?Q) - snd (edge_pos ?K)) = fst (edge_pos ?Q) - snd (edge_pos ?K)"
            using Q(3) [OF wn] K(3) [OF wn] by (intro wrap_nonneg_diff) auto
          moreover have "k_pos a ! k \<le> q_pos a ! q \<and> q_pos a ! q - k_pos a ! k < w"
            using c w by (simp add: in_window_def)
          ultimately show ?thesis
            using Q(2) [OF wn oq] K(2) [OF wn okk] by force
        qed
        ultimately have "pair_has_any (mask_kind s) window ?Q ?K"
          by (cases window) (auto simp: pair_has_any_def)
        with ins show ?thesis by (simp add: st'(1))
      qed
    next
      fix q k assume q: "q < fm_q_len spec" and k: "k < fm_k_len spec"
        and full: "full_blocks st' (q div qb) (k div kb)"
      show "in_window a window q k"
      proof (cases "full_blocks st (q div qb) (k div kb)")
        case True
        with inv q k show ?thesis by (auto simp: block_inv_def)
      next
        case False
        let ?Q = "qs ! (q div qb - ?ql)" and ?K = "ks ! (k div kb - ?kl)"
        have ins: "?ql \<le> q div qb" "q div qb < ?qh" "?kl \<le> k div kb" "k div kb < ?kh"
          and pf: "pair_is_full (mask_kind s) window ?Q ?K"
          using full False by (auto simp: st'(2))
        show ?thesis
        proof (cases window)
          case (Some w)
          then have wn: "window \<noteq> None" by simp
          note Q = block_edge_facts [OF qedge [OF ins(1,2)] qok ends(3)]
          note K = block_edge_facts [OF kedge [OF ins(3,4)] kok ends(4)]
          have cov: "edge_covered ?Q" "edge_covered ?K" using pf by (auto simp: pair_is_full_def)
          have oq: "max (q div qb * qb) ?qs \<le> q" "q < min (min ((q div qb + 1) * qb) (fm_q_len spec)) ?qe"
            using cov(1) [unfolded Q(4)] div_block [OF pos(1), of q] by simp_all
          have okk: "max (k div kb * kb) ?ks \<le> k" "k < min (min ((k div kb + 1) * kb) (fm_k_len spec)) ?ke"
            using cov(2) [unfolded K(4)] div_block [OF pos(2), of k] by simp_all
          have "wrap_bits 64 (snd (edge_pos ?Q) - fst (edge_pos ?K)) = snd (edge_pos ?Q) - fst (edge_pos ?K)"
            using Q(3) [OF wn] K(3) [OF wn] by (intro wrap_nonneg_diff) auto
          then have "fst (edge_pos ?Q) \<ge> snd (edge_pos ?K)" "snd (edge_pos ?Q) - fst (edge_pos ?K) < w"
            using pf Some by (auto simp: pair_is_full_def)
          with Q(2) [OF wn oq] K(2) [OF wn okk] Some show ?thesis by (simp add: in_window_def)
        qed (simp add: in_window_def)
      qed
    qed
  qed
qed

lemma classify_slices_inv:
  assumes "foldE (classify_slice spec a window qb kb) ss st = Inr st'"
    and "block_inv spec a window qb kb S st" and "0 < qb" "0 < kb"
    and "axis_ok window (q_abs a) (q_pos a) qv (fm_q_len spec)"
    and "axis_ok window (k_abs a) (k_pos a) kv (fm_k_len spec)"
    and "\<forall>s \<in> set ss. slice_in spec qv kv s"
  shows "block_inv spec a window qb kb (S \<union> set ss) st'"
  using assms(1,2,7)
proof (induction ss arbitrary: st S)
  case (Cons s ss)
  then obtain st1 where st1: "classify_slice spec a window qb kb s st = Inr st1"
    "foldE (classify_slice spec a window qb kb) ss st1 = Inr st'" by (auto simp: bindE_Inr_iff)
  have "block_inv spec a window qb kb (insert s S) st1"
    using Cons.prems by (intro classify_slice_inv [OF st1(1) _ assms(3-6)]) auto
  from Cons.IH [OF st1(2) this] Cons.prems(3) show ?case by simp
qed simp

section \<open>From a validated stage to the effective mask\<close>

lemma validate_exact_indices_sound:
  assumes "validate_exact_indices xs source = Inr v"
  shows "v \<le> length xs \<and> (\<forall>i < v. 0 \<le> xs ! i \<and> xs ! i < int source) \<and> (\<forall>i < length xs. v \<le> i \<longrightarrow> xs ! i < 0)"
proof -
  let ?kept = "takeWhile (\<lambda>i. i \<ge> 0) xs"
  have v: "v = length ?kept" and tail: "list_all (\<lambda>i. i < 0) (drop (length ?kept) xs)"
    and bound: "?kept \<noteq> [] \<Longrightarrow> Max (set ?kept) < int source"
    using assms by (auto simp: validate_exact_indices_def Let_def result_iffs split: if_splits)
  have le: "length ?kept \<le> length xs" by (rule length_takeWhile_le)
  have kept: "?kept ! i = xs ! i" if "i < length ?kept" for i using that by (rule takeWhile_nth)
  have pre: "0 \<le> xs ! i \<and> xs ! i < int source" if i: "i < v" for i
  proof -
    have m: "xs ! i \<in> set ?kept" using i v kept by (metis nth_mem)
    then have "0 \<le> xs ! i" by (auto dest: set_takeWhileD)
    moreover have "xs ! i \<le> Max (set ?kept)" using m by simp
    moreover have "?kept \<noteq> []" using i v by auto
    ultimately show ?thesis using bound by linarith
  qed
  have post: "xs ! i < 0" if "i < length xs" "v \<le> i" for i
  proof -
    have "drop (length ?kept) xs ! (i - v) = xs ! i" "i - v < length (drop (length ?kept) xs)"
      using that v by simp_all
    with tail show ?thesis unfolding list_all_length by metis
  qed
  show ?thesis using v le pre post by blast
qed

lemma select_with_invalid_nth:
  assumes "select_with_invalid values indices dflt = Inr ys"
  shows "length ys = length indices"
    and "i < length indices \<Longrightarrow> ys ! i = (if indices ! i < 0 then dflt else values ! nat (indices ! i))"
    and "i < length indices \<Longrightarrow> 0 \<le> indices ! i \<Longrightarrow> nat (indices ! i) < length values"
proof -
  have all: "length ys = length indices \<and> (\<forall>i < length indices. (if indices ! i < 0 then Inr dflt
      else if nat (indices ! i) < length values then Inr (values ! nat (indices ! i)) else Inl IndexError) = Inr (ys ! i))"
    using assms unfolding select_with_invalid_def mapE_Inr_iff list_all2_conv_all_nth by metis
  then show "length ys = length indices" by blast
  show "i < length indices \<Longrightarrow> ys ! i = (if indices ! i < 0 then dflt else values ! nat (indices ! i))"
    and "i < length indices \<Longrightarrow> 0 \<le> indices ! i \<Longrightarrow> nat (indices ! i) < length values"
    using all by (auto split: if_splits dest!: spec [of _ i])
qed

definition context_ok :: "mask_context \<Rightarrow> bool" where
  "context_ok ctx \<longleftrightarrow> int (source_len ctx) < 2 ^ 62 \<and>
     length (group_enter ctx) = source_len ctx \<and> length (group_exit ctx) = source_len ctx \<and>
     (\<forall>a < source_len ctx. 0 \<le> group_enter ctx ! a \<and> group_enter ctx ! a < group_exit ctx ! a \<and>
        group_exit ctx ! a \<le> int (source_len ctx) + 1) \<and>
     (\<forall>pos. ctx_input_pos ctx = Some pos \<longrightarrow> length pos = source_len ctx \<and> (\<forall>x \<in> set pos. 0 \<le> x \<and> x < 2 ^ 63))"

lemma int64I: "(\<And>i. i < length xs \<Longrightarrow> -(2 ^ 63) \<le> xs ! i \<and> xs ! i < 2 ^ 63) \<Longrightarrow> int64 xs"
  unfolding int64_def by (metis in_set_conv_nth)

lemma selected_labels:
  assumes sel: "select_with_invalid vs xs (-1) = Inr ys" and src: "int source < 2 ^ 62"
    and vs: "\<And>a. a < source \<Longrightarrow> 0 \<le> vs ! a \<and> vs ! a \<le> int source + 1"
    and xs: "\<And>i. i < length xs \<Longrightarrow> 0 \<le> xs ! i \<Longrightarrow> xs ! i < int source"
  shows "int64 ys" and "i < length xs \<Longrightarrow> (xs ! i < 0 \<and> ys ! i = -1) \<or>
    (0 \<le> xs ! i \<and> nat (xs ! i) < source \<and> ys ! i = vs ! nat (xs ! i))"
proof -
  have nth: "(xs ! i < 0 \<and> ys ! i = -1) \<or> (0 \<le> xs ! i \<and> nat (xs ! i) < source \<and> ys ! i = vs ! nat (xs ! i))"
    if i: "i < length xs" for i
  proof (cases "xs ! i < 0")
    case True
    with select_with_invalid_nth(2) [OF sel i] show ?thesis by simp
  next
    case False
    with xs [OF i] have "nat (xs ! i) < source" by linarith
    with False select_with_invalid_nth(2) [OF sel i] show ?thesis by simp
  qed
  show "i < length xs \<Longrightarrow> (xs ! i < 0 \<and> ys ! i = -1) \<or>
    (0 \<le> xs ! i \<and> nat (xs ! i) < source \<and> ys ! i = vs ! nat (xs ! i))" by (rule nth)
  show "int64 ys"
  proof (rule int64I)
    fix i assume "i < length ys"
    then have i: "i < length xs" using select_with_invalid_nth(1) [OF sel] by simp
    from nth [OF i] show "-(2 ^ 63) \<le> ys ! i \<and> ys ! i < 2 ^ 63"
    proof
      assume "0 \<le> xs ! i \<and> nat (xs ! i) < source \<and> ys ! i = vs ! nat (xs ! i)"
      with vs [of "nat (xs ! i)"] src show ?thesis by simp
    qed simp
  qed
qed

lemma selected_positions:
  assumes sel: "window_positions ctx window xs = Inr ys" and w: "window \<noteq> None" and ctx: "context_ok ctx"
  shows "length ys = length xs" and "int64 ys" and "i < length xs \<Longrightarrow> 0 \<le> xs ! i \<Longrightarrow> 0 \<le> ys ! i"
proof -
  obtain pos where pos: "ctx_input_pos ctx = Some pos" "select_with_invalid pos xs (-(2 ^ 63)) = Inr ys"
    using sel w by (auto simp: window_positions_def require_input_pos_def result_iffs split: option.splits)
  have range: "0 \<le> x \<and> x < 2 ^ 63" if "x \<in> set pos" for x
    using ctx pos(1) that unfolding context_ok_def by blast
  note nth = select_with_invalid_nth [OF pos(2)]
  show "length ys = length xs" by (rule nth(1))
  show "i < length xs \<Longrightarrow> 0 \<le> xs ! i \<Longrightarrow> 0 \<le> ys ! i"
    using nth(2,3) range by (metis not_less nth_mem)
  show "int64 ys"
  proof (rule int64I)
    fix i assume "i < length ys"
    then have i: "i < length xs" using nth(1) by simp
    show "-(2 ^ 63) \<le> ys ! i \<and> ys ! i < 2 ^ 63"
    proof (cases "xs ! i < 0")
      case True
      with nth(2) [OF i] show ?thesis by simp
    next
      case False
      then have "ys ! i \<in> set pos" using nth(2,3) [OF i] by simp
      from range [OF this] show ?thesis by simp
    qed
  qed
qed

lemma stage_arrays_ok:
  assumes st: "stage_arrays spec ctx window = Inr a" and ctx: "context_ok ctx"
    and q: "validate_exact_indices (fm_q_indices spec) (source_len ctx) = Inr qv"
    and k: "validate_exact_indices (fm_k_indices spec) (source_len ctx) = Inr kv"
    and i64: "int64 (fm_q_indices spec)" "int64 (fm_k_indices spec)"
    and len: "length (fm_q_indices spec) = n" "length (fm_k_indices spec) = m"
  shows "arrays_ok a window n m" and "axis_ok window (q_abs a) (q_pos a) qv n"
    and "axis_ok window (k_abs a) (k_pos a) kv m"
proof -
  let ?qa = "fm_q_indices spec" and ?ka = "fm_k_indices spec"
  obtain qe ke kx qp kp where sel: "select_with_invalid (group_enter ctx) ?qa (-1) = Inr qe"
    "select_with_invalid (group_enter ctx) ?ka (-1) = Inr ke" "select_with_invalid (group_exit ctx) ?ka (-1) = Inr kx"
    "window_positions ctx window ?qa = Inr qp" "window_positions ctx window ?ka = Inr kp"
    and a: "a = \<lparr>q_abs = ?qa, k_abs = ?ka, q_enter = qe, k_enter = ke, k_exit = kx, q_pos = qp, k_pos = kp\<rparr>"
    using st by (auto simp: stage_arrays_def Let_def result_iffs)
  have src: "int (source_len ctx) < 2 ^ 62" using ctx by (simp add: context_ok_def)
  have lab: "0 \<le> group_enter ctx ! x \<and> group_enter ctx ! x < group_exit ctx ! x \<and>
      group_exit ctx ! x \<le> int (source_len ctx) + 1" if "x < source_len ctx" for x
    using ctx that by (simp add: context_ok_def)
  have en: "0 \<le> group_enter ctx ! x \<and> group_enter ctx ! x \<le> int (source_len ctx) + 1" if "x < source_len ctx" for x
    using lab [OF that] by simp
  have ex: "0 \<le> group_exit ctx ! x \<and> group_exit ctx ! x \<le> int (source_len ctx) + 1" if "x < source_len ctx" for x
    using lab [OF that] by simp
  note qv = validate_exact_indices_sound [OF q] and kv = validate_exact_indices_sound [OF k]
  have qx: "?qa ! i < int (source_len ctx)" if "i < length ?qa" "0 \<le> ?qa ! i" for i using qv that by (metis not_le)
  have kx: "?ka ! i < int (source_len ctx)" if "i < length ?ka" "0 \<le> ?ka ! i" for i using kv that by (metis not_le)
  note QE = selected_labels [OF sel(1) src en qx]
  note KE = selected_labels [OF sel(2) src en kx]
  note KX = selected_labels [OF sel(3) src ex kx]
  have lens: "length qe = n" "length ke = m" "length kx = m"
    using select_with_invalid_nth(1) [OF sel(1)] select_with_invalid_nth(1) [OF sel(2)]
      select_with_invalid_nth(1) [OF sel(3)] len by simp_all
  have qq: "0 \<le> ?qa ! i \<longleftrightarrow> 0 \<le> qe ! i" if "i < n" for i
    using QE(2) [of i] en that len(1) by auto
  have kk: "(0 \<le> ?ka ! i \<and> 0 \<le> ke ! i \<and> ke ! i < kx ! i) \<or> (?ka ! i < 0 \<and> ke ! i = -1 \<and> kx ! i = -1)" if "i < m" for i
    using KE(2) [of i] KX(2) [of i] lab [of "nat (?ka ! i)"] that len(2) by auto
  show "arrays_ok a window n m"
    unfolding arrays_ok_def a mask_arrays.select_convs
    using len lens i64 QE(1) KE(1) KX(1) qq kk selected_positions [OF sel(4) _ ctx] selected_positions [OF sel(5) _ ctx]
    by (intro conjI impI allI) simp_all
  show "axis_ok window (q_abs a) (q_pos a) qv n"
    unfolding axis_ok_def a mask_arrays.select_convs
    using len(1) qv selected_positions [OF sel(4) _ ctx] by (intro conjI impI allI) simp_all
  show "axis_ok window (k_abs a) (k_pos a) kv m"
    unfolding axis_ok_def a mask_arrays.select_convs
    using len(2) kv selected_positions [OF sel(5) _ ctx] by (intro conjI impI allI) simp_all
qed

lemma q_token_mem:
  "0 < b \<Longrightarrow> q < length (q_abs a) \<Longrightarrow> length (q_enter a) = length (q_abs a) \<Longrightarrow>
   (q_abs a ! q, q_enter a ! q) \<in> set (q_block_tokens a b (q div b))"
proof -
  assume b: "0 < b" and q: "q < length (q_abs a)" "length (q_enter a) = length (q_abs a)"
  note d = div_block [OF b, of q]
  let ?i = "q - q div b * b"
  have "?i < length [q div b * b..<(q div b + 1) * b]" "[q div b * b..<(q div b + 1) * b] ! ?i = q"
    using d by (simp_all del: upt_Suc add: less_diff_conv2)
  with q show ?thesis
    unfolding q_block_tokens_def block_row_def in_set_zip
    by (intro exI [of _ ?i]) (simp del: upt_Suc)
qed

lemma k_token_mem:
  "0 < b \<Longrightarrow> k < length (k_abs a) \<Longrightarrow> length (k_enter a) = length (k_abs a) \<Longrightarrow> length (k_exit a) = length (k_abs a) \<Longrightarrow>
   (k_abs a ! k, k_enter a ! k, k_exit a ! k) \<in> set (k_block_tokens a b (k div b))"
proof -
  assume b: "0 < b" and k: "k < length (k_abs a)" "length (k_enter a) = length (k_abs a)"
    "length (k_exit a) = length (k_abs a)"
  note d = div_block [OF b, of k]
  let ?i = "k - k div b * b"
  have "?i < length [k div b * b..<(k div b + 1) * b]" "[k div b * b..<(k div b + 1) * b] ! ?i = k"
    using d by (simp_all del: upt_Suc add: less_diff_conv2)
  with k show ?thesis
    unfolding k_block_tokens_def block_row_def in_set_zip
    by (intro exI [of _ ?i]) (simp del: upt_Suc)
qed

lemma token_allowed_plain:
  assumes "arrays_ok a window n m" and "q < n" and "k < m"
  shows "token_allowed (q_abs a ! q, q_enter a ! q) (k_abs a ! k, k_enter a ! k, k_exit a ! k) \<longleftrightarrow> plain_allowed a q k"
  using plain_allowed_real [OF assms] by (auto simp: token_allowed_def plain_allowed_def q_ok_def k_ok_def)

text \<open>What the kernel computes from a block mask: full blocks unmasked, partial blocks masked.\<close>

definition effective_mask :: "block_mask \<Rightarrow> nat \<Rightarrow> nat \<Rightarrow> (nat \<Rightarrow> nat \<Rightarrow> bool) \<Rightarrow> nat \<Rightarrow> nat \<Rightarrow> bool" where
  "effective_mask bm qb kb token_mask q k \<longleftrightarrow> bm_full bm ! (q div qb) ! (k div kb) \<or>
     (bm_partial bm ! (q div qb) ! (k div kb) \<and> token_mask q k)"

lemma matrix_of_nth: "i < n \<Longrightarrow> j < m \<Longrightarrow> matrix_of n m f ! i ! j = f i j"
  by (simp add: matrix_of_def)

lemma refine_blocks_sound:
  assumes inv: "block_inv spec a window qb kb S st" and pos: "0 < qb" "0 < kb"
    and ok: "arrays_ok a window (fm_q_len spec) (fm_k_len spec)"
    and q: "q < fm_q_len spec" and k: "k < fm_k_len spec"
    and cell: "refine_blocks a window qb kb st (q div qb) (k div kb) = (partial', full')"
  shows "full' \<Longrightarrow> plain_allowed a q k \<and> in_window a window q k"
    and "\<exists>s \<in> S. covers_pair s q k \<Longrightarrow> plain_allowed a q k \<Longrightarrow> in_window a window q k \<Longrightarrow> partial' \<or> full'"
    and "\<not> (partial' \<and> full')"
proof -
  let ?i = "q div qb" and ?j = "k div kb"
  let ?full = "full_blocks st ?i ?j"
  let ?partial = "partial_blocks st ?i ?j \<and> \<not> ?full"
  let ?need = "?full \<or> (touch_counts st ?i ?j > 1 \<and> ?partial)"
  let ?Q = "q_block_tokens a qb ?i" and ?K = "k_block_tokens a kb ?j"
  obtain rp rf where r: "refine_pair ?Q ?K (?partial \<and> ?need, ?full \<and> ?need) = (rp, rf)" by fastforce
  have "\<not> ((?partial \<and> ?need) \<and> (?full \<and> ?need))" by blast
  note sound = refine_pair_sound [OF r this]
  have lens: "length (q_abs a) = fm_q_len spec" "length (q_enter a) = fm_q_len spec"
    "length (k_abs a) = fm_k_len spec" "length (k_enter a) = fm_k_len spec" "length (k_exit a) = fm_k_len spec"
    using ok by (simp_all add: arrays_ok_def)
  have qm: "(q_abs a ! q, q_enter a ! q) \<in> set ?Q"
    by (rule q_token_mem [OF pos(1)]) (use lens q in simp_all)
  have km: "(k_abs a ! k, k_enter a ! k, k_exit a ! k) \<in> set ?K"
    by (rule k_token_mem [OF pos(2)]) (use lens k in simp_all)
  note tok = token_allowed_plain [OF ok q k]
  have cells: "partial' = (((?partial \<and> \<not> ?need) \<or> (?need \<and> rp)) \<or>
        (window \<noteq> None \<and> ((?full \<and> \<not> ?need) \<or> (?need \<and> rf)) \<and> \<not> ?full))"
    "full' = (((?full \<and> \<not> ?need) \<or> (?need \<and> rf)) \<and> (window \<noteq> None \<longrightarrow> ?full))"
    using cell r by (auto simp: refine_blocks_def Let_def split: if_splits)
  show "full' \<Longrightarrow> plain_allowed a q k \<and> in_window a window q k"
  proof -
    assume f: "full'"
    then have "rf" using cells(2) by blast
    from sound(1) [OF this qm km] have "plain_allowed a q k" using tok by simp
    moreover have "in_window a window q k"
    proof (cases window)
      case (Some w)
      with f cells(2) have "?full" by simp
      with inv q k show ?thesis unfolding block_inv_def by blast
    qed (simp add: in_window_def)
    ultimately show ?thesis by simp
  qed
  show "\<exists>s \<in> S. covers_pair s q k \<Longrightarrow> plain_allowed a q k \<Longrightarrow> in_window a window q k \<Longrightarrow> partial' \<or> full'"
  proof -
    assume c: "\<exists>s \<in> S. covers_pair s q k" "plain_allowed a q k" "in_window a window q k"
    then have p: "partial_blocks st ?i ?j" using inv q k unfolding block_inv_def by blast
    show ?thesis
    proof (cases "?need")
      case True
      then have "(?partial \<and> ?need) \<or> (?full \<and> ?need)" using p by blast
      from sound(2) [OF this qm km] c(2) tok have "rp \<or> rf" by simp
      with True show ?thesis unfolding cells by blast
    next
      case False
      with p show ?thesis unfolding cells by blast
    qed
  qed
  show "\<not> (partial' \<and> full')" using sound(3) unfolding cells by blast
qed

lemma validate_slices_sound:
  assumes "foldE (\<lambda>s u. validate_slice spec qv kv s) ss u = Inr w"
  shows "\<forall>s \<in> set ss. slice_in spec qv kv s"
  using assms by (induction ss arbitrary: u) (auto simp: result_iffs validate_slice_def slice_in_def)

lemma block_mask_effective:
  assumes bm: "build_block_mask_from_context spec ctx window True = Inr (Some bm)"
    and ctx: "context_ok ctx" and i64: "int64 (fm_q_indices spec)" "int64 (fm_k_indices spec)"
    and arr: "stage_arrays spec ctx window = Inr a"
    and q: "q < fm_q_len spec" and k: "k < fm_k_len spec"
    and cov: "mask_mod a window q k \<Longrightarrow> \<exists>s \<in> set (fm_slices spec). covers_pair s q k"
  defines "qb \<equiv> fst (normalize_sparse_block_size (fm_block_size spec))"
    and "kb \<equiv> snd (normalize_sparse_block_size (fm_block_size spec))"
  shows "effective_mask bm qb kb (mask_mod a window) q k = mask_mod a window q k \<and>
    \<not> (bm_full bm ! (q div qb) ! (k div kb) \<and> bm_partial bm ! (q div qb) ! (k div kb))"
proof -
  have size: "normalize_sparse_block_size (fm_block_size spec) = (qb, kb)" by (simp add: qb_def kb_def)
  have lens: "length (fm_q_indices spec) = fm_q_len spec" "length (fm_k_indices spec) = fm_k_len spec"
    and valid: "validate_supported_mask_spec spec (source_len ctx) = Inr ()"
    and build: "build_sparse_block_mask spec ctx window (qb, kb) = Inr bm"
    using bm by (auto simp: build_block_mask_from_context_def result_iffs size split: if_splits)
  obtain qv kv where qv: "validate_exact_indices (fm_q_indices spec) (source_len ctx) = Inr qv"
    and kv: "validate_exact_indices (fm_k_indices spec) (source_len ctx) = Inr kv"
    and slices: "foldE (\<lambda>s u. validate_slice spec qv kv s) (fm_slices spec) () = Inr ()"
    using valid by (auto simp: validate_supported_mask_spec_def result_iffs)
  note ok = stage_arrays_ok [OF arr ctx qv kv i64 lens]
  obtain st where pos: "0 < qb" "0 < kb"
    and st: "foldE (classify_slice spec a window qb kb) (fm_slices spec)
          \<lparr>touch_counts = (\<lambda>i j. 0), partial_blocks = (\<lambda>i j. False), full_blocks = (\<lambda>i j. False)\<rparr> = Inr st"
    and mats: "bm_partial bm = matrix_of (ceil_div (fm_q_len spec) qb) (ceil_div (fm_k_len spec) kb)
        (\<lambda>i j. fst (refine_blocks a window qb kb st i j))"
      "bm_full bm = matrix_of (ceil_div (fm_q_len spec) qb) (ceil_div (fm_k_len spec) kb)
        (\<lambda>i j. snd (refine_blocks a window qb kb st i j))"
    using build arr by (auto simp: build_sparse_block_mask_def Let_def result_iffs)
  have "block_inv spec a window qb kb ({} \<union> set (fm_slices spec)) st"
    by (rule classify_slices_inv [OF st _ pos ok(2,3) validate_slices_sound [OF slices]])
      (simp add: block_inv_def)
  then have inv: "block_inv spec a window qb kb (set (fm_slices spec)) st" by simp
  obtain p f where cell: "refine_blocks a window qb kb st (q div qb) (k div kb) = (p, f)" by fastforce
  note sound = refine_blocks_sound [OF inv pos ok(1) q k cell]
  have at: "bm_partial bm ! (q div qb) ! (k div kb) = p" "bm_full bm ! (q div qb) ! (k div kb) = f"
    using ceil_div_less [OF pos(1) q] ceil_div_less [OF pos(2) k] cell by (simp_all add: mats matrix_of_nth)
  have mm: "mask_mod a window q k \<longleftrightarrow> plain_allowed a q k \<and> in_window a window q k"
    by (rule mask_mod_plain [OF ok(1) q k])
  show ?thesis
    unfolding effective_mask_def at using sound cov mm by blast
qed

lemma prepared_context_ok:
  assumes "prepare_block_mask_context gs ps pos = Inr ctx" and "int (length gs) < 2 ^ 62"
    and "\<forall>xs. pos = Some xs \<longrightarrow> (\<forall>x \<in> set xs. 0 \<le> x \<and> x < 2 ^ 63)"
  shows "context_ok ctx"
proof -
  obtain row where row: "parse_prefix_tree_row gs ps 0 (-1) = Inr row"
    using assms(1) by (auto simp: prepare_block_mask_context_def result_iffs)
  note c = prepare_context(1) [OF assms(1) row]
  have p: "ctx_input_pos ctx = pos \<and> (\<forall>xs. pos = Some xs \<longrightarrow> length xs = length gs)"
    using assms(1) by (auto simp: prepare_block_mask_context_def result_iffs split: option.splits prod.splits)
  from c p assms(2,3) show ?thesis by (auto simp: context_ok_def)
qed

section \<open>Properties of the block mask\<close>

text \<open>
  C10. The block-sparse mask is exact: if the stage's slices cover the pairs the mask
  function allows, then unmasked full blocks together with masked partial blocks allow
  exactly those pairs, with and without a sliding window, for any block size, padding and
  order of the slices, and no block is listed as both.
\<close>

theorem block_mask_exact:
  assumes "build_block_mask_from_context spec ctx window True = Inr (Some bm)"
    and "prepare_block_mask_context gs ps pos = Inr ctx" and "int (length gs) < 2 ^ 62"
    and "\<forall>xs. pos = Some xs \<longrightarrow> (\<forall>x \<in> set xs. 0 \<le> x \<and> x < 2 ^ 63)"
    and "int64 (fm_q_indices spec)" and "int64 (fm_k_indices spec)"
    and "stage_arrays spec ctx window = Inr a"
    and "q < fm_q_len spec" and "k < fm_k_len spec"
    and "mask_mod a window q k \<longrightarrow> (\<exists>s \<in> set (fm_slices spec). covers_pair s q k)"
    and "normalize_sparse_block_size (fm_block_size spec) = (qb, kb)"
  shows "effective_mask bm qb kb (mask_mod a window) q k = mask_mod a window q k \<and>
    \<not> (bm_full bm ! (q div qb) ! (k div kb) \<and> bm_partial bm ! (q div qb) ! (k div kb))"
  using block_mask_effective [OF assms(1) prepared_context_ok [OF assms(2-4)] assms(5-9)] assms(10,11) by simp

definition example_stage :: flex_mask_spec where
  "example_stage = \<lparr>fm_q_len = 4, fm_k_len = 4, fm_block_size = Square 2,
     fm_slices = [\<lparr>q_range = \<lparr>tk_start = 0, tk_end = 4\<rparr>, k_range = \<lparr>tk_start = 0, tk_end = 2\<rparr>, mask_kind = FULL, row_index = 0, family_index = Some 0\<rparr>,
       \<lparr>q_range = \<lparr>tk_start = 2, tk_end = 4\<rparr>, k_range = \<lparr>tk_start = 2, tk_end = 4\<rparr>, mask_kind = CAUSAL, row_index = 0, family_index = Some 0\<rparr>],
     fm_q_indices = [0,1,2,3], fm_k_indices = [0,1,2,3]\<rparr>"

definition example_arrays :: mask_arrays where
  "example_arrays = \<lparr>q_abs = [0,1,2,3], k_abs = [0,1,2,3], q_enter = [0,0,1,2], k_enter = [0,0,1,2],
     k_exit = [3,3,2,3], q_pos = [], k_pos = []\<rparr>"

definition example_mask :: block_mask where
  "example_mask = \<lparr>bm_partial = [[True, False], [False, True]], bm_full = [[False, False], [True, False]],
     bm_kv = ([1, 1], [[0, 0], [1, 0]]), bm_full_kv = ([0, 1], [[0, 0], [0, 0]]),
     bm_q = ([1, 1], [[0, 0], [1, 0]]), bm_full_q = ([1, 0], [[1, 0], [0, 0]])\<rparr>"

lemma example_stage_facts:
  "prepare_block_mask_context [1,1,2,3] [1,1,1,1] None = Inr
    \<lparr>source_len = 4, group_enter = [0,0,1,2], group_exit = [3,3,2,3], ctx_input_pos = None\<rparr>"
  "stage_arrays example_stage \<lparr>source_len = 4, group_enter = [0,0,1,2], group_exit = [3,3,2,3], ctx_input_pos = None\<rparr>
     None = Inr example_arrays"
  "build_block_mask_from_context example_stage
     \<lparr>source_len = 4, group_enter = [0,0,1,2], group_exit = [3,3,2,3], ctx_input_pos = None\<rparr> None True
     = Inr (Some example_mask)"
  by code_simp+

theorem block_mask_exact_witness:
  "effective_mask example_mask 2 2 (mask_mod example_arrays None) 3 1 = mask_mod example_arrays None 3 1 \<and>
   mask_mod example_arrays None 3 1 \<and> bm_full example_mask ! 1 ! 0"
proof -
  have "effective_mask example_mask 2 2 (mask_mod example_arrays None) 3 1 = mask_mod example_arrays None 3 1 \<and>
      \<not> (bm_full example_mask ! (3 div 2) ! (1 div 2) \<and> bm_partial example_mask ! (3 div 2) ! (1 div 2))"
    by (rule block_mask_exact [OF example_stage_facts(3,1) _ _ _ _ example_stage_facts(2)])
      (simp_all add: example_stage_def int64_def covers_pair_def in_range_def)
  moreover have "mask_mod example_arrays None 3 1 \<and> bm_full example_mask ! 1 ! 0" by code_simp
  ultimately show ?thesis by blast
qed

end
