(* ===== verification/Pack_Rows.thy ===== *)
theory Pack_Rows
  imports Prefix_Pack
begin

text \<open>
  \<^verbatim>\<open>src/art/preprocessing/pack.py\<close>, planning half: sequences are placed best-fit into
  rows of \<^verbatim>\<open>seq_len\<close> tokens, where a sequence costs only the segments its row does not
  hold yet, and each row gets a plan (the global plan restricted to the row, or a plan
  rebuilt for the row alone).
\<close>

section \<open>Sequences, leaves and bins\<close>

text \<open>The protocol \<^verbatim>\<open>PrefixTreeSequence\<close>; what a caller packs extends it.\<close>

record tree_sequence =
  sq_tokens :: "int list"
  sq_shareable :: int
  sq_prompt :: int

record row_plan =
  rp_segments :: "pack_segment list"
  rp_length :: nat

record pack_leaf =
  leaf_item :: nat
  leaf_group :: int
  segment_path :: "(nat \<times> nat) list"
  empty_bin_cost :: nat

record pack_bin =
  bin_leaves :: "pack_leaf list"
  occupied_segments :: "nat set"
  token_count :: nat

definition new_bin :: pack_bin where
  "new_bin = \<lparr>bin_leaves = [], occupied_segments = {}, token_count = 0\<rparr>"

definition insertion_delta :: "pack_bin \<Rightarrow> pack_leaf \<Rightarrow> nat" where
  "insertion_delta b leaf = sum_list (map snd (filter (\<lambda>p. fst p \<notin> occupied_segments b) (segment_path leaf)))"

definition bin_add :: "pack_bin \<Rightarrow> pack_leaf \<Rightarrow> pack_bin" where
  "bin_add b leaf = \<lparr>bin_leaves = bin_leaves b @ [leaf],
     occupied_segments = occupied_segments b \<union> fst ` set (segment_path leaf),
     token_count = token_count b + insertion_delta b leaf\<rparr>"

section \<open>Best-fit placement\<close>

text \<open>
  The search keeps the first bin with the least remaining space; \<open>remaining\<close> starts at
  \<^verbatim>\<open>seq_len + 1\<close>.
\<close>

fun best_bin :: "nat \<Rightarrow> pack_leaf \<Rightarrow> nat \<Rightarrow> pack_bin list \<Rightarrow> nat option \<Rightarrow> nat \<Rightarrow> nat option" where
  "best_bin seq_len leaf i [] best remaining = best"
| "best_bin seq_len leaf i (b # bs) best remaining =
     (let count = token_count b + insertion_delta b leaf
      in if count \<le> seq_len \<and> seq_len - count < remaining
         then best_bin seq_len leaf (Suc i) bs (Some i) (seq_len - count)
         else best_bin seq_len leaf (Suc i) bs best remaining)"

definition place_leaf :: "nat \<Rightarrow> pack_leaf \<Rightarrow> pack_bin list \<Rightarrow> pack_bin list result" where
  "place_leaf seq_len leaf bins =
     ensure (\<not> empty_bin_cost leaf > seq_len) (RuntimeError ''Prefix-tree pack item exceeds sequence length'')
       (Inr (case best_bin seq_len leaf 0 bins None (seq_len + 1) of
          None \<Rightarrow> bins @ [bin_add new_bin leaf]
        | Some i \<Rightarrow> bins[i := bin_add (bins ! i) leaf]))"

definition group_cost :: "pack_leaf list \<Rightarrow> nat" where
  "group_cost g = Max (set (map empty_bin_cost g))"

text \<open>\<^verbatim>\<open>sorted(..., reverse=True)\<close> is stable: equal keys keep their order.\<close>

definition place_prefix_tree_leaves :: "pack_leaf list list \<Rightarrow> nat \<Rightarrow> bool \<Rightarrow> pack_bin list result" where
  "place_prefix_tree_leaves groups seq_len groups_are_ordered =
     (let ordered = (if groups_are_ordered then groups else sort_key (\<lambda>g. - int (group_cost g)) groups)
      in foldE (place_leaf seq_len) (concat ordered) [])"

section \<open>Restricting the global plan to one bin\<close>

record filter_state =
  aliases :: "int \<Rightarrow> int option"
  group_positions :: "int \<Rightarrow> nat option"
  kept_plan :: "pack_segment list"
  filter_cursor :: nat

text \<open>
  The \<^verbatim>\<open>while\<close> loop of \<^verbatim>\<open>resolve\<close>, with one unit of fuel per planned segment;
  exhausting it stands for a loop that does not end.
\<close>

primrec resolve :: "nat \<Rightarrow> (int \<Rightarrow> int option) \<Rightarrow> int \<Rightarrow> int result" where
  "resolve 0 al g = Inl (RuntimeError ''unbounded loop'')"
| "resolve (Suc fuel) al g = (case al g of None \<Rightarrow> Inr g | Some h \<Rightarrow> resolve fuel al h)"

text \<open>\<^verbatim>\<open>local_index\<close>: a later duplicate of an item index would win; indices are distinct.\<close>

definition local_index :: "nat list \<Rightarrow> nat \<Rightarrow> nat option" where
  "local_index item_indices = map_of (rev (zip item_indices [0..<length item_indices]))"

definition keep_segment :: "int \<Rightarrow> nat list \<Rightarrow> pack_segment \<Rightarrow> filter_state \<Rightarrow> filter_state" where
  "keep_segment parent members s st =
     (let parent' = (if parent_id s = group_id s then group_id s else parent) in
      st\<lparr>group_positions := (group_positions st)(group_id s \<mapsto> length (kept_plan st)),
         kept_plan := kept_plan st @ [\<lparr>sequence_indices = members, seg_start = seg_start s, seg_end = seg_end s,
           group_id = group_id s, parent_id = parent', packed_start = filter_cursor st\<rparr>],
         filter_cursor := filter_cursor st + seg_length s\<rparr>)"

definition merge_segment :: "nat \<Rightarrow> nat list \<Rightarrow> pack_segment \<Rightarrow> filter_state \<Rightarrow> filter_state" where
  "merge_segment pos members s st =
     (let parent = kept_plan st ! pos in
      st\<lparr>kept_plan := (kept_plan st)[pos := \<lparr>sequence_indices = members, seg_start = seg_start parent,
           seg_end = seg_end s, group_id = group_id parent, parent_id = parent_id parent,
           packed_start = packed_start parent\<rparr>],
         aliases := (aliases st)(group_id s \<mapsto> group_id parent),
         filter_cursor := filter_cursor st + seg_length s\<rparr>)"

definition filter_segment :: "nat list \<Rightarrow> pack_segment \<Rightarrow> filter_state \<Rightarrow> filter_state result" where
  "filter_segment item_indices s st =
     (let members = List.map_filter (local_index item_indices) (sequence_indices s) in
      if members = [] then Inr st
      else bindE (resolve (Suc (length (kept_plan st))) (aliases st) (parent_id s)) (\<lambda>parent.
        Inr (case group_positions st parent of
          None \<Rightarrow> keep_segment parent members s st
        | Some pos \<Rightarrow>
            if pos = length (kept_plan st) - 1 \<and> sequence_indices (kept_plan st ! pos) = members \<and>
               seg_end (kept_plan st ! pos) = seg_start s
            then merge_segment pos members s st
            else keep_segment parent members s st)))"

definition filtered_prefix_tree_plan :: "pack_segment list \<Rightarrow> nat list \<Rightarrow> row_plan result" where
  "filtered_prefix_tree_plan segs item_indices =
     bindE (foldE (filter_segment item_indices) segs
         \<lparr>aliases = Map.empty, group_positions = Map.empty, kept_plan = [], filter_cursor = 0\<rparr>)
       (\<lambda>st. Inr \<lparr>rp_segments = kept_plan st, rp_length = filter_cursor st\<rparr>)"

section \<open>Planning the rows\<close>

definition prefix_tree_row_plan :: "'a tree_sequence_scheme list \<Rightarrow> nat \<Rightarrow> bool \<Rightarrow> int \<Rightarrow> row_plan result" where
  "prefix_tree_row_plan row seq_len pack_results min_shared =
     bindE (prefix_tree_pack_segments (map sq_tokens row) (if pack_results then int seq_len else 0)
         (Some (map (\<lambda>item. if pack_results then sq_shareable item else 0) row)) min_shared)
       (\<lambda>segs. Inr \<lparr>rp_segments = segs, rp_length = min (sum_list (map seg_length segs)) seq_len\<rparr>)"

text \<open>The path of every sequence through the plan: segment ids with their lengths.\<close>

definition segment_paths :: "pack_segment list \<Rightarrow> nat \<Rightarrow> (nat \<times> nat) list" where
  "segment_paths segs i = map (\<lambda>(k, s). (k, seg_length s))
     (filter (\<lambda>(k, s). i \<in> set (sequence_indices s)) (List.enumerate 0 segs))"

definition leaf_of :: "pack_segment list \<Rightarrow> nat \<Rightarrow> 'a tree_sequence_scheme \<Rightarrow> pack_leaf" where
  "leaf_of segs i item = \<lparr>leaf_item = i, leaf_group = sq_prompt item, segment_path = segment_paths segs i,
     empty_bin_cost = sum_list (map snd (segment_paths segs i))\<rparr>"

definition plan_bin :: "'a tree_sequence_scheme list \<Rightarrow> nat \<Rightarrow> int \<Rightarrow> bool \<Rightarrow> pack_segment list \<Rightarrow> pack_bin
    \<Rightarrow> ('a tree_sequence_scheme list \<times> row_plan) result" where
  "plan_bin items seq_len min_shared rebuild_rows segs b =
     (let row = map (\<lambda>l. items ! leaf_item l) (bin_leaves b) in
      bindE (filtered_prefix_tree_plan segs (map leaf_item (bin_leaves b))) (\<lambda>occupancy_plan.
      ensure (rp_length occupancy_plan = token_count b)
        (RuntimeError ''Global prefix-tree occupancy disagrees with final bin plan'')
     (if \<not> rebuild_rows then Inr (row, occupancy_plan)
      else bindE (prefix_tree_row_plan row seq_len True min_shared) (\<lambda>plan.
        ensure (\<not> rp_length plan > rp_length occupancy_plan)
          (RuntimeError ''Final prefix-tree rebuild increased bin occupancy'')
          (Inr (row, plan))))))"

definition prefix_tree_pack_rows :: "'a tree_sequence_scheme list \<Rightarrow> nat \<Rightarrow> bool \<Rightarrow> int \<Rightarrow> bool
    \<Rightarrow> ('a tree_sequence_scheme list \<times> row_plan) list result" where
  "prefix_tree_pack_rows items seq_len pack_results min_shared rebuild_rows =
     (if items = [] then Inr []
      else if \<not> pack_results then
        mapE (\<lambda>item. bindE (prefix_tree_row_plan [item] seq_len False min_shared) (\<lambda>plan. Inr ([item], plan))) items
      else bindE (prefix_tree_pack_segments (map sq_tokens items)
          (int (Max (set (map (\<lambda>item. length (sq_tokens item)) items))))
          (Some (map sq_shareable items)) min_shared) (\<lambda>segs.
        let leaves = map (\<lambda>(i, item). leaf_of segs i item) (List.enumerate 0 items) in
        ensure (\<not> list_ex (\<lambda>leaf. empty_bin_cost leaf > seq_len) leaves)
          (RuntimeError ''Prefix-tree pack item exceeds sequence length'')
       (bindE (place_prefix_tree_leaves (map snd (group_first_seen leaf_group leaves)) seq_len False)
         (mapE (plan_bin items seq_len min_shared rebuild_rows segs)))))"

definition sequence_of :: "int list \<Rightarrow> int \<Rightarrow> int \<Rightarrow> tree_sequence" where
  "sequence_of ts n p = \<lparr>sq_tokens = ts, sq_shareable = n, sq_prompt = p\<rparr>"

lemma pack_rows_example:
  "prefix_tree_pack_rows [sequence_of [1,2,3,4] 3 0, sequence_of [1,2,3,5] 3 0, sequence_of [9,9,9] 2 1] 5 True 1 False = Inr
    [([sequence_of [1,2,3,4] 3 0, sequence_of [1,2,3,5] 3 0],
      \<lparr>rp_segments =
        [\<lparr>sequence_indices = [0, 1], seg_start = 0, seg_end = 3, group_id = 1, parent_id = 1, packed_start = 0\<rparr>,
         \<lparr>sequence_indices = [0], seg_start = 3, seg_end = 4, group_id = 2, parent_id = 1, packed_start = 3\<rparr>,
         \<lparr>sequence_indices = [1], seg_start = 3, seg_end = 4, group_id = 3, parent_id = 1, packed_start = 4\<rparr>],
       rp_length = 5\<rparr>),
     ([sequence_of [9,9,9] 2 1],
      \<lparr>rp_segments = [\<lparr>sequence_indices = [0], seg_start = 0, seg_end = 3, group_id = 4, parent_id = 4, packed_start = 0\<rparr>],
       rp_length = 3\<rparr>)]"
  by code_simp

section \<open>The restricted plan\<close>

lemma local_index_iff:
  assumes "distinct I"
  shows "local_index I i = Some j \<longleftrightarrow> j < length I \<and> I ! j = i"
proof -
  have "distinct (map fst (rev (zip I [0..<length I])))" using assms by (simp add: rev_map [symmetric])
  then have "local_index I i = Some j \<longleftrightarrow> (i, j) \<in> set (rev (zip I [0..<length I]))"
    by (simp add: local_index_def map_of_eq_Some_iff)
  then show ?thesis by (auto simp: in_set_zip)
qed

definition members_in :: "nat list \<Rightarrow> pack_segment \<Rightarrow> nat list" where
  "members_in I s = List.map_filter (local_index I) (sequence_indices s)"

lemma members_in_set:
  assumes "distinct I"
  shows "j \<in> set (members_in I s) \<longleftrightarrow> j < length I \<and> I ! j \<in> set (sequence_indices s)"
proof -
  have "j \<in> set (List.map_filter (local_index I) xs) \<longleftrightarrow> (\<exists>x \<in> set xs. local_index I x = Some j)" for xs
    by (induction xs) (auto simp: List.map_filter_simps split: option.splits)
  then show ?thesis using local_index_iff [OF assms] by (auto simp: members_in_def)
qed

lemma members_in_distinct:
  assumes "distinct I" and "distinct (sequence_indices s)"
  shows "distinct (members_in I s)"
proof -
  have inj: "a = b" if "local_index I a = Some j" "local_index I b = Some j" for a b j
    using that local_index_iff [OF assms(1)] by simp
  have "distinct (List.map_filter (local_index I) xs)" if "distinct xs" for xs
    using that
  proof (induction xs)
    case (Cons x xs)
    then show ?case
      by (cases "local_index I x") (auto simp: List.map_filter_simps dest: inj, auto simp: List.map_filter_def dest: inj)
  qed (simp add: List.map_filter_simps)
  then show ?thesis using assms(2) by (simp add: members_in_def)
qed

definition hits :: "nat list \<Rightarrow> pack_segment \<Rightarrow> bool" where
  "hits I s \<longleftrightarrow> (\<exists>i \<in> set I. i \<in> set (sequence_indices s))"

lemma members_in_empty: "distinct I \<Longrightarrow> members_in I s = [] \<longleftrightarrow> \<not> hits I s"
proof -
  assume d: "distinct I"
  have "members_in I s = [] \<longleftrightarrow> (\<forall>j. j \<notin> set (members_in I s))" by (cases "members_in I s") auto
  also have "\<dots> \<longleftrightarrow> \<not> hits I s" unfolding members_in_set [OF d] hits_def by (metis in_set_conv_nth)
  finally show ?thesis .
qed

text \<open>The loop invariant after the segments \<open>us\<close> of the global plan.\<close>

definition tracks :: "filter_state \<Rightarrow> pack_segment \<Rightarrow> pack_segment \<Rightarrow> bool" where
  "tracks st t p \<longleftrightarrow> seg_end p = seg_end t \<and> (group_id t = group_id p \<or> aliases st (group_id t) = Some (group_id p))"

definition filter_inv :: "int list list \<Rightarrow> nat list \<Rightarrow> pack_segment list \<Rightarrow> filter_state \<Rightarrow> bool" where
  "filter_inv rs I us st \<longleftrightarrow>
     (\<forall>j < length I. seg_chain 0 (plan_length (path (I ! j) us)) None (path j (kept_plan st))) \<and>
     (\<forall>j < length I. path (I ! j) us \<noteq> [] \<longrightarrow> path j (kept_plan st) \<noteq> [] \<and>
        tracks st (last (path (I ! j) us)) (last (path j (kept_plan st)))) \<and>
     (\<forall>p \<in> set (kept_plan st). seg_valid (map ((!) rs) I) p) \<and>
     distinct (map group_id (kept_plan st)) \<and> packed_from 0 (kept_plan st) \<and>
     group_id ` set (kept_plan st) \<subseteq> group_id ` set us \<and>
     (\<forall>g h. aliases st g = Some h \<longrightarrow> g \<in> group_id ` set us \<and> g \<notin> group_id ` set (kept_plan st) \<and>
        h \<in> group_id ` set (kept_plan st)) \<and>
     (\<forall>g p. group_positions st g = Some p \<longleftrightarrow> p < length (kept_plan st) \<and> group_id (kept_plan st ! p) = g) \<and>
     filter_cursor st = plan_length (kept_plan st) \<and>
     filter_cursor st = sum_list (map seg_length (filter (hits I) us))"

lemma filter_invD:
  assumes "filter_inv rs I us st"
  shows "j < length I \<Longrightarrow> seg_chain 0 (plan_length (path (I ! j) us)) None (path j (kept_plan st))"
    and "j < length I \<Longrightarrow> path (I ! j) us \<noteq> [] \<Longrightarrow> path j (kept_plan st) \<noteq> []"
    and "j < length I \<Longrightarrow> path (I ! j) us \<noteq> [] \<Longrightarrow> tracks st (last (path (I ! j) us)) (last (path j (kept_plan st)))"
    and "p \<in> set (kept_plan st) \<Longrightarrow> seg_valid (map ((!) rs) I) p"
    and "distinct (map group_id (kept_plan st))" and "packed_from 0 (kept_plan st)"
    and "group_id ` set (kept_plan st) \<subseteq> group_id ` set us"
    and "aliases st g = Some h \<Longrightarrow> g \<in> group_id ` set us"
    and "aliases st g = Some h \<Longrightarrow> g \<notin> group_id ` set (kept_plan st)"
    and "aliases st g = Some h \<Longrightarrow> h \<in> group_id ` set (kept_plan st)"
    and "group_positions st g = Some k \<longleftrightarrow> k < length (kept_plan st) \<and> group_id (kept_plan st ! k) = g"
    and "filter_cursor st = plan_length (kept_plan st)"
    and "filter_cursor st = sum_list (map seg_length (filter (hits I) us))"
  using assms unfolding filter_inv_def by blast+

lemma seg_chain_relast:
  "seg_chain a b p (ss @ [t]) \<Longrightarrow> seg_start t' = seg_start t \<Longrightarrow> seg_start t < seg_end t' \<Longrightarrow>
   parent_id t' = parent_id t \<Longrightarrow> group_id t' = group_id t \<Longrightarrow> seg_chain a (seg_end t') p (ss @ [t'])"
proof (induction ss arbitrary: a p)
  case Nil
  then show ?case by (cases p) auto
qed auto

lemma seg_chain_empty: "seg_chain a a p ss \<Longrightarrow> ss = []"
  by (cases ss) (auto dest: seg_chain_le)

text \<open>Facts about the next segment of a well-packed plan.\<close>

lemma next_segment:
  assumes wp: "well_packed rs (us @ s # vs)" and i: "i \<in> set (sequence_indices s)"
  shows "seg_start s = plan_length (path i us)" and "seg_start s < seg_end s" and "seg_length s = seg_end s - seg_start s"
    and "if path i us = [] then parent_id s = group_id s
      else seg_start s = seg_end (last (path i us)) \<and> parent_id s = group_id (last (path i us))"
    and "path i us = [] \<longleftrightarrow> parent_id s = group_id s"
proof -
  have "i < length rs"
    using well_packedD(2) [OF wp, of s] i by (auto simp: seg_valid_def intro: rows_agree_bound)
  from well_packedD(1) [OF wp this] i
  have chain: "seg_chain 0 (length (rs ! i)) None (path i us @ s # path i vs)" by (simp add: path_Cons)
  have *: "seg_chain a b p (xs @ s # ys) \<Longrightarrow> seg_start s = a + plan_length xs" for a b p xs ys
  proof (induction xs arbitrary: a p)
    case (Cons x xs)
    then have "seg_start s = seg_end x + plan_length xs" by (intro Cons.IH) auto
    with Cons.prems show ?case by (simp add: seg_length_def)
  qed simp
  from * [OF chain] show "seg_start s = plan_length (path i us)" by simp
  show "seg_start s < seg_end s" using seg_chain_range [OF chain, of s] by simp
  show "seg_length s = seg_end s - seg_start s" by (simp add: seg_length_def)
  show pred: "if path i us = [] then parent_id s = group_id s
      else seg_start s = seg_end (last (path i us)) \<and> parent_id s = group_id (last (path i us))"
    using well_packed_pred [OF wp i] by metis
  show "path i us = [] \<longleftrightarrow> parent_id s = group_id s"
    using pred well_packed_root [OF wp _ i] by metis
qed

lemma resolve_parent:
  assumes wp: "well_packed rs (us @ s # vs)" and inv: "filter_inv rs I us st"
    and j: "j < length I" and i: "I ! j \<in> set (sequence_indices s)"
  shows "resolve (Suc (length (kept_plan st))) (aliases st) (parent_id s)
    = Inr (if parent_id s = group_id s then group_id s else group_id (last (path j (kept_plan st))))"
    and "parent_id s \<noteq> group_id s \<Longrightarrow> path j (kept_plan st) \<noteq> [] \<and> seg_end (last (path j (kept_plan st))) = seg_start s"
proof -
  note nx = next_segment [OF wp i] and invs = filter_invD [OF inv]
  have fresh: "group_id s \<notin> group_id ` set us" using well_packedD(3) [OF wp] by auto
  show *: "path j (kept_plan st) \<noteq> [] \<and> seg_end (last (path j (kept_plan st))) = seg_start s" if "parent_id s \<noteq> group_id s"
  proof -
    have ne: "path (I ! j) us \<noteq> []" using nx(5) that by simp
    have "seg_start s = seg_end (last (path (I ! j) us))" using nx(4) ne by simp
    with invs(2) [OF j ne] invs(3) [OF j ne] show ?thesis by (simp add: tracks_def)
  qed
  show "resolve (Suc (length (kept_plan st))) (aliases st) (parent_id s)
    = Inr (if parent_id s = group_id s then group_id s else group_id (last (path j (kept_plan st))))"
  proof (cases "parent_id s = group_id s")
    case True
    have "aliases st (group_id s) = None"
      using invs(8) [of "group_id s"] fresh by (cases "aliases st (group_id s)") auto
    with True show ?thesis by simp
  next
    case False
    let ?t = "last (path (I ! j) us)" and ?p = "last (path j (kept_plan st))"
    have ne: "path (I ! j) us \<noteq> []" using nx(5) False by simp
    have par: "parent_id s = group_id ?t" using nx(4) ne by simp
    have tr: "group_id ?t = group_id ?p \<or> aliases st (group_id ?t) = Some (group_id ?p)"
      using invs(3) [OF j ne] by (simp add: tracks_def)
    have "path j (kept_plan st) \<noteq> []" by (rule invs(2) [OF j ne])
    then have "?p \<in> set (kept_plan st)" using path_last_mem by blast
    then have pg: "group_id ?p \<in> group_id ` set (kept_plan st)" by simp
    then have stop: "aliases st (group_id ?p) = None"
      using invs(9) by (metis option.exhaust)
    obtain n where n: "length (kept_plan st) = Suc n"
      using \<open>?p \<in> set (kept_plan st)\<close> by (cases "kept_plan st") auto
    have "resolve (Suc (Suc n)) (aliases st) (group_id ?t) = Inr (group_id ?p)"
      using tr stop by (cases "aliases st (group_id ?t)") auto
    with False par n show ?thesis by simp
  qed
qed

lemma sub_rows_agree:
  assumes "distinct I" and "seg_valid rs s" and "\<forall>i \<in> set I. i < length rs"
  shows "rows_agree (map ((!) rs) I) (set (members_in I s)) (seg_end s)"
proof -
  have v: "rows_agree rs (set (sequence_indices s)) (seg_end s)" using assms(2) by (simp add: seg_valid_def)
  show ?thesis
    unfolding rows_agree_def
  proof (intro conjI ballI)
    fix j assume "j \<in> set (members_in I s)"
    then have j: "j < length I" "I ! j \<in> set (sequence_indices s)" using members_in_set [OF assms(1)] by auto
    show "j < length (map ((!) rs) I)" using j by simp
    show "seg_end s \<le> length (map ((!) rs) I ! j)" using j rows_agree_len [OF v] by simp
    fix k assume "k \<in> set (members_in I s)"
    then have k: "k < length I" "I ! k \<in> set (sequence_indices s)" using members_in_set [OF assms(1)] by auto
    show "take (seg_end s) (map ((!) rs) I ! j) = take (seg_end s) (map ((!) rs) I ! k)"
      using j k rows_agree_take [OF v j(2) k(2)] by simp
  qed
qed

lemma sub_seg_valid:
  assumes "distinct I" and "seg_valid rs s" and "\<forall>i \<in> set I. i < length rs" and "hits I s"
    and "sequence_indices p = members_in I s" and "seg_end p = seg_end s" and "0 < group_id p"
  shows "seg_valid (map ((!) rs) I) p"
  unfolding seg_valid_def assms(5,6)
proof (intro conjI)
  show "members_in I s \<noteq> []" using members_in_empty [OF assms(1)] assms(4) by simp
  show "distinct (members_in I s)"
    by (rule members_in_distinct [OF assms(1)]) (use assms(2) in \<open>simp add: seg_valid_def\<close>)
  show "rows_agree (map ((!) rs) I) (set (members_in I s)) (seg_end s)" by (rule sub_rows_agree [OF assms(1-3)])
qed (rule assms(7))

lemma path_cong_members:
  "j \<in> set (sequence_indices p) \<longleftrightarrow> j \<in> set (sequence_indices p') \<Longrightarrow>
   path j (xs @ [p]) = (if j \<in> set (sequence_indices p') then path j xs @ [p] else path j xs)"
  by (simp add: path_Cons)

lemma tracks_mono:
  "tracks st t p \<Longrightarrow> (\<And>g h. aliases st g = Some h \<Longrightarrow> aliases st' g = Some h) \<Longrightarrow>
   tracks st' t p"
  by (auto simp: tracks_def)

lemma filter_skip:
  assumes d: "distinct I" and inv: "filter_inv rs I us st" and skip: "\<not> hits I s"
  shows "filter_inv rs I (us @ [s]) st"
proof -
  have p: "path (I ! j) (us @ [s]) = path (I ! j) us" if "j < length I" for j
    using skip that by (auto simp: hits_def path_Cons)
  have h: "filter (hits I) (us @ [s]) = filter (hits I) us" using skip by simp
  have g: "group_id ` set us \<subseteq> group_id ` set (us @ [s])" by auto
  note invs = filter_invD [OF inv]
  show ?thesis
    unfolding filter_inv_def h
    using invs(1-6,9-13) p subset_trans [OF invs(7) g] subsetD [OF g invs(8)]
    by (intro conjI allI impI) simp_all
qed

lemma filter_keep:
  assumes wp: "well_packed rs (us @ s # vs)" and d: "distinct I" and I: "\<forall>i \<in> set I. i < length rs"
    and inv: "filter_inv rs I us st" and hit: "hits I s"
    and parent: "\<And>j. j < length I \<Longrightarrow> I ! j \<in> set (sequence_indices s) \<Longrightarrow> parent_id s \<noteq> group_id s \<Longrightarrow>
      parent = group_id (last (path j (kept_plan st))) \<and> path j (kept_plan st) \<noteq> []"
  shows "filter_inv rs I (us @ [s]) (keep_segment parent (members_in I s) s st)"
proof -
  note invs = filter_invD [OF inv]
  let ?K = "kept_plan st"
  let ?p = "\<lparr>sequence_indices = members_in I s, seg_start = seg_start s, seg_end = seg_end s, group_id = group_id s,
      parent_id = (if parent_id s = group_id s then group_id s else parent), packed_start = filter_cursor st\<rparr>"
  let ?st = "keep_segment parent (members_in I s) s st"
  have st: "kept_plan ?st = ?K @ [?p]" "aliases ?st = aliases st" "filter_cursor ?st = filter_cursor st + seg_length s"
    "group_positions ?st = (group_positions st)(group_id s \<mapsto> length ?K)"
    by (simp_all add: keep_segment_def Let_def)
  have fresh: "group_id s \<notin> group_id ` set us" using well_packedD(3) [OF wp] by auto
  then have freshK: "group_id s \<notin> group_id ` set ?K" using invs(7) by blast
  have mem: "j \<in> set (sequence_indices ?p) \<longleftrightarrow> I ! j \<in> set (sequence_indices s)" if "j < length I" for j
    using members_in_set [OF d, of j s] that by simp
  have pathK: "path j (kept_plan ?st) = (if I ! j \<in> set (sequence_indices s) then path j ?K @ [?p] else path j ?K)"
    if "j < length I" for j
    unfolding st(1) using mem [OF that] by (simp add: path_Cons)
  have pathU: "path (I ! j) (us @ [s]) = (if I ! j \<in> set (sequence_indices s) then path (I ! j) us @ [s] else path (I ! j) us)" for j
    by (simp add: path_Cons)
  have len: "seg_length ?p = seg_length s" by (simp add: seg_length_def)
  show ?thesis
    unfolding filter_inv_def
  proof (intro conjI allI impI)
    fix j assume j: "j < length I"
    show "seg_chain 0 (plan_length (path (I ! j) (us @ [s]))) None (path j (kept_plan ?st))"
    proof (cases "I ! j \<in> set (sequence_indices s)")
      case True
      note nx = next_segment [OF wp True]
      have "seg_chain 0 (seg_end ?p) None (path j ?K @ [?p])"
      proof (rule seg_chain_snoc [OF invs(1) [OF j]])
        show "seg_start ?p = plan_length (path (I ! j) us)" using nx(1) by simp
        show "plan_length (path (I ! j) us) < seg_end ?p" using nx(1,2) by simp
        show "if path j ?K = [] then parent_id ?p = (case None of None \<Rightarrow> group_id ?p | Some g \<Rightarrow> g)
            else parent_id ?p = group_id (last (path j ?K))"
        proof (cases "parent_id s = group_id s")
          case True
          then have "path (I ! j) us = []" using nx(5) by simp
          then have "path j ?K = []" using invs(1) [OF j] seg_chain_empty by simp
          with True show ?thesis by simp
        next
          case False
          with parent [OF j \<open>I ! j \<in> set (sequence_indices s)\<close>] show ?thesis by simp
        qed
      qed
      moreover have "plan_length (path (I ! j) (us @ [s])) = seg_end s"
        using True nx(1-3) by (simp add: path_Cons)
      ultimately show ?thesis using True by (simp add: pathK [OF j])
    next
      case False
      with invs(1) [OF j] show ?thesis by (simp add: pathK [OF j] pathU path_Cons)
    qed
    assume ne: "path (I ! j) (us @ [s]) \<noteq> []"
    show "path j (kept_plan ?st) \<noteq> []" using ne invs(2) [OF j] by (simp add: pathK [OF j] pathU path_Cons split: if_splits)
    show "tracks ?st (last (path (I ! j) (us @ [s]))) (last (path j (kept_plan ?st)))"
      using ne invs(3) [OF j] by (simp add: pathK [OF j] pathU path_Cons tracks_def st(2) split: if_splits)
  next
    show "\<forall>p \<in> set (kept_plan ?st). seg_valid (map ((!) rs) I) p"
    proof -
      have "seg_valid rs s" by (rule well_packedD(2) [OF wp]) simp
      moreover have "0 < group_id s" using well_packed_members [OF wp, of s] by simp
      ultimately have "seg_valid (map ((!) rs) I) ?p" by (intro sub_seg_valid [OF d _ I hit]) simp_all
      with invs(4) show ?thesis unfolding st(1) by auto
    qed
    show "distinct (map group_id (kept_plan ?st))" unfolding st(1) using invs(5) freshK by simp
    show "packed_from 0 (kept_plan ?st)" unfolding st(1) using invs(6,12) by (simp add: packed_from_append)
    show "group_id ` set (kept_plan ?st) \<subseteq> group_id ` set (us @ [s])" unfolding st(1) using invs(7) by auto
  next
    fix g h assume "aliases ?st g = Some h"
    then have a: "aliases st g = Some h" by (simp add: st(2))
    show "g \<in> group_id ` set (us @ [s])" using invs(8) [OF a] by auto
    show "g \<notin> group_id ` set (kept_plan ?st)" 
    proof -
      have "g \<noteq> group_id s" using invs(8) [OF a] fresh by blast
      then show ?thesis unfolding st(1) using invs(9) [OF a] by simp
    qed
    show "h \<in> group_id ` set (kept_plan ?st)" unfolding st(1) using invs(10) [OF a] by auto
  next
    fix g k
    have no: "group_id (?K ! k) \<noteq> group_id s" if "k < length ?K" for k
      using freshK that by (metis image_eqI nth_mem)
    show "group_positions ?st g = Some k \<longleftrightarrow> k < length (kept_plan ?st) \<and> group_id (kept_plan ?st ! k) = g"
    proof (cases "g = group_id s")
      case True
      have "k < length ?K \<longrightarrow> group_id ((?K @ [?p]) ! k) \<noteq> g" using no True by (simp add: nth_append)
      with True show ?thesis unfolding st(1,4) by (auto simp: less_Suc_eq)
    next
      case False
      with invs(11) [of g k] show ?thesis unfolding st(1,4) by (auto simp: nth_append less_Suc_eq)
    qed
  next
    show "filter_cursor ?st = plan_length (kept_plan ?st)" unfolding st(1,3) using invs(12) len by simp
    show "filter_cursor ?st = sum_list (map seg_length (filter (hits I) (us @ [s])))"
      unfolding st(3) using invs(13) hit by simp
  qed
qed

lemma filter_merge:
  assumes wp: "well_packed rs (us @ s # vs)" and d: "distinct I" and I: "\<forall>i \<in> set I. i < length rs"
    and inv: "filter_inv rs I us st" and hit: "hits I s" and child: "parent_id s \<noteq> group_id s"
    and K: "kept_plan st = ks @ [p]" and members: "sequence_indices p = members_in I s" and adj: "seg_end p = seg_start s"
  shows "filter_inv rs I (us @ [s]) (merge_segment (length ks) (members_in I s) s st)"
proof -
  note invs = filter_invD [OF inv]
  let ?p = "\<lparr>sequence_indices = members_in I s, seg_start = seg_start p, seg_end = seg_end s, group_id = group_id p,
      parent_id = parent_id p, packed_start = packed_start p\<rparr>"
  let ?st = "merge_segment (length ks) (members_in I s) s st"
  have st: "kept_plan ?st = ks @ [?p]" "aliases ?st = (aliases st)(group_id s \<mapsto> group_id p)"
    "filter_cursor ?st = filter_cursor st + seg_length s" "group_positions ?st = group_positions st"
    by (simp_all add: merge_segment_def Let_def K)
  have fresh: "group_id s \<notin> group_id ` set us" using well_packedD(3) [OF wp] by auto
  then have freshK: "group_id s \<notin> group_id ` set (kept_plan st)" using invs(7) by blast
  have mem: "j \<in> set (sequence_indices p) \<longleftrightarrow> I ! j \<in> set (sequence_indices s)" if "j < length I" for j
    using members_in_set [OF d, of j s] that members by simp
  have pathO: "path j (kept_plan st) = (if I ! j \<in> set (sequence_indices s) then path j ks @ [p] else path j ks)"
    if "j < length I" for j
    unfolding K using mem [OF that] by (simp add: path_Cons)
  have pathK: "path j (kept_plan ?st) = (if I ! j \<in> set (sequence_indices s) then path j ks @ [?p] else path j ks)"
    if "j < length I" for j
    unfolding st(1) using mem [OF that] members by (simp add: path_Cons)
  have pathU: "path (I ! j) (us @ [s]) = (if I ! j \<in> set (sequence_indices s) then path (I ! j) us @ [s] else path (I ! j) us)" for j
    by (simp add: path_Cons)
  obtain j0 where j0: "j0 < length I" "I ! j0 \<in> set (sequence_indices s)"
    using hit unfolding hits_def by (metis in_set_conv_nth)
  have ps: "seg_start p < seg_end p"
    using seg_chain_range [OF invs(1) [OF j0(1)], of p] j0 by (simp add: pathO)
  have ss: "seg_start s < seg_end s" by (rule next_segment(2) [OF wp j0(2)])
  have len: "seg_length ?p = seg_length p + seg_length s"
    using ps ss adj by (simp add: seg_length_def)
  have groups: "group_id ` set (kept_plan ?st) = group_id ` set (kept_plan st)" by (simp add: st(1) K)
  show ?thesis
    unfolding filter_inv_def
  proof (intro conjI allI impI)
    fix j assume j: "j < length I"
    show "seg_chain 0 (plan_length (path (I ! j) (us @ [s]))) None (path j (kept_plan ?st))"
    proof (cases "I ! j \<in> set (sequence_indices s)")
      case True
      note nx = next_segment [OF wp True]
      have "seg_chain 0 (plan_length (path (I ! j) us)) None (path j ks @ [p])"
        using invs(1) [OF j] True by (simp add: pathO [OF j])
      then have "seg_chain 0 (seg_end ?p) None (path j ks @ [?p])"
        by (rule seg_chain_relast) (use ps ss adj in simp_all)
      moreover have "plan_length (path (I ! j) (us @ [s])) = seg_end s" using True nx(1-3) by (simp add: path_Cons)
      ultimately show ?thesis using True by (simp add: pathK [OF j])
    next
      case False
      with invs(1) [OF j] show ?thesis by (simp add: pathK [OF j] pathO [OF j] pathU path_Cons)
    qed
    assume ne: "path (I ! j) (us @ [s]) \<noteq> []"
    show "path j (kept_plan ?st) \<noteq> []"
      using ne invs(2) [OF j] by (simp add: pathK [OF j] pathO [OF j] pathU path_Cons split: if_splits)
    show "tracks ?st (last (path (I ! j) (us @ [s]))) (last (path j (kept_plan ?st)))"
    proof (cases "I ! j \<in> set (sequence_indices s)")
      case True
      then show ?thesis by (simp add: pathK [OF j] pathU path_Cons tracks_def st(2))
    next
      case False
      with ne have ne': "path (I ! j) us \<noteq> []" by (simp add: pathU path_Cons)
      then have "last (path (I ! j) us) \<in> set us" using path_last_mem by blast
      then have "group_id (last (path (I ! j) us)) \<noteq> group_id s" using fresh by (metis imageI)
      with False invs(3) [OF j ne'] show ?thesis
        by (simp add: pathK [OF j] pathO [OF j] pathU path_Cons tracks_def st(2))
    qed
  next
    show "\<forall>q \<in> set (kept_plan ?st). seg_valid (map ((!) rs) I) q"
    proof -
      have "seg_valid rs s" by (rule well_packedD(2) [OF wp]) simp
      moreover have "0 < group_id p" using invs(4) [of p] K by (simp add: seg_valid_def)
      ultimately have "seg_valid (map ((!) rs) I) ?p" by (intro sub_seg_valid [OF d _ I hit]) simp_all
      with invs(4) show ?thesis unfolding st(1) K by auto
    qed
    show "distinct (map group_id (kept_plan ?st))" unfolding st(1) using invs(5) K by simp
    show "packed_from 0 (kept_plan ?st)" unfolding st(1) using invs(6) K by (simp add: packed_from_append)
    show "group_id ` set (kept_plan ?st) \<subseteq> group_id ` set (us @ [s])" unfolding groups using invs(7) by auto
  next
    fix g h assume "aliases ?st g = Some h"
    then have a: "(g = group_id s \<and> h = group_id p) \<or> aliases st g = Some h" by (auto simp: st(2) split: if_splits)
    then show "g \<in> group_id ` set (us @ [s])" using invs(8) [of g h] by auto
    show "g \<notin> group_id ` set (kept_plan ?st)" unfolding groups using a invs(9) [of g h] freshK by (elim disjE conjE) simp_all
    show "h \<in> group_id ` set (kept_plan ?st)" unfolding groups using a invs(10) [of g h] K by auto
  next
    fix g k
    show "group_positions ?st g = Some k \<longleftrightarrow> k < length (kept_plan ?st) \<and> group_id (kept_plan ?st ! k) = g"
      unfolding st(1,4) using invs(11) [of g k] by (auto simp: K nth_append less_Suc_eq)
  next
    show "filter_cursor ?st = plan_length (kept_plan ?st)" unfolding st(1,3) using invs(12) len K by simp
    show "filter_cursor ?st = sum_list (map seg_length (filter (hits I) (us @ [s])))"
      unfolding st(3) using invs(13) hit by simp
  qed
qed

lemma filter_segment_inv:
  assumes wp: "well_packed rs (us @ s # vs)" and d: "distinct I" and I: "\<forall>i \<in> set I. i < length rs"
    and inv: "filter_inv rs I us st"
  obtains st' where "filter_segment I s st = Inr st'" and "filter_inv rs I (us @ [s]) st'"
proof (cases "hits I s")
  case False
  then have "filter_segment I s st = Inr st"
    using members_in_empty [OF d, of s] by (simp add: filter_segment_def Let_def members_in_def)
  with filter_skip [OF d inv False] show thesis using that by blast
next
  case True
  note invs = filter_invD [OF inv]
  have ne: "members_in I s \<noteq> []" using members_in_empty [OF d, of s] True by simp
  obtain j where j: "j < length I" "I ! j \<in> set (sequence_indices s)"
    using True unfolding hits_def by (metis in_set_conv_nth)
  define parent where "parent = (if parent_id s = group_id s then group_id s else group_id (last (path j (kept_plan st))))"
  note res = resolve_parent [OF wp inv]
  have unf: "filter_segment I s st = Inr (case group_positions st parent of
          None \<Rightarrow> keep_segment parent (members_in I s) s st
        | Some pos \<Rightarrow> if pos = length (kept_plan st) - 1 \<and> sequence_indices (kept_plan st ! pos) = members_in I s \<and>
               seg_end (kept_plan st ! pos) = seg_start s
            then merge_segment pos (members_in I s) s st
            else keep_segment parent (members_in I s) s st)"
    using ne unfolding filter_segment_def members_in_def [symmetric] Let_def res(1) [OF j] parent_def
    by (simp only: if_False bindE_simps)
  have keep: "filter_inv rs I (us @ [s]) (keep_segment parent (members_in I s) s st)"
  proof (rule filter_keep [OF wp d I inv True])
    fix k assume k: "k < length I" "I ! k \<in> set (sequence_indices s)" "parent_id s \<noteq> group_id s"
    have "(Inr parent :: int result) = Inr (group_id (last (path k (kept_plan st))))"
      using res(1) [OF j] res(1) [OF k(1,2)] k(3) by (simp add: parent_def)
    with res(2) [OF k] show "parent = group_id (last (path k (kept_plan st))) \<and> path k (kept_plan st) \<noteq> []" by simp
  qed
  show thesis
  proof (cases "group_positions st parent")
    case None
    then have "filter_segment I s st = Inr (keep_segment parent (members_in I s) s st)"
      using unf by (simp only: option.case)
    then show thesis using keep by (rule that)
  next
    case (Some pos)
    show thesis
    proof (cases "pos = length (kept_plan st) - 1 \<and> sequence_indices (kept_plan st ! pos) = members_in I s \<and>
               seg_end (kept_plan st ! pos) = seg_start s")
      case False
      then have "filter_segment I s st = Inr (keep_segment parent (members_in I s) s st)"
        using unf Some by (simp only: option.case if_False)
      then show thesis using keep by (rule that)
    next
      case merge: True
      have pos: "pos < length (kept_plan st)" "group_id (kept_plan st ! pos) = parent"
        using invs(11) [of parent pos] Some by simp_all
      then obtain ks p where K: "kept_plan st = ks @ [p]" by (metis length_0_conv less_nat_zero_code rev_exhaust)
      have child: "parent_id s \<noteq> group_id s"
      proof
        assume "parent_id s = group_id s"
        then have "group_id (kept_plan st ! pos) = group_id s" using pos(2) by (simp add: parent_def)
        then have "group_id s \<in> group_id ` set (kept_plan st)" using pos(1) by (metis image_eqI nth_mem)
        moreover have "group_id s \<notin> group_id ` set us" using well_packedD(3) [OF wp] by auto
        ultimately show False using invs(7) by blast
      qed
      have "filter_inv rs I (us @ [s]) (merge_segment (length ks) (members_in I s) s st)"
        by (rule filter_merge [OF wp d I inv True child K]) (use merge K in auto)
      moreover have "pos = length ks" using merge K by simp
      moreover have "filter_segment I s st = Inr (merge_segment pos (members_in I s) s st)"
        using unf unfolding Some option.case if_P [OF merge] .
      ultimately show thesis using that by simp
    qed
  qed
qed

lemma filter_segments_inv:
  "well_packed rs (us @ ss) \<Longrightarrow> distinct I \<Longrightarrow> \<forall>i \<in> set I. i < length rs \<Longrightarrow> filter_inv rs I us st \<Longrightarrow>
   \<exists>st'. foldE (filter_segment I) ss st = Inr st' \<and> filter_inv rs I (us @ ss) st'"
proof (induction ss arbitrary: us st)
  case (Cons s ss)
  obtain st1 where st1: "filter_segment I s st = Inr st1" "filter_inv rs I (us @ [s]) st1"
    by (rule filter_segment_inv [OF Cons.prems])
  from Cons.IH [of "us @ [s]" st1] Cons.prems st1 show ?case by simp
qed simp

lemma filtered_plan:
  assumes wp: "well_packed rs segs" and d: "distinct I" and I: "\<forall>i \<in> set I. i < length rs"
  obtains plan where "filtered_prefix_tree_plan segs I = Inr plan"
    and "well_packed (map ((!) rs) I) (rp_segments plan)"
    and "rp_length plan = plan_length (rp_segments plan)"
    and "rp_length plan = sum_list (map seg_length (filter (hits I) segs))"
proof -
  let ?st = "\<lparr>aliases = Map.empty, group_positions = Map.empty, kept_plan = [], filter_cursor = 0\<rparr>"
  have "filter_inv rs I [] ?st" by (simp add: filter_inv_def)
  with filter_segments_inv [of rs "[]" segs I ?st] assms obtain st where
    st: "foldE (filter_segment I) segs ?st = Inr st" "filter_inv rs I segs st" by auto
  note invs = filter_invD [OF st(2)]
  let ?plan = "\<lparr>rp_segments = kept_plan st, rp_length = filter_cursor st\<rparr>"
  have "well_packed (map ((!) rs) I) (kept_plan st)"
    unfolding well_packed_def
  proof (intro conjI allI impI ballI)
    fix j assume "j < length (map ((!) rs) I)"
    then have j: "j < length I" by simp
    then have "I ! j < length rs" using I by simp
    from seg_chain_length [OF well_packedD(1) [OF wp this]] invs(1) [OF j] j
    show "seg_chain 0 (length (map ((!) rs) I ! j)) None (path j (kept_plan st))" by simp
  qed (use invs in auto)
  with st(1) invs(12,13) show thesis
    by (intro that [of ?plan]) (simp_all add: filtered_prefix_tree_plan_def)
qed

section \<open>Bins\<close>

definition path_ids :: "pack_segment list \<Rightarrow> nat \<Rightarrow> nat set" where
  "path_ids segs i = {k. k < length segs \<and> i \<in> set (sequence_indices (segs ! k))}"

lemma segment_paths_facts:
  "fst ` set (segment_paths segs i) = path_ids segs i"
  "distinct (map fst (segment_paths segs i))"
  "p \<in> set (segment_paths segs i) \<Longrightarrow> snd p = seg_length (segs ! fst p)"
proof -
  have mem: "set (segment_paths segs i) = (\<lambda>k. (k, seg_length (segs ! k))) ` path_ids segs i"
    by (force simp: segment_paths_def path_ids_def in_set_enumerate_eq)
  show "fst ` set (segment_paths segs i) = path_ids segs i" unfolding mem by force
  show "p \<in> set (segment_paths segs i) \<Longrightarrow> snd p = seg_length (segs ! fst p)" unfolding mem by auto
  have "map fst (segment_paths segs i) = map fst (filter (\<lambda>(k, s). i \<in> set (sequence_indices s)) (List.enumerate 0 segs))"
    by (auto simp: segment_paths_def)
  moreover have "distinct (map fst (List.enumerate 0 segs))" by simp
  ultimately show "distinct (map fst (segment_paths segs i))" by (metis distinct_map_filter)
qed

lemma sum_path:
  assumes "distinct (map fst ps)" and "\<And>p. p \<in> set ps \<Longrightarrow> snd p = w (fst p)"
  shows "sum_list (map snd (filter (\<lambda>p. fst p \<notin> X) ps)) = (\<Sum>k \<in> fst ` set ps - X. w k)"
  using assms
proof (induction ps)
  case (Cons p ps)
  then have IH: "sum_list (map snd (filter (\<lambda>p. fst p \<notin> X) ps)) = (\<Sum>k \<in> fst ` set ps - X. w k)" by simp
  have fresh: "fst p \<notin> fst ` set ps" using Cons.prems(1) by auto
  show ?case
  proof (cases "fst p \<in> X")
    case True
    then have "fst ` set (p # ps) - X = fst ` set ps - X" by auto
    with True IH show ?thesis by simp
  next
    case False
    then have "fst ` set (p # ps) - X = insert (fst p) (fst ` set ps - X)" by auto
    with False IH fresh Cons.prems(2) [of p] show ?thesis by simp
  qed
qed simp

definition leaf_ok :: "pack_segment list \<Rightarrow> pack_leaf \<Rightarrow> bool" where
  "leaf_ok segs l \<longleftrightarrow> segment_path l = segment_paths segs (leaf_item l) \<and>
     empty_bin_cost l = sum_list (map snd (segment_path l))"

definition bin_ok :: "pack_segment list \<Rightarrow> nat \<Rightarrow> pack_bin \<Rightarrow> bool" where
  "bin_ok segs seq_len b \<longleftrightarrow> bin_leaves b \<noteq> [] \<and> (\<forall>l \<in> set (bin_leaves b). leaf_ok segs l) \<and>
     occupied_segments b = (\<Union>l \<in> set (bin_leaves b). path_ids segs (leaf_item l)) \<and>
     token_count b = (\<Sum>k \<in> occupied_segments b. seg_length (segs ! k)) \<and> token_count b \<le> seq_len"

lemma path_ids_finite [simp]: "finite (path_ids segs i)"
  by (simp add: path_ids_def)

lemma insertion_delta_sum:
  "leaf_ok segs l \<Longrightarrow> insertion_delta b l = (\<Sum>k \<in> path_ids segs (leaf_item l) - occupied_segments b. seg_length (segs ! k))"
  unfolding insertion_delta_def leaf_ok_def
  using sum_path [OF segment_paths_facts(2), of segs "leaf_item l" "\<lambda>k. seg_length (segs ! k)" "occupied_segments b"]
    segment_paths_facts(1) [of segs "leaf_item l"] segment_paths_facts(3) [of _ segs "leaf_item l"] by simp

lemma bin_add_ok:
  assumes l: "leaf_ok segs l" and fits: "token_count b + insertion_delta b l \<le> seq_len"
    and b: "b = new_bin \<or> bin_ok segs seq_len b"
  shows "bin_ok segs seq_len (bin_add b l)"
proof -
  have occ: "occupied_segments b = (\<Union>l \<in> set (bin_leaves b). path_ids segs (leaf_item l))"
    and cnt: "token_count b = (\<Sum>k \<in> occupied_segments b. seg_length (segs ! k))"
    and ls: "\<forall>l \<in> set (bin_leaves b). leaf_ok segs l"
    using b by (auto simp: new_bin_def bin_ok_def)
  have fin: "finite (occupied_segments b)" unfolding occ by simp
  let ?P = "path_ids segs (leaf_item l)"
  have "(\<Sum>k \<in> occupied_segments b \<union> ?P. seg_length (segs ! k))
      = (\<Sum>k \<in> occupied_segments b. seg_length (segs ! k)) + (\<Sum>k \<in> ?P - occupied_segments b. seg_length (segs ! k))"
    using fin by (subst sum.union_disjoint [symmetric]) (auto intro: sum.cong)
  with cnt have "token_count b + insertion_delta b l = (\<Sum>k \<in> occupied_segments b \<union> ?P. seg_length (segs ! k))"
    by (simp add: insertion_delta_sum [OF l])
  moreover have "fst ` set (segment_path l) = ?P" using l by (simp add: leaf_ok_def segment_paths_facts)
  ultimately show ?thesis
    using fits ls l occ by (auto simp: bin_ok_def bin_add_def)
qed

text \<open>The search returns a bin with room, and none only when no bin has room.\<close>

lemma best_bin_spec:
  assumes "best_bin seq_len l i bs best remaining = r"
  shows "r = best \<or> (\<exists>k < length bs. r = Some (i + k) \<and> token_count (bs ! k) + insertion_delta (bs ! k) l \<le> seq_len)"
    and "\<forall>b \<in> set bs. seq_len < token_count b + insertion_delta b l \<or>
      remaining \<le> seq_len - (token_count b + insertion_delta b l) \<or> r \<noteq> best \<or> best \<noteq> None"
  using assms
proof (induction seq_len l i bs best remaining rule: best_bin.induct)
  case (2 seq_len l i b bs best remaining)
  let ?c = "token_count b + insertion_delta b l"
  case 1
  show ?case
  proof (cases "?c \<le> seq_len \<and> seq_len - ?c < remaining")
    case True
    with 1 "2.IH"(1) [OF refl True] have "r = Some i \<or>
        (\<exists>k < length bs. r = Some (Suc i + k) \<and> token_count (bs ! k) + insertion_delta (bs ! k) l \<le> seq_len)"
      by (simp add: Let_def)
    then show ?thesis
    proof
      assume "r = Some i"
      with True show ?thesis by (intro disjI2 exI [of _ 0]) simp
    next
      assume "\<exists>k < length bs. r = Some (Suc i + k) \<and> token_count (bs ! k) + insertion_delta (bs ! k) l \<le> seq_len"
      then obtain k where "k < length bs" "r = Some (Suc i + k)" "token_count (bs ! k) + insertion_delta (bs ! k) l \<le> seq_len" by blast
      then show ?thesis by (intro disjI2 exI [of _ "Suc k"]) simp
    qed
  next
    case False
    with 1 "2.IH"(3) [OF refl False] have "r = best \<or>
        (\<exists>k < length bs. r = Some (Suc i + k) \<and> token_count (bs ! k) + insertion_delta (bs ! k) l \<le> seq_len)"
      by (simp add: Let_def)
    then show ?thesis
    proof
      assume "\<exists>k < length bs. r = Some (Suc i + k) \<and> token_count (bs ! k) + insertion_delta (bs ! k) l \<le> seq_len"
      then obtain k where "k < length bs" "r = Some (Suc i + k)" "token_count (bs ! k) + insertion_delta (bs ! k) l \<le> seq_len" by blast
      then show ?thesis by (intro disjI2 exI [of _ "Suc k"]) simp
    qed simp
  qed
  case 2
  show ?case
  proof (cases "?c \<le> seq_len \<and> seq_len - ?c < remaining")
    case True
    with 2 have r: "best_bin seq_len l (Suc i) bs (Some i) (seq_len - ?c) = r" by (simp add: Let_def)
    from "2.IH"(1) [OF refl True r] have "r \<noteq> None" by auto
    then show ?thesis by (cases best) auto
  next
    case False
    with 2 have r: "best_bin seq_len l (Suc i) bs best remaining = r" by (simp add: Let_def)
    from "2.IH"(4) [OF refl False r] False show ?thesis by auto
  qed
qed auto

definition bins_inv :: "pack_segment list \<Rightarrow> nat \<Rightarrow> pack_leaf list \<Rightarrow> pack_bin list \<Rightarrow> bool" where
  "bins_inv segs seq_len ls bins \<longleftrightarrow> (\<forall>b \<in> set bins. bin_ok segs seq_len b) \<and>
     mset (concat (map bin_leaves bins)) = mset ls"

lemma mset_bin_update:
  "i < length bins \<Longrightarrow> mset (concat (map bin_leaves (bins[i := bin_add (bins ! i) l])))
    = add_mset l (mset (concat (map bin_leaves bins)))"
proof (induction bins arbitrary: i)
  case (Cons b bins)
  then show ?case by (cases i) (auto simp: bin_add_def)
qed simp

lemma place_leaf_inv:
  assumes "place_leaf seq_len l bins = Inr bins'" and inv: "bins_inv segs seq_len ls bins" and l: "leaf_ok segs l"
  shows "bins_inv segs seq_len (ls @ [l]) bins'"
proof -
  have cost: "empty_bin_cost l \<le> seq_len" and bins': "bins' = (case best_bin seq_len l 0 bins None (seq_len + 1) of
          None \<Rightarrow> bins @ [bin_add new_bin l] | Some i \<Rightarrow> bins[i := bin_add (bins ! i) l])"
    using assms(1) by (auto simp: place_leaf_def ensure_Inr_iff)
  show ?thesis
  proof (cases "best_bin seq_len l 0 bins None (seq_len + 1)")
    case None
    have "insertion_delta new_bin l = empty_bin_cost l"
      using l by (simp add: insertion_delta_def new_bin_def leaf_ok_def)
    then have "bin_ok segs seq_len (bin_add new_bin l)"
      using cost by (intro bin_add_ok [OF l]) (simp_all add: new_bin_def)
    with None inv bins' show ?thesis by (auto simp: bins_inv_def bin_add_def new_bin_def)
  next
    case (Some i)
    with best_bin_spec(1) [OF Some]
    have i: "i < length bins" "token_count (bins ! i) + insertion_delta (bins ! i) l \<le> seq_len" by auto
    have "bin_ok segs seq_len (bin_add (bins ! i) l)"
      using inv i by (intro bin_add_ok [OF l]) (auto simp: bins_inv_def)
    with Some inv bins' i(1) mset_bin_update [OF i(1), of l] show ?thesis
      by (auto simp: bins_inv_def dest: set_update_subset_insert [THEN subsetD])
  qed
qed

lemma place_leaves_inv:
  "foldE (place_leaf seq_len) ls bins = Inr bins' \<Longrightarrow> bins_inv segs seq_len ks bins \<Longrightarrow> \<forall>l \<in> set ls. leaf_ok segs l \<Longrightarrow>
   bins_inv segs seq_len (ks @ ls) bins'"
proof (induction ls arbitrary: bins ks)
  case (Cons l ls)
  then obtain bins1 where b: "place_leaf seq_len l bins = Inr bins1" "foldE (place_leaf seq_len) ls bins1 = Inr bins'"
    by (auto simp: bindE_Inr_iff)
  from place_leaf_inv [OF b(1) Cons.prems(2)] Cons.prems(3)
  have "bins_inv segs seq_len (ks @ [l]) bins1" by simp
  from Cons.IH [OF b(2) this] Cons.prems(3) show ?case by simp
qed simp

lemma place_leaves_total:
  "\<forall>l \<in> set ls. empty_bin_cost l \<le> seq_len \<Longrightarrow> \<exists>bins'. foldE (place_leaf seq_len) ls bins = Inr bins'"
  by (induction ls arbitrary: bins) (auto simp: place_leaf_def)

lemma concat_sort_key_mset: "mset (concat (sort_key f gs)) = mset (concat gs)"
proof -
  have "mset (sort_key f gs) = mset gs" by simp
  then show ?thesis by (metis mset_concat mset_map sum_mset_sum_list)
qed

lemma place_prefix_tree_leaves_sound:
  assumes "place_prefix_tree_leaves groups seq_len ordered = Inr bins"
    and "\<forall>l \<in> set (concat groups). leaf_ok segs l"
  shows "(\<forall>b \<in> set bins. bin_ok segs seq_len b) \<and> mset (concat (map bin_leaves bins)) = mset (concat groups)"
proof -
  let ?ls = "concat (if ordered then groups else sort_key (\<lambda>g. - int (group_cost g)) groups)"
  have m: "mset ?ls = mset (concat groups)" by (simp add: concat_sort_key_mset)
  have "set ?ls = set (concat groups)" using m by (metis set_mset_mset)
  then have "\<forall>l \<in> set ?ls. leaf_ok segs l" using assms(2) by simp
  moreover have "foldE (place_leaf seq_len) ?ls [] = Inr bins"
    using assms(1) by (simp add: place_prefix_tree_leaves_def)
  moreover have "bins_inv segs seq_len [] []" by (simp add: bins_inv_def)
  ultimately have "bins_inv segs seq_len ([] @ ?ls) bins" using place_leaves_inv by blast
  with m show ?thesis by (simp add: bins_inv_def)
qed

section \<open>Rows\<close>

lemma segment_paths_cost: "sum_list (map snd (segment_paths segs i)) = plan_length (path i segs)"
proof -
  have "map snd (map (\<lambda>(k, s). (k, seg_length s)) (filter (\<lambda>(k, s). i \<in> set (sequence_indices s)) (List.enumerate n segs)))
      = map seg_length (filter (\<lambda>s. i \<in> set (sequence_indices s)) segs)" for n
    by (induction segs arbitrary: n) auto
  then show ?thesis by (simp add: segment_paths_def plan_length_def path_def)
qed

lemma sum_list_filter_index:
  "sum_list (map f (filter p xs)) = (\<Sum>k \<in> {k. k < length xs \<and> p (xs ! k)}. f (xs ! k) :: nat)"
proof (induction xs rule: rev_induct)
  case (snoc x xs)
  have *: "{k. k < length (xs @ [x]) \<and> p ((xs @ [x]) ! k)}
      = {k. k < length xs \<and> p (xs ! k)} \<union> (if p x then {length xs} else {})"
    by (auto simp: nth_append less_Suc_eq)
  have same: "(\<Sum>k \<in> {k. k < length xs \<and> p (xs ! k)}. f ((xs @ [x]) ! k)) = (\<Sum>k \<in> {k. k < length xs \<and> p (xs ! k)}. f (xs ! k))"
    by (rule sum.cong) (auto simp: nth_append)
  show ?case
  proof (cases "p x")
    case True
    then have "(\<Sum>k \<in> {k. k < length (xs @ [x]) \<and> p ((xs @ [x]) ! k)}. f ((xs @ [x]) ! k))
        = f ((xs @ [x]) ! length xs) + (\<Sum>k \<in> {k. k < length xs \<and> p (xs ! k)}. f ((xs @ [x]) ! k))"
      unfolding * by simp
    with True same snoc show ?thesis by simp
  next
    case False
    then have "{k. k < length (xs @ [x]) \<and> p ((xs @ [x]) ! k)} = {k. k < length xs \<and> p (xs ! k)}" unfolding * by simp
    with False same snoc show ?thesis by simp
  qed
qed simp

lemma bin_occupancy:
  assumes "bin_ok segs seq_len b"
  shows "token_count b = sum_list (map seg_length (filter (hits (map leaf_item (bin_leaves b))) segs))"
proof -
  have "occupied_segments b = {k. k < length segs \<and> hits (map leaf_item (bin_leaves b)) (segs ! k)}"
    using assms by (auto simp: bin_ok_def path_ids_def hits_def)
  with assms show ?thesis by (simp add: bin_ok_def sum_list_filter_index)
qed

lemma distinct_concat_member: "distinct (concat xss) \<Longrightarrow> xs \<in> set xss \<Longrightarrow> distinct xs"
  by (simp add: distinct_concat_iff)

text \<open>
  A row and its plan beside the occupancy it was placed by: the restriction of the global
  plan, which fits. Without rebuilding that is the plan; a rebuilt plan reports its length
  cut at the sequence length, and that is at most the occupancy.
\<close>

definition row_fits :: "nat \<Rightarrow> bool \<Rightarrow> 'a tree_sequence_scheme list \<Rightarrow> row_plan \<Rightarrow> bool" where
  "row_fits seq_len rebuild row plan \<longleftrightarrow> (\<exists>occ. well_packed (map sq_tokens row) occ \<and> plan_length occ \<le> seq_len \<and>
     (if rebuild then rp_length plan = min (plan_length (rp_segments plan)) seq_len \<and> rp_length plan \<le> plan_length occ
      else rp_segments plan = occ \<and> rp_length plan = plan_length occ))"

lemma plan_bin_sound:
  assumes wp: "well_packed (map sq_tokens items) segs" and b: "bin_ok segs seq_len b"
    and d: "distinct (map leaf_item (bin_leaves b))" and bound: "\<forall>l \<in> set (bin_leaves b). leaf_item l < length items"
  shows "\<exists>plan. plan_bin items seq_len min_shared False segs b = Inr (map (\<lambda>l. items ! leaf_item l) (bin_leaves b), plan) \<and>
      rp_length plan = plan_length (rp_segments plan)"
    and "plan_bin items seq_len min_shared rebuild segs b = Inr (row, plan) \<Longrightarrow>
      row = map (\<lambda>l. items ! leaf_item l) (bin_leaves b) \<and> row \<noteq> [] \<and> rp_length plan \<le> seq_len \<and>
      rp_length plan \<le> token_count b \<and>
      well_packed (map sq_tokens row) (rp_segments plan) \<and> (\<not> rebuild \<longrightarrow> rp_length plan = plan_length (rp_segments plan)) \<and>
      row_fits seq_len rebuild row plan"
proof -
  let ?I = "map leaf_item (bin_leaves b)"
  let ?row = "map (\<lambda>l. items ! leaf_item l) (bin_leaves b)"
  have I: "\<forall>i \<in> set ?I. i < length (map sq_tokens items)" using bound by simp
  obtain occ where occ: "filtered_prefix_tree_plan segs ?I = Inr occ"
    "well_packed (map ((!) (map sq_tokens items)) ?I) (rp_segments occ)"
    "rp_length occ = plan_length (rp_segments occ)"
    "rp_length occ = sum_list (map seg_length (filter (hits ?I) segs))"
    by (rule filtered_plan [OF wp d I])
  have toks: "map ((!) (map sq_tokens items)) ?I = map sq_tokens ?row" using bound by simp
  have count: "rp_length occ = token_count b" using occ(4) bin_occupancy [OF b] by simp
  have cap: "token_count b \<le> seq_len" "?row \<noteq> []" using b unfolding bin_ok_def by (blast, simp)
  show "\<exists>plan. plan_bin items seq_len min_shared False segs b = Inr (?row, plan) \<and>
      rp_length plan = plan_length (rp_segments plan)"
    using occ(1,3) count by (simp add: plan_bin_def Let_def)
  show "plan_bin items seq_len min_shared rebuild segs b = Inr (row, plan) \<Longrightarrow>
      row = ?row \<and> row \<noteq> [] \<and> rp_length plan \<le> seq_len \<and> rp_length plan \<le> token_count b \<and>
      well_packed (map sq_tokens row) (rp_segments plan) \<and> (\<not> rebuild \<longrightarrow> rp_length plan = plan_length (rp_segments plan)) \<and>
      row_fits seq_len rebuild row plan"
  proof (cases rebuild)
    case False
    assume "plan_bin items seq_len min_shared rebuild segs b = Inr (row, plan)"
    with False occ(1) count have "row = ?row" "plan = occ" by (simp_all add: plan_bin_def Let_def)
    moreover have packed: "well_packed (map sq_tokens ?row) (rp_segments occ)" using occ(2) unfolding toks .
    moreover have "row_fits seq_len rebuild ?row occ" using False packed occ(3) count cap(1) by (simp add: row_fits_def)
    ultimately show ?thesis using occ(3) count cap by simp
  next
    case True
    assume p: "plan_bin items seq_len min_shared rebuild segs b = Inr (row, plan)"
    with True occ(1) count have *: "row = ?row" "prefix_tree_row_plan ?row seq_len True min_shared = Inr plan"
      "rp_length plan \<le> rp_length occ"
      by (auto simp: plan_bin_def Let_def result_iffs)
    from *(2) have "well_packed (map sq_tokens ?row) (rp_segments plan)"
      by (auto simp: prefix_tree_row_plan_def bindE_Inr_iff intro: prefix_tree_pack_segments_Inr)
    moreover have "rp_length plan = min (plan_length (rp_segments plan)) seq_len"
      using *(2) by (auto simp: prefix_tree_row_plan_def bindE_Inr_iff plan_length_def)
    then have "row_fits seq_len rebuild ?row plan"
      using True *(3) occ(2,3) count cap(1) unfolding row_fits_def toks
      by (intro exI [of _ "rp_segments occ"]) simp
    ultimately show ?thesis using * True count cap by simp
  qed
qed

lemma leaves_of_items:
  "map leaf_item (map (\<lambda>(i, item). leaf_of segs i item) (List.enumerate 0 items)) = [0..<length items]"
  "l \<in> set (map (\<lambda>(i, item). leaf_of segs i item) (List.enumerate 0 items)) \<Longrightarrow>
     leaf_ok segs l \<and> leaf_item l < length items \<and> empty_bin_cost l = plan_length (path (leaf_item l) segs)"
proof -
  have "map leaf_item (map (\<lambda>(i, item). leaf_of segs i item) (List.enumerate n items)) = [n..<n + length items]" for n
    by (induction items arbitrary: n) (simp_all add: leaf_of_def upt_conv_Cons del: upt_Suc)
  from this [of 0] show "map leaf_item (map (\<lambda>(i, item). leaf_of segs i item) (List.enumerate 0 items)) = [0..<length items]"
    by simp
  show "l \<in> set (map (\<lambda>(i, item). leaf_of segs i item) (List.enumerate 0 items)) \<Longrightarrow>
     leaf_ok segs l \<and> leaf_item l < length items \<and> empty_bin_cost l = plan_length (path (leaf_item l) segs)"
    by (auto simp: leaf_of_def leaf_ok_def segment_paths_cost in_set_enumerate_eq)
qed

text \<open>Everything the placement of the sequences establishes.\<close>

lemma placement:
  assumes segs: "prefix_tree_pack_segments (map sq_tokens items) depth lengths min_shared = Inr segs"
    and place: "place_prefix_tree_leaves (map snd (group_first_seen leaf_group
      (map (\<lambda>(i, item). leaf_of segs i item) (List.enumerate 0 items)))) seq_len False = Inr bins"
  shows "mset (concat (map (\<lambda>b. map leaf_item (bin_leaves b)) bins)) = mset [0..<length items]"
    and "b \<in> set bins \<Longrightarrow> bin_ok segs seq_len b"
    and "b \<in> set bins \<Longrightarrow> distinct (map leaf_item (bin_leaves b))"
    and "b \<in> set bins \<Longrightarrow> \<forall>l \<in> set (bin_leaves b). leaf_item l < length items"
proof -
  let ?ls = "map (\<lambda>(i, item). leaf_of segs i item) (List.enumerate 0 items)"
  let ?gs = "map snd (group_first_seen leaf_group ?ls)"
  have m: "mset (concat ?gs) = mset ?ls" by (rule group_first_seen_mset)
  then have "set (concat ?gs) = set ?ls" by (metis set_mset_mset)
  then have "\<forall>l \<in> set (concat ?gs). leaf_ok segs l" using leaves_of_items(2) by blast
  from place_prefix_tree_leaves_sound [OF place this]
  have bins: "\<forall>b \<in> set bins. bin_ok segs seq_len b" "mset (concat (map bin_leaves bins)) = mset ?ls"
    using m by simp_all
  show all: "mset (concat (map (\<lambda>b. map leaf_item (bin_leaves b)) bins)) = mset [0..<length items]"
  proof -
    have "concat (map (\<lambda>b. map leaf_item (bin_leaves b)) bins) = map leaf_item (concat (map bin_leaves bins))"
      by (simp add: map_concat comp_def)
    then have "mset (concat (map (\<lambda>b. map leaf_item (bin_leaves b)) bins)) = image_mset leaf_item (mset ?ls)"
      using bins(2) by simp
    also have "\<dots> = mset (map leaf_item ?ls)" by (rule mset_map [symmetric])
    finally show ?thesis unfolding leaves_of_items(1) .
  qed
  show "b \<in> set bins \<Longrightarrow> bin_ok segs seq_len b" using bins(1) by blast
  have "distinct (concat (map (\<lambda>b. map leaf_item (bin_leaves b)) bins))"
    using all by (metis distinct_upt mset_eq_imp_distinct_iff)
  then show "b \<in> set bins \<Longrightarrow> distinct (map leaf_item (bin_leaves b))"
    by (rule distinct_concat_member) simp
  show "b \<in> set bins \<Longrightarrow> \<forall>l \<in> set (bin_leaves b). leaf_item l < length items"
  proof
    fix l assume "b \<in> set bins" "l \<in> set (bin_leaves b)"
    then have "l \<in> set (concat (map bin_leaves bins))" by auto
    then have "l \<in> set ?ls" using bins(2) by (metis set_mset_mset)
    then show "leaf_item l < length items" using leaves_of_items(2) by blast
  qed
qed

lemma planned_cases:
  assumes "prefix_tree_pack_rows items seq_len True min_shared rebuild = Inr planned"
  obtains "items = []" "planned = []"
  | segs bins where "items \<noteq> []" "prefix_tree_pack_segments (map sq_tokens items)
        (int (Max (set (map (\<lambda>item. length (sq_tokens item)) items)))) (Some (map sq_shareable items)) min_shared = Inr segs"
      and "place_prefix_tree_leaves (map snd (group_first_seen leaf_group
        (map (\<lambda>(i, item). leaf_of segs i item) (List.enumerate 0 items)))) seq_len False = Inr bins"
      and "list_all2 (\<lambda>b r. plan_bin items seq_len min_shared rebuild segs b = Inr r) bins planned"
proof (cases "items = []")
  case True
  with assms show thesis by (intro that(1)) (simp_all add: prefix_tree_pack_rows_def)
next
  case False
  let ?S = "prefix_tree_pack_segments (map sq_tokens items)
        (int (Max (set (map (\<lambda>item. length (sq_tokens item)) items)))) (Some (map sq_shareable items)) min_shared"
  from assms have "bindE ?S (\<lambda>segs.
        let leaves = map (\<lambda>(i, item). leaf_of segs i item) (List.enumerate 0 items) in
        ensure (\<not> list_ex (\<lambda>leaf. empty_bin_cost leaf > seq_len) leaves)
          (RuntimeError ''Prefix-tree pack item exceeds sequence length'')
       (bindE (place_prefix_tree_leaves (map snd (group_first_seen leaf_group leaves)) seq_len False)
         (mapE (plan_bin items seq_len min_shared rebuild segs)))) = Inr planned"
    unfolding prefix_tree_pack_rows_def by (simp only: False if_False not_True_eq_False)
  then obtain segs where segs: "?S = Inr segs" and
    rest: "bindE (place_prefix_tree_leaves (map snd (group_first_seen leaf_group
        (map (\<lambda>(i, item). leaf_of segs i item) (List.enumerate 0 items)))) seq_len False)
      (mapE (plan_bin items seq_len min_shared rebuild segs)) = Inr planned"
    unfolding bindE_Inr_iff Let_def ensure_Inr_iff by blast
  from rest obtain bins where "place_prefix_tree_leaves (map snd (group_first_seen leaf_group
        (map (\<lambda>(i, item). leaf_of segs i item) (List.enumerate 0 items)))) seq_len False = Inr bins"
    "mapE (plan_bin items seq_len min_shared rebuild segs) bins = Inr planned"
    unfolding bindE_Inr_iff by blast
  with segs False that(2) show thesis unfolding mapE_Inr_iff by blast
qed

text \<open>What holds of a planned row.\<close>

definition row_sound :: "nat \<Rightarrow> bool \<Rightarrow> 'a tree_sequence_scheme list \<times> row_plan \<Rightarrow> bool" where
  "row_sound seq_len rebuild r \<longleftrightarrow> fst r \<noteq> [] \<and> rp_length (snd r) \<le> seq_len \<and>
     well_packed (map sq_tokens (fst r)) (rp_segments (snd r)) \<and>
     (\<not> rebuild \<longrightarrow> rp_length (snd r) = plan_length (rp_segments (snd r))) \<and> row_fits seq_len rebuild (fst r) (snd r)"

lemma planned_rows:
  assumes "prefix_tree_pack_rows items seq_len True min_shared rebuild = Inr planned"
  shows "mset (concat (map fst planned)) = mset items \<and> (\<forall>r \<in> set planned. row_sound seq_len rebuild r)"
  using assms
proof (cases rule: planned_cases)
  case 1
  then show ?thesis by simp
next
  case (2 segs bins)
  note rows = 2(4)
  note pl = placement [OF 2(2,3)]
  have wp: "well_packed (map sq_tokens items) segs" by (rule prefix_tree_pack_segments_Inr [OF 2(2)])
  have each: "fst r = map (\<lambda>l. items ! leaf_item l) (bin_leaves b) \<and> row_sound seq_len rebuild r"
    if "b \<in> set bins" "plan_bin items seq_len min_shared rebuild segs b = Inr r" for b r
  proof -
    have "plan_bin items seq_len min_shared rebuild segs b = Inr (fst r, snd r)" using that(2) by simp
    from plan_bin_sound(2) [OF wp pl(2) [OF that(1)] pl(3) [OF that(1)] pl(4) [OF that(1)] this] show ?thesis
      unfolding row_sound_def by blast
  qed
  have "list_all2 (\<lambda>b r. fst r = map (\<lambda>l. items ! leaf_item l) (bin_leaves b)) bins planned"
    by (rule list.rel_mono_strong [OF rows]) (use each in blast)
  then have "map fst planned = map (\<lambda>b. map (\<lambda>l. items ! leaf_item l) (bin_leaves b)) bins"
    by (induction bins planned rule: list_all2_induct) simp_all
  also have "\<dots> = map (map ((!) items)) (map (\<lambda>b. map leaf_item (bin_leaves b)) bins)" by simp
  finally have "concat (map fst planned) = map ((!) items) (concat (map (\<lambda>b. map leaf_item (bin_leaves b)) bins))"
    by (simp only: map_concat)
  then have "mset (concat (map fst planned)) = image_mset ((!) items) (mset [0..<length items])"
    using pl(1) by simp
  also have "\<dots> = mset (map ((!) items) [0..<length items])" by (rule mset_map [symmetric])
  finally have "mset (concat (map fst planned)) = mset items" by (simp only: map_nth)
  moreover have "row_sound seq_len rebuild r" if r: "r \<in> set planned" for r
  proof -
    obtain k where "k < length planned" "r = planned ! k" using r by (metis in_set_conv_nth)
    then have "bins ! k \<in> set bins" "plan_bin items seq_len min_shared rebuild segs (bins ! k) = Inr r"
      using list_all2_lengthD [OF rows] list_all2_nthD [OF rows, of k] by simp_all
    from each [OF this] show ?thesis by blast
  qed
  ultimately show ?thesis by blast
qed

section \<open>Properties of the row planner\<close>

text \<open>
  C11. The restriction of a packing plan to any set of distinct sequences exists (the
  alias chain is always followed to its end) and is itself a packing plan of those
  sequences, in their order; its length is what the segments used by at least one of them
  occupied in the global plan.
\<close>

theorem filtered_plan_is_plan:
  assumes "prefix_tree_pack_segments rs depth lengths min_shared = Inr segs"
    and "distinct I" and "\<forall>i \<in> set I. i < length rs"
  shows "\<exists>plan. filtered_prefix_tree_plan segs I = Inr plan \<and>
    well_packed (map ((!) rs) I) (rp_segments plan) \<and> rp_length plan = plan_length (rp_segments plan) \<and>
    rp_length plan = sum_list (map seg_length (filter (hits I) segs))"
  using filtered_plan [OF prefix_tree_pack_segments_Inr [OF assms(1)] assms(2,3)] by metis

lemma forest_example:
  "prefix_tree_pack_segments [[1, 2, 3], [1, 2, 4], [1, 2, 3, 5]] 3 None 1 = Inr
    [\<lparr>sequence_indices = [0, 1, 2], seg_start = 0, seg_end = 2, group_id = 1, parent_id = 1, packed_start = 0\<rparr>,
     \<lparr>sequence_indices = [0, 2], seg_start = 2, seg_end = 3, group_id = 2, parent_id = 1, packed_start = 2\<rparr>,
     \<lparr>sequence_indices = [2], seg_start = 3, seg_end = 4, group_id = 3, parent_id = 2, packed_start = 3\<rparr>,
     \<lparr>sequence_indices = [1], seg_start = 2, seg_end = 3, group_id = 4, parent_id = 1, packed_start = 4\<rparr>]"
  by code_simp

theorem filtered_plan_is_plan_witness:
  "\<exists>plan. filtered_prefix_tree_plan
      [\<lparr>sequence_indices = [0, 1, 2], seg_start = 0, seg_end = 2, group_id = 1, parent_id = 1, packed_start = 0\<rparr>,
       \<lparr>sequence_indices = [0, 2], seg_start = 2, seg_end = 3, group_id = 2, parent_id = 1, packed_start = 2\<rparr>,
       \<lparr>sequence_indices = [2], seg_start = 3, seg_end = 4, group_id = 3, parent_id = 2, packed_start = 3\<rparr>,
       \<lparr>sequence_indices = [1], seg_start = 2, seg_end = 3, group_id = 4, parent_id = 1, packed_start = 4\<rparr>] [2, 0] = Inr plan \<and>
    well_packed [[1, 2, 3, 5], [1, 2, 3]] (rp_segments plan) \<and> rp_length plan = 4"
  using filtered_plan_is_plan [OF forest_example, of "[2, 0]"] by (auto simp: hits_def seg_length_def)



lemma pack_segments_accepts:
  "0 \<le> depth \<Longrightarrow> 0 \<le> min_shared \<Longrightarrow> length values = length rs \<Longrightarrow>
   \<exists>segs. prefix_tree_pack_segments rs depth (Some values) min_shared = Inr segs"
  by (simp add: prefix_tree_pack_segments_def shareable_row_lengths_def)

lemma place_groups_total:
  assumes "\<forall>l \<in> set (concat groups). empty_bin_cost l \<le> seq_len"
  shows "\<exists>bins. place_prefix_tree_leaves groups seq_len ordered = Inr bins"
proof -
  let ?ls = "concat (if ordered then groups else sort_key (\<lambda>g. - int (group_cost g)) groups)"
  have "mset ?ls = mset (concat groups)" by (simp add: concat_sort_key_mset)
  then have "set ?ls = set (concat groups)" by (metis set_mset_mset)
  with assms have "\<forall>l \<in> set ?ls. empty_bin_cost l \<le> seq_len" by simp
  from place_leaves_total [OF this, of "[]"] show ?thesis by (simp add: place_prefix_tree_leaves_def)
qed

text \<open>An empty bin holds a sequence at the price of its tokens.\<close>

lemma leaves_by_index:
  "map (\<lambda>(i, item). leaf_of segs i item) (List.enumerate 0 items) = map (\<lambda>i. leaf_of segs i (items ! i)) [0..<length items]"
  by (rule nth_equalityI) (simp_all add: nth_enumerate_eq)

lemma leaves_cost:
  assumes "well_packed (map sq_tokens items) segs"
  shows "list_ex (\<lambda>leaf. empty_bin_cost leaf > seq_len) (map (\<lambda>(i, item). leaf_of segs i item) (List.enumerate 0 items))
    \<longleftrightarrow> (\<exists>item \<in> set items. length (sq_tokens item) > seq_len)"
proof -
  have cost: "empty_bin_cost (leaf_of segs i item) = length (sq_tokens (items ! i))" if "i < length items" for i item
  proof -
    have "seg_chain 0 (length (map sq_tokens items ! i)) None (path i segs)"
      using well_packedD(1) [OF assms] that by simp
    from seg_chain_length [OF this] that show ?thesis by (simp add: leaf_of_def segment_paths_cost)
  qed
  have "list_ex (\<lambda>leaf. empty_bin_cost leaf > seq_len) (map (\<lambda>(i, item). leaf_of segs i item) (List.enumerate 0 items))
    \<longleftrightarrow> (\<exists>i < length items. empty_bin_cost (leaf_of segs i (items ! i)) > seq_len)"
    unfolding leaves_by_index by (auto simp: list_ex_iff)
  also have "\<dots> \<longleftrightarrow> (\<exists>i < length items. length (sq_tokens (items ! i)) > seq_len)" by (rule ex_cong1) (metis cost)
  also have "\<dots> \<longleftrightarrow> (\<exists>item \<in> set items. length (sq_tokens item) > seq_len)" by (metis in_set_conv_nth)
  finally show ?thesis .
qed

text \<open>
  C13. Packing without rebuilding succeeds exactly when every item alone fits a row: the
  only exception is the one for an item that is too long.  In particular the search
  places every item, and the check that the global occupancy agrees with the plan of the
  bin never fires.
\<close>

theorem pack_rows_total:
  assumes "0 \<le> min_shared"
  shows "((\<exists>planned. prefix_tree_pack_rows items seq_len True min_shared False = Inr planned) \<longleftrightarrow>
      (\<forall>item \<in> set items. length (sq_tokens item) \<le> seq_len)) \<and>
    (\<forall>e. prefix_tree_pack_rows items seq_len True min_shared False = Inl e \<longrightarrow>
      e = RuntimeError ''Prefix-tree pack item exceeds sequence length'')"
proof -
  let ?P = "prefix_tree_pack_rows items seq_len True min_shared False"
  let ?over = "Inl (RuntimeError ''Prefix-tree pack item exceeds sequence length'')"
  have *: "(\<forall>item \<in> set items. length (sq_tokens item) \<le> seq_len) \<and> (\<exists>planned. ?P = Inr planned) \<or>
      \<not> (\<forall>item \<in> set items. length (sq_tokens item) \<le> seq_len) \<and> ?P = ?over"
  proof (cases "items = []")
    case True
    then show ?thesis by (simp add: prefix_tree_pack_rows_def)
  next
    case False
    obtain segs where segs: "prefix_tree_pack_segments (map sq_tokens items)
        (int (Max (set (map (\<lambda>item. length (sq_tokens item)) items)))) (Some (map sq_shareable items)) min_shared = Inr segs"
      using pack_segments_accepts [OF _ assms, of _ "map sq_shareable items" "map sq_tokens items"] by fastforce
    have wp: "well_packed (map sq_tokens items) segs" by (rule prefix_tree_pack_segments_Inr [OF segs])
    let ?leaves = "map (\<lambda>(i, item). leaf_of segs i item) (List.enumerate 0 items)"
    have P: "?P = ensure (\<not> list_ex (\<lambda>leaf. empty_bin_cost leaf > seq_len) ?leaves)
          (RuntimeError ''Prefix-tree pack item exceeds sequence length'')
       (bindE (place_prefix_tree_leaves (map snd (group_first_seen leaf_group ?leaves)) seq_len False)
         (mapE (plan_bin items seq_len min_shared False segs)))"
      unfolding prefix_tree_pack_rows_def segs by (simp only: False if_False not_True_eq_False bindE_simps Let_def)
    show ?thesis
    proof (cases "\<exists>item \<in> set items. length (sq_tokens item) > seq_len")
      case True
      then have "?P = ?over" unfolding P leaves_cost [OF wp] by simp
      with True show ?thesis using linorder_not_le by blast
    next
      case fits: False
      then have small: "\<not> list_ex (\<lambda>leaf. empty_bin_cost leaf > seq_len) ?leaves" unfolding leaves_cost [OF wp] .
      let ?groups = "map snd (group_first_seen leaf_group ?leaves)"
      have "mset (concat ?groups) = mset ?leaves" by (rule group_first_seen_mset)
      then have "set (concat ?groups) = set ?leaves" by (metis set_mset_mset)
      then have "\<forall>l \<in> set (concat ?groups). empty_bin_cost l \<le> seq_len"
        using small by (simp only: list_ex_iff) (meson linorder_not_less)
      then obtain bins where bins: "place_prefix_tree_leaves ?groups seq_len False = Inr bins"
        using place_groups_total by blast
      note pl = placement [OF segs bins]
      have "\<forall>b \<in> set bins. \<exists>r. plan_bin items seq_len min_shared False segs b = Inr r"
      proof
        fix b assume b: "b \<in> set bins"
        obtain plan where "plan_bin items seq_len min_shared False segs b =
            Inr (map (\<lambda>l. items ! leaf_item l) (bin_leaves b), plan)"
          using plan_bin_sound(1) [OF wp pl(2) [OF b] pl(3) [OF b] pl(4) [OF b], of min_shared] by blast
        then show "\<exists>r. plan_bin items seq_len min_shared False segs b = Inr r" by (rule exI)
      qed
      then have "\<exists>planned. mapE (plan_bin items seq_len min_shared False segs) bins = Inr planned"
        by (rule mapE_total)
      then have "\<exists>planned. ?P = Inr planned" unfolding P bins by (simp only: small not_False_eq_True ensure_simps bindE_simps)
      then show ?thesis using fits linorder_not_le by blast
    qed
  qed
  from * show ?thesis by auto
qed

theorem pack_rows_total_witness:
  "(\<exists>planned. prefix_tree_pack_rows [sequence_of [1, 2, 3] 3 0, sequence_of [1, 2] 2 0] 3 True 1 False = Inr planned) \<and>
   \<not> (\<exists>planned. prefix_tree_pack_rows [sequence_of [1, 2, 3] 3 0, sequence_of [1, 2] 2 0] 2 True 1 False = Inr planned)"
  using pack_rows_total [of 1 "[sequence_of [1, 2, 3] 3 0, sequence_of [1, 2] 2 0]" 3]
    pack_rows_total [of 1 "[sequence_of [1, 2, 3] 3 0, sequence_of [1, 2] 2 0]" 2]
  by (simp add: sequence_of_def)

section \<open>What rebuilding can do\<close>

text \<open>
  A rebuilt row stops sharing where its own shortest shareable prefix ends, which the
  global plan did not have to.  The same four sequences are packed without rebuilding,
  raise when rebuilding grows a row, and lose a token when the grown row is cut at
  \<^verbatim>\<open>seq_len\<close>.
\<close>

definition rebuild_items :: "tree_sequence list" where
  "rebuild_items =
    [sequence_of [1,1,1,1,1,1,20,21,22,23] 4 0, sequence_of [1,1,1,1,1,1,30,31,32,33] 6 0,
     sequence_of [1,1,1,1,1,1,40,41,42,43] 6 0, sequence_of [1,1,1,50,51,52,53] 3 1]"

lemma rebuild_can_raise:
  "is_ok (prefix_tree_pack_rows rebuild_items 22 True 3 False)"
  "prefix_tree_pack_rows rebuild_items 22 True 3 True
     = Inl (RuntimeError ''Final prefix-tree rebuild increased bin occupancy'')"
  by code_simp+

lemma rebuild_can_drop_tokens:
  "(case prefix_tree_pack_rows rebuild_items 21 True 3 True of
      Inl e \<Rightarrow> [] | Inr planned \<Rightarrow> map (\<lambda>(row, plan). (rp_length plan, plan_length (rp_segments plan))) planned)
   = [(21, 22), (7, 7)]"
  by code_simp

section \<open>What rows share\<close>

text \<open>
  A segment several sequences of a row share ends within the shareable length of each of
  them: rebuilt rows share by their own limits, and restricting the global plan only
  merges or drops segments.
\<close>

definition shares_within :: "'a tree_sequence_scheme list \<Rightarrow> pack_segment list \<Rightarrow> bool" where
  "shares_within row segs \<longleftrightarrow> (\<forall>s \<in> set segs. \<forall>i \<in> set (sequence_indices s). \<forall>j \<in> set (sequence_indices s).
     i \<noteq> j \<longrightarrow> int (seg_end s) \<le> sq_shareable (row ! i))"

lemma shares_withinD:
  "shares_within row segs \<Longrightarrow> s \<in> set segs \<Longrightarrow> i \<in> set (sequence_indices s) \<Longrightarrow> j \<in> set (sequence_indices s) \<Longrightarrow>
   i \<noteq> j \<Longrightarrow> int (seg_end s) \<le> sq_shareable (row ! i)"
  unfolding shares_within_def by blast

lemma pack_segments_share_within:
  assumes "prefix_tree_pack_segments (map sq_tokens row) depth (Some (map sq_shareable row)) min_shared = Inr segs"
  shows "shares_within row segs"
  unfolding shares_within_def
proof (intro ballI impI)
  fix s i j assume *: "s \<in> set segs" "i \<in> set (sequence_indices s)" "j \<in> set (sequence_indices s)" "i \<noteq> j"
  have "i < length row"
    using well_packedD(2) [OF prefix_tree_pack_segments_Inr [OF assms] *(1)] *(2)
    by (auto simp: seg_valid_def dest: rows_agree_bound)
  with shared_segment_facts [OF assms *] show "int (seg_end s) \<le> sq_shareable (row ! i)" by simp
qed

text \<open>Every segment of a restricted plan ends where a global segment with the same sequences ends.\<close>

definition covered :: "pack_segment list \<Rightarrow> nat list \<Rightarrow> pack_segment \<Rightarrow> bool" where
  "covered segs I p \<longleftrightarrow> (\<exists>t \<in> set segs. seg_end p = seg_end t \<and>
     (\<forall>j \<in> set (sequence_indices p). j < length I \<and> I ! j \<in> set (sequence_indices t)))"

lemma filter_segment_covered:
  assumes "distinct I" and "filter_segment I s st = Inr st'" and "s \<in> set segs"
    and "\<forall>p \<in> set (kept_plan st). covered segs I p"
  shows "\<forall>p \<in> set (kept_plan st'). covered segs I p"
proof -
  have new: "covered segs I p" if "seg_end p = seg_end s" "sequence_indices p = members_in I s" for p
    unfolding covered_def using that assms(3) members_in_set [OF assms(1), of _ s] by (intro bexI [of _ s]) auto
  have keep: "\<forall>p \<in> set (kept_plan (keep_segment parent (members_in I s) s st)). covered segs I p" for parent
    using assms(4) by (auto simp: keep_segment_def Let_def intro: new)
  have merge: "\<forall>p \<in> set (kept_plan (merge_segment pos (members_in I s) s st)). covered segs I p" for pos
    using assms(4) by (auto simp: merge_segment_def Let_def dest!: set_update_subset_insert [THEN subsetD] intro: new)
  consider "st' = st" | parent where "st' = keep_segment parent (members_in I s) s st"
    | pos where "st' = merge_segment pos (members_in I s) s st"
    using assms(2) unfolding filter_segment_def members_in_def [symmetric] Let_def
    by (auto simp: bindE_Inr_iff split: if_splits option.splits)
  then show ?thesis using assms(4) keep merge by cases simp_all
qed

lemma filtered_plan_covered:
  assumes "distinct I" and "filtered_prefix_tree_plan segs I = Inr plan" and "p \<in> set (rp_segments plan)"
  shows "covered segs I p"
proof -
  obtain st where st: "foldE (filter_segment I) segs
      \<lparr>aliases = Map.empty, group_positions = Map.empty, kept_plan = [], filter_cursor = 0\<rparr> = Inr st"
    and plan: "plan = \<lparr>rp_segments = kept_plan st, rp_length = filter_cursor st\<rparr>"
    using assms(2) by (auto simp: filtered_prefix_tree_plan_def bindE_Inr_iff)
  have "\<forall>p \<in> set (kept_plan st). covered segs I p"
  proof (rule foldE_invariant [OF st])
    fix x s s' assume "x \<in> set segs" "\<forall>p \<in> set (kept_plan s). covered segs I p" "filter_segment I x s = Inr s'"
    then show "\<forall>p \<in> set (kept_plan s'). covered segs I p" using filter_segment_covered [OF assms(1)] by metis
  qed simp
  with plan assms(3) show ?thesis by simp
qed

lemma filtered_plan_shares_within:
  assumes "shares_within items segs" and d: "distinct I" and "filtered_prefix_tree_plan segs I = Inr plan"
  shows "shares_within (map ((!) items) I) (rp_segments plan)"
  unfolding shares_within_def
proof (intro ballI impI)
  fix p i j assume *: "p \<in> set (rp_segments plan)" "i \<in> set (sequence_indices p)" "j \<in> set (sequence_indices p)" "i \<noteq> j"
  obtain t where t: "t \<in> set segs" "seg_end p = seg_end t"
    "\<forall>j \<in> set (sequence_indices p). j < length I \<and> I ! j \<in> set (sequence_indices t)"
    using filtered_plan_covered [OF assms(2,3) *(1)] unfolding covered_def by blast
  have "I ! i \<noteq> I ! j" using t(3) * d by (metis nth_eq_iff_index_eq)
  from shares_withinD [OF assms(1) t(1) _ _ this] t * show "int (seg_end p) \<le> sq_shareable (map ((!) items) I ! i)"
    by auto
qed

lemma planned_rows_share_within:
  assumes "prefix_tree_pack_rows items seq_len True min_shared rebuild = Inr planned" and r: "r \<in> set planned"
  shows "shares_within (fst r) (rp_segments (snd r))"
  using assms(1)
proof (cases rule: planned_cases)
  case 1
  with r show ?thesis by simp
next
  case (2 segs bins)
  obtain k where "k < length planned" "r = planned ! k" using r by (metis in_set_conv_nth)
  then have b: "bins ! k \<in> set bins" "plan_bin items seq_len min_shared rebuild segs (bins ! k) = Inr r"
    using list_all2_lengthD [OF 2(4)] list_all2_nthD [OF 2(4), of k] by simp_all
  let ?b = "bins ! k"
  let ?row = "map (\<lambda>l. items ! leaf_item l) (bin_leaves ?b)"
  have d: "distinct (map leaf_item (bin_leaves ?b))" by (rule placement(3) [OF 2(2,3) b(1)])
  have g: "shares_within items segs" by (rule pack_segments_share_within [OF 2(2)])
  from b(2) obtain occ where occ: "filtered_prefix_tree_plan segs (map leaf_item (bin_leaves ?b)) = Inr occ"
    and rest: "(if \<not> rebuild then Inr (?row, occ)
      else bindE (prefix_tree_row_plan ?row seq_len True min_shared) (\<lambda>plan.
        ensure (\<not> rp_length plan > rp_length occ)
          (RuntimeError ''Final prefix-tree rebuild increased bin occupancy'')
          (Inr (?row, plan)))) = Inr r"
    unfolding plan_bin_def Let_def bindE_Inr_iff ensure_Inr_iff by blast
  show ?thesis
  proof (cases rebuild)
    case False
    have "shares_within ?row (rp_segments occ)"
      using filtered_plan_shares_within [OF g d occ] by (simp add: comp_def)
    with rest False show ?thesis by auto
  next
    case True
    with rest obtain plan where "prefix_tree_row_plan ?row seq_len True min_shared = Inr plan" "r = (?row, plan)"
      by (auto simp: result_iffs)
    then show ?thesis
      using pack_segments_share_within [of ?row]
      by (auto simp: prefix_tree_row_plan_def bindE_Inr_iff comp_def)
  qed
qed

section \<open>The first sequence of a segment\<close>

text \<open>Its data is what a shared segment stores.\<close>

definition first_of :: "'a list \<Rightarrow> pack_segment \<Rightarrow> 'a" where
  "first_of seqs s = seqs ! hd (sequence_indices s)"

lemma first_of_facts:
  assumes wp: "well_packed (map sq_tokens seqs) segs" and s: "s \<in> set segs"
  shows "hd (sequence_indices s) < length seqs" and "sequence_indices s \<noteq> []"
    and "first_of seqs s \<in> set seqs" and "seg_end s \<le> length (sq_tokens (first_of seqs s))"
    and "0 < seg_length s"
proof -
  have m: "sequence_indices s \<noteq> []" "hd (sequence_indices s) \<in> set (sequence_indices s)"
    using well_packed_members [OF assms] by simp_all
  have agree: "rows_agree (map sq_tokens seqs) (set (sequence_indices s)) (seg_end s)"
    using well_packedD(2) [OF assms] by (simp add: seg_valid_def)
  show i: "hd (sequence_indices s) < length seqs" using rows_agree_bound [OF agree m(2)] by simp
  show "sequence_indices s \<noteq> []" by (rule m(1))
  show "first_of seqs s \<in> set seqs" using i by (simp add: first_of_def)
  show "seg_end s \<le> length (sq_tokens (first_of seqs s))"
    using rows_agree_len [OF agree m(2)] i by (simp add: first_of_def)
  show "0 < seg_length s" by (rule well_packed_seg_length [OF assms])
qed

end
