(* ===== verification/Row_Arrays.thy ===== *)
theory Row_Arrays
  imports Segment_Plan
begin

text \<open>
  Writing a packed row: numpy slice assignment, and the loop both materialisers share
  (\<^verbatim>\<open>preprocessing/sft.py\<close>, \<^verbatim>\<open>preprocessing/pack.py\<close>), which writes the segments of a
  plan one after the other into a preallocated row.
\<close>

section \<open>Slice assignment\<close>

text \<open>
  \<open>dst[a:b] = src\<close> clips the slice to the array; a source of another length raises,
  except a single element, which numpy broadcasts.  \<open>fill_slice\<close> assigns a scalar.
\<close>

definition slice_lo :: "'a list \<Rightarrow> nat \<Rightarrow> nat" where
  "slice_lo dst a = min a (length dst)"

definition slice_hi :: "'a list \<Rightarrow> nat \<Rightarrow> nat \<Rightarrow> nat" where
  "slice_hi dst a b = max (slice_lo dst a) (min b (length dst))"

definition fill_slice :: "'a list \<Rightarrow> nat \<Rightarrow> nat \<Rightarrow> 'a \<Rightarrow> 'a list" where
  "fill_slice dst a b v =
     take (slice_lo dst a) dst @ replicate (slice_hi dst a b - slice_lo dst a) v @ drop (slice_hi dst a b) dst"

definition write_slice :: "'a list \<Rightarrow> nat \<Rightarrow> nat \<Rightarrow> 'a list \<Rightarrow> 'a list result" where
  "write_slice dst a b src =
     (if length src = slice_hi dst a b - slice_lo dst a
      then Inr (take (slice_lo dst a) dst @ src @ drop (slice_hi dst a b) dst)
      else if length src = 1 then Inr (fill_slice dst a b (hd src))
      else Inl (ValueError ''could not broadcast input array from shape''))"

lemma slice_bounds_exact [simp]:
  "a + m \<le> length dst \<Longrightarrow> slice_lo dst a = a" "a + m \<le> length dst \<Longrightarrow> slice_hi dst a (a + m) = a + m"
  by (simp_all add: slice_lo_def slice_hi_def)

lemma write_slice_exact:
  "length src = m \<Longrightarrow> a + m \<le> length dst \<Longrightarrow> write_slice dst a (a + m) src = Inr (take a dst @ src @ drop (a + m) dst)"
  using slice_bounds_exact [of a m dst] by (simp add: write_slice_def)

lemma fill_slice_exact:
  "a + m \<le> length dst \<Longrightarrow> fill_slice dst a (a + m) v = take a dst @ replicate m v @ drop (a + m) dst"
  using slice_bounds_exact [of a m dst] by (simp add: fill_slice_def)

section \<open>A row filled segment by segment\<close>

text \<open>
  The row of \<open>n\<close> cells after the segments \<open>us\<close> were written and cut at \<open>L\<close>: the chunks
  in plan order, then the initial value \<open>pad\<close>.
\<close>

definition packed_array :: "('s prefix_segment_scheme \<Rightarrow> 'a list) \<Rightarrow> nat \<Rightarrow> nat \<Rightarrow> 'a \<Rightarrow> 's prefix_segment_scheme list \<Rightarrow> 'a list" where
  "packed_array f L n pad us = take L (materialize f us) @ replicate (n - min L (plan_length us)) pad"

definition chunked :: "('s prefix_segment_scheme \<Rightarrow> 'a list) \<Rightarrow> 's prefix_segment_scheme list \<Rightarrow> bool" where
  "chunked f us \<longleftrightarrow> (\<forall>s \<in> set us. length (f s) = seg_length s)"

lemma packed_array_Nil [simp]: "packed_array f L n pad [] = replicate n pad"
  by (simp add: packed_array_def)

lemma packed_array_length:
  "chunked f us \<Longrightarrow> L \<le> n \<Longrightarrow> length (packed_array f L n pad us) = n"
  by (auto simp: packed_array_def chunked_def materialize_length)

lemma packed_array_full: "L \<le> plan_length us \<Longrightarrow> chunked f us \<Longrightarrow> packed_array f L n pad (us @ [s]) = packed_array f L n pad us"
  by (auto simp: packed_array_def chunked_def materialize_length)

lemma packed_array_step:
  assumes c: "chunked f us" "length (f s) = seg_length s" and L: "plan_length us < L" "L \<le> n"
    and m: "m = min (seg_length s) (L - plan_length us)"
  shows "take (plan_length us) (packed_array f L n pad us) @ take m (f s) @ drop (plan_length us + m) (packed_array f L n pad us)
    = packed_array f L n pad (us @ [s])"
proof -
  have len: "length (materialize f us) = plan_length us" using c(1) by (auto simp: chunked_def intro: materialize_length)
  have whole: "take L (materialize f us) = materialize f us" using len L by simp
  have "take (L - plan_length us) (f s) = take m (f s)" using c(2) m by (simp add: min_def)
  moreover have "n - min L (plan_length us + seg_length s) = n - plan_length us - m"
    using m L by (simp add: min_def) arith
  moreover have "n - min L (plan_length us) = n - plan_length us" using L by simp
  ultimately show ?thesis
    using len whole L by (simp add: packed_array_def drop_replicate)
qed

lemma packed_array_write:
  assumes "chunked f us" "length (f s) = seg_length s" and "plan_length us < L" "L \<le> n"
    and m: "m = min (seg_length s) (L - plan_length us)"
  shows "write_slice (packed_array f L n pad us) (plan_length us) (plan_length us + m) (take m (f s))
    = Inr (packed_array f L n pad (us @ [s]))"
proof -
  have "plan_length us + m \<le> length (packed_array f L n pad us)"
    using assms packed_array_length [OF assms(1,4)] by simp
  moreover have "length (take m (f s)) = m" using assms(2) m by simp
  ultimately show ?thesis
    by (simp add: write_slice_exact packed_array_step [OF assms])
qed

lemma packed_array_fill:
  assumes "chunked f us" "f s = replicate (seg_length s) v" and "plan_length us < L" "L \<le> n"
    and m: "m = min (seg_length s) (L - plan_length us)"
  shows "fill_slice (packed_array f L n pad us) (plan_length us) (plan_length us + m) v = packed_array f L n pad (us @ [s])"
proof -
  have len: "length (f s) = seg_length s" using assms(2) by simp
  have "plan_length us + m \<le> length (packed_array f L n pad us)"
    using assms packed_array_length [OF assms(1,4)] by simp
  moreover have "replicate m v = take m (f s)" using assms(2) m by simp
  ultimately show ?thesis
    by (simp add: fill_slice_exact packed_array_step [OF assms(1) len assms(3-5)])
qed

section \<open>Reading a sequence back\<close>

text \<open>
  Any per-sequence array whose chunks the plan stores is read back at the positions of
  the sequence.
\<close>

lemma read_array:
  assumes wp: "well_packed rs segs" and i: "i < length rs" and len: "length xs = length (rs ! i)"
    and c: "chunked f segs"
    and chunk: "\<And>s. s \<in> set segs \<Longrightarrow> i \<in> set (sequence_indices s) \<Longrightarrow> f s = slice xs (seg_start s) (seg_end s)"
  shows "map ((!) (materialize f segs)) (positions_of i segs) = xs"
proof -
  have "map ((!) (materialize f segs)) (positions_of i segs) = concat (map f (path i segs))"
    by (rule materialize_positions [OF well_packedD(4) [OF wp]]) (use c in \<open>simp add: chunked_def\<close>)
  also have "map f (path i segs) = map (\<lambda>s. slice xs (seg_start s) (seg_end s)) (path i segs)"
    by (auto simp: path_mem chunk)
  also have "concat \<dots> = slice xs 0 (length (rs ! i))"
    by (rule seg_chain_slices [OF well_packedD(1) [OF wp i]])
  finally show ?thesis unfolding len [symmetric] by simp
qed

end
