(* ===== verification/Sft_Pack.thy ===== *)
theory Sft_Pack
  imports Pack_Rows Row_Arrays
begin

text \<open>
  \<^verbatim>\<open>src/art/preprocessing/sft.py\<close>: one supervised batch packed into rows of natural
  length.  Cells of \<^verbatim>\<open>np.empty\<close> arrays hold \<open>None\<close> until they are written.
\<close>

section \<open>Sequences with labels\<close>

record sft_sequence = tree_sequence +
  sq_labels :: "int list"

text \<open>One element of \<^verbatim>\<open>inputs\<close>, its tensors flattened.\<close>

record sft_input =
  in_attention_mask :: "nat list"
  in_token_ids :: "int list"
  in_label_ids :: "int list"

definition ignore_label :: int where
  "ignore_label = -100"

fun target_positions :: "nat \<Rightarrow> int list \<Rightarrow> nat list" where
  "target_positions k [] = []"
| "target_positions k (l # ls) =
     (if l \<noteq> ignore_label then k # target_positions (Suc k) ls else target_positions (Suc k) ls)"

definition sft_labels :: "sft_input \<Rightarrow> int list result" where
  "sft_labels x =
     (let n = sum_list (in_attention_mask x); labels = take n (in_label_ids x) in
      if n = 0 then Inr labels
      else ensure (labels \<noteq> []) IndexError (Inr (labels[0 := ignore_label])))"

definition sft_item :: "nat \<Rightarrow> sft_input \<Rightarrow> sft_sequence result" where
  "sft_item index x =
     (let n = sum_list (in_attention_mask x) in
      bindE (sft_labels x) (\<lambda>labels.
      let targets = target_positions 0 labels in
      Inr \<lparr>sq_tokens = take n (in_token_ids x),
           sq_shareable = (if targets \<noteq> [] then max (int (hd targets) - 1) 0 else int n),
           sq_prompt = int index, sq_labels = labels\<rparr>))"

section \<open>Rows\<close>

record sft_row =
  row_input_ids :: "int option list"
  row_labels :: "int option list"
  row_group_ids :: "int option list"
  row_parent_ids :: "int option list"
  row_input_pos :: "int option list"
  row_attention_mask :: "int list"

definition empty_row :: "nat \<Rightarrow> sft_row" where
  "empty_row n = \<lparr>row_input_ids = replicate n None, row_labels = replicate n None,
     row_group_ids = replicate n None, row_parent_ids = replicate n None, row_input_pos = replicate n None,
     row_attention_mask = replicate n 1\<rparr>"

definition sft_write_segment :: "sft_sequence list \<Rightarrow> pack_segment \<Rightarrow> sft_row \<Rightarrow> sft_row result" where
  "sft_write_segment seqs s row =
     (let a = packed_start s; b = packed_start s + seg_length s in
      ensure (sequence_indices s \<noteq> [] \<and> hd (sequence_indices s) < length seqs) IndexError
     (let sequence = seqs ! hd (sequence_indices s) in
      bindE (write_slice (row_input_ids row) a b (map Some (slice (sq_tokens sequence) (seg_start s) (seg_end s)))) (\<lambda>ids.
      bindE (write_slice (row_labels row) a b (map Some (slice (sq_labels sequence) (seg_start s) (seg_end s)))) (\<lambda>labels.
      bindE (write_slice (row_input_pos row) a b (map (Some \<circ> int) [seg_start s..<seg_end s])) (\<lambda>pos.
      Inr (row\<lparr>row_input_ids := ids, row_labels := labels,
        row_group_ids := fill_slice (row_group_ids row) a b (Some (group_id s)),
        row_parent_ids := fill_slice (row_parent_ids row) a b (Some (parent_id s)),
        row_input_pos := pos\<rparr>))))))"

definition sft_row_of :: "sft_sequence list \<times> row_plan \<Rightarrow> sft_row result" where
  "sft_row_of r = foldE (sft_write_segment (fst r)) (rp_segments (snd r)) (empty_row (rp_length (snd r)))"

definition min_shared_default :: int where
  "min_shared_default = 64"

definition sft_items :: "sft_input list \<Rightarrow> sft_sequence list result" where
  "sft_items inputs = mapE (\<lambda>(index, x). sft_item index x) (List.enumerate 0 inputs)"

definition pack_sft_batch :: "sft_input list \<Rightarrow> nat \<Rightarrow> sft_row list result" where
  "pack_sft_batch inputs seq_len =
     bindE (sft_items inputs) (\<lambda>items.
     bindE (prefix_tree_pack_rows items seq_len True min_shared_default False) (\<lambda>planned.
     mapE sft_row_of planned))"

section \<open>The row a plan fills\<close>

definition ids_chunk :: "sft_sequence list \<Rightarrow> pack_segment \<Rightarrow> int option list" where
  "ids_chunk seqs s = map Some (slice (sq_tokens (first_of seqs s)) (seg_start s) (seg_end s))"

definition labels_chunk :: "sft_sequence list \<Rightarrow> pack_segment \<Rightarrow> int option list" where
  "labels_chunk seqs s = map Some (slice (sq_labels (first_of seqs s)) (seg_start s) (seg_end s))"

definition pos_chunk :: "pack_segment \<Rightarrow> int option list" where
  "pos_chunk s = map (Some \<circ> int) [seg_start s..<seg_end s]"

definition row_at :: "sft_sequence list \<Rightarrow> nat \<Rightarrow> pack_segment list \<Rightarrow> sft_row" where
  "row_at seqs n us =
     \<lparr>row_input_ids = packed_array (ids_chunk seqs) n n None us,
      row_labels = packed_array (labels_chunk seqs) n n None us,
      row_group_ids = packed_array (\<lambda>s. replicate (seg_length s) (Some (group_id s))) n n None us,
      row_parent_ids = packed_array (\<lambda>s. replicate (seg_length s) (Some (parent_id s))) n n None us,
      row_input_pos = packed_array pos_chunk n n None us,
      row_attention_mask = replicate n 1\<rparr>"

definition labelled :: "sft_sequence list \<Rightarrow> bool" where
  "labelled seqs \<longleftrightarrow> (\<forall>q \<in> set seqs. length (sq_labels q) = length (sq_tokens q))"

lemma sft_chunks:
  assumes wp: "well_packed (map sq_tokens seqs) segs" and l: "labelled seqs" and s: "s \<in> set segs"
  shows "length (ids_chunk seqs s) = seg_length s" "length (labels_chunk seqs s) = seg_length s"
    "length (pos_chunk s) = seg_length s"
proof -
  note f = first_of_facts [OF wp s]
  have "length (sq_labels (first_of seqs s)) = length (sq_tokens (first_of seqs s))"
    using l f(3) by (simp add: labelled_def)
  with f(4) show "length (ids_chunk seqs s) = seg_length s" "length (labels_chunk seqs s) = seg_length s"
    "length (pos_chunk s) = seg_length s"
    by (simp_all add: ids_chunk_def labels_chunk_def pos_chunk_def seg_length_def)
qed

lemma sft_write_segment_chunks:
  "sft_write_segment seqs s row =
     ensure (sequence_indices s \<noteq> [] \<and> hd (sequence_indices s) < length seqs) IndexError
      (bindE (write_slice (row_input_ids row) (packed_start s) (packed_start s + seg_length s) (ids_chunk seqs s)) (\<lambda>ids.
      bindE (write_slice (row_labels row) (packed_start s) (packed_start s + seg_length s) (labels_chunk seqs s)) (\<lambda>labels.
      bindE (write_slice (row_input_pos row) (packed_start s) (packed_start s + seg_length s) (pos_chunk s)) (\<lambda>pos.
      Inr (row\<lparr>row_input_ids := ids, row_labels := labels,
        row_group_ids := fill_slice (row_group_ids row) (packed_start s) (packed_start s + seg_length s) (Some (group_id s)),
        row_parent_ids := fill_slice (row_parent_ids row) (packed_start s) (packed_start s + seg_length s) (Some (parent_id s)),
        row_input_pos := pos\<rparr>)))))"
  by (simp add: Let_def sft_write_segment_def ids_chunk_def labels_chunk_def pos_chunk_def first_of_def)

lemma sft_write_step:
  assumes wp: "well_packed (map sq_tokens seqs) (us @ s # vs)" and l: "labelled seqs"
    and n: "n = plan_length (us @ s # vs)"
  shows "sft_write_segment seqs s (row_at seqs n us) = Inr (row_at seqs n (us @ [s]))"
proof -
  have s: "s \<in> set (us @ s # vs)" by simp
  note f = first_of_facts [OF wp s]
  have start: "packed_start s = plan_length us"
    using well_packedD(4) [OF wp] by (simp add: packed_from_append)
  have room: "plan_length us < n" "seg_length s = min (seg_length s) (n - plan_length us)"
    using n f(5) by simp_all
  have c: "chunked (ids_chunk seqs) us" "chunked (labels_chunk seqs) us" "chunked pos_chunk us"
    "chunked (\<lambda>s. replicate (seg_length s) (Some (group_id s))) us"
    "chunked (\<lambda>s. replicate (seg_length s) (Some (parent_id s))) us"
    using sft_chunks [OF wp l] by (simp_all add: chunked_def)
  have w: "write_slice (packed_array g n n None us) (plan_length us) (plan_length us + seg_length s) (g s)
      = Inr (packed_array g n n None (us @ [s]))" if "chunked g us" "length (g s) = seg_length s" for g :: "pack_segment \<Rightarrow> int option list"
    using packed_array_write [OF that room(1) order_refl room(2), of None] that(2) by simp
  note ws = w [OF c(1) sft_chunks(1) [OF wp l s]] w [OF c(2) sft_chunks(2) [OF wp l s]] w [OF c(3) sft_chunks(3) [OF wp l s]]
  note fs = packed_array_fill [OF c(4) refl room(1) order_refl room(2)] packed_array_fill [OF c(5) refl room(1) order_refl room(2)]
  show ?thesis
    using ws fs f(1,2) start
    by (simp add: sft_write_segment_chunks row_at_def)
qed

lemma sft_row_of_plan:
  assumes wp: "well_packed (map sq_tokens seqs) (rp_segments plan)" and l: "labelled seqs"
    and n: "rp_length plan = plan_length (rp_segments plan)"
  shows "sft_row_of (seqs, plan) = Inr
    \<lparr>row_input_ids = materialize (ids_chunk seqs) (rp_segments plan),
     row_labels = materialize (labels_chunk seqs) (rp_segments plan),
     row_group_ids = materialize (\<lambda>s. replicate (seg_length s) (Some (group_id s))) (rp_segments plan),
     row_parent_ids = materialize (\<lambda>s. replicate (seg_length s) (Some (parent_id s))) (rp_segments plan),
     row_input_pos = materialize pos_chunk (rp_segments plan),
     row_attention_mask = replicate (rp_length plan) 1\<rparr>"
proof -
  let ?n = "rp_length plan"
  have "foldE (sft_write_segment seqs) ss (row_at seqs ?n us) = Inr (row_at seqs ?n (us @ ss))"
    if "us @ ss = rp_segments plan" for us ss
    using that
  proof (induction ss arbitrary: us)
    case (Cons s ss)
    have "sft_write_segment seqs s (row_at seqs ?n us) = Inr (row_at seqs ?n (us @ [s]))"
      by (rule sft_write_step [where vs = ss]) (use Cons.prems wp l n in simp_all)
    with Cons.IH [of "us @ [s]"] Cons.prems show ?case by simp
  qed simp
  from this [of "[]" "rp_segments plan"]
  have "sft_row_of (seqs, plan) = Inr (row_at seqs ?n (rp_segments plan))"
    by (simp add: sft_row_of_def row_at_def empty_row_def)
  moreover have "packed_array g ?n ?n None (rp_segments plan) = materialize g (rp_segments plan)"
    if "\<And>s. s \<in> set (rp_segments plan) \<Longrightarrow> length (g s) = seg_length s" for g :: "pack_segment \<Rightarrow> int option list"
    using materialize_length [of "rp_segments plan" g] that n by (simp add: packed_array_def)
  ultimately show ?thesis using sft_chunks [OF wp l] by (simp add: row_at_def)
qed

section \<open>What the items promise\<close>

text \<open>No supervised label, and no position that predicts one, is within the shareable length.\<close>

definition quiet :: "sft_sequence \<Rightarrow> bool" where
  "quiet q \<longleftrightarrow> length (sq_labels q) = length (sq_tokens q) \<and>
     (\<forall>t < length (sq_labels q). sq_labels q ! t \<noteq> ignore_label \<longrightarrow> 0 < t \<and> sq_shareable q \<le> int t - 1)"

lemma target_positions_spec:
  "t \<in> set (target_positions k ls) \<longleftrightarrow> k \<le> t \<and> t < k + length ls \<and> ls ! (t - k) \<noteq> ignore_label"
proof (induction k ls rule: target_positions.induct)
  case (2 k l ls)
  have "t \<in> set (target_positions k (l # ls)) \<longleftrightarrow> t = k \<and> l \<noteq> ignore_label \<or> t \<in> set (target_positions (Suc k) ls)"
    by auto
  also have "\<dots> \<longleftrightarrow> k \<le> t \<and> t < k + length (l # ls) \<and> (l # ls) ! (t - k) \<noteq> ignore_label"
  proof (cases "t \<le> k")
    case True
    have "\<not> Suc k \<le> t" using True by simp
    with 2 True show ?thesis by auto
  next
    case False
    then have "t - k = Suc (t - Suc k)" "Suc k \<le> t" by simp_all
    with 2 show ?thesis by auto
  qed
  finally show ?case .
qed simp

lemma target_positions_hd:
  "target_positions k ls \<noteq> [] \<Longrightarrow> t \<in> set (target_positions k ls) \<Longrightarrow> hd (target_positions k ls) \<le> t"
proof (induction k ls rule: target_positions.induct)
  case (2 k l ls)
  then show ?case
    using target_positions_spec [of t "Suc k" ls] by (cases "l = ignore_label") auto
qed simp

lemma sft_item_facts:
  assumes "sft_item index x = Inr q" and "length (in_label_ids x) = length (in_token_ids x)"
  shows "quiet q" and "sq_tokens q = take (sum_list (in_attention_mask x)) (in_token_ids x)"
    and "sq_labels q = (take (sum_list (in_attention_mask x)) (in_label_ids x))[0 := ignore_label]"
proof -
  let ?n = "sum_list (in_attention_mask x)"
  obtain labels where l: "sft_labels x = Inr labels"
    and q: "q = \<lparr>sq_tokens = take ?n (in_token_ids x),
           sq_shareable = (if target_positions 0 labels \<noteq> [] then max (int (hd (target_positions 0 labels)) - 1) 0 else int ?n),
           sq_prompt = int index, sq_labels = labels\<rparr>"
    using assms(1) by (auto simp: sft_item_def Let_def bindE_Inr_iff)
  have labels: "labels = (take ?n (in_label_ids x))[0 := ignore_label]"
    using l by (cases "?n = 0") (simp_all add: sft_labels_def Let_def ensure_Inr_iff del: sum_list_eq_0_iff)
  show "sq_tokens q = take ?n (in_token_ids x)" "sq_labels q = (take ?n (in_label_ids x))[0 := ignore_label]"
    using q labels by simp_all
  have zero: "labels ! 0 = ignore_label" if "0 < length labels" using labels that by simp
  have "0 < t \<and> sq_shareable q \<le> int t - 1" if t: "t < length labels" "labels ! t \<noteq> ignore_label" for t
  proof -
    have mem: "t \<in> set (target_positions 0 labels)" using t by (simp add: target_positions_spec)
    then have ne: "target_positions 0 labels \<noteq> []" by auto
    have "0 < t" using t zero by (cases t) auto
    with target_positions_hd [OF ne mem] ne show ?thesis by (simp add: q)
  qed
  moreover have "length labels = length (take ?n (in_token_ids x))" using labels assms(2) by simp
  ultimately show "quiet q" by (simp add: quiet_def q)
qed

lemma sft_items_facts:
  assumes "sft_items inputs = Inr items" and "\<forall>x \<in> set inputs. length (in_label_ids x) = length (in_token_ids x)"
  shows "\<forall>q \<in> set items. quiet q"
    and "map sq_tokens items = map (\<lambda>x. take (sum_list (in_attention_mask x)) (in_token_ids x)) inputs"
    and "map sq_labels items = map (\<lambda>x. (take (sum_list (in_attention_mask x)) (in_label_ids x))[0 := ignore_label]) inputs"
proof -
  have all: "list_all2 (\<lambda>(index, x) q. sft_item index x = Inr q) (List.enumerate 0 inputs) items"
    using assms(1) by (simp add: sft_items_def mapE_Inr_iff case_prod_unfold)
  then have len: "length items = length inputs" by (auto dest: list_all2_lengthD)
  have item: "sft_item k (inputs ! k) = Inr (items ! k)" "length (in_label_ids (inputs ! k)) = length (in_token_ids (inputs ! k))"
    if "k < length inputs" for k
    using list_all2_nthD [OF all, of k] that assms(2) by (simp_all add: nth_enumerate_eq)
  show "\<forall>q \<in> set items. quiet q"
    using sft_item_facts(1) [OF item] len by (metis in_set_conv_nth)
  show "map sq_tokens items = map (\<lambda>x. take (sum_list (in_attention_mask x)) (in_token_ids x)) inputs"
    by (rule nth_equalityI) (use len sft_item_facts(2) [OF item] in auto)
  show "map sq_labels items = map (\<lambda>x. (take (sum_list (in_attention_mask x)) (in_label_ids x))[0 := ignore_label]) inputs"
    by (rule nth_equalityI) (use len sft_item_facts(3) [OF item] in auto)
qed

text \<open>A shared segment holds no label of any of its sequences.\<close>

lemma quiet_slice:
  assumes "quiet q" and "int b \<le> sq_shareable q" and "b \<le> length (sq_tokens q)"
  shows "slice (sq_labels q) a b = replicate (b - a) ignore_label"
proof (rule nth_equalityI)
  have len: "length (sq_labels q) = length (sq_tokens q)" using assms(1) by (simp add: quiet_def)
  show "length (slice (sq_labels q) a b) = length (replicate (b - a) ignore_label)" using assms(3) len by simp
  fix k assume k: "k < length (slice (sq_labels q) a b)"
  then have b: "a + k < b" by (simp add: less_diff_conv add.commute)
  have "sq_labels q ! (a + k) = ignore_label"
  proof (rule ccontr)
    assume "sq_labels q ! (a + k) \<noteq> ignore_label"
    moreover have "a + k < length (sq_labels q)" using b assms(3) len by simp
    ultimately have "sq_shareable q \<le> int (a + k) - 1" using assms(1) unfolding quiet_def by blast
    with assms(2) b show False by simp
  qed
  with b assms(3) len show "slice (sq_labels q) a b ! k = replicate (b - a) ignore_label ! k" by (simp add: slice_def)
qed

lemma shared_labels:
  assumes wp: "well_packed (map sq_tokens seqs) segs" and safe: "shares_within seqs segs"
    and q: "\<forall>q \<in> set seqs. quiet q" and s: "s \<in> set segs"
    and two: "length (sequence_indices s) > 1" and i: "i \<in> set (sequence_indices s)"
  shows "slice (sq_labels (seqs ! i)) (seg_start s) (seg_end s) = replicate (seg_length s) ignore_label"
proof -
  have v: "seg_valid (map sq_tokens seqs) s" by (rule well_packedD(2) [OF wp s])
  then have agree: "rows_agree (map sq_tokens seqs) (set (sequence_indices s)) (seg_end s)" and d: "distinct (sequence_indices s)"
    by (simp_all add: seg_valid_def)
  have "\<exists>j \<in> set (sequence_indices s). i \<noteq> j"
  proof (rule ccontr)
    assume "\<not> ?thesis"
    then have "set (sequence_indices s) \<subseteq> {i}" by auto
    then have "card (set (sequence_indices s)) \<le> 1" using card_mono [of "{i}"] by simp
    with two d show False by (simp add: distinct_card)
  qed
  then obtain j where "j \<in> set (sequence_indices s)" "i \<noteq> j" by blast
  then have le: "int (seg_end s) \<le> sq_shareable (seqs ! i)" using shares_withinD [OF safe s i] by blast
  have "i < length seqs" using rows_agree_bound [OF agree i] by simp
  then have "quiet (seqs ! i)" "seg_end s \<le> length (sq_tokens (seqs ! i))"
    using q rows_agree_len [OF agree i] by simp_all
  from quiet_slice [OF this(1) le this(2)] show ?thesis by (simp add: seg_length_def)
qed

lemma labels_chunk_member:
  assumes wp: "well_packed (map sq_tokens seqs) segs" and safe: "shares_within seqs segs"
    and q: "\<forall>q \<in> set seqs. quiet q" and s: "s \<in> set segs" and i: "i \<in> set (sequence_indices s)"
  shows "labels_chunk seqs s = map Some (slice (sq_labels (seqs ! i)) (seg_start s) (seg_end s))"
proof (cases "length (sequence_indices s) > 1")
  case True
  have "hd (sequence_indices s) \<in> set (sequence_indices s)" using well_packed_members [OF wp s] by simp
  from shared_labels [OF wp safe q s True this] shared_labels [OF wp safe q s True i]
  show ?thesis by (simp add: labels_chunk_def first_of_def)
next
  case False
  then have "sequence_indices s = [i]" using i by (cases "sequence_indices s"; cases "tl (sequence_indices s)") auto
  then show ?thesis by (simp add: labels_chunk_def first_of_def)
qed

lemma ids_chunk_member:
  assumes wp: "well_packed (map sq_tokens seqs) segs" and s: "s \<in> set segs" and i: "i \<in> set (sequence_indices s)"
  shows "ids_chunk seqs s = map Some (slice (sq_tokens (seqs ! i)) (seg_start s) (seg_end s))"
proof -
  have agree: "rows_agree (map sq_tokens seqs) (set (sequence_indices s)) (seg_end s)"
    using well_packedD(2) [OF wp s] by (simp add: seg_valid_def)
  have h: "hd (sequence_indices s) \<in> set (sequence_indices s)" using well_packed_members [OF wp s] by simp
  have "i < length seqs" "hd (sequence_indices s) < length seqs"
    using rows_agree_bound [OF agree i] rows_agree_bound [OF agree h] by simp_all
  with rows_agree_slice [OF agree h i, of "seg_start s"] show ?thesis by (simp add: ids_chunk_def first_of_def)
qed

section \<open>Double counting\<close>

lemma path_sum:
  fixes g :: "nat \<Rightarrow> 's prefix_segment_scheme \<Rightarrow> 'b::comm_monoid_add"
  assumes "\<And>s. s \<in> set segs \<Longrightarrow> \<forall>i \<in> set (sequence_indices s). i < n"
  shows "(\<Sum>i<n. \<Sum>s\<leftarrow>path i segs. g i s) = (\<Sum>s\<leftarrow>segs. \<Sum>i \<in> set (sequence_indices s). g i s)"
  using assms
proof (induction segs)
  case (Cons s segs)
  let ?A = "set (sequence_indices s)"
  have A: "?A \<subseteq> {..<n}" using Cons.prems [of s] by auto
  have "(\<Sum>i<n. \<Sum>s\<leftarrow>path i (s # segs). g i s)
      = (\<Sum>i<n. (if i \<in> ?A then g i s else 0) + (\<Sum>s\<leftarrow>path i segs. g i s))"
    by (intro sum.cong) (auto simp: path_Cons)
  also have "\<dots> = (\<Sum>i<n. (if i \<in> ?A then g i s else 0)) + (\<Sum>i<n. \<Sum>s\<leftarrow>path i segs. g i s)"
    by (rule sum.distrib)
  also have "(\<Sum>i<n. (if i \<in> ?A then g i s else 0)) = (\<Sum>i \<in> ?A. g i s)"
    using A by (simp add: sum.If_cases Int_absorb1)
  also have "(\<Sum>i<n. \<Sum>s\<leftarrow>path i segs. g i s) = (\<Sum>s\<leftarrow>segs. \<Sum>i \<in> set (sequence_indices s). g i s)"
    by (rule Cons.IH) (use Cons.prems in auto)
  finally show ?case by simp
qed simp

lemma mset_concat_index: "mset (concat (map f xs)) = (\<Sum>i<length xs. mset (f (xs ! i)))"
proof -
  have "(\<Sum>x\<leftarrow>xs. mset (f x)) = (\<Sum>i<length xs. mset (f (xs ! i)))"
    by (simp add: sum_list_sum_nth atLeast0LessThan)
  then show ?thesis by (simp add: mset_concat_sum)
qed

section \<open>Supervised labels\<close>

definition supervised :: "int list \<Rightarrow> int list" where
  "supervised ls = filter (\<lambda>l. l \<noteq> ignore_label) ls"

lemma supervised_simps [simp]:
  "supervised [] = []" "supervised (xs @ ys) = supervised xs @ supervised ys"
  "supervised (replicate n ignore_label) = []"
  by (simp_all add: supervised_def)

lemma supervised_concat: "supervised (concat xss) = concat (map supervised xss)"
  by (induction xss) (simp_all add: supervised_def)

definition row_supervised :: "sft_sequence list \<Rightarrow> pack_segment list \<Rightarrow> int multiset" where
  "row_supervised seqs segs =
     mset (supervised (materialize (\<lambda>s. slice (sq_labels (first_of seqs s)) (seg_start s) (seg_end s)) segs))"

text \<open>One row holds every supervised label of its sequences exactly once.\<close>

lemma row_labels_preserved:
  assumes wp: "well_packed (map sq_tokens seqs) segs" and safe: "shares_within seqs segs"
    and q: "\<forall>q \<in> set seqs. quiet q"
  shows "row_supervised seqs segs = mset (supervised (concat (map sq_labels seqs)))"
proof -
  let ?g = "\<lambda>i s. mset (supervised (slice (sq_labels (seqs ! i)) (seg_start s) (seg_end s)))"
  have mem: "\<forall>i \<in> set (sequence_indices s). i < length seqs" if "s \<in> set segs" for s
    using well_packedD(2) [OF wp that] by (auto simp: seg_valid_def dest: rows_agree_bound)
  have seg: "?g (hd (sequence_indices s)) s = (\<Sum>i \<in> set (sequence_indices s). ?g i s)" if s: "s \<in> set segs" for s
  proof (cases "length (sequence_indices s) > 1")
    case True
    have "?g i s = {#}" if "i \<in> set (sequence_indices s)" for i
      using shared_labels [OF wp safe q s True that] by simp
    moreover have "hd (sequence_indices s) \<in> set (sequence_indices s)" using well_packed_members [OF wp s] by simp
    ultimately show ?thesis by simp
  next
    case False
    then obtain i where "sequence_indices s = [i]" using well_packed_members [OF wp s]
      by (cases "sequence_indices s"; cases "tl (sequence_indices s)") auto
    then show ?thesis by simp
  qed
  have whole: "mset (supervised (sq_labels (seqs ! i))) = (\<Sum>s\<leftarrow>path i segs. ?g i s)" if "i < length seqs" for i
  proof -
    have "seg_chain 0 (length (map sq_tokens seqs ! i)) None (path i segs)"
      by (rule well_packedD(1) [OF wp]) (use that in simp)
    then have "seg_chain 0 (length (sq_labels (seqs ! i))) None (path i segs)"
      using q that by (simp add: quiet_def)
    from seg_chain_slices [OF this, of "sq_labels (seqs ! i)"]
    have whole: "concat (map (\<lambda>s. slice (sq_labels (seqs ! i)) (seg_start s) (seg_end s)) (path i segs)) = sq_labels (seqs ! i)"
      by simp
    have "supervised (sq_labels (seqs ! i)) =
        concat (map (\<lambda>s. supervised (slice (sq_labels (seqs ! i)) (seg_start s) (seg_end s))) (path i segs))"
      by (subst whole [symmetric], subst supervised_concat) (simp add: comp_def)
    then show ?thesis by (simp add: mset_concat_sum)
  qed
  have "row_supervised seqs segs = (\<Sum>s\<leftarrow>segs. ?g (hd (sequence_indices s)) s)"
    unfolding row_supervised_def materialize_def supervised_concat first_of_def by (simp add: mset_concat_sum comp_def)
  also have "\<dots> = (\<Sum>s\<leftarrow>segs. \<Sum>i \<in> set (sequence_indices s). ?g i s)"
    using seg by (metis (no_types, lifting) map_eq_conv)
  also have "\<dots> = (\<Sum>i<length seqs. \<Sum>s\<leftarrow>path i segs. ?g i s)" by (rule path_sum [OF mem, symmetric])
  also have "\<dots> = (\<Sum>i<length seqs. mset (supervised (sq_labels (seqs ! i))))"
    by (rule sum.cong) (use whole in auto)
  also have "\<dots> = mset (concat (map (\<lambda>x. supervised (sq_labels x)) seqs))" by (rule mset_concat_index [symmetric])
  also have "\<dots> = mset (supervised (concat (map sq_labels seqs)))"
    by (simp add: supervised_concat comp_def)
  finally show ?thesis .
qed

lemma row_of_labels:
  assumes "well_packed (map sq_tokens seqs) (rp_segments plan)" and "labelled seqs"
    and "rp_length plan = plan_length (rp_segments plan)" and "sft_row_of (seqs, plan) = Inr row"
  shows "row_labels row = map Some (materialize (\<lambda>s. slice (sq_labels (first_of seqs s)) (seg_start s) (seg_end s)) (rp_segments plan))"
    and "row_input_ids row = map Some (materialize (\<lambda>s. slice (sq_tokens (first_of seqs s)) (seg_start s) (seg_end s)) (rp_segments plan))"
    and "length (row_input_ids row) = rp_length plan"
proof -
  have r: "row_labels row = materialize (labels_chunk seqs) (rp_segments plan)"
    "row_input_ids row = materialize (ids_chunk seqs) (rp_segments plan)"
    using sft_row_of_plan [OF assms(1-3)] assms(4) by simp_all
  have m: "materialize (\<lambda>s. map Some (f s)) segs = map Some (materialize f segs)"
    for f :: "pack_segment \<Rightarrow> int list" and segs by (induction segs) auto
  show "row_labels row = map Some (materialize (\<lambda>s. slice (sq_labels (first_of seqs s)) (seg_start s) (seg_end s)) (rp_segments plan))"
    "row_input_ids row = map Some (materialize (\<lambda>s. slice (sq_tokens (first_of seqs s)) (seg_start s) (seg_end s)) (rp_segments plan))"
    unfolding r m [symmetric] labels_chunk_def ids_chunk_def by (rule refl)+
  show "length (row_input_ids row) = rp_length plan"
    unfolding r assms(3) by (rule materialize_length) (rule sft_chunks(1) [OF assms(1,2)])
qed

lemma packed_batch:
  assumes "pack_sft_batch inputs seq_len = Inr out"
    and "\<forall>x \<in> set inputs. length (in_label_ids x) = length (in_token_ids x)"
  obtains items planned where "sft_items inputs = Inr items" and "\<forall>q \<in> set items. quiet q"
    and "mset (concat (map fst planned)) = mset items" and "list_all2 (\<lambda>r row. sft_row_of r = Inr row) planned out"
    and "prefix_tree_pack_rows items seq_len True min_shared_default False = Inr planned"
    and "\<And>r. r \<in> set planned \<Longrightarrow> row_sound seq_len False r \<and> shares_within (fst r) (rp_segments (snd r)) \<and>
      (\<forall>q \<in> set (fst r). quiet q)"
proof -
  obtain items planned where *: "sft_items inputs = Inr items"
    "prefix_tree_pack_rows items seq_len True min_shared_default False = Inr planned" "mapE sft_row_of planned = Inr out"
    using assms(1) unfolding pack_sft_batch_def bindE_Inr_iff by blast
  note items = sft_items_facts(1) [OF *(1) assms(2)]
  note rows = planned_rows [OF *(2)]
  have "set (concat (map fst planned)) = set items" using rows by (metis set_mset_mset)
  then have q: "\<forall>q \<in> set (fst r). quiet q" if "r \<in> set planned" for r using that items by auto
  show thesis
  proof (rule that [OF *(1) items])
    show "mset (concat (map fst planned)) = mset items" using rows by blast
    show "list_all2 (\<lambda>r row. sft_row_of r = Inr row) planned out" using *(3) by (simp add: mapE_Inr_iff)
    show "prefix_tree_pack_rows items seq_len True min_shared_default False = Inr planned" by (rule *(2))
    show "row_sound seq_len False r \<and> shares_within (fst r) (rp_segments (snd r)) \<and> (\<forall>q \<in> set (fst r). quiet q)"
      if "r \<in> set planned" for r
      using rows planned_rows_share_within [OF *(2) that] q [OF that] that by blast
  qed
qed

section \<open>Properties of supervised packing\<close>

definition read_at :: "'a list \<Rightarrow> nat list \<Rightarrow> 'a list" where
  "read_at xs ps = map ((!) xs) ps"

text \<open>The written cells of an array.\<close>

definition written :: "'a option list \<Rightarrow> 'a list" where
  "written xs = List.map_filter id xs"

lemma written_simps [simp]:
  "written [] = []" "written (xs @ ys) = written xs @ written ys" "written (map Some zs) = zs"
  by (simp_all add: written_def List.map_filter_def comp_def)

lemma row_reads_sequence:
  assumes wp: "well_packed (map sq_tokens seqs) (rp_segments plan)" and l: "labelled seqs"
    and n: "rp_length plan = plan_length (rp_segments plan)" and row: "sft_row_of (seqs, plan) = Inr row"
    and safe: "shares_within seqs (rp_segments plan)" and q: "\<forall>q \<in> set seqs. quiet q" and i: "i < length seqs"
  shows "read_at (row_input_ids row) (positions_of i (rp_segments plan)) = map Some (sq_tokens (seqs ! i))"
    and "read_at (row_labels row) (positions_of i (rp_segments plan)) = map Some (sq_labels (seqs ! i))"
    and "read_at (row_input_pos row) (positions_of i (rp_segments plan)) = map (Some \<circ> int) [0..<length (sq_tokens (seqs ! i))]"
proof -
  let ?segs = "rp_segments plan"
  have r: "row_input_ids row = materialize (ids_chunk seqs) ?segs" "row_labels row = materialize (labels_chunk seqs) ?segs"
    "row_input_pos row = materialize pos_chunk ?segs"
    using sft_row_of_plan [OF wp l n] row by simp_all
  have c: "chunked (ids_chunk seqs) ?segs" "chunked (labels_chunk seqs) ?segs" "chunked pos_chunk ?segs"
    using sft_chunks [OF wp l] by (simp_all add: chunked_def)
  have ir: "i < length (map sq_tokens seqs)" using i by simp
  have len: "length (sq_labels (seqs ! i)) = length (sq_tokens (seqs ! i))" using q i by (simp add: quiet_def)
  have map_slice: "map f (slice xs a b) = slice (map f xs) a b" for f :: "'x \<Rightarrow> 'y" and xs a b
    by (simp add: slice_def take_map drop_map)
  show "read_at (row_input_ids row) (positions_of i ?segs) = map Some (sq_tokens (seqs ! i))"
    unfolding read_at_def r
    by (rule read_array [OF wp ir _ c(1)]) (simp_all add: i ids_chunk_member [OF wp] map_slice)
  show "read_at (row_labels row) (positions_of i ?segs) = map Some (sq_labels (seqs ! i))"
    unfolding read_at_def r
    by (rule read_array [OF wp ir _ c(2)]) (simp_all add: i len labels_chunk_member [OF wp safe q] map_slice)
  show "read_at (row_input_pos row) (positions_of i ?segs) = map (Some \<circ> int) [0..<length (sq_tokens (seqs ! i))]"
    unfolding read_at_def r
  proof (rule read_array [OF wp ir _ c(3)])
    fix s assume s: "s \<in> set ?segs" "i \<in> set (sequence_indices s)"
    have "seg_start s \<le> seg_end s" "seg_end s \<le> length (sq_tokens (seqs ! i))"
      using seg_chain_range [OF well_packedD(1) [OF wp ir], of s] s i by (simp_all add: path_mem)
    then show "pos_chunk s = slice (map (Some \<circ> int) [0..<length (sq_tokens (seqs ! i))]) (seg_start s) (seg_end s)"
      by (auto simp: pos_chunk_def slice_def take_map drop_map simp del: map_map)
  qed (simp add: i)
qed

text \<open>
  What a row is for a plan of its examples: every cell of its arrays is written, the group
  and parent ids are those of the segments, and reading at the positions of an example
  gives the example.
\<close>

definition reads_back :: "sft_sequence list \<Rightarrow> pack_segment list \<Rightarrow> int list \<Rightarrow> int list \<Rightarrow> int list \<Rightarrow> bool" where
  "reads_back seqs segs ids labels pos \<longleftrightarrow>
     length ids = plan_length segs \<and> length labels = plan_length segs \<and> length pos = plan_length segs \<and>
     (\<forall>i < length seqs. read_at ids (positions_of i segs) = sq_tokens (seqs ! i) \<and>
        read_at labels (positions_of i segs) = sq_labels (seqs ! i) \<and>
        read_at pos (positions_of i segs) = map int [0..<length (sq_tokens (seqs ! i))])"

lemma read_at_written:
  assumes "read_at xs ps = map Some ys" and "xs = map Some zs" and "\<forall>p \<in> set ps. p < length zs"
  shows "read_at zs ps = ys"
proof -
  have "map Some (read_at zs ps) = read_at xs ps" using assms(2,3) by (auto simp: read_at_def)
  then show ?thesis using assms(1) by (simp add: inj_map_eq_map)
qed

lemma positions_inside:
  assumes "well_packed rs segs" and "p \<in> set (positions_of i segs)"
  shows "p < plan_length segs"
proof -
  obtain s where s: "s \<in> set segs" "packed_start s \<le> p" "p < packed_start s + seg_length s"
    using assms(2) by (auto simp: positions_of_def path_def packed_range_def)
  obtain us vs where "segs = us @ s # vs" using s(1) by (meson split_list)
  with well_packedD(4) [OF assms(1)] s(3) show ?thesis by (simp add: packed_from_append plan_length_def)
qed

lemma sft_row_complete:
  assumes wp: "well_packed (map sq_tokens seqs) (rp_segments plan)" and n: "rp_length plan = plan_length (rp_segments plan)"
    and safe: "shares_within seqs (rp_segments plan)" and q: "\<forall>q \<in> set seqs. quiet q" and row: "sft_row_of (seqs, plan) = Inr row"
  obtains ids labels pos where "row = \<lparr>row_input_ids = map Some ids, row_labels = map Some labels,
      row_group_ids = map Some (materialize (\<lambda>s. replicate (seg_length s) (group_id s)) (rp_segments plan)),
      row_parent_ids = map Some (materialize (\<lambda>s. replicate (seg_length s) (parent_id s)) (rp_segments plan)),
      row_input_pos = map Some pos, row_attention_mask = replicate (plan_length (rp_segments plan)) 1\<rparr>"
    and "reads_back seqs (rp_segments plan) ids labels pos"
proof -
  let ?segs = "rp_segments plan"
  let ?ids = "materialize (\<lambda>s. slice (sq_tokens (first_of seqs s)) (seg_start s) (seg_end s)) ?segs"
  let ?labels = "materialize (\<lambda>s. slice (sq_labels (first_of seqs s)) (seg_start s) (seg_end s)) ?segs"
  let ?pos = "materialize (\<lambda>s. map int [seg_start s..<seg_end s]) ?segs"
  have l: "labelled seqs" using q by (simp add: labelled_def quiet_def)
  have some: "materialize (\<lambda>s. map Some (f s)) segs = map Some (materialize f segs)"
    for f :: "pack_segment \<Rightarrow> int list" and segs by (induction segs) auto
  have cells: "materialize (\<lambda>s. replicate (seg_length s) (Some (f s))) segs
      = map Some (materialize (\<lambda>s. replicate (seg_length s) (f s)) segs)" for f :: "pack_segment \<Rightarrow> int" and segs
    by (induction segs) auto
  have pos: "materialize pos_chunk segs = map Some (materialize (\<lambda>s. map int [seg_start s..<seg_end s]) segs)" for segs
    by (induction segs) (auto simp: pos_chunk_def)
  have r: "row = \<lparr>row_input_ids = map Some ?ids, row_labels = map Some ?labels,
      row_group_ids = map Some (materialize (\<lambda>s. replicate (seg_length s) (group_id s)) ?segs),
      row_parent_ids = map Some (materialize (\<lambda>s. replicate (seg_length s) (parent_id s)) ?segs),
      row_input_pos = map Some ?pos, row_attention_mask = replicate (plan_length ?segs) 1\<rparr>"
    using row_of_labels(1,2) [OF wp l n row] sft_row_of_plan [OF wp l n] row cells pos n by simp
  have len: "length ?ids = plan_length ?segs" "length ?labels = plan_length ?segs" "length ?pos = plan_length ?segs"
    using sft_chunks [OF wp l] by (simp_all add: materialize_length ids_chunk_def labels_chunk_def seg_length_def)
  have "read_at ?ids (positions_of i ?segs) = sq_tokens (seqs ! i) \<and>
      read_at ?labels (positions_of i ?segs) = sq_labels (seqs ! i) \<and>
      read_at ?pos (positions_of i ?segs) = map int [0..<length (sq_tokens (seqs ! i))]" if i: "i < length seqs" for i
  proof -
    note reads = row_reads_sequence [OF wp l n row safe q i]
    have inside: "\<forall>p \<in> set (positions_of i ?segs). p < plan_length ?segs" using positions_inside [OF wp] by blast
    have fields: "row_input_ids row = map Some ?ids" "row_labels row = map Some ?labels" "row_input_pos row = map Some ?pos"
      unfolding r by simp_all
    show ?thesis
      using read_at_written [OF reads(1) fields(1)] read_at_written [OF reads(2) fields(2)]
        read_at_written [OF reads(3) [folded map_map] fields(3)] inside unfolding len by blast
  qed
  with len have "reads_back seqs ?segs ?ids ?labels ?pos" by (simp add: reads_back_def)
  with r show thesis by (rule that)
qed

text \<open>
  C14. Supervised packing is lossless: the rows together hold every example once, as the
  row planner placed them. A row is as long as its plan and no longer than the sequence
  length, every cell of its five arrays is written, its group and parent ids are those of
  the segments of the plan, its attention mask is all ones, and reading it at the positions
  of an example gives the example's tokens, its labels and the offsets \<open>0, 1, 2, \<dots>\<close>.
\<close>

theorem sft_rows_readable:
  assumes "pack_sft_batch inputs seq_len = Inr out"
    and "\<forall>x \<in> set inputs. length (in_label_ids x) = length (in_token_ids x)"
  shows "\<exists>items planned. sft_items inputs = Inr items \<and>
    prefix_tree_pack_rows items seq_len True min_shared_default False = Inr planned \<and>
    mset (concat (map fst planned)) = mset items \<and>
    list_all2 (\<lambda>(seqs, plan) row. plan_length (rp_segments plan) \<le> seq_len \<and>
      (\<exists>ids labels pos. row = \<lparr>row_input_ids = map Some ids, row_labels = map Some labels,
          row_group_ids = map Some (materialize (\<lambda>s. replicate (seg_length s) (group_id s)) (rp_segments plan)),
          row_parent_ids = map Some (materialize (\<lambda>s. replicate (seg_length s) (parent_id s)) (rp_segments plan)),
          row_input_pos = map Some pos, row_attention_mask = replicate (plan_length (rp_segments plan)) 1\<rparr> \<and>
        length ids = plan_length (rp_segments plan) \<and> length labels = plan_length (rp_segments plan) \<and>
        length pos = plan_length (rp_segments plan) \<and>
        (\<forall>i < length seqs. read_at ids (positions_of i (rp_segments plan)) = sq_tokens (seqs ! i) \<and>
           read_at labels (positions_of i (rp_segments plan)) = sq_labels (seqs ! i) \<and>
           read_at pos (positions_of i (rp_segments plan)) = map int [0..<length (sq_tokens (seqs ! i))]))) planned out"
  (is "\<exists>items planned. _ \<and> _ \<and> _ \<and> list_all2 ?row planned out")
  using assms
proof (rule packed_batch)
  fix items planned
  assume items: "sft_items inputs = Inr items" "prefix_tree_pack_rows items seq_len True min_shared_default False = Inr planned"
      "mset (concat (map fst planned)) = mset items"
    and rows: "list_all2 (\<lambda>r row. sft_row_of r = Inr row) planned out"
    and sound: "\<And>r. r \<in> set planned \<Longrightarrow> row_sound seq_len False r \<and> shares_within (fst r) (rp_segments (snd r)) \<and>
      (\<forall>q \<in> set (fst r). quiet q)"
  have row: "?row r row" if r: "r \<in> set planned" and "sft_row_of r = Inr row" for r row
  proof -
    obtain seqs plan where sp: "r = (seqs, plan)" by (cases r)
    have wp: "well_packed (map sq_tokens seqs) (rp_segments plan)" and n: "rp_length plan = plan_length (rp_segments plan)"
      and le: "rp_length plan \<le> seq_len" and safe: "shares_within seqs (rp_segments plan)" and q: "\<forall>q \<in> set seqs. quiet q"
      using sound [OF r] by (simp_all add: sp row_sound_def)
    have ok: "sft_row_of (seqs, plan) = Inr row" using that(2) by (simp add: sp)
    show ?thesis unfolding sp prod.case reads_back_def [symmetric]
      by (rule sft_row_complete [OF wp n safe q ok]) (use le n in auto)
  qed
  have "list_all2 ?row planned out" by (rule list.rel_mono_strong [OF rows]) (rule row)
  with items show ?thesis by blast
qed

definition example_inputs :: "sft_input list" where
  "example_inputs =
    [\<lparr>in_attention_mask = [1, 1, 1, 0], in_token_ids = [5, 6, 7, 0], in_label_ids = [-100, -100, 7, -100]\<rparr>,
     \<lparr>in_attention_mask = [1, 1, 0, 0], in_token_ids = [5, 8, 0, 0], in_label_ids = [5, 8, -100, -100]\<rparr>]"

lemma sft_example:
  "pack_sft_batch example_inputs 8 = Inr
    [\<lparr>row_input_ids = map Some [5, 8, 5, 6, 7], row_labels = map Some [-100, 8, -100, -100, 7],
      row_group_ids = map Some [1, 1, 2, 2, 2], row_parent_ids = map Some [1, 1, 2, 2, 2],
      row_input_pos = map Some [0, 1, 0, 1, 2], row_attention_mask = [1, 1, 1, 1, 1]\<rparr>]"
  by code_simp

lemma example_inputs_lengths: "\<forall>x \<in> set example_inputs. length (in_label_ids x) = length (in_token_ids x)"
  by (simp add: example_inputs_def)

theorem sft_rows_readable_witness:
  "\<exists>items planned. sft_items example_inputs = Inr items \<and>
    prefix_tree_pack_rows items 8 True min_shared_default False = Inr planned \<and>
    mset (concat (map fst planned)) = mset items \<and> length planned = 1"
proof -
  from sft_rows_readable [OF sft_example example_inputs_lengths] obtain items planned
    where *: "sft_items example_inputs = Inr items" "prefix_tree_pack_rows items 8 True min_shared_default False = Inr planned"
      "mset (concat (map fst planned)) = mset items"
    and rows: "\<exists>P out. length out = 1 \<and> list_all2 P planned (out :: sft_row list)"
    by (elim exE conjE) (fastforce intro: exI)
  from rows have "length planned = 1" by (auto dest: list_all2_lengthD)
  with * show ?thesis by blast
qed

text \<open>
  C15. Supervised packing preserves the loss: the supervised labels of all rows are
  exactly the supervised labels of all inputs, each counted once (an example's first
  token has nothing to predict it and is never supervised), however much the rows share.
\<close>

theorem sft_loss_preserved:
  assumes "pack_sft_batch inputs seq_len = Inr out"
    and "\<forall>x \<in> set inputs. length (in_label_ids x) = length (in_token_ids x)"
  shows "mset (supervised (written (concat (map row_labels out)))) =
    mset (supervised (concat (map (\<lambda>x. tl (take (sum_list (in_attention_mask x)) (in_label_ids x))) inputs)))"
  using assms
proof (rule packed_batch)
  fix items planned
  assume items: "sft_items inputs = Inr items" "\<forall>q \<in> set items. quiet q" "mset (concat (map fst planned)) = mset items"
    and rows: "list_all2 (\<lambda>r row. sft_row_of r = Inr row) planned out"
    and sound: "\<And>r. r \<in> set planned \<Longrightarrow> row_sound seq_len False r \<and> shares_within (fst r) (rp_segments (snd r)) \<and>
      (\<forall>q \<in> set (fst r). quiet q)"
  have row: "mset (supervised (written (row_labels row))) = mset (supervised (concat (map sq_labels (fst r))))"
    if r: "r \<in> set planned" and "sft_row_of r = Inr row" for r row
  proof -
    obtain seqs plan where sp: "r = (seqs, plan)" by (cases r)
    have wp: "well_packed (map sq_tokens seqs) (rp_segments plan)" and n: "rp_length plan = plan_length (rp_segments plan)"
      and safe: "shares_within seqs (rp_segments plan)" and q: "\<forall>q \<in> set seqs. quiet q"
      using sound [OF r] by (simp_all add: sp row_sound_def)
    have l: "labelled seqs" using q by (simp add: labelled_def quiet_def)
    have ok: "sft_row_of (seqs, plan) = Inr row" using that(2) by (simp add: sp)
    have "mset (supervised (written (row_labels row))) = row_supervised seqs (rp_segments plan)"
      unfolding row_of_labels(1) [OF wp l n ok] row_supervised_def by simp
    then show ?thesis using row_labels_preserved [OF wp safe q] by (simp add: sp)
  qed
  from rows row have "mset (supervised (written (concat (map row_labels out)))) =
      mset (supervised (concat (map sq_labels (concat (map fst planned)))))"
  proof (induction planned out rule: list_all2_induct)
    case (Cons r planned row out)
    from Cons.prems [of r row] Cons.hyps(1) Cons.IH Cons.prems show ?case by simp
  qed simp
  also have "\<dots> = mset (concat (map (\<lambda>q. supervised (sq_labels q)) (concat (map fst planned))))"
    by (simp only: supervised_concat map_map comp_def)
  also have "\<dots> = mset (concat (map (\<lambda>q. supervised (sq_labels q)) items))"
    using items(3) by (metis mset_concat_sum sum_mset_sum_list mset_map)
  also have "concat (map (\<lambda>q. supervised (sq_labels q)) items) = concat (map supervised (map sq_labels items))"
    by (simp add: comp_def)
  also have "\<dots> = concat (map (\<lambda>x. supervised (tl (take (sum_list (in_attention_mask x)) (in_label_ids x)))) inputs)"
  proof -
    have "supervised (ls[0 := ignore_label]) = supervised (tl ls)" for ls
      by (cases ls) (simp_all add: supervised_def)
    then show ?thesis unfolding sft_items_facts(3) [OF items(1) assms(2)] by (simp add: comp_def)
  qed
  finally show ?thesis by (simp only: supervised_concat map_map comp_def)
qed

theorem sft_loss_preserved_witness:
  "mset (supervised (written (map Some [-100, 8, -100, -100, 7]))) = {# 7, 8 #}"
  using sft_loss_preserved [OF sft_example example_inputs_lengths]
  by (simp add: example_inputs_def supervised_def ignore_label_def)

end
