(* ===== verification/Canonical_Tree.thy ===== *)
theory Canonical_Tree
  imports Prefix_Pack
begin

text \<open>
  \<^verbatim>\<open>src/art/trainer_rank/_prefix_tree_planner.py\<close>, first part: the canonical radix tree of
  a set of token rows, built with an explicit stack and no depth limit.  The digest of
  the hashing library is the argument \<open>digest\<close>; what it is applied to is a \<open>payload\<close>.
\<close>

section \<open>Data\<close>

record canonical_segment =
  cs_index :: nat
  cs_parent :: "nat option"
  cs_members :: "nat list"
  cs_start :: nat
  cs_end :: nat
  cs_depth :: nat

definition cs_length :: "canonical_segment \<Rightarrow> nat" where
  "cs_length s = cs_end s - cs_start s"

definition cs_shareable :: "canonical_segment \<Rightarrow> bool" where
  "cs_shareable s \<longleftrightarrow> length (cs_members s) > 1"

datatype payload =
    Row_Payload "int list"
  | Rows_Payload "(nat \<times> string) list"
  | Structure_Payload "nat list" "(nat option \<times> nat list \<times> nat \<times> nat) list"
  | Tree_Payload string string
  | Layout_Payload string "nat list"

record canonical_tree =
  ct_lengths :: "nat list"
  ct_segments :: "canonical_segment list"
  ct_terminals :: "nat list"
  ct_by_terminal :: "nat list list"
  ct_decisions :: "nat list"
  ct_content :: string
  ct_structure :: string
  ct_fingerprint :: string
  ct_row_fingerprints :: "string list"

definition maximum_shared_depth :: "canonical_tree \<Rightarrow> nat" where
  "maximum_shared_depth tree = Max (set (0 # map (\<lambda>k. cs_depth (ct_segments tree ! k)) (ct_decisions tree)))"

section \<open>Finalising a tree\<close>

text \<open>The later segment wins: \<^verbatim>\<open>terminal_segment_indices[sequence_index] = segment.index\<close>.\<close>

definition record_terminals :: "nat \<Rightarrow> canonical_segment list \<Rightarrow> nat option list" where
  "record_terminals n segs =
     foldl (\<lambda>ts s. foldl (\<lambda>ts i. ts[i := Some (cs_index s)]) ts (cs_members s)) (replicate n None) segs"

definition finalize_canonical_prefix_tree ::
  "(payload \<Rightarrow> string) \<Rightarrow> nat list \<Rightarrow> canonical_segment list \<Rightarrow> string list \<Rightarrow> canonical_tree result" where
  "finalize_canonical_prefix_tree digest lens segs row_fps =
     (let content = digest (Rows_Payload (zip lens row_fps));
          structure = digest (Structure_Payload lens
            (map (\<lambda>s. (cs_parent s, cs_members s, cs_start s, cs_end s)) segs));
          terminals = record_terminals (length lens) segs in
      ensure (\<not> list_ex (\<lambda>t. t = None) terminals)
        (AssertionError ''canonical tree does not cover every sequence'')
       (let values = map the terminals in
        Inr \<lparr>ct_lengths = lens, ct_segments = segs, ct_terminals = values,
          ct_by_terminal = map (\<lambda>k. filter (\<lambda>i. values ! i = k) [0..<length values]) [0..<length segs],
          ct_decisions = map cs_index (filter cs_shareable segs),
          ct_content = content, ct_structure = structure,
          ct_fingerprint = digest (Tree_Payload content structure),
          ct_row_fingerprints = row_fps\<rparr>))"

section \<open>Building the tree\<close>

type_synonym task = "nat list \<times> nat \<times> nat option"

definition common_length :: "int list list \<Rightarrow> nat list \<Rightarrow> nat" where
  "common_length rs active = Min (set (map (\<lambda>i. length (rs ! i)) active))"

text \<open>The end of the span all active rows share: the first column where one differs from the first row.\<close>

definition shared_cursor :: "int list list \<Rightarrow> nat list \<Rightarrow> nat \<Rightarrow> nat" where
  "shared_cursor rs active start =
     (let shared_end = common_length rs active in
      case find (\<lambda>c. list_ex (\<lambda>i. rs ! i ! c \<noteq> rs ! hd active ! c) (tl active)) [start..<shared_end] of
        None \<Rightarrow> max start shared_end
      | Some c \<Rightarrow> c)"

definition sibling_tasks :: "int list list \<Rightarrow> nat list \<Rightarrow> nat \<Rightarrow> nat option \<Rightarrow> task list" where
  "sibling_tasks rs active start parent =
     map (\<lambda>(token, g). (g, start, parent)) (group_first_seen (\<lambda>i. rs ! i ! start) active)"

definition active_rows :: "int list list \<Rightarrow> nat list \<Rightarrow> nat \<Rightarrow> nat list" where
  "active_rows rs indices start = filter (\<lambda>i. length (rs ! i) > start) indices"

definition segment_depth :: "canonical_segment list \<Rightarrow> nat option \<Rightarrow> nat" where
  "segment_depth segs parent = (case parent of None \<Rightarrow> 1 | Some p \<Rightarrow> cs_depth (segs ! p) + 1)"

definition new_segment :: "canonical_segment list \<Rightarrow> nat option \<Rightarrow> nat list \<Rightarrow> nat \<Rightarrow> nat \<Rightarrow> canonical_segment" where
  "new_segment segs parent active start stop =
     \<lparr>cs_index = length segs, cs_parent = parent, cs_members = active, cs_start = start, cs_end = stop,
      cs_depth = segment_depth segs parent\<rparr>"

text \<open>
  The \<^verbatim>\<open>while tasks\<close> loop; the head of the list is the top of the stack, so pushing the
  reversed siblings is prepending them in order.
\<close>

function canonical_loop :: "int list list \<Rightarrow> task list \<Rightarrow> canonical_segment list \<Rightarrow> canonical_segment list" where
  "canonical_loop rs [] segs = segs"
| "canonical_loop rs ((indices, start, parent) # tasks) segs =
     (let active = active_rows rs indices start in
      if active = [] then canonical_loop rs tasks segs
      else if length active = 1
      then canonical_loop rs tasks (segs @ [new_segment segs parent active start (length (rs ! hd active))])
      else let cursor = shared_cursor rs active start in
        if cursor > start
        then canonical_loop rs ((active, cursor, Some (length segs)) # tasks)
               (segs @ [new_segment segs parent active start cursor])
        else canonical_loop rs (sibling_tasks rs active start parent @ tasks) segs)"
  by pat_completeness auto

text \<open>
  Termination: a task weighs the tokens its rows still hold, plus two per row beyond the
  first, plus one.  A span consumes tokens; splitting a task into \<open>k \<ge> 2\<close> siblings saves
  \<open>2 (k - 1)\<close> and costs \<open>k - 1\<close>.
\<close>

definition task_weight :: "int list list \<Rightarrow> task \<Rightarrow> nat" where
  "task_weight rs t = (case t of (indices, start, parent) \<Rightarrow>
     let active = active_rows rs indices start in
     Suc ((\<Sum>i\<leftarrow>active. length (rs ! i) - start) + 2 * (length active - 1)))"

definition weight :: "int list list \<Rightarrow> task list \<Rightarrow> nat" where
  "weight rs tasks = sum_list (map (task_weight rs) tasks)"

lemma weight_simps [simp]:
  "weight rs [] = 0" "weight rs (t # ts) = task_weight rs t + weight rs ts"
  "weight rs (ts @ us) = weight rs ts + weight rs us"
  by (simp_all add: weight_def)

lemma active_rows_active [simp]: "active_rows rs (active_rows rs indices start) start = active_rows rs indices start"
  by (simp add: active_rows_def)

lemma active_rows_mem: "i \<in> set (active_rows rs indices start) \<longleftrightarrow> i \<in> set indices \<and> start < length (rs ! i)"
  by (auto simp: active_rows_def)

lemma common_length_le: "active \<noteq> [] \<Longrightarrow> i \<in> set active \<Longrightarrow> common_length rs active \<le> length (rs ! i)"
  unfolding common_length_def by (intro Min_le) auto

lemma common_length_gt: "active \<noteq> [] \<Longrightarrow> (\<And>i. i \<in> set active \<Longrightarrow> start < length (rs ! i)) \<Longrightarrow> start < common_length rs active"
  unfolding common_length_def by simp

text \<open>What the vectorised scan finds.\<close>

lemma shared_cursor_spec:
  assumes ne: "active \<noteq> []" and long: "\<And>i. i \<in> set active \<Longrightarrow> start < length (rs ! i)"
  shows "start \<le> shared_cursor rs active start"
    and "i \<in> set active \<Longrightarrow> shared_cursor rs active start \<le> length (rs ! i)"
    and "i \<in> set active \<Longrightarrow> start \<le> c \<Longrightarrow> c < shared_cursor rs active start \<Longrightarrow> rs ! i ! c = rs ! hd active ! c"
    and "shared_cursor rs active start = start \<Longrightarrow> \<exists>i \<in> set active. rs ! i ! start \<noteq> rs ! hd active ! start"
    and "shared_cursor rs active start < common_length rs active \<Longrightarrow>
      \<exists>i \<in> set active. rs ! i ! shared_cursor rs active start \<noteq> rs ! hd active ! shared_cursor rs active start"
proof -
  let ?P = "\<lambda>c. list_ex (\<lambda>i. rs ! i ! c \<noteq> rs ! hd active ! c) (tl active)"
  let ?e = "common_length rs active"
  have e: "start < ?e" by (rule common_length_gt [OF ne long])
  have mem: "set active = insert (hd active) (set (tl active))" using ne by (cases active) auto
  have same: "\<not> ?P c \<Longrightarrow> i \<in> set active \<Longrightarrow> rs ! i ! c = rs ! hd active ! c" for c i
    using mem by (auto simp: list_ex_iff)
  have diff: "?P c \<Longrightarrow> \<exists>i \<in> set active. rs ! i ! c \<noteq> rs ! hd active ! c" for c
    using mem by (auto simp: list_ex_iff)
  have "start \<le> shared_cursor rs active start \<and> shared_cursor rs active start \<le> ?e \<and>
     (\<forall>c. start \<le> c \<longrightarrow> c < shared_cursor rs active start \<longrightarrow> \<not> ?P c) \<and>
     (shared_cursor rs active start < ?e \<longrightarrow> ?P (shared_cursor rs active start))"
  proof (cases "find ?P [start..<?e]")
    case None
    then have "\<not> ?P c" if "start \<le> c" "c < ?e" for c using that by (auto simp: find_None_iff)
    with None e show ?thesis by (auto simp: shared_cursor_def Let_def)
  next
    case (Some c)
    then obtain k where k: "k < length [start..<?e]" "?P ([start..<?e] ! k)" "c = [start..<?e] ! k"
      "\<forall>j < k. \<not> ?P ([start..<?e] ! j)" by (auto simp: find_Some_iff)
    then have c: "c = start + k" "c < ?e" "?P c" by auto
    have "\<not> ?P d" if "start \<le> d" "d < c" for d
    proof -
      have "\<not> ?P ([start..<?e] ! (d - start))" using k(4) that c(1) by auto
      with that c(2) show ?thesis by simp
    qed
    with Some c show ?thesis by (auto simp: shared_cursor_def Let_def)
  qed
  with e same diff common_length_le [OF ne]
  show "start \<le> shared_cursor rs active start"
    and "i \<in> set active \<Longrightarrow> shared_cursor rs active start \<le> length (rs ! i)"
    and "i \<in> set active \<Longrightarrow> start \<le> c \<Longrightarrow> c < shared_cursor rs active start \<Longrightarrow> rs ! i ! c = rs ! hd active ! c"
    and "shared_cursor rs active start = start \<Longrightarrow> \<exists>i \<in> set active. rs ! i ! start \<noteq> rs ! hd active ! start"
    and "shared_cursor rs active start < ?e \<Longrightarrow>
      \<exists>i \<in> set active. rs ! i ! shared_cursor rs active start \<noteq> rs ! hd active ! shared_cursor rs active start"
    by (metis le_trans, metis le_trans, metis, metis, metis)
qed

lemma task_weight_active:
  assumes "active_rows rs indices start \<noteq> []"
  shows "task_weight rs (active_rows rs indices start, start, p) = task_weight rs (indices, start, q)"
  by (simp add: task_weight_def)

lemma task_weight_pos: "0 < task_weight rs t"
  by (simp add: task_weight_def Let_def split: prod.split)

lemma task_weight_advance:
  assumes "active \<noteq> []" and "\<And>i. i \<in> set active \<Longrightarrow> start < length (rs ! i)" and "start < cursor"
  shows "task_weight rs (active, cursor, p) < task_weight rs (active, start, q)"
proof -
  have all: "active_rows rs active start = active" using assms(2) by (simp add: active_rows_def)
  let ?a = "active_rows rs active cursor"
  have len: "length ?a \<le> length active" by (simp add: active_rows_def)
  have "(\<Sum>i\<leftarrow>?a. length (rs ! i) - cursor) + length active \<le> (\<Sum>i\<leftarrow>active. length (rs ! i) - start)"
    using assms(2)
  proof (induction active)
    case (Cons i js)
    have "length (rs ! i) - cursor + 1 \<le> length (rs ! i) - start" using Cons.prems [of i] assms(3) by simp
    with Cons show ?case by (auto simp: active_rows_def)
  qed (simp add: active_rows_def)
  moreover have "0 < length active" using assms(1) by simp
  ultimately show ?thesis
    using len unfolding task_weight_def Let_def prod.case all by linarith
qed

lemma sum_groups:
  fixes f :: "'a \<Rightarrow> nat"
  shows "(\<Sum>g\<leftarrow>map snd (group_first_seen key xs). \<Sum>x\<leftarrow>g. f x) = (\<Sum>x\<leftarrow>xs. f x)"
proof -
  have "(\<Sum>g\<leftarrow>gs. \<Sum>x\<leftarrow>g. f x) = (\<Sum>x\<leftarrow>concat gs. f x)" for gs
    by (induction gs) auto
  then have "(\<Sum>g\<leftarrow>map snd (group_first_seen key xs). \<Sum>x\<leftarrow>g. f x) = (\<Sum>x\<leftarrow>concat (map snd (group_first_seen key xs)). f x)" .
  also have "\<dots> = sum_mset (image_mset f (mset (concat (map snd (group_first_seen key xs)))))"
    by (simp only: sum_mset_sum_list [symmetric] mset_map)
  also have "\<dots> = (\<Sum>x\<leftarrow>xs. f x)"
    unfolding group_first_seen_mset by (simp only: sum_mset_sum_list [symmetric] mset_map)
  finally show ?thesis .
qed

lemma two_groups:
  assumes "x \<in> set xs" "y \<in> set xs" "key x \<noteq> key y"
  shows "2 \<le> length (group_first_seen key xs)"
proof -
  have "{key x, key y} \<subseteq> set (map fst (group_first_seen key xs))" using assms group_first_seen_keys [of key xs] by auto
  then have "card {key x, key y} \<le> length (map fst (group_first_seen key xs))"
    using card_mono [of "set (map fst (group_first_seen key xs))" "{key x, key y}"] card_length le_trans by blast
  with assms(3) show ?thesis by simp
qed

lemma task_weight_split:
  assumes long: "\<And>i. i \<in> set active \<Longrightarrow> start < length (rs ! i)"
    and "i \<in> set active" "j \<in> set active" "rs ! i ! start \<noteq> rs ! j ! start"
  shows "weight rs (sibling_tasks rs active start p) < task_weight rs (active, start, q)"
proof -
  let ?key = "\<lambda>i. rs ! i ! start"
  let ?d = "group_first_seen ?key active"
  have g: "g \<noteq> [] \<and> active_rows rs g start = g" if "(t, g) \<in> set ?d" for t g
  proof
    show "g \<noteq> []" by (rule group_first_seen_nonempty [OF that])
    have "\<forall>i \<in> set g. start < length (rs ! i)" using that long by (auto simp: group_first_seen_mem)
    then show "active_rows rs g start = g" by (simp add: active_rows_def)
  qed
  have step: "(case e of (token, g) \<Rightarrow> task_weight rs (g, start, p)) + 1 =
      (\<Sum>i\<leftarrow>snd e. length (rs ! i) - start) + 2 * length (snd e)" if "e \<in> set ?d" for e
  proof -
    obtain t k where e: "e = (t, k)" by (cases e)
    from g that e have "k \<noteq> []" "active_rows rs k start = k" by auto
    with e show ?thesis by (cases k) (simp_all add: task_weight_def Let_def)
  qed
  have w: "weight rs (sibling_tasks rs active start p) + length ?d =
      (\<Sum>e\<leftarrow>?d. (\<Sum>i\<leftarrow>snd e. length (rs ! i) - start) + 2 * length (snd e))"
  proof -
    have "weight rs (map (\<lambda>(token, g). (g, start, p)) d) + length d =
        (\<Sum>e\<leftarrow>d. (\<Sum>i\<leftarrow>snd e. length (rs ! i) - start) + 2 * length (snd e))"
      if "\<And>e. e \<in> set d \<Longrightarrow> (case e of (token, g) \<Rightarrow> task_weight rs (g, start, p)) + 1 =
      (\<Sum>i\<leftarrow>snd e. length (rs ! i) - start) + 2 * length (snd e)" for d
      using that
    proof (induction d)
      case (Cons e d)
      have "weight rs (map (\<lambda>(token, g). (g, start, p)) d) + length d =
        (\<Sum>e\<leftarrow>d. (\<Sum>i\<leftarrow>snd e. length (rs ! i) - start) + 2 * length (snd e))"
        by (rule Cons.IH) (use Cons.prems in simp)
      with Cons.prems [of e] show ?case by (cases e) simp
    qed simp
    from this [of ?d, OF step] show ?thesis by (simp add: sibling_tasks_def)
  qed
  have "(\<Sum>e\<leftarrow>?d. (\<Sum>i\<leftarrow>snd e. length (rs ! i) - start) + 2 * length (snd e)) =
      (\<Sum>g\<leftarrow>map snd ?d. \<Sum>i\<leftarrow>g. (length (rs ! i) - start) + 2)"
  proof -
    have "(\<Sum>i\<leftarrow>g. (length (rs ! i) - start) + 2) = (\<Sum>i\<leftarrow>g. length (rs ! i) - start) + 2 * length g" for g
      by (induction g) auto
    then show ?thesis by (simp add: comp_def)
  qed
  also have "\<dots> = (\<Sum>i\<leftarrow>active. (length (rs ! i) - start) + 2)" by (rule sum_groups)
  also have "\<dots> = (\<Sum>i\<leftarrow>active. length (rs ! i) - start) + 2 * length active"
    by (induction active) auto
  finally have total: "weight rs (sibling_tasks rs active start p) + length ?d =
      (\<Sum>i\<leftarrow>active. length (rs ! i) - start) + 2 * length active" using w by simp
  have all: "active_rows rs active start = active" using long by (simp add: active_rows_def)
  have "2 \<le> length ?d" by (rule two_groups [OF assms(2,3)]) (rule assms(4))
  moreover have "active \<noteq> []" using assms(2) by auto
  then have "0 < length active" by simp
  ultimately show ?thesis using total unfolding task_weight_def Let_def prod.case all by linarith
qed

termination canonical_loop
proof (relation "measure (\<lambda>(rs, tasks, segs). weight rs tasks)")
  show "wf (measure (\<lambda>(rs, tasks, segs). weight rs tasks))" by simp
next
  fix rs indices start parent tasks active and segs :: "canonical_segment list"
  assume active: "active = active_rows rs indices start"
  have w: "task_weight rs (indices, start, parent) = task_weight rs (active, start, q)" if "active \<noteq> []" for q
    using that by (simp add: active task_weight_def)
  have long: "start < length (rs ! i)" if "i \<in> set active" for i using that by (simp add: active active_rows_mem)
  show "((rs, tasks, segs), rs, (indices, start, parent) # tasks, segs) \<in> measure (\<lambda>(rs, tasks, segs). weight rs tasks)"
    using task_weight_pos by simp
  show "((rs, tasks, segs @ [new_segment segs parent active start (length (rs ! hd active))]), rs,
      (indices, start, parent) # tasks, segs) \<in> measure (\<lambda>(rs, tasks, segs). weight rs tasks)"
    using task_weight_pos by simp
  show "((rs, (active, cursor, Some (length segs)) # tasks, segs @ [new_segment segs parent active start cursor]), rs,
      (indices, start, parent) # tasks, segs) \<in> measure (\<lambda>(rs, tasks, segs). weight rs tasks)"
    if "active \<noteq> []" "start < cursor" for cursor
    using task_weight_advance [OF that(1) long that(2)] w [OF that(1)] by simp
  show "((rs, sibling_tasks rs active start parent @ tasks, segs), rs, (indices, start, parent) # tasks, segs)
      \<in> measure (\<lambda>(rs, tasks, segs). weight rs tasks)"
    if ne: "active \<noteq> []" and cursor: "cursor = shared_cursor rs active start" "\<not> start < cursor" for cursor
  proof -
    have "shared_cursor rs active start = start"
      using shared_cursor_spec(1) [where rs = rs and active = active and start = start, OF ne long] cursor by simp
    from shared_cursor_spec(4) [where rs = rs and active = active and start = start, OF ne long this]
    obtain i where "i \<in> set active" "rs ! i ! start \<noteq> rs ! hd active ! start" by blast
    from task_weight_split [OF long this(1) hd_in_set [OF ne] this(2), where p = parent] w [OF ne]
    show ?thesis by simp
  qed
qed

definition build_canonical_prefix_tree :: "(payload \<Rightarrow> string) \<Rightarrow> int list list \<Rightarrow> canonical_tree result" where
  "build_canonical_prefix_tree digest rs =
     ensure (rs \<noteq> []) (ValueError ''a canonical prefix tree requires at least one sequence'')
    (ensure (\<not> list_ex (\<lambda>r. length r = 0) rs) (ValueError ''prefix-tree sequences must not be empty'')
    (finalize_canonical_prefix_tree digest (map length rs)
       (canonical_loop rs [([0..<length rs], 0, None)] [])
       (map (\<lambda>r. digest (Row_Payload r)) rs)))"

section \<open>The invariant of the loop\<close>

text \<open>A canonical segment as a segment of the packing contract: group ids count from one.\<close>

definition cs_prefix :: "canonical_segment \<Rightarrow> prefix_segment" where
  "cs_prefix s = \<lparr>sequence_indices = cs_members s, seg_start = cs_start s, seg_end = cs_end s,
     group_id = int (cs_index s) + 1,
     parent_id = (case cs_parent s of None \<Rightarrow> int (cs_index s) + 1 | Some p \<Rightarrow> int p + 1)\<rparr>"

lemma cs_prefix_simps [simp]:
  "sequence_indices (cs_prefix s) = cs_members s" "seg_start (cs_prefix s) = cs_start s"
  "seg_end (cs_prefix s) = cs_end s" "group_id (cs_prefix s) = int (cs_index s) + 1"
  "parent_id (cs_prefix s) = (case cs_parent s of None \<Rightarrow> int (cs_index s) + 1 | Some p \<Rightarrow> int p + 1)"
  by (simp_all add: cs_prefix_def)

definition parent_link :: "nat option \<Rightarrow> prefix_segment list \<Rightarrow> bool" where
  "parent_link p ss \<longleftrightarrow> (case p of None \<Rightarrow> ss = [] | Some k \<Rightarrow> ss \<noteq> [] \<and> group_id (last ss) = int k + 1)"

text \<open>Rows outside \<open>A\<close> disagree with the rows of \<open>A\<close> within the first \<open>n + 1\<close> tokens.\<close>

definition closed_at :: "int list list \<Rightarrow> nat set \<Rightarrow> nat \<Rightarrow> bool" where
  "closed_at rs A n \<longleftrightarrow> (\<forall>i \<in> A. \<forall>j < length rs. n < length (rs ! i) \<longrightarrow> n < length (rs ! j) \<longrightarrow>
     take (Suc n) (rs ! i) = take (Suc n) (rs ! j) \<longrightarrow> j \<in> A)"

definition task_ok :: "int list list \<Rightarrow> canonical_segment list \<Rightarrow> task \<Rightarrow> bool" where
  "task_ok rs segs t \<longleftrightarrow> (case t of (indices, start, parent) \<Rightarrow>
     rows_agree rs (set indices) start \<and> closed_at rs (set indices) start \<and>
     (\<forall>i \<in> set indices. seg_chain 0 start None (path i (map cs_prefix segs)) \<and>
        parent_link parent (path i (map cs_prefix segs))))"

definition parent_ok :: "canonical_segment list \<Rightarrow> canonical_segment \<Rightarrow> bool" where
  "parent_ok segs s \<longleftrightarrow> cs_depth s = segment_depth segs (cs_parent s) \<and> (case cs_parent s of
      None \<Rightarrow> cs_start s = 0
    | Some p \<Rightarrow> p < cs_index s \<and> cs_end (segs ! p) = cs_start s \<and> set (cs_members s) \<subseteq> set (cs_members (segs ! p)))"

definition built :: "int list list \<Rightarrow> canonical_segment list \<Rightarrow> bool" where
  "built rs segs \<longleftrightarrow> (\<forall>k < length segs. cs_index (segs ! k) = k) \<and>
     (\<forall>s \<in> set segs. seg_valid rs (cs_prefix s) \<and> closed_at rs (set (cs_members s)) (cs_start s) \<and> parent_ok segs s)"

definition pending :: "task list \<Rightarrow> nat list" where
  "pending tasks = concat (map fst tasks)"

lemma pending_simps [simp]:
  "pending [] = []" "pending (t # ts) = fst t @ pending ts" "pending (ts @ us) = pending ts @ pending us"
  by (simp_all add: pending_def)

definition loop_inv :: "int list list \<Rightarrow> task list \<Rightarrow> canonical_segment list \<Rightarrow> bool" where
  "loop_inv rs tasks segs \<longleftrightarrow> built rs segs \<and> distinct (pending tasks) \<and> (\<forall>t \<in> set tasks. task_ok rs segs t) \<and>
     (\<forall>i < length rs. i \<notin> set (pending tasks) \<longrightarrow> seg_chain 0 (length (rs ! i)) None (path i (map cs_prefix segs)))"

lemma loop_invD:
  assumes "loop_inv rs tasks segs"
  shows "built rs segs" "distinct (pending tasks)" "t \<in> set tasks \<Longrightarrow> task_ok rs segs t"
    "i < length rs \<Longrightarrow> i \<notin> set (pending tasks) \<Longrightarrow> seg_chain 0 (length (rs ! i)) None (path i (map cs_prefix segs))"
  using assms unfolding loop_inv_def by blast+

lemma task_okD:
  assumes "task_ok rs segs (indices, start, parent)"
  shows "rows_agree rs (set indices) start" "closed_at rs (set indices) start"
    "i \<in> set indices \<Longrightarrow> seg_chain 0 start None (path i (map cs_prefix segs))"
    "i \<in> set indices \<Longrightarrow> parent_link parent (path i (map cs_prefix segs))"
  using assms unfolding task_ok_def by blast+

lemma closed_atD:
  "closed_at rs A n \<Longrightarrow> i \<in> A \<Longrightarrow> j < length rs \<Longrightarrow> n < length (rs ! i) \<Longrightarrow> n < length (rs ! j) \<Longrightarrow>
   take (Suc n) (rs ! i) = take (Suc n) (rs ! j) \<Longrightarrow> j \<in> A"
  unfolding closed_at_def by blast

text \<open>Appending a segment that continues the rows of one task leaves the other rows alone.\<close>

lemma path_other:
  "i \<notin> set (cs_members s) \<Longrightarrow> path i (map cs_prefix (segs @ [s])) = path i (map cs_prefix segs)"
  by (simp add: path_Cons)

lemma path_member:
  "i \<in> set (cs_members s) \<Longrightarrow> path i (map cs_prefix (segs @ [s])) = path i (map cs_prefix segs) @ [cs_prefix s]"
  by (simp add: path_Cons)

lemma task_ok_other:
  assumes "task_ok rs segs t" and "set (fst t) \<inter> set (cs_members s) = {}"
  shows "task_ok rs (segs @ [s]) t"
proof -
  obtain indices start parent where t: "t = (indices, start, parent)" by (cases t)
  have "path i (map cs_prefix (segs @ [s])) = path i (map cs_prefix segs)" if "i \<in> set indices" for i
    by (rule path_other) (use that assms(2) t in auto)
  with assms(1) show ?thesis unfolding t task_ok_def by simp
qed

lemma new_chain:
  assumes c: "seg_chain 0 start None (path i (map cs_prefix segs))" and p: "parent_link parent (path i (map cs_prefix segs))"
    and i: "i \<in> set active" and "start < stop"
  shows "seg_chain 0 stop None (path i (map cs_prefix (segs @ [new_segment segs parent active start stop])))"
    and "parent_link (Some (length segs)) (path i (map cs_prefix (segs @ [new_segment segs parent active start stop])))"
proof -
  let ?s = "new_segment segs parent active start stop"
  have path: "path i (map cs_prefix (segs @ [?s])) = path i (map cs_prefix segs) @ [cs_prefix ?s]"
    by (rule path_member) (simp add: new_segment_def i)
  show "parent_link (Some (length segs)) (path i (map cs_prefix (segs @ [?s])))"
    unfolding path parent_link_def by (simp add: new_segment_def)
  have "seg_chain 0 (seg_end (cs_prefix ?s)) None (path i (map cs_prefix segs) @ [cs_prefix ?s])"
    by (rule seg_chain_snoc [OF c]) (use p assms(4) in \<open>auto simp: new_segment_def parent_link_def split: option.splits\<close>)
  then show "seg_chain 0 stop None (path i (map cs_prefix (segs @ [?s])))"
    unfolding path by (simp add: new_segment_def)
qed

text \<open>The last segment of a row, found through the link its task keeps.\<close>

lemma linked_parent:
  assumes b: "built rs segs" and p: "parent_link (Some p) (path i (map cs_prefix segs))"
    and c: "seg_chain 0 start None (path i (map cs_prefix segs))"
  shows "p < length segs" "cs_end (segs ! p) = start" "i \<in> set (cs_members (segs ! p))"
proof -
  let ?l = "last (path i (map cs_prefix segs))"
  have ne: "path i (map cs_prefix segs) \<noteq> []" and g: "group_id ?l = int p + 1" using p by (auto simp: parent_link_def)
  have "?l \<in> set (map cs_prefix segs)" "i \<in> set (sequence_indices ?l)" using path_last_mem [OF ne] by auto
  then obtain k where k: "k < length segs" "?l = cs_prefix (segs ! k)" by (auto simp: in_set_conv_nth)
  then have "cs_index (segs ! k) = k" using b by (simp add: built_def)
  with k g have "k = p" by simp
  with k \<open>i \<in> set (sequence_indices ?l)\<close> show "p < length segs" "i \<in> set (cs_members (segs ! p))" by simp_all
  have "seg_chain 0 start None (butlast (path i (map cs_prefix segs)) @ [?l])" using c ne by simp
  then have "seg_end ?l = start" by (rule seg_chain_last)
  with k \<open>k = p\<close> show "cs_end (segs ! p) = start" by simp
qed

lemma parent_ok_append:
  assumes "parent_ok segs s" and "cs_index s < length segs"
  shows "parent_ok (segs @ ts) s"
  using assms by (auto simp: parent_ok_def segment_depth_def nth_append split: option.splits)

lemma parent_ok_new:
  assumes b: "built rs segs" and ne: "active \<noteq> []"
    and c: "\<And>i. i \<in> set active \<Longrightarrow> seg_chain 0 start None (path i (map cs_prefix segs))"
    and p: "\<And>i. i \<in> set active \<Longrightarrow> parent_link parent (path i (map cs_prefix segs))"
  shows "parent_ok (segs @ [new_segment segs parent active start stop]) (new_segment segs parent active start stop)"
proof (cases parent)
  case None
  have "path (hd active) (map cs_prefix segs) = []" using p [OF hd_in_set [OF ne]] None by (simp add: parent_link_def)
  with c [OF hd_in_set [OF ne]] None show ?thesis by (simp add: parent_ok_def new_segment_def segment_depth_def)
next
  case (Some q)
  note l = linked_parent [OF b]
  have "q < length segs" "cs_end (segs ! q) = start"
    using l [OF p [OF hd_in_set [OF ne], unfolded Some] c [OF hd_in_set [OF ne]]] by simp_all
  moreover have "set active \<subseteq> set (cs_members (segs ! q))" using l(3) p c unfolding Some by blast
  ultimately show ?thesis by (simp add: Some parent_ok_def new_segment_def segment_depth_def nth_append)
qed

lemma built_new:
  assumes b: "built rs segs" and "active \<noteq> []" "distinct active" and "rows_agree rs (set active) stop"
    and "closed_at rs (set active) start"
    and c: "\<And>i. i \<in> set active \<Longrightarrow> seg_chain 0 start None (path i (map cs_prefix segs))"
    and p: "\<And>i. i \<in> set active \<Longrightarrow> parent_link parent (path i (map cs_prefix segs))"
  shows "built rs (segs @ [new_segment segs parent active start stop])"
proof -
  let ?s = "new_segment segs parent active start stop"
  have "parent_ok (segs @ [?s]) ?s" by (rule parent_ok_new [OF b assms(2) c p])
  moreover have "parent_ok (segs @ [?s]) s" if "s \<in> set segs" for s
  proof (rule parent_ok_append)
    show "parent_ok segs s" using that b unfolding built_def by blast
    show "cs_index s < length segs" using that b by (auto simp: built_def in_set_conv_nth)
  qed
  moreover have "seg_valid rs (cs_prefix ?s) \<and> closed_at rs (set (cs_members ?s)) (cs_start ?s)"
    using assms(2-5) by (simp add: seg_valid_def new_segment_def)
  moreover have "cs_index ?s = length segs" by (simp add: new_segment_def)
  ultimately show ?thesis using b unfolding built_def by (auto simp: nth_append less_Suc_eq)
qed

section \<open>One iteration\<close>

lemma drop_inactive:
  assumes inv: "loop_inv rs ((indices, start, parent) # tasks) segs" and i: "i \<in> set indices"
    and "i \<notin> set (active_rows rs indices start)"
  shows "seg_chain 0 (length (rs ! i)) None (path i (map cs_prefix segs))"
proof -
  have ok: "task_ok rs segs (indices, start, parent)" by (rule loop_invD(3) [OF inv]) simp
  have "length (rs ! i) = start"
    using rows_agree_len [OF task_okD(1) [OF ok] i] assms(3) i by (simp add: active_rows_mem)
  with task_okD(3) [OF ok i] show ?thesis by simp
qed

lemma active_closed:
  assumes ok: "task_ok rs segs (indices, start, parent)"
  shows "closed_at rs (set (active_rows rs indices start)) start"
  unfolding closed_at_def
proof (intro ballI allI impI)
  fix i j assume *: "i \<in> set (active_rows rs indices start)" "j < length rs" "start < length (rs ! i)"
    "start < length (rs ! j)" "take (Suc start) (rs ! i) = take (Suc start) (rs ! j)"
  have i: "i \<in> set indices" using *(1) by (simp add: active_rows_mem)
  have "j \<in> set indices" by (rule closed_atD [OF task_okD(2) [OF ok] i *(2-5)])
  then show "j \<in> set (active_rows rs indices start)" using *(4) by (simp add: active_rows_mem)
qed

lemma closed_later:
  assumes c: "closed_at rs A start" and "start \<le> stop"
  shows "closed_at rs A stop"
  unfolding closed_at_def
proof (intro ballI allI impI)
  fix i j assume *: "i \<in> A" "j < length rs" "stop < length (rs ! i)" "stop < length (rs ! j)"
    "take (Suc stop) (rs ! i) = take (Suc stop) (rs ! j)"
  show "j \<in> A"
    by (rule closed_atD [OF c *(1,2)]) (use * assms(2) take_eq_le [OF *(5), of "Suc start"] in auto)
qed

lemma rows_agree_subset: "rows_agree rs A n \<Longrightarrow> B \<subseteq> A \<Longrightarrow> rows_agree rs B n"
  unfolding rows_agree_def by blast

lemma active_subset: "set (active_rows rs indices start) \<subseteq> set indices"
  by (auto simp: active_rows_mem)

lemma rows_agree_cursor:
  assumes agree: "rows_agree rs (set active) start" and ne: "active \<noteq> []"
    and long: "\<And>i. i \<in> set active \<Longrightarrow> start < length (rs ! i)"
  shows "rows_agree rs (set active) (shared_cursor rs active start)"
proof -
  let ?e = "shared_cursor rs active start"
  note sc = shared_cursor_spec [where rs = rs and active = active and start = start, OF ne long]
  have h: "hd active \<in> set active" using ne by simp
  have hd_eq: "take ?e (rs ! i) = take ?e (rs ! hd active)" if i: "i \<in> set active" for i
  proof (rule take_eq_extend)
    show "take start (rs ! i) = take start (rs ! hd active)" by (rule rows_agree_take [OF agree i h])
    show "?e \<le> length (rs ! i)" "?e \<le> length (rs ! hd active)" using sc(2) i h by blast+
    show "rs ! i ! j = rs ! hd active ! j" if "start \<le> j" "j < ?e" for j using sc(3) i that by blast
  qed
  have "i < length rs \<and> ?e \<le> length (rs ! i)" if "i \<in> set active" for i
    using rows_agree_bound [OF agree that] sc(2) [of i] that by blast
  moreover have "take ?e (rs ! i) = take ?e (rs ! j)" if "i \<in> set active" "j \<in> set active" for i j
    using hd_eq [OF that(1)] hd_eq [OF that(2)] by (rule trans [OF _ sym])
  ultimately show ?thesis unfolding rows_agree_def by blast
qed

text \<open>The rest of the stack is untouched by a segment over rows of the popped task.\<close>

lemma rest_ok:
  assumes inv: "loop_inv rs ((indices, start, parent) # tasks) segs" and sub: "set (cs_members s) \<subseteq> set indices"
    and t: "t \<in> set tasks"
  shows "task_ok rs (segs @ [s]) t"
proof (rule task_ok_other)
  show "task_ok rs segs t" by (rule loop_invD(3) [OF inv]) (use t in simp)
  have "set (fst t) \<subseteq> set (pending tasks)" using t by (auto simp: pending_def)
  with loop_invD(2) [OF inv] sub show "set (fst t) \<inter> set (cs_members s) = {}" by auto
qed

lemma inv_skip:
  assumes inv: "loop_inv rs ((indices, start, parent) # tasks) segs" and "active_rows rs indices start = []"
  shows "loop_inv rs tasks segs"
proof -
  have "seg_chain 0 (length (rs ! i)) None (path i (map cs_prefix segs))"
    if i: "i < length rs" "i \<notin> set (pending tasks)" for i
  proof (cases "i \<in> set indices")
    case True
    then show ?thesis by (rule drop_inactive [OF inv]) (simp add: assms(2))
  next
    case False
    then show ?thesis using loop_invD(4) [OF inv, of i] i by simp
  qed
  then show ?thesis
    unfolding loop_inv_def using loop_invD(1,2) [OF inv] loop_invD(3) [OF inv] by simp
qed

lemma inv_extend:
  assumes inv: "loop_inv rs ((indices, start, parent) # tasks) segs" and active: "active = active_rows rs indices start"
    and ne: "active \<noteq> []" and agree: "rows_agree rs (set active) stop" and "start < stop"
  shows "loop_inv rs ((active, stop, Some (length segs)) # tasks) (segs @ [new_segment segs parent active start stop])"
proof -
  let ?s = "new_segment segs parent active start stop"
  have ok: "task_ok rs segs (indices, start, parent)" by (rule loop_invD(3) [OF inv]) simp
  have sub: "set active \<subseteq> set indices" unfolding active by (rule active_subset)
  have members: "cs_members ?s = active" by (simp add: new_segment_def)
  have dist: "distinct (pending ((active, stop, Some (length segs)) # tasks))"
    using loop_invD(2) [OF inv] sub by (auto simp: active active_rows_def)
  have cl: "closed_at rs (set active) start" unfolding active by (rule active_closed [OF ok])
  have b: "built rs (segs @ [?s])"
  proof (rule built_new [OF loop_invD(1) [OF inv] ne _ agree cl])
    show "distinct active" using dist by simp
    show "seg_chain 0 start None (path i (map cs_prefix segs))" "parent_link parent (path i (map cs_prefix segs))"
      if "i \<in> set active" for i
      using task_okD(3,4) [OF ok, of i] sub that by blast+
  qed
  have "closed_at rs (set active) stop" by (rule closed_later [OF cl]) (use assms(5) in simp)
  then have top: "task_ok rs (segs @ [?s]) (active, stop, Some (length segs))"
    using agree new_chain [OF task_okD(3,4) [OF ok] _ assms(5)] sub unfolding task_ok_def by blast
  have "seg_chain 0 (length (rs ! i)) None (path i (map cs_prefix (segs @ [?s])))"
    if i: "i < length rs" "i \<notin> set (pending ((active, stop, Some (length segs)) # tasks))" for i
  proof -
    have "i \<notin> set active" using i by simp
    then have path: "path i (map cs_prefix (segs @ [?s])) = path i (map cs_prefix segs)"
      by (intro path_other) (simp add: members)
    show ?thesis unfolding path
    proof (cases "i \<in> set indices")
      case True
      then show "seg_chain 0 (length (rs ! i)) None (path i (map cs_prefix segs))"
        by (rule drop_inactive [OF inv]) (use i active in simp)
    next
      case False
      then show "seg_chain 0 (length (rs ! i)) None (path i (map cs_prefix segs))"
        using loop_invD(4) [OF inv, of i] i by simp
    qed
  qed
  with b dist top rest_ok [OF inv, of ?s] sub show ?thesis unfolding loop_inv_def by (simp add: members)
qed

text \<open>A task at the end of all its rows is complete.\<close>

lemma inv_finish:
  assumes inv: "loop_inv rs (([i], length (rs ! i), parent) # tasks) segs"
  shows "loop_inv rs tasks segs"
  by (rule inv_skip [OF inv]) (simp add: active_rows_def)

lemma sibling_facts:
  assumes t: "t \<in> set (sibling_tasks rs active start parent)"
  obtains token g where "t = (g, start, parent)" and "g = filter (\<lambda>i. rs ! i ! start = token) active"
  using t by (auto simp: sibling_tasks_def group_first_seen_mem)

lemma pending_siblings: "mset (pending (sibling_tasks rs active start parent)) = mset active"
proof -
  have "map fst (sibling_tasks rs active start parent) = map snd (group_first_seen (\<lambda>i. rs ! i ! start) active)"
    by (simp add: sibling_tasks_def case_prod_unfold)
  then show ?thesis using group_first_seen_mset [of "\<lambda>i. rs ! i ! start" active] by (simp add: pending_def)
qed

lemma inv_split:
  assumes inv: "loop_inv rs ((indices, start, parent) # tasks) segs" and active: "active = active_rows rs indices start"
  shows "loop_inv rs (sibling_tasks rs active start parent @ tasks) segs"
proof -
  let ?ts = "sibling_tasks rs active start parent"
  have ok: "task_ok rs segs (indices, start, parent)" by (rule loop_invD(3) [OF inv]) simp
  have set_p: "set (pending ?ts) = set active" using pending_siblings by (metis set_mset_mset)
  have sub: "set active \<subseteq> set indices" unfolding active by (rule active_subset)
  have "distinct active" using loop_invD(2) [OF inv] by (simp add: active active_rows_def)
  then have "distinct (pending ?ts)" using pending_siblings mset_eq_imp_distinct_iff by blast
  then have dist: "distinct (pending (?ts @ tasks))" using loop_invD(2) [OF inv] sub set_p by auto
  have cl: "closed_at rs (set active) start" unfolding active by (rule active_closed [OF ok])
  have sib: "task_ok rs segs t" if ht: "t \<in> set ?ts" for t
  proof -
    obtain token g where t: "t = (g, start, parent)" and g: "g = filter (\<lambda>i. rs ! i ! start = token) active"
      by (rule sibling_facts [OF ht])
    have gsub: "set g \<subseteq> set indices" using sub g by auto
    have "closed_at rs (set g) start"
      unfolding closed_at_def
    proof (intro ballI allI impI)
      fix i j assume *: "i \<in> set g" "j < length rs" "start < length (rs ! i)" "start < length (rs ! j)"
        "take (Suc start) (rs ! i) = take (Suc start) (rs ! j)"
      have "i \<in> set active" using *(1) g by simp
      then have "j \<in> set active" by (rule closed_atD [OF cl _ *(2-5)])
      moreover have "rs ! i ! start = rs ! j ! start"
        using *(5) by (metis lessI nth_take)
      ultimately show "j \<in> set g" using *(1) g by simp
    qed
    with rows_agree_subset [OF task_okD(1) [OF ok] gsub] task_okD(3,4) [OF ok] gsub
    show ?thesis unfolding t task_ok_def by blast
  qed
  have "seg_chain 0 (length (rs ! i)) None (path i (map cs_prefix segs))"
    if i: "i < length rs" "i \<notin> set (pending (?ts @ tasks))" for i
  proof (cases "i \<in> set indices")
    case True
    then show ?thesis by (rule drop_inactive [OF inv]) (use i set_p active in auto)
  next
    case False
    then show ?thesis using loop_invD(4) [OF inv, of i] i by simp
  qed
  with loop_invD(1) [OF inv] dist sib loop_invD(3) [OF inv] show ?thesis unfolding loop_inv_def by auto
qed

lemma canonical_loop_inv: "loop_inv rs tasks segs \<Longrightarrow> loop_inv rs [] (canonical_loop rs tasks segs)"
proof (induction rs tasks segs rule: canonical_loop.induct)
  case (2 rs indices start parent tasks segs)
  define active where "active = active_rows rs indices start"
  note IH = "2.IH" [OF active_def]
  consider (empty) "active = []" | (single) "active \<noteq> []" "length active = 1"
    | (span) "active \<noteq> []" "length active \<noteq> 1" "start < shared_cursor rs active start"
    | (split) "active \<noteq> []" "length active \<noteq> 1" "\<not> start < shared_cursor rs active start" by blast
  then show ?case
  proof cases
    case empty
    then have "canonical_loop rs ((indices, start, parent) # tasks) segs = canonical_loop rs tasks segs"
      by (simp add: active_def)
    with IH(1) [OF empty inv_skip [OF "2.prems"]] empty show ?thesis by (simp add: active_def)
  next
    case single
    then obtain i where i: "active = [i]" by (cases active) auto
    then have "start < length (rs ! i)" using active_rows_mem [of i rs indices start] by (simp add: active_def)
    moreover have "rows_agree rs (set active) (length (rs ! i))"
    proof -
      have "task_ok rs segs (indices, start, parent)" by (rule loop_invD(3) [OF "2.prems"]) simp
      from rows_agree_bound [OF task_okD(1) [OF this], of i] i active_subset [of rs indices start]
      show ?thesis by (simp add: active_def [symmetric] rows_agree_def)
    qed
    ultimately have "loop_inv rs (([i], length (rs ! i), Some (length segs)) # tasks)
        (segs @ [new_segment segs parent active start (length (rs ! i))])"
      using inv_extend [OF "2.prems" active_def single(1)] i by simp
    from IH(2) [OF single] inv_finish [OF this]
    have "loop_inv rs [] (canonical_loop rs tasks (segs @ [new_segment segs parent active start (length (rs ! i))]))"
      using i by simp
    moreover have "canonical_loop rs ((indices, start, parent) # tasks) segs =
        canonical_loop rs tasks (segs @ [new_segment segs parent active start (length (rs ! i))])"
      using i by (simp add: active_def [symmetric])
    ultimately show ?thesis by simp
  next
    case span
    let ?c = "shared_cursor rs active start"
    have "task_ok rs segs (indices, start, parent)" by (rule loop_invD(3) [OF "2.prems"]) simp
    then have "rows_agree rs (set active) start"
      by (rule rows_agree_subset [OF task_okD(1)]) (simp add: active_def active_subset)
    then have "rows_agree rs (set active) ?c"
      by (rule rows_agree_cursor [OF _ span(1)]) (simp add: active_def active_rows_mem)
    from IH(3) [OF span(1,2) refl span(3) inv_extend [OF "2.prems" active_def span(1) this span(3)]]
    have "loop_inv rs [] (canonical_loop rs ((active, ?c, Some (length segs)) # tasks)
        (segs @ [new_segment segs parent active start ?c]))" .
    moreover have "canonical_loop rs ((indices, start, parent) # tasks) segs =
        canonical_loop rs ((active, ?c, Some (length segs)) # tasks) (segs @ [new_segment segs parent active start ?c])"
      using span by (simp add: active_def [symmetric] Let_def)
    ultimately show ?thesis by simp
  next
    case split
    from IH(4) [OF split(1,2) refl split(3) inv_split [OF "2.prems" active_def]]
    have "loop_inv rs [] (canonical_loop rs (sibling_tasks rs active start parent @ tasks) segs)" .
    moreover have "canonical_loop rs ((indices, start, parent) # tasks) segs =
        canonical_loop rs (sibling_tasks rs active start parent @ tasks) segs"
      using split by (simp add: active_def [symmetric] Let_def)
    ultimately show ?thesis by simp
  qed
qed simp

section \<open>The tree that is built\<close>

declare canonical_loop.simps [simp del]

lemma foldl_update_length: "length (foldl (\<lambda>ts i. ts[i := v]) ts js) = length ts"
  by (induction js arbitrary: ts) auto

lemma foldl_update_nth:
  "i < length ts \<Longrightarrow> foldl (\<lambda>ts i. ts[i := v]) ts js ! i = (if i \<in> set js then v else ts ! i)"
proof (induction js arbitrary: ts)
  case (Cons j js)
  then show ?case by (cases "i = j") auto
qed simp

lemma record_terminals_length: "length (record_terminals n segs) = n"
proof -
  have "length (foldl (\<lambda>ts s. foldl (\<lambda>ts i. ts[i := Some (cs_index s)]) ts (cs_members s)) ts segs) = length ts" for ts
    by (induction segs arbitrary: ts) (simp_all add: foldl_update_length)
  then show ?thesis by (simp add: record_terminals_def)
qed

lemma record_terminals_nth:
  assumes "i < n"
  shows "record_terminals n segs ! i =
    (let ss = path i (map cs_prefix segs) in if ss = [] then None else Some (nat (group_id (last ss) - 1)))"
proof (induction segs rule: rev_induct)
  case Nil
  then show ?case using assms by (simp add: record_terminals_def)
next
  case (snoc s segs)
  have step: "record_terminals n (segs @ [s]) = foldl (\<lambda>ts i. ts[i := Some (cs_index s)]) (record_terminals n segs) (cs_members s)"
    by (simp add: record_terminals_def)
  have "i < length (record_terminals n segs)" using assms by (simp add: record_terminals_length)
  from foldl_update_nth [OF this] snoc show ?case
    unfolding step by (cases "i \<in> set (cs_members s)") (simp_all add: path_Cons Let_def)
qed

definition tree_paths :: "canonical_tree \<Rightarrow> prefix_segment list" where
  "tree_paths tree = map cs_prefix (ct_segments tree)"

definition tree_ok :: "int list list \<Rightarrow> canonical_tree \<Rightarrow> bool" where
  "tree_ok rs tree \<longleftrightarrow> ct_lengths tree = map length rs \<and> built rs (ct_segments tree) \<and>
     (\<forall>i < length rs. seg_chain 0 (length (rs ! i)) None (path i (tree_paths tree)) \<and> path i (tree_paths tree) \<noteq> []) \<and>
     (\<forall>i < length rs. group_id (last (path i (tree_paths tree))) = int (ct_terminals tree ! i) + 1) \<and>
     length (ct_terminals tree) = length rs \<and>
     ct_by_terminal tree = map (\<lambda>k. filter (\<lambda>i. ct_terminals tree ! i = k) [0..<length rs]) [0..<length (ct_segments tree)] \<and>
     ct_decisions tree = map cs_index (filter cs_shareable (ct_segments tree))"

lemma initial_inv: "loop_inv rs [([0..<length rs], 0, None)] []"
  by (auto simp: loop_inv_def built_def task_ok_def rows_agree_def closed_at_def parent_link_def)

lemma canonical_chains:
  "built rs (canonical_loop rs [([0..<length rs], 0, None)] [])"
  "i < length rs \<Longrightarrow> seg_chain 0 (length (rs ! i)) None
     (path i (map cs_prefix (canonical_loop rs [([0..<length rs], 0, None)] [])))"
  using loop_invD [OF canonical_loop_inv [OF initial_inv]] by simp_all

lemma build_canonical_tree:
  assumes "rs \<noteq> []" and "\<forall>r \<in> set rs. r \<noteq> []"
  obtains tree where "build_canonical_prefix_tree digest rs = Inr tree" and "tree_ok rs tree"
    and "ct_segments tree = canonical_loop rs [([0..<length rs], 0, None)] []"
proof -
  let ?segs = "canonical_loop rs [([0..<length rs], 0, None)] []"
  let ?ts = "record_terminals (length rs) ?segs"
  have chain: "seg_chain 0 (length (rs ! i)) None (path i (map cs_prefix ?segs))" if "i < length rs" for i
    by (rule canonical_chains(2) [OF that])
  have ne: "path i (map cs_prefix ?segs) \<noteq> []" if i: "i < length rs" for i
  proof
    assume "path i (map cs_prefix ?segs) = []"
    with chain [OF i] have "length (rs ! i) = 0" by simp
    with assms(2) i show False by (metis length_0_conv nth_mem)
  qed
  have t: "?ts ! i = Some (nat (group_id (last (path i (map cs_prefix ?segs))) - 1))" if i: "i < length rs" for i
    using record_terminals_nth [OF i, of ?segs] ne [OF i] by (simp add: Let_def)
  have covered: "\<not> list_ex (\<lambda>t. t = None) ?ts"
    using t by (auto simp: list_ex_iff in_set_conv_nth record_terminals_length)
  have last: "group_id (last (path i (map cs_prefix ?segs))) = int (the (?ts ! i)) + 1" if i: "i < length rs" for i
  proof -
    have "last (path i (map cs_prefix ?segs)) \<in> set (map cs_prefix ?segs)" using path_last_mem [OF ne [OF i]] by blast
    then have "0 < group_id (last (path i (map cs_prefix ?segs)))" by auto
    then show ?thesis using t [OF i] by simp
  qed
  define tree where "tree = \<lparr>ct_lengths = map length rs, ct_segments = ?segs, ct_terminals = map the ?ts,
      ct_by_terminal = map (\<lambda>k. filter (\<lambda>i. map the ?ts ! i = k) [0..<length (map the ?ts)]) [0..<length ?segs],
      ct_decisions = map cs_index (filter cs_shareable ?segs),
      ct_content = digest (Rows_Payload (zip (map length rs) (map (\<lambda>r. digest (Row_Payload r)) rs))),
      ct_structure = digest (Structure_Payload (map length rs)
            (map (\<lambda>s. (cs_parent s, cs_members s, cs_start s, cs_end s)) ?segs)),
      ct_fingerprint = digest (Tree_Payload
        (digest (Rows_Payload (zip (map length rs) (map (\<lambda>r. digest (Row_Payload r)) rs))))
        (digest (Structure_Payload (map length rs)
            (map (\<lambda>s. (cs_parent s, cs_members s, cs_start s, cs_end s)) ?segs)))),
      ct_row_fingerprints = map (\<lambda>r. digest (Row_Payload r)) rs\<rparr>"
  have noempty: "\<not> list_ex (\<lambda>r. length r = 0) rs" using assms(2) by (simp add: list_ex_iff)
  have "build_canonical_prefix_tree digest rs = Inr tree"
    unfolding build_canonical_prefix_tree_def finalize_canonical_prefix_tree_def tree_def
    using assms(1) noempty covered by (simp only: Let_def ensure_simps simp_thms length_map)
  moreover have "tree_ok rs tree"
    unfolding tree_ok_def tree_paths_def
    using canonical_chains(1) chain ne last by (simp add: tree_def record_terminals_length)
  moreover have "ct_segments tree = ?segs" by (simp add: tree_def)
  ultimately show thesis by (rule that)
qed

lemma build_canonical_Inr:
  assumes "build_canonical_prefix_tree digest rs = Inr tree"
  shows "rs \<noteq> []" "\<forall>r \<in> set rs. r \<noteq> []" "tree_ok rs tree"
proof -
  show *: "rs \<noteq> []" "\<forall>r \<in> set rs. r \<noteq> []"
    using assms by (auto simp: build_canonical_prefix_tree_def ensure_Inr_iff list_ex_iff)
  obtain tree' where "build_canonical_prefix_tree digest rs = Inr tree'" "tree_ok rs tree'"
    by (rule build_canonical_tree [OF *, of digest]) simp
  with assms show "tree_ok rs tree" by simp
qed

lemma tree_okD:
  assumes "tree_ok rs tree"
  shows "ct_lengths tree = map length rs" "built rs (ct_segments tree)"
    "i < length rs \<Longrightarrow> seg_chain 0 (length (rs ! i)) None (path i (tree_paths tree))"
    "i < length rs \<Longrightarrow> path i (tree_paths tree) \<noteq> []"
    "i < length rs \<Longrightarrow> group_id (last (path i (tree_paths tree))) = int (ct_terminals tree ! i) + 1"
    "length (ct_terminals tree) = length rs"
    "ct_by_terminal tree = map (\<lambda>k. filter (\<lambda>i. ct_terminals tree ! i = k) [0..<length rs]) [0..<length (ct_segments tree)]"
    "ct_decisions tree = map cs_index (filter cs_shareable (ct_segments tree))"
  using assms unfolding tree_ok_def by blast+

lemma builtD:
  assumes "built rs segs"
  shows "k < length segs \<Longrightarrow> cs_index (segs ! k) = k"
    and "s \<in> set segs \<Longrightarrow> seg_valid rs (cs_prefix s)"
    and "s \<in> set segs \<Longrightarrow> closed_at rs (set (cs_members s)) (cs_start s)"
    and "s \<in> set segs \<Longrightarrow> parent_ok segs s"
  using assms unfolding built_def by blast+

lemma built_indices: "built rs segs \<Longrightarrow> map cs_index segs = [0..<length segs]"
  by (rule nth_equalityI) (simp_all add: built_def)

text \<open>The whole tree, laid out one segment after the other, is a packing plan.\<close>

lemma place_segments_valid:
  "s \<in> set (place_segments c ss) \<Longrightarrow> \<exists>t \<in> set ss. sequence_indices s = sequence_indices t \<and> seg_start s = seg_start t \<and>
     seg_end s = seg_end t \<and> group_id s = group_id t \<and> parent_id s = parent_id t"
  using place_segments_mem [of s c ss] by (auto simp: prefix_segment.defs)

lemma place_well_packed:
  assumes "\<And>i. i < length rs \<Longrightarrow> seg_chain 0 (length (rs ! i)) None (path i ss)"
    and "\<And>s. s \<in> set ss \<Longrightarrow> seg_valid rs s" and "distinct (map group_id ss)"
  shows "well_packed rs (place_segments 0 ss)"
  unfolding well_packed_def
proof (intro conjI allI impI ballI)
  show "seg_chain 0 (length (rs ! i)) None (path i (place_segments 0 ss))" if "i < length rs" for i
    using assms(1) [OF that] by (simp add: place_segments_chain)
  show "seg_valid rs s" if hs: "s \<in> set (place_segments 0 ss)" for s
  proof -
    obtain t where t: "t \<in> set ss" "sequence_indices s = sequence_indices t" "seg_end s = seg_end t" "group_id s = group_id t"
      using place_segments_valid [OF hs] by blast
    from assms(2) [OF t(1)] show ?thesis unfolding seg_valid_def t(2-4) .
  qed
  show "distinct (map group_id (place_segments 0 ss))" using assms(3) by (simp add: place_segments_fields)
qed (rule place_segments_packed)

lemma tree_well_packed:
  assumes "tree_ok rs tree"
  shows "well_packed rs (place_segments 0 (tree_paths tree))"
proof (rule place_well_packed)
  show "seg_chain 0 (length (rs ! i)) None (path i (tree_paths tree))" if "i < length rs" for i
    by (rule tree_okD(3) [OF assms that])
  show "seg_valid rs s" if "s \<in> set (tree_paths tree)" for s
    using that builtD(2) [OF tree_okD(2) [OF assms]] by (auto simp: tree_paths_def)
  have "map group_id (tree_paths tree) = map (\<lambda>k. int k + 1) (map cs_index (ct_segments tree))"
    by (simp add: tree_paths_def comp_def)
  also have "distinct \<dots>" unfolding built_indices [OF tree_okD(2) [OF assms]] by (simp add: distinct_map inj_on_def)
  finally show "distinct (map group_id (tree_paths tree))" .
qed

section \<open>No plan is shorter than the tree\<close>

lemma seg_chain_cover:
  "seg_chain a b p ss \<Longrightarrow> a \<le> c \<Longrightarrow> c < b \<Longrightarrow> \<exists>s \<in> set ss. seg_start s \<le> c \<and> c < seg_end s"
proof (induction a b p ss rule: seg_chain.induct)
  case (2 a b p s ss)
  then show ?case by (cases "c < seg_end s") auto
qed simp

lemma seg_chain_cover_unique:
  "seg_chain a b p ss \<Longrightarrow> s \<in> set ss \<Longrightarrow> t \<in> set ss \<Longrightarrow> seg_start s \<le> c \<Longrightarrow> c < seg_end s \<Longrightarrow>
   seg_start t \<le> c \<Longrightarrow> c < seg_end t \<Longrightarrow> s = t"
proof (induction a b p ss rule: seg_chain.induct)
  case (2 a b p u ss)
  note r = seg_chain_range [of "seg_end u" b "Some (group_id u)" ss]
  from "2.prems" r [of s] r [of t] "2.IH" show ?case by fastforce
qed simp

text \<open>The cells of a plan: one per token it stores.\<close>

definition plan_cells :: "'a prefix_segment_scheme list \<Rightarrow> (int \<times> nat) set" where
  "plan_cells segs = (\<Union>s \<in> set segs. {group_id s} \<times> {seg_start s..<seg_end s})"

lemma plan_cells_card:
  "distinct (map group_id segs) \<Longrightarrow> card (plan_cells segs) = plan_length segs \<and> finite (plan_cells segs)"
proof (induction segs)
  case (Cons s segs)
  then have IH: "card (plan_cells segs) = plan_length segs" "finite (plan_cells segs)" by simp_all
  have "({group_id s} \<times> {seg_start s..<seg_end s}) \<inter> plan_cells segs = {}"
    using Cons.prems by (auto simp: plan_cells_def)
  then have "card (plan_cells (s # segs)) = card ({group_id s} \<times> {seg_start s..<seg_end s}) + card (plan_cells segs)"
    using IH(2) by (simp add: plan_cells_def card_Un_disjoint)
  with IH show ?case by (simp add: seg_length_def) (simp add: plan_cells_def)
qed (simp add: plan_cells_def)

text \<open>
  Every cell of the tree is stored by any plan, and two cells of the tree are never
  stored in the same place: rows that meet there agree up to it, so maximality puts them
  into one segment of the tree.
\<close>

lemma tree_is_shortest:
  assumes ok: "tree_ok rs tree" and wp: "well_packed rs segs"
  shows "plan_length (tree_paths tree) \<le> plan_length segs"
proof -
  let ?T = "tree_paths tree"
  note wT = tree_well_packed [OF ok]
  have dT: "distinct (map group_id ?T)" using well_packedD(3) [OF wT] by (simp add: place_segments_fields)
  have T: "\<exists>s. s \<in> set (ct_segments tree) \<and> t = cs_prefix s" if "t \<in> set ?T" for t using that by (auto simp: tree_paths_def)
  have valid: "seg_valid rs t" if "t \<in> set ?T" for t using T [OF that] builtD(2) [OF tree_okD(2) [OF ok]] by blast
  have member: "\<exists>i. i \<in> set (sequence_indices t) \<and> i < length rs" if "t \<in> set ?T" for t
    using valid [OF that] unfolding seg_valid_def by (metis hd_in_set rows_agree_bound)
  have ex: "\<exists>s. s \<in> set segs \<and> (\<exists>i \<in> set (sequence_indices t). i \<in> set (sequence_indices s)) \<and> seg_start s \<le> c \<and> c < seg_end s"
    if t: "t \<in> set ?T" and c: "seg_start t \<le> c" "c < seg_end t" for t c
  proof -
    obtain i where i: "i \<in> set (sequence_indices t)" "i < length rs" using member [OF t] by blast
    have "c < length (rs ! i)" using rows_agree_len [of rs "set (sequence_indices t)" "seg_end t" i] valid [OF t] i c
      by (simp add: seg_valid_def)
    from seg_chain_cover [OF well_packedD(1) [OF wp i(2)] le0 this] obtain s where
      "s \<in> set (path i segs)" "seg_start s \<le> c" "c < seg_end s" by blast
    with i show ?thesis unfolding path_mem by blast
  qed
  define pick where "pick x = (SOME s. s \<in> set segs \<and> (\<exists>t \<in> set ?T. group_id t = fst x \<and> seg_start t \<le> snd x \<and> snd x < seg_end t \<and>
      (\<exists>i \<in> set (sequence_indices t). i \<in> set (sequence_indices s))) \<and> seg_start s \<le> snd x \<and> snd x < seg_end s)" for x
  have pick: "pick x \<in> set segs \<and> (\<exists>t \<in> set ?T. group_id t = fst x \<and> seg_start t \<le> snd x \<and> snd x < seg_end t \<and>
      (\<exists>i \<in> set (sequence_indices t). i \<in> set (sequence_indices (pick x)))) \<and> seg_start (pick x) \<le> snd x \<and> snd x < seg_end (pick x)"
    if hx: "x \<in> plan_cells ?T" for x
  proof -
    obtain t where t: "t \<in> set ?T" "group_id t = fst x" "seg_start t \<le> snd x" "snd x < seg_end t"
      using hx by (auto simp: plan_cells_def)
    obtain s where "s \<in> set segs" "\<exists>i \<in> set (sequence_indices t). i \<in> set (sequence_indices s)"
      "seg_start s \<le> snd x" "snd x < seg_end s"
      using ex [OF t(1,3,4)] by blast
    with t have "\<exists>s. s \<in> set segs \<and> (\<exists>t \<in> set ?T. group_id t = fst x \<and> seg_start t \<le> snd x \<and> snd x < seg_end t \<and>
      (\<exists>i \<in> set (sequence_indices t). i \<in> set (sequence_indices s))) \<and> seg_start s \<le> snd x \<and> snd x < seg_end s"
      by blast
    then show ?thesis unfolding pick_def by (rule someI_ex)
  qed
  have inj: "inj_on (\<lambda>x. (group_id (pick x), snd x)) (plan_cells ?T)"
  proof (rule inj_onI)
    fix x y assume x: "x \<in> plan_cells ?T" and y: "y \<in> plan_cells ?T"
      and eq: "(group_id (pick x), snd x) = (group_id (pick y), snd y)"
    have same: "pick x = pick y" using group_id_unique [OF well_packedD(3) [OF wp]] pick [OF x] pick [OF y] eq by blast
    obtain t i where t: "t \<in> set ?T" "group_id t = fst x" "seg_start t \<le> snd x" "snd x < seg_end t"
      "i \<in> set (sequence_indices t)" "i \<in> set (sequence_indices (pick x))" using pick [OF x] by blast
    obtain u j where u: "u \<in> set ?T" "group_id u = fst y" "seg_start u \<le> snd y" "snd y < seg_end u"
      "j \<in> set (sequence_indices u)" "j \<in> set (sequence_indices (pick y))" using pick [OF y] by blast
    let ?c = "snd x"
    have agree: "rows_agree rs (set (sequence_indices (pick x))) (seg_end (pick x))"
      using well_packedD(2) [OF wp] pick [OF x] by (simp add: seg_valid_def)
    have ij: "i \<in> set (sequence_indices (pick x))" "j \<in> set (sequence_indices (pick x))" using t(6) u(6) same by simp_all
    have long: "?c < length (rs ! i)" "?c < length (rs ! j)" "j < length rs"
      using rows_agree_len [OF agree ij(1)] rows_agree_len [OF agree ij(2)] rows_agree_bound [OF agree ij(2)] pick [OF x]
      by linarith+
    have "take (Suc ?c) (rs ! i) = take (Suc ?c) (rs ! j)"
      by (rule take_eq_le [OF rows_agree_take [OF agree ij]]) (use pick [OF x] in auto)
    moreover have "closed_at rs (set (sequence_indices t)) ?c"
    proof -
      obtain s where "s \<in> set (ct_segments tree)" "t = cs_prefix s" using T [OF t(1)] by blast
      then have "closed_at rs (set (sequence_indices t)) (seg_start t)"
        using builtD(3) [OF tree_okD(2) [OF ok]] by simp
      then show ?thesis by (rule closed_later) (rule t(3))
    qed
    ultimately have j: "j \<in> set (sequence_indices t)" using closed_atD t(5) long by metis
    have "t = u"
      by (rule seg_chain_cover_unique [OF tree_okD(3) [OF ok long(3)], where c = ?c])
        (use t u j eq in \<open>auto simp: path_mem\<close>)
    with t(2) u(2) eq show "x = y" by (simp add: prod_eq_iff)
  qed
  have sub: "(\<lambda>x. (group_id (pick x), snd x)) ` plan_cells ?T \<subseteq> plan_cells segs"
    using pick by (fastforce simp: plan_cells_def)
  have "card (plan_cells ?T) \<le> card (plan_cells segs)"
    by (rule card_inj_on_le [OF inj sub]) (use plan_cells_card [OF well_packedD(3) [OF wp]] in blast)
  then show ?thesis using plan_cells_card [OF dT] plan_cells_card [OF well_packedD(3) [OF wp]] by simp
qed

section \<open>Properties of the canonical tree\<close>

text \<open>A segment is nonempty and cannot be extended: one of its rows ends, or two of them differ.\<close>

definition unextendable :: "int list list \<Rightarrow> canonical_segment \<Rightarrow> bool" where
  "unextendable rs s \<longleftrightarrow> cs_start s < cs_end s \<and> ((\<exists>i \<in> set (cs_members s). length (rs ! i) = cs_end s) \<or>
     (\<exists>i \<in> set (cs_members s). \<exists>j \<in> set (cs_members s). rs ! i ! cs_end s \<noteq> rs ! j ! cs_end s))"

lemma common_length_attained: "active \<noteq> [] \<Longrightarrow> \<exists>i \<in> set active. length (rs ! i) = common_length rs active"
proof -
  assume "active \<noteq> []"
  then have "Min (set (map (\<lambda>i. length (rs ! i)) active)) \<in> set (map (\<lambda>i. length (rs ! i)) active)" by (intro Min_in) simp_all
  then obtain i where "i \<in> set active" "Min (set (map (\<lambda>i. length (rs ! i)) active)) = length (rs ! i)" by auto
  then show ?thesis unfolding common_length_def by metis
qed

lemma new_segment_unextendable:
  assumes ne: "active \<noteq> []" and long: "\<And>i. i \<in> set active \<Longrightarrow> start < length (rs ! i)"
  shows "start < shared_cursor rs active start \<Longrightarrow>
      unextendable rs (new_segment segs parent active start (shared_cursor rs active start))"
    and "unextendable rs (new_segment segs parent active start (length (rs ! hd active)))"
proof -
  have differ: "shared_cursor rs active start < common_length rs active \<Longrightarrow>
      \<exists>i \<in> set active. rs ! i ! shared_cursor rs active start \<noteq> rs ! hd active ! shared_cursor rs active start"
    by (rule shared_cursor_spec(5) [OF ne]) (use long in auto)
  have inside: "i \<in> set active \<Longrightarrow> shared_cursor rs active start \<le> length (rs ! i)" for i
    by (rule shared_cursor_spec(2) [OF ne]) (use long in auto)
  have hd: "hd active \<in> set active" using ne by simp
  assume pos: "start < shared_cursor rs active start"
  show "unextendable rs (new_segment segs parent active start (shared_cursor rs active start))"
  proof (cases "shared_cursor rs active start < common_length rs active")
    case True
    from differ [OF this] hd pos show ?thesis by (auto simp: unextendable_def new_segment_def)
  next
    case False
    obtain i where i: "i \<in> set active" "length (rs ! i) = common_length rs active" using common_length_attained [OF ne] by blast
    with False inside [OF i(1)] have "length (rs ! i) = shared_cursor rs active start" by simp
    with i(1) pos show ?thesis by (auto simp: unextendable_def new_segment_def)
  qed
next
  have hd: "hd active \<in> set active" using ne by simp
  with long [OF hd] show "unextendable rs (new_segment segs parent active start (length (rs ! hd active)))"
    by (auto simp: unextendable_def new_segment_def)
qed

lemma canonical_loop_unextendable:
  "\<forall>s \<in> set segs. unextendable rs s \<Longrightarrow> s \<in> set (canonical_loop rs tasks segs) \<Longrightarrow> unextendable rs s"
proof (induction rs tasks segs rule: canonical_loop.induct)
  case (2 rs indices start parent tasks segs)
  define active where "active = active_rows rs indices start"
  note IH = "2.IH" [OF active_def]
  have long: "start < length (rs ! i)" if "i \<in> set active" for i using that by (simp add: active_def active_rows_mem)
  have new: "\<forall>s \<in> set (segs @ [t]). unextendable rs s" if "unextendable rs t" for t using that "2.prems"(1) by simp
  consider (empty) "active = []" | (single) "active \<noteq> []" "length active = 1"
    | (span) "active \<noteq> []" "length active \<noteq> 1" "start < shared_cursor rs active start"
    | (split) "active \<noteq> []" "length active \<noteq> 1" "\<not> start < shared_cursor rs active start" by blast
  then show ?case
  proof cases
    case empty
    then have eq: "canonical_loop rs ((indices, start, parent) # tasks) segs = canonical_loop rs tasks segs"
      by (subst canonical_loop.simps(2)) (simp add: active_def [symmetric])
    show ?thesis by (rule IH(1) [OF empty "2.prems"(1) "2.prems"(2) [unfolded eq]])
  next
    case single
    have eq: "canonical_loop rs ((indices, start, parent) # tasks) segs =
        canonical_loop rs tasks (segs @ [new_segment segs parent active start (length (rs ! hd active))])"
      using single by (subst canonical_loop.simps(2)) (simp add: active_def [symmetric])
    show ?thesis
      by (rule IH(2) [OF single new [OF new_segment_unextendable(2) [OF single(1) long]] "2.prems"(2) [unfolded eq]])
  next
    case span
    have eq: "canonical_loop rs ((indices, start, parent) # tasks) segs =
        canonical_loop rs ((active, shared_cursor rs active start, Some (length segs)) # tasks)
          (segs @ [new_segment segs parent active start (shared_cursor rs active start)])"
      using span by (subst canonical_loop.simps(2)) (simp add: active_def [symmetric] Let_def)
    show ?thesis
      by (rule IH(3) [OF span(1,2) refl span(3) new [OF new_segment_unextendable(1) [OF span(1) long span(3)]] "2.prems"(2) [unfolded eq]])
  next
    case split
    have eq: "canonical_loop rs ((indices, start, parent) # tasks) segs = canonical_loop rs (sibling_tasks rs active start parent @ tasks) segs"
      using split by (subst canonical_loop.simps(2)) (simp add: active_def [symmetric] Let_def)
    show ?thesis by (rule IH(4) [OF split(1,2) refl split(3) "2.prems"(1) "2.prems"(2) [unfolded eq]])
  qed
qed (simp add: canonical_loop.simps(1))

text \<open>The end of a segment is the longest common prefix of its rows.\<close>

lemma segment_end_longest:
  assumes valid: "seg_valid rs (cs_prefix s)" and stop: "unextendable rs s"
  shows "(\<forall>i \<in> set (cs_members s). \<forall>j \<in> set (cs_members s). e \<le> length (rs ! i) \<and> take e (rs ! i) = take e (rs ! j)) \<longleftrightarrow>
    e \<le> cs_end s" (is "?agree \<longleftrightarrow> _")
proof
  have "rows_agree rs (set (cs_members s)) (cs_end s)" using valid by (simp add: seg_valid_def)
  then have all: "\<And>i. i \<in> set (cs_members s) \<Longrightarrow> cs_end s \<le> length (rs ! i)"
    "\<And>i j. i \<in> set (cs_members s) \<Longrightarrow> j \<in> set (cs_members s) \<Longrightarrow> take (cs_end s) (rs ! i) = take (cs_end s) (rs ! j)"
    unfolding rows_agree_def by blast+
  assume "e \<le> cs_end s"
  show ?agree
  proof (intro ballI conjI)
    fix i j assume ij: "i \<in> set (cs_members s)" "j \<in> set (cs_members s)"
    show "e \<le> length (rs ! i)" by (rule order.trans [OF \<open>e \<le> cs_end s\<close> all(1) [OF ij(1)]])
    have "take e (take (cs_end s) (rs ! i)) = take e (take (cs_end s) (rs ! j))" using all(2) [OF ij] by (rule arg_cong)
    then show "take e (rs ! i) = take e (rs ! j)" using \<open>e \<le> cs_end s\<close> by (simp add: min_absorb1)
  qed
next
  assume agree: ?agree
  show "e \<le> cs_end s"
  proof (rule ccontr)
    assume e: "\<not> e \<le> cs_end s"
    from stop consider i where "i \<in> set (cs_members s)" "length (rs ! i) = cs_end s"
      | i j where "i \<in> set (cs_members s)" "j \<in> set (cs_members s)" "rs ! i ! cs_end s \<noteq> rs ! j ! cs_end s"
      unfolding unextendable_def by blast
    then show False
    proof cases
      case (1 i)
      have "e \<le> length (rs ! i)" using agree 1(1) by blast
      with 1(2) e show False by simp
    next
      case (2 i j)
      have "take e (rs ! i) = take e (rs ! j)" using agree 2(1,2) by blast
      then have "take e (rs ! i) ! cs_end s = take e (rs ! j) ! cs_end s" by simp
      with 2(3) e show False by simp
    qed
  qed
qed

text \<open>
  C16. The canonical tree exists exactly for nonempty sets of nonempty rows (the loop
  over the stack ends and covers every row), and it is the radix tree of the rows:
  reading a row along its segments gives the row, parents come before their children,
  end where they start and hold all their rows, a segment is nonempty and ends where the
  longest common prefix of its rows does, so its rows agree on every token up to there,
  and it holds every row that agrees with one of its rows up to and including the
  segment's first token.
\<close>

theorem canonical_tree_is_radix_tree:
  assumes "rs \<noteq> []" and "\<forall>r \<in> set rs. r \<noteq> []"
  shows "\<exists>tree. build_canonical_prefix_tree digest rs = Inr tree \<and>
    (\<forall>i < length rs. concat (map (\<lambda>s. slice (rs ! i) (seg_start s) (seg_end s)) (path i (tree_paths tree))) = rs ! i) \<and>
    (\<forall>k < length (ct_segments tree). parent_ok (ct_segments tree) (ct_segments tree ! k) \<and>
       cs_index (ct_segments tree ! k) = k) \<and>
    (\<forall>s \<in> set (ct_segments tree). cs_start s < cs_end s \<and> (\<forall>e.
       (\<forall>i \<in> set (cs_members s). \<forall>j \<in> set (cs_members s). e \<le> length (rs ! i) \<and> take e (rs ! i) = take e (rs ! j)) \<longleftrightarrow>
       e \<le> cs_end s)) \<and>
    (\<forall>s \<in> set (ct_segments tree). \<forall>i \<in> set (cs_members s). \<forall>j < length rs.
       cs_start s < length (rs ! i) \<longrightarrow> cs_start s < length (rs ! j) \<longrightarrow>
       take (Suc (cs_start s)) (rs ! i) = take (Suc (cs_start s)) (rs ! j) \<longrightarrow> j \<in> set (cs_members s))"
proof -
  obtain tree where tree: "build_canonical_prefix_tree digest rs = Inr tree" "tree_ok rs tree"
    and loop: "ct_segments tree = canonical_loop rs [([0..<length rs], 0, None)] []"
    by (rule build_canonical_tree [OF assms, of digest])
  note b = builtD [OF tree_okD(2) [OF tree(2)]]
  have "concat (map (\<lambda>s. slice (rs ! i) (seg_start s) (seg_end s)) (path i (tree_paths tree))) = rs ! i"
    if "i < length rs" for i
    using seg_chain_slices [OF tree_okD(3) [OF tree(2) that], of "rs ! i"] by simp
  moreover have "parent_ok (ct_segments tree) (ct_segments tree ! k) \<and> cs_index (ct_segments tree ! k) = k"
    if "k < length (ct_segments tree)" for k
    using b(1) [OF that] b(4) [OF nth_mem [OF that]] by blast
  moreover have "cs_start s < cs_end s \<and> (\<forall>e. (\<forall>i \<in> set (cs_members s). \<forall>j \<in> set (cs_members s).
      e \<le> length (rs ! i) \<and> take e (rs ! i) = take e (rs ! j)) \<longleftrightarrow> e \<le> cs_end s)" if "s \<in> set (ct_segments tree)" for s
  proof -
    have "unextendable rs s" by (rule canonical_loop_unextendable [OF _ that [unfolded loop]]) simp
    with segment_end_longest [OF b(2) [OF that]] show ?thesis by (simp add: unextendable_def)
  qed
  moreover have "j \<in> set (cs_members s)" if "s \<in> set (ct_segments tree)" "i \<in> set (cs_members s)" "j < length rs"
      "cs_start s < length (rs ! i)" "cs_start s < length (rs ! j)"
      "take (Suc (cs_start s)) (rs ! i) = take (Suc (cs_start s)) (rs ! j)" for s i j
    by (rule closed_atD [OF b(3) [OF that(1)] that(2-6)])
  ultimately show ?thesis using tree(1) by blast
qed

theorem canonical_tree_is_radix_tree_witness:
  "\<exists>tree. build_canonical_prefix_tree (\<lambda>p. ''d'') [[1, 2, 3], [1, 2, 4], [5]] = Inr tree \<and>
    concat (map (\<lambda>s. slice [1, 2, 4 :: int] (seg_start s) (seg_end s)) (path 1 (tree_paths tree))) = [1, 2, 4]"
proof -
  have "[[1, 2, 3], [1, 2, 4], [5]] \<noteq> ([] :: int list list)" "\<forall>r \<in> set [[1, 2, 3], [1, 2, 4], [5 :: int]]. r \<noteq> []"
    by simp_all
  from canonical_tree_is_radix_tree [OF this, of "\<lambda>p. ''d''"] obtain tree where
    "build_canonical_prefix_tree (\<lambda>p. ''d'') [[1, 2, 3], [1, 2, 4], [5]] = Inr tree"
    "\<forall>i < 3. concat (map (\<lambda>s. slice ([[1, 2, 3], [1, 2, 4], [5 :: int]] ! i) (seg_start s) (seg_end s)) (path i (tree_paths tree)))
      = [[1, 2, 3], [1, 2, 4], [5]] ! i" by auto
  then show ?thesis by (intro exI [of _ tree]) (auto dest: spec [of _ 1])
qed

text \<open>
  C17. Sharing every common prefix is optimal: the canonical tree stores no more tokens
  than any packing plan of the same rows, whatever its sharing decisions are.
\<close>

theorem full_sharing_is_optimal:
  assumes "build_canonical_prefix_tree digest rs = Inr tree" and "well_packed rs segs"
  shows "(\<Sum>s\<leftarrow>ct_segments tree. cs_length s) \<le> plan_length segs"
proof -
  have "plan_length (tree_paths tree) = (\<Sum>s\<leftarrow>ct_segments tree. cs_length s)"
    by (simp add: plan_length_def tree_paths_def seg_length_def cs_length_def comp_def)
  with tree_is_shortest [OF build_canonical_Inr(3) [OF assms(1)] assms(2)] show ?thesis by simp
qed

lemma canonical_example:
  "build_canonical_prefix_tree (\<lambda>p. ''d'') [[1, 2, 3], [1, 2, 4]] = Inr
    \<lparr>ct_lengths = [3, 3],
     ct_segments =
       [\<lparr>cs_index = 0, cs_parent = None, cs_members = [0, 1], cs_start = 0, cs_end = 2, cs_depth = 1\<rparr>,
        \<lparr>cs_index = 1, cs_parent = Some 0, cs_members = [0], cs_start = 2, cs_end = 3, cs_depth = 2\<rparr>,
        \<lparr>cs_index = 2, cs_parent = Some 0, cs_members = [1], cs_start = 2, cs_end = 3, cs_depth = 2\<rparr>],
     ct_terminals = [1, 2], ct_by_terminal = [[], [0], [1]], ct_decisions = [0],
     ct_content = ''d'', ct_structure = ''d'', ct_fingerprint = ''d'', ct_row_fingerprints = [''d'', ''d'']\<rparr>"
  by code_simp

theorem full_sharing_is_optimal_witness:
  "(\<Sum>s\<leftarrow>ct_segments (projr (build_canonical_prefix_tree (\<lambda>p. ''d'') [[1, 2, 3], [1, 2, 4]])). cs_length s)
    \<le> plan_length example_segments"
  using full_sharing_is_optimal [OF canonical_example prefix_tree_pack_segments_Inr [OF pack_segments_example]]
  by (simp add: canonical_example)

end
