(* ===== verification/Prefix_Layout.thy ===== *)
theory Prefix_Layout
  imports Canonical_Tree
begin

text \<open>
  \<^verbatim>\<open>src/art/trainer_rank/_prefix_tree_planner.py\<close>, second part: share/replay decisions on
  the canonical tree, the layout they give, the mandatory candidate family; and
  \<^verbatim>\<open>_prefix_tree_materializer.py\<close>, which turns a layout into packed tensors.
\<close>

section \<open>Layouts\<close>

record planned_segment =
  ps_members :: "nat list"
  ps_start :: nat
  ps_end :: nat
  ps_parent :: "nat option"
  ps_canonical :: "nat option"

definition ps_length :: "planned_segment \<Rightarrow> nat" where
  "ps_length s = ps_end s - ps_start s"

record prefix_tree_layout =
  ly_tree :: string
  ly_selected :: "nat set"
  ly_segments :: "planned_segment list result"
  ly_count :: nat
  ly_packed :: nat
  ly_depth :: nat
  ly_fingerprint :: string

text \<open>\<^verbatim>\<open>_nearest_selected_segments\<close>.\<close>

definition nearest_step :: "nat set \<Rightarrow> canonical_segment \<Rightarrow> nat option list \<times> nat option list
    \<Rightarrow> nat option list \<times> nat option list" where
  "nearest_step S c st =
     (let (nearest, parents) = st;
          parent = (case cs_parent c of None \<Rightarrow> None | Some p \<Rightarrow> nearest ! p) in
      if cs_index c \<in> S then (nearest[cs_index c := Some (cs_index c)], parents[cs_index c := parent])
      else (nearest[cs_index c := parent], parents))"

definition nearest_selected_segments :: "canonical_tree \<Rightarrow> nat set \<Rightarrow> nat option list \<times> nat option list" where
  "nearest_selected_segments tree S =
     fold (nearest_step S) (ct_segments tree)
       (replicate (length (ct_segments tree)) None, replicate (length (ct_segments tree)) None)"

definition end_of :: "canonical_tree \<Rightarrow> nat option \<Rightarrow> nat" where
  "end_of tree k = (case k of None \<Rightarrow> 0 | Some p \<Rightarrow> cs_end (ct_segments tree ! p))"

subsection \<open>Metrics\<close>

record shape_state =
  sh_depths :: "nat list"
  sh_tokens :: nat
  sh_depth :: nat
  sh_count :: nat

definition depth_after :: "nat list \<Rightarrow> nat option \<Rightarrow> nat" where
  "depth_after depths k = (case k of None \<Rightarrow> 1 | Some p \<Rightarrow> depths ! p + 1)"

definition shape_selected :: "canonical_tree \<Rightarrow> nat set \<Rightarrow> nat option list \<Rightarrow> canonical_segment \<Rightarrow> shape_state
    \<Rightarrow> shape_state result" where
  "shape_selected tree S parents c st =
     (if cs_index c \<notin> S then Inr st
      else let parent = parents ! cs_index c; start = end_of tree parent in
        ensure (\<not> start \<ge> cs_end c) (ValueError ''a selected canonical segment has an empty span'')
       (let depth = depth_after (sh_depths st) parent in
        Inr (st\<lparr>sh_depths := (sh_depths st)[cs_index c := depth],
               sh_depth := (if depth > sh_depth st then depth else sh_depth st),
               sh_tokens := sh_tokens st + (cs_end c - start)\<rparr>)))"

definition shape_tail :: "canonical_tree \<Rightarrow> nat option list \<Rightarrow> nat \<times> nat list \<Rightarrow> shape_state \<Rightarrow> shape_state" where
  "shape_tail tree nearest t st =
     (case t of (terminal, members) \<Rightarrow>
      if members = [] then st
      else let deepest = nearest ! terminal; start = end_of tree deepest;
               sequence_length = ct_lengths tree ! hd members in
        if start \<ge> sequence_length then st
        else let depth = depth_after (sh_depths st) deepest in
          st\<lparr>sh_count := sh_count st + length members,
             sh_tokens := sh_tokens st + (sequence_length - start) * length members,
             sh_depth := (if depth > sh_depth st then depth else sh_depth st)\<rparr>)"

definition layout_shape :: "canonical_tree \<Rightarrow> nat set \<Rightarrow> (nat \<times> nat \<times> nat) result" where
  "layout_shape tree S =
     (let (nearest, parents) = nearest_selected_segments tree S in
      bindE (foldE (shape_selected tree S parents) (ct_segments tree)
          \<lparr>sh_depths = replicate (length (ct_segments tree)) 0, sh_tokens = 0, sh_depth = 0, sh_count = card S\<rparr>)
        (\<lambda>st. let st' = fold (shape_tail tree nearest) (List.enumerate 0 (ct_by_terminal tree)) st in
          Inr (sh_tokens st', sh_depth st', sh_count st')))"

subsection \<open>The segments of a layout\<close>

record planned_state =
  pl_by_canonical :: "nat option list"
  pl_out :: "planned_segment list"

text \<open>\<^verbatim>\<open>planned_index\<close> is the number of segments yielded so far.\<close>

definition plan_parent :: "nat option list \<Rightarrow> nat option \<Rightarrow> nat option" where
  "plan_parent by_canonical k = (case k of None \<Rightarrow> None | Some p \<Rightarrow> by_canonical ! p)"

definition plan_selected :: "canonical_tree \<Rightarrow> nat set \<Rightarrow> nat option list \<Rightarrow> canonical_segment \<Rightarrow> planned_state
    \<Rightarrow> planned_state result" where
  "plan_selected tree S parents c st =
     (if cs_index c \<notin> S then Inr st
      else let parent_canonical = parents ! cs_index c;
               parent_segment = plan_parent (pl_by_canonical st) parent_canonical in
        ensure (\<not> (parent_canonical \<noteq> None \<and> parent_segment = None))
          (AssertionError ''selected parent was not emitted before its child'')
         (Inr \<lparr>pl_by_canonical = (pl_by_canonical st)[cs_index c := Some (length (pl_out st))],
           pl_out = pl_out st @ [\<lparr>ps_members = cs_members c, ps_start = end_of tree parent_canonical,
             ps_end = cs_end c, ps_parent = parent_segment, ps_canonical = Some (cs_index c)\<rparr>]\<rparr>))"

definition plan_tails :: "canonical_tree \<Rightarrow> nat option list \<Rightarrow> canonical_segment \<Rightarrow> planned_state \<Rightarrow> planned_state result" where
  "plan_tails tree nearest c st =
     (let members = ct_by_terminal tree ! cs_index c in
      if members = [] then Inr st
      else let deepest = nearest ! cs_index c; start = end_of tree deepest;
               sequence_length = ct_lengths tree ! hd members in
        if start \<ge> sequence_length then Inr st
        else foldE (\<lambda>i st.
          let parent_segment = plan_parent (pl_by_canonical st) deepest in
          ensure (\<not> (deepest \<noteq> None \<and> parent_segment = None))
            (AssertionError ''selected parent was not emitted before its tail'')
           (Inr (st\<lparr>pl_out := pl_out st @ [\<lparr>ps_members = [i], ps_start = start, ps_end = sequence_length,
              ps_parent = parent_segment, ps_canonical = None\<rparr>]\<rparr>))) members st)"

definition plan_canonical :: "canonical_tree \<Rightarrow> nat set \<Rightarrow> nat option list \<Rightarrow> nat option list \<Rightarrow> canonical_segment
    \<Rightarrow> planned_state \<Rightarrow> planned_state result" where
  "plan_canonical tree S nearest parents c st =
     bindE (plan_selected tree S parents c st) (plan_tails tree nearest c)"

definition iter_planned_segments :: "canonical_tree \<Rightarrow> nat set \<Rightarrow> planned_segment list result" where
  "iter_planned_segments tree S =
     (let (nearest, parents) = nearest_selected_segments tree S in
      bindE (foldE (plan_canonical tree S nearest parents) (ct_segments tree)
          \<lparr>pl_by_canonical = replicate (length (ct_segments tree)) None, pl_out = []\<rparr>)
        (\<lambda>st. Inr (pl_out st)))"

definition plan_prefix_tree_layout :: "(payload \<Rightarrow> string) \<Rightarrow> canonical_tree \<Rightarrow> nat set \<Rightarrow> prefix_tree_layout result" where
  "plan_prefix_tree_layout digest tree S =
     ensure (S \<subseteq> set (ct_decisions tree)) (ValueError ''unknown or unshareable decisions'')
     (bindE (layout_shape tree S) (\<lambda>(packed_tokens, maximum_depth, segment_count).
       Inr \<lparr>ly_tree = ct_fingerprint tree, ly_selected = S, ly_segments = iter_planned_segments tree S,
         ly_count = segment_count, ly_packed = packed_tokens, ly_depth = maximum_depth,
         ly_fingerprint = digest (Layout_Payload (ct_fingerprint tree) (sorted_list_of_set S))\<rparr>))"

section \<open>Nearest selected ancestors\<close>

lemma nearest_fold:
  assumes idx: "\<And>k. k < length segs \<Longrightarrow> cs_index (segs ! k) = k"
    and par: "\<And>k p. k < length segs \<Longrightarrow> cs_parent (segs ! k) = Some p \<Longrightarrow> p < k"
    and m: "m \<le> length segs"
    and F: "F = fold (nearest_step S) (take m segs) (replicate (length segs) None, replicate (length segs) None)"
  shows "length (fst F) = length segs \<and> length (snd F) = length segs \<and>
    (\<forall>k < m. fst F ! k = (if k \<in> S then Some k else case cs_parent (segs ! k) of None \<Rightarrow> None | Some p \<Rightarrow> fst F ! p) \<and>
       (k \<in> S \<longrightarrow> snd F ! k = (case cs_parent (segs ! k) of None \<Rightarrow> None | Some p \<Rightarrow> fst F ! p)))"
  unfolding F using m
proof (induction m)
  case (Suc m)
  let ?F = "\<lambda>m. fold (nearest_step S) (take m segs) (replicate (length segs) None, replicate (length segs) None)"
  obtain near pars where F: "?F m = (near, pars)" by (cases "?F m")
  have m: "m < length segs" using Suc.prems by simp
  from Suc.IH [unfolded F fst_conv snd_conv] m have len: "length near = length segs" "length pars = length segs"
    and IH: "\<And>k. k < m \<Longrightarrow> near ! k = (if k \<in> S then Some k else case cs_parent (segs ! k) of None \<Rightarrow> None | Some p \<Rightarrow> near ! p)"
    "\<And>k. k < m \<Longrightarrow> k \<in> S \<Longrightarrow> pars ! k = (case cs_parent (segs ! k) of None \<Rightarrow> None | Some p \<Rightarrow> near ! p)"
    by auto
  define parent where "parent = (case cs_parent (segs ! m) of None \<Rightarrow> None | Some p \<Rightarrow> near ! p)"
  have step: "?F (Suc m) = (near[m := (if m \<in> S then Some m else parent)], if m \<in> S then pars[m := parent] else pars)"
    using m F idx [OF m] by (simp add: take_Suc_conv_app_nth nearest_step_def Let_def parent_def)
  have keep: "(case cs_parent (segs ! k) of None \<Rightarrow> None | Some p \<Rightarrow> near[m := x] ! p)
      = (case cs_parent (segs ! k) of None \<Rightarrow> None | Some p \<Rightarrow> near ! p)" if "k \<le> m" for k x
    using par [of k] that m by (auto split: option.split)
  show ?case unfolding step fst_conv snd_conv
    using len IH keep m by (auto simp: less_Suc_eq nth_list_update parent_def)
qed simp

definition nearest_of :: "canonical_tree \<Rightarrow> nat set \<Rightarrow> nat option list" where
  "nearest_of tree S = fst (nearest_selected_segments tree S)"

definition parents_of :: "canonical_tree \<Rightarrow> nat set \<Rightarrow> nat option list" where
  "parents_of tree S = snd (nearest_selected_segments tree S)"

definition above :: "canonical_tree \<Rightarrow> nat set \<Rightarrow> nat \<Rightarrow> nat option" where
  "above tree S k = (case cs_parent (ct_segments tree ! k) of None \<Rightarrow> None | Some p \<Rightarrow> nearest_of tree S ! p)"

lemma tree_index: "tree_ok rs tree \<Longrightarrow> k < length (ct_segments tree) \<Longrightarrow> cs_index (ct_segments tree ! k) = k"
  by (rule builtD(1) [OF tree_okD(2)])

lemma tree_parent:
  assumes "tree_ok rs tree" and "k < length (ct_segments tree)"
  shows "cs_parent (ct_segments tree ! k) = None \<Longrightarrow> cs_start (ct_segments tree ! k) = 0"
    and "cs_parent (ct_segments tree ! k) = Some p \<Longrightarrow> p < k \<and> cs_end (ct_segments tree ! p) = cs_start (ct_segments tree ! k) \<and>
      set (cs_members (ct_segments tree ! k)) \<subseteq> set (cs_members (ct_segments tree ! p))"
  using builtD(4) [OF tree_okD(2) [OF assms(1)] nth_mem [OF assms(2)]] tree_index [OF assms]
  by (auto simp: parent_ok_def)

lemma nearest_facts:
  assumes ok: "tree_ok rs tree" and k: "k < length (ct_segments tree)"
  shows "nearest_of tree S ! k = (if k \<in> S then Some k else above tree S k)"
    and "k \<in> S \<Longrightarrow> parents_of tree S ! k = above tree S k"
proof -
  have "p < j" if "j < length (ct_segments tree)" "cs_parent (ct_segments tree ! j) = Some p" for j p
    using tree_parent(2) [OF ok that] by simp
  note fold = conjunct2 [OF conjunct2 [OF nearest_fold [OF tree_index [OF ok] this order_refl refl, of S]]]
  have all: "\<forall>k < length (ct_segments tree). nearest_of tree S ! k = (if k \<in> S then Some k else above tree S k) \<and>
      (k \<in> S \<longrightarrow> parents_of tree S ! k = above tree S k)"
    using fold unfolding nearest_of_def parents_of_def above_def nearest_selected_segments_def take_all [OF order_refl] .
  show "nearest_of tree S ! k = (if k \<in> S then Some k else above tree S k)"
    by (rule conjunct1 [OF mp [OF spec [OF all] k]])
  show "parents_of tree S ! k = above tree S k" if "k \<in> S"
    by (rule mp [OF conjunct2 [OF mp [OF spec [OF all] k]] that])
qed

lemma tree_nonempty:
  assumes ok: "tree_ok rs tree" and k: "k < length (ct_segments tree)"
  shows "cs_start (ct_segments tree ! k) < cs_end (ct_segments tree ! k)"
proof -
  let ?s = "cs_prefix (ct_segments tree ! k)"
  have v: "seg_valid rs ?s" by (rule builtD(2) [OF tree_okD(2) [OF ok] nth_mem [OF k]])
  then have i: "hd (cs_members (ct_segments tree ! k)) \<in> set (cs_members (ct_segments tree ! k))" by (simp add: seg_valid_def)
  have "rows_agree rs (set (cs_members (ct_segments tree ! k))) (cs_end (ct_segments tree ! k))"
    using v by (simp add: seg_valid_def)
  then have "hd (cs_members (ct_segments tree ! k)) < length rs" by (rule rows_agree_bound [OF _ i])
  from seg_chain_range [OF tree_okD(3) [OF ok this], of ?s] i k show ?thesis
    by (simp add: path_mem tree_paths_def)
qed

text \<open>A nearest selected segment is selected, not later, and ends no later.\<close>

lemma nearest_bounds:
  assumes ok: "tree_ok rs tree" and "k < length (ct_segments tree)" and "nearest_of tree S ! k = Some d"
  shows "d \<in> S \<and> d \<le> k \<and> cs_end (ct_segments tree ! d) \<le> cs_end (ct_segments tree ! k)"
  using assms(2,3)
proof (induction k rule: less_induct)
  case (less k)
  show ?case
  proof (cases "k \<in> S")
    case True
    with less.prems nearest_facts(1) [OF ok less.prems(1), of S] show ?thesis by simp
  next
    case False
    with less.prems nearest_facts(1) [OF ok less.prems(1), of S] obtain p where
      p: "cs_parent (ct_segments tree ! k) = Some p" "nearest_of tree S ! p = Some d"
      by (auto simp: above_def split: option.splits)
    note tp = tree_parent(2) [OF ok less.prems(1) p(1)]
    have "d \<in> S \<and> d \<le> p \<and> cs_end (ct_segments tree ! d) \<le> cs_end (ct_segments tree ! p)"
      by (rule less.IH) (use tp less.prems(1) p(2) in auto)
    moreover have "cs_start (ct_segments tree ! k) \<le> cs_end (ct_segments tree ! k)"
      using tree_nonempty [OF ok less.prems(1)] by simp
    ultimately show ?thesis using tp by auto
  qed
qed

section \<open>Rows along the tree\<close>

lemma tree_paths_nth: "k < length (ct_segments tree) \<Longrightarrow> tree_paths tree ! k = cs_prefix (ct_segments tree ! k)"
  by (simp add: tree_paths_def)

lemma tree_paths_take: "m < length (ct_segments tree) \<Longrightarrow>
    path i (take (Suc m) (tree_paths tree)) = path i (take m (tree_paths tree)) @
      (if i \<in> set (cs_members (ct_segments tree ! m)) then [cs_prefix (ct_segments tree ! m)] else [])"
  by (simp add: tree_paths_def take_Suc_conv_app_nth path_Cons)

lemma row_parent:
  assumes ok: "tree_ok rs tree" and m: "m < length (ct_segments tree)" and i: "i \<in> set (cs_members (ct_segments tree ! m))"
    and "i < length rs"
  shows "parent_link (cs_parent (ct_segments tree ! m)) (path i (take m (tree_paths tree)))"
proof -
  let ?T = "tree_paths tree"
  let ?s = "cs_prefix (ct_segments tree ! m)"
  have ml: "m < length ?T" using m by (simp add: tree_paths_def)
  have s: "?T ! m = ?s" using m by (simp add: tree_paths_def)
  have split: "?T = take m ?T @ ?s # drop (Suc m) ?T" using id_take_nth_drop [OF ml] s by simp
  have "path i ?T = path i (take m ?T) @ ?s # path i (drop (Suc m) ?T)"
    using i by (subst split) (simp add: path_Cons)
  with tree_okD(3) [OF ok assms(4)]
  have chain: "seg_chain 0 (length (rs ! i)) None (path i (take m ?T) @ ?s # path i (drop (Suc m) ?T))" by simp
  have idx: "cs_index (ct_segments tree ! m) = m" by (rule tree_index [OF ok m])
  show ?thesis
  proof (cases "path i (take m ?T) = []")
    case True
    with seg_chain_pred [OF chain] have "parent_id ?s = group_id ?s" by simp
    then have "cs_parent (ct_segments tree ! m) = None"
      using idx tree_parent(2) [OF ok m] by (auto split: option.splits)
    with True show ?thesis by (simp add: parent_link_def)
  next
    case False
    with seg_chain_pred [OF chain] have p: "parent_id ?s = group_id (last (path i (take m ?T)))" by simp
    have "last (path i (take m ?T)) \<in> set (take m ?T)" using path_last_mem [OF False] by blast
    then obtain k where k: "k < m" "last (path i (take m ?T)) = ?T ! k" using ml by (auto simp: in_set_conv_nth)
    then have "group_id (last (path i (take m ?T))) = int k + 1"
      using m tree_index [OF ok, of k] by (simp add: tree_paths_def)
    with p k(1) idx False show ?thesis by (auto simp: parent_link_def split: option.splits)
  qed
qed

definition reach :: "canonical_tree \<Rightarrow> nat set \<Rightarrow> nat \<Rightarrow> nat \<Rightarrow> nat option" where
  "reach tree S i m = (let us = path i (take m (tree_paths tree)) in
     if us = [] then None else nearest_of tree S ! nat (group_id (last us) - 1))"

lemma reach_step:
  assumes ok: "tree_ok rs tree" and m: "m < length (ct_segments tree)" and "i < length rs"
  shows "i \<in> set (cs_members (ct_segments tree ! m)) \<Longrightarrow> reach tree S i m = above tree S m"
    and "i \<in> set (cs_members (ct_segments tree ! m)) \<Longrightarrow> reach tree S i (Suc m) = nearest_of tree S ! m"
    and "i \<notin> set (cs_members (ct_segments tree ! m)) \<Longrightarrow> reach tree S i (Suc m) = reach tree S i m"
proof -
  show "reach tree S i m = above tree S m" if i: "i \<in> set (cs_members (ct_segments tree ! m))"
    using row_parent [OF ok m i assms(3)] by (auto simp: reach_def above_def parent_link_def Let_def split: option.splits)
  show "reach tree S i (Suc m) = nearest_of tree S ! m" if i: "i \<in> set (cs_members (ct_segments tree ! m))"
    unfolding reach_def tree_paths_take [OF m] using i tree_index [OF ok m] by (simp add: Let_def)
  show "reach tree S i (Suc m) = reach tree S i m" if i: "i \<notin> set (cs_members (ct_segments tree ! m))"
    unfolding reach_def tree_paths_take [OF m] using i by simp
qed

text \<open>The terminal of a row is the last segment that holds it, and ends with the row.\<close>

lemma terminal_facts:
  assumes ok: "tree_ok rs tree" and i: "i < length rs"
  defines "t \<equiv> ct_terminals tree ! i"
  shows "t < length (ct_segments tree)" "i \<in> set (cs_members (ct_segments tree ! t))"
    "cs_end (ct_segments tree ! t) = length (rs ! i)"
    "k < length (ct_segments tree) \<Longrightarrow> i \<in> set (cs_members (ct_segments tree ! k)) \<Longrightarrow> k \<le> t"
proof -
  let ?T = "tree_paths tree"
  let ?l = "last (path i ?T)"
  note ne = tree_okD(4) [OF ok i]
  have g: "group_id ?l = int t + 1" unfolding t_def by (rule tree_okD(5) [OF ok i])
  have "?l \<in> set ?T" and il: "i \<in> set (sequence_indices ?l)" using path_last_mem [OF ne] by auto
  then obtain k where k: "k < length (ct_segments tree)" "?l = cs_prefix (ct_segments tree ! k)"
    by (auto simp: tree_paths_def in_set_conv_nth)
  then have kt: "k = t" using g tree_index [OF ok k(1)] by simp
  show "t < length (ct_segments tree)" "i \<in> set (cs_members (ct_segments tree ! t))" using k kt il by simp_all
  have "seg_chain 0 (length (rs ! i)) None (butlast (path i ?T) @ [?l])" using tree_okD(3) [OF ok i] ne by simp
  then have "seg_end ?l = length (rs ! i)" by (rule seg_chain_last)
  then show "cs_end (ct_segments tree ! t) = length (rs ! i)" using k(2) kt by simp
  show "k \<le> t" if m: "k < length (ct_segments tree)" "i \<in> set (cs_members (ct_segments tree ! k))" for k
  proof -
    have ml: "k < length ?T" using m by (simp add: tree_paths_def)
    have split: "?T = take k ?T @ ?T ! k # drop (Suc k) ?T" by (rule id_take_nth_drop [OF ml])
    have "path i ?T = path i (take k ?T) @ ?T ! k # path i (drop (Suc k) ?T)"
      by (subst split) (use m in \<open>simp add: path_Cons tree_paths_nth\<close>)
    then have "?l \<in> insert (?T ! k) (set (drop (Suc k) ?T))"
      by (cases "path i (drop (Suc k) ?T) = []") (auto simp: path_mem dest!: last_in_set)
    then obtain j where "k \<le> j" "j < length ?T" "?l = ?T ! j"
      using ml by (auto simp: in_set_conv_nth) (metis le_add1 Suc_leI add_Suc add.commute less_diff_conv not_less_eq_eq)
    then show ?thesis using g tree_index [OF ok, of j] by (simp add: tree_paths_def)
  qed
qed

section \<open>The walk that plans the segments\<close>

definition planned_prefix :: "nat \<Rightarrow> planned_segment \<Rightarrow> prefix_segment" where
  "planned_prefix k s = \<lparr>sequence_indices = ps_members s, seg_start = ps_start s, seg_end = ps_end s,
     group_id = int k + 1, parent_id = (case ps_parent s of None \<Rightarrow> int k + 1 | Some p \<Rightarrow> int p + 1)\<rparr>"

lemma planned_prefix_simps [simp]:
  "sequence_indices (planned_prefix k s) = ps_members s" "seg_start (planned_prefix k s) = ps_start s"
  "seg_end (planned_prefix k s) = ps_end s" "group_id (planned_prefix k s) = int k + 1"
  "parent_id (planned_prefix k s) = (case ps_parent s of None \<Rightarrow> int k + 1 | Some p \<Rightarrow> int p + 1)"
  by (simp_all add: planned_prefix_def)

definition planned_prefixes :: "planned_segment list \<Rightarrow> prefix_segment list" where
  "planned_prefixes out = map (\<lambda>(k, s). planned_prefix k s) (List.enumerate 0 out)"

lemma planned_prefixes_simps [simp]:
  "planned_prefixes [] = []" "planned_prefixes (out @ [s]) = planned_prefixes out @ [planned_prefix (length out) s]"
  by (simp_all add: planned_prefixes_def enumerate_append_eq)

definition row_open :: "canonical_tree \<Rightarrow> planned_state \<Rightarrow> nat option \<Rightarrow> nat \<Rightarrow> bool" where
  "row_open tree st D i \<longleftrightarrow> seg_chain 0 (end_of tree D) None (path i (planned_prefixes (pl_out st))) \<and>
     parent_link (plan_parent (pl_by_canonical st) D) (path i (planned_prefixes (pl_out st)))"

text \<open>
  After the rows that end before segment \<open>t\<close> are complete and the others are planned up
  to segment \<open>m\<close>.
\<close>

definition plan_inv :: "int list list \<Rightarrow> canonical_tree \<Rightarrow> nat set \<Rightarrow> nat \<Rightarrow> nat \<Rightarrow> planned_state \<Rightarrow> bool" where
  "plan_inv rs tree S t m st \<longleftrightarrow> length (pl_by_canonical st) = length (ct_segments tree) \<and>
     (\<forall>d < m. d \<in> S \<longrightarrow> pl_by_canonical st ! d \<noteq> None) \<and>
     (\<forall>s \<in> set (planned_prefixes (pl_out st)). seg_valid rs s) \<and>
     (\<forall>i < length rs. if ct_terminals tree ! i < t
        then seg_chain 0 (length (rs ! i)) None (path i (planned_prefixes (pl_out st)))
        else row_open tree st (reach tree S i m) i)"

lemma plan_invD:
  assumes "plan_inv rs tree S t m st"
  shows "length (pl_by_canonical st) = length (ct_segments tree)"
    "d < m \<Longrightarrow> d \<in> S \<Longrightarrow> pl_by_canonical st ! d \<noteq> None"
    "s \<in> set (planned_prefixes (pl_out st)) \<Longrightarrow> seg_valid rs s"
    "i < length rs \<Longrightarrow> ct_terminals tree ! i < t \<Longrightarrow> seg_chain 0 (length (rs ! i)) None (path i (planned_prefixes (pl_out st)))"
    "i < length rs \<Longrightarrow> \<not> ct_terminals tree ! i < t \<Longrightarrow> row_open tree st (reach tree S i m) i"
  using assms unfolding plan_inv_def by (blast, blast, blast, meson, meson)

text \<open>Extending an open row by a segment from the end of its last selected ancestor.\<close>

lemma row_extend:
  assumes "row_open tree st D i" and i: "i \<in> set (ps_members s)" and "ps_start s = end_of tree D"
    and "end_of tree D < ps_end s" and "ps_parent s = plan_parent (pl_by_canonical st) D"
  shows "seg_chain 0 (ps_end s) None (path i (planned_prefixes (pl_out st @ [s])))"
    and "parent_link (Some (length (pl_out st))) (path i (planned_prefixes (pl_out st @ [s])))"
proof -
  have path: "path i (planned_prefixes (pl_out st @ [s])) =
      path i (planned_prefixes (pl_out st)) @ [planned_prefix (length (pl_out st)) s]"
    using i by (simp add: path_Cons)
  have "seg_chain 0 (seg_end (planned_prefix (length (pl_out st)) s)) None
      (path i (planned_prefixes (pl_out st)) @ [planned_prefix (length (pl_out st)) s])"
    using assms by (intro seg_chain_snoc [where b = "end_of tree D"])
      (auto simp: row_open_def parent_link_def split: option.splits)
  then show "seg_chain 0 (ps_end s) None (path i (planned_prefixes (pl_out st @ [s])))"
    unfolding path by simp
  show "parent_link (Some (length (pl_out st))) (path i (planned_prefixes (pl_out st @ [s])))"
    unfolding path by (simp add: parent_link_def)
qed

lemma row_other: "i \<notin> set (ps_members s) \<Longrightarrow>
    path i (planned_prefixes (out @ [s])) = path i (planned_prefixes out)"
  by (simp add: path_Cons)

lemma above_facts:
  assumes ok: "tree_ok rs tree" and m: "m < length (ct_segments tree)" and d: "above tree S m = Some d"
  shows "d \<in> S \<and> d < m \<and> cs_end (ct_segments tree ! d) \<le> cs_start (ct_segments tree ! m)"
proof -
  obtain p where p: "cs_parent (ct_segments tree ! m) = Some p" "nearest_of tree S ! p = Some d"
    using d by (auto simp: above_def split: option.splits)
  note tp = tree_parent(2) [OF ok m p(1)]
  have "p < length (ct_segments tree)" using tp m by simp
  from nearest_bounds [OF ok this p(2)] tp show ?thesis by auto
qed

lemma above_end:
  assumes "tree_ok rs tree" and "m < length (ct_segments tree)"
  shows "end_of tree (above tree S m) < cs_end (ct_segments tree ! m)"
  using above_facts [OF assms, of S] tree_nonempty [OF assms] by (cases "above tree S m") (auto simp: end_of_def)

lemma member_row:
  assumes "tree_ok rs tree" and "m < length (ct_segments tree)" and "i \<in> set (cs_members (ct_segments tree ! m))"
  shows "i < length rs"
  using builtD(2) [OF tree_okD(2) [OF assms(1)] nth_mem [OF assms(2)]] assms(3)
    rows_agree_bound [of rs "set (cs_members (ct_segments tree ! m))" "cs_end (ct_segments tree ! m)" i]
  by (simp add: seg_valid_def)

lemma reach_before:
  assumes ok: "tree_ok rs tree" and m: "m \<le> length (ct_segments tree)" and d: "reach tree S i m = Some d"
  shows "d < m \<and> d \<in> S"
proof -
  let ?us = "path i (take m (tree_paths tree))"
  have ne: "?us \<noteq> []" and n: "nearest_of tree S ! nat (group_id (last ?us) - 1) = Some d"
    using d by (auto simp: reach_def Let_def split: if_splits)
  have "last ?us \<in> set (take m (tree_paths tree))" using path_last_mem [OF ne] by blast
  then obtain k where k: "k < m" "last ?us = tree_paths tree ! k" by (auto simp: in_set_conv_nth)
  then have kl: "k < length (ct_segments tree)" using m by simp
  then have "nearest_of tree S ! k = Some d" using n k tree_paths_nth [OF kl] tree_index [OF ok kl] by simp
  from nearest_bounds [OF ok kl this] k show ?thesis by simp
qed

lemma selected_step:
  assumes ok: "tree_ok rs tree" and m: "m < length (ct_segments tree)" and inv: "plan_inv rs tree S m m st"
  shows "\<exists>st'. plan_selected tree S (parents_of tree S) (ct_segments tree ! m) st = Inr st' \<and> plan_inv rs tree S m (Suc m) st'"
proof (cases "m \<in> S")
  case False
  have "reach tree S i (Suc m) = reach tree S i m" if i: "i < length rs" for i
    using reach_step [OF ok m i, of S] nearest_facts(1) [OF ok m, of S] False
    by (cases "i \<in> set (cs_members (ct_segments tree ! m))") simp_all
  then have "plan_inv rs tree S m (Suc m) st"
    using inv False unfolding plan_inv_def by (auto simp: less_Suc_eq)
  then show ?thesis using False tree_index [OF ok m] by (simp add: plan_selected_def)
next
  case True
  let ?c = "ct_segments tree ! m"
  let ?D = "above tree S m"
  let ?s = "\<lparr>ps_members = cs_members ?c, ps_start = end_of tree ?D, ps_end = cs_end ?c,
    ps_parent = plan_parent (pl_by_canonical st) ?D, ps_canonical = Some m\<rparr>"
  let ?st = "\<lparr>pl_by_canonical = (pl_by_canonical st)[m := Some (length (pl_out st))], pl_out = pl_out st @ [?s]\<rparr>"
  have idx: "cs_index ?c = m" by (rule tree_index [OF ok m])
  have emitted: "\<not> (?D \<noteq> None \<and> plan_parent (pl_by_canonical st) ?D = None)"
    using above_facts [OF ok m, of S] plan_invD(2) [OF inv] by (auto simp: plan_parent_def split: option.splits)
  have run: "plan_selected tree S (parents_of tree S) ?c st = Inr ?st"
    using True emitted nearest_facts(2) [OF ok m True] by (simp add: plan_selected_def idx Let_def)
  have valid: "seg_valid rs (planned_prefix (length (pl_out st)) ?s)"
    using builtD(2) [OF tree_okD(2) [OF ok] nth_mem [OF m]] by (simp add: seg_valid_def)
  have rows: "if ct_terminals tree ! i < m then seg_chain 0 (length (rs ! i)) None (path i (planned_prefixes (pl_out ?st)))
      else row_open tree ?st (reach tree S i (Suc m)) i" if i: "i < length rs" for i
  proof (cases "i \<in> set (cs_members ?c)")
    case mem: True
    have late: "\<not> ct_terminals tree ! i < m" using terminal_facts(4) [OF ok i m mem] by simp
    have "row_open tree st ?D i" using plan_invD(5) [OF inv i late] reach_step(1) [OF ok m i mem, of S] by simp
    from row_extend [OF this, of ?s] mem above_end [OF ok m, of S]
    have "seg_chain 0 (cs_end ?c) None (path i (planned_prefixes (pl_out ?st)))"
      "parent_link (Some (length (pl_out st))) (path i (planned_prefixes (pl_out ?st)))" by simp_all
    moreover have "reach tree S i (Suc m) = Some m"
      using reach_step(2) [OF ok m i mem, of S] nearest_facts(1) [OF ok m, of S] True by simp
    ultimately show ?thesis
      using late plan_invD(1) [OF inv] m by (simp add: row_open_def end_of_def plan_parent_def)
  next
    case mem: False
    then have path: "path i (planned_prefixes (pl_out ?st)) = path i (planned_prefixes (pl_out st))"
      using row_other [of i ?s "pl_out st"] by simp
    have r: "reach tree S i (Suc m) = reach tree S i m" by (rule reach_step(3) [OF ok m i mem])
    show ?thesis
    proof (cases "ct_terminals tree ! i < m")
      case True
      with plan_invD(4) [OF inv i True] path show ?thesis by simp
    next
      case False
      have "plan_parent (pl_by_canonical ?st) (reach tree S i m) = plan_parent (pl_by_canonical st) (reach tree S i m)"
      proof -
        have "reach tree S i m \<noteq> Some m" using reach_before [OF ok less_imp_le [OF m], of S i] by auto
        then show ?thesis by (auto simp: plan_parent_def split: option.split)
      qed
      with plan_invD(5) [OF inv i False] path False show ?thesis unfolding r row_open_def by simp
    qed
  qed
  have "plan_inv rs tree S m (Suc m) ?st"
    unfolding plan_inv_def
  proof (intro conjI)
    show "\<forall>i < length rs. if ct_terminals tree ! i < m then seg_chain 0 (length (rs ! i)) None (path i (planned_prefixes (pl_out ?st)))
      else row_open tree ?st (reach tree S i (Suc m)) i" using rows by blast
    show "\<forall>d < Suc m. d \<in> S \<longrightarrow> pl_by_canonical ?st ! d \<noteq> None"
      using plan_invD(1,2) [OF inv] m by (auto simp: nth_list_update)
    show "\<forall>s \<in> set (planned_prefixes (pl_out ?st)). seg_valid rs s" using valid plan_invD(3) [OF inv] by auto
  qed (use plan_invD(1) [OF inv] in simp)
  with run show ?thesis by blast
qed


definition tail_of :: "canonical_tree \<Rightarrow> nat option \<Rightarrow> nat \<Rightarrow> planned_state \<Rightarrow> nat \<Rightarrow> planned_segment" where
  "tail_of tree D n st i = \<lparr>ps_members = [i], ps_start = end_of tree D, ps_end = n,
     ps_parent = plan_parent (pl_by_canonical st) D, ps_canonical = None\<rparr>"

definition tails_inv :: "int list list \<Rightarrow> canonical_tree \<Rightarrow> nat set \<Rightarrow> nat \<Rightarrow> nat list \<Rightarrow> planned_state \<Rightarrow> bool" where
  "tails_inv rs tree S m ds st \<longleftrightarrow> length (pl_by_canonical st) = length (ct_segments tree) \<and>
     (\<forall>d < Suc m. d \<in> S \<longrightarrow> pl_by_canonical st ! d \<noteq> None) \<and>
     (\<forall>s \<in> set (planned_prefixes (pl_out st)). seg_valid rs s) \<and>
     (\<forall>i < length rs. (ct_terminals tree ! i < m \<or> i \<in> set ds \<longrightarrow>
          seg_chain 0 (length (rs ! i)) None (path i (planned_prefixes (pl_out st)))) \<and>
        (\<not> (ct_terminals tree ! i < m \<or> i \<in> set ds) \<longrightarrow> row_open tree st (reach tree S i (Suc m)) i))"

lemma terminal_members:
  assumes ok: "tree_ok rs tree" and m: "m < length (ct_segments tree)"
  shows "set (ct_by_terminal tree ! m) = {i. i < length rs \<and> ct_terminals tree ! i = m}"
    and "distinct (ct_by_terminal tree ! m)"
    and "i \<in> set (ct_by_terminal tree ! m) \<Longrightarrow> length (rs ! i) = cs_end (ct_segments tree ! m) \<and>
      reach tree S i (Suc m) = nearest_of tree S ! m \<and> ct_lengths tree ! i = cs_end (ct_segments tree ! m)"
proof -
  have eq: "ct_by_terminal tree ! m = filter (\<lambda>i. ct_terminals tree ! i = m) [0..<length rs]"
    using tree_okD(7) [OF ok] m by simp
  then show s: "set (ct_by_terminal tree ! m) = {i. i < length rs \<and> ct_terminals tree ! i = m}" by auto
  show "distinct (ct_by_terminal tree ! m)" unfolding eq by simp
  assume "i \<in> set (ct_by_terminal tree ! m)"
  then have i: "i < length rs" and t: "ct_terminals tree ! i = m" unfolding s by simp_all
  note tf = terminal_facts [OF ok i, unfolded t]
  show "length (rs ! i) = cs_end (ct_segments tree ! m) \<and>
      reach tree S i (Suc m) = nearest_of tree S ! m \<and> ct_lengths tree ! i = cs_end (ct_segments tree ! m)"
    using tf(3) reach_step(2) [OF ok m i tf(2)] tree_okD(1) [OF ok] i by simp
qed

lemma tail_step:
  assumes ok: "tree_ok rs tree" and m: "m < length (ct_segments tree)" and inv: "tails_inv rs tree S m ds st"
    and i: "i \<in> set (ct_by_terminal tree ! m)" "i \<notin> set ds"
    and short: "end_of tree (nearest_of tree S ! m) < cs_end (ct_segments tree ! m)"
  defines "D \<equiv> nearest_of tree S ! m"
  shows "tails_inv rs tree S m (ds @ [i]) (st\<lparr>pl_out := pl_out st @ [tail_of tree D (cs_end (ct_segments tree ! m)) st i]\<rparr>)"
    and "\<not> (D \<noteq> None \<and> plan_parent (pl_by_canonical st) D = None)"
proof -
  let ?s = "tail_of tree D (cs_end (ct_segments tree ! m)) st i"
  have il: "i < length rs" "ct_terminals tree ! i = m" using i terminal_members(1) [OF ok m] by auto
  note tm = terminal_members(3) [OF ok m i(1), of S]
  have "row_open tree st D i" using inv il i(2) tm unfolding tails_inv_def D_def by auto
  from row_extend(1) [OF this, of ?s] short
  have chain: "seg_chain 0 (length (rs ! i)) None (path i (planned_prefixes (pl_out st @ [?s])))"
    using tm by (simp add: tail_of_def D_def)
  have valid: "seg_valid rs (planned_prefix (length (pl_out st)) ?s)"
    using il tm by (simp add: seg_valid_def rows_agree_def tail_of_def)
  have other: "path j (planned_prefixes (pl_out st @ [?s])) = path j (planned_prefixes (pl_out st))" if "j \<noteq> i" for j
    by (rule row_other) (use that in \<open>simp add: tail_of_def\<close>)
  show "tails_inv rs tree S m (ds @ [i]) (st\<lparr>pl_out := pl_out st @ [?s]\<rparr>)"
    unfolding tails_inv_def
  proof (intro conjI allI impI ballI)
    fix j assume j: "j < length rs" "ct_terminals tree ! j < m \<or> j \<in> set (ds @ [i])"
    show "seg_chain 0 (length (rs ! j)) None (path j (planned_prefixes (pl_out (st\<lparr>pl_out := pl_out st @ [?s]\<rparr>))))"
    proof (cases "j = i")
      case True
      with chain show ?thesis by simp
    next
      case False
      with j inv other [OF False] show ?thesis unfolding tails_inv_def by auto
    qed
  next
    fix j assume j: "j < length rs" "\<not> (ct_terminals tree ! j < m \<or> j \<in> set (ds @ [i]))"
    then have "j \<noteq> i" by auto
    with j inv other show "row_open tree (st\<lparr>pl_out := pl_out st @ [?s]\<rparr>) (reach tree S j (Suc m)) j"
      unfolding tails_inv_def row_open_def by auto
  next
    fix s assume "s \<in> set (planned_prefixes (pl_out (st\<lparr>pl_out := pl_out st @ [?s]\<rparr>)))"
    then have "s \<in> set (planned_prefixes (pl_out st)) \<or> s = planned_prefix (length (pl_out st)) ?s" by auto
    then show "seg_valid rs s" using valid inv unfolding tails_inv_def by blast
  qed (use inv in \<open>auto simp: tails_inv_def\<close>)
  show "\<not> (D \<noteq> None \<and> plan_parent (pl_by_canonical st) D = None)"
  proof
    assume "D \<noteq> None \<and> plan_parent (pl_by_canonical st) D = None"
    then obtain d where d: "nearest_of tree S ! m = Some d" "pl_by_canonical st ! d = None"
      by (auto simp: D_def plan_parent_def)
    have "\<forall>e < Suc m. e \<in> S \<longrightarrow> pl_by_canonical st ! e \<noteq> None" using inv unfolding tails_inv_def by blast
    moreover have "d \<in> S" "d < Suc m" using nearest_bounds [OF ok m d(1)] by simp_all
    ultimately show False using d(2) by blast
  qed
qed

lemma tails_loop:
  assumes ok: "tree_ok rs tree" and m: "m < length (ct_segments tree)"
    and short: "end_of tree (nearest_of tree S ! m) < cs_end (ct_segments tree ! m)"
  shows "set is \<subseteq> set (ct_by_terminal tree ! m) \<Longrightarrow> distinct is \<Longrightarrow> set is \<inter> set ds = {} \<Longrightarrow> tails_inv rs tree S m ds st \<Longrightarrow>
    \<exists>st'. foldE (\<lambda>i st.
          let parent_segment = plan_parent (pl_by_canonical st) (nearest_of tree S ! m) in
          ensure (\<not> (nearest_of tree S ! m \<noteq> None \<and> parent_segment = None))
            (AssertionError ''selected parent was not emitted before its tail'')
           (Inr (st\<lparr>pl_out := pl_out st @ [\<lparr>ps_members = [i], ps_start = end_of tree (nearest_of tree S ! m),
              ps_end = cs_end (ct_segments tree ! m), ps_parent = parent_segment, ps_canonical = None\<rparr>]\<rparr>))) is st = Inr st' \<and>
      tails_inv rs tree S m (ds @ is) st'"
proof (induction "is" arbitrary: ds st)
  case (Cons i js)
  note step = tail_step [OF ok m Cons.prems(4) _ _ short, of i]
  have i: "i \<in> set (ct_by_terminal tree ! m)" "i \<notin> set ds" using Cons.prems by auto
  let ?st = "st\<lparr>pl_out := pl_out st @ [tail_of tree (nearest_of tree S ! m) (cs_end (ct_segments tree ! m)) st i]\<rparr>"
  from Cons.IH [of "ds @ [i]" ?st] step(1) [OF i] Cons.prems
  obtain st' where st': "foldE (\<lambda>i st.
          let parent_segment = plan_parent (pl_by_canonical st) (nearest_of tree S ! m) in
          ensure (\<not> (nearest_of tree S ! m \<noteq> None \<and> parent_segment = None))
            (AssertionError ''selected parent was not emitted before its tail'')
           (Inr (st\<lparr>pl_out := pl_out st @ [\<lparr>ps_members = [i], ps_start = end_of tree (nearest_of tree S ! m),
              ps_end = cs_end (ct_segments tree ! m), ps_parent = parent_segment, ps_canonical = None\<rparr>]\<rparr>))) js ?st = Inr st'"
    "tails_inv rs tree S m (ds @ i # js) st'" by auto
  with step(2) [OF i] show ?case by (intro exI [of _ st']) (simp add: tail_of_def Let_def)
qed simp

lemma tails_inv_start: "tails_inv rs tree S m [] st \<longleftrightarrow> plan_inv rs tree S m (Suc m) st"
  by (auto simp: tails_inv_def plan_inv_def)

lemma tails_inv_end:
  assumes ok: "tree_ok rs tree" and m: "m < length (ct_segments tree)"
    and inv: "tails_inv rs tree S m (ct_by_terminal tree ! m) st"
  shows "plan_inv rs tree S (Suc m) (Suc m) st"
  using inv unfolding tails_inv_def plan_inv_def terminal_members(1) [OF ok m] by (auto simp: less_Suc_eq)

lemma tails_step:
  assumes ok: "tree_ok rs tree" and m: "m < length (ct_segments tree)" and inv: "plan_inv rs tree S m (Suc m) st"
  shows "\<exists>st'. plan_tails tree (nearest_of tree S) (ct_segments tree ! m) st = Inr st' \<and> plan_inv rs tree S (Suc m) (Suc m) st'"
proof -
  let ?Ms = "ct_by_terminal tree ! m"
  let ?e = "cs_end (ct_segments tree ! m)"
  let ?D = "nearest_of tree S ! m"
  have idx: "cs_index (ct_segments tree ! m) = m" by (rule tree_index [OF ok m])
  have start: "tails_inv rs tree S m [] st" using inv by (simp add: tails_inv_start)
  note tm = terminal_members [OF ok m]
  show ?thesis
  proof (cases "?Ms = []")
    case True
    then have "plan_inv rs tree S (Suc m) (Suc m) st" using tails_inv_end [OF ok m, of S st] start by simp
    with True show ?thesis by (simp add: plan_tails_def idx)
  next
    case False
    then have hd: "ct_lengths tree ! hd ?Ms = ?e" using tm(3) [of "hd ?Ms" S] by simp
    show ?thesis
    proof (cases "end_of tree ?D < ?e")
      case True
      from tails_loop [OF ok m True order_refl tm(2), of "[]" st] start
      obtain st' where st': "foldE (\<lambda>i st.
          let parent_segment = plan_parent (pl_by_canonical st) ?D in
          ensure (\<not> (?D \<noteq> None \<and> parent_segment = None))
            (AssertionError ''selected parent was not emitted before its tail'')
           (Inr (st\<lparr>pl_out := pl_out st @ [\<lparr>ps_members = [i], ps_start = end_of tree ?D,
              ps_end = ?e, ps_parent = parent_segment, ps_canonical = None\<rparr>]\<rparr>))) ?Ms st = Inr st'"
        "tails_inv rs tree S m ?Ms st'" by auto
      moreover have "plan_tails tree (nearest_of tree S) (ct_segments tree ! m) st = Inr st'"
        unfolding plan_tails_def idx Let_def hd using False True st'(1) by (simp add: Let_def)
      ultimately show ?thesis using tails_inv_end [OF ok m] by blast
    next
      case long: False
      have le: "end_of tree ?D \<le> ?e"
        using nearest_bounds [OF ok m, of S] by (cases ?D) (auto simp: end_of_def)
      have "tails_inv rs tree S m ?Ms st"
        unfolding tails_inv_def
      proof (intro conjI allI impI ballI)
        fix i assume i: "i < length rs" "ct_terminals tree ! i < m \<or> i \<in> set ?Ms"
        show "seg_chain 0 (length (rs ! i)) None (path i (planned_prefixes (pl_out st)))"
        proof (cases "ct_terminals tree ! i < m")
          case True
          then show ?thesis by (rule plan_invD(4) [OF inv i(1)])
        next
          case False
          with i have "i \<in> set ?Ms" by blast
          from plan_invD(5) [OF inv i(1) False] tm(3) [OF this, of S] le long show ?thesis by (simp add: row_open_def)
        qed
      next
        fix i assume "i < length rs" "\<not> (ct_terminals tree ! i < m \<or> i \<in> set ?Ms)"
        then show "row_open tree st (reach tree S i (Suc m)) i" using plan_invD(5) [OF inv, of i] by blast
      qed (use plan_invD(1-3) [OF inv] in auto)
      then have "plan_inv rs tree S (Suc m) (Suc m) st" by (rule tails_inv_end [OF ok m])
      moreover have "plan_tails tree (nearest_of tree S) (ct_segments tree ! m) st = Inr st"
        unfolding plan_tails_def idx Let_def hd using False long by simp
      ultimately show ?thesis by blast
    qed
  qed
qed

lemma plan_inv_initial:
  "tree_ok rs tree \<Longrightarrow>
   plan_inv rs tree S 0 0 \<lparr>pl_by_canonical = replicate (length (ct_segments tree)) None, pl_out = []\<rparr>"
  by (simp add: plan_inv_def row_open_def reach_def end_of_def plan_parent_def parent_link_def)

lemma plan_loop:
  assumes ok: "tree_ok rs tree" and "m \<le> length (ct_segments tree)"
  shows "\<exists>st. foldE (plan_canonical tree S (nearest_of tree S) (parents_of tree S)) (take m (ct_segments tree))
      \<lparr>pl_by_canonical = replicate (length (ct_segments tree)) None, pl_out = []\<rparr> = Inr st \<and> plan_inv rs tree S m m st"
  using assms(2)
proof (induction m)
  case 0
  then show ?case using plan_inv_initial [OF ok] by simp
next
  case (Suc m)
  then have m: "m < length (ct_segments tree)" by simp
  from Suc obtain st where st: "foldE (plan_canonical tree S (nearest_of tree S) (parents_of tree S)) (take m (ct_segments tree))
      \<lparr>pl_by_canonical = replicate (length (ct_segments tree)) None, pl_out = []\<rparr> = Inr st" "plan_inv rs tree S m m st" by auto
  obtain st1 where st1: "plan_selected tree S (parents_of tree S) (ct_segments tree ! m) st = Inr st1"
    "plan_inv rs tree S m (Suc m) st1" using selected_step [OF ok m st(2)] by blast
  obtain st2 where st2: "plan_tails tree (nearest_of tree S) (ct_segments tree ! m) st1 = Inr st2"
    "plan_inv rs tree S (Suc m) (Suc m) st2" using tails_step [OF ok m st1(2)] by blast
  have "plan_canonical tree S (nearest_of tree S) (parents_of tree S) (ct_segments tree ! m) st = Inr st2"
    by (simp add: plan_canonical_def st1(1) st2(1))
  with st(1) st2(2) m show ?case by (simp add: take_Suc_conv_app_nth)
qed

text \<open>The segments of a layout, laid out in order, are a packing plan of the rows.\<close>

lemma iter_planned:
  assumes ok: "tree_ok rs tree"
  obtains out where "iter_planned_segments tree S = Inr out" and "well_packed rs (place_segments 0 (planned_prefixes out))"
proof -
  from plan_loop [OF ok order_refl, of S] obtain st where
    st: "foldE (plan_canonical tree S (nearest_of tree S) (parents_of tree S)) (ct_segments tree)
      \<lparr>pl_by_canonical = replicate (length (ct_segments tree)) None, pl_out = []\<rparr> = Inr st"
    "plan_inv rs tree S (length (ct_segments tree)) (length (ct_segments tree)) st" by auto
  have "iter_planned_segments tree S = Inr (pl_out st)"
    using st(1) by (simp add: iter_planned_segments_def nearest_of_def parents_of_def case_prod_unfold)
  moreover have "well_packed rs (place_segments 0 (planned_prefixes (pl_out st)))"
  proof (rule place_well_packed)
    show "seg_chain 0 (length (rs ! i)) None (path i (planned_prefixes (pl_out st)))" if "i < length rs" for i
      by (rule plan_invD(4) [OF st(2) that terminal_facts(1) [OF ok that]])
    show "seg_valid rs s" if "s \<in> set (planned_prefixes (pl_out st))" for s by (rule plan_invD(3) [OF st(2) that])
    have "map group_id (planned_prefixes out) = map (\<lambda>k. int k + 1) [0..<length out]" for out
      by (rule nth_equalityI) (simp_all add: planned_prefixes_def nth_enumerate_eq)
    then show "distinct (map group_id (planned_prefixes (pl_out st)))" by (simp add: distinct_map inj_on_def)
  qed
  ultimately show thesis by (rule that)
qed

section \<open>The metrics are exact\<close>

definition out_tokens :: "planned_segment list \<Rightarrow> nat" where
  "out_tokens out = sum_list (map ps_length out)"

lemma out_tokens_simps [simp]: "out_tokens [] = 0" "out_tokens (xs @ ys) = out_tokens xs + out_tokens ys"
    "out_tokens (s # ys) = ps_length s + out_tokens ys"
  by (simp_all add: out_tokens_def)

definition selected_cost :: "canonical_tree \<Rightarrow> nat set \<Rightarrow> nat \<Rightarrow> nat" where
  "selected_cost tree S k = (if k \<in> S then cs_end (ct_segments tree ! k) - end_of tree (above tree S k) else 0)"

definition tail_rows :: "canonical_tree \<Rightarrow> nat set \<Rightarrow> nat \<Rightarrow> nat" where
  "tail_rows tree S k =
     (if ct_by_terminal tree ! k = [] \<or>
         end_of tree (nearest_of tree S ! k) \<ge> ct_lengths tree ! hd (ct_by_terminal tree ! k) then 0
      else length (ct_by_terminal tree ! k))"

definition tail_cost :: "canonical_tree \<Rightarrow> nat set \<Rightarrow> nat \<Rightarrow> nat" where
  "tail_cost tree S k =
     (ct_lengths tree ! hd (ct_by_terminal tree ! k) - end_of tree (nearest_of tree S ! k)) * tail_rows tree S k"

lemma plan_selected_cost:
  assumes ok: "tree_ok rs tree" and m: "m < length (ct_segments tree)"
    and "plan_selected tree S (parents_of tree S) (ct_segments tree ! m) st = Inr st'"
  shows "out_tokens (pl_out st') = out_tokens (pl_out st) + selected_cost tree S m \<and>
    length (pl_out st') = length (pl_out st) + (if m \<in> S then 1 else 0)"
  using assms(3) nearest_facts(2) [OF ok m, of S] tree_index [OF ok m]
  by (auto simp: plan_selected_def selected_cost_def ps_length_def Let_def ensure_Inr_iff split: if_splits)

lemma plan_tails_cost:
  assumes idx: "cs_index c = m" and run: "plan_tails tree (nearest_of tree S) c st = Inr st'"
  shows "out_tokens (pl_out st') = out_tokens (pl_out st) + tail_cost tree S m \<and>
    length (pl_out st') = length (pl_out st) + tail_rows tree S m"
proof -
  let ?Ms = "ct_by_terminal tree ! m"
  let ?D = "nearest_of tree S ! m"
  let ?n = "ct_lengths tree ! hd ?Ms"
  let ?f = "\<lambda>i st. let parent_segment = plan_parent (pl_by_canonical st) ?D in
          ensure (\<not> (?D \<noteq> None \<and> parent_segment = None))
            (AssertionError ''selected parent was not emitted before its tail'')
           (Inr (st\<lparr>pl_out := pl_out st @ [\<lparr>ps_members = [i], ps_start = end_of tree ?D, ps_end = ?n,
              ps_parent = parent_segment, ps_canonical = None\<rparr>]\<rparr>))"
  have loop: "foldE ?f js st = Inr st' \<Longrightarrow> out_tokens (pl_out st') = out_tokens (pl_out st) + (?n - end_of tree ?D) * length js \<and>
      length (pl_out st') = length (pl_out st) + length js" for js st st'
  proof (induction js arbitrary: st)
    case (Cons j js)
    from Cons.prems obtain st1 where "?f j st = Inr st1" "foldE ?f js st1 = Inr st'" by (auto simp: bindE_Inr_iff)
    with Cons.IH [of st1] show ?case by (auto simp: Let_def ensure_Inr_iff ps_length_def)
  qed simp
  show ?thesis
  proof (cases "?Ms = [] \<or> end_of tree ?D \<ge> ?n")
    case True
    then have "st' = st" using run unfolding plan_tails_def idx Let_def by (auto split: if_splits)
    moreover have "tail_rows tree S m = 0" using True by (simp add: tail_rows_def)
    ultimately show ?thesis by (simp add: tail_cost_def)
  next
    case False
    then have "foldE ?f ?Ms st = Inr st'" using run unfolding plan_tails_def idx by (simp add: Let_def)
    from loop [OF this] show ?thesis using False by (simp add: tail_rows_def tail_cost_def)
  qed
qed

lemma plan_loop_cost:
  assumes ok: "tree_ok rs tree" and "m \<le> length (ct_segments tree)"
    and "foldE (plan_canonical tree S (nearest_of tree S) (parents_of tree S)) (take m (ct_segments tree))
      \<lparr>pl_by_canonical = replicate (length (ct_segments tree)) None, pl_out = []\<rparr> = Inr st"
  shows "out_tokens (pl_out st) = (\<Sum>k<m. selected_cost tree S k + tail_cost tree S k) \<and>
    length (pl_out st) = (\<Sum>k<m. (if k \<in> S then 1 else 0) + tail_rows tree S k)"
  using assms(2,3)
proof (induction m arbitrary: st)
  case (Suc m)
  then have m: "m < length (ct_segments tree)" by simp
  from Suc.prems(2) m obtain st0 where
    st0: "foldE (plan_canonical tree S (nearest_of tree S) (parents_of tree S)) (take m (ct_segments tree))
      \<lparr>pl_by_canonical = replicate (length (ct_segments tree)) None, pl_out = []\<rparr> = Inr st0"
    and step: "plan_canonical tree S (nearest_of tree S) (parents_of tree S) (ct_segments tree ! m) st0 = Inr st"
    by (auto simp: take_Suc_conv_app_nth bindE_Inr_iff)
  from step obtain st1 where
    st1: "plan_selected tree S (parents_of tree S) (ct_segments tree ! m) st0 = Inr st1"
    and st: "plan_tails tree (nearest_of tree S) (ct_segments tree ! m) st1 = Inr st"
    by (auto simp: bindE_Inr_iff plan_canonical_def)
  from Suc.IH [OF _ st0] m plan_selected_cost [OF ok m st1] plan_tails_cost [OF tree_index [OF ok m] st]
  show ?case by simp
qed simp

lemma shape_selected_loop:
  assumes ok: "tree_ok rs tree" and "m \<le> length (ct_segments tree)"
  shows "\<exists>st'. foldE (shape_selected tree S (parents_of tree S)) (take m (ct_segments tree)) st = Inr st' \<and>
    sh_tokens st' = sh_tokens st + (\<Sum>k<m. selected_cost tree S k) \<and> sh_count st' = sh_count st"
  using assms(2)
proof (induction m)
  case (Suc m)
  then have m: "m < length (ct_segments tree)" by simp
  from Suc obtain st1 where st1: "foldE (shape_selected tree S (parents_of tree S)) (take m (ct_segments tree)) st = Inr st1"
    "sh_tokens st1 = sh_tokens st + (\<Sum>k<m. selected_cost tree S k)" "sh_count st1 = sh_count st" by auto
  have idx: "cs_index (ct_segments tree ! m) = m" by (rule tree_index [OF ok m])
  have "\<exists>st2. shape_selected tree S (parents_of tree S) (ct_segments tree ! m) st1 = Inr st2 \<and>
      sh_tokens st2 = sh_tokens st1 + selected_cost tree S m \<and> sh_count st2 = sh_count st1"
    using above_end [OF ok m, of S] nearest_facts(2) [OF ok m, of S]
    by (cases "m \<in> S") (simp_all add: shape_selected_def idx selected_cost_def Let_def)
  then obtain st2 where "shape_selected tree S (parents_of tree S) (ct_segments tree ! m) st1 = Inr st2"
      "sh_tokens st2 = sh_tokens st1 + selected_cost tree S m" "sh_count st2 = sh_count st1" by blast
  with st1 m show ?case by (simp add: take_Suc_conv_app_nth)
qed simp

lemma shape_tail_step:
  "sh_tokens (shape_tail tree (nearest_of tree S) (k, ct_by_terminal tree ! k) st) = sh_tokens st + tail_cost tree S k \<and>
   sh_count (shape_tail tree (nearest_of tree S) (k, ct_by_terminal tree ! k) st) = sh_count st + tail_rows tree S k"
  by (simp add: shape_tail_def tail_cost_def tail_rows_def Let_def)

lemma shape_tail_loop:
  "m \<le> length (ct_by_terminal tree) \<Longrightarrow>
   sh_tokens (fold (shape_tail tree (nearest_of tree S)) (take m (List.enumerate 0 (ct_by_terminal tree))) st)
     = sh_tokens st + (\<Sum>k<m. tail_cost tree S k) \<and>
   sh_count (fold (shape_tail tree (nearest_of tree S)) (take m (List.enumerate 0 (ct_by_terminal tree))) st)
     = sh_count st + (\<Sum>k<m. tail_rows tree S k)"
proof (induction m)
  case (Suc m)
  then show ?case
    using shape_tail_step [of tree S m] by (simp add: take_Suc_conv_app_nth nth_enumerate_eq)
qed simp

lemma layout_shape_exact:
  assumes ok: "tree_ok rs tree" and S: "S \<subseteq> {..<length (ct_segments tree)}"
  obtains depth where "layout_shape tree S = Inr
    (\<Sum>k<length (ct_segments tree). selected_cost tree S k + tail_cost tree S k, depth,
     \<Sum>k<length (ct_segments tree). (if k \<in> S then 1 else 0) + tail_rows tree S k)"
proof -
  let ?M = "length (ct_segments tree)"
  let ?st = "\<lparr>sh_depths = replicate ?M 0, sh_tokens = 0, sh_depth = 0, sh_count = card S\<rparr>"
  obtain st where st: "foldE (shape_selected tree S (parents_of tree S)) (ct_segments tree) ?st = Inr st"
    "sh_tokens st = (\<Sum>k<?M. selected_cost tree S k)" "sh_count st = card S"
    using shape_selected_loop [OF ok order_refl, of S ?st] by auto
  have len: "length (ct_by_terminal tree) = ?M" using tree_okD(7) [OF ok] by simp
  let ?st' = "fold (shape_tail tree (nearest_of tree S)) (List.enumerate 0 (ct_by_terminal tree)) st"
  have st': "sh_tokens ?st' = sh_tokens st + (\<Sum>k<?M. tail_cost tree S k)"
    "sh_count ?st' = sh_count st + (\<Sum>k<?M. tail_rows tree S k)"
    using shape_tail_loop [of ?M tree S st] len by simp_all
  have "(\<Sum>k<?M. if k \<in> S then 1 else 0) = (\<Sum>k \<in> {..<?M} \<inter> S. 1 :: nat)"
    by (subst sum.inter_restrict) simp_all
  also have "\<dots> = card S" using S by (simp add: Int_absorb1)
  finally have card: "card S = (\<Sum>k<?M. if k \<in> S then 1 else 0)" by simp
  have "layout_shape tree S = Inr (sh_tokens ?st', sh_depth ?st', sh_count ?st')"
    using st(1) by (simp add: layout_shape_def nearest_of_def parents_of_def case_prod_unfold Let_def)
  moreover have "sh_tokens ?st' = (\<Sum>k<?M. selected_cost tree S k + tail_cost tree S k)"
    by (simp add: st' st(2) sum.distrib)
  moreover have "sh_count ?st' = (\<Sum>k<?M. (if k \<in> S then 1 else 0) + tail_rows tree S k)"
    by (simp only: st' st(3) card sum.distrib)
  ultimately show thesis using that by simp
qed

lemma planned_length: "plan_length (planned_prefixes out) = out_tokens out"
proof -
  have "map seg_length (planned_prefixes out) = map ps_length out"
    by (rule nth_equalityI) (simp_all add: planned_prefixes_def nth_enumerate_eq seg_length_def ps_length_def)
  then show ?thesis by (simp add: plan_length_def out_tokens_def)
qed

lemma place_segments_length: "plan_length (place_segments c ss) = plan_length ss"
proof -
  have "map seg_length (place_segments c ss) = map seg_length ss"
    by (rule nth_equalityI) (metis length_map place_segments_fields(2,3) nth_map seg_length_def)+
  then show ?thesis by (simp add: plan_length_def)
qed

lemma decisions_bound: "tree_ok rs tree \<Longrightarrow> set (ct_decisions tree) \<subseteq> {..<length (ct_segments tree)}"
  using tree_okD(8) [of rs tree] tree_index [of rs tree] by (auto simp: in_set_conv_nth)

text \<open>Everything a layout promises.\<close>

lemma layout_facts:
  assumes ok: "tree_ok rs tree" and S: "S \<subseteq> set (ct_decisions tree)"
  obtains ly out where "plan_prefix_tree_layout digest tree S = Inr ly" and "ly_segments ly = Inr out"
    and "ly_tree ly = ct_fingerprint tree" and "well_packed rs (place_segments 0 (planned_prefixes out))"
    and "ly_packed ly = out_tokens out" and "ly_count ly = length out" and "ly_selected ly = S"
proof -
  let ?M = "length (ct_segments tree)"
  obtain depth where shape: "layout_shape tree S = Inr
    (\<Sum>k<?M. selected_cost tree S k + tail_cost tree S k, depth, \<Sum>k<?M. (if k \<in> S then 1 else 0) + tail_rows tree S k)"
    by (rule layout_shape_exact [OF ok subset_trans [OF S decisions_bound [OF ok]]])
  obtain out where out: "iter_planned_segments tree S = Inr out" "well_packed rs (place_segments 0 (planned_prefixes out))"
    by (rule iter_planned [OF ok])
  obtain st where st: "foldE (plan_canonical tree S (nearest_of tree S) (parents_of tree S)) (take ?M (ct_segments tree))
      \<lparr>pl_by_canonical = replicate ?M None, pl_out = []\<rparr> = Inr st" "out = pl_out st"
    using out(1) by (auto simp: iter_planned_segments_def nearest_of_def parents_of_def case_prod_unfold Let_def bindE_Inr_iff)
  note cost = plan_loop_cost [OF ok order_refl st(1)]
  let ?ly = "\<lparr>ly_tree = ct_fingerprint tree, ly_selected = S, ly_segments = iter_planned_segments tree S,
         ly_count = length out, ly_packed = out_tokens out, ly_depth = depth,
         ly_fingerprint = digest (Layout_Payload (ct_fingerprint tree) (sorted_list_of_set S))\<rparr>"
  have "plan_prefix_tree_layout digest tree S = Inr ?ly"
    unfolding plan_prefix_tree_layout_def shape using S cost st(2) by simp
  with out show thesis by (intro that [of ?ly out]) simp_all
qed

section \<open>Materialising a layout\<close>

definition materialize_segment :: "int list list \<Rightarrow> bool \<Rightarrow> nat \<times> planned_segment
    \<Rightarrow> pack_chunks \<times> pack_segment list \<Rightarrow> (pack_chunks \<times> pack_segment list) result" where
  "materialize_segment tensors verify ks st =
     (case ks of (segment_index, s) \<Rightarrow> case st of (acc, packed) \<Rightarrow>
      ensure (ps_members s \<noteq> []) IndexError
     (let source = slice (tensors ! hd (ps_members s)) (ps_start s) (ps_end s) in
      ensure (\<not> (verify \<and> list_ex (\<lambda>i. slice (tensors ! i) (ps_start s) (ps_end s) \<noteq> source) (tl (ps_members s))))
        (ValueError ''planned shared segment contains unequal tokens'')
     (let group = int segment_index + 1;
          parent = (case ps_parent s of None \<Rightarrow> group | Some p \<Rightarrow> int p + 1);
          packed_positions = [pack_cursor acc..<pack_cursor acc + ps_length s] in
      Inr (\<lparr>token_chunks = token_chunks acc @ [source],
          group_chunks = group_chunks acc @ [replicate (ps_length s) group],
          parent_chunks = parent_chunks acc @ [replicate (ps_length s) parent],
          position_chunks = position_chunks acc @ [[ps_start s..<ps_end s]],
          sequence_chunks = fold (append_at packed_positions) (ps_members s) (sequence_chunks acc),
          pack_cursor = pack_cursor acc + ps_length s\<rparr>,
        packed @ [\<lparr>sequence_indices = ps_members s, seg_start = ps_start s, seg_end = ps_end s,
          group_id = group, parent_id = parent, packed_start = pack_cursor acc\<rparr>]))))"

definition materialize_prefix_tree_layout ::
  "(device \<times> int list) list \<Rightarrow> canonical_tree \<Rightarrow> prefix_tree_layout \<Rightarrow> bool \<Rightarrow> prefix_tree_pack result" where
  "materialize_prefix_tree_layout seqs tree layout verify =
     ensure (seqs \<noteq> []) (ValueError ''a nonempty layout requires at least one sequence'')
    (ensure (map (\<lambda>s. length (snd s)) seqs = ct_lengths tree) (ValueError ''sequence lengths do not match the canonical tree'')
    (ensure (ly_tree layout = ct_fingerprint tree) (ValueError ''layout belongs to a different canonical tree'')
    (ensure (card (set (map fst seqs)) = 1) (ValueError ''all sequences must be on the same device'')
    (bindE (ly_segments layout) (\<lambda>planned.
     bindE (foldE (materialize_segment (map snd seqs) verify) (List.enumerate 0 planned)
        (\<lparr>token_chunks = [], group_chunks = [], parent_chunks = [], position_chunks = [],
          sequence_chunks = map (\<lambda>_. []) seqs, pack_cursor = 0\<rparr>, []))
     (\<lambda>(acc, packed).
     ensure (token_chunks acc \<noteq> [] \<and> [] \<notin> set (sequence_chunks acc))
       (RuntimeError ''torch.cat(): expected a non-empty list of Tensors'')
       (Inr (concat_chunks packed acc))))))))"

definition planned_pack_segment :: "nat \<Rightarrow> planned_segment \<Rightarrow> nat \<Rightarrow> pack_segment" where
  "planned_pack_segment k s cursor = prefix_segment.extend (planned_prefix k s) \<lparr>packed_start = cursor\<rparr>"

lemma planned_pack_segment_record:
  "planned_pack_segment k s cursor = \<lparr>sequence_indices = ps_members s, seg_start = ps_start s, seg_end = ps_end s,
     group_id = int k + 1, parent_id = (case ps_parent s of None \<Rightarrow> int k + 1 | Some p \<Rightarrow> int p + 1), packed_start = cursor\<rparr>"
  by (simp add: planned_pack_segment_def planned_prefix_def prefix_segment.defs)

lemma materialize_segment_chunk:
  assumes "ps_members s \<noteq> []" and "\<forall>i \<in> set (ps_members s). slice (tensors ! i) (ps_start s) (ps_end s) =
      slice (tensors ! hd (ps_members s)) (ps_start s) (ps_end s)"
    and len: "length (slice (tensors ! hd (ps_members s)) (ps_start s) (ps_end s)) = ps_length s"
  shows "materialize_segment tensors verify (k, s) (acc, packed) =
    Inr (pack_chunk tensors (planned_pack_segment k s (pack_cursor acc)) acc, packed @ [planned_pack_segment k s (pack_cursor acc)])"
proof -
  have "\<not> list_ex (\<lambda>i. slice (tensors ! i) (ps_start s) (ps_end s) \<noteq> slice (tensors ! hd (ps_members s)) (ps_start s) (ps_end s))
      (tl (ps_members s))"
    unfolding list_ex_iff using assms(2) list.set_sel(2) [OF assms(1)] by blast
  then have one: "materialize_segment tensors verify (k, s) (acc, packed) =
    Inr (\<lparr>token_chunks = token_chunks acc @ [slice (tensors ! hd (ps_members s)) (ps_start s) (ps_end s)],
          group_chunks = group_chunks acc @ [replicate (ps_length s) (int k + 1)],
          parent_chunks = parent_chunks acc @ [replicate (ps_length s) (case ps_parent s of None \<Rightarrow> int k + 1 | Some p \<Rightarrow> int p + 1)],
          position_chunks = position_chunks acc @ [[ps_start s..<ps_end s]],
          sequence_chunks = fold (append_at [pack_cursor acc..<pack_cursor acc + ps_length s]) (ps_members s) (sequence_chunks acc),
          pack_cursor = pack_cursor acc + ps_length s\<rparr>, packed @ [planned_pack_segment k s (pack_cursor acc)])"
    unfolding materialize_segment_def planned_pack_segment_record Let_def prod.case
    using assms(1) by (simp only: simp_thms ensure_simps)
  show ?thesis unfolding one pack_chunk_def Let_def planned_pack_segment_record
    by (simp only: prefix_segment.select_convs len)
qed

lemma place_segments_append:
  "place_segments c (xs @ ys) = place_segments c xs @ place_segments (c + plan_length xs) ys"
  by (induction c xs rule: place_segments.induct) (simp_all add: add.assoc)

lemma place_segments_snoc:
  "place_segments c (xs @ [x]) = place_segments c xs @ [prefix_segment.extend x \<lparr>packed_start = c + plan_length xs\<rparr>]"
  by (induction c xs rule: place_segments.induct) (simp_all add: add.assoc)

text \<open>On a packing plan the loop is the loop of the packer.\<close>

lemma materialize_loop:
  assumes wp: "well_packed tensors (place_segments 0 (planned_prefixes out))" and "us @ vs = out"
    and init: "acc0 = \<lparr>token_chunks = [], group_chunks = [], parent_chunks = [], position_chunks = [],
        sequence_chunks = map (\<lambda>_. []) tensors, pack_cursor = 0\<rparr>"
  shows "foldE (materialize_segment tensors verify) (List.enumerate 0 us) (acc0, []) =
    Inr (fold (pack_chunk tensors) (place_segments 0 (planned_prefixes us)) acc0, place_segments 0 (planned_prefixes us)) \<and>
    pack_cursor (fold (pack_chunk tensors) (place_segments 0 (planned_prefixes us)) acc0) = plan_length (planned_prefixes us)"
  using assms(2)
proof (induction us arbitrary: vs rule: rev_induct)
  case Nil
  then show ?case by (simp add: init)
next
  case (snoc s us)
  let ?acc = "fold (pack_chunk tensors) (place_segments 0 (planned_prefixes us)) acc0"
  let ?t = "planned_pack_segment (length us) s (plan_length (planned_prefixes us))"
  from snoc.IH [of "s # vs"] snoc.prems have IH: "foldE (materialize_segment tensors verify) (List.enumerate 0 us) (acc0, []) =
      Inr (?acc, place_segments 0 (planned_prefixes us))" "pack_cursor ?acc = plan_length (planned_prefixes us)" by simp_all
  have place: "place_segments 0 (planned_prefixes (us @ [s])) = place_segments 0 (planned_prefixes us) @ [?t]"
    by (simp add: place_segments_snoc planned_pack_segment_def)
  have "?t \<in> set (place_segments 0 (planned_prefixes out))"
  proof -
    have "planned_prefixes out = planned_prefixes (us @ [s]) @ map (\<lambda>(k, s). planned_prefix k s) (List.enumerate (length (us @ [s])) vs)"
      unfolding snoc.prems [symmetric] by (simp add: planned_prefixes_def enumerate_append_eq)
    then have "\<exists>zs. place_segments 0 (planned_prefixes out) = (place_segments 0 (planned_prefixes us) @ [?t]) @ zs"
      using place place_segments_append [of 0 "planned_prefixes (us @ [s])"] by metis
    then show ?thesis by auto
  qed
  then have t: "seg_valid tensors ?t" "hd (sequence_indices ?t) \<in> set (sequence_indices ?t)" "sequence_indices ?t \<noteq> []"
    using well_packedD(2) [OF wp] well_packed_members [OF wp] by blast+
  have agree: "rows_agree tensors (set (ps_members s)) (ps_end s)" using t(1) by (simp add: seg_valid_def planned_pack_segment_record)
  have h: "hd (ps_members s) \<in> set (ps_members s)" "ps_members s \<noteq> []" using t(2,3) by (simp_all add: planned_pack_segment_record)
  have chunk: "materialize_segment tensors verify (length us, s) (?acc, place_segments 0 (planned_prefixes us)) =
      Inr (pack_chunk tensors ?t ?acc, place_segments 0 (planned_prefixes us) @ [?t])"
  proof -
    have "\<forall>i \<in> set (ps_members s). slice (tensors ! i) (ps_start s) (ps_end s) =
      slice (tensors ! hd (ps_members s)) (ps_start s) (ps_end s)"
      using rows_agree_slice [OF agree _ h(1)] by blast
    moreover have "length (slice (tensors ! hd (ps_members s)) (ps_start s) (ps_end s)) = ps_length s"
      using rows_agree_len [OF agree h(1)] by (simp add: ps_length_def)
    ultimately show ?thesis using materialize_segment_chunk [OF h(2), of tensors verify "length us" ?acc] IH(2) by simp
  qed
  have "pack_cursor (pack_chunk tensors ?t ?acc) = plan_length (planned_prefixes us) + ps_length s"
    using rows_agree_len [OF agree h(1)] IH(2)
    by (simp add: pack_chunk_def Let_def planned_pack_segment_record ps_length_def)
  with IH chunk place show ?case
    by (simp add: enumerate_append_eq seg_length_def ps_length_def)
qed

section \<open>Layouts are packing plans\<close>

type_synonym layout_config = "(payload \<Rightarrow> string) \<times> nat set"

text \<open>The plan a set of decisions gives for a set of rows, and when it is accepted.\<close>

definition layout_segments :: "canonical_tree \<Rightarrow> nat set \<Rightarrow> pack_segment list" where
  "layout_segments tree S =
     (case iter_planned_segments tree S of Inl e \<Rightarrow> [] | Inr out \<Rightarrow> place_segments 0 (planned_prefixes out))"

definition layout_plan :: "layout_config \<Rightarrow> int list list \<Rightarrow> pack_segment list" where
  "layout_plan c rs =
     (case build_canonical_prefix_tree (fst c) rs of Inl e \<Rightarrow> [] | Inr tree \<Rightarrow> layout_segments tree (snd c))"

definition layout_accepts :: "layout_config \<Rightarrow> int list list \<Rightarrow> bool" where
  "layout_accepts c rs =
     (case build_canonical_prefix_tree (fst c) rs of Inl e \<Rightarrow> False | Inr tree \<Rightarrow> snd c \<subseteq> set (ct_decisions tree))"

lemma layout_segments_packed:
  assumes "tree_ok rs tree"
  shows "well_packed rs (layout_segments tree S)"
proof -
  obtain out where "iter_planned_segments tree S = Inr out" "well_packed rs (place_segments 0 (planned_prefixes out))"
    by (rule iter_planned [OF assms])
  then show ?thesis by (simp add: layout_segments_def)
qed

interpretation planner: prefix_packer layout_plan layout_accepts
proof
  fix c rs assume "layout_accepts c rs"
  then obtain tree where tree: "build_canonical_prefix_tree (fst c) rs = Inr tree"
    by (auto simp: layout_accepts_def split: sum.splits)
  with layout_segments_packed [OF build_canonical_Inr(3) [OF tree]] show "well_packed rs (layout_plan c rs)"
    by (simp add: layout_plan_def)
qed

lemma nonempty_rows_segments:
  assumes "well_packed rs segs" and "rs \<noteq> []" and "\<forall>r \<in> set rs. r \<noteq> []" and "i < length rs"
  shows "path i segs \<noteq> []"
proof
  assume "path i segs = []"
  with well_packedD(1) [OF assms(1,4)] have "length (rs ! i) = 0" by simp
  with assms(3,4) show False by (metis length_0_conv nth_mem)
qed

text \<open>Materialising a layout builds the pack of its plan.\<close>

lemma materialize_layout:
  assumes tree: "build_canonical_prefix_tree digest rs = Inr tree" and S: "S \<subseteq> set (ct_decisions tree)"
    and seqs: "map snd seqs = rs" and dev: "card (set (map fst seqs)) = 1"
  obtains ly where "plan_prefix_tree_layout digest tree S = Inr ly" and "ly_packed ly = plan_length (layout_segments tree S)"
    and "ly_count ly = length (layout_segments tree S)"
    and "materialize_prefix_tree_layout seqs tree ly verify = Inr (pack_tensors rs (layout_segments tree S))"
proof -
  note b = build_canonical_Inr [OF tree]
  obtain ly out where ly: "plan_prefix_tree_layout digest tree S = Inr ly" "ly_segments ly = Inr out"
    "ly_tree ly = ct_fingerprint tree" "well_packed rs (place_segments 0 (planned_prefixes out))"
    "ly_packed ly = out_tokens out" "ly_count ly = length out" "ly_selected ly = S"
    by (rule layout_facts [OF b(3) S, of digest])
  have iter: "iter_planned_segments tree S = Inr out"
    using ly(1,2) by (auto simp: plan_prefix_tree_layout_def result_iffs case_prod_unfold)
  let ?P = "place_segments 0 (planned_prefixes out)"
  have P: "layout_segments tree S = ?P" by (simp add: layout_segments_def iter)
  let ?start = "\<lparr>token_chunks = [], group_chunks = [], parent_chunks = [], position_chunks = [],
          sequence_chunks = map (\<lambda>_. []) rs, pack_cursor = 0\<rparr>"
  have init: "map (\<lambda>_. []) seqs = map (\<lambda>_. [] :: nat list list) rs" unfolding seqs [symmetric] by simp
  let ?acc = "fold (pack_chunk rs) ?P ?start"
  have loop: "foldE (materialize_segment rs verify) (List.enumerate 0 out) (?start, []) = Inr (?acc, ?P)"
    using materialize_loop [OF ly(4) append_Nil2 refl, of verify] by blast
  have acc: "?acc = \<lparr>token_chunks = map (token_chunk rs) ?P, group_chunks = map (\<lambda>s. replicate (seg_length s) (group_id s)) ?P,
     parent_chunks = map (\<lambda>s. replicate (seg_length s) (parent_id s)) ?P,
     position_chunks = map (\<lambda>s. [seg_start s..<seg_end s]) ?P,
     sequence_chunks = map (\<lambda>i. map packed_range (path i ?P)) [0..<length rs], pack_cursor = plan_length ?P\<rparr>"
    by (subst fold_pack_chunk) (simp_all add: well_packed_chunks_ok [OF ly(4)] place_segments_packed cong: map_cong)
  have paths: "path i ?P \<noteq> []" if "i < length rs" for i by (rule nonempty_rows_segments [OF ly(4) b(1,2) that])
  then have "?P \<noteq> []" using b(1) by fastforce
  then have cat: "token_chunks ?acc \<noteq> [] \<and> [] \<notin> set (sequence_chunks ?acc)"
    using paths unfolding acc by auto
  have lens: "map (\<lambda>s. length (snd s)) seqs = ct_lengths tree"
    using tree_okD(1) [OF b(3)] unfolding seqs [symmetric] by (simp add: comp_def)
  have ne: "seqs \<noteq> []" using b(1) seqs by auto
  have "materialize_prefix_tree_layout seqs tree ly verify = Inr (concat_chunks ?P ?acc)"
    unfolding materialize_prefix_tree_layout_def ly(2,3) seqs init
    using ne lens dev loop cat by (simp only: ensure_simps simp_thms bindE_simps prod.case)
  then have "materialize_prefix_tree_layout seqs tree ly verify = Inr (pack_tensors rs ?P)" by (simp add: pack_tensors_def)
  moreover have "ly_packed ly = plan_length ?P" by (simp add: ly(5) place_segments_length planned_length)
  moreover have "ly_count ly = length ?P"
    by (simp add: ly(6)) (metis length_map place_segments_fields(1) planned_prefixes_def length_enumerate)
  ultimately show thesis using that [OF ly(1)] P by simp
qed

text \<open>
  C18. Every share/replay decision gives a faithful layout: for any set of shareable
  nodes the layout exists, materialising it succeeds and gives every sequence back (token
  by token, at the positions recorded for it, with its own offsets), and the packed
  length and the segment count the planner predicts without building the segments are
  exact.
\<close>

theorem layout_roundtrip:
  assumes "build_canonical_prefix_tree digest rs = Inr tree" and "S \<subseteq> set (ct_decisions tree)"
    and "map snd seqs = rs" and "card (set (map fst seqs)) = 1"
  shows "\<exists>ly p. plan_prefix_tree_layout digest tree S = Inr ly \<and>
    materialize_prefix_tree_layout seqs tree ly verify = Inr p \<and>
    (\<forall>i < length rs. map ((!) (tokens p)) (positions_by_sequence p ! i) = rs ! i \<and>
       map ((!) (position_ids p)) (positions_by_sequence p ! i) = [0..<length (rs ! i)]) \<and>
    length (tokens p) = ly_packed ly \<and> length (pack_segments p) = ly_count ly"
proof -
  obtain ly where ly: "plan_prefix_tree_layout digest tree S = Inr ly"
    "ly_packed ly = plan_length (layout_segments tree S)" "ly_count ly = length (layout_segments tree S)"
    "materialize_prefix_tree_layout seqs tree ly verify = Inr (pack_tensors rs (layout_segments tree S))"
    by (rule materialize_layout [OF assms])
  let ?P = "layout_segments tree S"
  have wp: "well_packed rs ?P" by (rule layout_segments_packed [OF build_canonical_Inr(3) [OF assms(1)]])
  have acc: "layout_accepts (digest, S) rs" and plan: "layout_plan (digest, S) rs = ?P"
    using assms(1,2) by (simp_all add: layout_accepts_def layout_plan_def)
  note f = pack_tensors_fields [OF wp]
  note up = planner.unpack_tokens [OF acc] planner.unpack_positions [OF acc]
  have "length (tokens (pack_tensors rs ?P)) = plan_length ?P"
    unfolding f(1) by (rule materialize_length) (rule planner.token_chunk_length [OF acc, unfolded plan])
  with ly up show ?thesis by (intro exI [of _ ly] exI [of _ "pack_tensors rs ?P"]) (simp add: f plan)
qed

theorem layout_roundtrip_witness:
  "\<exists>ly p. plan_prefix_tree_layout (\<lambda>p. ''d'')
      (projr (build_canonical_prefix_tree (\<lambda>p. ''d'') [[1, 2, 3], [1, 2, 4]])) {0} = Inr ly \<and>
    materialize_prefix_tree_layout [(Cpu, [1, 2, 3]), (Cpu, [1, 2, 4])]
      (projr (build_canonical_prefix_tree (\<lambda>p. ''d'') [[1, 2, 3], [1, 2, 4]])) ly True = Inr p \<and>
    length (tokens p) = ly_packed ly"
  using layout_roundtrip [OF canonical_example, of "{0}" "[(Cpu, [1, 2, 3]), (Cpu, [1, 2, 4])]" True]
  by (auto simp: canonical_example)

end
