(* ===== verification/Layout_Candidates.thy ===== *)
theory Layout_Candidates
  imports Prefix_Layout
begin

text \<open>
  \<^verbatim>\<open>src/art/trainer_rank/_prefix_tree_planner.py\<close>, third part: the policies that choose
  share/replay decisions (effective spans, uniform depths), the mandatory candidate
  family, and the exhaustive enumeration used for memory recovery.
\<close>

section \<open>Effective spans\<close>

definition span_step :: "canonical_tree \<Rightarrow> int \<Rightarrow> canonical_segment \<Rightarrow> nat set \<times> nat option list \<Rightarrow> nat set \<times> nat option list" where
  "span_step tree minimum_span c st =
     (let (selected, nearest) = st;
          selected_parent = (case cs_parent c of None \<Rightarrow> None | Some p \<Rightarrow> nearest ! p);
          start = end_of tree selected_parent in
      if cs_index c \<in> set (ct_decisions tree) \<and> int (cs_end c) - int start \<ge> minimum_span
      then (insert (cs_index c) selected, nearest[cs_index c := Some (cs_index c)])
      else (selected, nearest[cs_index c := selected_parent]))"

definition span_scan :: "canonical_tree \<Rightarrow> int \<Rightarrow> nat set" where
  "span_scan tree minimum_span =
     fst (fold (span_step tree minimum_span) (ct_segments tree) ({}, replicate (length (ct_segments tree)) None))"

definition effective_span_decisions :: "canonical_tree \<Rightarrow> int \<Rightarrow> nat set result" where
  "effective_span_decisions tree minimum_span =
     ensure (\<not> minimum_span < 0) (ValueError ''minimum_span must be >= 0'') (Inr (span_scan tree minimum_span))"

text \<open>
  The walk up the ancestors, one unit of fuel per segment of the tree; exhausting it
  stands for a loop that does not end.
\<close>

primrec ancestor_chain :: "nat \<Rightarrow> canonical_tree \<Rightarrow> nat option \<Rightarrow> nat list result" where
  "ancestor_chain 0 tree a = (case a of None \<Rightarrow> Inr [] | Some k \<Rightarrow> Inl (RuntimeError ''unbounded loop''))"
| "ancestor_chain (Suc fuel) tree a =
     (case a of None \<Rightarrow> Inr []
      | Some k \<Rightarrow> bindE (ancestor_chain fuel tree (cs_parent (ct_segments tree ! k))) (\<lambda>ks. Inr (k # ks)))"

definition node_transitions :: "canonical_tree \<Rightarrow> nat \<Rightarrow> nat list result" where
  "node_transitions tree k =
     (let s = ct_segments tree ! k in
      bindE (ancestor_chain (length (ct_segments tree)) tree (cs_parent s)) (\<lambda>ancestors.
        Inr ((cs_end s + 1) # map (\<lambda>a. cs_end s - cs_end (ct_segments tree ! a) + 1)
          (filter (\<lambda>a. a \<in> set (ct_decisions tree) \<and> cs_end s > cs_end (ct_segments tree ! a)) ancestors))))"

definition effective_span_breakpoints :: "canonical_tree \<Rightarrow> nat list result" where
  "effective_span_breakpoints tree =
     bindE (mapE (node_transitions tree) (ct_decisions tree)) (\<lambda>xss. Inr (sorted_list_of_set (insert 1 (set (concat xss)))))"

definition uniform_decisions :: "canonical_tree \<Rightarrow> nat \<Rightarrow> nat set" where
  "uniform_decisions tree depth = set (filter (\<lambda>k. cs_depth (ct_segments tree ! k) \<le> depth) (ct_decisions tree))"

section \<open>The mandatory family\<close>

text \<open>The label text is the constructor; the number is the interpolated value.\<close>

datatype layout_label = No_Sharing | Depth_One | Uniform_Depth nat | Minimum_Effective_Span nat
  | Full_Sharing | Savings_Plateau nat
  | Nonuniform_Refinement | Nonuniform_Tier nat | Nonuniform_Flip nat | Nonuniform_Share_Branch nat
  | Nonuniform_Replay_Branch nat | Nonuniform_Neighborhood_Order nat | Nonuniform_Neighborhood_Flip "nat list"

record family_entry =
  fe_decisions :: "nat set"
  fe_labels :: "layout_label list"
  fe_thresholds :: "nat list"

definition append_new :: "'a \<Rightarrow> 'a list \<Rightarrow> 'a list" where
  "append_new x xs = (if x \<in> set xs then xs else xs @ [x])"

fun add_entry :: "nat set \<Rightarrow> layout_label \<Rightarrow> nat option \<Rightarrow> family_entry list \<Rightarrow> family_entry list" where
  "add_entry S label threshold [] =
     [\<lparr>fe_decisions = S, fe_labels = [label], fe_thresholds = (case threshold of None \<Rightarrow> [] | Some t \<Rightarrow> [t])\<rparr>]"
| "add_entry S label threshold (e # es) =
     (if fe_decisions e = S
      then e\<lparr>fe_labels := append_new label (fe_labels e),
             fe_thresholds := (case threshold of None \<Rightarrow> fe_thresholds e | Some t \<Rightarrow> append_new t (fe_thresholds e))\<rparr> # es
      else e # add_entry S label threshold es)"

record layout_candidate =
  lc_layout :: prefix_tree_layout
  lc_labels :: "layout_label list"
  lc_thresholds :: "nat list"

definition candidate_of :: "family_entry \<times> prefix_tree_layout \<Rightarrow> layout_candidate" where
  "candidate_of p = \<lparr>lc_layout = snd p, lc_labels = fe_labels (fst p), lc_thresholds = fe_thresholds (fst p)\<rparr>"

text \<open>\<^verbatim>\<open>_candidate_tie_key\<close>: the components in order, the sorted decisions last.\<close>

definition candidate_tie_key :: "layout_candidate \<Rightarrow> nat list" where
  "candidate_tie_key c =
     [card (ly_selected (lc_layout c)), ly_depth (lc_layout c), ly_count (lc_layout c), ly_packed (lc_layout c)] @
     sorted_list_of_set (ly_selected (lc_layout c))"

text \<open>\<^verbatim>\<open>min\<close> keeps the first of equal elements.\<close>

fun first_min :: "('a \<Rightarrow> 'k::linorder) \<Rightarrow> 'a \<Rightarrow> 'a list \<Rightarrow> 'a" where
  "first_min key best [] = best"
| "first_min key best (x # xs) = (if key x < key best then first_min key x xs else first_min key best xs)"

definition basic_family :: "canonical_tree \<Rightarrow> nat list \<Rightarrow> nat set list \<Rightarrow> family_entry list" where
  "basic_family tree thresholds spans =
     (let st = add_entry {} (Uniform_Depth 0) None (add_entry {} No_Sharing None []);
          depth_one = uniform_decisions tree 1;
          st = add_entry depth_one (Uniform_Depth 1) None (add_entry depth_one Depth_One None st);
          st = fold (\<lambda>d. add_entry (uniform_decisions tree d) (Uniform_Depth d) None)
                 [2..<maximum_shared_depth tree + 1] st;
          st = fold (\<lambda>(t, S). add_entry S (Minimum_Effective_Span t) (Some t)) (zip thresholds spans) st
      in add_entry (set (ct_decisions tree)) Full_Sharing None st)"

definition packed_of :: "(family_entry \<times> prefix_tree_layout) list \<Rightarrow> nat set \<Rightarrow> int" where
  "packed_of entries S = (case find (\<lambda>p. fe_decisions (fst p) = S) entries of None \<Rightarrow> 0 | Some p \<Rightarrow> int (ly_packed (snd p)))"

text \<open>
  One savings plateau.  The layouts are computed before the loop, the labels change in
  it, so the entries pair the current labels with the fixed layouts.
\<close>

definition add_plateau :: "canonical_tree \<Rightarrow> nat \<Rightarrow> (family_entry \<times> prefix_tree_layout) list
    \<Rightarrow> (family_entry \<times> prefix_tree_layout) list result" where
  "add_plateau tree percentage entries =
     (let base = packed_of entries {};
          maximum_savings = base - packed_of entries (set (ct_decisions tree));
          eligible = filter (\<lambda>p. \<not> (maximum_savings > 0 \<and>
            (base - int (ly_packed (snd p))) * 100 < maximum_savings * int percentage)) entries in
      case eligible of
        [] \<Rightarrow> Inl (AssertionError ''full sharing must satisfy every savings plateau'')
      | e # es \<Rightarrow>
          let plateau = first_min candidate_tie_key (candidate_of e) (map candidate_of es);
              labelled = add_entry (ly_selected (lc_layout plateau)) (Savings_Plateau percentage) None (map fst entries) in
          Inr (zip labelled (map snd entries)))"

definition prefix_tree_layout_candidates :: "(payload \<Rightarrow> string) \<Rightarrow> canonical_tree \<Rightarrow> layout_candidate list result" where
  "prefix_tree_layout_candidates digest tree =
     bindE (effective_span_breakpoints tree) (\<lambda>thresholds.
     bindE (mapE (\<lambda>t. effective_span_decisions tree (int t)) thresholds) (\<lambda>spans.
     let family = basic_family tree thresholds spans in
     bindE (mapE (\<lambda>e. plan_prefix_tree_layout digest tree (fe_decisions e)) family) (\<lambda>layouts.
     bindE (foldE (add_plateau tree) [90, 95, 99] (zip family layouts)) (\<lambda>entries.
     Inr (map candidate_of (sort_key (\<lambda>p. sorted_list_of_set (fe_decisions (fst p))) entries))))))"

section \<open>Exhaustive enumeration\<close>

fun combinations :: "nat \<Rightarrow> nat list \<Rightarrow> nat list list" where
  "combinations 0 xs = [[]]"
| "combinations (Suc k) [] = []"
| "combinations (Suc k) (x # xs) = map ((#) x) (combinations k xs) @ combinations (Suc k) xs"

definition iter_all_prefix_tree_layouts :: "(payload \<Rightarrow> string) \<Rightarrow> canonical_tree \<Rightarrow> nat set list \<Rightarrow> prefix_tree_layout list result" where
  "iter_all_prefix_tree_layouts digest tree exclude =
     mapE (plan_prefix_tree_layout digest tree)
       (filter (\<lambda>S. S \<notin> set exclude)
         (concat (map (\<lambda>n. map set (combinations n (ct_decisions tree))) (rev [0..<length (ct_decisions tree) + 1]))))"

lemma candidates_example:
  "map (\<lambda>c. (sorted_list_of_set (ly_selected (lc_layout c)), ly_packed (lc_layout c), lc_labels c))
     (projr (prefix_tree_layout_candidates (\<lambda>p. ''d'')
       (projr (build_canonical_prefix_tree (\<lambda>p. ''d'') [[1, 2, 3], [1, 2, 4]])))) =
   [([], 6, [No_Sharing, Uniform_Depth 0, Minimum_Effective_Span 3]),
    ([0], 4, [Depth_One, Uniform_Depth 1, Minimum_Effective_Span 1, Full_Sharing,
      Savings_Plateau 90, Savings_Plateau 95, Savings_Plateau 99])]"
  by code_simp

section \<open>The breakpoints cover every threshold\<close>

lemma ancestor_chain_fuel: "ancestor_chain fuel tree a = Inr ks \<Longrightarrow> ancestor_chain (Suc fuel) tree a = Inr ks"
proof (induction fuel arbitrary: a ks)
  case 0
  then show ?case by (cases a) auto
next
  case (Suc fuel)
  from Suc.prems show ?case
  proof (cases a)
    case (Some k)
    with Suc.prems obtain js where "ancestor_chain fuel tree (cs_parent (ct_segments tree ! k)) = Inr js" "ks = k # js"
      by (auto simp: bindE_Inr_iff)
    with Suc.IH [of _ js] Some show ?thesis by (simp only: ancestor_chain.simps option.case bindE_simps)
  qed simp
qed

lemma ancestor_chain_more: "ancestor_chain fuel tree a = Inr ks \<Longrightarrow> fuel \<le> larger \<Longrightarrow> ancestor_chain larger tree a = Inr ks"
  by (rotate_tac, induction larger rule: dec_induct) (auto intro: ancestor_chain_fuel simp del: ancestor_chain.simps)

text \<open>The ancestors of a segment, nearest first.\<close>

definition ancestors :: "canonical_tree \<Rightarrow> nat \<Rightarrow> nat list" where
  "ancestors tree k = projr (ancestor_chain (length (ct_segments tree)) tree (cs_parent (ct_segments tree ! k)))"

lemma ancestor_chain_total:
  assumes ok: "tree_ok rs tree" and "k < length (ct_segments tree)"
  shows "\<exists>ks. ancestor_chain k tree (cs_parent (ct_segments tree ! k)) = Inr ks \<and>
    (\<forall>a \<in> set ks. a < k \<and> cs_end (ct_segments tree ! a) \<le> cs_start (ct_segments tree ! k))"
  using assms(2)
proof (induction k rule: less_induct)
  case (less k)
  show ?case
  proof (cases "cs_parent (ct_segments tree ! k)")
    case None
    then show ?thesis by (cases k) auto
  next
    case (Some p)
    note p = tree_parent(2) [OF ok less.prems Some]
    then have pl: "p < length (ct_segments tree)" using less.prems by simp
    obtain ks where ks: "ancestor_chain p tree (cs_parent (ct_segments tree ! p)) = Inr ks"
      "\<forall>a \<in> set ks. a < p \<and> cs_end (ct_segments tree ! a) \<le> cs_start (ct_segments tree ! p)"
      using less.IH [OF _ pl] p by blast
    obtain j where j: "k = Suc j" "p \<le> j" using p by (cases k) auto
    have "ancestor_chain k tree (Some p) = Inr (p # ks)" using ancestor_chain_more [OF ks(1) j(2)] j(1) by simp
    moreover have "a < k \<and> cs_end (ct_segments tree ! a) \<le> cs_start (ct_segments tree ! k)" if "a \<in> set (p # ks)" for a
      using that ks(2) p tree_nonempty [OF ok pl] by fastforce
    ultimately show ?thesis unfolding Some by blast
  qed
qed

lemma ancestors_facts:
  assumes ok: "tree_ok rs tree" and k: "k < length (ct_segments tree)"
  shows "ancestor_chain (length (ct_segments tree)) tree (cs_parent (ct_segments tree ! k)) = Inr (ancestors tree k)"
    and "a \<in> set (ancestors tree k) \<Longrightarrow> a < k \<and> cs_end (ct_segments tree ! a) \<le> cs_start (ct_segments tree ! k)"
    and "cs_parent (ct_segments tree ! k) = Some p \<Longrightarrow> ancestors tree k = p # ancestors tree p"
proof -
  obtain ks where ks: "ancestor_chain k tree (cs_parent (ct_segments tree ! k)) = Inr ks"
    "\<forall>a \<in> set ks. a < k \<and> cs_end (ct_segments tree ! a) \<le> cs_start (ct_segments tree ! k)"
    using ancestor_chain_total [OF assms] by blast
  show *: "ancestor_chain (length (ct_segments tree)) tree (cs_parent (ct_segments tree ! k)) = Inr (ancestors tree k)"
    unfolding ancestors_def using ancestor_chain_more [OF ks(1) less_imp_le [OF k]] by simp
  then show "a \<in> set (ancestors tree k) \<Longrightarrow> a < k \<and> cs_end (ct_segments tree ! a) \<le> cs_start (ct_segments tree ! k)"
    using ks(2) ancestor_chain_more [OF ks(1) less_imp_le [OF k]] by auto
  assume p: "cs_parent (ct_segments tree ! k) = Some p"
  then have pk: "p < length (ct_segments tree)" using tree_parent(2) [OF ok k p] k by simp
  obtain js where js: "ancestor_chain p tree (cs_parent (ct_segments tree ! p)) = Inr js"
    using ancestor_chain_total [OF ok pk] by blast
  have "ancestor_chain (Suc p) tree (Some p) = Inr (p # js)" using js by simp
  from ancestor_chain_more [OF this, of "length (ct_segments tree)"] pk
  have "ancestors tree k = p # js" unfolding ancestors_def p by simp
  moreover have "ancestors tree p = js"
    unfolding ancestors_def using ancestor_chain_more [OF js less_imp_le [OF pk]] by simp
  ultimately show "ancestors tree k = p # ancestors tree p" by simp
qed

definition transitions_of :: "canonical_tree \<Rightarrow> nat \<Rightarrow> nat list" where
  "transitions_of tree k = (cs_end (ct_segments tree ! k) + 1) #
     map (\<lambda>a. cs_end (ct_segments tree ! k) - cs_end (ct_segments tree ! a) + 1)
       (filter (\<lambda>a. a \<in> set (ct_decisions tree) \<and> cs_end (ct_segments tree ! k) > cs_end (ct_segments tree ! a)) (ancestors tree k))"

lemma breakpoints_eq:
  assumes ok: "tree_ok rs tree"
  shows "effective_span_breakpoints tree =
    Inr (sorted_list_of_set (insert 1 (set (concat (map (transitions_of tree) (ct_decisions tree))))))"
proof -
  have "node_transitions tree k = Inr (transitions_of tree k)" if "k \<in> set (ct_decisions tree)" for k
    using ancestors_facts(1) [OF ok, of k] decisions_bound [OF ok] that
    by (auto simp: node_transitions_def transitions_of_def Let_def)
  then have "mapE (node_transitions tree) (ct_decisions tree) = Inr (map (transitions_of tree) (ct_decisions tree))"
    by (rule mapE_Inr_map)
  then show ?thesis by (simp add: effective_span_breakpoints_def)
qed

definition thresholds_of :: "canonical_tree \<Rightarrow> nat set" where
  "thresholds_of tree = insert 1 (set (concat (map (transitions_of tree) (ct_decisions tree))))"

lemma thresholds_facts:
  "finite (thresholds_of tree)" "1 \<in> thresholds_of tree" "0 \<notin> thresholds_of tree"
  "k \<in> set (ct_decisions tree) \<Longrightarrow> t \<in> set (transitions_of tree k) \<Longrightarrow> t \<in> thresholds_of tree"
  by (auto simp: thresholds_of_def transitions_of_def)

lemma breakpoints_sorted:
  assumes ok: "tree_ok rs tree" and bp: "effective_span_breakpoints tree = Inr ts"
  shows "set ts = thresholds_of tree" "sorted ts" "distinct ts"
proof -
  have "ts = sorted_list_of_set (thresholds_of tree)"
    using bp unfolding breakpoints_eq [OF ok] thresholds_of_def [symmetric] by simp
  then show "set ts = thresholds_of tree" "sorted ts" "distinct ts"
    using thresholds_facts(1) by (simp_all only: set_sorted_list_of_set sorted_sorted_list_of_set distinct_sorted_list_of_set)
qed

text \<open>Every span the scan compares with the threshold is a transition less one.\<close>

lemma span_transition:
  assumes ok: "tree_ok rs tree" and k: "k \<in> set (ct_decisions tree)"
    and a: "a = None \<or> (\<exists>d. a = Some d \<and> d \<in> set (ct_decisions tree) \<and> d \<in> set (ancestors tree k))"
  shows "end_of tree a < cs_end (ct_segments tree ! k) \<and>
    cs_end (ct_segments tree ! k) - end_of tree a + 1 \<in> set (transitions_of tree k)"
proof -
  have kl: "k < length (ct_segments tree)" using k decisions_bound [OF ok] by blast
  note ne = tree_nonempty [OF ok kl]
  show ?thesis using a
  proof
    assume "a = None"
    with ne show ?thesis by (simp add: end_of_def transitions_of_def)
  next
    assume "\<exists>d. a = Some d \<and> d \<in> set (ct_decisions tree) \<and> d \<in> set (ancestors tree k)"
    then obtain d where d: "a = Some d" "d \<in> set (ct_decisions tree)" "d \<in> set (ancestors tree k)" by blast
    with ancestors_facts(2) [OF ok kl d(3)] ne show ?thesis by (auto simp: end_of_def transitions_of_def)
  qed
qed

definition scan_to :: "canonical_tree \<Rightarrow> int \<Rightarrow> nat \<Rightarrow> nat set \<times> nat option list" where
  "scan_to tree m j = fold (span_step tree m) (take j (ct_segments tree)) ({}, replicate (length (ct_segments tree)) None)"

lemma scan_to_simps:
  "scan_to tree m 0 = ({}, replicate (length (ct_segments tree)) None)"
  "j < length (ct_segments tree) \<Longrightarrow> scan_to tree m (Suc j) = span_step tree m (ct_segments tree ! j) (scan_to tree m j)"
  "span_scan tree m = fst (scan_to tree m (length (ct_segments tree)))"
  by (simp_all add: scan_to_def span_scan_def take_Suc_conv_app_nth)

text \<open>Two thresholds with no transition between them select the same nodes.\<close>

lemma scan_same:
  assumes ok: "tree_ok rs tree"
    and same: "\<And>k d. k \<in> set (ct_decisions tree) \<Longrightarrow> 0 < d \<Longrightarrow> d + 1 \<in> set (transitions_of tree k) \<Longrightarrow> (m \<le> int d) = (t \<le> int d)"
    and j: "j \<le> length (ct_segments tree)"
  shows "scan_to tree m j = scan_to tree t j \<and> length (snd (scan_to tree m j)) = length (ct_segments tree) \<and>
    (\<forall>k < j. snd (scan_to tree m j) ! k = None \<or> (\<exists>a. snd (scan_to tree m j) ! k = Some a \<and>
       a \<in> set (ct_decisions tree) \<and> (a = k \<or> a \<in> set (ancestors tree k))))"
  using j
proof (induction j)
  case 0
  then show ?case by (simp add: scan_to_simps)
next
  case (Suc j)
  have j: "j < length (ct_segments tree)" using Suc.prems by simp
  obtain sel near where st: "scan_to tree m j = (sel, near)" by (cases "scan_to tree m j")
  with Suc.IH j have st': "scan_to tree t j = (sel, near)" and len: "length near = length (ct_segments tree)"
    and near: "\<And>k. k < j \<Longrightarrow> near ! k = None \<or> (\<exists>a. near ! k = Some a \<and> a \<in> set (ct_decisions tree) \<and> (a = k \<or> a \<in> set (ancestors tree k)))"
    by simp_all
  let ?c = "ct_segments tree ! j"
  define sp where "sp = (case cs_parent ?c of None \<Rightarrow> None | Some p \<Rightarrow> near ! p)"
  have sp: "sp = None \<or> (\<exists>d. sp = Some d \<and> d \<in> set (ct_decisions tree) \<and> d \<in> set (ancestors tree j))"
  proof (cases "cs_parent ?c")
    case (Some p)
    with near [of p] tree_parent(2) [OF ok j Some] ancestors_facts(3) [OF ok j Some] show ?thesis
      unfolding sp_def by auto
  qed (simp add: sp_def)
  have idx: "cs_index ?c = j" by (rule tree_index [OF ok j])
  have cmp: "(m \<le> int (cs_end ?c) - int (end_of tree sp)) = (t \<le> int (cs_end ?c) - int (end_of tree sp))"
    if jd: "j \<in> set (ct_decisions tree)"
    using span_transition [OF ok jd sp] same [OF jd, of "cs_end ?c - end_of tree sp"] by (simp add: of_nat_diff)
  have step: "span_step tree x ?c (sel, near) =
      (if j \<in> set (ct_decisions tree) \<and> x \<le> int (cs_end ?c) - int (end_of tree sp)
       then (insert j sel, near[j := Some j]) else (sel, near[j := sp]))" for x
    by (simp add: span_step_def Let_def idx sp_def)
  have eq: "span_step tree m ?c (sel, near) = span_step tree t ?c (sel, near)" unfolding step using cmp by auto
  have val: "snd (span_step tree m ?c (sel, near)) = near[j := Some j] \<and> j \<in> set (ct_decisions tree) \<or>
      snd (span_step tree m ?c (sel, near)) = near[j := sp]" unfolding step by auto
  have k: "snd (span_step tree m ?c (sel, near)) ! k = None \<or> (\<exists>a. snd (span_step tree m ?c (sel, near)) ! k = Some a \<and>
       a \<in> set (ct_decisions tree) \<and> (a = k \<or> a \<in> set (ancestors tree k)))" if "k < Suc j" for k
    using val near [of k] sp that len j by (cases "k = j") auto
  have l: "length (snd (span_step tree m ?c (sel, near))) = length (ct_segments tree)" using val len by auto
  show ?case unfolding scan_to_simps(2) [OF j] st st' using eq k l by simp
qed

lemma breakpoint_for:
  assumes ok: "tree_ok rs tree" and bp: "effective_span_breakpoints tree = Inr ts" and m: "0 \<le> m"
  shows "\<exists>t \<in> set ts. span_scan tree m = span_scan tree (int t)"
proof -
  note ts = breakpoints_sorted(1) [OF ok bp]
  let ?B = "{t \<in> thresholds_of tree. int t \<le> max m 1}"
  define t where "t = Max ?B"
  have fin: "finite ?B" and ne: "?B \<noteq> {}" using thresholds_facts by (auto intro: exI [of _ 1])
  have t: "t \<in> ?B" unfolding t_def by (rule Max_in [OF fin ne])
  have top: "u \<le> t" if "u \<in> ?B" for u unfolding t_def by (rule Max_ge [OF fin that])
  have t1: "1 \<le> t" by (rule top) (use thresholds_facts(2) in auto)
  have "(m \<le> int d) = (int t \<le> int d)" if k: "k \<in> set (ct_decisions tree)" and d: "0 < d" "d + 1 \<in> set (transitions_of tree k)" for k d
  proof
    assume "m \<le> int d"
    with t d(1) show "int t \<le> int d" by auto
  next
    assume td: "int t \<le> int d"
    show "m \<le> int d"
    proof (rule ccontr)
      assume "\<not> m \<le> int d"
      then have "d + 1 \<in> ?B" using thresholds_facts(4) [OF k d(2)] by auto
      from top [OF this] td show False by simp
    qed
  qed
  from scan_same [OF ok this order_refl] have "span_scan tree m = span_scan tree (int t)"
    by (simp add: scan_to_simps(3))
  with t ts show ?thesis by blast
qed

text \<open>
  C19. The effective-span policy has finitely many outcomes and the breakpoints are
  enough to see them all: computing them never fails (the walk up the ancestors ends), they
  come sorted and start at one, and for every nonnegative threshold some breakpoint
  selects exactly the same nodes; a negative threshold raises.
\<close>

theorem breakpoints_cover_thresholds:
  assumes "build_canonical_prefix_tree digest rs = Inr tree"
  shows "\<exists>ts. effective_span_breakpoints tree = Inr ts \<and> sorted ts \<and> distinct ts \<and> 1 \<in> set ts \<and> 0 \<notin> set ts \<and>
    (\<forall>m. if m < 0 then effective_span_decisions tree m = Inl (ValueError ''minimum_span must be >= 0'')
         else \<exists>t \<in> set ts. effective_span_decisions tree m = effective_span_decisions tree (int t))"
proof -
  note ok = build_canonical_Inr(3) [OF assms]
  obtain ts where bp: "effective_span_breakpoints tree = Inr ts" using breakpoints_eq [OF ok] by blast
  note sets = breakpoints_sorted [OF ok bp]
  have ts: "effective_span_breakpoints tree = Inr ts" "sorted ts" "distinct ts" "1 \<in> set ts" "0 \<notin> set ts"
    using bp sets(2,3) thresholds_facts(2,3) unfolding sets(1) by simp_all
  have "\<exists>t \<in> set ts. effective_span_decisions tree m = effective_span_decisions tree (int t)" if "0 \<le> m" for m
    using breakpoint_for [OF ok ts(1) that] that by (auto simp: effective_span_decisions_def)
  with ts show ?thesis by (intro exI [of _ ts]) (auto simp: effective_span_decisions_def)
qed

theorem breakpoints_cover_thresholds_witness:
  "\<exists>ts. effective_span_breakpoints (projr (build_canonical_prefix_tree (\<lambda>p. ''d'') [[1, 2, 3], [1, 2, 4]])) = Inr ts \<and>
    1 \<in> set ts"
  using breakpoints_cover_thresholds [OF canonical_example] by (auto simp: canonical_example)

section \<open>What the mandatory family holds\<close>

abbreviation keys :: "family_entry list \<Rightarrow> nat set list" where
  "keys \<equiv> map fe_decisions"

lemma add_entry_keys: "keys (add_entry S label t es) = (if S \<in> set (keys es) then keys es else keys es @ [S])"
  by (induction S label t es rule: add_entry.induct) auto

lemma add_entry_set: "set (keys (add_entry S label t es)) = insert S (set (keys es))"
  by (simp add: add_entry_keys insert_absorb)

lemma add_entry_distinct: "distinct (keys (add_entry S label t es)) \<longleftrightarrow> distinct (keys es)"
  by (simp add: add_entry_keys)

lemma fold_add_keys:
  "distinct (keys es) \<Longrightarrow> distinct (keys (fold (\<lambda>x. add_entry (S x) (l x) (t x)) xs es)) \<and>
   set (keys (fold (\<lambda>x. add_entry (S x) (l x) (t x)) xs es)) = set (keys es) \<union> S ` set xs"
proof (induction xs arbitrary: es)
  case (Cons x xs)
  then show ?case using Cons.IH [of "add_entry (S x) (l x) (t x) es"]
    by (simp only: fold.simps comp_apply add_entry_set add_entry_distinct list.set image_insert Un_insert_left Un_insert_right)
qed simp

lemma basic_family_keys:
  assumes "length spans = length thresholds"
  shows "distinct (keys (basic_family tree thresholds spans))"
    and "set (keys (basic_family tree thresholds spans)) =
      {{}, set (ct_decisions tree), uniform_decisions tree 1} \<union> uniform_decisions tree ` {2..<maximum_shared_depth tree + 1} \<union> set spans"
proof -
  define one where "one = add_entry (uniform_decisions tree 1) (Uniform_Depth 1) None
    (add_entry (uniform_decisions tree 1) Depth_One None (add_entry {} (Uniform_Depth 0) None (add_entry {} No_Sharing None [])))"
  define two where "two = fold (\<lambda>d. add_entry (uniform_decisions tree d) (Uniform_Depth d) None) [2..<maximum_shared_depth tree + 1] one"
  define three where "three = fold (\<lambda>p. add_entry (snd p) (Minimum_Effective_Span (fst p)) (Some (fst p))) (zip thresholds spans) two"
  have one: "distinct (keys one)" "set (keys one) = {{}, uniform_decisions tree 1}"
    unfolding one_def by (simp_all only: add_entry_distinct add_entry_set) (simp_all add: insert_commute)
  note two = fold_add_keys [OF one(1), of "uniform_decisions tree" Uniform_Depth "\<lambda>d. None" "[2..<maximum_shared_depth tree + 1]", folded two_def]
  note three = fold_add_keys [OF conjunct1 [OF two], of snd "\<lambda>p. Minimum_Effective_Span (fst p)" "\<lambda>p. Some (fst p)" "zip thresholds spans", folded three_def]
  have fam: "basic_family tree thresholds spans = add_entry (set (ct_decisions tree)) Full_Sharing None three"
    by (simp add: basic_family_def Let_def one_def two_def three_def case_prod_unfold)
  have spans: "snd ` set (zip thresholds spans) = set spans"
    using assms by (metis list.set_map map_snd_zip)
  show "distinct (keys (basic_family tree thresholds spans))" unfolding fam add_entry_distinct using three by blast
  show "set (keys (basic_family tree thresholds spans)) =
      {{}, set (ct_decisions tree), uniform_decisions tree 1} \<union> uniform_decisions tree ` {2..<maximum_shared_depth tree + 1} \<union> set spans"
    unfolding fam add_entry_set conjunct2 [OF three] conjunct2 [OF two] one(2) spans set_upt by blast
qed

section \<open>The labels of the family\<close>

text \<open>The labels that name one set of decisions whatever the tree.\<close>

definition anchor_decisions :: "canonical_tree \<Rightarrow> (layout_label \<times> nat set) list" where
  "anchor_decisions tree =
     [(No_Sharing, {}), (Depth_One, uniform_decisions tree 1), (Full_Sharing, set (ct_decisions tree))]"

definition entry_ok :: "canonical_tree \<Rightarrow> family_entry \<Rightarrow> bool" where
  "entry_ok tree e \<longleftrightarrow> fe_labels e \<noteq> [] \<and> distinct (fe_labels e) \<and> sorted (fe_thresholds e) \<and> distinct (fe_thresholds e) \<and>
     (\<forall>a \<in> set (anchor_decisions tree). fst a \<in> set (fe_labels e) \<longrightarrow> fe_decisions e = snd a)"

definition labelled :: "family_entry list \<Rightarrow> layout_label \<Rightarrow> bool" where
  "labelled es l \<longleftrightarrow> (\<exists>e \<in> set es. l \<in> set (fe_labels e))"

definition labels_ok :: "canonical_tree \<Rightarrow> family_entry list \<Rightarrow> bool" where
  "labels_ok tree es \<longleftrightarrow> (\<forall>e \<in> set es. entry_ok tree e) \<and> (\<forall>a \<in> set (anchor_decisions tree). labelled es (fst a))"

lemma append_new_facts:
  "set (append_new x xs) = insert x (set xs)" "distinct (append_new x xs) \<longleftrightarrow> distinct xs" "append_new x xs \<noteq> []"
  by (auto simp: append_new_def)

lemma append_new_sorted: "sorted xs \<Longrightarrow> \<forall>y \<in> set xs. y \<le> x \<Longrightarrow> sorted (append_new x xs)"
  by (simp add: append_new_def sorted_append)

lemma add_entry_labelled: "labelled (add_entry S l t es) k \<longleftrightarrow> k = l \<or> labelled es k"
  by (induction S l t es rule: add_entry.induct) (auto simp: labelled_def append_new_facts)

lemma add_entry_thresholds:
  "e \<in> set (add_entry S l t es) \<Longrightarrow> v \<in> set (fe_thresholds e) \<Longrightarrow> t = Some v \<or> (\<exists>e \<in> set es. v \<in> set (fe_thresholds e))"
  by (induction S l t es rule: add_entry.induct) (auto simp: append_new_facts split: option.splits if_splits)

lemma add_entry_ok:
  assumes "\<forall>e \<in> set es. entry_ok tree e" and "\<forall>a \<in> set (anchor_decisions tree). fst a = l \<longrightarrow> S = snd a"
    and "\<forall>u. t = Some u \<longrightarrow> (\<forall>e \<in> set es. \<forall>v \<in> set (fe_thresholds e). v < u)"
  shows "\<forall>e \<in> set (add_entry S l t es). entry_ok tree e"
  using assms
proof (induction S l t es rule: add_entry.induct)
  case (1 S l t)
  then show ?case by (auto simp: entry_ok_def split: option.split)
next
  case (2 S l t e es)
  show ?case
  proof (cases "fe_decisions e = S")
    case True
    have e: "entry_ok tree e" using 2(2) by simp
    have th: "sorted (case t of None \<Rightarrow> fe_thresholds e | Some u \<Rightarrow> append_new u (fe_thresholds e)) \<and>
        distinct (case t of None \<Rightarrow> fe_thresholds e | Some u \<Rightarrow> append_new u (fe_thresholds e))"
    proof (cases t)
      case (Some u)
      with 2(4) have "\<forall>v \<in> set (fe_thresholds e). v \<le> u" by (simp add: less_imp_le)
      with Some e show ?thesis by (simp add: entry_ok_def append_new_facts append_new_sorted)
    qed (use e in \<open>simp add: entry_ok_def\<close>)
    have "entry_ok tree (e\<lparr>fe_labels := append_new l (fe_labels e),
        fe_thresholds := (case t of None \<Rightarrow> fe_thresholds e | Some u \<Rightarrow> append_new u (fe_thresholds e))\<rparr>)"
      using e th 2(3) True by (auto simp: entry_ok_def append_new_facts)
    with True 2(2) show ?thesis by simp
  next
    case False
    with 2 show ?thesis by simp
  qed
qed

definition plain_label :: "layout_label \<Rightarrow> bool" where
  "plain_label l \<longleftrightarrow> l \<notin> {No_Sharing, Depth_One, Full_Sharing}"

lemma anchors_plain: "plain_label l \<Longrightarrow> a \<in> set (anchor_decisions tree) \<Longrightarrow> fst a \<noteq> l"
  by (auto simp: plain_label_def anchor_decisions_def)

lemma add_plain_ok:
  "\<forall>e \<in> set es. entry_ok tree e \<Longrightarrow> plain_label l \<Longrightarrow> \<forall>e \<in> set (add_entry S l None es). entry_ok tree e"
  by (rule add_entry_ok) (auto dest: anchors_plain)

lemma fold_plain_ok:
  "\<forall>e \<in> set es. entry_ok tree e \<Longrightarrow> (\<And>x. plain_label (l x)) \<Longrightarrow>
     \<forall>e \<in> set (fold (\<lambda>x. add_entry (S x) (l x) None) xs es). entry_ok tree e"
proof (induction xs arbitrary: es)
  case (Cons x xs)
  show ?case unfolding fold.simps comp_apply by (rule Cons.IH [OF add_plain_ok [OF Cons.prems] Cons.prems(2)])
qed simp

lemma fold_labelled: "labelled es k \<Longrightarrow> labelled (fold (\<lambda>x. add_entry (S x) (l x) (t x)) xs es) k"
  by (induction xs arbitrary: es) (simp_all add: add_entry_labelled)

definition no_thresholds :: "family_entry list \<Rightarrow> bool" where
  "no_thresholds es \<longleftrightarrow> (\<forall>e \<in> set es. fe_thresholds e = [])"

lemma add_entry_none: "no_thresholds es \<Longrightarrow> no_thresholds (add_entry S l None es)"
  by (induction S l "None :: nat option" es rule: add_entry.induct) (auto simp: no_thresholds_def)

lemma fold_none: "no_thresholds es \<Longrightarrow> no_thresholds (fold (\<lambda>x. add_entry (S x) (l x) None) xs es)"
  by (induction xs arbitrary: es) (simp_all add: add_entry_none)

lemma fold_threshold_ok:
  assumes "\<forall>e \<in> set es. entry_ok tree e" and "sorted (map fst ps)" and "distinct (map fst ps)"
    and "\<forall>e \<in> set es. \<forall>v \<in> set (fe_thresholds e). \<forall>p \<in> set ps. v < fst p"
  shows "\<forall>e \<in> set (fold (\<lambda>p. add_entry (snd p) (Minimum_Effective_Span (fst p)) (Some (fst p))) ps es). entry_ok tree e"
  using assms
proof (induction ps arbitrary: es)
  case (Cons p ps)
  let ?es = "add_entry (snd p) (Minimum_Effective_Span (fst p)) (Some (fst p)) es"
  have one: "\<forall>e \<in> set ?es. entry_ok tree e"
    by (rule add_entry_ok [OF Cons.prems(1)]) (use Cons.prems(4) in \<open>auto simp: anchor_decisions_def\<close>)
  have two: "v < fst q" if "e \<in> set ?es" "v \<in> set (fe_thresholds e)" "q \<in> set ps" for e v q
    using add_entry_thresholds [OF that(1,2)] Cons.prems(2,3,4) that(3) by (auto simp: image_iff order_le_less)
  show ?case using Cons.IH [OF one] Cons.prems(2,3) two by simp
qed simp

lemma basic_family_labels:
  assumes "length spans = length thresholds" and "sorted thresholds" and "distinct thresholds"
  shows "labels_ok tree (basic_family tree thresholds spans)"
proof -
  define one where "one = add_entry (uniform_decisions tree 1) (Uniform_Depth 1) None
    (add_entry (uniform_decisions tree 1) Depth_One None (add_entry {} (Uniform_Depth 0) None (add_entry {} No_Sharing None [])))"
  define two where "two = fold (\<lambda>d. add_entry (uniform_decisions tree d) (Uniform_Depth d) None) [2..<maximum_shared_depth tree + 1] one"
  define three where "three = fold (\<lambda>p. add_entry (snd p) (Minimum_Effective_Span (fst p)) (Some (fst p))) (zip thresholds spans) two"
  have fam: "basic_family tree thresholds spans = add_entry (set (ct_decisions tree)) Full_Sharing None three"
    by (simp add: basic_family_def Let_def one_def two_def three_def case_prod_unfold)
  have ok1: "\<forall>e \<in> set one. entry_ok tree e" unfolding one_def
    by (intro add_entry_ok) (auto simp: anchor_decisions_def)
  have ok2: "\<forall>e \<in> set two. entry_ok tree e" unfolding two_def
    by (rule fold_plain_ok [OF ok1]) (simp add: plain_label_def)
  have "no_thresholds one" unfolding one_def by (intro add_entry_none) (simp add: no_thresholds_def)
  then have none: "no_thresholds two" unfolding two_def by (rule fold_none)
  have ok3: "\<forall>e \<in> set three. entry_ok tree e" unfolding three_def
    by (rule fold_threshold_ok [OF ok2]) (use assms none in \<open>simp_all add: no_thresholds_def\<close>)
  have "\<forall>e \<in> set (basic_family tree thresholds spans). entry_ok tree e" unfolding fam
    by (rule add_entry_ok [OF ok3]) (auto simp: anchor_decisions_def)
  moreover have "labelled one No_Sharing" "labelled one Depth_One" unfolding one_def add_entry_labelled by blast+
  then have "labelled three No_Sharing" "labelled three Depth_One" unfolding three_def two_def by (simp_all only: fold_labelled)
  ultimately show ?thesis unfolding labels_ok_def fam by (simp add: anchor_decisions_def add_entry_labelled)
qed

lemma first_min_mem: "first_min key best xs \<in> set (best # xs)"
  by (induction key best xs rule: first_min.induct) auto

lemma find_mem: "x \<in> set xs \<Longrightarrow> P x \<Longrightarrow> \<exists>y. find P xs = Some y \<and> y \<in> set xs"
  by (induction xs) auto

definition family_ok :: "nat set list \<Rightarrow> prefix_tree_layout list \<Rightarrow> (family_entry \<times> prefix_tree_layout) list \<Rightarrow> bool" where
  "family_ok ks layouts entries \<longleftrightarrow> keys (map fst entries) = ks \<and> map snd entries = layouts"

lemma family_okD: "family_ok ks layouts entries \<Longrightarrow> length entries = length ks \<and> length layouts = length ks"
  by (metis family_ok_def length_map)

text \<open>A plateau keeps the family; full sharing always reaches it, so the assertion never fires.\<close>

lemma plateau_total:
  assumes ok: "family_ok ks layouts entries" and sel: "map ly_selected layouts = ks" and dist: "distinct ks"
    and full: "set (ct_decisions tree) \<in> set ks" and p: "p \<le> 100"
    and lab: "labels_ok tree (map fst entries)"
  shows "\<exists>entries'. add_plateau tree p entries = Inr entries' \<and> family_ok ks layouts entries' \<and> labels_ok tree (map fst entries')"
proof -
  let ?base = "packed_of entries {}"
  let ?max = "?base - packed_of entries (set (ct_decisions tree))"
  let ?bad = "\<lambda>e. ?max > 0 \<and> (?base - int (ly_packed (snd e))) * 100 < ?max * int p"
  have keys: "map (\<lambda>e. fe_decisions (fst e)) entries = ks" "map snd entries = layouts"
    using ok by (simp_all add: family_ok_def comp_def)
  have layout: "ly_selected (snd e) = fe_decisions (fst e)" if "e \<in> set entries" for e
  proof -
    have "map (\<lambda>e. ly_selected (snd e)) entries = map (\<lambda>e. fe_decisions (fst e)) entries"
      using keys sel by (simp add: comp_def flip: keys(2))
    with that show ?thesis by (simp add: list_eq_iff_nth_eq in_set_conv_nth) blast
  qed
  obtain e where e: "e \<in> set entries" "fe_decisions (fst e) = set (ct_decisions tree)"
    using full keys(1) by (metis (no_types, lifting) imageE list.set_map)
  obtain e' where e': "find (\<lambda>q. fe_decisions (fst q) = set (ct_decisions tree)) entries = Some e'"
    "e' \<in> set entries"
    using e find_mem [of e entries "\<lambda>q. fe_decisions (fst q) = set (ct_decisions tree)"] by blast
  have "packed_of entries (set (ct_decisions tree)) = int (ly_packed (snd e'))" by (simp add: packed_of_def e')
  moreover have "x * int p \<le> x * 100" if "x > 0" for x :: int using p that by (simp add: mult_left_mono)
  ultimately have "\<not> ?bad e'" by fastforce
  then have "filter (\<lambda>e. \<not> ?bad e) entries \<noteq> []" using e'(2) by (auto simp: filter_empty_conv)
  then obtain q qs where q: "filter (\<lambda>e. \<not> ?bad e) entries = q # qs" by (cases "filter (\<lambda>e. \<not> ?bad e) entries") blast+
  then have sub: "set (q # qs) \<subseteq> set entries" by (metis filter_is_subset)
  let ?pl = "first_min candidate_tie_key (candidate_of q) (map candidate_of qs)"
  have "?pl \<in> candidate_of ` set entries" using first_min_mem [of candidate_tie_key "candidate_of q" "map candidate_of qs"] sub by auto
  then obtain r where r: "r \<in> set entries" "?pl = candidate_of r" by blast
  have mem: "ly_selected (lc_layout ?pl) \<in> set (keys (map fst entries))"
    unfolding r(2) using layout [OF r(1)] r(1) by (auto simp: candidate_of_def)
  let ?labelled = "add_entry (ly_selected (lc_layout ?pl)) (Savings_Plateau p) None (map fst entries)"
  have k: "keys ?labelled = ks" unfolding add_entry_keys using mem ok by (simp only: family_ok_def if_True)
  then have len: "length ?labelled = length entries" using family_okD [OF ok] by (metis length_map)
  have "add_plateau tree p entries = Inr (zip ?labelled (map snd entries))"
    by (simp only: add_plateau_def Let_def q list.case)
  moreover have "family_ok ks layouts (zip ?labelled (map snd entries))"
    unfolding family_ok_def using k len keys(2) by (metis length_map map_fst_zip map_snd_zip)
  moreover have "labels_ok tree ?labelled"
    unfolding labels_ok_def add_entry_labelled
    by (intro conjI add_plain_ok ballI disjI2) (use lab in \<open>auto simp: labels_ok_def plain_label_def\<close>)
  then have "labels_ok tree (map fst (zip ?labelled (map snd entries)))" using len by simp
  ultimately show ?thesis by blast
qed

lemma span_scan_sub:
  assumes "tree_ok rs tree" shows "span_scan tree m \<subseteq> set (ct_decisions tree)"
proof -
  have "fst (fold (span_step tree m) cs st) \<subseteq> fst st \<union> set (ct_decisions tree)" for cs st
    by (induction cs arbitrary: st) (fastforce simp: span_step_def Let_def case_prod_unfold split: if_splits)+
  from this [of _ "({}, _)"] show ?thesis unfolding span_scan_def by simp
qed

lemma uniform_max:
  assumes ok: "tree_ok rs tree"
  shows "uniform_decisions tree 0 = {}" and "maximum_shared_depth tree \<le> d \<Longrightarrow> uniform_decisions tree d = set (ct_decisions tree)"
proof -
  have "0 < cs_depth (ct_segments tree ! k)" if "k \<in> set (ct_decisions tree)" for k
  proof -
    have "ct_segments tree ! k \<in> set (ct_segments tree)" using that decisions_bound [OF ok] by auto
    from builtD(4) [OF tree_okD(2) [OF ok] this] show ?thesis
      by (auto simp: parent_ok_def segment_depth_def split: option.splits)
  qed
  then show "uniform_decisions tree 0 = {}" by (auto simp: uniform_decisions_def)
  assume "maximum_shared_depth tree \<le> d"
  then have "cs_depth (ct_segments tree ! k) \<le> d" if "k \<in> set (ct_decisions tree)" for k
    using that unfolding maximum_shared_depth_def by (auto simp: Max_le_iff)
  then show "uniform_decisions tree d = set (ct_decisions tree)" by (auto simp: uniform_decisions_def)
qed

text \<open>The uniform depths of the family are all of them.\<close>

lemma uniform_range:
  assumes ok: "tree_ok rs tree"
  shows "{{}, set (ct_decisions tree), uniform_decisions tree 1} \<union> uniform_decisions tree ` {2..<maximum_shared_depth tree + 1}
    = range (uniform_decisions tree)"
proof -
  have "uniform_decisions tree d \<in> {{}, set (ct_decisions tree), uniform_decisions tree 1} \<union> uniform_decisions tree ` {2..<maximum_shared_depth tree + 1}" for d
  proof -
    consider "d = 0" | "d = 1" | "maximum_shared_depth tree \<le> d" | "2 \<le> d" "d < maximum_shared_depth tree + 1" by linarith
    then show ?thesis using uniform_max [OF ok] by cases auto
  qed
  moreover have "{} \<in> range (uniform_decisions tree)" "set (ct_decisions tree) \<in> range (uniform_decisions tree)"
    using uniform_max [OF ok] by (metis rangeI, metis rangeI order_refl)
  ultimately show ?thesis by blast
qed

lemma candidate_family:
  assumes tree: "build_canonical_prefix_tree digest rs = Inr tree"
  obtains cs where "prefix_tree_layout_candidates digest tree = Inr cs"
    and "distinct (map (\<lambda>c. ly_selected (lc_layout c)) cs)"
    and "(\<lambda>c. ly_selected (lc_layout c)) ` set cs = range (uniform_decisions tree) \<union> {span_scan tree m |m. 0 \<le> m}"
    and "\<forall>c \<in> set cs. plan_prefix_tree_layout digest tree (ly_selected (lc_layout c)) = Inr (lc_layout c)"
    and "sorted (map (\<lambda>c. sorted_list_of_set (ly_selected (lc_layout c))) cs)"
    and "\<exists>es. labels_ok tree es \<and> set cs = (\<lambda>e. \<lparr>lc_layout = projr (plan_prefix_tree_layout digest tree (fe_decisions e)),
       lc_labels = fe_labels e, lc_thresholds = fe_thresholds e\<rparr>) ` set es \<and>
       (\<forall>e \<in> set es. ly_selected (projr (plan_prefix_tree_layout digest tree (fe_decisions e))) = fe_decisions e)"
proof -
  note ok = build_canonical_Inr(3) [OF tree]
  obtain ts where ts: "effective_span_breakpoints tree = Inr ts" using breakpoints_eq [OF ok] by blast
  let ?spans = "map (\<lambda>t. span_scan tree (int t)) ts"
  have spans: "mapE (\<lambda>t. effective_span_decisions tree (int t)) ts = Inr ?spans"
    by (rule mapE_Inr_map) (simp add: effective_span_decisions_def)
  let ?fam = "basic_family tree ts ?spans"
  note fam = basic_family_keys [where spans = ?spans and thresholds = ts and tree = tree, OF length_map]
  have all: "set (keys ?fam) = range (uniform_decisions tree) \<union> {span_scan tree m |m. 0 \<le> m}"
  proof -
    have spans: "set ?spans = {span_scan tree m |m. 0 \<le> m}" using breakpoint_for [OF ok ts] by fastforce
    show ?thesis unfolding fam(2) uniform_range [OF ok] spans ..
  qed
  have sub: "S \<subseteq> set (ct_decisions tree)" if "S \<in> set (keys ?fam)" for S
    using that span_scan_sub [OF ok] unfolding all by (auto simp: uniform_decisions_def)
  let ?plan = "\<lambda>S. projr (plan_prefix_tree_layout digest tree S)"
  have plan: "plan_prefix_tree_layout digest tree S = Inr (?plan S) \<and> ly_selected (?plan S) = S" if "S \<in> set (keys ?fam)" for S
    using layout_facts [OF ok sub [OF that], of digest] by (metis sum.sel(2))
  let ?layouts = "map ?plan (keys ?fam)"
  have layouts: "mapE (\<lambda>e. plan_prefix_tree_layout digest tree (fe_decisions e)) ?fam = Inr ?layouts"
    unfolding map_map comp_def by (rule mapE_Inr_map) (use plan in auto)
  have sel: "map ly_selected ?layouts = keys ?fam" using plan by (simp add: map_idI)
  have start: "family_ok (keys ?fam) ?layouts (zip ?fam ?layouts)" by (simp add: family_ok_def)
  have full: "set (ct_decisions tree) \<in> set (keys ?fam)" using fam(2) by simp
  let ?P = "\<lambda>s. family_ok (keys ?fam) ?layouts s \<and> labels_ok tree (map fst s)"
  have lab: "labels_ok tree (map fst (zip ?fam ?layouts))"
    using basic_family_labels [where spans = ?spans and tree = tree, OF length_map breakpoints_sorted(2,3) [OF ok ts]] by simp
  have step: "\<exists>s'. add_plateau tree p s = Inr s' \<and> ?P s'" if p: "p \<in> set [90, 95, 99]" and s: "?P s" for p s
    by (rule plateau_total [OF conjunct1 [OF s] sel fam(1) full _ conjunct2 [OF s]]) (use p in auto)
  obtain es where es: "foldE (add_plateau tree) [90, 95, 99] (zip ?fam ?layouts) = Inr es" "family_ok (keys ?fam) ?layouts es"
    "labels_ok tree (map fst es)"
    using foldE_total [where f = "add_plateau tree" and xs = "[90, 95, 99]" and P = ?P, OF conjI [OF start lab] step] by blast
  let ?cs = "map candidate_of (sort_key (\<lambda>p. sorted_list_of_set (fe_decisions (fst p))) es)"
  have cs: "prefix_tree_layout_candidates digest tree = Inr ?cs"
    unfolding prefix_tree_layout_candidates_def Let_def ts bindE_simps spans layouts es(1) ..
  have sels: "map (\<lambda>e. ly_selected (snd e)) es = keys ?fam"
    using sel es(2) by (metis (no_types, lifting) comp_apply family_ok_def map_eq_conv map_map)
  have lc: "ly_selected (lc_layout (candidate_of e)) = ly_selected (snd e)" for e by (simp add: candidate_of_def)
  show thesis
  proof (rule that [OF cs])
    have "mset (map (\<lambda>c. ly_selected (lc_layout c)) ?cs) = mset (keys ?fam)"
      unfolding sels [symmetric] by (simp add: comp_def lc)
    then show "distinct (map (\<lambda>c. ly_selected (lc_layout c)) ?cs)" using fam(1) by (metis length_map mset_eq_imp_distinct_iff)
    have "(\<lambda>c. ly_selected (lc_layout c)) ` set ?cs = set (map (\<lambda>e. ly_selected (snd e)) es)" by (simp add: image_image lc)
    then show "(\<lambda>c. ly_selected (lc_layout c)) ` set ?cs = range (uniform_decisions tree) \<union> {span_scan tree m |m. 0 \<le> m}"
      unfolding sels all .
    have pl: "plan_prefix_tree_layout digest tree (ly_selected (snd e)) = Inr (snd e)" if "e \<in> set es" for e
    proof -
      have "snd e \<in> set ?layouts" using that es(2) by (metis family_ok_def image_eqI list.set_map)
      then show ?thesis using plan by auto
    qed
    then show "\<forall>c \<in> set ?cs. plan_prefix_tree_layout digest tree (ly_selected (lc_layout c)) = Inr (lc_layout c)"
      by (auto simp: candidate_of_def)
    have dec: "ly_selected (snd e) = fe_decisions (fst e)" if "e \<in> set es" for e
    proof -
      have "map (\<lambda>e. ly_selected (snd e)) es = map (\<lambda>e. fe_decisions (fst e)) es"
        unfolding sels using es(2) by (simp add: family_ok_def comp_def)
      with that show ?thesis by simp
    qed
    have k: "map (\<lambda>c. sorted_list_of_set (ly_selected (lc_layout c))) ?cs
        = map (\<lambda>e. sorted_list_of_set (fe_decisions (fst e))) (sort_key (\<lambda>p. sorted_list_of_set (fe_decisions (fst p))) es)"
      using dec by (simp add: lc)
    show "sorted (map (\<lambda>c. sorted_list_of_set (ly_selected (lc_layout c))) ?cs)" unfolding k by (rule sorted_sort_key)
    have "candidate_of e = \<lparr>lc_layout = projr (plan_prefix_tree_layout digest tree (fe_decisions (fst e))),
       lc_labels = fe_labels (fst e), lc_thresholds = fe_thresholds (fst e)\<rparr> \<and>
       ly_selected (projr (plan_prefix_tree_layout digest tree (fe_decisions (fst e)))) = fe_decisions (fst e)" if "e \<in> set es" for e
      using pl [OF that] dec [OF that] by (simp add: candidate_of_def)
    then show "\<exists>es. labels_ok tree es \<and> set ?cs = (\<lambda>e. \<lparr>lc_layout = projr (plan_prefix_tree_layout digest tree (fe_decisions e)),
       lc_labels = fe_labels e, lc_thresholds = fe_thresholds e\<rparr>) ` set es \<and>
       (\<forall>e \<in> set es. ly_selected (projr (plan_prefix_tree_layout digest tree (fe_decisions e))) = fe_decisions e)"
      using es(3) by (intro exI [of _ "map fst es"]) (simp add: image_image cong: image_cong)
  qed
qed


text \<open>
  C20. The mandatory candidate family is complete and never raises: for every tree it is
  produced (the assertion about the savings plateaus cannot fail), its candidates have
  pairwise different decisions, these are exactly the sets that some uniform depth or
  some minimum effective span selects (no sharing and full sharing among them), and each
  candidate carries the layout planned for its decisions.
\<close>

theorem candidate_family_complete:
  assumes "build_canonical_prefix_tree digest rs = Inr tree"
  shows "\<exists>cs. prefix_tree_layout_candidates digest tree = Inr cs \<and>
    distinct (map (\<lambda>c. ly_selected (lc_layout c)) cs) \<and>
    (\<lambda>c. ly_selected (lc_layout c)) ` set cs =
      range (uniform_decisions tree) \<union> {S. \<exists>m. effective_span_decisions tree m = Inr S} \<and>
    {} \<in> (\<lambda>c. ly_selected (lc_layout c)) ` set cs \<and>
    set (ct_decisions tree) \<in> (\<lambda>c. ly_selected (lc_layout c)) ` set cs \<and>
    (\<forall>c \<in> set cs. plan_prefix_tree_layout digest tree (ly_selected (lc_layout c)) = Inr (lc_layout c))"
proof -
  obtain cs where cs: "prefix_tree_layout_candidates digest tree = Inr cs" "distinct (map (\<lambda>c. ly_selected (lc_layout c)) cs)"
    "(\<lambda>c. ly_selected (lc_layout c)) ` set cs = range (uniform_decisions tree) \<union> {span_scan tree m |m. 0 \<le> m}"
    "\<forall>c \<in> set cs. plan_prefix_tree_layout digest tree (ly_selected (lc_layout c)) = Inr (lc_layout c)"
    by (rule candidate_family [OF assms])
  have spans: "{span_scan tree m |m. 0 \<le> m} = {S. \<exists>m. effective_span_decisions tree m = Inr S}"
    by (auto simp: effective_span_decisions_def ensure_Inr_iff not_less)
  have "{} \<in> range (uniform_decisions tree)" "set (ct_decisions tree) \<in> range (uniform_decisions tree)"
    using uniform_max [OF build_canonical_Inr(3) [OF assms]] by (metis rangeI, metis rangeI order_refl)
  then have "{} \<in> (\<lambda>c. ly_selected (lc_layout c)) ` set cs" "set (ct_decisions tree) \<in> (\<lambda>c. ly_selected (lc_layout c)) ` set cs"
    unfolding cs(3) by (simp_all only: UnI1)
  with cs(1,2,4) cs(3) [unfolded spans] show ?thesis by (intro exI [of _ cs] conjI)
qed

theorem candidate_family_complete_witness:
  "\<exists>cs. prefix_tree_layout_candidates (\<lambda>p. ''d'')
      (projr (build_canonical_prefix_tree (\<lambda>p. ''d'') [[1, 2, 3], [1, 2, 4]])) = Inr cs \<and>
    {0} \<in> (\<lambda>c. ly_selected (lc_layout c)) ` set cs"
proof -
  let ?tree = "projr (build_canonical_prefix_tree (\<lambda>p. ''d'') [[1, 2, 3], [1, 2, 4]])"
  have tree: "build_canonical_prefix_tree (\<lambda>p. ''d'') [[1, 2, 3], [1, 2, 4]] = Inr ?tree"
    and "set (ct_decisions ?tree) = {0}" by (simp_all add: canonical_example)
  then show ?thesis using candidate_family_complete [OF tree] by metis
qed

section \<open>The exhaustive enumeration\<close>

lemma combinations_sublists:
  "distinct xs \<Longrightarrow> distinct (map set (combinations n xs)) \<and> set (map set (combinations n xs)) = {S. S \<subseteq> set xs \<and> card S = n}"
proof (induction n xs rule: combinations.induct)
  case (1 xs)
  then show ?case by (auto simp: finite_subset card_eq_0_iff)
next
  case (2 k)
  then show ?case by auto
next
  case (3 k x xs)
  then have x: "x \<notin> set xs" and d: "distinct xs" by simp_all
  note IH1 = 3(1) [OF d] and IH2 = 3(2) [OF d]
  have m: "map set (map ((#) x) (combinations k xs)) = map (insert x) (map set (combinations k xs))" by simp
  have inj: "inj_on (insert x) {S. S \<subseteq> set xs \<and> card S = k}" using x by (auto simp: inj_on_def)
  have one: "set (map (insert x) (map set (combinations k xs))) = {S. S \<subseteq> set (x # xs) \<and> card S = Suc k \<and> x \<in> S}"
  proof -
    have "S \<in> insert x ` {S. S \<subseteq> set xs \<and> card S = k}" if "S \<subseteq> set (x # xs)" "card S = Suc k" "x \<in> S" for S
    proof -
      have "finite S" using that(1) finite_subset by blast
      with that have "S = insert x (S - {x})" "S - {x} \<subseteq> set xs" "card (S - {x}) = k" by auto
      then show ?thesis by blast
    qed
    moreover have "insert x S \<subseteq> set (x # xs) \<and> card (insert x S) = Suc k \<and> x \<in> insert x S" if "S \<subseteq> set xs" "card S = k" for S
    proof -
      have "x \<notin> S" "finite S" using that(1) x finite_subset by blast+
      with that show ?thesis by auto
    qed
    ultimately show ?thesis unfolding set_map [of "insert x"] conjunct2 [OF IH1] by blast
  qed
  have two: "set (map set (combinations (Suc k) xs)) = {S. S \<subseteq> set (x # xs) \<and> card S = Suc k \<and> x \<notin> S}"
    unfolding conjunct2 [OF IH2] using x by auto
  have "distinct (map (insert x) (map set (combinations k xs)))"
    using IH1 inj by (metis distinct_map)
  moreover have "map set (combinations (Suc k) (x # xs)) = map (insert x) (map set (combinations k xs)) @ map set (combinations (Suc k) xs)"
    using m by simp
  moreover have "set (map (insert x) (map set (combinations k xs))) \<inter> set (map set (combinations (Suc k) xs)) = {}"
    unfolding one two by blast
  ultimately show ?case using IH2 one two by (simp only: distinct_append set_append) blast
qed

lemma all_subsets:
  assumes "distinct xs"
  shows "distinct (concat (map (\<lambda>n. map set (combinations n xs)) (rev [0..<length xs + 1])))"
    and "set (concat (map (\<lambda>n. map set (combinations n xs)) (rev [0..<length xs + 1]))) = Pow (set xs)"
proof -
  note c = combinations_sublists [OF assms]
  have dist: "distinct (concat (map (\<lambda>n. map set (combinations n xs)) ns))" if "distinct ns" for ns
    using that
  proof (induction ns)
    case (Cons n ns)
    have "S \<notin> set (map set (combinations n' xs))" if "S \<in> set (map set (combinations n xs))" "n' \<in> set ns" for S n'
      using conjunct2 [OF c, of n] conjunct2 [OF c, of n'] that Cons.prems by auto
    then have "set (map set (combinations n xs)) \<inter> set (concat (map (\<lambda>n. map set (combinations n xs)) ns)) = {}"
      unfolding set_concat by (fastforce simp del: set_map simp: set_map [of "\<lambda>n. map set (combinations n xs)"])
    with Cons.IH Cons.prems conjunct1 [OF c, of n] show ?case
      by (simp only: list.map concat.simps distinct_append distinct.simps simp_thms)
  qed simp
  show "distinct (concat (map (\<lambda>n. map set (combinations n xs)) (rev [0..<length xs + 1])))" by (rule dist) simp
  have "S \<in> (\<Union>n \<in> {0..<length xs + 1}. {S. S \<subseteq> set xs \<and> card S = n}) \<longleftrightarrow> S \<in> Pow (set xs)" for S
    using card_mono [of "set xs" S] distinct_card [OF assms] by auto
  then show "set (concat (map (\<lambda>n. map set (combinations n xs)) (rev [0..<length xs + 1]))) = Pow (set xs)"
    by (simp only: set_concat set_map [of "\<lambda>n. map set (combinations n xs)"] set_rev set_upt image_image UN_simps
      conjunct2 [OF c] image_comp comp_def) blast
qed

lemma decisions_distinct:
  assumes ok: "tree_ok rs tree"
  shows "distinct (ct_decisions tree)"
proof -
  have "distinct (map cs_index (ct_segments tree))" unfolding built_indices [OF tree_okD(2) [OF ok]] by simp
  then show ?thesis unfolding tree_okD(8) [OF ok] by (simp add: distinct_map inj_on_def)
qed

text \<open>
  C21. The recovery enumeration omits nothing and repeats nothing: it never raises, and
  the layouts it yields are those of all share/replay decisions of the tree, each once,
  except the excluded ones.
\<close>

theorem enumeration_exhaustive:
  assumes "build_canonical_prefix_tree digest rs = Inr tree"
  shows "\<exists>layouts. iter_all_prefix_tree_layouts digest tree exclude = Inr layouts \<and>
    distinct (map ly_selected layouts) \<and>
    ly_selected ` set layouts = Pow (set (ct_decisions tree)) - set exclude \<and>
    (\<forall>ly \<in> set layouts. plan_prefix_tree_layout digest tree (ly_selected ly) = Inr ly)"
proof -
  note ok = build_canonical_Inr(3) [OF assms]
  let ?all = "concat (map (\<lambda>n. map set (combinations n (ct_decisions tree))) (rev [0..<length (ct_decisions tree) + 1]))"
  let ?todo = "filter (\<lambda>S. S \<notin> set exclude) ?all"
  note dist = decisions_distinct [OF ok]
  note all = all_subsets [OF dist]
  let ?plan = "\<lambda>S. projr (plan_prefix_tree_layout digest tree S)"
  have plan: "plan_prefix_tree_layout digest tree S = Inr (?plan S) \<and> ly_selected (?plan S) = S" if "S \<in> set ?todo" for S
  proof -
    have "S \<subseteq> set (ct_decisions tree)" using that all(2) by auto
    then show ?thesis using layout_facts [OF ok, of S digest] by (metis sum.sel(2))
  qed
  have "iter_all_prefix_tree_layouts digest tree exclude = Inr (map ?plan ?todo)"
    unfolding iter_all_prefix_tree_layouts_def by (rule mapE_Inr_map) (use plan in blast)
  moreover have sel: "map ly_selected (map ?plan ?todo) = ?todo"
    unfolding map_map by (rule map_idI) (use plan in \<open>simp only: comp_apply\<close>)
  moreover have "ly_selected ` set (map ?plan ?todo) = Pow (set (ct_decisions tree)) - set exclude"
  proof -
    have "ly_selected ` set (map ?plan ?todo) = set ?todo" using sel by (metis list.set_map)
    also have "\<dots> = Pow (set (ct_decisions tree)) - set exclude" unfolding set_filter all(2) by blast
    finally show ?thesis .
  qed
  moreover have "distinct ?todo" using all(1) by (rule distinct_filter)
  moreover have "\<forall>ly \<in> set (map ?plan ?todo). plan_prefix_tree_layout digest tree (ly_selected ly) = Inr ly"
    using plan by (simp only: set_map ball_simps) metis
  ultimately show ?thesis by (metis (no_types, lifting))
qed

theorem enumeration_exhaustive_witness:
  "\<exists>layouts. iter_all_prefix_tree_layouts (\<lambda>p. ''d'')
      (projr (build_canonical_prefix_tree (\<lambda>p. ''d'') [[1, 2, 3], [1, 2, 4]])) [{}] = Inr layouts \<and>
    ly_selected ` set layouts = {{0}}"
proof -
  have "Pow {0 :: nat} - {{}} = {{0}}" by auto
  then show ?thesis using enumeration_exhaustive [OF canonical_example, of "[{}]"] by (auto simp: canonical_example)
qed

end
