(* ===== verification/Planner_Cost.thy ===== *)
theory Planner_Cost
  imports Layout_Candidates
begin

text \<open>
  \<^verbatim>\<open>src/art/trainer_rank/_planner_cost.py\<close>: the integer cost model that prices prefix-tree
  layouts, the calibrated coefficient tables, and the choice of a table for a runtime.
  Python integers are \<open>int\<close>; a mapping of coefficients is an association list in
  insertion order; the labels of the planner are their constructors.
\<close>

section \<open>Features of a layout\<close>

definition segment_length_thresholds :: "int list" where
  "segment_length_thresholds = [64, 128, 256, 512, 1024, 2048, 4096, 8192]"

definition tiny_segment_tokens :: int where
  "tiny_segment_tokens = 128"

record layout_features =
  lf_packed :: int
  lf_count :: int
  lf_depth :: int
  lf_below :: "int list"

definition features_below :: "layout_features \<Rightarrow> int \<Rightarrow> int" where
  "features_below f tokens_wanted =
     (case find (\<lambda>(threshold, n). threshold \<ge> tokens_wanted) (zip segment_length_thresholds (lf_below f)) of
        Some (threshold, n) \<Rightarrow> n
      | None \<Rightarrow> if lf_below f \<noteq> [] then last (lf_below f) else 0)"

definition count_segment :: "planned_segment \<Rightarrow> int \<times> int list \<Rightarrow> int \<times> int list" where
  "count_segment s st =
     (let size = int (ps_end s) - int (ps_start s) in
      (fst st + 1, map2 (\<lambda>threshold n. if size < threshold then n + 1 else n) segment_length_thresholds (snd st)))"

definition layout_features_of :: "prefix_tree_layout \<Rightarrow> layout_features result" where
  "layout_features_of layout =
     bindE (ly_segments layout) (\<lambda>segs.
       let (segment_count, below) = fold count_segment segs (0, map (\<lambda>_. 0) segment_length_thresholds) in
       Inr \<lparr>lf_packed = int (ly_packed layout), lf_count = segment_count, lf_depth = int (ly_depth layout),
         lf_below = below\<rparr>)"

section \<open>Terms\<close>

definition work_per_us :: int where
  "work_per_us = 1024"

record scoring_facts =
  sf_cp :: int
  sf_tp :: int
  sf_layers :: int
  sf_gdn :: int

definition facts_ranks :: "scoring_facts \<Rightarrow> int" where
  "facts_ranks m = max 1 (sf_tp m) * max 1 (sf_cp m)"

definition levels :: "layout_features \<Rightarrow> int" where
  "levels f = max 0 (lf_depth f - 1)"

definition token_per_rank :: "layout_features \<Rightarrow> scoring_facts \<Rightarrow> int" where
  "token_per_rank f m = lf_packed f * sf_layers m * work_per_us div facts_ranks m"

definition token_cp_exchange :: "layout_features \<Rightarrow> scoring_facts \<Rightarrow> int" where
  "token_cp_exchange f m = (let cp = max 1 (sf_cp m) in lf_packed f * sf_layers m * (cp - 1) * work_per_us div cp)"

definition token_tp_collective :: "layout_features \<Rightarrow> scoring_facts \<Rightarrow> int" where
  "token_tp_collective f m = (let tp = max 1 (sf_tp m) in lf_packed f * sf_layers m * (tp - 1) * work_per_us div tp)"

definition gdn_token_per_rank :: "layout_features \<Rightarrow> scoring_facts \<Rightarrow> int" where
  "gdn_token_per_rank f m = lf_packed f * sf_gdn m * work_per_us div facts_ranks m"

definition attention_token_cp_exchange :: "layout_features \<Rightarrow> scoring_facts \<Rightarrow> int" where
  "attention_token_cp_exchange f m =
     (let cp = max 1 (sf_cp m); attention_layers = max 0 (sf_layers m - sf_gdn m) in
      lf_packed f * attention_layers * (cp - 1) * work_per_us div cp)"

definition tiny_segment_per_layer :: "layout_features \<Rightarrow> scoring_facts \<Rightarrow> int" where
  "tiny_segment_per_layer f m = features_below f (tiny_segment_tokens * max 1 (sf_cp m)) * sf_layers m * work_per_us"

definition level_cp_per_layer :: "layout_features \<Rightarrow> scoring_facts \<Rightarrow> int" where
  "level_cp_per_layer f m = levels f * sf_layers m * (max 1 (sf_cp m) - 1) * work_per_us"

definition level_tp_per_layer :: "layout_features \<Rightarrow> scoring_facts \<Rightarrow> int" where
  "level_tp_per_layer f m = levels f * sf_layers m * (max 1 (sf_tp m) - 1) * work_per_us"

definition gdn_level :: "layout_features \<Rightarrow> scoring_facts \<Rightarrow> int" where
  "gdn_level f m = levels f * sf_gdn m * work_per_us"

definition gdn_level_tp :: "layout_features \<Rightarrow> scoring_facts \<Rightarrow> int" where
  "gdn_level_tp f m = levels f * sf_gdn m * (max 1 (sf_tp m) - 1) * work_per_us"

definition term_functions :: "(string \<times> (layout_features \<Rightarrow> scoring_facts \<Rightarrow> int)) list" where
  "term_functions =
     [(''token_per_rank'', token_per_rank),
      (''token_cp_exchange'', token_cp_exchange),
      (''token_tp_collective'', token_tp_collective),
      (''gdn_token_per_rank'', gdn_token_per_rank),
      (''attention_token_cp_exchange'', attention_token_cp_exchange),
      (''tiny_segment_per_layer'', tiny_segment_per_layer),
      (''level_cp_per_layer'', level_cp_per_layer),
      (''level_tp_per_layer'', level_tp_per_layer),
      (''gdn_level'', gdn_level),
      (''gdn_level_tp'', gdn_level_tp)]"

type_synonym coefficient_table = "(string \<times> int) list"

definition score_term :: "layout_features \<Rightarrow> scoring_facts \<Rightarrow> string \<times> int \<Rightarrow> int result" where
  "score_term f m c =
     (case map_of term_functions (fst c) of None \<Rightarrow> Inl KeyError | Some g \<Rightarrow> Inr (g f m * snd c))"

definition score_terms :: "layout_features \<Rightarrow> scoring_facts \<Rightarrow> coefficient_table \<Rightarrow> int result" where
  "score_terms f m coefficients =
     bindE (mapE (score_term f m) (filter (\<lambda>c. snd c \<noteq> 0) coefficients)) (\<lambda>xs. Inr (sum_list xs))"

section \<open>Execution classes\<close>

record model_geometry =
  hidden_size :: int
  ffn_hidden_size :: int
  num_attention_heads :: int
  num_query_groups :: int
  kv_channels :: int
  gdn_value_heads :: int
  gdn_key_heads :: int
  gdn_key_head_dim :: int
  gdn_value_head_dim :: int
  gdn_conv_kernel :: int
  moe_experts :: int
  moe_topk :: int
  moe_ffn_hidden_size :: int
  moe_shared_expert_ffn :: int

text \<open>The defaults of the dataclass: no GDN layers and no experts.\<close>

definition attention_geometry :: "int \<Rightarrow> int \<Rightarrow> int \<Rightarrow> int \<Rightarrow> int \<Rightarrow> model_geometry" where
  "attention_geometry hidden ffn heads groups kv =
     \<lparr>hidden_size = hidden, ffn_hidden_size = ffn, num_attention_heads = heads, num_query_groups = groups,
      kv_channels = kv, gdn_value_heads = 0, gdn_key_heads = 0, gdn_key_head_dim = 0, gdn_value_head_dim = 0,
      gdn_conv_kernel = 0, moe_experts = 0, moe_topk = 0, moe_ffn_hidden_size = 0, moe_shared_expert_ffn = 0\<rparr>"

text \<open>A configuration object is the partial map from attribute names to the integers that are not \<open>None\<close>.\<close>

definition config_field :: "(string \<Rightarrow> int option) \<Rightarrow> string \<Rightarrow> int \<Rightarrow> int" where
  "config_field config name default_value = (case config name of None \<Rightarrow> default_value | Some v \<Rightarrow> v)"

definition geometry_from_config :: "(string \<Rightarrow> int option) \<Rightarrow> bool \<Rightarrow> bool \<Rightarrow> model_geometry" where
  "geometry_from_config config has_gdn has_moe =
     (let field = config_field config;
          hidden = field ''hidden_size'' 0;
          heads = field ''num_attention_heads'' 0;
          gdn = (\<lambda>name. if has_gdn then field name 0 else 0);
          moe = (\<lambda>name. if has_moe then field name 0 else 0) in
      \<lparr>hidden_size = hidden, ffn_hidden_size = field ''ffn_hidden_size'' 0, num_attention_heads = heads,
       num_query_groups = field ''num_query_groups'' heads,
       kv_channels = field ''kv_channels'' (if heads \<noteq> 0 then hidden div heads else 0),
       gdn_value_heads = gdn ''linear_num_value_heads'', gdn_key_heads = gdn ''linear_num_key_heads'',
       gdn_key_head_dim = gdn ''linear_key_head_dim'', gdn_value_head_dim = gdn ''linear_value_head_dim'',
       gdn_conv_kernel = gdn ''linear_conv_kernel_dim'', moe_experts = moe ''num_moe_experts'',
       moe_topk = moe ''moe_router_topk'', moe_ffn_hidden_size = moe ''moe_ffn_hidden_size'',
       moe_shared_expert_ffn = moe ''moe_shared_expert_intermediate_size''\<rparr>)"

datatype memory_class = Hbm_141g | Hbm_80g | Hbm_small

record device_class =
  dc_capability :: "int \<times> int"
  dc_memory :: "memory_class option"

definition memory_class_for :: "int option \<Rightarrow> memory_class option" where
  "memory_class_for bytes = (case bytes of
     None \<Rightarrow> None
   | Some b \<Rightarrow> if b \<ge> 120 * 1024 ^ 3 then Some Hbm_141g else if b \<ge> 70 * 1024 ^ 3 then Some Hbm_80g else Some Hbm_small)"

definition for_device :: "int \<times> int \<Rightarrow> int option \<Rightarrow> device_class" where
  "for_device capability bytes = \<lparr>dc_capability = capability, dc_memory = memory_class_for bytes\<rparr>"

definition device_admits :: "device_class \<Rightarrow> device_class \<Rightarrow> bool" where
  "device_admits known device \<longleftrightarrow> dc_capability device = dc_capability known \<and>
     (dc_memory device = None \<or> dc_memory device = dc_memory known)"

record parallel_shape =
  sh_tp :: int
  sh_cp :: int
  sh_ep :: int
  sh_etp :: int

text \<open>The shapes of the tables: expert tensor parallelism is one in all of them.\<close>

definition shape3 :: "int \<Rightarrow> int \<Rightarrow> int \<Rightarrow> parallel_shape" where
  "shape3 tp cp ep = \<lparr>sh_tp = tp, sh_cp = cp, sh_ep = ep, sh_etp = 1\<rparr>"

definition shape2 :: "int \<Rightarrow> int \<Rightarrow> parallel_shape" where
  "shape2 tp cp = shape3 tp cp 1"

section \<open>Tables\<close>

record re_ranker =
  rr_shortlist_size :: int
  rr_incumbent :: layout_label
  rr_coefficients :: coefficient_table
  rr_wave :: int
  rr_token :: int

definition reranker_score :: "re_ranker \<Rightarrow> int \<Rightarrow> int \<Rightarrow> int \<Rightarrow> int" where
  "reranker_score r layers wave_count max_rank_tokens =
     max 1 layers * (wave_count * rr_wave r + max_rank_tokens * rr_token r)"

record calibrated_table =
  ca_id :: string
  ca_coefficients :: coefficient_table
  ca_devices :: "device_class list"
  ca_dtypes :: "string list"
  ca_geometries :: "model_geometry list"
  ca_shapes :: "parallel_shape list"
  ca_withheld :: "(model_geometry \<times> parallel_shape) list"
  ca_reranked :: "parallel_shape list"
  ca_reranker :: "re_ranker option"

definition check_table :: "calibrated_table \<Rightarrow> calibrated_table result" where
  "check_table t =
     ensure (set (ca_reranked t) \<inter> set (ca_shapes t) = {}) (ValueError ''a shape is either scored directly or re-ranked'')
    (ensure ((ca_reranked t \<noteq> []) = (ca_reranker t \<noteq> None)) (ValueError ''re-ranked shapes and a re-ranker come together'')
    (Inr t))"

record runtime =
  rt_device :: device_class
  rt_dtype :: string
  rt_geometry :: model_geometry
  rt_shape :: parallel_shape

definition admits_class :: "calibrated_table \<Rightarrow> runtime \<Rightarrow> bool" where
  "admits_class t r \<longleftrightarrow> list_ex (\<lambda>known. device_admits known (rt_device r)) (ca_devices t) \<and>
     rt_dtype r \<in> set (ca_dtypes t) \<and> rt_geometry r \<in> set (ca_geometries t)"

definition table_admits :: "calibrated_table \<Rightarrow> runtime \<Rightarrow> bool" where
  "table_admits t r \<longleftrightarrow> admits_class t r \<and> rt_shape r \<in> set (ca_shapes t) \<and>
     (rt_geometry r, rt_shape r) \<notin> set (ca_withheld t)"

definition table_reranks :: "calibrated_table \<Rightarrow> runtime \<Rightarrow> bool" where
  "table_reranks t r \<longleftrightarrow> ca_reranker t \<noteq> None \<and> admits_class t r \<and> rt_shape r \<in> set (ca_reranked t)"

section \<open>The calibrated tables\<close>

definition coefficients_milli_us :: "coefficient_table" where
  "coefficients_milli_us =
     [(''token_per_rank'', 1986),
       (''token_cp_exchange'', 45),
       (''token_tp_collective'', 229),
       (''gdn_token_per_rank'', 305),
       (''attention_token_cp_exchange'', 7),
       (''tiny_segment_per_layer'', 222742),
       (''level_cp_per_layer'', 152596),
       (''level_tp_per_layer'', 635438),
       (''gdn_level'', 2920256),
       (''gdn_level_tp'', 428567)]"

definition h200_class :: "device_class" where
  "h200_class =
     \<lparr>dc_capability = (9, 0), dc_memory = Some Hbm_141g\<rparr>"

definition qwen35_4b_geometry :: "model_geometry" where
  "qwen35_4b_geometry =
     (attention_geometry 2560 9216 16 4 256)\<lparr>gdn_value_heads := 32, gdn_key_heads := 16, gdn_key_head_dim := 128, gdn_value_head_dim := 128, gdn_conv_kernel := 4\<rparr>"

definition qwen3_4b_geometry :: "model_geometry" where
  "qwen3_4b_geometry =
     attention_geometry 2560 9728 32 8 128"

definition dense_h2560_table :: "calibrated_table" where
  "dense_h2560_table =
     \<lparr>ca_id = ''dense-h2560-h200-bf16'',
      ca_coefficients = coefficients_milli_us,
      ca_devices = [h200_class],
      ca_dtypes = [''torch.bfloat16''],
      ca_geometries = [qwen35_4b_geometry, qwen3_4b_geometry],
      ca_shapes = [shape2 1 1, shape2 1 2, shape2 1 4, shape2 2 1],
      ca_withheld = [(qwen3_4b_geometry, shape2 1 4)], ca_reranked = [], ca_reranker = None\<rparr>"

definition gdn_moe_h2048_geometry :: "model_geometry" where
  "gdn_moe_h2048_geometry =
     (attention_geometry 2048 8192 16 2 256)\<lparr>gdn_conv_kernel := 4, gdn_key_head_dim := 128, gdn_key_heads := 16, gdn_value_head_dim := 128, gdn_value_heads := 32, moe_experts := 256, moe_ffn_hidden_size := 512, moe_shared_expert_ffn := 512, moe_topk := 8\<rparr>"

definition gdn_moe_h2048_table :: "calibrated_table" where
  "gdn_moe_h2048_table =
     \<lparr>ca_id = ''gdn-moe-h2048-h200-bf16'',
      ca_coefficients = 
      [(''attention_token_cp_exchange'', 0),
       (''gdn_level'', 8553228),
       (''gdn_level_tp'', 0),
       (''gdn_token_per_rank'', 364),
       (''level_cp_per_layer'', 255082),
       (''level_tp_per_layer'', 6023815),
       (''tiny_segment_per_layer'', 360723),
       (''token_cp_exchange'', 36),
       (''token_per_rank'', 3152),
       (''token_tp_collective'', 727)],
      ca_devices = [h200_class],
      ca_dtypes = [''torch.bfloat16''],
      ca_geometries = [gdn_moe_h2048_geometry],
      ca_shapes = [shape2 1 1, shape2 1 2, shape3 1 2 2, shape2 1 4, shape3 1 4 2, shape3 1 4 4, shape2 2 1, shape3 2 1 2],
      ca_withheld = [], ca_reranked = [], ca_reranker = None\<rparr>"

definition attention_dtypes :: "string list" where
  "attention_dtypes =
     [''torch.bfloat16'']"

definition attention_shapes :: "parallel_shape list" where
  "attention_shapes =
     [shape2 1 1, shape2 1 2, shape2 2 1]"

definition qwen3_1_7b_geometry :: "model_geometry" where
  "qwen3_1_7b_geometry =
     attention_geometry 2048 6144 16 8 128"

definition dense_attn_h2048_table :: "calibrated_table" where
  "dense_attn_h2048_table =
     \<lparr>ca_id = ''dense-attn-h2048-h200-bf16'',
      ca_coefficients = 
      [(''attention_token_cp_exchange'', 0),
       (''gdn_level'', 0),
       (''gdn_level_tp'', 0),
       (''gdn_token_per_rank'', 0),
       (''level_cp_per_layer'', 0),
       (''level_tp_per_layer'', 0),
       (''tiny_segment_per_layer'', 0),
       (''token_cp_exchange'', 0),
       (''token_per_rank'', 1024),
       (''token_tp_collective'', 287)],
      ca_devices = [h200_class],
      ca_dtypes = attention_dtypes,
      ca_geometries = [qwen3_1_7b_geometry],
      ca_shapes = attention_shapes,
      ca_withheld = [], ca_reranked = [], ca_reranker = None\<rparr>"

definition qwen3_8b_geometry :: "model_geometry" where
  "qwen3_8b_geometry =
     attention_geometry 4096 12288 32 8 128"

definition dense_attn_h4096_table :: "calibrated_table" where
  "dense_attn_h4096_table =
     \<lparr>ca_id = ''dense-attn-h4096-h200-bf16'',
      ca_coefficients = 
      [(''attention_token_cp_exchange'', 0),
       (''gdn_level'', 0),
       (''gdn_level_tp'', 0),
       (''gdn_token_per_rank'', 0),
       (''level_cp_per_layer'', 57575),
       (''level_tp_per_layer'', 0),
       (''tiny_segment_per_layer'', 0),
       (''token_cp_exchange'', 21),
       (''token_per_rank'', 23664),
       (''token_tp_collective'', 540)],
      ca_devices = [h200_class],
      ca_dtypes = attention_dtypes,
      ca_geometries = [qwen3_8b_geometry],
      ca_shapes = attention_shapes @ [shape2 1 4],
      ca_withheld = [], ca_reranked = [], ca_reranker = None\<rparr>"

definition qwen3_14b_geometry :: "model_geometry" where
  "qwen3_14b_geometry =
     attention_geometry 5120 17408 40 8 128"

definition dense_attn_h5120_table :: "calibrated_table" where
  "dense_attn_h5120_table =
     \<lparr>ca_id = ''dense-attn-h5120-h200-bf16'',
      ca_coefficients = 
      [(''attention_token_cp_exchange'', 27),
       (''gdn_level'', 0),
       (''gdn_level_tp'', 0),
       (''gdn_token_per_rank'', 0),
       (''level_cp_per_layer'', 100249),
       (''level_tp_per_layer'', 0),
       (''tiny_segment_per_layer'', 10843),
       (''token_cp_exchange'', 106),
       (''token_per_rank'', 9263),
       (''token_tp_collective'', 918)],
      ca_devices = [h200_class],
      ca_dtypes = attention_dtypes,
      ca_geometries = [qwen3_14b_geometry],
      ca_shapes = attention_shapes @ [shape2 1 4, shape2 2 2],
      ca_withheld = [], ca_reranked = [], ca_reranker = None\<rparr>"

definition attn_moe_h2048_geometry :: "model_geometry" where
  "attn_moe_h2048_geometry =
     (attention_geometry 2048 6144 32 4 128)\<lparr>moe_experts := 128, moe_topk := 8, moe_ffn_hidden_size := 768, moe_shared_expert_ffn := 0\<rparr>"

definition attn_moe_h2048_table :: "calibrated_table" where
  "attn_moe_h2048_table =
     \<lparr>ca_id = ''attn-moe-h2048-h200-bf16'',
      ca_coefficients = 
      [(''attention_token_cp_exchange'', 0),
       (''gdn_level'', 0),
       (''gdn_level_tp'', 0),
       (''gdn_token_per_rank'', 0),
       (''level_cp_per_layer'', 0),
       (''level_tp_per_layer'', 0),
       (''tiny_segment_per_layer'', 0),
       (''token_cp_exchange'', 163),
       (''token_per_rank'', 6648),
       (''token_tp_collective'', 105)],
      ca_devices = [h200_class],
      ca_dtypes = [''torch.bfloat16''],
      ca_geometries = [attn_moe_h2048_geometry],
      ca_shapes = [shape2 1 1, shape2 1 2, shape3 1 2 2, shape2 2 1, shape3 2 1 2],
      ca_withheld = [], ca_reranked = [], ca_reranker = None\<rparr>"

definition qwen35_27b_geometry :: "model_geometry" where
  "qwen35_27b_geometry =
     (attention_geometry 5120 17408 24 4 256)\<lparr>gdn_value_heads := 48, gdn_key_heads := 16, gdn_key_head_dim := 128, gdn_value_head_dim := 128, gdn_conv_kernel := 4\<rparr>"

definition dense_gdn_h5120_table :: "calibrated_table" where
  "dense_gdn_h5120_table =
     \<lparr>ca_id = ''dense-gdn-h5120-h200-bf16'',
      ca_coefficients = 
      [(''attention_token_cp_exchange'', 0),
       (''gdn_level'', 2987709),
       (''gdn_level_tp'', 0),
       (''gdn_token_per_rank'', 0),
       (''level_cp_per_layer'', 0),
       (''level_tp_per_layer'', 212167),
       (''tiny_segment_per_layer'', 197090),
       (''token_cp_exchange'', 191),
       (''token_per_rank'', 5755),
       (''token_tp_collective'', 817)],
      ca_devices = [h200_class],
      ca_dtypes = [''torch.bfloat16''],
      ca_geometries = [qwen35_27b_geometry],
      ca_shapes = [shape2 1 1, shape2 1 2, shape2 1 4, shape2 2 1],
      ca_withheld = [], ca_reranked = [], ca_reranker = None\<rparr>"

definition calibrated_tables :: "calibrated_table list" where
  "calibrated_tables =
     [dense_h2560_table, gdn_moe_h2048_table, dense_attn_h2048_table, dense_attn_h4096_table, dense_attn_h5120_table, attn_moe_h2048_table, dense_gdn_h5120_table]"

definition default_table :: "calibrated_table" where
  "default_table =
     dense_h2560_table"

section \<open>Choosing a table\<close>

definition coefficient_version :: int where
  "coefficient_version = 2"

definition coefficient_version_fallback :: int where
  "coefficient_version_fallback = 1"

record scoring_selection =
  se_version :: int
  se_table :: "string option"
  se_coefficients :: "coefficient_table option"
  se_reranker :: "re_ranker option"

fun select_table :: "runtime \<Rightarrow> calibrated_table list \<Rightarrow> scoring_selection result" where
  "select_table r [] =
     Inr \<lparr>se_version = coefficient_version_fallback, se_table = None, se_coefficients = None, se_reranker = None\<rparr>"
| "select_table r (t # ts) =
     (if table_admits t r
      then Inr \<lparr>se_version = coefficient_version, se_table = Some (ca_id t), se_coefficients = Some (ca_coefficients t),
             se_reranker = None\<rparr>
      else if table_reranks t r
      then (case ca_reranker t of
          None \<Rightarrow> Inl (AssertionError '''')
        | Some rr \<Rightarrow> Inr \<lparr>se_version = coefficient_version, se_table = Some (ca_id t),
            se_coefficients = Some (rr_coefficients rr), se_reranker = Some rr\<rparr>)
      else select_table r ts)"

definition select_scoring ::
  "(int \<times> int) option \<Rightarrow> int option \<Rightarrow> string \<Rightarrow> model_geometry \<Rightarrow> parallel_shape \<Rightarrow> scoring_selection result" where
  "select_scoring capability memory_bytes dtype geometry shape =
     (case capability of
        None \<Rightarrow> Inr \<lparr>se_version = coefficient_version, se_table = Some (ca_id default_table),
          se_coefficients = Some (ca_coefficients default_table), se_reranker = None\<rparr>
      | Some c \<Rightarrow> select_table \<lparr>rt_device = for_device c memory_bytes, rt_dtype = dtype, rt_geometry = geometry,
          rt_shape = shape\<rparr> calibrated_tables)"

section \<open>Scores\<close>

definition v1_first_shared :: int where "v1_first_shared = 768"

definition v1_excess_depth :: int where "v1_excess_depth = 256"

definition layout_score_v1 :: "prefix_tree_layout \<Rightarrow> int \<Rightarrow> int \<Rightarrow> bool \<Rightarrow> int list" where
  "layout_score_v1 layout cp_size layers uses_gdn =
     (let cp = max 1 cp_size;
          layer_count = max 1 layers;
          segment_count = int (ly_count layout);
          parent_edges = int (card (ly_selected layout));
          packed_tokens = int (ly_packed layout);
          maximum_depth = int (ly_depth layout);
          transformer = packed_tokens * work_per_us;
          imbalance = ((packed_tokens + cp - 1) div cp) * (96 + 32 * cp);
          launch = segment_count * (96 + 32 * cp) * work_per_us;
          exchanges = parent_edges * (64 + 32 * cp) * work_per_us;
          gdn_work = (if uses_gdn
            then min 1 (max 0 (maximum_depth - 1)) * layer_count * v1_first_shared * work_per_us
                 + max 0 (maximum_depth - 2) * layer_count * v1_excess_depth * work_per_us
            else 0) in
      [layer_count * transformer + (imbalance + launch + exchanges + gdn_work), packed_tokens, segment_count, maximum_depth])"

definition predicted_work :: "layout_features \<Rightarrow> scoring_facts \<Rightarrow> coefficient_table option \<Rightarrow> int result" where
  "predicted_work f m coefficients =
     score_terms f m (case coefficients of None \<Rightarrow> coefficients_milli_us | Some c \<Rightarrow> c)"

definition scoring_facts_of :: "int \<Rightarrow> int \<Rightarrow> int \<Rightarrow> int option \<Rightarrow> bool \<Rightarrow> scoring_facts" where
  "scoring_facts_of cp_size tp_size layers gdn_layers uses_gdn =
     \<lparr>sf_cp = max 1 cp_size, sf_tp = max 1 tp_size, sf_layers = max 1 layers,
      sf_gdn = (case gdn_layers of Some g \<Rightarrow> max 0 g | None \<Rightarrow> if uses_gdn then max 1 layers else 0)\<rparr>"

record score_config =
  cf_cp :: int
  cf_layers :: int
  cf_uses_gdn :: bool
  cf_tp :: int
  cf_gdn :: "int option"
  cf_version :: int
  cf_coefficients :: "coefficient_table option"

definition prefix_tree_layout_score :: "score_config \<Rightarrow> prefix_tree_layout \<Rightarrow> int list result" where
  "prefix_tree_layout_score c layout =
     (if cf_version c = coefficient_version_fallback
      then Inr (layout_score_v1 layout (cf_cp c) (cf_layers c) (cf_uses_gdn c))
      else ensure (cf_version c = coefficient_version) (ValueError ''unknown coefficient version'')
       (bindE (layout_features_of layout) (\<lambda>f.
        bindE (predicted_work f (scoring_facts_of (cf_cp c) (cf_tp c) (cf_layers c) (cf_gdn c) (cf_uses_gdn c))
            (cf_coefficients c)) (\<lambda>work.
        Inr [work, int (ly_packed layout), lf_count f, int (ly_depth layout)]))))"

section \<open>The histogram\<close>

definition segment_size :: "planned_segment \<Rightarrow> int" where
  "segment_size s = int (ps_end s) - int (ps_start s)"

definition shorter :: "planned_segment list \<Rightarrow> int \<Rightarrow> int" where
  "shorter segs threshold = int (length (filter (\<lambda>s. segment_size s < threshold) segs))"

lemma shorter_simps [simp]:
  "shorter [] t = 0" "shorter (s # segs) t = (if segment_size s < t then 1 else 0) + shorter segs t"
  by (simp_all add: shorter_def)

lemma shorter_mono: "t \<le> u \<Longrightarrow> shorter segs t \<le> shorter segs u"
  by (induction segs) auto

lemma count_segment_map:
  "count_segment s (n, map g segment_length_thresholds) =
     (n + 1, map (\<lambda>t. (if segment_size s < t then 1 else 0) + g t) segment_length_thresholds)"
  by (simp add: count_segment_def Let_def segment_length_thresholds_def segment_size_def)

lemma fold_count_segment:
  "fold count_segment segs (n, map g segment_length_thresholds) =
     (n + int (length segs), map (\<lambda>t. g t + shorter segs t) segment_length_thresholds)"
proof (induction segs arbitrary: n g)
  case (Cons s segs)
  show ?case unfolding fold.simps comp_apply count_segment_map Cons.IH by (simp add: algebra_simps)
qed simp

lemma layout_features_Inr:
  assumes "ly_segments ly = Inr segs"
  shows "layout_features_of ly = Inr \<lparr>lf_packed = int (ly_packed ly), lf_count = int (length segs),
    lf_depth = int (ly_depth ly), lf_below = map (shorter segs) segment_length_thresholds\<rparr>"
  using fold_count_segment [of segs 0 "\<lambda>_. 0"] by (simp add: layout_features_of_def assms)

text \<open>The bucket a query reads: the least threshold that reaches it, else the last one.\<close>

definition bucket :: "int \<Rightarrow> int" where
  "bucket t = (case find (\<lambda>threshold. threshold \<ge> t) segment_length_thresholds of Some b \<Rightarrow> b | None \<Rightarrow> last segment_length_thresholds)"

lemma find_zip_map: "find (\<lambda>(x, y). P x) (zip xs (map g xs)) = map_option (\<lambda>x. (x, g x)) (find P xs)"
  by (induction xs) auto

lemma features_below_map:
  assumes "lf_below f = map g segment_length_thresholds"
  shows "features_below f t = g (bucket t)"
proof -
  have "map g segment_length_thresholds \<noteq> []" "last (map g segment_length_thresholds) = g (last segment_length_thresholds)"
    by (simp_all add: segment_length_thresholds_def)
  then show ?thesis
    unfolding features_below_def assms find_zip_map bucket_def
    by (cases "find (\<lambda>threshold. threshold \<ge> t) segment_length_thresholds") simp_all
qed

lemma bucket_cases:
  "t \<le> 8192 \<Longrightarrow> t \<le> bucket t" and "8192 < t \<Longrightarrow> bucket t = 8192"
  "b \<in> set segment_length_thresholds \<Longrightarrow> t \<le> b \<Longrightarrow> bucket t \<le> b"
  by (auto simp: bucket_def segment_length_thresholds_def)

text \<open>
  C22. The features of a layout are exact: for every share/replay decision, the features
  exist, the segment count agrees with the one predicted without building the segments,
  and a query below \<open>t\<close> tokens counts exactly the planned segments shorter than the
  least histogram threshold that reaches \<open>t\<close> (the last threshold beyond 8192), hence at
  least those shorter than \<open>t\<close> as long as \<open>t\<close> is in range.
\<close>

theorem layout_features_exact:
  assumes "build_canonical_prefix_tree digest rs = Inr tree" and "S \<subseteq> set (ct_decisions tree)"
  shows "\<exists>ly segs f. plan_prefix_tree_layout digest tree S = Inr ly \<and> ly_segments ly = Inr segs \<and>
    layout_features_of ly = Inr f \<and> lf_count f = int (ly_count ly) \<and> lf_packed f = int (ly_packed ly) \<and>
    (\<forall>t. features_below f t = int (length (filter (\<lambda>s. segment_size s < bucket t) segs))) \<and>
    (\<forall>t \<le> 8192. int (length (filter (\<lambda>s. segment_size s < t) segs)) \<le> features_below f t)"
proof -
  obtain ly segs where ly: "plan_prefix_tree_layout digest tree S = Inr ly" "ly_segments ly = Inr segs"
    "ly_count ly = length segs"
    by (rule layout_facts [OF build_canonical_Inr(3) [OF assms(1)] assms(2), of digest])
  let ?f = "\<lparr>lf_packed = int (ly_packed ly), lf_count = int (length segs),
    lf_depth = int (ly_depth ly), lf_below = map (shorter segs) segment_length_thresholds\<rparr>"
  have below: "features_below ?f t = shorter segs (bucket t)" for t by (rule features_below_map) simp
  have "shorter segs t \<le> features_below ?f t" if "t \<le> 8192" for t
    unfolding below by (rule shorter_mono [OF bucket_cases(1) [OF that]])
  then show ?thesis
    by (intro exI [of _ ly] exI [of _ segs] exI [of _ ?f])
      (use ly layout_features_Inr [OF ly(2)] below in \<open>simp add: shorter_def\<close>)
qed

theorem layout_features_exact_witness:
  "\<exists>ly segs f. plan_prefix_tree_layout (\<lambda>p. ''d'')
      (projr (build_canonical_prefix_tree (\<lambda>p. ''d'') [[1, 2, 3], [1, 2, 4]])) {0} = Inr ly \<and>
    ly_segments ly = Inr segs \<and> layout_features_of ly = Inr f \<and> lf_count f = int (ly_count ly)"
proof -
  let ?tree = "projr (build_canonical_prefix_tree (\<lambda>p. ''d'') [[1, 2, 3], [1, 2, 4]])"
  have tree: "build_canonical_prefix_tree (\<lambda>p. ''d'') [[1, 2, 3], [1, 2, 4]] = Inr ?tree"
    and "{0} \<subseteq> set (ct_decisions ?tree)" by (simp_all add: canonical_example)
  from layout_features_exact [OF this] show ?thesis by metis
qed

section \<open>Admission\<close>

definition table_ok :: "calibrated_table \<Rightarrow> bool" where
  "table_ok t \<longleftrightarrow> check_table t = Inr t \<and> ca_reranker t = None \<and>
     list_all (\<lambda>c. fst c \<in> set (map fst term_functions) \<and> 0 \<le> snd c) (ca_coefficients t)"

lemmas table_defs = dense_h2560_table_def gdn_moe_h2048_table_def dense_attn_h2048_table_def dense_attn_h4096_table_def
  dense_attn_h5120_table_def attn_moe_h2048_table_def dense_gdn_h5120_table_def

lemmas geometry_defs = qwen35_4b_geometry_def qwen3_4b_geometry_def gdn_moe_h2048_geometry_def qwen3_1_7b_geometry_def
  qwen3_8b_geometry_def qwen3_14b_geometry_def attn_moe_h2048_geometry_def qwen35_27b_geometry_def attention_geometry_def

lemma tables_ok: "t \<in> set calibrated_tables \<Longrightarrow> table_ok t"
  by (auto simp: calibrated_tables_def table_ok_def table_defs check_table_def term_functions_def coefficients_milli_us_def)

lemma default_ok: "table_ok default_table"
  by (rule tables_ok) (simp add: default_table_def calibrated_tables_def)

lemma geometries_distinct: "distinct (concat (map ca_geometries calibrated_tables))"
  by (simp add: calibrated_tables_def table_defs geometry_defs)

lemma distinct_concat_unique:
  "distinct (concat (map f ts)) \<Longrightarrow> t \<in> set ts \<Longrightarrow> u \<in> set ts \<Longrightarrow> x \<in> set (f t) \<Longrightarrow> x \<in> set (f u) \<Longrightarrow> t = u"
  by (induction ts) auto

section \<open>Terms are monotone\<close>

text \<open>One layout costs no more than another in every quantity the terms read.\<close>

definition features_le :: "layout_features \<Rightarrow> layout_features \<Rightarrow> bool" where
  "features_le f g \<longleftrightarrow> lf_packed f \<le> lf_packed g \<and> lf_depth f \<le> lf_depth g \<and> (\<forall>t. features_below f t \<le> features_below g t)"

definition features_ok :: "layout_features \<Rightarrow> bool" where
  "features_ok f \<longleftrightarrow> 0 \<le> lf_packed f \<and> (\<forall>t. 0 \<le> features_below f t)"

definition facts_ok :: "scoring_facts \<Rightarrow> bool" where
  "facts_ok m \<longleftrightarrow> 0 \<le> sf_layers m \<and> 0 \<le> sf_gdn m"

definition table_usable :: "coefficient_table \<Rightarrow> bool" where
  "table_usable cs \<longleftrightarrow> (\<forall>c \<in> set cs. fst c \<in> set (map fst term_functions) \<and> 0 \<le> snd c)"

lemmas term_defs = token_per_rank_def token_cp_exchange_def token_tp_collective_def gdn_token_per_rank_def
  attention_token_cp_exchange_def tiny_segment_per_layer_def level_cp_per_layer_def level_tp_per_layer_def
  gdn_level_def gdn_level_tp_def

lemma facts_ranks_pos: "0 < facts_ranks m"
  unfolding facts_ranks_def by (intro mult_pos_pos) (simp_all add: less_max_iff_disj)

lemma levels_mono: "lf_depth f \<le> lf_depth g \<Longrightarrow> levels f \<le> levels g"
  by (simp add: levels_def)

lemma levels_nonneg: "0 \<le> levels f"
  by (simp add: levels_def)

lemma scaled_mono: "a \<le> b \<Longrightarrow> 0 \<le> w \<Longrightarrow> 0 < d \<Longrightarrow> a * w * work_per_us div d \<le> b * w * work_per_us div (d :: int)"
  by (intro zdiv_mono1 mult_right_mono) (simp_all add: work_per_us_def)

lemma scaled_nonneg: "0 \<le> a \<Longrightarrow> 0 \<le> w \<Longrightarrow> 0 < d \<Longrightarrow> 0 \<le> a * w * work_per_us div (d :: int)"
  by (simp add: work_per_us_def pos_imp_zdiv_nonneg_iff)

lemma product_mono: "a \<le> b \<Longrightarrow> 0 \<le> w \<Longrightarrow> a * w * work_per_us \<le> b * w * work_per_us"
  using scaled_mono [of a b w 1] by simp

lemma product_nonneg: "0 \<le> a \<Longrightarrow> 0 \<le> w \<Longrightarrow> 0 \<le> a * w * work_per_us"
  by (simp add: work_per_us_def)

text \<open>The shape all ten terms have.\<close>

lemma term_forms:
  "token_per_rank f m = lf_packed f * sf_layers m * work_per_us div facts_ranks m"
  "token_cp_exchange f m = lf_packed f * (sf_layers m * (max 1 (sf_cp m) - 1)) * work_per_us div max 1 (sf_cp m)"
  "token_tp_collective f m = lf_packed f * (sf_layers m * (max 1 (sf_tp m) - 1)) * work_per_us div max 1 (sf_tp m)"
  "gdn_token_per_rank f m = lf_packed f * sf_gdn m * work_per_us div facts_ranks m"
  "attention_token_cp_exchange f m =
     lf_packed f * (max 0 (sf_layers m - sf_gdn m) * (max 1 (sf_cp m) - 1)) * work_per_us div max 1 (sf_cp m)"
  "tiny_segment_per_layer f m = features_below f (tiny_segment_tokens * max 1 (sf_cp m)) * sf_layers m * work_per_us"
  "level_cp_per_layer f m = levels f * (sf_layers m * (max 1 (sf_cp m) - 1)) * work_per_us"
  "level_tp_per_layer f m = levels f * (sf_layers m * (max 1 (sf_tp m) - 1)) * work_per_us"
  "gdn_level f m = levels f * sf_gdn m * work_per_us"
  "gdn_level_tp f m = levels f * (sf_gdn m * (max 1 (sf_tp m) - 1)) * work_per_us"
  by (simp_all add: term_defs Let_def mult.assoc)

lemma weights_nonneg:
  assumes "facts_ok m"
  shows "0 \<le> sf_layers m" "0 \<le> sf_gdn m" "0 \<le> sf_layers m * (max 1 (sf_cp m) - 1)" "0 \<le> sf_layers m * (max 1 (sf_tp m) - 1)"
    "0 \<le> max 0 (sf_layers m - sf_gdn m) * (max 1 (sf_cp m) - 1)" "0 \<le> sf_gdn m * (max 1 (sf_tp m) - 1)"
  using assms by (simp_all add: facts_ok_def)

lemma term_mono:
  assumes "(name, g) \<in> set term_functions" and "features_le f f'" and "facts_ok m"
  shows "g f m \<le> g f' m"
proof -
  have le: "lf_packed f \<le> lf_packed f'" "levels f \<le> levels f'" "features_below f t \<le> features_below f' t" for t
    using assms(2) by (simp_all add: features_le_def levels_mono)
  have pos: "0 < max 1 (x :: int)" for x by (simp add: less_max_iff_disj)
  show ?thesis using assms(1) unfolding term_functions_def
    by (simp; elim disjE conjE; simp only: term_forms;
      intro scaled_mono product_mono le weights_nonneg [OF assms(3)] facts_ranks_pos pos)
qed

lemma term_nonneg:
  assumes "(name, g) \<in> set term_functions" and "features_ok f" and "facts_ok m"
  shows "0 \<le> g f m"
proof -
  have le: "0 \<le> lf_packed f" "0 \<le> levels f" "0 \<le> features_below f t" for t
    using assms(2) by (simp_all add: features_ok_def levels_nonneg)
  have pos: "0 < max 1 (x :: int)" for x by (simp add: less_max_iff_disj)
  show ?thesis using assms(1) unfolding term_functions_def
    by (simp; elim disjE conjE; simp only: term_forms;
      intro scaled_nonneg product_nonneg le weights_nonneg [OF assms(3)] facts_ranks_pos pos)
qed

definition term_value :: "layout_features \<Rightarrow> scoring_facts \<Rightarrow> string \<times> int \<Rightarrow> int" where
  "term_value f m c = the (map_of term_functions (fst c)) f m * snd c"

lemma term_known: "n \<in> set (map fst term_functions) \<Longrightarrow> \<exists>g. map_of term_functions n = Some g \<and> (n, g) \<in> set term_functions"
  by (metis map_of_SomeD map_of_eq_None_iff list.set_map not_None_eq)

lemma score_terms_Inr:
  assumes "table_usable cs"
  shows "score_terms f m cs = Inr (sum_list (map (term_value f m) (filter (\<lambda>c. snd c \<noteq> 0) cs)))"
proof -
  have "mapE (score_term f m) (filter (\<lambda>c. snd c \<noteq> 0) cs) = Inr (map (term_value f m) (filter (\<lambda>c. snd c \<noteq> 0) cs))"
  proof (rule mapE_Inr_map)
    fix c assume "c \<in> set (filter (\<lambda>c. snd c \<noteq> 0) cs)"
    then have "fst c \<in> set (map fst term_functions)" using assms unfolding table_usable_def set_filter by blast
    with term_known obtain g where "map_of term_functions (fst c) = Some g" by blast
    then show "score_term f m c = Inr (term_value f m c)" by (simp add: score_term_def term_value_def)
  qed
  then show ?thesis by (simp only: score_terms_def bindE_simps)
qed

lemma term_value_bounds:
  assumes "table_usable cs" and "c \<in> set cs" and "facts_ok m"
  shows "features_le f f' \<Longrightarrow> term_value f m c \<le> term_value f' m c"
    and "features_ok f \<Longrightarrow> 0 \<le> term_value f m c"
proof -
  have c: "fst c \<in> set (map fst term_functions)" "0 \<le> snd c" using assms(1,2) unfolding table_usable_def by blast+
  obtain g where g: "map_of term_functions (fst c) = Some g" "(fst c, g) \<in> set term_functions" using term_known [OF c(1)] by blast
  show "term_value f m c \<le> term_value f' m c" if "features_le f f'"
    using term_mono [OF g(2) that assms(3)] c(2) by (simp add: term_value_def g(1) mult_right_mono)
  show "0 \<le> term_value f m c" if "features_ok f"
    using term_nonneg [OF g(2) that assms(3)] c(2) by (simp add: term_value_def g(1))
qed

lemma work_bounds:
  assumes "table_usable (case coefficients of None \<Rightarrow> coefficients_milli_us | Some cs \<Rightarrow> cs)"
    and "facts_ok m" and "features_ok f" and "features_le f f'"
  shows "\<exists>w w'. predicted_work f m coefficients = Inr w \<and> predicted_work f' m coefficients = Inr w' \<and> 0 \<le> w \<and> w \<le> w'"
proof -
  let ?cs = "case coefficients of None \<Rightarrow> coefficients_milli_us | Some cs \<Rightarrow> cs"
  let ?kept = "filter (\<lambda>c. snd c \<noteq> 0) ?cs"
  have kept: "c \<in> set ?cs" if "c \<in> set ?kept" for c using that by simp
  have "0 \<le> sum_list (map (term_value f m) ?kept)"
    by (rule sum_list_nonneg) (use term_value_bounds(2) [OF assms(1) kept assms(2,3)] in auto)
  moreover have "sum_list (map (term_value f m) ?kept) \<le> sum_list (map (term_value f' m) ?kept)"
    by (rule sum_list_mono) (use term_value_bounds(1) [OF assms(1) kept assms(2,4)] in blast)
  ultimately show ?thesis unfolding predicted_work_def score_terms_Inr [OF assms(1)] by blast
qed

text \<open>
  C23. The cost model is monotone: under a table that names known terms with
  nonnegative coefficients (every calibrated table does), a layout that has no more packed
  tokens, no more levels and no more short segments in any bucket is never priced
  higher, on every topology; prices exist and are not negative.
\<close>

theorem predicted_work_monotone:
  assumes "table_usable (case coefficients of None \<Rightarrow> coefficients_milli_us | Some cs \<Rightarrow> cs)"
    and "facts_ok m" and "features_ok f" and "features_le f f'"
  shows "\<exists>w w'. predicted_work f m coefficients = Inr w \<and> predicted_work f' m coefficients = Inr w' \<and> 0 \<le> w \<and> w \<le> w'"
  using assms by (rule work_bounds)

theorem predicted_work_monotone_witness:
  "\<exists>w w'. predicted_work \<lparr>lf_packed = 4, lf_count = 3, lf_depth = 2, lf_below = [3, 3, 3, 3, 3, 3, 3, 3]\<rparr>
       (scoring_facts_of 2 1 4 None True) None = Inr w \<and>
     predicted_work \<lparr>lf_packed = 6, lf_count = 3, lf_depth = 2, lf_below = [3, 3, 3, 3, 3, 3, 3, 3]\<rparr>
       (scoring_facts_of 2 1 4 None True) None = Inr w' \<and> w \<le> w'"
proof -
  have below: "features_below \<lparr>lf_packed = p, lf_count = 3, lf_depth = 2, lf_below = [3, 3, 3, 3, 3, 3, 3, 3]\<rparr> t = 3" for p t
    by (rule features_below_map) (simp add: segment_length_thresholds_def)
  have "table_usable (case None of None \<Rightarrow> coefficients_milli_us | Some cs \<Rightarrow> cs)"
    by (simp add: table_usable_def coefficients_milli_us_def term_functions_def)
  from predicted_work_monotone [OF this, of "scoring_facts_of 2 1 4 None True"
      "\<lparr>lf_packed = 4, lf_count = 3, lf_depth = 2, lf_below = [3, 3, 3, 3, 3, 3, 3, 3]\<rparr>"
      "\<lparr>lf_packed = 6, lf_count = 3, lf_depth = 2, lf_below = [3, 3, 3, 3, 3, 3, 3, 3]\<rparr>"] below
  show ?thesis by (simp add: features_ok_def features_le_def facts_ok_def scoring_facts_of_def) blast
qed

section \<open>The score of a planned layout\<close>

lemma table_ok_usable: "table_ok t \<Longrightarrow> table_usable (ca_coefficients t)"
  by (auto simp: table_ok_def table_usable_def list_all_iff)

definition config_ok :: "score_config \<Rightarrow> bool" where
  "config_ok c \<longleftrightarrow> cf_version c = 1 \<or> (cf_version c = 2 \<and> table_usable (case cf_coefficients c of None \<Rightarrow> coefficients_milli_us | Some cs \<Rightarrow> cs))"

lemma facts_of_ok: "facts_ok (scoring_facts_of cp tp layers gdn uses)"
  by (cases gdn) (simp_all add: facts_ok_def scoring_facts_of_def)

lemma layout_score_exists:
  assumes cfg: "config_ok c" and segs: "ly_segments ly = Inr segs" "ly_count ly = length segs"
  shows "\<exists>w. 0 \<le> w \<and> prefix_tree_layout_score c ly = Inr [w, int (ly_packed ly), int (ly_count ly), int (ly_depth ly)]"
proof (cases "cf_version c = 1")
  case True
  have "0 \<le> (int (ly_packed ly) + max 1 (cf_cp c) - 1) div max 1 (cf_cp c) * (96 + 32 * max 1 (cf_cp c))"
    by (intro mult_nonneg_nonneg) (simp_all add: pos_imp_zdiv_nonneg_iff)
  with True show ?thesis
    by (simp add: prefix_tree_layout_score_def coefficient_version_fallback_def layout_score_v1_def Let_def
      work_per_us_def v1_first_shared_def v1_excess_depth_def)
next
  case False
  then have v: "cf_version c = 2" and t: "table_usable (case cf_coefficients c of None \<Rightarrow> coefficients_milli_us | Some cs \<Rightarrow> cs)"
    using cfg by (auto simp: config_ok_def)
  let ?f = "\<lparr>lf_packed = int (ly_packed ly), lf_count = int (length segs),
    lf_depth = int (ly_depth ly), lf_below = map (shorter segs) segment_length_thresholds\<rparr>"
  let ?m = "scoring_facts_of (cf_cp c) (cf_tp c) (cf_layers c) (cf_gdn c) (cf_uses_gdn c)"
  have below: "features_below ?f u = shorter segs (bucket u)" for u by (rule features_below_map) simp
  then have "features_ok ?f" "features_le ?f ?f" by (simp_all add: features_ok_def features_le_def shorter_def)
  from work_bounds [OF t facts_of_ok this] obtain w where
    w: "predicted_work ?f ?m (cf_coefficients c) = Inr w" "0 \<le> w" by blast
  have "prefix_tree_layout_score c ly = Inr [w, int (ly_packed ly), int (ly_count ly), int (ly_depth ly)]"
    unfolding prefix_tree_layout_score_def layout_features_Inr [OF segs(1)] bindE_simps w(1)
    using v segs(2) by (simp add: coefficient_version_def coefficient_version_fallback_def)
  with w(2) show ?thesis by blast
qed

definition fallback_selection :: scoring_selection where
  "fallback_selection = \<lparr>se_version = 1, se_table = None, se_coefficients = None, se_reranker = None\<rparr>"

definition table_selection :: "calibrated_table \<Rightarrow> scoring_selection" where
  "table_selection t = \<lparr>se_version = 2, se_table = Some (ca_id t), se_coefficients = Some (ca_coefficients t), se_reranker = None\<rparr>"

lemma select_table_first:
  assumes "\<forall>t \<in> set ts. ca_reranker t = None"
  shows "select_table r ts = Inr (case filter (\<lambda>t. table_admits t r) ts of [] \<Rightarrow> fallback_selection | t # us \<Rightarrow> table_selection t)"
  using assms
  by (induction ts) (simp_all add: fallback_selection_def table_selection_def table_reranks_def
    coefficient_version_def coefficient_version_fallback_def)

lemma admitted_unique:
  assumes "t \<in> set calibrated_tables" "u \<in> set calibrated_tables" "table_admits t r" "table_admits u r"
  shows "t = u"
  by (rule distinct_concat_unique [OF geometries_distinct assms(1,2), of "rt_geometry r"])
    (use assms(3,4) in \<open>simp_all add: table_admits_def admits_class_def\<close>)

lemma tables_distinct: "distinct calibrated_tables"
proof -
  have "distinct (map ca_id calibrated_tables)" by (simp add: calibrated_tables_def table_defs)
  then show ?thesis by (simp add: distinct_map)
qed

lemma at_most_one:
  assumes "distinct xs" and "\<And>x y. x \<in> set xs \<Longrightarrow> y \<in> set xs \<Longrightarrow> x = y"
  shows "length xs \<le> 1"
proof -
  have "card (set xs) \<le> 1" using assms(2) by (metis card_le_Suc0_iff_eq finite_set One_nat_def)
  with distinct_card [OF assms(1)] show ?thesis by simp
qed

lemma table_devices: "t \<in> set calibrated_tables \<Longrightarrow> ca_devices t = [h200_class]"
proof -
  have "list_all (\<lambda>t. ca_devices t = [h200_class]) calibrated_tables" by (simp add: calibrated_tables_def table_defs)
  then show "t \<in> set calibrated_tables \<Longrightarrow> ca_devices t = [h200_class]" by (simp add: list_all_iff)
qed

lemma small_memory_rejected:
  assumes "t \<in> set calibrated_tables" and "b < 120 * 1024 ^ 3"
  shows "\<not> table_admits t \<lparr>rt_device = for_device c (Some b), rt_dtype = dtype, rt_geometry = geometry, rt_shape = shape\<rparr>"
proof -
  have "memory_class_for (Some b) \<noteq> Some Hbm_141g" "memory_class_for (Some b) \<noteq> None"
    using assms(2) by (simp_all add: memory_class_for_def)
  then show ?thesis
    by (simp add: table_admits_def admits_class_def table_devices [OF assms(1)] device_admits_def for_device_def h200_class_def)
qed

definition admitting_tables :: "int \<times> int \<Rightarrow> int option \<Rightarrow> string \<Rightarrow> model_geometry \<Rightarrow> parallel_shape \<Rightarrow> calibrated_table list" where
  "admitting_tables c memory dtype geometry shape =
     filter (\<lambda>t. table_admits t \<lparr>rt_device = for_device c memory, rt_dtype = dtype,
       rt_geometry = geometry, rt_shape = shape\<rparr>) calibrated_tables"

text \<open>
  C24. The choice of the score is a total function of the runtime: every calibrated table
  passes its constructor's checks, at most one of them admits a runtime (so their order
  does not matter), that one is selected, and without one the version-1 fallback is; a
  device with less than 120 GiB (the 80 GB class that shares its capability) always gets
  the fallback, and a runtime without a device the default table.
\<close>

theorem scoring_selection_exact:
  "list_all (\<lambda>t. check_table t = Inr t) calibrated_tables \<and>
    length (admitting_tables c memory dtype geometry shape) \<le> 1 \<and>
    select_scoring (Some c) memory dtype geometry shape =
      Inr (case admitting_tables c memory dtype geometry shape of [] \<Rightarrow> fallback_selection | t # us \<Rightarrow> table_selection t) \<and>
    (\<forall>b < 120 * 1024 ^ 3. select_scoring (Some c) (Some b) dtype geometry shape = Inr fallback_selection) \<and>
    select_scoring None memory dtype geometry shape = Inr (table_selection default_table)"
proof -
  have sel: "select_scoring (Some c) memory dtype geometry shape =
      Inr (case admitting_tables c memory dtype geometry shape of [] \<Rightarrow> fallback_selection | t # us \<Rightarrow> table_selection t)" for memory
    unfolding select_scoring_def option.case admitting_tables_def
    by (rule select_table_first) (use tables_ok in \<open>auto simp: table_ok_def\<close>)
  have one: "length (admitting_tables c memory dtype geometry shape) \<le> 1"
    unfolding admitting_tables_def
    by (rule at_most_one) (use tables_distinct admitted_unique in \<open>auto simp: set_filter\<close>)
  have "admitting_tables c (Some b) dtype geometry shape = []" if "b < 120 * 1024 ^ 3" for b
    using small_memory_rejected [OF _ that] by (simp add: admitting_tables_def filter_empty_conv)
  then have small: "\<forall>b < 120 * 1024 ^ 3. select_scoring (Some c) (Some b) dtype geometry shape = Inr fallback_selection"
    using sel by simp
  have "list_all (\<lambda>t. check_table t = Inr t) calibrated_tables" using tables_ok by (simp add: list_all_iff table_ok_def)
  with one sel small show ?thesis by (simp add: select_scoring_def table_selection_def coefficient_version_def)
qed

theorem scoring_selection_exact_witness:
  "select_scoring (Some (9, 0)) (Some (80 * 1024 ^ 3)) ''torch.bfloat16'' qwen3_8b_geometry (shape2 1 2) = Inr fallback_selection"
  using scoring_selection_exact [where c = "(9, 0)" and dtype = "''torch.bfloat16''" and geometry = qwen3_8b_geometry and shape = "shape2 1 2" and memory = None,
      THEN conjunct2, THEN conjunct2, THEN conjunct2, THEN conjunct1]
  by simp

lemma selection_example:
  "select_scoring (Some (9, 0)) (Some (141 * 1024 ^ 3)) ''torch.bfloat16'' qwen3_8b_geometry (shape2 1 4)
    = Inr (table_selection dense_attn_h4096_table)"
  by code_simp

definition configured :: "scoring_selection \<Rightarrow> int \<Rightarrow> int \<Rightarrow> bool \<Rightarrow> int \<Rightarrow> int option \<Rightarrow> score_config" where
  "configured sel cp layers uses_gdn tp gdn =
     \<lparr>cf_cp = cp, cf_layers = layers, cf_uses_gdn = uses_gdn, cf_tp = tp, cf_gdn = gdn,
      cf_version = se_version sel, cf_coefficients = se_coefficients sel\<rparr>"

lemma selection_config_ok:
  assumes "select_scoring capability memory dtype geometry shape = Inr sel"
  shows "config_ok (configured sel cp layers uses_gdn tp gdn)" and "se_reranker sel = None"
proof -
  have "sel = fallback_selection \<or> (\<exists>t. table_ok t \<and> sel = table_selection t)"
  proof (cases capability)
    case None
    with assms default_ok show ?thesis by (auto simp: select_scoring_def table_selection_def coefficient_version_def)
  next
    case (Some c)
    let ?r = "\<lparr>rt_device = for_device c memory, rt_dtype = dtype, rt_geometry = geometry, rt_shape = shape\<rparr>"
    let ?ts = "filter (\<lambda>t. table_admits t ?r) calibrated_tables"
    have sel: "sel = (case ?ts of [] \<Rightarrow> fallback_selection | t # us \<Rightarrow> table_selection t)"
      using assms select_table_first [of calibrated_tables ?r] tables_ok
      unfolding Some select_scoring_def option.case by (auto simp: table_ok_def)
    show ?thesis
    proof (cases ?ts)
      case (Cons t us)
      then have "t \<in> set calibrated_tables" by (metis (no_types, lifting) filter_eq_Cons_iff in_set_conv_decomp)
      with tables_ok sel Cons show ?thesis by auto
    qed (simp add: sel)
  qed
  then show "config_ok (configured sel cp layers uses_gdn tp gdn)" and "se_reranker sel = None"
    by (auto simp: config_ok_def configured_def fallback_selection_def table_selection_def table_ok_usable)
qed

text \<open>
  C25. Scoring never fails in production: under the score selected for any runtime and any
  topology, every share/replay decision of a tree is priced by a nonnegative work value
  followed by exactly the packed tokens, the segment count and the depth of the layout
  it gives, so all scores have width four.
\<close>

theorem selected_score_total:
  assumes "build_canonical_prefix_tree digest rs = Inr tree" and "S \<subseteq> set (ct_decisions tree)"
    and "select_scoring capability memory dtype geometry shape = Inr sel"
  shows "\<exists>ly w. plan_prefix_tree_layout digest tree S = Inr ly \<and> 0 \<le> w \<and>
    prefix_tree_layout_score (configured sel cp layers uses_gdn tp gdn) ly =
      Inr [w, int (ly_packed ly), int (ly_count ly), int (ly_depth ly)]"
proof -
  obtain ly segs where ly: "plan_prefix_tree_layout digest tree S = Inr ly" "ly_segments ly = Inr segs"
    "ly_count ly = length segs"
    by (rule layout_facts [OF build_canonical_Inr(3) [OF assms(1)] assms(2), of digest])
  with layout_score_exists [OF selection_config_ok(1) [OF assms(3)] ly(2,3)] show ?thesis by blast
qed

theorem selected_score_total_witness:
  "\<exists>ly w. plan_prefix_tree_layout (\<lambda>p. ''d'')
      (projr (build_canonical_prefix_tree (\<lambda>p. ''d'') [[1, 2, 3], [1, 2, 4]])) {0} = Inr ly \<and> 0 \<le> w \<and>
    prefix_tree_layout_score (configured (table_selection dense_attn_h4096_table) 4 36 False 1 None) ly =
      Inr [w, int (ly_packed ly), int (ly_count ly), int (ly_depth ly)]"
proof -
  let ?tree = "projr (build_canonical_prefix_tree (\<lambda>p. ''d'') [[1, 2, 3], [1, 2, 4]])"
  have tree: "build_canonical_prefix_tree (\<lambda>p. ''d'') [[1, 2, 3], [1, 2, 4]] = Inr ?tree"
    and S: "{0} \<subseteq> set (ct_decisions ?tree)" by (simp_all add: canonical_example)
  show ?thesis by (rule selected_score_total [OF tree S selection_example])
qed

end
