(* ===== verification/Layout_Search.thy ===== *)
theory Layout_Search
  imports Planner_Cost "HOL-Library.Product_Lexorder"
begin

text \<open>
  \<^verbatim>\<open>src/art/trainer_rank/_prefix_tree_performance_search.py\<close>: the bounded search over
  share/replay decisions, and \<^verbatim>\<open>select_prefix_tree_layout\<close> of
  \<^verbatim>\<open>_prefix_tree_planner.py\<close>, which composes the candidate family, the score and the search.
  The caller's scorer is an argument that may raise.  The orderings the dataclass caches
  are functions of the candidate.  Tuples are compared with the lexicographic orders.
\<close>

section \<open>Scored candidates\<close>

datatype search_operation = Mandatory | Flip | Share_Branch | Replay_Branch | Neighborhood_Flip

datatype stop_reason = No_Shareable_Decisions | Refinement_Budget_Exhausted | Search_Complete

datatype fixed_point_score = Score_Int int | Score_Tuple "int list"

definition normalize_score :: "fixed_point_score \<Rightarrow> int list result" where
  "normalize_score s = (case s of
     Score_Int v \<Rightarrow> Inr [v]
   | Score_Tuple vs \<Rightarrow> ensure (vs \<noteq> []) (TypeError ''layout scores must be a nonempty int tuple'') (Inr vs))"

type_synonym scorer = "prefix_tree_layout \<Rightarrow> fixed_point_score result"

record search_candidate =
  sc_candidate :: layout_candidate
  sc_score :: "int list"
  sc_mandatory :: bool
  sc_tier :: nat
  sc_operation :: search_operation
  sc_decision :: "nat option"
  sc_parent :: "nat list option"
  sc_refinement :: "nat list"

definition sc_layout :: "search_candidate \<Rightarrow> prefix_tree_layout" where
  "sc_layout c = lc_layout (sc_candidate c)"

definition sorted_decisions :: "search_candidate \<Rightarrow> nat list" where
  "sorted_decisions c = sorted_list_of_set (ly_selected (sc_layout c))"

definition dominance :: "search_candidate \<Rightarrow> int list" where
  "dominance c = sc_score c @
     [int (ly_packed (sc_layout c)), int (ly_count (sc_layout c)), int (card (ly_selected (sc_layout c))),
      int (ly_depth (sc_layout c))]"

definition beam_key :: "search_candidate \<Rightarrow> int list \<times> nat \<times> nat \<times> nat \<times> nat \<times> nat list" where
  "beam_key c = (sc_score c, ly_packed (sc_layout c), ly_count (sc_layout c), card (ly_selected (sc_layout c)),
     ly_depth (sc_layout c), sorted_decisions c)"

definition candidate_rank_key :: "search_candidate \<Rightarrow> int list \<times> nat list" where
  "candidate_rank_key c = (sc_score c, sorted_decisions c)"

section \<open>The Pareto beam\<close>

fun dominated_scan :: "int list \<Rightarrow> int list \<Rightarrow> bool \<Rightarrow> bool" where
  "dominated_scan (l # ls) (r # rs) strictly =
     (if l > r then False else dominated_scan ls rs (if l < r then True else strictly))"
| "dominated_scan ls rs strictly = strictly"

definition dominates :: "search_candidate \<Rightarrow> search_candidate \<Rightarrow> bool result" where
  "dominates left right =
     ensure (length (dominance left) = length (dominance right)) (ValueError ''dominance vectors must have equal width'')
       (Inr (dominated_scan (dominance left) (dominance right) False))"

fun anyE :: "('a \<Rightarrow> bool result) \<Rightarrow> 'a list \<Rightarrow> bool result" where
  "anyE p [] = Inr False"
| "anyE p (x # xs) = bindE (p x) (\<lambda>b. if b then Inr True else anyE p xs)"

fun filterE :: "('a \<Rightarrow> bool result) \<Rightarrow> 'a list \<Rightarrow> 'a list result" where
  "filterE p [] = Inr []"
| "filterE p (x # xs) = bindE (p x) (\<lambda>b. bindE (filterE p xs) (\<lambda>ys. Inr (if b then x # ys else ys)))"

definition pareto_insert :: "nat \<Rightarrow> search_candidate \<Rightarrow> search_candidate list \<Rightarrow> search_candidate list result" where
  "pareto_insert beam_width c frontier =
     bindE (anyE (\<lambda>existing. dominates existing c) frontier) (\<lambda>dominated.
       if dominated then Inr frontier
       else bindE (filterE (\<lambda>existing. bindE (dominates c existing) (\<lambda>d. Inr (\<not> d))) frontier) (\<lambda>kept.
         Inr (take beam_width (sort_key beam_key (kept @ [c])))))"

definition pareto_beam :: "nat \<Rightarrow> search_candidate list \<Rightarrow> search_candidate list result" where
  "pareto_beam beam_width candidates = foldE (pareto_insert beam_width) (sort_key beam_key candidates) []"

section \<open>Decision subtrees\<close>

record forest_state =
  fo_nearest :: "nat option list"
  fo_children :: "nat \<Rightarrow> nat list"
  fo_roots :: "nat list"

definition forest_step :: "canonical_tree \<Rightarrow> canonical_segment \<Rightarrow> forest_state \<Rightarrow> forest_state" where
  "forest_step tree s st =
     (let parent_decision = (case cs_parent s of None \<Rightarrow> None | Some p \<Rightarrow> fo_nearest st ! p) in
      if cs_index s \<in> set (ct_decisions tree)
      then (case parent_decision of
          None \<Rightarrow> st\<lparr>fo_roots := fo_roots st @ [cs_index s], fo_nearest := (fo_nearest st)[cs_index s := Some (cs_index s)]\<rparr>
        | Some d \<Rightarrow> st\<lparr>fo_children := (fo_children st)(d := fo_children st d @ [cs_index s]),
            fo_nearest := (fo_nearest st)[cs_index s := Some (cs_index s)]\<rparr>)
      else st\<lparr>fo_nearest := (fo_nearest st)[cs_index s := parent_decision]\<rparr>)"

definition decision_forest :: "canonical_tree \<Rightarrow> forest_state" where
  "decision_forest tree = fold (forest_step tree) (ct_segments tree)
     \<lparr>fo_nearest = replicate (length (ct_segments tree)) None, fo_children = (\<lambda>_. []), fo_roots = []\<rparr>"

record preorder_state =
  pr_order :: "nat list"
  pr_start :: "nat \<Rightarrow> nat option"
  pr_stop :: "nat \<Rightarrow> nat option"

text \<open>
  The explicit stack, its top first.  Every decision is pushed twice; exhausting the fuel
  stands for a loop that does not end.
\<close>

fun preorder_loop :: "nat \<Rightarrow> (nat \<Rightarrow> nat list) \<Rightarrow> (nat \<times> bool) list \<Rightarrow> preorder_state \<Rightarrow> preorder_state result" where
  "preorder_loop fuel children [] st = Inr st"
| "preorder_loop 0 children (t # stack) st = Inl (RuntimeError ''unbounded loop'')"
| "preorder_loop (Suc fuel) children ((d, exiting) # stack) st =
     (if exiting
      then preorder_loop fuel children stack (st\<lparr>pr_stop := (pr_stop st)(d \<mapsto> length (pr_order st))\<rparr>)
      else preorder_loop fuel children (map (\<lambda>c. (c, False)) (children d) @ (d, True) # stack)
        (st\<lparr>pr_start := (pr_start st)(d \<mapsto> length (pr_order st)), pr_order := pr_order st @ [d]\<rparr>))"

definition branch_of :: "preorder_state \<Rightarrow> nat \<Rightarrow> (nat \<times> nat set) result" where
  "branch_of st d = (case (pr_start st d, pr_stop st d) of
     (Some a, Some b) \<Rightarrow> Inr (d, set (slice (pr_order st) a b))
   | _ \<Rightarrow> Inl KeyError)"

definition decision_subtrees :: "canonical_tree \<Rightarrow> (nat \<times> nat set) list result" where
  "decision_subtrees tree =
     (let forest = decision_forest tree in
      bindE (preorder_loop (2 * length (ct_decisions tree)) (fo_children forest) (map (\<lambda>r. (r, False)) (fo_roots forest))
          \<lparr>pr_order = [], pr_start = Map.empty, pr_stop = Map.empty\<rparr>) (\<lambda>st.
      ensure (length (pr_order st) = length (ct_decisions tree))
        (AssertionError ''decision forest did not cover every shareable node'')
       (mapE (branch_of st) (ct_decisions tree))))"

section \<open>Checking a given family\<close>

definition anchor_ok :: "layout_candidate list \<Rightarrow> layout_label \<times> nat set \<Rightarrow> bool" where
  "anchor_ok cs a =
     (case filter (\<lambda>c. fst a \<in> set (lc_labels c)) cs of [c] \<Rightarrow> ly_selected (lc_layout c) = snd a | _ \<Rightarrow> False)"

definition validate_mandatory :: "canonical_tree \<Rightarrow> layout_candidate list \<Rightarrow> unit result" where
  "validate_mandatory tree cs =
     (let decision_keys = map (\<lambda>c. sorted_list_of_set (ly_selected (lc_layout c))) cs in
      ensure (cs \<noteq> []) (ValueError ''mandatory candidate family must not be empty'')
     (ensure (list_all (\<lambda>c. ly_tree (lc_layout c) = ct_fingerprint tree) cs)
       (ValueError ''mandatory candidate layout belongs to a different tree'')
     (ensure (list_all (\<lambda>c. ly_selected (lc_layout c) \<subseteq> set (ct_decisions tree)) cs)
       (ValueError ''mandatory candidate selects a decision absent from the tree'')
     (ensure (sort decision_keys = decision_keys) (ValueError ''mandatory candidates must use canonical decision-set order'')
     (ensure (distinct decision_keys) (ValueError ''mandatory candidates must contain unique decision sets'')
     (ensure (list_all (\<lambda>c. lc_labels c \<noteq> [] \<and> distinct (lc_labels c)) cs)
       (ValueError ''mandatory candidate labels must be nonempty and unique'')
     (ensure (list_all (\<lambda>l. list_ex (\<lambda>c. l \<in> set (lc_labels c)) cs) [No_Sharing, Depth_One, Full_Sharing])
       (ValueError ''mandatory candidates are missing a required anchor'')
     (ensure (list_all (anchor_ok cs) (anchor_decisions tree)) (ValueError ''mandatory candidate anchor is not canonical'')
     (ensure (list_all (\<lambda>c. sorted (lc_thresholds c) \<and> distinct (lc_thresholds c)) cs)
       (ValueError ''mandatory candidate effective-span thresholds must be canonical'')
     (Inr ()))))))))))"

section \<open>The search\<close>

text \<open>
  The state of the loops.  \<open>ss_best\<close> is the variable the current loop improves: \<^verbatim>\<open>incumbent\<close>
  in the tiers, \<^verbatim>\<open>neighborhood_best\<close> in the neighbourhoods.
\<close>

record search_state =
  ss_scored :: "search_candidate list"
  ss_width :: "nat option"
  ss_seen :: "nat set set"
  ss_best :: search_candidate
  ss_beam :: "search_candidate list"
  ss_tier_new :: "search_candidate list"
  ss_used :: nat
  ss_evaluated :: nat
  ss_deduplicated :: nat
  ss_tiers :: nat
  ss_orders :: nat
  ss_exhausted :: bool

definition evaluate :: "scorer \<Rightarrow> nat option \<Rightarrow> layout_candidate \<Rightarrow> bool \<Rightarrow> nat \<Rightarrow> search_operation \<Rightarrow> nat option
    \<Rightarrow> nat list option \<Rightarrow> nat list \<Rightarrow> (search_candidate \<times> nat option) result" where
  "evaluate score width candidate mandatory tier operation decision parent refinement =
     bindE (score (lc_layout candidate)) (\<lambda>raw.
     bindE (normalize_score raw) (\<lambda>normalized.
     ensure (width = None \<or> width = Some (length normalized)) (ValueError ''all layout scores must have the same tuple width'')
     (Inr (\<lparr>sc_candidate = candidate, sc_score = normalized, sc_mandatory = mandatory, sc_tier = tier,
         sc_operation = operation, sc_decision = decision, sc_parent = parent, sc_refinement = refinement\<rparr>,
       Some (length normalized)))))"

definition score_mandatory :: "scorer \<Rightarrow> layout_candidate \<Rightarrow> search_candidate list \<times> nat option
    \<Rightarrow> (search_candidate list \<times> nat option) result" where
  "score_mandatory score candidate st =
     bindE (evaluate score (snd st) candidate True 0 Mandatory None None []) (\<lambda>(c, width). Inr (fst st @ [c], width))"

text \<open>A loop that breaks off once the flag is set.\<close>

fun breakE :: "('a \<Rightarrow> 's \<Rightarrow> 's result) \<Rightarrow> ('s \<Rightarrow> bool) \<Rightarrow> 'a list \<Rightarrow> 's \<Rightarrow> 's result" where
  "breakE f stop [] s = Inr s"
| "breakE f stop (x # xs) s = bindE (f x s) (\<lambda>s'. if stop s' then Inr s' else breakE f stop xs s')"

record proposal =
  po_decisions :: "nat set"
  po_labels :: "layout_label list"
  po_tier :: nat
  po_operation :: search_operation
  po_decision :: "nat option"
  po_parent :: "nat set"
  po_refinement :: "nat list"

text \<open>One optional proposal: the body both search loops share.\<close>

definition try_proposal :: "(payload \<Rightarrow> string) \<Rightarrow> canonical_tree \<Rightarrow> scorer \<Rightarrow> int \<Rightarrow> proposal
    \<Rightarrow> search_state \<Rightarrow> search_state result" where
  "try_proposal digest tree score budget p st =
     (if int (ss_used st) \<ge> budget then Inr (st\<lparr>ss_exhausted := True\<rparr>)
      else if po_decisions p \<in> ss_seen st
      then Inr (st\<lparr>ss_used := ss_used st + 1, ss_deduplicated := ss_deduplicated st + 1\<rparr>)
      else bindE (plan_prefix_tree_layout digest tree (po_decisions p)) (\<lambda>layout.
        bindE (evaluate score (ss_width st) \<lparr>lc_layout = layout, lc_labels = po_labels p, lc_thresholds = []\<rparr> False
            (po_tier p) (po_operation p) (po_decision p) (Some (sorted_list_of_set (po_parent p))) (po_refinement p))
          (\<lambda>(c, width).
        Inr (st\<lparr>ss_used := ss_used st + 1, ss_seen := insert (po_decisions p) (ss_seen st),
          ss_scored := ss_scored st @ [c], ss_width := width, ss_tier_new := ss_tier_new st @ [c],
          ss_evaluated := ss_evaluated st + 1,
          ss_best := (if candidate_rank_key c < candidate_rank_key (ss_best st) then c else ss_best st)\<rparr>))))"

definition tier_proposals :: "nat \<Rightarrow> nat \<Rightarrow> nat set \<Rightarrow> search_candidate \<Rightarrow> proposal list" where
  "tier_proposals tier decision branch parent =
     (let selected = ly_selected (sc_layout parent);
          make = (\<lambda>operation label S. \<lparr>po_decisions = S, po_labels = [Nonuniform_Refinement, Nonuniform_Tier tier, label],
            po_tier = tier, po_operation = operation, po_decision = Some decision, po_parent = selected,
            po_refinement = [decision]\<rparr>) in
      [make Flip (Nonuniform_Flip decision) (if decision \<in> selected then selected - {decision} else insert decision selected),
       make Share_Branch (Nonuniform_Share_Branch decision) (selected \<union> branch),
       make Replay_Branch (Nonuniform_Replay_Branch decision) (selected - branch)])"

definition tier_parent :: "(proposal \<Rightarrow> search_state \<Rightarrow> search_state result) \<Rightarrow> nat \<Rightarrow> nat \<Rightarrow> nat set \<Rightarrow> search_candidate
    \<Rightarrow> search_state \<Rightarrow> search_state result" where
  "tier_parent attempt tier decision branch parent st =
     breakE attempt ss_exhausted (tier_proposals tier decision branch parent) st"

definition search_tier :: "(proposal \<Rightarrow> search_state \<Rightarrow> search_state result) \<Rightarrow> nat \<Rightarrow> (nat \<times> nat set) list \<Rightarrow> nat \<times> nat
    \<Rightarrow> search_state \<Rightarrow> search_state result" where
  "search_tier attempt beam_width subtrees t st =
     (case t of (tier, decision) \<Rightarrow>
      case map_of subtrees decision of None \<Rightarrow> Inl KeyError
      | Some branch \<Rightarrow>
        bindE (breakE (tier_parent attempt tier decision branch) ss_exhausted (sort_key beam_key (ss_beam st))
            (st\<lparr>ss_tier_new := []\<rparr>)) (\<lambda>st'.
        if ss_exhausted st' then Inr st'
        else bindE (pareto_beam beam_width (ss_beam st' @ ss_tier_new st')) (\<lambda>beam.
          Inr (st'\<lparr>ss_beam := beam, ss_tiers := ss_tiers st' + 1\<rparr>))))"

definition toggle :: "nat \<Rightarrow> nat set \<Rightarrow> nat set" where
  "toggle d S = (if d \<in> S then S - {d} else insert d S)"

definition neighborhood_proposal :: "nat \<Rightarrow> nat \<Rightarrow> nat set \<Rightarrow> nat list \<Rightarrow> proposal" where
  "neighborhood_proposal decision_count order base refinement =
     \<lparr>po_decisions = fold toggle refinement base,
      po_labels = [Nonuniform_Refinement, Nonuniform_Neighborhood_Order order, Nonuniform_Neighborhood_Flip refinement],
      po_tier = decision_count + order, po_operation = Neighborhood_Flip, po_decision = None, po_parent = base,
      po_refinement = refinement\<rparr>"

definition search_order :: "(proposal \<Rightarrow> search_state \<Rightarrow> search_state result) \<Rightarrow> nat list \<Rightarrow> nat
    \<Rightarrow> search_state \<Rightarrow> search_state result" where
  "search_order attempt decisions order st =
     (let base = ss_best st in
      bindE (breakE (\<lambda>refinement. attempt (neighborhood_proposal (length decisions) order (ly_selected (sc_layout base)) refinement))
          ss_exhausted (combinations order decisions) st) (\<lambda>st'.
        let st'' = st'\<lparr>ss_best := (if candidate_rank_key (ss_best st') < candidate_rank_key base then ss_best st' else base)\<rparr> in
        Inr (if ss_exhausted st'' then st'' else st''\<lparr>ss_orders := ss_orders st'' + 1\<rparr>)))"

text \<open>\<^verbatim>\<open>dict.fromkeys\<close> keeps the first of equal elements.\<close>

definition dedupe_first :: "'a list \<Rightarrow> 'a list" where
  "dedupe_first xs = foldl (\<lambda>ys x. append_new x ys) [] xs"

definition optional_shortlist :: "nat \<Rightarrow> search_candidate list \<Rightarrow> search_candidate \<Rightarrow> search_candidate list" where
  "optional_shortlist limit scored incumbent =
     (let ranked = sort_key candidate_rank_key (filter (\<lambda>c. \<not> sc_mandatory c) scored);
          short = take limit ranked in
      if \<not> sc_mandatory incumbent \<and> incumbent \<notin> set short
      then take limit (sort_key candidate_rank_key (dedupe_first (incumbent # short)))
      else short)"

record search_result =
  sr_candidates :: "search_candidate list"
  sr_shortlist :: "search_candidate list"
  sr_incumbent :: search_candidate
  sr_mandatory_incumbent :: search_candidate
  sr_mandatory_count :: nat
  sr_budget :: int
  sr_used :: nat
  sr_evaluated :: nat
  sr_deduplicated :: nat
  sr_tiers :: nat
  sr_orders :: nat
  sr_stop :: stop_reason
  sr_fingerprint :: string

definition total_scoring_work :: "search_result \<Rightarrow> nat" where
  "total_scoring_work r = sr_mandatory_count r + sr_evaluated r"

definition improved_over_mandatory :: "search_result \<Rightarrow> bool" where
  "improved_over_mandatory r \<longleftrightarrow> candidate_rank_key (sr_incumbent r) < candidate_rank_key (sr_mandatory_incumbent r)"

text \<open>What the fingerprint of a result is the digest of.\<close>

record search_payload =
  sp_structure :: string
  sp_beam_width :: int
  sp_shortlist_size :: int
  sp_budget :: int
  sp_counts :: "nat list"
  sp_stop :: stop_reason
  sp_incumbent :: "nat list \<times> int list"
  sp_candidates :: "(nat list \<times> int list \<times> bool \<times> nat \<times> search_operation \<times> nat option \<times> nat list option \<times> nat list) list"
  sp_shortlist :: "nat list list"

definition ordered_decisions :: "canonical_tree \<Rightarrow> nat list" where
  "ordered_decisions tree = sort_key (\<lambda>k. (- int (cs_depth (ct_segments tree ! k)), k)) (ct_decisions tree)"

definition initial_search :: "search_candidate list \<Rightarrow> nat option \<Rightarrow> search_candidate \<Rightarrow> search_candidate list \<Rightarrow> search_state" where
  "initial_search scored width incumbent beam =
     \<lparr>ss_scored = scored, ss_width = width, ss_seen = (\<lambda>c. ly_selected (sc_layout c)) ` set scored, ss_best = incumbent,
      ss_beam = beam, ss_tier_new = [], ss_used = 0, ss_evaluated = 0, ss_deduplicated = 0, ss_tiers = 0, ss_orders = 0,
      ss_exhausted = False\<rparr>"

text \<open>The tiers, deepest decisions first, then the neighbourhoods of the incumbent.\<close>

definition run_search :: "(proposal \<Rightarrow> search_state \<Rightarrow> search_state result) \<Rightarrow> nat \<Rightarrow> (nat \<times> nat set) list \<Rightarrow> nat list
    \<Rightarrow> search_state \<Rightarrow> search_state result" where
  "run_search attempt beam_width subtrees decisions st =
     bindE (breakE (search_tier attempt beam_width subtrees) ss_exhausted (List.enumerate 1 decisions) st) (\<lambda>st'.
       if ss_exhausted st' then Inr st'
       else breakE (search_order attempt decisions) ss_exhausted [1..<min 4 (length decisions) + 1] st')"

definition finish_search :: "(search_payload \<Rightarrow> string) \<Rightarrow> canonical_tree \<Rightarrow> int \<Rightarrow> int \<Rightarrow> int \<Rightarrow> nat \<Rightarrow> search_candidate
    \<Rightarrow> search_state \<Rightarrow> search_result result" where
  "finish_search digest tree budget beam_width shortlist_size mandatory_count mandatory_incumbent st =
     (let stop = (if ct_decisions tree = [] then No_Shareable_Decisions
            else if ss_exhausted st then Refinement_Budget_Exhausted else Search_Complete);
          shortlist = filter sc_mandatory (ss_scored st) @ optional_shortlist (nat shortlist_size) (ss_scored st) (ss_best st) in
      ensure (\<not> candidate_rank_key (ss_best st) > candidate_rank_key mandatory_incumbent)
        (AssertionError ''nonuniform search degraded its mandatory incumbent'')
      (Inr \<lparr>sr_candidates = ss_scored st, sr_shortlist = shortlist, sr_incumbent = ss_best st,
         sr_mandatory_incumbent = mandatory_incumbent, sr_mandatory_count = mandatory_count, sr_budget = budget,
         sr_used = ss_used st, sr_evaluated = ss_evaluated st, sr_deduplicated = ss_deduplicated st,
         sr_tiers = ss_tiers st, sr_orders = ss_orders st, sr_stop = stop,
         sr_fingerprint = digest
           \<lparr>sp_structure = ct_structure tree, sp_beam_width = beam_width, sp_shortlist_size = shortlist_size,
            sp_budget = budget,
            sp_counts = [ss_used st, ss_evaluated st, ss_deduplicated st, ss_tiers st, ss_orders st], sp_stop = stop,
            sp_incumbent = (sorted_decisions (ss_best st), sc_score (ss_best st)),
            sp_candidates = map (\<lambda>c. (sorted_decisions c, sc_score c, sc_mandatory c, sc_tier c, sc_operation c,
              sc_decision c, sc_parent c, sc_refinement c)) (ss_scored st),
            sp_shortlist = map sorted_decisions shortlist\<rparr>\<rparr>))"

definition search_nonuniform_prefix_tree_layouts ::
  "(payload \<Rightarrow> string) \<Rightarrow> (search_payload \<Rightarrow> string) \<Rightarrow> canonical_tree \<Rightarrow> scorer \<Rightarrow> int \<Rightarrow> int \<Rightarrow> int
    \<Rightarrow> layout_candidate list option \<Rightarrow> search_result result" where
  "search_nonuniform_prefix_tree_layouts digest search_digest tree score budget beam_width shortlist_size given =
     ensure (\<not> budget < 0) (ValueError ''refinement_work_budget must be >= 0'')
    (ensure (\<not> beam_width < 1) (ValueError ''beam_width must be >= 1'')
    (ensure (\<not> shortlist_size < 1) (ValueError ''refinement_shortlist_size must be >= 1'')
    (bindE (case given of None \<Rightarrow> prefix_tree_layout_candidates digest tree | Some cs \<Rightarrow> Inr cs) (\<lambda>mandatory_layouts.
     bindE (validate_mandatory tree mandatory_layouts) (\<lambda>_.
     bindE (foldE (score_mandatory score) mandatory_layouts ([], None)) (\<lambda>(scored, width).
     case scored of [] \<Rightarrow> Inl (AssertionError ''mandatory prefix-tree family must not be empty'')
     | c # cs \<Rightarrow>
       let mandatory_incumbent = first_min candidate_rank_key c cs in
       bindE (pareto_beam (nat beam_width) scored) (\<lambda>beam.
       bindE (decision_subtrees tree) (\<lambda>subtrees.
       bindE (run_search (try_proposal digest tree score budget) (nat beam_width) subtrees (ordered_decisions tree)
           (initial_search scored width mandatory_incumbent beam)) (\<lambda>st.
       finish_search search_digest tree budget beam_width shortlist_size (length mandatory_layouts) mandatory_incumbent st)))))))))"

section \<open>The decision forest\<close>

text \<open>The nearest decision above a segment.\<close>

definition decision_above :: "canonical_tree \<Rightarrow> nat \<Rightarrow> nat option" where
  "decision_above tree k = find (\<lambda>a. a \<in> set (ct_decisions tree)) (ancestors tree k)"

definition nearest_decision :: "canonical_tree \<Rightarrow> nat \<Rightarrow> nat option" where
  "nearest_decision tree k = (if k \<in> set (ct_decisions tree) then Some k else decision_above tree k)"

lemma ancestors_root:
  assumes "tree_ok rs tree" and "k < length (ct_segments tree)" and "cs_parent (ct_segments tree ! k) = None"
  shows "ancestors tree k = []"
  using assms(2,3) by (cases "length (ct_segments tree)") (simp_all add: ancestors_def)

lemma decision_above_step:
  assumes ok: "tree_ok rs tree" and k: "k < length (ct_segments tree)"
  shows "decision_above tree k =
    (case cs_parent (ct_segments tree ! k) of None \<Rightarrow> None | Some p \<Rightarrow> nearest_decision tree p)"
  using ancestors_root [OF ok k] ancestors_facts(3) [OF ok k]
  by (auto simp: decision_above_def nearest_decision_def split: option.split)

definition children_of :: "canonical_tree \<Rightarrow> nat \<Rightarrow> nat option \<Rightarrow> nat list" where
  "children_of tree j d = filter (\<lambda>k. k \<in> set (ct_decisions tree) \<and> decision_above tree k = d) [0..<j]"

lemma children_of_Suc: "children_of tree (Suc j) d =
    children_of tree j d @ (if j \<in> set (ct_decisions tree) \<and> decision_above tree j = d then [j] else [])"
  by (simp add: children_of_def)

lemma forest_invariant:
  assumes ok: "tree_ok rs tree" and "j \<le> length (ct_segments tree)"
    and "F = fold (forest_step tree) (take j (ct_segments tree))
      \<lparr>fo_nearest = replicate (length (ct_segments tree)) None, fo_children = (\<lambda>_. []), fo_roots = []\<rparr>"
  shows "length (fo_nearest F) = length (ct_segments tree) \<and> (\<forall>k < j. fo_nearest F ! k = nearest_decision tree k) \<and>
    fo_children F = (\<lambda>d. children_of tree j (Some d)) \<and> fo_roots F = children_of tree j None"
  using assms(2,3)
proof (induction j arbitrary: F)
  case 0
  then show ?case by (simp add: children_of_def)
next
  case (Suc j)
  let ?start = "\<lparr>fo_nearest = replicate (length (ct_segments tree)) None, fo_children = (\<lambda>_. []), fo_roots = []\<rparr>"
  define G where "G = fold (forest_step tree) (take j (ct_segments tree)) ?start"
  have j: "j < length (ct_segments tree)" using Suc.prems by simp
  have G: "length (fo_nearest G) = length (ct_segments tree)" "\<And>k. k < j \<Longrightarrow> fo_nearest G ! k = nearest_decision tree k"
    "fo_children G = (\<lambda>d. children_of tree j (Some d))" "fo_roots G = children_of tree j None"
    using Suc.IH [OF _ G_def] j by simp_all
  have F: "F = forest_step tree (ct_segments tree ! j) G"
    using Suc.prems(2) j by (simp add: take_Suc_conv_app_nth G_def)
  have up: "(case cs_parent (ct_segments tree ! j) of None \<Rightarrow> None | Some p \<Rightarrow> fo_nearest G ! p) = decision_above tree j"
    unfolding decision_above_step [OF ok j] using tree_parent(2) [OF ok j] G(2) by (auto split: option.split)
  have step: "forest_step tree (ct_segments tree ! j) G =
      (if j \<in> set (ct_decisions tree)
       then (case decision_above tree j of
           None \<Rightarrow> G\<lparr>fo_roots := fo_roots G @ [j], fo_nearest := (fo_nearest G)[j := Some j]\<rparr>
         | Some d \<Rightarrow> G\<lparr>fo_children := (fo_children G)(d := fo_children G d @ [j]), fo_nearest := (fo_nearest G)[j := Some j]\<rparr>)
       else G\<lparr>fo_nearest := (fo_nearest G)[j := decision_above tree j]\<rparr>)"
    unfolding forest_step_def Let_def up tree_index [OF ok j] ..
  have near: "fo_nearest F = (fo_nearest G)[j := nearest_decision tree j]"
    unfolding F step by (auto simp: nearest_decision_def split: option.split)
  have ch: "fo_children F d = children_of tree (Suc j) (Some d)" for d
    unfolding F step children_of_Suc by (auto simp: G(3) split: option.split)
  have ro: "fo_roots F = children_of tree (Suc j) None"
    unfolding F step children_of_Suc by (auto simp: G(4) split: option.split)
  have "fo_nearest F ! k = nearest_decision tree k" if "k < Suc j" for k
    unfolding near using that G(1,2) j by (cases "k = j") auto
  with near ch ro G(1) show ?case by auto
qed

lemma decision_forest:
  assumes ok: "tree_ok rs tree"
  shows "fo_children (decision_forest tree) d = children_of tree (length (ct_segments tree)) (Some d)"
    and "fo_roots (decision_forest tree) = children_of tree (length (ct_segments tree)) None"
  using forest_invariant [OF ok order_refl refl] by (simp_all add: decision_forest_def)

text \<open>The decisions at or below a decision.\<close>

definition subtree :: "canonical_tree \<Rightarrow> nat \<Rightarrow> nat set" where
  "subtree tree d = {k \<in> set (ct_decisions tree). k = d \<or> d \<in> set (ancestors tree k)}"

lemma find_split: "find P xs = Some x \<Longrightarrow> \<exists>us vs. xs = us @ x # vs \<and> P x \<and> (\<forall>u \<in> set us. \<not> P u)"
proof (induction xs)
  case (Cons a xs)
  show ?case
  proof (cases "P a")
    case True
    with Cons.prems have "a # xs = [] @ x # xs \<and> P x" by simp
    then show ?thesis by fastforce
  next
    case False
    with Cons obtain us vs where "xs = us @ x # vs" "P x" "\<forall>u \<in> set us. \<not> P u" by auto
    with False have "a # xs = (a # us) @ x # vs \<and> P x \<and> (\<forall>u \<in> set (a # us). \<not> P u)" by simp
    then show ?thesis by blast
  qed
qed simp

lemma ancestors_suffix:
  assumes ok: "tree_ok rs tree" and "k < length (ct_segments tree)" and "ancestors tree k = us @ a # vs"
  shows "vs = ancestors tree a"
  using assms(2,3)
proof (induction us arbitrary: k)
  case Nil
  then obtain p where "cs_parent (ct_segments tree ! k) = Some p" using ancestors_root [OF ok Nil.prems(1)] by (cases "cs_parent (ct_segments tree ! k)") auto
  with ancestors_facts(3) [OF ok Nil.prems(1)] Nil.prems(2) show ?case by auto
next
  case (Cons u us)
  then obtain p where p: "cs_parent (ct_segments tree ! k) = Some p"
    using ancestors_root [OF ok Cons.prems(1)] by (cases "cs_parent (ct_segments tree ! k)") auto
  with ancestors_facts(3) [OF ok Cons.prems(1) p] Cons.prems(2) have "ancestors tree p = us @ a # vs" by simp
  moreover have "p < length (ct_segments tree)" using tree_parent(2) [OF ok Cons.prems(1) p] Cons.prems(1) by simp
  ultimately show ?case by (rule Cons.IH [rotated])
qed

lemma decisions_above:
  assumes ok: "tree_ok rs tree" and k: "k < length (ct_segments tree)"
  shows "decision_above tree k = Some e \<Longrightarrow> e \<in> set (ct_decisions tree) \<and> e \<in> set (ancestors tree k) \<and>
      (\<forall>a \<in> set (ct_decisions tree). a \<in> set (ancestors tree k) \<longleftrightarrow> a = e \<or> a \<in> set (ancestors tree e))"
    and "decision_above tree k = None \<Longrightarrow> a \<in> set (ct_decisions tree) \<Longrightarrow> a \<notin> set (ancestors tree k)"
proof -
  assume "decision_above tree k = Some e"
  then obtain us vs where "ancestors tree k = us @ e # vs" "e \<in> set (ct_decisions tree)" "\<forall>u \<in> set us. u \<notin> set (ct_decisions tree)"
    unfolding decision_above_def using find_split by fast
  with ancestors_suffix [OF ok k this(1)] show "e \<in> set (ct_decisions tree) \<and> e \<in> set (ancestors tree k) \<and>
      (\<forall>a \<in> set (ct_decisions tree). a \<in> set (ancestors tree k) \<longleftrightarrow> a = e \<or> a \<in> set (ancestors tree e))" by auto
next
  show "decision_above tree k = None \<Longrightarrow> a \<in> set (ct_decisions tree) \<Longrightarrow> a \<notin> set (ancestors tree k)"
    by (auto simp: decision_above_def find_None_iff)
qed

lemma decision_bound: "tree_ok rs tree \<Longrightarrow> k \<in> set (ct_decisions tree) \<Longrightarrow> k < length (ct_segments tree)"
  using decisions_bound by fastforce

lemma children_mem:
  assumes "tree_ok rs tree"
  shows "c \<in> set (children_of tree (length (ct_segments tree)) d) \<longleftrightarrow> c \<in> set (ct_decisions tree) \<and> decision_above tree c = d"
  using decision_bound [OF assms] by (auto simp: children_of_def)

text \<open>A decision below a node is the node or below one of its children; a decision has one root.\<close>

lemma subtree_split:
  assumes ok: "tree_ok rs tree" and "k \<in> set (ct_decisions tree)"
  shows "d \<in> set (ct_decisions tree) \<Longrightarrow> d \<in> set (ancestors tree k) \<Longrightarrow>
      \<exists>c \<in> set (children_of tree (length (ct_segments tree)) (Some d)). k \<in> subtree tree c"
    and "\<exists>c \<in> set (children_of tree (length (ct_segments tree)) None). k \<in> subtree tree c"
proof -
  have "(d \<in> set (ct_decisions tree) \<longrightarrow> d \<in> set (ancestors tree k) \<longrightarrow>
        (\<exists>c \<in> set (children_of tree (length (ct_segments tree)) (Some d)). k \<in> subtree tree c)) \<and>
      (\<exists>c \<in> set (children_of tree (length (ct_segments tree)) None). k \<in> subtree tree c)"
    using assms(2)
  proof (induction k rule: less_induct)
    case (less k)
    note kl = decision_bound [OF ok less.prems]
    have self: "k \<in> subtree tree k" using less.prems by (simp add: subtree_def)
    show ?case
    proof (cases "decision_above tree k")
      case None
      then have "k \<in> set (children_of tree (length (ct_segments tree)) None)" using less.prems by (simp add: children_mem [OF ok])
      with self decisions_above(2) [OF ok kl None] show ?thesis by blast
    next
      case (Some e)
      note e = decisions_above(1) [OF ok kl Some]
      have "e < k" using ancestors_facts(2) [OF ok kl] e by blast
      note IH = less.IH [OF this conjunct1 [OF e]]
      have lift: "k \<in> subtree tree c" if "e \<in> subtree tree c" "c \<in> set (ct_decisions tree)" for c
        using that e less.prems unfolding subtree_def by blast
      show ?thesis
      proof (intro conjI impI)
        assume d: "d \<in> set (ct_decisions tree)" "d \<in> set (ancestors tree k)"
        show "\<exists>c \<in> set (children_of tree (length (ct_segments tree)) (Some d)). k \<in> subtree tree c"
        proof (cases "d = e")
          case True
          with Some less.prems have "k \<in> set (children_of tree (length (ct_segments tree)) (Some d))" by (simp add: children_mem [OF ok])
          with self show ?thesis by blast
        next
          case False
          with d e have "d \<in> set (ancestors tree e)" by blast
          with IH d(1) lift children_mem [OF ok] show ?thesis by blast
        qed
      next
        show "\<exists>c \<in> set (children_of tree (length (ct_segments tree)) None). k \<in> subtree tree c"
          using IH lift children_mem [OF ok] by blast
      qed
    qed
  qed
  then show "d \<in> set (ct_decisions tree) \<Longrightarrow> d \<in> set (ancestors tree k) \<Longrightarrow>
      \<exists>c \<in> set (children_of tree (length (ct_segments tree)) (Some d)). k \<in> subtree tree c"
    and "\<exists>c \<in> set (children_of tree (length (ct_segments tree)) None). k \<in> subtree tree c" by blast+
qed

lemma subtree_unfold:
  assumes ok: "tree_ok rs tree" and d: "d \<in> set (ct_decisions tree)"
  shows "subtree tree d = insert d (\<Union>c \<in> set (children_of tree (length (ct_segments tree)) (Some d)). subtree tree c)"
    and "d \<notin> (\<Union>c \<in> set (children_of tree (length (ct_segments tree)) (Some d)). subtree tree c)"
proof -
  have child: "d \<in> set (ancestors tree c) \<and> (\<forall>k. k \<in> subtree tree c \<longrightarrow> k \<in> set (ct_decisions tree) \<and> d \<in> set (ancestors tree k))"
    if c: "c \<in> set (ct_decisions tree)" "decision_above tree c = Some d" for c
  proof (intro conjI allI impI)
    note cl = decision_bound [OF ok c(1)]
    show dc: "d \<in> set (ancestors tree c)" using decisions_above(1) [OF ok cl c(2)] by blast
    fix k assume k: "k \<in> subtree tree c"
    then show kD: "k \<in> set (ct_decisions tree)" by (simp add: subtree_def)
    show "d \<in> set (ancestors tree k)"
    proof (cases "k = c")
      case False
      with k have "c \<in> set (ancestors tree k)" by (simp add: subtree_def)
      then obtain us vs where s: "ancestors tree k = us @ c # vs" by (meson split_list)
      from ancestors_suffix [OF ok decision_bound [OF ok kD] s] dc s show ?thesis by simp
    qed (use dc in simp)
  qed
  show "subtree tree d = insert d (\<Union>c \<in> set (children_of tree (length (ct_segments tree)) (Some d)). subtree tree c)"
  proof (intro equalityI subsetI)
    fix k assume k: "k \<in> subtree tree d"
    then have kD: "k \<in> set (ct_decisions tree)" by (simp add: subtree_def)
    show "k \<in> insert d (\<Union>c \<in> set (children_of tree (length (ct_segments tree)) (Some d)). subtree tree c)"
      using k subtree_split(1) [OF ok kD d] unfolding subtree_def by auto
  next
    fix k assume "k \<in> insert d (\<Union>c \<in> set (children_of tree (length (ct_segments tree)) (Some d)). subtree tree c)"
    then consider "k = d" | c where "c \<in> set (ct_decisions tree)" "decision_above tree c = Some d" "k \<in> subtree tree c"
      by (auto simp: children_mem [OF ok])
    then show "k \<in> subtree tree d"
    proof cases
      case (2 c)
      with child [OF 2(1,2)] show ?thesis by (auto simp: subtree_def)
    qed (use d in \<open>simp add: subtree_def\<close>)
  qed
  have "d \<notin> set (ancestors tree d)" using ancestors_facts(2) [OF ok decision_bound [OF ok d]] by blast
  then show "d \<notin> (\<Union>c \<in> set (children_of tree (length (ct_segments tree)) (Some d)). subtree tree c)"
    using child children_mem [OF ok] by blast
qed

lemma siblings_disjoint:
  assumes ok: "tree_ok rs tree" and "k \<in> set (ct_decisions tree)"
    and "k \<in> subtree tree b" "k \<in> subtree tree c" "decision_above tree b = decision_above tree c"
    and "b \<in> set (ct_decisions tree)" "c \<in> set (ct_decisions tree)"
  shows "b = c"
  using assms(2-4)
proof (induction k rule: less_induct)
  case (less k)
  note kl = decision_bound [OF ok less.prems(1)]
  have below: False if "decision_above tree k = decision_above tree x" "x \<in> set (ct_decisions tree)" "x \<in> set (ancestors tree k)" for x
  proof (cases "decision_above tree k")
    case None
    with decisions_above(2) [OF ok kl None that(2)] that(3) show False by blast
  next
    case (Some e)
    note e = decisions_above(1) [OF ok kl Some]
    have xl: "x < length (ct_segments tree)" by (rule decision_bound [OF ok that(2)])
    have "e \<in> set (ancestors tree x)" using decisions_above(1) [OF ok xl] Some that(1) by simp
    then have "e < x" using ancestors_facts(2) [OF ok xl] by blast
    moreover have "x = e \<or> x \<in> set (ancestors tree e)" using e that by blast
    then have "x \<le> e" using ancestors_facts(2) [OF ok decision_bound [OF ok conjunct1 [OF e]]] by fastforce
    ultimately show False by simp
  qed
  show ?case
  proof (cases "b = k \<or> c = k")
    case True
    with less.prems assms(5-7) below [of b] below [of c] show ?thesis by (auto simp: subtree_def)
  next
    case False
    then have anc: "b \<in> set (ancestors tree k)" "c \<in> set (ancestors tree k)" using less.prems by (auto simp: subtree_def)
    with decisions_above(2) [OF ok kl] assms(6) obtain e where e: "decision_above tree k = Some e" by (cases "decision_above tree k") auto
    note e' = decisions_above(1) [OF ok kl e]
    have "e < k" using ancestors_facts(2) [OF ok kl] e' by blast
    moreover have "e \<in> subtree tree b" "e \<in> subtree tree c" using e' anc assms(6,7) by (auto simp: subtree_def)
    ultimately show ?thesis using less.IH [of e] e' by blast
  qed
qed


section \<open>The preorder\<close>

text \<open>The loop has emitted the block \<open>xs\<close> and recorded the slice of every node in it.\<close>

definition emitted :: "canonical_tree \<Rightarrow> nat list \<Rightarrow> preorder_state \<Rightarrow> preorder_state \<Rightarrow> bool" where
  "emitted tree xs st st' \<longleftrightarrow> pr_order st' = pr_order st @ xs \<and>
     (\<forall>e. if e \<in> set xs then (\<exists>a b. pr_start st' e = Some (length (pr_order st) + a) \<and>
            pr_stop st' e = Some (length (pr_order st) + b) \<and> b \<le> length xs \<and> set (slice xs a b) = subtree tree e)
          else pr_start st' e = pr_start st e \<and> pr_stop st' e = pr_stop st e)"

lemma slice_append_left: "b \<le> length xs \<Longrightarrow> slice (xs @ ys) a b = slice xs a b"
  unfolding slice_def by (cases "a \<le> length xs") simp_all

lemma slice_append_right: "slice (xs @ ys) (length xs + a) (length xs + b) = slice ys a b"
  by (simp add: slice_def)

lemma emitted_append:
  assumes one: "emitted tree xs st st'" and two: "emitted tree ys st' st''" and dis: "set xs \<inter> set ys = {}"
  shows "emitted tree (xs @ ys) st st''"
  unfolding emitted_def
proof (intro conjI allI)
  have order: "pr_order st' = pr_order st @ xs" using one by (simp add: emitted_def)
  show "pr_order st'' = pr_order st @ xs @ ys" using one two by (simp add: emitted_def)
  fix e
  have e1: "if e \<in> set xs then (\<exists>a b. pr_start st' e = Some (length (pr_order st) + a) \<and>
            pr_stop st' e = Some (length (pr_order st) + b) \<and> b \<le> length xs \<and> set (slice xs a b) = subtree tree e)
          else pr_start st' e = pr_start st e \<and> pr_stop st' e = pr_stop st e" using one unfolding emitted_def by blast
  have e2: "if e \<in> set ys then (\<exists>a b. pr_start st'' e = Some (length (pr_order st') + a) \<and>
            pr_stop st'' e = Some (length (pr_order st') + b) \<and> b \<le> length ys \<and> set (slice ys a b) = subtree tree e)
          else pr_start st'' e = pr_start st' e \<and> pr_stop st'' e = pr_stop st' e" using two unfolding emitted_def by blast
  show "if e \<in> set (xs @ ys) then (\<exists>a b. pr_start st'' e = Some (length (pr_order st) + a) \<and>
            pr_stop st'' e = Some (length (pr_order st) + b) \<and> b \<le> length (xs @ ys) \<and> set (slice (xs @ ys) a b) = subtree tree e)
          else pr_start st'' e = pr_start st e \<and> pr_stop st'' e = pr_stop st e"
  proof (cases "e \<in> set ys")
    case True
    with e2 obtain a b where ab: "pr_start st'' e = Some (length (pr_order st') + a)"
      "pr_stop st'' e = Some (length (pr_order st') + b)" "b \<le> length ys" "set (slice ys a b) = subtree tree e" by auto
    then have "pr_start st'' e = Some (length (pr_order st) + (length xs + a)) \<and>
      pr_stop st'' e = Some (length (pr_order st) + (length xs + b)) \<and> length xs + b \<le> length (xs @ ys) \<and>
      set (slice (xs @ ys) (length xs + a) (length xs + b)) = subtree tree e"
      by (simp add: order slice_append_right)
    with True show ?thesis unfolding set_append Un_iff by (simp only: simp_thms if_True) blast
  next
    case ys: False
    show ?thesis
    proof (cases "e \<in> set xs")
      case True
      with e1 obtain a b where ab: "pr_start st' e = Some (length (pr_order st) + a)"
        "pr_stop st' e = Some (length (pr_order st) + b)" "b \<le> length xs" "set (slice xs a b) = subtree tree e" by auto
      then have "pr_start st'' e = Some (length (pr_order st) + a) \<and> pr_stop st'' e = Some (length (pr_order st) + b) \<and>
        b \<le> length (xs @ ys) \<and> set (slice (xs @ ys) a b) = subtree tree e"
        using e2 ys by (simp add: slice_append_left)
      with True show ?thesis unfolding set_append Un_iff by (simp only: simp_thms if_True) blast
    next
      case False
      with ys e1 e2 show ?thesis by simp
    qed
  qed
qed

text \<open>Popping a node that has not been visited emits its subtree, two units of fuel per node.\<close>

definition emits :: "canonical_tree \<Rightarrow> nat list \<Rightarrow> nat set \<Rightarrow> bool" where
  "emits tree cs A \<longleftrightarrow> (\<exists>xs. distinct xs \<and> set xs = A \<and> (\<forall>fuel stack st. \<exists>st'. emitted tree xs st st' \<and>
     preorder_loop (fuel + 2 * length xs) (\<lambda>d. children_of tree (length (ct_segments tree)) (Some d))
         (map (\<lambda>c. (c, False)) cs @ stack) st =
       preorder_loop fuel (\<lambda>d. children_of tree (length (ct_segments tree)) (Some d)) stack st'))"

lemma emits_Nil: "emits tree [] {}"
  unfolding emits_def by (intro exI [of _ "[]"]) (auto simp: emitted_def)

lemma emits_Cons:
  assumes "emits tree [c] A" and "emits tree cs B" and "A \<inter> B = {}"
  shows "emits tree (c # cs) (A \<union> B)"
proof -
  let ?loop = "\<lambda>fuel. preorder_loop fuel (\<lambda>d. children_of tree (length (ct_segments tree)) (Some d))"
  obtain xs where xs: "distinct xs" "set xs = A"
    "\<And>fuel stack st. \<exists>st'. emitted tree xs st st' \<and> ?loop (fuel + 2 * length xs) ((c, False) # stack) st = ?loop fuel stack st'"
    using assms(1) by (auto simp: emits_def)
  obtain ys where ys: "distinct ys" "set ys = B"
    "\<And>fuel stack st. \<exists>st'. emitted tree ys st st' \<and>
       ?loop (fuel + 2 * length ys) (map (\<lambda>c. (c, False)) cs @ stack) st = ?loop fuel stack st'"
    using assms(2) by (auto simp: emits_def)
  have "\<exists>st''. emitted tree (xs @ ys) st st'' \<and>
      ?loop (fuel + 2 * length (xs @ ys)) (map (\<lambda>c. (c, False)) (c # cs) @ stack) st = ?loop fuel stack st''" for fuel stack st
  proof -
    obtain st' where one: "emitted tree xs st st'"
      "?loop (fuel + 2 * length ys + 2 * length xs) ((c, False) # (map (\<lambda>c. (c, False)) cs @ stack)) st
        = ?loop (fuel + 2 * length ys) (map (\<lambda>c. (c, False)) cs @ stack) st'" using xs(3) by blast
    obtain st'' where two: "emitted tree ys st' st''"
      "?loop (fuel + 2 * length ys) (map (\<lambda>c. (c, False)) cs @ stack) st' = ?loop fuel stack st''" using ys(3) by blast
    have "emitted tree (xs @ ys) st st''" by (rule emitted_append [OF one(1) two(1)]) (use xs(2) ys(2) assms(3) in simp)
    with one(2) two(2) show ?thesis by (intro exI [of _ st'']) (simp add: algebra_simps)
  qed
  with xs(1,2) ys(1,2) assms(3) show ?thesis unfolding emits_def by (intro exI [of _ "xs @ ys"]) auto
qed

lemma emits_siblings:
  assumes "\<And>c. c \<in> set cs \<Longrightarrow> emits tree [c] (f c)" and "distinct cs"
    and "\<And>b c. b \<in> set cs \<Longrightarrow> c \<in> set cs \<Longrightarrow> b \<noteq> c \<Longrightarrow> f b \<inter> f c = {}"
  shows "emits tree cs (\<Union>c \<in> set cs. f c)"
  using assms
proof (induction cs)
  case (Cons c cs)
  have "emits tree (c # cs) (f c \<union> (\<Union>b \<in> set cs. f b))"
  proof (rule emits_Cons)
    show "emits tree cs (\<Union>b \<in> set cs. f b)" by (rule Cons.IH) (use Cons.prems in auto)
    show "f c \<inter> (\<Union>b \<in> set cs. f b) = {}" using Cons.prems(2,3) by fastforce
  qed (use Cons.prems(1) in simp)
  then show ?case by simp
qed (simp add: emits_Nil)

lemma emits_node:
  assumes "emits tree (children_of tree (length (ct_segments tree)) (Some d)) A" and "d \<notin> A" and "subtree tree d = insert d A"
  shows "emits tree [d] (subtree tree d)"
proof -
  let ?ch = "\<lambda>d. children_of tree (length (ct_segments tree)) (Some d)"
  obtain ys where ys: "distinct ys" "set ys = A"
    "\<And>fuel stack st. \<exists>st'. emitted tree ys st st' \<and>
       preorder_loop (fuel + 2 * length ys) ?ch (map (\<lambda>c. (c, False)) (?ch d) @ stack) st = preorder_loop fuel ?ch stack st'"
    using assms(1) by (auto simp: emits_def)
  have "\<exists>st'. emitted tree (d # ys) st st' \<and>
      preorder_loop (fuel + 2 * length (d # ys)) ?ch ((d, False) # stack) st = preorder_loop fuel ?ch stack st'" for fuel stack st
  proof -
    let ?s1 = "st\<lparr>pr_start := (pr_start st)(d \<mapsto> length (pr_order st)), pr_order := pr_order st @ [d]\<rparr>"
    obtain s2 where s2: "emitted tree ys ?s1 s2"
      "preorder_loop (Suc fuel + 2 * length ys) ?ch (map (\<lambda>c. (c, False)) (?ch d) @ (d, True) # stack) ?s1
        = preorder_loop (Suc fuel) ?ch ((d, True) # stack) s2" using ys(3) by blast
    let ?s3 = "s2\<lparr>pr_stop := (pr_stop s2)(d \<mapsto> length (pr_order s2))\<rparr>"
    have run: "preorder_loop (fuel + 2 * length (d # ys)) ?ch ((d, False) # stack) st = preorder_loop fuel ?ch stack ?s3"
      using s2(2) by simp
    have order: "pr_order s2 = pr_order st @ d # ys" using s2(1) by (simp add: emitted_def)
    have "emitted tree (d # ys) st ?s3" unfolding emitted_def
    proof (intro conjI allI)
      show "pr_order ?s3 = pr_order st @ d # ys" using order by simp
      fix e
      have e2: "if e \<in> set ys then (\<exists>a b. pr_start s2 e = Some (length (pr_order ?s1) + a) \<and>
            pr_stop s2 e = Some (length (pr_order ?s1) + b) \<and> b \<le> length ys \<and> set (slice ys a b) = subtree tree e)
          else pr_start s2 e = pr_start ?s1 e \<and> pr_stop s2 e = pr_stop ?s1 e" using s2(1) unfolding emitted_def by blast
      show "if e \<in> set (d # ys) then (\<exists>a b. pr_start ?s3 e = Some (length (pr_order st) + a) \<and>
            pr_stop ?s3 e = Some (length (pr_order st) + b) \<and> b \<le> length (d # ys) \<and> set (slice (d # ys) a b) = subtree tree e)
          else pr_start ?s3 e = pr_start st e \<and> pr_stop ?s3 e = pr_stop st e"
      proof (cases "e = d")
        case True
        with assms(2) ys(2) e2 have "pr_start s2 d = Some (length (pr_order st))" by simp
        moreover have "set (slice (d # ys) 0 (Suc (length ys))) = subtree tree d"
          using slice_full [of "d # ys"] ys(2) assms(3) by simp
        ultimately have "pr_start ?s3 e = Some (length (pr_order st) + 0) \<and>
            pr_stop ?s3 e = Some (length (pr_order st) + Suc (length ys)) \<and> Suc (length ys) \<le> length (d # ys) \<and>
            set (slice (d # ys) 0 (Suc (length ys))) = subtree tree e"
          using True order by simp
        with True show ?thesis unfolding list.set insert_iff by (simp only: simp_thms if_True) blast
      next
        case ed: False
        show ?thesis
        proof (cases "e \<in> set ys")
          case True
          with e2 obtain a b where "pr_start s2 e = Some (length (pr_order ?s1) + a)"
            "pr_stop s2 e = Some (length (pr_order ?s1) + b)" "b \<le> length ys" "set (slice ys a b) = subtree tree e" by auto
          then have "pr_start ?s3 e = Some (length (pr_order st) + Suc a) \<and>
            pr_stop ?s3 e = Some (length (pr_order st) + Suc b) \<and> Suc b \<le> length (d # ys) \<and>
            set (slice (d # ys) (Suc a) (Suc b)) = subtree tree e"
            using ed by (simp add: slice_def)
          with True show ?thesis unfolding list.set insert_iff by (simp only: simp_thms if_True) blast
        next
          case False
          with e2 ed show ?thesis by simp
        qed
      qed
    qed
    with run show ?thesis by blast
  qed
  with ys(1,2) assms(2,3) show ?thesis unfolding emits_def by (intro exI [of _ "d # ys"]) simp
qed

lemma emits_subtree:
  assumes ok: "tree_ok rs tree" and "d \<in> set (ct_decisions tree)"
  shows "emits tree [d] (subtree tree d)"
  using assms(2)
proof (induction d rule: measure_induct_rule [where f = "\<lambda>d. length (ct_segments tree) - d"])
  case (less d)
  let ?cs = "children_of tree (length (ct_segments tree)) (Some d)"
  have c: "c \<in> set (ct_decisions tree) \<and> decision_above tree c = Some d \<and> d < c \<and> c < length (ct_segments tree)" if "c \<in> set ?cs" for c
  proof -
    have c: "c \<in> set (ct_decisions tree)" "decision_above tree c = Some d" using that unfolding children_mem [OF ok] by blast+
    note cl = decision_bound [OF ok c(1)]
    show ?thesis using decisions_above(1) [OF ok cl c(2)] ancestors_facts(2) [OF ok cl] c cl by blast
  qed
  have "emits tree ?cs (\<Union>c \<in> set ?cs. subtree tree c)"
  proof (rule emits_siblings)
    show "emits tree [c] (subtree tree c)" if "c \<in> set ?cs" for c using less.IH [of c] c [OF that] by (simp add: diff_less_mono2)
    show "distinct ?cs" by (simp add: children_of_def)
    show "subtree tree b \<inter> subtree tree c = {}" if "b \<in> set ?cs" "c \<in> set ?cs" "b \<noteq> c" for b c
    proof -
      have "b = c" if "k \<in> subtree tree b" "k \<in> subtree tree c" for k
        by (rule siblings_disjoint [OF ok _ that]) (use that c [OF \<open>b \<in> set ?cs\<close>] c [OF \<open>c \<in> set ?cs\<close>] in \<open>auto simp: subtree_def\<close>)
      with that(3) show ?thesis by blast
    qed
  qed
  from emits_node [OF this] subtree_unfold [OF ok less.prems] show ?case by simp
qed

lemma decision_subtrees_exact:
  assumes ok: "tree_ok rs tree"
  shows "decision_subtrees tree = Inr (map (\<lambda>d. (d, subtree tree d)) (ct_decisions tree))"
proof -
  let ?ch = "\<lambda>d. children_of tree (length (ct_segments tree)) (Some d)"
  let ?roots = "children_of tree (length (ct_segments tree)) None"
  let ?st = "\<lparr>pr_order = [], pr_start = Map.empty, pr_stop = Map.empty\<rparr>"
  have r: "c \<in> set (ct_decisions tree) \<and> decision_above tree c = None" if "c \<in> set ?roots" for c
    using that unfolding children_mem [OF ok] by blast
  have "emits tree ?roots (\<Union>c \<in> set ?roots. subtree tree c)"
  proof (rule emits_siblings)
    show "emits tree [c] (subtree tree c)" if "c \<in> set ?roots" for c using emits_subtree [OF ok] r [OF that] by simp
    show "distinct ?roots" by (simp add: children_of_def)
    show "subtree tree b \<inter> subtree tree c = {}" if "b \<in> set ?roots" "c \<in> set ?roots" "b \<noteq> c" for b c
    proof -
      have "b = c" if "k \<in> subtree tree b" "k \<in> subtree tree c" for k
        by (rule siblings_disjoint [OF ok _ that]) (use that r [OF \<open>b \<in> set ?roots\<close>] r [OF \<open>c \<in> set ?roots\<close>] in \<open>auto simp: subtree_def\<close>)
      with that(3) show ?thesis by blast
    qed
  qed
  moreover have "(\<Union>c \<in> set ?roots. subtree tree c) = set (ct_decisions tree)"
    using subtree_split(2) [OF ok] r by (fastforce simp: subtree_def)
  ultimately obtain xs where xs: "distinct xs" "set xs = set (ct_decisions tree)"
    "\<And>fuel stack st. \<exists>st'. emitted tree xs st st' \<and>
       preorder_loop (fuel + 2 * length xs) ?ch (map (\<lambda>c. (c, False)) ?roots @ stack) st = preorder_loop fuel ?ch stack st'"
    by (auto simp: emits_def)
  obtain st' where st': "emitted tree xs ?st st'"
    "preorder_loop (0 + 2 * length xs) ?ch (map (\<lambda>c. (c, False)) ?roots @ []) ?st = preorder_loop 0 ?ch [] st'"
    using xs(3) by blast
  have "distinct (ct_decisions tree)" by (rule decisions_distinct [OF ok])
  then have len: "length xs = length (ct_decisions tree)" using xs(1,2) by (metis distinct_card)
  have run: "preorder_loop (2 * length (ct_decisions tree)) ?ch (map (\<lambda>c. (c, False)) ?roots) ?st = Inr st'"
    using st'(2) by (simp add: len)
  have order: "pr_order st' = xs" using st'(1) by (simp add: emitted_def)
  have "branch_of st' d = Inr (d, subtree tree d)" if "d \<in> set (ct_decisions tree)" for d
  proof -
    have "d \<in> set xs" using that xs(2) by simp
    then obtain a b where "pr_start st' d = Some (length (pr_order ?st) + a)" "pr_stop st' d = Some (length (pr_order ?st) + b)"
      "set (slice xs a b) = subtree tree d"
      using st'(1) unfolding emitted_def by metis
    then show ?thesis by (simp add: branch_of_def order)
  qed
  then have "mapE (branch_of st') (ct_decisions tree) = Inr (map (\<lambda>d. (d, subtree tree d)) (ct_decisions tree))"
    by (rule mapE_Inr_map)
  moreover have "fo_children (decision_forest tree) = ?ch" using decision_forest(1) [OF ok] by (rule ext)
  ultimately show ?thesis
    unfolding decision_subtrees_def Let_def decision_forest(2) [OF ok] by (simp add: run order len)
qed

section \<open>The beam\<close>

lemma sort_key_Nil_iff: "sort_key f xs = [] \<longleftrightarrow> xs = []"
  by (metis length_0_conv length_sort)

lemma anyE_total: "(\<And>x. x \<in> set xs \<Longrightarrow> \<exists>b. p x = Inr b) \<Longrightarrow> \<exists>b. anyE p xs = Inr b"
proof (induction xs)
  case (Cons x xs)
  then obtain b c where "p x = Inr b" "anyE p xs = Inr c" by (metis list.set_intros(1,2))
  then have "anyE p (x # xs) = Inr (b \<or> c)" by simp
  then show ?case by blast
qed auto

lemma filterE_total: "(\<And>x. x \<in> set xs \<Longrightarrow> \<exists>b. p x = Inr b) \<Longrightarrow> \<exists>ys. filterE p xs = Inr ys \<and> set ys \<subseteq> set xs"
proof (induction xs)
  case (Cons x xs)
  then obtain b ys where "p x = Inr b" "filterE p xs = Inr ys" "set ys \<subseteq> set xs" by (metis list.set_intros(1,2))
  then show ?case by auto
qed simp

definition width_ok :: "nat \<Rightarrow> search_candidate list \<Rightarrow> bool" where
  "width_ok w cs \<longleftrightarrow> (\<forall>c \<in> set cs. length (sc_score c) = w)"

lemma dominates_total: "length (sc_score c) = w \<Longrightarrow> length (sc_score d) = w \<Longrightarrow> \<exists>b. dominates c d = Inr b"
  by (simp add: dominates_def dominance_def)

lemma pareto_insert_total:
  assumes "length (sc_score c) = w" and "width_ok w frontier"
  shows "\<exists>frontier'. pareto_insert n c frontier = Inr frontier' \<and> set frontier' \<subseteq> insert c (set frontier)"
proof -
  have e: "length (sc_score e) = w" if "e \<in> set frontier" for e using assms(2) that by (simp add: width_ok_def)
  obtain b where b: "anyE (\<lambda>existing. dominates existing c) frontier = Inr b"
    using anyE_total [of frontier "\<lambda>existing. dominates existing c"] dominates_total [OF e assms(1)] by blast
  let ?p = "\<lambda>existing. bindE (dominates c existing) (\<lambda>d. Inr (\<not> d))"
  have p: "\<exists>b. ?p x = Inr b" if "x \<in> set frontier" for x
    using dominates_total [OF assms(1) e [OF that]] by auto
  have "\<exists>ys. filterE ?p frontier = Inr ys \<and> set ys \<subseteq> set frontier" by (rule filterE_total) (rule p)
  then obtain kept where kept: "filterE ?p frontier = Inr kept"
    "set kept \<subseteq> set frontier" by (elim exE conjE)
  show ?thesis
  proof (cases b)
    case False
    have "set (take n (sort_key beam_key (kept @ [c]))) \<subseteq> insert c (set frontier)"
    proof -
      have "set (sort_key beam_key (kept @ [c])) = insert c (set kept)" by (simp only: set_sort set_append list.set Un_insert_right Un_empty_right)
      then show ?thesis using set_take_subset [of n "sort_key beam_key (kept @ [c])"] kept(2) by blast
    qed
    moreover have "pareto_insert n c frontier = Inr (take n (sort_key beam_key (kept @ [c])))"
      using False by (simp only: pareto_insert_def b kept(1) bindE_simps if_False)
    ultimately show ?thesis by blast
  next
    case True
    then have "pareto_insert n c frontier = Inr frontier" by (simp add: pareto_insert_def b)
    then show ?thesis by blast
  qed
qed

lemma pareto_beam_total:
  assumes "width_ok w cs"
  shows "\<exists>beam. pareto_beam n cs = Inr beam \<and> set beam \<subseteq> set cs"
proof -
  have "\<exists>t. foldE (pareto_insert n) (sort_key beam_key cs) [] = Inr t \<and> set t \<subseteq> set cs"
  proof (rule foldE_total)
    show "\<exists>s'. pareto_insert n x s = Inr s' \<and> set s' \<subseteq> set cs" if "x \<in> set (sort_key beam_key cs)" "set s \<subseteq> set cs" for x s
    proof -
      have "length (sc_score x) = w" "width_ok w s" using that assms by (auto simp: width_ok_def)
      from pareto_insert_total [OF this, of n] that show ?thesis by auto
    qed
  qed simp
  then show ?thesis by (simp add: pareto_beam_def)
qed

section \<open>The invariant of the search\<close>

lemma breakE_total:
  assumes "P s" and "\<And>x s. x \<in> set xs \<Longrightarrow> P s \<Longrightarrow> \<exists>s'. f x s = Inr s' \<and> P s'"
  shows "\<exists>t. breakE f stop xs s = Inr t \<and> P t"
  using assms
proof (induction xs arbitrary: s)
  case (Cons x xs)
  then obtain s' where "f x s = Inr s'" "P s'" by fastforce
  with Cons show ?case by (cases "stop s'") auto
qed simp

text \<open>A scorer that returns a tuple of width \<open>w\<close> for every decision.\<close>

definition scorer_ok :: "(payload \<Rightarrow> string) \<Rightarrow> canonical_tree \<Rightarrow> scorer \<Rightarrow> nat \<Rightarrow> bool" where
  "scorer_ok digest tree score w \<longleftrightarrow> (\<forall>S ly. plan_prefix_tree_layout digest tree S = Inr ly \<longrightarrow>
     (\<exists>raw v. score ly = Inr raw \<and> normalize_score raw = Inr v \<and> length v = w))"

definition candidate_ok :: "(payload \<Rightarrow> string) \<Rightarrow> canonical_tree \<Rightarrow> scorer \<Rightarrow> nat \<Rightarrow> search_candidate \<Rightarrow> bool" where
  "candidate_ok digest tree score w c \<longleftrightarrow>
     plan_prefix_tree_layout digest tree (ly_selected (sc_layout c)) = Inr (sc_layout c) \<and> length (sc_score c) = w \<and>
     (\<exists>raw. score (sc_layout c) = Inr raw \<and> normalize_score raw = Inr (sc_score c))"

abbreviation decisions_of :: "search_candidate \<Rightarrow> nat set" where
  "decisions_of c \<equiv> ly_selected (sc_layout c)"

definition best_of :: "search_candidate list \<Rightarrow> search_candidate \<Rightarrow> bool" where
  "best_of cs b \<longleftrightarrow> b \<in> set cs \<and> (\<forall>c \<in> set cs. candidate_rank_key b \<le> candidate_rank_key c)"

definition search_inv :: "(payload \<Rightarrow> string) \<Rightarrow> canonical_tree \<Rightarrow> scorer \<Rightarrow> int \<Rightarrow> nat \<Rightarrow> search_candidate list
    \<Rightarrow> search_state \<Rightarrow> bool" where
  "search_inv digest tree score budget w mandatory st \<longleftrightarrow>
     (\<forall>c \<in> set (ss_scored st). candidate_ok digest tree score w c) \<and>
     distinct (map decisions_of (ss_scored st)) \<and> ss_seen st = decisions_of ` set (ss_scored st) \<and>
     best_of (ss_scored st) (ss_best st) \<and> ss_width st = Some w \<and>
     set (ss_beam st) \<subseteq> set (ss_scored st) \<and> set (ss_tier_new st) \<subseteq> set (ss_scored st) \<and>
     filter sc_mandatory (ss_scored st) = mandatory \<and>
     ss_used st = ss_evaluated st + ss_deduplicated st \<and> int (ss_used st) \<le> budget \<and>
     length (ss_scored st) = length mandatory + ss_evaluated st"

lemma search_invD:
  assumes "search_inv digest tree score budget w mandatory st"
  shows "c \<in> set (ss_scored st) \<Longrightarrow> candidate_ok digest tree score w c"
    "distinct (map decisions_of (ss_scored st))" "ss_seen st = decisions_of ` set (ss_scored st)"
    "best_of (ss_scored st) (ss_best st)" "ss_width st = Some w"
    "set (ss_beam st) \<subseteq> set (ss_scored st)" "set (ss_tier_new st) \<subseteq> set (ss_scored st)"
    "filter sc_mandatory (ss_scored st) = mandatory"
    "ss_used st = ss_evaluated st + ss_deduplicated st" "int (ss_used st) \<le> budget"
    "length (ss_scored st) = length mandatory + ss_evaluated st"
  using assms unfolding search_inv_def by blast+

lemma planned_decisions: "plan_prefix_tree_layout digest tree S = Inr ly \<Longrightarrow> S \<subseteq> set (ct_decisions tree) \<and> ly_selected ly = S"
  by (auto simp: plan_prefix_tree_layout_def result_iffs case_prod_unfold)

lemma try_proposal_total:
  assumes ok: "tree_ok rs tree" and sc: "scorer_ok digest tree score w" and p: "po_decisions p \<subseteq> set (ct_decisions tree)"
    and inv: "search_inv digest tree score budget w mandatory st"
  shows "\<exists>st'. try_proposal digest tree score budget p st = Inr st' \<and> search_inv digest tree score budget w mandatory st'"
proof -
  note I = search_invD [OF inv]
  consider "int (ss_used st) \<ge> budget" | "\<not> int (ss_used st) \<ge> budget" "po_decisions p \<in> ss_seen st"
    | "\<not> int (ss_used st) \<ge> budget" "po_decisions p \<notin> ss_seen st" by blast
  then show ?thesis
  proof cases
    case 1
    with inv show ?thesis by (simp add: try_proposal_def search_inv_def)
  next
    case 2
    with inv show ?thesis by (simp add: try_proposal_def search_inv_def)
  next
    case 3
    obtain ly where ly: "plan_prefix_tree_layout digest tree (po_decisions p) = Inr ly" "ly_selected ly = po_decisions p"
      using layout_facts [OF ok p, of digest] by blast
    obtain raw v where v: "score ly = Inr raw" "normalize_score raw = Inr v" "length v = w"
      using sc ly(1) unfolding scorer_ok_def by blast
    let ?c = "\<lparr>sc_candidate = \<lparr>lc_layout = ly, lc_labels = po_labels p, lc_thresholds = []\<rparr>, sc_score = v, sc_mandatory = False,
      sc_tier = po_tier p, sc_operation = po_operation p, sc_decision = po_decision p,
      sc_parent = Some (sorted_list_of_set (po_parent p)), sc_refinement = po_refinement p\<rparr>"
    let ?st = "st\<lparr>ss_used := ss_used st + 1, ss_seen := insert (po_decisions p) (ss_seen st),
          ss_scored := ss_scored st @ [?c], ss_width := Some (length v), ss_tier_new := ss_tier_new st @ [?c],
          ss_evaluated := ss_evaluated st + 1,
          ss_best := (if candidate_rank_key ?c < candidate_rank_key (ss_best st) then ?c else ss_best st)\<rparr>"
    have run: "try_proposal digest tree score budget p st = Inr ?st"
      using 3 by (simp add: try_proposal_def ly(1) evaluate_def v(1,2) I(5) v(3))
    have lay: "sc_layout ?c = ly" by (simp add: sc_layout_def)
    have cok: "candidate_ok digest tree score w ?c" unfolding candidate_ok_def lay using ly v by simp
    have new: "decisions_of ?c \<notin> decisions_of ` set (ss_scored st)" using 3(2) I(3) lay ly(2) by simp
    have best: "best_of (ss_scored st @ [?c]) (if candidate_rank_key ?c < candidate_rank_key (ss_best st) then ?c else ss_best st)"
      using I(4) unfolding best_of_def by (cases "candidate_rank_key ?c < candidate_rank_key (ss_best st)")
        (auto intro: order_trans [OF less_imp_le])
    have "search_inv digest tree score budget w mandatory ?st"
      unfolding search_inv_def
    proof (intro conjI)
      show "\<forall>c \<in> set (ss_scored ?st). candidate_ok digest tree score w c" using I(1) cok by auto
      show "distinct (map decisions_of (ss_scored ?st))" using I(2) new by simp
      show "ss_seen ?st = decisions_of ` set (ss_scored ?st)" using I(3) lay ly(2) by simp
      show "best_of (ss_scored ?st) (ss_best ?st)" using best by simp
      show "filter sc_mandatory (ss_scored ?st) = mandatory" using I(8) by simp
    qed (use I v(3) 3(1) in auto)
    with run show ?thesis by blast
  qed
qed

lemma search_tier_total:
  assumes ok: "tree_ok rs tree" and sc: "scorer_ok digest tree score w" and d: "decision \<in> set (ct_decisions tree)"
    and subtrees: "subtrees = map (\<lambda>d. (d, subtree tree d)) (ct_decisions tree)"
    and inv: "search_inv digest tree score budget w mandatory st"
  shows "\<exists>st'. search_tier (try_proposal digest tree score budget) n subtrees (tier, decision) st = Inr st' \<and>
    search_inv digest tree score budget w mandatory st'"
proof -
  let ?attempt = "try_proposal digest tree score budget"
  let ?inv = "search_inv digest tree score budget w mandatory"
  have branch: "map_of subtrees decision = Some (subtree tree decision)"
    unfolding subtrees map_of_map_restrict using d by simp
  note I = search_invD [OF inv]
  let ?P = "\<lambda>s. ?inv s \<and> ss_beam s = ss_beam st"
  have keep: "ss_beam s' = ss_beam s" if "?attempt p s = Inr s'" for p s s'
    using that by (auto simp: try_proposal_def result_iffs split: if_splits)
  have start: "?P (st\<lparr>ss_tier_new := []\<rparr>)" using inv by (simp add: search_inv_def)
  have "\<exists>s'. breakE (tier_parent ?attempt tier decision (subtree tree decision)) ss_exhausted (sort_key beam_key (ss_beam st))
      (st\<lparr>ss_tier_new := []\<rparr>) = Inr s' \<and> ?P s'"
  proof (rule breakE_total [where P = ?P, OF start])
    fix parent s assume parent: "parent \<in> set (sort_key beam_key (ss_beam st))" and s: "?P s"
    have "parent \<in> set (ss_scored st)" using parent I(6) by auto
    then have sel: "decisions_of parent \<subseteq> set (ct_decisions tree)"
      using I(1) planned_decisions unfolding candidate_ok_def by blast
    have props: "po_decisions p \<subseteq> set (ct_decisions tree)" if "p \<in> set (tier_proposals tier decision (subtree tree decision) parent)" for p
      using that sel d by (auto simp: tier_proposals_def Let_def subtree_def split: if_splits)
    show "\<exists>s'. tier_parent ?attempt tier decision (subtree tree decision) parent s = Inr s' \<and> ?P s'"
      unfolding tier_parent_def
    proof (rule breakE_total [where P = ?P, OF s])
      fix p s assume p: "p \<in> set (tier_proposals tier decision (subtree tree decision) parent)" and s: "?P s"
      from try_proposal_total [OF ok sc props [OF p] conjunct1 [OF s]] obtain s' where "?attempt p s = Inr s'" "?inv s'" by blast
      with keep s show "\<exists>s'. ?attempt p s = Inr s' \<and> ?P s'" by auto
    qed
  qed
  then obtain s where s: "breakE (tier_parent ?attempt tier decision (subtree tree decision)) ss_exhausted (sort_key beam_key (ss_beam st))
      (st\<lparr>ss_tier_new := []\<rparr>) = Inr s" "?inv s" by blast
  note J = search_invD [OF s(2)]
  have "width_ok w (ss_beam s @ ss_tier_new s)" using J(1,6,7) unfolding width_ok_def candidate_ok_def by fastforce
  then obtain beam where beam: "pareto_beam n (ss_beam s @ ss_tier_new s) = Inr beam" "set beam \<subseteq> set (ss_beam s @ ss_tier_new s)"
    using pareto_beam_total by blast
  show ?thesis
  proof (cases "ss_exhausted s")
    case True
    with s show ?thesis by (simp add: search_tier_def branch)
  next
    case False
    have "?inv (s\<lparr>ss_beam := beam, ss_tiers := ss_tiers s + 1\<rparr>)"
      using s(2) beam(2) J(6,7) by (auto simp: search_inv_def)
    with False s(1) beam(1) show ?thesis by (simp add: search_tier_def branch)
  qed
qed

lemma fold_toggle: "set ds \<subseteq> A \<Longrightarrow> S \<subseteq> A \<Longrightarrow> fold toggle ds S \<subseteq> A"
proof (induction ds arbitrary: S)
  case (Cons d ds)
  show ?case unfolding fold.simps comp_apply
    by (rule Cons.IH) (use Cons.prems in \<open>auto simp: toggle_def\<close>)
qed simp

lemma combinations_subset: "ys \<in> set (combinations n xs) \<Longrightarrow> set ys \<subseteq> set xs"
  by (induction n xs arbitrary: ys rule: combinations.induct) fastforce+

lemma search_order_total:
  assumes ok: "tree_ok rs tree" and sc: "scorer_ok digest tree score w" and ds: "set ds \<subseteq> set (ct_decisions tree)"
    and inv: "search_inv digest tree score budget w mandatory st"
  shows "\<exists>st'. search_order (try_proposal digest tree score budget) ds order st = Inr st' \<and>
    search_inv digest tree score budget w mandatory st'"
proof -
  let ?attempt = "try_proposal digest tree score budget"
  let ?inv = "search_inv digest tree score budget w mandatory"
  let ?base = "ss_best st"
  note I = search_invD [OF inv]
  have base: "?base \<in> set (ss_scored st)" using I(4) by (simp add: best_of_def)
  then have sel: "decisions_of ?base \<subseteq> set (ct_decisions tree)"
    using I(1) planned_decisions unfolding candidate_ok_def by blast
  let ?P = "\<lambda>s. ?inv s \<and> ?base \<in> set (ss_scored s)"
  have keep: "set (ss_scored s) \<subseteq> set (ss_scored s')" if "?attempt p s = Inr s'" for p s s'
    using that by (auto simp: try_proposal_def result_iffs split: if_splits)
  have "\<exists>s'. breakE (\<lambda>refinement. ?attempt (neighborhood_proposal (length ds) order (decisions_of ?base) refinement)) ss_exhausted
      (combinations order ds) st = Inr s' \<and> ?P s'"
  proof (rule breakE_total [where P = ?P])
    show "?P st" using inv base by blast
    fix r s assume r: "r \<in> set (combinations order ds)" and s: "?P s"
    have "po_decisions (neighborhood_proposal (length ds) order (decisions_of ?base) r) \<subseteq> set (ct_decisions tree)"
      using fold_toggle [of r "set (ct_decisions tree)"] combinations_subset [OF r] ds sel by (simp add: neighborhood_proposal_def)
    from try_proposal_total [OF ok sc this conjunct1 [OF s]] keep s
    show "\<exists>s'. ?attempt (neighborhood_proposal (length ds) order (decisions_of ?base) r) s = Inr s' \<and> ?P s'" by blast
  qed
  then obtain s where s: "breakE (\<lambda>refinement. ?attempt (neighborhood_proposal (length ds) order (decisions_of ?base) refinement)) ss_exhausted
      (combinations order ds) st = Inr s" "?inv s" "?base \<in> set (ss_scored s)" by blast
  let ?best = "if candidate_rank_key (ss_best s) < candidate_rank_key ?base then ss_best s else ?base"
  let ?s = "s\<lparr>ss_best := ?best\<rparr>"
  have best: "best_of (ss_scored s) ?best"
    using search_invD(4) [OF s(2)] s(3) unfolding best_of_def by (auto simp: not_less intro: order_trans)
  have inv1: "?inv ?s" using s(2) best unfolding search_inv_def by simp
  have inv2: "?inv (?s\<lparr>ss_orders := ss_orders ?s + 1\<rparr>)" using inv1 unfolding search_inv_def by simp
  have "search_order ?attempt ds order st = Inr (if ss_exhausted ?s then ?s else ?s\<lparr>ss_orders := ss_orders ?s + 1\<rparr>)"
    unfolding search_order_def Let_def s(1) bindE_simps ..
  then show ?thesis using inv1 inv2 by (cases "ss_exhausted ?s") auto
qed

lemma run_search_total:
  assumes ok: "tree_ok rs tree" and sc: "scorer_ok digest tree score w"
    and inv: "search_inv digest tree score budget w mandatory st"
  shows "\<exists>st'. run_search (try_proposal digest tree score budget) n (map (\<lambda>d. (d, subtree tree d)) (ct_decisions tree))
      (ordered_decisions tree) st = Inr st' \<and> search_inv digest tree score budget w mandatory st'"
proof -
  let ?inv = "search_inv digest tree score budget w mandatory"
  have ds: "set (ordered_decisions tree) = set (ct_decisions tree)" by (simp add: ordered_decisions_def)
  have "\<exists>s. breakE (search_tier (try_proposal digest tree score budget) n (map (\<lambda>d. (d, subtree tree d)) (ct_decisions tree)))
      ss_exhausted (List.enumerate 1 (ordered_decisions tree)) st = Inr s \<and> ?inv s"
  proof (rule breakE_total [where P = ?inv, OF inv])
    fix x s assume x: "x \<in> set (List.enumerate 1 (ordered_decisions tree))" and s: "?inv s"
    obtain tier d where xd: "x = (tier, d)" by (cases x)
    have "d \<in> snd ` set (List.enumerate 1 (ordered_decisions tree))" using imageI [OF x, of snd] by (simp add: xd)
    moreover have "snd ` set (List.enumerate 1 (ordered_decisions tree)) = set (ordered_decisions tree)"
      using map_snd_enumerate by (metis list.set_map)
    ultimately have "d \<in> set (ct_decisions tree)" using ds by simp
    from search_tier_total [OF ok sc this refl s]
    show "\<exists>s'. search_tier (try_proposal digest tree score budget) n (map (\<lambda>d. (d, subtree tree d)) (ct_decisions tree)) x s = Inr s' \<and> ?inv s'"
      unfolding xd by simp
  qed
  then obtain s where s: "breakE (search_tier (try_proposal digest tree score budget) n (map (\<lambda>d. (d, subtree tree d)) (ct_decisions tree)))
      ss_exhausted (List.enumerate 1 (ordered_decisions tree)) st = Inr s" "?inv s" by (elim exE conjE)
  show ?thesis
  proof (cases "ss_exhausted s")
    case True
    with s show ?thesis by (simp add: run_search_def)
  next
    case False
    have "\<exists>s'. breakE (search_order (try_proposal digest tree score budget) (ordered_decisions tree)) ss_exhausted
        [1..<min 4 (length (ordered_decisions tree)) + 1] s = Inr s' \<and> ?inv s'"
      by (rule breakE_total [where P = ?inv, OF s(2)]) (use search_order_total [OF ok sc] ds in blast)
    with False s(1) show ?thesis by (simp add: run_search_def)
  qed
qed

section \<open>The generated family passes the checks\<close>

lemma family_valid:
  assumes tree: "build_canonical_prefix_tree digest rs = Inr tree" and cs: "prefix_tree_layout_candidates digest tree = Inr cs"
  shows "validate_mandatory tree cs = Inr ()"
proof -
  note ok = build_canonical_Inr(3) [OF tree]
  obtain cs' where F0: "prefix_tree_layout_candidates digest tree = Inr cs'"
    "distinct (map (\<lambda>c. ly_selected (lc_layout c)) cs')"
    "(\<lambda>c. ly_selected (lc_layout c)) ` set cs' = range (uniform_decisions tree) \<union> {span_scan tree m |m. 0 \<le> m}"
    "\<forall>c \<in> set cs'. plan_prefix_tree_layout digest tree (ly_selected (lc_layout c)) = Inr (lc_layout c)"
    "sorted (map (\<lambda>c. sorted_list_of_set (ly_selected (lc_layout c))) cs')"
    "\<exists>es. labels_ok tree es \<and> set cs' = (\<lambda>e. \<lparr>lc_layout = projr (plan_prefix_tree_layout digest tree (fe_decisions e)),
       lc_labels = fe_labels e, lc_thresholds = fe_thresholds e\<rparr>) ` set es \<and>
       (\<forall>e \<in> set es. ly_selected (projr (plan_prefix_tree_layout digest tree (fe_decisions e))) = fe_decisions e)"
    by (rule candidate_family [OF tree])
  have "cs' = cs" using F0(1) cs by simp
  note F1 = F0 [unfolded this]
  from F1(6) obtain es where F2: "labels_ok tree es" "set cs = (\<lambda>e. \<lparr>lc_layout = projr (plan_prefix_tree_layout digest tree (fe_decisions e)),
       lc_labels = fe_labels e, lc_thresholds = fe_thresholds e\<rparr>) ` set es"
    "\<forall>e \<in> set es. ly_selected (projr (plan_prefix_tree_layout digest tree (fe_decisions e))) = fe_decisions e" by (elim exE conjE)
  note F = F1(2-5) F2
  have sub: "ly_selected (lc_layout c) \<subseteq> set (ct_decisions tree)" if "c \<in> set cs" for c
    using F(3) that planned_decisions by blast
  have fin: "finite (ly_selected (lc_layout c))" if "c \<in> set cs" for c using sub [OF that] finite_subset by blast
  have "uniform_decisions tree 0 \<in> (\<lambda>c. ly_selected (lc_layout c)) ` set cs" unfolding F(2) by (intro UnI1 rangeI)
  then have ne: "cs \<noteq> []" by auto
  have fp: "ly_tree (lc_layout c) = ct_fingerprint tree" if "c \<in> set cs" for c
    using layout_facts [OF ok sub [OF that], of digest] F(3) that by (metis sum.inject(2))
  let ?keys = "map (\<lambda>c. sorted_list_of_set (ly_selected (lc_layout c))) cs"
  have sorted: "sort ?keys = ?keys" using F(4) by (rule sorted_sort_id)
  have dist: "distinct ?keys"
  proof -
    have "distinct (map set ?keys)" using F(1) fin by (simp add: comp_def cong: map_cong)
    then show ?thesis by (metis distinct_map)
  qed
  have entry: "\<exists>e \<in> set es. lc_labels c = fe_labels e \<and> lc_thresholds c = fe_thresholds e \<and> ly_selected (lc_layout c) = fe_decisions e \<and> entry_ok tree e"
    if "c \<in> set cs" for c
  proof -
    have "c \<in> (\<lambda>e. \<lparr>lc_layout = projr (plan_prefix_tree_layout digest tree (fe_decisions e)),
       lc_labels = fe_labels e, lc_thresholds = fe_thresholds e\<rparr>) ` set es" using that unfolding F(6) .
    then obtain e where "e \<in> set es" "c = \<lparr>lc_layout = projr (plan_prefix_tree_layout digest tree (fe_decisions e)),
       lc_labels = fe_labels e, lc_thresholds = fe_thresholds e\<rparr>" by blast
    with F(5,7) show ?thesis by (intro bexI [of _ e]) (simp_all add: labels_ok_def)
  qed
  have labels: "lc_labels c \<noteq> [] \<and> distinct (lc_labels c) \<and> sorted (lc_thresholds c) \<and> distinct (lc_thresholds c)" if "c \<in> set cs" for c
    using entry [OF that] by (auto simp: entry_ok_def)
  have present: "\<exists>c \<in> set cs. fst a \<in> set (lc_labels c)" if "a \<in> set (anchor_decisions tree)" for a
    using F(5,6) that by (fastforce simp: labels_ok_def labelled_def)
  have anchor: "ly_selected (lc_layout c) = snd a" if "a \<in> set (anchor_decisions tree)" "c \<in> set cs" "fst a \<in> set (lc_labels c)" for a c
    using entry [OF that(2)] that(1,3) by (auto simp: entry_ok_def)
  have anchors: "anchor_ok cs a" if a: "a \<in> set (anchor_decisions tree)" for a
  proof -
    let ?fs = "filter (\<lambda>c. fst a \<in> set (lc_labels c)) cs"
    obtain c where c: "c \<in> set cs" "fst a \<in> set (lc_labels c)" using present [OF a] by blast
    have "length ?fs \<le> 1"
    proof (rule at_most_one)
      show "distinct ?fs" using F(1) by (simp add: distinct_map)
      show "x = y" if "x \<in> set ?fs" "y \<in> set ?fs" for x y
        using that anchor [OF a, of x] anchor [OF a, of y] F(1) by (auto simp: distinct_map inj_on_def)
    qed
    moreover have "c \<in> set ?fs" using c by simp
    ultimately have "?fs = [c]" by (cases ?fs; cases "tl ?fs") auto
    with anchor [OF a c] show ?thesis by (simp add: anchor_ok_def)
  qed
  have req: "list_all (\<lambda>l. list_ex (\<lambda>c. l \<in> set (lc_labels c)) cs) [No_Sharing, Depth_One, Full_Sharing]"
    using present by (auto simp: list_ex_iff anchor_decisions_def)
  show ?thesis
    unfolding validate_mandatory_def Let_def
    using ne fp sub sorted dist labels anchors req by (simp only: list_all_iff ensure_simps simp_thms ball_simps) auto
qed


section \<open>The result of the search\<close>

lemma first_min_le: "key (first_min key b xs) \<le> key b"
proof (induction key b xs rule: first_min.induct)
  case (2 key b x xs)
  then show ?case by (cases "key x < key b") (auto intro: order_trans less_imp_le)
qed simp

lemma first_min_least: "y \<in> set (x # xs) \<Longrightarrow> key (first_min key x xs) \<le> key y"
proof (induction key x xs arbitrary: y rule: first_min.induct)
  case (2 key b x xs)
  show ?case
  proof (cases "key x < key b")
    case True
    have "key (first_min key x xs) \<le> key b" using first_min_le [of key x xs] True by (metis order_trans less_imp_le)
    with 2(1) [OF True] 2(3) True show ?thesis by auto
  next
    case False
    have "key (first_min key b xs) \<le> key x" using first_min_le [of key b xs] False by (metis order_trans not_less)
    with 2(2) [OF False] 2(3) False show ?thesis by auto
  qed
qed simp

lemma score_mandatory_total:
  assumes sc: "scorer_ok digest tree score w"
    and cs: "\<forall>c \<in> set cs. plan_prefix_tree_layout digest tree (ly_selected (lc_layout c)) = Inr (lc_layout c)"
    and width: "width = None \<or> width = Some w"
  shows "\<exists>scored. foldE (score_mandatory score) cs (done, width) = Inr (done @ scored, if cs = [] then width else Some w) \<and>
    map sc_candidate scored = cs \<and> (\<forall>c \<in> set scored. candidate_ok digest tree score w c \<and> sc_mandatory c)"
  using cs width
proof (induction cs arbitrary: "done" width)
  case (Cons c cs)
  obtain raw v where v: "score (lc_layout c) = Inr raw" "normalize_score raw = Inr v" "length v = w"
    using sc Cons.prems(1) unfolding scorer_ok_def by (metis list.set_intros(1))
  let ?c = "\<lparr>sc_candidate = c, sc_score = v, sc_mandatory = True, sc_tier = 0, sc_operation = Mandatory, sc_decision = None,
    sc_parent = None, sc_refinement = []\<rparr>"
  have step: "score_mandatory score c (done, width) = Inr (done @ [?c], Some w)"
    using Cons.prems(2) by (auto simp: score_mandatory_def evaluate_def v)
  have ok: "candidate_ok digest tree score w ?c \<and> sc_mandatory ?c"
    using Cons.prems(1) v by (simp add: candidate_ok_def sc_layout_def)
  obtain scored where "foldE (score_mandatory score) cs (done @ [?c], Some w) = Inr ((done @ [?c]) @ scored, if cs = [] then Some w else Some w)"
    "map sc_candidate scored = cs" "\<forall>c \<in> set scored. candidate_ok digest tree score w c \<and> sc_mandatory c"
    using Cons.IH [of "Some w" "done @ [?c]"] Cons.prems(1) by auto
  with step ok show ?case by (intro exI [of _ "?c # scored"]) simp
qed simp

text \<open>Candidates with different decisions have different ranks, so the best one heads the ranking.\<close>

lemma rank_inj:
  assumes "\<forall>c \<in> set cs. candidate_ok digest tree score w c" and "distinct (map decisions_of cs)"
    and "b \<in> set cs" "c \<in> set cs" "candidate_rank_key b = candidate_rank_key c"
  shows "b = c"
proof -
  have fin: "finite (decisions_of x)" if "x \<in> set cs" for x
    using assms(1) that planned_decisions unfolding candidate_ok_def by (metis List.finite_set finite_subset)
  have "sorted_decisions b = sorted_decisions c" using assms(5) by (simp add: candidate_rank_key_def)
  then have "decisions_of b = decisions_of c"
    unfolding sorted_decisions_def using fin [OF assms(3)] fin [OF assms(4)] by (metis set_sorted_list_of_set)
  with assms(2-4) show ?thesis by (simp add: distinct_map inj_on_def)
qed

lemma best_in_shortlist:
  assumes ok: "\<forall>c \<in> set cs. candidate_ok digest tree score w c" and dist: "distinct (map decisions_of cs)"
    and best: "best_of cs b" and limit: "1 \<le> limit"
  shows "b \<in> set (filter sc_mandatory cs @ optional_shortlist limit cs b)"
proof (cases "sc_mandatory b")
  case True
  with best show ?thesis by (simp add: best_of_def)
next
  case False
  let ?opt = "filter (\<lambda>c. \<not> sc_mandatory c) cs"
  let ?ranked = "sort_key candidate_rank_key ?opt"
  have b: "b \<in> set ?ranked" using False best by (simp add: best_of_def)
  then obtain c rest where r: "?ranked = c # rest" by (cases ?ranked) auto
  have "sorted (map candidate_rank_key ?ranked)" by (rule sorted_sort_key)
  with b r have "candidate_rank_key c \<le> candidate_rank_key b" by auto
  moreover have c: "c \<in> set cs" using r by (metis filter_is_subset list.set_intros(1) set_sort subsetD)
  ultimately have "candidate_rank_key b = candidate_rank_key c" using best by (simp add: best_of_def order_antisym)
  with rank_inj [OF ok dist _ c] best have "b = c" by (simp add: best_of_def)
  then have "b \<in> set (take limit ?ranked)" using limit r by (cases limit) auto
  then show ?thesis by (simp add: optional_shortlist_def Let_def)
qed

lemma search_result:
  assumes tree: "build_canonical_prefix_tree digest rs = Inr tree" and sc: "scorer_ok digest tree score w"
    and budget: "0 \<le> budget" and width: "1 \<le> beam_width" and limit: "1 \<le> shortlist_size"
    and given: "given = None \<or> (\<exists>cs. given = Some cs \<and> prefix_tree_layout_candidates digest tree = Inr cs)"
  obtains r cs where "search_nonuniform_prefix_tree_layouts digest search_digest tree score budget beam_width shortlist_size given = Inr r"
    and "prefix_tree_layout_candidates digest tree = Inr cs"
    and "map sc_candidate (filter sc_mandatory (sr_candidates r)) = cs"
    and "\<forall>c \<in> set (sr_candidates r). candidate_ok digest tree score w c"
    and "distinct (map decisions_of (sr_candidates r))" and "best_of (sr_candidates r) (sr_incumbent r)"
    and "set (filter sc_mandatory (sr_candidates r)) \<subseteq> set (sr_shortlist r)" and "sr_incumbent r \<in> set (sr_shortlist r)"
    and "sr_used r = sr_evaluated r + sr_deduplicated r" and "int (sr_used r) \<le> budget"
    and "length (sr_candidates r) = length cs + sr_evaluated r" and "sr_mandatory_count r = length cs"
proof -
  note ok = build_canonical_Inr(3) [OF tree]
  obtain cs where cs: "prefix_tree_layout_candidates digest tree = Inr cs" "distinct (map (\<lambda>c. ly_selected (lc_layout c)) cs)"
    "\<forall>c \<in> set cs. plan_prefix_tree_layout digest tree (ly_selected (lc_layout c)) = Inr (lc_layout c)"
    by (rule candidate_family [OF tree])
  note valid = family_valid [OF tree cs(1)]
  have fam: "(case given of None \<Rightarrow> prefix_tree_layout_candidates digest tree | Some cs \<Rightarrow> Inr cs) = Inr cs"
    using given cs(1) by auto
  have ne: "cs \<noteq> []" using valid by (auto simp: validate_mandatory_def Let_def ensure_Inr_iff)
  obtain scored where scored: "foldE (score_mandatory score) cs ([], None) = Inr (scored, Some w)"
    "map sc_candidate scored = cs" "\<forall>c \<in> set scored. candidate_ok digest tree score w c \<and> sc_mandatory c"
    using score_mandatory_total [OF sc cs(3), of None "[]"] ne by auto
  then obtain c rest where sr: "scored = c # rest" using ne by (cases scored) auto
  let ?inc = "first_min candidate_rank_key c rest"
  have inc: "best_of scored ?inc"
    unfolding best_of_def sr using first_min_mem first_min_least by metis
  have "width_ok w scored" using scored(3) by (simp add: width_ok_def candidate_ok_def)
  then obtain beam where beam: "pareto_beam (nat beam_width) scored = Inr beam" "set beam \<subseteq> set scored"
    using pareto_beam_total by blast
  have dist: "distinct (map decisions_of scored)"
    using cs(2) unfolding scored(2) [symmetric] by (simp add: comp_def sc_layout_def)
  have len: "length scored = length cs" using scored(2) by (metis length_map)
  have all_m: "filter sc_mandatory scored = scored" using scored(3) by (simp add: filter_id_conv)
  have inv: "search_inv digest tree score budget w scored (initial_search scored (Some w) ?inc beam)"
    unfolding search_inv_def initial_search_def using scored(3) dist inc beam(2) all_m budget by simp
  obtain st where st: "run_search (try_proposal digest tree score budget) (nat beam_width)
      (map (\<lambda>d. (d, subtree tree d)) (ct_decisions tree)) (ordered_decisions tree)
      (initial_search scored (Some w) ?inc beam) = Inr st" "search_inv digest tree score budget w scored st"
    using run_search_total [OF ok sc inv] by blast
  note J = search_invD [OF st(2)]
  have "?inc \<in> set (ss_scored st)" using inc J(8) unfolding best_of_def by (metis filter_is_subset subsetD)
  then have "candidate_rank_key (ss_best st) \<le> candidate_rank_key ?inc" using J(4) by (simp add: best_of_def)
  then have assertion: "\<not> candidate_rank_key (ss_best st) > candidate_rank_key ?inc" by (simp add: not_less)
  define r where "r = projr (finish_search search_digest tree budget beam_width shortlist_size (length cs) ?inc st)"
  have fin: "finish_search search_digest tree budget beam_width shortlist_size (length cs) ?inc st = Inr r"
    unfolding r_def finish_search_def Let_def using assertion by (simp only: ensure_simps sum.sel simp_thms)
  have f: "sr_candidates r = ss_scored st" "sr_incumbent r = ss_best st" "sr_used r = ss_used st" "sr_evaluated r = ss_evaluated st"
    "sr_deduplicated r = ss_deduplicated st" "sr_mandatory_count r = length cs"
    "sr_shortlist r = filter sc_mandatory (ss_scored st) @ optional_shortlist (nat shortlist_size) (ss_scored st) (ss_best st)"
    unfolding r_def finish_search_def Let_def using assertion
    by (simp_all only: ensure_simps sum.sel simp_thms search_result.select_convs)
  have run: "search_nonuniform_prefix_tree_layouts digest search_digest tree score budget beam_width shortlist_size given = Inr r"
    unfolding search_nonuniform_prefix_tree_layouts_def fam using budget width limit
    by (simp add: valid scored(1) sr beam(1) [unfolded sr] decision_subtrees_exact [OF ok] st(1) [unfolded sr] fin Let_def)
  have cok: "\<forall>c \<in> set (ss_scored st). candidate_ok digest tree score w c" using J(1) by blast
  have short: "ss_best st \<in> set (sr_shortlist r)" unfolding f(7)
    by (rule best_in_shortlist [OF cok J(2,4)]) (use limit in simp)
  show thesis
    by (rule that [OF run cs(1)])
      (use J cok short f scored(2) len in \<open>simp_all add: f(1-6)\<close>)
qed

section \<open>Properties of the search\<close>

text \<open>
  The branches the tiers share or replay are the subtrees of the decision forest: the
  stack loop ends within two steps per decision, its assertion never fails, and every
  shareable node is mapped to itself and exactly the shareable nodes that have it among
  their ancestors.
\<close>

theorem branches_are_subtrees:
  assumes "build_canonical_prefix_tree digest rs = Inr tree"
  shows "decision_subtrees tree = Inr (map (\<lambda>d. (d,
    {k \<in> set (ct_decisions tree). k = d \<or> d \<in> set (ancestors tree k)})) (ct_decisions tree))"
  using decision_subtrees_exact [OF build_canonical_Inr(3) [OF assms]] unfolding subtree_def .

theorem branches_are_subtrees_witness:
  "decision_subtrees (projr (build_canonical_prefix_tree (\<lambda>p. ''d'') [[1, 2, 3], [1, 2, 4]])) = Inr [(0, {0})]"
proof -
  let ?tree = "projr (build_canonical_prefix_tree (\<lambda>p. ''d'') [[1, 2, 3], [1, 2, 4]])"
  have tree: "build_canonical_prefix_tree (\<lambda>p. ''d'') [[1, 2, 3], [1, 2, 4]] = Inr ?tree"
    and D: "ct_decisions ?tree = [0]" by (simp_all add: canonical_example)
  have "{k. (k = 0 \<or> k = d) \<and> k = (0 :: nat)} = {0}" for d by auto
  then show ?thesis using branches_are_subtrees [OF tree] unfolding D by (simp add: Collect_conv_if)
qed

text \<open>
  C26. The bounded search is total and safe: with a scorer of constant width it never
  raises (neither on the checks of the family nor on its final assertion); every
  candidate it returns carries the planned layout of its decisions and that layout's
  score; no decision set is evaluated twice; the incumbent is the best of all
  candidates, hence no worse than any mandatory anchor; and the shortlist keeps the whole
  mandatory family and the incumbent.
\<close>

theorem search_incumbent_optimal:
  assumes "build_canonical_prefix_tree digest rs = Inr tree" and "scorer_ok digest tree score w"
    and "0 \<le> budget" and "1 \<le> beam_width" and "1 \<le> shortlist_size"
    and "given = None \<or> (\<exists>cs. given = Some cs \<and> prefix_tree_layout_candidates digest tree = Inr cs)"
  shows "\<exists>r cs. search_nonuniform_prefix_tree_layouts digest search_digest tree score budget beam_width shortlist_size given = Inr r \<and>
    prefix_tree_layout_candidates digest tree = Inr cs \<and>
    map sc_candidate (filter sc_mandatory (sr_candidates r)) = cs \<and>
    (\<forall>c \<in> set (sr_candidates r). plan_prefix_tree_layout digest tree (decisions_of c) = Inr (sc_layout c) \<and>
       (\<exists>raw. score (sc_layout c) = Inr raw \<and> normalize_score raw = Inr (sc_score c))) \<and>
    distinct (map decisions_of (sr_candidates r)) \<and>
    sr_incumbent r \<in> set (sr_candidates r) \<and>
    (\<forall>c \<in> set (sr_candidates r). candidate_rank_key (sr_incumbent r) \<le> candidate_rank_key c) \<and>
    set (filter sc_mandatory (sr_candidates r)) \<subseteq> set (sr_shortlist r) \<and> sr_incumbent r \<in> set (sr_shortlist r)"
proof -
  obtain r cs where r: "search_nonuniform_prefix_tree_layouts digest search_digest tree score budget beam_width shortlist_size given = Inr r"
    "prefix_tree_layout_candidates digest tree = Inr cs"
    "map sc_candidate (filter sc_mandatory (sr_candidates r)) = cs"
    "\<forall>c \<in> set (sr_candidates r). candidate_ok digest tree score w c"
    "distinct (map decisions_of (sr_candidates r))" "best_of (sr_candidates r) (sr_incumbent r)"
    "set (filter sc_mandatory (sr_candidates r)) \<subseteq> set (sr_shortlist r)" "sr_incumbent r \<in> set (sr_shortlist r)"
    by (rule search_result [OF assms, of search_digest])
  show ?thesis
    by (intro exI [of _ r] exI [of _ cs]) (use r in \<open>simp add: candidate_ok_def best_of_def\<close>)
qed

text \<open>
  The search respects its budget: the optional proposals attempted are those evaluated
  plus those recognised as duplicates and never exceed the budget, and the layouts
  scored are the mandatory family plus the evaluated proposals.
\<close>

theorem search_budget_respected:
  assumes "build_canonical_prefix_tree digest rs = Inr tree" and "scorer_ok digest tree score w"
    and "0 \<le> budget" and "1 \<le> beam_width" and "1 \<le> shortlist_size"
  shows "\<exists>r. search_nonuniform_prefix_tree_layouts digest search_digest tree score budget beam_width shortlist_size None = Inr r \<and>
    sr_used r = sr_evaluated r + sr_deduplicated r \<and> int (sr_used r) \<le> budget \<and>
    length (sr_candidates r) = total_scoring_work r"
proof -
  show ?thesis
  proof (rule search_result [OF assms, of None search_digest], simp)
    fix r cs
    assume r: "search_nonuniform_prefix_tree_layouts digest search_digest tree score budget beam_width shortlist_size None = Inr r"
      "sr_used r = sr_evaluated r + sr_deduplicated r" "int (sr_used r) \<le> budget"
      "length (sr_candidates r) = length cs + sr_evaluated r" "sr_mandatory_count r = length cs"
    show ?thesis by (intro exI [of _ r]) (use r in \<open>simp add: total_scoring_work_def\<close>)
  qed
qed

text \<open>A scorer for the witnesses: the packed tokens.\<close>

definition packed_scorer :: scorer where
  "packed_scorer ly = Inr (Score_Int (int (ly_packed ly)))"

lemma packed_scorer_ok: "scorer_ok digest tree packed_scorer 1"
  by (simp add: scorer_ok_def packed_scorer_def normalize_score_def)

theorem search_incumbent_optimal_witness:
  "\<exists>r. search_nonuniform_prefix_tree_layouts (\<lambda>p. ''d'') (\<lambda>p. ''s'')
      (projr (build_canonical_prefix_tree (\<lambda>p. ''d'') [[1, 2, 3], [1, 2, 4]])) packed_scorer 5 16 8 None = Inr r \<and>
    sr_incumbent r \<in> set (sr_shortlist r)"
  using search_incumbent_optimal [OF canonical_example packed_scorer_ok, of 5 16 8 None "\<lambda>p. ''s''"]
  unfolding canonical_example sum.sel by (simp only: zero_le_numeral one_le_numeral simp_thms) blast

theorem search_budget_respected_witness:
  "\<exists>r. search_nonuniform_prefix_tree_layouts (\<lambda>p. ''d'') (\<lambda>p. ''s'')
      (projr (build_canonical_prefix_tree (\<lambda>p. ''d'') [[1, 2, 3], [1, 2, 4]])) packed_scorer 2 16 8 None = Inr r \<and>
    int (sr_used r) \<le> 2"
  using search_budget_respected [OF canonical_example packed_scorer_ok, of 2 16 8 "\<lambda>p. ''s''"]
  unfolding canonical_example sum.sel by (simp only: zero_le_numeral one_le_numeral simp_thms) blast

section \<open>Production selection\<close>

definition rerank_step :: "re_ranker \<Rightarrow> int \<Rightarrow> (prefix_tree_layout \<Rightarrow> (int \<times> int) result) \<Rightarrow> nat \<times> search_candidate
    \<Rightarrow> ((int \<times> nat) \<times> search_candidate) option \<Rightarrow> ((int \<times> nat) \<times> search_candidate) option result" where
  "rerank_step rr layers plan_structure x best =
     (case x of (position, candidate) \<Rightarrow>
      bindE (plan_structure (sc_layout candidate)) (\<lambda>(wave_count, max_rank_tokens).
        let key = (reranker_score rr layers wave_count max_rank_tokens, position) in
        Inr (case best of None \<Rightarrow> Some (key, candidate)
          | Some b \<Rightarrow> if key < fst b then Some (key, candidate) else Some b)))"

definition rerank_shortlist :: "re_ranker \<Rightarrow> search_candidate list \<Rightarrow> search_candidate list" where
  "rerank_shortlist rr ranked =
     (let short = take (nat (max 1 (rr_shortlist_size rr))) ranked in
      short @ filter (\<lambda>anchor. sc_mandatory anchor \<and> rr_incumbent rr \<in> set (lc_labels (sc_candidate anchor)) \<and>
        anchor \<notin> set short) ranked)"

definition select_prefix_tree_layout ::
  "(payload \<Rightarrow> string) \<Rightarrow> (search_payload \<Rightarrow> string) \<Rightarrow> canonical_tree \<Rightarrow> score_config \<Rightarrow> int option \<Rightarrow> int
    \<Rightarrow> re_ranker option \<Rightarrow> (prefix_tree_layout \<Rightarrow> (int \<times> int) result) option \<Rightarrow> search_candidate result" where
  "select_prefix_tree_layout digest search_digest tree config version budget reranker plan_structure =
     (let cfg = config\<lparr>cf_version := (case version of None \<Rightarrow> coefficient_version | Some v \<Rightarrow> v)\<rparr>;
          scorer = (\<lambda>ly. bindE (prefix_tree_layout_score cfg ly) (\<lambda>v. Inr (Score_Tuple v))) in
      bindE (prefix_tree_layout_candidates digest tree) (\<lambda>mandatory.
      bindE (search_nonuniform_prefix_tree_layouts digest search_digest tree scorer budget 16 8 (Some mandatory)) (\<lambda>r.
      case reranker of None \<Rightarrow> Inr (sr_incumbent r)
      | Some rr \<Rightarrow>
        (case plan_structure of None \<Rightarrow> Inl (ValueError ''re-ranking needs the plan structure of a layout'')
         | Some structure \<Rightarrow>
           bindE (foldE (rerank_step rr (cf_layers cfg) structure)
              (List.enumerate 0 (rerank_shortlist rr (sort_key candidate_rank_key (sr_candidates r)))) None) (\<lambda>best.
           case best of None \<Rightarrow> Inl (AssertionError '''') | Some b \<Rightarrow> Inr (snd b))))))"

definition tuple_scorer :: "score_config \<Rightarrow> scorer" where
  "tuple_scorer cfg ly = bindE (prefix_tree_layout_score cfg ly) (\<lambda>v. Inr (Score_Tuple v))"

lemma tuple_scorer_ok:
  assumes ok: "tree_ok rs tree" and cfg: "config_ok cfg"
  shows "scorer_ok digest tree (tuple_scorer cfg) 4"
  unfolding scorer_ok_def
proof (intro allI impI)
  fix S ly assume ly: "plan_prefix_tree_layout digest tree S = Inr ly"
  obtain segs where "ly_segments ly = Inr segs" "ly_count ly = length segs"
    using layout_facts [OF ok conjunct1 [OF planned_decisions [OF ly]], of digest] ly by (metis sum.inject(2))
  from layout_score_exists [OF cfg this] obtain v where "prefix_tree_layout_score cfg ly = Inr v" "length v = 4" by auto
  then have "tuple_scorer cfg ly = Inr (Score_Tuple v) \<and> normalize_score (Score_Tuple v) = Inr v \<and> length v = 4"
    by (auto simp: tuple_scorer_def normalize_score_def ensure_def)
  then show "\<exists>raw v. tuple_scorer cfg ly = Inr raw \<and> normalize_score raw = Inr v \<and> length v = 4" by blast
qed

lemma tuple_scorer_score:
  "tuple_scorer cfg ly = Inr raw \<Longrightarrow> normalize_score raw = Inr v \<Longrightarrow> prefix_tree_layout_score cfg ly = Inr v"
  by (auto simp: tuple_scorer_def normalize_score_def bindE_Inr_iff ensure_Inr_iff)

text \<open>The search production selection runs.\<close>

definition selection_search ::
  "(payload \<Rightarrow> string) \<Rightarrow> (search_payload \<Rightarrow> string) \<Rightarrow> canonical_tree \<Rightarrow> score_config \<Rightarrow> int \<Rightarrow> search_result result" where
  "selection_search digest search_digest tree cfg budget =
     search_nonuniform_prefix_tree_layouts digest search_digest tree (tuple_scorer cfg) budget 16 8
       (Some (projr (prefix_tree_layout_candidates digest tree)))"

lemma selection_search_facts:
  assumes tree: "build_canonical_prefix_tree digest rs = Inr tree" and cfg: "config_ok cfg" and budget: "0 \<le> budget"
  obtains r cs where "selection_search digest search_digest tree cfg budget = Inr r"
    and "prefix_tree_layout_candidates digest tree = Inr cs"
    and "map sc_candidate (filter sc_mandatory (sr_candidates r)) = cs"
    and "\<forall>c \<in> set (sr_candidates r). candidate_ok digest tree (tuple_scorer cfg) 4 c"
    and "best_of (sr_candidates r) (sr_incumbent r)"
    and "distinct (map decisions_of (sr_candidates r))"
proof -
  obtain cs where cs: "prefix_tree_layout_candidates digest tree = Inr cs" by (rule candidate_family [OF tree])
  note sc = tuple_scorer_ok [OF build_canonical_Inr(3) [OF tree] cfg, of digest]
  show thesis
  proof (rule search_result [OF tree sc budget, of 16 8 "Some cs" search_digest])
    show "Some cs = None \<or> (\<exists>cs'. Some cs = Some cs' \<and> prefix_tree_layout_candidates digest tree = Inr cs')" using cs by simp
    fix r cs' assume r: "search_nonuniform_prefix_tree_layouts digest search_digest tree (tuple_scorer cfg) budget 16 8 (Some cs) = Inr r"
      "prefix_tree_layout_candidates digest tree = Inr cs'"
      "map sc_candidate (filter sc_mandatory (sr_candidates r)) = cs'"
      "\<forall>c \<in> set (sr_candidates r). candidate_ok digest tree (tuple_scorer cfg) 4 c"
      "distinct (map decisions_of (sr_candidates r))" "best_of (sr_candidates r) (sr_incumbent r)"
    show thesis by (rule that [of r cs']) (use r cs in \<open>simp_all add: selection_search_def\<close>)
  qed simp_all
qed

lemma select_unfold:
  assumes "prefix_tree_layout_candidates digest tree = Inr cs"
  shows "select_prefix_tree_layout digest search_digest tree cfg (Some (cf_version cfg)) budget reranker plan_of =
    bindE (selection_search digest search_digest tree cfg budget) (\<lambda>r.
      case reranker of None \<Rightarrow> Inr (sr_incumbent r)
      | Some rr \<Rightarrow>
        (case plan_of of None \<Rightarrow> Inl (ValueError ''re-ranking needs the plan structure of a layout'')
         | Some plan_of \<Rightarrow>
           bindE (foldE (rerank_step rr (cf_layers cfg) plan_of)
              (List.enumerate 0 (rerank_shortlist rr (sort_key candidate_rank_key (sr_candidates r)))) None) (\<lambda>best.
           case best of None \<Rightarrow> Inl (AssertionError '''') | Some b \<Rightarrow> Inr (snd b))))"
proof -
  have "cfg\<lparr>cf_version := cf_version cfg\<rparr> = cfg" by simp
  moreover have "(\<lambda>ly. bindE (prefix_tree_layout_score cfg ly) (\<lambda>v. Inr (Score_Tuple v))) = tuple_scorer cfg"
    by (rule ext) (simp add: tuple_scorer_def)
  ultimately show ?thesis
    by (simp only: select_prefix_tree_layout_def Let_def assms bindE_simps option.case selection_search_def sum.sel)
qed

lemma production_selection:
  assumes "build_canonical_prefix_tree digest rs = Inr tree" and "0 \<le> budget"
    and "select_scoring capability memory dtype geometry shape = Inr sel"
  shows "\<exists>c. select_prefix_tree_layout digest search_digest tree (configured sel cp layers uses_gdn tp gdn)
      (Some (se_version sel)) budget (se_reranker sel) plan_of = Inr c \<and>
    plan_prefix_tree_layout digest tree (decisions_of c) = Inr (sc_layout c) \<and>
    prefix_tree_layout_score (configured sel cp layers uses_gdn tp gdn) (sc_layout c) = Inr (sc_score c) \<and>
    (\<forall>S \<in> range (uniform_decisions tree) \<union> {S. \<exists>m. effective_span_decisions tree m = Inr S}.
       \<exists>ly v. plan_prefix_tree_layout digest tree S = Inr ly \<and>
         prefix_tree_layout_score (configured sel cp layers uses_gdn tp gdn) ly = Inr v \<and> sc_score c \<le> v)"
proof -
  let ?cfg = "configured sel cp layers uses_gdn tp gdn"
  note cfg = selection_config_ok(1) [OF assms(3), of cp layers uses_gdn tp gdn] and rr = selection_config_ok(2) [OF assms(3)]
  obtain r cs where r: "selection_search digest search_digest tree ?cfg budget = Inr r"
    "prefix_tree_layout_candidates digest tree = Inr cs"
    "map sc_candidate (filter sc_mandatory (sr_candidates r)) = cs"
    "\<forall>c \<in> set (sr_candidates r). candidate_ok digest tree (tuple_scorer ?cfg) 4 c"
    "best_of (sr_candidates r) (sr_incumbent r)"
    by (rule selection_search_facts [OF assms(1) cfg assms(2), of search_digest])
  obtain cs' where fam: "prefix_tree_layout_candidates digest tree = Inr cs'"
    "(\<lambda>c. ly_selected (lc_layout c)) ` set cs' = range (uniform_decisions tree) \<union> {span_scan tree m |m. 0 \<le> m}"
    by (rule candidate_family [OF assms(1)])
  have cs': "cs' = cs" using fam(1) r(2) by simp
  have spans: "{span_scan tree m |m. 0 \<le> m} = {S. \<exists>m. effective_span_decisions tree m = Inr S}"
    by (auto simp: effective_span_decisions_def ensure_Inr_iff not_less)
  let ?c = "sr_incumbent r"
  have inc: "?c \<in> set (sr_candidates r)" using r(5) by (simp add: best_of_def)
  have good: "plan_prefix_tree_layout digest tree (decisions_of d) = Inr (sc_layout d) \<and>
      prefix_tree_layout_score ?cfg (sc_layout d) = Inr (sc_score d)" if "d \<in> set (sr_candidates r)" for d
    using r(4) that tuple_scorer_score unfolding candidate_ok_def by blast
  have "\<exists>ly v. plan_prefix_tree_layout digest tree S = Inr ly \<and> prefix_tree_layout_score ?cfg ly = Inr v \<and> sc_score ?c \<le> v"
    if S: "S \<in> range (uniform_decisions tree) \<union> {S. \<exists>m. effective_span_decisions tree m = Inr S}" for S
  proof -
    have "S \<in> (\<lambda>c. ly_selected (lc_layout c)) ` set cs" using S unfolding cs' [symmetric] fam(2) spans .
    then obtain k where k: "k \<in> set cs" "S = ly_selected (lc_layout k)" by blast
    then have "k \<in> sc_candidate ` set (filter sc_mandatory (sr_candidates r))" unfolding r(3) [symmetric] by simp
    then obtain d where "d \<in> set (filter sc_mandatory (sr_candidates r))" "k = sc_candidate d" by (elim imageE)
    with k have d: "d \<in> set (sr_candidates r)" "S = decisions_of d" by (auto simp: sc_layout_def)
    have "candidate_rank_key ?c \<le> candidate_rank_key d" using r(5) d(1) by (simp add: best_of_def)
    then have "sc_score ?c \<le> sc_score d" by (auto simp: candidate_rank_key_def less_eq_prod_def)
    with good [OF d(1)] d(2) show ?thesis by blast
  qed
  moreover have "select_prefix_tree_layout digest search_digest tree ?cfg (Some (se_version sel)) budget (se_reranker sel) plan_of = Inr ?c"
    using select_unfold [OF r(2), of search_digest ?cfg budget None plan_of] r(1) by (simp add: rr configured_def)
  ultimately show ?thesis using good [OF inc] by blast
qed

text \<open>
  C27. Production selection composes: for every set of nonempty rows, runtime, topology and
  budget the layout selection returns (no check, assertion or lookup fails), the chosen
  layout is the plan of its decisions with its own score, and no uniform depth and no
  minimum-span policy, no sharing and full sharing among them, gives a lower score.
\<close>

theorem production_selection_optimal:
  assumes "build_canonical_prefix_tree digest rs = Inr tree" and "0 \<le> budget"
    and "select_scoring capability memory dtype geometry shape = Inr sel"
  shows "\<exists>c. select_prefix_tree_layout digest search_digest tree (configured sel cp layers uses_gdn tp gdn)
      (Some (se_version sel)) budget (se_reranker sel) plan_of = Inr c \<and>
    plan_prefix_tree_layout digest tree (decisions_of c) = Inr (sc_layout c) \<and>
    prefix_tree_layout_score (configured sel cp layers uses_gdn tp gdn) (sc_layout c) = Inr (sc_score c) \<and>
    (\<forall>S \<in> range (uniform_decisions tree) \<union> {S. \<exists>m. effective_span_decisions tree m = Inr S}.
       \<exists>ly v. plan_prefix_tree_layout digest tree S = Inr ly \<and>
         prefix_tree_layout_score (configured sel cp layers uses_gdn tp gdn) ly = Inr v \<and> sc_score c \<le> v)"
  using assms by (rule production_selection)

theorem production_selection_optimal_witness:
  "\<exists>c. select_prefix_tree_layout (\<lambda>p. ''d'') (\<lambda>p. ''s'')
      (projr (build_canonical_prefix_tree (\<lambda>p. ''d'') [[1, 2, 3], [1, 2, 4]]))
      (configured (table_selection dense_attn_h4096_table) 4 36 False 1 None)
      (Some (se_version (table_selection dense_attn_h4096_table))) 50
      (se_reranker (table_selection dense_attn_h4096_table)) None = Inr c"
proof -
  let ?tree = "projr (build_canonical_prefix_tree (\<lambda>p. ''d'') [[1, 2, 3], [1, 2, 4]])"
  have tree: "build_canonical_prefix_tree (\<lambda>p. ''d'') [[1, 2, 3], [1, 2, 4]] = Inr ?tree" by (simp add: canonical_example)
  have "(0 :: int) \<le> 50" by simp
  from production_selection_optimal [OF tree this selection_example, of "\<lambda>p. ''s''" 4 36 False 1 None None] show ?thesis by blast
qed

section \<open>Re-ranking\<close>

definition stage_two :: "re_ranker \<Rightarrow> int \<Rightarrow> (prefix_tree_layout \<Rightarrow> (int \<times> int) result) \<Rightarrow> search_candidate \<Rightarrow> int" where
  "stage_two rr layers plan_of c =
     (case plan_of (sc_layout c) of Inl e \<Rightarrow> 0 | Inr (waves, load) \<Rightarrow> reranker_score rr layers waves load)"

lemma rerank_loop:
  assumes "\<And>ly. is_ok (plan_of ly)"
  shows "\<exists>best. foldE (rerank_step rr layers plan_of) xs st = Inr best \<and>
    (case best of None \<Rightarrow> xs = [] \<and> st = None
     | Some b \<Rightarrow> (Some b = st \<or> (\<exists>x \<in> set xs. b = ((stage_two rr layers plan_of (snd x), fst x), snd x))) \<and>
         (\<forall>x \<in> set xs. fst (fst b) \<le> stage_two rr layers plan_of (snd x)) \<and>
         (\<forall>s. st = Some s \<longrightarrow> fst (fst b) \<le> fst (fst s)))"
proof (induction xs arbitrary: st)
  case Nil
  then show ?case by (cases st) auto
next
  case (Cons x xs)
  obtain pos c where x: "x = (pos, c)" by (cases x)
  obtain w t where wt: "plan_of (sc_layout c) = Inr (w, t)" using assms by (metis is_ok_iff surj_pair)
  let ?s = "stage_two rr layers plan_of c"
  have s: "?s = reranker_score rr layers w t" by (simp add: stage_two_def wt)
  define st' where "st' = (case st of None \<Rightarrow> Some ((?s, pos), c) | Some b \<Rightarrow> if (?s, pos) < fst b then Some ((?s, pos), c) else Some b)"
  have step: "rerank_step rr layers plan_of x st = Inr st'" unfolding rerank_step_def x prod.case wt bindE_simps Let_def st'_def s ..
  obtain best where best: "foldE (rerank_step rr layers plan_of) xs st' = Inr best"
    "case best of None \<Rightarrow> xs = [] \<and> st' = None
     | Some b \<Rightarrow> (Some b = st' \<or> (\<exists>x \<in> set xs. b = ((stage_two rr layers plan_of (snd x), fst x), snd x))) \<and>
         (\<forall>x \<in> set xs. fst (fst b) \<le> stage_two rr layers plan_of (snd x)) \<and>
         (\<forall>s. st' = Some s \<longrightarrow> fst (fst b) \<le> fst (fst s))" using Cons.IH [of st'] by blast
  have st': "\<exists>s'. st' = Some s' \<and> (Some s' = st \<or> s' = ((?s, pos), c)) \<and> fst (fst s') \<le> ?s \<and>
      (\<forall>s. st = Some s \<longrightarrow> fst (fst s') \<le> fst (fst s))"
    by (cases st) (auto simp: st'_def less_prod_def not_less)
  then obtain s' where s': "st' = Some s'" "Some s' = st \<or> s' = ((?s, pos), c)" "fst (fst s') \<le> ?s"
    "\<forall>s. st = Some s \<longrightarrow> fst (fst s') \<le> fst (fst s)" by blast
  obtain b where b: "best = Some b" using best(2) s'(1) by (cases best) auto
  have B: "Some b = st' \<or> (\<exists>x \<in> set xs. b = ((stage_two rr layers plan_of (snd x), fst x), snd x))"
    "\<forall>x \<in> set xs. fst (fst b) \<le> stage_two rr layers plan_of (snd x)" "fst (fst b) \<le> fst (fst s')"
    using best(2) unfolding b s'(1) by simp_all
  have "Some b = st \<or> (\<exists>x \<in> set (x # xs). b = ((stage_two rr layers plan_of (snd x), fst x), snd x))"
    using B(1) s'(1,2) x by auto
  moreover have "\<forall>y \<in> set (x # xs). fst (fst b) \<le> stage_two rr layers plan_of (snd y)"
    using B(2,3) s'(3) x by auto
  moreover have "\<forall>s. st = Some s \<longrightarrow> fst (fst b) \<le> fst (fst s)" using B(3) s'(4) order_trans by blast
  ultimately show ?case using step best(1) b by simp
qed


lemma foldE_enumerate_members: "snd ` set (List.enumerate n xs) = set xs"
  by (metis list.set_map map_snd_enumerate)

text \<open>The shortlist of the second stage starts with the cheapest layout and keeps the anchors.\<close>

lemma shortlist_facts:
  fixes rr :: re_ranker and cs :: "search_candidate list"
  defines "short \<equiv> rerank_shortlist rr (sort_key candidate_rank_key cs)"
  shows "\<forall>c \<in> set cs. candidate_ok digest tree score w c \<Longrightarrow> best_of cs b \<Longrightarrow> distinct (map decisions_of cs) \<Longrightarrow> b \<in> set short"
    and "a \<in> set cs \<Longrightarrow> sc_mandatory a \<Longrightarrow> rr_incumbent rr \<in> set (lc_labels (sc_candidate a)) \<Longrightarrow> a \<in> set short"
    and "set short \<subseteq> set cs"
proof -
  let ?ranked = "sort_key candidate_rank_key cs"
  assume ok: "\<forall>c \<in> set cs. candidate_ok digest tree score w c" and best: "best_of cs b" and dist: "distinct (map decisions_of cs)"
  have inc: "b \<in> set cs" using best by (simp add: best_of_def)
  obtain c rest where rk: "?ranked = c # rest" using inc by (cases ?ranked) (auto simp: sort_key_Nil_iff)
  have "c = b"
  proof (rule rank_inj [OF ok dist])
    show c: "c \<in> set cs" using rk by (metis list.set_intros(1) set_sort)
    have "sorted (map candidate_rank_key ?ranked)" by (rule sorted_sort_key)
    moreover have "b \<in> set ?ranked" using inc by simp
    ultimately have "candidate_rank_key c \<le> candidate_rank_key b" unfolding rk by auto
    then show "candidate_rank_key c = candidate_rank_key b" using best c by (simp add: best_of_def order_antisym)
  qed (rule inc)
  then show "b \<in> set short"
    unfolding short_def rerank_shortlist_def Let_def rk by (cases "nat (max 1 (rr_shortlist_size rr))") auto
next
  show "a \<in> set cs \<Longrightarrow> sc_mandatory a \<Longrightarrow> rr_incumbent rr \<in> set (lc_labels (sc_candidate a)) \<Longrightarrow> a \<in> set short"
    by (auto simp: short_def rerank_shortlist_def Let_def)
  show "set short \<subseteq> set cs"
    using set_take_subset [of "nat (max 1 (rr_shortlist_size rr))" "sort_key candidate_rank_key cs"]
    by (auto simp: short_def rerank_shortlist_def Let_def)
qed

text \<open>
  C28. Re-ranking only improves: whenever the plan structure of every layout is known, the
  two-stage selection returns one of the searched candidates, and under the second-stage
  score it is no worse than the cheapest layout of the search and no worse than every
  mandatory anchor that carries the incumbent's label.
\<close>

theorem reranking_improves:
  assumes "build_canonical_prefix_tree digest rs = Inr tree" and "0 \<le> budget" and "config_ok cfg"
    and "\<forall>ly. is_ok (plan_of ly)"
  shows "\<exists>r c. selection_search digest search_digest tree cfg budget = Inr r \<and>
    select_prefix_tree_layout digest search_digest tree cfg (Some (cf_version cfg)) budget (Some rr) (Some plan_of) = Inr c \<and>
    c \<in> set (sr_candidates r) \<and>
    stage_two rr (cf_layers cfg) plan_of c \<le> stage_two rr (cf_layers cfg) plan_of (sr_incumbent r) \<and>
    (\<forall>a \<in> set (sr_candidates r). sc_mandatory a \<and> rr_incumbent rr \<in> set (lc_labels (sc_candidate a)) \<longrightarrow>
       stage_two rr (cf_layers cfg) plan_of c \<le> stage_two rr (cf_layers cfg) plan_of a)"
proof -
  obtain r cs where r: "selection_search digest search_digest tree cfg budget = Inr r"
    "prefix_tree_layout_candidates digest tree = Inr cs"
    "\<forall>c \<in> set (sr_candidates r). candidate_ok digest tree (tuple_scorer cfg) 4 c"
    "best_of (sr_candidates r) (sr_incumbent r)" "distinct (map decisions_of (sr_candidates r))"
    by (rule selection_search_facts [OF assms(1,3,2), of search_digest])
  let ?ranked = "sort_key candidate_rank_key (sr_candidates r)"
  let ?short = "rerank_shortlist rr ?ranked"
  let ?v = "stage_two rr (cf_layers cfg) plan_of"
  note head = shortlist_facts(1) [OF r(3-5)] and anchors = shortlist_facts(2) and sub = shortlist_facts(3)
  obtain best where best: "foldE (rerank_step rr (cf_layers cfg) plan_of) (List.enumerate 0 ?short) None = Inr best"
    "case best of None \<Rightarrow> List.enumerate 0 ?short = [] \<and> None = (None :: ((int \<times> nat) \<times> search_candidate) option)
     | Some b \<Rightarrow> (Some b = None \<or> (\<exists>x \<in> set (List.enumerate 0 ?short). b = ((?v (snd x), fst x), snd x))) \<and>
         (\<forall>x \<in> set (List.enumerate 0 ?short). fst (fst b) \<le> ?v (snd x)) \<and> (\<forall>s :: (int \<times> nat) \<times> search_candidate. None = Some s \<longrightarrow> fst (fst b) \<le> fst (fst s))"
    using rerank_loop [of plan_of rr "cf_layers cfg" "List.enumerate 0 ?short" None, OF spec [OF assms(4)]] by (elim exE conjE)
  have "List.enumerate 0 ?short \<noteq> []" using head foldE_enumerate_members [of 0 ?short] by (metis empty_iff image_empty list.set(1))
  then obtain b where b: "best = Some b" using best(2) by (cases best) auto
  have B: "\<exists>x \<in> set (List.enumerate 0 ?short). b = ((?v (snd x), fst x), snd x)"
    "\<forall>x \<in> set (List.enumerate 0 ?short). fst (fst b) \<le> ?v (snd x)"
    using best(2) unfolding b by simp_all
  from B(1) obtain x where x: "x \<in> set (List.enumerate 0 ?short)" "b = ((?v (snd x), fst x), snd x)" by blast
  then have val: "fst (fst b) = ?v (snd b)" by simp
  have mem: "snd b \<in> set ?short" using imageI [OF x(1), of snd] unfolding foldE_enumerate_members x(2) by simp
  have least: "?v (snd b) \<le> ?v a" if "a \<in> set ?short" for a
  proof -
    from that obtain x where "x \<in> set (List.enumerate 0 ?short)" "a = snd x" using foldE_enumerate_members [of 0 ?short] by blast
    with B(2) val show ?thesis by simp
  qed
  have "select_prefix_tree_layout digest search_digest tree cfg (Some (cf_version cfg)) budget (Some rr) (Some plan_of) = Inr (snd b)"
    using select_unfold [OF r(2), of search_digest cfg budget "Some rr" "Some plan_of"] r(1) best(1) b by simp
  then show ?thesis
    by (intro exI [of _ r] exI [of _ "snd b"]) (use r(1) mem sub least head anchors in blast)
qed

theorem reranking_improves_witness:
  "\<exists>r c. selection_search (\<lambda>p. ''d'') (\<lambda>p. ''s'')
      (projr (build_canonical_prefix_tree (\<lambda>p. ''d'') [[1, 2, 3], [1, 2, 4]]))
      (configured fallback_selection 4 36 False 1 None) 50 = Inr r \<and>
    select_prefix_tree_layout (\<lambda>p. ''d'') (\<lambda>p. ''s'')
      (projr (build_canonical_prefix_tree (\<lambda>p. ''d'') [[1, 2, 3], [1, 2, 4]]))
      (configured fallback_selection 4 36 False 1 None) (Some (cf_version (configured fallback_selection 4 36 False 1 None))) 50
      (Some \<lparr>rr_shortlist_size = 2, rr_incumbent = Depth_One, rr_coefficients = [], rr_wave = 7, rr_token = 1\<rparr>)
      (Some (\<lambda>ly. Inr (int (ly_depth ly), int (ly_packed ly)))) = Inr c \<and> c \<in> set (sr_candidates r)"
proof -
  let ?tree = "projr (build_canonical_prefix_tree (\<lambda>p. ''d'') [[1, 2, 3], [1, 2, 4]])"
  have tree: "build_canonical_prefix_tree (\<lambda>p. ''d'') [[1, 2, 3], [1, 2, 4]] = Inr ?tree" by (simp add: canonical_example)
  have b: "(0 :: int) \<le> 50" by simp
  have c: "config_ok (configured fallback_selection 4 36 False 1 None)"
    by (simp add: config_ok_def configured_def fallback_selection_def)
  have p: "\<forall>ly. is_ok (Inr (int (ly_depth ly), int (ly_packed ly)) :: (int \<times> int) result)" by simp
  from reranking_improves [OF tree b c p, of "\<lambda>p. ''s''"
      "\<lparr>rr_shortlist_size = 2, rr_incumbent = Depth_One, rr_coefficients = [], rr_wave = 7, rr_token = 1\<rparr>"]
  show ?thesis by blast
qed

end
