(* ===== verification/Adapter_Leases.thy ===== *)
theory Adapter_Leases
  imports Art_Prelude "HOL-Library.Mapping" "HOL-Library.AList_Mapping"
begin

text \<open>
  Adapter leases: the reference counts that keep a served adapter alive while requests
  use it (local/adapter_leases.py), the names requests are sent under (adapter_leases.py,
  local/backend.py), and the serving side that loads and unloads adapters while leases
  are taken, returned and pruned concurrently (unsloth/service.py).
\<close>

section \<open>Counting leases\<close>

text \<open>A Counter is a dict whose missing keys read as 0.\<close>

type_synonym lease_counts = "(int, int) mapping"

definition lease_count :: "(int \<Rightarrow> int option) \<Rightarrow> int \<Rightarrow> int" where
  "lease_count c s = (case c s of None \<Rightarrow> 0 | Some n \<Rightarrow> n)"

definition lease_enter :: "int \<Rightarrow> lease_counts \<Rightarrow> lease_counts" where
  "lease_enter s c = Mapping.update s (lease_count (Mapping.lookup c) s + 1) c"

definition lease_exit :: "int \<Rightarrow> lease_counts \<Rightarrow> lease_counts" where
  "lease_exit s c =
     (let c' = Mapping.update s (lease_count (Mapping.lookup c) s - 1) c
      in if lease_count (Mapping.lookup c') s \<le> 0 then Mapping.delete s c' else c')"

definition active_steps :: "lease_counts \<Rightarrow> int set" where
  "active_steps c = Mapping.keys c"

text \<open>The counts of a bag of outstanding leases, given by how often each step is leased.\<close>

definition counts_of :: "(int \<Rightarrow> nat) \<Rightarrow> int \<Rightarrow> int option" where
  "counts_of h = (\<lambda>s. if h s = 0 then None else Some (int (h s)))"

lemma lease_enter_counts:
  "Mapping.lookup c = counts_of h \<Longrightarrow> Mapping.lookup (lease_enter s c) = counts_of (h(s := Suc (h s)))"
  by (rule ext) (simp add: lease_enter_def lease_count_def counts_of_def lookup_update')

lemma lease_exit_counts:
  "Mapping.lookup c = counts_of h \<Longrightarrow> 0 < h s \<Longrightarrow> Mapping.lookup (lease_exit s c) = counts_of (h(s := h s - 1))"
proof (rule ext)
  fix u
  assume "Mapping.lookup c = counts_of h" and "0 < h s"
  then show "Mapping.lookup (lease_exit s c) u = counts_of (h(s := h s - 1)) u"
    by (cases "u = s") (auto simp: lease_exit_def lease_count_def counts_of_def Let_def)
qed

lemma active_counts: "Mapping.lookup c = counts_of h \<Longrightarrow> active_steps c = {s. 0 < h s}"
  by (auto simp: active_steps_def counts_of_def keys_is_none_rep split: if_splits)

section \<open>Names of served adapters\<close>

datatype update_mode = Step_Lora | In_Flight_Lora

text \<open>Decimal notation, as the f-strings of the source print an int.\<close>

fun decimal :: "nat \<Rightarrow> string" where
  "decimal n = (if n < 10 then [char_of (48 + n)] else decimal (n div 10) @ [char_of (48 + n mod 10)])"

declare decimal.simps [simp del]

definition show_int :: "int \<Rightarrow> string" where
  "show_int k = (if k < 0 then ''-'' @ decimal (nat (- k)) else decimal (nat k))"

definition in_flight_lora_name :: "string \<Rightarrow> string" where
  "in_flight_lora_name model_name = model_name @ '':active''"

definition exact_lora_name :: "update_mode \<Rightarrow> string \<Rightarrow> int \<Rightarrow> string" where
  "exact_lora_name mode model_name step =
     (if mode = In_Flight_Lora then model_name @ '':eval@'' @ show_int step else model_name @ ''@'' @ show_int step)"

record inference_target =
  it_step :: int
  it_model_name :: "string option"

type_synonym pinned_targets = "string \<Rightarrow> inference_target option"

definition pinned_inference_step :: "pinned_targets \<Rightarrow> string \<Rightarrow> int option" where
  "pinned_inference_step pins model_name = map_option it_step (pins model_name)"

definition pinned_inference_name :: "pinned_targets \<Rightarrow> string \<Rightarrow> int option \<Rightarrow> string option" where
  "pinned_inference_name pins model_name step =
     (case pins model_name of None \<Rightarrow> None
      | Some target \<Rightarrow> if step \<noteq> None \<and> step \<noteq> Some (it_step target) then None else it_model_name target)"

text \<open>
  A context variable is pinned for the body and reset to its token, the value it had, on
  the way out, whether the body returned or raised.
\<close>

definition pin_inference_target :: "string \<Rightarrow> int \<Rightarrow> string option \<Rightarrow> (pinned_targets \<Rightarrow> 'a \<times> pinned_targets)
    \<Rightarrow> pinned_targets \<Rightarrow> 'a \<times> pinned_targets" where
  "pin_inference_target model_name step name body pins =
     (let targets = pins(model_name \<mapsto> \<lparr>it_step = step, it_model_name = name\<rparr>); (result, _) = body targets
      in (result, pins))"

definition pin_inference_step :: "string \<Rightarrow> int \<Rightarrow> (pinned_targets \<Rightarrow> 'a \<times> pinned_targets)
    \<Rightarrow> pinned_targets \<Rightarrow> 'a \<times> pinned_targets" where
  "pin_inference_step model_name step body = pin_inference_target model_name step None body"

text \<open>
  The name a request of the local backend is sent under. The model is its name, whether
  it is trainable, its update mode and the step a dedicated service has loaded, if there
  is one; the last argument is the step of the newest checkpoint on disk.
\<close>

record served_model =
  md_name :: string
  md_trainable :: bool
  md_mode :: update_mode
  md_dedicated_step :: "int option"

definition model_inference_name :: "pinned_targets \<Rightarrow> served_model \<Rightarrow> int option \<Rightarrow> int \<Rightarrow> string result" where
  "model_inference_name pins model step disk_step =
     (let exact = pinned_inference_name pins (md_name model) step in
      if exact \<noteq> None \<and> exact \<noteq> Some '''' then Inr (the exact)
      else if md_trainable model \<and> md_mode model = In_Flight_Lora
      then ensure (step = None) (ValueError ''In-flight LoRA serving cannot address an immutable policy step.'')
             (Inr (in_flight_lora_name (md_name model)))
      else let pinned = (if step = None then pinned_inference_step pins (md_name model) else step);
               loaded = (if pinned = None \<and> md_trainable model then md_dedicated_step model else pinned);
               final = (case loaded of None \<Rightarrow> if md_trainable model then disk_step else 0 | Some s \<Rightarrow> s)
           in Inr (md_name model @ ''@'' @ show_int final))"

lemma exact_lora_name_nonempty: "exact_lora_name mode model_name step \<noteq> ''''"
  by (simp add: exact_lora_name_def)

lemma pinned_name_used:
  assumes "pins (md_name model) = Some \<lparr>it_step = s, it_model_name = Some name\<rparr>" and "name \<noteq> ''''"
    and "step = None \<or> step = Some s"
  shows "model_inference_name pins model step disk = Inr name"
  using assms by (auto simp: model_inference_name_def pinned_inference_name_def)

section \<open>The serving side\<close>

text \<open>
  What the tasks share: whether the model has a lease manager yet, its counts and its
  condition (the holder of its lock, by task number), the adapters the service believes loaded, the reference
  counts of exact adapters and the holder of their lock, the step served last, whether
  the runtime has been started (its port is not 0) and whether the service is closing.
\<close>

record serving =
  sv_manager :: bool
  sv_counts :: lease_counts
  sv_guard :: "nat option"
  sv_loaded :: "int set"
  sv_exact :: "int set"
  sv_refs :: "int \<Rightarrow> int option"
  sv_lock :: "nat option"
  sv_latest :: int
  sv_started :: bool
  sv_closing :: bool

text \<open>
  acquire_exact_adapter, up to its request: an adapter that is loaded is returned at once
  (counted in the in-flight mode); otherwise (False) it has to be loaded, and is added
  when the request has succeeded.
\<close>

definition acquire_exact_adapter :: "update_mode \<Rightarrow> int \<Rightarrow> serving \<Rightarrow> (bool \<times> serving) result" where
  "acquire_exact_adapter mode s st =
     (if s \<in> (if mode = In_Flight_Lora then sv_exact st else sv_loaded st)
      then if mode = In_Flight_Lora
        then (case sv_refs st s of None \<Rightarrow> Inl KeyError
              | Some n \<Rightarrow> Inr (True, st\<lparr>sv_refs := (sv_refs st)(s \<mapsto> n + 1)\<rparr>))
        else Inr (True, st)
      else Inr (False, st))"

definition exact_adapter_loaded :: "update_mode \<Rightarrow> int \<Rightarrow> serving \<Rightarrow> serving" where
  "exact_adapter_loaded mode s st =
     (if mode = In_Flight_Lora
      then st\<lparr>sv_exact := insert s (sv_exact st), sv_refs := (sv_refs st)(s \<mapsto> 1)\<rparr>
      else st\<lparr>sv_loaded := insert s (sv_loaded st)\<rparr>)"

text \<open>release_exact_adapter: True when it is done, False when the last user has to unload.\<close>

definition release_exact_adapter :: "int \<Rightarrow> serving \<Rightarrow> (bool \<times> serving) result" where
  "release_exact_adapter s st =
     (case sv_refs st s of None \<Rightarrow> Inl KeyError
      | Some n \<Rightarrow> if n > 1 then Inr (True, st\<lparr>sv_refs := (sv_refs st)(s \<mapsto> n - 1)\<rparr>) else Inr (False, st))"

definition unload_exact_adapter :: "int \<Rightarrow> serving \<Rightarrow> serving" where
  "unload_exact_adapter s st = st\<lparr>sv_exact := sv_exact st - {s}\<rparr>"

definition exact_adapter_released :: "int \<Rightarrow> serving \<Rightarrow> serving result" where
  "exact_adapter_released s st =
     (let st' = unload_exact_adapter s st in
      if sv_refs st' s = None then Inl KeyError else Inr (st'\<lparr>sv_refs := (sv_refs st')(s := None)\<rparr>))"

definition unload_adapter :: "int \<Rightarrow> serving \<Rightarrow> serving" where
  "unload_adapter s st = st\<lparr>sv_loaded := sv_loaded st - {s}\<rparr>"

definition reload_adapter :: "int \<Rightarrow> serving \<Rightarrow> serving" where
  "reload_adapter s st = st\<lparr>sv_latest := s, sv_loaded := insert s (sv_loaded st)\<rparr>"

definition close_service :: "serving \<Rightarrow> serving" where
  "close_service st =
     (if sv_closing st then st
      else st\<lparr>sv_closing := True, sv_loaded := {}, sv_exact := {}, sv_refs := \<lambda>_. None\<rparr>)"

section \<open>Tasks\<close>

text \<open>
  A task is at one of its suspension points: what it awaits there is the lock of the
  condition, the lock of the exact adapters or the answer to a request to the runtime.
  The body of a lease is one such point, however long it takes. A task ends Finished, or
  Failed when a request was refused and the error left its context managers, or Crashed
  by a KeyError. A prune in progress says whether it holds the guard.
\<close>

datatype lease_kind = Manager_Lease | Exact_Lease

datatype task_state =
    Lease_Idle lease_kind int
  | Exact_Loading int
  | Exact_Acquired int
  | Lease_Body lease_kind int
  | Lease_Leaving lease_kind int
  | Exact_Returning int
  | Exact_Unloading int
  | Prune_Idle "int set"
  | Prune_Started bool "int set"
  | Prune_Exact bool "int set" "int list"
  | Prune_Exact_Unload bool "int set" int "int list"
  | Prune_Steps bool "int list"
  | Prune_Steps_Unload bool int "int list"
  | Publish int
  | Close
  | Finished
  | Failed
  | Crashed

text \<open>
  A lease: adapter_lease and adapter_retention_lease hold a lease of the manager;
  exact_adapter_lease acquires the adapter first and releases it last. The first lease of
  a model makes its manager, which nobody holds then.
\<close>

fun lease_advance :: "update_mode \<Rightarrow> nat \<Rightarrow> task_state \<Rightarrow> serving \<Rightarrow> (task_state \<times> serving) list" where
  "lease_advance mode i (Lease_Idle Manager_Lease s) st =
     (if sv_guard st = None then [(Lease_Body Manager_Lease s, st\<lparr>sv_manager := True, sv_counts := lease_enter s (sv_counts st)\<rparr>)] else [])"
| "lease_advance mode i (Lease_Idle Exact_Lease s) st =
     (if sv_lock st \<noteq> None then []
      else case acquire_exact_adapter mode s st of
        Inl e \<Rightarrow> [(Crashed, st)]
      | Inr (True, st') \<Rightarrow> [(Exact_Acquired s, st'\<lparr>sv_manager := True\<rparr>)]
      | Inr (False, st') \<Rightarrow> [(Exact_Loading s, st'\<lparr>sv_lock := Some i\<rparr>)])"
| "lease_advance mode i (Exact_Loading s) st =
     [(Exact_Acquired s, (exact_adapter_loaded mode s st)\<lparr>sv_manager := True, sv_lock := None\<rparr>), (Failed, st\<lparr>sv_lock := None\<rparr>)]"
| "lease_advance mode i (Exact_Acquired s) st =
     (if sv_guard st = None then [(Lease_Body Exact_Lease s, st\<lparr>sv_counts := lease_enter s (sv_counts st)\<rparr>)] else [])"
| "lease_advance mode i (Lease_Body kind s) st = [(Lease_Leaving kind s, st)]"
| "lease_advance mode i (Lease_Leaving kind s) st =
     (if sv_guard st = None
      then [(if kind = Exact_Lease then Exact_Returning s else Finished, st\<lparr>sv_counts := lease_exit s (sv_counts st)\<rparr>)]
      else [])"
| "lease_advance mode i (Exact_Returning s) st =
     (if mode \<noteq> In_Flight_Lora then [(Finished, st)]
      else if sv_lock st \<noteq> None then []
      else case release_exact_adapter s st of
        Inl e \<Rightarrow> [(Crashed, st)]
      | Inr (True, st') \<Rightarrow> [(Finished, st')]
      | Inr (False, st') \<Rightarrow> [(Exact_Unloading s, st'\<lparr>sv_lock := Some i\<rparr>)])"
| "lease_advance mode i (Exact_Unloading s) st =
     [case exact_adapter_released s st of
        Inl e \<Rightarrow> (Crashed, (unload_exact_adapter s st)\<lparr>sv_lock := None\<rparr>)
      | Inr st' \<Rightarrow> (Finished, st'\<lparr>sv_lock := None\<rparr>),
      (Failed, st\<lparr>sv_lock := None\<rparr>)]"
| "lease_advance mode i t st = []"

text \<open>
  Pruning: with a manager, the guard is held from reading the leased steps until
  prune_loaded_adapters has returned or raised; without one there is no guard, and leases
  may be taken meanwhile. The lock of the exact adapters is held only during the first
  loop of prune_loaded_adapters.
\<close>

definition prune_model_adapters :: "nat \<Rightarrow> int set \<Rightarrow> serving \<Rightarrow> (task_state \<times> serving) list" where
  "prune_model_adapters i retain_steps st =
     (if \<not> sv_manager st
      then if \<not> sv_started st then [(Finished, st)] else [(Prune_Started False retain_steps, st)]
      else if sv_guard st \<noteq> None then []
      else if \<not> sv_started st then [(Finished, st)]
      else [(Prune_Started True (retain_steps \<union> active_steps (sv_counts st)), st\<lparr>sv_guard := Some i\<rparr>)])"

definition release_guard :: "bool \<Rightarrow> serving \<Rightarrow> serving" where
  "release_guard guarded st = (if guarded then st\<lparr>sv_guard := None\<rparr> else st)"

fun prune_advance :: "update_mode \<Rightarrow> nat \<Rightarrow> task_state \<Rightarrow> serving \<Rightarrow> (task_state \<times> serving) list" where
  "prune_advance mode i (Prune_Idle retain) st = prune_model_adapters i retain st"
| "prune_advance mode i (Prune_Started guarded retain) st =
     (if sv_lock st \<noteq> None then []
      else [(Prune_Exact guarded retain (sorted_list_of_set (sv_exact st - retain)), st\<lparr>sv_lock := Some i\<rparr>)])"
| "prune_advance mode i (Prune_Exact guarded retain (s # todo)) st =
     (if lease_count (sv_refs st) s = 0 then [(Prune_Exact_Unload guarded retain s todo, st)]
      else [(Prune_Exact guarded retain todo, st)])"
| "prune_advance mode i (Prune_Exact_Unload guarded retain s todo) st =
     [(Prune_Exact guarded retain todo, unload_exact_adapter s st),
      (Failed, release_guard guarded (st\<lparr>sv_lock := None\<rparr>))]"
| "prune_advance mode i (Prune_Exact guarded retain []) st =
     (if mode = In_Flight_Lora then [(Finished, release_guard guarded (st\<lparr>sv_lock := None\<rparr>))]
      else [(Prune_Steps guarded (sorted_list_of_set (sv_loaded st - retain)), st\<lparr>sv_lock := None\<rparr>)])"
| "prune_advance mode i (Prune_Steps guarded (s # todo)) st =
     (if s = sv_latest st then [(Prune_Steps guarded todo, st)] else [(Prune_Steps_Unload guarded s todo, st)])"
| "prune_advance mode i (Prune_Steps_Unload guarded s todo) st =
     [(Prune_Steps guarded todo, unload_adapter s st), (Failed, release_guard guarded st)]"
| "prune_advance mode i (Prune_Steps guarded []) st = [(Finished, release_guard guarded st)]"
| "prune_advance mode i t st = []"

text \<open>A new checkpoint is served once the runtime has loaded it; close forgets everything.\<close>

fun service_advance :: "task_state \<Rightarrow> serving \<Rightarrow> (task_state \<times> serving) list" where
  "service_advance (Publish s) st = [(Finished, reload_adapter s st), (Failed, st)]"
| "service_advance Close st = [(Finished, close_service st)]"
| "service_advance t st = []"

definition advance :: "update_mode \<Rightarrow> nat \<Rightarrow> task_state \<Rightarrow> serving \<Rightarrow> (task_state \<times> serving) list" where
  "advance mode i t st = lease_advance mode i t st @ prune_advance mode i t st @ service_advance t st"

type_synonym config = "task_state list \<times> serving"

text \<open>Any task that can go on may be the next to run, with either answer of the runtime.\<close>

inductive serving_step :: "update_mode \<Rightarrow> config \<Rightarrow> config \<Rightarrow> bool" for mode where
  run_task: "i < length ts \<Longrightarrow> (t, st') \<in> set (advance mode i (ts ! i) st) \<Longrightarrow>
    serving_step mode (ts, st) (ts[i := t], st')"

inductive_cases serving_stepE: "serving_step mode (ts, st) c"

section \<open>What one step does\<close>

definition held :: "task_state \<Rightarrow> int option" where
  "held t = (case t of Lease_Body kind s \<Rightarrow> Some s | Lease_Leaving kind s \<Rightarrow> Some s | _ \<Rightarrow> None)"

definition used :: "task_state \<Rightarrow> int option" where
  "used t = (case t of Exact_Acquired s \<Rightarrow> Some s | Lease_Body Exact_Lease s \<Rightarrow> Some s
     | Lease_Leaving Exact_Lease s \<Rightarrow> Some s | Exact_Returning s \<Rightarrow> Some s | Exact_Unloading s \<Rightarrow> Some s | _ \<Rightarrow> None)"

definition guards :: "task_state \<Rightarrow> bool" where
  "guards t = (case t of Prune_Started g r \<Rightarrow> g | Prune_Exact g r todo \<Rightarrow> g | Prune_Exact_Unload g r s todo \<Rightarrow> g
     | Prune_Steps g todo \<Rightarrow> g | Prune_Steps_Unload g s todo \<Rightarrow> g | _ \<Rightarrow> False)"

definition unguarded :: "task_state \<Rightarrow> bool" where
  "unguarded t = (case t of Prune_Started g r \<Rightarrow> \<not> g | Prune_Exact g r todo \<Rightarrow> \<not> g | Prune_Exact_Unload g r s todo \<Rightarrow> \<not> g
     | Prune_Steps g todo \<Rightarrow> \<not> g | Prune_Steps_Unload g s todo \<Rightarrow> \<not> g | _ \<Rightarrow> False)"

definition locks :: "task_state \<Rightarrow> bool" where
  "locks t = (case t of Exact_Loading s \<Rightarrow> True | Exact_Unloading s \<Rightarrow> True | Prune_Exact g r todo \<Rightarrow> True
     | Prune_Exact_Unload g r s todo \<Rightarrow> True | _ \<Rightarrow> False)"

definition ended :: "task_state \<Rightarrow> bool" where
  "ended t \<longleftrightarrow> t = Finished \<or> t = Failed \<or> t = Crashed"

definition spares :: "int set \<Rightarrow> task_state \<Rightarrow> bool" where
  "spares A t = (guards t \<longrightarrow> (case t of Prune_Started g r \<Rightarrow> A \<subseteq> r | Prune_Exact g r todo \<Rightarrow> A \<subseteq> r
     | Prune_Exact_Unload g r s todo \<Rightarrow> A \<subseteq> r | Prune_Steps g todo \<Rightarrow> set todo \<inter> A = {}
     | Prune_Steps_Unload g s todo \<Rightarrow> insert s (set todo) \<inter> A = {} | _ \<Rightarrow> True))"

lemmas roles = held_def used_def guards_def unguarded_def locks_def ended_def spares_def

lemmas segments = acquire_exact_adapter_def exact_adapter_loaded_def release_exact_adapter_def
  unload_exact_adapter_def exact_adapter_released_def unload_adapter_def reload_adapter_def close_service_def
  prune_model_adapters_def release_guard_def

lemma advance_elim:
  assumes "(t', st') \<in> set (advance mode i t st)"
    and "(t', st') \<in> set (lease_advance mode i t st) \<Longrightarrow> P"
    and "(t', st') \<in> set (prune_advance mode i t st) \<Longrightarrow> P"
    and "(t', st') \<in> set (service_advance t st) \<Longrightarrow> P"
  shows P
  using assms by (auto simp: advance_def)

text \<open>
  How a lock with an owner moves: the task takes it free, keeps it or frees it, and every
  other task leaves it alone.
\<close>

definition passes :: "nat \<Rightarrow> bool \<Rightarrow> bool \<Rightarrow> nat option \<Rightarrow> nat option \<Rightarrow> bool" where
  "passes i before after l l' \<longleftrightarrow>
     (if before then l' = (if after then l else None)
      else (after \<longrightarrow> l = None) \<and> l' = (if after then Some i else l))"

definition counts_move :: "int option \<Rightarrow> int option \<Rightarrow> serving \<Rightarrow> serving \<Rightarrow> bool" where
  "counts_move h h' st st' \<longleftrightarrow> h = h' \<and> sv_counts st' = sv_counts st \<or>
     sv_guard st = None \<and> (\<exists>s. h = None \<and> h' = Some s \<and> sv_counts st' = lease_enter s (sv_counts st) \<or>
       h = Some s \<and> h' = None \<and> sv_counts st' = lease_exit s (sv_counts st))"

lemma lease_effect:
  "(t', st') \<in> set (lease_advance mode i t st) \<Longrightarrow>
    counts_move (held t) (held t') st st' \<and> \<not> guards t \<and> \<not> guards t' \<and> sv_guard st' = sv_guard st \<and>
    passes i (locks t) (locks t') (sv_lock st) (sv_lock st') \<and> sv_loaded st \<subseteq> sv_loaded st' \<and>
    finite (sv_loaded st') = finite (sv_loaded st) \<and> sv_latest st' = sv_latest st \<and> \<not> ended t"
  by (cases "(mode, i, t, st)" rule: lease_advance.cases)
    (auto simp: roles segments counts_move_def passes_def Let_def split: if_splits sum.splits option.splits)

lemma prune_effect:
  "(t', st') \<in> set (prune_advance mode i t st) \<Longrightarrow>
    held t = None \<and> held t' = None \<and> used t = None \<and> used t' = None \<and>
    sv_counts st' = sv_counts st \<and> sv_refs st' = sv_refs st \<and>
    passes i (guards t) (guards t') (sv_guard st) (sv_guard st') \<and>
    passes i (locks t) (locks t') (sv_lock st) (sv_lock st') \<and>
    (spares (active_steps (sv_counts st)) t \<longrightarrow> finite (sv_loaded st) \<longrightarrow>
       spares (active_steps (sv_counts st)) t' \<and> (\<not> unguarded t \<longrightarrow> sv_loaded st \<inter> active_steps (sv_counts st) \<subseteq> sv_loaded st')) \<and>
    (finite (sv_loaded st) \<longrightarrow> finite (sv_loaded st')) \<and> \<not> ended t"
  by (cases "(mode, i, t, st)" rule: prune_advance.cases)
    (auto simp: roles segments passes_def split: if_splits)

lemma service_effect:
  "(t', st') \<in> set (service_advance t st) \<Longrightarrow>
    t' \<in> {Finished, Failed} \<and> (t = Close \<or> (\<exists>s. t = Publish s)) \<and>
    sv_counts st' = sv_counts st \<and> sv_guard st' = sv_guard st \<and> sv_lock st' = sv_lock st \<and>
    (t \<noteq> Close \<longrightarrow> sv_loaded st \<subseteq> sv_loaded st' \<and> sv_refs st' = sv_refs st \<and> sv_exact st' = sv_exact st) \<and>
    (finite (sv_loaded st) \<longrightarrow> finite (sv_loaded st'))"
  by (cases "(t, st)" rule: service_advance.cases) (auto simp: segments split: if_splits)

text \<open>All of it for any step of a task.\<close>

lemma service_roles: "t = Close \<or> (\<exists>s. t = Publish s) \<Longrightarrow>
    held t = None \<and> used t = None \<and> \<not> guards t \<and> \<not> locks t \<and> \<not> ended t \<and> spares A t"
  "t \<in> {Finished, Failed} \<Longrightarrow> held t = None \<and> used t = None \<and> \<not> guards t \<and> \<not> locks t \<and> spares A t"
  by (auto simp: roles)

lemma unguarded_spares: "\<not> guards t \<Longrightarrow> spares A t"
  by (cases t) (auto simp: roles)

lemma advance_effect:
  assumes step: "(t', st') \<in> set (advance mode i t st)"
  shows "counts_move (held t) (held t') st st'"
    and "passes i (guards t) (guards t') (sv_guard st) (sv_guard st')"
    and "passes i (locks t) (locks t') (sv_lock st) (sv_lock st')"
    and "\<not> ended t"
    and "held t \<noteq> held t' \<Longrightarrow> \<not> guards t'"
    and "finite (sv_loaded st) \<Longrightarrow> finite (sv_loaded st')"
    and "spares (active_steps (sv_counts st)) t \<Longrightarrow> finite (sv_loaded st) \<Longrightarrow> spares (active_steps (sv_counts st)) t'"
    and "spares (active_steps (sv_counts st)) t \<Longrightarrow> finite (sv_loaded st) \<Longrightarrow> t \<noteq> Close \<Longrightarrow> \<not> unguarded t \<Longrightarrow>
      sv_loaded st \<inter> active_steps (sv_counts st) \<subseteq> sv_loaded st'"
proof -
  from step have "counts_move (held t) (held t') st st' \<and>
    passes i (guards t) (guards t') (sv_guard st) (sv_guard st') \<and>
    passes i (locks t) (locks t') (sv_lock st) (sv_lock st') \<and> \<not> ended t \<and>
    (held t \<noteq> held t' \<longrightarrow> \<not> guards t') \<and> (finite (sv_loaded st) \<longrightarrow> finite (sv_loaded st')) \<and>
    (spares (active_steps (sv_counts st)) t \<longrightarrow> finite (sv_loaded st) \<longrightarrow> spares (active_steps (sv_counts st)) t' \<and>
      (t \<noteq> Close \<longrightarrow> \<not> unguarded t \<longrightarrow> sv_loaded st \<inter> active_steps (sv_counts st) \<subseteq> sv_loaded st'))"
  proof (rule advance_elim)
    assume "(t', st') \<in> set (lease_advance mode i t st)"
    from lease_effect [OF this] show ?thesis by (auto simp: passes_def unguarded_spares)
  next
    assume "(t', st') \<in> set (prune_advance mode i t st)"
    from prune_effect [OF this] show ?thesis by (simp add: counts_move_def)
  next
    assume "(t', st') \<in> set (service_advance t st)"
    from service_effect [OF this] show ?thesis by (auto simp: counts_move_def passes_def service_roles)
  qed
  then show "counts_move (held t) (held t') st st'" "passes i (guards t) (guards t') (sv_guard st) (sv_guard st')"
    "passes i (locks t) (locks t') (sv_lock st) (sv_lock st')" "\<not> ended t" "held t \<noteq> held t' \<Longrightarrow> \<not> guards t'" "finite (sv_loaded st) \<Longrightarrow> finite (sv_loaded st')"
    "spares (active_steps (sv_counts st)) t \<Longrightarrow> finite (sv_loaded st) \<Longrightarrow> spares (active_steps (sv_counts st)) t'"
    "spares (active_steps (sv_counts st)) t \<Longrightarrow> finite (sv_loaded st) \<Longrightarrow> t \<noteq> Close \<Longrightarrow> \<not> unguarded t \<Longrightarrow>
      sv_loaded st \<inter> active_steps (sv_counts st) \<subseteq> sv_loaded st'"
    by blast+
qed

section \<open>Who holds what\<close>

definition tally :: "('a \<Rightarrow> bool) \<Rightarrow> 'a list \<Rightarrow> nat" where
  "tally P xs = length (filter P xs)"

lemma tally_update:
  "i < length xs \<Longrightarrow> tally P (xs[i := x]) + (if P (xs ! i) then 1 else 0) = tally P xs + (if P x then 1 else 0)"
proof (induction xs arbitrary: i)
  case (Cons y ys)
  then show ?case by (cases i) (auto simp: tally_def split: if_splits)
qed simp

lemma tally_pos: "0 < tally P xs \<longleftrightarrow> (\<exists>x \<in> set xs. P x)"
  by (auto simp: tally_def filter_empty_conv)

definition owned :: "('a \<Rightarrow> bool) \<Rightarrow> 'a list \<Rightarrow> nat option \<Rightarrow> bool" where
  "owned P ts l \<longleftrightarrow> (\<forall>i. l = Some i \<longleftrightarrow> i < length ts \<and> P (ts ! i))"

lemma owned_step:
  assumes "owned P ts l" and "i < length ts" and "passes i (P (ts ! i)) (P t) l l'"
  shows "owned P (ts[i := t]) l'"
proof -
  have own: "l = Some j \<longleftrightarrow> j < length ts \<and> P (ts ! j)" for j using assms(1) by (simp add: owned_def)
  have "l' = Some j \<longleftrightarrow> j < length ts \<and> P (ts[i := t] ! j)" for j
  proof (cases "P (ts ! i)")
    case True
    then have l: "l = Some i" using own [of i] assms(2) by simp
    then have "\<not> (j < length ts \<and> P (ts ! j))" if "j \<noteq> i" using own [of j] that by simp
    with True l assms(2,3) show ?thesis by (cases "j = i") (simp_all add: passes_def)
  next
    case False
    then have "l \<noteq> Some i" using own [of i] by simp
    with False own [of j] assms(2,3) show ?thesis by (cases "j = i") (auto simp: passes_def split: if_splits)
  qed
  then show ?thesis by (simp add: owned_def)
qed

text \<open>
  The invariant: the counts are the leases the tasks hold, each lock belongs to the one
  task that is in its critical section, and a prune in progress spares what is leased.
\<close>

definition coherent :: "config \<Rightarrow> bool" where
  "coherent c \<longleftrightarrow> (case c of (ts, st) \<Rightarrow>
     Mapping.lookup (sv_counts st) = counts_of (\<lambda>s. tally (\<lambda>t. held t = Some s) ts) \<and>
     owned guards ts (sv_guard st) \<and> owned locks ts (sv_lock st) \<and> finite (sv_loaded st) \<and>
     (\<forall>t \<in> set ts. spares (active_steps (sv_counts st)) t))"

lemma counts_step:
  assumes c: "Mapping.lookup (sv_counts st) = counts_of (\<lambda>s. tally (\<lambda>t. held t = Some s) ts)" and i: "i < length ts"
    and m: "counts_move (held (ts ! i)) (held t) st st'"
  shows "Mapping.lookup (sv_counts st') = counts_of (\<lambda>s. tally (\<lambda>t. held t = Some s) (ts[i := t]))"
proof -
  let ?n = "\<lambda>s. tally (\<lambda>t. held t = Some s) ts" and ?n' = "\<lambda>s. tally (\<lambda>t. held t = Some s) (ts[i := t])"
  have upd: "?n' s + (if held (ts ! i) = Some s then 1 else 0) = ?n s + (if held t = Some s then 1 else 0)" for s
    by (rule tally_update [OF i])
  from m consider "held (ts ! i) = held t" "sv_counts st' = sv_counts st"
    | s where "held (ts ! i) = None" "held t = Some s" "sv_counts st' = lease_enter s (sv_counts st)"
    | s where "held (ts ! i) = Some s" "held t = None" "sv_counts st' = lease_exit s (sv_counts st)"
    unfolding counts_move_def by blast
  then show ?thesis
  proof cases
    case 1
    then have "?n' = ?n" using upd by auto
    with 1 c show ?thesis by simp
  next
    case (2 s)
    have "?n' u = (?n(s := Suc (?n s))) u" for u using upd [of u] 2(1,2) by auto
    then have "?n' = ?n(s := Suc (?n s))" by blast
    then show ?thesis using lease_enter_counts [OF c] by (simp add: 2(3))
  next
    case (3 s)
    have pos: "0 < ?n s" using upd [of s] 3(1,2) by simp
    have "?n' u = (?n(s := ?n s - 1)) u" for u using upd [of u] 3(1,2) by auto
    then have "?n' = ?n(s := ?n s - 1)" by blast
    then show ?thesis using lease_exit_counts [OF c pos] by (simp add: 3(3))
  qed
qed

lemma coherent_step:
  assumes "serving_step mode c c'" and "coherent c"
  shows "coherent c'"
  using assms
proof (cases rule: serving_step.cases)
  case (run_task i ts t st' st)
  have inv: "Mapping.lookup (sv_counts st) = counts_of (\<lambda>s. tally (\<lambda>t. held t = Some s) ts)" "owned guards ts (sv_guard st)"
    "owned locks ts (sv_lock st)" "finite (sv_loaded st)" "\<And>t. t \<in> set ts \<Longrightarrow> spares (active_steps (sv_counts st)) t"
    using assms(2) by (auto simp: run_task(1) coherent_def)
  note eff = advance_effect [OF run_task(4)]
  have own: "spares (active_steps (sv_counts st)) (ts ! i)" using inv(5) run_task(3) by simp
  have guard': "owned guards (ts[i := t]) (sv_guard st')" by (rule owned_step [OF inv(2) run_task(3) eff(2)])
  have sp: "spares (active_steps (sv_counts st')) u" if u: "u \<in> set (ts[i := t])" for u
  proof (cases "sv_counts st' = sv_counts st")
    case True
    have "u = t \<or> u \<in> set ts" using u set_update_subset_insert [of ts i t] by blast
    with True inv(5) eff(7) [OF own inv(4)] show ?thesis by auto
  next
    case False
    then have free: "sv_guard st = None" "held (ts ! i) \<noteq> held t" using eff(1) by (auto simp: counts_move_def)
    then have "\<not> guards t" using eff(5) by blast
    then have "sv_guard st' = None" using eff(2) free(1) by (auto simp: passes_def split: if_splits)
    then have "\<not> guards u" using guard' u by (metis in_set_conv_nth option.distinct(1) owned_def)
    then show ?thesis by (rule unguarded_spares)
  qed
  show ?thesis
    using counts_step [OF inv(1) run_task(3) eff(1)] guard' owned_step [OF inv(3) run_task(3) eff(3)] eff(6) [OF inv(4)] sp
    by (simp add: run_task(2) coherent_def)
qed

definition waiting :: "task_state \<Rightarrow> bool" where
  "waiting t = (case t of Lease_Idle kind s \<Rightarrow> True | Prune_Idle r \<Rightarrow> True | Publish s \<Rightarrow> True | Close \<Rightarrow> True | _ \<Rightarrow> False)"

definition initial :: "config \<Rightarrow> bool" where
  "initial c \<longleftrightarrow> (case c of (ts, st) \<Rightarrow> list_all waiting ts \<and> sv_counts st = Mapping.empty \<and> sv_guard st = None \<and>
     sv_lock st = None \<and> finite (sv_loaded st) \<and> sv_exact st = {} \<and> sv_refs st = (\<lambda>_. None))"

abbreviation reachable :: "update_mode \<Rightarrow> config \<Rightarrow> config \<Rightarrow> bool" where
  "reachable mode \<equiv> (serving_step mode)\<^sup>*\<^sup>*"

lemma waiting_roles: "waiting t \<Longrightarrow> held t = None \<and> used t = None \<and> \<not> guards t \<and> \<not> locks t \<and> \<not> ended t"
  by (cases t) (simp_all add: waiting_def roles)

lemma initial_coherent:
  assumes "initial c" shows "coherent c"
proof -
  obtain ts st where c: "c = (ts, st)" by (cases c)
  have roles: "held t = None \<and> \<not> guards t \<and> \<not> locks t" if "t \<in> set ts" for t
    using assms that waiting_roles by (auto simp: c initial_def list_all_iff)
  then have "tally (\<lambda>t. held t = Some s) ts = 0" for s by (auto simp: tally_def filter_empty_conv)
  moreover have "owned guards ts None" "owned locks ts None" using roles by (auto simp: owned_def)
  ultimately show ?thesis
    using assms roles unguarded_spares by (auto simp: c initial_def coherent_def counts_of_def lookup_empty)
qed

lemma reachable_coherent:
  assumes "reachable mode c0 c" and "initial c0"
  shows "coherent c"
  using assms by (induction rule: rtranclp_induct) (auto intro: initial_coherent coherent_step)

lemma coherent_active: "coherent (ts, st) \<Longrightarrow> active_steps (sv_counts st) = {s. \<exists>t \<in> set ts. held t = Some s}"
  by (auto simp: coherent_def active_counts tally_pos)

section \<open>Exact adapters in the in-flight mode\<close>

text \<open>
  In the in-flight mode exact adapters are counted. What a task in the critical section of
  their lock relies on, and that no task has crashed or closes the service.
\<close>

definition settled :: "serving \<Rightarrow> task_state \<Rightarrow> bool" where
  "settled st t = (case t of Exact_Loading s \<Rightarrow> s \<notin> sv_exact st | Exact_Unloading s \<Rightarrow> sv_refs st s = Some 1
     | Prune_Exact g r todo \<Rightarrow> set todo \<subseteq> sv_exact st | Prune_Exact_Unload g r s todo \<Rightarrow> False
     | Crashed \<Rightarrow> False | Close \<Rightarrow> False | _ \<Rightarrow> True)"

definition refs_ok :: "serving \<Rightarrow> bool" where
  "refs_ok st \<longleftrightarrow> (\<forall>s. s \<in> sv_exact st \<longleftrightarrow> sv_refs st s \<noteq> None) \<and> (\<forall>s n. sv_refs st s = Some n \<longrightarrow> 1 \<le> n)"

definition user :: "task_state \<Rightarrow> int \<Rightarrow> int" where
  "user t s = (if used t = Some s then 1 else 0)"

definition refs_move :: "task_state \<Rightarrow> task_state \<Rightarrow> serving \<Rightarrow> serving \<Rightarrow> bool" where
  "refs_move t t' st st' \<longleftrightarrow> settled st' t' \<and> refs_ok st' \<and>
     (\<forall>s. user t' s - user t s \<le> lease_count (sv_refs st') s - lease_count (sv_refs st) s) \<and>
     (sv_exact st' = sv_exact st \<and> sv_refs st' = sv_refs st \<or> locks t \<or> sv_lock st = None)"

lemma sorted_list_subset: "set (sorted_list_of_set (A :: int set)) \<subseteq> A"
  by (cases "finite A") simp_all

lemma lease_refs:
  assumes step: "(t', st') \<in> set (lease_advance In_Flight_Lora i t st)" and ok: "refs_ok st"
    and settled: "settled st t" and used: "\<And>s. used t = Some s \<Longrightarrow> sv_refs st s \<noteq> None"
  shows "refs_move t t' st st'"
proof -
  have dom: "s \<in> sv_exact st \<longleftrightarrow> (\<exists>n. sv_refs st s = Some n)" for s using ok by (auto simp: refs_ok_def)
  have pos: "sv_refs st s = Some n \<Longrightarrow> 1 \<le> n" for s n using ok by (auto simp: refs_ok_def)
  have unsettled: "\<not> settled st Crashed" by (simp add: settled_def)
  show ?thesis
    using step settled used dom pos
    by (cases "(In_Flight_Lora, i, t, st)" rule: lease_advance.cases)
      (auto simp: refs_move_def refs_ok_def user_def lease_count_def settled_def roles segments Let_def
        split: if_splits sum.splits option.splits dest: pos)
qed

lemma prune_refs:
  assumes step: "(t', st') \<in> set (prune_advance In_Flight_Lora i t st)" and ok: "refs_ok st" and settled: "settled st t"
  shows "refs_move t t' st st'"
proof -
  have "sv_refs st s = Some n \<Longrightarrow> n \<noteq> 0" for s n using ok by (force simp: refs_ok_def)
  then show ?thesis
    using step settled ok
    by (cases "(In_Flight_Lora, i, t, st)" rule: prune_advance.cases)
      (auto simp: refs_move_def refs_ok_def user_def settled_def roles segments lease_count_def
        dest: subsetD [OF sorted_list_subset] split: if_splits)
qed

lemma service_refs:
  "(t', st') \<in> set (service_advance t st) \<Longrightarrow> settled st t \<Longrightarrow> refs_ok st \<Longrightarrow> refs_move t t' st st'"
  by (cases "(t, st)" rule: service_advance.cases)
    (auto simp: refs_move_def refs_ok_def user_def settled_def roles segments)

lemma advance_refs:
  assumes "(t', st') \<in> set (advance In_Flight_Lora i t st)" and "refs_ok st" and "settled st t"
    and "\<And>s. used t = Some s \<Longrightarrow> sv_refs st s \<noteq> None"
  shows "refs_move t t' st st'"
  using assms(1) by (rule advance_elim) (erule lease_refs prune_refs service_refs; use assms in blast)+

definition counted :: "config \<Rightarrow> bool" where
  "counted c \<longleftrightarrow> (case c of (ts, st) \<Rightarrow> owned locks ts (sv_lock st) \<and> refs_ok st \<and> (\<forall>t \<in> set ts. settled st t) \<and>
     (\<forall>s. int (tally (\<lambda>t. used t = Some s) ts) \<le> lease_count (sv_refs st) s))"

lemma unlocked_settled: "\<not> locks t \<Longrightarrow> settled st t \<Longrightarrow> settled st' t"
  by (cases t) (auto simp: settled_def locks_def)

lemma counted_used:
  assumes "counted (ts, st)" and "t \<in> set ts" and "used t = Some s"
  shows "1 \<le> lease_count (sv_refs st) s" and "sv_refs st s \<noteq> None" and "s \<in> sv_exact st"
proof -
  have "0 < tally (\<lambda>t. used t = Some s) ts" unfolding tally_pos using assms(2,3) by blast
  moreover have "int (tally (\<lambda>t. used t = Some s) ts) \<le> lease_count (sv_refs st) s"
    using assms(1) by (simp add: counted_def)
  ultimately show count: "1 \<le> lease_count (sv_refs st) s" by linarith
  then show some: "sv_refs st s \<noteq> None" by (cases "sv_refs st s") (simp_all add: lease_count_def)
  then show "s \<in> sv_exact st" using assms(1) by (auto simp: counted_def refs_ok_def)
qed

lemma counted_step:
  assumes "serving_step In_Flight_Lora c c'" and "counted c"
  shows "counted c'"
  using assms
proof (cases rule: serving_step.cases)
  case (run_task i ts t st' st)
  have c: "counted (ts, st)" using assms(2) by (simp add: run_task(1))
  have inv: "owned locks ts (sv_lock st)" "refs_ok st" "\<And>t. t \<in> set ts \<Longrightarrow> settled st t"
    "\<And>s. int (tally (\<lambda>t. used t = Some s) ts) \<le> lease_count (sv_refs st) s"
    using c by (auto simp: counted_def)
  have mem: "ts ! i \<in> set ts" using run_task(3) by simp
  have move: "refs_move (ts ! i) t st st'"
    by (rule advance_refs [OF run_task(4) inv(2) inv(3) [OF mem]]) (rule counted_used(2) [OF c mem])
  have own: "owned locks (ts[i := t]) (sv_lock st')"
    by (rule owned_step [OF inv(1) run_task(3) advance_effect(3) [OF run_task(4)]])
  have others: "settled st' (ts[i := t] ! j)" if j: "j < length ts" for j
  proof (cases "j = i")
    case True
    with move run_task(3) show ?thesis by (simp add: refs_move_def)
  next
    case False
    have old: "settled st (ts ! j)" using inv(3) j by simp
    have "sv_exact st' = sv_exact st \<and> sv_refs st' = sv_refs st \<or> \<not> locks (ts ! j)"
    proof (cases "locks (ts ! j)")
      case True
      with inv(1) j have "sv_lock st = Some j" by (simp add: owned_def)
      with inv(1) False run_task(3) have "\<not> locks (ts ! i)" "sv_lock st \<noteq> None" by (auto simp: owned_def)
      with move show ?thesis by (simp add: refs_move_def)
    qed simp
    then have "settled st' (ts ! j)"
    proof
      assume "sv_exact st' = sv_exact st \<and> sv_refs st' = sv_refs st"
      with old show ?thesis by (cases "ts ! j") (simp_all add: settled_def)
    qed (rule unlocked_settled [OF _ old])
    with False show ?thesis by simp
  qed
  have "int (tally (\<lambda>t. used t = Some s) (ts[i := t])) \<le> lease_count (sv_refs st') s" for s
  proof -
    have "int (tally (\<lambda>t. used t = Some s) (ts[i := t])) + user (ts ! i) s = int (tally (\<lambda>t. used t = Some s) ts) + user t s"
      using tally_update [OF run_task(3), of "\<lambda>t. used t = Some s" t] by (auto simp: user_def split: if_splits)
    with move inv(4) [of s] show ?thesis unfolding refs_move_def by (smt (verit))
  qed
  moreover have "\<forall>u \<in> set (ts[i := t]). settled st' u" using others by (metis in_set_conv_nth length_list_update)
  ultimately show ?thesis using own move by (simp add: run_task(2) counted_def refs_move_def)
qed

lemma initial_counted:
  assumes "initial (ts, st)" and "Close \<notin> set ts"
  shows "counted (ts, st)"
proof -
  have "used t = None \<and> \<not> locks t \<and> settled st t" if t: "t \<in> set ts" for t
  proof -
    have "waiting t" "t \<noteq> Close" using t assms by (auto simp: initial_def list_all_iff)
    then show ?thesis using waiting_roles [of t] by (cases t) (simp_all add: waiting_def settled_def)
  qed
  then have roles: "\<And>t. t \<in> set ts \<Longrightarrow> used t = None" "\<And>t. t \<in> set ts \<Longrightarrow> \<not> locks t" "\<forall>t \<in> set ts. settled st t"
    by blast+
  then have "tally (\<lambda>t. used t = Some s) ts = 0" for s by (auto simp: tally_def filter_empty_conv)
  moreover have "owned locks ts None" using roles(2) by (simp add: owned_def)
  ultimately show ?thesis using assms(1) roles(3) by (simp add: initial_def counted_def refs_ok_def lease_count_def)
qed

lemma reachable_counted:
  assumes "reachable In_Flight_Lora c0 c" and "initial c0" and "Close \<notin> set (fst c0)"
  shows "counted c"
  using assms
proof (induction rule: rtranclp_induct)
  case base
  then show ?case by (cases c0) (simp add: initial_counted)
qed (auto intro: counted_step)

section \<open>Every run ends\<close>

definition phase :: "task_state \<Rightarrow> nat" where
  "phase t = (case t of Lease_Idle kind s \<Rightarrow> 7 | Exact_Loading s \<Rightarrow> 6 | Exact_Acquired s \<Rightarrow> 5 | Lease_Body kind s \<Rightarrow> 4
     | Lease_Leaving kind s \<Rightarrow> 3 | Exact_Returning s \<Rightarrow> 2 | Exact_Unloading s \<Rightarrow> 1 | Prune_Idle r \<Rightarrow> 4
     | Prune_Started g r \<Rightarrow> 3 | Prune_Exact g r todo \<Rightarrow> 2 | Prune_Exact_Unload g r s todo \<Rightarrow> 2
     | Prune_Steps g todo \<Rightarrow> 1 | Prune_Steps_Unload g s todo \<Rightarrow> 1 | Publish s \<Rightarrow> 1 | Close \<Rightarrow> 1 | _ \<Rightarrow> 0)"

definition remaining :: "task_state \<Rightarrow> nat" where
  "remaining t = (case t of Prune_Exact g r todo \<Rightarrow> 2 * length todo | Prune_Exact_Unload g r s todo \<Rightarrow> 2 * length todo + 1
     | Prune_Steps g todo \<Rightarrow> 2 * length todo | Prune_Steps_Unload g s todo \<Rightarrow> 2 * length todo + 1 | _ \<Rightarrow> 0)"

lemma advance_decreases:
  assumes "(t', st') \<in> set (advance mode i t st)"
  shows "phase t' < phase t \<or> phase t' = phase t \<and> remaining t' < remaining t"
  using assms
proof (rule advance_elim)
  assume "(t', st') \<in> set (lease_advance mode i t st)"
  then show ?thesis
    by (cases "(mode, i, t, st)" rule: lease_advance.cases)
      (auto simp: phase_def split: if_splits sum.splits bool.splits)
next
  assume "(t', st') \<in> set (prune_advance mode i t st)"
  then show ?thesis
    by (cases "(mode, i, t, st)" rule: prune_advance.cases)
      (auto simp: phase_def remaining_def prune_model_adapters_def split: if_splits)
next
  assume "(t', st') \<in> set (service_advance t st)"
  then show ?thesis by (cases "(t, st)" rule: service_advance.cases) (auto simp: phase_def)
qed

lemma sum_list_replace:
  fixes f :: "'a \<Rightarrow> nat"
  shows "i < length xs \<Longrightarrow> sum_list (map f (xs[i := x])) + f (xs ! i) = sum_list (map f xs) + f x"
proof (induction xs arbitrary: i)
  case (Cons y ys)
  then show ?case by (cases i) auto
qed simp

definition work :: "config \<Rightarrow> nat \<times> nat" where
  "work c = (sum_list (map phase (fst c)), sum_list (map remaining (fst c)))"

lemma step_decreases:
  assumes "serving_step mode c c'"
  shows "(work c', work c) \<in> less_than <*lex*> less_than"
  using assms
proof (cases rule: serving_step.cases)
  case (run_task i ts t st' st)
  have "sum_list (map phase (ts[i := t])) + phase (ts ! i) = sum_list (map phase ts) + phase t"
    "sum_list (map remaining (ts[i := t])) + remaining (ts ! i) = sum_list (map remaining ts) + remaining t"
    using run_task(3) by (rule sum_list_replace)+
  with advance_decreases [OF run_task(4)] show ?thesis by (auto simp: run_task(1,2) work_def)
qed

lemma serving_terminates: "wf {(c', c). serving_step mode c c'}"
  by (rule wf_subset [OF wf_inv_image [OF wf_lex_prod [OF wf_less_than wf_less_than], of work]])
    (auto simp: inv_image_def dest: step_decreases)

text \<open>A task that cannot go on waits for a lock, and the holder of a lock can always go on.\<close>

lemma prune_list_advances:
  "prune_advance mode i (Prune_Exact g r todo) st \<noteq> []" "prune_advance mode i (Prune_Steps g todo) st \<noteq> []"
  by (cases todo; simp)+

lemma locker_advances: "locks t \<Longrightarrow> advance mode i t st \<noteq> []"
  by (cases t) (auto simp: advance_def locks_def prune_list_advances)

lemma guard_advances: "guards t \<Longrightarrow> sv_lock st = None \<Longrightarrow> advance mode i t st \<noteq> []"
  by (cases t) (auto simp: advance_def guards_def prune_list_advances)

lemma free_advances: "\<not> ended t \<Longrightarrow> sv_guard st = None \<Longrightarrow> sv_lock st = None \<Longrightarrow> advance mode i t st \<noteq> []"
proof (cases t)
  case (Lease_Idle kind s)
  assume "sv_guard st = None" "sv_lock st = None"
  with Lease_Idle show ?thesis by (cases kind) (auto simp: advance_def split: sum.splits bool.splits)
next
  case (Exact_Returning s)
  assume "sv_guard st = None" "sv_lock st = None"
  with Exact_Returning show ?thesis by (auto simp: advance_def split: sum.splits bool.splits)
qed (auto simp: advance_def ended_def prune_list_advances prune_model_adapters_def)

lemma can_step:
  assumes "i < length ts" and "advance mode i (ts ! i) st \<noteq> []"
  shows "\<exists>c. serving_step mode (ts, st) c"
proof -
  obtain t st' where "(t, st') \<in> set (advance mode i (ts ! i) st)" using assms(2)
    by (cases "advance mode i (ts ! i) st") auto
  with assms(1) show ?thesis by (metis serving_step.run_task)
qed

definition quiescent :: "config \<Rightarrow> bool" where
  "quiescent c \<longleftrightarrow> (case c of (ts, st) \<Rightarrow> list_all ended ts \<and> sv_guard st = None \<and> sv_lock st = None \<and>
     active_steps (sv_counts st) = {})"

lemma stuck_quiescent:
  assumes "coherent (ts, st)" and stuck: "\<not> (\<exists>c. serving_step mode (ts, st) c)"
  shows "quiescent (ts, st)"
proof -
  have own: "owned guards ts (sv_guard st)" "owned locks ts (sv_lock st)" using assms(1) by (auto simp: coherent_def)
  have stop: "advance mode i (ts ! i) st = []" if "i < length ts" for i using can_step [OF that] stuck by blast
  have lock: "sv_lock st = None"
  proof (rule ccontr)
    assume "sv_lock st \<noteq> None"
    then obtain j where "j < length ts" "locks (ts ! j)" using own(2) by (auto simp: owned_def)
    with stop locker_advances show False by blast
  qed
  have guard: "sv_guard st = None"
  proof (rule ccontr)
    assume "sv_guard st \<noteq> None"
    then obtain j where "j < length ts" "guards (ts ! j)" using own(1) by (auto simp: owned_def)
    with stop guard_advances lock show False by blast
  qed
  have ends: "ended t" if "t \<in> set ts" for t
    using that stop free_advances guard lock by (metis in_set_conv_nth)
  then have "held t = None" if "t \<in> set ts" for t using ends [OF that] by (auto simp: ended_def held_def)
  then have "active_steps (sv_counts st) = {}" using coherent_active [OF assms(1)] by fastforce
  with ends guard lock show ?thesis by (simp add: quiescent_def list_all_iff)
qed

section \<open>Runs chosen step by step\<close>

text \<open>A schedule names the task that runs next and which of its outcomes happens.\<close>

primrec run_schedule :: "update_mode \<Rightarrow> (nat \<times> nat) list \<Rightarrow> config \<Rightarrow> config option" where
  "run_schedule mode [] c = Some c"
| "run_schedule mode (k # ks) c =
     (let outcomes = advance mode (fst k) (fst c ! fst k) (snd c) in
      if fst k < length (fst c) \<and> snd k < length outcomes
      then run_schedule mode ks ((fst c)[fst k := fst (outcomes ! snd k)], snd (outcomes ! snd k)) else None)"

lemma run_schedule_reachable: "run_schedule mode ks c = Some c' \<Longrightarrow> reachable mode c c'"
proof (induction ks arbitrary: c)
  case (Cons k ks)
  obtain ts st where c: "c = (ts, st)" by (cases c)
  let ?o = "advance mode (fst k) (ts ! fst k) st ! snd k"
  have k: "fst k < length ts" "snd k < length (advance mode (fst k) (ts ! fst k) st)"
    and rest: "run_schedule mode ks (ts[fst k := fst ?o], snd ?o) = Some c'"
    using Cons.prems by (auto simp: c Let_def split: if_splits)
  have "(fst ?o, snd ?o) \<in> set (advance mode (fst k) (ts ! fst k) st)" using k(2) by simp
  then have "serving_step mode c (ts[fst k := fst ?o], snd ?o)" unfolding c by (rule serving_step.run_task [OF k(1)])
  with Cons.IH [OF rest] show ?case by (meson converse_rtranclp_into_rtranclp)
qed simp

definition idle_service :: serving where
  "idle_service = \<lparr>sv_manager = True, sv_counts = Mapping.empty, sv_guard = None, sv_loaded = {7, 8}, sv_exact = {}, sv_refs = \<lambda>_. None,
     sv_lock = None, sv_latest = 8, sv_started = True, sv_closing = False\<rparr>"

lemma idle_service_initial: "list_all waiting ts \<Longrightarrow> initial (ts, idle_service)"
  by (simp add: initial_def idle_service_def)

definition reaches :: "update_mode \<Rightarrow> (nat \<times> nat) list \<Rightarrow> config \<Rightarrow> (config \<Rightarrow> bool) \<Rightarrow> bool" where
  "reaches mode ks c P \<longleftrightarrow> (case run_schedule mode ks c of None \<Rightarrow> False | Some c' \<Rightarrow> P c')"

lemma reachesD: "reaches mode ks c P \<Longrightarrow> \<exists>c'. reachable mode c c' \<and> P c'"
  unfolding reaches_def by (auto split: option.splits intro: run_schedule_reachable)

text \<open>
  With step adapters, an exact lease can enter its body after its adapter was unloaded:
  it found the adapter loaded while a prune, which had read the leased steps before, was
  about to unload it, and then waited for the prune to release the condition.
\<close>

lemma exact_lease_race:
  "\<exists>c. reachable Step_Lora ([Lease_Idle Exact_Lease 7, Prune_Idle {}], idle_service) c \<and>
     fst c ! 0 = Lease_Body Exact_Lease 7 \<and> 7 \<notin> sv_loaded (snd c)"
proof (rule reachesD)
  show "reaches Step_Lora [(1, 0), (1, 0), (1, 0), (1, 0), (0, 0), (1, 0), (1, 0), (1, 0), (0, 0)]
      ([Lease_Idle Exact_Lease 7, Prune_Idle {}], idle_service)
      (\<lambda>c. fst c ! 0 = Lease_Body Exact_Lease 7 \<and> 7 \<notin> sv_loaded (snd c))"
    by code_simp
qed

text \<open>
  Before the first lease of a model there is no manager, and a prune runs without the
  guard: an adapter that is leased while it waits for the runtime is unloaded all the same.
\<close>

lemma unguarded_prune_race:
  "\<exists>c. reachable Step_Lora ([Lease_Idle Manager_Lease 7, Prune_Idle {}], idle_service\<lparr>sv_manager := False\<rparr>) c \<and>
     fst c ! 0 = Lease_Body Manager_Lease 7 \<and> 7 \<notin> sv_loaded (snd c)"
proof (rule reachesD)
  show "reaches Step_Lora [(1, 0), (1, 0), (1, 0), (1, 0), (0, 0), (1, 0)]
      ([Lease_Idle Manager_Lease 7, Prune_Idle {}], idle_service\<lparr>sv_manager := False\<rparr>)
      (\<lambda>c. fst c ! 0 = Lease_Body Manager_Lease 7 \<and> 7 \<notin> sv_loaded (snd c))"
    by code_simp
qed

text \<open>
  In the in-flight mode the last exact lease unloads its adapter, also while a lease of the
  manager alone, which does not count its users, is held on the same step.
\<close>

lemma exact_return_unloads:
  "\<exists>c. reachable In_Flight_Lora ([Lease_Idle Manager_Lease 7, Lease_Idle Exact_Lease 7], idle_service) c \<and>
     fst c ! 0 = Lease_Body Manager_Lease 7 \<and> fst c ! 1 = Finished \<and> 7 \<notin> sv_exact (snd c)"
proof (rule reachesD)
  show "reaches In_Flight_Lora [(0, 0), (1, 0), (1, 0), (1, 0), (1, 0), (1, 0), (1, 0), (1, 0)]
      ([Lease_Idle Manager_Lease 7, Lease_Idle Exact_Lease 7], idle_service)
      (\<lambda>c. fst c ! 0 = Lease_Body Manager_Lease 7 \<and> fst c ! 1 = Finished \<and> 7 \<notin> sv_exact (snd c))"
    by code_simp
qed

text \<open>
  Closing the service forgets the reference counts while exact leases are out: returning
  one of them then raises KeyError.
\<close>

lemma close_breaks_return:
  "\<exists>c. reachable In_Flight_Lora ([Lease_Idle Exact_Lease 7, Close], idle_service) c \<and> fst c ! 0 = Crashed"
proof (rule reachesD)
  show "reaches In_Flight_Lora [(0, 0), (0, 0), (0, 0), (1, 0), (0, 0), (0, 0), (0, 0)]
      ([Lease_Idle Exact_Lease 7, Close], idle_service) (\<lambda>c. fst c ! 0 = Crashed)"
    by code_simp
qed

section \<open>Properties of the leases\<close>

text \<open>
  C33. The manager's counts are exact in every interleaving: the active steps are the steps
  some task holds a lease on, each counted once per task, whatever leases, prunes,
  publications and failed requests ran before.
\<close>

theorem active_steps_exact:
  assumes "initial c0" and "reachable mode c0 (ts, st)"
  shows "active_steps (sv_counts st) = {s. \<exists>t \<in> set ts. held t = Some s} \<and>
    (\<forall>s. lease_count (Mapping.lookup (sv_counts st)) s = int (tally (\<lambda>t. held t = Some s) ts))"
proof -
  have c: "coherent (ts, st)" by (rule reachable_coherent [OF assms(2,1)])
  then have "lease_count (Mapping.lookup (sv_counts st)) s = int (tally (\<lambda>t. held t = Some s) ts)" for s
    by (simp add: coherent_def lease_count_def counts_of_def)
  with coherent_active [OF c] show ?thesis by simp
qed

lemma two_leases:
  "reachable Step_Lora ([Lease_Idle Manager_Lease 7, Lease_Idle Manager_Lease 7], idle_service)
     ([Lease_Body Manager_Lease 7, Lease_Body Manager_Lease 7],
      idle_service\<lparr>sv_counts := lease_enter 7 (lease_enter 7 Mapping.empty)\<rparr>)"
  by (rule run_schedule_reachable [of _ "[(0, 0), (1, 0)]"]) (simp add: advance_def idle_service_def)

theorem active_steps_exact_witness:
  "active_steps (lease_enter 7 (lease_enter 7 Mapping.empty)) = {7} \<and>
   lease_count (Mapping.lookup (lease_enter 7 (lease_enter 7 Mapping.empty))) 7 = 2"
proof -
  have start: "initial ([Lease_Idle Manager_Lease 7, Lease_Idle Manager_Lease 7], idle_service)"
    by (rule idle_service_initial) (simp add: waiting_def)
  from active_steps_exact [OF start two_leases] show ?thesis by (auto simp: held_def tally_def)
qed

text \<open>Once a model has its manager, every prune holds the guard.\<close>

lemma advance_manager:
  "(t', st') \<in> set (advance mode i t st) \<Longrightarrow> sv_manager st \<Longrightarrow> \<not> unguarded t \<Longrightarrow> sv_manager st' \<and> \<not> unguarded t'"
proof (erule advance_elim)
  assume "(t', st') \<in> set (lease_advance mode i t st)" "sv_manager st" "\<not> unguarded t"
  then show ?thesis
    by (cases "(mode, i, t, st)" rule: lease_advance.cases)
      (auto simp: unguarded_def segments Let_def split: if_splits sum.splits option.splits)
next
  assume "(t', st') \<in> set (prune_advance mode i t st)" "sv_manager st" "\<not> unguarded t"
  then show ?thesis
    by (cases "(mode, i, t, st)" rule: prune_advance.cases) (auto simp: unguarded_def segments split: if_splits)
next
  assume "(t', st') \<in> set (service_advance t st)" "sv_manager st" "\<not> unguarded t"
  then show ?thesis by (cases "(t, st)" rule: service_advance.cases) (auto simp: unguarded_def segments)
qed

lemma reachable_manager:
  assumes "reachable mode c0 c" and "initial c0" and "sv_manager (snd c0)"
  shows "sv_manager (snd c) \<and> (\<forall>t \<in> set (fst c). \<not> unguarded t)"
  using assms(1)
proof (induction rule: rtranclp_induct)
  case base
  have "\<not> unguarded t" if "waiting t" for t using that by (cases t) (simp_all add: waiting_def unguarded_def)
  with assms(2,3) show ?case by (auto simp: initial_def list_all_iff split: prod.splits)
next
  case (step c c')
  from step(2) show ?case
  proof (cases rule: serving_step.cases)
    case (run_task i ts t st' st)
    have "sv_manager st' \<and> \<not> unguarded t" using advance_manager [OF run_task(4)] step.IH run_task(1,3) by simp
    with step.IH show ?thesis by (auto simp: run_task(1,2) dest: set_update_subset_insert [THEN subsetD])
  qed
qed

text \<open>Exact adapters exist in the in-flight mode only, and only their last user unloads them.\<close>

lemma advance_no_exact: "(t', st') \<in> set (advance Step_Lora i t st) \<Longrightarrow> sv_exact st = {} \<Longrightarrow> sv_exact st' = {}"
proof (erule advance_elim)
  assume "(t', st') \<in> set (lease_advance Step_Lora i t st)" "sv_exact st = {}"
  then show ?thesis
    by (cases "(Step_Lora, i, t, st)" rule: lease_advance.cases)
      (auto simp: segments Let_def split: if_splits sum.splits option.splits)
next
  assume "(t', st') \<in> set (prune_advance Step_Lora i t st)" "sv_exact st = {}"
  then show ?thesis by (cases "(Step_Lora, i, t, st)" rule: prune_advance.cases) (auto simp: segments split: if_splits)
next
  assume "(t', st') \<in> set (service_advance t st)" "sv_exact st = {}"
  then show ?thesis by (cases "(t, st)" rule: service_advance.cases) (auto simp: segments)
qed

lemma reachable_no_exact: "reachable Step_Lora c0 c \<Longrightarrow> initial c0 \<Longrightarrow> sv_exact (snd c) = {}"
  by (induction rule: rtranclp_induct)
    (auto simp: initial_def elim!: serving_step.cases dest: advance_no_exact split: prod.splits)

lemma exact_unloaded_by:
  "(t', st') \<in> set (advance mode i t st) \<Longrightarrow> settled st t \<Longrightarrow> s \<in> sv_exact st \<Longrightarrow> s \<notin> sv_exact st' \<Longrightarrow>
    t = Exact_Unloading s \<and> sv_refs st s = Some 1"
proof (erule advance_elim)
  assume "(t', st') \<in> set (lease_advance mode i t st)" "settled st t" "s \<in> sv_exact st" "s \<notin> sv_exact st'"
  then show ?thesis
    by (cases "(mode, i, t, st)" rule: lease_advance.cases)
      (auto simp: segments settled_def Let_def split: if_splits sum.splits option.splits)
next
  assume "(t', st') \<in> set (prune_advance mode i t st)" "settled st t" "s \<in> sv_exact st" "s \<notin> sv_exact st'"
  then show ?thesis by (cases "(mode, i, t, st)" rule: prune_advance.cases) (auto simp: segments settled_def split: if_splits)
next
  assume "(t', st') \<in> set (service_advance t st)" "settled st t" "s \<in> sv_exact st" "s \<notin> sv_exact st'"
  then show ?thesis by (cases "(t, st)" rule: service_advance.cases) (auto simp: segments settled_def)
qed

lemma tally_one:
  assumes "tally P xs \<le> 1" and "i < length xs" "P (xs ! i)" and "x \<in> set xs" "P x"
  shows "x = xs ! i"
proof -
  have "0 < tally P xs" unfolding tally_pos using assms(2,3) nth_mem by blast
  then have "length (filter P xs) = 1" using assms(1) unfolding tally_def by linarith
  then obtain y where "filter P xs = [y]" by (auto simp: length_Suc_conv)
  then have "set (filter P xs) = {y}" by simp
  then have "z = y" if "z \<in> set xs" "P z" for z using that by auto
  with assms(2-5) show ?thesis using nth_mem by metis
qed

text \<open>
  C30. A leased adapter is not unloaded. Whatever the interleaving, a step that removes an
  adapter from those served by their step removes one no task holds a lease on, although
  a prune reads the leases once and then unloads adapter after adapter while it awaits the
  runtime; the one exception is a prune that began when the model had no lease manager
  yet, hence without the guard (\<open>unguarded_prune_race\<close>). And a step that removes an exact
  adapter of the in-flight mode is that of its last user, which returns it: no other exact
  lease has it, though a lease of the manager alone may (\<open>exact_return_unloads\<close>). The
  service is not being closed.
\<close>

theorem leased_adapters_stay:
  assumes "initial c0" and "reachable mode c0 (ts, st)" and "serving_step mode (ts, st) (ts', st')" and "Close \<notin> set ts"
  shows "(\<forall>s. s \<in> sv_loaded st \<and> s \<notin> sv_loaded st' \<longrightarrow> (\<forall>t \<in> set ts. held t \<noteq> Some s) \<or>
      \<not> sv_manager (snd c0) \<and> (\<exists>i t. i < length ts \<and> unguarded (ts ! i) \<and> ts' = ts[i := t])) \<and>
    (\<forall>s. s \<in> sv_exact st \<and> s \<notin> sv_exact st' \<and> Close \<notin> set (fst c0) \<longrightarrow>
      (\<forall>t \<in> set ts. used t = Some s \<longrightarrow> t = Exact_Unloading s))"
proof -
  have c: "coherent (ts, st)" by (rule reachable_coherent [OF assms(2,1)])
  from assms(3) obtain i t where i: "i < length ts" and step: "(t, st') \<in> set (advance mode i (ts ! i) st)" and ts': "ts' = ts[i := t]"
    by (auto elim: serving_stepE)
  have "spares (active_steps (sv_counts st)) (ts ! i)" "finite (sv_loaded st)" using c i by (auto simp: coherent_def)
  moreover have "ts ! i \<noteq> Close" using assms(4) i by (metis nth_mem)
  ultimately have kept: "sv_loaded st \<inter> active_steps (sv_counts st) \<subseteq> sv_loaded st'" if "\<not> unguarded (ts ! i)"
    using advance_effect(8) [OF step] that by blast
  have guarded: "\<not> unguarded (ts ! i)" if "sv_manager (snd c0)"
    using reachable_manager [OF assms(2,1) that] i by simp
  have exact: "t = Exact_Unloading s"
    if s: "s \<in> sv_exact st" "s \<notin> sv_exact st'" "Close \<notin> set (fst c0)" and t: "t \<in> set ts" "used t = Some s" for s t
  proof -
    have "mode = In_Flight_Lora" using reachable_no_exact [of c0 "(ts, st)"] assms(1,2) s(1) by (cases mode) auto
    then have n: "counted (ts, st)" using reachable_counted assms(1,2) s(3) by blast
    then have "settled st (ts ! i)" using i by (simp add: counted_def)
    with exact_unloaded_by [OF step _ s(1,2)] have own: "ts ! i = Exact_Unloading s" "sv_refs st s = Some 1" by blast+
    have "int (tally (\<lambda>t. used t = Some s) ts) \<le> lease_count (sv_refs st) s" using n by (simp add: counted_def)
    then have "tally (\<lambda>t. used t = Some s) ts \<le> 1" by (simp add: own(2) lease_count_def)
    from tally_one [OF this i _ t] own(1) show ?thesis by (simp add: used_def)
  qed
  show ?thesis
    using kept guarded exact i ts' unfolding coherent_active [OF c] by blast
qed

lemma prune_example:
  defines "st \<equiv> idle_service\<lparr>sv_counts := lease_enter 8 Mapping.empty, sv_guard := Some 1\<rparr>"
  shows "reachable Step_Lora ([Lease_Idle Manager_Lease 8, Prune_Idle {}], idle_service)
     ([Lease_Body Manager_Lease 8, Prune_Steps_Unload True 7 []], st)"
    and "serving_step Step_Lora ([Lease_Body Manager_Lease 8, Prune_Steps_Unload True 7 []], st)
     ([Lease_Body Manager_Lease 8, Prune_Steps True []], unload_adapter 7 st)"
proof -
  have active: "active_steps (lease_enter 8 Mapping.empty) = {8}" by (simp add: active_steps_def lease_enter_def)
  show "reachable Step_Lora ([Lease_Idle Manager_Lease 8, Prune_Idle {}], idle_service)
     ([Lease_Body Manager_Lease 8, Prune_Steps_Unload True 7 []], st)"
    by (rule run_schedule_reachable [of _ "[(0, 0), (1, 0), (1, 0), (1, 0), (1, 0)]"])
      (simp add: advance_def idle_service_def st_def active insert_Diff_if prune_model_adapters_def)
  show "serving_step Step_Lora ([Lease_Body Manager_Lease 8, Prune_Steps_Unload True 7 []], st)
     ([Lease_Body Manager_Lease 8, Prune_Steps True []], unload_adapter 7 st)"
    using serving_step.run_task [of 1 "[Lease_Body Manager_Lease 8, Prune_Steps_Unload True 7 []]" "Prune_Steps True []"
        "unload_adapter 7 st" Step_Lora st] by (simp add: advance_def)
qed

theorem leased_adapters_stay_witness:
  "7 \<in> sv_loaded idle_service \<and> 7 \<notin> sv_loaded (unload_adapter 7 idle_service) \<and> held (Lease_Body Manager_Lease 8) \<noteq> Some 7"
proof -
  let ?ts = "[Lease_Body Manager_Lease 8, Prune_Steps_Unload True 7 []]"
  have start: "initial ([Lease_Idle Manager_Lease 8, Prune_Idle {}], idle_service)"
    by (rule idle_service_initial) (simp add: waiting_def)
  have "Close \<notin> set ?ts" by simp
  from leased_adapters_stay [OF start prune_example this] have "\<forall>t \<in> set ?ts. held t \<noteq> Some 7"
    by (simp add: idle_service_def unload_adapter_def)
  then show ?thesis by (simp add: idle_service_def unload_adapter_def)
qed

lemma pinned_requests:
  "fst (pin_inference_target (md_name model) s (Some (exact_lora_name mode (md_name model) s))
     (\<lambda>pins. (map (\<lambda>step. model_inference_name pins model step disk) [None, Some s], pins)) pins)
   = [Inr (exact_lora_name mode (md_name model) s), Inr (exact_lora_name mode (md_name model) s)]"
proof -
  have "model_inference_name (pins(md_name model \<mapsto> \<lparr>it_step = s, it_model_name = Some (exact_lora_name mode (md_name model) s)\<rparr>))
      model step disk = Inr (exact_lora_name mode (md_name model) s)" if "step = None \<or> step = Some s" for step
    by (rule pinned_name_used [OF _ exact_lora_name_nonempty that]) simp
  then show ?thesis by (simp add: pin_inference_target_def)
qed

text \<open>
  C31. In the in-flight mode an exact lease keeps its adapter as long as the service is not
  closed, which the exit of one of its child processes does too: in every interleaving
  without a close no lease ends in a KeyError, and while a task is in the body of an exact
  lease its adapter is loaded and counted, and requests of the model, for that step or for
  none, are sent under the name of that adapter. After a close a lease that is returned
  does end in a KeyError (\<open>close_breaks_return\<close>).
\<close>

theorem exact_lease_keeps_adapter:
  assumes "initial c0" and "Close \<notin> set (fst c0)" and "reachable In_Flight_Lora c0 (ts, st)"
  shows "Crashed \<notin> set ts \<and>
    (\<forall>s. Lease_Body Exact_Lease s \<in> set ts \<longrightarrow> s \<in> sv_exact st \<and>
       int (tally (\<lambda>t. used t = Some s) ts) \<le> lease_count (sv_refs st) s \<and>
       fst (pin_inference_target (md_name model) s (Some (exact_lora_name In_Flight_Lora (md_name model) s))
         (\<lambda>pins. (map (\<lambda>step. model_inference_name pins model step disk) [None, Some s], pins)) pins)
       = [Inr (exact_lora_name In_Flight_Lora (md_name model) s), Inr (exact_lora_name In_Flight_Lora (md_name model) s)])"
proof -
  have c: "counted (ts, st)" by (rule reachable_counted [OF assms(3,1,2)])
  then have "Crashed \<notin> set ts" by (auto simp: counted_def settled_def)
  moreover have "s \<in> sv_exact st" if "Lease_Body Exact_Lease s \<in> set ts" for s
    by (rule counted_used(3) [OF c that]) (simp add: used_def)
  moreover have "int (tally (\<lambda>t. used t = Some s) ts) \<le> lease_count (sv_refs st) s" for s
    using c by (simp add: counted_def)
  ultimately show ?thesis by (intro conjI allI impI pinned_requests)
qed

theorem exact_lease_keeps_adapter_witness:
  "\<exists>st. reachable In_Flight_Lora ([Lease_Idle Exact_Lease 7], idle_service) ([Lease_Body Exact_Lease 7], st) \<and> 7 \<in> sv_exact st"
proof -
  let ?st = "idle_service\<lparr>sv_exact := {7}, sv_refs := [7 \<mapsto> 1], sv_counts := lease_enter 7 Mapping.empty\<rparr>"
  have start: "initial ([Lease_Idle Exact_Lease 7], idle_service)" by (rule idle_service_initial) (simp add: waiting_def)
  have run: "reachable In_Flight_Lora ([Lease_Idle Exact_Lease 7], idle_service) ([Lease_Body Exact_Lease 7], ?st)"
    by (rule run_schedule_reachable [of _ "[(0, 0), (0, 0), (0, 0)]"]) (simp add: advance_def idle_service_def segments)
  have "Close \<notin> set (fst ([Lease_Idle Exact_Lease 7], idle_service))" by simp
  from exact_lease_keeps_adapter [OF start this run] have "7 \<in> sv_exact ?st" by simp
  with run show ?thesis by blast
qed

text \<open>
  C32. Serving always comes to rest: there is no infinite run, whatever the runtime answers,
  and a run that cannot be continued has ended all its tasks, freed both locks and
  returned every lease. In particular leases, prunes and publications never deadlock.
\<close>

theorem serving_comes_to_rest:
  assumes "initial c0"
  shows "\<not> (\<exists>run. run 0 = c0 \<and> (\<forall>n. serving_step mode (run n) (run (Suc n)))) \<and>
    (\<forall>c. reachable mode c0 c \<and> \<not> (\<exists>c'. serving_step mode c c') \<longrightarrow> quiescent c) \<and>
    (\<forall>c. reachable mode c0 c \<longrightarrow> (\<exists>c'. reachable mode c c' \<and> quiescent c'))"
proof -
  have rest: "quiescent c" if "reachable mode c0 c" "\<not> (\<exists>c'. serving_step mode c c')" for c
    using stuck_quiescent [of "fst c" "snd c"] reachable_coherent [OF that(1) assms] that(2) by simp
  have "\<not> (\<exists>run. run 0 = c0 \<and> (\<forall>n. serving_step mode (run n) (run (Suc n))))"
    using serving_terminates [of mode] unfolding wf_iff_no_infinite_down_chain by blast
  moreover have "\<exists>c'. reachable mode c c' \<and> quiescent c'" if "reachable mode c0 c" for c
    using serving_terminates [of mode] that
  proof (induction c rule: wf_induct_rule)
    case (less c)
    show ?case
    proof (cases "\<exists>c'. serving_step mode c c'")
      case True
      then obtain c' where c': "serving_step mode c c'" by blast
      moreover have "reachable mode c0 c'" using less.prems c' by (rule rtranclp.rtrancl_into_rtrancl)
      ultimately obtain d where "reachable mode c' d" "quiescent d" using less.IH [of c'] by blast
      with c' show ?thesis by (meson converse_rtranclp_into_rtranclp)
    qed (use rest [OF less.prems] in blast)
  qed
  ultimately show ?thesis using rest by blast
qed

theorem serving_comes_to_rest_witness:
  "\<exists>c. reachable Step_Lora ([Lease_Idle Exact_Lease 7, Prune_Idle {}, Publish 9], idle_service) c \<and> quiescent c"
proof -
  have "initial ([Lease_Idle Exact_Lease 7, Prune_Idle {}, Publish 9], idle_service)"
    by (rule idle_service_initial) (simp add: waiting_def)
  from serving_comes_to_rest [OF this, of Step_Lora] show ?thesis by blast
qed

end
