(* ===== verification/Range_Ops.thy ===== *)
theory Range_Ops
  imports "HOL-Library.Word" "HOL-Library.Signed_Division" Attention
begin

text \<open>
  Gathering and scattering token ranges between context-parallel ranks
  (megatron/context_parallel/range_ops.py): the metadata of a list of ranges and its
  cache, the four device kernels as element operations that may run in any order and
  compute their offsets in machine integers, the host paths, and the operations built on
  them.
\<close>

section \<open>Range metadata\<close>

definition nonempty_ranges :: "token_range list \<Rightarrow> token_range list" where
  "nonempty_ranges ranges = filter (\<lambda>r. tk_size r > 0) ranges"

definition single_range :: "token_range list \<Rightarrow> token_range option" where
  "single_range ranges = (case nonempty_ranges ranges of [r] \<Rightarrow> Some r | _ \<Rightarrow> None)"

definition range_key :: "token_range list \<Rightarrow> (nat \<times> nat) list" where
  "range_key ranges = map (\<lambda>r. (tk_start r, tk_end r)) (nonempty_ranges ranges)"

record range_meta =
  rm_ranges :: "(nat \<times> nat) list"
  rm_cu_sizes :: "nat list"
  rm_row_map :: "nat list"
  rm_total :: nat

type_synonym meta_cache = "((nat \<times> nat) list \<Rightarrow> range_meta option) option"

text \<open>torch.cumsum and torch.repeat_interleave.\<close>

primrec running_sums :: "nat \<Rightarrow> nat list \<Rightarrow> nat list" where
  "running_sums acc [] = []"
| "running_sums acc (n # ns) = (acc + n) # running_sums (acc + n) ns"

definition repeat_interleave :: "nat list \<Rightarrow> nat list \<Rightarrow> nat list" where
  "repeat_interleave xs counts = concat (map (\<lambda>(x, n). replicate n x) (zip xs counts))"

definition build_range_meta :: "token_range list \<Rightarrow> range_meta" where
  "build_range_meta ranges =
     (let compact = nonempty_ranges ranges in
      if compact = [] then \<lparr>rm_ranges = [], rm_cu_sizes = [], rm_row_map = [], rm_total = 0\<rparr>
      else let sizes = map (\<lambda>r. tk_end r - tk_start r) compact
      in \<lparr>rm_ranges = map (\<lambda>r. (tk_start r, tk_end r)) compact,
          rm_cu_sizes = running_sums 0 (0 # sizes),
          rm_row_map = repeat_interleave [0..<length compact] sizes,
          rm_total = sum_list sizes\<rparr>)"

definition range_meta_of :: "token_range list \<Rightarrow> meta_cache \<Rightarrow> range_meta \<times> meta_cache" where
  "range_meta_of ranges cache =
     (let meta = build_range_meta ranges in
      case cache of None \<Rightarrow> (meta, None)
      | Some entries \<Rightarrow>
        (case entries (range_key ranges) of Some cached \<Rightarrow> (cached, cache)
         | None \<Rightarrow> (meta, Some (entries(range_key ranges \<mapsto> meta)))))"

text \<open>The rows the ranges select, one after the other.\<close>

definition source_rows :: "token_range list \<Rightarrow> nat list" where
  "source_rows ranges = concat (map (\<lambda>r. [tk_start r..<tk_end r]) (nonempty_ranges ranges))"

lemma nonempty_ranges_lt: "r \<in> set (nonempty_ranges ranges) \<Longrightarrow> tk_start r < tk_end r"
  by (auto simp: nonempty_ranges_def tk_size_def)

lemma source_rows_mem: "j \<in> set (source_rows ranges) \<Longrightarrow> \<exists>r \<in> set ranges. tk_start r \<le> j \<and> j < tk_end r"
  by (auto simp: source_rows_def nonempty_ranges_def)

lemma running_sums_nth: "k < length ns \<Longrightarrow> running_sums acc ns ! k = acc + sum_list (take (Suc k) ns)"
  by (induction ns arbitrary: acc k) (auto simp: nth_Cons split: nat.splits)

text \<open>Reading a row of the concatenation through its range, its base and its offset.\<close>

lemma interleave_Cons:
  "repeat_interleave [m..<m + length (iv # ivs)] (n # ns) = replicate n m @ repeat_interleave [Suc m..<Suc m + length ivs] ns"
proof -
  have "[m..<m + length (iv # ivs)] = m # [Suc m..<Suc m + length ivs]" by (subst upt_conv_Cons) simp_all
  then show ?thesis by (simp only: repeat_interleave_def zip_Cons_Cons list.map prod.case concat.simps)
qed

lemma interleaved_row:
  fixes m :: nat
  assumes "i < length (concat (map (\<lambda>(a, b). [a..<b]) ivs))"
    and "\<And>a b. (a, b) \<in> set ivs \<Longrightarrow> a < b"
  shows "\<exists>k < length ivs. repeat_interleave [m..<m + length ivs] (map (\<lambda>(a, b). b - a) ivs) ! i = m + k \<and>
    sum_list (take k (map (\<lambda>(a, b). b - a) ivs)) \<le> i \<and>
    concat (map (\<lambda>(a, b). [a..<b]) ivs) ! i = fst (ivs ! k) + (i - sum_list (take k (map (\<lambda>(a, b). b - a) ivs)))"
  using assms
proof (induction ivs arbitrary: i m)
  case (Cons iv ivs)
  obtain a b where iv: "iv = (a, b)" by (cases iv)
  let ?sizes = "map (\<lambda>(a, b). b - a) ivs"
  have sizes: "map (\<lambda>(a, b). b - a) (iv # ivs) = (b - a) # ?sizes" by (simp add: iv)
  show ?case
  proof (cases "i < b - a")
    case True
    then show ?thesis unfolding sizes interleave_Cons by (intro exI [of _ 0]) (simp add: iv nth_append)
  next
    case False
    then have i: "i - (b - a) < length (concat (map (\<lambda>(a, b). [a..<b]) ivs))" using Cons.prems(1) by (simp add: iv)
    have ne: "\<And>a b. (a, b) \<in> set ivs \<Longrightarrow> a < b" using Cons.prems(2) by simp
    obtain k where k: "k < length ivs" "repeat_interleave [Suc m..<Suc m + length ivs] ?sizes ! (i - (b - a)) = Suc m + k"
      "sum_list (take k ?sizes) \<le> i - (b - a)"
      "concat (map (\<lambda>(a, b). [a..<b]) ivs) ! (i - (b - a)) = fst (ivs ! k) + (i - (b - a) - sum_list (take k ?sizes))"
      using Cons.IH [OF i ne, of "Suc m"] by blast
    have at: "(replicate (b - a) m @ repeat_interleave [Suc m..<Suc m + length ivs] ?sizes) ! i = m + Suc k"
      using False k(2) by (simp add: nth_append)
    have row: "concat (map (\<lambda>(a, b). [a..<b]) (iv # ivs)) ! i = fst ((iv # ivs) ! Suc k) + (i - sum_list (take (Suc k) ((b - a) # ?sizes)))"
      using False k(4) by (simp add: iv nth_append)
    have "Suc k < length (iv # ivs)" "sum_list (take (Suc k) ((b - a) # ?sizes)) \<le> i" using k(1,3) False by simp_all
    with at row show ?thesis unfolding sizes interleave_Cons by blast
  qed
qed simp

definition kernel_row :: "range_meta \<Rightarrow> nat \<Rightarrow> nat" where
  "kernel_row meta i =
     (let range_idx = rm_row_map meta ! i; range_base = rm_cu_sizes meta ! range_idx; range_row = i - range_base
      in fst (rm_ranges meta ! range_idx) + range_row)"

lemma build_range_meta_rows:
  "rm_total (build_range_meta ranges) = length (source_rows ranges)"
  "i < length (source_rows ranges) \<Longrightarrow> kernel_row (build_range_meta ranges) i = source_rows ranges ! i"
  "i < length (source_rows ranges) \<Longrightarrow> rm_cu_sizes (build_range_meta ranges) ! (rm_row_map (build_range_meta ranges) ! i) \<le> i"
proof -
  let ?c = "nonempty_ranges ranges"
  let ?ivs = "map (\<lambda>r. (tk_start r, tk_end r)) ?c"
  have rows: "source_rows ranges = concat (map (\<lambda>(a, b). [a..<b]) ?ivs)" by (simp add: source_rows_def comp_def)
  have sizes: "map (\<lambda>r. tk_end r - tk_start r) ?c = map (\<lambda>(a, b). b - a) ?ivs" by (simp add: comp_def)
  show "rm_total (build_range_meta ranges) = length (source_rows ranges)"
    by (simp add: build_range_meta_def Let_def source_rows_def length_concat comp_def)
  assume i: "i < length (source_rows ranges)"
  then have ne: "?c \<noteq> []" by (auto simp: source_rows_def)
  have pos: "\<And>a b. (a, b) \<in> set ?ivs \<Longrightarrow> a < b" by (auto dest: nonempty_ranges_lt)
  obtain k where k: "k < length ?ivs" "repeat_interleave [0..<0 + length ?ivs] (map (\<lambda>(a, b). b - a) ?ivs) ! i = 0 + k"
    "sum_list (take k (map (\<lambda>(a, b). b - a) ?ivs)) \<le> i"
    "concat (map (\<lambda>(a, b). [a..<b]) ?ivs) ! i = fst (?ivs ! k) + (i - sum_list (take k (map (\<lambda>(a, b). b - a) ?ivs)))"
    using interleaved_row [OF i [unfolded rows] pos, of 0] by blast
  have "running_sums 0 (0 # map (\<lambda>(a, b). b - a) ?ivs) ! k = sum_list (take k (map (\<lambda>(a, b). b - a) ?ivs))"
    using k(1) by (subst running_sums_nth) (simp_all only: list.size length_map take_Suc_Cons sum_list.Cons add_0)
  with k ne show "kernel_row (build_range_meta ranges) i = source_rows ranges ! i"
    "rm_cu_sizes (build_range_meta ranges) ! (rm_row_map (build_range_meta ranges) ! i) \<le> i"
    by (simp_all add: kernel_row_def build_range_meta_def Let_def rows sizes)
qed

text \<open>The cache never changes what is read, as long as its entries were built by it.\<close>

definition cache_ok :: "meta_cache \<Rightarrow> bool" where
  "cache_ok cache \<longleftrightarrow> (case cache of None \<Rightarrow> True
     | Some entries \<Rightarrow> \<forall>key meta. entries key = Some meta \<longrightarrow> (\<forall>ranges. range_key ranges = key \<longrightarrow> meta = build_range_meta ranges))"

lemma build_range_meta_key: "range_key xs = range_key ys \<Longrightarrow> build_range_meta xs = build_range_meta ys"
proof -
  assume key: "range_key xs = range_key ys"
  then have len: "length (nonempty_ranges xs) = length (nonempty_ranges ys)"
    unfolding range_key_def by (metis length_map)
  have "nonempty_ranges xs = [] \<longleftrightarrow> nonempty_ranges ys = []" using len by (metis length_0_conv)
  moreover have "map (\<lambda>r. tk_end r - tk_start r) zs = map (\<lambda>(a, b). b - a) (map (\<lambda>r. (tk_start r, tk_end r)) zs)"
    for zs :: "token_range list" by (simp add: comp_def)
  moreover have "map (\<lambda>r. (tk_start r, tk_end r)) (nonempty_ranges xs) = map (\<lambda>r. (tk_start r, tk_end r)) (nonempty_ranges ys)"
    using key by (simp only: range_key_def)
  ultimately show ?thesis unfolding build_range_meta_def Let_def by (simp only: len)
qed

lemma range_meta_cached:
  assumes "cache_ok cache"
  shows "fst (range_meta_of ranges cache) = build_range_meta ranges \<and> cache_ok (snd (range_meta_of ranges cache))"
proof (cases cache)
  case (Some entries)
  have entry: "meta = build_range_meta xs" if "entries key = Some meta" "range_key xs = key" for key meta xs
    using assms that by (simp add: Some cache_ok_def)
  show ?thesis
  proof (cases "entries (range_key ranges)")
    case None
    have "cache_ok (Some (entries(range_key ranges \<mapsto> build_range_meta ranges)))"
      unfolding cache_ok_def option.case
    proof (intro allI impI)
      fix key meta xs
      assume "(entries(range_key ranges \<mapsto> build_range_meta ranges)) key = Some meta" "range_key xs = key"
      then show "meta = build_range_meta xs"
        by (cases "key = range_key ranges") (auto intro: entry build_range_meta_key)
    qed
    then show ?thesis by (simp add: range_meta_of_def Some None Let_def)
  next
    case (Some meta)
    with entry [OF Some refl] assms show ?thesis by (simp add: range_meta_of_def \<open>cache = Some entries\<close> Let_def)
  qed
qed (simp add: range_meta_of_def cache_ok_def Let_def)

section \<open>Kernel integers\<close>

text \<open>
  Integers of a Triton kernel.  A program id, a lane and an integer argument that fits have
  32 bits, a larger argument and what is loaded from the metadata 64; an operation on two
  32-bit values wraps around in 32 bits, any other in 64.  Division truncates.
\<close>

datatype tl_int = I32 "32 word" | I64 "64 word"

fun tl_sint :: "tl_int \<Rightarrow> int" where
  "tl_sint (I32 w) = sint w"
| "tl_sint (I64 w) = sint w"

fun tl_lift2 :: "(int \<Rightarrow> int \<Rightarrow> int) \<Rightarrow> tl_int \<Rightarrow> tl_int \<Rightarrow> tl_int" where
  "tl_lift2 f (I32 v) (I32 w) = I32 (word_of_int (f (sint v) (sint w)))"
| "tl_lift2 f a b = I64 (word_of_int (f (tl_sint a) (tl_sint b)))"

definition tl_add :: "tl_int \<Rightarrow> tl_int \<Rightarrow> tl_int" where "tl_add = tl_lift2 (+)"
definition tl_sub :: "tl_int \<Rightarrow> tl_int \<Rightarrow> tl_int" where "tl_sub = tl_lift2 (-)"
definition tl_mul :: "tl_int \<Rightarrow> tl_int \<Rightarrow> tl_int" where "tl_mul = tl_lift2 (*)"
definition tl_div :: "tl_int \<Rightarrow> tl_int \<Rightarrow> tl_int" where "tl_div = tl_lift2 (sdiv)"
definition tl_mod :: "tl_int \<Rightarrow> tl_int \<Rightarrow> tl_int" where "tl_mod = tl_lift2 (smod)"

definition tl_id :: "nat \<Rightarrow> tl_int" where
  "tl_id n = I32 (word_of_nat n)"

definition tl_arg :: "nat \<Rightarrow> tl_int" where
  "tl_arg n = (if n < 2 ^ 31 then I32 (word_of_nat n) else I64 (word_of_nat n))"

definition tl_loaded :: "nat \<Rightarrow> tl_int" where
  "tl_loaded n = I64 (word_of_nat n)"

lemma sint_word_of_int:
  "- (2 ^ 31) \<le> x \<Longrightarrow> x < 2 ^ 31 \<Longrightarrow> sint (word_of_int x :: 32 word) = x"
  "- (2 ^ 63) \<le> x \<Longrightarrow> x < 2 ^ 63 \<Longrightarrow> sint (word_of_int x :: 64 word) = x"
  by (simp_all add: sint_sbintrunc' signed_take_bit_int_eq_self)

lemma sint_word_of_nat:
  "n < 2 ^ 31 \<Longrightarrow> sint (word_of_nat n :: 32 word) = int n"
  "n < 2 ^ 63 \<Longrightarrow> sint (word_of_nat n :: 64 word) = int n"
  using sint_word_of_int(1) [of "int n"] sint_word_of_int(2) [of "int n"] by simp_all

lemma tl_lift2_exact:
  assumes "- (2 ^ 31) \<le> f (tl_sint a) (tl_sint b)" "f (tl_sint a) (tl_sint b) < 2 ^ 31"
  shows "tl_sint (tl_lift2 f a b) = f (tl_sint a) (tl_sint b)"
  using assms by (cases a; cases b) (simp_all add: sint_word_of_int)

text \<open>A kernel integer that has the value of a natural number; small results are exact.\<close>

definition tl_is :: "tl_int \<Rightarrow> nat \<Rightarrow> bool" where
  "tl_is t n \<longleftrightarrow> tl_sint t = int n"

lemma tl_is_leaf [intro]:
  "n < 2 ^ 31 \<Longrightarrow> tl_is (tl_id n) n" "n < 2 ^ 63 \<Longrightarrow> tl_is (tl_arg n) n" "n < 2 ^ 63 \<Longrightarrow> tl_is (tl_loaded n) n"
  by (simp_all add: tl_is_def tl_id_def tl_arg_def tl_loaded_def sint_word_of_nat)

lemma tl_is_lift2:
  assumes "tl_is a x" "tl_is b y" and "f (int x) (int y) = int z" "z < 2 ^ 31"
  shows "tl_is (tl_lift2 f a b) z"
  using assms tl_lift2_exact [of f a b] by (simp add: tl_is_def)

lemma trunc_nonneg: "int x sdiv int y = int (x div y)" "int x smod int y = int (x mod y)" if "0 < y"
  using that by (cases "x = 0"; simp add: signed_divide_int_def smod_int_alt_def sgn_mult zdiv_int zmod_int)+

lemma tl_is_ops:
  assumes "tl_is a x" "tl_is b y"
  shows "x + y < 2 ^ 31 \<Longrightarrow> tl_is (tl_add a b) (x + y)" "x * y < 2 ^ 31 \<Longrightarrow> tl_is (tl_mul a b) (x * y)"
    "y \<le> x \<Longrightarrow> x < 2 ^ 31 \<Longrightarrow> tl_is (tl_sub a b) (x - y)"
    "0 < y \<Longrightarrow> x < 2 ^ 31 \<Longrightarrow> tl_is (tl_div a b) (x div y)" "0 < y \<Longrightarrow> x < 2 ^ 31 \<Longrightarrow> tl_is (tl_mod a b) (x mod y)"
  unfolding tl_add_def tl_mul_def tl_sub_def tl_div_def tl_mod_def
  by (rule tl_is_lift2 [OF assms]; simp add: trunc_nonneg of_nat_diff; (meson div_le_dividend mod_less_eq_dividend le_less_trans)?)+

section \<open>Kernels\<close>

text \<open>
  A tensor in memory is its storage, and a logical element (row, column) lies at an
  address: of rows, or head-major with the column split into head and inner index.  The
  offsets a kernel computes are kernel integers; the addresses they stand for are these.
\<close>

definition row_address :: "nat \<Rightarrow> nat \<Rightarrow> nat \<Rightarrow> nat" where
  "row_address stride row col = row * stride + col"

definition head_address :: "nat \<Rightarrow> nat \<Rightarrow> nat \<Rightarrow> nat \<Rightarrow> nat \<Rightarrow> nat" where
  "head_address head_stride token_stride inner_size row col =
     (let head_idx = col div inner_size; inner_idx = col mod inner_size
      in head_idx * head_stride + row * token_stride + inner_idx)"

definition row_offset :: "tl_int \<Rightarrow> tl_int \<Rightarrow> tl_int \<Rightarrow> tl_int" where
  "row_offset stride row cols = tl_add (tl_mul row stride) cols"

definition head_offset :: "tl_int \<Rightarrow> tl_int \<Rightarrow> tl_int \<Rightarrow> tl_int \<Rightarrow> tl_int \<Rightarrow> tl_int" where
  "head_offset head_stride token_stride inner_size row cols =
     (let head_idx = tl_div cols inner_size; inner_idx = tl_mod cols inner_size
      in tl_add (tl_add (tl_mul head_idx head_stride) (tl_mul row token_stride)) inner_idx)"

text \<open>The row the metadata gives to a program instance, as the kernel computes it.\<close>

definition tl_kernel_row :: "range_meta \<Rightarrow> nat \<Rightarrow> tl_int" where
  "tl_kernel_row meta row =
     (let range_idx = rm_row_map meta ! row; range_base = tl_loaded (rm_cu_sizes meta ! range_idx);
          range_row = tl_sub (tl_id row) range_base
      in tl_add (tl_loaded (fst (rm_ranges meta ! range_idx))) range_row)"

text \<open>Memory: an access outside of the storage of the tensor is a fault.\<close>

definition tl_load :: "'a list \<Rightarrow> tl_int \<Rightarrow> 'a result" where
  "tl_load storage offset =
     ensure (0 \<le> tl_sint offset \<and> tl_sint offset < int (length storage)) (RuntimeError ''illegal memory access'')
       (Inr (storage ! nat (tl_sint offset)))"

definition tl_store :: "'a list \<Rightarrow> tl_int \<Rightarrow> 'a \<Rightarrow> 'a list result" where
  "tl_store storage offset v =
     ensure (0 \<le> tl_sint offset \<and> tl_sint offset < int (length storage)) (RuntimeError ''illegal memory access'')
       (Inr (storage[nat (tl_sint offset) := v]))"

text \<open>
  One lane of one program instance (row, block): its load and masked store, or its load
  and masked atomic add.
\<close>

definition lane_column :: "nat \<Rightarrow> nat \<Rightarrow> nat \<Rightarrow> tl_int" where
  "lane_column elem_per_block block_idx lane = tl_add (tl_mul (tl_id block_idx) (tl_arg elem_per_block)) (tl_id lane)"

definition gather_lane :: "range_meta \<Rightarrow> (tl_int \<Rightarrow> tl_int \<Rightarrow> tl_int) \<Rightarrow> (tl_int \<Rightarrow> tl_int \<Rightarrow> tl_int) \<Rightarrow> nat \<Rightarrow> nat \<Rightarrow> 'a list
    \<Rightarrow> nat \<times> nat \<times> nat \<Rightarrow> 'a list \<Rightarrow> 'a list result" where
  "gather_lane meta input_offset output_offset n_cols elem_per_block input instance output =
     (case instance of (out_row, block_idx, lane) \<Rightarrow>
        let input_row = tl_kernel_row meta out_row; cols = lane_column elem_per_block block_idx lane in
        if tl_sint cols < int n_cols
        then bindE (tl_load input (input_offset input_row cols)) (\<lambda>v. tl_store output (output_offset (tl_id out_row) cols) v)
        else Inr output)"

definition reduce_lane :: "range_meta \<Rightarrow> (tl_int \<Rightarrow> tl_int \<Rightarrow> tl_int) \<Rightarrow> (tl_int \<Rightarrow> tl_int \<Rightarrow> tl_int) \<Rightarrow> nat \<Rightarrow> nat
    \<Rightarrow> 'a :: comm_monoid_add list \<Rightarrow> nat \<times> nat \<times> nat \<Rightarrow> 'a list \<Rightarrow> 'a list result" where
  "reduce_lane meta input_offset output_offset n_cols elem_per_block input instance output =
     (case instance of (in_row, block_idx, lane) \<Rightarrow>
        let output_row = tl_kernel_row meta in_row; cols = lane_column elem_per_block block_idx lane;
            a = output_offset output_row cols in
        if tl_sint cols < int n_cols
        then bindE (tl_load input (input_offset (tl_id in_row) cols)) (\<lambda>update.
             bindE (tl_load output a) (\<lambda>old. tl_store output a (old + update)))
        else Inr output)"

definition range_gather_per_row_lane :: "range_meta \<Rightarrow> nat \<Rightarrow> nat \<Rightarrow> nat \<Rightarrow> nat \<Rightarrow> 'a list \<Rightarrow> nat \<times> nat \<times> nat \<Rightarrow> 'a list \<Rightarrow> 'a list result" where
  "range_gather_per_row_lane meta input_stride output_stride =
     gather_lane meta (row_offset (tl_arg input_stride)) (row_offset (tl_arg output_stride))"

definition range_reduce_sum_per_row_lane ::
  "range_meta \<Rightarrow> nat \<Rightarrow> nat \<Rightarrow> nat \<Rightarrow> nat \<Rightarrow> 'a :: comm_monoid_add list \<Rightarrow> nat \<times> nat \<times> nat \<Rightarrow> 'a list \<Rightarrow> 'a list result" where
  "range_reduce_sum_per_row_lane meta input_stride output_stride =
     reduce_lane meta (row_offset (tl_arg input_stride)) (row_offset (tl_arg output_stride))"

definition range_gather_head_major_lane ::
  "range_meta \<Rightarrow> nat \<times> nat \<Rightarrow> nat \<times> nat \<Rightarrow> nat \<Rightarrow> nat \<Rightarrow> nat \<Rightarrow> 'a list \<Rightarrow> nat \<times> nat \<times> nat \<Rightarrow> 'a list \<Rightarrow> 'a list result" where
  "range_gather_head_major_lane meta input_strides output_strides inner_size =
     gather_lane meta (head_offset (tl_arg (fst input_strides)) (tl_arg (snd input_strides)) (tl_arg inner_size))
       (head_offset (tl_arg (fst output_strides)) (tl_arg (snd output_strides)) (tl_arg inner_size))"

definition range_reduce_sum_head_major_lane ::
  "range_meta \<Rightarrow> nat \<times> nat \<Rightarrow> nat \<times> nat \<Rightarrow> nat \<Rightarrow> nat \<Rightarrow> nat \<Rightarrow> 'a :: comm_monoid_add list \<Rightarrow> nat \<times> nat \<times> nat \<Rightarrow> 'a list \<Rightarrow> 'a list result" where
  "range_reduce_sum_head_major_lane meta input_strides output_strides inner_size =
     reduce_lane meta (head_offset (tl_arg (fst input_strides)) (tl_arg (snd input_strides)) (tl_arg inner_size))
       (head_offset (tl_arg (fst output_strides)) (tl_arg (snd output_strides)) (tl_arg inner_size))"

text \<open>
  The offset of row 524288 with rows of 4096 elements is negative: with that many rows the
  store of a gather, and the load of a sum, leave the tensor.
\<close>

lemma row_offset_wraps: "tl_sint (row_offset (tl_arg 4096) (tl_id 524288) (tl_id 0)) = - (2 ^ 31)"
  by (simp add: row_offset_def tl_add_def tl_mul_def tl_arg_def tl_id_def)

text \<open>The lanes of a launch, of which a schedule is any rearrangement.\<close>

definition launch_lanes :: "nat \<Rightarrow> nat \<Rightarrow> nat \<Rightarrow> (nat \<times> nat \<times> nat) list" where
  "launch_lanes n_rows n_col_blocks elem_per_block =
     List.product [0..<n_rows] (List.product [0..<n_col_blocks] [0..<elem_per_block])"

definition lanes_per_block :: "nat \<Rightarrow> nat" where
  "lanes_per_block element_size = max 1 (2048 div element_size)"

definition cdiv :: "nat \<Rightarrow> nat \<Rightarrow> nat" where
  "cdiv x y = (x + y - 1) div y"

lemma launch_lanes_set: "set (launch_lanes t b e) = {..<t} \<times> {..<b} \<times> {..<e}"
  by (auto simp: launch_lanes_def)

lemma launch_lanes_distinct: "distinct (launch_lanes t b e)"
  by (simp add: launch_lanes_def distinct_product)

section \<open>Lanes without wrap-around\<close>

definition exact_gather_lane :: "range_meta \<Rightarrow> (nat \<Rightarrow> nat \<Rightarrow> nat) \<Rightarrow> (nat \<Rightarrow> nat \<Rightarrow> nat) \<Rightarrow> nat \<Rightarrow> nat \<Rightarrow> 'a list
    \<Rightarrow> nat \<times> nat \<times> nat \<Rightarrow> 'a list \<Rightarrow> 'a list" where
  "exact_gather_lane meta input_address output_address n_cols elem_per_block input instance output =
     (case instance of (out_row, block_idx, lane) \<Rightarrow>
        let input_row = kernel_row meta out_row; col = block_idx * elem_per_block + lane in
        if col < n_cols then output[output_address out_row col := input ! input_address input_row col] else output)"

definition exact_reduce_lane :: "range_meta \<Rightarrow> (nat \<Rightarrow> nat \<Rightarrow> nat) \<Rightarrow> (nat \<Rightarrow> nat \<Rightarrow> nat) \<Rightarrow> nat \<Rightarrow> nat \<Rightarrow> 'a :: comm_monoid_add list
    \<Rightarrow> nat \<times> nat \<times> nat \<Rightarrow> 'a list \<Rightarrow> 'a list" where
  "exact_reduce_lane meta input_address output_address n_cols elem_per_block input instance output =
     (case instance of (in_row, block_idx, lane) \<Rightarrow>
        let output_row = kernel_row meta in_row; col = block_idx * elem_per_block + lane; a = output_address output_row col in
        if col < n_cols then output[a := output ! a + input ! input_address in_row col] else output)"

text \<open>An offset computation that gives the addresses of a tensor with all its cells below \<open>cells\<close>.\<close>

definition offset_exact :: "(tl_int \<Rightarrow> tl_int \<Rightarrow> tl_int) \<Rightarrow> (nat \<Rightarrow> nat \<Rightarrow> nat) \<Rightarrow> nat \<Rightarrow> nat \<Rightarrow> nat \<Rightarrow> bool" where
  "offset_exact offset address n_rows n_cols cells \<longleftrightarrow> (\<forall>r < n_rows. \<forall>c < n_cols. address r c < cells \<and>
     (\<forall>row col. tl_is row r \<longrightarrow> tl_is col c \<longrightarrow> tl_is (offset row col) (address r c)))"

lemma row_offset_exact:
  assumes "\<And>r c. r < n_rows \<Longrightarrow> c < n_cols \<Longrightarrow> r * stride + c < cells" "cells \<le> 2 ^ 31" "stride < 2 ^ 63"
  shows "offset_exact (row_offset (tl_arg stride)) (row_address stride) n_rows n_cols cells"
  unfolding offset_exact_def
proof (intro allI impI conjI)
  fix r c assume rc: "r < n_rows" "c < n_cols"
  show "row_address stride r c < cells" using assms(1) [OF rc] by (simp add: row_address_def)
  fix row col assume tv: "tl_is row r" "tl_is col c"
  have b: "r * stride + c < 2 ^ 31" using assms(1) [OF rc] assms(2) by linarith
  then have "r * stride < 2 ^ 31" by linarith
  then have "tl_is (tl_mul row (tl_arg stride)) (r * stride)"
    by (rule tl_is_ops(2) [OF tv(1) tl_is_leaf(2) [OF assms(3)]])
  then show "tl_is (row_offset (tl_arg stride) row col) (row_address stride r c)"
    unfolding row_offset_def row_address_def by (rule tl_is_ops(1) [OF _ tv(2) b])
qed

lemma head_offset_exact:
  assumes bound: "\<And>r c. r < n_rows \<Longrightarrow> c < n_cols \<Longrightarrow> head_address hs ts inner r c < cells" and cells: "cells \<le> 2 ^ 31"
    and strides: "hs < 2 ^ 63" "ts < 2 ^ 63" "inner < 2 ^ 63" "0 < inner" and cols: "n_cols \<le> 2 ^ 31"
  shows "offset_exact (head_offset (tl_arg hs) (tl_arg ts) (tl_arg inner)) (head_address hs ts inner) n_rows n_cols cells"
  unfolding offset_exact_def
proof (intro allI impI conjI)
  fix r c assume rc: "r < n_rows" "c < n_cols"
  show "head_address hs ts inner r c < cells" by (rule bound [OF rc])
  fix row col assume tv: "tl_is row r" "tl_is col c"
  let ?h = "c div inner * hs" and ?t = "r * ts" and ?i = "c mod inner"
  have b: "?h + ?t + ?i < 2 ^ 31" using bound [OF rc] cells by (simp add: head_address_def Let_def)
  then have part: "?h < 2 ^ 31" "?t < 2 ^ 31" "?h + ?t < 2 ^ 31" by linarith+
  have c: "c < 2 ^ 31" using rc(2) cols by linarith
  have "tl_is (tl_div col (tl_arg inner)) (c div inner)" "tl_is (tl_mod col (tl_arg inner)) ?i"
    using tv(2) strides c by (intro tl_is_ops; auto)+
  moreover from this(1) have "tl_is (tl_mul (tl_div col (tl_arg inner)) (tl_arg hs)) ?h"
    by (rule tl_is_ops(2) [OF _ tl_is_leaf(2) [OF strides(1)] part(1)])
  moreover have "tl_is (tl_mul row (tl_arg ts)) ?t" 
    by (rule tl_is_ops(2) [OF tv(1) tl_is_leaf(2) [OF strides(2)] part(2)])
  ultimately show "tl_is (head_offset (tl_arg hs) (tl_arg ts) (tl_arg inner) row col) (head_address hs ts inner r c)"
    unfolding head_offset_def head_address_def Let_def using b part(3) by (intro tl_is_ops(1))
qed

lemma tl_kernel_row_exact:
  assumes "row < 2 ^ 31" "rm_cu_sizes meta ! (rm_row_map meta ! row) \<le> row" "kernel_row meta row < 2 ^ 31"
  shows "tl_is (tl_kernel_row meta row) (kernel_row meta row)"
proof -
  let ?k = "rm_row_map meta ! row"
  have start: "fst (rm_ranges meta ! ?k) < 2 ^ 31" using assms(3) by (simp add: kernel_row_def Let_def)
  have base: "rm_cu_sizes meta ! ?k < 2 ^ 63" "fst (rm_ranges meta ! ?k) < 2 ^ 63" using assms(1,2) start by simp_all
  have "tl_is (tl_sub (tl_id row) (tl_loaded (rm_cu_sizes meta ! ?k))) (row - rm_cu_sizes meta ! ?k)"
    using assms(1,2) base by (intro tl_is_ops) auto
  then show ?thesis
    unfolding tl_kernel_row_def kernel_row_def Let_def
    by (rule tl_is_ops(1) [OF tl_is_leaf(3) [OF base(2)]]) (use assms(3) in \<open>simp add: kernel_row_def Let_def\<close>)
qed

lemma lane_column_exact:
  assumes "block_idx < n_blocks" "lane < e" "n_blocks * e \<le> 2 ^ 31"
  shows "tl_is (lane_column e block_idx lane) (block_idx * e + lane)"
proof -
  have "block_idx * e + lane < Suc block_idx * e" using assms(2) by simp
  also have "\<dots> \<le> n_blocks * e" using assms(1) by (intro mult_le_mono1) simp
  finally have b: "block_idx * e + lane < 2 ^ 31" using assms(3) by linarith
  moreover have "e \<le> n_blocks * e" "n_blocks \<le> n_blocks * e" "(2 :: nat) ^ 31 < 2 ^ 63" using assms(1,2) by simp_all
  ultimately have small: "e < 2 ^ 63 \<and> block_idx < 2 ^ 31 \<and> lane < 2 ^ 31 \<and> block_idx * e < 2 ^ 31" using assms by linarith
  then have "tl_is (tl_mul (tl_id block_idx) (tl_arg e)) (block_idx * e)"
    by (intro tl_is_ops(2) tl_is_leaf) simp_all
  then show ?thesis unfolding lane_column_def by (rule tl_is_ops(1)) (use small b in \<open>simp_all add: tl_is_leaf\<close>)
qed

text \<open>Accesses at exact offsets.\<close>

lemma tl_access:
  assumes "tl_is t a" "a < length storage"
  shows "tl_load storage t = Inr (storage ! a)" "tl_store storage t v = Inr (storage[a := v])"
  using assms by (simp_all add: tl_is_def tl_load_def tl_store_def)

lemma gather_lane_exact:
  assumes meta: "\<And>i. i < n_total \<Longrightarrow> kernel_row meta i < m \<and> rm_cu_sizes meta ! (rm_row_map meta ! i) \<le> i"
    and small: "n_total \<le> 2 ^ 31" "m \<le> 2 ^ 31" "n_blocks * e \<le> 2 ^ 31"
    and off: "offset_exact in_off in_addr m n_cols (length input)" "offset_exact out_off out_addr n_total n_cols (length output)"
    and x: "x \<in> set (launch_lanes n_total n_blocks e)"
  shows "gather_lane meta in_off out_off n_cols e input x output = Inr (exact_gather_lane meta in_addr out_addr n_cols e input x output)"
proof -
  obtain i b l where x': "x = (i, b, l)" "i < n_total" "b < n_blocks" "l < e" using x by (auto simp: launch_lanes_set)
  have col: "tl_is (lane_column e b l) (b * e + l)" by (rule lane_column_exact [OF x'(3,4) small(3)])
  then have iff: "tl_sint (lane_column e b l) < int n_cols \<longleftrightarrow> b * e + l < n_cols" unfolding tl_is_def by (simp only: of_nat_less_iff)
  have row: "tl_is (tl_kernel_row meta i) (kernel_row meta i)" "tl_is (tl_id i) i"
    using meta [OF x'(2)] x'(2) small(1,2) by (auto intro!: tl_kernel_row_exact)
  show ?thesis
  proof (cases "b * e + l < n_cols")
    case True
    have "tl_is (in_off (tl_kernel_row meta i) (lane_column e b l)) (in_addr (kernel_row meta i) (b * e + l))"
      "in_addr (kernel_row meta i) (b * e + l) < length input"
      "tl_is (out_off (tl_id i) (lane_column e b l)) (out_addr i (b * e + l))" "out_addr i (b * e + l) < length output"
      using off meta [OF x'(2)] x'(2) True row col unfolding offset_exact_def by blast+
    then show ?thesis using True iff
      by (simp add: gather_lane_def exact_gather_lane_def x'(1) Let_def tl_access)
  next
    case False
    then show ?thesis using iff by (simp add: gather_lane_def exact_gather_lane_def x'(1) Let_def)
  qed
qed

lemma reduce_lane_exact:
  assumes meta: "\<And>i. i < n_total \<Longrightarrow> kernel_row meta i < m \<and> rm_cu_sizes meta ! (rm_row_map meta ! i) \<le> i"
    and small: "n_total \<le> 2 ^ 31" "m \<le> 2 ^ 31" "n_blocks * e \<le> 2 ^ 31"
    and off: "offset_exact in_off in_addr n_total n_cols (length input)" "offset_exact out_off out_addr m n_cols (length output)"
    and x: "x \<in> set (launch_lanes n_total n_blocks e)"
  shows "reduce_lane meta in_off out_off n_cols e input x output = Inr (exact_reduce_lane meta in_addr out_addr n_cols e input x output)"
proof -
  obtain i b l where x': "x = (i, b, l)" "i < n_total" "b < n_blocks" "l < e" using x by (auto simp: launch_lanes_set)
  have col: "tl_is (lane_column e b l) (b * e + l)" by (rule lane_column_exact [OF x'(3,4) small(3)])
  then have iff: "tl_sint (lane_column e b l) < int n_cols \<longleftrightarrow> b * e + l < n_cols" unfolding tl_is_def by (simp only: of_nat_less_iff)
  have row: "tl_is (tl_kernel_row meta i) (kernel_row meta i)" "tl_is (tl_id i) i"
    using meta [OF x'(2)] x'(2) small(1,2) by (auto intro!: tl_kernel_row_exact)
  show ?thesis
  proof (cases "b * e + l < n_cols")
    case True
    have "tl_is (in_off (tl_id i) (lane_column e b l)) (in_addr i (b * e + l))" "in_addr i (b * e + l) < length input"
      "tl_is (out_off (tl_kernel_row meta i) (lane_column e b l)) (out_addr (kernel_row meta i) (b * e + l))"
      "out_addr (kernel_row meta i) (b * e + l) < length output"
      using off meta [OF x'(2)] x'(2) True row col unfolding offset_exact_def by blast+
    then show ?thesis using True iff
      by (simp add: reduce_lane_def exact_reduce_lane_def x'(1) Let_def tl_access)
  next
    case False
    then show ?thesis using iff by (simp add: reduce_lane_def exact_reduce_lane_def x'(1) Let_def)
  qed
qed

lemma exact_lane_length [simp]:
  "length (exact_gather_lane meta ia oa n e input x output) = length output"
  "length (exact_reduce_lane meta ia oa n e sums x updated) = length updated"
  by (simp_all add: exact_gather_lane_def exact_reduce_lane_def Let_def split: prod.split)

lemma foldE_exact:
  assumes "\<And>x out. x \<in> set xs \<Longrightarrow> length out = k \<Longrightarrow> f x out = Inr (g x out) \<and> length (g x out) = k" and "length out = k"
  shows "foldE f xs out = Inr (fold g xs out)"
  using assms by (induction xs arbitrary: out) simp_all

section \<open>Lanes in any order\<close>

lemma fold_store:
  assumes "\<And>x y. x \<in> set ops \<Longrightarrow> y \<in> set ops \<Longrightarrow> on x \<Longrightarrow> on y \<Longrightarrow> a x = a y \<Longrightarrow> v x = v y"
  shows "length (fold (\<lambda>x out. if on x then out[a x := v x] else out) ops out) = length out"
    and "x \<in> set ops \<Longrightarrow> on x \<Longrightarrow> a x < length out \<Longrightarrow> fold (\<lambda>x out. if on x then out[a x := v x] else out) ops out ! a x = v x"
proof -
  show len: "length (fold (\<lambda>x out. if on x then out[a x := v x] else out) ops out) = length out" for ops
    by (induction ops rule: rev_induct) auto
  assume "x \<in> set ops" "on x" "a x < length out"
  then show "fold (\<lambda>x out. if on x then out[a x := v x] else out) ops out ! a x = v x"
    using assms
  proof (induction ops rule: rev_induct)
    case (snoc y ys)
    let ?out = "fold (\<lambda>x out. if on x then out[a x := v x] else out) ys out"
    show ?case
    proof (cases "on y \<and> a y = a x")
      case True
      have "v y = v x" by (rule snoc.prems(4)) (use True snoc.prems(1,2) in simp_all)
      with True snoc.prems(3) show ?thesis by (simp add: len)
    next
      case False
      then have "x \<in> set ys" using snoc.prems(1,2) by auto
      have "?out ! a x = v x"
      proof (rule snoc.IH [OF \<open>x \<in> set ys\<close> snoc.prems(2,3)])
        fix u w assume "u \<in> set ys" "w \<in> set ys" "on u" "on w" "a u = a w"
        then show "v u = v w" by (intro snoc.prems(4)) simp_all
      qed
      with False show ?thesis by (simp add: nth_list_update)
    qed
  qed simp
qed

lemma fold_accumulate:
  fixes v :: "'x \<Rightarrow> 'a :: comm_monoid_add"
  shows "length (fold (\<lambda>x out. if on x then out[a x := out ! a x + v x] else out) ops out) = length out"
    and "i < length out \<Longrightarrow> fold (\<lambda>x out. if on x then out[a x := out ! a x + v x] else out) ops out ! i =
      out ! i + sum_list (map (\<lambda>x. if on x \<and> a x = i then v x else 0) ops)"
proof -
  show len: "length (fold (\<lambda>x out. if on x then out[a x := out ! a x + v x] else out) ops out) = length out" for ops
    by (induction ops rule: rev_induct) auto
  show "i < length out \<Longrightarrow> fold (\<lambda>x out. if on x then out[a x := out ! a x + v x] else out) ops out ! i =
      out ! i + sum_list (map (\<lambda>x. if on x \<and> a x = i then v x else 0) ops)"
  proof (induction ops rule: rev_induct)
    case (snoc y ys)
    then show ?case by (cases "a y = i") (auto simp: len add.assoc)
  qed simp
qed

lemma schedule_sum:
  fixes h :: "'x \<Rightarrow> 'a :: comm_monoid_add"
  assumes "mset ops = mset lanes" and "distinct lanes"
  shows "sum_list (map h ops) = sum h (set lanes)"
proof -
  have "sum_list (map h ops) = sum_list (map h lanes)" using assms(1) by (metis mset_map sum_mset_sum_list)
  with assms(2) show ?thesis by (simp add: sum_list_distinct_conv_sum_set)
qed

lemma column_of_lane:
  fixes e :: nat
  shows "l < e \<Longrightarrow> k * e + l = c \<longleftrightarrow> k = c div e \<and> l = c mod e"
  by auto

locale tensor_layout =
  fixes address :: "nat \<Rightarrow> nat \<Rightarrow> nat" and n_rows n_cols cells :: nat
  assumes address_bound: "r < n_rows \<Longrightarrow> c < n_cols \<Longrightarrow> address r c < cells"
    and address_inj: "r < n_rows \<Longrightarrow> c < n_cols \<Longrightarrow> r' < n_rows \<Longrightarrow> c' < n_cols \<Longrightarrow> address r c = address r' c' \<Longrightarrow>
      r = r' \<and> c = c'"
begin

lemma gather_any_order:
  assumes ops: "set ops = set (launch_lanes n_rows n_col_blocks lanes)" and cover: "n_cols \<le> n_col_blocks * lanes"
    and out: "length out = cells" and r: "r < n_rows" and c: "c < n_cols"
  shows "fold (exact_gather_lane meta input_address address n_cols lanes input) ops out ! address r c
    = input ! input_address (kernel_row meta r) c"
proof -
  let ?on = "\<lambda>(row, k, l). k * lanes + l < n_cols" and ?a = "\<lambda>(row, k, l). address row (k * lanes + l)"
    and ?v = "\<lambda>(row, k, l). input ! input_address (kernel_row meta row) (k * lanes + l)"
  have lane: "exact_gather_lane meta input_address address n_cols lanes input = (\<lambda>x out. if ?on x then out[?a x := ?v x] else out)"
    by (intro ext) (auto simp: exact_gather_lane_def Let_def split: prod.splits)
  have same: "?v x = ?v y" if "x \<in> set ops" "y \<in> set ops" "?on x" "?on y" "?a x = ?a y" for x y
  proof -
    obtain r1 k1 l1 r2 k2 l2 where xy: "x = (r1, k1, l1)" "y = (r2, k2, l2)" by (metis prod_cases3)
    have "r1 < n_rows" "r2 < n_rows" using that(1,2) unfolding ops launch_lanes_set xy by simp_all
    then have "r1 = r2 \<and> k1 * lanes + l1 = k2 * lanes + l2" using address_inj that(3,4,5) unfolding xy by simp
    then show ?thesis by (simp add: xy)
  qed
  have pos: "0 < lanes" using c cover by (cases lanes) simp_all
  have "c div lanes < n_col_blocks" using c cover pos by (meson less_le_trans less_mult_imp_div_less)
  then have mem: "(r, c div lanes, c mod lanes) \<in> set ops" using r pos by (simp add: ops launch_lanes_set)
  let ?x = "(r, c div lanes, c mod lanes)"
  have at: "?on ?x" "?a ?x = address r c" "?v ?x = input ! input_address (kernel_row meta r) c" using c by simp_all
  have bound: "?a ?x < length out" unfolding at(2) out by (rule address_bound [OF r c])
  have "fold (\<lambda>x out. if ?on x then out[?a x := ?v x] else out) ops out ! ?a ?x = ?v ?x"
    by (rule fold_store(2)) (fact same mem at(1) bound)+
  then show ?thesis unfolding lane at(2,3) .
qed

lemma reduce_any_order:
  fixes input :: "'a :: comm_monoid_add list"
  assumes ops: "mset ops = mset (launch_lanes total_rows n_col_blocks lanes)" and cover: "n_cols \<le> n_col_blocks * lanes"
    and out: "length out = cells" and rows: "\<And>i. i < total_rows \<Longrightarrow> kernel_row meta i < n_rows"
    and j: "j < n_rows" and c: "c < n_cols"
  shows "fold (exact_reduce_lane meta input_address address n_cols lanes input) ops out ! address j c
    = out ! address j c + (\<Sum>i < total_rows. if kernel_row meta i = j then input ! input_address i c else 0)"
proof -
  let ?on = "\<lambda>(row, k, l). k * lanes + l < n_cols" and ?a = "\<lambda>(row, k, l). address (kernel_row meta row) (k * lanes + l)"
    and ?v = "\<lambda>(row, k, l). input ! input_address row (k * lanes + l)"
  have lane: "exact_reduce_lane meta input_address address n_cols lanes input = (\<lambda>x out. if ?on x then out[?a x := out ! ?a x + ?v x] else out)"
    by (intro ext) (auto simp: exact_reduce_lane_def Let_def split: prod.splits)
  let ?h = "\<lambda>x. if ?on x \<and> ?a x = address j c then ?v x else 0"
  have pos: "0 < lanes" using c cover by (cases lanes) simp_all
  have blk: "c div lanes < n_col_blocks" using c cover pos by (meson less_le_trans less_mult_imp_div_less)
  have pick: "?h (i, k, l) = (if (k, l) = (c div lanes, c mod lanes) then if kernel_row meta i = j then input ! input_address i c else 0 else 0)"
    if "i < total_rows" "l < lanes" for i k l
    using column_of_lane [OF that(2), of k c] address_inj [OF rows [OF that(1)] _ j c] c pos by auto
  have row: "(\<Sum>x \<in> {..<n_col_blocks} \<times> {..<lanes}. ?h (i, x)) = (if kernel_row meta i = j then input ! input_address i c else 0)"
    if i: "i < total_rows" for i
  proof -
    have "(\<Sum>x \<in> {..<n_col_blocks} \<times> {..<lanes}. ?h (i, x)) = (\<Sum>x \<in> {..<n_col_blocks} \<times> {..<lanes}.
        if x = (c div lanes, c mod lanes) then if kernel_row meta i = j then input ! input_address i c else 0 else 0)"
    proof (rule sum.cong [OF refl])
      fix x assume "x \<in> {..<n_col_blocks} \<times> {..<lanes}"
      then show "?h (i, x) = (if x = (c div lanes, c mod lanes) then if kernel_row meta i = j then input ! input_address i c else 0 else 0)"
        using pick [OF i, of "snd x" "fst x"] by (cases x) auto
    qed
    also have "\<dots> = (if kernel_row meta i = j then input ! input_address i c else 0)" using blk pos by (subst sum.delta) auto
    finally show ?thesis .
  qed
  have "sum_list (map ?h ops) = sum ?h ({..<total_rows} \<times> {..<n_col_blocks} \<times> {..<lanes})"
    unfolding schedule_sum [OF ops launch_lanes_distinct] launch_lanes_set ..
  also have "\<dots> = (\<Sum>i < total_rows. \<Sum>x \<in> {..<n_col_blocks} \<times> {..<lanes}. ?h (i, x))" by (simp add: sum.cartesian_product')
  also have "\<dots> = (\<Sum>i < total_rows. if kernel_row meta i = j then input ! input_address i c else 0)"
    by (rule sum.cong) (simp_all only: refl lessThan_iff row)
  finally have "sum_list (map ?h ops) = (\<Sum>i < total_rows. if kernel_row meta i = j then input ! input_address i c else 0)" .
  with fold_accumulate(2) [of "address j c" out ?on ?a ?v ops] address_bound [OF j c] out show ?thesis by (simp add: lane)
qed

end

section \<open>Layouts\<close>

text \<open>
  The two layouts of the operations: token-major rows of some number of elements, or
  head-major with its heads and inner elements. A token row holds all its elements.
\<close>

datatype tensor_shape = Token_Major nat | Head_Major nat nat

fun row_elements :: "tensor_shape \<Rightarrow> nat" where
  "row_elements (Token_Major n) = n"
| "row_elements (Head_Major heads inner) = heads * inner"

fun shape_address :: "tensor_shape \<Rightarrow> nat \<Rightarrow> nat \<Rightarrow> nat \<Rightarrow> nat" where
  "shape_address (Token_Major n) n_tokens = row_address n"
| "shape_address (Head_Major heads inner) n_tokens = head_address (n_tokens * inner) inner inner"

lemma mixed_radix_bound: "(x :: nat) < m \<Longrightarrow> y < n \<Longrightarrow> x * n + y < m * n"
  by (metis add.commute add_less_cancel_left less_le_trans mult_Suc mult_le_mono1 Suc_leI)

lemma mixed_radix_inj: "(y :: nat) < n \<Longrightarrow> y' < n \<Longrightarrow> x * n + y = x' * n + y' \<Longrightarrow> x = x' \<and> y = y'"
  by (metis add.commute div_mult_self1 div_less mod_mult_self1 mod_less add_cancel_left_right less_nat_zero_code neq0_conv)

interpretation token_major: tensor_layout "shape_address (Token_Major n) m" m "row_elements (Token_Major n)" "m * n" for m n
  by unfold_locales (auto simp: row_address_def mixed_radix_bound dest: mixed_radix_inj)

lemma head_address_eq:
  "head_address (m * inner) inner inner r c = ((c div inner) * m + r) * inner + c mod inner"
  by (simp add: head_address_def algebra_simps)

interpretation head_major: tensor_layout "shape_address (Head_Major heads inner) m" m "row_elements (Head_Major heads inner)"
  "heads * m * inner" for m heads inner
proof unfold_locales
  fix r c assume "r < m" "c < row_elements (Head_Major heads inner)"
  then have pos: "0 < inner" "c div inner < heads" by (auto simp: less_mult_imp_div_less intro: Nat.gr0I)
  then have "(c div inner) * m + r < heads * m" using \<open>r < m\<close> by (simp add: mixed_radix_bound)
  then show "shape_address (Head_Major heads inner) m r c < heads * m * inner"
    using pos by (simp add: head_address_eq mixed_radix_bound)
next
  fix r c r' c'
  assume "r < m" "c < row_elements (Head_Major heads inner)" "r' < m" "c' < row_elements (Head_Major heads inner)"
    and eq: "shape_address (Head_Major heads inner) m r c = shape_address (Head_Major heads inner) m r' c'"
  then have pos: "0 < inner" by (auto intro: Nat.gr0I)
  have "(c div inner) * m + r = (c' div inner) * m + r' \<and> c mod inner = c' mod inner"
    by (rule mixed_radix_inj [of _ inner]) (use pos eq in \<open>simp_all add: head_address_eq\<close>)
  then have "c div inner = c' div inner \<and> r = r' \<and> c mod inner = c' mod inner"
    using mixed_radix_inj [of r m r' "c div inner" "c' div inner"] \<open>r < m\<close> \<open>r' < m\<close> by blast
  then show "r = r' \<and> c = c'" by (metis div_mult_mod_eq)
qed

lemma shape_layout: "tensor_layout (shape_address L m) m (row_elements L) (m * row_elements L)"
proof (cases L)
  case (Token_Major n)
  then show ?thesis using token_major.tensor_layout_axioms [of n m] by simp
next
  case (Head_Major heads inner)
  then show ?thesis using head_major.tensor_layout_axioms [of heads inner m] by (simp add: ac_simps)
qed

text \<open>
  A tensor that is read where it lies: its rows are a stride apart, and the elements of a
  row are at offsets of their own, in either layout. The logical rows are its view; a
  contiguous copy has them in the order of the layout.
\<close>

record 'a strided =
  sd_storage :: "'a list"
  sd_row_stride :: nat
  sd_column :: "nat \<Rightarrow> nat"

definition strided_address :: "'a strided \<Rightarrow> nat \<Rightarrow> nat \<Rightarrow> nat" where
  "strided_address t row col = row * sd_row_stride t + sd_column t col"

definition strided_view :: "tensor_shape \<Rightarrow> nat \<Rightarrow> 'a strided \<Rightarrow> 'a list list" where
  "strided_view L n_tokens t =
     map (\<lambda>r. map (\<lambda>c. sd_storage t ! strided_address t r c) [0..<row_elements L]) [0..<n_tokens]"

fun contiguous_cell :: "tensor_shape \<Rightarrow> nat \<Rightarrow> nat \<Rightarrow> nat \<times> nat" where
  "contiguous_cell (Token_Major n) n_tokens a = (a div n, a mod n)"
| "contiguous_cell (Head_Major heads inner) n_tokens a =
     (a div inner mod n_tokens, (a div inner div n_tokens) * inner + a mod inner)"

definition contiguous_storage :: "tensor_shape \<Rightarrow> nat \<Rightarrow> 'a strided \<Rightarrow> 'a list" where
  "contiguous_storage L n_tokens t =
     map (\<lambda>a. sd_storage t ! strided_address t (fst (contiguous_cell L n_tokens a)) (snd (contiguous_cell L n_tokens a)))
       [0..<n_tokens * row_elements L]"

definition packed_rows :: "nat \<Rightarrow> 'a list \<Rightarrow> 'a strided" where
  "packed_rows n storage = \<lparr>sd_storage = storage, sd_row_stride = n, sd_column = (\<lambda>c. c)\<rparr>"

text \<open>
  The kernel an operation launches for its layout. The token-major gather reads its input
  where it lies, with the stride between its rows; every other tensor is contiguous.
\<close>

definition gather_kernel :: "tensor_shape \<Rightarrow> range_meta \<Rightarrow> nat \<Rightarrow> nat \<Rightarrow> 'a strided \<Rightarrow> nat \<Rightarrow> nat \<Rightarrow> nat \<times> nat \<times> nat
    \<Rightarrow> 'a list \<Rightarrow> 'a list result" where
  "gather_kernel L meta n_inputs n_outputs t n_cols elem_per_block =
     (case L of
        Token_Major n \<Rightarrow> range_gather_per_row_lane meta (sd_row_stride t) n n_cols elem_per_block (sd_storage t)
      | Head_Major heads inner \<Rightarrow>
          range_gather_head_major_lane meta (n_inputs * inner, inner) (n_outputs * inner, inner) inner n_cols elem_per_block
            (contiguous_storage L n_inputs t))"

definition reduce_kernel :: "tensor_shape \<Rightarrow> range_meta \<Rightarrow> nat \<Rightarrow> nat \<Rightarrow> nat \<Rightarrow> nat \<Rightarrow> 'a :: comm_monoid_add list
    \<Rightarrow> nat \<times> nat \<times> nat \<Rightarrow> 'a list \<Rightarrow> 'a list result" where
  "reduce_kernel L meta n_inputs n_outputs =
     (case L of Token_Major n \<Rightarrow> range_reduce_sum_per_row_lane meta n n
      | Head_Major heads inner \<Rightarrow> range_reduce_sum_head_major_lane meta (n_inputs * inner, inner) (n_outputs * inner, inner) inner)"

definition tensor_view :: "tensor_shape \<Rightarrow> nat \<Rightarrow> 'a list \<Rightarrow> 'a list list" where
  "tensor_view L n_tokens storage =
     map (\<lambda>r. map (\<lambda>c. storage ! shape_address L n_tokens r c) [0..<row_elements L]) [0..<n_tokens]"

lemma tensor_view_nth [simp]:
  "length (tensor_view L m storage) = m"
  "r < m \<Longrightarrow> length (tensor_view L m storage ! r) = row_elements L"
  "r < m \<Longrightarrow> c < row_elements L \<Longrightarrow> tensor_view L m storage ! r ! c = storage ! shape_address L m r c"
  by (simp_all add: tensor_view_def)

lemma strided_view_nth [simp]:
  "length (strided_view L m t) = m"
  "r < m \<Longrightarrow> length (strided_view L m t ! r) = row_elements L"
  "r < m \<Longrightarrow> c < row_elements L \<Longrightarrow> strided_view L m t ! r ! c = sd_storage t ! strided_address t r c"
  by (simp_all add: strided_view_def)

lemma contiguous_cell_address:
  "r < m \<Longrightarrow> c < row_elements L \<Longrightarrow> contiguous_cell L m (shape_address L m r c) = (r, c)"
proof (cases L)
  case (Head_Major heads inner)
  moreover assume "r < m" "c < row_elements L"
  ultimately have pos: "0 < inner" "r < m" by (auto intro: Nat.gr0I)
  then have "((c div inner) * m + r) * inner + c mod inner = c mod inner + inner * (r + m * (c div inner))"
    by (simp add: algebra_simps)
  with Head_Major pos show ?thesis by (simp add: head_address_eq)
qed (simp add: row_address_def)

lemma contiguous_view: "tensor_view L m (contiguous_storage L m t) = strided_view L m t"
proof (intro nth_equalityI)
  fix r c assume "r < length (tensor_view L m (contiguous_storage L m t))" "c < length (tensor_view L m (contiguous_storage L m t) ! r)"
  then have rc: "r < m" "c < row_elements L" by simp_all
  then show "tensor_view L m (contiguous_storage L m t) ! r ! c = strided_view L m t ! r ! c"
    using tensor_layout.address_bound [OF shape_layout rc] by (simp add: contiguous_storage_def contiguous_cell_address)
qed simp_all

lemma packed_view: "strided_view (Token_Major n) m (packed_rows n storage) = tensor_view (Token_Major n) m storage"
  by (simp add: strided_view_def tensor_view_def strided_address_def packed_rows_def row_address_def)

text \<open>A launch on a device: the size of an element, and the order in which its lanes run.\<close>

record launch_env =
  le_element_size :: nat
  le_schedule :: "(nat \<times> nat \<times> nat) list \<Rightarrow> (nat \<times> nat \<times> nat) list"

text \<open>
  What a device launch relies on: the schedule runs every lane once, the storages have at
  most \<open>2 ^ 31\<close> elements, less a block of columns where the rows of the launch are, so that
  no offset wraps around, and the rows of a token-major input are packed.
\<close>

definition launch_ok :: "launch_env \<Rightarrow> bool" where
  "launch_ok env \<longleftrightarrow> (\<forall>lanes. mset (le_schedule env lanes) = mset lanes)"

definition gather_ready :: "tensor_shape \<Rightarrow> launch_env option \<Rightarrow> nat \<Rightarrow> 'a strided \<Rightarrow> nat \<Rightarrow> bool" where
  "gather_ready L device m t k \<longleftrightarrow> (case device of None \<Rightarrow> True | Some env \<Rightarrow>
     launch_ok env \<and> k * row_elements L + 2048 \<le> 2 ^ 31 \<and> m \<le> 2 ^ 31 \<and>
     (case L of
        Token_Major n \<Rightarrow> (\<forall>c < n. sd_column t c = c) \<and> sd_row_stride t < 2 ^ 63 \<and> length (sd_storage t) \<le> 2 ^ 31 \<and>
          (\<forall>r < m. \<forall>c < n. strided_address t r c < length (sd_storage t))
      | Head_Major heads inner \<Rightarrow> m * row_elements L \<le> 2 ^ 31))"

definition reduce_ready :: "tensor_shape \<Rightarrow> launch_env option \<Rightarrow> nat \<Rightarrow> nat \<Rightarrow> bool" where
  "reduce_ready L device k m \<longleftrightarrow> (case device of None \<Rightarrow> True | Some env \<Rightarrow>
     launch_ok env \<and> k * row_elements L + 2048 \<le> 2 ^ 31 \<and> m * row_elements L \<le> 2 ^ 31)"

lemma contiguous_offsets:
  assumes "m * row_elements L \<le> 2 ^ 31" "0 < m"
  shows "offset_exact (case L of Token_Major n \<Rightarrow> row_offset (tl_arg n)
      | Head_Major heads inner \<Rightarrow> head_offset (tl_arg (m * inner)) (tl_arg inner) (tl_arg inner))
    (shape_address L m) m (row_elements L) (m * row_elements L)"
proof (cases "row_elements L = 0")
  case False
  have n: "row_elements L \<le> m * row_elements L" using assms(2) by simp
  show ?thesis
  proof (cases L)
    case (Token_Major n)
    have "n < 2 ^ 63" by (rule le_less_trans [OF order.trans [OF n assms(1), unfolded Token_Major row_elements.simps]]) simp
    with Token_Major show ?thesis using assms by (simp, intro row_offset_exact) (simp_all add: mixed_radix_bound)
  next
    case (Head_Major heads inner)
    with False have pos: "0 < inner" "0 < heads" by auto
    then have "m * inner \<le> m * row_elements L" "inner \<le> m * inner" using assms(2) by (simp_all add: Head_Major)
    moreover have "(2 :: nat) ^ 31 < 2 ^ 63" by simp
    ultimately have small: "m * inner < 2 ^ 63 \<and> inner < 2 ^ 63 \<and> row_elements L \<le> 2 ^ 31" using assms(1) n by linarith
    have bound: "head_address (m * inner) inner inner r c < m * row_elements L" if "r < m" "c < row_elements L" for r c
      using tensor_layout.address_bound [OF shape_layout that] by (simp add: Head_Major)
    show ?thesis using head_offset_exact [OF bound assms(1)] small pos by (simp add: Head_Major)
  qed
qed (simp add: offset_exact_def)

section \<open>Gathering\<close>

definition python_range_gather :: "'a list \<Rightarrow> token_range list \<Rightarrow> 'a list" where
  "python_range_gather vals ranges =
     (let parts = map (\<lambda>r. slice vals (tk_start r) (tk_end r)) (nonempty_ranges ranges) in
      if parts = [] then [] else if length parts = 1 then hd parts else concat parts)"

text \<open>
  The device path: a fresh output of arbitrary contents, a launch over the rows and the
  column blocks, and any schedule of its lanes.
\<close>

definition gather_launch :: "tensor_shape \<Rightarrow> launch_env \<Rightarrow> range_meta \<Rightarrow> nat \<Rightarrow> 'a strided \<Rightarrow> 'a list \<Rightarrow> 'a list result" where
  "gather_launch L env meta n_tokens t output =
     (let numel = n_tokens * row_elements L in
      if rm_total meta = 0 \<or> numel = 0 then Inr output
      else let n_cols = numel div max n_tokens 1;
               elem_per_block = lanes_per_block (le_element_size env);
               n_col_blocks = cdiv n_cols elem_per_block
           in foldE (gather_kernel L meta n_tokens (rm_total meta) t n_cols elem_per_block)
                (le_schedule env (launch_lanes (rm_total meta) n_col_blocks elem_per_block)) output)"

definition range_gather_impl :: "tensor_shape \<Rightarrow> launch_env option \<Rightarrow> (nat \<Rightarrow> 'a list) \<Rightarrow> nat \<Rightarrow> 'a strided \<Rightarrow> token_range list
    \<Rightarrow> meta_cache \<Rightarrow> ('a list list \<times> meta_cache) result" where
  "range_gather_impl L device new_empty n_tokens t ranges cache =
     (if ranges = [] then Inr ([], cache)
      else case device of
        None \<Rightarrow> Inr (python_range_gather (strided_view L n_tokens t) ranges, cache)
      | Some env \<Rightarrow>
        (let (meta, cache') = range_meta_of ranges cache in
         bindE (gather_launch L env meta n_tokens t (new_empty (rm_total meta * row_elements L)))
           (\<lambda>output. Inr (tensor_view L (rm_total meta) output, cache'))))"

definition range_gather :: "tensor_shape \<Rightarrow> launch_env option \<Rightarrow> (nat \<Rightarrow> 'a list) \<Rightarrow> nat \<Rightarrow> 'a strided \<Rightarrow> token_range list
    \<Rightarrow> meta_cache \<Rightarrow> ('a list list \<times> meta_cache) result" where
  "range_gather L device new_empty n_tokens t ranges cache =
     (let normalized_ranges = nonempty_ranges ranges in
      case single_range normalized_ranges of
        Some r \<Rightarrow> Inr (slice (strided_view L n_tokens t) (tk_start r) (tk_end r), cache)
      | None \<Rightarrow> range_gather_impl L device new_empty n_tokens t normalized_ranges cache)"

lemma nonempty_ranges_idem [simp]: "nonempty_ranges (nonempty_ranges ranges) = nonempty_ranges ranges"
  by (simp add: nonempty_ranges_def)

lemma source_rows_nonempty [simp]: "source_rows (nonempty_ranges ranges) = source_rows ranges"
  by (simp add: source_rows_def)

lemma slice_map_upt: "b \<le> length xs \<Longrightarrow> slice xs a b = map ((!) xs) [a..<b]"
  by (rule nth_equalityI) (auto simp: slice_def)

lemma python_gather_rows:
  fixes vals :: "'a list"
  assumes "\<forall>r \<in> set (nonempty_ranges ranges). tk_end r \<le> length vals"
  shows "python_range_gather vals ranges = map ((!) vals) (source_rows ranges)"
proof -
  have "map (\<lambda>r. slice vals (tk_start r) (tk_end r)) (nonempty_ranges ranges)
      = map (\<lambda>r. map ((!) vals) [tk_start r..<tk_end r]) (nonempty_ranges ranges)"
    using assms by (simp add: slice_map_upt)
  moreover have "(if ps = [] then [] else if length ps = 1 then hd ps else concat ps) = concat ps" for ps :: "'a list list"
    by (cases ps; cases "tl ps") auto
  ultimately show ?thesis
    unfolding python_range_gather_def Let_def by (simp only: source_rows_def map_concat map_map comp_def)
qed

lemma cdiv_covers: "0 < e \<Longrightarrow> n \<le> cdiv n e * e"
proof -
  assume "0 < e"
  then have "n + e - 1 < e + (n + e - 1) div e * e" by (rule dividend_less_div_times)
  then show ?thesis unfolding cdiv_def by linarith
qed

lemma lanes_per_block_pos: "0 < lanes_per_block n" by (simp add: lanes_per_block_def)

lemma source_rows_bound: "\<forall>r \<in> set (nonempty_ranges ranges). tk_end r \<le> m \<Longrightarrow> j \<in> set (source_rows ranges) \<Longrightarrow> j < m"
  by (fastforce simp: source_rows_def)

lemma single_range_rows:
  "single_range ranges = Some r \<Longrightarrow> source_rows ranges = [tk_start r..<tk_end r] \<and> nonempty_ranges ranges = [r]"
  by (auto simp: single_range_def source_rows_def split: list.splits)

lemma view_empty_rows: "row_elements L = 0 \<Longrightarrow> tensor_view L m storage = replicate m []"
  by (simp add: tensor_view_def map_replicate_trivial map_replicate_const)

lemma launch_columns: "n + 2048 \<le> 2 ^ 31 \<Longrightarrow> cdiv n (lanes_per_block k) * lanes_per_block k \<le> 2 ^ 31"
proof -
  let ?e = "lanes_per_block k"
  assume n: "n + 2048 \<le> 2 ^ 31"
  have "?e \<le> 2048" by (simp add: lanes_per_block_def)
  moreover have "cdiv n ?e * ?e \<le> n + ?e - 1" unfolding cdiv_def by (rule div_times_less_eq_dividend)
  ultimately show ?thesis using n by linarith
qed

lemma gather_kernel_lanes:
  assumes ready: "gather_ready L (Some env) m t k" and k: "k = length (source_rows ranges)" "0 < k" and n: "0 < row_elements L"
    and ends: "\<forall>r \<in> set (nonempty_ranges ranges). tk_end r \<le> m" and e: "e = lanes_per_block (le_element_size env)"
  obtains in_address input where "\<And>r c. r < m \<Longrightarrow> c < row_elements L \<Longrightarrow> input ! in_address r c = strided_view L m t ! r ! c"
    and "\<And>x output. x \<in> set (launch_lanes k (cdiv (row_elements L) e) e) \<Longrightarrow> length output = k * row_elements L \<Longrightarrow>
      gather_kernel L (build_range_meta ranges) m k t (row_elements L) e x output
      = Inr (exact_gather_lane (build_range_meta ranges) in_address (shape_address L k) (row_elements L) e input x output)"
proof -
  let ?meta = "build_range_meta ranges" and ?n = "row_elements L"
  let ?in = "case L of Token_Major n \<Rightarrow> row_address (sd_row_stride t) | Head_Major heads inner \<Rightarrow> shape_address L m"
  let ?storage = "case L of Token_Major n \<Rightarrow> sd_storage t | Head_Major heads inner \<Rightarrow> contiguous_storage L m t"
  let ?in_off = "case L of Token_Major n \<Rightarrow> row_offset (tl_arg (sd_row_stride t))
    | Head_Major heads inner \<Rightarrow> head_offset (tl_arg (m * inner)) (tl_arg inner) (tl_arg inner)"
  let ?out_off = "case L of Token_Major n \<Rightarrow> row_offset (tl_arg n)
    | Head_Major heads inner \<Rightarrow> head_offset (tl_arg (k * inner)) (tl_arg inner) (tl_arg inner)"
  have rows: "kernel_row ?meta i < m \<and> rm_cu_sizes ?meta ! (rm_row_map ?meta ! i) \<le> i" if "i < k" for i
    using build_range_meta_rows(2,3) [of i ranges] source_rows_bound [OF ends] that by (simp add: k(1))
  then have m: "0 < m" using k(2) by fastforce
  have kn: "k * ?n + 2048 \<le> 2 ^ 31" and m_small: "m \<le> 2 ^ 31" using ready by (simp_all add: gather_ready_def)
  have "k \<le> k * ?n" "?n \<le> k * ?n" using n k(2) by simp_all
  with kn have sizes: "k * ?n \<le> 2 ^ 31" "?n + 2048 \<le> 2 ^ 31" "k \<le> 2 ^ 31" by linarith+
  have kernel: "gather_kernel L ?meta m k t ?n e = gather_lane ?meta ?in_off ?out_off ?n e ?storage"
    by (cases L) (simp_all add: gather_kernel_def range_gather_per_row_lane_def range_gather_head_major_lane_def)
  have out_off: "offset_exact ?out_off (shape_address L k) k ?n (k * ?n)" by (rule contiguous_offsets [OF sizes(1) k(2)])
  have in_off: "offset_exact ?in_off ?in m ?n (length ?storage)"
  proof (cases L)
    case (Token_Major n)
    with ready have t: "\<And>c. c < n \<Longrightarrow> sd_column t c = c" "sd_row_stride t < 2 ^ 63" "length (sd_storage t) \<le> 2 ^ 31"
      "\<And>r c. r < m \<Longrightarrow> c < n \<Longrightarrow> strided_address t r c < length (sd_storage t)" by (simp_all add: gather_ready_def)
    have "r * sd_row_stride t + c < length (sd_storage t)" if "r < m" "c < n" for r c
      using t(4) [OF that] t(1) [OF that(2)] by (simp add: strided_address_def)
    from row_offset_exact [OF this t(3,2)] show ?thesis by (simp add: Token_Major)
  next
    case (Head_Major heads inner)
    with ready have "m * ?n \<le> 2 ^ 31" by (simp add: gather_ready_def)
    from contiguous_offsets [OF this m] show ?thesis by (simp add: Head_Major contiguous_storage_def)
  qed
  have read: "?storage ! ?in r c = strided_view L m t ! r ! c" if "r < m" "c < ?n" for r c
  proof (cases L)
    case (Token_Major n)
    with ready that show ?thesis by (simp add: gather_ready_def strided_address_def row_address_def)
  next
    case (Head_Major heads inner)
    have "tensor_view L m (contiguous_storage L m t) ! r ! c = strided_view L m t ! r ! c" by (simp only: contiguous_view)
    then show ?thesis using that by (simp add: Head_Major)
  qed
  have lane: "gather_kernel L ?meta m k t ?n e x dest = Inr (exact_gather_lane ?meta ?in (shape_address L k) ?n e ?storage x dest)"
    if "x \<in> set (launch_lanes k (cdiv ?n e) e)" "length dest = k * ?n" for x dest
    unfolding kernel by (rule gather_lane_exact [OF rows sizes(3) m_small launch_columns [OF sizes(2), of "le_element_size env", folded e] in_off out_off [folded that(2)] that(1)])
  show thesis by (rule that [OF read lane])
qed

lemma gather_launch_rows:
  fixes dest :: "'a list"
  assumes ready: "gather_ready L (Some env) m t (length (source_rows ranges))"
    and ends: "\<forall>r \<in> set (nonempty_ranges ranges). tk_end r \<le> m"
    and len: "length dest = length (source_rows ranges) * row_elements L"
  shows "\<exists>out. gather_launch L env (build_range_meta ranges) m t dest = Inr out \<and>
    tensor_view L (length (source_rows ranges)) out = map ((!) (strided_view L m t)) (source_rows ranges)"
proof -
  let ?n = "row_elements L" and ?src = "source_rows ranges" and ?meta = "build_range_meta ranges"
  have total: "rm_total ?meta = length ?src" by (simp add: build_range_meta_rows)
  have row: "kernel_row ?meta i = ?src ! i" if "i < length ?src" for i by (rule build_range_meta_rows(2) [OF that])
  have bound: "?src ! i < m" if "i < length ?src" for i using source_rows_bound [OF ends] that by simp
  show ?thesis
  proof (cases "?src = [] \<or> ?n = 0")
    case True
    then have "tensor_view L (length ?src) dest = map ((!) (strided_view L m t)) ?src"
      using bound by (intro nth_equalityI) (auto simp: tensor_view_def strided_view_def)
    with True show ?thesis by (auto simp: gather_launch_def total)
  next
    case False
    then have m: "0 < m" using bound [of 0] by auto
    have pos: "0 < length ?src" "0 < ?n" using False by simp_all
    let ?e = "lanes_per_block (le_element_size env)"
    let ?lanes = "launch_lanes (length ?src) (cdiv ?n ?e) ?e"
    obtain in_address input where read: "\<And>r c. r < m \<Longrightarrow> c < ?n \<Longrightarrow> input ! in_address r c = strided_view L m t ! r ! c"
      and lane: "\<And>x output. x \<in> set ?lanes \<Longrightarrow> length output = length ?src * ?n \<Longrightarrow>
        gather_kernel L ?meta m (length ?src) t ?n ?e x output
        = Inr (exact_gather_lane ?meta in_address (shape_address L (length ?src)) ?n ?e input x output)"
      by (rule gather_kernel_lanes [OF ready refl pos ends refl]) blast
    let ?out = "fold (exact_gather_lane ?meta in_address (shape_address L (length ?src)) ?n ?e input) (le_schedule env ?lanes) dest"
    have "launch_ok env" using ready by (simp only: gather_ready_def option.case)
    then have sched: "set (le_schedule env ?lanes) = set ?lanes" unfolding launch_ok_def by (metis set_mset_mset)
    have run: "foldE (gather_kernel L ?meta m (length ?src) t ?n ?e) (le_schedule env ?lanes) dest = Inr ?out"
      by (rule foldE_exact [OF _ len]) (use lane sched in simp)
    have cols: "m * ?n div max m 1 = ?n" using m by simp
    have cell: "?out ! shape_address L (length ?src) i c = strided_view L m t ! (?src ! i) ! c"
      if "i < length ?src" "c < ?n" for i c
      using tensor_layout.gather_any_order [OF shape_layout sched cdiv_covers [OF lanes_per_block_pos] len that, of ?meta in_address input]
      by (simp only: row [OF that(1)] read [OF bound [OF that(1)] that(2)])
    have "tensor_view L (length ?src) ?out = map ((!) (strided_view L m t)) ?src"
      by (intro nth_equalityI) (simp_all add: bound cell del: strided_view_nth(3))
    moreover have "gather_launch L env ?meta m t dest = Inr ?out"
      using False m run unfolding gather_launch_def Let_def total cols by simp
    ultimately show ?thesis by simp
  qed
qed

lemma range_gather_impl_rows:
  assumes ready: "gather_ready L device m t (length (source_rows ranges))" and fresh: "\<And>k. length (new_empty k) = k"
    and cache: "cache_ok cache" and ends: "\<forall>r \<in> set (nonempty_ranges ranges). tk_end r \<le> m"
  shows "\<exists>cache'. range_gather_impl L device new_empty m t ranges cache
    = Inr (map ((!) (strided_view L m t)) (source_rows ranges), cache') \<and> cache_ok cache'"
proof (cases device)
  case None
  with cache ends show ?thesis by (simp add: range_gather_impl_def python_gather_rows source_rows_def nonempty_ranges_def)
next
  case (Some e)
  obtain meta cache' where mc: "range_meta_of ranges cache = (meta, cache')" by (cases "range_meta_of ranges cache")
  then have meta: "meta = build_range_meta ranges" and cache': "cache_ok cache'"
    using range_meta_cached [OF cache, of ranges] by simp_all
  have total: "rm_total meta = length (source_rows ranges)" by (simp add: meta build_range_meta_rows)
  obtain out where "gather_launch L e meta m t (new_empty (rm_total meta * row_elements L)) = Inr out"
    "tensor_view L (rm_total meta) out = map ((!) (strided_view L m t)) (source_rows ranges)"
    using gather_launch_rows [OF ready [unfolded Some] ends fresh] by (auto simp only: total meta [symmetric])
  with cache cache' show ?thesis
    by (simp add: range_gather_impl_def Some mc) (simp add: source_rows_def nonempty_ranges_def)
qed

lemma range_gather_rows:
  assumes "gather_ready L device m t (length (source_rows ranges))" and "\<And>k. length (new_empty k) = k"
    and "cache_ok cache" and "\<forall>r \<in> set (nonempty_ranges ranges). tk_end r \<le> m"
  shows "\<exists>cache'. range_gather L device new_empty m t ranges cache
    = Inr (map ((!) (strided_view L m t)) (source_rows ranges), cache') \<and> cache_ok cache'"
proof (cases "single_range (nonempty_ranges ranges)")
  case None
  with range_gather_impl_rows [of L device m t "nonempty_ranges ranges" new_empty cache, OF _ assms(2,3)] assms(1,4) None
  show ?thesis by (simp add: range_gather_def Let_def)
next
  case (Some r)
  from single_range_rows [OF Some] have src: "source_rows ranges = [tk_start r..<tk_end r]" "nonempty_ranges ranges = [r]" by simp_all
  with assms(4) have "slice (strided_view L m t) (tk_start r) (tk_end r) = map ((!) (strided_view L m t)) (source_rows ranges)"
    by (simp add: slice_map_upt)
  with Some assms(3) show ?thesis by (simp add: range_gather_def Let_def)
qed

text \<open>
  A device gather of token-major rows never looks at where the elements of a row lie, and
  so reads others when the rows are not packed, as those of a transposed matrix.
\<close>

lemma kernel_ignores_columns:
  "gather_launch (Token_Major n) env meta m (t\<lparr>sd_column := f\<rparr>) output = gather_launch (Token_Major n) env meta m t output"
proof -
  have "gather_kernel (Token_Major n) meta m k (t\<lparr>sd_column := f\<rparr>) = gather_kernel (Token_Major n) meta m k t" for k
    by (intro ext) (simp add: gather_kernel_def)
  then show ?thesis by (simp only: gather_launch_def)
qed

lemma device_ignores_columns:
  "single_range (nonempty_ranges ranges) = None \<Longrightarrow>
    range_gather (Token_Major n) (Some env) new_empty m (t\<lparr>sd_column := f\<rparr>) ranges cache
    = range_gather (Token_Major n) (Some env) new_empty m t ranges cache"
  by (simp add: range_gather_def range_gather_impl_def kernel_ignores_columns Let_def)

lemma unpacked_rows_misread:
  fixes t :: "int strided"
  defines "t \<equiv> \<lparr>sd_storage = [1, 2, 3, 4], sd_row_stride = 1, sd_column = (\<lambda>c. 2 * c)\<rparr>"
    and "ranges \<equiv> [\<lparr>tk_start = 0, tk_end = 1\<rparr>, \<lparr>tk_start = 1, tk_end = 2\<rparr>]"
  shows "strided_view (Token_Major 2) 2 t = [[1, 3], [2, 4]]"
    and "\<exists>cache. range_gather (Token_Major 2) (Some \<lparr>le_element_size = 2, le_schedule = id\<rparr>) (\<lambda>k. replicate k 0) 2 t ranges None
      = Inr ([[1, 2], [2, 3]], cache)"
proof -
  show "strided_view (Token_Major 2) 2 t = [[1, 3], [2, 4]]" unfolding t_def by code_simp
  let ?p = "\<lparr>sd_storage = [1, 2, 3, 4 :: int], sd_row_stride = 1, sd_column = (\<lambda>c. c)\<rparr>"
  let ?env = "Some \<lparr>le_element_size = 2, le_schedule = id\<rparr>"
  have src: "source_rows ranges = [0, 1]" "single_range (nonempty_ranges ranges) = None" "\<forall>r \<in> set (nonempty_ranges ranges). tk_end r \<le> 2"
    unfolding ranges_def by code_simp+
  have p: "map ((!) (strided_view (Token_Major 2) 2 ?p)) [0, 1] = [[1, 2], [2, 3]]" by code_simp
  have "gather_ready (Token_Major 2) ?env 2 ?p (length (source_rows ranges))"
    by (simp add: gather_ready_def launch_ok_def src(1) strided_address_def)
  from range_gather_rows [OF this _ _ src(3), of "\<lambda>k. replicate k 0" None]
  have "\<exists>cache. range_gather (Token_Major 2) ?env (\<lambda>k. replicate k 0) 2 ?p ranges None = Inr ([[1, 2], [2, 3]], cache)"
    unfolding src(1) p by (auto simp: cache_ok_def)
  moreover have "t = ?p\<lparr>sd_column := \<lambda>c. 2 * c\<rparr>" by (simp add: t_def)
  ultimately show "\<exists>cache. range_gather (Token_Major 2) ?env (\<lambda>k. replicate k 0) 2 t ranges None = Inr ([[1, 2], [2, 3]], cache)"
    by (simp only: device_ignores_columns [OF src(2)])
qed

section \<open>Adding back\<close>

text \<open>
  Adding rows into a slice of the output: the slice ends with the tensor, a single row is
  broadcast, and any other difference in length is an error.
\<close>

definition add_rows :: "nat \<Rightarrow> nat \<Rightarrow> 'a :: comm_monoid_add list list \<Rightarrow> 'a list list \<Rightarrow> 'a list list result" where
  "add_rows start stop part out =
     (let n = min stop (length out) - start in
      ensure (length part = n \<or> length part = 1) (RuntimeError ''The size of tensor a must match the size of tensor b'')
        (Inr (map (\<lambda>j. if start \<le> j \<and> j < start + n
           then map2 (+) (out ! j) (part ! (if length part = 1 then 0 else j - start)) else out ! j) [0..<length out])))"

definition add_range :: "'a :: comm_monoid_add list list \<Rightarrow> token_range \<Rightarrow> nat \<times> 'a list list \<Rightarrow> (nat \<times> 'a list list) result" where
  "add_range inp r st =
     (let (cursor, out) = st; size = tk_end r - tk_start r in
      if tk_size r \<le> 0 then Inr st
      else bindE (add_rows (tk_start r) (tk_end r) (slice inp cursor (cursor + size)) out) (\<lambda>out'. Inr (cursor + size, out')))"

text \<open>
  The result is what the output tensor holds afterwards, what is returned, and the cache:
  on a device an output that is not contiguous is copied first, and only the copy changes.
\<close>

definition range_reduce_sum :: "tensor_shape \<Rightarrow> launch_env option \<Rightarrow> bool \<Rightarrow> nat \<Rightarrow> 'a :: comm_monoid_add list \<Rightarrow> nat \<Rightarrow> 'a list
    \<Rightarrow> token_range list \<Rightarrow> meta_cache \<Rightarrow> ('a list list \<times> 'a list list \<times> meta_cache) result" where
  "range_reduce_sum L device contiguous n_inputs input_storage n_outputs output_storage ranges cache =
     (let expected_rows = sum_list (map tk_size ranges);
          inp = tensor_view L n_inputs input_storage; out = tensor_view L n_outputs output_storage in
      ensure (int n_inputs = expected_rows) (RuntimeError ''range_reduce_sum_ consumed the wrong number of rows'')
     (if expected_rows = 0 then Inr (out, out, cache)
      else case single_range ranges of
        Some r \<Rightarrow> bindE (add_rows (tk_start r) (tk_end r) inp out) (\<lambda>updated. Inr (updated, updated, cache))
      | None \<Rightarrow>
        (case device of
          None \<Rightarrow> bindE (foldE (add_range inp) ranges (0, out)) (\<lambda>(cursor, updated). Inr (updated, updated, cache))
        | Some env \<Rightarrow>
          (let (meta, cache') = range_meta_of ranges cache in
           ensure (int (rm_total meta) = expected_rows) (RuntimeError ''range_reduce_sum_ range metadata mismatch'')
          (let numel = n_inputs * row_elements L;
               n_cols = numel div max n_inputs 1;
               elem_per_block = lanes_per_block (le_element_size env);
               n_col_blocks = cdiv n_cols elem_per_block
           in bindE (foldE (reduce_kernel L meta n_inputs n_outputs n_cols elem_per_block input_storage)
                 (le_schedule env (launch_lanes (rm_total meta) n_col_blocks elem_per_block)) output_storage)
               (\<lambda>summed. let updated = tensor_view L n_outputs summed
                 in Inr (if contiguous then updated else out, updated, cache')))))))"

text \<open>The specification: each input row is added to the output row its range names.\<close>

definition scatter_rows :: "'a :: comm_monoid_add list list \<Rightarrow> nat list \<Rightarrow> nat \<Rightarrow> 'a list list \<Rightarrow> 'a list list" where
  "scatter_rows inp src n_cols out =
     map (\<lambda>j. map (\<lambda>c. out ! j ! c + (\<Sum>i < length src. if src ! i = j then inp ! i ! c else 0)) [0..<n_cols]) [0..<length out]"

definition all_rows :: "nat \<Rightarrow> 'a list list \<Rightarrow> bool" where
  "all_rows n vals \<longleftrightarrow> (\<forall>r < length vals. length (vals ! r) = n)"

lemma scatter_rows_nth [simp]:
  "length (scatter_rows inp src n out) = length out"
  "j < length out \<Longrightarrow> c < n \<Longrightarrow> scatter_rows inp src n out ! j ! c = out ! j ! c + (\<Sum>i < length src. if src ! i = j then inp ! i ! c else 0)"
  "j < length out \<Longrightarrow> length (scatter_rows inp src n out ! j) = n"
  by (simp_all add: scatter_rows_def cong: if_cong)

lemma scatter_rows_Nil: "all_rows n out \<Longrightarrow> scatter_rows inp [] n out = out"
  by (intro nth_equalityI) (simp_all add: all_rows_def)

lemma all_rows_view: "all_rows (row_elements L) (tensor_view L m storage)"
  by (simp add: all_rows_def)

lemma append_sum:
  fixes g :: "nat \<Rightarrow> 'b \<Rightarrow> 'a :: comm_monoid_add"
  shows "(\<Sum>i < length (xs @ ys). g i ((xs @ ys) ! i)) = (\<Sum>i < length xs. g i (xs ! i)) + (\<Sum>i < length ys. g (length xs + i) (ys ! i))"
proof (induction ys rule: rev_induct)
  case (snoc y ys)
  have "(\<Sum>i < length (xs @ ys). g i ((xs @ ys @ [y]) ! i)) = (\<Sum>i < length (xs @ ys). g i ((xs @ ys) ! i))"
    by (rule sum.cong) (auto simp: nth_append)
  moreover have "(\<Sum>i < length ys. g (length xs + i) ((ys @ [y]) ! i)) = (\<Sum>i < length ys. g (length xs + i) (ys ! i))"
    by (rule sum.cong) (simp_all add: nth_append)
  ultimately show ?case using snoc by (simp add: nth_append add.assoc)
qed simp

lemma upt_sum:
  fixes f :: "nat \<Rightarrow> 'a :: comm_monoid_add"
  shows "(\<Sum>i < length (xs @ [a..<b]). if (xs @ [a..<b]) ! i = j then f i else 0)
    = (\<Sum>i < length xs. if xs ! i = j then f i else 0) + (if a \<le> j \<and> j < b then f (length xs + (j - a)) else 0)"
proof -
  let ?n = "length xs"
  have "(\<Sum>i < length (xs @ [a..<b]). if (xs @ [a..<b]) ! i = j then f i else 0)
      = (\<Sum>i < ?n. if xs ! i = j then f i else 0) + (\<Sum>i < length [a..<b]. if [a..<b] ! i = j then f (?n + i) else 0)"
    by (rule append_sum)
  also have "(\<Sum>i < length [a..<b]. if [a..<b] ! i = j then f (?n + i) else 0) = (\<Sum>i < b - a. if a + i = j then f (?n + i) else 0)"
    by (rule sum.cong) simp_all
  also have "(\<Sum>i < b - a. if a + i = j then f (?n + i) else 0) = (if a \<le> j \<and> j < b then f (?n + (j - a)) else 0)"
  proof (cases "a \<le> j \<and> j < b")
    case True
    have "(\<Sum>i < b - a. if a + i = j then f (?n + i) else 0) = (\<Sum>i < b - a. if i = j - a then f (?n + (j - a)) else 0)"
      using True by (intro sum.cong) auto
    also have "\<dots> = f (?n + (j - a))" using True by (subst sum.delta) auto
    finally show ?thesis using True by simp
  qed (auto intro!: sum.neutral)
  finally show ?thesis .
qed

lemma add_rows_scatter:
  assumes "all_rows n inp" and "length src + (stop - start) \<le> length inp" and "start < stop" and "stop \<le> length out"
  shows "add_rows start stop (slice inp (length src) (length src + (stop - start))) (scatter_rows inp src n out)
    = Inr (scatter_rows inp (src @ [start..<stop]) n out)"
proof -
  let ?part = "slice inp (length src) (length src + (stop - start))" and ?old = "scatter_rows inp src n out"
  have part: "length ?part = stop - start" using assms(2) by (simp add: slice_def)
  have nth: "?part ! k = inp ! (length src + k)" if "k < stop - start" for k
    using that assms(2) by (simp add: slice_def)
  have row: "(if start \<le> j \<and> j < start + (stop - start)
      then map2 (+) (?old ! j) (?part ! (if length ?part = 1 then 0 else j - start)) else ?old ! j)
      = scatter_rows inp (src @ [start..<stop]) n out ! j" if j: "j < length out" for j
  proof (cases "start \<le> j \<and> j < stop")
    case True
    then have idx: "(if length ?part = 1 then 0 else j - start) = j - start" unfolding part by auto
    have "length src + (j - start) < length inp" using assms(2) True by linarith
    then have "length (inp ! (length src + (j - start))) = n" using assms(1) by (simp only: all_rows_def)
    moreover have "j - start < stop - start" using True by linarith
    ultimately show ?thesis using True j unfolding idx nth [OF \<open>j - start < stop - start\<close>]
      by (intro nth_equalityI) (simp_all add: upt_sum add.assoc del: length_append)
  next
    case False
    then show ?thesis using j by (intro nth_equalityI) (auto simp: upt_sum simp del: length_append)
  qed
  have n: "min stop (length ?old) - start = stop - start" using assms(4) by simp
  have "map (\<lambda>j. if start \<le> j \<and> j < start + (stop - start)
      then map2 (+) (?old ! j) (?part ! (if length ?part = 1 then 0 else j - start)) else ?old ! j) [0..<length ?old]
      = map (\<lambda>j. scatter_rows inp (src @ [start..<stop]) n out ! j) [0..<length (scatter_rows inp (src @ [start..<stop]) n out)]"
    unfolding scatter_rows_nth(1) by (rule map_cong [OF refl], rule row) simp
  also have "\<dots> = scatter_rows inp (src @ [start..<stop]) n out" by (rule map_nth)
  finally have map: "map (\<lambda>j. if start \<le> j \<and> j < start + (stop - start)
      then map2 (+) (?old ! j) (?part ! (if length ?part = 1 then 0 else j - start)) else ?old ! j) [0..<length ?old]
      = scatter_rows inp (src @ [start..<stop]) n out" .
  show ?thesis unfolding add_rows_def n Let_def map by (simp only: part simp_thms ensure_simps)
qed

lemma source_rows_Nil [simp]: "source_rows [] = []"
  by (simp add: source_rows_def nonempty_ranges_def)

lemma source_rows_append: "source_rows (xs @ ys) = source_rows xs @ source_rows ys"
  by (simp add: source_rows_def nonempty_ranges_def)

lemma source_rows_Cons: "source_rows (r # rs) = (if tk_size r > 0 then [tk_start r..<tk_end r] else []) @ source_rows rs"
  by (simp add: source_rows_def nonempty_ranges_def)

lemma source_rows_length: "\<forall>r \<in> set ranges. tk_start r \<le> tk_end r \<Longrightarrow> sum_list (map tk_size ranges) = int (length (source_rows ranges))"
proof (induction ranges)
  case (Cons r rs)
  then show ?case by (auto simp: source_rows_Cons tk_size_def)
qed (simp add: source_rows_def nonempty_ranges_def)

lemma add_ranges_scatter:
  assumes inp: "all_rows n inp" and "length (source_rows (pre @ ranges)) \<le> length inp"
    and "\<forall>r \<in> set (nonempty_ranges ranges). tk_end r \<le> length out"
  shows "foldE (add_range inp) ranges (length (source_rows pre), scatter_rows inp (source_rows pre) n out)
    = Inr (length (source_rows (pre @ ranges)), scatter_rows inp (source_rows (pre @ ranges)) n out)"
  using assms(2,3)
proof (induction ranges arbitrary: pre)
  case (Cons r rs)
  let ?src = "source_rows pre"
  have IH: "foldE (add_range inp) rs (length (source_rows (pre @ [r])), scatter_rows inp (source_rows (pre @ [r])) n out)
      = Inr (length (source_rows ((pre @ [r]) @ rs)), scatter_rows inp (source_rows ((pre @ [r]) @ rs)) n out)"
    by (rule Cons.IH) (use Cons.prems in \<open>simp_all add: nonempty_ranges_def split: if_splits\<close>)
  have "add_range inp r (length ?src, scatter_rows inp ?src n out)
      = Inr (length (source_rows (pre @ [r])), scatter_rows inp (source_rows (pre @ [r])) n out)"
  proof (cases "tk_size r > 0")
    case True
    then have src: "source_rows (pre @ [r]) = ?src @ [tk_start r..<tk_end r]"
      by (simp add: source_rows_append source_rows_Cons source_rows_def nonempty_ranges_def)
    have lt: "tk_start r < tk_end r" using True by (simp add: tk_size_def)
    have "tk_end r \<le> length out" using Cons.prems(2) True by (simp add: nonempty_ranges_def)
    moreover have "length (source_rows (pre @ [r])) \<le> length inp"
      using Cons.prems(1) by (simp add: source_rows_append source_rows_Cons)
    then have "length ?src + (tk_end r - tk_start r) \<le> length inp" by (simp add: src)
    ultimately have "add_rows (tk_start r) (tk_end r) (slice inp (length ?src) (length ?src + (tk_end r - tk_start r))) (scatter_rows inp ?src n out)
        = Inr (scatter_rows inp (?src @ [tk_start r..<tk_end r]) n out)" using lt by (intro add_rows_scatter [OF inp])
    then show ?thesis using True by (simp add: add_range_def Let_def src)
  next
    case False
    then show ?thesis by (simp add: add_range_def Let_def source_rows_append source_rows_Cons source_rows_def nonempty_ranges_def)
  qed
  with IH show ?case by simp
qed simp

lemma reduce_kernel_lanes:
  fixes input :: "'a :: comm_monoid_add list"
  assumes ready: "reduce_ready L (Some env) k m" and k: "k = length (source_rows ranges)" "0 < k" and n: "0 < row_elements L"
    and ends: "\<forall>r \<in> set (nonempty_ranges ranges). tk_end r \<le> m" and e: "e = lanes_per_block (le_element_size env)"
    and len: "length input = k * row_elements L" "length dest = m * row_elements L"
    and x: "x \<in> set (launch_lanes k (cdiv (row_elements L) e) e)"
  shows "reduce_kernel L (build_range_meta ranges) k m (row_elements L) e input x dest
    = Inr (exact_reduce_lane (build_range_meta ranges) (shape_address L k) (shape_address L m) (row_elements L) e input x dest)"
proof -
  let ?meta = "build_range_meta ranges" and ?n = "row_elements L"
  let ?off = "\<lambda>m. case L of Token_Major n \<Rightarrow> row_offset (tl_arg n)
    | Head_Major heads inner \<Rightarrow> head_offset (tl_arg (m * inner)) (tl_arg inner) (tl_arg inner)"
  have rows: "kernel_row ?meta i < m \<and> rm_cu_sizes ?meta ! (rm_row_map ?meta ! i) \<le> i" if "i < k" for i
    using build_range_meta_rows(2,3) [of i ranges] source_rows_bound [OF ends] that by (simp add: k(1))
  then have m: "0 < m" using k(2) by fastforce
  have kn: "k * ?n + 2048 \<le> 2 ^ 31" and mn: "m * ?n \<le> 2 ^ 31" using ready by (simp_all add: reduce_ready_def)
  have "k \<le> k * ?n" "?n \<le> k * ?n" "m \<le> m * ?n" using n k(2) by simp_all
  with kn mn have sizes: "k * ?n \<le> 2 ^ 31" "?n + 2048 \<le> 2 ^ 31" "k \<le> 2 ^ 31" "m \<le> 2 ^ 31" by linarith+
  have kernel: "reduce_kernel L ?meta k m ?n e input = reduce_lane ?meta (?off k) (?off m) ?n e input"
    by (cases L) (simp_all add: reduce_kernel_def range_reduce_sum_per_row_lane_def range_reduce_sum_head_major_lane_def)
  have off: "offset_exact (?off k) (shape_address L k) k ?n (length input)" "offset_exact (?off m) (shape_address L m) m ?n (length dest)"
    unfolding len by (rule contiguous_offsets [OF sizes(1) k(2)], rule contiguous_offsets [OF mn m])
  show ?thesis
    unfolding kernel by (rule reduce_lane_exact [OF rows sizes(3,4) launch_columns [OF sizes(2), of "le_element_size env", folded e] off x])
qed

lemma range_reduce_sum_rows:
  fixes input_storage output_storage :: "'a :: comm_monoid_add list"
  assumes ready: "reduce_ready L device k m" and cache: "cache_ok cache"
    and order: "\<forall>r \<in> set ranges. tk_start r \<le> tk_end r" and ends: "\<forall>r \<in> set (nonempty_ranges ranges). tk_end r \<le> m"
    and n_in: "k = length (source_rows ranges)" and len: "length output_storage = m * row_elements L"
    and len_in: "length input_storage = k * row_elements L"
  obtains after returned cache' where
    "range_reduce_sum L device contiguous k input_storage m output_storage ranges cache = Inr (after, returned, cache')"
    and "returned = scatter_rows (tensor_view L k input_storage) (source_rows ranges) (row_elements L) (tensor_view L m output_storage)"
    and "cache_ok cache'" and "contiguous \<or> device = None \<longrightarrow> after = returned"
    and "\<not> contiguous \<and> device \<noteq> None \<and> k \<noteq> 0 \<and> single_range ranges = None \<longrightarrow> after = tensor_view L m output_storage"
proof -
  let ?n = "row_elements L" and ?src = "source_rows ranges" and ?in = "tensor_view L k input_storage"
    and ?out = "tensor_view L m output_storage"
  let ?op = "range_reduce_sum L device contiguous k input_storage m output_storage ranges cache"
  let ?sum = "scatter_rows ?in ?src ?n ?out"
  have expected: "sum_list (map tk_size ranges) = int k" using source_rows_length [OF order] n_in by simp
  have rows: "all_rows ?n ?in" "all_rows ?n ?out" by (rule all_rows_view)+
  consider "k = 0" | (single) r where "k \<noteq> 0" "single_range ranges = Some r" | "k \<noteq> 0" "single_range ranges = None" "device = None"
    | (launch) e where "k \<noteq> 0" "single_range ranges = None" "device = Some e" by (cases "single_range ranges"; cases device) auto
  then show thesis
  proof cases
    case 1
    then have "?src = []" using n_in by simp
    then have "?sum = ?out" using scatter_rows_Nil [OF rows(2)] by simp
    then have "?op = Inr (?sum, ?sum, cache)" using 1 unfolding range_reduce_sum_def Let_def expected by simp
    then show thesis by (rule that [OF _ refl cache]) (simp_all add: 1)
  next
    case (single r)
    from single_range_rows [OF single(2)] have src: "?src = [tk_start r..<tk_end r]" and r: "r \<in> set (nonempty_ranges ranges)" by simp_all
    have lt: "tk_start r < tk_end r" by (rule nonempty_ranges_lt [OF r])
    have "slice ?in 0 (tk_end r - tk_start r) = ?in" using n_in src by (simp add: slice_def)
    moreover have "scatter_rows ?in [] ?n ?out = ?out" by (rule scatter_rows_Nil [OF rows(2)])
    ultimately have "add_rows (tk_start r) (tk_end r) ?in ?out = Inr ?sum"
      using add_rows_scatter [OF rows(1), of "[]" "tk_end r" "tk_start r" ?out] lt ends r n_in src by simp
    with single have "?op = Inr (?sum, ?sum, cache)" by (simp add: range_reduce_sum_def expected Let_def)
    then show thesis by (rule that [OF _ refl cache]) (simp_all add: single)
  next
    case 3
    have "foldE (add_range ?in) ranges (0, ?out) = Inr (k, ?sum)"
      using add_ranges_scatter [OF rows(1), of "[]" ranges ?out] ends n_in scatter_rows_Nil [OF rows(2), of ?in]
      by (simp add: source_rows_def nonempty_ranges_def)
    with 3 have "?op = Inr (?sum, ?sum, cache)" by (simp add: range_reduce_sum_def expected Let_def)
    then show thesis by (rule that [OF _ refl cache]) (simp_all add: 3)
  next
    case (launch e)
    obtain meta cache' where mc: "range_meta_of ranges cache = (meta, cache')" by (cases "range_meta_of ranges cache")
    then have meta: "meta = build_range_meta ranges" and cache': "cache_ok cache'"
      using range_meta_cached [OF cache, of ranges] by simp_all
    have total: "rm_total meta = k" by (simp add: meta build_range_meta_rows n_in)
    have row: "kernel_row meta i = ?src ! i" if "i < k" for i
      using build_range_meta_rows(2) [of i ranges] that by (simp add: meta n_in)
    have bound: "kernel_row meta i < m" if "i < k" for i
      using source_rows_bound [OF ends] that n_in by (simp add: row)
    let ?e = "lanes_per_block (le_element_size e)"
    let ?lanes = "launch_lanes k (cdiv ?n ?e) ?e"
    let ?fold = "fold (exact_reduce_lane meta (shape_address L k) (shape_address L m) ?n ?e input_storage) (le_schedule e ?lanes) output_storage"
    have "launch_ok e" using ready by (simp only: reduce_ready_def launch(3) option.case)
    then have sched: "mset (le_schedule e ?lanes) = mset ?lanes" by (simp add: launch_ok_def)
    then have sched_set: "set (le_schedule e ?lanes) = set ?lanes" by (metis set_mset_mset)
    have run: "foldE (reduce_kernel L meta k m ?n ?e input_storage) (le_schedule e ?lanes) output_storage = Inr ?fold"
    proof (cases "?n = 0")
      case True
      then have "set ?lanes = {}" by (simp add: launch_lanes_set cdiv_def lanes_per_block_pos)
      then have "le_schedule e ?lanes = []" using sched by simp
      then show ?thesis by simp
    next
      case False
      then have pos: "0 < k" "0 < ?n" using launch(1) by simp_all
      show ?thesis
      proof (rule foldE_exact [OF _ len])
        fix x and dest :: "'a list" assume x: "x \<in> set (le_schedule e ?lanes)" and dest: "length dest = m * ?n"
        show "reduce_kernel L meta k m ?n ?e input_storage x dest
            = Inr (exact_reduce_lane meta (shape_address L k) (shape_address L m) ?n ?e input_storage x dest) \<and>
          length (exact_reduce_lane meta (shape_address L k) (shape_address L m) ?n ?e input_storage x dest) = m * ?n"
          using reduce_kernel_lanes [OF ready [unfolded launch(3)] n_in pos ends refl len_in dest x [unfolded sched_set]] dest
          by (simp only: meta exact_lane_length simp_thms)
      qed
    qed
    have cols: "k * ?n div max k 1 = ?n" using launch(1) by simp
    have cell: "?fold ! shape_address L m j c = output_storage ! shape_address L m j c +
        (\<Sum>i < k. if ?src ! i = j then input_storage ! shape_address L k i c else 0)" if "j < m" "c < ?n" for j c
    proof -
      have "(\<Sum>i < k. if kernel_row meta i = j then input_storage ! shape_address L k i c else 0)
          = (\<Sum>i < k. if ?src ! i = j then input_storage ! shape_address L k i c else 0)" by (rule sum.cong) (simp_all add: row)
      with tensor_layout.reduce_any_order [OF shape_layout sched cdiv_covers [OF lanes_per_block_pos] len bound that, of "shape_address L k" input_storage]
      show ?thesis by simp
    qed
    have "tensor_view L m ?fold = ?sum"
    proof (rule nth_equalityI)
      fix j assume "j < length (tensor_view L m ?fold)"
      then have j: "j < m" by simp
      show "tensor_view L m ?fold ! j = ?sum ! j"
      proof (rule nth_equalityI)
        fix c assume "c < length (tensor_view L m ?fold ! j)"
        then have c: "c < ?n" using j by simp
        have "(\<Sum>i < k. if ?src ! i = j then input_storage ! shape_address L k i c else 0) = (\<Sum>i < length ?src. if ?src ! i = j then ?in ! i ! c else 0)"
          unfolding n_in [symmetric] by (rule sum.cong) (simp_all add: c)
        then show "tensor_view L m ?fold ! j ! c = ?sum ! j ! c" using j c by (simp add: cell)
      qed (use j in simp)
    qed simp
    then have "?op = Inr (if contiguous then ?sum else ?out, ?sum, cache')"
      using launch run unfolding range_reduce_sum_def Let_def expected mc prod.case total cols by simp
    then show thesis by (rule that [OF _ refl cache']) (simp_all add: launch)
  qed
qed

text \<open>
  Nothing is added to a device output that is not contiguous: the copy that was summed
  into is returned, and no caller reads what is returned.
\<close>

lemma noncontiguous_output_unchanged:
  "\<exists>cache. range_reduce_sum (Token_Major 1) (Some \<lparr>le_element_size = 2048, le_schedule = id\<rparr>) False 2 [5, 7 :: int] 2 [0, 0]
     [\<lparr>tk_start = 0, tk_end = 1\<rparr>, \<lparr>tk_start = 1, tk_end = 2\<rparr>] None = Inr ([[0], [0]], [[5], [7]], cache)"
proof -
  let ?ranges = "[\<lparr>tk_start = 0, tk_end = 1\<rparr>, \<lparr>tk_start = 1, tk_end = 2\<rparr>]" and ?L = "Token_Major 1"
  let ?env = "\<lparr>le_element_size = 2048, le_schedule = id\<rparr>"
  have facts: "reduce_ready ?L (Some ?env) 2 2" "cache_ok None" "\<forall>r \<in> set ?ranges. tk_start r \<le> tk_end r"
    by (simp_all add: reduce_ready_def launch_ok_def cache_ok_def)
  have rows: "\<forall>r \<in> set (nonempty_ranges ?ranges). tk_end r \<le> 2" "2 = length (source_rows ?ranges)" by code_simp+
  have sums: "scatter_rows (tensor_view ?L 2 [5, 7 :: int]) (source_rows ?ranges) (row_elements ?L) (tensor_view ?L 2 [0, 0]) = [[5], [7]]"
    "tensor_view ?L 2 [0, 0 :: int] = [[0], [0]]" by code_simp+
  have len: "length [0, 0 :: int] = 2 * row_elements ?L" "length [5, 7 :: int] = 2 * row_elements ?L" and two: "single_range ?ranges = None"
    by code_simp+
  obtain after returned cache' where r: "range_reduce_sum ?L (Some ?env) False 2 [5, 7 :: int] 2 [0, 0] ?ranges None = Inr (after, returned, cache')"
    and returned: "returned = scatter_rows (tensor_view ?L 2 [5, 7]) (source_rows ?ranges) (row_elements ?L) (tensor_view ?L 2 [0, 0])"
    and after: "\<not> False \<and> Some ?env \<noteq> None \<and> (2 :: nat) \<noteq> 0 \<and> single_range ?ranges = None \<longrightarrow> after = tensor_view ?L 2 [0, 0]"
    by (rule range_reduce_sum_rows [OF facts rows len, of False]) blast
  have "after = [[0], [0]]" using after two unfolding sums(2) by simp
  then show ?thesis using r unfolding returned sums(1) by blast
qed

text \<open>The head-major operations.\<close>

definition range_gather_head_major :: "nat \<Rightarrow> nat \<Rightarrow> launch_env option \<Rightarrow> (nat \<Rightarrow> 'a list) \<Rightarrow> nat \<Rightarrow> 'a strided
    \<Rightarrow> token_range list \<Rightarrow> meta_cache \<Rightarrow> ('a list list \<times> meta_cache) result" where
  "range_gather_head_major heads inner = range_gather (Head_Major heads inner)"

definition range_reduce_sum_head_major :: "nat \<Rightarrow> nat \<Rightarrow> launch_env option \<Rightarrow> bool \<Rightarrow> nat \<Rightarrow> 'a :: comm_monoid_add list \<Rightarrow> nat
    \<Rightarrow> 'a list \<Rightarrow> token_range list \<Rightarrow> meta_cache \<Rightarrow> ('a list list \<times> 'a list list \<times> meta_cache) result" where
  "range_reduce_sum_head_major heads inner = range_reduce_sum (Head_Major heads inner)"

section \<open>Gradients\<close>

definition range_gather_backward :: "tensor_shape \<Rightarrow> launch_env option \<Rightarrow> nat \<Rightarrow> 'a :: comm_monoid_add list \<Rightarrow> nat \<Rightarrow> token_range list
    \<Rightarrow> meta_cache \<Rightarrow> 'a list list result" where
  "range_gather_backward L device n_grads grad_output n_tokens ranges cache =
     bindE (range_reduce_sum L device True n_grads grad_output n_tokens (replicate (n_tokens * row_elements L) 0)
         (nonempty_ranges ranges) cache)
       (\<lambda>(grad_input, _, _). Inr grad_input)"

definition dot_rows :: "'a :: comm_semiring_0 list list \<Rightarrow> 'a list list \<Rightarrow> 'a" where
  "dot_rows xs ys = (\<Sum>r < length xs. \<Sum>c < length (xs ! r). xs ! r ! c * ys ! r ! c)"

lemma scatter_adjoint:
  fixes xs g :: "'a :: comm_semiring_0 list list"
  assumes xs: "all_rows n xs" and src: "\<And>i. i < length src \<Longrightarrow> src ! i < length xs"
    and zeros: "length zs = length xs" "\<And>j c. j < length xs \<Longrightarrow> c < n \<Longrightarrow> zs ! j ! c = 0"
  shows "dot_rows (map ((!) xs) src) g = dot_rows xs (scatter_rows g src n zs)"
proof -
  have row: "(\<Sum>c < length (xs ! j). xs ! j ! c * scatter_rows g src n zs ! j ! c)
      = (\<Sum>i < length src. if j = src ! i then \<Sum>c < n. xs ! (src ! i) ! c * g ! i ! c else 0)" if j: "j < length xs" for j
  proof -
    have "(\<Sum>c < n. xs ! j ! c * scatter_rows g src n zs ! j ! c) = (\<Sum>c < n. \<Sum>i < length src. if src ! i = j then xs ! j ! c * g ! i ! c else 0)"
      using j zeros by (intro sum.cong refl) (simp add: sum_distrib_left if_distrib cong: if_cong)
    also have "\<dots> = (\<Sum>i < length src. \<Sum>c < n. if src ! i = j then xs ! j ! c * g ! i ! c else 0)" by (rule sum.swap)
    also have "\<dots> = (\<Sum>i < length src. if j = src ! i then \<Sum>c < n. xs ! (src ! i) ! c * g ! i ! c else 0)"
      by (rule sum.cong) auto
    finally show ?thesis using xs j by (simp add: all_rows_def)
  qed
  have "dot_rows xs (scatter_rows g src n zs)
      = (\<Sum>j < length xs. \<Sum>i < length src. if j = src ! i then \<Sum>c < n. xs ! (src ! i) ! c * g ! i ! c else 0)"
    unfolding dot_rows_def by (rule sum.cong) (simp_all only: refl lessThan_iff row)
  also have "\<dots> = (\<Sum>i < length src. \<Sum>j < length xs. if j = src ! i then \<Sum>c < n. xs ! (src ! i) ! c * g ! i ! c else 0)"
    by (rule sum.swap)
  also have "\<dots> = (\<Sum>i < length src. \<Sum>c < n. xs ! (src ! i) ! c * g ! i ! c)"
    by (rule sum.cong [OF refl]) (simp add: src sum.delta)
  also have "\<dots> = dot_rows (map ((!) xs) src) g" using xs src by (simp add: dot_rows_def all_rows_def)
  finally show ?thesis ..
qed

lemma source_rows_sizes: "length (source_rows ranges) = sum_list (map (\<lambda>r. tk_end r - tk_start r) ranges)"
  by (induction ranges) (auto simp: source_rows_Cons tk_size_def)

text \<open>
  C34. Gathering ranges gives the rows they name, on the host and on a device, token- or
  head-major, with any cache the operation filled and under every order in which the
  device runs the lanes of the launch: the ranges, cumulative sizes and row map
  make every program instance read its own row, and no two of them write one cell. On the
  host the tensor may lie in memory in any way; a device launch needs storages of at most
  \<open>2 ^ 31 - 2048\<close> elements and at most \<open>2 ^ 31\<close> rows, so that no offset of the kernel wraps
  around (2048 elements are the most a block of columns has), and, token-major, packed rows (\<open>row_offset_wraps\<close> and \<open>unpacked_rows_misread\<close> are what happens otherwise).
\<close>

theorem range_gather_exact:
  assumes "gather_ready L device m t (sum_list (map (\<lambda>r. tk_end r - tk_start r) ranges))" and "\<And>k. length (new_empty k) = k"
    and "cache_ok cache" and "\<forall>r \<in> set (nonempty_ranges ranges). tk_end r \<le> m"
  shows "\<exists>cache'. range_gather L device new_empty m t ranges cache
      = Inr (concat (map (\<lambda>r. slice (strided_view L m t) (tk_start r) (tk_end r)) (nonempty_ranges ranges)), cache') \<and> cache_ok cache'"
proof -
  have "map (\<lambda>r. slice (strided_view L m t) (tk_start r) (tk_end r)) (nonempty_ranges ranges)
      = map (\<lambda>r. map ((!) (strided_view L m t)) [tk_start r..<tk_end r]) (nonempty_ranges ranges)"
    using assms(4) by (simp add: slice_map_upt)
  with range_gather_rows [OF assms(1) [folded source_rows_sizes] assms(2,3,4)] show ?thesis
    by (simp only: source_rows_def map_concat map_map comp_def)
qed

theorem range_gather_exact_witness:
  "\<exists>cache. range_gather (Head_Major 2 1) (Some \<lparr>le_element_size = 4, le_schedule = rev\<rparr>) (\<lambda>k. replicate k 0) 3
      \<lparr>sd_storage = [1, 4, 2, 5, 3, 6 :: int], sd_row_stride = 2, sd_column = (\<lambda>c. c)\<rparr>
      [\<lparr>tk_start = 2, tk_end = 3\<rparr>, \<lparr>tk_start = 0, tk_end = 1\<rparr>] None = Inr ([[3, 6], [1, 4]], cache)"
proof -
  let ?t = "\<lparr>sd_storage = [1, 4, 2, 5, 3, 6 :: int], sd_row_stride = 2, sd_column = (\<lambda>c. c)\<rparr>"
  let ?ranges = "[\<lparr>tk_start = 2, tk_end = 3\<rparr>, \<lparr>tk_start = 0, tk_end = 1\<rparr>]"
  have rows: "concat (map (\<lambda>r. slice (strided_view (Head_Major 2 1) 3 ?t) (tk_start r) (tk_end r)) (nonempty_ranges ?ranges)) = [[3, 6], [1, 4]]"
    "\<forall>r \<in> set (nonempty_ranges ?ranges). tk_end r \<le> 3" by code_simp+
  have "gather_ready (Head_Major 2 1) (Some \<lparr>le_element_size = 4, le_schedule = rev\<rparr>) 3 ?t
      (sum_list (map (\<lambda>r. tk_end r - tk_start r) ?ranges))"
    by (simp add: gather_ready_def launch_ok_def)
  from range_gather_exact [OF this _ _ rows(2), of "\<lambda>k. replicate k 0" None] show ?thesis
    unfolding rows(1) by (auto simp: cache_ok_def)
qed

text \<open>
  C35. The backward pass of the gather is its adjoint: it never raises, and the gathered
  rows paired with a gradient equal the input paired with the gradient it returns, also
  where ranges overlap and a row is gathered more than once. This holds on the host and
  under every order of the atomic adds of a device, over any commutative semiring, where
  the launches are within the limits of the previous property.
\<close>

theorem range_gather_gradient:
  fixes t :: "'a :: comm_semiring_0 strided"
  assumes "gather_ready L device m t k" and "reduce_ready L device k m" and "\<And>k. length (new_empty k) = k"
    and "cache_ok cache" and "\<forall>r \<in> set (nonempty_ranges ranges). tk_end r \<le> m"
    and "k = length (source_rows ranges)" and "length grad = k * row_elements L"
  shows "\<exists>gathered cache' grad_input. range_gather L device new_empty m t ranges cache = Inr (gathered, cache') \<and>
    range_gather_backward L device k grad m ranges cache' = Inr grad_input \<and>
    dot_rows gathered (tensor_view L k grad) = dot_rows (strided_view L m t) grad_input"
proof -
  let ?zeros = "replicate (m * row_elements L) (0 :: 'a)"
  obtain cache' where g: "range_gather L device new_empty m t ranges cache = Inr (map ((!) (strided_view L m t)) (source_rows ranges), cache')"
    and cache': "cache_ok cache'"
    using range_gather_rows [OF assms(1) [unfolded assms(6)] assms(3,4,5)] by blast
  have order: "\<forall>r \<in> set (nonempty_ranges ranges). tk_start r \<le> tk_end r" using nonempty_ranges_lt by fastforce
  have k: "k = length (source_rows (nonempty_ranges ranges))" using assms(6) by simp
  have ends: "\<forall>r \<in> set (nonempty_ranges (nonempty_ranges ranges)). tk_end r \<le> m" using assms(5) by simp
  have len: "length ?zeros = m * row_elements L" by simp
  obtain after returned cache2 where
    r: "range_reduce_sum L device True k grad m ?zeros (nonempty_ranges ranges) cache' = Inr (after, returned, cache2)"
    "returned = scatter_rows (tensor_view L k grad) (source_rows (nonempty_ranges ranges)) (row_elements L) (tensor_view L m ?zeros)"
    "after = returned"
    by (rule range_reduce_sum_rows [OF assms(2) cache' order ends k len assms(7), of True]) blast
  have zero: "tensor_view L m ?zeros ! j ! c = 0" if "j < m" "c < row_elements L" for j c
    using that tensor_layout.address_bound [OF shape_layout that] by simp
  have view: "all_rows (row_elements L) (strided_view L m t)" by (simp add: all_rows_def)
  have "dot_rows (map ((!) (strided_view L m t)) (source_rows ranges)) (tensor_view L k grad) = dot_rows (strided_view L m t) after"
    unfolding r(2,3) source_rows_nonempty
    by (rule scatter_adjoint [OF view]) (use source_rows_bound [OF assms(5)] zero in simp_all)
  then show ?thesis using g r(1) by (simp add: range_gather_backward_def)
qed

theorem range_gather_gradient_witness:
  "\<exists>gathered cache grad_input.
    range_gather (Token_Major 1) (Some \<lparr>le_element_size = 4, le_schedule = rev\<rparr>) (\<lambda>k. replicate k 0) 2 (packed_rows 1 [2, 3 :: int])
      [\<lparr>tk_start = 0, tk_end = 2\<rparr>, \<lparr>tk_start = 1, tk_end = 2\<rparr>] None = Inr (gathered, cache) \<and>
    range_gather_backward (Token_Major 1) (Some \<lparr>le_element_size = 4, le_schedule = rev\<rparr>) 3 [1, 10, 100] 2
      [\<lparr>tk_start = 0, tk_end = 2\<rparr>, \<lparr>tk_start = 1, tk_end = 2\<rparr>] cache = Inr grad_input \<and>
    dot_rows [[2], [3]] grad_input = dot_rows gathered [[1], [10], [100]]"
proof -
  let ?ranges = "[\<lparr>tk_start = 0, tk_end = 2\<rparr>, \<lparr>tk_start = 1, tk_end = 2\<rparr>]" and ?L = "Token_Major 1"
  let ?env = "\<lparr>le_element_size = 4, le_schedule = rev\<rparr>"
  have ready: "gather_ready ?L (Some ?env) 2 (packed_rows 1 [2, 3 :: int]) 3" "reduce_ready ?L (Some ?env) 3 2"
    by (simp_all add: gather_ready_def reduce_ready_def launch_ok_def packed_rows_def strided_address_def)
  have facts: "cache_ok None" "\<forall>r \<in> set (nonempty_ranges ?ranges). tk_end r \<le> 2" "3 = length (source_rows ?ranges)"
    "length [1, 10, 100 :: int] = 3 * row_elements ?L"
    by (simp add: cache_ok_def) code_simp+
  have views: "strided_view ?L 2 (packed_rows 1 [2, 3 :: int]) = [[2], [3]]" "tensor_view ?L 3 [1, 10, 100 :: int] = [[1], [10], [100]]"
    by code_simp+
  show ?thesis
    using range_gather_gradient [OF ready _ facts, of "\<lambda>k. replicate k 0"] unfolding views by fastforce
qed

section \<open>Gathering into a given output\<close>

text \<open>
  copy_ into a tensor or a slice of it: equal lengths copy, a single row is broadcast,
  anything else is an error.
\<close>

definition copy_rows :: "'a list \<Rightarrow> nat \<Rightarrow> nat \<Rightarrow> 'a list \<Rightarrow> 'a list result" where
  "copy_rows part start stop out =
     (let n = min stop (length out) - start in
      ensure (length part = n \<or> length part = 1) (RuntimeError ''The size of tensor a must match the size of tensor b'')
        (Inr (map (\<lambda>j. if start \<le> j \<and> j < start + n then part ! (if length part = 1 then 0 else j - start) else out ! j) [0..<length out])))"

definition python_range_gather_into :: "'a list \<Rightarrow> token_range list \<Rightarrow> 'a list \<Rightarrow> 'a list result" where
  "python_range_gather_into vals ranges out =
     bindE (foldE (\<lambda>r (cursor, out).
         let part = slice vals (tk_start r) (tk_end r); next_cursor = cursor + length part in
         bindE (copy_rows part cursor next_cursor out) (\<lambda>out'. Inr (next_cursor, out')))
       (nonempty_ranges ranges) (0, out)) (\<lambda>(cursor, out). Inr out)"

definition range_gather_into :: "tensor_shape \<Rightarrow> launch_env option \<Rightarrow> nat \<Rightarrow> 'a strided \<Rightarrow> nat \<Rightarrow> 'a list \<Rightarrow> token_range list
    \<Rightarrow> meta_cache \<Rightarrow> ('a list list \<times> meta_cache) result" where
  "range_gather_into L device n_tokens t n_outputs output_storage ranges cache =
     (let normalized_ranges = nonempty_ranges ranges; inp = strided_view L n_tokens t; out = tensor_view L n_outputs output_storage in
      case single_range normalized_ranges of
        Some r \<Rightarrow> bindE (copy_rows (slice inp (tk_start r) (tk_end r)) 0 n_outputs out) (\<lambda>out'. Inr (out', cache))
      | None \<Rightarrow> if normalized_ranges = [] then Inr (out, cache)
        else (case device of
          None \<Rightarrow> bindE (python_range_gather_into inp normalized_ranges out) (\<lambda>out'. Inr (out', cache))
        | Some env \<Rightarrow>
          (let (meta, cache') = range_meta_of normalized_ranges cache in
           ensure (n_outputs = rm_total meta) (RuntimeError ''range_gather output has wrong first dim'')
             (bindE (gather_launch L env meta n_tokens t output_storage) (\<lambda>output. Inr (tensor_view L n_outputs output, cache'))))))"

lemma copy_rows_exact:
  assumes "stop \<le> length out" and "length part = stop - start" and "start \<le> stop"
  shows "copy_rows part start stop out = Inr (take start out @ part @ drop stop out)"
proof -
  have n: "min stop (length out) - start = stop - start" using assms(1) by simp
  have "map (\<lambda>j. if start \<le> j \<and> j < start + (stop - start) then part ! (if length part = 1 then 0 else j - start) else out ! j) [0..<length out]
      = take start out @ part @ drop stop out"
    by (rule nth_equalityI) (use assms in \<open>auto simp: nth_append\<close>)
  then show ?thesis unfolding copy_rows_def n Let_def by (simp only: assms(2) simp_thms ensure_simps)
qed

lemma python_gather_into_loop:
  assumes "\<forall>r \<in> set rs. tk_start r < tk_end r \<and> tk_end r \<le> length vals"
    and "length outp = length (concat (map (\<lambda>r. slice vals (tk_start r) (tk_end r)) rs))"
  shows "foldE (\<lambda>r (cursor, out).
         let part = slice vals (tk_start r) (tk_end r); next_cursor = cursor + length part in
         bindE (copy_rows part cursor next_cursor out) (\<lambda>out'. Inr (next_cursor, out')))
       rs (length pre, pre @ outp) = Inr (length (pre @ outp), pre @ concat (map (\<lambda>r. slice vals (tk_start r) (tk_end r)) rs))"
  using assms
proof (induction rs arbitrary: pre outp)
  case (Cons r rs)
  let ?part = "slice vals (tk_start r) (tk_end r)"
  have len: "length ?part \<le> length outp" using Cons.prems(2) by simp
  have copy: "copy_rows ?part (length pre) (length pre + length ?part) (pre @ outp)
      = Inr ((pre @ ?part) @ drop (length ?part) outp)"
    by (subst copy_rows_exact) (use len in simp_all)
  have "foldE (\<lambda>r (cursor, out).
         let part = slice vals (tk_start r) (tk_end r); next_cursor = cursor + length part in
         bindE (copy_rows part cursor next_cursor out) (\<lambda>out'. Inr (next_cursor, out')))
       rs (length (pre @ ?part), (pre @ ?part) @ drop (length ?part) outp)
      = Inr (length ((pre @ ?part) @ drop (length ?part) outp), (pre @ ?part) @ concat (map (\<lambda>r. slice vals (tk_start r) (tk_end r)) rs))"
    by (rule Cons.IH) (use Cons.prems len in simp_all)
  then show ?case using copy len by (simp add: Let_def)
qed simp

lemma range_gather_into_rows:
  assumes ready: "gather_ready L device m t n_outputs" and cache: "cache_ok cache"
    and ends: "\<forall>r \<in> set (nonempty_ranges ranges). tk_end r \<le> m"
    and n: "n_outputs = length (source_rows ranges)" and len: "length output_storage = n_outputs * row_elements L"
  shows "\<exists>cache'. range_gather_into L device m t n_outputs output_storage ranges cache
    = Inr (map ((!) (strided_view L m t)) (source_rows ranges), cache') \<and> cache_ok cache'"
proof -
  let ?in = "strided_view L m t" and ?out = "tensor_view L n_outputs output_storage"
  have parts: "concat (map (\<lambda>r. slice ?in (tk_start r) (tk_end r)) (nonempty_ranges ranges)) = map ((!) ?in) (source_rows ranges)"
  proof -
    have "map (\<lambda>r. slice ?in (tk_start r) (tk_end r)) (nonempty_ranges ranges)
        = map (\<lambda>r. map ((!) ?in) [tk_start r..<tk_end r]) (nonempty_ranges ranges)"
      using ends by (simp add: slice_map_upt)
    then show ?thesis by (simp only: source_rows_def map_concat map_map comp_def)
  qed
  consider (single) r where "single_range (nonempty_ranges ranges) = Some r"
    | "single_range (nonempty_ranges ranges) = None" "nonempty_ranges ranges = []"
    | "single_range (nonempty_ranges ranges) = None" "nonempty_ranges ranges \<noteq> []" "device = None"
    | (launch) e where "single_range (nonempty_ranges ranges) = None" "nonempty_ranges ranges \<noteq> []" "device = Some e"
    by (cases "single_range (nonempty_ranges ranges)"; cases device; cases "nonempty_ranges ranges = []") simp_all
  then show ?thesis
  proof cases
    case (single r)
    from single_range_rows [OF single] have r: "nonempty_ranges ranges = [r]" by simp
    then have part: "slice ?in (tk_start r) (tk_end r) = map ((!) ?in) (source_rows ranges)" using parts by simp
    have "copy_rows (map ((!) ?in) (source_rows ranges)) 0 n_outputs ?out = Inr (map ((!) ?in) (source_rows ranges))"
      by (subst copy_rows_exact) (simp_all add: n)
    with single cache show ?thesis by (simp add: range_gather_into_def Let_def part)
  next
    case 2
    then show ?thesis using cache n by (simp add: range_gather_into_def Let_def source_rows_def tensor_view_def)
  next
    case 3
    have lengths: "length ?out = length (concat (map (\<lambda>r. slice ?in (tk_start r) (tk_end r)) (nonempty_ranges ranges)))"
      unfolding parts by (simp add: n)
    have "python_range_gather_into ?in (nonempty_ranges ranges) ?out = Inr (map ((!) ?in) (source_rows ranges))"
      using python_gather_into_loop [of "nonempty_ranges ranges" ?in ?out "[]"] ends lengths nonempty_ranges_lt
      by (simp add: python_range_gather_into_def parts)
    with 3 cache show ?thesis by (simp add: range_gather_into_def Let_def)
  next
    case (launch e)
    obtain meta cache' where mc: "range_meta_of (nonempty_ranges ranges) cache = (meta, cache')" by (meson surj_pair)
    then have meta: "meta = build_range_meta (nonempty_ranges ranges)" and cache': "cache_ok cache'"
      using range_meta_cached [OF cache, of "nonempty_ranges ranges"] by simp_all
    have total: "rm_total meta = n_outputs" by (simp add: meta build_range_meta_rows n)
    obtain out where "gather_launch L e meta m t output_storage = Inr out"
      "tensor_view L n_outputs out = map ((!) ?in) (source_rows ranges)"
      using gather_launch_rows [of L e m t "nonempty_ranges ranges" output_storage] ready ends len n launch(3)
      by (auto simp: meta)
    with launch cache' show ?thesis by (simp add: range_gather_into_def Let_def mc total)
  qed
qed

text \<open>
  The single-range path does not check the size of its output: one row is broadcast over
  every row of the output, where the other paths raise.
\<close>

lemma single_row_broadcast:
  "case range_gather_into (Token_Major 1) None 1 (packed_rows 1 [5 :: int]) 2 [0, 0] [\<lparr>tk_start = 0, tk_end = 1\<rparr>] None of
     Inl e \<Rightarrow> False | Inr (out, _) \<Rightarrow> out = [[5], [5]]"
  by code_simp

end
