(* ===== verification/Moe_Routes.thy ===== *)
theory Moe_Routes
  imports Art_Prelude
begin

text \<open>
  \<^verbatim>\<open>src/art/preprocessing/moe_routing.py\<close>: the experts a mixture-of-experts model
  routed each token to, captured by the inference server per choice and aligned to the
  token ids of one training example.
\<close>

section \<open>Route arrays\<close>

text \<open>
  An array of shape \<open>(tokens, layers, topk)\<close>.  \<open>Other_dtype\<close> is any element type
  but the two the replay accepts, with its item size; entries are only read once the
  element type was checked, so they are naturals.
\<close>

datatype route_dtype = Uint8 | Uint16 | Other_dtype nat

record nd_array =
  nd_dtype :: route_dtype
  nd_layers :: nat
  nd_topk :: nat
  nd_rows :: "nat list list list"

record route_array = nd_array +
  ra_experts :: int

fun item_size :: "route_dtype \<Rightarrow> nat" where
  "item_size Uint8 = 1"
| "item_size Uint16 = 2"
| "item_size (Other_dtype k) = k"

fun cast_entry :: "route_dtype \<Rightarrow> nat \<Rightarrow> nat" where
  "cast_entry Uint8 v = v mod 2 ^ 8"
| "cast_entry Uint16 v = v mod 2 ^ 16"
| "cast_entry (Other_dtype k) v = v"

definition nd_bytes :: "'a nd_array_scheme \<Rightarrow> nat" where
  "nd_bytes a = length (nd_rows a) * nd_layers a * nd_topk a * item_size (nd_dtype a)"

definition nd_slice :: "'a nd_array_scheme \<Rightarrow> nat \<Rightarrow> nat \<Rightarrow> 'a nd_array_scheme" where
  "nd_slice a i j = a\<lparr>nd_rows := slice (nd_rows a) i j\<rparr>"

definition moe_route_dtype :: "int \<Rightarrow> route_dtype result" where
  "moe_route_dtype num_experts =
     ensure (1 \<le> num_experts \<and> num_experts \<le> 65536)
       (RuntimeError ''MoE routing requires num_experts in [1, 65536]'')
       (Inr (if num_experts \<le> 256 then Uint8 else Uint16))"

fun adjacent_equal :: "nat list \<Rightarrow> bool" where
  "adjacent_equal (x # y # xs) = (y = x \<or> adjacent_equal (y # xs))"
| "adjacent_equal xs = False"

definition check_route_chunk :: "int \<Rightarrow> nat list list \<Rightarrow> unit result" where
  "check_route_chunk num_experts flat =
     (let sorted_rows = map sort flat in
      ensure (\<not> list_ex (list_ex (\<lambda>v. num_experts \<le> int v)) sorted_rows)
        (RuntimeError ''MoE route expert id is outside the exact model range'')
     (ensure (\<not> list_ex adjacent_equal sorted_rows)
        (RuntimeError ''MoE route expert ids must be distinct per token and layer'') (Inr ())))"

text \<open>The check runs over blocks of \<^verbatim>\<open>1 << 20\<close> rows.\<close>

function check_route_chunks :: "nat \<Rightarrow> int \<Rightarrow> nat list list \<Rightarrow> unit result" where
  "check_route_chunks chunk num_experts flat =
     (if flat = [] \<or> chunk = 0 then Inr ()
      else bindE (check_route_chunk num_experts (take chunk flat))
        (\<lambda>_. check_route_chunks chunk num_experts (drop chunk flat)))"
  by pat_completeness auto
termination by (relation "measure (\<lambda>(chunk, n, flat). length flat)") auto

declare check_route_chunks.simps [simp del]

definition route_chunk :: nat where
  "route_chunk = 2 ^ 20"

definition validate_route_array :: "route_array \<Rightarrow> unit result" where
  "validate_route_array a =
     ensure (\<not> (nd_rows a \<noteq> [] \<and> (nd_layers a = 0 \<or> nd_topk a = 0)))
       (RuntimeError ''routed_experts must have non-empty layer and topk axes'')
    (bindE (moe_route_dtype (ra_experts a)) (\<lambda>expected.
     ensure (nd_dtype a = expected) (RuntimeError ''experts require another route type'')
    (ensure (int (nd_topk a) \<le> ra_experts a) (RuntimeError ''MoE routing top-k exceeds exact expert count'')
    (ensure (nd_topk a \<noteq> 0) (ValueError ''cannot reshape array of size 0'')
       (check_route_chunks route_chunk (ra_experts a) (concat (nd_rows a)))))))"

text \<open>\<^verbatim>\<open>MoeRouteArray(array, num_experts=...)\<close>\<close>

definition new_route_array :: "nd_array \<Rightarrow> int \<Rightarrow> route_array result" where
  "new_route_array a num_experts =
     (let r = nd_array.extend a \<lparr>ra_experts = num_experts\<rparr> in
      bindE (validate_route_array r) (\<lambda>_. Inr r))"

section \<open>Segmented routes\<close>

datatype moe_routes = Whole route_array | Segmented "route_array list"

definition new_route_segments :: "route_array list \<Rightarrow> moe_routes result" where
  "new_route_segments segs =
     ensure (segs \<noteq> []) (RuntimeError ''MoE route segments cannot be empty'')
    (ensure (card (set (map (\<lambda>s. (ra_experts s, nd_dtype s, nd_layers s, nd_topk s)) segs)) = 1)
       (RuntimeError ''MoE route segments must share one exact contract'')
       (Inr (Segmented segs)))"

fun routes_experts :: "moe_routes \<Rightarrow> int" where
  "routes_experts (Whole a) = ra_experts a"
| "routes_experts (Segmented segs) = ra_experts (hd segs)"

fun routes_shape :: "moe_routes \<Rightarrow> nat \<times> nat \<times> nat" where
  "routes_shape (Whole a) = (length (nd_rows a), nd_layers a, nd_topk a)"
| "routes_shape (Segmented segs) =
     (sum_list (map (\<lambda>s. length (nd_rows s)) segs), nd_layers (hd segs), nd_topk (hd segs))"

text \<open>\<^verbatim>\<open>MoeRouteSegments.iter_slices\<close>, \<open>offset\<close> being the loop variable.\<close>

fun iter_slices :: "nat \<Rightarrow> nat \<Rightarrow> nat \<Rightarrow> route_array list \<Rightarrow> (nat \<times> route_array) list" where
  "iter_slices start fin offset [] = []"
| "iter_slices start fin offset (s # segs) =
     (let segment_end = offset + length (nd_rows s);
          overlap_start = max start offset; overlap_end = min fin segment_end;
          here = (if overlap_start < overlap_end
                  then [(overlap_start, nd_slice s (overlap_start - offset) (overlap_end - offset))] else []) in
      if fin \<le> segment_end then here else here @ iter_slices start fin segment_end segs)"

section \<open>Deterministic routes\<close>

definition route_base :: "int \<Rightarrow> nat \<Rightarrow> nat \<Rightarrow> int" where
  "route_base num_experts position layer =
     ((int position + 1) * 1299709 + int layer * 97003) mod 2 ^ 64 mod num_experts"

definition deterministic_row :: "nat \<Rightarrow> nat \<Rightarrow> int \<Rightarrow> nat \<Rightarrow> nat list list" where
  "deterministic_row layers topk num_experts position =
     map (\<lambda>layer. map (\<lambda>slot. nat ((route_base num_experts position layer + int slot) mod num_experts)) [0..<topk])
       [1..<layers + 1]"

definition deterministic_moe_routes :: "nat list \<Rightarrow> nat \<times> nat \<Rightarrow> int \<Rightarrow> route_array result" where
  "deterministic_moe_routes positions shape num_experts =
     (let (layers, topk) = shape in
      ensure (\<not> (layers = 0 \<or> \<not> (1 \<le> topk \<and> int topk \<le> num_experts)))
        (RuntimeError ''MoE route shape requires positive layers and top-k in expert range'')
     (bindE (moe_route_dtype num_experts) (\<lambda>d.
        Inr \<lparr>nd_dtype = d, nd_layers = layers, nd_topk = topk,
             nd_rows = map (deterministic_row layers topk num_experts) positions, ra_experts = num_experts\<rparr>)))"

section \<open>The metadata of a choice\<close>

datatype raw_ids = No_ids | Not_a_list | Ids "int list"

record route_metadata =
  md_prompt_ids :: raw_ids
  md_completion_ids :: "(string \<times> raw_ids) list"
  md_routes :: "nd_array + route_array"
  md_experts :: int

fun normalize_token_ids :: "raw_ids \<Rightarrow> int list result" where
  "normalize_token_ids No_ids = Inl (RuntimeError ''Missing routed token ids'')"
| "normalize_token_ids Not_a_list = Inl (RuntimeError ''Expected routed token ids list'')"
| "normalize_token_ids (Ids ts) = Inr ts"

definition completion_token_ids :: "route_metadata \<Rightarrow> int list result" where
  "completion_token_ids md =
     (case find (\<lambda>key. map_of (md_completion_ids md) key \<noteq> None)
          [''completion_token_ids'', ''output_token_ids'', ''token_ids''] of
        None \<Rightarrow> Inl (RuntimeError ''Missing routed completion token ids'')
      | Some key \<Rightarrow> normalize_token_ids (the (map_of (md_completion_ids md) key)))"

definition metadata_routes :: "route_metadata \<Rightarrow> route_array result" where
  "metadata_routes md =
     (case md_routes md of
        Inr a \<Rightarrow> ensure (ra_experts a = md_experts md)
          (RuntimeError ''MoE route array disagrees with its exact expert count'') (Inr a)
      | Inl a \<Rightarrow> new_route_array a (md_experts md))"

definition choice_routes :: "route_metadata \<Rightarrow> int list \<Rightarrow> nat \<Rightarrow> (route_array \<times> route_array) result" where
  "choice_routes md prompt_ids completion_count =
     bindE (metadata_routes md) (\<lambda>routes.
     let n = length (nd_rows routes); k = length prompt_ids in
     ensure (n = k + completion_count \<or> n = k + (completion_count - 1))
       (RuntimeError ''routed_experts length does not match prompt/completion token ids'')
       (Inr (nd_slice routes 0 k, nd_slice routes k n)))"

definition common_route_shape :: "route_array list \<Rightarrow> (nat \<times> nat) result" where
  "common_route_shape arrays =
     bindE (foldE (\<lambda>a shape.
         if nd_rows a = [] then Inr shape
         else case shape of
             None \<Rightarrow> Inr (Some (nd_layers a, nd_topk a))
           | Some s \<Rightarrow> ensure (s = (nd_layers a, nd_topk a))
               (RuntimeError ''MoE route arrays must have one rectangular shape'') (Inr shape)) arrays None)
       (\<lambda>shape. case shape of
          None \<Rightarrow> Inl (RuntimeError ''MoE routing metadata did not contain any routed tokens'')
        | Some s \<Rightarrow> Inr s)"

section \<open>Aligning the captures\<close>

text \<open>The array \<^verbatim>\<open>aligned\<close> with its \<^verbatim>\<open>route_mask\<close>.\<close>

record route_buffer =
  rb_dtype :: route_dtype
  rb_shape :: "nat \<times> nat"
  rb_rows :: "nat list list list"
  rb_mask :: "bool list"

definition cast_row :: "route_dtype \<Rightarrow> nat list list \<Rightarrow> nat list list" where
  "cast_row d = map (map (cast_entry d))"

text \<open>
  The slice is clipped to the buffer; indexing the new rows with its mask raises when
  they are of another number.  The layer and top-k axes agree: the caller checks them.
\<close>

definition overlay_routes :: "nat \<Rightarrow> route_array \<Rightarrow> route_buffer \<Rightarrow> route_buffer result" where
  "overlay_routes start routes b =
     (if nd_rows routes = [] then Inr b
      else let fin = start + length (nd_rows routes); existing = slice (rb_mask b) start fin in
      if list_all id existing then Inr b
      else ensure (length (nd_rows routes) = length existing) IndexError
        (Inr (b\<lparr>rb_rows := take start (rb_rows b) @
               map (\<lambda>(old, kept, new). if kept then old else cast_row (rb_dtype b) new)
                 (zip (slice (rb_rows b) start fin) (zip existing (nd_rows routes))) @ drop fin (rb_rows b),
             rb_mask := take start (rb_mask b) @ replicate (length existing) True @ drop fin (rb_mask b)\<rparr>)))"

fun overlay_segments :: "nat \<Rightarrow> route_array list \<Rightarrow> route_buffer \<Rightarrow> route_buffer result" where
  "overlay_segments offset [] b = Inr b"
| "overlay_segments offset (s # segs) b =
     bindE (overlay_routes offset s b) (overlay_segments (offset + length (nd_rows s)) segs)"

definition materialize_route_segments :: "nat \<Rightarrow> nat \<times> nat \<Rightarrow> route_array list \<Rightarrow> route_buffer result" where
  "materialize_route_segments token_count shape segs =
     overlay_segments 0 segs
       \<lparr>rb_dtype = (if segs \<noteq> [] then nd_dtype (hd segs) else Uint8), rb_shape = shape,
        rb_rows = replicate token_count (replicate (fst shape) (replicate (snd shape) 0)),
        rb_mask = replicate token_count False\<rparr>"

record alignment_stats =
  st_choices :: nat
  st_routed :: nat
  st_prompt_bytes :: nat
  st_completion_bytes :: nat

record alignment =
  al_buffer :: "route_buffer option"
  al_segments :: "route_array list"
  al_covered :: nat
  al_shape :: "(nat \<times> nat) option"
  al_experts :: "int option"
  al_saw_routing :: bool
  al_saw_missing :: bool
  al_stats :: alignment_stats

definition new_alignment :: alignment where
  "new_alignment = \<lparr>al_buffer = None, al_segments = [], al_covered = 0, al_shape = None, al_experts = None,
     al_saw_routing = False, al_saw_missing = False,
     al_stats = \<lparr>st_choices = 0, st_routed = 0, st_prompt_bytes = 0, st_completion_bytes = 0\<rparr>\<rparr>"

definition append_or_overlay_routes :: "nat \<Rightarrow> nat \<times> nat \<Rightarrow> nat \<Rightarrow> route_array \<Rightarrow> alignment \<Rightarrow> alignment result" where
  "append_or_overlay_routes token_count shape start routes st =
     (if nd_rows routes = [] then Inr st
      else case al_buffer st of
        Some b \<Rightarrow> bindE (overlay_routes start routes b) (\<lambda>b'. Inr (st\<lparr>al_buffer := Some b'\<rparr>))
      | None \<Rightarrow>
          if start = al_covered st
          then Inr (st\<lparr>al_segments := al_segments st @ [routes], al_covered := al_covered st + length (nd_rows routes)\<rparr>)
          else bindE (materialize_route_segments token_count shape (al_segments st)) (\<lambda>b.
               bindE (overlay_routes start routes b) (\<lambda>b'. Inr (st\<lparr>al_buffer := Some b'\<rparr>))))"

definition routed_count :: "alignment \<Rightarrow> nat" where
  "routed_count st =
     (case al_buffer st of Some b \<Rightarrow> length (filter id (rb_mask b)) | None \<Rightarrow> al_covered st)"

definition fix_experts :: "int \<Rightarrow> alignment \<Rightarrow> alignment result" where
  "fix_experts n st =
     (case al_experts st of
        None \<Rightarrow> Inr (st\<lparr>al_experts := Some n\<rparr>)
      | Some m \<Rightarrow> ensure (m = n) (RuntimeError ''MoE route captures disagree on exact expert count'') (Inr st))"

definition fix_shape :: "nat \<times> nat \<Rightarrow> alignment \<Rightarrow> alignment result" where
  "fix_shape current st =
     (case al_shape st of
        None \<Rightarrow> Inr (st\<lparr>al_shape := Some current\<rparr>)
      | Some s \<Rightarrow> ensure (s = current) (RuntimeError ''MoE route arrays must have one rectangular shape'') (Inr st))"

text \<open>The body of the loop: one choice with its offset and its token length.\<close>

definition align_choice :: "int list \<Rightarrow> route_metadata option \<times> nat \<times> nat \<Rightarrow> alignment \<Rightarrow> alignment result" where
  "align_choice token_ids c st =
     (case c of
        (None, _) \<Rightarrow> Inr (st\<lparr>al_saw_missing := True\<rparr>)
      | (Some md, offset, token_length) \<Rightarrow>
          let st = st\<lparr>al_saw_routing := True, al_stats := (al_stats st)\<lparr>st_choices := st_choices (al_stats st) + 1\<rparr>\<rparr> in
          bindE (normalize_token_ids (md_prompt_ids md)) (\<lambda>prompt_ids.
          bindE (completion_token_ids md) (\<lambda>completion_ids.
          bindE (choice_routes md prompt_ids (length completion_ids)) (\<lambda>(prompt_routes, completion_routes).
          let st = st\<lparr>al_stats := (al_stats st)\<lparr>
            st_prompt_bytes := st_prompt_bytes (al_stats st) + nd_bytes prompt_routes,
            st_completion_bytes := st_completion_bytes (al_stats st) + nd_bytes completion_routes\<rparr>\<rparr> in
          bindE (fix_experts (ra_experts prompt_routes) st) (\<lambda>st.
          ensure (prompt_ids = take offset token_ids)
            (RuntimeError ''vLLM routed prompt token ids do not match ART-tokenized prefix'')
         (ensure (completion_ids = slice token_ids offset (offset + token_length))
            (RuntimeError ''vLLM routed completion token ids do not match ART-tokenized choice'')
         (ensure (length (nd_rows prompt_routes) = length prompt_ids)
            (RuntimeError ''Binary prompt route length does not match prompt_token_ids'')
         (ensure (length (nd_rows completion_routes) \<in> {length completion_ids, length completion_ids - 1})
            (RuntimeError ''Binary completion route length does not match completion_token_ids'')
         (bindE (common_route_shape [prompt_routes, completion_routes]) (\<lambda>current.
          bindE (fix_shape current st) (\<lambda>st.
          bindE (append_or_overlay_routes (length token_ids) current 0 prompt_routes st) (\<lambda>st.
          bindE (append_or_overlay_routes (length token_ids) current offset completion_routes st) (\<lambda>st.
          Inr (st\<lparr>al_stats := (al_stats st)\<lparr>st_routed := routed_count st\<rparr>\<rparr>))))))))))))))"

section \<open>The aligned result\<close>

definition missing_positions :: "bool list \<Rightarrow> nat list" where
  "missing_positions filled = filter (\<lambda>t. \<not> filled ! t) [0..<length filled]"

definition fill_missing_routes :: "int \<Rightarrow> route_buffer \<Rightarrow> route_buffer result" where
  "fill_missing_routes num_experts b =
     (let missing = missing_positions (rb_mask b) in
      if missing = [] then Inr b
      else bindE (deterministic_moe_routes missing (rb_shape b) num_experts) (\<lambda>routes.
        Inr (b\<lparr>rb_rows := foldl (\<lambda>rs (t, row). rs[t := cast_row (rb_dtype b) row]) (rb_rows b)
                 (zip missing (nd_rows routes)),
               rb_mask := replicate (length (rb_mask b)) True\<rparr>)))"

definition finish_alignment :: "nat \<Rightarrow> alignment \<Rightarrow> (moe_routes option \<times> alignment_stats) result" where
  "finish_alignment token_count st =
     ensure (\<not> (al_saw_routing st \<and> al_saw_missing st))
       (RuntimeError ''Some trainable choices had MoE routes while others did not'')
    (if \<not> al_saw_routing st then Inr (None, al_stats st)
     else case al_experts st of
       None \<Rightarrow> Inl (RuntimeError ''MoE routing metadata omitted exact expert count'')
     | Some n \<Rightarrow>
       (case al_buffer st of
          Some b \<Rightarrow>
            bindE (fill_missing_routes n b) (\<lambda>b.
            bindE (new_route_array \<lparr>nd_dtype = rb_dtype b, nd_layers = fst (rb_shape b), nd_topk = snd (rb_shape b),
                nd_rows = rb_rows b\<rparr> n) (\<lambda>a. Inr (Some (Whole a), al_stats st)))
        | None \<Rightarrow>
            if al_covered st = token_count then
              if length (al_segments st) = 1 then Inr (Some (Whole (hd (al_segments st))), al_stats st)
              else bindE (new_route_segments (al_segments st)) (\<lambda>r. Inr (Some r, al_stats st))
            else case al_shape st of
                None \<Rightarrow> Inl (RuntimeError ''MoE routing metadata did not contain any routed tokens'')
              | Some s \<Rightarrow>
                bindE (deterministic_moe_routes [al_covered st..<token_count] s n) (\<lambda>missing.
                bindE (new_route_segments (al_segments st @ [missing])) (\<lambda>r.
                Inr (Some r, (al_stats st)\<lparr>st_routed := al_covered st\<rparr>)))))"

definition align_choice_routes :: "int list \<Rightarrow> route_metadata option list \<Rightarrow> nat list \<Rightarrow> nat list
    \<Rightarrow> (moe_routes option \<times> alignment_stats) result" where
  "align_choice_routes token_ids choices choice_offsets choice_token_lengths =
     ensure (length choices = length choice_offsets \<and> length choice_offsets = length choice_token_lengths)
       (RuntimeError ''Choice routing alignment inputs differ in length'')
    (bindE (foldE (align_choice token_ids) (zip choices (zip choice_offsets choice_token_lengths)) new_alignment)
       (finish_alignment (length token_ids)))"

text \<open>One prompt of two tokens and two sampled tokens, the last of which was not routed.\<close>

definition example_metadata :: route_metadata where
  "example_metadata = \<lparr>md_prompt_ids = Ids [5, 6], md_completion_ids = [(''token_ids'', Ids [7, 8])],
     md_routes = Inr \<lparr>nd_dtype = Uint8, nd_layers = 1, nd_topk = 2,
       nd_rows = [[[0, 1]], [[2, 1]], [[3, 0]]], ra_experts = 4\<rparr>, md_experts = 4\<rparr>"

lemma align_example:
  "align_choice_routes [5, 6, 7, 8] [Some example_metadata] [2] [2] = Inr
     (Some (Segmented [
        \<lparr>nd_dtype = Uint8, nd_layers = 1, nd_topk = 2, nd_rows = [[[0, 1]], [[2, 1]]], ra_experts = 4\<rparr>,
        \<lparr>nd_dtype = Uint8, nd_layers = 1, nd_topk = 2, nd_rows = [[[3, 0]]], ra_experts = 4\<rparr>,
        \<lparr>nd_dtype = Uint8, nd_layers = 1, nd_topk = 2, nd_rows = [[[3, 0]]], ra_experts = 4\<rparr>]),
      \<lparr>st_choices = 1, st_routed = 3, st_prompt_bytes = 4, st_completion_bytes = 2\<rparr>)"
  by code_simp

section \<open>Valid routes\<close>

text \<open>
  What a validated array promises of each row: one list per layer, each with \<open>topk\<close>
  distinct experts of the model.  \<open>rectangular\<close> is what every numpy array has.
\<close>

definition route_row_ok :: "nat \<Rightarrow> nat \<Rightarrow> int \<Rightarrow> nat list list \<Rightarrow> bool" where
  "route_row_ok layers topk n row \<longleftrightarrow> length row = layers \<and>
     (\<forall>r \<in> set row. length r = topk \<and> distinct r \<and> (\<forall>v \<in> set r. int v < n))"

definition rectangular :: "'a nd_array_scheme \<Rightarrow> bool" where
  "rectangular a \<longleftrightarrow> (\<forall>row \<in> set (nd_rows a). length row = nd_layers a \<and> (\<forall>r \<in> set row. length r = nd_topk a))"

definition route_array_ok :: "nat \<times> nat \<Rightarrow> int \<Rightarrow> route_array \<Rightarrow> bool" where
  "route_array_ok shape n a \<longleftrightarrow> ra_experts a = n \<and> (nd_layers a, nd_topk a) = shape \<and>
     moe_route_dtype n = Inr (nd_dtype a) \<and> fst shape \<noteq> 0 \<and> snd shape \<noteq> 0 \<and> int (snd shape) \<le> n \<and>
     (\<forall>row \<in> set (nd_rows a). route_row_ok (fst shape) (snd shape) n row)"

lemma adjacent_equal_sorted: "sorted xs \<Longrightarrow> adjacent_equal xs \<longleftrightarrow> \<not> distinct xs"
  by (induction xs rule: adjacent_equal.induct) auto

lemma check_route_chunk_iff:
  "check_route_chunk n flat = Inr u \<longleftrightarrow> (\<forall>r \<in> set flat. distinct r \<and> (\<forall>v \<in> set r. int v < n))"
  by (auto simp: check_route_chunk_def Let_def ensure_Inr_iff list_ex_iff adjacent_equal_sorted not_le)

lemma check_route_chunks_iff:
  "chunk \<noteq> 0 \<Longrightarrow> check_route_chunks chunk n flat = Inr u \<longleftrightarrow>
     (\<forall>r \<in> set flat. distinct r \<and> (\<forall>v \<in> set r. int v < n))"
proof (induction chunk n flat rule: check_route_chunks.induct)
  case (1 chunk n flat)
  show ?case
  proof (cases "flat = []")
    case True
    then show ?thesis by (simp add: check_route_chunks.simps)
  next
    case False
    have "set flat = set (take chunk flat) \<union> set (drop chunk flat)"
      by (metis append_take_drop_id set_append)
    moreover have "check_route_chunks chunk n (drop chunk flat) = Inr u \<longleftrightarrow>
        (\<forall>r \<in> set (drop chunk flat). distinct r \<and> (\<forall>v \<in> set r. int v < n))"
      using 1 False by simp
    ultimately show ?thesis
      using False 1(2) by (auto simp: check_route_chunks.simps [of chunk n flat] bindE_Inr_iff check_route_chunk_iff)
  qed
qed

lemma route_chunk_pos: "route_chunk \<noteq> 0"
  by (simp add: route_chunk_def)

lemma validate_route_array_iff:
  assumes "rectangular a" and "nd_rows a \<noteq> []"
  shows "validate_route_array a = Inr u \<longleftrightarrow> route_array_ok (nd_layers a, nd_topk a) (ra_experts a) a"
  using assms check_route_chunks_iff [OF route_chunk_pos]
  by (auto simp: validate_route_array_def ensure_Inr_iff bindE_Inr_iff route_array_ok_def route_row_ok_def rectangular_def)

lemma new_route_array_iff:
  assumes "rectangular a" and "nd_rows a \<noteq> []"
  shows "new_route_array a n = Inr r \<longleftrightarrow> r = nd_array.extend a \<lparr>ra_experts = n\<rparr> \<and>
    route_array_ok (nd_layers a, nd_topk a) n r"
proof -
  have "rectangular (nd_array.extend a \<lparr>ra_experts = n\<rparr>)" "nd_rows (nd_array.extend a \<lparr>ra_experts = n\<rparr>) \<noteq> []"
    using assms by (simp_all add: rectangular_def nd_array.defs)
  from validate_route_array_iff [OF this] show ?thesis
    by (auto simp: new_route_array_def Let_def bindE_Inr_iff nd_array.defs)
qed

lemma cast_row_ok:
  assumes "moe_route_dtype n = Inr d" and "route_row_ok layers topk n row"
  shows "cast_row d row = row"
proof -
  have d: "1 \<le> n \<and> n \<le> 65536" "d = (if n \<le> 256 then Uint8 else Uint16)"
    using assms(1) by (auto simp: moe_route_dtype_def ensure_Inr_iff)
  have "cast_entry d v = v" if "r \<in> set row" "v \<in> set r" for r v
  proof -
    have "int v < n" using assms(2) that by (simp add: route_row_ok_def)
    with d show ?thesis by auto
  qed
  then show ?thesis unfolding cast_row_def by (intro map_idI) auto
qed

lemma nd_slice_ok: "route_array_ok shape n a \<Longrightarrow> route_array_ok shape n (nd_slice a i j)"
  by (auto simp: route_array_ok_def nd_slice_def slice_def dest!: in_set_takeD in_set_dropD)

section \<open>Deterministic routes are valid\<close>

lemma deterministic_row_ok:
  assumes "int topk \<le> n" and "0 < n"
  shows "route_row_ok layers topk n (deterministic_row layers topk n position)"
proof -
  have b: "0 \<le> route_base n position l" "route_base n position l < n" for l
    using assms by (simp_all add: route_base_def)
  have "inj_on (\<lambda>slot. nat ((route_base n position l + int slot) mod n)) (set [0..<topk])" for l
  proof (rule inj_onI)
    fix x y assume xy: "x \<in> set [0..<topk]" "y \<in> set [0..<topk]"
      and "nat ((route_base n position l + int x) mod n) = nat ((route_base n position l + int y) mod n)"
    then have "(route_base n position l + int x) mod n = (route_base n position l + int y) mod n"
      using assms(2) by (metis eq_nat_nat_iff less_le pos_mod_sign)
    then have "int x mod n = int y mod n" by (metis mod_add_cong mod_diff_cong add_diff_cancel_left')
    with xy assms show "x = y" by simp
  qed
  with assms(2) show ?thesis
    by (auto simp: route_row_ok_def deterministic_row_def distinct_map)
qed

lemma deterministic_moe_routes_ok:
  assumes "moe_route_dtype n = Inr d" and "fst shape \<noteq> 0" "snd shape \<noteq> 0" "int (snd shape) \<le> n"
  shows "deterministic_moe_routes ps shape n = Inr
      \<lparr>nd_dtype = d, nd_layers = fst shape, nd_topk = snd shape,
       nd_rows = map (deterministic_row (fst shape) (snd shape) n) ps, ra_experts = n\<rparr>"
    and "route_array_ok shape n \<lparr>nd_dtype = d, nd_layers = fst shape, nd_topk = snd shape,
       nd_rows = map (deterministic_row (fst shape) (snd shape) n) ps, ra_experts = n\<rparr>"
proof -
  have n: "0 < n" using assms(3,4) by (cases "snd shape") auto
  show "deterministic_moe_routes ps shape n = Inr
      \<lparr>nd_dtype = d, nd_layers = fst shape, nd_topk = snd shape,
       nd_rows = map (deterministic_row (fst shape) (snd shape) n) ps, ra_experts = n\<rparr>"
    using assms by (simp add: deterministic_moe_routes_def split_beta)
  show "route_array_ok shape n \<lparr>nd_dtype = d, nd_layers = fst shape, nd_topk = snd shape,
       nd_rows = map (deterministic_row (fst shape) (snd shape) n) ps, ra_experts = n\<rparr>"
    using assms deterministic_row_ok [OF assms(4) n] by (auto simp: route_array_ok_def)
qed

section \<open>What the aligned routes stand for\<close>

text \<open>
  A partial function from token positions to routes.  \<open>placed start rows\<close> is one
  capture; the first capture of a position wins, so an earlier one is added on the right.
\<close>

type_synonym coverage = "nat \<Rightarrow> nat list list option"

definition placed :: "nat \<Rightarrow> nat list list list \<Rightarrow> coverage" where
  "placed start rws t = (if start \<le> t \<and> t < start + length rws then Some (rws ! (t - start)) else None)"

definition buffer_holds :: "nat \<Rightarrow> coverage \<Rightarrow> route_buffer \<Rightarrow> bool" where
  "buffer_holds n cov b \<longleftrightarrow> length (rb_rows b) = n \<and> length (rb_mask b) = n \<and>
     (\<forall>t < n. rb_mask b ! t = (cov t \<noteq> None) \<and> (\<forall>r. cov t = Some r \<longrightarrow> rb_rows b ! t = r))"

lemma buffer_holdsD:
  assumes "buffer_holds n cov b"
  shows "length (rb_rows b) = n" "length (rb_mask b) = n" "t < n \<Longrightarrow> rb_mask b ! t = (cov t \<noteq> None)"
    "t < n \<Longrightarrow> cov t = Some r \<Longrightarrow> rb_rows b ! t = r"
  using assms by (simp_all add: buffer_holds_def)

lemma placed_Nil [simp]: "placed start [] = Map.empty"
  by (auto simp: placed_def)

lemma placed_append: "placed start (xs @ ys) = placed (start + length xs) ys ++ placed start xs"
proof
  fix t show "placed start (xs @ ys) t = (placed (start + length xs) ys ++ placed start xs) t"
    by (auto simp: placed_def map_add_def nth_append)
qed

lemma overlay_holds:
  assumes h: "buffer_holds n cov b" and room: "start + length (nd_rows routes) \<le> n"
    and cast: "\<forall>row \<in> set (nd_rows routes). cast_row (rb_dtype b) row = row"
  shows "\<exists>b'. overlay_routes start routes b = Inr b' \<and> buffer_holds n (placed start (nd_rows routes) ++ cov) b' \<and>
    rb_dtype b' = rb_dtype b \<and> rb_shape b' = rb_shape b"
proof -
  let ?R = "nd_rows routes"
  let ?fin = "start + length ?R"
  let ?cov = "placed start ?R ++ cov"
  note len = buffer_holdsD(1,2) [OF h]
  have ex: "length (slice (rb_mask b) start ?fin) = length ?R" "length (slice (rb_rows b) start ?fin) = length ?R"
    using len room by simp_all
  have exn: "slice (rb_mask b) start ?fin ! j = rb_mask b ! (start + j)"
      "slice (rb_rows b) start ?fin ! j = rb_rows b ! (start + j)" if "j < length ?R" for j
    using that len room by (simp_all add: slice_def)
  show ?thesis
  proof (cases "?R = [] \<or> list_all id (slice (rb_mask b) start ?fin)")
    case True
    have "?cov t = cov t" if "t < n" for t
    proof (cases "cov t")
      case None
      have "\<not> (start \<le> t \<and> t < ?fin)"
      proof
        assume t: "start \<le> t \<and> t < ?fin"
        then have j: "t - start < length ?R" by auto
        then have "?R \<noteq> []" by auto
        then have "slice (rb_mask b) start ?fin ! (t - start)"
          using True j ex(1) by (simp add: list_all_length)
        then show False using exn(1) [OF j] t None buffer_holdsD(3) [OF h that] by simp
      qed
      then show ?thesis using None by (simp add: placed_def map_add_def)
    qed (simp add: map_add_def)
    then have "buffer_holds n ?cov b" using h by (simp add: buffer_holds_def)
    moreover have "overlay_routes start routes b = Inr b" using True by (auto simp: overlay_routes_def)
    ultimately show ?thesis by blast
  next
    case False
    let ?mid = "map (\<lambda>(old, kept, new). if kept then old else cast_row (rb_dtype b) new)
      (zip (slice (rb_rows b) start ?fin) (zip (slice (rb_mask b) start ?fin) ?R))"
    let ?b = "b\<lparr>rb_rows := take start (rb_rows b) @ ?mid @ drop ?fin (rb_rows b),
      rb_mask := take start (rb_mask b) @ replicate (length ?R) True @ drop ?fin (rb_mask b)\<rparr>"
    have lm: "length ?mid = length ?R" using ex by simp
    have mid: "?mid ! j = (if rb_mask b ! (start + j) then rb_rows b ! (start + j) else ?R ! j)" if "j < length ?R" for j
      using that ex exn [OF that] cast by simp
    have rd: "rb_rows ?b ! t = (if t < start \<or> ?fin \<le> t then rb_rows b ! t else ?mid ! (t - start))" if "t < n" for t
      using that len room lm by (auto simp: nth_append simp del: length_map length_zip)
    have md: "rb_mask ?b ! t = (if t < start \<or> ?fin \<le> t then rb_mask b ! t else True)" if "t < n" for t
      using that len room by (auto simp: nth_append)
    have "buffer_holds n ?cov ?b"
      unfolding buffer_holds_def
    proof (intro conjI allI impI)
      show "length (rb_rows ?b) = n" "length (rb_mask ?b) = n" using len room lm by simp_all
    next
      fix t assume t: "t < n"
      show "rb_mask ?b ! t = (?cov t \<noteq> None)"
        unfolding md [OF t] using buffer_holdsD(3) [OF h t] by (auto simp: placed_def map_add_def split: option.splits)
      fix r assume r: "?cov t = Some r"
      show "rb_rows ?b ! t = r"
      proof (cases "t < start \<or> ?fin \<le> t")
        case True
        then have "placed start ?R t = None" by (auto simp: placed_def)
        then have "cov t = Some r" using r by (simp add: map_add_def split: option.splits)
        with True t buffer_holdsD(4) [OF h t] show ?thesis by (simp only: rd [OF t] if_True)
      next
        case False
        then have j: "t - start < length ?R" "start + (t - start) = t" by auto
        have "?mid ! (t - start) = r"
          using r False buffer_holdsD(3,4) [OF h t] unfolding mid [OF j(1)] j(2)
          by (auto simp: placed_def map_add_def split: option.splits)
        with False show ?thesis by (simp only: rd [OF t] if_False)
      qed
    qed
    moreover have "overlay_routes start routes b = Inr ?b"
      using False ex(1) by (simp add: overlay_routes_def Let_def)
    ultimately show ?thesis by (intro exI [of _ ?b]) simp
  qed
qed

lemma overlay_segments_holds:
  assumes "buffer_holds n cov b" and "offset + length (concat (map nd_rows segs)) \<le> n"
    and "\<forall>s \<in> set segs. \<forall>row \<in> set (nd_rows s). cast_row (rb_dtype b) row = row"
  shows "\<exists>b'. overlay_segments offset segs b = Inr b' \<and>
    buffer_holds n (placed offset (concat (map nd_rows segs)) ++ cov) b' \<and>
    rb_dtype b' = rb_dtype b \<and> rb_shape b' = rb_shape b"
  using assms
proof (induction segs arbitrary: offset cov b)
  case Nil
  then show ?case by simp
next
  case (Cons s segs)
  obtain b1 where b1: "overlay_routes offset s b = Inr b1" "buffer_holds n (placed offset (nd_rows s) ++ cov) b1"
    "rb_dtype b1 = rb_dtype b" "rb_shape b1 = rb_shape b"
    using overlay_holds [OF Cons.prems(1), of offset s] Cons.prems(2,3) by auto
  obtain b2 where "overlay_segments (offset + length (nd_rows s)) segs b1 = Inr b2"
    "buffer_holds n (placed (offset + length (nd_rows s)) (concat (map nd_rows segs)) ++ (placed offset (nd_rows s) ++ cov)) b2"
    "rb_dtype b2 = rb_dtype b1" "rb_shape b2 = rb_shape b1"
    using Cons.IH [OF b1(2), of "offset + length (nd_rows s)"] Cons.prems(2,3) b1(3) by auto
  with b1 show ?case by (simp add: placed_append)
qed

lemma materialize_holds:
  assumes "length (concat (map nd_rows segs)) \<le> n" and "\<forall>s \<in> set segs. route_array_ok shape e s"
  shows "\<exists>b. materialize_route_segments n shape segs = Inr b \<and>
    buffer_holds n (placed 0 (concat (map nd_rows segs))) b \<and>
    rb_dtype b = (if segs \<noteq> [] then nd_dtype (hd segs) else Uint8) \<and> rb_shape b = shape"
proof -
  let ?d = "if segs \<noteq> [] then nd_dtype (hd segs) else Uint8"
  let ?b = "\<lparr>rb_dtype = ?d, rb_shape = shape,
        rb_rows = replicate n (replicate (fst shape) (replicate (snd shape) 0)), rb_mask = replicate n False\<rparr>"
  have d: "moe_route_dtype e = Inr ?d" if "segs \<noteq> []" using assms(2) that by (auto simp: route_array_ok_def)
  have cast: "\<forall>s \<in> set segs. \<forall>row \<in> set (nd_rows s). cast_row (rb_dtype ?b) row = row"
  proof (intro ballI)
    fix s row assume s: "s \<in> set segs" "row \<in> set (nd_rows s)"
    then have "moe_route_dtype e = Inr ?d" by (intro d) auto
    moreover have "route_row_ok (fst shape) (snd shape) e row" using assms(2) s by (auto simp: route_array_ok_def)
    ultimately show "cast_row (rb_dtype ?b) row = row" by (auto dest: cast_row_ok)
  qed
  have "buffer_holds n Map.empty ?b" by (simp add: buffer_holds_def)
  from overlay_segments_holds [OF this, of 0 segs] assms(1) cast show ?thesis
    by (simp add: materialize_route_segments_def)
qed

section \<open>The loop keeps the coverage\<close>

definition alignment_holds :: "nat \<Rightarrow> nat \<times> nat \<Rightarrow> int \<Rightarrow> coverage \<Rightarrow> alignment \<Rightarrow> bool" where
  "alignment_holds n shape e cov st \<longleftrightarrow>
     (\<forall>s \<in> set (al_segments st). route_array_ok shape e s) \<and>
     (case al_buffer st of
        None \<Rightarrow> al_covered st = length (concat (map nd_rows (al_segments st))) \<and> al_covered st \<le> n \<and>
          cov = placed 0 (concat (map nd_rows (al_segments st)))
      | Some b \<Rightarrow> buffer_holds n cov b \<and> rb_shape b = shape \<and> moe_route_dtype e = Inr (rb_dtype b))"

text \<open>What a capture leaves alone, and that a nonempty one is kept somewhere.\<close>

definition same_header :: "alignment \<Rightarrow> alignment \<Rightarrow> bool" where
  "same_header st st' \<longleftrightarrow> al_shape st' = al_shape st \<and> al_experts st' = al_experts st \<and>
     al_saw_routing st' = al_saw_routing st \<and> al_saw_missing st' = al_saw_missing st \<and> al_stats st' = al_stats st"

definition started :: "alignment \<Rightarrow> bool" where
  "started st \<longleftrightarrow> al_segments st \<noteq> [] \<or> al_buffer st \<noteq> None"

lemma overlay_alignment:
  assumes b: "buffer_holds n cov b" "rb_shape b = shape" "moe_route_dtype e = Inr (rb_dtype b)"
    and segs: "\<forall>s \<in> set (al_segments st). route_array_ok shape e s"
    and ok: "route_array_ok shape e a" and room: "start + length (nd_rows a) \<le> n"
  shows "\<exists>st'. bindE (overlay_routes start a b) (\<lambda>b'. Inr (st\<lparr>al_buffer := Some b'\<rparr>)) = Inr st' \<and>
    alignment_holds n shape e (placed start (nd_rows a) ++ cov) st' \<and> same_header st st' \<and> started st'"
proof -
  have "\<forall>row \<in> set (nd_rows a). cast_row (rb_dtype b) row = row"
    using ok cast_row_ok [OF b(3)] by (auto simp: route_array_ok_def)
  from overlay_holds [OF b(1) room this] obtain b' where "overlay_routes start a b = Inr b'"
    "buffer_holds n (placed start (nd_rows a) ++ cov) b'" "rb_dtype b' = rb_dtype b" "rb_shape b' = rb_shape b"
    by blast
  with b(2,3) segs show ?thesis
    by (intro exI [of _ "st\<lparr>al_buffer := Some b'\<rparr>"]) (simp add: alignment_holds_def same_header_def started_def)
qed

lemma append_holds:
  assumes h: "alignment_holds n shape e cov st" and ok: "route_array_ok shape e a"
    and room: "start + length (nd_rows a) \<le> n" and first: "start = 0 \<or> started st"
  shows "\<exists>st'. append_or_overlay_routes n shape start a st = Inr st' \<and>
    alignment_holds n shape e (placed start (nd_rows a) ++ cov) st' \<and> same_header st st' \<and>
    (started st \<or> nd_rows a \<noteq> [] \<longrightarrow> started st')"
proof (cases "nd_rows a = []")
  case True
  with h show ?thesis by (simp add: append_or_overlay_routes_def same_header_def)
next
  case False
  have segs: "\<forall>s \<in> set (al_segments st). route_array_ok shape e s" using h by (simp add: alignment_holds_def)
  show ?thesis
  proof (cases "al_buffer st")
    case (Some b)
    then have "buffer_holds n cov b" "rb_shape b = shape" "moe_route_dtype e = Inr (rb_dtype b)"
      using h by (simp_all add: alignment_holds_def)
    from overlay_alignment [OF this segs ok room] show ?thesis
      using False Some by (simp add: append_or_overlay_routes_def)
  next
    case None
    let ?segs = "al_segments st"
    have c: "al_covered st = length (concat (map nd_rows ?segs))" "al_covered st \<le> n"
      "cov = placed 0 (concat (map nd_rows ?segs))"
      using h None by (simp_all add: alignment_holds_def)
    show ?thesis
    proof (cases "start = al_covered st")
      case True
      let ?st = "st\<lparr>al_segments := ?segs @ [a], al_covered := al_covered st + length (nd_rows a)\<rparr>"
      have "placed start (nd_rows a) ++ cov = placed 0 (concat (map nd_rows (?segs @ [a])))"
        using placed_append [of 0 "concat (map nd_rows ?segs)" "nd_rows a"] True c(1,3) by simp
      then have "alignment_holds n shape e (placed start (nd_rows a) ++ cov) ?st"
        using segs ok None c(1,2) room True by (simp add: alignment_holds_def)
      with True False None show ?thesis
        by (intro exI [of _ ?st]) (simp add: append_or_overlay_routes_def same_header_def started_def)
    next
      case False
      note new = False
      have ne: "?segs \<noteq> []" using first new c(1) None by (auto simp: started_def)
      obtain b where b: "materialize_route_segments n shape ?segs = Inr b" "buffer_holds n cov b"
        "rb_dtype b = nd_dtype (hd ?segs)" "rb_shape b = shape"
        using materialize_holds [OF _ segs, of n] c ne by auto
      have "moe_route_dtype e = Inr (rb_dtype b)"
        using segs ne b(3) by (simp add: route_array_ok_def)
      from overlay_alignment [OF b(2,4) this segs ok room] show ?thesis
        using new None b(1) \<open>nd_rows a \<noteq> []\<close> by (simp add: append_or_overlay_routes_def)
    qed
  qed
qed

section \<open>One choice\<close>

definition captured_rows :: "route_metadata \<Rightarrow> nat list list list" where
  "captured_rows md = (case md_routes md of Inl a \<Rightarrow> nd_rows a | Inr a \<Rightarrow> nd_rows a)"

text \<open>A capture that agrees with the example: its ids are the tokens, its length is allowed, its array valid.\<close>

definition capture_ok :: "int list \<Rightarrow> nat \<times> nat \<Rightarrow> int \<Rightarrow> route_metadata \<times> nat \<times> nat \<Rightarrow> bool" where
  "capture_ok token_ids shape n c \<longleftrightarrow>
     (let (md, offset, token_length) = c; k = length (take offset token_ids);
          m = length (slice token_ids offset (offset + token_length)) in
      normalize_token_ids (md_prompt_ids md) = Inr (take offset token_ids) \<and>
      completion_token_ids md = Inr (slice token_ids offset (offset + token_length)) \<and>
      (\<exists>a. metadata_routes md = Inr a \<and> route_array_ok shape n a) \<and> captured_rows md \<noteq> [] \<and>
      (length (captured_rows md) = k + m \<or> length (captured_rows md) = k + (m - 1)))"

lemma metadata_routes_rows: "metadata_routes md = Inr a \<Longrightarrow> nd_rows a = captured_rows md"
  by (auto simp: metadata_routes_def captured_rows_def new_route_array_def Let_def result_iffs nd_array.defs
      split: sum.splits)

lemma common_shape_ok:
  assumes "route_array_ok shape n a" "route_array_ok shape n b" "nd_rows a \<noteq> [] \<or> nd_rows b \<noteq> []"
  shows "common_route_shape [a, b] = Inr shape"
  using assms by (auto simp: common_route_shape_def route_array_ok_def)

definition header_ok :: "nat \<times> nat \<Rightarrow> int \<Rightarrow> alignment \<Rightarrow> bool" where
  "header_ok shape n st \<longleftrightarrow> al_shape st \<in> {None, Some shape} \<and> al_experts st \<in> {None, Some n}"

lemma fix_ok:
  assumes "header_ok shape n st"
  shows "fix_experts n st = Inr (st\<lparr>al_experts := Some n\<rparr>)" "fix_shape shape st = Inr (st\<lparr>al_shape := Some shape\<rparr>)"
  using assms by (auto simp: header_ok_def fix_experts_def fix_shape_def intro: alignment.equality)

lemma alignment_holds_header [simp]:
  "alignment_holds n shape e cov (st\<lparr>al_experts := x\<rparr>) = alignment_holds n shape e cov st"
  "alignment_holds n shape e cov (st\<lparr>al_shape := y\<rparr>) = alignment_holds n shape e cov st"
  "alignment_holds n shape e cov (st\<lparr>al_stats := z\<rparr>) = alignment_holds n shape e cov st"
  "alignment_holds n shape e cov (st\<lparr>al_saw_routing := u\<rparr>) = alignment_holds n shape e cov st"
  "routed_count (st\<lparr>al_stats := z\<rparr>) = routed_count st"
  by (cases "al_buffer st"; simp add: alignment_holds_def routed_count_def)+


lemma align_choice_holds:
  assumes h: "alignment_holds (length ts) shape n cov st" and hd: "header_ok shape n st"
    and c: "capture_ok ts shape n (md, offset, token_length)"
  shows "\<exists>st'. align_choice ts (Some md, offset, token_length) st = Inr st' \<and>
    alignment_holds (length ts) shape n (placed 0 (captured_rows md) ++ cov) st' \<and>
    al_shape st' = Some shape \<and> al_experts st' = Some n \<and> al_saw_routing st' \<and>
    al_saw_missing st' = al_saw_missing st \<and> started st' \<and>
    st_routed (al_stats st') = routed_count st' \<and> st_choices (al_stats st') = st_choices (al_stats st) + 1"
proof -
  let ?k = "length (take offset ts)" and ?m = "length (slice ts offset (offset + token_length))"
  let ?R = "captured_rows md"
  obtain a where ids: "normalize_token_ids (md_prompt_ids md) = Inr (take offset ts)"
      "completion_token_ids md = Inr (slice ts offset (offset + token_length))"
    and a: "metadata_routes md = Inr a" "route_array_ok shape n a" and ne: "?R \<noteq> []"
    and len: "length ?R = ?k + ?m \<or> length ?R = ?k + (?m - 1)"
    using c unfolding capture_ok_def Let_def prod.case by blast
  have ra: "nd_rows a = ?R" by (rule metadata_routes_rows [OF a(1)])
  let ?p = "nd_slice a 0 ?k" and ?c = "nd_slice a ?k (length ?R)"
  have rows: "nd_rows ?p = take ?k ?R" "nd_rows ?c = drop ?k ?R"
    by (simp_all add: nd_slice_def slice_def ra)
  have ok: "route_array_ok shape n ?p" "route_array_ok shape n ?c" by (rule nd_slice_ok [OF a(2)])+
  have kR: "?k \<le> length ?R" "length ?R \<le> length ts" using len by auto
  have split: "choice_routes md (take offset ts) ?m = Inr (?p, ?c)"
    using a(1) len by (simp add: choice_routes_def Let_def ra)
  have nonempty: "nd_rows ?p \<noteq> [] \<or> nd_rows ?c \<noteq> []"
    unfolding rows using ne by (cases ?R) auto
  have common: "common_route_shape [?p, ?c] = Inr shape"
    by (rule common_shape_ok [OF ok nonempty])
  let ?s1 = "st\<lparr>al_saw_routing := True, al_stats := (al_stats st)\<lparr>st_choices := st_choices (al_stats st) + 1\<rparr>\<rparr>"
  let ?s2 = "?s1\<lparr>al_stats := (al_stats ?s1)\<lparr>st_prompt_bytes := st_prompt_bytes (al_stats ?s1) + nd_bytes ?p,
    st_completion_bytes := st_completion_bytes (al_stats ?s1) + nd_bytes ?c\<rparr>\<rparr>"
  let ?s3 = "?s2\<lparr>al_experts := Some n\<rparr>"
  let ?s4 = "?s3\<lparr>al_shape := Some shape\<rparr>"
  have f3: "fix_experts (ra_experts ?p) ?s2 = Inr ?s3"
    using fix_ok(1) [of shape n ?s2] hd ok(1) by (simp add: header_ok_def route_array_ok_def)
  have f4: "fix_shape shape ?s3 = Inr ?s4"
    using fix_ok(2) [of shape n ?s3] hd by (simp add: header_ok_def)
  have h4: "alignment_holds (length ts) shape n cov ?s4" using h by simp
  obtain s5 where s5: "append_or_overlay_routes (length ts) shape 0 ?p ?s4 = Inr s5"
    "alignment_holds (length ts) shape n (placed 0 (take ?k ?R) ++ cov) s5" "same_header ?s4 s5"
    "nd_rows ?p \<noteq> [] \<longrightarrow> started s5"
    using append_holds [OF h4 ok(1), of 0] kR rows by auto
  have first: "offset = 0 \<or> started s5"
  proof (cases "offset = 0 \<or> ts = []")
    case True
    then show ?thesis using kR ne by auto
  next
    case False
    then have "nd_rows ?p \<noteq> []" using ne rows by auto
    with s5(4) show ?thesis by simp
  qed
  have room: "offset + length (nd_rows ?c) \<le> length ts \<or> nd_rows ?c = []"
    using kR len rows by (cases "offset \<le> length ts") (auto simp: min_def split: if_splits)
  have place: "placed offset (drop ?k ?R) ++ (placed 0 (take ?k ?R) ++ cov) = placed 0 ?R ++ cov"
  proof (cases "offset \<le> length ts")
    case True
    then have "?k = offset" by simp
    with placed_append [of 0 "take ?k ?R" "drop ?k ?R"] kR show ?thesis by simp
  next
    case False
    then have "drop ?k ?R = []" using kR by simp
    then have "take ?k ?R = ?R" by simp
    with \<open>drop ?k ?R = []\<close> show ?thesis by simp
  qed
  have "\<exists>s6. append_or_overlay_routes (length ts) shape offset ?c s5 = Inr s6 \<and>
    alignment_holds (length ts) shape n (placed offset (nd_rows ?c) ++ (placed 0 (take ?k ?R) ++ cov)) s6 \<and>
    same_header s5 s6 \<and> (started s5 \<or> nd_rows ?c \<noteq> [] \<longrightarrow> started s6)"
  proof (cases "nd_rows ?c = []")
    case True
    then show ?thesis using s5(2) by (simp add: append_or_overlay_routes_def same_header_def)
  next
    case False
    with room have "offset + length (nd_rows ?c) \<le> length ts" by blast
    from append_holds [OF s5(2) ok(2) this first] show ?thesis .
  qed
  then obtain s6 where s6: "append_or_overlay_routes (length ts) shape offset ?c s5 = Inr s6"
    "alignment_holds (length ts) shape n (placed 0 ?R ++ cov) s6" "same_header s5 s6"
    "started s5 \<or> nd_rows ?c \<noteq> [] \<longrightarrow> started s6"
    unfolding rows place by blast
  have st6: "started s6" using s5(4) s6(4) nonempty by blast
  have lens: "length (nd_rows ?p) = length (take offset ts)" "length (nd_rows ?c) \<in> {?m, ?m - 1}"
    using kR len rows by auto
  let ?s7 = "s6\<lparr>al_stats := (al_stats s6)\<lparr>st_routed := routed_count s6\<rparr>\<rparr>"
  have "align_choice ts (Some md, offset, token_length) st = Inr ?s7"
    by (simp only: align_choice_def Let_def prod.case option.case ids bindE_simps split f3 f4 common lens
        s5(1) s6(1) ensure_simps simp_thms)
  moreover have "same_header ?s4 s6" using s5(3) s6(3) by (simp add: same_header_def)
  ultimately show ?thesis using s6(2) st6 by (intro exI [of _ ?s7]) (simp add: same_header_def started_def)
qed

section \<open>The whole alignment\<close>

text \<open>
  The reference: a position has the routes of the first choice whose capture is long
  enough to reach it.
\<close>

definition captured :: "route_metadata list \<Rightarrow> coverage" where
  "captured mds t = map_option (\<lambda>md. captured_rows md ! t) (find (\<lambda>md. t < length (captured_rows md)) mds)"

fun routes_parts :: "moe_routes \<Rightarrow> route_array list" where
  "routes_parts (Whole a) = [a]"
| "routes_parts (Segmented segs) = segs"

definition routes_rows :: "moe_routes \<Rightarrow> nat list list list" where
  "routes_rows r = concat (map nd_rows (routes_parts r))"

definition completed :: "nat \<times> nat \<Rightarrow> int \<Rightarrow> coverage \<Rightarrow> nat \<Rightarrow> nat list list" where
  "completed shape n cov t = (case cov t of Some row \<Rightarrow> row | None \<Rightarrow> deterministic_row (fst shape) (snd shape) n t)"

lemma find_snoc: "find P (xs @ [x]) = (case find P xs of None \<Rightarrow> if P x then Some x else None | Some y \<Rightarrow> Some y)"
  by (induction xs) auto

lemma captured_snoc: "captured (mds @ [md]) = placed 0 (captured_rows md) ++ captured mds"
  by (rule ext) (auto simp: captured_def placed_def find_snoc map_add_def split: option.splits)

lemma captured_ok:
  assumes "\<forall>c \<in> set cs. capture_ok ts shape n c" and "captured (map fst cs) t = Some row"
  shows "t < length ts" "route_row_ok (fst shape) (snd shape) n row"
proof -
  obtain md where md: "find (\<lambda>md. t < length (captured_rows md)) (map fst cs) = Some md" "row = captured_rows md ! t"
    using assms(2) by (auto simp: captured_def)
  then have t: "t < length (captured_rows md)" "md \<in> set (map fst cs)"
    by (auto simp: find_Some_iff intro!: imageI nth_mem)
  then obtain offset len where "capture_ok ts shape n (md, offset, len)" using assms(1) by fastforce
  then obtain a where a: "metadata_routes md = Inr a" "route_array_ok shape n a"
    and len: "length (captured_rows md) \<le> length ts"
    unfolding capture_ok_def Let_def prod.case by fastforce
  show "t < length ts" using t(1) len by simp
  have "row \<in> set (nd_rows a)" using t(1) md(2) metadata_routes_rows [OF a(1)] by simp
  with a(2) show "route_row_ok (fst shape) (snd shape) n row" by (simp add: route_array_ok_def)
qed

definition routed :: "route_metadata \<times> nat \<times> nat \<Rightarrow> route_metadata option \<times> nat \<times> nat" where
  "routed c = (Some (fst c), snd c)"

lemma align_choices_hold:
  assumes "\<forall>c \<in> set cs. capture_ok ts shape n c" and "cs \<noteq> []"
    and "alignment_holds (length ts) shape n (captured before) st" and "header_ok shape n st"
  shows "\<exists>st'. foldE (align_choice ts) (map routed cs) st = Inr st' \<and>
    alignment_holds (length ts) shape n (captured (before @ map fst cs)) st' \<and>
    al_shape st' = Some shape \<and> al_experts st' = Some n \<and> al_saw_routing st' \<and>
    al_saw_missing st' = al_saw_missing st \<and> started st' \<and>
    st_routed (al_stats st') = routed_count st' \<and> st_choices (al_stats st') = st_choices (al_stats st) + length cs"
  using assms
proof (induction cs arbitrary: before st)
  case (Cons c cs)
  obtain md offset len where c: "c = (md, offset, len)" by (cases c)
  have "capture_ok ts shape n (md, offset, len)" using Cons.prems(1) c by simp
  from align_choice_holds [OF Cons.prems(3,4) this]
  obtain s1 where s1: "align_choice ts (Some md, offset, len) st = Inr s1"
    "alignment_holds (length ts) shape n (placed 0 (captured_rows md) ++ captured before) s1"
    "al_shape s1 = Some shape" "al_experts s1 = Some n" "al_saw_routing s1" "al_saw_missing s1 = al_saw_missing st"
    "started s1" "st_routed (al_stats s1) = routed_count s1" "st_choices (al_stats s1) = st_choices (al_stats st) + 1"
    by blast
  have h1: "alignment_holds (length ts) shape n (captured (before @ [md])) s1"
    using s1(2) by (simp only: captured_snoc)
  have first: "foldE (align_choice ts) (map routed (c # cs)) st = foldE (align_choice ts) (map routed cs) s1"
    using s1(1) by (simp add: c routed_def)
  show ?case
  proof (cases "cs = []")
    case True
    with s1 h1 first c show ?thesis by (intro exI [of _ s1]) simp
  next
    case False
    have "header_ok shape n s1" using s1(3,4) by (simp add: header_ok_def)
    from Cons.IH [OF _ False h1 this] Cons.prems(1) obtain s2 where
      "foldE (align_choice ts) (map routed cs) s1 = Inr s2"
      "alignment_holds (length ts) shape n (captured ((before @ [md]) @ map fst cs)) s2"
      "al_shape s2 = Some shape" "al_experts s2 = Some n" "al_saw_routing s2" "al_saw_missing s2 = al_saw_missing s1"
      "started s2" "st_routed (al_stats s2) = routed_count s2"
      "st_choices (al_stats s2) = st_choices (al_stats s1) + length cs"
      by auto
    then show ?thesis unfolding first using s1(6,9) c by (intro exI [of _ s2]) simp
  qed
qed simp

lemma new_route_segments_ok:
  assumes "segs \<noteq> []" and "\<forall>s \<in> set segs. route_array_ok shape n s"
  shows "new_route_segments segs = Inr (Segmented segs)"
proof -
  obtain d where d: "moe_route_dtype n = Inr d" using assms by (cases segs) (auto simp: route_array_ok_def)
  have each: "(ra_experts s, nd_dtype s, nd_layers s, nd_topk s) = (n, d, fst shape, snd shape)" if "s \<in> set segs" for s
    using assms(2) that d by (auto simp: route_array_ok_def)
  have "(\<lambda>s. (ra_experts s, nd_dtype s, nd_layers s, nd_topk s)) ` set segs = {(n, d, fst shape, snd shape)}"
    using each assms(1) by (simp add: image_constant_conv)
  with assms(1) show ?thesis by (simp add: new_route_segments_def)
qed

lemma count_covered:
  assumes "length xs = n" and "\<And>t. t < n \<Longrightarrow> xs ! t = P t"
  shows "length (filter id xs) = card {t. t < n \<and> P t}"
proof -
  have "length (filter id xs) = card {t. t < length xs \<and> id (xs ! t)}" by (rule length_filter_conv_card)
  also have "{t. t < length xs \<and> id (xs ! t)} = {t. t < n \<and> P t}" using assms by auto
  finally show ?thesis .
qed

lemma routed_count_card:
  assumes "alignment_holds m shape n cov st"
  shows "routed_count st = card {t. t < m \<and> cov t \<noteq> None}"
proof (cases "al_buffer st")
  case None
  then have c: "al_covered st = length (concat (map nd_rows (al_segments st)))" "al_covered st \<le> m"
    "cov = placed 0 (concat (map nd_rows (al_segments st)))"
    using assms by (simp_all add: alignment_holds_def)
  then have "{t. t < m \<and> cov t \<noteq> None} = {..<al_covered st}" by (auto simp: placed_def)
  with None show ?thesis by (simp add: routed_count_def)
next
  case (Some b)
  then have b: "buffer_holds m cov b" using assms by (simp add: alignment_holds_def)
  from count_covered [OF buffer_holdsD(2,3) [OF b]] Some show ?thesis by (simp add: routed_count_def)
qed

text \<open>Filling the positions nothing captured.\<close>

lemma foldl_updates:
  assumes "t < length rs" and "\<forall>p \<in> set ps. p < length rs"
  shows "length (foldl (\<lambda>rs (t, row). rs[t := g row]) rs (zip ps (map f ps))) = length rs \<and>
    foldl (\<lambda>rs (t, row). rs[t := g row]) rs (zip ps (map f ps)) ! t = (if t \<in> set ps then g (f t) else rs ! t)"
  using assms by (induction ps arbitrary: rs) (auto simp: nth_list_update)

lemma foldl_updates_length [simp]:
  "length (foldl (\<lambda>rs (t, row). rs[t := g row]) rs ps) = length rs"
  by (induction ps arbitrary: rs) auto

lemma fill_missing_completes:
  assumes b: "buffer_holds m cov b" and d: "moe_route_dtype n = Inr (rb_dtype b)" and shape: "rb_shape b = shape"
    "fst shape \<noteq> 0" "snd shape \<noteq> 0" "int (snd shape) \<le> n"
  shows "\<exists>b'. fill_missing_routes n b = Inr b' \<and> rb_rows b' = map (completed shape n cov) [0..<m] \<and>
    rb_dtype b' = rb_dtype b \<and> rb_shape b' = rb_shape b"
proof -
  let ?ps = "missing_positions (rb_mask b)"
  let ?f = "deterministic_row (fst shape) (snd shape) n"
  have ps: "set ?ps = {t. t < m \<and> cov t = None}"
    using buffer_holdsD(2,3) [OF b] by (auto simp: missing_positions_def)
  have n: "0 < n" using shape(3,4) by (cases "snd shape") auto
  have cast: "cast_row (rb_dtype b) (?f t) = ?f t" for t
    by (rule cast_row_ok [OF d deterministic_row_ok [OF shape(4) n]])
  let ?rows = "foldl (\<lambda>rs (t, row). rs[t := cast_row (rb_dtype b) row]) (rb_rows b) (zip ?ps (map ?f ?ps))"
  have rows: "?rows = map (completed shape n cov) [0..<m]"
  proof (rule nth_equalityI)
    show "length ?rows = length (map (completed shape n cov) [0..<m])" using buffer_holdsD(1) [OF b] by simp
    fix t assume "t < length ?rows"
    then have t: "t < m" using buffer_holdsD(1) [OF b] by simp
    have "?rows ! t = (if t \<in> set ?ps then cast_row (rb_dtype b) (?f t) else rb_rows b ! t)"
      using foldl_updates [of t "rb_rows b" ?ps "cast_row (rb_dtype b)" ?f] t ps buffer_holdsD(1) [OF b] by simp
    then show "?rows ! t = map (completed shape n cov) [0..<m] ! t"
      using t ps buffer_holdsD(4) [OF b t] by (auto simp: completed_def cast split: option.split)
  qed
  show ?thesis
  proof (cases "?ps = []")
    case True
    then have "rb_rows b = map (completed shape n cov) [0..<m]" using rows by simp
    with True show ?thesis by (simp add: fill_missing_routes_def)
  next
    case False
    with deterministic_moe_routes_ok(1) [OF d shape(2-4)] rows shape(1) show ?thesis
      by (simp add: fill_missing_routes_def Let_def)
  qed
qed

lemma capture_ok_shape:
  "capture_ok ts shape n c \<Longrightarrow> fst shape \<noteq> 0 \<and> snd shape \<noteq> 0 \<and> int (snd shape) \<le> n \<and> (\<exists>d. moe_route_dtype n = Inr d)"
  by (cases c) (auto simp: capture_ok_def Let_def route_array_ok_def)

lemma completed_ok:
  assumes "\<forall>c \<in> set cs. capture_ok ts shape n c" and "int (snd shape) \<le> n" "0 < n"
  shows "route_row_ok (fst shape) (snd shape) n (completed shape n (captured (map fst cs)) t)"
  using captured_ok(2) [OF assms(1)] deterministic_row_ok [OF assms(2,3)]
  by (auto simp: completed_def split: option.split)

lemma routes_rows_valid:
  assumes "routes_parts r \<noteq> []" and "\<forall>a \<in> set (routes_parts r). route_array_ok shape n a"
  shows "routes_experts r = n" "routes_shape r = (length (routes_rows r), shape)"
  using assms by (cases r; auto simp: routes_rows_def route_array_ok_def length_concat comp_def)+

lemma finish_buffer:
  assumes cs: "\<forall>c \<in> set cs. capture_ok ts shape n c" and ts: "ts \<noteq> []" and b: "al_buffer st = Some b"
    and h: "alignment_holds (length ts) shape n (captured (map fst cs)) st"
    and st: "al_experts st = Some n" "al_saw_routing st" "\<not> al_saw_missing st"
    and shape: "fst shape \<noteq> 0" "snd shape \<noteq> 0" "int (snd shape) \<le> n"
  shows "\<exists>a. finish_alignment (length ts) st = Inr (Some (Whole a), al_stats st) \<and> route_array_ok shape n a \<and>
    nd_rows a = map (completed shape n (captured (map fst cs))) [0..<length ts]"
proof -
  have hb: "buffer_holds (length ts) (captured (map fst cs)) b" "rb_shape b = shape" "moe_route_dtype n = Inr (rb_dtype b)"
    using h b by (simp_all add: alignment_holds_def)
  let ?rows = "map (completed shape n (captured (map fst cs))) [0..<length ts]"
  obtain b' where b': "fill_missing_routes n b = Inr b'" "rb_rows b' = ?rows" "rb_dtype b' = rb_dtype b" "rb_shape b' = shape"
    using fill_missing_completes [OF hb(1,3,2) shape] hb(2) by auto
  have n: "0 < n" using shape(2,3) by (cases "snd shape") auto
  let ?a = "\<lparr>nd_dtype = rb_dtype b', nd_layers = fst (rb_shape b'), nd_topk = snd (rb_shape b'), nd_rows = rb_rows b'\<rparr>"
  have rows: "\<forall>row \<in> set ?rows. route_row_ok (fst shape) (snd shape) n row"
    using completed_ok [OF cs shape(3) n] by auto
  then have "rectangular ?a" "nd_rows ?a \<noteq> []" "route_array_ok shape n (nd_array.extend ?a \<lparr>ra_experts = n\<rparr>)"
    using b' ts hb(3) shape
    by (simp_all add: rectangular_def route_row_ok_def route_array_ok_def nd_array.defs)
  then have new: "new_route_array ?a n = Inr (nd_array.extend ?a \<lparr>ra_experts = n\<rparr>)"
    using b'(4) by (subst new_route_array_iff) simp_all
  show ?thesis
    using st b b'(1,2) new \<open>route_array_ok shape n (nd_array.extend ?a \<lparr>ra_experts = n\<rparr>)\<close>
    by (simp add: finish_alignment_def nd_array.defs)
qed

lemma finish_segments:
  assumes cs: "\<forall>c \<in> set cs. capture_ok ts shape n c" and b: "al_buffer st = None"
    and h: "alignment_holds (length ts) shape n (captured (map fst cs)) st" and s: "started st"
    and st: "al_experts st = Some n" "al_shape st = Some shape" "al_saw_routing st" "\<not> al_saw_missing st"
    and shape: "fst shape \<noteq> 0" "snd shape \<noteq> 0" "int (snd shape) \<le> n" "moe_route_dtype n = Inr d"
  shows "\<exists>r stats. finish_alignment (length ts) st = Inr (Some r, stats) \<and> routes_parts r \<noteq> [] \<and>
    (\<forall>a \<in> set (routes_parts r). route_array_ok shape n a) \<and>
    routes_rows r = map (completed shape n (captured (map fst cs))) [0..<length ts] \<and>
    stats = (al_stats st)\<lparr>st_routed := st_routed stats\<rparr> \<and> st_routed stats \<in> {st_routed (al_stats st), routed_count st}"
proof -
  let ?segs = "al_segments st"
  have c: "al_covered st = length (concat (map nd_rows ?segs))" "al_covered st \<le> length ts"
      "captured (map fst cs) = placed 0 (concat (map nd_rows ?segs))" "\<forall>s \<in> set ?segs. route_array_ok shape n s"
    using h b by (simp_all add: alignment_holds_def)
  have ne: "?segs \<noteq> []" using s b by (simp add: started_def)
  have head: "concat (map nd_rows ?segs) = map (completed shape n (captured (map fst cs))) [0..<al_covered st]"
    using c(1) by (intro nth_equalityI) (simp_all add: completed_def c(3) placed_def)
  show ?thesis
  proof (cases "al_covered st = length ts")
    case full: True
    show ?thesis
    proof (cases "length ?segs = 1")
      case True
      then obtain a where "?segs = [a]" by (metis One_nat_def length_0_conv length_Suc_conv)
      with full st b c(4) head show ?thesis
        by (intro exI [of _ "Whole a"] exI [of _ "al_stats st"])
          (simp add: finish_alignment_def routes_rows_def)
    next
      case False
      with full st b c(4) head ne new_route_segments_ok [OF ne c(4)] show ?thesis
        by (intro exI [of _ "Segmented ?segs"] exI [of _ "al_stats st"])
          (simp add: finish_alignment_def routes_rows_def)
    qed
  next
    case False
    let ?f = "deterministic_row (fst shape) (snd shape) n"
    let ?a = "\<lparr>nd_dtype = d, nd_layers = fst shape, nd_topk = snd shape,
      nd_rows = map ?f [al_covered st..<length ts], ra_experts = n\<rparr>"
    note det = deterministic_moe_routes_ok [OF shape(4,1-3), of "[al_covered st..<length ts]"]
    have all: "\<forall>s \<in> set (?segs @ [?a]). route_array_ok shape n s" using c(4) det(2) by simp
    have "[0..<length ts] = [0..<al_covered st] @ [al_covered st..<length ts]"
      using c(2) upt_add_eq_append [of 0 "al_covered st" "length ts - al_covered st"] by simp
    moreover have "map ?f [al_covered st..<length ts] =
        map (completed shape n (captured (map fst cs))) [al_covered st..<length ts]"
      using c(1) by (intro map_cong) (simp_all add: completed_def c(3) placed_def)
    ultimately have rows: "concat (map nd_rows (?segs @ [?a])) = map (completed shape n (captured (map fst cs))) [0..<length ts]"
      using head by simp
    have new: "new_route_segments (?segs @ [?a]) = Inr (Segmented (?segs @ [?a]))"
      by (rule new_route_segments_ok [OF _ all]) simp
    let ?stats = "(al_stats st)\<lparr>st_routed := al_covered st\<rparr>"
    have "finish_alignment (length ts) st = Inr (Some (Segmented (?segs @ [?a])), ?stats)"
      using st b False det(1) new by (simp add: finish_alignment_def)
    moreover have "routed_count st = al_covered st" using b by (simp add: routed_count_def)
    ultimately show ?thesis using all rows
      by (intro exI [of _ "Segmented (?segs @ [?a])"] exI [of _ ?stats]) (simp add: routes_rows_def)
  qed
qed

lemma alignment_result:
  assumes cs: "\<forall>c \<in> set cs. capture_ok ts shape n c" and ne: "cs \<noteq> []"
  shows "\<exists>r stats. align_choice_routes ts (map (Some \<circ> fst) cs) (map (fst \<circ> snd) cs) (map (snd \<circ> snd) cs) = Inr (Some r, stats) \<and>
    routes_parts r \<noteq> [] \<and> (\<forall>a \<in> set (routes_parts r). route_array_ok shape n a) \<and>
    routes_rows r = map (completed shape n (captured (map fst cs))) [0..<length ts] \<and>
    st_choices stats = length cs \<and> st_routed stats = card {t. t < length ts \<and> captured (map fst cs) t \<noteq> None}"
proof -
  have shape: "fst shape \<noteq> 0" "snd shape \<noteq> 0" "int (snd shape) \<le> n" "\<exists>d. moe_route_dtype n = Inr d"
    using cs ne capture_ok_shape [of ts shape n "hd cs"] by auto
  have zip: "zip (map (Some \<circ> fst) cs) (zip (map (fst \<circ> snd) cs) (map (snd \<circ> snd) cs)) = map routed cs"
    by (induction cs) (auto simp: routed_def)
  have ts: "ts \<noteq> []"
  proof -
    have "capture_ok ts shape n (hd cs)" using cs ne by simp
    then show ?thesis by (cases "hd cs") (auto simp: capture_ok_def Let_def)
  qed
  have "alignment_holds (length ts) shape n (captured []) new_alignment"
    by (simp add: alignment_holds_def new_alignment_def captured_def fun_eq_iff)
  moreover have "header_ok shape n new_alignment" by (simp add: header_ok_def new_alignment_def)
  ultimately obtain st where st: "foldE (align_choice ts) (map routed cs) new_alignment = Inr st"
    "alignment_holds (length ts) shape n (captured (map fst cs)) st" "al_shape st = Some shape" "al_experts st = Some n"
    "al_saw_routing st" "al_saw_missing st = al_saw_missing new_alignment" "started st"
    "st_routed (al_stats st) = routed_count st" "st_choices (al_stats st) = st_choices (al_stats new_alignment) + length cs"
    using align_choices_hold [OF cs ne, of "[]" new_alignment] by auto
  have al: "align_choice_routes ts (map (Some \<circ> fst) cs) (map (fst \<circ> snd) cs) (map (snd \<circ> snd) cs) = finish_alignment (length ts) st"
    using st(1) by (simp add: align_choice_routes_def zip del: map_map)
  have miss: "\<not> al_saw_missing st" "st_choices (al_stats st) = length cs"
    using st(6,9) by (simp_all add: new_alignment_def)
  note count = routed_count_card [OF st(2)]
  show ?thesis
  proof (cases "al_buffer st")
    case (Some b)
    from finish_buffer [OF cs ts Some st(2,4,5) miss(1) shape(1-3)] obtain a where
      "finish_alignment (length ts) st = Inr (Some (Whole a), al_stats st)" "route_array_ok shape n a"
      "nd_rows a = map (completed shape n (captured (map fst cs))) [0..<length ts]" by blast
    then show ?thesis unfolding al using st(8) miss(2) count
      by (intro exI [of _ "Whole a"] exI [of _ "al_stats st"]) (simp add: routes_rows_def)
  next
    case None
    obtain d where d: "moe_route_dtype n = Inr d" using shape(4) by blast
    from finish_segments [OF cs None st(2,7,4,3,5) miss(1) shape(1-3) d] obtain r stats where
      r: "finish_alignment (length ts) st = Inr (Some r, stats)" "routes_parts r \<noteq> []"
        "\<forall>a \<in> set (routes_parts r). route_array_ok shape n a"
        "routes_rows r = map (completed shape n (captured (map fst cs))) [0..<length ts]"
      and stats: "stats = (al_stats st)\<lparr>st_routed := st_routed stats\<rparr>" "st_routed stats \<in> {st_routed (al_stats st), routed_count st}"
      by blast
    have "st_choices stats = length cs" using stats(1) miss(2) by (metis alignment_stats.simps(1) alignment_stats.surjective alignment_stats.update_convs(2))
    with r stats(2) st(8) count show ?thesis unfolding al by auto
  qed
qed

section \<open>Only consistent captures are accepted\<close>

text \<open>
  What the type of a route array promises: numpy arrays are rectangular, and a
  \<^verbatim>\<open>MoeRouteArray\<close> was validated when it was made.
\<close>

definition metadata_wf :: "route_metadata \<Rightarrow> bool" where
  "metadata_wf md = (case md_routes md of
     Inl a \<Rightarrow> rectangular a | Inr a \<Rightarrow> rectangular a \<and> validate_route_array a = Inr ())"

lemma metadata_routes_ok:
  assumes "metadata_wf md" and "metadata_routes md = Inr a" and "nd_rows a \<noteq> []"
  shows "route_array_ok (nd_layers a, nd_topk a) (ra_experts a) a"
proof (cases "md_routes md")
  case (Inr b)
  then have "rectangular a" "validate_route_array a = Inr ()"
    using assms(1,2) by (auto simp: metadata_wf_def metadata_routes_def ensure_Inr_iff)
  with validate_route_array_iff [OF _ assms(3)] show ?thesis by simp
next
  case (Inl b)
  then have b: "rectangular b" "new_route_array b (md_experts md) = Inr a"
    using assms(1,2) by (auto simp: metadata_wf_def metadata_routes_def)
  then have "nd_rows b \<noteq> []" "a = nd_array.extend b \<lparr>ra_experts = md_experts md\<rparr>"
    using assms(3) by (auto simp: new_route_array_def Let_def bindE_Inr_iff nd_array.defs)
  with new_route_array_iff [OF b(1), of "md_experts md" a] b(2) show ?thesis
    by (simp add: nd_array.defs)
qed

lemma append_same_header:
  "append_or_overlay_routes n shape start a st = Inr st' \<Longrightarrow> same_header st st'"
  by (auto simp: append_or_overlay_routes_def same_header_def bindE_Inr_iff split: if_splits option.splits)

lemma fix_experts_Inr: "fix_experts n st = Inr st' \<Longrightarrow> st' = st\<lparr>al_experts := Some n\<rparr> \<and> al_experts st \<in> {None, Some n}"
  by (auto simp: fix_experts_def ensure_Inr_iff split: option.splits intro: alignment.equality)

lemma fix_shape_Inr: "fix_shape s st = Inr st' \<Longrightarrow> st' = st\<lparr>al_shape := Some s\<rparr> \<and> al_shape st \<in> {None, Some s}"
  by (auto simp: fix_shape_def ensure_Inr_iff split: option.splits intro: alignment.equality)

lemma common_shape_Inr:
  assumes "common_route_shape [nd_slice a 0 k, nd_slice a k (length (nd_rows a))] = Inr s"
  shows "s = (nd_layers a, nd_topk a) \<and> nd_rows a \<noteq> []"
proof -
  have "nd_rows a \<noteq> []"
  proof
    assume "nd_rows a = []"
    then show False using assms by (simp add: common_route_shape_def nd_slice_def slice_def)
  qed
  then show ?thesis using assms
    by (auto simp: common_route_shape_def nd_slice_def bindE_Inr_iff ensure_Inr_iff split: if_splits option.splits)
qed

lemma align_choice_accepts:
  assumes wf: "metadata_wf md" and ok: "align_choice ts (Some md, offset, len) st = Inr st'"
  shows "\<exists>shape n. capture_ok ts shape n (md, offset, len) \<and> al_shape st' = Some shape \<and> al_experts st' = Some n \<and>
    al_shape st \<in> {None, Some shape} \<and> al_experts st \<in> {None, Some n} \<and> al_saw_missing st' = al_saw_missing st"
proof -
  let ?C = "slice ts offset (offset + len)"
  obtain p c pr cr s2 s3 s4 s5 s6 shape where ids: "normalize_token_ids (md_prompt_ids md) = Inr p" "completion_token_ids md = Inr c"
    and cr: "choice_routes md p (length c) = Inr (pr, cr)"
    and eq: "p = take offset ts" "c = ?C"
    and s2: "al_shape s2 = al_shape st" "al_experts s2 = al_experts st" "al_saw_missing s2 = al_saw_missing st"
    and fe: "fix_experts (ra_experts pr) s2 = Inr s3"
    and common: "common_route_shape [pr, cr] = Inr shape"
    and fs: "fix_shape shape s3 = Inr s4"
    and ap: "append_or_overlay_routes (length ts) shape 0 pr s4 = Inr s5"
      "append_or_overlay_routes (length ts) shape offset cr s5 = Inr s6"
    and st': "st' = s6\<lparr>al_stats := (al_stats s6)\<lparr>st_routed := routed_count s6\<rparr>\<rparr>"
  proof -
    assume that: "\<And>p c pr cr s2 s3 shape s4 s5 s6. normalize_token_ids (md_prompt_ids md) = Inr p \<Longrightarrow> completion_token_ids md = Inr c \<Longrightarrow>
      choice_routes md p (length c) = Inr (pr, cr) \<Longrightarrow> p = take offset ts \<Longrightarrow> c = ?C \<Longrightarrow>
      al_shape s2 = al_shape st \<Longrightarrow> al_experts s2 = al_experts st \<Longrightarrow> al_saw_missing s2 = al_saw_missing st \<Longrightarrow>
      fix_experts (ra_experts pr) s2 = Inr s3 \<Longrightarrow> common_route_shape [pr, cr] = Inr shape \<Longrightarrow>
      fix_shape shape s3 = Inr s4 \<Longrightarrow> append_or_overlay_routes (length ts) shape 0 pr s4 = Inr s5 \<Longrightarrow>
      append_or_overlay_routes (length ts) shape offset cr s5 = Inr s6 \<Longrightarrow>
      st' = s6\<lparr>al_stats := (al_stats s6)\<lparr>st_routed := routed_count s6\<rparr>\<rparr> \<Longrightarrow> thesis"
    from ok show thesis
      unfolding align_choice_def Let_def prod.case option.case
      apply (simp only: bindE_Inr_iff ensure_Inr_iff split_paired_Ex prod.case Inr_inject)
      apply (elim exE conjE)
      apply (rule that, assumption, assumption, assumption, assumption, assumption)
      prefer 4 apply assumption
      apply (simp_all, erule sym)
      done
  qed
  from cr obtain a where a: "metadata_routes md = Inr a" "pr = nd_slice a 0 (length p)"
      "cr = nd_slice a (length p) (length (nd_rows a))"
    and len: "length (nd_rows a) = length p + length c \<or> length (nd_rows a) = length p + (length c - 1)"
    unfolding choice_routes_def Let_def bindE_Inr_iff ensure_Inr_iff by auto
  have shape: "shape = (nd_layers a, nd_topk a)" "nd_rows a \<noteq> []"
    using common_shape_Inr [of a "length p" shape] common a(2,3) by simp_all
  have ok: "route_array_ok shape (ra_experts a) a"
    using metadata_routes_ok [OF wf a(1) shape(2)] shape(1) by simp
  have "capture_ok ts shape (ra_experts a) (md, offset, len)"
    using ids eq a(1) ok len shape(2) metadata_routes_rows [OF a(1)]
    by (auto simp: capture_ok_def Let_def)
  moreover have "same_header s4 s6"
    using append_same_header [OF ap(1)] append_same_header [OF ap(2)] by (simp add: same_header_def)
  moreover have "ra_experts pr = ra_experts a" using a(2) by (simp add: nd_slice_def)
  ultimately show ?thesis
    using fix_experts_Inr [OF fe] fix_shape_Inr [OF fs] s2 st' by (intro exI conjI) (auto simp: same_header_def)
qed

lemma align_choices_accept:
  assumes "\<forall>c \<in> set cs. \<forall>md. fst c = Some md \<longrightarrow> metadata_wf md"
    and "foldE (align_choice ts) cs st = Inr st'" and "\<not> al_saw_missing st'"
    and "al_shape st = Some shape \<and> al_experts st = Some n \<or> al_shape st = None \<and> al_experts st = None"
  shows "\<not> al_saw_missing st \<and> (cs = [] \<and> st' = st \<or> (\<exists>shape' n'. (\<forall>c \<in> set cs. \<exists>md. fst c = Some md \<and> capture_ok ts shape' n' (md, snd c)) \<and>
    (al_shape st = None \<or> shape' = shape \<and> n' = n)))"
  using assms
proof (induction cs arbitrary: st shape n)
  case Nil
  then show ?case by simp
next
  case (Cons c cs)
  obtain s1 where s1: "align_choice ts c st = Inr s1" "foldE (align_choice ts) cs s1 = Inr st'"
    using Cons.prems(2) by (auto simp: bindE_Inr_iff)
  show ?case
  proof (cases "fst c")
    case None
    then have "s1 = st\<lparr>al_saw_missing := True\<rparr>" using s1(1) by (cases c) (simp add: align_choice_def)
    with Cons.IH [OF _ s1(2) Cons.prems(3), of shape n] Cons.prems(1,4) show ?thesis by auto
  next
    case (Some md)
    obtain offset len where c: "c = (Some md, offset, len)" using Some by (cases c) auto
    have wf: "metadata_wf md" using Cons.prems(1) Some by simp
    from align_choice_accepts [OF wf s1(1) [unfolded c]] obtain shape' n' where
      *: "capture_ok ts shape' n' (md, offset, len)" "al_shape s1 = Some shape'" "al_experts s1 = Some n'"
        "al_shape st \<in> {None, Some shape'}" "al_experts st \<in> {None, Some n'}" "al_saw_missing s1 = al_saw_missing st"
      by blast
    have "\<not> al_saw_missing s1 \<and> (cs = [] \<and> st' = s1 \<or> (\<exists>shape'' n''. (\<forall>c \<in> set cs. \<exists>md. fst c = Some md \<and> capture_ok ts shape'' n'' (md, snd c)) \<and>
      (al_shape s1 = None \<or> shape'' = shape' \<and> n'' = n')))"
      using Cons.IH [OF _ s1(2) Cons.prems(3), of shape' n'] Cons.prems(1) *(2,3) by auto
    then have "\<forall>d \<in> set (c # cs). \<exists>md. fst d = Some md \<and> capture_ok ts shape' n' (md, snd d)"
      using *(1,2) c by auto
    moreover have "al_shape st = None \<or> shape' = shape \<and> n' = n" using *(4,5) Cons.prems(4) by auto
    moreover have "\<not> al_saw_missing st" using * \<open>\<not> al_saw_missing s1 \<and> _\<close> by simp
    ultimately show ?thesis by blast
  qed
qed

section \<open>The property of the alignment\<close>

definition consistent :: "int list \<Rightarrow> nat \<times> nat \<Rightarrow> int \<Rightarrow> (route_metadata option \<times> nat \<times> nat) list \<Rightarrow> bool" where
  "consistent ts shape n cs \<longleftrightarrow> cs \<noteq> [] \<and>
     (\<forall>c \<in> set cs. \<exists>md. fst c = Some md \<and> capture_ok ts shape n (md, snd c))"

definition align_all :: "int list \<Rightarrow> (route_metadata option \<times> nat \<times> nat) list \<Rightarrow> (moe_routes option \<times> alignment_stats) result" where
  "align_all ts cs = align_choice_routes ts (map fst cs) (map (fst \<circ> snd) cs) (map (snd \<circ> snd) cs)"

lemma consistent_result:
  assumes "consistent ts shape n cs"
  shows "\<exists>r stats. align_all ts cs = Inr (Some r, stats) \<and>
    routes_experts r = n \<and> routes_shape r = (length ts, shape) \<and>
    (\<forall>a \<in> set (routes_parts r). route_array_ok shape n a) \<and>
    routes_rows r = map (completed shape n (captured (map (the \<circ> fst) cs))) [0..<length ts] \<and>
    st_choices stats = length cs \<and> st_routed stats = card {t. t < length ts \<and> captured (map (the \<circ> fst) cs) t \<noteq> None}"
proof -
  let ?ds = "map (\<lambda>c. (the (fst c), snd c)) cs"
  have ds: "\<forall>c \<in> set ?ds. capture_ok ts shape n c" "?ds \<noteq> []" using assms by (auto simp: consistent_def)
  have some: "map fst cs = map (Some \<circ> fst) ?ds" using assms by (auto simp: consistent_def)
  have al: "align_all ts cs = align_choice_routes ts (map (Some \<circ> fst) ?ds) (map (fst \<circ> snd) ?ds) (map (snd \<circ> snd) ?ds)"
    unfolding align_all_def some by (simp add: comp_def)
  have fsts: "map fst ?ds = map (the \<circ> fst) cs" by simp
  from alignment_result [OF ds, unfolded fsts length_map] obtain r stats where r: "align_all ts cs = Inr (Some r, stats)" "routes_parts r \<noteq> []"
    "\<forall>a \<in> set (routes_parts r). route_array_ok shape n a"
    "routes_rows r = map (completed shape n (captured (map (the \<circ> fst) cs))) [0..<length ts]"
    "st_choices stats = length cs" "st_routed stats = card {t. t < length ts \<and> captured (map (the \<circ> fst) cs) t \<noteq> None}"
    unfolding al by blast
  with routes_rows_valid [OF r(2,3)] show ?thesis by simp
qed

lemma accepted_consistent:
  assumes wf: "\<forall>c \<in> set cs. \<forall>md. fst c = Some md \<longrightarrow> metadata_wf md" and ok: "align_all ts cs = Inr (Some r, stats)"
  shows "\<exists>shape n. consistent ts shape n cs"
proof -
  have "zip (map fst cs) (zip (map (fst \<circ> snd) cs) (map (snd \<circ> snd) cs)) = cs"
    by (induction cs) auto
  with ok obtain st where st: "foldE (align_choice ts) cs new_alignment = Inr st" "finish_alignment (length ts) st = Inr (Some r, stats)"
    by (auto simp: align_all_def align_choice_routes_def bindE_Inr_iff)
  have saw: "al_saw_routing st" "\<not> al_saw_missing st"
    using st(2) by (auto simp: finish_alignment_def ensure_Inr_iff split: if_splits)
  have "cs \<noteq> []" using st(1) saw(1) by (auto simp: new_alignment_def)
  with align_choices_accept [OF wf st(1) saw(2), of undefined undefined] show ?thesis
    by (auto simp: new_alignment_def consistent_def)
qed

text \<open>
  C36. Aligning captured routes is exact.  It returns routes iff there is a choice and
  the choices are consistent: each carries a capture whose prompt and completion ids are
  the tokens, whose length covers the prompt and all of the completion but at most its
  last token, and all are valid for the same experts, layers and top-k; every
  inconsistency raises.  The routes then cover every token: a token has the routes of the
  first choice whose capture reaches it, whatever path (segments kept apart, copied
  together late, or overlaid) brought them there, and otherwise the deterministic ones;
  every part holds distinct experts in range; and the statistics count the choices and
  the tokens that were captured.
\<close>

theorem route_alignment_exact:
  assumes "\<forall>c \<in> set cs. \<forall>md. fst c = Some md \<longrightarrow> metadata_wf md"
  shows "((\<exists>r stats. align_all ts cs = Inr (Some r, stats)) \<longleftrightarrow> (\<exists>shape n. consistent ts shape n cs)) \<and>
    (\<forall>shape n. consistent ts shape n cs \<longrightarrow>
      (\<exists>r stats. align_all ts cs = Inr (Some r, stats) \<and>
        routes_experts r = n \<and> routes_shape r = (length ts, shape) \<and>
        (\<forall>a \<in> set (routes_parts r). route_array_ok shape n a) \<and>
        routes_rows r = map (completed shape n (captured (map (the \<circ> fst) cs))) [0..<length ts] \<and>
        st_choices stats = length cs \<and>
        st_routed stats = card {t. t < length ts \<and> captured (map (the \<circ> fst) cs) t \<noteq> None}))"
proof (intro conjI allI impI iffI)
  assume "\<exists>r stats. align_all ts cs = Inr (Some r, stats)"
  then show "\<exists>shape n. consistent ts shape n cs" using accepted_consistent [OF assms] by blast
next
  assume "\<exists>shape n. consistent ts shape n cs"
  then show "\<exists>r stats. align_all ts cs = Inr (Some r, stats)" by (elim exE) (drule consistent_result, blast)
qed (rule consistent_result)

text \<open>A second turn whose prompt routes the end of the first answer again.\<close>

definition second_metadata :: route_metadata where
  "second_metadata = \<lparr>md_prompt_ids = Ids [5, 6, 7, 8, 9], md_completion_ids = [(''token_ids'', Ids [3])],
     md_routes = Inl \<lparr>nd_dtype = Uint8, nd_layers = 1, nd_topk = 2,
       nd_rows = [[[1, 2]], [[1, 2]], [[1, 2]], [[0, 2]], [[2, 3]]]\<rparr>, md_experts = 4\<rparr>"

lemma example_captures_consistent:
  "consistent [5, 6, 7, 8, 9, 3] (1, 2) 4 [(Some example_metadata, 2, 2), (Some second_metadata, 5, 1)]"
proof -
  have v: "route_array_ok (1, 2) 4 \<lparr>nd_dtype = Uint8, nd_layers = 1, nd_topk = 2, nd_rows = [[[0, 1]], [[2, 1]], [[3, 0]]], ra_experts = 4\<rparr>"
    by (simp add: route_array_ok_def moe_route_dtype_def route_row_ok_def)
  have "route_array_ok (1, 2) 4 \<lparr>nd_dtype = Uint8, nd_layers = 1, nd_topk = 2,
      nd_rows = [[[1, 2]], [[1, 2]], [[1, 2]], [[0, 2]], [[2, 3]]], ra_experts = 4\<rparr>"
    by (simp add: route_array_ok_def moe_route_dtype_def route_row_ok_def)
  then have "new_route_array \<lparr>nd_dtype = Uint8, nd_layers = 1, nd_topk = 2,
      nd_rows = [[[1, 2]], [[1, 2]], [[1, 2]], [[0, 2]], [[2, 3]]]\<rparr> 4 =
      Inr \<lparr>nd_dtype = Uint8, nd_layers = 1, nd_topk = 2, nd_rows = [[[1, 2]], [[1, 2]], [[1, 2]], [[0, 2]], [[2, 3]]], ra_experts = 4\<rparr>"
    by (subst new_route_array_iff) (simp_all add: rectangular_def nd_array.defs)
  with v show ?thesis
    by (auto simp: consistent_def capture_ok_def Let_def example_metadata_def second_metadata_def completion_token_ids_def
      metadata_routes_def captured_rows_def slice_def route_array_ok_def moe_route_dtype_def route_row_ok_def)
qed

theorem route_alignment_exact_witness:
  "\<exists>r stats. align_all [5, 6, 7, 8, 9, 3] [(Some example_metadata, 2, 2), (Some second_metadata, 5, 1)] = Inr (Some r, stats) \<and>
    take 5 (routes_rows r) = [[[0, 1]], [[2, 1]], [[3, 0]], [[0, 2]], [[2, 3]]] \<and> length (routes_rows r) = 6 \<and> st_choices stats = 2"
proof -
  let ?cs = "[(Some example_metadata, 2, 2), (Some second_metadata, 5, 1)] :: (route_metadata option \<times> nat \<times> nat) list"
  have "\<forall>c \<in> set ?cs. \<forall>md. fst c = Some md \<longrightarrow> metadata_wf md"
    by (simp add: metadata_wf_def example_metadata_def second_metadata_def rectangular_def validate_route_array_iff
      route_array_ok_def moe_route_dtype_def route_row_ok_def)
  from route_alignment_exact [OF this, of "[5, 6, 7, 8, 9, 3]"] example_captures_consistent
  obtain r stats where r: "align_all [5, 6, 7, 8, 9, 3] ?cs = Inr (Some r, stats)" "st_choices stats = length ?cs"
    "routes_rows r = map (completed (1, 2) 4 (captured (map (the \<circ> fst) ?cs))) [0..<length [5, 6, 7, 8, 9, 3 :: int]]"
    by blast
  have "[0..<length [5, 6, 7, 8, 9, 3 :: int]] = [0, 1, 2, 3, 4, 5]" by (simp add: upt_rec)
  with r show ?thesis
    by (simp add: completed_def captured_def captured_rows_def example_metadata_def second_metadata_def)
qed

end
