(* ===== verification/Rl_Pack.thy ===== *)
theory Rl_Pack
  imports Complex_Main Pack_Rows Row_Arrays Moe_Routes
begin

text \<open>
  The rest of \<^verbatim>\<open>src/art/preprocessing/pack.py\<close>: tokenized trajectories packed into
  rows for reinforcement learning.  A segment several trajectories share is stored once,
  so it may hold no token any of them is trained on.
\<close>

section \<open>Items\<close>

text \<open>
  \<^verbatim>\<open>TokenizedResult\<close>, as far as packing reads it.  Log probabilities are of an
  abstract type \<open>'l\<close>; advantages and weights of a type \<open>'w\<close>; the image tensors of a
  trajectory are a list of patches.
\<close>

record ('l, 'w) tokenized_result =
  tr_token_ids :: "int list"
  tr_input_pos :: "int list"
  tr_assistant_mask :: "bool list"
  tr_logprobs :: "'l list"
  tr_advantage :: 'w
  tr_weight :: 'w
  tr_prompt_id :: int
  tr_prompt_length :: nat
  tr_pixel_values :: "int list list option"
  tr_image_grid :: "int list list option"
  tr_routes :: "moe_routes option"

record ('l, 'w) rl_item = tree_sequence +
  it_input_pos :: "int list"
  it_mask :: "bool list"
  it_logprobs :: "'l list"
  it_advantage :: 'w
  it_weight :: 'w
  it_pixel_values :: "int list list option"
  it_image_grid :: "int list list option"
  it_routes :: "moe_routes option"

fun first_trainable_token_index :: "bool list \<Rightarrow> nat" where
  "first_trainable_token_index [] = 0"
| "first_trainable_token_index (b # bs) = (if b then 0 else Suc (first_trainable_token_index bs))"

definition prefix_tree_shareable_length :: "nat \<Rightarrow> bool list \<Rightarrow> int" where
  "prefix_tree_shareable_length prompt_length assistant_mask =
     min (int prompt_length) (max (int (first_trainable_token_index assistant_mask) - 1) 0)"

definition validate_item :: "('l, 'w) rl_item \<Rightarrow> unit result" where
  "validate_item item =
     (let n = length (sq_tokens item) in
      ensure (length (it_input_pos item) = n) (RuntimeError ''Prefix-tree packing input_pos must have shape'')
     (ensure (length (it_mask item) = n) (RuntimeError ''Prefix-tree packing assistant_mask must have shape'')
     (ensure (length (it_logprobs item) = n) (RuntimeError ''Prefix-tree packing logprobs must have shape'')
     (ensure (\<not> sq_shareable item > int n) (RuntimeError ''Prefix-tree shareable length exceeds token count'')
     (ensure (case it_routes item of None \<Rightarrow> True | Some r \<Rightarrow> fst (routes_shape r) = n)
        (RuntimeError ''Prefix-tree MoE route token count does not match token IDs'') (Inr ()))))))"

text \<open>The routes are not cut: only the source slices of the plan are read from them.\<close>

definition truncate_item :: "nat \<Rightarrow> ('l, 'w) rl_item \<Rightarrow> ('l, 'w) rl_item" where
  "truncate_item seq_len item =
     (if length (sq_tokens item) \<le> seq_len then item
      else item\<lparr>sq_tokens := take seq_len (sq_tokens item), sq_shareable := min (sq_shareable item) (int seq_len),
        it_input_pos := take seq_len (it_input_pos item), it_mask := take seq_len (it_mask item),
        it_logprobs := take seq_len (it_logprobs item)\<rparr>)"

definition item_of :: "('l, 'w) tokenized_result \<Rightarrow> ('l, 'w) rl_item" where
  "item_of r = \<lparr>sq_tokens = tr_token_ids r,
     sq_shareable = prefix_tree_shareable_length (tr_prompt_length r) (tr_assistant_mask r),
     sq_prompt = tr_prompt_id r, it_input_pos = tr_input_pos r, it_mask = tr_assistant_mask r,
     it_logprobs = tr_logprobs r, it_advantage = tr_advantage r, it_weight = tr_weight r,
     it_pixel_values = tr_pixel_values r, it_image_grid = tr_image_grid r, it_routes = tr_routes r\<rparr>"

definition prefix_tree_pack_item :: "nat \<Rightarrow> ('l, 'w) tokenized_result \<Rightarrow> ('l, 'w) rl_item result" where
  "prefix_tree_pack_item seq_len r =
     bindE (validate_item (item_of r)) (\<lambda>_. Inr (truncate_item seq_len (item_of r)))"

text \<open>
  The loop over the results: too long ones are skipped unless they may be cut, and so are
  those without a trainable token after the prompt.
\<close>

definition collect_item :: "nat \<Rightarrow> bool \<Rightarrow> bool \<Rightarrow> ('l, 'w) tokenized_result \<Rightarrow> ('l, 'w) rl_item list \<Rightarrow> ('l, 'w) rl_item list result" where
  "collect_item seq_len truncate_long include_moe r items =
     (if length (tr_token_ids r) > seq_len \<and> \<not> truncate_long then Inr items
      else ensure (\<not> (include_moe \<and> tr_routes r = None))
        (RuntimeError ''MoE routing replay from trajectories was requested'')
     (if \<not> list_ex id (drop (tr_prompt_length r) (tr_assistant_mask r)) then Inr items
      else bindE (prefix_tree_pack_item seq_len r) (\<lambda>item.
        Inr (items @ [if truncate_long then truncate_item seq_len item else item]))))"

section \<open>Routes in a row\<close>

text \<open>
  A row of routes: per position one list per layer.  \<open>route_tensor[:, a:b] = ...\<close> is a
  slice assignment over the positions.  An empty slice copies nothing.
\<close>

fun copy_segmented :: "nat \<Rightarrow> nat \<Rightarrow> nat \<times> nat \<Rightarrow> (nat \<times> route_array) list \<Rightarrow> nat \<Rightarrow> nat list list list
    \<Rightarrow> (nat \<times> nat list list list) result" where
  "copy_segmented dst_start src_start shape [] covered_until row = Inr (covered_until, row)"
| "copy_segmented dst_start src_start shape ((segment_start, a) # slices) covered_until row =
     ensure (segment_start = covered_until) (RuntimeError ''Segmented MoE routes did not cover packed source slice'')
    (ensure ((nd_layers a, nd_topk a) = shape) (RuntimeError ''Packed MoE routes must have one rectangular shape'')
    (let d = dst_start + segment_start - src_start; m = length (nd_rows a) in
     bindE (write_slice row d (d + m) (nd_rows a)) (\<lambda>row.
     copy_segmented dst_start src_start shape slices (segment_start + m) row)))"

definition copy_moe_route_slice :: "nat \<Rightarrow> nat \<Rightarrow> nat \<Rightarrow> moe_routes \<Rightarrow> nat \<times> nat \<Rightarrow> nat list list list \<Rightarrow> nat list list list result" where
  "copy_moe_route_slice dst_start src_start src_end routes shape row =
     (if src_end \<le> src_start then Inr row
      else case routes of
        Segmented segs \<Rightarrow>
          bindE (copy_segmented dst_start src_start shape (iter_slices src_start src_end 0 segs) src_start row) (\<lambda>(covered_until, row).
          ensure (covered_until = src_end) (RuntimeError ''Segmented MoE routes did not cover packed source slice'') (Inr row))
      | Whole a \<Rightarrow>
          bindE (moe_route_dtype (ra_experts a)) (\<lambda>d.
          ensure (nd_dtype a = d) (RuntimeError ''Packed MoE routes use the wrong exact ID dtype'')
         (let part = nd_slice a src_start src_end in
          ensure ((nd_layers part, nd_topk part) = shape) (RuntimeError ''Packed MoE routes must have one rectangular shape'')
          (write_slice row dst_start (dst_start + length (nd_rows part)) (nd_rows part)))))"

text \<open>
  The set of contracts of the packed routes; \<open>Inr None\<close> when nothing was routed.  The
  entries are the number of experts, the layers and the top-k.
\<close>

definition moe_route_contract :: "('l, 'w) rl_item list list \<Rightarrow> (int \<times> nat \<times> nat) option result" where
  "moe_route_contract batch =
     (let contracts = remdups [(routes_experts r, snd (routes_shape r)).
          row \<leftarrow> batch, item \<leftarrow> row, r \<leftarrow> (case it_routes item of None \<Rightarrow> [] | Some r \<Rightarrow> [r]), fst (routes_shape r) > 0] in
      ensure (\<not> length contracts > 1) (RuntimeError ''Packed MoE routes must share one exact contract'')
        (Inr (case contracts of [] \<Rightarrow> None | c # _ \<Rightarrow> Some c)))"

section \<open>Filling a row\<close>

record ('l, 'w) rl_row =
  rl_tokens :: "int list"
  rl_group_ids :: "int list"
  rl_parent_ids :: "int list"
  rl_input_pos :: "int list"
  rl_mask :: "bool list"
  rl_logprobs :: "'l list"
  rl_advantages :: "'w list"
  rl_weights :: "'w list"
  rl_routes :: "nat list list list"

definition validate_shared_segment :: "('l, 'w) rl_item list \<Rightarrow> nat list \<Rightarrow> nat \<Rightarrow> nat \<Rightarrow> unit result" where
  "validate_shared_segment row indices src_start src_end =
     (let reference = row ! hd indices in
      foldE (\<lambda>k _.
        ensure (k < length row) IndexError
       (let item = row ! k in
        ensure (\<not> int src_end > sq_shareable item)
          (RuntimeError ''Prefix-tree pack attempted to share a trainable token'')
       (ensure (slice (it_input_pos item) src_start src_end = slice (it_input_pos reference) src_start src_end)
          (RuntimeError ''Prefix-tree pack cannot share mismatched input positions'')
       (ensure ((it_routes item = None) = (it_routes reference = None))
          (RuntimeError ''Prefix-tree shared routes are incomplete'') (Inr ()))))) indices ())"

text \<open>
  One segment, \<open>shape\<close> being \<open>Some\<close> shape of the routes when routes are packed.  A
  segment past the planned length is skipped, one that crosses it is cut.
\<close>

definition write_segment :: "('l, 'w) rl_item list \<Rightarrow> nat \<Rightarrow> (nat \<times> nat) option \<Rightarrow> pack_segment
    \<Rightarrow> ('l, 'w) rl_row \<Rightarrow> ('l, 'w) rl_row result" where
  "write_segment row plan_len shape s out =
     (let dst_start = packed_start s in
      if dst_start \<ge> plan_len then Inr out
      else let segment_length = min (seg_length s) (plan_len - dst_start); dst_end = dst_start + segment_length;
        src_start = seg_start s; src_end = src_start + segment_length in
      ensure (sequence_indices s \<noteq> [] \<and> hd (sequence_indices s) < length row) IndexError
     (let item = row ! hd (sequence_indices s) in
      bindE (write_slice (rl_tokens out) dst_start dst_end (slice (sq_tokens item) src_start src_end)) (\<lambda>tokens.
      bindE (write_slice (rl_input_pos out) dst_start dst_end (slice (it_input_pos item) src_start src_end)) (\<lambda>pos.
      bindE (write_slice (rl_mask out) dst_start dst_end (slice (it_mask item) src_start src_end)) (\<lambda>msk.
      bindE (write_slice (rl_logprobs out) dst_start dst_end (slice (it_logprobs item) src_start src_end)) (\<lambda>lps.
      let out = out\<lparr>rl_tokens := tokens, rl_group_ids := fill_slice (rl_group_ids out) dst_start dst_end (group_id s),
        rl_parent_ids := fill_slice (rl_parent_ids out) dst_start dst_end (parent_id s),
        rl_input_pos := pos, rl_mask := msk, rl_logprobs := lps,
        rl_advantages := fill_slice (rl_advantages out) dst_start dst_end (it_advantage item),
        rl_weights := fill_slice (rl_weights out) dst_start dst_end (it_weight item)\<rparr> in
      bindE (if length (sequence_indices s) > 1
             then validate_shared_segment row (sequence_indices s) src_start src_end else Inr ()) (\<lambda>_.
      case shape of
        None \<Rightarrow> Inr out
      | Some sh \<Rightarrow>
          (case it_routes item of
             None \<Rightarrow> Inl (AssertionError '''')
           | Some r \<Rightarrow> bindE (copy_moe_route_slice dst_start src_start src_end r sh (rl_routes out)) (\<lambda>routes.
               Inr (out\<lparr>rl_routes := routes\<rparr>))))))))))"

text \<open>The preallocated row; \<open>nan\<close> is the log probability of a cell no segment covers.\<close>

definition blank_row :: "nat \<Rightarrow> int \<Rightarrow> 'l \<Rightarrow> nat list list list \<Rightarrow> ('l, 'w::zero) rl_row" where
  "blank_row n pad nan padding = \<lparr>rl_tokens = replicate n pad, rl_group_ids = replicate n (- 1),
     rl_parent_ids = replicate n (- 1), rl_input_pos = replicate n 0, rl_mask = replicate n False,
     rl_logprobs = replicate n nan, rl_advantages = replicate n 0, rl_weights = replicate n 0, rl_routes = padding\<rparr>"

definition materialize_prefix_tree_row :: "(nat \<times> nat) option \<Rightarrow> ('l, 'w) rl_row \<Rightarrow> ('l, 'w) rl_item list \<times> row_plan
    \<Rightarrow> ('l, 'w) rl_row result" where
  "materialize_prefix_tree_row shape blank r =
     foldE (write_segment (fst r) (rp_length (snd r)) shape) (rp_segments (snd r)) blank"

text \<open>
  The images of a row: an item that shares a prompt brings the images of the prompt only
  once.  \<open>attr\<close> selects one of the two tensors.
\<close>

fun row_tensor_parts :: "(('l, 'w) rl_item \<Rightarrow> int list list option) \<Rightarrow> int set \<Rightarrow> ('l, 'w) rl_item list \<Rightarrow> int list list list" where
  "row_tensor_parts attr seen [] = []"
| "row_tensor_parts attr seen (item # row) =
     (case attr item of
        None \<Rightarrow> row_tensor_parts attr seen row
      | Some t \<Rightarrow>
          if sq_shareable item > 0 then
            if sq_prompt item \<in> seen then row_tensor_parts attr seen row
            else t # row_tensor_parts attr (insert (sq_prompt item) seen) row
          else t # row_tensor_parts attr seen row)"

definition packed_row_tensor_list :: "(('l, 'w) rl_item \<Rightarrow> int list list option) \<Rightarrow> ('l, 'w) rl_item list \<Rightarrow> int list list option" where
  "packed_row_tensor_list attr row =
     (let parts = row_tensor_parts attr {} row in if parts \<noteq> [] then Some (concat parts) else None)"

section \<open>Weights and advantages of the batch\<close>

text \<open>
  A tensor is the list of its rows.  \<open>selected m x\<close> is \<open>x[m]\<close>.  In a field the mean
  of weights that sum to zero divides to zero, where floats give \<open>nan\<close>.
\<close>

definition selected :: "bool list list \<Rightarrow> 'w list list \<Rightarrow> 'w list" where
  "selected m x = map snd (filter fst (zip (concat m) (concat x)))"

definition mean :: "'w::field list \<Rightarrow> 'w" where
  "mean xs = sum_list xs / of_nat (length xs)"

definition zero_unless :: "bool list list \<Rightarrow> 'w::zero list list \<Rightarrow> 'w list list" where
  "zero_unless m x = map2 (map2 (\<lambda>b v. if b then v else 0)) m x"

definition divide_selected :: "bool list list \<Rightarrow> 'w::field \<Rightarrow> 'w list list \<Rightarrow> 'w list list" where
  "divide_selected m d x = map2 (map2 (\<lambda>b v. if b then v / d else v)) m x"

definition any_trainable :: "bool list list \<Rightarrow> bool" where
  "any_trainable m = list_ex (list_ex id) m"

definition normalized_weights :: "bool list list \<Rightarrow> 'w::linordered_field list list \<Rightarrow> 'w list list" where
  "normalized_weights m w =
     (let w = zero_unless m w in
      if any_trainable m then divide_selected m (mean (selected m w)) w else w)"

definition balanced_advantages :: "'w::linordered_field \<Rightarrow> 'w list list \<Rightarrow> 'w list list" where
  "balanced_advantages balance a =
     (if balance > 0 then map (map (\<lambda>v. if v > 0 then v else v * (1 - balance))) a
      else if balance < 0 then map (map (\<lambda>v. if v < 0 then v else v * (1 + balance))) a
      else a)"

definition normalized_advantages :: "bool list list \<Rightarrow> 'w::linordered_field \<Rightarrow> 'w list list \<Rightarrow> 'w list list \<Rightarrow> 'w list list" where
  "normalized_advantages m balance w a =
     (let a = balanced_advantages balance (zero_unless m a) in
      if any_trainable m
      then divide_selected m (mean (map2 (\<lambda>v u. \<bar>v\<bar> * u) (selected m a) (selected m w))) a
      else a)"

section \<open>The packed batch\<close>

record ('l, 'w) packed_tensors =
  pk_rows :: "('l, 'w) rl_row list"
  pk_weights :: "'w list list"
  pk_advantages :: "'w list list"
  pk_pixel_values :: "int list list option list"
  pk_image_grid :: "int list list option list"
  pk_experts :: "int option"
  pk_logical_tokens :: nat
  pk_physical_tokens :: nat

record 'w pack_options =
  op_seq_len :: nat
  op_pad_token :: int
  op_truncate :: bool
  op_balance :: 'w
  op_pack_results :: bool
  op_include_moe :: bool
  op_min_shared :: int

text \<open>The routes of the padding, and the checks of \<^verbatim>\<open>PackedMoeRoutingReplay\<close>.\<close>

definition route_padding :: "bool \<Rightarrow> nat \<Rightarrow> ('l, 'w) rl_item list list \<Rightarrow> ((int \<times> nat \<times> nat) option \<times> nat list list list) result" where
  "route_padding include_moe seq_len batch =
     (if \<not> include_moe then Inr (None, [])
      else bindE (moe_route_contract batch) (\<lambda>contract.
        case contract of
          None \<Rightarrow> Inl (RuntimeError ''No MoE routes were packed'')
        | Some (n, shape) \<Rightarrow>
            bindE (deterministic_moe_routes [0..<seq_len] shape n) (\<lambda>padding.
            Inr (Some (n, shape), nd_rows padding))))"

definition check_replay :: "nat \<Rightarrow> (int \<times> nat \<times> nat) option \<Rightarrow> unit result" where
  "check_replay seq_len contract =
     (case contract of
        None \<Rightarrow> Inr ()
      | Some (n, layers, topk) \<Rightarrow>
          ensure (0 < layers \<and> 0 < seq_len \<and> 0 < topk) (RuntimeError ''expert_indices axes must be non-empty'')
         (ensure (int topk \<le> n) (RuntimeError ''MoE routing topk cannot exceed num_experts'') (Inr ())))"

text \<open>
  \<open>shuffle n\<close> is the order \<^verbatim>\<open>random.Random(n).shuffle\<close> puts \<open>n\<close> rows in.
\<close>

definition pack_tokenized_results :: "'l \<Rightarrow> (nat \<Rightarrow> nat list) \<Rightarrow> ('w::linordered_field) pack_options \<Rightarrow> ('l, 'w) tokenized_result list
    \<Rightarrow> ('l, 'w) packed_tensors result" where
  "pack_tokenized_results nan shuffle opt results =
     ensure (\<not> op_min_shared opt < 0) (ValueError ''min_prefix_tree_shared_segment_length must be >= 0'')
    (bindE (foldE (collect_item (op_seq_len opt) (op_truncate opt) (op_include_moe opt)) results []) (\<lambda>items.
     bindE (prefix_tree_pack_rows items (op_seq_len opt) (op_pack_results opt) (op_min_shared opt) True) (\<lambda>planned.
     ensure (planned \<noteq> []) (RuntimeError ''No tokenized results were packable'')
    (let planned = map ((!) planned) (shuffle (length planned)); n = op_seq_len opt in
     bindE (route_padding (op_include_moe opt) n (map fst planned)) (\<lambda>(contract, padding).
     bindE (mapE (materialize_prefix_tree_row (map_option snd contract) (blank_row n (op_pad_token opt) nan padding)) planned) (\<lambda>out.
     let m = map rl_mask out; w = normalized_weights m (map rl_weights out) in
     bindE (check_replay n contract) (\<lambda>_.
     Inr \<lparr>pk_rows = out, pk_weights = w,
       pk_advantages = normalized_advantages m (op_balance opt) w (map rl_advantages out),
       pk_pixel_values = map (packed_row_tensor_list it_pixel_values \<circ> fst) planned,
       pk_image_grid = map (packed_row_tensor_list it_image_grid \<circ> fst) planned,
       pk_experts = map_option fst contract,
       pk_logical_tokens = sum_list (map (\<lambda>item. length (sq_tokens item)) items),
       pk_physical_tokens = sum_list (map (\<lambda>(row, plan). rp_length plan) planned)\<rparr>)))))))"

section \<open>Estimating the rows\<close>

text \<open>
  \<^verbatim>\<open>PrefixTreePackingPool\<close>: the prompts of each group are merged, their shared segments
  planned once for all groups, and the rows a choice of groups would need estimated.
\<close>

type_synonym leaf_spec = "nat \<times> nat option \<times> nat"

record pool_state =
  ps_prefixes :: "int list list"
  ps_specs :: "leaf_spec list"

definition pool_sequence :: "nat \<Rightarrow> int list \<times> nat \<Rightarrow> pool_state \<times> (int list \<times> nat) list \<Rightarrow> pool_state \<times> (int list \<times> nat) list" where
  "pool_sequence gid ts st =
     (let (tokens, shareable) = ts; (pool, group_prefixes) = st; prefix = take shareable tokens;
          tail = length tokens - shareable in
      case map_of group_prefixes prefix of
        Some index \<Rightarrow> (pool\<lparr>ps_specs := ps_specs pool @ [(gid, Some index, tail)]\<rparr>, group_prefixes)
      | None \<Rightarrow>
          if shareable > 0 then
            (pool\<lparr>ps_prefixes := ps_prefixes pool @ [prefix],
               ps_specs := ps_specs pool @ [(gid, Some (length (ps_prefixes pool)), tail)]\<rparr>,
             group_prefixes @ [(prefix, length (ps_prefixes pool))])
          else (pool\<lparr>ps_specs := ps_specs pool @ [(gid, None, tail)]\<rparr>, group_prefixes))"

definition pool_group :: "nat \<times> (int list \<times> nat) list \<Rightarrow> pool_state \<Rightarrow> pool_state" where
  "pool_group g pool = fst (fold (pool_sequence (fst g)) (snd g) (pool, []))"

definition pool_leaf :: "pack_segment list \<Rightarrow> nat \<Rightarrow> leaf_spec \<Rightarrow> pack_leaf" where
  "pool_leaf segs index spec =
     (let (gid, prefix_index, tail) = spec;
          path = (case prefix_index of None \<Rightarrow> [] | Some k \<Rightarrow> segment_paths segs k) @
            (if tail > 0 then [(length segs + index, tail)] else []) in
      \<lparr>leaf_item = index, leaf_group = int gid, segment_path = path, empty_bin_cost = sum_list (map snd path)\<rparr>)"

record packing_pool =
  pool_groups :: "pack_leaf list list"
  pool_costs :: "nat list"

definition new_packing_pool :: "(int list \<times> nat) list list \<Rightarrow> int \<Rightarrow> packing_pool result" where
  "new_packing_pool groups min_shared =
     (let pool = fold pool_group (List.enumerate 0 groups) \<lparr>ps_prefixes = [], ps_specs = []\<rparr>;
          prefixes = ps_prefixes pool in
      ensure (ps_specs pool \<noteq> []) (ValueError ''Prefix-tree packing pool requires at least one leaf'')
     (bindE (if prefixes \<noteq> []
             then prefix_tree_pack_segments prefixes (int (Max (set (map length prefixes))))
               (Some (map (int \<circ> length) prefixes)) min_shared
             else Inr []) (\<lambda>segs.
      let leaves = map (\<lambda>(k, spec). pool_leaf segs k spec) (List.enumerate 0 (ps_specs pool));
          grouped = map (\<lambda>g. filter (\<lambda>l. leaf_group l = int g) leaves) [0..<length groups] in
      ensure ([] \<notin> set grouped) (ValueError ''max() arg is an empty sequence'')
        (Inr \<lparr>pool_groups = grouped, pool_costs = map group_cost grouped\<rparr>))))"

definition pool_estimate :: "packing_pool \<Rightarrow> nat list \<Rightarrow> nat \<Rightarrow> (nat \<times> nat) result" where
  "pool_estimate pool group_indices seq_len =
     (let ordered = sort_key (\<lambda>g. - int (pool_costs pool ! g)) group_indices in
      ensure (\<forall>g \<in> set group_indices. g < length (pool_groups pool)) IndexError
     (bindE (place_prefix_tree_leaves (map ((!) (pool_groups pool)) ordered) seq_len True) (\<lambda>bins.
      Inr (length bins, sum_list (map token_count bins)))))"

section \<open>What an item promises\<close>

text \<open>Its arrays have one entry per token, and nothing within its shareable length is trained on.\<close>

definition item_ok :: "('l, 'w) rl_item \<Rightarrow> bool" where
  "item_ok q \<longleftrightarrow> length (it_input_pos q) = length (sq_tokens q) \<and> length (it_mask q) = length (sq_tokens q) \<and>
     length (it_logprobs q) = length (sq_tokens q) \<and>
     (\<forall>k. int k < sq_shareable q \<longrightarrow> k < length (sq_tokens q) \<and> \<not> it_mask q ! k)"

lemma item_okD:
  assumes "item_ok q"
  shows "length (it_input_pos q) = length (sq_tokens q)" "length (it_mask q) = length (sq_tokens q)"
    "length (it_logprobs q) = length (sq_tokens q)"
    "int k < sq_shareable q \<Longrightarrow> k < length (sq_tokens q)" "int k < sq_shareable q \<Longrightarrow> \<not> it_mask q ! k"
  using assms by (simp_all add: item_ok_def)

lemma before_first_trainable: "k < first_trainable_token_index bs \<Longrightarrow> k < length bs \<and> \<not> bs ! k"
proof (induction bs arbitrary: k)
  case (Cons b bs)
  then show ?case by (cases k) (auto split: if_splits)
qed simp

lemma pack_item_ok:
  assumes "prefix_tree_pack_item seq_len r = Inr item"
  shows "item_ok item" "sq_tokens item = take seq_len (tr_token_ids r)" "it_mask item = take seq_len (tr_assistant_mask r)"
    "it_logprobs item = take seq_len (tr_logprobs r)" "it_input_pos item = take seq_len (tr_input_pos r)"
    "length (sq_tokens item) \<le> seq_len"
proof -
  let ?q = "item_of r"
  have v: "length (it_input_pos ?q) = length (sq_tokens ?q)" "length (it_mask ?q) = length (sq_tokens ?q)"
    "length (it_logprobs ?q) = length (sq_tokens ?q)" and item: "item = truncate_item seq_len ?q"
    using assms by (auto simp: prefix_tree_pack_item_def validate_item_def Let_def bindE_Inr_iff ensure_Inr_iff)
  have quiet: "k < length (it_mask ?q) \<and> \<not> it_mask ?q ! k" if "int k < sq_shareable ?q" for k
  proof -
    have "k < first_trainable_token_index (it_mask ?q)"
      using that by (simp add: item_of_def prefix_tree_shareable_length_def min_def max_def split: if_splits)
    then show ?thesis by (rule before_first_trainable)
  qed
  show "item_ok item" using v quiet by (auto simp: item item_ok_def truncate_item_def)
  show "sq_tokens item = take seq_len (tr_token_ids r)" "it_mask item = take seq_len (tr_assistant_mask r)"
    "it_logprobs item = take seq_len (tr_logprobs r)" "it_input_pos item = take seq_len (tr_input_pos r)"
    "length (sq_tokens item) \<le> seq_len"
    using v by (auto simp: item truncate_item_def item_of_def)
qed

lemma truncate_short: "length (sq_tokens item) \<le> seq_len \<Longrightarrow> truncate_item seq_len item = item"
  by (simp add: truncate_item_def)

text \<open>The results the loop keeps.\<close>

definition packable :: "nat \<Rightarrow> bool \<Rightarrow> ('l, 'w) tokenized_result \<Rightarrow> bool" where
  "packable seq_len truncate_long r \<longleftrightarrow> (length (tr_token_ids r) \<le> seq_len \<or> truncate_long) \<and>
     list_ex id (drop (tr_prompt_length r) (tr_assistant_mask r))"

lemma collect_item_Inr:
  assumes "collect_item seq_len trunc moe r items = Inr items'"
  shows "if packable seq_len trunc r then \<exists>item. prefix_tree_pack_item seq_len r = Inr item \<and> items' = items @ [item]
    else items' = items"
  using assms truncate_short [OF pack_item_ok(6)]
  by (auto simp: collect_item_def packable_def result_iffs split: if_splits)

lemma collected_items:
  assumes "foldE (collect_item seq_len trunc moe) results items = Inr items'"
  shows "\<exists>new. items' = items @ new \<and> mapE (prefix_tree_pack_item seq_len) (filter (packable seq_len trunc) results) = Inr new"
  using assms
proof (induction results arbitrary: items)
  case (Cons r rs)
  then obtain mid where mid: "collect_item seq_len trunc moe r items = Inr mid" "foldE (collect_item seq_len trunc moe) rs mid = Inr items'"
    by (auto simp: bindE_Inr_iff)
  from Cons.IH [OF mid(2)] collect_item_Inr [OF mid(1)] show ?case
    by (auto simp: bindE_Inr_iff split: if_splits)
qed simp

lemma items_ok:
  assumes "mapE (prefix_tree_pack_item seq_len) rs = Inr items"
  shows "\<forall>q \<in> set items. item_ok q"
proof
  fix q assume "q \<in> set items"
  then obtain k where "k < length items" "q = items ! k" by (auto simp: in_set_conv_nth)
  moreover have "list_all2 (\<lambda>r q. prefix_tree_pack_item seq_len r = Inr q) rs items" using assms by (simp add: mapE_Inr_iff)
  ultimately have "prefix_tree_pack_item seq_len (rs ! k) = Inr q" by (auto dest: list_all2_nthD2)
  then show "item_ok q" by (rule pack_item_ok(1))
qed

section \<open>Cells of a plan\<close>

lemma chain_cell:
  "seg_chain a b p ss \<Longrightarrow> a \<le> k \<Longrightarrow> k < b \<Longrightarrow> \<exists>s \<in> set ss. seg_start s \<le> k \<and> k < seg_end s \<and>
     concat (map packed_range ss) ! (k - a) = packed_start s + (k - seg_start s)"
proof (induction a b p ss rule: seg_chain.induct)
  case (1 a b p)
  then show ?case by simp
next
  case (2 a b p s ss)
  have s: "seg_start s = a" "a < seg_end s" and rest: "seg_chain (seg_end s) b (Some (group_id s)) ss"
    using "2.prems"(1) by auto
  have len: "length (packed_range s) = seg_end s - a" using s by (simp add: packed_range_def seg_length_def)
  show ?case
  proof (cases "k < seg_end s")
    case True
    then have "packed_range s ! (k - a) = packed_start s + (k - a)"
      using "2.prems"(2) s by (simp add: packed_range_def seg_length_def)
    moreover have "k - a < length (packed_range s)" using True len "2.prems"(2) by arith
    ultimately show ?thesis using True s "2.prems"(2) by (intro bexI [of _ s]) (simp_all add: nth_append)
  next
    case False
    then have "concat (map packed_range (s # ss)) ! (k - a) = concat (map packed_range ss) ! (k - seg_end s)"
    proof -
      have "\<not> k - a < length (packed_range s)" "k - a - length (packed_range s) = k - seg_end s"
        using len s False by simp_all
      then show ?thesis by (simp add: nth_append)
    qed
    moreover obtain t where "t \<in> set ss" "seg_start t \<le> k" "k < seg_end t"
      "concat (map packed_range ss) ! (k - seg_end s) = packed_start t + (k - seg_start t)"
      using "2.IH" [OF rest] False "2.prems"(3) by auto
    ultimately show ?thesis by (intro bexI [of _ t]) simp_all
  qed
qed

lemma cell_of_token:
  assumes wp: "well_packed rs segs" and "i < length rs" and "k < length (rs ! i)"
  obtains s where "s \<in> set segs" "i \<in> set (sequence_indices s)" "seg_start s \<le> k" "k < seg_end s"
    "positions_of i segs ! k = packed_start s + (k - seg_start s)"
  using chain_cell [OF well_packedD(1) [OF wp assms(2)], of k] assms(3) that
  by (auto simp: positions_of_def path_mem)

lemma packed_from_ge: "packed_from c ss \<Longrightarrow> s \<in> set ss \<Longrightarrow> c \<le> packed_start s"
  by (induction c ss rule: packed_from.induct) (auto dest: order_trans [OF le_add1])

lemma packed_ranges_disjoint:
  assumes "packed_from c ss" and "s \<in> set ss" and "t \<in> set ss"
    and "p \<in> set (packed_range s)" and "p \<in> set (packed_range t)"
  shows "s = t"
  using assms
proof (induction c ss rule: packed_from.induct)
  case (2 c u ss)
  have apart: "p \<notin> set (packed_range u) \<or> p \<notin> set (packed_range v)" if "v \<in> set ss" for v
    using packed_from_ge [of "c + seg_length u" ss v] "2.prems"(1) that by (auto simp: packed_range_def)
  with 2 show ?case by auto
qed simp

lemma packed_array_cell:
  assumes wp: "well_packed rs segs" and c: "chunked f segs" and s: "s \<in> set segs" and j: "j < seg_length s"
    and L: "packed_start s + j < L"
  shows "packed_array f L n pad segs ! (packed_start s + j) = f s ! j"
proof -
  have len: "length (f t) = seg_length t" if "t \<in> set segs" for t using c that by (simp add: chunked_def)
  have "packed_start s + j \<in> set (positions_of (hd (sequence_indices s)) segs)"
    using well_packed_members [OF wp s] s j
    by (auto simp: positions_of_def packed_range_def path_mem intro!: bexI [of _ s])
  then have "packed_start s + j < length (materialize f segs)"
    using positions_bound [OF wp] materialize_length [of segs f] len by simp
  then show ?thesis using L materialize_nth [OF well_packedD(4) [OF wp] s j, of f] len
    by (simp add: packed_array_def nth_append)
qed

section \<open>The row a plan fills\<close>

text \<open>The array of an item, cut to the tokens of a segment; the first item of the segment.\<close>

definition item_chunk :: "('l, 'w) rl_item list \<Rightarrow> (('l, 'w) rl_item \<Rightarrow> 'a list) \<Rightarrow> pack_segment \<Rightarrow> 'a list" where
  "item_chunk row get s = slice (get (first_of row s)) (seg_start s) (seg_end s)"

definition first_of_value :: "('l, 'w) rl_item list \<Rightarrow> (('l, 'w) rl_item \<Rightarrow> 'a) \<Rightarrow> pack_segment \<Rightarrow> 'a list" where
  "first_of_value row get s = replicate (seg_length s) (get (first_of row s))"

definition filled_row :: "('l, 'w::zero) rl_item list \<Rightarrow> nat \<Rightarrow> nat \<Rightarrow> int \<Rightarrow> 'l \<Rightarrow> pack_segment list \<Rightarrow> nat list list list
    \<Rightarrow> ('l, 'w) rl_row" where
  "filled_row row L n pad nan us routes =
     \<lparr>rl_tokens = packed_array (item_chunk row sq_tokens) L n pad us,
      rl_group_ids = packed_array (\<lambda>s. replicate (seg_length s) (group_id s)) L n (- 1) us,
      rl_parent_ids = packed_array (\<lambda>s. replicate (seg_length s) (parent_id s)) L n (- 1) us,
      rl_input_pos = packed_array (item_chunk row it_input_pos) L n 0 us,
      rl_mask = packed_array (item_chunk row it_mask) L n False us,
      rl_logprobs = packed_array (item_chunk row it_logprobs) L n nan us,
      rl_advantages = packed_array (first_of_value row it_advantage) L n 0 us,
      rl_weights = packed_array (first_of_value row it_weight) L n 0 us,
      rl_routes = routes\<rparr>"

text \<open>The part of a segment within the planned length has the same positions for all its items.\<close>

definition positions_agree :: "('l, 'w) rl_item list \<Rightarrow> nat \<Rightarrow> pack_segment \<Rightarrow> bool" where
  "positions_agree row L s \<longleftrightarrow> packed_start s < L \<longrightarrow>
     (\<forall>i \<in> set (sequence_indices s).
        let fin = seg_start s + min (seg_length s) (L - packed_start s) in
        slice (it_input_pos (row ! i)) (seg_start s) fin = slice (it_input_pos (first_of row s)) (seg_start s) fin)"

lemma item_chunk_length:
  assumes wp: "well_packed (map sq_tokens row) segs" and ok: "\<forall>q \<in> set row. item_ok q" and s: "s \<in> set segs"
    and get: "\<And>q. item_ok q \<Longrightarrow> length (get q) = length (sq_tokens q)"
  shows "length (item_chunk row get s) = seg_length s"
proof -
  have m: "sequence_indices s \<noteq> []" "hd (sequence_indices s) \<in> set (sequence_indices s)"
    using well_packed_members [OF wp s] by simp_all
  have agree: "rows_agree (map sq_tokens row) (set (sequence_indices s)) (seg_end s)"
    using well_packedD(2) [OF wp s] by (simp add: seg_valid_def)
  have i: "hd (sequence_indices s) < length row" using rows_agree_bound [OF agree m(2)] by simp
  then have "seg_end s \<le> length (sq_tokens (first_of row s))" "first_of row s \<in> set row"
    using rows_agree_len [OF agree m(2)] by (simp_all add: first_of_def)
  with ok get show ?thesis by (simp add: item_chunk_def seg_length_def)
qed

lemma item_chunk_cut:
  "m \<le> seg_length s \<Longrightarrow> slice (get (first_of row s)) (seg_start s) (seg_start s + m) = take m (item_chunk row get s)"
  by (simp add: item_chunk_def slice_def seg_length_def min_def)

lemma item_chunked:
  assumes "well_packed (map sq_tokens row) (us @ vs)" and "\<forall>q \<in> set row. item_ok q"
    and "\<And>q. item_ok q \<Longrightarrow> length (get q) = length (sq_tokens q)"
  shows "chunked (item_chunk row get) us"
  unfolding chunked_def using item_chunk_length [OF assms(1,2) _ assms(3)] by auto

lemmas item_lengths = item_okD(1-3)

lemma validated_positions:
  assumes "foldE (\<lambda>k (u::unit). ensure (k < length row) IndexError
      (ensure (\<not> int b > sq_shareable (row ! k)) e1
      (ensure (slice (it_input_pos (row ! k)) a b = slice (it_input_pos q) a b) e2
      (ensure (c k) e3 (Inr ()))))) ks u = Inr v" and "k \<in> set ks"
  shows "slice (it_input_pos (row ! k)) a b = slice (it_input_pos q) a b"
  using assms by (induction ks) (auto simp: ensure_Inr_iff bindE_Inr_iff)

lemma packed_array_cells:
  assumes "chunked f us" "length (f s) = seg_length s" "plan_length us < L" "L \<le> n" "m = min (seg_length s) (L - plan_length us)"
    and "chunk = take m (f s)"
  shows "write_slice (packed_array f L n pad us) (plan_length us) (plan_length us + m) chunk
    = Inr (packed_array f L n pad (us @ [s]))"
  unfolding assms(6) by (rule packed_array_write [OF assms(1-5)])

lemma write_segment_step:
  assumes "packed_start s < L" and "sequence_indices s \<noteq> []" "hd (sequence_indices s) < length row"
    and "m = min (seg_length s) (L - packed_start s)"
    and "write_slice (rl_tokens out) (packed_start s) (packed_start s + m) (slice (sq_tokens (first_of row s)) (seg_start s) (seg_start s + m)) = Inr t"
    and "write_slice (rl_input_pos out) (packed_start s) (packed_start s + m) (slice (it_input_pos (first_of row s)) (seg_start s) (seg_start s + m)) = Inr p"
    and "write_slice (rl_mask out) (packed_start s) (packed_start s + m) (slice (it_mask (first_of row s)) (seg_start s) (seg_start s + m)) = Inr k"
    and "write_slice (rl_logprobs out) (packed_start s) (packed_start s + m) (slice (it_logprobs (first_of row s)) (seg_start s) (seg_start s + m)) = Inr l"
    and "out' = out\<lparr>rl_tokens := t, rl_group_ids := fill_slice (rl_group_ids out) (packed_start s) (packed_start s + m) (group_id s),
      rl_parent_ids := fill_slice (rl_parent_ids out) (packed_start s) (packed_start s + m) (parent_id s), rl_input_pos := p, rl_mask := k,
      rl_logprobs := l, rl_advantages := fill_slice (rl_advantages out) (packed_start s) (packed_start s + m) (it_advantage (first_of row s)),
      rl_weights := fill_slice (rl_weights out) (packed_start s) (packed_start s + m) (it_weight (first_of row s))\<rparr>"
    and "write_segment row L shape s out = Inr final"
  shows "(length (sequence_indices s) > 1 \<longrightarrow>
      is_ok (validate_shared_segment row (sequence_indices s) (seg_start s) (seg_start s + m))) \<and>
    (\<exists>routes'. final = out'\<lparr>rl_routes := routes'\<rparr>)"
proof -
  have g: "sequence_indices s \<noteq> [] \<and> hd (sequence_indices s) < length row" using assms(2,3) by simp
  have nle: "\<not> L \<le> packed_start s" using assms(1) by simp
  have "bindE (if length (sequence_indices s) > 1 then validate_shared_segment row (sequence_indices s) (seg_start s) (seg_start s + m) else Inr ()) (\<lambda>_.
      case shape of None \<Rightarrow> Inr out'
      | Some sh \<Rightarrow> (case it_routes (first_of row s) of None \<Rightarrow> Inl (AssertionError [])
         | Some r \<Rightarrow> bindE (copy_moe_route_slice (packed_start s) (seg_start s) (seg_start s + m) r sh (rl_routes out')) (\<lambda>routes'.
             Inr (out'\<lparr>rl_routes := routes'\<rparr>)))) = Inr final"
    using assms(10)
    unfolding write_segment_def Let_def if_not_P [OF nle] first_of_def [symmetric] assms(4) [symmetric]
    unfolding ensure_def if_P [OF g] assms(5-8) bindE_simps assms(9) [symmetric] .
  moreover have "out' = out'\<lparr>rl_routes := rl_routes out'\<rparr>" by simp
  ultimately show ?thesis
    by (auto simp: bindE_Inr_iff is_ok_iff split: if_splits option.splits intro: exI [of _ "rl_routes out'"])
qed

lemma write_segment_fills:
  assumes wp: "well_packed (map sq_tokens row) (us @ s # vs)" and ok: "\<forall>q \<in> set row. item_ok q"
    and L: "L \<le> n" and w: "write_segment row L shape s (filled_row row L n pad nan us routes) = Inr out"
  shows "\<exists>routes'. out = filled_row row L n pad nan (us @ [s]) routes' \<and> positions_agree row L s"
proof -
  have mem: "s \<in> set (us @ s # vs)" by simp
  have start: "packed_start s = plan_length us" using well_packedD(4) [OF wp] by (simp add: packed_from_append)
  note chunk = item_chunked [OF wp ok] and len = item_chunk_length [OF wp ok mem]
  have c: "chunked (item_chunk row sq_tokens) us" "chunked (item_chunk row it_input_pos) us"
      "chunked (item_chunk row it_mask) us" "chunked (item_chunk row it_logprobs) us"
    by (rule chunk [OF refl] chunk [OF item_okD(1)] chunk [OF item_okD(2)] chunk [OF item_okD(3)], assumption?)+
  have cv: "chunked (first_of_value row it_advantage) us" "chunked (first_of_value row it_weight) us"
      "chunked (\<lambda>s. replicate (seg_length s) (group_id s)) us" "chunked (\<lambda>s. replicate (seg_length s) (parent_id s)) us"
    by (simp_all add: chunked_def first_of_value_def)
  show ?thesis
  proof (cases "plan_length us < L")
    case False
    then have "out = filled_row row L n pad nan us routes" using w start by (simp add: write_segment_def Let_def)
    also have "\<dots> = filled_row row L n pad nan (us @ [s]) routes"
      using False c cv by (simp add: filled_row_def packed_array_full)
    finally show ?thesis using False start by (auto simp: positions_agree_def)
  next
    case True
    let ?m = "min (seg_length s) (L - plan_length us)"
    let ?q = "first_of row s"
    let ?a = "plan_length us" and ?b = "plan_length us + ?m"
    let ?x = "seg_start s" and ?y = "seg_start s + ?m"
    let ?out = "filled_row row L n pad nan us routes"
    let ?new = "filled_row row L n pad nan (us @ [s])"
    note cells = packed_array_cells [OF _ _ True L refl]
    have ws: "write_slice (rl_tokens ?out) ?a ?b (slice (sq_tokens ?q) ?x ?y) = Inr (rl_tokens (?new routes))"
      "write_slice (rl_input_pos ?out) ?a ?b (slice (it_input_pos ?q) ?x ?y) = Inr (rl_input_pos (?new routes))"
      "write_slice (rl_mask ?out) ?a ?b (slice (it_mask ?q) ?x ?y) = Inr (rl_mask (?new routes))"
      "write_slice (rl_logprobs ?out) ?a ?b (slice (it_logprobs ?q) ?x ?y) = Inr (rl_logprobs (?new routes))"
      unfolding filled_row_def rl_row.simps
      by (rule cells [OF c(1) len [OF refl] item_chunk_cut] cells [OF c(2) len [OF item_okD(1)] item_chunk_cut]
        cells [OF c(3) len [OF item_okD(2)] item_chunk_cut] cells [OF c(4) len [OF item_okD(3)] item_chunk_cut], simp_all)+
    note fill = packed_array_fill [OF _ _ True L refl]
    have fs: "fill_slice (rl_group_ids ?out) ?a ?b (group_id s) = rl_group_ids (?new routes)"
      "fill_slice (rl_parent_ids ?out) ?a ?b (parent_id s) = rl_parent_ids (?new routes)"
      "fill_slice (rl_advantages ?out) ?a ?b (it_advantage ?q) = rl_advantages (?new routes)"
      "fill_slice (rl_weights ?out) ?a ?b (it_weight ?q) = rl_weights (?new routes)"
      using fill [OF cv(3), of s "group_id s" "- 1"] fill [OF cv(4), of s "parent_id s" "- 1"]
        fill [OF cv(1), of s "it_advantage ?q" 0] fill [OF cv(2), of s "it_weight ?q" 0]
      by (simp_all add: filled_row_def first_of_value_def)
    have guard: "sequence_indices s \<noteq> []" "hd (sequence_indices s) < length row"
      using first_of_facts(1,2) [OF wp mem] by simp_all
    have new: "?new routes = ?out\<lparr>rl_tokens := rl_tokens (?new routes),
        rl_group_ids := fill_slice (rl_group_ids ?out) ?a ?b (group_id s),
        rl_parent_ids := fill_slice (rl_parent_ids ?out) ?a ?b (parent_id s), rl_input_pos := rl_input_pos (?new routes),
        rl_mask := rl_mask (?new routes), rl_logprobs := rl_logprobs (?new routes),
        rl_advantages := fill_slice (rl_advantages ?out) ?a ?b (it_advantage ?q),
        rl_weights := fill_slice (rl_weights ?out) ?a ?b (it_weight ?q)\<rparr>"
      unfolding fs by (simp add: filled_row_def)
    have valid: "length (sequence_indices s) > 1 \<longrightarrow> is_ok (validate_shared_segment row (sequence_indices s) ?x ?y)"
      and out: "\<exists>routes'. out = (?new routes)\<lparr>rl_routes := routes'\<rparr>"
      using write_segment_step [OF _ guard _ _ _ _ _ _ w, of ?m, unfolded start, OF True refl ws new] by blast+
    have "slice (it_input_pos (row ! i)) ?x ?y = slice (it_input_pos ?q) ?x ?y" if i: "i \<in> set (sequence_indices s)" for i
    proof (cases "length (sequence_indices s) > 1")
      case True
      then obtain v where "validate_shared_segment row (sequence_indices s) ?x ?y = Inr v"
        using valid by (auto simp: is_ok_iff)
      from validated_positions [OF this [unfolded validate_shared_segment_def Let_def] i] show ?thesis
        by (simp only: first_of_def)
    next
      case False
      then have "sequence_indices s = [i]" using i by (cases "sequence_indices s"; cases "tl (sequence_indices s)") auto
      then show ?thesis by (simp add: first_of_def)
    qed
    then have "positions_agree row L s" by (simp add: positions_agree_def Let_def start)
    moreover obtain routes' where "out = (?new routes)\<lparr>rl_routes := routes'\<rparr>" using out by blast
    then have "out = ?new routes'" by (simp add: filled_row_def)
    ultimately show ?thesis by blast
  qed
qed

lemma row_filled:
  assumes wp: "well_packed (map sq_tokens row) (rp_segments plan)" and ok: "\<forall>q \<in> set row. item_ok q"
    and L: "rp_length plan \<le> n"
    and out: "materialize_prefix_tree_row shape (blank_row n pad nan padding) (row, plan) = Inr out"
  shows "\<exists>routes. out = filled_row row (rp_length plan) n pad nan (rp_segments plan) routes \<and>
    (\<forall>s \<in> set (rp_segments plan). positions_agree row (rp_length plan) s)"
proof -
  let ?L = "rp_length plan"
  have main: "\<exists>routes'. out = filled_row row ?L n pad nan (us @ ss) routes' \<and> (\<forall>s \<in> set ss. positions_agree row ?L s)"
    if "us @ ss = rp_segments plan" "foldE (write_segment row ?L shape) ss (filled_row row ?L n pad nan us routes) = Inr out" for us ss routes
    using that
  proof (induction ss arbitrary: us routes)
    case (Cons s ss)
    obtain mid where mid: "write_segment row ?L shape s (filled_row row ?L n pad nan us routes) = Inr mid"
      "foldE (write_segment row ?L shape) ss mid = Inr out"
      using Cons.prems(2) by (auto simp: bindE_Inr_iff)
    have "well_packed (map sq_tokens row) (us @ s # ss)" using wp Cons.prems(1) by simp
    from write_segment_fills [OF this ok L mid(1)] obtain routes' where
      "mid = filled_row row ?L n pad nan (us @ [s]) routes'" "positions_agree row ?L s" by blast
    with Cons.IH [of "us @ [s]" routes'] Cons.prems(1) mid(2) show ?case by simp
  qed auto
  have "blank_row n pad nan padding = filled_row row ?L n pad nan [] padding"
    by (simp add: blank_row_def filled_row_def)
  then show ?thesis using main [of "[]" "rp_segments plan" padding] out
    by (simp add: materialize_prefix_tree_row_def)
qed

section \<open>Reading a token of an item\<close>

text \<open>What the row holds for the \<open>k\<close>-th token of the \<open>i\<close>-th item, at position \<open>p\<close>.\<close>

definition holds_token :: "('l, 'w) rl_item list \<Rightarrow> pack_segment list \<Rightarrow> ('l, 'w) rl_row \<Rightarrow> nat \<Rightarrow> nat \<Rightarrow> nat \<Rightarrow> bool" where
  "holds_token row segs out i k p \<longleftrightarrow>
     rl_tokens out ! p = sq_tokens (row ! i) ! k \<and>
     rl_input_pos out ! p = it_input_pos (row ! i) ! k \<and>
     rl_mask out ! p = it_mask (row ! i) ! k \<and>
     (it_mask (row ! i) ! k \<longrightarrow>
        rl_logprobs out ! p = it_logprobs (row ! i) ! k \<and>
        rl_advantages out ! p = it_advantage (row ! i) \<and> rl_weights out ! p = it_weight (row ! i) \<and>
        (\<forall>j < length row. j \<noteq> i \<longrightarrow> p \<notin> set (positions_of j segs)))"

lemma shared_only_untrained:
  assumes wp: "well_packed (map sq_tokens row) segs" and ok: "\<forall>q \<in> set row. item_ok q" and safe: "shares_within row segs"
    and s: "s \<in> set segs" and i: "i \<in> set (sequence_indices s)" and j: "j \<in> set (sequence_indices s)" "j \<noteq> i"
    and k: "k < seg_end s"
  shows "\<not> it_mask (row ! i) ! k"
proof -
  have "rows_agree (map sq_tokens row) (set (sequence_indices s)) (seg_end s)"
    using well_packedD(2) [OF wp s] by (simp add: seg_valid_def)
  then have "row ! i \<in> set row" using rows_agree_bound [of "map sq_tokens row" _ _ i] i by simp
  moreover have "int (seg_end s) \<le> sq_shareable (row ! i)" by (rule shares_withinD [OF safe s i j(1)]) (use j(2) in simp)
  ultimately show ?thesis using ok k item_okD(5) [of "row ! i" k] by simp
qed

lemma slice_nth: "a \<le> k \<Longrightarrow> k < b \<Longrightarrow> k < length xs \<Longrightarrow> slice xs a b ! (k - a) = xs ! k"
  by (simp add: slice_def)

lemma item_chunk_nth:
  assumes wp: "well_packed (map sq_tokens row) segs" and ok: "\<forall>q \<in> set row. item_ok q" and s: "s \<in> set segs"
    and k: "seg_start s \<le> k" "k < seg_end s" and get: "\<And>q. item_ok q \<Longrightarrow> length (get q) = length (sq_tokens q)"
  shows "item_chunk row get s ! (k - seg_start s) = get (first_of row s) ! k"
  using first_of_facts(3,4) [OF wp s] ok k get [of "first_of row s"] by (simp add: item_chunk_def slice_nth)

lemma first_of_value_nth: "j < seg_length s \<Longrightarrow> first_of_value row get s ! j = get (first_of row s)"
  by (simp add: first_of_value_def)

lemma first_of_value_chunked: "chunked (first_of_value row get) segs"
  by (simp add: chunked_def first_of_value_def)

lemma first_item_agrees:
  assumes wp: "well_packed (map sq_tokens row) segs" and ok: "\<forall>q \<in> set row. item_ok q" and safe: "shares_within row segs"
    and agree: "positions_agree row L s" and s: "s \<in> set segs" "i \<in> set (sequence_indices s)"
    and k: "seg_start s \<le> k" "k < seg_end s" and L: "packed_start s + (k - seg_start s) < L"
  shows "sq_tokens (first_of row s) ! k = sq_tokens (row ! i) ! k"
    and "it_input_pos (first_of row s) ! k = it_input_pos (row ! i) ! k"
    and "it_mask (first_of row s) ! k = it_mask (row ! i) ! k"
    and "it_mask (row ! i) ! k \<Longrightarrow> first_of row s = row ! i \<and> set (sequence_indices s) = {i}"
proof -
  let ?q = "first_of row s"
  note f = first_of_facts [OF wp s(1)]
  have ra: "rows_agree (map sq_tokens row) (set (sequence_indices s)) (seg_end s)"
    using well_packedD(2) [OF wp s(1)] by (simp add: seg_valid_def)
  have hd: "hd (sequence_indices s) \<in> set (sequence_indices s)" using well_packed_members [OF wp s(1)] by simp
  have i: "i < length row" "k < length (sq_tokens (row ! i))"
    using rows_agree_bound [OF ra s(2)] rows_agree_len [OF ra s(2)] k(2) by simp_all
  show "sq_tokens ?q ! k = sq_tokens (row ! i) ! k"
    using arg_cong [OF rows_agree_take [OF ra hd s(2)], of "\<lambda>xs. xs ! k"] f(1) i k(2) by (simp add: first_of_def)
  let ?fin = "seg_start s + min (seg_length s) (L - packed_start s)"
  have "slice (it_input_pos (row ! i)) (seg_start s) ?fin = slice (it_input_pos ?q) (seg_start s) ?fin"
    using agree s(2) L by (simp add: positions_agree_def Let_def)
  moreover have "k < ?fin" using L k by (auto simp: min_def seg_length_def)
  moreover have "k < length (it_input_pos (row ! i))" "k < length (it_input_pos ?q)"
    using ok i f(3,4) k(2) by (simp_all add: item_okD(1))
  ultimately show "it_input_pos ?q ! k = it_input_pos (row ! i) ! k"
    using slice_nth [OF k(1), of ?fin] by metis
  have alone: "j' = i" if "it_mask (row ! i) ! k" "j' \<in> set (sequence_indices s)" for j'
    using shared_only_untrained [OF wp ok safe s that(2) _ k(2)] that(1) by blast
  show "it_mask ?q ! k = it_mask (row ! i) ! k"
  proof (cases "hd (sequence_indices s) = i")
    case False
    from shared_only_untrained [OF wp ok safe s hd False k(2)]
      shared_only_untrained [OF wp ok safe s(1) hd s(2) _ k(2)] False
    show ?thesis by (auto simp: first_of_def)
  qed (simp add: first_of_def)
  show "?q = row ! i \<and> set (sequence_indices s) = {i}" if "it_mask (row ! i) ! k"
    using alone [OF that] hd s(2) by (auto simp: first_of_def)
qed

lemma row_holds_tokens:
  assumes wp: "well_packed (map sq_tokens row) segs" and ok: "\<forall>q \<in> set row. item_ok q" and safe: "shares_within row segs"
    and agree: "\<forall>s \<in> set segs. positions_agree row L s" and i: "i < length row" and k: "k < length (sq_tokens (row ! i))"
    and p: "positions_of i segs ! k < L"
  shows "holds_token row segs (filled_row row L n pad nan segs routes) i k (positions_of i segs ! k)"
proof -
  have ir: "i < length (map sq_tokens row)" "k < length (map sq_tokens row ! i)" using i k by simp_all
  from cell_of_token [OF wp ir] obtain s where s: "s \<in> set segs" "i \<in> set (sequence_indices s)" "seg_start s \<le> k" "k < seg_end s"
    and pos: "positions_of i segs ! k = packed_start s + (k - seg_start s)" by metis
  let ?j = "k - seg_start s" and ?q = "first_of row s"
  have j: "?j < seg_length s" "packed_start s + ?j < L" using s(3,4) p pos by (simp_all add: seg_length_def)
  have wp': "well_packed (map sq_tokens row) (segs @ [])" using wp by simp
  let ?p = "packed_start s + ?j" and ?out = "filled_row row L n pad nan segs routes"
  note f = first_of_facts [OF wp s(1)]
  note chunk = item_chunked [OF wp' ok] and nth = item_chunk_nth [OF wp ok s(1,3,4)]
  note read = packed_array_cell [OF wp _ s(1) j]
  have pa: "positions_agree row L s" using agree s(1) by blast
  have cells: "rl_tokens ?out ! ?p = sq_tokens ?q ! k" "rl_input_pos ?out ! ?p = it_input_pos ?q ! k"
      "rl_mask ?out ! ?p = it_mask ?q ! k" "rl_logprobs ?out ! ?p = it_logprobs ?q ! k"
    using read [OF chunk [OF refl], of n pad] nth [of sq_tokens]
      read [OF chunk [of it_input_pos, OF item_okD(1)], of n 0] nth [of it_input_pos, OF item_okD(1)]
      read [OF chunk [of it_mask, OF item_okD(2)], of n False] nth [of it_mask, OF item_okD(2)]
      read [OF chunk [of it_logprobs, OF item_okD(3)], of n nan] nth [of it_logprobs, OF item_okD(3)]
    by (simp_all add: filled_row_def)
  have vals: "rl_advantages ?out ! ?p = it_advantage ?q" "rl_weights ?out ! ?p = it_weight ?q"
    using read [OF first_of_value_chunked [of row it_advantage], of n 0] read [OF first_of_value_chunked [of row it_weight], of n 0]
      j(1) by (simp_all add: filled_row_def first_of_value_nth)
  note same = first_item_agrees [OF wp ok safe pa s j(2)]
  have only: "?p \<notin> set (positions_of j' segs)" if "it_mask (row ! i) ! k" "j' \<noteq> i" for j'
  proof
    assume "?p \<in> set (positions_of j' segs)"
    then obtain t where t: "t \<in> set segs" "j' \<in> set (sequence_indices t)" "?p \<in> set (packed_range t)"
      by (auto simp: positions_of_def path_mem)
    moreover have "?p \<in> set (packed_range s)" using j(1) by (simp add: packed_range_def)
    ultimately have "t = s" using packed_ranges_disjoint [OF well_packedD(4) [OF wp]] s(1) by blast
    with same(4) [OF that(1)] t(2) that(2) show False by simp
  qed
  show ?thesis unfolding holds_token_def pos
    using cells vals same only by auto
qed

section \<open>The planned rows\<close>

definition row_planned :: "nat \<Rightarrow> 'a tree_sequence_scheme list \<times> row_plan \<Rightarrow> bool" where
  "row_planned n r \<longleftrightarrow> well_packed (map sq_tokens (fst r)) (rp_segments (snd r)) \<and>
     shares_within (fst r) (rp_segments (snd r)) \<and> rp_length (snd r) = min (plan_length (rp_segments (snd r))) n"

lemma row_plan_planned:
  assumes "prefix_tree_row_plan row n True ms = Inr plan"
  shows "row_planned n (row, plan)"
  using assms prefix_tree_pack_segments_Inr pack_segments_share_within [of row]
  by (auto simp: prefix_tree_row_plan_def bindE_Inr_iff row_planned_def plan_length_def comp_def)

lemma single_row_planned:
  assumes "prefix_tree_row_plan [item] n False ms = Inr plan"
  shows "row_planned n ([item], plan)"
proof -
  obtain segs where segs: "prefix_tree_pack_segments (map sq_tokens [item]) 0 (Some [0]) ms = Inr segs"
    and plan: "plan = \<lparr>rp_segments = segs, rp_length = min (plan_length segs) n\<rparr>"
    using assms by (auto simp: prefix_tree_row_plan_def bindE_Inr_iff plan_length_def)
  have wp: "well_packed (map sq_tokens [item]) segs" by (rule prefix_tree_pack_segments_Inr [OF segs])
  have "i = 0" if "s \<in> set segs" "i \<in> set (sequence_indices s)" for s i
    using rows_agree_bound [OF _ that(2)] well_packedD(2) [OF wp that(1)] by (fastforce simp: seg_valid_def)
  then have "shares_within [item] segs" unfolding shares_within_def by metis
  with wp show ?thesis by (simp add: plan row_planned_def)
qed

lemma rows_planned:
  assumes "prefix_tree_pack_rows items n pack ms True = Inr planned"
  shows "mset (concat (map fst planned)) = mset items \<and> (\<forall>r \<in> set planned. row_planned n r)"
proof (cases pack)
  case True
  with assms have ok: "prefix_tree_pack_rows items n True ms True = Inr planned" by simp
  from ok have "\<forall>r \<in> set planned. row_planned n r"
  proof (cases rule: planned_cases)
    case (2 segs bins)
    show ?thesis
    proof
      fix r assume "r \<in> set planned"
      then obtain k where "k < length planned" "r = planned ! k" by (metis in_set_conv_nth)
      then have "plan_bin items n ms True segs (bins ! k) = Inr r" using list_all2_nthD2 [OF 2(4), of k] by simp
      then obtain row plan where "prefix_tree_row_plan row n True ms = Inr plan" "r = (row, plan)"
        by (auto simp: plan_bin_def Let_def result_iffs)
      then show "row_planned n r" by (simp add: row_plan_planned)
    qed
  qed simp
  with planned_rows [OF ok] show ?thesis by blast
next
  case False
  show ?thesis
  proof (cases "items = []")
    case True
    with assms show ?thesis by (simp add: prefix_tree_pack_rows_def)
  next
    case ne: False
    have each: "list_all2 (\<lambda>item r. bindE (prefix_tree_row_plan [item] n False ms) (\<lambda>plan. Inr ([item], plan)) = Inr r) items planned"
      using assms False ne by (simp add: prefix_tree_pack_rows_def mapE_Inr_iff)
    have "list_all2 (\<lambda>item r. fst r = [item] \<and> row_planned n r) items planned"
      by (rule list.rel_mono_strong [OF each]) (auto simp: bindE_Inr_iff single_row_planned)
    then show ?thesis by (induction items planned rule: list_all2_induct) auto
  qed
qed

section \<open>Scale of the loss\<close>

definition same_shape :: "'a list list \<Rightarrow> 'b list list \<Rightarrow> bool" where
  "same_shape = list_all2 (\<lambda>x y. length x = length y)"

lemma selected_map2:
  assumes "same_shape m x" and "\<And>v. f True v = g v"
  shows "selected m (map2 (map2 f) m x) = map g (selected m x)"
proof -
  have row: "map snd (filter fst (zip bs (map2 f bs vs))) = map g (map snd (filter fst (zip bs vs)))"
    if "length bs = length vs" for bs vs
    using that assms(2) by (induction bs vs rule: list_induct2) (auto split: bool.splits)
  show ?thesis using assms(1) unfolding same_shape_def selected_def
    by (induction m x rule: list_all2_induct) (auto simp: zip_append row [unfolded comp_def] comp_def)
qed

lemma selected_zero_unless: "same_shape m x \<Longrightarrow> selected m (zero_unless m x) = selected m x"
  unfolding zero_unless_def by (subst selected_map2 [where g = id]) auto

lemma selected_divide: "same_shape m x \<Longrightarrow> selected m (divide_selected m d x) = map (\<lambda>v. v / d) (selected m x)"
  unfolding divide_selected_def by (rule selected_map2) auto

lemma mean_divide: "mean (map (\<lambda>v. v / d) xs) = mean xs / d"
proof -
  have "sum_list (map (\<lambda>v. v / d) xs) = sum_list xs / d" by (induction xs) (simp_all add: add_divide_distrib)
  then show ?thesis by (simp add: mean_def)
qed

lemma same_shape_map2: "same_shape m x \<Longrightarrow> same_shape m (map2 (map2 f) m x)"
  unfolding same_shape_def by (induction m x rule: list_all2_induct) auto

lemma weights_mean_one:
  assumes "same_shape m w" and "any_trainable m" and "mean (selected m w) \<noteq> 0"
  shows "mean (selected m (normalized_weights m w)) = 1"
proof -
  have "same_shape m (zero_unless m w)" unfolding zero_unless_def by (rule same_shape_map2 [OF assms(1)])
  with assms show ?thesis
    by (simp add: normalized_weights_def Let_def selected_zero_unless selected_divide mean_divide)
qed

text \<open>After balancing, the weighted mean magnitude of the advantages is one as well.\<close>

lemma advantages_scale_one:
  fixes a :: "'w::linordered_field list list"
  assumes a: "same_shape m a" and t: "any_trainable m"
    and p: "mean (map2 (\<lambda>v u. \<bar>v\<bar> * u) (selected m (balanced_advantages b (zero_unless m a))) (selected m w)) > 0"
  shows "mean (map2 (\<lambda>v u. \<bar>v\<bar> * u) (selected m (normalized_advantages m b w a)) (selected m w)) = 1"
proof -
  let ?a = "balanced_advantages b (zero_unless m a)"
  let ?d = "mean (map2 (\<lambda>v u. \<bar>v\<bar> * u) (selected m ?a) (selected m w))"
  have "same_shape m (zero_unless m a)" unfolding zero_unless_def by (rule same_shape_map2 [OF a])
  then have shape: "same_shape m ?a"
    by (auto simp: balanced_advantages_def same_shape_def list_all2_map2)
  have "map2 (\<lambda>v u. \<bar>v\<bar> * u) (map (\<lambda>v. v / ?d) xs) ys = map (\<lambda>v. v / ?d) (map2 (\<lambda>v u. \<bar>v\<bar> * u) xs ys)" for xs ys
    using p by (induction xs ys rule: list_induct2') (simp_all add: abs_divide)
  then have "mean (map2 (\<lambda>v u. \<bar>v\<bar> * u) (map (\<lambda>v. v / ?d) (selected m ?a)) (selected m w)) = ?d / ?d"
    by (simp only: mean_divide)
  with p t show ?thesis
    by (simp add: normalized_advantages_def Let_def selected_divide [OF shape])
qed

section \<open>Properties of packing for reinforcement learning\<close>

lemma packed_batch_cases:
  assumes "pack_tokenized_results nan shuffle opt results = Inr out"
  obtains items planned and contract :: "(int \<times> nat \<times> nat) option" and padding where
    "foldE (collect_item (op_seq_len opt) (op_truncate opt) (op_include_moe opt)) results [] = Inr items"
    "prefix_tree_pack_rows items (op_seq_len opt) (op_pack_results opt) (op_min_shared opt) True = Inr planned"
    "list_all2 (\<lambda>r o'. materialize_prefix_tree_row (map_option snd contract)
        (blank_row (op_seq_len opt) (op_pad_token opt) nan padding) r = Inr o')
      (map ((!) planned) (shuffle (length planned))) (pk_rows out)"
    "pk_weights out = normalized_weights (map rl_mask (pk_rows out)) (map rl_weights (pk_rows out))"
    "pk_advantages out = normalized_advantages (map rl_mask (pk_rows out)) (op_balance opt) (pk_weights out)
      (map rl_advantages (pk_rows out))"
  using assms unfolding pack_tokenized_results_def Let_def mapE_Inr_iff [symmetric]
  by (auto simp: bindE_Inr_iff ensure_Inr_iff)

lemma filled_row_lengths:
  assumes wp: "well_packed (map sq_tokens row) segs" and ok: "\<forall>q \<in> set row. item_ok q" and L: "L \<le> n"
  shows "length (rl_tokens (filled_row row L n pad nan segs r)) = n" "length (rl_mask (filled_row row L n pad nan segs r)) = n"
    "length (rl_weights (filled_row row L n pad nan segs r)) = n" "length (rl_advantages (filled_row row L n pad nan segs r)) = n"
proof -
  have wp': "well_packed (map sq_tokens row) (segs @ [])" using wp by simp
  note c = item_chunked [OF wp' ok]
  show "length (rl_tokens (filled_row row L n pad nan segs r)) = n" "length (rl_mask (filled_row row L n pad nan segs r)) = n"
    "length (rl_weights (filled_row row L n pad nan segs r)) = n" "length (rl_advantages (filled_row row L n pad nan segs r)) = n"
    using packed_array_length [OF c [OF refl] L] packed_array_length [OF c [of it_mask, OF item_okD(2)] L]
      packed_array_length [OF first_of_value_chunked L] by (simp_all add: filled_row_def)
qed

text \<open>
  A row reads back: its plan is a packing plan of its items, cut only at the sequence
  length \<open>n\<close>, and every token of every item that lies within the row is held at its
  position (\<open>holds_token\<close>).
\<close>

definition row_reads :: "nat \<Rightarrow> ('l, 'w) rl_item list \<times> row_plan \<Rightarrow> ('l, 'w) rl_row \<Rightarrow> bool" where
  "row_reads n r o' \<longleftrightarrow>
     well_packed (map sq_tokens (fst r)) (rp_segments (snd r)) \<and>
     rp_length (snd r) = min (plan_length (rp_segments (snd r))) n \<and>
     length (rl_tokens o') = n \<and> length (rl_mask o') = n \<and> length (rl_weights o') = n \<and> length (rl_advantages o') = n \<and>
     (\<forall>i < length (fst r). \<forall>k < length (sq_tokens (fst r ! i)).
        positions_of i (rp_segments (snd r)) ! k < n \<longrightarrow>
        holds_token (fst r) (rp_segments (snd r)) o' i k (positions_of i (rp_segments (snd r)) ! k))"

lemma materialized_row_reads:
  assumes r: "row_planned n r" and ok: "\<forall>q \<in> set (fst r). item_ok q"
    and out: "materialize_prefix_tree_row shape (blank_row n pad nan padding) r = Inr o'"
  shows "row_reads n r o'"
proof -
  obtain row plan where rp: "r = (row, plan)" by (cases r)
  have wp: "well_packed (map sq_tokens row) (rp_segments plan)" and safe: "shares_within row (rp_segments plan)"
    and L: "rp_length plan = min (plan_length (rp_segments plan)) n" and ok': "\<forall>q \<in> set row. item_ok q"
    using r ok by (simp_all add: row_planned_def rp)
  have Ln: "rp_length plan \<le> n" using L by simp
  obtain routes where o': "o' = filled_row row (rp_length plan) n pad nan (rp_segments plan) routes"
    and agree: "\<forall>s \<in> set (rp_segments plan). positions_agree row (rp_length plan) s"
    using row_filled [OF wp ok' Ln out [unfolded rp]] by blast
  have "holds_token row (rp_segments plan) o' i k (positions_of i (rp_segments plan) ! k)"
    if i: "i < length row" "k < length (sq_tokens (row ! i))" and p: "positions_of i (rp_segments plan) ! k < n" for i k
  proof -
    have "k < length (positions_of i (rp_segments plan))" using positions_of_length [OF wp, of i] i by simp
    then have "positions_of i (rp_segments plan) ! k < plan_length (rp_segments plan)"
      by (intro positions_bound [OF wp, of _ i] nth_mem)
    with p L have "positions_of i (rp_segments plan) ! k < rp_length plan" by simp
    from row_holds_tokens [OF wp ok' safe agree i this] show ?thesis unfolding o' .
  qed
  with wp L filled_row_lengths [OF wp ok' Ln] show ?thesis by (simp add: row_reads_def rp o')
qed

lemma packed_batch_reads:
  assumes "pack_tokenized_results nan shuffle opt results = Inr out" and sh: "\<forall>n. mset (shuffle n) = mset [0..<n]"
  shows "\<exists>items planned.
    mapE (prefix_tree_pack_item (op_seq_len opt)) (filter (packable (op_seq_len opt) (op_truncate opt)) results) = Inr items \<and>
    mset (concat (map fst planned)) = mset items \<and>
    list_all2 (row_reads (op_seq_len opt)) planned (pk_rows out)"
proof -
  obtain items planned and contract :: "(int \<times> nat \<times> nat) option" and padding where 1:
    "foldE (collect_item (op_seq_len opt) (op_truncate opt) (op_include_moe opt)) results [] = Inr items"
    "prefix_tree_pack_rows items (op_seq_len opt) (op_pack_results opt) (op_min_shared opt) True = Inr planned"
    "list_all2 (\<lambda>r o'. materialize_prefix_tree_row (map_option snd contract)
        (blank_row (op_seq_len opt) (op_pad_token opt) nan padding) r = Inr o')
      (map ((!) planned) (shuffle (length planned))) (pk_rows out)"
    by (rule packed_batch_cases [OF assms(1)])
  let ?n = "op_seq_len opt"
  have items: "mapE (prefix_tree_pack_item ?n) (filter (packable ?n (op_truncate opt)) results) = Inr items"
    using collected_items [OF 1(1)] by simp
  note pl = rows_planned [OF 1(2)]
  let ?planned = "map ((!) planned) (shuffle (length planned))"
  have "mset ?planned = image_mset ((!) planned) (mset [0..<length planned])" using sh by simp
  also have "\<dots> = mset (map ((!) planned) [0..<length planned])" by (rule mset_map [symmetric])
  finally have perm: "mset ?planned = mset planned" by (simp only: map_nth)
  then have sets: "set ?planned = set planned" by (rule mset_eq_setD)
  have as_sum: "mset (concat (map fst xs)) = (\<Sum>r \<in># mset xs. mset (fst r))"
    for xs :: "(('a, 'b) rl_item list \<times> row_plan) list" by (induction xs) auto
  have ms: "mset (concat (map fst ?planned)) = mset items"
    using pl unfolding as_sum perm by blast
  have "list_all2 (row_reads ?n) ?planned (pk_rows out)"
  proof (rule list.rel_mono_strong [OF 1(3)])
    fix r o' assume r: "r \<in> set ?planned" and out: "materialize_prefix_tree_row (map_option snd contract)
        (blank_row ?n (op_pad_token opt) nan padding) r = Inr o'"
    have "set (fst r) \<subseteq> set_mset (mset (concat (map fst ?planned)))" using r by auto
    then have "\<forall>q \<in> set (fst r). item_ok q" using items_ok [OF items] unfolding ms by auto
    moreover have "row_planned ?n r" using r pl sets by blast
    ultimately show "row_reads ?n r o'" by (intro materialized_row_reads [OF _ _ out])
  qed
  with items ms show ?thesis by blast
qed


definition shaped_batch :: "nat \<Rightarrow> ('l, 'w) rl_row list \<Rightarrow> bool" where
  "shaped_batch n rws \<longleftrightarrow> (\<forall>r \<in> set rws. length (rl_mask r) = n \<and> length (rl_weights r) = n)"

lemma shaped_batch_shapes:
  "shaped_batch n rws \<Longrightarrow> same_shape (map rl_mask rws) (map rl_weights rws)"
  by (simp add: shaped_batch_def same_shape_def list_all2_map1 list_all2_map2 list.rel_refl_strong)

text \<open>
  C37. No trained token is shared.  Packing tokenized trajectories, whatever the shuffle,
  puts every packable result (cut to the sequence length) into exactly one row, and every
  token of it that lies within the row is found at its position with its id, its input
  position and its mask; a token that is trained on also has its own log probability,
  advantage and weight, and its cell belongs to no other trajectory.  A plan loses tokens
  only past the sequence length.  The weights of the trained cells are scaled to mean one, if their
  mean is not zero.
\<close>

theorem trained_tokens_unshared:
  assumes "pack_tokenized_results nan shuffle opt results = Inr out" and "\<forall>n. mset (shuffle n) = mset [0..<n]"
  shows "(\<exists>items planned.
    mapE (prefix_tree_pack_item (op_seq_len opt)) (filter (packable (op_seq_len opt) (op_truncate opt)) results) = Inr items \<and>
    mset (concat (map fst planned)) = mset items \<and>
    list_all2 (row_reads (op_seq_len opt)) planned (pk_rows out)) \<and>
    (let m = map rl_mask (pk_rows out) in
      any_trainable m \<longrightarrow> mean (selected m (map rl_weights (pk_rows out))) \<noteq> 0 \<longrightarrow> mean (selected m (pk_weights out)) = 1)"
proof (intro conjI)
  note reads = packed_batch_reads [OF assms]
  then show "\<exists>items planned.
    mapE (prefix_tree_pack_item (op_seq_len opt)) (filter (packable (op_seq_len opt) (op_truncate opt)) results) = Inr items \<and>
    mset (concat (map fst planned)) = mset items \<and> list_all2 (row_reads (op_seq_len opt)) planned (pk_rows out)" .
  have "shaped_batch (op_seq_len opt) (pk_rows out)"
    using reads by (auto simp: shaped_batch_def row_reads_def list_all2_conv_all_nth in_set_conv_nth)
  moreover have "pk_weights out = normalized_weights (map rl_mask (pk_rows out)) (map rl_weights (pk_rows out))"
    by (rule packed_batch_cases [OF assms(1)])
  ultimately show "let m = map rl_mask (pk_rows out) in
      any_trainable m \<longrightarrow> mean (selected m (map rl_weights (pk_rows out))) \<noteq> 0 \<longrightarrow> mean (selected m (pk_weights out)) = 1"
    using weights_mean_one [OF shaped_batch_shapes] by (auto simp: Let_def)
qed

text \<open>Two completions of one prompt and a result with nothing to train on.\<close>

definition example_result :: "int list \<Rightarrow> bool list \<Rightarrow> rat \<Rightarrow> (int, rat) tokenized_result" where
  "example_result ts m w = \<lparr>tr_token_ids = ts, tr_input_pos = map int [0..<length ts], tr_assistant_mask = m,
     tr_logprobs = ts, tr_advantage = w, tr_weight = w, tr_prompt_id = 0, tr_prompt_length = 4,
     tr_pixel_values = None, tr_image_grid = None, tr_routes = None\<rparr>"

definition example_options :: "rat pack_options" where
  "example_options = \<lparr>op_seq_len = 8, op_pad_token = - 100, op_truncate = True, op_balance = 0,
     op_pack_results = True, op_include_moe = False, op_min_shared = 1\<rparr>"

definition example_results :: "(int, rat) tokenized_result list" where
  "example_results = [example_result [1, 2, 3, 4, 5] [False, False, False, False, True] 1,
     example_result [1, 2, 3, 4, 6] [False, False, False, False, True] 3,
     example_result [1, 2, 3, 4, 7] [False, False, False, False, False] 5]"

lemma rl_example:
  "case pack_tokenized_results 0 (\<lambda>n. [0..<n]) example_options example_results of
     Inl e \<Rightarrow> False
   | Inr out \<Rightarrow> map rl_tokens (pk_rows out) = [[1, 2, 3, 4, 5, 4, 6, - 100]] \<and>
       pk_weights out = [[0, 0, 0, 0, 1 / 2, 0, 3 / 2, 0]] \<and> pk_physical_tokens out = 7 \<and> pk_logical_tokens out = 10 \<and>
       any_trainable (map rl_mask (pk_rows out)) \<and> mean (selected (map rl_mask (pk_rows out)) (map rl_weights (pk_rows out))) = 2"
  by code_simp

theorem trained_tokens_unshared_witness:
  "\<exists>out. pack_tokenized_results 0 (\<lambda>n. [0..<n]) example_options example_results = Inr out \<and>
    (\<exists>planned. list_all2 (row_reads 8) planned (pk_rows out)) \<and>
    mean (selected (map rl_mask (pk_rows out)) (pk_weights out)) = 1"
proof -
  obtain out where out: "pack_tokenized_results 0 (\<lambda>n. [0..<n]) example_options example_results = Inr out"
    "any_trainable (map rl_mask (pk_rows out))" "mean (selected (map rl_mask (pk_rows out)) (map rl_weights (pk_rows out))) = 2"
    using rl_example by (auto split: sum.splits)
  have "\<forall>n. mset [0..<n] = mset [0..<n]" by simp
  from trained_tokens_unshared [OF out(1) this] out(2,3) have
    "\<exists>planned. list_all2 (row_reads (op_seq_len example_options)) planned (pk_rows out)"
    "mean (selected (map rl_mask (pk_rows out)) (pk_weights out)) = 1" by (auto simp: Let_def)
  with out(1) show ?thesis by (intro exI [of _ out]) (simp add: example_options_def)
qed

end
