(* ===== verification/Token_Exchange.thy ===== *)
theory Token_Exchange
  imports Art_Prelude "HOL-Library.Product_Lexorder"
begin

text \<open>
  \<^verbatim>\<open>src/art/megatron/gdn/layout.py\<close>: moving the rows of a tensor between two layouts of
  the tokens over the ranks of a context-parallel group, once to the layout the recurrent
  layers need and once back.
\<close>

section \<open>Transfers and plans\<close>

text \<open>
  A range \<open>(start, fin, position)\<close> owns the tokens \<open>start..<fin\<close> and holds them from row
  \<open>position\<close> on.  Positions are kept twice, as a tuple for planning and as a tensor for
  the exchange; the device of the tensor is left out.
\<close>

type_synonym token_range = "int \<times> int \<times> int"

record peer_transfer =
  tf_source :: nat
  tf_dest :: nat
  tf_count :: nat
  tf_source_cpu :: "int list option"
  tf_dest_cpu :: "int list option"
  tf_source_tensor :: "int list option"
  tf_dest_tensor :: "int list option"

definition no_transfer :: "nat \<Rightarrow> nat \<Rightarrow> peer_transfer" where
  "no_transfer s d = \<lparr>tf_source = s, tf_dest = d, tf_count = 0, tf_source_cpu = None, tf_dest_cpu = None,
     tf_source_tensor = None, tf_dest_tensor = None\<rparr>"

definition new_transfer :: "peer_transfer \<Rightarrow> peer_transfer result" where
  "new_transfer t =
     ensure (\<forall>xs \<in> set [tf_source_cpu t, tf_dest_cpu t, tf_source_tensor t, tf_dest_tensor t].
               case xs of None \<Rightarrow> True | Some ps \<Rightarrow> length ps = tf_count t)
       (ValueError ''token, source, and destination position counts differ'') (Inr t)"

record exchange_plan =
  xp_cp_size :: nat
  xp_source_counts :: "nat list"
  xp_dest_counts :: "nat list"
  xp_transfers :: "peer_transfer list"
  xp_cross :: "nat option"

definition new_exchange_plan :: "exchange_plan \<Rightarrow> exchange_plan result" where
  "new_exchange_plan p =
     ensure (length (xp_source_counts p) = xp_cp_size p) (ValueError ''source token count length must equal cp_size'')
    (ensure (length (xp_dest_counts p) = xp_cp_size p) (ValueError ''destination token count length must equal cp_size'')
       (Inr p))"

definition cross_rank_token_count :: "exchange_plan \<Rightarrow> nat" where
  "cross_rank_token_count p =
     (case xp_cross p of
        Some n \<Rightarrow> n
      | None \<Rightarrow> sum_list (map tf_count (filter (\<lambda>t. tf_source t \<noteq> tf_dest t) (xp_transfers p))))"

section \<open>Planning\<close>

fun normalize_ranges :: "int \<Rightarrow> token_range list \<Rightarrow> token_range list result" where
  "normalize_ranges cursor [] = Inr []"
| "normalize_ranges cursor ((start, fin, position) # ranges) =
     ensure (\<not> (start < 0 \<or> fin < start)) (ValueError ''has invalid range'')
    (ensure (position = cursor) (ValueError ''positions must be contiguous'')
    (bindE (normalize_ranges (cursor + (fin - start)) ranges) (\<lambda>rest. Inr ((start, fin, position) # rest))))"

definition normalize_rank_ranges :: "nat \<Rightarrow> token_range list list \<Rightarrow> token_range list list result" where
  "normalize_rank_ranges cp_size by_rank =
     ensure (length by_rank = cp_size) (ValueError ''dest_ranges_by_rank must have cp_size ranks'')
       (mapE (normalize_ranges 0) by_rank)"

text \<open>The overlaps of two sorted lists of ranges: first rows on both sides, and length.\<close>

fun overlaps :: "token_range list \<Rightarrow> token_range list \<Rightarrow> (int \<times> int \<times> int) list" where
  "overlaps [] ds = []"
| "overlaps (s # ss) [] = []"
| "overlaps ((ss, se, sp) # srest) ((ds, de, dp) # drest) =
     (let lo = max ss ds; hi = min se de;
          here = (if lo < hi then [(sp + lo - ss, dp + lo - ds, hi - lo)] else []) in
      if se \<le> de then here @ overlaps srest ((ds, de, dp) # drest)
      else here @ overlaps ((ss, se, sp) # srest) drest)"

definition intersection_positions :: "token_range list \<Rightarrow> token_range list \<Rightarrow> int list \<times> int list" where
  "intersection_positions src dst =
     (let os = overlaps (sort_key (\<lambda>(s, e, p). (s, e)) src) (sort_key (\<lambda>(s, e, p). (s, e)) dst) in
      (concat (map (\<lambda>(a, b, n). [a..a + n - 1]) os), concat (map (\<lambda>(a, b, n). [b..b + n - 1]) os)))"

definition full_identity_transfer :: "nat \<Rightarrow> nat \<Rightarrow> int list \<Rightarrow> int list \<Rightarrow> nat \<Rightarrow> nat \<Rightarrow> bool" where
  "full_identity_transfer s d source_positions dest_positions source_count dest_count \<longleftrightarrow>
     s = d \<and> source_count = dest_count \<and> length source_positions = source_count \<and>
     length dest_positions = dest_count \<and>
     source_positions = map int [0..<source_count] \<and> dest_positions = map int [0..<source_count]"

definition make_peer_transfer :: "nat \<Rightarrow> nat \<Rightarrow> int list \<Rightarrow> int list \<Rightarrow> nat \<Rightarrow> nat \<Rightarrow> peer_transfer result" where
  "make_peer_transfer s d source_positions dest_positions source_count dest_count =
     ensure (length source_positions = length dest_positions) (ValueError ''source and destination position counts differ'')
       (let identity = full_identity_transfer s d source_positions dest_positions source_count dest_count;
            sp = (if identity then None else Some source_positions); dp = (if identity then None else Some dest_positions) in
        new_transfer \<lparr>tf_source = s, tf_dest = d, tf_count = length source_positions, tf_source_cpu = sp, tf_dest_cpu = dp,
          tf_source_tensor = sp, tf_dest_tensor = dp\<rparr>)"

text \<open>\<^verbatim>\<open>TokenLayoutIndex\<close>: the ranges each rank owns, and its number of tokens.\<close>

record token_layout_index =
  li_ranges :: "token_range list list"
  li_counts :: "nat list"

definition range_total :: "token_range list \<Rightarrow> nat" where
  "range_total ranges = nat (sum_list (map (\<lambda>(s, e, p). e - s) ranges))"

definition local_transfers :: "token_layout_index \<Rightarrow> token_range list list \<Rightarrow> nat list \<Rightarrow> nat \<Rightarrow> peer_transfer list result" where
  "local_transfers layout dst dest_counts local_rank =
     bindE (mapE (\<lambda>(s, d).
         let (sp, dp) = intersection_positions (li_ranges layout ! s) (dst ! d) in
         if sp = [] then Inr []
         else bindE (make_peer_transfer s d sp dp (li_counts layout ! s) (dest_counts ! d)) (\<lambda>t. Inr [t]))
       [(s, d). d \<leftarrow> [0..<length dst], s \<leftarrow> (if d = local_rank then [0..<length dst] else [local_rank])])
     (\<lambda>ts. Inr (concat ts))"

definition local_exchange_plan :: "token_layout_index \<Rightarrow> token_range list list \<Rightarrow> int \<Rightarrow> nat \<Rightarrow> exchange_plan result" where
  "local_exchange_plan layout dest_ranges_by_rank local_rank cross =
     (let cp_size = length (li_counts layout) in
      ensure (length dest_ranges_by_rank = cp_size) (ValueError ''destination range rank count must equal cp_size'')
     (ensure (\<not> (local_rank < 0 \<or> local_rank \<ge> int cp_size)) (ValueError ''local_rank must be in range'')
     (bindE (normalize_rank_ranges cp_size dest_ranges_by_rank) (\<lambda>dst.
      let dest_counts = map range_total dst in
      bindE (local_transfers layout dst dest_counts (nat local_rank)) (\<lambda>ts.
      new_exchange_plan \<lparr>xp_cp_size = cp_size, xp_source_counts = li_counts layout, xp_dest_counts = dest_counts,
        xp_transfers = sort_key (\<lambda>t. (tf_source t, tf_dest t)) ts, xp_cross = Some cross\<rparr>)))))"

definition reverse_transfer :: "peer_transfer \<Rightarrow> peer_transfer result" where
  "reverse_transfer t =
     new_transfer \<lparr>tf_source = tf_dest t, tf_dest = tf_source t, tf_count = tf_count t, tf_source_cpu = tf_dest_cpu t,
       tf_dest_cpu = tf_source_cpu t, tf_source_tensor = tf_dest_tensor t, tf_dest_tensor = tf_source_tensor t\<rparr>"

definition reverse_exchange_plan :: "exchange_plan \<Rightarrow> exchange_plan result" where
  "reverse_exchange_plan p =
     bindE (mapE reverse_transfer (sort_key (\<lambda>t. (tf_dest t, tf_source t)) (xp_transfers p))) (\<lambda>ts.
     new_exchange_plan \<lparr>xp_cp_size = xp_cp_size p, xp_source_counts = xp_dest_counts p, xp_dest_counts = xp_source_counts p,
       xp_transfers = ts, xp_cross = xp_cross p\<rparr>)"

section \<open>Reading a plan\<close>

definition transfer_of :: "exchange_plan \<Rightarrow> nat \<Rightarrow> nat \<Rightarrow> peer_transfer" where
  "transfer_of p s d =
     (case find (\<lambda>t. tf_source t = s \<and> tf_dest t = d) (xp_transfers p) of Some t \<Rightarrow> t | None \<Rightarrow> no_transfer s d)"

definition check_rank :: "exchange_plan \<Rightarrow> int \<Rightarrow> unit result" where
  "check_rank p rank = ensure (\<not> (rank < 0 \<or> rank \<ge> int (xp_cp_size p))) (ValueError ''rank must be in range'') (Inr ())"

definition implicit_full_identity :: "peer_transfer \<Rightarrow> nat \<Rightarrow> nat \<Rightarrow> bool" where
  "implicit_full_identity t source_count dest_count \<longleftrightarrow>
     tf_source t = tf_dest t \<and> tf_count t = source_count \<and> source_count = dest_count \<and>
     tf_source_tensor t = None \<and> tf_dest_tensor t = None"

definition identity_for :: "exchange_plan \<Rightarrow> peer_transfer \<Rightarrow> bool" where
  "identity_for p t = implicit_full_identity t (xp_source_counts p ! tf_source t) (xp_dest_counts p ! tf_dest t)"

definition index_tensor :: "int list option \<Rightarrow> int list result" where
  "index_tensor t =
     (case t of None \<Rightarrow> Inl (ValueError ''non-identity GDN CP transfer requires an index tensor'') | Some ps \<Rightarrow> Inr ps)"

section \<open>Tensor operations\<close>

text \<open>
  Rows are elements of a type \<open>'a\<close>.  A fresh tensor holds \<open>None\<close> until it is written.
  Indices out of range raise; \<^verbatim>\<open>index_copy_\<close> and \<^verbatim>\<open>index_add_\<close> want one row per index.
\<close>

definition index_select :: "'a list \<Rightarrow> int list \<Rightarrow> 'a list result" where
  "index_select xs ps =
     ensure (\<forall>p \<in> set ps. 0 \<le> p \<and> p < int (length xs)) IndexError (Inr (map (\<lambda>p. xs ! nat p) ps))"

definition write_rows :: "('a option \<Rightarrow> 'a \<Rightarrow> 'a option) \<Rightarrow> 'a option list \<Rightarrow> int list \<Rightarrow> 'a list \<Rightarrow> 'a option list result" where
  "write_rows f out ps rws =
     ensure (length ps = length rws \<and> (\<forall>p \<in> set ps. 0 \<le> p \<and> p < int (length out))) IndexError
       (Inr (foldl (\<lambda>out (p, r). out[nat p := f (out ! nat p) r]) out (zip ps rws)))"

definition index_copy :: "'a option list \<Rightarrow> int list \<Rightarrow> 'a list \<Rightarrow> 'a option list result" where
  "index_copy = write_rows (\<lambda>old r. Some r)"

definition index_add :: "'a::plus option list \<Rightarrow> int list \<Rightarrow> 'a list \<Rightarrow> 'a option list result" where
  "index_add = write_rows (\<lambda>old r. map_option (\<lambda>v. v + r) old)"

section \<open>The exchange of one rank\<close>

definition recv_split_sizes :: "exchange_plan \<Rightarrow> nat \<Rightarrow> nat list" where
  "recv_split_sizes p rank = map (\<lambda>s. tf_count (transfer_of p s rank)) [0..<xp_cp_size p]"

text \<open>The rows one rank sends to another.\<close>

definition rows_for :: "exchange_plan \<Rightarrow> 'a list \<Rightarrow> peer_transfer \<Rightarrow> 'a list result" where
  "rows_for p local_rows t =
     (if tf_count t = 0 then Inr []
      else if identity_for p t then Inr local_rows
      else bindE (index_tensor (tf_source_tensor t)) (index_select local_rows))"

definition pack_rank_send_tensor :: "exchange_plan \<Rightarrow> nat \<Rightarrow> 'a list \<Rightarrow> 'a list result" where
  "pack_rank_send_tensor p source_rank local_rows =
     bindE (check_rank p (int source_rank)) (\<lambda>_.
     ensure (length local_rows = xp_source_counts p ! source_rank) (ValueError ''rank tensor has another number of rows'')
       (bindE (mapE (\<lambda>d. rows_for p local_rows (transfer_of p source_rank d)) [0..<xp_cp_size p]) (\<lambda>pieces. Inr (concat pieces))))"

text \<open>The loop over the source ranks; \<open>offset\<close> is the loop variable.\<close>

fun unpack_from :: "exchange_plan \<Rightarrow> nat \<Rightarrow> 'a list \<Rightarrow> nat list \<Rightarrow> nat \<Rightarrow> 'a option list \<Rightarrow> 'a option list result" where
  "unpack_from p dest_rank recv [] offset out = Inr out"
| "unpack_from p dest_rank recv (s # ss) offset out =
     (let t = transfer_of p s dest_rank; n = tf_count t; peer_rows = slice recv offset (offset + n) in
      if n = 0 then unpack_from p dest_rank recv ss offset out
      else bindE (if identity_for p t then Inr (map Some peer_rows)
                  else bindE (index_tensor (tf_dest_tensor t)) (\<lambda>ps. index_copy out ps peer_rows))
        (unpack_from p dest_rank recv ss (offset + n)))"

definition unpack_rank_recv_tensor :: "exchange_plan \<Rightarrow> nat \<Rightarrow> 'a list \<Rightarrow> 'a option list result" where
  "unpack_rank_recv_tensor p dest_rank recv =
     bindE (check_rank p (int dest_rank)) (\<lambda>_.
     ensure (length recv = sum_list (recv_split_sizes p dest_rank)) (ValueError ''recv buffer has another number of rows'')
       (unpack_from p dest_rank recv [0..<xp_cp_size p] 0 (replicate (xp_dest_counts p ! dest_rank) None)))"

definition exchange_rank_tensor_local :: "exchange_plan \<Rightarrow> nat \<Rightarrow> 'a list \<Rightarrow> 'a option list result" where
  "exchange_rank_tensor_local p rank local_rows =
     (if implicit_full_identity (transfer_of p rank rank) (xp_source_counts p ! rank) (xp_dest_counts p ! rank)
      then Inr (map Some local_rows)
      else bindE (pack_rank_send_tensor p rank local_rows) (unpack_rank_recv_tensor p rank))"

section \<open>The exchange across ranks\<close>

definition transfer_dest_positions :: "exchange_plan \<Rightarrow> peer_transfer \<Rightarrow> int list result" where
  "transfer_dest_positions p t =
     (if tf_count t = 0 then Inr []
      else if identity_for p t then Inr (map int [0..<tf_count t])
      else let positions = (case tf_dest_cpu t of Some ps \<Rightarrow> ps | None \<Rightarrow> (case tf_dest_tensor t of Some ps \<Rightarrow> ps | None \<Rightarrow> [])) in
        ensure (length positions = tf_count t)
          (ValueError ''GDN CP transfer destination positions must match token_count'') (Inr positions))"

definition rank_recv_write_positions :: "exchange_plan \<Rightarrow> nat \<Rightarrow> int list result" where
  "rank_recv_write_positions p rank =
     bindE (mapE (\<lambda>s. transfer_dest_positions p (transfer_of p s rank)) [0..<xp_cp_size p]) (\<lambda>pss. Inr (concat pss))"

definition cross_send_split_sizes :: "exchange_plan \<Rightarrow> nat \<Rightarrow> nat list" where
  "cross_send_split_sizes p rank = map (\<lambda>d. if d = rank then 0 else tf_count (transfer_of p rank d)) [0..<xp_cp_size p]"

definition cross_recv_split_sizes :: "exchange_plan \<Rightarrow> nat \<Rightarrow> nat list" where
  "cross_recv_split_sizes p rank = map (\<lambda>s. if s = rank then 0 else tf_count (transfer_of p s rank)) [0..<xp_cp_size p]"

definition write_positions :: "bool \<Rightarrow> 'a::plus option list \<Rightarrow> int list \<Rightarrow> 'a list \<Rightarrow> 'a option list result" where
  "write_positions accumulate out ps rws = (if accumulate then index_add out ps rws else index_copy out ps rws)"

definition init_rank_exchange_output :: "exchange_plan \<Rightarrow> nat \<Rightarrow> bool \<Rightarrow> bool \<Rightarrow> 'a::monoid_add list \<Rightarrow> 'a option list result" where
  "init_rank_exchange_output p rank accumulate zero_init local_rows =
     (let n = xp_dest_counts p ! rank; out = replicate n (if zero_init then Some 0 else None); t = transfer_of p rank rank in
      if tf_count t = 0 then Inr out
      else if identity_for p t then
        Inr (if accumulate then map2 (\<lambda>o' v. map_option (\<lambda>u. u + v) o') out local_rows else map Some local_rows)
      else bindE (index_tensor (tf_source_tensor t)) (\<lambda>sp.
        bindE (index_tensor (tf_dest_tensor t)) (\<lambda>dp.
        bindE (index_select local_rows sp) (\<lambda>rws. write_positions accumulate out dp rws))))"

definition pack_rank_cross_send_tensor :: "exchange_plan \<Rightarrow> nat \<Rightarrow> 'a list \<Rightarrow> 'a list result" where
  "pack_rank_cross_send_tensor p source_rank local_rows =
     bindE (mapE (\<lambda>d. let t = transfer_of p source_rank d in
         if d = source_rank \<or> tf_count t = 0 then Inr []
         else bindE (index_tensor (tf_source_tensor t)) (index_select local_rows)) [0..<xp_cp_size p])
       (\<lambda>pieces. Inr (concat pieces))"

fun unpack_cross_from :: "exchange_plan \<Rightarrow> nat \<Rightarrow> bool \<Rightarrow> 'a::plus list \<Rightarrow> nat list \<Rightarrow> nat \<Rightarrow> 'a option list \<Rightarrow> 'a option list result" where
  "unpack_cross_from p dest_rank accumulate recv [] offset out = Inr out"
| "unpack_cross_from p dest_rank accumulate recv (s # ss) offset out =
     (let t = transfer_of p s dest_rank; n = tf_count t in
      if s = dest_rank \<or> n = 0 then unpack_cross_from p dest_rank accumulate recv ss offset out
      else bindE (index_tensor (tf_dest_tensor t)) (\<lambda>ps.
        bindE (write_positions accumulate out ps (slice recv offset (offset + n)))
          (unpack_cross_from p dest_rank accumulate recv ss (offset + n))))"

definition unpack_rank_cross_recv_tensor_into :: "exchange_plan \<Rightarrow> nat \<Rightarrow> bool \<Rightarrow> 'a::plus list \<Rightarrow> 'a option list \<Rightarrow> 'a option list result" where
  "unpack_rank_cross_recv_tensor_into p dest_rank accumulate recv out =
     ensure (length recv = sum_list (cross_recv_split_sizes p dest_rank)) (ValueError ''recv buffer has another number of rows'')
       (unpack_cross_from p dest_rank accumulate recv [0..<xp_cp_size p] 0 out)"

text \<open>
  The part of the exchange before the collective: whether the rank accumulates, its
  prepared output and its send buffer.
\<close>

definition prepare_exchange :: "exchange_plan \<Rightarrow> nat \<Rightarrow> 'a::monoid_add list \<Rightarrow> (bool \<times> 'a option list \<times> 'a list) result" where
  "prepare_exchange p rank local_rows =
     bindE (rank_recv_write_positions p rank) (\<lambda>positions.
     let accumulate = length positions \<noteq> card (set positions);
         zero_init = (accumulate \<or> card (set positions) \<noteq> xp_dest_counts p ! rank) in
     bindE (init_rank_exchange_output p rank accumulate zero_init local_rows) (\<lambda>out.
     bindE (pack_rank_cross_send_tensor p rank local_rows) (\<lambda>send. Inr (accumulate, out, send))))"

text \<open>
  All ranks of the group, the plan of rank \<open>r\<close> being the \<open>r\<close>-th.  \<open>all_to_all\<close> is the
  collective: from the send buffers and their split sizes it makes the receive buffer of
  each rank.  The ranks agree on the count that decides whether it is called.
\<close>

definition exchange_group :: "('a::monoid_add list list \<Rightarrow> nat list list \<Rightarrow> nat \<Rightarrow> 'a list) \<Rightarrow> exchange_plan list \<Rightarrow> 'a list list
    \<Rightarrow> 'a option list list result" where
  "exchange_group all_to_all plans locals =
     (let ranks = [0..<length plans] in
      if list_all (\<lambda>p. cross_rank_token_count p = 0) plans
      then mapE (\<lambda>r. bindE (check_rank (plans ! r) (int r)) (\<lambda>_. exchange_rank_tensor_local (plans ! r) r (locals ! r))) ranks
      else bindE (mapE (\<lambda>r. bindE (check_rank (plans ! r) (int r)) (\<lambda>_.
             ensure (xp_cp_size (plans ! r) = length plans) (ValueError ''process group world size must match plan cp_size'')
               (prepare_exchange (plans ! r) r (locals ! r)))) ranks) (\<lambda>prepared.
           let sends = map (\<lambda>(a, out, send). send) prepared;
               splits = map (\<lambda>r. cross_send_split_sizes (plans ! r) r) ranks in
           mapE (\<lambda>r. let (accumulate, out, send) = prepared ! r in
             unpack_rank_cross_recv_tensor_into (plans ! r) r accumulate (all_to_all sends splits r) out) ranks))"

text \<open>What \<^verbatim>\<open>all_to_all_single\<close> documents: each rank gets its chunk of every send buffer, in rank order.\<close>

definition chunk_of :: "nat list \<Rightarrow> nat \<Rightarrow> 'a list \<Rightarrow> 'a list" where
  "chunk_of sizes d xs = slice xs (sum_list (take d sizes)) (sum_list (take d sizes) + sizes ! d)"

definition delivers :: "('a list list \<Rightarrow> nat list list \<Rightarrow> nat \<Rightarrow> 'a list) \<Rightarrow> bool" where
  "delivers all_to_all \<longleftrightarrow> (\<forall>sends splits d. length splits = length sends \<longrightarrow> d < length sends \<longrightarrow>
     (\<forall>s < length sends. length (splits ! s) = length sends \<and> sum_list (splits ! s) = length (sends ! s)) \<longrightarrow>
     all_to_all sends splits d = concat (map (\<lambda>s. chunk_of (splits ! s) d (sends ! s)) [0..<length sends]))"

definition direct_all_to_all :: "'a list list \<Rightarrow> nat list list \<Rightarrow> nat \<Rightarrow> 'a list" where
  "direct_all_to_all sends splits d = concat (map (\<lambda>s. chunk_of (splits ! s) d (sends ! s)) [0..<length sends])"

lemma direct_delivers: "delivers direct_all_to_all"
  by (simp add: delivers_def direct_all_to_all_def)

text \<open>Two ranks: each gives away its second token and gets one back.\<close>

definition example_layout :: token_layout_index where
  "example_layout = \<lparr>li_ranges = [[(0, 2, 0)], [(2, 4, 0)]], li_counts = [2, 2]\<rparr>"

definition example_dest :: "token_range list list" where
  "example_dest = [[(2, 3, 0), (0, 1, 1)], [(1, 2, 0), (3, 4, 1)]]"

lemma exchange_example:
  "bindE (mapE (\<lambda>r. local_exchange_plan example_layout example_dest (int r) 2) [0, 1]) (\<lambda>plans.
   bindE (exchange_group direct_all_to_all plans [[10, 11], [12, 13 :: int]]) (\<lambda>there.
   bindE (mapE reverse_exchange_plan plans) (\<lambda>back.
   bindE (exchange_group direct_all_to_all back (map (map the) there)) (\<lambda>again. Inr (there, again)))))
   = Inr ([[Some 12, Some 10], [Some 11, Some 13]], [[Some 10, Some 11], [Some 12, Some 13]])"
  by code_simp

section \<open>Ranges and the rows of their tokens\<close>

definition range_tokens :: "token_range list \<Rightarrow> int list" where
  "range_tokens rs = concat (map (\<lambda>(s, e, p). [s..e - 1]) rs)"

definition apart :: "token_range \<Rightarrow> token_range \<Rightarrow> bool" where
  "apart a b = (case (a, b) of ((s, e, p), (s', e', p')) \<Rightarrow> e \<le> s' \<or> e' \<le> s)"

definition before :: "token_range \<Rightarrow> token_range \<Rightarrow> bool" where
  "before a b = (case (a, b) of ((s, e, p), (s', e', p')) \<Rightarrow> e \<le> s')"

definition forwards :: "token_range list \<Rightarrow> bool" where
  "forwards rs \<longleftrightarrow> (\<forall>(s, e, p) \<in> set rs. s \<le> e)"

text \<open>The row of a token.\<close>

definition row_of :: "token_range list \<Rightarrow> int \<Rightarrow> int" where
  "row_of rs t = (case find (\<lambda>(s, e, p). s \<le> t \<and> t < e) rs of Some (s, e, p) \<Rightarrow> p + t - s | None \<Rightarrow> 0)"

lemma range_tokens_set: "t \<in> set (range_tokens rs) \<longleftrightarrow> (\<exists>(s, e, p) \<in> set rs. s \<le> t \<and> t < e)"
  by (force simp: range_tokens_def)

lemma range_tokens_Cons [simp]:
  "range_tokens [] = []" "range_tokens ((s, e, p) # rs) = [s..e - 1] @ range_tokens rs"
  by (simp_all add: range_tokens_def)

lemma row_of_Cons: "row_of ((s, e, p) # rs) t = (if s \<le> t \<and> t < e then p + t - s else row_of rs t)"
  by (simp add: row_of_def)

lemma before_start:
  assumes "sorted_wrt before (r # rs)" and "t \<in> set (range_tokens rs)"
  shows "fst (snd r) \<le> t"
proof -
  obtain s' e' p' where u: "(s', e', p') \<in> set rs" "s' \<le> t" using assms(2) unfolding range_tokens_set by blast
  then have "before r (s', e', p')" using assms(1) by simp
  with u(2) show ?thesis by (cases r) (simp add: before_def)
qed

definition overlap_rows :: "bool \<Rightarrow> (int \<times> int \<times> int) list \<Rightarrow> int list" where
  "overlap_rows src os = concat (map (\<lambda>(a, b, n). let r = (if src then a else b) in [r..r + n - 1]) os)"

lemma overlap_rows_simps [simp]:
  "overlap_rows b [] = []" "overlap_rows b (xs @ ys) = overlap_rows b xs @ overlap_rows b ys"
  by (simp_all add: overlap_rows_def)

lemma upto_shift: "map (\<lambda>t. p + t - s) [lo..hi - 1] = [p + lo - s..p + lo - s + (hi - lo) - 1]" for p s lo hi :: int
proof (rule nth_equalityI)
  fix k assume "k < length (map (\<lambda>t. p + t - s) [lo..hi - 1])"
  then show "map (\<lambda>t. p + t - s) [lo..hi - 1] ! k = [p + lo - s..p + lo - s + (hi - lo) - 1] ! k"
    by (simp add: nth_upto)
qed simp

text \<open>
  The two-pointer loop visits the tokens both lists hold, in increasing order, and
  records their rows on both sides.
\<close>

lemma overlap_set:
  fixes ss se ds de :: int
  assumes "se \<le> de" "\<forall>t \<in> X. se \<le> t" "\<forall>t \<in> Y. de \<le> t"
  shows "{max ss ds..min se de - 1} \<union> (X \<inter> ({ds..de - 1} \<union> Y)) = ({ss..se - 1} \<union> X) \<inter> ({ds..de - 1} \<union> Y)"
proof (intro set_eqI iffI)
  fix t assume "t \<in> {max ss ds..min se de - 1} \<union> (X \<inter> ({ds..de - 1} \<union> Y))"
  then show "t \<in> ({ss..se - 1} \<union> X) \<inter> ({ds..de - 1} \<union> Y)" by auto
next
  fix t assume t: "t \<in> ({ss..se - 1} \<union> X) \<inter> ({ds..de - 1} \<union> Y)"
  show "t \<in> {max ss ds..min se de - 1} \<union> (X \<inter> ({ds..de - 1} \<union> Y))"
  proof (cases "t \<in> X")
    case True
    with t show ?thesis by blast
  next
    case False
    then have "ss \<le> t" "t < se" using t by auto
    then have "t \<notin> Y" using assms(1,3) by force
    with t have "ds \<le> t" by auto
    with \<open>ss \<le> t\<close> \<open>t < se\<close> assms(1) show ?thesis by auto
  qed
qed

lemma overlaps_spec:
  assumes "sorted_wrt before ss" "sorted_wrt before ds" "forwards ss" "forwards ds"
  shows "\<exists>ts. sorted_wrt (<) ts \<and> set ts = set (range_tokens ss) \<inter> set (range_tokens ds) \<and>
    overlap_rows True (overlaps ss ds) = map (row_of ss) ts \<and> overlap_rows False (overlaps ss ds) = map (row_of ds) ts"
  using assms
proof (induction ss ds rule: overlaps.induct)
  case (3 ss se sp srest ds de dp drest)
  let ?S = "(ss, se, sp)" and ?D = "(ds, de, dp)"
  let ?lo = "max ss ds" and ?hi = "min se de"
  let ?here = "if ?lo < ?hi then [(sp + ?lo - ss, dp + ?lo - ds, ?hi - ?lo)] else []"
  have le: "ss \<le> se" "ds \<le> de" using "3.prems"(3,4) by (simp_all add: forwards_def)
  have sb: "se \<le> t" if "t \<in> set (range_tokens srest)" for t using before_start [OF "3.prems"(1) that] by simp
  have db: "de \<le> t" if "t \<in> set (range_tokens drest)" for t using before_start [OF "3.prems"(2) that] by simp
  have here: "overlap_rows True ?here = map (row_of (?S # srest)) [?lo..?hi - 1]"
    "overlap_rows False ?here = map (row_of (?D # drest)) [?lo..?hi - 1]"
  proof -
    have "map (row_of (?S # srest)) [?lo..?hi - 1] = map (\<lambda>t. sp + t - ss) [?lo..?hi - 1]"
      "map (row_of (?D # drest)) [?lo..?hi - 1] = map (\<lambda>t. dp + t - ds) [?lo..?hi - 1]"
      by (auto simp: row_of_Cons)
    then show "overlap_rows True ?here = map (row_of (?S # srest)) [?lo..?hi - 1]"
      "overlap_rows False ?here = map (row_of (?D # drest)) [?lo..?hi - 1]"
      unfolding upto_shift by (auto simp: overlap_rows_def Let_def)
  qed
  show ?case
  proof (cases "se \<le> de")
    case True
    obtain ts where ts: "sorted_wrt (<) ts" "set ts = set (range_tokens srest) \<inter> set (range_tokens (?D # drest))"
      "overlap_rows True (overlaps srest (?D # drest)) = map (row_of srest) ts"
      "overlap_rows False (overlaps srest (?D # drest)) = map (row_of (?D # drest)) ts"
      using "3.IH"(1) [OF refl refl refl True] "3.prems" by (auto simp: forwards_def)
    have ge: "se \<le> t" if "t \<in> set ts" for t using sb ts(2) that by blast
    have "map (row_of srest) ts = map (row_of (?S # srest)) ts" by (auto simp: row_of_Cons dest!: ge)
    moreover have "sorted_wrt (<) ([?lo..?hi - 1] @ ts)"
      using ts(1) by (auto simp: sorted_wrt_append dest!: ge)
    moreover have "set ([?lo..?hi - 1] @ ts) = set (range_tokens (?S # srest)) \<inter> set (range_tokens (?D # drest))"
      using overlap_set [of se de "set (range_tokens srest)" "set (range_tokens drest)" ss ds] sb db True
      unfolding range_tokens_Cons set_append set_upto ts(2) by blast
    moreover have "overlaps (?S # srest) (?D # drest) = ?here @ overlaps srest (?D # drest)"
      using True by (simp add: Let_def)
    ultimately show ?thesis
      by (intro exI [of _ "[?lo..?hi - 1] @ ts"]) (simp only: here ts(3,4) overlap_rows_simps map_append simp_thms)
  next
    case False
    obtain ts where ts: "sorted_wrt (<) ts" "set ts = set (range_tokens (?S # srest)) \<inter> set (range_tokens drest)"
      "overlap_rows True (overlaps (?S # srest) drest) = map (row_of (?S # srest)) ts"
      "overlap_rows False (overlaps (?S # srest) drest) = map (row_of drest) ts"
      using "3.IH"(2) [OF refl refl refl False] "3.prems" by (auto simp: forwards_def)
    have ge: "de \<le> t" if "t \<in> set ts" for t using db ts(2) that by blast
    have "map (row_of drest) ts = map (row_of (?D # drest)) ts" by (auto simp: row_of_Cons dest!: ge)
    moreover have "sorted_wrt (<) ([?lo..?hi - 1] @ ts)"
      using ts(1) by (auto simp: sorted_wrt_append dest!: ge)
    moreover have "set ([?lo..?hi - 1] @ ts) = set (range_tokens (?S # srest)) \<inter> set (range_tokens (?D # drest))"
      using overlap_set [of de se "set (range_tokens drest)" "set (range_tokens srest)" ds ss] sb db False
      unfolding range_tokens_Cons set_append set_upto ts(2) max.commute [of ds ss] min.commute [of de se]
      by (simp add: Int_commute)
    moreover have "overlaps (?S # srest) (?D # drest) = ?here @ overlaps (?S # srest) drest"
      using False by (simp add: Let_def)
    ultimately show ?thesis
      by (intro exI [of _ "[?lo..?hi - 1] @ ts"]) (simp only: here ts(3,4) overlap_rows_simps map_append simp_thms)
  qed
qed auto

section \<open>Sorting the ranges\<close>

lemma apart_sym: "apart a b \<Longrightarrow> apart b a"
  by (auto simp: apart_def)

lemma insort_apart:
  "sorted_wrt apart xs \<Longrightarrow> \<forall>y \<in> set xs. apart x y \<Longrightarrow> sorted_wrt apart (insort_key f x xs)"
  by (induction xs) (auto simp: set_insort_key intro: apart_sym)

lemma sort_apart: "sorted_wrt apart xs \<Longrightarrow> sorted_wrt apart (sort_key f xs)"
proof (induction xs)
  case (Cons x xs)
  have "sort_key f (x # xs) = insort_key f x (sort_key f xs)" by simp
  with Cons show ?case by (simp only: sorted_wrt.simps) (intro insort_apart, simp_all)
qed simp

lemma apart_before:
  assumes "apart a b" and "case (a, b) of ((s, e, p), (s', e', p')) \<Rightarrow> s \<le> e \<and> s' \<le> e' \<and> (s, e) \<le> (s', e')"
  shows "before a b"
  using assms by (auto simp: apart_def before_def split: prod.splits)

lemma sorted_before:
  assumes "sorted_wrt apart rs" and "forwards rs"
  shows "sorted_wrt before (sort_key (\<lambda>(s, e, p). (s, e)) rs)" (is "sorted_wrt before ?rs")
proof -
  have "sorted (map (\<lambda>(s, e, p). (s, e)) ?rs)" by simp
  then have "sorted_wrt (\<lambda>a b. (case a of (s, e, p) \<Rightarrow> (s, e)) \<le> (case b of (s, e, p) \<Rightarrow> (s, e))) ?rs"
    by (simp add: sorted_map)
  moreover have "sorted_wrt apart ?rs" by (rule sort_apart [OF assms(1)])
  ultimately have "sorted_wrt (\<lambda>a b. apart a b \<and> (case a of (s, e, p) \<Rightarrow> (s, e)) \<le> (case b of (s, e, p) \<Rightarrow> (s, e))) ?rs"
    by (simp add: sorted_wrt_iff_nth_less)
  then show ?thesis
  proof (rule sorted_wrt_mono_rel [rotated])
    fix a b assume "a \<in> set ?rs" "b \<in> set ?rs"
      "apart a b \<and> (case a of (s, e, p) \<Rightarrow> (s, e)) \<le> (case b of (s, e, p) \<Rightarrow> (s, e))"
    then show "before a b" using assms(2) by (intro apart_before) (auto simp: forwards_def split: prod.splits)
  qed
qed

lemma row_of_member:
  assumes "sorted_wrt apart rs" and "(s, e, p) \<in> set rs" and "s \<le> t" "t < e"
  shows "row_of rs t = p + t - s"
  using assms
proof (induction rs)
  case (Cons r rs)
  obtain s' e' p' where r: "r = (s', e', p')" by (cases r)
  show ?case
  proof (cases "(s, e, p) = r")
    case True
    with r Cons.prems(3,4) show ?thesis by (simp add: row_of_Cons)
  next
    case False
    then have m: "(s, e, p) \<in> set rs" using Cons.prems(2) by auto
    then have "apart r (s, e, p)" using Cons.prems(1) by simp
    then have "\<not> (s' \<le> t \<and> t < e')" using r Cons.prems(3,4) by (auto simp: apart_def)
    then have "row_of (r # rs) t = row_of rs t" unfolding r row_of_Cons by (rule if_not_P)
    with Cons.IH [OF _ m Cons.prems(3,4)] Cons.prems(1) show ?thesis by simp
  qed
qed simp

lemma range_tokens_cong: "set xs = set ys \<Longrightarrow> set (range_tokens xs) = set (range_tokens ys)"
  by (auto simp: range_tokens_set)

lemma row_of_sorted:
  assumes "sorted_wrt apart rs" and "t \<in> set (range_tokens rs)"
  shows "row_of (sort_key f rs) t = row_of rs t"
proof -
  obtain s e p where r: "(s, e, p) \<in> set rs" "s \<le> t" "t < e" using assms(2) unfolding range_tokens_set by blast
  then show ?thesis
    using row_of_member [OF assms(1) r] row_of_member [OF sort_apart [OF assms(1), of f], of s e p t] by simp
qed

text \<open>The positions two ranks agree on.\<close>

lemma intersection_spec:
  assumes "sorted_wrt apart src" "forwards src" "sorted_wrt apart dst" "forwards dst"
  shows "\<exists>ts. sorted_wrt (<) ts \<and> set ts = set (range_tokens src) \<inter> set (range_tokens dst) \<and>
    intersection_positions src dst = (map (row_of src) ts, map (row_of dst) ts)"
proof -
  let ?key = "\<lambda>(s, e, p :: int). (s :: int, e :: int)"
  have f: "forwards (sort_key ?key rs)" if "forwards rs" for rs using that by (simp add: forwards_def)
  obtain ts where ts: "sorted_wrt (<) ts"
    "set ts = set (range_tokens (sort_key ?key src)) \<inter> set (range_tokens (sort_key ?key dst))"
    "overlap_rows True (overlaps (sort_key ?key src) (sort_key ?key dst)) = map (row_of (sort_key ?key src)) ts"
    "overlap_rows False (overlaps (sort_key ?key src) (sort_key ?key dst)) = map (row_of (sort_key ?key dst)) ts"
    using overlaps_spec [OF sorted_before [OF assms(1,2)] sorted_before [OF assms(3,4)] f [OF assms(2)] f [OF assms(4)]] by blast
  have sets: "set ts = set (range_tokens src) \<inter> set (range_tokens dst)"
    using ts(2) range_tokens_cong [of "sort_key ?key src" src] range_tokens_cong [of "sort_key ?key dst" dst] by simp
  have rows: "map (row_of (sort_key ?key src)) ts = map (row_of src) ts" "map (row_of (sort_key ?key dst)) ts = map (row_of dst) ts"
    using sets row_of_sorted [OF assms(1)] row_of_sorted [OF assms(3)] by auto
  have "intersection_positions src dst = (overlap_rows True (overlaps (sort_key ?key src) (sort_key ?key dst)),
      overlap_rows False (overlaps (sort_key ?key src) (sort_key ?key dst)))"
    by (simp add: intersection_positions_def overlap_rows_def Let_def)
  then show ?thesis using ts(1,3,4) sets rows by (intro exI [of _ ts]) simp
qed

section \<open>Contiguous rows\<close>

text \<open>What the planner checks of the destination: rows are numbered from \<open>c\<close> on without gaps.\<close>

fun contiguous :: "int \<Rightarrow> token_range list \<Rightarrow> bool" where
  "contiguous c [] \<longleftrightarrow> True"
| "contiguous c ((s, e, p) # rs) \<longleftrightarrow> 0 \<le> s \<and> s \<le> e \<and> p = c \<and> contiguous (c + (e - s)) rs"

lemma normalize_ranges_iff: "normalize_ranges c rs = Inr rs' \<longleftrightarrow> contiguous c rs \<and> rs' = rs"
  by (induction c rs arbitrary: rs' rule: normalize_ranges.induct) (auto simp: result_iffs not_less)

lemma contiguous_forwards: "contiguous c rs \<Longrightarrow> forwards rs"
  by (induction c rs rule: contiguous.induct) (auto simp: forwards_def)

lemma contiguous_total: "contiguous c rs \<Longrightarrow> length (range_tokens rs) = range_total rs"
proof (induction c rs rule: contiguous.induct)
  case (2 c s e p rs)
  have "0 \<le> sum_list (map (\<lambda>(s, e, p). e - s) rs)"
    using contiguous_forwards [of "c + (e - s)" rs] 2 by (intro sum_list_nonneg) (auto simp: forwards_def)
  with 2 show ?case by (simp add: range_total_def nat_add_distrib)
qed (simp add: range_total_def)

definition layout_ranges :: "token_range list \<Rightarrow> bool" where
  "layout_ranges rs \<longleftrightarrow> contiguous 0 rs \<and> sorted_wrt apart rs"

lemma row_of_nth:
  "contiguous c rs \<Longrightarrow> sorted_wrt apart rs \<Longrightarrow> k < length (range_tokens rs) \<Longrightarrow> row_of rs (range_tokens rs ! k) = c + int k"
proof (induction c rs arbitrary: k rule: contiguous.induct)
  case (2 c s e p rs)
  show ?case
  proof (cases "int k < e - s")
    case True
    then have "k < nat (e - s)" by (simp add: zless_nat_eq_int_zless)
    with True have "range_tokens ((s, e, p) # rs) ! k = s + int k" by (simp add: nth_append nth_upto)
    with True 2(2) show ?thesis by (simp add: row_of_Cons)
  next
    case False
    let ?k = "k - nat (e - s)"
    have k: "?k < length (range_tokens rs)" "range_tokens ((s, e, p) # rs) ! k = range_tokens rs ! ?k"
    proof -
      have "\<not> k < nat (e - s)" using False by (simp add: zless_nat_eq_int_zless)
      then show "?k < length (range_tokens rs)" "range_tokens ((s, e, p) # rs) ! k = range_tokens rs ! ?k"
        using 2(2,4) by (simp_all add: nth_append)
    qed
    then have "range_tokens rs ! ?k \<in> set (range_tokens rs)" by simp
    then obtain s' e' p' where r: "(s', e', p') \<in> set rs" "s' \<le> range_tokens rs ! ?k" "range_tokens rs ! ?k < e'"
      unfolding range_tokens_set by blast
    then have "\<not> (s \<le> range_tokens rs ! ?k \<and> range_tokens rs ! ?k < e)"
      using 2(3) by (force simp: apart_def)
    with k 2 False show ?thesis by (simp add: row_of_Cons)
  qed
qed simp

lemma row_of_bij:
  assumes "layout_ranges rs"
  shows "distinct (range_tokens rs)"
    and "k < length (range_tokens rs) \<Longrightarrow> row_of rs (range_tokens rs ! k) = int k"
    and "t \<in> set (range_tokens rs) \<Longrightarrow> 0 \<le> row_of rs t \<and> row_of rs t < int (length (range_tokens rs)) \<and>
      range_tokens rs ! nat (row_of rs t) = t"
proof -
  note nth = row_of_nth [of 0 rs]
  show row: "row_of rs (range_tokens rs ! k) = int k" if "k < length (range_tokens rs)" for k
    using nth that assms by (simp add: layout_ranges_def)
  show "distinct (range_tokens rs)"
    unfolding distinct_conv_nth using row by (metis of_nat_eq_iff)
  show "0 \<le> row_of rs t \<and> row_of rs t < int (length (range_tokens rs)) \<and> range_tokens rs ! nat (row_of rs t) = t"
    if "t \<in> set (range_tokens rs)"
    using that row unfolding in_set_conv_nth by force
qed

section \<open>What a plan carries\<close>

text \<open>
  A route from rank \<open>s\<close> to rank \<open>d\<close> is a list of row pairs.  \<open>carries\<close> says that a
  transfer encodes a route, with its tensors or as the implicit identity.
\<close>

type_synonym route = "(nat \<times> nat) list"

definition identity_route :: "nat \<Rightarrow> route" where
  "identity_route n = map (\<lambda>k. (k, k)) [0..<n]"

definition carries :: "exchange_plan \<Rightarrow> peer_transfer \<Rightarrow> nat \<Rightarrow> nat \<Rightarrow> route \<Rightarrow> bool" where
  "carries p t s d ps \<longleftrightarrow> tf_source t = s \<and> tf_dest t = d \<and> tf_count t = length ps \<and>
     (if identity_for p t then ps = identity_route (xp_source_counts p ! s) \<and> xp_source_counts p ! s = xp_dest_counts p ! d
      else ps \<noteq> [] \<longrightarrow> tf_source_tensor t = Some (map (int \<circ> fst) ps) \<and> tf_dest_tensor t = Some (map (int \<circ> snd) ps) \<and>
        tf_source_cpu t = Some (map (int \<circ> fst) ps) \<and> tf_dest_cpu t = Some (map (int \<circ> snd) ps))"

definition realises :: "nat \<Rightarrow> nat list \<Rightarrow> nat list \<Rightarrow> (nat \<Rightarrow> nat \<Rightarrow> route) \<Rightarrow> nat \<Rightarrow> exchange_plan \<Rightarrow> bool" where
  "realises n sc dc R r p \<longleftrightarrow> xp_cp_size p = n \<and> xp_source_counts p = sc \<and> xp_dest_counts p = dc \<and>
     length sc = n \<and> length dc = n \<and>
     (\<forall>t \<in> set (xp_transfers p). new_transfer t = Inr t \<and>
        tf_source t < n \<and> tf_dest t < n \<and> (tf_source t = r \<or> tf_dest t = r) \<and>
        (\<forall>t' \<in> set (xp_transfers p). tf_source t' = tf_source t \<and> tf_dest t' = tf_dest t \<longrightarrow> t' = t)) \<and>
     (\<forall>s < n. \<forall>d < n. s = r \<or> d = r \<longrightarrow> carries p (transfer_of p s d) s d (R s d))"

lemma realisesD:
  assumes "realises n sc dc R r p"
  shows "xp_cp_size p = n" "xp_source_counts p = sc" "xp_dest_counts p = dc" "length sc = n" "length dc = n"
    "s < n \<Longrightarrow> d < n \<Longrightarrow> s = r \<or> d = r \<Longrightarrow> carries p (transfer_of p s d) s d (R s d)"
  using assms by (auto simp: realises_def)

text \<open>The transfer the planner makes of a route.\<close>

definition transfer_for :: "nat \<Rightarrow> nat \<Rightarrow> route \<Rightarrow> nat \<Rightarrow> nat \<Rightarrow> peer_transfer" where
  "transfer_for s d ps sc dc =
     (let same = s = d \<and> sc = dc \<and> ps = identity_route sc;
          sp = (if same then None else Some (map (int \<circ> fst) ps)); dp = (if same then None else Some (map (int \<circ> snd) ps)) in
      \<lparr>tf_source = s, tf_dest = d, tf_count = length ps, tf_source_cpu = sp, tf_dest_cpu = dp, tf_source_tensor = sp, tf_dest_tensor = dp\<rparr>)"

lemma full_identity_route:
  "full_identity_transfer s d (map (int \<circ> fst) ps) (map (int \<circ> snd) ps) sc dc \<longleftrightarrow> s = d \<and> sc = dc \<and> ps = identity_route sc"
proof -
  have "map (int \<circ> fst) ps = map int [0..<sc] \<and> map (int \<circ> snd) ps = map int [0..<sc] \<longleftrightarrow> ps = identity_route sc"
  proof
    assume eq: "map (int \<circ> fst) ps = map int [0..<sc] \<and> map (int \<circ> snd) ps = map int [0..<sc]"
    then have "map fst ps = [0..<sc]" "map snd ps = [0..<sc]"
      by (metis (no_types, lifting) inj_map_eq_map inj_of_nat map_map)+
    then show "ps = identity_route sc" by (metis identity_route_def zip_map_fst_snd zip_same_conv_map)
  qed (auto simp: identity_route_def comp_def)
  then show ?thesis unfolding full_identity_transfer_def
    by (auto simp: identity_route_def)
qed

lemma make_peer_transfer_route:
  "make_peer_transfer s d (map (int \<circ> fst) ps) (map (int \<circ> snd) ps) sc dc = Inr (transfer_for s d ps sc dc)"
  by (simp add: make_peer_transfer_def full_identity_route transfer_for_def new_transfer_def Let_def)

lemma transfer_for_valid:
  "new_transfer (transfer_for s d ps sc dc) = Inr (transfer_for s d ps sc dc)"
  by (simp add: transfer_for_def new_transfer_def Let_def)

lemma transfer_for_carries:
  assumes "xp_source_counts p ! s = sc" "xp_dest_counts p ! d = dc"
  shows "carries p (transfer_for s d ps sc dc) s d ps"
  using assms
  by (auto simp: carries_def transfer_for_def identity_for_def implicit_full_identity_def Let_def identity_route_def)

lemma no_transfer_carries: "carries p (no_transfer s d) s d []"
  by (auto simp: carries_def no_transfer_def identity_for_def implicit_full_identity_def identity_route_def)

section \<open>The plan of a rank\<close>

text \<open>The tokens two ranks share, in increasing order, and their rows on both sides.\<close>

definition common_tokens :: "token_range list \<Rightarrow> token_range list \<Rightarrow> int list" where
  "common_tokens a b = sorted_list_of_set (set (range_tokens a) \<inter> set (range_tokens b))"

definition route_between :: "token_range list \<Rightarrow> token_range list \<Rightarrow> route" where
  "route_between a b = map (\<lambda>t. (nat (row_of a t), nat (row_of b t))) (common_tokens a b)"

lemma intersection_route:
  assumes "layout_ranges a" "layout_ranges b"
  shows "intersection_positions a b = (map (int \<circ> fst) (route_between a b), map (int \<circ> snd) (route_between a b))"
proof -
  obtain ts where ts: "sorted_wrt (<) ts" "set ts = set (range_tokens a) \<inter> set (range_tokens b)"
    "intersection_positions a b = (map (row_of a) ts, map (row_of b) ts)"
    using intersection_spec [of a b] assms contiguous_forwards by (auto simp: layout_ranges_def)
  have "sorted ts \<and> distinct ts" using ts(1) by (simp add: strict_sorted_iff)
  then have "common_tokens a b = ts"
    unfolding common_tokens_def ts(2) [symmetric] by (simp add: sorted_list_of_set.idem_if_sorted_distinct)
  with ts(2,3) row_of_bij(3) [OF assms(1)] row_of_bij(3) [OF assms(2)] show ?thesis
    by (auto simp: route_between_def)
qed

definition layouts_ok :: "token_layout_index \<Rightarrow> token_range list list \<Rightarrow> bool" where
  "layouts_ok layout dst \<longleftrightarrow> length (li_ranges layout) = length dst \<and> li_counts layout = map range_total (li_ranges layout) \<and>
     (\<forall>rs \<in> set (li_ranges layout) \<union> set dst. layout_ranges rs)"

definition routes :: "token_layout_index \<Rightarrow> token_range list list \<Rightarrow> nat \<Rightarrow> nat \<Rightarrow> route" where
  "routes layout dst s d = route_between (li_ranges layout ! s) (dst ! d)"

definition planned_transfer :: "token_layout_index \<Rightarrow> token_range list list \<Rightarrow> nat \<times> nat \<Rightarrow> peer_transfer list" where
  "planned_transfer layout dst = (\<lambda>(s, d). if routes layout dst s d = [] then []
     else [transfer_for s d (routes layout dst s d) (li_counts layout ! s) (range_total (dst ! d))])"

lemma find_SomeD: "find P xs = Some x \<Longrightarrow> x \<in> set xs \<and> P x"
  by (induction xs) (auto split: if_splits)

lemma local_transfers_planned:
  assumes ok: "layouts_ok layout dst" and r: "r < length dst"
  shows "\<exists>pairs. set pairs = {(s, d). s < length dst \<and> d < length dst \<and> (s = r \<or> d = r)} \<and>
    local_transfers layout dst (map range_total dst) r = Inr (concat (map (planned_transfer layout dst) pairs))"
proof -
  let ?pairs = "[(s, d). d \<leftarrow> [0..<length dst], s \<leftarrow> (if d = r then [0..<length dst] else [r])]"
  have pairs: "set ?pairs = {(s, d). s < length dst \<and> d < length dst \<and> (s = r \<or> d = r)}"
    using r by (auto split: if_splits)
  have "mapE (\<lambda>(s, d).
         let (sp, dp) = intersection_positions (li_ranges layout ! s) (dst ! d) in
         if sp = [] then Inr []
         else bindE (make_peer_transfer s d sp dp (li_counts layout ! s) (map range_total dst ! d)) (\<lambda>t. Inr [t])) ?pairs
       = Inr (map (planned_transfer layout dst) ?pairs)"
  proof (rule mapE_Inr_map)
    fix x assume "x \<in> set ?pairs"
    then obtain s d where x: "x = (s, d)" "s < length dst" "d < length dst" unfolding pairs by blast
    have "intersection_positions (li_ranges layout ! s) (dst ! d) =
        (map (int \<circ> fst) (routes layout dst s d), map (int \<circ> snd) (routes layout dst s d))"
      unfolding routes_def using ok x by (intro intersection_route) (simp_all add: layouts_ok_def)
    then show "(\<lambda>(s, d).
         let (sp, dp) = intersection_positions (li_ranges layout ! s) (dst ! d) in
         if sp = [] then Inr []
         else bindE (make_peer_transfer s d sp dp (li_counts layout ! s) (map range_total dst ! d)) (\<lambda>t. Inr [t])) x
       = Inr (planned_transfer layout dst x)"
      using x(3) by (simp add: x(1) planned_transfer_def make_peer_transfer_route)
  qed
  then have "local_transfers layout dst (map range_total dst) r = Inr (concat (map (planned_transfer layout dst) ?pairs))"
    by (simp only: local_transfers_def length_map bindE_simps)
  with pairs show ?thesis by blast
qed

lemma planned_transfer_mem:
  "t \<in> set (planned_transfer layout dst (s, d)) \<longleftrightarrow> routes layout dst s d \<noteq> [] \<and>
     t = transfer_for s d (routes layout dst s d) (li_counts layout ! s) (range_total (dst ! d))"
  by (simp add: planned_transfer_def)

text \<open>A plan whose transfers are those of the nonempty routes of its rank realises the routes.\<close>

lemma transfer_for_key [simp]:
  "tf_source (transfer_for s d ps x y) = s" "tf_dest (transfer_for s d ps x y) = d"
  by (simp_all add: transfer_for_def Let_def)

lemma realises_of_transfers:
  assumes len: "length sc = n" "length dc = n"
    and mem: "\<And>t. t \<in> set ts \<longleftrightarrow> (\<exists>s d. s < n \<and> d < n \<and> (s = r \<or> d = r) \<and> R s d \<noteq> [] \<and>
      t = transfer_for s d (R s d) (sc ! s) (dc ! d))"
  shows "realises n sc dc R r \<lparr>xp_cp_size = n, xp_source_counts = sc, xp_dest_counts = dc, xp_transfers = ts, xp_cross = c\<rparr>"
    (is "realises n sc dc R r ?p")
proof -
  let ?tr = "\<lambda>s d. transfer_for s d (R s d) (sc ! s) (dc ! d)"
  have shape: "t = ?tr (tf_source t) (tf_dest t)" if "t \<in> set ts" for t
  proof -
    obtain s d where "t = ?tr s d" using \<open>t \<in> set ts\<close> unfolding mem by blast
    then show ?thesis by (simp only: transfer_for_key)
  qed
  have ends: "tf_source t < n \<and> tf_dest t < n \<and> (tf_source t = r \<or> tf_dest t = r)" if "t \<in> set ts" for t
  proof -
    obtain s d where "s < n" "d < n" "s = r \<or> d = r" "t = ?tr s d" using \<open>t \<in> set ts\<close> unfolding mem by blast
    then show ?thesis by (simp only: transfer_for_key simp_thms)
  qed
  have "carries ?p (transfer_of ?p s d) s d (R s d)" if sd: "s < n" "d < n" "s = r \<or> d = r" for s d
  proof (cases "find (\<lambda>t. tf_source t = s \<and> tf_dest t = d) ts")
    case None
    have "R s d = []"
    proof (rule ccontr)
      assume "R s d \<noteq> []"
      then have "?tr s d \<in> set ts" unfolding mem using sd by blast
      with None transfer_for_key show False unfolding find_None_iff by blast
    qed
    with None show ?thesis using no_transfer_carries by (simp add: transfer_of_def)
  next
    case (Some t)
    note found = find_SomeD [OF Some]
    have "t = ?tr (tf_source t) (tf_dest t)" by (rule shape [OF conjunct1 [OF found]])
    then have t: "t = ?tr s d" by (simp only: conjunct2 [OF found])
    have "carries ?p (?tr s d) s d (R s d)" by (rule transfer_for_carries) (use sd in simp_all)
    moreover have "transfer_of ?p s d = ?tr s d"
      unfolding transfer_of_def exchange_plan.simps Some option.case by (rule t)
    ultimately show ?thesis by simp
  qed
  moreover have "\<forall>t \<in> set ts. new_transfer t = Inr t \<and> tf_source t < n \<and> tf_dest t < n \<and> (tf_source t = r \<or> tf_dest t = r) \<and>
      (\<forall>t' \<in> set ts. tf_source t' = tf_source t \<and> tf_dest t' = tf_dest t \<longrightarrow> t' = t)"
  proof (intro ballI)
    fix t assume t: "t \<in> set ts"
    have "new_transfer t = Inr t" by (subst (1 2) shape [OF t]) (rule transfer_for_valid)
    moreover have "t' = t" if "t' \<in> set ts" "tf_source t' = tf_source t \<and> tf_dest t' = tf_dest t" for t'
    proof -
      have "t' = ?tr (tf_source t') (tf_dest t')" by (rule shape [OF that(1)])
      also have "\<dots> = ?tr (tf_source t) (tf_dest t)" by (simp only: that(2))
      also have "\<dots> = t" by (rule shape [OF t, symmetric])
      finally show ?thesis .
    qed
    ultimately show "new_transfer t = Inr t \<and> tf_source t < n \<and> tf_dest t < n \<and> (tf_source t = r \<or> tf_dest t = r) \<and>
      (\<forall>t' \<in> set ts. tf_source t' = tf_source t \<and> tf_dest t' = tf_dest t \<longrightarrow> t' = t)" using ends [OF t] by blast
  qed
  ultimately show ?thesis unfolding realises_def exchange_plan.simps len by blast
qed

lemma local_plan_realises:
  assumes ok: "layouts_ok layout dst" and r: "r < length dst"
  shows "\<exists>p. local_exchange_plan layout dst (int r) c = Inr p \<and> xp_cross p = Some c \<and>
    realises (length dst) (li_counts layout) (map range_total dst) (routes layout dst) r p"
proof -
  let ?n = "length dst"
  obtain pairs where pairs: "set pairs = {(s, d). s < ?n \<and> d < ?n \<and> (s = r \<or> d = r)}"
    "local_transfers layout dst (map range_total dst) r = Inr (concat (map (planned_transfer layout dst) pairs))"
    using local_transfers_planned [OF assms] by blast
  have n: "length (li_counts layout) = ?n" using ok by (simp add: layouts_ok_def)
  have "list_all2 (\<lambda>rs rs'. normalize_ranges 0 rs = Inr rs') dst dst"
    using ok by (simp add: list.rel_refl_strong normalize_ranges_iff layouts_ok_def layout_ranges_def)
  then have norm: "normalize_rank_ranges ?n dst = Inr dst" by (simp add: normalize_rank_ranges_def mapE_Inr_iff)
  let ?ts = "sort_key (\<lambda>t. (tf_source t, tf_dest t)) (concat (map (planned_transfer layout dst) pairs))"
  let ?p = "\<lparr>xp_cp_size = ?n, xp_source_counts = li_counts layout, xp_dest_counts = map range_total dst,
    xp_transfers = ?ts, xp_cross = Some c\<rparr>"
  have plan: "local_exchange_plan layout dst (int r) c = Inr ?p"
    using r by (simp add: local_exchange_plan_def n norm pairs(2) Let_def new_exchange_plan_def del: set_sort sort_key_simps)
  have "realises ?n (li_counts layout) (map range_total dst) (routes layout dst) r ?p"
  proof (rule realises_of_transfers)
    fix t
    have "t \<in> set ?ts \<longleftrightarrow> (\<exists>s d. (s, d) \<in> set pairs \<and> t \<in> set (planned_transfer layout dst (s, d)))"
      by (simp add: Bex_def split_paired_Ex)
    also have "\<dots> \<longleftrightarrow> (\<exists>s d. s < ?n \<and> d < ?n \<and> (s = r \<or> d = r) \<and> routes layout dst s d \<noteq> [] \<and>
      t = transfer_for s d (routes layout dst s d) (li_counts layout ! s) (map range_total dst ! d))"
    proof -
      have "(s < ?n \<and> d < ?n \<and> (s = r \<or> d = r)) \<and> routes layout dst s d \<noteq> [] \<and>
          t = transfer_for s d (routes layout dst s d) (li_counts layout ! s) (range_total (dst ! d)) \<longleftrightarrow>
        s < ?n \<and> d < ?n \<and> (s = r \<or> d = r) \<and> routes layout dst s d \<noteq> [] \<and>
          t = transfer_for s d (routes layout dst s d) (li_counts layout ! s) (map range_total dst ! d)" for s d
        by (cases "d < ?n") simp_all
      then show ?thesis unfolding pairs(1) planned_transfer_mem mem_Collect_eq prod.case by blast
    qed
    finally show "t \<in> set ?ts \<longleftrightarrow> (\<exists>s d. s < ?n \<and> d < ?n \<and> (s = r \<or> d = r) \<and> routes layout dst s d \<noteq> [] \<and>
      t = transfer_for s d (routes layout dst s d) (li_counts layout ! s) (map range_total dst ! d))" .
  qed (use n in simp_all)
  with plan show ?thesis by (intro exI [of _ ?p] conjI) (assumption | simp only: exchange_plan.simps)+
qed

section \<open>The reverse plan\<close>

definition swapped :: "peer_transfer \<Rightarrow> peer_transfer" where
  "swapped t = \<lparr>tf_source = tf_dest t, tf_dest = tf_source t, tf_count = tf_count t, tf_source_cpu = tf_dest_cpu t,
     tf_dest_cpu = tf_source_cpu t, tf_source_tensor = tf_dest_tensor t, tf_dest_tensor = tf_source_tensor t\<rparr>"

definition swapped_route :: "(nat \<Rightarrow> nat \<Rightarrow> route) \<Rightarrow> nat \<Rightarrow> nat \<Rightarrow> route" where
  "swapped_route R s d = map prod.swap (R d s)"

lemma swapped_fields [simp]:
  "tf_source (swapped t) = tf_dest t" "tf_dest (swapped t) = tf_source t" "tf_count (swapped t) = tf_count t"
  "tf_source_cpu (swapped t) = tf_dest_cpu t" "tf_dest_cpu (swapped t) = tf_source_cpu t"
  "tf_source_tensor (swapped t) = tf_dest_tensor t" "tf_dest_tensor (swapped t) = tf_source_tensor t"
  by (simp_all add: swapped_def)

lemma new_transfer_iff:
  "new_transfer t = Inr t' \<longleftrightarrow> t' = t \<and> (\<forall>xs \<in> {tf_source_cpu t, tf_dest_cpu t, tf_source_tensor t, tf_dest_tensor t}.
     case xs of None \<Rightarrow> True | Some ps \<Rightarrow> length ps = tf_count t)"
  by (auto simp: new_transfer_def ensure_Inr_iff)

lemma reverse_transfer_valid:
  assumes "new_transfer t = Inr t"
  shows "reverse_transfer t = Inr (swapped t)" "new_transfer (swapped t) = Inr (swapped t)"
proof -
  show "new_transfer (swapped t) = Inr (swapped t)" using assms unfolding new_transfer_iff swapped_fields by blast
  then show "reverse_transfer t = Inr (swapped t)" unfolding reverse_transfer_def swapped_def .
qed

lemma find_perm:
  assumes "set xs = set ys" and "\<And>x y. x \<in> set xs \<Longrightarrow> y \<in> set xs \<Longrightarrow> P x \<Longrightarrow> P y \<Longrightarrow> x = y"
  shows "find P xs = find P ys"
proof (cases "find P xs")
  case None
  then have "find P ys = None" using assms(1) by (simp add: find_None_iff)
  with None show ?thesis by simp
next
  case (Some x)
  note fx = find_SomeD [OF Some]
  show ?thesis
  proof (cases "find P ys")
    case None
    with fx assms(1) show ?thesis by (auto simp: find_None_iff)
  next
    case (Some y)
    note fy = find_SomeD [OF Some]
    have "x = y" by (rule assms(2)) (use fx fy assms(1) in auto)
    with Some \<open>find P xs = Some x\<close> show ?thesis by simp
  qed
qed

lemma find_map_option: "find P (map f xs) = map_option f (find (P \<circ> f) xs)"
  by (induction xs) auto

lemma transfer_of_reverse:
  assumes "\<forall>t \<in> set (xp_transfers p). \<forall>t' \<in> set (xp_transfers p). tf_source t' = tf_source t \<and> tf_dest t' = tf_dest t \<longrightarrow> t' = t"
    and "xp_transfers q = map swapped (sort_key f (xp_transfers p))"
  shows "transfer_of q s d = swapped (transfer_of p d s)"
proof -
  have "find (\<lambda>t. tf_source t = d \<and> tf_dest t = s) (sort_key f (xp_transfers p)) =
      find (\<lambda>t. tf_source t = d \<and> tf_dest t = s) (xp_transfers p)"
    by (rule find_perm) (use assms(1) in auto)
  moreover have "((\<lambda>t. tf_source t = s \<and> tf_dest t = d) \<circ> swapped) = (\<lambda>t. tf_source t = d \<and> tf_dest t = s)"
    by auto
  ultimately show ?thesis
    by (simp add: transfer_of_def assms(2) find_map_option no_transfer_def swapped_def split: option.split)
qed

lemma carries_swapped:
  assumes c: "carries p t d s ps" and q: "xp_source_counts q = xp_dest_counts p" "xp_dest_counts q = xp_source_counts p"
  shows "carries q (swapped t) s d (map prod.swap ps)"
proof -
  have key: "tf_source t = d" "tf_dest t = s" using c by (simp_all add: carries_def)
  have "identity_for q (swapped t) \<longleftrightarrow> identity_for p t"
    unfolding identity_for_def implicit_full_identity_def q by auto
  moreover have "map prod.swap (identity_route n) = identity_route n" for n by (simp add: identity_route_def)
  moreover have "map (int \<circ> fst) (map prod.swap ps) = map (int \<circ> snd) ps" "map (int \<circ> snd) (map prod.swap ps) = map (int \<circ> fst) ps"
    by simp_all
  ultimately show ?thesis using c q unfolding carries_def
    by (auto simp del: map_map)
qed

lemma reverse_realises:
  assumes R: "realises n sc dc R r p"
  shows "\<exists>q. reverse_exchange_plan p = Inr q \<and> xp_cross q = xp_cross p \<and> realises n dc sc (swapped_route R) r q"
proof -
  let ?f = "\<lambda>t. (tf_dest t, tf_source t)"
  let ?ts = "map swapped (sort_key ?f (xp_transfers p))"
  let ?q = "\<lparr>xp_cp_size = n, xp_source_counts = dc, xp_dest_counts = sc, xp_transfers = ?ts, xp_cross = xp_cross p\<rparr>"
  note D = realisesD [OF R]
  have valid: "\<forall>t \<in> set (xp_transfers p). new_transfer t = Inr t"
    and unique: "\<forall>t \<in> set (xp_transfers p). \<forall>t' \<in> set (xp_transfers p). tf_source t' = tf_source t \<and> tf_dest t' = tf_dest t \<longrightarrow> t' = t"
    using R by (auto simp: realises_def)
  have ends: "\<forall>t \<in> set (xp_transfers p). tf_source t < n \<and> tf_dest t < n \<and> (tf_source t = r \<or> tf_dest t = r)"
    using R unfolding realises_def by blast
  have "mapE reverse_transfer (sort_key ?f (xp_transfers p)) = Inr ?ts"
    by (rule mapE_Inr_map) (use valid reverse_transfer_valid(1) in auto)
  then have rev: "reverse_exchange_plan p = Inr ?q"
    using D(1-5) by (simp add: reverse_exchange_plan_def new_exchange_plan_def)
  have tr: "transfer_of ?q s d = swapped (transfer_of p d s)" for s d
    by (rule transfer_of_reverse [OF unique, where f = ?f]) simp
  have "carries ?q (transfer_of ?q s d) s d (swapped_route R s d)" if "s < n" "d < n" "s = r \<or> d = r" for s d
  proof -
    have "carries p (transfer_of p d s) d s (R d s)" using that by (intro D(6)) auto
    then show ?thesis unfolding tr swapped_route_def by (rule carries_swapped) (simp_all add: D(2,3))
  qed
  moreover have "\<forall>t \<in> set ?ts. new_transfer t = Inr t \<and> tf_source t < n \<and> tf_dest t < n \<and> (tf_source t = r \<or> tf_dest t = r) \<and>
      (\<forall>t' \<in> set ?ts. tf_source t' = tf_source t \<and> tf_dest t' = tf_dest t \<longrightarrow> t' = t)"
    using valid unique ends reverse_transfer_valid(2) by auto
  ultimately have "realises n dc sc (swapped_route R) r ?q"
    unfolding realises_def exchange_plan.simps using D(4,5) by blast
  with rev show ?thesis by (intro exI [of _ ?q]) simp
qed

section \<open>Writing rows\<close>

text \<open>
  \<open>W\<close> lists the rows written so far with their values, \<open>z\<close> says whether the output
  started from zeros.  A cell holds the sum of what was written to it.
\<close>

definition contribution :: "(nat \<times> 'a::monoid_add) list \<Rightarrow> nat \<Rightarrow> 'a" where
  "contribution W p = sum_list (map snd (filter (\<lambda>w. fst w = p) W))"

definition output_holds :: "nat \<Rightarrow> bool \<Rightarrow> (nat \<times> 'a::monoid_add) list \<Rightarrow> 'a option list \<Rightarrow> bool" where
  "output_holds n z W out \<longleftrightarrow> length out = n \<and>
     (\<forall>p < n. out ! p = (if z \<or> p \<in> fst ` set W then Some (contribution W p) else None))"

lemma contribution_append: "contribution (V @ W) p = contribution V p + contribution W p"
  by (simp add: contribution_def)

lemma contribution_none: "p \<notin> fst ` set W \<Longrightarrow> contribution W p = 0"
proof -
  assume "p \<notin> fst ` set W"
  then have "filter (\<lambda>w. fst w = p) W = []" by (auto simp: filter_empty_conv)
  then show ?thesis by (simp add: contribution_def)
qed

lemma write_positions_holds:
  assumes "output_holds n z W out" and "\<forall>w \<in> set V. fst w < n" and "acc \<longrightarrow> z" and "\<not> acc \<longrightarrow> distinct (map fst (W @ V))"
  shows "\<exists>out'. write_positions acc out (map (int \<circ> fst) V) (map snd V) = Inr out' \<and> output_holds n z (W @ V) out'"
proof -
  let ?f = "if acc then (\<lambda>old r. map_option (\<lambda>v. v + r) old) else (\<lambda>old r. Some r)"
  let ?step = "\<lambda>out (p, r). out[nat p := ?f (out ! nat p) r]"
  have len: "length out = n" using assms(1) by (simp add: output_holds_def)
  have "output_holds n z (W @ V) (foldl ?step out (zip (map (int \<circ> fst) V) (map snd V)))"
    using assms
  proof (induction V arbitrary: W out)
    case (Cons v V)
    obtain p x where v: "v = (p, x)" by (cases v)
    have p: "p < n" using Cons.prems(2) v by simp
    let ?out = "?step out (int p, x)"
    have "output_holds n z (W @ [v]) ?out"
      unfolding output_holds_def
    proof (intro conjI allI impI)
      show "length ?out = n" using Cons.prems(1) by (simp add: output_holds_def)
      fix q assume q: "q < n"
      have old: "out ! q = (if z \<or> q \<in> fst ` set W then Some (contribution W q) else None)"
        using Cons.prems(1) q by (simp add: output_holds_def)
      show "?out ! q = (if z \<or> q \<in> fst ` set (W @ [v]) then Some (contribution (W @ [v]) q) else None)"
      proof (cases "q = p")
        case False
        then have "contribution (W @ [v]) q = contribution W q" by (simp add: contribution_def v)
        with False old v show ?thesis by simp
      next
        case True
        have "contribution (W @ [v]) p = contribution W p + x" by (simp add: contribution_def v)
        moreover have "contribution W p = 0" if "\<not> acc"
        proof -
          have "p \<notin> fst ` set W" using Cons.prems(4) that v by auto
          then show ?thesis by (rule contribution_none)
        qed
        ultimately show ?thesis using True old p v Cons.prems(1,3) by (auto simp: output_holds_def)
      qed
    qed
    from Cons.IH [OF this] Cons.prems(2-4) show ?case by (simp add: v)
  qed simp
  moreover have "write_positions acc out (map (int \<circ> fst) V) (map snd V) =
      Inr (foldl ?step out (zip (map (int \<circ> fst) V) (map snd V)))"
    using assms(2) len by (simp add: write_positions_def index_add_def index_copy_def write_rows_def ensure_def)
  ultimately show ?thesis by blast
qed

section \<open>One rank of a cross-rank exchange\<close>

text \<open>The rows of \<open>l\<close> a route carries, each with the row it is written to.\<close>

definition writes :: "'a list \<Rightarrow> route \<Rightarrow> (nat \<times> 'a) list" where
  "writes l ps = map (\<lambda>(a, b). (b, l ! a)) ps"

definition fits :: "nat \<Rightarrow> nat \<Rightarrow> route \<Rightarrow> bool" where
  "fits m k ps \<longleftrightarrow> (\<forall>(a, b) \<in> set ps. a < m \<and> b < k)"

lemma writes_proj [simp]:
  "map fst (writes l ps) = map snd ps" "map snd (writes l ps) = map (\<lambda>ab. l ! fst ab) ps"
  "map (int \<circ> fst) (writes l ps) = map (int \<circ> snd) ps" "length (writes l ps) = length ps" "writes l [] = []"
  "fst ` set (writes l ps) = snd ` set ps"
  by (auto simp: writes_def case_prod_beta image_image comp_def)

lemma writes_fit: "fits m k ps \<Longrightarrow> w \<in> set (writes l ps) \<Longrightarrow> fst w < k"
  by (auto simp: fits_def writes_def)

lemma identity_writes: "length l = k \<Longrightarrow> writes l (identity_route k) = map (\<lambda>p. (p, l ! p)) [0..<k]"
  by (simp add: writes_def identity_route_def)

lemma identity_contribution: "p < k \<Longrightarrow> length l = k \<Longrightarrow> contribution (writes l (identity_route k)) p = (l ! p :: 'a::monoid_add)"
proof -
  assume p: "p < k" and l: "length l = k"
  have "filter (\<lambda>q. q = p) [0..<k] = [p]" using p by (induction k) auto
  then show ?thesis unfolding contribution_def identity_writes [OF l]
    by (simp add: filter_map comp_def)
qed

lemma carries_tensors:
  assumes "carries p t s d ps" "ps \<noteq> []" "\<not> identity_for p t"
  shows "index_tensor (tf_source_tensor t) = Inr (map (int \<circ> fst) ps)" "index_tensor (tf_dest_tensor t) = Inr (map (int \<circ> snd) ps)"
    "tf_dest_cpu t = Some (map (int \<circ> snd) ps)"
  using assms(1) unfolding carries_def if_not_P [OF assms(3)] using assms(2) by (simp_all add: index_tensor_def)

lemma carries_count: "carries p t s d ps \<Longrightarrow> tf_count t = length ps"
  by (simp add: carries_def)

lemma carries_identity:
  assumes "carries p t s d ps" "identity_for p t"
  shows "s = d" "ps = identity_route (xp_source_counts p ! s)" "xp_source_counts p ! s = xp_dest_counts p ! d"
  using assms(1) unfolding carries_def if_P [OF assms(2)]
  using assms(2) by (simp_all add: identity_for_def implicit_full_identity_def)

lemma select_route: "fits (length l) k ps \<Longrightarrow> index_select l (map (int \<circ> fst) ps) = Inr (map (\<lambda>ab. l ! fst ab) ps)"
  by (auto simp: index_select_def ensure_def fits_def)

lemma dest_positions_route:
  assumes c: "carries p t s d ps"
  shows "transfer_dest_positions p t = Inr (map (int \<circ> snd) ps)"
proof (cases "identity_for p t")
  case True
  note I = carries_identity [OF c True]
  show ?thesis using True carries_count [OF c] by (simp add: transfer_dest_positions_def I(2) identity_route_def comp_def)
next
  case False
  show ?thesis
  proof (cases "ps = []")
    case False
    note T = carries_tensors [OF c False \<open>\<not> identity_for p t\<close>]
    with \<open>\<not> identity_for p t\<close> carries_count [OF c] show ?thesis by (simp add: transfer_dest_positions_def ensure_def)
  qed (use carries_count [OF c] in \<open>simp add: transfer_dest_positions_def\<close>)
qed

lemma recv_positions_route:
  assumes R: "realises n sc dc R r p" and r: "r < n"
  shows "rank_recv_write_positions p r = Inr (concat (map (\<lambda>s. map (int \<circ> snd) (R s r)) [0..<n]))"
proof -
  have "mapE (\<lambda>s. transfer_dest_positions p (transfer_of p s r)) [0..<n] = Inr (map (\<lambda>s. map (int \<circ> snd) (R s r)) [0..<n])"
    by (rule mapE_Inr_map) (use r in \<open>auto intro!: dest_positions_route realisesD(6) [OF R]\<close>)
  then show ?thesis by (simp add: rank_recv_write_positions_def realisesD(1) [OF R])
qed

lemma init_output_holds:
  fixes l :: "'a::monoid_add list"
  assumes c: "carries p (transfer_of p r r) r r ps" and fit: "fits (length l) (xp_dest_counts p ! r) ps"
    and l: "length l = xp_source_counts p ! r" and acc: "acc \<longrightarrow> z" "\<not> acc \<longrightarrow> distinct (map snd ps)"
  shows "\<exists>out. init_rank_exchange_output p r acc z l = Inr out \<and> output_holds (xp_dest_counts p ! r) z (writes l ps) out"
proof -
  let ?n = "xp_dest_counts p ! r" and ?t = "transfer_of p r r"
  let ?out = "replicate ?n (if z then Some 0 else None) :: 'a option list"
  have start: "output_holds ?n z [] ?out" by (simp add: output_holds_def contribution_def)
  consider "ps = []" | "ps \<noteq> []" "identity_for p ?t" | "ps \<noteq> []" "\<not> identity_for p ?t" by blast
  then show ?thesis
  proof cases
    case 1
    with start carries_count [OF c] show ?thesis by (simp add: init_rank_exchange_output_def)
  next
    case 2
    note I = carries_identity [OF c 2(2)]
    have len: "length l = ?n" using l I(3) by simp
    let ?res = "if acc then map2 (\<lambda>o' v. map_option (\<lambda>u. u + v) o') ?out l else map Some l"
    have "init_rank_exchange_output p r acc z l = Inr ?res"
      using 2 carries_count [OF c] by (simp add: init_rank_exchange_output_def Let_def)
    moreover have "output_holds ?n z (writes l ps) ?res"
      unfolding output_holds_def
    proof (intro conjI allI impI)
      show "length ?res = ?n" using len by simp
      fix q assume q: "q < ?n"
      have "ps = identity_route ?n" using I(2,3) by simp
      moreover from this have "q \<in> fst ` set (writes l ps)" using q by (auto simp: identity_route_def image_image)
      moreover have "contribution (writes l (identity_route ?n)) q = l ! q" by (rule identity_contribution [OF q len])
      ultimately show "?res ! q = (if z \<or> q \<in> fst ` set (writes l ps) then Some (contribution (writes l ps) q) else None)"
        using q len acc(1) by simp
    qed
    ultimately show ?thesis by blast
  next
    case 3
    note T = carries_tensors [OF c 3]
    have "init_rank_exchange_output p r acc z l = write_positions acc ?out (map (int \<circ> fst) (writes l ps)) (map snd (writes l ps))"
      using 3 carries_count [OF c] by (simp add: init_rank_exchange_output_def T(1,2) select_route [OF fit])
    moreover have "\<exists>out. write_positions acc ?out (map (int \<circ> fst) (writes l ps)) (map snd (writes l ps)) = Inr out \<and>
        output_holds ?n z ([] @ writes l ps) out"
      by (rule write_positions_holds [OF start]) (use writes_fit [OF fit, of _ l] acc in simp_all)
    ultimately show ?thesis by simp
  qed
qed

text \<open>What rank \<open>s\<close> sends to rank \<open>d\<close> through the collective, and what \<open>d\<close> writes of it.\<close>

definition sent :: "(nat \<Rightarrow> nat \<Rightarrow> route) \<Rightarrow> 'a list \<Rightarrow> nat \<Rightarrow> nat \<Rightarrow> 'a list" where
  "sent R l s d = (if d = s then [] else map (\<lambda>ab. l ! fst ab) (R s d))"

definition written :: "(nat \<Rightarrow> nat \<Rightarrow> route) \<Rightarrow> 'a list \<Rightarrow> nat \<Rightarrow> nat \<Rightarrow> (nat \<times> 'a) list" where
  "written R l s d = (if d = s then [] else writes l (R s d))"

lemma sent_written: "sent R l s d = map snd (written R l s d)"
  by (simp add: sent_def written_def)

lemma cross_tensors:
  assumes c: "carries p t s d ps" and "s \<noteq> d" "ps \<noteq> []"
  shows "index_tensor (tf_source_tensor t) = Inr (map (int \<circ> fst) ps)" "index_tensor (tf_dest_tensor t) = Inr (map (int \<circ> snd) ps)"
  using carries_tensors [OF c] carries_identity(1) [OF c] assms(2,3) by blast+

lemma send_buffer:
  assumes R: "realises n sc dc R r p" and r: "r < n" and fit: "\<And>d. d < n \<Longrightarrow> fits (length l) (dc ! d) (R r d)"
  shows "pack_rank_cross_send_tensor p r l = Inr (concat (map (sent R l r) [0..<n]))"
proof -
  let ?f = "\<lambda>d. let t = transfer_of p r d in if d = r \<or> tf_count t = 0 then Inr []
         else bindE (index_tensor (tf_source_tensor t)) (index_select l)"
  have "mapE ?f [0..<n] = Inr (map (sent R l r) [0..<n])"
  proof (rule mapE_Inr_map)
    fix d assume "d \<in> set [0..<n]"
    then have d: "d < n" by simp
    have c: "carries p (transfer_of p r d) r d (R r d)" by (rule realisesD(6) [OF R r d]) simp
    show "?f d = Inr (sent R l r d)"
    proof (cases "d = r \<or> R r d = []")
      case True
      then show ?thesis using carries_count [OF c] by (auto simp: sent_def Let_def)
    next
      case False
      with cross_tensors [OF c] select_route [OF fit [OF d]] carries_count [OF c] show ?thesis by (simp add: sent_def Let_def)
    qed
  qed
  then show ?thesis by (simp add: pack_rank_cross_send_tensor_def realisesD(1) [OF R])
qed

lemma split_sizes:
  assumes R: "realises n sc dc R r p" and r: "r < n"
  shows "cross_send_split_sizes p r = map (\<lambda>d. length (sent R l r d)) [0..<n]"
    and "cross_recv_split_sizes p r = map (\<lambda>s. length (written R (L s) s r)) [0..<n]"
proof -
  have "tf_count (transfer_of p r d) = length (R r d)" "tf_count (transfer_of p d r) = length (R d r)" if "d < n" for d
    using realisesD(6) [OF R r that] realisesD(6) [OF R that r] carries_count by blast+
  then show "cross_send_split_sizes p r = map (\<lambda>d. length (sent R l r d)) [0..<n]"
    "cross_recv_split_sizes p r = map (\<lambda>s. length (written R (L s) s r)) [0..<n]"
    by (auto simp: cross_send_split_sizes_def cross_recv_split_sizes_def realisesD(1) [OF R] sent_def written_def)
qed

lemma slice_middle: "slice (xs @ ys @ zs) (length xs) (length xs + length ys) = ys"
  by (simp add: slice_def)

lemma unpack_cross_holds:
  fixes locals :: "'a::monoid_add list list"
  assumes R: "realises n sc dc R r p" and r: "r < n" and acc: "acc \<longrightarrow> z"
    and fit: "\<And>s. s \<in> set ss \<Longrightarrow> s < n \<and> fits (sc ! s) k (R s r)"
    and dis: "\<not> acc \<longrightarrow> distinct (map fst (W @ concat (map (\<lambda>s. written R (locals ! s) s r) ss)))"
    and out: "output_holds k z W out"
  shows "\<exists>out'. unpack_cross_from p r acc (pre @ concat (map (\<lambda>s. sent R (locals ! s) s r) ss)) ss (length pre) out = Inr out' \<and>
    output_holds k z (W @ concat (map (\<lambda>s. written R (locals ! s) s r) ss)) out'"
  using fit dis out
proof (induction ss arbitrary: pre W out)
  case (Cons s ss)
  have s: "s < n" and fs: "fits (sc ! s) k (R s r)" using Cons.prems(1) by simp_all
  have c: "carries p (transfer_of p s r) s r (R s r)" by (rule realisesD(6) [OF R s r]) simp
  let ?W = "written R (locals ! s) s r" and ?rest = "concat (map (\<lambda>s. sent R (locals ! s) s r) ss)"
  have count: "tf_count (transfer_of p s r) = length (R s r)" by (rule carries_count [OF c])
  show ?case
  proof (cases "s = r \<or> R s r = []")
    case True
    then have "?W = []" by (auto simp: written_def)
    moreover have "sent R (locals ! s) s r = []" using True by (auto simp: sent_def)
    ultimately show ?thesis using Cons.IH [of W out pre] Cons.prems True count by (simp add: Let_def)
  next
    case False
    then have W: "?W = writes (locals ! s) (R s r)" by (simp add: written_def)
    have sn: "sent R (locals ! s) s r = map snd ?W" by (rule sent_written)
    have len: "length ?W = length (R s r)" by (simp add: W)
    have bound: "\<forall>w \<in> set ?W. fst w < k" using writes_fit [OF fs, of _ "locals ! s"] by (simp add: W)
    have fresh: "\<not> acc \<longrightarrow> distinct (map fst (W @ ?W))" using Cons.prems(2) by auto
    obtain out1 where out1: "write_positions acc out (map (int \<circ> fst) ?W) (map snd ?W) = Inr out1" "output_holds k z (W @ ?W) out1"
      using write_positions_holds [OF Cons.prems(3) bound acc fresh] by blast
    have "\<exists>out'. unpack_cross_from p r acc ((pre @ map snd ?W) @ ?rest) ss (length (pre @ map snd ?W)) out1 = Inr out' \<and>
        output_holds k z ((W @ ?W) @ concat (map (\<lambda>s. written R (locals ! s) s r) ss)) out'"
      by (rule Cons.IH) (use Cons.prems(1,2) out1(2) in simp_all)
    moreover have "map (int \<circ> snd) (R s r) = map (int \<circ> fst) ?W" by (simp add: W)
    moreover have "slice (pre @ map snd ?W @ ?rest) (length pre) (length pre + length (R s r)) = map snd ?W"
      using slice_middle [of pre "map snd ?W" ?rest] by (simp add: len)
    ultimately show ?thesis
      using False count cross_tensors [OF c] out1(1) by (simp add: Let_def sn len)
  qed
qed simp

lemma chunk_of_concat:
  "d < length pieces \<Longrightarrow> chunk_of (map length pieces) d (concat pieces) = pieces ! d"
proof -
  assume d: "d < length pieces"
  have pre: "sum_list (take d (map length pieces)) = length (concat (take d pieces))"
    by (simp add: length_concat take_map)
  have "concat pieces = concat (take d pieces) @ pieces ! d @ concat (drop (Suc d) pieces)"
    using d by (metis append_take_drop_id concat.simps(2) concat_append Cons_nth_drop_Suc)
  then show ?thesis using d unfolding chunk_of_def pre by (simp add: slice_middle)
qed

section \<open>The whole group\<close>

definition arriving :: "(nat \<Rightarrow> nat \<Rightarrow> route) \<Rightarrow> 'a list list \<Rightarrow> nat \<Rightarrow> nat \<Rightarrow> (nat \<times> 'a) list" where
  "arriving R locals n r = concat (map (\<lambda>s. writes (locals ! s) (R s r)) [0..<n])"

text \<open>What the rows of every rank become: each is the sum of the rows routed to it.\<close>

definition gathered :: "(nat \<Rightarrow> nat \<Rightarrow> route) \<Rightarrow> 'a::monoid_add list list \<Rightarrow> nat list \<Rightarrow> 'a option list list" where
  "gathered R locals dc =
     map (\<lambda>r. map (\<lambda>p. Some (contribution (arriving R locals (length dc) r) p)) [0..<dc ! r]) [0..<length dc]"

definition group_ok :: "nat \<Rightarrow> nat list \<Rightarrow> nat list \<Rightarrow> (nat \<Rightarrow> nat \<Rightarrow> route) \<Rightarrow> exchange_plan list \<Rightarrow> 'a list list \<Rightarrow> bool" where
  "group_ok n sc dc R plans locals \<longleftrightarrow> length plans = n \<and> length dc = n \<and> length sc = n \<and> map length locals = sc \<and>
     (\<forall>r < n. realises n sc dc R r (plans ! r)) \<and> (\<forall>s < n. \<forall>d < n. fits (sc ! s) (dc ! d) (R s d))"

lemma group_okD:
  assumes "group_ok n sc dc R plans locals"
  shows "length plans = n" "length dc = n" "length sc = n" "length locals = n" "r < n \<Longrightarrow> length (locals ! r) = sc ! r"
    "r < n \<Longrightarrow> realises n sc dc R r (plans ! r)" "s < n \<Longrightarrow> d < n \<Longrightarrow> fits (sc ! s) (dc ! d) (R s d)"
  using assms unfolding group_ok_def by (auto dest: map_eq_imp_length_eq)

lemma contribution_mset: "mset V = mset W \<Longrightarrow> contribution V p = contribution W (p :: nat)"
  for V W :: "(nat \<times> 'a::comm_monoid_add) list"
proof -
  assume "mset V = mset W"
  then have "mset (map snd (filter (\<lambda>w. fst w = p) V)) = mset (map snd (filter (\<lambda>w. fst w = p) W))" by simp
  then show ?thesis unfolding contribution_def by (metis sum_mset_sum_list)
qed

lemma mset_own_first:
  "r < n \<Longrightarrow> mset (concat (map f [0..<n])) = mset (f r) + mset (concat (map (\<lambda>s. if r = s then [] else f s) [0..<n]))"
proof (induction n)
  case (Suc n)
  show ?case
  proof (cases "r = n")
    case True
    have "map (\<lambda>s. if n = s then [] else f s) [0..<n] = map f [0..<n]" by auto
    then have "concat (map (\<lambda>s. if n = s then [] else f s) [0..<n]) = concat (map f [0..<n])" by (rule arg_cong)
    with True show ?thesis by (simp add: union_commute del: mset_concat)
  next
    case False
    with Suc show ?thesis by simp
  qed
qed simp

lemma arriving_own_first:
  assumes "r < n"
  shows "mset (arriving R locals n r) =
    mset (writes (locals ! r) (R r r) @ concat (map (\<lambda>s. written R (locals ! s) s r) [0..<n]))"
  unfolding arriving_def mset_own_first [OF assms, of "\<lambda>s. writes (locals ! s) (R s r)"] mset_append written_def ..

lemma arriving_bound:
  assumes "group_ok n sc dc R plans locals" "r < n" "w \<in> set (arriving R locals n r)"
  shows "fst w < dc ! r"
proof -
  obtain s where "s < n" "w \<in> set (writes (locals ! s) (R s r))" using assms(3) by (auto simp: arriving_def)
  then show ?thesis using writes_fit group_okD(7) [OF assms(1)] assms(2) by blast
qed

lemma arriving_positions:
  "map (int \<circ> fst) (arriving R locals n r) = concat (map (\<lambda>s. map (int \<circ> snd) (R s r)) [0..<n])"
  unfolding arriving_def map_concat map_map comp_apply [abs_def] writes_proj(3) [unfolded comp_def] by (simp add: comp_def)

lemma prepared:
  fixes locals :: "'a::monoid_add list list"
  assumes ok: "group_ok n sc dc R plans locals" and r: "r < n"
  shows "\<exists>ao. prepare_exchange (plans ! r) r (locals ! r) = Inr (fst ao, snd ao, concat (map (sent R (locals ! r) r) [0..<n])) \<and>
    (\<exists>z. output_holds (dc ! r) z (writes (locals ! r) (R r r)) (snd ao) \<and> (fst ao \<longrightarrow> z) \<and>
      (\<not> fst ao \<longrightarrow> distinct (map fst (arriving R locals n r))) \<and> (z \<or> {..<dc ! r} \<subseteq> fst ` set (arriving R locals n r)))"
proof -
  note D = group_okD [OF ok]
  note R = D(6) [OF r]
  let ?p = "plans ! r" and ?W = "arriving R locals n r"
  let ?ps = "map (int \<circ> fst) ?W"
  let ?acc = "length ?ps \<noteq> card (set ?ps)"
  let ?z = "?acc \<or> card (set ?ps) \<noteq> dc ! r"
  have acc: "?acc \<longleftrightarrow> \<not> distinct (map fst ?W)"
  proof -
    have "?ps = map int (map fst ?W)" by simp
    then have "distinct ?ps = distinct (map fst ?W)"
      by (simp only: distinct_map [of int] inj_on_subset [OF inj_of_nat subset_UNIV] simp_thms)
    moreover have "?acc \<longleftrightarrow> \<not> distinct ?ps" by (metis card_distinct distinct_card)
    ultimately show ?thesis by (simp only:)
  qed
  have pos: "rank_recv_write_positions ?p r = Inr ?ps" unfolding arriving_positions by (rule recv_positions_route [OF R r])
  have card: "card (set ?ps) = card (fst ` set ?W)"
  proof -
    have "set ?ps = int ` fst ` set ?W" by (simp add: image_image)
    then show ?thesis by (simp only: card_image [OF inj_on_subset [OF inj_of_nat subset_UNIV]])
  qed
  have cover: "?z \<or> {..<dc ! r} \<subseteq> fst ` set ?W"
  proof (cases ?z)
    case False
    then have "card (fst ` set ?W) = card {..<dc ! r}" using card by simp
    moreover have "fst ` set ?W \<subseteq> {..<dc ! r}" using arriving_bound [OF ok r] by auto
    ultimately have "fst ` set ?W = {..<dc ! r}" by (intro card_subset_eq) simp_all
    then show ?thesis by simp
  qed simp
  have "distinct (map fst (writes (locals ! r) (R r r)))" if "distinct (map fst ?W)"
  proof -
    have "mset (map fst ?W) = mset (map fst (writes (locals ! r) (R r r) @ concat (map (\<lambda>s. written R (locals ! s) s r) [0..<n])))"
      by (simp only: arriving_own_first [OF r] mset_map)
    then have "distinct (map fst (writes (locals ! r) (R r r) @ concat (map (\<lambda>s. written R (locals ! s) s r) [0..<n])))"
      using that mset_eq_imp_distinct_iff by blast
    then show ?thesis by simp
  qed
  then have dis: "\<not> ?acc \<longrightarrow> distinct (map snd (R r r))" unfolding acc by simp
  have "carries ?p (transfer_of ?p r r) r r (R r r)" by (rule realisesD(6) [OF R r r]) simp
  moreover have "fits (length (locals ! r)) (xp_dest_counts ?p ! r) (R r r)"
    using D(5,7) r by (simp add: realisesD(3) [OF R])
  moreover have "length (locals ! r) = xp_source_counts ?p ! r" using D(5) r by (simp add: realisesD(2) [OF R])
  ultimately obtain out where out: "init_rank_exchange_output ?p r ?acc ?z (locals ! r) = Inr out"
    "output_holds (dc ! r) ?z (writes (locals ! r) (R r r)) out"
    using init_output_holds [of ?p r "R r r" "locals ! r" ?acc ?z] dis unfolding realisesD(3) [OF R] by blast
  have send: "pack_rank_cross_send_tensor ?p r (locals ! r) = Inr (concat (map (sent R (locals ! r) r) [0..<n]))"
    by (rule send_buffer [OF R r]) (use D(5,7) r in simp)
  have "prepare_exchange ?p r (locals ! r) = Inr (?acc, out, concat (map (sent R (locals ! r) r) [0..<n]))"
    unfolding prepare_exchange_def pos bindE_simps Let_def realisesD(3) [OF R] out(1) send ..
  with out(2) cover acc show ?thesis by (intro exI [of _ "(?acc, out)"]) auto
qed

text \<open>A full output is the list of its contributions.\<close>

lemma output_full:
  assumes "output_holds k z W out" "z \<or> {..<k} \<subseteq> fst ` set W"
  shows "out = map (\<lambda>p. Some (contribution W p)) [0..<k]"
  using assms by (intro nth_equalityI) (auto simp: output_holds_def)

lemma received:
  assumes ok: "group_ok n sc dc R plans locals" and d: "delivers all_to_all" and r: "r < n"
  shows "all_to_all (map (\<lambda>r. concat (map (sent R (locals ! r) r) [0..<n])) [0..<n])
      (map (\<lambda>r. cross_send_split_sizes (plans ! r) r) [0..<n]) r =
    concat (map (\<lambda>s. sent R (locals ! s) s r) [0..<n])"
proof -
  note D = group_okD [OF ok]
  let ?sends = "map (\<lambda>r. concat (map (sent R (locals ! r) r) [0..<n])) [0..<n]"
  let ?splits = "map (\<lambda>r. cross_send_split_sizes (plans ! r) r) [0..<n]"
  have split: "?splits ! s = map length (map (sent R (locals ! s) s) [0..<n])" if "s < n" for s
    using split_sizes(1) [OF D(6) [OF that] that, of "locals ! s"] that by (simp add: comp_def)
  have "all_to_all ?sends ?splits r = concat (map (\<lambda>s. chunk_of (?splits ! s) r (?sends ! s)) [0..<length ?sends])"
    by (rule d [unfolded delivers_def, rule_format])
      (use r in \<open>simp_all only: split length_map length_upt diff_zero, simp_all add: length_concat comp_def\<close>)
  also have "\<dots> = concat (map (\<lambda>s. sent R (locals ! s) s r) [0..<n])"
  proof (rule arg_cong [where f = concat], rule map_cong)
    fix s assume "s \<in> set [0..<n]"
    then have s: "s < n" by simp
    have "?sends ! s = concat (map (sent R (locals ! s) s) [0..<n])" using s by simp
    then show "chunk_of (?splits ! s) r (?sends ! s) = sent R (locals ! s) s r"
      using chunk_of_concat [of r "map (sent R (locals ! s) s) [0..<n]"] r split [OF s] by simp
  qed simp
  finally show ?thesis .
qed

lemma cross_exchange_gathers:
  fixes locals :: "'a::comm_monoid_add list list"
  assumes ok: "group_ok n sc dc R plans locals" and d: "delivers all_to_all"
    and cross: "\<not> list_all (\<lambda>p. cross_rank_token_count p = 0) plans"
  shows "exchange_group all_to_all plans locals = Inr (gathered R locals dc)"
proof -
  note D = group_okD [OF ok]
  let ?sends = "map (\<lambda>r. concat (map (sent R (locals ! r) r) [0..<n])) [0..<n]"
  let ?splits = "map (\<lambda>r. cross_send_split_sizes (plans ! r) r) [0..<n]"
  have "\<forall>r. \<exists>ao. r < n \<longrightarrow> prepare_exchange (plans ! r) r (locals ! r) = Inr (fst ao, snd ao, concat (map (sent R (locals ! r) r) [0..<n])) \<and>
    (\<exists>z. output_holds (dc ! r) z (writes (locals ! r) (R r r)) (snd ao) \<and> (fst ao \<longrightarrow> z) \<and>
      (\<not> fst ao \<longrightarrow> distinct (map fst (arriving R locals n r))) \<and> (z \<or> {..<dc ! r} \<subseteq> fst ` set (arriving R locals n r)))"
    using prepared [OF ok] by blast
  from this [THEN choice] obtain ao where ao: "\<And>r. r < n \<Longrightarrow>
      prepare_exchange (plans ! r) r (locals ! r) = Inr (fst (ao r), snd (ao r), concat (map (sent R (locals ! r) r) [0..<n]))"
    "\<And>r. r < n \<Longrightarrow> \<exists>z. output_holds (dc ! r) z (writes (locals ! r) (R r r)) (snd (ao r)) \<and> (fst (ao r) \<longrightarrow> z) \<and>
      (\<not> fst (ao r) \<longrightarrow> distinct (map fst (arriving R locals n r))) \<and> (z \<or> {..<dc ! r} \<subseteq> fst ` set (arriving R locals n r))"
    by blast
  let ?prep = "\<lambda>r. (fst (ao r), snd (ao r), concat (map (sent R (locals ! r) r) [0..<n]))"
  have prep: "mapE (\<lambda>r. bindE (check_rank (plans ! r) (int r)) (\<lambda>_.
             ensure (xp_cp_size (plans ! r) = length plans) (ValueError ''process group world size must match plan cp_size'')
               (prepare_exchange (plans ! r) r (locals ! r)))) [0..<n] = Inr (map ?prep [0..<n])"
    by (rule mapE_Inr_map) (use ao(1) D(1) realisesD(1) [OF D(6)] in \<open>simp add: check_rank_def\<close>)
  have unpack: "unpack_rank_cross_recv_tensor_into (plans ! r) r (fst (ao r)) (all_to_all ?sends ?splits r) (snd (ao r)) =
      Inr (map (\<lambda>p. Some (contribution (arriving R locals n r) p)) [0..<dc ! r])" if r: "r < n" for r
  proof -
    note R = D(6) [OF r]
    obtain z where z: "output_holds (dc ! r) z (writes (locals ! r) (R r r)) (snd (ao r))" "fst (ao r) \<longrightarrow> z"
      "\<not> fst (ao r) \<longrightarrow> distinct (map fst (arriving R locals n r))" "z \<or> {..<dc ! r} \<subseteq> fst ` set (arriving R locals n r)"
      using ao(2) [OF r] by blast
    let ?all = "writes (locals ! r) (R r r) @ concat (map (\<lambda>s. written R (locals ! s) s r) [0..<n])"
    note m = arriving_own_first [OF r, of R locals]
    have "mset (map fst (arriving R locals n r)) = mset (map fst ?all)" by (simp only: m mset_map)
    then have dis: "\<not> fst (ao r) \<longrightarrow> distinct (map fst ?all)" using z(3) mset_eq_imp_distinct_iff by blast
    have "set (arriving R locals n r) = set ?all" by (rule mset_eq_setD [OF m])
    then have cover: "z \<or> {..<dc ! r} \<subseteq> fst ` set ?all" using z(4) by (simp only:)
    have fit: "s < n \<and> fits (sc ! s) (dc ! r) (R s r)" if "s \<in> set [0..<n]" for s using that D(7) r by simp
    obtain out where out: "unpack_cross_from (plans ! r) r (fst (ao r)) ([] @ concat (map (\<lambda>s. sent R (locals ! s) s r) [0..<n])) [0..<n]
        (length ([] :: 'a list)) (snd (ao r)) = Inr out" "output_holds (dc ! r) z ?all out"
      using unpack_cross_holds [OF R r z(2) fit dis z(1), of "[]"] by blast
    have "out = map (\<lambda>p. Some (contribution ?all p)) [0..<dc ! r]" by (rule output_full [OF out(2) cover])
    also have "contribution ?all = contribution (arriving R locals n r)" using contribution_mset [OF m] by (intro ext) simp
    finally have "out = map (\<lambda>p. Some (contribution (arriving R locals n r) p)) [0..<dc ! r]" .
    moreover have "length (concat (map (\<lambda>s. sent R (locals ! s) s r) [0..<n])) =
        sum_list (map (\<lambda>s. length (written R (locals ! s) s r)) [0..<n])"
      by (simp add: length_concat sent_written comp_def)
    then have "length (concat (map (\<lambda>s. sent R (locals ! s) s r) [0..<n])) = sum_list (cross_recv_split_sizes (plans ! r) r)"
      unfolding split_sizes(2) [OF R r, of "\<lambda>s. locals ! s"] .
    ultimately show ?thesis
      using out(1) realisesD(1) [OF R] by (simp add: unpack_rank_cross_recv_tensor_into_def received [OF ok d r])
  qed
  have "mapE (\<lambda>r. let (accumulate, out, send) = map ?prep [0..<n] ! r in
             unpack_rank_cross_recv_tensor_into (plans ! r) r accumulate (all_to_all ?sends ?splits r) out) [0..<n] =
      Inr (gathered R locals dc)"
    unfolding gathered_def D(2) by (rule mapE_Inr_map) (simp add: unpack)
  moreover have "map (\<lambda>(a, out, send). send) (map ?prep [0..<n]) = ?sends" by simp
  ultimately show ?thesis unfolding exchange_group_def Let_def if_not_P [OF cross] D(1) 
    using prep D(1) by (simp only: bindE_simps Let_def)
qed

section \<open>Without cross-rank rows\<close>

text \<open>
  When the ranks agree that nothing crosses, each packs and unpacks for itself, into a
  tensor that is not cleared: the rows it keeps must then fill it.
\<close>

definition stays :: "nat \<Rightarrow> nat list \<Rightarrow> (nat \<Rightarrow> nat \<Rightarrow> route) \<Rightarrow> bool" where
  "stays n dc R \<longleftrightarrow> (\<forall>s < n. \<forall>d < n. s \<noteq> d \<longrightarrow> R s d = []) \<and>
     (\<forall>r < n. distinct (map snd (R r r)) \<and> snd ` set (R r r) = {..<dc ! r})"

lemma unpack_from_skip:
  "\<forall>s \<in> set ss. tf_count (transfer_of p s r) = 0 \<Longrightarrow>
   unpack_from p r recv (ss @ ts) off out = unpack_from p r recv ts off out"
  by (induction ss) (simp_all add: Let_def)

lemma concat_only:
  "r < n \<Longrightarrow> (\<And>s. s < n \<Longrightarrow> s \<noteq> r \<Longrightarrow> f s = []) \<Longrightarrow> concat (map f [0..<n]) = f r"
proof (induction n)
  case (Suc n)
  show ?case
  proof (cases "r = n")
    case True
    then have "concat (map f [0..<n]) = []" using Suc.prems(2) by simp
    with True show ?thesis by simp
  next
    case False
    with Suc show ?thesis by simp
  qed
qed simp

lemma sum_list_only:
  fixes f :: "nat \<Rightarrow> nat"
  shows "r < n \<Longrightarrow> (\<And>s. s < n \<Longrightarrow> s \<noteq> r \<Longrightarrow> f s = 0) \<Longrightarrow> sum_list (map f [0..<n]) = f r"
proof (induction n)
  case (Suc n)
  show ?case
  proof (cases "r = n")
    case True
    then have "sum_list (map f [0..<n]) = 0" using Suc.prems(2) by simp
    with True show ?thesis by simp
  next
    case False
    with Suc show ?thesis by simp
  qed
qed simp

lemma local_exchange_gathers:
  fixes locals :: "'a::monoid_add list list"
  assumes ok: "group_ok n sc dc R plans locals" and st: "stays n dc R" and r: "r < n"
  shows "exchange_rank_tensor_local (plans ! r) r (locals ! r) =
    Inr (map (\<lambda>p. Some (contribution (arriving R locals n r) p)) [0..<dc ! r])"
proof -
  note D = group_okD [OF ok]
  note R = D(6) [OF r]
  let ?p = "plans ! r" and ?l = "locals ! r"
  let ?t = "transfer_of ?p r r" and ?W = "writes ?l (R r r)"
  have c: "carries ?p ?t r r (R r r)" by (rule realisesD(6) [OF R r r]) simp
  have empty: "R s d = []" if "s < n" "d < n" "s \<noteq> d" for s d using st that by (simp add: stays_def)
  have zero: "tf_count (transfer_of ?p s d) = 0" if "s < n" "d < n" "s \<noteq> d" "s = r \<or> d = r" for s d
    using carries_count [OF realisesD(6) [OF R that(1,2,4)]] empty [OF that(1-3)] by simp
  have arr: "arriving R locals n r = ?W"
    unfolding arriving_def by (rule concat_only [OF r]) (use empty r in simp)
  have len: "length ?l = sc ! r" by (rule D(5) [OF r])
  have cover: "snd ` set (R r r) = {..<dc ! r}" and dis: "distinct (map snd (R r r))" using st r by (simp_all add: stays_def)
  show ?thesis
  proof (cases "identity_for ?p ?t")
    case True
    note I = carries_identity [OF c True]
    have k: "sc ! r = dc ! r" "R r r = identity_route (dc ! r)"
      using I(2,3) by (simp_all add: realisesD(2,3) [OF R])
    have "exchange_rank_tensor_local ?p r ?l = Inr (map Some ?l)"
      using True c unfolding identity_for_def by (simp add: exchange_rank_tensor_local_def carries_def)
    moreover have "map Some ?l = map (\<lambda>p. Some (contribution ?W p)) [0..<dc ! r]"
      using identity_contribution [of _ "dc ! r" ?l] len k(1) unfolding k(2) by (intro nth_equalityI) simp_all
    ultimately show ?thesis unfolding arr by simp
  next
    case False
    then have imp: "\<not> implicit_full_identity ?t (xp_source_counts ?p ! r) (xp_dest_counts ?p ! r)"
      using c unfolding identity_for_def by (simp add: carries_def)
    have fit: "fits (length ?l) (dc ! r) (R r r)" using D(7) [OF r r] len by simp
    have piece: "rows_for ?p ?l (transfer_of ?p r d) = Inr (if d = r then map snd ?W else [])" if d: "d < n" for d
    proof (cases "d = r \<and> R r r \<noteq> []")
      case True
      then have "rows_for ?p ?l ?t = index_select ?l (map (int \<circ> fst) (R r r))"
        using carries_tensors(1) [OF c _ False] carries_count [OF c] False by (simp add: rows_for_def)
      with True select_route [OF fit] show ?thesis by simp
    next
      case notown: False
      then have "tf_count (transfer_of ?p r d) = 0"
        using zero [OF r d] carries_count [OF c] by (cases "d = r") simp_all
      with notown show ?thesis by (auto simp: rows_for_def)
    qed
    have "mapE (\<lambda>d. rows_for ?p ?l (transfer_of ?p r d)) [0..<n] = Inr (map (\<lambda>d. if d = r then map snd ?W else []) [0..<n])"
      by (rule mapE_Inr_map) (simp add: piece)
    then have pack: "pack_rank_send_tensor ?p r ?l = Inr (map snd ?W)"
      using r len concat_only [OF r, of "\<lambda>d. if d = r then map snd ?W else []"]
      by (simp add: pack_rank_send_tensor_def check_rank_def realisesD(1,2) [OF R])
    have size: "sum_list (recv_split_sizes ?p r) = length (R r r)"
      using sum_list_only [OF r, of "\<lambda>s. tf_count (transfer_of ?p s r)"] zero r carries_count [OF c]
      by (simp add: recv_split_sizes_def realisesD(1) [OF R])
    let ?none = "replicate (dc ! r) None :: 'a option list"
    have start: "output_holds (dc ! r) False [] ?none" by (simp add: output_holds_def)
    have "\<exists>out. write_positions False ?none (map (int \<circ> fst) ?W) (map snd ?W) = Inr out \<and> output_holds (dc ! r) False ([] @ ?W) out"
      by (rule write_positions_holds [OF start]) (use writes_fit [OF fit, of _ ?l] dis in simp_all)
    then obtain out where out: "write_positions False ?none (map (int \<circ> fst) ?W) (map snd ?W) = Inr out"
      "output_holds (dc ! r) False ?W out" by auto
    have full: "out = map (\<lambda>p. Some (contribution ?W p)) [0..<dc ! r]"
      by (rule output_full [OF out(2)]) (use cover in simp)
    have split: "[0..<n] = [0..<r] @ [r] @ [Suc r..<n]"
      using upt_add_eq_append [of 0 r "n - r"] r by (simp add: upt_conv_Cons)
    have "unpack_from ?p r (map snd ?W) [0..<n] 0 ?none = unpack_from ?p r (map snd ?W) ([r] @ [Suc r..<n] @ []) 0 ?none"
      unfolding split append_Nil2 by (rule unpack_from_skip) (use zero r in simp)
    also have "\<dots> = Inr out"
    proof (cases "R r r = []")
      case True
      then have "unpack_from ?p r (map snd ?W) ([r] @ [Suc r..<n] @ []) 0 ?none = Inr ?none"
        using unpack_from_skip [of "[Suc r..<n]" ?p r _ "[]"] zero r carries_count [OF c] by simp
      moreover have "dc ! r = 0" using True cover by (metis image_empty lessThan_eq_iff lessThan_0 list.set(1))
      ultimately show ?thesis using full by simp
    next
      case ne: False
      have "index_copy ?none (map (int \<circ> snd) (R r r)) (map snd ?W) = Inr out"
        using out(1) by (simp add: write_positions_def)
      then show ?thesis
        using unpack_from_skip [of "[Suc r..<n]" ?p r _ "[]"] zero r carries_count [OF c] carries_tensors(2) [OF c ne False] ne False
        by (simp add: slice_def)
    qed
    finally have "unpack_rank_recv_tensor ?p r (map snd ?W) = Inr out"
      using r size by (simp add: unpack_rank_recv_tensor_def check_rank_def realisesD(1,3) [OF R])
    then show ?thesis unfolding arr full [symmetric] exchange_rank_tensor_local_def if_not_P [OF imp] pack by simp
  qed
qed

theorem group_gathers:
  fixes locals :: "'a::comm_monoid_add list list"
  assumes ok: "group_ok n sc dc R plans locals" and d: "delivers all_to_all"
    and st: "list_all (\<lambda>p. cross_rank_token_count p = 0) plans \<Longrightarrow> stays n dc R"
  shows "exchange_group all_to_all plans locals = Inr (gathered R locals dc)"
proof (cases "list_all (\<lambda>p. cross_rank_token_count p = 0) plans")
  case True
  note D = group_okD [OF ok]
  have "mapE (\<lambda>r. bindE (check_rank (plans ! r) (int r)) (\<lambda>_. exchange_rank_tensor_local (plans ! r) r (locals ! r))) [0..<n]
      = Inr (gathered R locals dc)"
    unfolding gathered_def D(2)
    by (rule mapE_Inr_map) (use local_exchange_gathers [OF ok st [OF True]] realisesD(1) [OF D(6)] in \<open>simp add: check_rank_def\<close>)
  with True D(1) show ?thesis by (simp add: exchange_group_def)
qed (rule cross_exchange_gathers [OF ok d])

section \<open>Exchanging tokens\<close>

text \<open>The sum of the rows that the ranks of a layout hold for a token.\<close>

definition token_sum :: "token_range list list \<Rightarrow> 'a::monoid_add list list \<Rightarrow> int \<Rightarrow> 'a" where
  "token_sum by_rank locals t = (\<Sum>s\<leftarrow>[0..<length by_rank].
     if t \<in> set (range_tokens (by_rank ! s)) then locals ! s ! nat (row_of (by_rank ! s) t) else 0)"

text \<open>No token has to move, and every rank keeps what it is to hold.\<close>

definition in_place :: "token_range list list \<Rightarrow> token_range list list \<Rightarrow> bool" where
  "in_place src dst \<longleftrightarrow>
     list_all (\<lambda>s. list_all (\<lambda>d. s = d \<or> set (range_tokens (src ! s)) \<inter> set (range_tokens (dst ! d)) = {}) [0..<length dst]) [0..<length dst] \<and>
     list_all (\<lambda>r. set (range_tokens (dst ! r)) \<subseteq> set (range_tokens (src ! r))) [0..<length dst]"

lemma common_tokens_facts:
  "set (common_tokens a b) = set (range_tokens a) \<inter> set (range_tokens b)" "distinct (common_tokens a b)"
  by (simp_all add: common_tokens_def)

lemma filter_the_one: "distinct xs \<Longrightarrow> filter (\<lambda>y. y = x) xs = (if x \<in> set xs then [x] else [])"
  by (induction xs) auto

lemma contribution_concat:
  "contribution (concat (map f xs)) p = (\<Sum>s\<leftarrow>xs. contribution (f s) p)"
  by (induction xs) (simp_all add: contribution_append contribution_def)

lemma route_contribution:
  assumes b: "layout_ranges b" and p: "p < length (range_tokens b)"
  shows "contribution (writes l (route_between a b)) p =
    (if range_tokens b ! p \<in> set (range_tokens a) then l ! nat (row_of a (range_tokens b ! p)) else 0 :: 'a::monoid_add)"
proof -
  let ?t = "range_tokens b ! p"
  have "filter (\<lambda>t. nat (row_of b t) = p) (common_tokens a b) = filter (\<lambda>t. t = ?t) (common_tokens a b)"
  proof (rule filter_cong)
    fix t assume "t \<in> set (common_tokens a b)"
    then have t: "t \<in> set (range_tokens b)" by (simp add: common_tokens_facts)
    show "nat (row_of b t) = p \<longleftrightarrow> t = ?t"
      using row_of_bij(3) [OF b t] row_of_bij(2) [OF b p] by auto
  qed simp
  also have "\<dots> = (if ?t \<in> set (range_tokens a) then [?t] else [])"
    using p by (simp add: filter_the_one common_tokens_facts)
  finally have "filter (\<lambda>t. nat (row_of b t) = p) (common_tokens a b) = (if ?t \<in> set (range_tokens a) then [?t] else [])" .
  then show ?thesis
    by (simp add: contribution_def writes_def route_between_def filter_map comp_def)
qed

lemma route_fits:
  assumes "layout_ranges a" "layout_ranges b"
  shows "fits (length (range_tokens a)) (length (range_tokens b)) (route_between a b)"
proof -
  have "nat (row_of a t) < length (range_tokens a) \<and> nat (row_of b t) < length (range_tokens b)" if "t \<in> set (common_tokens a b)" for t
    using that row_of_bij(3) [OF assms(1)] row_of_bij(3) [OF assms(2)] by (auto simp: common_tokens_facts nat_less_iff)
  then show ?thesis by (auto simp: fits_def route_between_def)
qed

lemma route_swap: "map prod.swap (route_between a b) = route_between b a"
  by (simp add: route_between_def common_tokens_def Int_commute)

lemma range_total_tokens: "layout_ranges rs \<Longrightarrow> range_total rs = length (range_tokens rs)"
  by (simp add: layout_ranges_def contiguous_total [of 0])

text \<open>The routes of two layouts: they fit, they stay when the layouts agree, and they gather token sums.\<close>

lemma layouts_group_ok:
  assumes A: "\<forall>rs \<in> set A. layout_ranges rs" and B: "\<forall>rs \<in> set B. layout_ranges rs" and n: "length A = length B"
    and plans: "length plans = length B" "\<And>r. r < length B \<Longrightarrow>
      realises (length B) (map range_total A) (map range_total B) (\<lambda>s d. route_between (A ! s) (B ! d)) r (plans ! r)"
    and locals: "map length locals = map range_total A"
  shows "group_ok (length B) (map range_total A) (map range_total B) (\<lambda>s d. route_between (A ! s) (B ! d)) plans locals"
proof -
  have lay: "layout_ranges (A ! s)" "layout_ranges (B ! s)" if "s < length B" for s using that A B n by simp_all
  show ?thesis unfolding group_ok_def using plans locals n route_fits lay by (simp add: lay [THEN range_total_tokens])
qed

lemma layouts_stay:
  assumes B: "\<forall>rs \<in> set B. layout_ranges rs" and P: "in_place A B"
  shows "stays (length B) (map range_total B) (\<lambda>s d. route_between (A ! s) (B ! d))"
  unfolding stays_def
proof (intro conjI allI impI)
  fix s d assume "s < length B" "d < length B" "s \<noteq> d"
  then have "set (range_tokens (A ! s)) \<inter> set (range_tokens (B ! d)) = {}"
    using P unfolding in_place_def list_all_iff set_upt by (metis atLeastLessThan_iff le0)
  then show "route_between (A ! s) (B ! d) = []" by (simp add: route_between_def common_tokens_def)
next
  fix r assume r: "r < length B"
  then have lay: "layout_ranges (B ! r)" using B by simp
  have common: "set (common_tokens (A ! r) (B ! r)) = set (range_tokens (B ! r))"
    using P r by (auto simp: in_place_def list_all_iff common_tokens_facts)
  note bij = row_of_bij [OF lay]
  have img: "(\<lambda>t. nat (row_of (B ! r) t)) ` set (range_tokens (B ! r)) = {..<length (range_tokens (B ! r))}"
  proof (intro set_eqI iffI)
    fix p assume "p \<in> {..<length (range_tokens (B ! r))}"
    then have p: "p < length (range_tokens (B ! r))" by simp
    show "p \<in> (\<lambda>t. nat (row_of (B ! r) t)) ` set (range_tokens (B ! r))"
      by (rule image_eqI [of _ _ "range_tokens (B ! r) ! p"]) (use bij(2) [OF p] p in simp_all)
  qed (use bij(3) in \<open>auto simp: nat_less_iff\<close>)
  show "snd ` set (route_between (A ! r) (B ! r)) = {..<map range_total B ! r}"
    using img r by (simp add: route_between_def image_image common range_total_tokens [OF lay])
  have "inj_on (\<lambda>t. nat (row_of (B ! r) t)) (set (range_tokens (B ! r)))"
    by (rule inj_on_inverseI [where g = "\<lambda>p. range_tokens (B ! r) ! p"]) (use bij(3) in simp)
  then show "distinct (map snd (route_between (A ! r) (B ! r)))"
    by (simp add: route_between_def comp_def distinct_map common common_tokens_facts(2))
qed

lemma gathered_layouts:
  fixes locals :: "'a::comm_monoid_add list list"
  assumes B: "\<forall>rs \<in> set B. layout_ranges rs" and n: "length A = length B"
  shows "gathered (\<lambda>s d. route_between (A ! s) (B ! d)) locals (map range_total B) =
    map (\<lambda>rs. map (\<lambda>t. Some (token_sum A locals t)) (range_tokens rs)) B"
proof (rule nth_equalityI)
  let ?R = "\<lambda>s d. route_between (A ! s) (B ! d)" and ?n = "length B"
  fix r assume "r < length (gathered ?R locals (map range_total B))"
  then have r: "r < ?n" by (simp add: gathered_def)
  then have lay: "layout_ranges (B ! r)" using B by simp
  have "contribution (arriving ?R locals ?n r) p = token_sum A locals (range_tokens (B ! r) ! p)"
    if "p < length (range_tokens (B ! r))" for p
    unfolding arriving_def contribution_concat token_sum_def n
    by (intro arg_cong [where f = sum_list] map_cong refl route_contribution lay that)
  then show "gathered ?R locals (map range_total B) ! r = map (\<lambda>rs. map (\<lambda>t. Some (token_sum A locals t)) (range_tokens rs)) B ! r"
    using r range_total_tokens [OF lay] by (intro nth_equalityI) (simp_all add: gathered_def)
qed (simp add: gathered_def)

lemma group_of_layouts:
  fixes locals :: "'a::comm_monoid_add list list"
  assumes A: "\<forall>rs \<in> set A. layout_ranges rs" and B: "\<forall>rs \<in> set B. layout_ranges rs" and n: "length A = length B"
    and plans: "length plans = length B" "\<And>r. r < length B \<Longrightarrow>
      realises (length B) (map range_total A) (map range_total B) (\<lambda>s d. route_between (A ! s) (B ! d)) r (plans ! r)"
    and cross: "list_all (\<lambda>p. cross_rank_token_count p = 0) plans \<Longrightarrow> in_place A B"
    and locals: "map length locals = map range_total A" and d: "delivers all_to_all"
  shows "exchange_group all_to_all plans locals = Inr (map (\<lambda>rs. map (\<lambda>t. Some (token_sum A locals t)) (range_tokens rs)) B)"
  using group_gathers [OF layouts_group_ok [OF A B n plans locals] d layouts_stay [OF B cross]]
  unfolding gathered_layouts [OF B n] .

section \<open>There and back\<close>

definition settled :: "token_layout_index \<Rightarrow> token_range list list \<Rightarrow> bool" where
  "settled layout dst \<longleftrightarrow> in_place (li_ranges layout) dst \<and> in_place dst (li_ranges layout)"

text \<open>The plans of all ranks, and the tensors of a layout written token by token.\<close>

definition plans_of :: "token_layout_index \<Rightarrow> token_range list list \<Rightarrow> nat \<Rightarrow> exchange_plan list result" where
  "plans_of layout dst c = mapE (\<lambda>r. local_exchange_plan layout dst (int r) c) [0..<length dst]"

definition laid_out :: "(int \<Rightarrow> 'a) \<Rightarrow> token_range list list \<Rightarrow> 'a list list" where
  "laid_out f by_rank = map (\<lambda>rs. map f (range_tokens rs)) by_rank"

lemma plans_realise:
  assumes ok: "layouts_ok layout dst"
  defines "A \<equiv> li_ranges layout"
  shows "\<exists>plans rplans. plans_of layout dst c = Inr plans \<and> mapE reverse_exchange_plan plans = Inr rplans \<and>
    length plans = length dst \<and> length rplans = length dst \<and>
    (\<forall>r < length dst. xp_cross (plans ! r) = Some c \<and> xp_cross (rplans ! r) = Some c \<and>
      realises (length dst) (map range_total A) (map range_total dst) (\<lambda>s d. route_between (A ! s) (dst ! d)) r (plans ! r) \<and>
      realises (length dst) (map range_total dst) (map range_total A) (\<lambda>s d. route_between (dst ! s) (A ! d)) r (rplans ! r))"
proof -
  let ?n = "length dst"
  let ?R = "\<lambda>s d. route_between (A ! s) (dst ! d)" and ?B = "\<lambda>s d. route_between (dst ! s) (A ! d)"
  have counts: "li_counts layout = map range_total A" using ok by (simp add: layouts_ok_def A_def)
  have R: "routes layout dst = ?R" by (intro ext) (simp add: routes_def A_def)
  have sw: "swapped_route ?R = ?B" by (intro ext) (simp add: swapped_route_def route_swap)
  have "\<forall>r. \<exists>p. r < ?n \<longrightarrow> local_exchange_plan layout dst (int r) c = Inr p \<and> xp_cross p = Some c \<and>
      realises ?n (map range_total A) (map range_total dst) ?R r p"
    using local_plan_realises [OF ok] unfolding R counts by blast
  from this [THEN choice] obtain P where P: "\<And>r. r < ?n \<Longrightarrow> local_exchange_plan layout dst (int r) c = Inr (P r) \<and>
      xp_cross (P r) = Some c \<and> realises ?n (map range_total A) (map range_total dst) ?R r (P r)" by blast
  have "\<forall>r. \<exists>q. r < ?n \<longrightarrow> reverse_exchange_plan (P r) = Inr q \<and> xp_cross q = Some c \<and>
      realises ?n (map range_total dst) (map range_total A) ?B r q"
    using P reverse_realises unfolding sw [symmetric] by metis
  from this [THEN choice] obtain Q where Q: "\<And>r. r < ?n \<Longrightarrow> reverse_exchange_plan (P r) = Inr (Q r) \<and>
      xp_cross (Q r) = Some c \<and> realises ?n (map range_total dst) (map range_total A) ?B r (Q r)" by blast
  have "plans_of layout dst c = Inr (map P [0..<?n])"
    unfolding plans_of_def by (rule mapE_Inr_map) (use P in simp)
  moreover have "mapE reverse_exchange_plan (map P [0..<?n]) = Inr (map Q [0..<?n])"
    unfolding mapE_Inr_iff list.rel_map by (rule list.rel_refl_strong) (use Q in simp)
  ultimately show ?thesis using P Q by (intro exI [of _ "map P [0..<?n]"] exI [of _ "map Q [0..<?n]"]) simp
qed

lemma same_cross:
  assumes "length plans = n" "0 < n" "\<forall>r < n. xp_cross (plans ! r) = Some c" "list_all (\<lambda>p. cross_rank_token_count p = 0) plans"
  shows "c = 0"
  using assms by (auto simp: list_all_length cross_rank_token_count_def)

lemma exchange_both_ways:
  fixes all_to_all :: "'a::comm_monoid_add list list \<Rightarrow> nat list list \<Rightarrow> nat \<Rightarrow> 'a list"
  assumes ok: "layouts_ok layout dst" and d: "delivers all_to_all" and c: "c = 0 \<Longrightarrow> settled layout dst"
  shows "\<exists>plans rplans. plans_of layout dst c = Inr plans \<and> mapE reverse_exchange_plan plans = Inr rplans \<and>
    (\<forall>locals. map length locals = li_counts layout \<longrightarrow>
      exchange_group all_to_all plans locals = Inr (laid_out (\<lambda>t. Some (token_sum (li_ranges layout) locals t)) dst)) \<and>
    (\<forall>grads. map length grads = map range_total dst \<longrightarrow>
      exchange_group all_to_all rplans grads = Inr (laid_out (\<lambda>t. Some (token_sum dst grads t)) (li_ranges layout)))"
proof -
  let ?A = "li_ranges layout"
  obtain plans rplans where p: "plans_of layout dst c = Inr plans" "mapE reverse_exchange_plan plans = Inr rplans"
    "length plans = length dst" "length rplans = length dst"
    and facts: "\<forall>r < length dst. xp_cross (plans ! r) = Some c \<and> xp_cross (rplans ! r) = Some c \<and>
      realises (length dst) (map range_total ?A) (map range_total dst) (\<lambda>s d. route_between (?A ! s) (dst ! d)) r (plans ! r) \<and>
      realises (length dst) (map range_total dst) (map range_total ?A) (\<lambda>s d. route_between (dst ! s) (?A ! d)) r (rplans ! r)"
    using plans_realise [OF ok, of c] by blast
  have n: "length ?A = length dst" and counts: "li_counts layout = map range_total ?A" using ok by (simp_all add: layouts_ok_def)
  have A: "\<forall>rs \<in> set ?A. layout_ranges rs" and B: "\<forall>rs \<in> set dst. layout_ranges rs" using ok by (simp_all add: layouts_ok_def)
  have place: "in_place ?A dst \<and> in_place dst ?A" if "list_all (\<lambda>p. cross_rank_token_count p = 0) qs" "qs = plans \<or> qs = rplans" for qs
  proof (cases "dst = []")
    case True
    then show ?thesis using n by (simp add: in_place_def)
  next
    case False
    then have "c = 0" using same_cross [of qs "length dst" c] that p(3,4) facts by auto
    then show ?thesis using c by (simp add: settled_def)
  qed
  have "exchange_group all_to_all plans locals = Inr (laid_out (\<lambda>t. Some (token_sum ?A locals t)) dst)"
    if "map length locals = li_counts layout" for locals :: "'a list list"
    unfolding laid_out_def
    by (rule group_of_layouts [OF A B n p(3) _ _ _ d]) (use facts place that counts in simp_all)
  moreover have "exchange_group all_to_all rplans grads = Inr (laid_out (\<lambda>t. Some (token_sum dst grads t)) ?A)"
    if "map length grads = map range_total dst" for grads :: "'a list list"
    unfolding laid_out_def
    by (rule group_of_layouts [OF B A n [symmetric] _ _ _ _ d]) (use facts place that counts n p(4) in simp_all)
  ultimately show ?thesis using p(1,2) by blast
qed

section \<open>Tokens with one owner\<close>

definition owned_once :: "token_range list list \<Rightarrow> bool" where
  "owned_once by_rank \<longleftrightarrow> distinct (concat (map range_tokens by_rank))"

lemma owned_once_disjoint:
  "owned_once A \<Longrightarrow> s < length A \<Longrightarrow> s' < length A \<Longrightarrow> s \<noteq> s' \<Longrightarrow> set (range_tokens (A ! s)) \<inter> set (range_tokens (A ! s')) = {}"
proof (induction A arbitrary: s s')
  case (Cons a A)
  have disj: "set (range_tokens a) \<inter> set (range_tokens (A ! k)) = {}" if "k < length A" for k
    using Cons.prems(1) nth_mem [OF that] by (fastforce simp: owned_once_def)
  have "owned_once A" using Cons.prems(1) by (simp add: owned_once_def)
  with Cons disj show ?case by (cases s; cases s') (auto simp: Int_commute)
qed simp

lemma token_sum_owner:
  fixes locals :: "'a::comm_monoid_add list list"
  assumes A: "owned_once A" and s: "s < length A" "t \<in> set (range_tokens (A ! s))"
  shows "token_sum A locals t = locals ! s ! nat (row_of (A ! s) t)"
proof -
  have "token_sum A locals t = (\<Sum>q\<leftarrow>[0..<length A]. if q = s then locals ! s ! nat (row_of (A ! s) t) else 0)"
    unfolding token_sum_def
  proof (intro arg_cong [where f = sum_list] map_cong refl)
    fix q assume "q \<in> set [0..<length A]"
    then show "(if t \<in> set (range_tokens (A ! q)) then locals ! q ! nat (row_of (A ! q) t) else 0) =
        (if q = s then locals ! s ! nat (row_of (A ! s) t) else 0)"
      using owned_once_disjoint [OF A, of q s] s by auto
  qed
  also have "\<dots> = locals ! s ! nat (row_of (A ! s) t)" using s(1)
    by (simp add: sum_list_distinct_conv_sum_set)
  finally show ?thesis .
qed

definition tokens_in :: "token_range list list \<Rightarrow> token_range list list \<Rightarrow> bool" where
  "tokens_in A B \<longleftrightarrow> set (concat (map range_tokens A)) \<subseteq> set (concat (map range_tokens B))"

lemma owner_of:
  assumes "tokens_in A B" "rs \<in> set A" "t \<in> set (range_tokens rs)"
  obtains s where "s < length B" "t \<in> set (range_tokens (B ! s))"
proof -
  have "t \<in> set (concat (map range_tokens A))" using assms(2,3) by auto
  then have "t \<in> set (concat (map range_tokens B))" using assms(1) unfolding tokens_in_def by (rule rev_subsetD)
  then obtain rs' where "rs' \<in> set B" "t \<in> set (range_tokens rs')" by auto
  then show thesis using that unfolding in_set_conv_nth [of rs'] by blast
qed

lemma laid_out_length: "\<forall>rs \<in> set A. layout_ranges rs \<Longrightarrow> map length (laid_out f A) = map range_total A"
  by (simp add: laid_out_def range_total_tokens)

lemma laid_out_row:
  assumes "\<forall>rs \<in> set A. layout_ranges rs" "s < length A" "t \<in> set (range_tokens (A ! s))"
  shows "laid_out f A ! s ! nat (row_of (A ! s) t) = f t"
proof -
  have "layout_ranges (A ! s)" using assms(1,2) by simp
  from row_of_bij(3) [OF this assms(3)] assms(2) show ?thesis by (simp add: laid_out_def nat_less_iff)
qed

lemma token_sum_laid_out:
  fixes f :: "int \<Rightarrow> 'a::comm_monoid_add"
  assumes A: "\<forall>rs \<in> set A. layout_ranges rs" "owned_once A" and B: "tokens_in B A"
  shows "laid_out (\<lambda>t. Some (token_sum A (laid_out f A) t)) B = laid_out (\<lambda>t. Some (f t)) B"
proof -
  have "token_sum A (laid_out f A) t = f t" if "rs \<in> set B" "t \<in> set (range_tokens rs)" for rs t
  proof -
    note t = that
    obtain s where s: "s < length A" "t \<in> set (range_tokens (A ! s))" by (rule owner_of [OF B t])
    show ?thesis by (simp add: token_sum_owner [OF A(2) s] laid_out_row [OF A(1) s])
  qed
  then show ?thesis by (simp add: laid_out_def)
qed

text \<open>With one owner per token, the tensors are the rows of some assignment of values to tokens.\<close>

lemma laid_out_any:
  fixes locals :: "'a::comm_monoid_add list list"
  assumes A: "\<forall>rs \<in> set A. layout_ranges rs" "owned_once A" and len: "map length locals = map range_total A"
  shows "laid_out (token_sum A locals) A = locals"
proof (rule nth_equalityI)
  show "length (laid_out (token_sum A locals) A) = length locals"
    using arg_cong [OF len, of length] by (simp add: laid_out_def)
  fix s assume "s < length (laid_out (token_sum A locals) A)"
  then have s: "s < length A" by (simp add: laid_out_def)
  have rs: "layout_ranges (A ! s)" using A(1) s by simp
  have k: "length (locals ! s) = length (range_tokens (A ! s))"
  proof -
    have "length locals = length A" using arg_cong [OF len, of length] by simp
    then have "map length locals ! s = length (locals ! s)" using s by simp
    with len s show ?thesis by (simp add: range_total_tokens [OF rs])
  qed
  show "laid_out (token_sum A locals) A ! s = locals ! s"
  proof (rule nth_equalityI)
    show "length (laid_out (token_sum A locals) A ! s) = length (locals ! s)" using s k by (simp add: laid_out_def)
    fix p assume "p < length (laid_out (token_sum A locals) A ! s)"
    then have p: "p < length (range_tokens (A ! s))" using s by (simp add: laid_out_def)
    have "token_sum A locals (range_tokens (A ! s) ! p) = locals ! s ! p"
      using token_sum_owner [OF A(2) s nth_mem [OF p], of locals] row_of_bij(2) [OF rs p] by simp
    then show "laid_out (token_sum A locals) A ! s ! p = locals ! s ! p" using s p by (simp add: laid_out_def)
  qed
qed

text \<open>
  C38. For layouts whose ranks own disjoint ranges with contiguous rows, when the source layout
  owns every token once and the destination asks only for tokens of the source, every rank's
  plan exists and the exchange over the group delivers to each rank exactly the rows of the
  tokens it is to own, in its order.  The reversed plans are the adjoint: applied to any
  tensors of the destination layout they give each source row the sum over all the ranks that
  hold its token.  \<open>all_to_all\<close> is any collective that delivers as documented, and the count
  that lets the ranks skip it is zero only if no token has to move.
\<close>

theorem exchange_and_adjoint:
  fixes all_to_all :: "'a::comm_monoid_add list list \<Rightarrow> nat list list \<Rightarrow> nat \<Rightarrow> 'a list"
  assumes "layouts_ok layout dst" and "delivers all_to_all" and "c = 0 \<Longrightarrow> settled layout dst"
    and "owned_once (li_ranges layout)" and "tokens_in dst (li_ranges layout)" and "map length grads = map range_total dst"
  shows "\<exists>plans rplans. plans_of layout dst c = Inr plans \<and> mapE reverse_exchange_plan plans = Inr rplans \<and>
    exchange_group all_to_all plans (laid_out f (li_ranges layout)) = Inr (laid_out (\<lambda>t. Some (f t)) dst) \<and>
    exchange_group all_to_all rplans grads = Inr (laid_out (\<lambda>t. Some (token_sum dst grads t)) (li_ranges layout))"
proof -
  let ?A = "li_ranges layout"
  have A: "\<forall>rs \<in> set ?A. layout_ranges rs" "li_counts layout = map range_total ?A" using assms(1) by (simp_all add: layouts_ok_def)
  have len: "map length (laid_out f ?A) = li_counts layout" using laid_out_length [OF A(1), of f] A(2) by simp
  note same = token_sum_laid_out [OF A(1) assms(4,5), of f]
  show ?thesis using exchange_both_ways [OF assms(1-3)] len assms(6) unfolding same [symmetric] by blast
qed

theorem exchange_and_adjoint_witness:
  "\<exists>plans rplans. plans_of example_layout example_dest 2 = Inr plans \<and> mapE reverse_exchange_plan plans = Inr rplans \<and>
    exchange_group direct_all_to_all plans (laid_out (\<lambda>t. t + 10) (li_ranges example_layout)) = Inr [[Some 12, Some 10], [Some 11, Some 13]] \<and>
    exchange_group direct_all_to_all rplans [[5, 6], [7, 8 :: int]] = Inr [[Some 6, Some 7], [Some 5, Some 8]]"
proof -
  have "layouts_ok example_layout example_dest" "owned_once (li_ranges example_layout)"
    "tokens_in example_dest (li_ranges example_layout)" by code_simp+
  moreover have "map length [[5, 6], [7, 8 :: int]] = map range_total example_dest" by code_simp
  moreover have "laid_out (\<lambda>t. Some (t + 10 :: int)) example_dest = [[Some 12, Some 10], [Some 11, Some 13]]"
    "laid_out (\<lambda>t. Some (token_sum example_dest [[5, 6], [7, 8 :: int]] t)) (li_ranges example_layout) = [[Some 6, Some 7], [Some 5, Some 8]]"
    by code_simp+
  ultimately show ?thesis
    using exchange_and_adjoint [of example_layout example_dest direct_all_to_all 2 "[[5, 6], [7, 8 :: int]]" "\<lambda>t. t + 10"] direct_delivers
    by simp
qed

text \<open>
  C39. Exchanging to another layout and back restores every rank's tensor: when both layouts own
  the same tokens once each, running the plans and then the reversed plans raises nowhere and
  gives back the tensors the ranks began with, whatever they hold.
\<close>

theorem exchange_roundtrip:
  fixes all_to_all :: "'a::comm_monoid_add list list \<Rightarrow> nat list list \<Rightarrow> nat \<Rightarrow> 'a list"
  assumes "layouts_ok layout dst" and "delivers all_to_all" and "c = 0 \<Longrightarrow> settled layout dst"
    and "owned_once (li_ranges layout)" and "owned_once dst" and "tokens_in dst (li_ranges layout)" and "tokens_in (li_ranges layout) dst"
    and "map length locals = li_counts layout"
  shows "bindE (plans_of layout dst c) (\<lambda>plans.
     bindE (exchange_group all_to_all plans locals) (\<lambda>there.
     bindE (mapE reverse_exchange_plan plans) (\<lambda>rplans.
     exchange_group all_to_all rplans (map (map the) there)))) = Inr (map (map Some) locals)"
proof -
  let ?A = "li_ranges layout" and ?f = "token_sum (li_ranges layout) locals"
  have A: "\<forall>rs \<in> set ?A. layout_ranges rs" "\<forall>rs \<in> set dst. layout_ranges rs" "li_counts layout = map range_total ?A"
    using assms(1) by (simp_all add: layouts_ok_def)
  obtain plans rplans where p: "plans_of layout dst c = Inr plans" "mapE reverse_exchange_plan plans = Inr rplans"
    "exchange_group all_to_all plans locals = Inr (laid_out (\<lambda>t. Some (?f t)) dst)"
    "\<And>grads. map length grads = map range_total dst \<Longrightarrow>
      exchange_group all_to_all rplans grads = Inr (laid_out (\<lambda>t. Some (token_sum dst grads t)) ?A)"
    using exchange_both_ways [OF assms(1-3)] assms(8) by blast
  have the: "map (map the) (laid_out (\<lambda>t. Some (?f t)) dst) = laid_out ?f dst" by (simp add: laid_out_def comp_def)
  have "laid_out (\<lambda>t. Some (token_sum dst (laid_out ?f dst) t)) ?A = laid_out (\<lambda>t. Some (?f t)) ?A"
    by (rule token_sum_laid_out [OF A(2) assms(5,7)])
  also have "\<dots> = map (map Some) (laid_out ?f ?A)" by (simp add: laid_out_def)
  also have "laid_out ?f ?A = locals" by (rule laid_out_any [OF A(1) assms(4)]) (use assms(8) A(3) in simp)
  finally show ?thesis using p(4) [OF laid_out_length [OF A(2)], of ?f] by (simp add: p(1-3) the)
qed

theorem exchange_roundtrip_witness:
  "bindE (plans_of example_layout example_dest 2) (\<lambda>plans.
     bindE (exchange_group direct_all_to_all plans [[10, 11], [12, 13 :: int]]) (\<lambda>there.
     bindE (mapE reverse_exchange_plan plans) (\<lambda>rplans.
     exchange_group direct_all_to_all rplans (map (map the) there)))) = Inr [[Some 10, Some 11], [Some 12, Some 13]]"
proof -
  have "layouts_ok example_layout example_dest" "owned_once (li_ranges example_layout)" "owned_once example_dest"
    "tokens_in example_dest (li_ranges example_layout)" "tokens_in (li_ranges example_layout) example_dest"
    "map length [[10, 11], [12, 13 :: int]] = li_counts example_layout" by code_simp+
  from exchange_roundtrip [OF this(1) direct_delivers _ this(2-6), of 2] show ?thesis by simp
qed

end
