(* ===== verification/Sequence_Exchange.thy ===== *)
theory Sequence_Exchange
  imports Token_Exchange
begin

text \<open>
  The rest of \<^verbatim>\<open>src/art/megatron/gdn/layout.py\<close>: when the rows of a context-parallel rank
  are split over the ranks of a tensor-parallel group, each rank makes from the plan of its
  context-parallel rank a plan over all the ranks of both groups.
\<close>

section \<open>Composite ranks\<close>

definition infer_tp_cp_rank_mode :: "int \<Rightarrow> int \<Rightarrow> int \<Rightarrow> int \<Rightarrow> int \<Rightarrow> string result" where
  "infer_tp_cp_rank_mode cp_rank tp_rank tp_size cp_size tp_cp_rank =
     (let cp_major = cp_rank * tp_size + tp_rank; tp_major = tp_rank * cp_size + cp_rank in
      if tp_cp_rank = cp_major then Inr ''cp_major''
      else if tp_cp_rank = tp_major then Inr ''tp_major''
      else Inl (ValueError ''unsupported TPxCP process-group rank order for GDN SP exchange''))"

definition composite_tp_cp_rank :: "int \<Rightarrow> int \<Rightarrow> int \<Rightarrow> int \<Rightarrow> string \<Rightarrow> int result" where
  "composite_tp_cp_rank cp_rank tp_rank tp_size cp_size mode =
     (if mode = ''cp_major'' then Inr (cp_rank * tp_size + tp_rank)
      else if mode = ''tp_major'' then Inr (tp_rank * cp_size + cp_rank)
      else Inl (ValueError ''unsupported TPxCP rank mode''))"

definition ceil_div :: "int \<Rightarrow> int \<Rightarrow> int" where
  "ceil_div value divisor = (value + divisor - 1) div divisor"

definition sp_counts_by_composite_rank :: "nat list \<Rightarrow> int \<Rightarrow> string \<Rightarrow> nat list result" where
  "sp_counts_by_composite_rank cp_counts tp_size mode =
     (let cp_size = length cp_counts in
      foldE (\<lambda>(cp_rank, tp_rank) counts.
          bindE (composite_tp_cp_rank (int cp_rank) (int tp_rank) tp_size (int cp_size) mode) (\<lambda>k.
          ensure (0 \<le> k \<and> k < int (length counts)) IndexError
            (Inr (counts[nat k := nat (ceil_div (int (cp_counts ! cp_rank)) tp_size)]))))
        [(cp_rank, tp_rank). cp_rank \<leftarrow> [0..<cp_size], tp_rank \<leftarrow> [0..<nat tp_size]]
        (replicate (cp_size * nat tp_size) 0))"

definition sp_shard_bounds :: "int \<Rightarrow> int \<Rightarrow> int \<Rightarrow> int \<times> int \<times> int" where
  "sp_shard_bounds token_count tp_rank tp_size =
     (let rows_per_tp = ceil_div token_count tp_size; start = tp_rank * rows_per_tp in
      (start, min (start + rows_per_tp) token_count, rows_per_tp))"

section \<open>Sharding the transfers of a plan\<close>

text \<open>An implicit identity becomes the transfer of the rank's own shard to itself.\<close>

definition shard_identity :: "peer_transfer \<Rightarrow> exchange_plan \<Rightarrow> int \<Rightarrow> int \<Rightarrow> int \<Rightarrow> string \<Rightarrow> nat list \<Rightarrow> nat list
    \<Rightarrow> peer_transfer list result" where
  "shard_identity t p tp_size tp_rank local_rank mode source_counts dest_counts =
     (if tf_source t \<noteq> tf_dest t then Inr []
      else bindE (composite_tp_cp_rank (int (tf_source t)) tp_rank tp_size (int (xp_cp_size p)) mode) (\<lambda>source_rank.
        if source_rank \<noteq> local_rank then Inr []
        else let (start, fin, _) = sp_shard_bounds (int (xp_source_counts p ! tf_source t)) tp_rank tp_size;
                 rws = fin - start; positions = [0..rws - 1]; k = nat source_rank in
          if rws \<le> 0 then Inr []
          else bindE (make_peer_transfer k k positions positions (source_counts ! k) (dest_counts ! k)) (\<lambda>s. Inr [s])))"

text \<open>
  An indexed transfer is split by the composite ranks of its rows.  The parallel index
  tensors are the list of their rows: source rank, destination rank and the positions
  within the two shards; \<^verbatim>\<open>torch.unique\<close> gives the distinct keys in increasing order.
\<close>

definition shard_rows :: "peer_transfer \<Rightarrow> int \<Rightarrow> int \<Rightarrow> string \<Rightarrow> int \<Rightarrow> int \<Rightarrow> int list \<Rightarrow> int list \<Rightarrow> (int \<times> int \<times> int \<times> int) list" where
  "shard_rows t tp_size cp_size mode source_rows dest_rows source_positions dest_positions =
     map (\<lambda>(a, b). let source_tp = a div source_rows; dest_tp = b div dest_rows;
           s = int (tf_source t); d = int (tf_dest t) in
         (if mode = ''cp_major'' then s * tp_size + source_tp else source_tp * cp_size + s,
          if mode = ''cp_major'' then d * tp_size + dest_tp else dest_tp * cp_size + d,
          a - source_tp * source_rows, b - dest_tp * dest_rows))
       (zip source_positions dest_positions)"

definition shard_indexed :: "peer_transfer \<Rightarrow> exchange_plan \<Rightarrow> int \<Rightarrow> int \<Rightarrow> string \<Rightarrow> nat list \<Rightarrow> nat list
    \<Rightarrow> peer_transfer list result" where
  "shard_indexed t p tp_size local_rank mode source_counts dest_counts =
     (case (tf_source_tensor t, tf_dest_tensor t) of
        (Some source_positions, Some dest_positions) \<Rightarrow>
          let source_rows = ceil_div (int (xp_source_counts p ! tf_source t)) tp_size;
              dest_rows = ceil_div (int (xp_dest_counts p ! tf_dest t)) tp_size;
              world_size = int (xp_cp_size p) * tp_size in
          if source_rows \<le> 0 \<or> dest_rows \<le> 0 then Inr []
          else let kept = filter (\<lambda>(s, d, a, b). s = local_rank \<or> d = local_rank)
                 (shard_rows t tp_size (int (xp_cp_size p)) mode source_rows dest_rows source_positions dest_positions) in
            mapE (\<lambda>key.
                let peer_source = key div world_size; peer_dest = key mod world_size;
                    peers = filter (\<lambda>(s, d, a, b). s * world_size + d = key) kept in
                make_peer_transfer (nat peer_source) (nat peer_dest) (map (\<lambda>(s, d, a, b). a) peers) (map (\<lambda>(s, d, a, b). b) peers)
                  (source_counts ! nat peer_source) (dest_counts ! nat peer_dest))
              (sorted_list_of_set (set (map (\<lambda>(s, d, a, b). s * world_size + d) kept)))
      | _ \<Rightarrow> Inl (ValueError ''indexed SP exchange requires explicit CP transfer positions''))"

text \<open>\<^verbatim>\<open>GdnSpExchangePlan\<close> is the pair of the plan and the composite rank.\<close>

definition shard_transfers :: "exchange_plan \<Rightarrow> int \<Rightarrow> int \<Rightarrow> int \<Rightarrow> string \<Rightarrow> nat list \<Rightarrow> nat list \<Rightarrow> peer_transfer list result" where
  "shard_transfers p tp_rank tp_size local_rank mode source_counts dest_counts =
     bindE (mapE (\<lambda>t.
         if tf_count t = 0 then Inr []
         else if identity_for p t then shard_identity t p tp_size tp_rank local_rank mode source_counts dest_counts
         else shard_indexed t p tp_size local_rank mode source_counts dest_counts) (xp_transfers p))
       (\<lambda>tss. Inr (concat tss))"

definition shard_cp_exchange_plan :: "exchange_plan \<Rightarrow> int \<Rightarrow> int \<Rightarrow> int \<Rightarrow> int \<Rightarrow> (exchange_plan \<times> int) result" where
  "shard_cp_exchange_plan p cp_rank tp_rank tp_size tp_cp_rank =
     (if tp_size \<le> 1 then Inr (p, cp_rank)
      else bindE (check_rank p cp_rank) (\<lambda>_.
       ensure (\<not> (tp_rank < 0 \<or> tp_rank \<ge> tp_size)) (ValueError ''tp_rank must be in range'')
      (bindE (infer_tp_cp_rank_mode cp_rank tp_rank tp_size (int (xp_cp_size p)) tp_cp_rank) (\<lambda>mode.
       bindE (composite_tp_cp_rank cp_rank tp_rank tp_size (int (xp_cp_size p)) mode) (\<lambda>composite_rank.
       ensure (composite_rank = tp_cp_rank) (ValueError ''TPxCP rank mapping mismatch'')
      (bindE (sp_counts_by_composite_rank (xp_source_counts p) tp_size mode) (\<lambda>source_counts.
       bindE (sp_counts_by_composite_rank (xp_dest_counts p) tp_size mode) (\<lambda>dest_counts.
       bindE (shard_transfers p tp_rank tp_size composite_rank mode source_counts dest_counts) (\<lambda>ts.
       bindE (new_exchange_plan \<lparr>xp_cp_size = xp_cp_size p * nat tp_size, xp_source_counts = source_counts,
           xp_dest_counts = dest_counts, xp_transfers = sort_key (\<lambda>t. (tf_source t, tf_dest t)) ts, xp_cross = Some 1\<rparr>) (\<lambda>q.
       Inr (q, composite_rank)))))))))))"

text \<open>The shard of a tensor held by a rank: the rows past the end are padding.\<close>

definition shard_of :: "'a \<Rightarrow> nat \<Rightarrow> 'a list \<Rightarrow> nat \<Rightarrow> 'a list" where
  "shard_of pad tp_size xs t =
     (let n = nat (ceil_div (int (length xs)) (int tp_size)) in
      map (\<lambda>k. if t * n + k < length xs then xs ! (t * n + k) else pad) [0..<n])"

text \<open>All tensors of a context-parallel group split over the ranks, in the order of their composite ranks.\<close>

definition sharded :: "'a \<Rightarrow> nat \<Rightarrow> 'a list list \<Rightarrow> 'a list list" where
  "sharded pad tp_size xss = map (\<lambda>k. shard_of pad tp_size (xss ! (k div tp_size)) (k mod tp_size)) [0..<length xss * tp_size]"

lemma sharded_exchange_example:
  "bindE (mapE (\<lambda>r. local_exchange_plan example_layout example_dest (int r) 2) [0, 1]) (\<lambda>plans.
   bindE (mapE (\<lambda>k. shard_cp_exchange_plan (plans ! (k div 2)) (int (k div 2)) (int (k mod 2)) 2 (int k)) [0, 1, 2, 3]) (\<lambda>sp.
   exchange_group direct_all_to_all (map fst sp) (sharded 0 2 [[10, 11], [12, 13 :: int]])))
   = Inr (sharded (Some 0) 2 [[Some 12, Some 10], [Some 11, Some 13]])"
  by code_simp

text \<open>
  In a group that counts the tensor-parallel rank first, the first and the last rank have the
  same number in both orders and take the other one.  The first rank then plans for other
  peers than they plan for, and the exchange fails.
\<close>

lemma ambiguous_rank_order:
  "infer_tp_cp_rank_mode 0 0 2 2 0 = Inr ''cp_major''" "infer_tp_cp_rank_mode 0 1 2 2 2 = Inr ''tp_major''"
  by (simp_all add: infer_tp_cp_rank_mode_def)

lemma tp_major_exchange_fails:
  "bindE (mapE (\<lambda>r. local_exchange_plan example_layout example_dest (int r) 2) [0, 1]) (\<lambda>plans.
   bindE (mapE (\<lambda>k. shard_cp_exchange_plan (plans ! (k mod 2)) (int (k mod 2)) (int (k div 2)) 2 (int k)) [0, 1, 2, 3]) (\<lambda>sp.
   exchange_group direct_all_to_all (map fst sp) [[10], [12], [11], [13 :: int]]))
   = Inl (ValueError ''recv buffer has another number of rows'')"
  by code_simp

section \<open>The counts of the shards\<close>

definition shard_rows_of :: "nat \<Rightarrow> nat \<Rightarrow> nat" where
  "shard_rows_of tp m = nat (ceil_div (int m) (int tp))"

definition shard_counts :: "nat \<Rightarrow> nat list \<Rightarrow> nat list" where
  "shard_counts tp counts = map (\<lambda>k. shard_rows_of tp (counts ! (k div tp))) [0..<length counts * tp]"

lemma shard_rows_bound:
  assumes "0 < tp" "a < m"
  shows "a div shard_rows_of tp m < tp" "0 < shard_rows_of tp m"
proof -
  have r: "int (shard_rows_of tp m) = ceil_div (int m) (int tp)"
    using assms by (simp add: shard_rows_of_def ceil_div_def pos_imp_zdiv_nonneg_iff)
  have "int m \<le> ceil_div (int m) (int tp) * int tp"
    using assms(1) unfolding ceil_div_def
    by (smt (verit) div_mult_mod_eq of_nat_0_less_iff pos_mod_bound)
  then have "int m \<le> int (shard_rows_of tp m * tp)" using r by simp
  then have m: "m \<le> shard_rows_of tp m * tp" by (simp only: of_nat_le_iff)
  then show "0 < shard_rows_of tp m" using assms(2) by (cases "shard_rows_of tp m") simp_all
  show "a div shard_rows_of tp m < tp"
    using m assms(2) by (simp add: less_mult_imp_div_less mult.commute)
qed

lemma composite_pairs:
  "concat (map (\<lambda>c. map (\<lambda>t. (c, t)) [0..<tp]) [0..<n]) = map (\<lambda>k. (k div tp, k mod tp)) [0..<n * tp]"
proof (induction n)
  case (Suc n)
  have "[0..<Suc n * tp] = [0..<n * tp] @ map ((+) (n * tp)) [0..<tp]"
  proof -
    have "map ((+) (n * tp)) [0..<tp] = [n * tp..<n * tp + tp]" by (rule nth_equalityI) simp_all
    then show ?thesis using upt_add_eq_append [of 0 "n * tp" tp] by (simp add: add.commute)
  qed
  moreover have "map (\<lambda>k. (k div tp, k mod tp)) (map ((+) (n * tp)) [0..<tp]) = map (\<lambda>t. (n, t)) [0..<tp]"
    by simp
  ultimately show ?case using Suc by simp
qed simp

lemma sp_counts_exact:
  assumes "0 < tp"
  shows "sp_counts_by_composite_rank counts (int tp) ''cp_major'' = Inr (shard_counts tp counts)"
proof -
  let ?n = "length counts"
  let ?f = "\<lambda>k. shard_rows_of tp (counts ! (k div tp))"
  let ?step = "\<lambda>(cp_rank, tp_rank) res.
          bindE (composite_tp_cp_rank (int cp_rank) (int tp_rank) (int tp) (int ?n) ''cp_major'') (\<lambda>k.
          ensure (0 \<le> k \<and> k < int (length res)) IndexError
            (Inr (res[nat k := nat (ceil_div (int (counts ! cp_rank)) (int tp))])))"
  have "foldE ?step (map (\<lambda>k. (k div tp, k mod tp)) [0..<m]) (replicate (?n * tp) 0) =
      Inr (map ?f [0..<m] @ replicate (?n * tp - m) 0)" if "m \<le> ?n * tp" for m
    using that
  proof (induction m)
    case (Suc m)
    have k: "int (m div tp) * int tp + int (m mod tp) = int m"
      by (metis div_mult_mod_eq of_nat_add of_nat_mult)
    have rep: "replicate (?n * tp - m) (0 :: nat) = 0 # replicate (?n * tp - Suc m) 0"
      using Suc.prems by (metis Suc_diff_Suc Suc_le_lessD replicate_Suc)
    have "m < Suc (?n * tp - Suc 0)" using Suc.prems by simp
    then show ?case using Suc
      by (simp add: composite_tp_cp_rank_def k shard_rows_of_def rep list_update_append)
  qed simp
  from this [of "?n * tp"] show ?thesis
    by (simp add: sp_counts_by_composite_rank_def Let_def composite_pairs shard_counts_def)
qed

section \<open>The routes of the shards\<close>

text \<open>The pairs of a route whose ends lie in the given shards, at their positions within these.\<close>

definition shard_pairs :: "nat \<Rightarrow> nat \<Rightarrow> nat \<Rightarrow> nat \<Rightarrow> route \<Rightarrow> route" where
  "shard_pairs rs rd ts td ps = map (\<lambda>(a, b). (a mod rs, b mod rd)) (filter (\<lambda>(a, b). a div rs = ts \<and> b div rd = td) ps)"

definition shard_route :: "nat \<Rightarrow> nat list \<Rightarrow> nat list \<Rightarrow> (nat \<Rightarrow> nat \<Rightarrow> route) \<Rightarrow> nat \<Rightarrow> nat \<Rightarrow> route" where
  "shard_route tp sc dc R S D = shard_pairs (shard_rows_of tp (sc ! (S div tp))) (shard_rows_of tp (dc ! (D div tp)))
     (S mod tp) (D mod tp) (R (S div tp) (D div tp))"

definition shard_transfer :: "nat \<Rightarrow> nat list \<Rightarrow> nat list \<Rightarrow> (nat \<Rightarrow> nat \<Rightarrow> route) \<Rightarrow> nat \<Rightarrow> nat \<Rightarrow> peer_transfer" where
  "shard_transfer tp sc dc R S D =
     transfer_for S D (shard_route tp sc dc R S D) (shard_counts tp sc ! S) (shard_counts tp dc ! D)"

lemma int_shard: "int a div int r = int (a div r)" "int a - int (a div r) * int r = int (a mod r)"
  unfolding zdiv_int zmod_int by (simp_all only: minus_div_mult_eq_mod)

text \<open>The composite ranks of the two ends of a pair.\<close>

definition ends :: "nat \<Rightarrow> nat \<Rightarrow> nat \<Rightarrow> nat \<Rightarrow> nat \<Rightarrow> nat \<times> nat \<Rightarrow> nat \<times> nat" where
  "ends tp rs rd s d ab = (s * tp + fst ab div rs, d * tp + snd ab div rd)"

definition local_pair :: "nat \<Rightarrow> nat \<Rightarrow> nat \<times> nat \<Rightarrow> nat \<times> nat" where
  "local_pair rs rd ab = (fst ab mod rs, snd ab mod rd)"

lemma shard_rows_route:
  assumes "tf_source t = s" "tf_dest t = d"
  shows "shard_rows t (int tp) n ''cp_major'' (int rs) (int rd) (map (int \<circ> fst) ps) (map (int \<circ> snd) ps) =
    map (\<lambda>ab. (int (fst (ends tp rs rd s d ab)), int (snd (ends tp rs rd s d ab)),
      int (fst (local_pair rs rd ab)), int (snd (local_pair rs rd ab)))) ps"
  using assms
  by (simp add: shard_rows_def zip_map_map zip_same_conv_map comp_def case_prod_beta Let_def int_shard ends_def local_pair_def)

lemma composite_bound: "s < n \<Longrightarrow> t < tp \<Longrightarrow> s * tp + t < n * tp" for s n t tp :: nat
proof -
  assume "s < n" "t < tp"
  have "s * tp + t < Suc s * tp" using \<open>t < tp\<close> by simp
  also have "\<dots> \<le> n * tp" using \<open>s < n\<close> by (intro mult_le_mono1) simp
  finally show ?thesis .
qed

lemma key_decode: "D < N \<Longrightarrow> (S * N + D) div N = S \<and> (S * N + D) mod N = D" for S N D :: nat
  by simp

lemma key_inject: "D < N \<Longrightarrow> D' < N \<Longrightarrow> S * N + D = S' * N + D' \<longleftrightarrow> S = S' \<and> D = D'" for S N D :: nat
  by (metis key_decode)

lemma ends_facts:
  assumes "fits (sc ! s) (dc ! d) ps" "ab \<in> set ps" "0 < tp" "s < n" "d < n"
  defines "e \<equiv> ends tp (shard_rows_of tp (sc ! s)) (shard_rows_of tp (dc ! d)) s d ab"
  shows "fst e < n * tp" "snd e < n * tp" "fst e div tp = s" "snd e div tp = d"
    "fst e mod tp = fst ab div shard_rows_of tp (sc ! s)" "snd e mod tp = snd ab div shard_rows_of tp (dc ! d)"
    "0 < shard_rows_of tp (sc ! s)" "0 < shard_rows_of tp (dc ! d)"
proof -
  have "fst ab < sc ! s" "snd ab < dc ! d" using assms(1,2) by (auto simp: fits_def)
  note b = shard_rows_bound [OF assms(3) this(1)] shard_rows_bound [OF assms(3) this(2)]
  show "fst e < n * tp" "snd e < n * tp" using composite_bound [OF assms(4) b(1)] composite_bound [OF assms(5) b(3)]
    by (simp_all add: e_def ends_def)
  show "fst e div tp = s" "snd e div tp = d" "fst e mod tp = fst ab div shard_rows_of tp (sc ! s)"
    "snd e mod tp = snd ab div shard_rows_of tp (dc ! d)" using b(1,3) by (simp_all add: e_def ends_def)
  show "0 < shard_rows_of tp (sc ! s)" "0 < shard_rows_of tp (dc ! d)" by (rule b)+
qed

text \<open>A shard route is the part of the route with the given composite ends.\<close>

lemma shard_route_ends:
  assumes "0 < tp" "S div tp = s" "D div tp = d" "fits (sc ! s) (dc ! d) (R s d)"
  defines "rs \<equiv> shard_rows_of tp (sc ! s)" and "rd \<equiv> shard_rows_of tp (dc ! d)"
  shows "shard_route tp sc dc R S D = map (local_pair rs rd) (filter (\<lambda>ab. ends tp rs rd s d ab = (S, D)) (R s d))"
proof -
  have "fst ab div rs = S mod tp \<and> snd ab div rd = D mod tp \<longleftrightarrow> ends tp rs rd s d ab = (S, D)" for ab
    unfolding ends_def by (metis add_left_cancel assms(2,3) div_mult_mod_eq prod.inject)
  then have "filter (\<lambda>(a, b). a div rs = S mod tp \<and> b div rd = D mod tp) (R s d) = filter (\<lambda>ab. ends tp rs rd s d ab = (S, D)) (R s d)"
    by (intro filter_cong refl) (simp add: case_prod_beta)
  then show ?thesis
    unfolding shard_route_def shard_pairs_def assms(2,3) rs_def [symmetric] rd_def [symmetric]
    by (simp add: case_prod_beta local_pair_def [abs_def])
qed

text \<open>The transfers of the shards of one transfer, as rank \<open>k\<close> keeps them.\<close>

definition kept_shards :: "nat \<Rightarrow> nat list \<Rightarrow> nat list \<Rightarrow> (nat \<Rightarrow> nat \<Rightarrow> route) \<Rightarrow> nat \<Rightarrow> nat \<Rightarrow> nat \<Rightarrow> peer_transfer set" where
  "kept_shards tp sc dc R k s d = {shard_transfer tp sc dc R S D | S D.
     S div tp = s \<and> D div tp = d \<and> (S = k \<or> D = k) \<and> shard_route tp sc dc R S D \<noteq> []}"

lemma kept_shards_ends:
  assumes tp: "0 < tp" and fit: "fits (sc ! s) (dc ! d) (R s d)"
  defines "e \<equiv> ends tp (shard_rows_of tp (sc ! s)) (shard_rows_of tp (dc ! d)) s d"
  shows "kept_shards tp sc dc R k s d =
    (\<lambda>ab. shard_transfer tp sc dc R (fst (e ab)) (snd (e ab))) ` set (filter (\<lambda>ab. fst (e ab) = k \<or> snd (e ab) = k) (R s d))"
proof (intro set_eqI iffI)
  fix x assume "x \<in> kept_shards tp sc dc R k s d"
  then obtain S D where x: "x = shard_transfer tp sc dc R S D" "S div tp = s" "D div tp = d" "S = k \<or> D = k"
    "shard_route tp sc dc R S D \<noteq> []" unfolding kept_shards_def by blast
  then obtain ab where "ab \<in> set (R s d)" "e ab = (S, D)"
    using shard_route_ends [of tp S s D d sc dc R, OF tp x(2,3) fit] by (fastforce simp: e_def filter_empty_conv)
  with x(1,4) show "x \<in> (\<lambda>ab. shard_transfer tp sc dc R (fst (e ab)) (snd (e ab))) ` set (filter (\<lambda>ab. fst (e ab) = k \<or> snd (e ab) = k) (R s d))"
    by (intro image_eqI [of _ _ ab]) simp_all
next
  fix x assume "x \<in> (\<lambda>ab. shard_transfer tp sc dc R (fst (e ab)) (snd (e ab))) ` set (filter (\<lambda>ab. fst (e ab) = k \<or> snd (e ab) = k) (R s d))"
  then obtain ab where ab: "ab \<in> set (R s d)" "fst (e ab) = k \<or> snd (e ab) = k" "x = shard_transfer tp sc dc R (fst (e ab)) (snd (e ab))"
    by auto
  note E = ends_facts [of sc s dc d "R s d" ab tp "Suc (max s d)", OF fit ab(1) tp]
  have ds: "fst (e ab) div tp = s" "snd (e ab) div tp = d" using E(3,4) by (simp_all add: e_def)
  have "shard_route tp sc dc R (fst (e ab)) (snd (e ab)) \<noteq> []"
    unfolding shard_route_ends [of tp _ s _ d sc dc R, OF tp ds fit] using ab(1) by (auto simp: e_def filter_empty_conv)
  with ab(2,3) ds show "x \<in> kept_shards tp sc dc R k s d" unfolding kept_shards_def by blast
qed

text \<open>The loop over the keys visits the composite ends of the kept pairs, and picks for each its pairs.\<close>

lemma key_loop:
  fixes e :: "nat \<times> nat \<Rightarrow> nat \<times> nat" and f :: "nat \<times> nat \<Rightarrow> nat \<times> nat"
  assumes bound: "\<And>ab. ab \<in> set ps \<Longrightarrow> snd (e ab) < N"
  defines "row \<equiv> \<lambda>ab. (int (fst (e ab)), int (snd (e ab)), int (fst (f ab)), int (snd (f ab)))"
  shows "set (map (\<lambda>(s, d, a, b). s * int N + d) (map row ps)) = (\<lambda>ab. int (fst (e ab) * N + snd (e ab))) ` set ps"
    and "ab \<in> set ps \<Longrightarrow> filter (\<lambda>(s, d, a, b). s * int N + d = int (fst (e ab) * N + snd (e ab))) (map row ps) =
      map row (filter (\<lambda>x. e x = e ab) ps)"
proof -
  show "set (map (\<lambda>(s, d, a, b). s * int N + d) (map row ps)) = (\<lambda>ab. int (fst (e ab) * N + snd (e ab))) ` set ps"
    by (simp add: row_def image_image)
  assume ab: "ab \<in> set ps"
  have "(int (fst (e x)) * int N + int (snd (e x)) = int (fst (e ab) * N + snd (e ab))) = (e x = e ab)" if "x \<in> set ps" for x
    unfolding of_nat_mult [symmetric] of_nat_add [symmetric] of_nat_eq_iff key_inject [OF bound [OF that] bound [OF ab]]
    by (simp add: prod_eq_iff)
  then show "filter (\<lambda>(s, d, a, b). s * int N + d = int (fst (e ab) * N + snd (e ab))) (map row ps) =
      map row (filter (\<lambda>x. e x = e ab) ps)"
    unfolding filter_map by (intro arg_cong [where f = "map row"] filter_cong refl) (simp add: row_def)
qed

lemma shard_indexed_route:
  assumes c: "carries p t s d (R s d)" and id: "\<not> identity_for p t" and ne: "R s d \<noteq> []"
    and p: "xp_cp_size p = n" "xp_source_counts p = sc" "xp_dest_counts p = dc"
    and sd: "s < n" "d < n" and tp: "0 < tp" and fit: "fits (sc ! s) (dc ! d) (R s d)"
  shows "\<exists>ts. shard_indexed t p (int tp) (int k) ''cp_major'' (shard_counts tp sc) (shard_counts tp dc) = Inr ts \<and>
    set ts = kept_shards tp sc dc R k s d"
proof -
  let ?rs = "shard_rows_of tp (sc ! s)" and ?rd = "shard_rows_of tp (dc ! d)" and ?N = "n * tp"
  let ?e = "ends tp ?rs ?rd s d"
  let ?row = "\<lambda>ab. (int (fst (?e ab)), int (snd (?e ab)), int (fst (local_pair ?rs ?rd ab)), int (snd (local_pair ?rs ?rd ab)))"
  let ?kept = "filter (\<lambda>ab. fst (?e ab) = k \<or> snd (?e ab) = k) (R s d)"
  note E = ends_facts [of sc s dc d "R s d" _ tp n, OF fit _ tp sd]
  obtain ab0 where "ab0 \<in> set (R s d)" using ne by (cases "R s d") auto
  note rows = E(7,8) [OF this]
  have bound: "snd (?e ab) < ?N" if "ab \<in> set ?kept" for ab using E(2) that by simp
  have key: "tf_source t = s" "tf_dest t = d" using c by (simp_all add: carries_def)
  have tens: "tf_source_tensor t = Some (map (int \<circ> fst) (R s d))" "tf_dest_tensor t = Some (map (int \<circ> snd) (R s d))"
    using c ne unfolding carries_def if_not_P [OF id] by simp_all
  have ceil: "ceil_div (int (sc ! s)) (int tp) = int ?rs" "ceil_div (int (dc ! d)) (int tp) = int ?rd"
    using rows by (simp_all add: shard_rows_of_def)
  have kept: "filter (\<lambda>(s, d, a, b). s = int k \<or> d = int k) (map ?row (R s d)) = map ?row ?kept"
    unfolding filter_map by (intro arg_cong [where f = "map ?row"] filter_cong refl) simp
  let ?keys = "sorted_list_of_set ((\<lambda>ab. int (fst (?e ab) * ?N + snd (?e ab))) ` set ?kept)"
  let ?peers = "\<lambda>key. filter (\<lambda>(s, d, a, b). s * int ?N + d = key) (map ?row ?kept)"
  let ?f = "\<lambda>key. make_peer_transfer (nat (key div int ?N)) (nat (key mod int ?N)) (map (\<lambda>(s, d, a, b). a) (?peers key)) (map (\<lambda>(s, d, a, b). b) (?peers key))
                  (shard_counts tp sc ! nat (key div int ?N)) (shard_counts tp dc ! nat (key mod int ?N))"
  let ?g = "\<lambda>key. shard_transfer tp sc dc R (nat (key div int ?N)) (nat (key mod int ?N))"
  have decode: "nat (int (fst (?e ab) * ?N + snd (?e ab)) div int ?N) = fst (?e ab)"
    "nat (int (fst (?e ab) * ?N + snd (?e ab)) mod int ?N) = snd (?e ab)" if "ab \<in> set ?kept" for ab
    unfolding zdiv_int [symmetric] zmod_int [symmetric] nat_int using key_decode [OF bound [OF that]] by simp_all
  have "?f key = Inr (?g key)" if "key \<in> set ?keys" for key
  proof -
    obtain ab where ab: "ab \<in> set ?kept" "key = int (fst (?e ab) * ?N + snd (?e ab))" using \<open>key \<in> set ?keys\<close> by auto
    have peers: "?peers key = map ?row (filter (\<lambda>x. ?e x = ?e ab) ?kept)"
      unfolding ab(2) by (rule key_loop(2) [OF bound ab(1)])
    have in_R: "ab \<in> set (R s d)" using ab(1) by simp
    have mine: "filter (\<lambda>x. ?e x = ?e ab) ?kept = filter (\<lambda>x. ?e x = ?e ab) (R s d)"
      unfolding filter_filter by (intro filter_cong refl) (use ab(1) in auto)
    have "shard_route tp sc dc R (fst (?e ab)) (snd (?e ab)) = map (local_pair ?rs ?rd) (filter (\<lambda>x. ?e x = ?e ab) (R s d))"
      using shard_route_ends [of tp "fst (?e ab)" s "snd (?e ab)" d sc dc R, OF tp E(3) [OF in_R] E(4) [OF in_R] fit] by simp
    then have "map (\<lambda>(s, d, a, b). a) (?peers key) = map (int \<circ> fst) (shard_route tp sc dc R (fst (?e ab)) (snd (?e ab)))"
      "map (\<lambda>(s, d, a, b). b) (?peers key) = map (int \<circ> snd) (shard_route tp sc dc R (fst (?e ab)) (snd (?e ab)))"
      unfolding peers mine by simp_all
    then show ?thesis
      unfolding ab(2) decode [OF ab(1)] by (simp only: make_peer_transfer_route shard_transfer_def)
  qed
  then have m1: "mapE ?f ?keys = Inr (map ?g ?keys)" by (rule mapE_Inr_map)
  have m2: "shard_indexed t p (int tp) (int k) ''cp_major'' (shard_counts tp sc) (shard_counts tp dc) = mapE ?f ?keys"
  proof -
    have nz: "\<not> (int ?rs \<le> 0 \<or> int ?rd \<le> 0)" using rows by simp
    have ks: "set (map (\<lambda>(s, d, a, b). s * int ?N + d) (map ?row ?kept)) = (\<lambda>ab. int (fst (?e ab) * ?N + snd (?e ab))) ` set ?kept"
      by (rule key_loop(1)) (rule bound)
    show ?thesis
      unfolding shard_indexed_def key p tens prod.case option.case Let_def ceil if_not_P [OF nz] shard_rows_route [OF key] kept
        of_nat_mult [of n tp, symmetric] ks ..
  qed
  have m3: "set (map ?g ?keys) = kept_shards tp sc dc R k s d"
  proof -
    have "set (map ?g ?keys) = ?g ` (\<lambda>ab. int (fst (?e ab) * ?N + snd (?e ab))) ` set ?kept"
      unfolding set_map by (subst set_sorted_list_of_set) simp_all
    also have "\<dots> = (\<lambda>ab. shard_transfer tp sc dc R (fst (?e ab)) (snd (?e ab))) ` set ?kept"
      unfolding image_image by (intro image_cong refl) (simp only: decode)
    finally show ?thesis unfolding kept_shards_ends [of tp sc s dc d R, OF tp fit] .
  qed
  show ?thesis by (rule exI, rule conjI, rule trans [OF m2 m1], rule m3)
qed

lemma filter_block: "filter (\<lambda>a. a div r = t) [0..<m] = [t * r..<min (t * r + r) m]" if "0 < r" for r t m :: nat
proof (induction m)
  case (Suc m)
  show ?case
  proof (cases "m div r = t")
    case True
    then have "t * r \<le> m" "m < t * r + r"
      using that by (metis div_times_less_eq_dividend, metis add.commute dividend_less_div_times)
    with Suc True show ?thesis by simp
  next
    case False
    then have "m < t * r \<or> t * r + r \<le> m"
      by (metis add.commute div_nat_eqI mult.commute mult_Suc_right not_less)
    with Suc False show ?thesis by (auto simp: min_def)
  qed
qed simp

lemma identity_shard:
  assumes "0 < r"
  shows "shard_pairs r r t t (identity_route m) = identity_route (min r (m - t * r))"
    and "t \<noteq> t' \<Longrightarrow> shard_pairs r r t t' (identity_route m) = []"
proof -
  have len: "min (x + r) m - x = min r (m - x)" for x :: nat by arith
  have "map (\<lambda>a. a mod r) [t * r..<min (t * r + r) m] = [0..<min r (m - t * r)]"
  proof (rule nth_equalityI)
    fix i assume "i < length (map (\<lambda>a. a mod r) [t * r..<min (t * r + r) m])"
    then have i: "i < min r (m - t * r)" by (simp only: length_map length_upt len)
    then have b: "t * r + i < min (t * r + r) m" "i < min (t * r + r) m - t * r" by linarith+
    have "map (\<lambda>a. a mod r) [t * r..<min (t * r + r) m] ! i = (t * r + i) mod r"
      using b by (simp only: nth_map length_upt nth_upt)
    also have "\<dots> = [0..<min r (m - t * r)] ! i" using i by simp
    finally show "map (\<lambda>a. a mod r) [t * r..<min (t * r + r) m] ! i = [0..<min r (m - t * r)] ! i" .
  qed (simp only: length_map length_upt len diff_zero)
  then have "map (\<lambda>k. (k, k)) (map (\<lambda>a. a mod r) (filter (\<lambda>a. a div r = t) [0..<m])) = identity_route (min r (m - t * r))"
    by (simp only: filter_block [OF assms] identity_route_def)
  then show "shard_pairs r r t t (identity_route m) = identity_route (min r (m - t * r))"
    by (simp add: shard_pairs_def identity_route_def filter_map comp_def)
  show "t \<noteq> t' \<Longrightarrow> shard_pairs r r t t' (identity_route m) = []"
    by (auto simp: shard_pairs_def identity_route_def filter_empty_conv)
qed

lemma shard_identity_route:
  assumes c: "carries p t s d (R s d)" and id: "identity_for p t" and own: "s = c \<or> d = c" and ne: "tf_count t \<noteq> 0"
    and p: "xp_cp_size p = n" "xp_source_counts p = sc" "xp_dest_counts p = dc" and tp: "t0 < tp"
  shows "\<exists>ts. shard_identity t p (int tp) (int t0) (int (c * tp + t0)) ''cp_major'' (shard_counts tp sc) (shard_counts tp dc) = Inr ts \<and>
    set ts = kept_shards tp sc dc R (c * tp + t0) s d"
proof -
  let ?k = "c * tp + t0"
  note I = carries_identity [OF c id, unfolded p]
  have s: "s = c" "d = c" using I(1) own by auto
  let ?m = "sc ! c" and ?r = "shard_rows_of tp (sc ! c)"
  have m: "dc ! c = ?m" "R c c = identity_route ?m" "0 < ?m" using I(2,3) ne carries_count [OF c] by (simp_all add: s identity_route_def)
  have key: "tf_source t = c" "tf_dest t = c" using c by (simp_all add: carries_def s)
  have tp0: "0 < tp" using tp by simp
  note r = shard_rows_bound(2) [OF tp0 m(3)]
  let ?q = "min ?r (?m - t0 * ?r)"
  have SR: "shard_route tp sc dc R S D = (if S mod tp = D mod tp then identity_route (min ?r (?m - S mod tp * ?r)) else [])"
    if "S div tp = c" "D div tp = c" for S D
    using identity_shard [OF r] unfolding shard_route_def that m(1,2) by simp
  have kk: "shard_route tp sc dc R ?k ?k = identity_route ?q" using SR [of ?k ?k] tp by simp
  have kept: "kept_shards tp sc dc R ?k s d = (if ?q = 0 then {} else {shard_transfer tp sc dc R ?k ?k})"
  proof -
    have "S div tp = s \<and> D div tp = d \<and> (S = ?k \<or> D = ?k) \<and> shard_route tp sc dc R S D \<noteq> [] \<longleftrightarrow> S = ?k \<and> D = ?k \<and> ?q \<noteq> 0"
      for S D
    proof
      assume that: "S div tp = s \<and> D div tp = d \<and> (S = ?k \<or> D = ?k) \<and> shard_route tp sc dc R S D \<noteq> []"
      then have "S mod tp = D mod tp" using SR [of S D] s by (metis (full_types))
      then have "S = D" using div_mult_mod_eq [of S tp] div_mult_mod_eq [of D tp] that s by metis
      with that have k: "S = ?k" "D = ?k" by blast+
      with that have "identity_route ?q \<noteq> []" using kk by metis
      then have "?q \<noteq> 0" unfolding identity_route_def by fastforce
      with k show "S = ?k \<and> D = ?k \<and> ?q \<noteq> 0" by blast
    next
      assume that: "S = ?k \<and> D = ?k \<and> ?q \<noteq> 0"
      have "?k div tp = c" using tp by simp
      moreover have "identity_route ?q \<noteq> []" using that by (simp add: identity_route_def)
      ultimately show "S div tp = s \<and> D div tp = d \<and> (S = ?k \<or> D = ?k) \<and> shard_route tp sc dc R S D \<noteq> []"
        using that kk s by metis
    qed
    then show ?thesis unfolding kept_shards_def by (cases "?q = 0") simp_all
  qed
  have bounds: "sp_shard_bounds (int ?m) (int t0) (int tp) = (int (t0 * ?r), min (int (t0 * ?r) + int ?r) (int ?m), int ?r)"
    using r by (simp add: sp_shard_bounds_def Let_def shard_rows_of_def)
  have comp: "composite_tp_cp_rank (int c) (int t0) (int tp) (int n) ''cp_major'' = Inr (int ?k)"
    by (simp add: composite_tp_cp_rank_def)
  have rws: "nat (min (int (t0 * ?r) + int ?r) (int ?m) - int (t0 * ?r)) = ?q"
  proof -
    have "nat (min (int x + int y) (int z) - int x) = min y (z - x)" for x y z :: nat by arith
    then show ?thesis .
  qed
  show ?thesis
  proof (cases "?q = 0")
    case True
    then have "min (int (t0 * ?r) + int ?r) (int ?m) - int (t0 * ?r) \<le> 0" using rws by linarith
    then have "shard_identity t p (int tp) (int t0) (int ?k) ''cp_major'' (shard_counts tp sc) (shard_counts tp dc) = Inr []"
      unfolding shard_identity_def key p comp bounds Let_def prod.case bindE_simps by simp
    with True kept show ?thesis by simp
  next
    case False
    let ?w = "min (int (t0 * ?r) + int ?r) (int ?m) - int (t0 * ?r)"
    have w: "?w = int ?q" using rws False by linarith
    have nz: "\<not> int ?q \<le> 0" using False by (simp only: of_nat_le_0_iff simp_thms)
    have pos: "[0..int ?q - 1] = map (int \<circ> fst) (identity_route ?q)" "[0..int ?q - 1] = map (int \<circ> snd) (identity_route ?q)"
      by (auto simp: identity_route_def intro!: nth_equalityI)
    have "shard_identity t p (int tp) (int t0) (int ?k) ''cp_major'' (shard_counts tp sc) (shard_counts tp dc) =
        bindE (make_peer_transfer ?k ?k [0..int ?q - 1] [0..int ?q - 1] (shard_counts tp sc ! ?k) (shard_counts tp dc ! ?k)) (\<lambda>s. Inr [s])"
      unfolding shard_identity_def key p comp bounds Let_def prod.case bindE_simps w nat_int if_not_P [OF nz] by (simp only: simp_thms if_False)
    also have "\<dots> = Inr [shard_transfer tp sc dc R ?k ?k]"
      by (subst (1) pos(1), subst pos(2)) (simp only: make_peer_transfer_route bindE_simps shard_transfer_def kk)
    finally show ?thesis using False kept by simp
  qed
qed

section \<open>The plan of a composite rank\<close>

lemma mapE_sets:
  "(\<And>x. x \<in> set xs \<Longrightarrow> \<exists>y. f x = Inr y \<and> set y = g x) \<Longrightarrow> \<exists>ys. mapE f xs = Inr ys \<and> set (concat ys) = (\<Union>x \<in> set xs. g x)"
proof (induction xs)
  case (Cons x xs)
  obtain ys where ys: "mapE f xs = Inr ys" "set (concat ys) = (\<Union>x \<in> set xs. g x)" using Cons by auto
  obtain y where y: "f x = Inr y" "set y = g x" using Cons.prems [of x] by auto
  show ?case using ys y by (intro exI [of _ "y # ys"]) simp
qed simp

lemma listed_carries:
  assumes R: "realises n sc dc R r p" and t: "t \<in> set (xp_transfers p)"
  shows "tf_source t < n" "tf_dest t < n" "tf_source t = r \<or> tf_dest t = r"
    "carries p t (tf_source t) (tf_dest t) (R (tf_source t) (tf_dest t))"
proof -
  have all: "\<forall>t \<in> set (xp_transfers p). new_transfer t = Inr t \<and>
        tf_source t < n \<and> tf_dest t < n \<and> (tf_source t = r \<or> tf_dest t = r) \<and>
        (\<forall>t' \<in> set (xp_transfers p). tf_source t' = tf_source t \<and> tf_dest t' = tf_dest t \<longrightarrow> t' = t)"
    using R unfolding realises_def by blast
  show e: "tf_source t < n" "tf_dest t < n" "tf_source t = r \<or> tf_dest t = r" using all t by blast+
  have "transfer_of p (tf_source t) (tf_dest t) = t"
  proof (cases "find (\<lambda>u. tf_source u = tf_source t \<and> tf_dest u = tf_dest t) (xp_transfers p)")
    case None
    then show ?thesis using t by (auto simp: find_None_iff)
  next
    case (Some u)
    from find_SomeD [OF Some] have "u = t" using all t by blast
    with Some show ?thesis by (simp add: transfer_of_def)
  qed
  then show "carries p t (tf_source t) (tf_dest t) (R (tf_source t) (tf_dest t))"
    using realisesD(6) [OF R e] by simp
qed

lemma route_listed:
  assumes R: "realises n sc dc R r p" and sd: "s < n" "d < n" "s = r \<or> d = r" and ne: "R s d \<noteq> []"
  shows "\<exists>t \<in> set (xp_transfers p). tf_source t = s \<and> tf_dest t = d \<and> tf_count t \<noteq> 0"
proof -
  have "tf_count (transfer_of p s d) \<noteq> 0" using carries_count [OF realisesD(6) [OF R sd]] ne by simp
  then show ?thesis
    unfolding transfer_of_def by (auto simp: no_transfer_def split: option.splits dest!: find_SomeD)
qed

lemma shard_route_source: "shard_route tp sc dc R S D \<noteq> [] \<Longrightarrow> R (S div tp) (D div tp) \<noteq> []"
  by (auto simp: shard_route_def shard_pairs_def)

lemma shard_transfers_exact:
  assumes R: "realises n sc dc R c p" and c: "c < n" and t0: "t0 < tp"
    and fit: "\<And>s d. s < n \<Longrightarrow> d < n \<Longrightarrow> fits (sc ! s) (dc ! d) (R s d)"
  defines "k \<equiv> c * tp + t0"
  shows "\<exists>ts. shard_transfers p (int t0) (int tp) (int k) ''cp_major'' (shard_counts tp sc) (shard_counts tp dc) = Inr ts \<and>
    (\<forall>t. t \<in> set ts \<longleftrightarrow> (\<exists>S D. S < n * tp \<and> D < n * tp \<and> (S = k \<or> D = k) \<and> shard_route tp sc dc R S D \<noteq> [] \<and>
      t = shard_transfer tp sc dc R S D))"
proof -
  let ?f = "\<lambda>t. if tf_count t = 0 then Inr []
         else if identity_for p t then shard_identity t p (int tp) (int t0) (int k) ''cp_major'' (shard_counts tp sc) (shard_counts tp dc)
         else shard_indexed t p (int tp) (int k) ''cp_major'' (shard_counts tp sc) (shard_counts tp dc)"
  let ?g = "\<lambda>t. if tf_count t = 0 then {} else kept_shards tp sc dc R k (tf_source t) (tf_dest t)"
  have tp: "0 < tp" using t0 by simp
  have "\<exists>ts. ?f t = Inr ts \<and> set ts = ?g t" if t: "t \<in> set (xp_transfers p)" for t
  proof (cases "tf_count t = 0")
    case False
    note L = listed_carries [OF R t]
    have ne: "R (tf_source t) (tf_dest t) \<noteq> []" using carries_count [OF L(4)] False by auto
    note facts = realisesD(1-3) [OF R]
    show ?thesis
    proof (cases "identity_for p t")
      case True
      show ?thesis using False True shard_identity_route [where R = R, OF L(4) True L(3) False facts t0] unfolding k_def by simp
    next
      case ix: False
      show ?thesis using False ix shard_indexed_route [where R = R, OF L(4) ix ne facts L(1,2) tp fit [OF L(1,2)], of k] by simp
    qed
  qed simp
  then obtain tss where tss: "mapE ?f (xp_transfers p) = Inr tss" "set (concat tss) = (\<Union>t \<in> set (xp_transfers p). ?g t)"
    using mapE_sets [of "xp_transfers p" ?f ?g] by blast
  have "t \<in> (\<Union>t \<in> set (xp_transfers p). ?g t) \<longleftrightarrow> (\<exists>S D. S < n * tp \<and> D < n * tp \<and> (S = k \<or> D = k) \<and>
      shard_route tp sc dc R S D \<noteq> [] \<and> t = shard_transfer tp sc dc R S D)" for t
  proof
    assume "t \<in> (\<Union>t \<in> set (xp_transfers p). ?g t)"
    then obtain u where u: "u \<in> set (xp_transfers p)" "t \<in> kept_shards tp sc dc R k (tf_source u) (tf_dest u)"
      by (auto split: if_splits)
    then obtain S D where SD: "t = shard_transfer tp sc dc R S D" "S div tp = tf_source u" "D div tp = tf_dest u" "S = k \<or> D = k"
      "shard_route tp sc dc R S D \<noteq> []" unfolding kept_shards_def by blast
    have "S < n * tp" "D < n * tp"
      using listed_carries(1,2) [OF R u(1)] SD(2,3) tp by (simp_all flip: div_less_iff_less_mult)
    with SD show "\<exists>S D. S < n * tp \<and> D < n * tp \<and> (S = k \<or> D = k) \<and>
      shard_route tp sc dc R S D \<noteq> [] \<and> t = shard_transfer tp sc dc R S D" by blast
  next
    assume "\<exists>S D. S < n * tp \<and> D < n * tp \<and> (S = k \<or> D = k) \<and> shard_route tp sc dc R S D \<noteq> [] \<and> t = shard_transfer tp sc dc R S D"
    then obtain S D where SD: "S < n * tp" "D < n * tp" "S = k \<or> D = k" "shard_route tp sc dc R S D \<noteq> []"
      "t = shard_transfer tp sc dc R S D" by blast
    have k: "k div tp = c" using t0 by (simp add: k_def)
    have "S div tp < n" "D div tp < n" "S div tp = c \<or> D div tp = c"
      using SD(1-3) k tp by (auto simp: div_less_iff_less_mult)
    from route_listed [OF R this shard_route_source [OF SD(4)]] obtain u
      where u: "u \<in> set (xp_transfers p)" "tf_source u = S div tp" "tf_dest u = D div tp" "tf_count u \<noteq> 0" by blast
    have "t \<in> kept_shards tp sc dc R k (tf_source u) (tf_dest u)"
      unfolding kept_shards_def mem_Collect_eq
      by (intro exI [of _ S] exI [of _ D] conjI) (fact SD u(2) [symmetric] u(3) [symmetric])+
    with u(1,4) show "t \<in> (\<Union>t \<in> set (xp_transfers p). ?g t)" by auto
  qed
  with tss show ?thesis unfolding shard_transfers_def by (intro exI [of _ "concat tss"]) simp
qed

lemma shard_plan_realises:
  assumes R: "realises n sc dc R c p" and c: "c < n" and t0: "t0 < tp" and tp: "1 < tp"
    and fit: "\<And>s d. s < n \<Longrightarrow> d < n \<Longrightarrow> fits (sc ! s) (dc ! d) (R s d)"
  shows "\<exists>q. shard_cp_exchange_plan p (int c) (int t0) (int tp) (int (c * tp + t0)) = Inr (q, int (c * tp + t0)) \<and>
    xp_cross q = Some 1 \<and> realises (n * tp) (shard_counts tp sc) (shard_counts tp dc) (shard_route tp sc dc R) (c * tp + t0) q"
proof -
  let ?k = "c * tp + t0"
  note D = realisesD(1-5) [OF R]
  have len: "length (shard_counts tp sc) = n * tp" "length (shard_counts tp dc) = n * tp" by (simp_all add: shard_counts_def D)
  obtain ts where ts: "shard_transfers p (int t0) (int tp) (int ?k) ''cp_major'' (shard_counts tp sc) (shard_counts tp dc) = Inr ts"
    "\<And>t. t \<in> set ts \<longleftrightarrow> (\<exists>S D. S < n * tp \<and> D < n * tp \<and> (S = ?k \<or> D = ?k) \<and> shard_route tp sc dc R S D \<noteq> [] \<and>
      t = shard_transfer tp sc dc R S D)"
    using shard_transfers_exact [OF R c t0 fit] by blast
  let ?q = "\<lparr>xp_cp_size = n * tp, xp_source_counts = shard_counts tp sc, xp_dest_counts = shard_counts tp dc,
    xp_transfers = sort_key (\<lambda>t. (tf_source t, tf_dest t)) ts, xp_cross = Some 1\<rparr>"
  have mode: "infer_tp_cp_rank_mode (int c) (int t0) (int tp) (int n) (int ?k) = Inr ''cp_major''"
    "composite_tp_cp_rank (int c) (int t0) (int tp) (int n) ''cp_major'' = Inr (int ?k)"
    by (simp_all add: infer_tp_cp_rank_mode_def composite_tp_cp_rank_def)
  have counts: "sp_counts_by_composite_rank cs (int tp) ''cp_major'' = Inr (shard_counts tp cs)" for cs
    by (rule sp_counts_exact) (use tp in simp)
  have ok: "check_rank p (int c) = Inr ()" "\<not> int tp \<le> 1" "\<not> (int t0 < 0 \<or> int t0 \<ge> int tp)"
    using c t0 tp D by (simp_all add: check_rank_def)
  have new: "new_exchange_plan ?q = Inr ?q" by (simp add: new_exchange_plan_def len)
  have "shard_cp_exchange_plan p (int c) (int t0) (int tp) (int ?k) = Inr (?q, int ?k)"
    unfolding shard_cp_exchange_plan_def if_not_P [OF ok(2)] ok(1) D mode counts bindE_simps ts(1) nat_int new
    using ok(3) by simp
  moreover have "realises (n * tp) (shard_counts tp sc) (shard_counts tp dc) (shard_route tp sc dc R) ?k ?q"
    by (rule realises_of_transfers) (use len ts(2) in \<open>simp_all add: shard_transfer_def\<close>)
  ultimately show ?thesis by (intro exI [of _ ?q]) simp
qed

section \<open>The exchange of the shards\<close>

lemma shard_of_facts:
  "length (shard_of pad tp xs t) = shard_rows_of tp (length xs)"
  "k < shard_rows_of tp (length xs) \<Longrightarrow> shard_of pad tp xs t ! k =
    (if t * shard_rows_of tp (length xs) + k < length xs then xs ! (t * shard_rows_of tp (length xs) + k) else pad)"
  by (simp_all add: shard_of_def shard_rows_of_def Let_def)

lemma shard_of_row:
  assumes "a < length xs" "0 < tp"
  defines "r \<equiv> shard_rows_of tp (length xs)"
  shows "shard_of pad tp xs (a div r) ! (a mod r) = xs ! a"
proof -
  have "a mod r < r" using shard_rows_bound(2) [OF assms(2,1)] by (simp add: r_def)
  then show ?thesis using assms(1) unfolding r_def by (simp only: shard_of_facts(2) div_mult_mod_eq if_True)
qed

lemma contribution_writes:
  "contribution (writes l ps) p = sum_list (map (\<lambda>ab. l ! fst ab) (filter (\<lambda>ab. snd ab = p) ps))"
  by (simp add: contribution_def writes_def filter_map comp_def case_prod_beta)

text \<open>A sum over the ranks is a sum over the blocks, and over the parts of a partition.\<close>

lemma sum_list_blocks:
  "(\<Sum>k\<leftarrow>[0..<n * tp]. f k) = (\<Sum>s\<leftarrow>[0..<n]. \<Sum>t\<leftarrow>[0..<tp]. f (s * tp + t))" for f :: "nat \<Rightarrow> 'a::monoid_add"
proof (induction n)
  case (Suc n)
  have "[0..<Suc n * tp] = [0..<n * tp] @ map ((+) (n * tp)) [0..<tp]"
  proof -
    have "map ((+) (n * tp)) [0..<tp] = [n * tp..<n * tp + tp]" by (rule nth_equalityI) simp_all
    then show ?thesis using upt_add_eq_append [of 0 "n * tp" tp] by (simp add: add.commute)
  qed
  then have "(\<Sum>k\<leftarrow>[0..<Suc n * tp]. f k) = (\<Sum>k\<leftarrow>[0..<n * tp]. f k) + (\<Sum>t\<leftarrow>[0..<tp]. f (n * tp + t))"
    by (simp only: map_append sum_list_append map_map comp_def)
  with Suc show ?case by simp
qed simp

lemma sum_list_one_more:
  fixes h :: "nat \<Rightarrow> 'a::comm_monoid_add"
  shows "k < n \<Longrightarrow> (\<Sum>t\<leftarrow>[0..<n]. if k = t then v + h t else h t) = v + (\<Sum>t\<leftarrow>[0..<n]. h t)"
proof (induction n)
  case (Suc n)
  show ?case
  proof (cases "k = n")
    case True
    have "map (\<lambda>t. if n = t then v + h t else h t) [0..<n] = map h [0..<n]" by simp
    then have "(\<Sum>t\<leftarrow>[0..<n]. if n = t then v + h t else h t) = (\<Sum>t\<leftarrow>[0..<n]. h t)" by (rule arg_cong)
    with True show ?thesis by (simp add: ac_simps)
  next
    case False
    with Suc show ?thesis by (simp add: ac_simps)
  qed
qed simp

lemma sum_list_partition:
  fixes f :: "'b \<Rightarrow> 'a::comm_monoid_add"
  shows "\<forall>x \<in> set xs. g x < n \<Longrightarrow> (\<Sum>t\<leftarrow>[0..<n]. sum_list (map f (filter (\<lambda>x. g x = t) xs))) = sum_list (map f xs)"
proof (induction xs)
  case (Cons x xs)
  have "(\<Sum>t\<leftarrow>[0..<n]. sum_list (map f (filter (\<lambda>x. g x = t) (x # xs)))) =
      (\<Sum>t\<leftarrow>[0..<n]. if g x = t then f x + sum_list (map f (filter (\<lambda>x. g x = t) xs)) else sum_list (map f (filter (\<lambda>x. g x = t) xs)))"
    by (intro arg_cong [where f = sum_list] map_cong refl) simp
  also have "\<dots> = f x + (\<Sum>t\<leftarrow>[0..<n]. sum_list (map f (filter (\<lambda>x. g x = t) xs)))"
    by (rule sum_list_one_more) (use Cons.prems in simp)
  finally show ?case using Cons by simp
qed simp

text \<open>What one shard receives of a route is the part of the route that ends in it.\<close>

lemma shard_contribution:
  fixes l :: "'a::comm_monoid_add list"
  assumes fit: "fits (length l) m ps" and tp: "0 < tp" and q: "q < shard_rows_of tp m"
  defines "rs \<equiv> shard_rows_of tp (length l)" and "rd \<equiv> shard_rows_of tp m"
  shows "(\<Sum>t\<leftarrow>[0..<tp]. contribution (writes (shard_of pad tp l t) (shard_pairs rs rd t td ps)) q) =
    contribution (writes l ps) (td * rd + q)"
proof -
  have row: "shard_of pad tp l (fst ab div rs) ! (fst ab mod rs) = l ! fst ab" "fst ab div rs < tp" if "ab \<in> set ps" for ab
    using shard_of_row [of "fst ab" l tp pad] shard_rows_bound(1) [OF tp, of "fst ab" "length l"] fit that tp
    by (auto simp: fits_def rs_def)
  have pos: "snd ab div rd = td \<and> snd ab mod rd = q \<longleftrightarrow> snd ab = td * rd + q" for ab :: "nat \<times> nat"
    using q unfolding rd_def [symmetric] by (metis div_mult_mod_eq key_decode)
  have "contribution (writes (shard_of pad tp l t) (shard_pairs rs rd t td ps)) q =
      sum_list (map (\<lambda>ab. l ! fst ab) (filter (\<lambda>ab. fst ab div rs = t) (filter (\<lambda>ab. snd ab = td * rd + q) ps)))" for t
  proof -
    have "filter (\<lambda>ab. snd ab = q) (shard_pairs rs rd t td ps) =
        map (\<lambda>ab. (fst ab mod rs, snd ab mod rd)) (filter (\<lambda>ab. fst ab div rs = t \<and> snd ab = td * rd + q) ps)"
      unfolding shard_pairs_def filter_map filter_filter case_prod_beta comp_def
      by (intro arg_cong2 [where f = map] filter_cong refl) (use pos in auto)
    then have "contribution (writes (shard_of pad tp l t) (shard_pairs rs rd t td ps)) q =
        sum_list (map (\<lambda>ab. shard_of pad tp l t ! (fst ab mod rs)) (filter (\<lambda>ab. fst ab div rs = t \<and> snd ab = td * rd + q) ps))"
      by (simp add: contribution_writes comp_def)
    also have "\<dots> = sum_list (map (\<lambda>ab. l ! fst ab) (filter (\<lambda>ab. fst ab div rs = t \<and> snd ab = td * rd + q) ps))"
      by (intro arg_cong [where f = sum_list] map_cong refl) (use row(1) in auto)
    finally show ?thesis unfolding filter_filter by (simp add: conj_commute)
  qed
  then have "(\<Sum>t\<leftarrow>[0..<tp]. contribution (writes (shard_of pad tp l t) (shard_pairs rs rd t td ps)) q) =
      (\<Sum>t\<leftarrow>[0..<tp]. sum_list (map (\<lambda>ab. l ! fst ab) (filter (\<lambda>ab. fst ab div rs = t) (filter (\<lambda>ab. snd ab = td * rd + q) ps))))"
    by simp
  also have "\<dots> = sum_list (map (\<lambda>ab. l ! fst ab) (filter (\<lambda>ab. snd ab = td * rd + q) ps))"
    by (rule sum_list_partition) (use row(2) in simp)
  also have "\<dots> = contribution (writes l ps) (td * rd + q)" by (simp add: contribution_writes)
  finally show ?thesis .
qed

lemma sharded_facts:
  "length (sharded pad tp xss) = length xss * tp"
  "k < length xss * tp \<Longrightarrow> sharded pad tp xss ! k = shard_of pad tp (xss ! (k div tp)) (k mod tp)"
  by (simp_all add: sharded_def)

lemma gathered_sharded:
  fixes locals :: "'a::comm_monoid_add list list"
  assumes ok: "group_ok n sc dc R plans locals" and tp: "0 < tp"
  shows "gathered (shard_route tp sc dc R) (sharded pad tp locals) (shard_counts tp dc) = sharded (Some 0) tp (gathered R locals dc)"
proof (rule nth_equalityI)
  note G = group_okD [OF ok]
  show "length (gathered (shard_route tp sc dc R) (sharded pad tp locals) (shard_counts tp dc)) = length (sharded (Some 0) tp (gathered R locals dc))"
    by (simp add: gathered_def shard_counts_def sharded_def)
  fix D assume "D < length (gathered (shard_route tp sc dc R) (sharded pad tp locals) (shard_counts tp dc))"
  then have D: "D < n * tp" by (simp add: gathered_def shard_counts_def G(2))
  let ?d = "D div tp" and ?t = "D mod tp" and ?N = "n * tp"
  let ?r = "shard_rows_of tp (dc ! ?d)"
  have d: "?d < n" using D tp by (simp add: div_less_iff_less_mult)
  have cell: "contribution (arriving (shard_route tp sc dc R) (sharded pad tp locals) ?N D) q =
      contribution (arriving R locals n ?d) (?t * ?r + q)" if q: "q < ?r" for q
  proof -
    have "contribution (arriving (shard_route tp sc dc R) (sharded pad tp locals) ?N D) q =
        (\<Sum>s\<leftarrow>[0..<n]. \<Sum>t\<leftarrow>[0..<tp]. contribution (writes (sharded pad tp locals ! (s * tp + t)) (shard_route tp sc dc R (s * tp + t) D)) q)"
      unfolding arriving_def contribution_concat by (rule sum_list_blocks)
    also have "\<dots> = (\<Sum>s\<leftarrow>[0..<n]. contribution (writes (locals ! s) (R s ?d)) (?t * ?r + q))"
    proof (intro arg_cong [where f = sum_list] map_cong refl)
      fix s assume "s \<in> set [0..<n]"
      then have s: "s < n" by simp
      have fit: "fits (length (locals ! s)) (dc ! ?d) (R s ?d)" using G(5) [OF s] G(7) [OF s d] by simp
      have "(\<Sum>t\<leftarrow>[0..<tp]. contribution (writes (sharded pad tp locals ! (s * tp + t)) (shard_route tp sc dc R (s * tp + t) D)) q) =
          (\<Sum>t\<leftarrow>[0..<tp]. contribution (writes (shard_of pad tp (locals ! s) t)
            (shard_pairs (shard_rows_of tp (length (locals ! s))) ?r t ?t (R s ?d))) q)"
      proof (intro arg_cong [where f = sum_list] map_cong refl)
        fix t assume "t \<in> set [0..<tp]"
        then have "t < tp" by simp
        then show "contribution (writes (sharded pad tp locals ! (s * tp + t)) (shard_route tp sc dc R (s * tp + t) D)) q =
            contribution (writes (shard_of pad tp (locals ! s) t) (shard_pairs (shard_rows_of tp (length (locals ! s))) ?r t ?t (R s ?d))) q"
          using composite_bound [OF s] by (simp add: sharded_facts G(4) shard_route_def G(5) [OF s])
      qed
      also have "\<dots> = contribution (writes (locals ! s) (R s ?d)) (?t * ?r + q)"
        by (rule shard_contribution [OF fit tp q])
      finally show "(\<Sum>t\<leftarrow>[0..<tp]. contribution (writes (sharded pad tp locals ! (s * tp + t)) (shard_route tp sc dc R (s * tp + t) D)) q) =
          contribution (writes (locals ! s) (R s ?d)) (?t * ?r + q)" .
    qed
    finally show ?thesis unfolding arriving_def contribution_concat .
  qed
  have zero: "contribution (arriving R locals n ?d) p = 0" if "\<not> p < dc ! ?d" for p
    by (rule contribution_none) (use arriving_bound [OF ok d] that in blast)
  have row: "gathered R locals dc ! ?d = map (\<lambda>p. Some (contribution (arriving R locals n ?d) p)) [0..<dc ! ?d]"
    using d by (simp add: gathered_def G(2))
  have "gathered (shard_route tp sc dc R) (sharded pad tp locals) (shard_counts tp dc) ! D =
      map (\<lambda>q. Some (contribution (arriving (shard_route tp sc dc R) (sharded pad tp locals) ?N D) q)) [0..<?r]"
    using D by (simp add: gathered_def shard_counts_def G(2))
  also have "\<dots> = map (\<lambda>q. if ?t * ?r + q < dc ! ?d then Some (contribution (arriving R locals n ?d) (?t * ?r + q)) else Some 0) [0..<?r]"
    by (rule map_cong [OF refl]) (use cell zero in simp)
  also have "\<dots> = shard_of (Some 0) tp (gathered R locals dc ! ?d) ?t"
    unfolding row by (rule nth_equalityI) (simp_all add: shard_of_facts)
  also have "\<dots> = sharded (Some 0) tp (gathered R locals dc) ! D"
    using D by (simp add: sharded_facts gathered_def G(2))
  finally show "gathered (shard_route tp sc dc R) (sharded pad tp locals) (shard_counts tp dc) ! D = sharded (Some 0) tp (gathered R locals dc) ! D" .
qed

section \<open>The whole sequence-parallel group\<close>

text \<open>The plans of all composite ranks.\<close>

definition sp_plans_of :: "exchange_plan list \<Rightarrow> nat \<Rightarrow> (exchange_plan \<times> int) list result" where
  "sp_plans_of plans tp = mapE (\<lambda>k. shard_cp_exchange_plan (plans ! (k div tp)) (int (k div tp)) (int (k mod tp)) (int tp) (int k))
     [0..<length plans * tp]"

lemma shard_counts_lengths: "map length (sharded pad tp xss) = shard_counts tp (map length xss)"
proof (rule nth_equalityI)
  fix k assume "k < length (map length (sharded pad tp xss))"
  then have k: "k < length xss * tp" by (simp add: sharded_facts)
  then have "k div tp < length xss" by (cases "tp = 0") (simp_all add: div_less_iff_less_mult)
  with k show "map length (sharded pad tp xss) ! k = shard_counts tp (map length xss) ! k"
    by (simp add: sharded_facts shard_counts_def shard_of_facts)
qed (simp add: sharded_facts shard_counts_def)

lemma shard_route_fits:
  assumes "\<And>s d. s < n \<Longrightarrow> d < n \<Longrightarrow> fits (sc ! s) (dc ! d) (R s d)" and "0 < tp" "S < n * tp" "D < n * tp"
    and "length sc = n" "length dc = n"
  shows "fits (shard_counts tp sc ! S) (shard_counts tp dc ! D) (shard_route tp sc dc R S D)"
proof -
  have sd: "S div tp < n" "D div tp < n" using assms(2-4) by (simp_all add: div_less_iff_less_mult)
  have "0 < shard_rows_of tp (sc ! (S div tp)) \<and> 0 < shard_rows_of tp (dc ! (D div tp))"
    if "ab \<in> set (R (S div tp) (D div tp))" for ab
    using assms(1) [OF sd] that shard_rows_bound(2) [OF assms(2)] by (fastforce simp: fits_def)
  then show ?thesis using assms(3-6) by (auto simp: fits_def shard_route_def shard_pairs_def shard_counts_def)
qed

lemma sp_group_ok:
  assumes ok: "group_ok n sc dc R plans locals" and tp: "1 < tp"
  shows "\<exists>sp. sp_plans_of plans tp = Inr sp \<and> map snd sp = map int [0..<n * tp] \<and>
    (\<forall>k < n * tp. xp_cross (fst (sp ! k)) = Some 1) \<and>
    group_ok (n * tp) (shard_counts tp sc) (shard_counts tp dc) (shard_route tp sc dc R) (map fst sp) (sharded pad tp locals)"
proof -
  note G = group_okD [OF ok]
  have tp0: "0 < tp" using tp by simp
  have "\<forall>k. \<exists>q. k < n * tp \<longrightarrow> shard_cp_exchange_plan (plans ! (k div tp)) (int (k div tp)) (int (k mod tp)) (int tp) (int k) = Inr (q, int k) \<and>
      xp_cross q = Some 1 \<and> realises (n * tp) (shard_counts tp sc) (shard_counts tp dc) (shard_route tp sc dc R) k q"
  proof
    fix k
    show "\<exists>q. k < n * tp \<longrightarrow> shard_cp_exchange_plan (plans ! (k div tp)) (int (k div tp)) (int (k mod tp)) (int tp) (int k) = Inr (q, int k) \<and>
      xp_cross q = Some 1 \<and> realises (n * tp) (shard_counts tp sc) (shard_counts tp dc) (shard_route tp sc dc R) k q"
    proof (cases "k < n * tp")
      case True
      then have "k div tp < n" "k mod tp < tp" using tp0 by (simp_all add: div_less_iff_less_mult)
      from shard_plan_realises [OF G(6) [OF this(1)] this tp G(7)] show ?thesis by simp
    qed simp
  qed
  from this [THEN choice] obtain Q where Q: "\<And>k. k < n * tp \<Longrightarrow>
      shard_cp_exchange_plan (plans ! (k div tp)) (int (k div tp)) (int (k mod tp)) (int tp) (int k) = Inr (Q k, int k) \<and>
      xp_cross (Q k) = Some 1 \<and> realises (n * tp) (shard_counts tp sc) (shard_counts tp dc) (shard_route tp sc dc R) k (Q k)" by blast
  let ?sp = "map (\<lambda>k. (Q k, int k)) [0..<n * tp]"
  have "sp_plans_of plans tp = Inr ?sp" unfolding sp_plans_of_def G(1) by (rule mapE_Inr_map) (use Q in simp)
  moreover have "group_ok (n * tp) (shard_counts tp sc) (shard_counts tp dc) (shard_route tp sc dc R) (map fst ?sp) (sharded pad tp locals)"
    unfolding group_ok_def
  proof (intro conjI allI impI)
    have "map length locals = sc" using ok by (simp add: group_ok_def)
    then show "map length (sharded pad tp locals) = shard_counts tp sc" by (simp add: shard_counts_lengths)
    fix S D assume "S < n * tp" "D < n * tp"
    then show "fits (shard_counts tp sc ! S) (shard_counts tp dc ! D) (shard_route tp sc dc R S D)"
      by (intro shard_route_fits [of n]) (use G(2,3,7) tp0 in simp_all)
  qed (use Q in \<open>simp_all add: shard_counts_def G(2,3)\<close>)
  ultimately show ?thesis using Q by (intro exI [of _ ?sp]) (simp add: comp_def)
qed

lemma sharded_exchange:
  fixes locals :: "'a::comm_monoid_add list list"
  assumes ok: "group_ok n sc dc R plans locals" and tp: "1 < tp" and d: "delivers all_to_all"
  shows "\<exists>sp. sp_plans_of plans tp = Inr sp \<and>
    exchange_group all_to_all (map fst sp) (sharded pad tp locals) = Inr (sharded (Some 0) tp (gathered R locals dc))"
proof -
  obtain sp where sp: "sp_plans_of plans tp = Inr sp" "\<forall>k < n * tp. xp_cross (fst (sp ! k)) = Some 1"
    "group_ok (n * tp) (shard_counts tp sc) (shard_counts tp dc) (shard_route tp sc dc R) (map fst sp) (sharded pad tp locals)"
    using sp_group_ok [OF ok tp, of pad] by blast
  have len: "length (map fst sp) = n * tp" by (rule group_okD(1) [OF sp(3)])
  have "stays (n * tp) (shard_counts tp dc) (shard_route tp sc dc R)"
    if "list_all (\<lambda>p. cross_rank_token_count p = 0) (map fst sp)"
  proof (cases "n * tp = 0")
    case False
    then have "cross_rank_token_count (fst (sp ! 0)) = 0" using that len by (auto simp: list_all_length)
    then show ?thesis using sp(2) False by (simp add: cross_rank_token_count_def)
  qed (auto simp: stays_def)
  from group_gathers [OF sp(3) d this] have "exchange_group all_to_all (map fst sp) (sharded pad tp locals) =
      Inr (gathered (shard_route tp sc dc R) (sharded pad tp locals) (shard_counts tp dc))" .
  moreover have "0 < tp" using tp by simp
  ultimately show ?thesis using sp(1) gathered_sharded [OF ok, of tp pad] by (intro exI [of _ sp]) simp
qed

text \<open>
  C40. In a group numbered context-parallel rank first (\<open>sp_plans_of\<close> gives rank
  \<open>c * tp + t\<close> the ranks \<open>c\<close> and \<open>t\<close>), splitting the rows over the tensor-parallel ranks
  commutes with the exchange.  Every composite rank can make its view of the plans and of the
  reversed plans; the exchange of the shards over both groups, whatever their padding holds,
  gives exactly the shards of what the exchange of the whole tensors gives, padded with
  zeros, in both directions.  In a group numbered tensor-parallel rank first the exchange may
  fail (\<open>tp_major_exchange_fails\<close>).
\<close>

theorem sequence_parallel_exchange:
  fixes all_to_all :: "'a::comm_monoid_add list list \<Rightarrow> nat list list \<Rightarrow> nat \<Rightarrow> 'a list"
  assumes "layouts_ok layout dst" and "delivers all_to_all" and "c = 0 \<Longrightarrow> settled layout dst" and "1 < tp"
    and "map length locals = li_counts layout" and "map length grads = map range_total dst"
  shows "\<exists>plans rplans sp rsp out gin. plans_of layout dst c = Inr plans \<and> mapE reverse_exchange_plan plans = Inr rplans \<and>
    sp_plans_of plans tp = Inr sp \<and> sp_plans_of rplans tp = Inr rsp \<and>
    exchange_group all_to_all plans locals = Inr out \<and>
    exchange_group all_to_all (map fst sp) (sharded pad tp locals) = Inr (sharded (Some 0) tp out) \<and>
    exchange_group all_to_all rplans grads = Inr gin \<and>
    exchange_group all_to_all (map fst rsp) (sharded pad tp grads) = Inr (sharded (Some 0) tp gin)"
proof -
  let ?A = "li_ranges layout"
  obtain plans rplans where p: "plans_of layout dst c = Inr plans" "mapE reverse_exchange_plan plans = Inr rplans"
    "length plans = length dst" "length rplans = length dst"
    and facts: "\<forall>r < length dst. xp_cross (plans ! r) = Some c \<and> xp_cross (rplans ! r) = Some c \<and>
      realises (length dst) (map range_total ?A) (map range_total dst) (\<lambda>s d. route_between (?A ! s) (dst ! d)) r (plans ! r) \<and>
      realises (length dst) (map range_total dst) (map range_total ?A) (\<lambda>s d. route_between (dst ! s) (?A ! d)) r (rplans ! r)"
    using plans_realise [OF assms(1), of c] by blast
  have n: "length ?A = length dst" "length dst = length ?A" and counts: "li_counts layout = map range_total ?A"
    and A: "\<forall>rs \<in> set ?A. layout_ranges rs" and B: "\<forall>rs \<in> set dst. layout_ranges rs"
    using assms(1) by (simp_all add: layouts_ok_def)
  have there: "group_ok (length dst) (map range_total ?A) (map range_total dst) (\<lambda>s d. route_between (?A ! s) (dst ! d)) plans locals"
    by (rule layouts_group_ok [OF A B n(1) p(3)]) (use facts assms(5) counts in simp_all)
  have again: "group_ok (length ?A) (map range_total dst) (map range_total ?A) (\<lambda>s d. route_between (dst ! s) (?A ! d)) rplans grads"
    by (rule layouts_group_ok [OF B A n(2)]) (use facts assms(6) p(4) n(1) in simp_all)
  obtain P Q where e: "plans_of layout dst c = Inr P" "mapE reverse_exchange_plan P = Inr Q"
    "\<forall>locals. map length locals = li_counts layout \<longrightarrow>
      exchange_group all_to_all P locals = Inr (laid_out (\<lambda>t. Some (token_sum ?A locals t)) dst)"
    "\<forall>grads. map length grads = map range_total dst \<longrightarrow>
      exchange_group all_to_all Q grads = Inr (laid_out (\<lambda>t. Some (token_sum dst grads t)) ?A)"
    using exchange_both_ways [OF assms(1-3)] by blast
  have P: "P = plans" using e(1) p(1) by simp
  have Q: "Q = rplans" using e(2) p(2) P by simp
  note out = e(3) [rule_format, OF assms(5), unfolded P] and gin = e(4) [rule_format, OF assms(6), unfolded Q]
  obtain sp where sp: "sp_plans_of plans tp = Inr sp" "exchange_group all_to_all (map fst sp) (sharded pad tp locals) =
      Inr (sharded (Some 0) tp (laid_out (\<lambda>t. Some (token_sum ?A locals t)) dst))"
    using sharded_exchange [OF there assms(4,2), of pad] unfolding gathered_layouts [OF B n(1)] laid_out_def by blast
  obtain rsp where rsp: "sp_plans_of rplans tp = Inr rsp" "exchange_group all_to_all (map fst rsp) (sharded pad tp grads) =
      Inr (sharded (Some 0) tp (laid_out (\<lambda>t. Some (token_sum dst grads t)) ?A))"
    using sharded_exchange [OF again assms(4,2), of pad] unfolding gathered_layouts [OF A n(2)] laid_out_def by blast
  show ?thesis
    by (rule exI [of _ plans], rule exI [of _ rplans], rule exI [of _ sp], rule exI [of _ rsp], intro exI conjI)
      (rule p sp rsp out gin)+
qed

theorem sequence_parallel_exchange_witness:
  "\<exists>plans rplans sp rsp out gin. plans_of example_layout example_dest 2 = Inr plans \<and> mapE reverse_exchange_plan plans = Inr rplans \<and>
    sp_plans_of plans 2 = Inr sp \<and> sp_plans_of rplans 2 = Inr rsp \<and>
    exchange_group direct_all_to_all plans [[10, 11], [12, 13 :: int]] = Inr out \<and>
    exchange_group direct_all_to_all (map fst sp) (sharded 7 2 [[10, 11], [12, 13]]) = Inr (sharded (Some 0) 2 out) \<and>
    exchange_group direct_all_to_all rplans [[5, 6], [7, 8 :: int]] = Inr gin \<and>
    exchange_group direct_all_to_all (map fst rsp) (sharded 7 2 [[5, 6], [7, 8 :: int]]) = Inr (sharded (Some 0) 2 gin)"
proof -
  have "layouts_ok example_layout example_dest" "map length [[10, 11], [12, 13 :: int]] = li_counts example_layout"
    "map length [[5, 6], [7, 8 :: int]] = map range_total example_dest" by code_simp+
  from sequence_parallel_exchange [OF this(1) direct_delivers _ _ this(2,3), of 2 2 7] show ?thesis by simp
qed

end
