(* ===== verification/Spec2Isabelle.thy ===== *)
theory Spec2Isabelle
  imports Block_Mask Sft_Pack Layout_Search Adapter_Leases Range_Ops Rl_Pack Sequence_Exchange
begin

text \<open>
  A verification library of ART's sequence packing: how training sequences that share
  prefixes are laid out in rows, how the rows are turned back into attention masks, how
  the layout is chosen, and the services around it whose ordering matters: the leases on
  served adapters, the range gathers and the exchange of tokens between ranks.  Paths are
  relative to \<^verbatim>\<open>src/src/art\<close>.

  \<^bold>\<open>Conventions.\<close>  A Python call that can raise is a value of \<open>error + 'a\<close>
  (\<^verbatim>\<open>Art_Prelude\<close>); the string of an exception is the constant part of its message.  Token
  and group ids are \<open>int\<close>, lengths and positions \<open>nat\<close>, tensors and arrays lists of
  entries, a \<^verbatim>\<open>dict\<close> whose order matters an association list.  A loop with a stack
  takes fuel, and running out of it would be the exception \<open>unbounded loop\<close>, which
  the termination properties exclude.

  \<^bold>\<open>Packing.\<close>  \<^verbatim>\<open>Segment_Plan\<close> states what a packing plan is: segments, the chain of
  segments of each sequence, positions, reading back.  \<^verbatim>\<open>Prefix_Pack\<close> is
  \<^verbatim>\<open>megatron/prefix_tree_packing.py\<close>: the radix walk, the packed tensors and the size
  estimate.  Its lemmas show that a plan restores every sequence, shares only what may be
  shared, and has the estimated size.
  \<^verbatim>\<open>Prefix_Tree\<close> is \<^verbatim>\<open>megatron/prefix_tree.py\<close> and
  \<^verbatim>\<open>megatron/recurrent/prefix_tree.py\<close>: it recovers the segments from the group and parent
  ids a packed row carries, and lowers them to the table the recurrent layers execute.

  \<^bold>\<open>Masks.\<close>  \<^verbatim>\<open>Attention\<close> is \<^verbatim>\<open>megatron/context_parallel/builder.py\<close>: from the
  segments to attention slices, and the dense reference mask.  \<^verbatim>\<open>Forest\<close>,
  \<^verbatim>\<open>Mask_Intervals\<close> and \<^verbatim>\<open>Block_Mask\<close> are \<^verbatim>\<open>megatron/context_parallel/block_mask.py\<close>: the
  enter and exit labels of the ancestor relation, and the full and partial blocks computed
  from them.  The mask chain is: a packed batch has exactly causal attention per sequence
  in the dense mask, the labels equal the dense mask, the blocks equal the labels.

  \<^bold>\<open>Rows.\<close>  \<^verbatim>\<open>Pack_Rows\<close> is the planner of \<^verbatim>\<open>preprocessing/pack.py\<close>: best-fit placement
  of the sequences in rows, restriction of the global plan to a row, and the rebuild.
  \<^verbatim>\<open>Row_Arrays\<close> is slice assignment and the loop that fills a row; \<^verbatim>\<open>Sft_Pack\<close>
  (\<^verbatim>\<open>preprocessing/sft.py\<close>) and \<^verbatim>\<open>Rl_Pack\<close> (the rest of \<^verbatim>\<open>preprocessing/pack.py\<close>) use them
  for supervised batches and for reinforcement learning, where the segments carry masks,
  log probabilities, advantages, weights and routes.  \<^verbatim>\<open>Moe_Routes\<close>
  (\<^verbatim>\<open>preprocessing/moe_routing.py\<close>) aligns the expert routes the server captured with the
  tokens of an example.

  \<^bold>\<open>Layout planning.\<close>  \<^verbatim>\<open>Canonical_Tree\<close>, \<^verbatim>\<open>Prefix_Layout\<close>, \<^verbatim>\<open>Layout_Candidates\<close> and
  \<^verbatim>\<open>Layout_Search\<close> are \<^verbatim>\<open>trainer_rank/_prefix_tree_planner.py\<close>,
  \<^verbatim>\<open>_prefix_tree_materializer.py\<close> and \<^verbatim>\<open>_prefix_tree_performance_search.py\<close>: the canonical
  tree, the layout of a set of share/replay decisions, the mandatory candidates, the
  bounded search and production selection.  \<^verbatim>\<open>Planner_Cost\<close> is
  \<^verbatim>\<open>trainer_rank/_planner_cost.py\<close>: features, calibrated tables and scores.  A layout
  refines a packing plan, so the mask chain applies to whatever is selected; this
  theory composes the parts.

  \<^bold>\<open>Adapters.\<close>  \<^verbatim>\<open>Adapter_Leases\<close> is \<^verbatim>\<open>local/adapter_leases.py\<close>,
  \<^verbatim>\<open>adapter_leases.py\<close> and the adapter methods of \<^verbatim>\<open>unsloth/service.py\<close> and
  \<^verbatim>\<open>local/backend.py\<close> as tasks that interleave at their suspension points.  The answers of
  the inference server are the environment's.  A prune holds the guard of the lease manager
  unless the model has none yet, which is a flag of the state.  The loop over the adapters of a prune is
  one step per adapter, which allows more interleavings than the program has.  The
  invariant of all reachable states gives the safety properties; a measure that every step
  decreases gives termination of every run.  Cancellation of a waiting task is not
  modelled.

  \<^bold>\<open>Ranges.\<close>  \<^verbatim>\<open>Range_Ops\<close> is \<^verbatim>\<open>megatron/context_parallel/range_ops.py\<close>: the metadata
  with its cache, the four kernels as lanes run in any order, the host loops and the
  backward pass.  The kernels compute in integers of 32 and 64 bits, a load or store outside
  of a storage is an error, and the input of a gather has strides of its own; the
  properties of the device paths name the sizes and strides under which no offset wraps
  around.  Elements are exact (a commutative monoid, a semiring for the adjoint) instead of
  floats, and one device is in use.

  \<^bold>\<open>Exchange.\<close>  \<^verbatim>\<open>Token_Exchange\<close> is \<^verbatim>\<open>megatron/gdn/layout.py\<close>: the plan each rank
  makes of two layouts, its reversal, and the exchange of the whole group.  A transfer
  carries a route (pairs of rows); the lemmas show what the group gathers from any routes,
  and the routes of two layouts are the tokens they share.  The collective is an argument
  that delivers as documented.  \<^verbatim>\<open>Sequence_Exchange\<close> is the rest of that file: the view
  of a plan when the rows of a rank are split again over a tensor-parallel group; its lemmas
  show that sharding commutes with the exchange when the context-parallel rank counts first.

  \<^bold>\<open>Interfaces.\<close>  Three locales.  \<open>prefix_packer\<close> (\<^verbatim>\<open>Segment_Plan\<close>) is what a
  client may conclude from any planner of segments; it is interpreted on the radix walk in
  \<^verbatim>\<open>Prefix_Pack\<close> and on the layout planner in \<^verbatim>\<open>Prefix_Layout\<close>.  \<open>rooted_forest\<close>
  (\<^verbatim>\<open>Forest\<close>) is the ancestor relation with its numbering, interpreted on the accepted
  rows in \<^verbatim>\<open>Mask_Intervals\<close>.  \<open>tensor_layout\<close> (\<^verbatim>\<open>Range_Ops\<close>) is the address arithmetic
  of a tensor in memory, interpreted on token-major and head-major tensors.

  \<^bold>\<open>Fuel.\<close>  Numbering the forest of a mask takes one unit per segment and one more; the
  alias chain of a restricted plan is no longer than the segments kept; the ancestor chain
  of a segment no longer than the segments of the row; the preorder of the decision forest
  visits a node twice, so twice the decisions suffice.  The other loops recurse on the
  data or on a measure.

  \<^bold>\<open>Parameters.\<close>  The digests of trees and layouts, the scorer of the search and the
  structure of a plan the scorer reads are arguments: the results hold for every choice.
  The shuffle of the packed rows is an arbitrary permutation.  Weights and advantages are
  elements of a linearly ordered field.

  \<^bold>\<open>What was found.\<close>  Rebuilding the plan of a row can raise or drop tokens
  (\<open>rebuild_can_raise\<close>, \<open>rebuild_can_drop_tokens\<close> in \<^verbatim>\<open>Pack_Rows\<close>); a prune can
  unload an adapter between the two halves of an exact lease (\<open>exact_lease_race\<close>), and
  one that starts before the first lease of a model unloads what is leased meanwhile
  (\<open>unguarded_prune_race\<close>); closing the service breaks the return of one (\<open>close_breaks_return\<close>); an in-place
  sum into a non-contiguous tensor is lost (\<open>noncontiguous_output_unchanged\<close>); the
  kernels compute offsets in 32 bits (\<open>row_offset_wraps\<close>) and a token-major device gather
  reads rows that are not packed wrongly (\<open>unpacked_rows_misread\<close>); one row
  is broadcast over a larger output (\<open>single_row_broadcast\<close>); the inferred order of the
  composite ranks differs within a tensor-parallel-major group
  (\<open>tp_major_exchange_fails\<close> in \<^verbatim>\<open>Sequence_Exchange\<close>).

  \<^bold>\<open>Not modelled.\<close>  Tokenisation and trajectories (tokenizers and chat templates are
  third-party and the code follows their text), the trainer rank's runtime, the
  context-parallel executor and its collectives, the model definitions, kernels and gated
  delta networks (floating point on third-party modules), the distributed stores and
  actors, the pipeline trainer and tuner (asynchronous orchestration), the server patches,
  clients, utilities, scripts, examples and tests.  In the parts that are modelled: the
  recursion limit of the interpreter, which the walk of \<^verbatim>\<open>block_mask.py\<close> over a deep tree
  can reach, plotting, file-backed tensors, timing and log output, the price in microseconds of a
  layout (a float division of the modelled price), and images of a multimodal row beyond
  their count.
\<close>

section \<open>From the planner to the mask\<close>

text \<open>
  C29. The layout the production selection chooses keeps causal attention: for every
  runtime, calibrated or not, selection returns a layout, materialising it succeeds, and
  in the packed rows (padded by any amount) the interval labels of the mask let the x-th
  token of a sequence see exactly the first x tokens of that sequence and itself, while
  the tokens read at the positions of the sequence are the sequence.
\<close>

theorem selected_layout_keeps_attention:
  assumes "build_canonical_prefix_tree digest rs = Inr tree" and "0 \<le> budget"
    and "select_scoring capability memory dtype geometry shape = Inr sel"
    and "map snd seqs = rs" and "card (set (map fst seqs)) = 1"
  shows "\<exists>c p ctx. select_prefix_tree_layout digest search_digest tree (configured sel cp layers uses_gdn tp gdn)
      (Some (se_version sel)) budget (se_reranker sel) plan_of = Inr c \<and>
    materialize_prefix_tree_layout seqs tree (sc_layout c) verify = Inr p \<and>
    prepare_block_mask_context (group_ids p @ replicate k (-1)) (parent_ids p @ replicate k (-1)) None = Inr ctx \<and>
    (\<forall>i < length rs. map ((!) (tokens p)) (positions_by_sequence p ! i) = rs ! i \<and>
      (\<forall>x < length (rs ! i). \<forall>b < length (tokens p).
        let a = positions_by_sequence p ! i ! x in
        (b \<le> a \<and> group_enter ctx ! b \<le> group_enter ctx ! a \<and> group_enter ctx ! a < group_exit ctx ! b) \<longleftrightarrow>
        b \<in> set (take (Suc x) (positions_by_sequence p ! i))))"
proof -
  obtain c where c: "select_prefix_tree_layout digest search_digest tree (configured sel cp layers uses_gdn tp gdn)
      (Some (se_version sel)) budget (se_reranker sel) plan_of = Inr c"
    and ly: "plan_prefix_tree_layout digest tree (decisions_of c) = Inr (sc_layout c)"
    using production_selection [OF assms(1-3)] by blast
  let ?P = "layout_segments tree (decisions_of c)"
  have S: "decisions_of c \<subseteq> set (ct_decisions tree)" by (rule conjunct1 [OF planned_decisions [OF ly]])
  have p: "materialize_prefix_tree_layout seqs tree (sc_layout c) verify = Inr (pack_tensors rs ?P)"
  proof (rule materialize_layout [OF assms(1) S assms(4,5), of verify])
    fix ly' assume "plan_prefix_tree_layout digest tree (decisions_of c) = Inr ly'"
      "materialize_prefix_tree_layout seqs tree ly' verify = Inr (pack_tensors rs ?P)"
    with ly show ?thesis by simp
  qed
  have wp: "well_packed rs ?P" by (rule layout_segments_packed [OF build_canonical_Inr(3) [OF assms(1)]])
  have acc: "layout_accepts (digest, decisions_of c) rs" and plan: "layout_plan (digest, decisions_of c) rs = ?P"
    using assms(1) S by (simp_all add: layout_accepts_def layout_plan_def)
  note f = pack_tensors_fields [OF wp]
  have len: "length (tokens (pack_tensors rs ?P)) = plan_length ?P"
    unfolding f(1) by (rule materialize_length) (rule planner.token_chunk_length [OF acc, unfolded plan])
  obtain ctx where ctx: "prepare_block_mask_context (group_row ?P @ replicate k (-1)) (parent_row ?P @ replicate k (-1)) None = Inr ctx"
    by (rule prepare_context_exists [OF parse_packed_row [OF wp]])
  have "path i ?P \<noteq> []" if "i < length rs" for i
    using nonempty_rows_segments [OF wp] build_canonical_Inr(1,2) [OF assms(1)] that by blast
  then have ne: "?P \<noteq> []" using build_canonical_Inr(1) [OF assms(1)] by fastforce
  have tok: "map ((!) (tokens (pack_tensors rs ?P))) (positions_of i ?P) = rs ! i" if "i < length rs" for i
    using planner.unpack_tokens [OF acc that] that by (simp add: f plan)
  show ?thesis
    by (intro exI [of _ c] exI [of _ "pack_tensors rs ?P"] exI [of _ ctx])
      (use c p ctx tok packed_labels [OF wp ne _ _ _ ctx] in \<open>simp add: f len [unfolded f] Let_def\<close>)
qed

theorem selected_layout_keeps_attention_witness:
  "\<exists>c p ctx. select_prefix_tree_layout (\<lambda>p. ''d'') (\<lambda>p. ''s'')
      (projr (build_canonical_prefix_tree (\<lambda>p. ''d'') [[1, 2, 3], [1, 2, 4]]))
      (configured (table_selection dense_attn_h4096_table) 4 36 False 1 None)
      (Some (se_version (table_selection dense_attn_h4096_table))) 50
      (se_reranker (table_selection dense_attn_h4096_table)) None = Inr c \<and>
    materialize_prefix_tree_layout [(Cpu, [1, 2, 3]), (Cpu, [1, 2, 4])]
      (projr (build_canonical_prefix_tree (\<lambda>p. ''d'') [[1, 2, 3], [1, 2, 4]])) (sc_layout c) True = Inr p \<and>
    map ((!) (tokens p)) (positions_by_sequence p ! 1) = [1, 2, 4] \<and>
    prepare_block_mask_context (group_ids p @ replicate 2 (-1)) (parent_ids p @ replicate 2 (-1)) None = Inr ctx"
proof -
  let ?tree = "projr (build_canonical_prefix_tree (\<lambda>p. ''d'') [[1, 2, 3], [1, 2, 4]])"
  have tree: "build_canonical_prefix_tree (\<lambda>p. ''d'') [[1, 2, 3], [1, 2, 4]] = Inr ?tree" by (simp add: canonical_example)
  have budget: "(0 :: int) \<le> 50" by simp
  have seqs: "map snd [(Cpu, [1, 2, 3]), (Cpu, [1, 2, 4 :: int])] = [[1, 2, 3], [1, 2, 4]]"
    "card (set (map fst [(Cpu, [1, 2, 3]), (Cpu, [1, 2, 4 :: int])])) = 1" by simp_all
  have second: "(1 :: nat) < length [[1, 2, 3], [1, 2, 4 :: int]]" "[[1, 2, 3], [1, 2, 4 :: int]] ! 1 = [1, 2, 4]" by simp_all
  from selected_layout_keeps_attention [OF tree budget selection_example seqs, of "\<lambda>p. ''s''" 4 36 False 1 None None True 2] 
  show ?thesis
    apply -
    apply (erule ex_forward, erule ex_forward, erule ex_forward)
    apply (elim conjE, intro conjI)
       apply assumption+
     apply (drule spec [of _ "1::nat"], simp only: second simp_thms)
    apply assumption
    done
qed

end
